(* ===== verification/Octk_Prelude.thy ===== *)
theory Octk_Prelude
  imports Main "HOL-Library.Word" "HOL-Library.Monad_Syntax" "HOL-Library.Signed_Division"
begin

text \<open>
  Shared vocabulary of the development: names for the fixed-width integers of the C++ sources,
  guarded memory access (an access outside an array is the value \<^term>\<open>None\<close>), the numbering of
  the bits of a byte buffer used by the bit buffer component, and the generic lemmas on words and
  lists that the component theories share.
\<close>

unbundle bit_operations_syntax

named_theorems octk_defs \<open>definitions of small operations that the proofs unfold\<close>

type_synonym u8 = "8 word"
type_synonym u16 = "16 word"
type_synonym u32 = "32 word"
type_synonym u64 = "64 word"


section \<open>Machine arithmetic written out on natural numbers\<close>

text \<open>
  \<open>size_t\<close> and \<open>uint64_t\<close> quantities that are compared and indexed with are kept as natural
  numbers; the operations that can wrap are these.
\<close>

definition add64 :: "nat \<Rightarrow> nat \<Rightarrow> nat" where
  "add64 a b = (a + b) mod 2 ^ 64"

definition sub64 :: "nat \<Rightarrow> nat \<Rightarrow> nat" where
  "sub64 a b = (a + (2 ^ 64 - b mod 2 ^ 64)) mod 2 ^ 64"

definition mul64 :: "nat \<Rightarrow> nat \<Rightarrow> nat" where
  "mul64 a b = (a * b) mod 2 ^ 64"

lemma add64_small [simp]: "a + b < 2 ^ 64 \<Longrightarrow> add64 a b = a + b"
  by (simp add: add64_def)

lemma mul64_small [simp]: "a * b < 2 ^ 64 \<Longrightarrow> mul64 a b = a * b"
  by (simp add: mul64_def)

lemma sub64_small [simp]:
  assumes "b \<le> a" and "a < 2 ^ 64"
  shows "sub64 a b = a - b"
proof -
  have "a + (2 ^ 64 - b mod 2 ^ 64) = (a - b) + 2 ^ 64"
    using assms by simp
  then have "sub64 a b = ((a - b) + 2 ^ 64) mod 2 ^ 64"
    by (simp only: sub64_def)
  also have "\<dots> = (a - b) mod 2 ^ 64"
    by (rule mod_add_self2)
  also have "\<dots> = a - b"
    using assms by simp
  finally show ?thesis .
qed

text \<open>The ranges of the signed types.\<close>

definition int32_min :: int where "int32_min = - (2 ^ 31)"
definition int32_max :: int where "int32_max = 2 ^ 31 - 1"
definition int64_min :: int where "int64_min = - (2 ^ 63)"
definition int64_max :: int where "int64_max = 2 ^ 63 - 1"
definition uint32_max :: int where "uint32_max = 2 ^ 32 - 1"

lemmas int_range_defs = int32_min_def int32_max_def int64_min_def int64_max_def uint32_max_def

text \<open>
  A conversion to \<open>int\<close> or \<open>int64_t\<close> keeps the low bits. \<open>utils::checked_cast\<close> and
  \<open>utils::dchecked_cast\<close> of \<open>octk_safe_conversions.hpp\<close> are plain conversions: the range check in
  them is commented out.
\<close>

definition cast_int32 :: "int \<Rightarrow> int" where
  "cast_int32 x = (x + 2 ^ 31) mod 2 ^ 32 - 2 ^ 31"

definition cast_int64 :: "int \<Rightarrow> int" where
  "cast_int64 x = (x + 2 ^ 63) mod 2 ^ 64 - 2 ^ 63"

definition in_int32 :: "int \<Rightarrow> bool" where
  "in_int32 x \<longleftrightarrow> int32_min \<le> x \<and> x \<le> int32_max"

definition in_int64 :: "int \<Rightarrow> bool" where
  "in_int64 x \<longleftrightarrow> int64_min \<le> x \<and> x \<le> int64_max"


lemma cast_int32_id [simp]: "in_int32 x \<Longrightarrow> cast_int32 x = x"
  by (simp add: in_int32_def cast_int32_def int_range_defs)

lemma cast_int64_id [simp]: "in_int64 x \<Longrightarrow> cast_int64 x = x"
  by (simp add: in_int64_def cast_int64_def int_range_defs)


lemma div_le_self:
  fixes x d :: int
  assumes "0 < d" "0 \<le> x"
  shows "0 \<le> x div d" "x div d \<le> x"
  using assms zdiv_mono2 [of x 1 d] by (simp_all add: pos_imp_zdiv_nonneg_iff)

text \<open>A signed 64-bit result; overflow is undefined.\<close>

definition int64 :: "int \<Rightarrow> int option" where
  "int64 x = (if in_int64 x then Some x else None)"

lemma int64_Some [simp]: "in_int64 x \<Longrightarrow> int64 x = Some x"
  by (simp add: int64_def)

lemma int64_eq_Some_iff: "int64 x = Some y \<longleftrightarrow> in_int64 x \<and> y = x"
  by (auto simp: int64_def)

text \<open>Truncating division is floor division on natural numbers.\<close>

lemma sdiv_nonneg: "0 \<le> a \<Longrightarrow> 0 < b \<Longrightarrow> a sdiv b = a div (b :: int)"
  by (cases "a = 0") (simp_all add: signed_divide_int_def sgn_if)

lemma smod_nonneg: "0 \<le> a \<Longrightarrow> 0 < b \<Longrightarrow> a smod b = a mod (b :: int)"
  by (cases "a = 0") (simp_all add: signed_modulo_int_def sgn_if)


section \<open>Guarded access to arrays\<close>

text \<open>
  \<open>*p\<close> and \<open>a[i]\<close> are undefined behaviour outside the array; the model makes that a visible
  failure, so that a theorem that an operation returns \<^term>\<open>Some x\<close> includes that every access
  it makes is in range.
\<close>

definition deref :: "'a list \<Rightarrow> nat \<Rightarrow> 'a option" where
  "deref xs i = (if i < length xs then Some (xs ! i) else None)"

definition store :: "'a list \<Rightarrow> nat \<Rightarrow> 'a \<Rightarrow> 'a list option" where
  "store xs i v = (if i < length xs then Some (xs[i := v]) else None)"

lemma deref_Some [simp]: "i < length xs \<Longrightarrow> deref xs i = Some (xs ! i)"
  by (simp add: deref_def)

lemma deref_eq_Some_iff: "deref xs i = Some v \<longleftrightarrow> i < length xs \<and> xs ! i = v"
  by (auto simp: deref_def)

lemma store_Some [simp]: "i < length xs \<Longrightarrow> store xs i v = Some (xs[i := v])"
  by (simp add: store_def)


text \<open>
  \<open>OCTK_DCHECK\<close> and \<open>OCTK_CHECK\<close> stop the program when their condition fails; the model is that
  of a checked build, and the stop is \<^term>\<open>None\<close>.
\<close>

definition dcheck :: "bool \<Rightarrow> unit option" where
  "dcheck b = (if b then Some () else None)"

lemma dcheck_True [simp]: "dcheck True = Some ()"
  by (simp add: dcheck_def)

lemma dcheck_False [simp]: "dcheck False = None"
  by (simp add: dcheck_def)

lemma dcheck_eq_Some_iff: "dcheck b = Some u \<longleftrightarrow> b"
  by (cases u) (simp add: dcheck_def)


section \<open>The bits of a byte buffer\<close>

text \<open>
  Bit number \<open>k\<close> of a buffer, counted from the most significant bit of the first byte (network
  order), as \<open>BitBufferReader\<close> and \<open>BitBufferWriter\<close> number them.
\<close>

definition bbit :: "u8 list \<Rightarrow> nat \<Rightarrow> bool" where
  "bbit bs k = (k div 8 < length bs \<and> bit (bs ! (k div 8)) (7 - k mod 8))"

lemma bbit_out_of_range: "8 * length bs \<le> k \<Longrightarrow> \<not> bbit bs k"
  by (auto simp: bbit_def div_less_iff_less_mult)

lemma bbit_byte: "j < 8 \<Longrightarrow> i < length bs \<Longrightarrow> bbit bs (8 * i + j) = bit (bs ! i) (7 - j)"
  by (simp add: bbit_def)

lemma bbit_list_update:
  "i < length bs \<Longrightarrow>
     bbit (bs[i := v]) k = (if k div 8 = i then bit v (7 - k mod 8) else bbit bs k)"
  by (auto simp: bbit_def nth_list_update)

lemma bbit_ext:
  assumes "length bs = length cs" and "\<And>k. k < 8 * length bs \<Longrightarrow> bbit bs k = bbit cs k"
  shows "bs = cs"
proof (rule nth_equalityI)
  show "length bs = length cs" by fact
next
  fix i assume i: "i < length bs"
  show "bs ! i = cs ! i"
  proof (rule bit_word_eqI)
    fix j assume j: "j < LENGTH(8)"
    have "bbit bs (8 * i + (7 - j)) = bbit cs (8 * i + (7 - j))"
      using i j by (intro assms(2)) simp
    with i j show "bit (bs ! i) j = bit (cs ! i) j"
      using bbit_byte [of "7 - j" i bs] bbit_byte [of "7 - j" i cs] assms(1)
      by (simp del: add_diff_assoc)
  qed
qed

lemma bbit_nth: "i < length bs \<Longrightarrow> j < 8 \<Longrightarrow> bit (bs ! i) j = bbit bs (8 * i + (7 - j))"
  using bbit_byte [of "7 - j" i bs] by (simp del: diff_add_inverse)


section \<open>Words\<close>

lemma bit_word_high [simp]: "LENGTH('a::len) \<le> n \<Longrightarrow> \<not> bit (w :: 'a word) n"
  by (meson bit_imp_le_length not_le)

lemma bit_ucast_word: "bit (ucast (w :: 'a::len word) :: 'b::len word) n = (n < LENGTH('b) \<and> bit w n)"
  by (simp add: bit_ucast_iff)

lemma bit_push_bit_word:
  "bit (push_bit m (w :: 'a::len word)) n = (m \<le> n \<and> n < LENGTH('a) \<and> bit w (n - m))"
  by (simp add: bit_push_bit_iff)

lemma bit_drop_bit_word: "bit (drop_bit m (w :: 'a::len word)) n = bit w (m + n)"
  by (simp add: bit_drop_bit_eq)

lemma bit_mask_word: "bit (mask m :: 'a::len word) n = (n < m \<and> n < LENGTH('a))"
  by (auto simp: bit_mask_iff)

lemma bit_take_bit_word: "bit (take_bit m (w :: 'a::len word)) n = (n < m \<and> bit w n)"
  by (simp add: bit_take_bit_iff)

lemmas word_bit_simps =
  bit_ucast_word bit_push_bit_word bit_drop_bit_word bit_mask_word bit_take_bit_word
  bit_and_iff bit_or_iff bit_xor_iff bit_not_iff

lemma unat_lt2p: "unat (w :: 'a::len word) < 2 ^ LENGTH('a)"
  by (rule unsigned_less)

lemma unat_of_nat_eq: "n < 2 ^ LENGTH('a) \<Longrightarrow> unat (of_nat n :: 'a::len word) = n"
  by (simp add: unat_of_nat)

lemma unat_ucast_up:
  assumes "LENGTH('a) \<le> LENGTH('b)"
  shows "unat (ucast (w :: 'a::len word) :: 'b::len word) = unat w"
  using less_le_trans [OF unat_lt2p [of w] power_increasing [OF assms]]
  by (intro trans [OF unsigned_ucast_eq]) (simp add: take_bit_nat_eq_self)

lemma ucast_ucast_back [simp]:
  "LENGTH('a) \<le> LENGTH('b) \<Longrightarrow> ucast (ucast (w :: 'a::len word) :: 'b::len word) = w"
  by (rule bit_word_eqI) (auto simp: bit_ucast_word)

lemma even_unat_iff: "even (unat (w :: 'a::len word)) \<longleftrightarrow> even w"
proof -
  have "bit (unat w) 0 = bit w 0" by (simp only: bit_unsigned_iff) simp
  then show ?thesis unfolding bit_0 by blast
qed

lemma take_bit_word_eq_self: "unat (w :: 'a::len word) < 2 ^ n \<Longrightarrow> take_bit n w = w"
  by (rule word_unat_eq_iff [THEN iffD2]) (simp add: unsigned_take_bit_eq take_bit_nat_eq_self)

lemma unat_less_bit: "unat (w :: 'a::len word) < 2 ^ n \<Longrightarrow> n \<le> k \<Longrightarrow> \<not> bit w k"
  by (metis bit_take_bit_word linorder_not_less take_bit_word_eq_self)


section \<open>Operations that keep an invariant and always return\<close>

text \<open>
  The interface that the stateful components share: operations take a state and return
  \<^term>\<open>Some (s', v)\<close>, or \<^term>\<open>None\<close> when a check fails or an access is out of range. An operation is
  \<open>safe\<close> when from every state that satisfies the invariant it returns, the invariant holds
  again, the new state is related to the old one (the same buffer, the same length), and the
  value returned has the property \<open>Q\<close>. The laws are those of a preorder; \<open>safe\<close> is then closed
  under sequencing and choice, which carries the proofs for the composed operations.
\<close>

text \<open>A session: a list of operations, each run on the state the one before left.\<close>

primrec session :: "('o \<Rightarrow> 's \<Rightarrow> ('s \<times> 'v) option) \<Rightarrow> 'o list \<Rightarrow> 's \<Rightarrow> 's option" where
  "session step [] s = Some s"
| "session step (op # ops) s = step op s \<bind> (\<lambda>(s', _). session step ops s')"

locale safe_ops =
  fixes inv :: "'s \<Rightarrow> bool" and rel :: "'s \<Rightarrow> 's \<Rightarrow> bool"
  assumes rel_refl: "inv s \<Longrightarrow> rel s s"
    and rel_trans: "rel s t \<Longrightarrow> rel t u \<Longrightarrow> rel s u"
begin

definition safe :: "('v \<Rightarrow> bool) \<Rightarrow> ('s \<Rightarrow> ('s \<times> 'v) option) \<Rightarrow> bool" where
  "safe Q f \<longleftrightarrow> (\<forall>s. inv s \<longrightarrow> (\<exists>s' v. f s = Some (s', v) \<and> inv s' \<and> rel s s' \<and> Q v))"

lemma safeI: "(\<And>s. inv s \<Longrightarrow> \<exists>s' v. f s = Some (s', v) \<and> inv s' \<and> rel s s' \<and> Q v) \<Longrightarrow> safe Q f"
  by (simp add: safe_def)

lemma safeD:
  assumes "safe Q f" and "inv s"
  obtains s' v where "f s = Some (s', v)" and "inv s'" and "rel s s'" and "Q v"
  using assms by (auto simp: safe_def)

lemma safe_weaken: "safe Q f \<Longrightarrow> (\<And>v. Q v \<Longrightarrow> R v) \<Longrightarrow> safe R f"
  by (fastforce simp: safe_def)

lemma safe_return: "Q v \<Longrightarrow> safe Q (\<lambda>s. Some (s, v))"
  by (auto simp: safe_def rel_refl)

lemma safe_bind:
  assumes "safe Q f" and "\<And>v. Q v \<Longrightarrow> safe R (g v)"
  shows "safe R (\<lambda>s. f s \<bind> (\<lambda>(s', v). g v s'))"
proof (rule safeI)
  fix s assume "inv s"
  with assms(1) obtain t v where 1: "f s = Some (t, v)" "inv t" "rel s t" "Q v" by (rule safeD)
  from assms(2) [OF 1(4)] 1(2) obtain u w where "g v t = Some (u, w)" "inv u" "rel t u" "R w" by (rule safeD)
  with 1 show "\<exists>s' v. f s \<bind> (\<lambda>(s', v). g v s') = Some (s', v) \<and> inv s' \<and> rel s s' \<and> R v"
    by (auto intro: rel_trans)
qed

lemma safe_if: "(b \<Longrightarrow> safe Q f) \<Longrightarrow> (\<not> b \<Longrightarrow> safe Q g) \<Longrightarrow> safe Q (\<lambda>s. if b then f s else g s)"
  by (cases b) simp_all

lemma safe_map:
  assumes "\<And>s. inv s \<Longrightarrow> inv (h s) \<and> rel s (h s) \<and> Q (w s)"
  shows "safe Q (\<lambda>s. Some (h s, w s))"
  using assms by (auto simp: safe_def)

lemma session_safe:
  assumes "list_all ok ops" and "\<And>op. ok op \<Longrightarrow> safe (\<lambda>_. True) (step op)" and "inv s"
  shows "\<exists>s'. session step ops s = Some s' \<and> inv s' \<and> rel s s'"
  using assms(1,3)
proof (induction ops arbitrary: s)
  case (Cons op ops)
  then have "safe (\<lambda>_. True) (step op)" using assms(2) by simp
  from this Cons.prems(2) obtain t v where 1: "step op s = Some (t, v)" "inv t" "rel s t" by (rule safeD)
  from Cons.IH [OF _ 1(2)] Cons.prems obtain u where "session step ops t = Some u" "inv u" "rel t u" by auto
  with 1 show ?case by (auto intro: rel_trans)
qed (simp add: rel_refl)

end

end
