(* ===== verification/Bits.thy ===== *)
theory Bits
  imports Octk_Prelude "HOL-Library.Log_Nat"
begin

text \<open>
  The bit-twiddling library \<open>src/libs/core/source/numerics/octk_bits.hpp\<close>. Where the header
  chooses between compiler builtins and portable code, the portable code is modelled; the
  theorems show that it computes what the builtins are documented to compute (position of the
  highest or lowest one bit), so the two configurations agree.

  Reference function: \<^term>\<open>floorlog 2 n\<close> is the number of binary digits of \<open>n\<close>.
\<close>

section \<open>Definitions\<close>

definition IsPowerOf2 :: "u32 \<Rightarrow> bool" where
  "IsPowerOf2 x \<longleftrightarrow> x \<noteq> 0 \<and> (x AND (x - 1)) = 0"

definition RotateRight :: "'a::len word \<Rightarrow> int \<Rightarrow> 'a word" where
  "RotateRight x s =
     drop_bit (nat (s AND (int LENGTH('a) - 1))) x OR
     push_bit (nat ((- s) AND (int LENGTH('a) - 1))) x"

definition RotateLeft :: "'a::len word \<Rightarrow> int \<Rightarrow> 'a word" where
  "RotateLeft x s =
     push_bit (nat (s AND (int LENGTH('a) - 1))) x OR
     drop_bit (nat ((- s) AND (int LENGTH('a) - 1))) x"

text \<open>
  The string literal at the end of the portable \<open>CountLeadingZeroes\<close> functions, indexed by the
  remaining nibble; its sixteenth character is the terminating zero.
\<close>

definition clz_nibble_table :: "int list" where
  "clz_nibble_table = [4, 3, 2, 2, 1, 1, 1, 1, 0, 0, 0, 0, 0, 0, 0, 0]"

text \<open>One \<open>if (x >> k) { zeroes -= k; x >>= k; }\<close> block.\<close>

definition clz_step :: "nat \<Rightarrow> int \<times> 'a::len word \<Rightarrow> int \<times> 'a word" where
  "clz_step k = (\<lambda>(zeroes, x).
     if drop_bit k x \<noteq> 0 then (zeroes - int k, drop_bit k x) else (zeroes, x))"

definition CountLeadingZeroes32 :: "u32 \<Rightarrow> int" where
  "CountLeadingZeroes32 x =
     (let (zeroes, y) = clz_step 4 (clz_step 8 (clz_step 16 (28, x)))
      in clz_nibble_table ! unat y + zeroes)"

definition CountLeadingZeroes64 :: "u64 \<Rightarrow> int" where
  "CountLeadingZeroes64 x =
     (let (zeroes, y) = clz_step 4 (clz_step 8 (clz_step 16 (clz_step 32 (60, x))))
      in clz_nibble_table ! unat y + zeroes)"

definition CountLeadingZeroes16 :: "u16 \<Rightarrow> int" where
  "CountLeadingZeroes16 x = CountLeadingZeroes32 (ucast x) - 16"

definition CountLeadingZeroes :: "'a::len word \<Rightarrow> int" where
  "CountLeadingZeroes x =
     (if LENGTH('a) \<le> 16 then CountLeadingZeroes16 (ucast x) - (16 - int LENGTH('a))
      else if LENGTH('a) \<le> 32 then CountLeadingZeroes32 (ucast x) - (32 - int LENGTH('a))
      else CountLeadingZeroes64 (ucast x))"

text \<open>One \<open>if (x & mask) c -= k;\<close> of the portable \<open>CountTrailingZeroesNonzero\<close> functions.\<close>

definition ctz_step :: "'a::len word \<Rightarrow> 'a word \<Rightarrow> int \<Rightarrow> int \<Rightarrow> int" where
  "ctz_step x m k c = (if x AND m \<noteq> 0 then c - k else c)"

definition CountTrailingZeroesNonzero32 :: "u32 \<Rightarrow> int" where
  "CountTrailingZeroesNonzero32 x0 =
     (let x = x0 AND (NOT x0 + 1)
      in ctz_step x 0x55555555 1 (ctz_step x 0x33333333 2 (ctz_step x 0x0F0F0F0F 4
           (ctz_step x 0x00FF00FF 8 (ctz_step x 0x0000FFFF 16 31)))))"

definition CountTrailingZeroesNonzero64 :: "u64 \<Rightarrow> int" where
  "CountTrailingZeroesNonzero64 x0 =
     (let x = x0 AND (NOT x0 + 1)
      in ctz_step x 0x5555555555555555 1 (ctz_step x 0x3333333333333333 2
           (ctz_step x 0x0F0F0F0F0F0F0F0F 4 (ctz_step x 0x00FF00FF00FF00FF 8
             (ctz_step x 0x0000FFFF0000FFFF 16 (ctz_step x 0x00000000FFFFFFFF 32 63))))))"

definition CountTrailingZeroesNonzero16 :: "u16 \<Rightarrow> int" where
  "CountTrailingZeroesNonzero16 x = CountTrailingZeroesNonzero32 (ucast x)"

definition CountTrailingZeroes :: "'a::len word \<Rightarrow> int" where
  "CountTrailingZeroes x =
     (if x = 0 then int LENGTH('a)
      else if LENGTH('a) \<le> 16 then CountTrailingZeroesNonzero16 (ucast x)
      else if LENGTH('a) \<le> 32 then CountTrailingZeroesNonzero32 (ucast x)
      else CountTrailingZeroesNonzero64 (ucast x))"

definition rotl :: "'a::len word \<Rightarrow> int \<Rightarrow> 'a word" where
  "rotl x s = RotateLeft x s"

definition rotr :: "'a::len word \<Rightarrow> int \<Rightarrow> 'a word" where
  "rotr x s = RotateRight x s"

definition countl_zero :: "'a::len word \<Rightarrow> int" where
  "countl_zero x = CountLeadingZeroes x"

definition countl_one :: "'a::len word \<Rightarrow> int" where
  "countl_one x = countl_zero (NOT x)"

definition countr_zero :: "'a::len word \<Rightarrow> int" where
  "countr_zero x = CountTrailingZeroes x"

definition countr_one :: "'a::len word \<Rightarrow> int" where
  "countr_one x = countr_zero (NOT x)"

definition has_single_bit :: "'a::len word \<Rightarrow> bool" where
  "has_single_bit x \<longleftrightarrow> x \<noteq> 0 \<and> (x AND (x - 1)) = 0"

text \<open>
  \<open>digits - static_cast<unsigned int>(countl_zero(x))\<close>. The source returns it as a \<open>T\<close>; the
  value is at most the number of digits and fits every \<open>T\<close>, so it is a natural number here.
\<close>

definition bit_width :: "'a::len word \<Rightarrow> nat" where
  "bit_width x = nat (int LENGTH('a) - countl_zero x)"

definition bit_floor :: "'a::len word \<Rightarrow> 'a word" where
  "bit_floor x = (if x = 0 then 0 else push_bit (bit_width x - 1) 1)"

text \<open>
  \<open>(T{1} << (x + promotion)) >> promotion\<close>: the shift happens at the width of \<open>unsigned\<close> when
  \<open>T\<close> is narrower; shifting by that width or more is undefined (\<^term>\<open>None\<close>).
\<close>

definition BitCeilPromotionHelper :: "nat \<Rightarrow> nat \<Rightarrow> 'a::len word option" where
  "BitCeilPromotionHelper x promotion =
     (let w = max 32 LENGTH('a)
      in if x + promotion < w then Some (of_nat (2 ^ (x + promotion) div 2 ^ promotion)) else None)"

definition BitCeilNonPowerOf2 :: "'a::len word \<Rightarrow> 'a word option" where
  "BitCeilNonPowerOf2 x =
     BitCeilPromotionHelper (nat (int LENGTH('a) - CountLeadingZeroes x))
       (if LENGTH('a) \<ge> 32 then 0 else 32 - LENGTH('a))"

definition bit_ceil :: "'a::len word \<Rightarrow> 'a word option" where
  "bit_ceil x =
     (if has_single_bit x then Some (push_bit (bit_width x - 1) 1) else BitCeilNonPowerOf2 x)"


section \<open>Counting leading zeroes\<close>

lemma floorlog_drop_bit: "drop_bit k n \<noteq> 0 \<Longrightarrow> floorlog 2 n = floorlog 2 (drop_bit k n) + k"
proof (induction k arbitrary: n)
  case 0
  then show ?case by simp
next
  case (Suc k)
  then have "drop_bit k (n div 2) \<noteq> 0"
    by (simp add: drop_bit_Suc)
  then have "floorlog 2 (n div 2) = floorlog 2 (drop_bit k (n div 2)) + k" and "n > 0"
    using Suc.IH by (auto intro: gr0I)
  then show ?case
    by (simp add: compute_floorlog [of 2 n] drop_bit_Suc)
qed

lemma clz_step_sum:
  assumes "clz_step k (z, x) = (z', y)"
  shows "z' + int (floorlog 2 (unat x)) = z + int (floorlog 2 (unat y))"
  using assms
  by (auto simp: clz_step_def unat_drop_bit_eq unat_eq_0 [symmetric] floorlog_drop_bit [of k "unat x"]
      split: if_splits)

lemma clz_step_bound:
  fixes x :: "'a::len word"
  assumes "clz_step k (z, x) = (z', y)" and "unat x < 2 ^ (2 * k)"
  shows "unat y < 2 ^ k"
proof (cases "drop_bit k x = 0")
  case True
  then have "unat x div 2 ^ k = 0"
    by (metis unat_0 unat_drop_bit_eq drop_bit_eq_div)
  with True assms show ?thesis
    by (auto simp: clz_step_def div_eq_0_iff)
next
  case False
  with assms(1) have "unat y = unat x div 2 ^ k"
    by (auto simp: clz_step_def unat_drop_bit_eq simp flip: drop_bit_eq_div)
  also have "\<dots> < 2 ^ k"
    using assms(2) by (simp add: div_less_iff_less_mult mult_2 power_add)
  finally show ?thesis .
qed

lemma clz_nibble: "n < 16 \<Longrightarrow> clz_nibble_table ! n = 4 - int (floorlog 2 n)"
proof -
  assume "n < 16"
  then have "n \<in> {0, 1, 2, 3, 4, 5, 6, 7, 8, 9, 10, 11, 12, 13, 14, 15}"
    by (simp; arith)
  then show ?thesis
    by (elim insertE) (simp_all add: clz_nibble_table_def compute_floorlog)
qed

lemma CountLeadingZeroes32_correct:
  "CountLeadingZeroes32 x = 32 - int (floorlog 2 (unat x))"
proof -
  obtain z1 x1 where 1: "clz_step 16 (28, x) = (z1, x1)" by fastforce
  obtain z2 x2 where 2: "clz_step 8 (z1, x1) = (z2, x2)" by fastforce
  obtain z3 x3 where 3: "clz_step 4 (z2, x2) = (z3, x3)" by fastforce
  have "unat x1 < 2 ^ 16"
    by (rule clz_step_bound [OF 1]) (use unat_lt2p [of x] in simp)
  then have "unat x2 < 2 ^ 8"
    by (intro clz_step_bound [OF 2]) simp
  then have "unat x3 < 2 ^ 4"
    by (intro clz_step_bound [OF 3]) simp
  then have "clz_nibble_table ! unat x3 = 4 - int (floorlog 2 (unat x3))"
    by (simp add: clz_nibble)
  then show ?thesis
    using clz_step_sum [OF 1] clz_step_sum [OF 2] clz_step_sum [OF 3]
    by (simp add: CountLeadingZeroes32_def 1 2 3)
qed

lemma CountLeadingZeroes64_correct:
  "CountLeadingZeroes64 x = 64 - int (floorlog 2 (unat x))"
proof -
  obtain z0 x0 where 0: "clz_step 32 (60, x) = (z0, x0)" by fastforce
  obtain z1 x1 where 1: "clz_step 16 (z0, x0) = (z1, x1)" by fastforce
  obtain z2 x2 where 2: "clz_step 8 (z1, x1) = (z2, x2)" by fastforce
  obtain z3 x3 where 3: "clz_step 4 (z2, x2) = (z3, x3)" by fastforce
  have "unat x0 < 2 ^ 32"
    by (rule clz_step_bound [OF 0]) (use unat_lt2p [of x] in simp)
  then have "unat x1 < 2 ^ 16"
    by (intro clz_step_bound [OF 1]) simp
  then have "unat x2 < 2 ^ 8"
    by (intro clz_step_bound [OF 2]) simp
  then have "unat x3 < 2 ^ 4"
    by (intro clz_step_bound [OF 3]) simp
  then have "clz_nibble_table ! unat x3 = 4 - int (floorlog 2 (unat x3))"
    by (simp add: clz_nibble)
  then show ?thesis
    using clz_step_sum [OF 0] clz_step_sum [OF 1] clz_step_sum [OF 2] clz_step_sum [OF 3]
    by (simp add: CountLeadingZeroes64_def 0 1 2 3)
qed

lemma unat_ucast_wider: "LENGTH('a) \<le> LENGTH('b) \<Longrightarrow> unat (ucast (x :: 'a::len word) :: 'b::len word) = unat x"
  by (simp add: unsigned_ucast_eq take_bit_nat_eq_self order_less_le_trans [OF unsigned_less])

lemma countl_zero_correct:
  fixes x :: "'a::len word"
  assumes "LENGTH('a) \<in> {8, 16, 32, 64}"
  shows "countl_zero x = int LENGTH('a) - int (floorlog 2 (unat x))"
  using assms
  by (auto simp: countl_zero_def CountLeadingZeroes_def CountLeadingZeroes16_def
      CountLeadingZeroes32_correct CountLeadingZeroes64_correct unat_ucast_wider)

lemma floorlog2_le_iff: "floorlog 2 n \<le> k \<longleftrightarrow> n < 2 ^ k"
  by (cases "n = 0") (simp_all add: floorlog_leD floorlog_leI less_le_trans iffI)

lemma bit_width_correct:
  fixes x :: "'a::len word"
  assumes "LENGTH('a) \<in> {8, 16, 32, 64}"
  shows "bit_width x = floorlog 2 (unat x)"
  using assms by (simp add: bit_width_def countl_zero_correct)

lemma floorlog2_bounds: "0 < n \<Longrightarrow> 2 ^ (floorlog 2 n - 1) \<le> n \<and> n < 2 ^ floorlog 2 n"
  using floorlog_bounds [of n 2] by simp

lemma floorlog_pos: "0 < n \<Longrightarrow> 0 < floorlog 2 n"
  by (simp add: compute_floorlog)

lemma bit_width_bounds:
  fixes x :: "'a::len word"
  assumes "LENGTH('a) \<in> {8, 16, 32, 64}" and "x \<noteq> 0"
  shows "2 ^ (bit_width x - 1) \<le> unat x \<and> unat x < 2 ^ bit_width x \<and> 0 < bit_width x"
  using assms floorlog2_bounds [of "unat x"] floorlog_pos [of "unat x"]
  by (simp add: bit_width_correct unat_gt_0)

lemma bit_width_le_iff:
  fixes x :: "'a::len word"
  assumes "LENGTH('a) \<in> {8, 16, 32, 64}"
  shows "bit_width x \<le> k \<longleftrightarrow> unat x < 2 ^ k"
  using assms by (simp add: bit_width_correct floorlog2_le_iff)


section \<open>Isolating the lowest one bit\<close>

text \<open>
  Every nonzero word is \<open>z\<close> shifted left by \<open>k + 1\<close> plus \<open>2 ^ k\<close>; the identities behind
  \<open>x & (x - 1)\<close> and \<open>x & (~x + 1)\<close> follow from this form.
\<close>

definition is_lowest_bit :: "'a::len word \<Rightarrow> nat \<Rightarrow> bool" where
  "is_lowest_bit x k \<longleftrightarrow> bit x k \<and> (\<forall>j<k. \<not> bit x j)"

lemma is_lowest_bit_less: "is_lowest_bit (x :: 'a::len word) k \<Longrightarrow> k < LENGTH('a)"
  by (auto simp: is_lowest_bit_def dest: bit_imp_le_length)

lemma ex_lowest_bit:
  assumes "x \<noteq> 0"
  obtains k where "is_lowest_bit x k"
proof -
  from assms obtain n where "bit x n"
    by (metis bit_0_eq bit_eq_iff bot_apply bot_bool_def)
  then have "is_lowest_bit x (LEAST k. bit x k)"
    by (auto simp: is_lowest_bit_def intro: LeastI dest: not_less_Least)
  then show ?thesis by (rule that)
qed

lemmas shift_bit_simps = word_bit_simps bit_1_iff

lemma lowest_split:
  fixes x :: "'a::len word"
  assumes "is_lowest_bit x k"
  shows "x = push_bit (Suc k) (drop_bit (Suc k) x) + push_bit k 1"
proof -
  have "x = push_bit (Suc k) (drop_bit (Suc k) x) OR push_bit k 1"
  proof (rule bit_word_eqI)
    fix n assume "n < LENGTH('a)"
    then show "bit x n = bit (push_bit (Suc k) (drop_bit (Suc k) x) OR push_bit k 1) n"
      using assms by (cases n k rule: linorder_cases)
        (simp_all add: shift_bit_simps is_lowest_bit_def del: push_bit_Suc push_bit_of_1)
  qed
  also have "\<dots> = push_bit (Suc k) (drop_bit (Suc k) x) + push_bit k 1"
    by (rule disjunctive_add [symmetric])
       (auto simp: shift_bit_simps simp del: push_bit_Suc push_bit_of_1)
  finally show ?thesis .
qed

lemma lowest_minus_one:
  assumes "is_lowest_bit x k"
  shows "x - 1 = push_bit (Suc k) (drop_bit (Suc k) x) OR mask k"
proof -
  have "x - 1 = push_bit (Suc k) (drop_bit (Suc k) x) + mask k"
    by (subst (1) lowest_split [OF assms])
       (simp add: mask_eq_exp_minus_1 del: push_bit_Suc)
  also have "\<dots> = push_bit (Suc k) (drop_bit (Suc k) x) OR mask k"
    by (rule disjunctive_add) (auto simp: shift_bit_simps simp del: push_bit_Suc)
  finally show ?thesis .
qed

lemma lowest_clear:
  assumes "is_lowest_bit x k"
  shows "x AND (x - 1) = push_bit (Suc k) (drop_bit (Suc k) x)"
  using assms unfolding lowest_minus_one [OF assms] is_lowest_bit_def
  by (intro bit_word_eqI) (auto simp: shift_bit_simps simp del: push_bit_Suc)

lemma lowest_isolate:
  fixes x :: "'a::len word"
  assumes "is_lowest_bit x k"
  shows "x AND (NOT x + 1) = push_bit k 1"
proof -
  have neg: "NOT x + 1 = NOT (x - 1)"
    by (simp add: not_eq_complement)
  show ?thesis
  proof (rule bit_word_eqI)
    fix n assume "n < LENGTH('a)"
    then show "bit (x AND (NOT x + 1)) n = bit (push_bit k 1 :: 'a word) n"
      using assms unfolding neg lowest_minus_one [OF assms]
      by (cases n k rule: linorder_cases)
        (simp_all add: shift_bit_simps is_lowest_bit_def del: push_bit_Suc push_bit_of_1)
  qed
qed


section \<open>Counting trailing zeroes\<close>

lemma ctz_step_pow2:
  fixes m :: "'a::len word"
  assumes "k < LENGTH('a)"
  shows "ctz_step (push_bit k 1) m d c = c - of_bool (bit m k) * d"
proof -
  have "bit (push_bit k 1 AND m) n = (n = k \<and> bit m k)" for n
    using assms by (auto simp: shift_bit_simps simp del: push_bit_of_1)
  then have "(push_bit k 1 AND m \<noteq> 0) = bit m k"
    by (metis bit_0_eq bit_eq_iff bot_apply bot_bool_def)
  then show ?thesis by (simp add: ctz_step_def)
qed

lemma ctz_bits_32:
  "list_all (\<lambda>k.
     31 - of_bool (bit (0x0000FFFF :: u32) k) * 16 - of_bool (bit (0x00FF00FF :: u32) k) * 8
        - of_bool (bit (0x0F0F0F0F :: u32) k) * 4 - of_bool (bit (0x33333333 :: u32) k) * 2
        - of_bool (bit (0x55555555 :: u32) k) * 1 = int k) [0..<32]"
  by (simp add: upt_rec)

lemma ctz_bits_64:
  "list_all (\<lambda>k.
     63 - of_bool (bit (0x00000000FFFFFFFF :: u64) k) * 32
        - of_bool (bit (0x0000FFFF0000FFFF :: u64) k) * 16
        - of_bool (bit (0x00FF00FF00FF00FF :: u64) k) * 8
        - of_bool (bit (0x0F0F0F0F0F0F0F0F :: u64) k) * 4
        - of_bool (bit (0x3333333333333333 :: u64) k) * 2
        - of_bool (bit (0x5555555555555555 :: u64) k) * 1 = int k) [0..<64]"
  by (simp add: upt_rec)

lemma list_all_uptD: "list_all P [0..<n] \<Longrightarrow> k < n \<Longrightarrow> P k"
  by (simp add: list_all_iff)

lemma CountTrailingZeroesNonzero32_correct:
  assumes "is_lowest_bit x k"
  shows "CountTrailingZeroesNonzero32 x = int k"
  using list_all_uptD [OF ctz_bits_32, of k] is_lowest_bit_less [OF assms]
  by (simp add: CountTrailingZeroesNonzero32_def lowest_isolate [OF assms] ctz_step_pow2
      del: push_bit_of_1)

lemma CountTrailingZeroesNonzero64_correct:
  assumes "is_lowest_bit x k"
  shows "CountTrailingZeroesNonzero64 x = int k"
  using list_all_uptD [OF ctz_bits_64, of k] is_lowest_bit_less [OF assms]
  by (simp add: CountTrailingZeroesNonzero64_def lowest_isolate [OF assms] ctz_step_pow2
      del: push_bit_of_1)

lemma is_lowest_bit_ucast:
  fixes x :: "'a::len word"
  assumes "LENGTH('a) \<le> LENGTH('b::len)" and "is_lowest_bit x k"
  shows "is_lowest_bit (ucast x :: 'b word) k"
  using assms is_lowest_bit_less [OF assms(2)] by (auto simp: is_lowest_bit_def bit_ucast_word)

lemma countr_zero_correct:
  fixes x :: "'a::len word"
  assumes "LENGTH('a) \<in> {8, 16, 32, 64}" and "is_lowest_bit x k"
  shows "countr_zero x = int k"
proof -
  have "x \<noteq> 0"
    using assms(2) by (auto simp: is_lowest_bit_def)
  with assms show ?thesis
    by (auto simp: countr_zero_def CountTrailingZeroes_def CountTrailingZeroesNonzero16_def
        intro!: CountTrailingZeroesNonzero32_correct CountTrailingZeroesNonzero64_correct
          is_lowest_bit_ucast)
qed


section \<open>Powers of two\<close>

lemma has_single_bit_iff:
  fixes x :: "'a::len word"
  shows "has_single_bit x \<longleftrightarrow> (\<exists>k<LENGTH('a). x = push_bit k 1)"
proof
  assume sb: "has_single_bit x"
  then obtain k where k: "is_lowest_bit x k"
    by (auto simp: has_single_bit_def elim: ex_lowest_bit)
  have "push_bit (Suc k) (drop_bit (Suc k) x) = 0"
    using sb lowest_clear [OF k] by (simp add: has_single_bit_def)
  then have "x = push_bit k 1"
    using lowest_split [OF k] by simp
  with is_lowest_bit_less [OF k] show "\<exists>k<LENGTH('a). x = push_bit k 1" by blast
next
  assume "\<exists>k<LENGTH('a). x = push_bit k 1"
  then obtain k where k: "k < LENGTH('a)" "x = push_bit k 1" by blast
  then have low: "is_lowest_bit x k"
    by (auto simp: is_lowest_bit_def shift_bit_simps simp del: push_bit_of_1)
  have "push_bit (Suc k) (drop_bit (Suc k) x) = 0"
    using k by (intro bit_word_eqI) (auto simp: shift_bit_simps simp del: push_bit_Suc push_bit_of_1)
  with lowest_clear [OF low] low show "has_single_bit x"
    by (auto simp: has_single_bit_def is_lowest_bit_def)
qed

lemma unat_push_bit_1: "k < LENGTH('a) \<Longrightarrow> unat (push_bit k 1 :: 'a::len word) = 2 ^ k"
  by (simp add: unsigned_push_bit_eq take_bit_nat_eq_self del: push_bit_of_1)

lemma bit_floor_correct:
  fixes x :: "'a::len word"
  assumes w: "LENGTH('a) \<in> {8, 16, 32, 64}" and "x \<noteq> 0"
  shows "has_single_bit (bit_floor x)"
    and "unat (bit_floor x) \<le> unat x" and "unat x < 2 * unat (bit_floor x)"
proof -
  have b: "2 ^ (bit_width x - 1) \<le> unat x" "unat x < 2 ^ bit_width x" "0 < bit_width x"
    using bit_width_bounds [OF assms] by blast+
  have "bit_width x \<le> LENGTH('a)"
    using w by (simp add: bit_width_le_iff unsigned_less)
  with b(3) have k: "bit_width x - 1 < LENGTH('a)" by simp
  have e: "bit_floor x = push_bit (bit_width x - 1) 1"
    using assms(2) by (simp add: bit_floor_def)
  have u: "unat (bit_floor x) = 2 ^ (bit_width x - 1)"
    unfolding e by (rule unat_push_bit_1 [OF k])
  show "has_single_bit (bit_floor x)"
    using k unfolding has_single_bit_iff e by blast
  show "unat (bit_floor x) \<le> unat x" using b u by simp
  show "unat x < 2 * unat (bit_floor x)"
    using b u by (cases "bit_width x") simp_all
qed

lemma floorlog_pow2_le: "0 < n \<Longrightarrow> n \<le> 2 ^ k \<Longrightarrow> \<not> (\<exists>j. n = 2 ^ j) \<Longrightarrow> floorlog 2 n \<le> k"
  by (metis floorlog2_le_iff le_neq_implies_less)

text \<open>The smallest power of two that is not below \<open>x\<close>, where the type can represent it.\<close>

definition least_pow2_ge :: "nat \<Rightarrow> nat \<Rightarrow> bool" where
  "least_pow2_ge n y \<longleftrightarrow> (\<exists>k. y = 2 ^ k) \<and> n \<le> y \<and> (\<forall>k. n \<le> 2 ^ k \<longrightarrow> y \<le> 2 ^ k)"

lemma least_pow2_ge_floorlog:
  assumes "\<not> (\<exists>j. n = 2 ^ j)"
  shows "least_pow2_ge n (2 ^ floorlog 2 n)"
proof (cases "n = 0")
  case True
  then show ?thesis
    by (auto simp: least_pow2_ge_def floorlog_def intro: exI [of _ 0])
next
  case False
  then show ?thesis
    using assms floorlog2_bounds [of n] floorlog_pow2_le [of n]
    by (auto simp: least_pow2_ge_def intro: power_increasing)
qed

lemma has_single_bit_unat_iff: "has_single_bit (x :: 'a::len word) \<longleftrightarrow> (\<exists>j. unat x = 2 ^ j)"
proof
  assume "has_single_bit x"
  then show "\<exists>j. unat x = 2 ^ j"
    by (metis has_single_bit_iff unat_push_bit_1)
next
  assume "\<exists>j. unat x = 2 ^ j"
  then obtain j where j: "unat x = 2 ^ j" by blast
  have "(2::nat) ^ j < 2 ^ LENGTH('a)"
    using unat_lt2p [of x] unfolding j .
  then have jl: "j < LENGTH('a)" by (rule power_less_imp_less_exp [rotated]) simp
  have "unat x = unat (push_bit j 1 :: 'a word)"
    by (simp only: j unat_push_bit_1 [OF jl])
  then have "x = push_bit j 1" by (simp only: word_unat_eq_iff)
  with jl show "has_single_bit x"
    by (auto simp: has_single_bit_iff)
qed

lemma bit_ceil_non_power:
  fixes x :: "'a::len word"
  assumes w: "LENGTH('a) \<in> {8, 16, 32, 64}" and np: "\<not> has_single_bit x"
  shows "bit_ceil x =
    (if floorlog 2 (unat x) < LENGTH('a) then Some (of_nat (2 ^ floorlog 2 (unat x))) else None)"
proof -
  have "nat (int LENGTH('a) - CountLeadingZeroes x) = floorlog 2 (unat x)"
    using bit_width_correct [OF w, of x] by (simp add: bit_width_def countl_zero_def)
  then show ?thesis
    using w np by (auto simp: bit_ceil_def BitCeilNonPowerOf2_def BitCeilPromotionHelper_def power_add)
qed

lemma bit_ceil_representable:
  fixes x :: "'a::len word"
  assumes w: "LENGTH('a) \<in> {8, 16, 32, 64}" and le: "unat x \<le> 2 ^ (LENGTH('a) - 1)"
  shows "\<exists>y. bit_ceil x = Some y \<and> least_pow2_ge (unat x) (unat y)"
proof (cases "has_single_bit x")
  case True
  then obtain j where j: "j < LENGTH('a)" "x = push_bit j 1"
    by (auto simp: has_single_bit_iff)
  then have u: "unat x = 2 ^ j" by (simp add: unat_push_bit_1 del: push_bit_of_1)
  then have "bit_width x - 1 = j"
    using floorlog_power [of 1 2 j] by (simp add: bit_width_correct [OF w] floorlog_def)
  with True j have "bit_ceil x = Some x" by (simp add: bit_ceil_def)
  with u show ?thesis by (auto simp: least_pow2_ge_def)
next
  case False
  then have np: "\<not> (\<exists>j. unat x = 2 ^ j)" by (simp add: has_single_bit_unat_iff)
  have b: "floorlog 2 (unat x) < LENGTH('a)"
  proof (cases "unat x = 0")
    case False
    then show ?thesis using floorlog_pow2_le [OF _ le np] w by auto
  qed (simp add: floorlog_def)
  then have "unat (of_nat (2 ^ floorlog 2 (unat x)) :: 'a word) = 2 ^ floorlog 2 (unat x)"
    by (intro unat_of_nat_eq) simp
  then show ?thesis
    using least_pow2_ge_floorlog [OF np] b by (simp add: bit_ceil_non_power [OF w False])
qed

lemma bit_ceil_not_representable:
  fixes x :: "'a::len word"
  assumes w: "LENGTH('a) \<in> {8, 16, 32, 64}" and gt: "2 ^ (LENGTH('a) - 1) < unat x"
  shows "bit_ceil x = None"
proof -
  have "\<not> has_single_bit x"
  proof
    assume "has_single_bit x"
    then obtain j where j: "j < LENGTH('a)" "unat x = 2 ^ j"
      by (metis has_single_bit_iff unat_push_bit_1)
    then have "(2::nat) ^ j \<le> 2 ^ (LENGTH('a) - 1)"
      by (intro power_increasing) auto
    with gt j show False by simp
  qed
  moreover have "\<not> floorlog 2 (unat x) < LENGTH('a)"
    using gt floorlog2_le_iff [of "unat x" "LENGTH('a) - 1"] w by auto
  ultimately show ?thesis
    by (simp add: bit_ceil_non_power [OF w])
qed


section \<open>Rotation\<close>

lemma and_digits_minus_one:
  "w \<in> {8, 16, 32, 64 :: nat} \<Longrightarrow> s AND (int w - 1) = s mod int w"
proof -
  have "s AND mask n = s mod 2 ^ n" for n
    by (simp add: take_bit_eq_mask [symmetric] take_bit_eq_mod)
  from this [of 3] this [of 4] this [of 5] this [of 6]
  show "w \<in> {8, 16, 32, 64 :: nat} \<Longrightarrow> ?thesis"
    by (auto simp: mask_eq_exp_minus_1)
qed

lemma rotate_by:
  fixes x :: "'a::len word"
  assumes "n < LENGTH('a)" and "r < LENGTH('a)"
  shows "bit (push_bit r x OR drop_bit ((LENGTH('a) - r) mod LENGTH('a)) x) n =
    bit x ((n + (LENGTH('a) - r)) mod LENGTH('a))"
proof (cases "r = 0 \<or> n < r")
  case True
  with assms show ?thesis
    by (auto simp: word_bit_simps add.commute)
next
  case False
  with assms have "(n + (LENGTH('a) - r)) mod LENGTH('a) = n - r"
    by (subst mod_if) auto
  with False assms show ?thesis by (auto simp: word_bit_simps)
qed

lemma rotl_eq:
  fixes x :: "'a::len word"
  assumes w: "LENGTH('a) \<in> {8, 16, 32, 64}" and n: "n < LENGTH('a)"
  shows "bit (rotl x s) n = bit x (nat ((int n - s) mod int LENGTH('a)))"
proof -
  let ?L = "LENGTH('a)" and ?r = "nat (s mod int LENGTH('a))"
  have r: "?r < ?L" and ri: "int ?r = s mod int ?L"
    by (simp_all add: nat_less_iff)
  have neg: "nat ((- s) mod int ?L) = (?L - ?r) mod ?L"
  proof (cases "s mod int ?L = 0")
    case True
    then show ?thesis by (simp add: zmod_zminus1_eq_if)
  next
    case False
    then have "0 < ?r" by (simp add: zero_less_nat_eq le_neq_trans)
    with False r show ?thesis
      by (simp add: zmod_zminus1_eq_if nat_diff_distrib)
  qed
  have "bit (rotl x s) n = bit x ((n + (?L - ?r)) mod ?L)"
    using rotate_by [OF n r] w
    by (simp add: rotl_def RotateLeft_def and_digits_minus_one neg)
  also have "int ((n + (?L - ?r)) mod ?L) = (int n + int ?L - s mod int ?L) mod int ?L"
    using r by (simp add: zmod_int ri)
  then have "(n + (?L - ?r)) mod ?L = nat ((int n - s) mod int ?L)"
    by (metis add_diff_eq diff_add_eq mod_add_self2 mod_diff_right_eq nat_int)
  finally show ?thesis .
qed

lemma rotr_eq_rotl_minus: "rotr x s = rotl x (- s)"
  by (simp add: rotr_def rotl_def RotateRight_def RotateLeft_def or.commute)

lemma rotate_inverse:
  fixes x :: "'a::len word"
  assumes w: "LENGTH('a) \<in> {8, 16, 32, 64}"
  shows "rotr (rotl x s) s = x"
proof (rule bit_word_eqI)
  fix n assume n: "n < LENGTH('a)"
  let ?m = "nat ((int n + s) mod int LENGTH('a))"
  have m: "?m < LENGTH('a)" and mi: "int ?m = (int n + s) mod int LENGTH('a)"
    by (simp_all add: nat_less_iff)
  have "(int ?m - s) mod int LENGTH('a) = int n"
    using n unfolding mi by (simp add: mod_diff_left_eq)
  then show "bit (rotr (rotl x s) s) n = bit x n"
    by (simp add: rotr_eq_rotl_minus rotl_eq [OF w n] rotl_eq [OF w m])
qed

text \<open>
  The portable leading-zero code is right at every width: \<open>bit_width x\<close> is the number of
  binary digits of \<open>x\<close>, so \<open>x\<close> lies in \<open>[2 ^ (bit_width x - 1), 2 ^ bit_width x)\<close> when it is
  nonzero and \<open>bit_width 0\<close> is 0; \<open>countl_zero\<close> is the complement to the width.
\<close>

theorem bit_width_spec:
  fixes x :: "'a::len word"
  assumes "LENGTH('a) \<in> {8, 16, 32, 64}"
  shows "(if x = 0 then bit_width x = 0
          else 2 ^ (bit_width x - 1) \<le> unat x \<and> unat x < 2 ^ bit_width x) \<and>
         countl_zero x = int LENGTH('a) - int (bit_width x)"
  using assms bit_width_bounds [OF assms, of x]
  by (simp add: countl_zero_correct bit_width_correct floorlog_def)

theorem bit_width_spec_witness:
  "(if (12 :: u8) = 0 then bit_width (12 :: u8) = 0
    else 2 ^ (bit_width (12 :: u8) - 1) \<le> unat (12 :: u8) \<and> unat (12 :: u8) < 2 ^ bit_width (12 :: u8)) \<and>
   countl_zero (12 :: u8) = int LENGTH(8) - int (bit_width (12 :: u8))"
  by (rule bit_width_spec) simp

text \<open>
  The portable trailing-zero code is right at every width: for a nonzero \<open>x\<close>, the bit at
  position \<open>countr_zero x\<close> is one and every lower bit is zero; for zero the count is the width.
\<close>

theorem countr_zero_spec:
  fixes x :: "'a::len word"
  assumes "LENGTH('a) \<in> {8, 16, 32, 64}"
  shows "if x = 0 then countr_zero x = int LENGTH('a)
         else bit x (nat (countr_zero x)) \<and> (\<forall>j<nat (countr_zero x). \<not> bit x j)"
proof (cases "x = 0")
  case True
  then show ?thesis by (simp add: countr_zero_def CountTrailingZeroes_def)
next
  case False
  then obtain k where k: "is_lowest_bit x k" by (rule ex_lowest_bit)
  with countr_zero_correct [OF assms k] False show ?thesis
    by (simp add: is_lowest_bit_def)
qed

theorem countr_zero_spec_witness:
  "if (40 :: u16) = 0 then countr_zero (40 :: u16) = int LENGTH(16)
   else bit (40 :: u16) (nat (countr_zero (40 :: u16))) \<and>
        (\<forall>j<nat (countr_zero (40 :: u16)). \<not> bit (40 :: u16) j)"
  by (rule countr_zero_spec) simp

text \<open>
  \<open>bit_ceil x\<close> is the smallest power of two that is at least \<open>x\<close> exactly when the type can
  represent it; above the largest representable power the shift is undefined.
\<close>

theorem bit_ceil_spec:
  fixes x :: "'a::len word"
  assumes "LENGTH('a) \<in> {8, 16, 32, 64}"
  shows "if unat x \<le> 2 ^ (LENGTH('a) - 1)
         then \<exists>y. bit_ceil x = Some y \<and> least_pow2_ge (unat x) (unat y)
         else bit_ceil x = None"
  using bit_ceil_representable [OF assms, of x] bit_ceil_not_representable [OF assms, of x]
  by simp

theorem bit_ceil_spec_witness:
  "if unat (5 :: u8) \<le> 2 ^ (LENGTH(8) - 1)
   then \<exists>y. bit_ceil (5 :: u8) = Some y \<and> least_pow2_ge (unat (5 :: u8)) (unat y)
   else bit_ceil (5 :: u8) = None"
  by (rule bit_ceil_spec) simp

end
