(* ===== verification/BitReader.thy ===== *)
theory BitReader
  imports Bits
begin

text \<open>
  \<open>BitBufferReader\<close> of \<open>src/libs/core/source/text/octk_bit_buffer.hpp/.cpp\<close>. The pointer
  \<open>bytes_\<close> is the buffer it points into together with an offset; every dereference is guarded.
  A reader in the failure state has \<open>remaining_bits_ = -1\<close>.

  The operations are first translated, then shown equal to a reference reader whose state is
  just a bit position in the buffer (\<open>reader_at\<close>) and whose reads return the binary value of the
  bits at that position (\<open>bits_value\<close>).
\<close>

section \<open>State and operations\<close>

record bit_reader =
  bytes :: "u8 list"
  byte_pos :: nat
  remaining_bits :: int
  last_read_is_verified :: bool

text \<open>The number of bits is converted to \<open>int\<close> without a check.\<close>

definition BitBufferReader :: "u8 list \<Rightarrow> bit_reader" where
  "BitBufferReader bs =
     \<lparr>bytes = bs, byte_pos = 0, remaining_bits = cast_int32 (int (mul64 (length bs) 8)),
      last_read_is_verified = True\<rparr>"

text \<open>The destructor stops the program when the last read was never checked.\<close>

definition BitBufferReader_destroy :: "bit_reader \<Rightarrow> unit option" where
  "BitBufferReader_destroy r = dcheck (last_read_is_verified r)"

definition setLastReadIsVerified :: "bool \<Rightarrow> bit_reader \<Rightarrow> bit_reader" where
  "setLastReadIsVerified v r = r\<lparr>last_read_is_verified := v\<rparr>"

definition RemainingBitCount :: "bit_reader \<Rightarrow> bit_reader \<times> int" where
  "RemainingBitCount r = (setLastReadIsVerified True r, remaining_bits r)"

definition Ok :: "bit_reader \<Rightarrow> bit_reader \<times> bool" where
  "Ok r = (let (r', n) = RemainingBitCount r in (r', 0 \<le> n))"

definition Invalidate :: "bit_reader \<Rightarrow> bit_reader" where
  "Invalidate r = r\<lparr>remaining_bits := -1\<rparr>"

text \<open>The loop \<open>while (bits >= 8)\<close> of \<open>ReadBits\<close>.\<close>

fun ReadBits_bytes :: "u8 list \<Rightarrow> nat \<Rightarrow> nat \<Rightarrow> u64 \<Rightarrow> (u64 \<times> nat \<times> nat) option" where
  "ReadBits_bytes bs pos bits result =
     (if 8 \<le> bits
      then do { b \<leftarrow> deref bs pos;
                ReadBits_bytes bs (pos + 1) (bits - 8) (result OR push_bit (bits - 8) (ucast b)) }
      else Some (result, pos, bits))"

text \<open>The end of \<open>ReadBits\<close>: full bytes, then the leading bits of one more byte.\<close>

definition ReadBits_rest :: "bit_reader \<Rightarrow> nat \<Rightarrow> nat \<Rightarrow> u64 \<Rightarrow> (bit_reader \<times> u64) option" where
  "ReadBits_rest r pos bits result = do {
     (result, pos, bits) \<leftarrow> ReadBits_bytes (bytes r) pos bits result;
     result \<leftarrow>
       (if 0 < bits then do { b \<leftarrow> deref (bytes r) pos; Some (result OR ucast (drop_bit (8 - bits) b)) }
        else Some result);
     Some (r\<lparr>byte_pos := pos\<rparr>, result)
   }"

definition ReadBits :: "bit_reader \<Rightarrow> int \<Rightarrow> (bit_reader \<times> u64) option" where
  "ReadBits r0 bits0 = do {
     dcheck (0 \<le> bits0);
     dcheck (bits0 \<le> 64);
     let r1 = setLastReadIsVerified False r0;
     if remaining_bits r1 < bits0 then Some (Invalidate r1, 0)
     else do {
       let first = remaining_bits r1 smod 8;
       let r = r1\<lparr>remaining_bits := remaining_bits r1 - bits0\<rparr>;
       if bits0 < first then do {
         b \<leftarrow> deref (bytes r) (byte_pos r);
         Some (r, ucast (drop_bit (nat (first - bits0)) (ucast b :: u32) AND (push_bit (nat bits0) 1 - 1)))
       }
       else if 0 < first then do {
         b \<leftarrow> deref (bytes r) (byte_pos r);
         let bits = nat (bits0 - first);
         let msk = (ucast (push_bit (nat first) (1 :: u32) - 1) :: u8);
         ReadBits_rest r (byte_pos r + 1) bits (push_bit bits (ucast (b AND msk)))
       }
       else ReadBits_rest r (byte_pos r) (nat bits0) 0
     }
   }"

definition ReadBit :: "bit_reader \<Rightarrow> (bit_reader \<times> int) option" where
  "ReadBit r0 =
     (let r1 = setLastReadIsVerified False r0
      in if remaining_bits r1 \<le> 0 then Some (Invalidate r1, 0)
         else do {
           let r = r1\<lparr>remaining_bits := remaining_bits r1 - 1\<rparr>;
           let bit_position = remaining_bits r smod 8;
           b \<leftarrow> deref (bytes r) (byte_pos r);
           if bit_position = 0
           then Some (r\<lparr>byte_pos := byte_pos r + 1\<rparr>, uint (b AND 1))
           else Some (r, uint (drop_bit (nat bit_position) b AND 1))
         })"

definition ConsumeBits :: "bit_reader \<Rightarrow> int \<Rightarrow> bit_reader option" where
  "ConsumeBits r0 bits = do {
     dcheck (0 \<le> bits);
     let r1 = setLastReadIsVerified False r0;
     if remaining_bits r1 < bits then Some (Invalidate r1)
     else do {
       let remaining_bytes = (remaining_bits r1 + 7) sdiv 8;
       let r = r1\<lparr>remaining_bits := remaining_bits r1 - bits\<rparr>;
       let new_remaining_bytes = (remaining_bits r + 7) sdiv 8;
       Some (r\<lparr>byte_pos := nat (int (byte_pos r) + (remaining_bytes - new_remaining_bytes))\<rparr>)
     }
   }"

text \<open>\<open>Read<T>\<close> for an unsigned \<open>T\<close>.\<close>

definition Read :: "bit_reader \<Rightarrow> (bit_reader \<times> 'a::len word) option" where
  "Read r = do { (r', v) \<leftarrow> ReadBits r (int LENGTH('a)); Some (r', ucast v) }"

definition Read_bool :: "bit_reader \<Rightarrow> (bit_reader \<times> bool) option" where
  "Read_bool r = do { (r', b) \<leftarrow> ReadBit r; Some (r', b \<noteq> 0) }"

text \<open>
  \<open>uint32_t{1} << width\<close> is undefined for \<open>width = 32\<close>, which \<open>num_values = 2 ^ 31\<close> reaches
  although the check admits it.
\<close>

definition num_min_bits :: "u32 \<Rightarrow> nat \<Rightarrow> u32 option" where
  "num_min_bits num_values width = do { dcheck (width < 32); Some (push_bit width 1 - num_values) }"

definition ReadNonSymmetric :: "bit_reader \<Rightarrow> u32 \<Rightarrow> (bit_reader \<times> u32) option" where
  "ReadNonSymmetric r num_values = do {
     dcheck (0 < num_values);
     dcheck (num_values \<le> push_bit 31 1);
     let width = bit_width num_values;
     num_min_bits_values \<leftarrow> num_min_bits num_values width;
     (r, val) \<leftarrow> ReadBits r (int width - 1);
     if val < ucast num_min_bits_values then Some (r, ucast val)
     else do {
       (r, b) \<leftarrow> ReadBit r;
       Some (r, ucast (push_bit 1 val + of_int b - ucast num_min_bits_values))
     }
   }"

text \<open>
  The loop \<open>while (ReadBit() == 0)\<close>: \<open>Inl\<close> is the early return after 32 zeroes, \<open>Inr\<close> the
  number of zeroes before the first one bit. The second argument is \<open>32 - zero_bit_count\<close>.
\<close>

primrec count_zero_bits :: "bit_reader \<Rightarrow> nat \<Rightarrow> (bit_reader \<times> (unit + nat)) option" where
  "count_zero_bits r 0 = None"
| "count_zero_bits r (Suc left) = do {
     (r, b) \<leftarrow> ReadBit r;
     if b \<noteq> 0 then Some (r, Inr (32 - Suc left))
     else if left = 0 then Some (Invalidate r, Inl ())
     else count_zero_bits r left
   }"

definition ReadExponentialGolomb :: "bit_reader \<Rightarrow> (bit_reader \<times> u32) option" where
  "ReadExponentialGolomb r = do {
     (r, z) \<leftarrow> count_zero_bits r 32;
     case z of
       Inl _ \<Rightarrow> Some (r, 0)
     | Inr zero_bit_count \<Rightarrow> do {
         (r, v) \<leftarrow> ReadBits r (int zero_bit_count);
         Some (r, push_bit zero_bit_count 1 + ucast v - 1)
       }
   }"

definition ReadSignedExponentialGolomb :: "bit_reader \<Rightarrow> (bit_reader \<times> int) option" where
  "ReadSignedExponentialGolomb r = do {
     (r, unsigned_val) \<leftarrow> ReadExponentialGolomb r;
     if unsigned_val AND 1 = 0 then Some (r, - sint (unsigned_val div 2))
     else Some (r, sint ((unsigned_val + 1) div 2))
   }"

text \<open>The \<open>do ... while (i < 10 && (byte & 0x80))\<close> loop of \<open>ReadLeb128\<close>, \<open>i\<close> rounds done.\<close>

function ReadLeb128_loop :: "bit_reader \<Rightarrow> u64 \<Rightarrow> nat \<Rightarrow> (bit_reader \<times> u64 \<times> nat \<times> u8) option" where
  "ReadLeb128_loop r decoded i = do {
     (r, byte) \<leftarrow> (Read r :: (bit_reader \<times> u8) option);
     let decoded = decoded + push_bit (7 * i) (ucast (byte AND 0x7f));
     if i + 1 < 10 \<and> byte AND 0x80 \<noteq> 0 then ReadLeb128_loop r decoded (i + 1)
     else Some (r, decoded, i + 1, byte)
   }"
  by pat_completeness auto
termination
  by (relation "measure (\<lambda>(r, decoded, i). 10 - i)") auto

definition ReadLeb128 :: "bit_reader \<Rightarrow> (bit_reader \<times> u64) option" where
  "ReadLeb128 r = do {
     (r, decoded, i, byte) \<leftarrow> ReadLeb128_loop r 0 0;
     let r = (if i = 10 \<and> 1 < byte then Invalidate r else r);
     let (r, ok) = Ok r;
     Some (r, if ok then decoded else 0)
   }"

primrec ReadString_loop :: "bit_reader \<Rightarrow> nat \<Rightarrow> (bit_reader \<times> u8 list) option" where
  "ReadString_loop r 0 = Some (r, [])"
| "ReadString_loop r (Suc n) = do {
     (r, c) \<leftarrow> (Read r :: (bit_reader \<times> u8) option);
     (r, cs) \<leftarrow> ReadString_loop r n;
     Some (r, c # cs)
   }"

text \<open>\<open>reserve\<close> throws for a negative count converted to \<open>size_t\<close>.\<close>

definition ReadString :: "bit_reader \<Rightarrow> int \<Rightarrow> (bit_reader \<times> u8 list) option" where
  "ReadString r num_bytes = do {
     dcheck (0 \<le> num_bytes);
     (r, res) \<leftarrow> ReadString_loop r (nat num_bytes);
     let (r, ok) = Ok r;
     Some (r, if ok then res else [])
   }"

declare ReadBits_bytes.simps [simp del] ReadLeb128_loop.simps [simp del]


section \<open>The reference reader\<close>

text \<open>The value of the \<open>n\<close> bits of \<open>bs\<close> that start at bit \<open>p\<close>, most significant first.\<close>

primrec bits_value :: "u8 list \<Rightarrow> nat \<Rightarrow> nat \<Rightarrow> nat" where
  "bits_value bs p 0 = 0"
| "bits_value bs p (Suc n) = 2 * bits_value bs p n + of_bool (bbit bs (p + n))"

text \<open>A reader that has consumed \<open>p\<close> bits of \<open>bs\<close>.\<close>

definition reader_at :: "u8 list \<Rightarrow> nat \<Rightarrow> bool \<Rightarrow> bit_reader" where
  "reader_at bs p v = \<lparr>bytes = bs, byte_pos = p div 8,
     remaining_bits = 8 * int (length bs) - int p, last_read_is_verified = v\<rparr>"

text \<open>
  The invariant of the class: either in the failure state, or at some bit position of the buffer
  (\<open>bytes_\<close> is then the next byte with at least one unread bit, as the declaration says).
\<close>

definition reader_inv :: "bit_reader \<Rightarrow> bool" where
  "reader_inv r \<longleftrightarrow> remaining_bits r = -1 \<or>
     (\<exists>p v. p \<le> 8 * length (bytes r) \<and> r = reader_at (bytes r) p v)"


lemma bit_bits_value: "bit (bits_value bs p n) i \<longleftrightarrow> i < n \<and> bbit bs (p + (n - Suc i))"
proof (induction n arbitrary: i)
  case 0
  then show ?case by simp
next
  case (Suc n)
  show ?case
  proof (cases i)
    case 0
    then show ?thesis by (simp add: bit_0)
  next
    case (Suc j)
    then show ?thesis using Suc.IH [of j] by (simp add: bit_Suc)
  qed
qed

lemma bits_value_less: "bits_value bs p n < 2 ^ n"
  by (induction n) (auto split: bool.splits)

lemma bit_of_nat_bits_value:
  "bit (of_nat (bits_value bs p n) :: 'a::len word) i \<longleftrightarrow>
     i < LENGTH('a) \<and> i < n \<and> bbit bs (p + (n - Suc i))"
  by (simp add: bit_of_nat_iff bit_bits_value)

lemma reader_at_simps [simp]:
  "bytes (reader_at bs p v) = bs"
  "byte_pos (reader_at bs p v) = p div 8"
  "remaining_bits (reader_at bs p v) = 8 * int (length bs) - int p"
  "last_read_is_verified (reader_at bs p v) = v"
  "setLastReadIsVerified w (reader_at bs p v) = reader_at bs p w"
  by (simp_all add: reader_at_def setLastReadIsVerified_def)

lemma reader_at_advance:
  "(reader_at bs p v)\<lparr>remaining_bits := 8 * int (length bs) - int p - int n, byte_pos := (p + n) div 8\<rparr> =
     reader_at bs (p + n) v"
  "(p + n) div 8 = p div 8 \<Longrightarrow>
     (reader_at bs p v)\<lparr>remaining_bits := 8 * int (length bs) - int p - int n\<rparr> = reader_at bs (p + n) v"
  by (simp_all add: reader_at_def)

lemma smod_8_pos: "0 \<le> x \<Longrightarrow> x smod 8 = x mod (8 :: int)"
  by (cases "x = 0") (simp_all add: signed_modulo_int_def sgn_if)

lemma sdiv_8_pos: "0 \<le> x \<Longrightarrow> x sdiv 8 = x div (8 :: int)"
  by (cases "x = 0") (simp_all add: signed_divide_int_def sgn_if)

text \<open>The number of unread bits in the current byte.\<close>

lemma first_byte_bits:
  assumes "p \<le> 8 * L"
  shows "(8 * int L - int p) smod 8 = (if p mod 8 = 0 then 0 else 8 - int (p mod 8))"
proof -
  have "(8 * int L - int p) smod 8 = (8 * int L - int p) mod 8"
    using assms by (intro smod_8_pos) simp
  also have "\<dots> = (- int p) mod 8"
    by (metis diff_0 mod_diff_left_eq mod_mult_self1_is_0)
  also have "\<dots> = (if p mod 8 = 0 then 0 else 8 - int (p mod 8))"
    by (simp add: zmod_zminus1_eq_if of_nat_mod) presburger
  finally show ?thesis .
qed

lemma ReadBits_bytes_at:
  assumes "q + m div 8 \<le> length bs" and "m \<le> 64"
  shows "\<exists>res'. ReadBits_bytes bs q m res = Some (res', q + m div 8, m mod 8) \<and>
     (\<forall>i. bit res' i \<longleftrightarrow> bit res i \<or> (m mod 8 \<le> i \<and> i < m \<and> bbit bs (8 * q + (m - Suc i))))"
  using assms
proof (induction bs q m res rule: ReadBits_bytes.induct)
  case (1 bs q m res)
  show ?case
  proof (cases "8 \<le> m")
    case False
    then show ?thesis by (subst ReadBits_bytes.simps) auto
  next
    case True
    let ?res = "res OR push_bit (m - 8) (ucast (bs ! q))"
    have d: "m div 8 = Suc ((m - 8) div 8)" and e: "m mod 8 = (m - 8) mod 8"
      using True by (simp_all add: le_div_geq le_mod_geq)
    then have q: "q < length bs" using 1(2) by simp
    have e': "q + m div 8 = q + 1 + (m - 8) div 8" using d by simp
    have "q + 1 + (m - 8) div 8 \<le> length bs" and "m - 8 \<le> 64"
      using 1(2,3) d by simp_all
    from 1(1) [OF True deref_Some [OF q] this]
    obtain res' where res': "ReadBits_bytes bs (q + 1) (m - 8) ?res = Some (res', q + m div 8, m mod 8)"
      and bits: "\<And>i. bit res' i \<longleftrightarrow> bit ?res i \<or>
        (m mod 8 \<le> i \<and> i < m - 8 \<and> bbit bs (8 * (q + 1) + (m - 8 - Suc i)))"
      unfolding e e' by blast
    have "ReadBits_bytes bs q m res = Some (res', q + m div 8, m mod 8)"
      using True q res' by (subst ReadBits_bytes.simps) simp
    moreover have "bit res' i \<longleftrightarrow> bit res i \<or> (m mod 8 \<le> i \<and> i < m \<and> bbit bs (8 * q + (m - Suc i)))" for i
    proof (cases "i < m - 8")
      case True
      then show ?thesis
        using bits [of i] by (auto simp: word_bit_simps)
    next
      case False
      have "8 * q + (m - Suc i) = 8 * q + (7 - (i - (m - 8)))" if "i < m"
        using False that \<open>8 \<le> m\<close> by simp
      then show ?thesis
        using bits [of i] False q 1(3) True bbit_nth [OF q, of "i - (m - 8)"]
          mod_less_eq_dividend [of "m - 8" 8, folded e]
        by (auto simp: word_bit_simps dest: bit_imp_le_length)
    qed
    ultimately show ?thesis by blast
  qed
qed


section \<open>The operations on a reader at a position\<close>

lemma push_bit_1_minus_1: "push_bit n 1 - 1 = (mask n :: 'a::len word)"
  by (simp add: mask_eq_exp_minus_1)

text \<open>Reading inside the current byte.\<close>

lemma ReadBits_within_byte:
  assumes le: "p + n \<le> 8 * length bs" and o: "p mod 8 \<noteq> 0" and n: "n < 8 - p mod 8"
  shows "ReadBits (reader_at bs p v) (int n) = Some (reader_at bs (p + n) False, of_nat (bits_value bs p n))"
proof -
  let ?q = "p div 8" and ?o = "p mod 8"
  have q: "?q < length bs"
    using le o by (metis add_leE div_less_iff_less_mult dvd_imp_mod_0 dvd_triv_right le_neq_implies_less
        mult.commute zero_less_numeral)
  have first: "(8 * int (length bs) - int p) smod 8 = 8 - int ?o"
    using le o by (simp add: first_byte_bits)
  have same: "(p + n) div 8 = p div 8"
  proof -
    have "p + n = 8 * ?q + (?o + n)" by simp
    moreover have "?o + n < 8" using n by simp
    ultimately show ?thesis by (metis add.commute add_cancel_right_left div_less div_mult_self2 zero_neq_numeral)
  qed
  let ?v = "ucast (drop_bit (8 - ?o - n) (ucast (bs ! ?q) :: u32) AND mask n) :: u64"
  have "?v = of_nat (bits_value bs p n)"
  proof (rule bit_word_eqI)
    fix i assume "i < LENGTH(64)"
    have "p + (n - Suc i) = 8 * ?q + (7 - (8 - ?o - n + i))" if "i < n"
    proof -
      have "8 - ?o - n + i < 8" and "7 - (8 - ?o - n + i) = ?o + (n - Suc i)"
        using that n o by auto
      then show ?thesis by simp
    qed
    then have "bbit bs (p + (n - Suc i)) = bit (bs ! ?q) (8 - ?o - n + i)" if "i < n"
      using that n bbit_nth [OF q, of "8 - ?o - n + i"] by simp
    then show "bit ?v i = bit (of_nat (bits_value bs p n) :: u64) i"
      using \<open>i < LENGTH(64)\<close> n
      by (auto simp: word_bit_simps bit_of_nat_bits_value)
  qed
  moreover have "nat (8 - int ?o - int n) = 8 - ?o - n" and "int n < 8 - int ?o" and "n \<le> 64"
    using n by simp_all
  ultimately show ?thesis
    using le q first reader_at_advance(2) [OF same, of bs False]
    by (simp add: ReadBits_def Let_def same push_bit_1_minus_1 del: push_bit_of_1)
qed

text \<open>Whole bytes from a byte boundary, then the leading bits of one more byte.\<close>

lemma ReadBits_rest_at:
  assumes le: "8 * q + m \<le> 8 * length (bytes r)" and m: "m \<le> 64"
  shows "\<exists>res'. ReadBits_rest r q m res = Some (r\<lparr>byte_pos := q + m div 8\<rparr>, res') \<and>
     (\<forall>i. bit res' i \<longleftrightarrow> bit res i \<or> (i < m \<and> bbit (bytes r) (8 * q + (m - Suc i))))"
proof -
  let ?bs = "bytes r"
  obtain a k where mk: "m = 8 * a + k" and k: "k < 8"
    by (metis mod_less_divisor mult_div_mod_eq zero_less_numeral)
  then have div: "m div 8 = a" and mod: "m mod 8 = k" by simp_all
  have "q + m div 8 \<le> length ?bs" using le by simp
  from ReadBits_bytes_at [OF this m] obtain res1
    where res1: "ReadBits_bytes ?bs q m res = Some (res1, q + a, k)"
      and bits: "\<And>i. bit res1 i \<longleftrightarrow> bit res i \<or> (k \<le> i \<and> i < m \<and> bbit ?bs (8 * q + (m - Suc i)))"
    unfolding div mod by blast
  show ?thesis
  proof (cases "k = 0")
    case True
    then show ?thesis using res1 bits div by (simp add: ReadBits_rest_def)
  next
    case False
    let ?b = "?bs ! (q + a)"
    let ?res = "res1 OR ucast (drop_bit (8 - k) ?b)"
    have q: "q + a < length ?bs" using le False mk by linarith
    have tail: "bit (drop_bit (8 - k) ?b) i \<longleftrightarrow> i < k \<and> bbit ?bs (8 * q + (m - Suc i))" for i
    proof (cases "i < k")
      case True
      then have "8 * q + (m - Suc i) = 8 * (q + a) + (7 - (8 - k + i))"
        using mk k by arith
      with True k bbit_nth [OF q, of "8 - k + i"] show ?thesis by (simp add: word_bit_simps)
    qed (simp add: word_bit_simps)
    have "bit ?res i \<longleftrightarrow> bit res i \<or> (i < m \<and> bbit ?bs (8 * q + (m - Suc i)))" for i
      using bits [of i] tail [of i] mk m k
      by (auto simp: bit_or_iff bit_ucast_word)
    then show ?thesis using res1 q False div by (auto simp: ReadBits_rest_def)
  qed
qed

text \<open>
  A read that reaches the next byte boundary: \<open>f\<close> bits complete the current byte, the rest is
  read from the boundary \<open>8 * q\<close>.
\<close>

lemma ReadBits_rest_value:
  assumes le: "p + n \<le> 8 * length bs" and n: "n \<le> 64" and f: "f \<le> n" "p + f = 8 * q"
    and res: "\<And>i. bit res i \<longleftrightarrow> n - f \<le> i \<and> i < n \<and> bbit bs (p + (n - Suc i))"
  shows "ReadBits_rest ((reader_at bs p w)\<lparr>remaining_bits := 8 * int (length bs) - int p - int n\<rparr>)
           q (n - f) res = Some (reader_at bs (p + n) w, of_nat (bits_value bs p n))"
proof -
  let ?r = "(reader_at bs p w)\<lparr>remaining_bits := 8 * int (length bs) - int p - int n\<rparr>"
  have "8 * q + (n - f) \<le> 8 * length (bytes ?r)" and "n - f \<le> 64" using le f n by simp_all
  from ReadBits_rest_at [OF this, of res] obtain res'
    where res': "ReadBits_rest ?r q (n - f) res = Some (?r\<lparr>byte_pos := q + (n - f) div 8\<rparr>, res')"
      and bits: "\<And>i. bit res' i \<longleftrightarrow> bit res i \<or> (i < n - f \<and> bbit bs (8 * q + (n - f - Suc i)))"
    by auto
  have "p + n = 8 * q + (n - f)" using f by simp
  then have "q + (n - f) div 8 = (p + n) div 8" by simp
  then have "?r\<lparr>byte_pos := q + (n - f) div 8\<rparr> = reader_at bs (p + n) w"
    by (simp add: reader_at_def)
  moreover have "res' = of_nat (bits_value bs p n)"
  proof (rule bit_word_eqI)
    fix i assume "i < LENGTH(64)"
    have "8 * q + (n - f - Suc i) = p + (n - Suc i)" if "i < n - f"
      using that f by simp
    then show "bit res' i = bit (of_nat (bits_value bs p n) :: u64) i"
      using bits [of i] res [of i] \<open>i < LENGTH(64)\<close>
      by (auto simp: bit_of_nat_bits_value)
  qed
  ultimately show ?thesis using res' by simp
qed

lemma ReadBits_from_boundary:
  assumes "p + n \<le> 8 * length bs" and "n \<le> 64" and "p mod 8 = 0"
  shows "ReadBits (reader_at bs p v) (int n) = Some (reader_at bs (p + n) False, of_nat (bits_value bs p n))"
  using assms ReadBits_rest_value [of p n bs 0 "p div 8" 0 False] mult_div_mod_eq [of 8 p]
  by (simp add: ReadBits_def Let_def first_byte_bits)

lemma ReadBits_over_boundary:
  assumes le: "p + n \<le> 8 * length bs" and n: "n \<le> 64" and o: "p mod 8 \<noteq> 0" and big: "8 - p mod 8 \<le> n"
  shows "ReadBits (reader_at bs p v) (int n) = Some (reader_at bs (p + n) False, of_nat (bits_value bs p n))"
proof -
  obtain q c where p: "p = 8 * q + c" and c: "c < 8"
    by (metis mod_less_divisor mult_div_mod_eq zero_less_numeral)
  then have div: "p div 8 = q" and mod: "p mod 8 = c" by simp_all
  define f where "f = 8 - c"
  have f: "f < 8" "0 < f" "f \<le> n" "p + f = 8 * (q + 1)"
    using o big c p by (simp_all add: mod f_def)
  let ?res = "push_bit (n - f) (ucast (bs ! q AND mask f)) :: u64"
  have "8 * (q + 1) \<le> 8 * length bs" using le f(3) unfolding f(4) [symmetric] by linarith
  then have q: "q < length bs" by simp
  have "bit ?res i \<longleftrightarrow> n - f \<le> i \<and> i < n \<and> bbit bs (p + (n - Suc i))" for i
  proof -
    have "bbit bs (p + (n - Suc i)) = bit (bs ! q) (i - (n - f))" if "n - f \<le> i" "i < n"
    proof -
      have e: "n - Suc i = f - Suc (i - (n - f))" and l: "i - (n - f) < f" using that f(3) by simp_all
      then have "p + (n - Suc i) = 8 * q + (7 - (i - (n - f)))" using p c by (simp add: f_def)
      then show ?thesis using l f(1) by (simp only: bbit_nth [OF q])
    qed
    then show ?thesis
      using f n by (auto simp: word_bit_simps)
  qed
  from ReadBits_rest_value [OF le n f(3,4) this, of False]
  have rest: "ReadBits_rest ((reader_at bs p False)\<lparr>remaining_bits := 8 * int (length bs) - int p - int n\<rparr>)
     (q + 1) (n - f) ?res = Some (reader_at bs (p + n) False, of_nat (bits_value bs p n))"
    by simp
  have first: "(8 * int (length bs) - int p) smod 8 = int f"
    using le o c by (simp add: first_byte_bits mod f_def)
  have "nat (int n - int f) = n - f" "\<not> int n < int f" "(ucast (mask f :: u32) :: u8) = mask f"
    using f by (auto intro!: bit_word_eqI simp: word_bit_simps)
  then show ?thesis
    using le n q first f(2) rest
    by (simp add: ReadBits_def Let_def div push_bit_1_minus_1 del: push_bit_of_1)
qed

lemma ReadBits_at:
  assumes "p + n \<le> 8 * length bs" and "n \<le> 64"
  shows "ReadBits (reader_at bs p v) (int n) = Some (reader_at bs (p + n) False, of_nat (bits_value bs p n))"
proof (cases "p mod 8 = 0")
  case True
  with assms show ?thesis by (rule ReadBits_from_boundary)
next
  case False
  with assms show ?thesis
    by (cases "n < 8 - p mod 8") (simp_all add: ReadBits_within_byte ReadBits_over_boundary)
qed


lemma ReadBits_short:
  assumes "remaining_bits r < n" and "0 \<le> n" and "n \<le> 64"
  shows "ReadBits r n = Some (Invalidate (setLastReadIsVerified False r), 0)"
  using assms by (simp add: ReadBits_def Let_def setLastReadIsVerified_def)

lemma bbit_last_bit: "bbit bs p = bit (bs ! (p div 8)) (7 - p mod 8)" if "p < 8 * length bs"
  using that by (simp add: bbit_def div_less_iff_less_mult)

lemma uint_and_1: "uint (w AND 1 :: 'a::len word) = of_bool (bit w 0)"
  by (simp add: and_one_eq mod_2_eq_odd bit_0)

lemma ReadBit_at:
  assumes "p < 8 * length bs"
  shows "ReadBit (reader_at bs p v) = Some (reader_at bs (p + 1) False, of_bool (bbit bs p))"
proof -
  have q: "p div 8 < length bs" using assms by (simp add: div_less_iff_less_mult)
  have pos: "(8 * int (length bs) - int p - 1) smod 8 = 7 - int (p mod 8)"
    using assms first_byte_bits [of "p + 1" "length bs"]
    by (simp add: diff_diff_eq add.commute mod_Suc split: if_splits)
  have adv: "(p + 1) div 8 = (if p mod 8 = 7 then p div 8 + 1 else p div 8)"
    by (simp add: div_Suc mod_Suc)
  show ?thesis
  proof (cases "p mod 8 = 7")
    case True
    then show ?thesis
      using assms q pos adv
      by (simp add: ReadBit_def Let_def bbit_last_bit uint_and_1 reader_at_def setLastReadIsVerified_def)
  next
    case False
    then have "p mod 8 < 7" using mod_less_divisor [of 8 p] by linarith
    then have "nat (7 - int (p mod 8)) = 7 - p mod 8" "7 - int (p mod 8) \<noteq> 0" by simp_all
    with False show ?thesis
      using assms q pos adv
      by (simp add: ReadBit_def Let_def bbit_last_bit uint_and_1 bit_drop_bit_word reader_at_def
          setLastReadIsVerified_def)
  qed
qed

lemma ReadBit_short:
  assumes "remaining_bits r \<le> 0"
  shows "ReadBit r = Some (Invalidate (setLastReadIsVerified False r), 0)"
  using assms by (simp add: ReadBit_def Let_def setLastReadIsVerified_def)

lemma ConsumeBits_at:
  assumes "p + n \<le> 8 * length bs"
  shows "ConsumeBits (reader_at bs p v) (int n) = Some (reader_at bs (p + n) False)"
proof -
  have bytes: "(8 * int (length bs) - int k + 7) sdiv 8 = int (length bs) - int (k div 8)"
    if "k \<le> 8 * length bs" for k
  proof -
    have "(8 * int (length bs) - int k + 7) sdiv 8 = (8 * int (length bs) - int k + 7) div 8"
      using that by (intro sdiv_8_pos) simp
    then show ?thesis by (simp add: zdiv_int)
  qed
  have "(8 * int (length bs) - int p - int n + 7) sdiv 8 = int (length bs) - int ((p + n) div 8)"
    using bytes [OF assms] by (simp add: diff_diff_eq)
  with bytes [of p] assms show ?thesis
    by (simp add: ConsumeBits_def Let_def reader_at_def setLastReadIsVerified_def)
qed

lemma Read_at:
  assumes "p + LENGTH('a) \<le> 8 * length bs" and "LENGTH('a::len) \<le> 64"
  shows "Read (reader_at bs p v) =
    Some (reader_at bs (p + LENGTH('a)) False, of_nat (bits_value bs p LENGTH('a)) :: 'a word)"
proof -
  have "(ucast (of_nat (bits_value bs p LENGTH('a)) :: u64) :: 'a word) = of_nat (bits_value bs p LENGTH('a))"
    using assms(2) by (intro bit_word_eqI) (auto simp: word_bit_simps bit_of_nat_bits_value)
  then show ?thesis
    by (simp add: Read_def ReadBits_at [OF assms])
qed

end
