(* ===== verification/BitWriter.thy ===== *)
theory BitWriter
  imports Bits
begin

text \<open>
  \<open>BitBufferWriter\<close> of \<open>src/libs/core/source/text/octk_bit_buffer.hpp/.cpp\<close>. The buffer is a list
  of bytes, \<open>byte_count_\<close> is its length; \<open>size_t\<close> and \<open>uint64_t\<close> arithmetic that can wrap is
  written with \<^const>\<open>add64\<close>, \<^const>\<open>sub64\<close> and \<^const>\<open>mul64\<close>; reads and writes through pointers are
  guarded.

  The reference writer is a bit position in the buffer (\<open>writer_at\<close>), and a write of \<open>n\<close> bits
  replaces the \<open>n\<close> buffer bits at that position (\<open>put_bits\<close>).
\<close>

section \<open>State and operations\<close>

definition HighestByte :: "u64 \<Rightarrow> u8" where
  "HighestByte val = ucast (drop_bit 56 val)"

definition WritePartialByte :: "u8 \<Rightarrow> nat \<Rightarrow> u8 \<Rightarrow> nat \<Rightarrow> u8 option" where
  "WritePartialByte source source_bit_count target target_bit_offset = do {
     dcheck (target_bit_offset < 8);
     dcheck (source_bit_count < 9);
     dcheck (source_bit_count \<le> 8 - target_bit_offset);
     let msk = drop_bit target_bit_offset (ucast (push_bit (8 - source_bit_count) (0xFF :: u32)) :: u8);
     Some ((target AND NOT msk) OR drop_bit target_bit_offset source)
   }"

record bit_writer =
  writable_bytes :: "u8 list"
  byte_offset :: nat
  bit_offset :: nat

definition byte_count :: "bit_writer \<Rightarrow> nat" where
  "byte_count w = length (writable_bytes w)"

definition BitBufferWriter :: "u8 list \<Rightarrow> bit_writer option" where
  "BitBufferWriter bs = do {
     dcheck (length bs \<le> 2 ^ 32 - 1);
     Some \<lparr>writable_bytes = bs, byte_offset = 0, bit_offset = 0\<rparr>
   }"

definition WriterRemainingBitCount :: "bit_writer \<Rightarrow> nat" where
  "WriterRemainingBitCount w = sub64 (mul64 (sub64 (byte_count w) (byte_offset w)) 8) (bit_offset w)"

definition WriterConsumeBits :: "bit_writer \<Rightarrow> nat \<Rightarrow> bit_writer \<times> bool" where
  "WriterConsumeBits w bit_count =
     (if WriterRemainingBitCount w < bit_count then (w, False)
      else (w\<lparr>byte_offset := add64 (byte_offset w) (add64 (bit_offset w) bit_count div 8),
              bit_offset := add64 (bit_offset w) bit_count mod 8\<rparr>, True))"

definition ConsumeBytes :: "bit_writer \<Rightarrow> nat \<Rightarrow> bit_writer \<times> bool" where
  "ConsumeBytes w count = WriterConsumeBits w (mul64 count 8)"

definition GetCurrentOffset :: "bit_writer \<Rightarrow> nat \<times> nat" where
  "GetCurrentOffset w = (byte_offset w, bit_offset w)"

definition Seek :: "bit_writer \<Rightarrow> nat \<Rightarrow> nat \<Rightarrow> bit_writer \<times> bool" where
  "Seek w byte bt =
     (if byte_count w < byte \<or> 7 < bt \<or> (byte = byte_count w \<and> 0 < bt) then (w, False)
      else (w\<lparr>byte_offset := byte, bit_offset := bt\<rparr>, True))"

text \<open>
  The loop \<open>while (bit_count >= 8)\<close> of \<open>WriteBits\<close>: buffer, write position, value shifted to the
  top, bits left.
\<close>

fun WriteBits_bytes :: "u8 list \<Rightarrow> nat \<Rightarrow> u64 \<Rightarrow> nat \<Rightarrow> (u8 list \<times> nat \<times> u64 \<times> nat) option" where
  "WriteBits_bytes bs pos val bits =
     (if 8 \<le> bits
      then do { bs \<leftarrow> store bs pos (HighestByte val);
                WriteBits_bytes bs (pos + 1) (push_bit 8 val) (bits - 8) }
      else Some (bs, pos, val, bits))"

text \<open>The end of \<open>WriteBits\<close>: full bytes, then the leading bits of one more byte.\<close>

definition WriteBits_rest :: "u8 list \<Rightarrow> nat \<Rightarrow> u64 \<Rightarrow> nat \<Rightarrow> u8 list option" where
  "WriteBits_rest bs pos val bits = do {
     (bs, pos, val, bits) \<leftarrow> WriteBits_bytes bs pos val bits;
     if 0 < bits
     then do { target \<leftarrow> deref bs pos;
               b \<leftarrow> WritePartialByte (HighestByte val) bits target 0;
               store bs pos b }
     else Some bs
   }"

text \<open>
  \<open>val <<= 64 - bit_count\<close> is undefined for \<open>bit_count\<close> 0 (a shift by 64) and above 64 (a wrapped
  count); both are \<^term>\<open>None\<close>.
\<close>

definition WriteBits :: "bit_writer \<Rightarrow> u64 \<Rightarrow> nat \<Rightarrow> (bit_writer \<times> bool) option" where
  "WriteBits w val0 bit_count =
     (if WriterRemainingBitCount w < bit_count then Some (w, False)
      else do {
        dcheck (0 < bit_count \<and> bit_count \<le> 64);
        let val = push_bit (64 - bit_count) val0;
        let pos = byte_offset w;
        let remaining_bits_in_current_byte = 8 - bit_offset w;
        let bits_in_first_byte = min bit_count remaining_bits_in_current_byte;
        target \<leftarrow> deref (writable_bytes w) pos;
        b \<leftarrow> WritePartialByte (HighestByte val) bits_in_first_byte target (bit_offset w);
        bs \<leftarrow> store (writable_bytes w) pos b;
        if bit_count \<le> remaining_bits_in_current_byte
        then Some (WriterConsumeBits (w\<lparr>writable_bytes := bs\<rparr>) bit_count)
        else do {
          bs \<leftarrow> WriteBits_rest bs (pos + 1) (push_bit bits_in_first_byte val) (bit_count - bits_in_first_byte);
          Some (WriterConsumeBits (w\<lparr>writable_bytes := bs\<rparr>) bit_count)
        }
      })"

definition WriteUInt8 :: "bit_writer \<Rightarrow> u8 \<Rightarrow> (bit_writer \<times> bool) option" where
  "WriteUInt8 w val = WriteBits w (ucast val) 8"

definition WriteUInt16 :: "bit_writer \<Rightarrow> u16 \<Rightarrow> (bit_writer \<times> bool) option" where
  "WriteUInt16 w val = WriteBits w (ucast val) 16"

definition WriteUInt32 :: "bit_writer \<Rightarrow> u32 \<Rightarrow> (bit_writer \<times> bool) option" where
  "WriteUInt32 w val = WriteBits w (ucast val) 32"

text \<open>\<open>(uint32_t{1} << count_bits) - num_values\<close>, undefined for \<open>count_bits = 32\<close>.\<close>

definition min_bits_values :: "u32 \<Rightarrow> nat \<Rightarrow> u32 option" where
  "min_bits_values num_values count_bits = do {
     dcheck (count_bits < 32);
     Some (push_bit count_bits 1 - num_values)
   }"

definition WriteNonSymmetric :: "bit_writer \<Rightarrow> u32 \<Rightarrow> u32 \<Rightarrow> (bit_writer \<times> bool) option" where
  "WriteNonSymmetric w val num_values = do {
     dcheck (val < num_values);
     dcheck (num_values \<le> push_bit 31 1);
     if num_values = 1 then Some (w, True)
     else do {
       let count_bits = bit_width num_values;
       num_min_bits_values \<leftarrow> min_bits_values num_values count_bits;
       if val < num_min_bits_values then WriteBits w (ucast val) (count_bits - 1)
       else WriteBits w (ucast (val + num_min_bits_values)) count_bits
     }
   }"

definition SizeNonSymmetricBits :: "u32 \<Rightarrow> u32 \<Rightarrow> nat option" where
  "SizeNonSymmetricBits val num_values = do {
     dcheck (val < num_values);
     dcheck (num_values \<le> push_bit 31 1);
     let count_bits = bit_width num_values;
     num_min_bits_values \<leftarrow> min_bits_values num_values count_bits;
     Some (if val < num_min_bits_values then count_bits - 1 else count_bits)
   }"

definition WriteExponentialGolomb :: "bit_writer \<Rightarrow> u32 \<Rightarrow> (bit_writer \<times> bool) option" where
  "WriteExponentialGolomb w val =
     (if val = - 1 then Some (w, False)
      else let val_to_encode = (ucast val :: u64) + 1
           in WriteBits w val_to_encode (bit_width val_to_encode * 2 - 1))"

text \<open>\<open>int32_t val\<close> as an integer; \<open>uint32_t\<close> conversions are \<^const>\<open>of_int\<close>.\<close>

definition WriteSignedExponentialGolomb :: "bit_writer \<Rightarrow> int \<Rightarrow> (bit_writer \<times> bool) option" where
  "WriteSignedExponentialGolomb w val =
     (if val = 0 then WriteExponentialGolomb w 0
      else if 0 < val then WriteExponentialGolomb w ((of_int val * 2) - 1)
      else if val = int32_min then Some (w, False)
      else WriteExponentialGolomb w (of_int (- val) * 2))"

lemma drop_bit_7_less:
  assumes "0 < drop_bit 7 v"
  shows "unat (drop_bit 7 v) < unat (v :: u64)"
proof -
  have "unat (drop_bit 7 v) = unat v div 128"
    unfolding unat_drop_bit_eq by (simp add: drop_bit_eq_div)
  moreover have "0 < unat (drop_bit 7 v)"
    using assms by (simp add: unat_gt_0 word_gt_0)
  ultimately show ?thesis by simp
qed

text \<open>The \<open>do ... while (val > 0)\<close> loop of \<open>WriteLeb128\<close>; it goes on after a failed write.\<close>

function WriteLeb128_loop :: "bit_writer \<Rightarrow> u64 \<Rightarrow> bool \<Rightarrow> (bit_writer \<times> bool) option" where
  "WriteLeb128_loop w val success = do {
     let byte = (ucast (val AND 0x7f) :: u8);
     let rest = drop_bit 7 val;
     (w, ok) \<leftarrow> WriteUInt8 w (if 0 < rest then byte OR 0x80 else byte);
     if 0 < rest then WriteLeb128_loop w rest (success \<and> ok) else Some (w, success \<and> ok)
   }"
  by pat_completeness auto
termination
  by (relation "measure (\<lambda>(w, val, success). unat val)") (simp_all add: drop_bit_7_less)

definition WriteLeb128 :: "bit_writer \<Rightarrow> u64 \<Rightarrow> (bit_writer \<times> bool) option" where
  "WriteLeb128 w val = WriteLeb128_loop w val True"

primrec WriteString_loop :: "bit_writer \<Rightarrow> u8 list \<Rightarrow> bool \<Rightarrow> (bit_writer \<times> bool) option" where
  "WriteString_loop w [] success = Some (w, success)"
| "WriteString_loop w (c # cs) success = do {
     (w, ok) \<leftarrow> WriteUInt8 w c;
     WriteString_loop w cs (success \<and> ok)
   }"

definition WriteString :: "bit_writer \<Rightarrow> u8 list \<Rightarrow> (bit_writer \<times> bool) option" where
  "WriteString w data = WriteString_loop w data True"

declare WriteBits_bytes.simps [simp del] WriteLeb128_loop.simps [simp del]


section \<open>The reference writer\<close>

text \<open>Set bit \<open>k\<close> of the buffer; replace the \<open>n\<close> bits from \<open>p\<close> by the low \<open>n\<close> bits of \<open>v\<close>.\<close>

definition set_bbit :: "u8 list \<Rightarrow> nat \<Rightarrow> bool \<Rightarrow> u8 list" where
  "set_bbit bs k b =
     (let i = k div 8; j = 7 - k mod 8 in bs[i := (if b then set_bit j (bs ! i) else unset_bit j (bs ! i))])"

primrec put_bits :: "u8 list \<Rightarrow> nat \<Rightarrow> nat \<Rightarrow> u64 \<Rightarrow> u8 list" where
  "put_bits bs p 0 v = bs"
| "put_bits bs p (Suc n) v = put_bits (set_bbit bs p (bit v n)) (p + 1) n v"

definition writer_at :: "u8 list \<Rightarrow> nat \<Rightarrow> bit_writer" where
  "writer_at bs p = \<lparr>writable_bytes = bs, byte_offset = p div 8, bit_offset = p mod 8\<rparr>"

text \<open>The invariant of the class, with the bound on the size that the constructor checks.\<close>

definition writer_inv :: "bit_writer \<Rightarrow> bool" where
  "writer_inv w \<longleftrightarrow> length (writable_bytes w) < 2 ^ 32 \<and> bit_offset w < 8 \<and>
     8 * byte_offset w + bit_offset w \<le> 8 * length (writable_bytes w)"


lemma length_set_bbit [simp]: "length (set_bbit bs k b) = length bs"
  by (simp add: set_bbit_def Let_def)

lemma bbit_set_bbit:
  "k < 8 * length bs \<Longrightarrow> bbit (set_bbit bs k b) l = (if l = k then b else bbit bs l)"
proof -
  assume "k < 8 * length bs"
  then have q: "k div 8 < length bs" by (simp add: div_less_iff_less_mult)
  show ?thesis
  proof (cases "l div 8 = k div 8")
    case True
    have "l mod 8 < 8" "k mod 8 < 8" by simp_all
    moreover have "l = k \<longleftrightarrow> l mod 8 = k mod 8" using True by (metis div_mult_mod_eq)
    ultimately have "7 - l mod 8 = 7 - k mod 8 \<longleftrightarrow> l = k" by linarith
    then show ?thesis
      using q True
      by (auto simp: set_bbit_def Let_def bbit_list_update bbit_def bit_set_bit_iff bit_unset_bit_iff)
  next
    case False
    then show ?thesis using q by (auto simp: set_bbit_def Let_def bbit_list_update)
  qed
qed

lemma length_put_bits [simp]: "length (put_bits bs p n v) = length bs"
  by (induction n arbitrary: bs p) simp_all

lemma bbit_put_bits:
  "p + n \<le> 8 * length bs \<Longrightarrow>
     bbit (put_bits bs p n v) k = (if p \<le> k \<and> k < p + n then bit v (n - Suc (k - p)) else bbit bs k)"
proof (induction n arbitrary: bs p)
  case 0
  then show ?case by auto
next
  case (Suc n)
  then have "bbit (put_bits bs p (Suc n) v) k =
     (if p + 1 \<le> k \<and> k < p + 1 + n then bit v (n - Suc (k - (p + 1))) else bbit (set_bbit bs p (bit v n)) k)"
    by simp
  also have "\<dots> = (if p \<le> k \<and> k < p + Suc n then bit v (Suc n - Suc (k - p)) else bbit bs k)"
    using Suc.prems by (auto simp: bbit_set_bbit Suc_diff_Suc)
  finally show ?case .
qed

text \<open>A buffer that agrees with the specification of a write bit by bit is \<^const>\<open>put_bits\<close>.\<close>

lemma put_bits_unique:
  assumes "p + n \<le> 8 * length bs" and "length bs' = length bs"
    and "\<And>k. bbit bs' k = (if p \<le> k \<and> k < p + n then bit v (n - Suc (k - p)) else bbit bs k)"
  shows "bs' = put_bits bs p n v"
  using assms by (intro bbit_ext) (simp_all add: bbit_put_bits)

lemma bit_0xFF: "bit (0xFF :: u32) k \<longleftrightarrow> k < 8"
proof -
  have "(0xFF :: u32) = mask 8" by (simp add: mask_eq_exp_minus_1)
  then show ?thesis by (simp only: bit_mask_word) auto
qed

lemma WritePartialByte_bits:
  assumes off: "off < 8" "cnt \<le> 8 - off"
    and clean: "\<And>i. off \<le> i \<Longrightarrow> i < 8 - cnt \<Longrightarrow> \<not> bit source i"
  shows "\<exists>b. WritePartialByte source cnt target off = Some b \<and>
    (\<forall>j<8. bit b (7 - j) = (if off \<le> j \<and> j < off + cnt then bit source (7 - (j - off)) else bit target (7 - j)))"
proof -
  let ?m = "drop_bit off (ucast (push_bit (8 - cnt) (0xFF :: u32)) :: u8)"
  let ?b = "(target AND NOT ?m) OR drop_bit off source"
  have m: "bit ?m i \<longleftrightarrow> off + i < 8 \<and> 8 - cnt \<le> off + i" for i
    unfolding word_bit_simps bit_0xFF using off by auto
  have "bit ?b (7 - j) = (if off \<le> j \<and> j < off + cnt then bit source (7 - (j - off)) else bit target (7 - j))"
    if j: "j < 8" for j
  proof -
    have b: "bit ?b (7 - j) \<longleftrightarrow> (bit target (7 - j) \<and> \<not> bit ?m (7 - j)) \<or> bit source (off + (7 - j))"
      using j by (auto simp: word_bit_simps)
    consider (inside) "off \<le> j" "j < off + cnt" | (before) "j < off" | (after) "off + cnt \<le> j" by linarith
    then show ?thesis
    proof cases
      case inside
      then have "off + (7 - j) = 7 - (j - off)" using j by simp
      moreover have "bit ?m (7 - j)" using inside j off unfolding m by linarith
      ultimately show ?thesis using inside b by simp
    next
      case before
      then have "8 \<le> off + (7 - j)" using j by simp
      with before j show ?thesis by (simp add: b m)
    next
      case after
      then have "off \<le> off + (7 - j)" "off + (7 - j) < 8 - cnt" using j off by simp_all
      moreover from this have "\<not> bit ?m (7 - j)" unfolding m by linarith
      ultimately show ?thesis using clean [of "off + (7 - j)"] after b by simp
    qed
  qed
  moreover have "WritePartialByte source cnt target off = Some ?b"
    using off by (simp add: WritePartialByte_def dcheck_def)
  ultimately show ?thesis by blast
qed

lemma HighestByte_bit: "bit (HighestByte val) i \<longleftrightarrow> i < 8 \<and> bit val (56 + i)"
  by (auto simp: HighestByte_def word_bit_simps)

lemma WriteBits_bytes_at:
  assumes "q + m div 8 \<le> length bs" and "m \<le> 64"
  shows "\<exists>bs'. WriteBits_bytes bs q val m = Some (bs', q + m div 8, push_bit (8 * (m div 8)) val, m mod 8) \<and>
     length bs' = length bs \<and>
     (\<forall>k. bbit bs' k = (if 8 * q \<le> k \<and> k < 8 * (q + m div 8) then bit val (63 - (k - 8 * q)) else bbit bs k))"
  using assms
proof (induction bs q val m rule: WriteBits_bytes.induct)
  case (1 bs q val m)
  show ?case
  proof (cases "8 \<le> m")
    case False
    then show ?thesis by (subst WriteBits_bytes.simps) auto
  next
    case True
    have d: "m div 8 = Suc ((m - 8) div 8)" and e: "m mod 8 = (m - 8) mod 8"
      using True by (simp_all add: le_div_geq le_mod_geq)
    then have q: "q < length bs" using 1(2) by simp
    define bs1 where "bs1 = bs[q := HighestByte val]"
    have "q + 1 + (m - 8) div 8 \<le> length bs1" and "m - 8 \<le> 64"
      using 1(2,3) d by (simp_all add: bs1_def)
    from 1(1) [OF True store_Some [OF q, of "HighestByte val", folded bs1_def] this]
    obtain bs' where bs': "WriteBits_bytes bs1 (q + 1) (push_bit 8 val) (m - 8) =
        Some (bs', q + 1 + (m - 8) div 8, push_bit (8 * ((m - 8) div 8)) (push_bit 8 val), (m - 8) mod 8)"
      and len: "length bs' = length bs1"
      and bits: "\<And>k. bbit bs' k = (if 8 * (q + 1) \<le> k \<and> k < 8 * (q + 1 + (m - 8) div 8)
         then bit (push_bit 8 val) (63 - (k - 8 * (q + 1))) else bbit bs1 k)"
      by blast
    have "WriteBits_bytes bs q val m = Some (bs', q + m div 8, push_bit (8 * (m div 8)) val, m mod 8)"
      using True q bs' d e by (subst WriteBits_bytes.simps) (simp add: bs1_def add.commute)
    moreover have "bbit bs' k =
       (if 8 * q \<le> k \<and> k < 8 * (q + m div 8) then bit val (63 - (k - 8 * q)) else bbit bs k)" for k
    proof (cases "8 * (q + 1) \<le> k \<and> k < 8 * (q + m div 8)")
      case True
      have "8 * (q + m div 8) \<le> 8 * q + 64" using 1(3) by simp
      with True have "8 * q + 8 \<le> k" "k < 8 * q + 64" by simp_all
      then have "63 - (k - 8 * (q + 1)) - 8 = 63 - (k - 8 * q)" and "8 \<le> 63 - (k - 8 * (q + 1))"
        by simp_all
      with True d bits [of k] show ?thesis by (auto simp: bit_push_bit_word)
    next
      case False
      then have "bbit bs' k = bbit bs1 k"
        using bits [of k] d by auto
      moreover have "bbit bs1 k = (if k div 8 = q then bit (HighestByte val) (7 - k mod 8) else bbit bs k)"
        using q by (simp add: bs1_def bbit_list_update)
      moreover have "bit (HighestByte val) (7 - k mod 8) = bit val (63 - (k - 8 * q))" if "k div 8 = q"
      proof -
        have "k - 8 * q = k mod 8" using that by (metis minus_mult_div_eq_mod)
        moreover have "k mod 8 < 8" by simp
        ultimately have "56 + (7 - k mod 8) = 63 - (k - 8 * q)" and "7 - k mod 8 < 8" by linarith+
        then show ?thesis by (simp only: HighestByte_bit simp_thms)
      qed
      moreover have "k div 8 = q \<longleftrightarrow> 8 * q \<le> k \<and> k < 8 * (q + 1)" by auto
      ultimately show ?thesis using False d by auto
    qed
    ultimately show ?thesis using len by (auto simp: bs1_def)
  qed
qed


text \<open>
  The write from a byte boundary: the top \<open>m\<close> bits of \<open>val\<close>, whose other bits are zero, replace
  the \<open>m\<close> buffer bits from bit \<open>8 * q\<close>.
\<close>

lemma WriteBits_rest_at:
  assumes le: "8 * q + m \<le> 8 * length bs" and m: "m \<le> 64"
    and clean: "\<And>i. i < 64 - m \<Longrightarrow> \<not> bit val i"
  shows "\<exists>bs'. WriteBits_rest bs q val m = Some bs' \<and> length bs' = length bs \<and>
     (\<forall>k. bbit bs' k = (if 8 * q \<le> k \<and> k < 8 * q + m then bit val (63 - (k - 8 * q)) else bbit bs k))"
proof -
  obtain a c where mk: "m = 8 * a + c" and c: "c < 8"
    by (metis mod_less_divisor mult_div_mod_eq zero_less_numeral)
  then have div: "m div 8 = a" and mod: "m mod 8 = c" by simp_all
  have "q + m div 8 \<le> length bs" using le by simp
  from WriteBits_bytes_at [OF this m, of val] obtain bs1
    where bs1: "WriteBits_bytes bs q val m = Some (bs1, q + a, push_bit (8 * a) val, c)"
      and len: "length bs1 = length bs"
      and bits: "\<And>k. bbit bs1 k = (if 8 * q \<le> k \<and> k < 8 * (q + a) then bit val (63 - (k - 8 * q)) else bbit bs k)"
    unfolding div mod by blast
  show ?thesis
  proof (cases "c = 0")
    case True
    then show ?thesis using bs1 len bits mk by (simp add: WriteBits_rest_def)
  next
    case False
    let ?src = "HighestByte (push_bit (8 * a) val)"
    have q: "q + a < length bs1"
    proof -
      have "8 * (q + a) < 8 * length bs" using le False mk by simp
      then show ?thesis using len by simp
    qed
    have src: "bit ?src i \<longleftrightarrow> i < 8 \<and> 8 * a \<le> 56 + i \<and> bit val (56 + i - 8 * a)" for i
      by (auto simp: HighestByte_bit bit_push_bit_word)
    have "\<not> bit ?src i" if "i < 8 - c" for i
      unfolding src using that mk m clean [of "56 + i - 8 * a"] by auto
    from WritePartialByte_bits [of 0 c ?src "bs1 ! (q + a)"] this c obtain b
      where b: "WritePartialByte ?src c (bs1 ! (q + a)) 0 = Some b"
        and bb: "\<And>j. j < 8 \<Longrightarrow> bit b (7 - j) = (if j < c then bit ?src (7 - j) else bit (bs1 ! (q + a)) (7 - j))"
      by auto
    have "bbit (bs1[q + a := b]) k =
        (if 8 * q \<le> k \<and> k < 8 * q + m then bit val (63 - (k - 8 * q)) else bbit bs k)" for k
    proof (cases "k div 8 = q + a")
      case True
      define j where "j = k mod 8"
      then have k: "k = 8 * (q + a) + j" and j: "j < 8"
        using True mult_div_mod_eq [of 8 k] by simp_all
      have "bbit (bs1[q + a := b]) k = bit b (7 - j)"
        using q True by (simp add: bbit_list_update j_def)
      also have "\<dots> = (if j < c then bit val (63 - (8 * a + j)) else bbit bs1 k)"
      proof (cases "j < c")
        case True
        then have "56 + (7 - j) - 8 * a = 63 - (8 * a + j)" "8 * a \<le> 56 + (7 - j)" "7 - j < 8"
          using mk m c by linarith+
        with True j show ?thesis by (simp only: bb src) simp
      next
        case False
        then show ?thesis using bb [OF j] bbit_byte [OF j q] by (simp add: k)
      qed
      finally show ?thesis using bits [of k] k mk by auto
    next
      case False
      have "k < 8 * (q + a) \<longleftrightarrow> k < 8 * q + m" if "8 * q \<le> k"
        using False that mk c by (auto simp: div_nat_eqI)
      with False q bits [of k] show ?thesis by (auto simp: bbit_list_update)
    qed
    then show ?thesis
      using bs1 b q False len by (auto simp: WriteBits_rest_def)
  qed
qed


section \<open>The operations on a writer at a position\<close>

lemma writer_at_simps [simp]:
  "writable_bytes (writer_at bs p) = bs"
  "byte_offset (writer_at bs p) = p div 8"
  "bit_offset (writer_at bs p) = p mod 8"
  "byte_count (writer_at bs p) = length bs"
  "(writer_at bs p)\<lparr>writable_bytes := bs'\<rparr> = writer_at bs' p"
  by (simp_all add: writer_at_def byte_count_def)

lemma WriterRemainingBitCount_at:
  assumes "p \<le> 8 * length bs" and "length bs < 2 ^ 32"
  shows "WriterRemainingBitCount (writer_at bs p) = 8 * length bs - p"
proof -
  obtain q c where p: "p = 8 * q + c" and c: "c < 8"
    by (metis mod_less_divisor mult_div_mod_eq zero_less_numeral)
  have q: "q \<le> length bs" using assms p by simp
  have "sub64 (length bs) q = length bs - q"
    using q assms(2) by (intro sub64_small) simp_all
  moreover have "mul64 (length bs - q) 8 = (length bs - q) * 8"
    using assms(2) by (intro mul64_small) simp
  moreover have "sub64 ((length bs - q) * 8) c = (length bs - q) * 8 - c"
    using assms p c by (intro sub64_small) simp_all
  ultimately show ?thesis
    using p c by (simp add: WriterRemainingBitCount_def)
qed

lemma WriterConsumeBits_at:
  assumes le: "p + n \<le> 8 * length bs" and len: "length bs < 2 ^ 32"
  shows "WriterConsumeBits (writer_at bs p) n = (writer_at bs (p + n), True)"
proof -
  obtain q c where p: "p = 8 * q + c" and c: "c < 8"
    by (metis mod_less_divisor mult_div_mod_eq zero_less_numeral)
  have div: "p div 8 = q" and mod: "p mod 8 = c" using p c by simp_all
  have "add64 c n = c + n" using le len p by (intro add64_small) simp
  moreover have d: "(p + n) div 8 = q + (c + n) div 8" and "(p + n) mod 8 = (c + n) mod 8"
    by (simp_all add: p add.assoc)
  moreover have "add64 q ((c + n) div 8) = q + (c + n) div 8"
  proof (rule add64_small)
    have "(p + n) div 8 \<le> length bs" using le by simp
    then show "q + (c + n) div 8 < 2 ^ 64" using len unfolding d by simp
  qed
  moreover have "\<not> WriterRemainingBitCount (writer_at bs p) < n"
    using le len by (simp add: WriterRemainingBitCount_at)
  ultimately show ?thesis
    by (simp add: WriterConsumeBits_def div mod writer_at_def)
qed

lemma bit_val_top: "j < n \<Longrightarrow> n \<le> 64 \<Longrightarrow> bit (push_bit (64 - n) (v :: u64)) (63 - j) = bit v (n - Suc j)"
  by (auto simp: bit_push_bit_word)

text \<open>A write that stays in the current byte, and one that continues in the next.\<close>

lemma WriteBits_within_byte:
  assumes le: "p + n \<le> 8 * length bs" and len: "length bs < 2 ^ 32" and n: "0 < n" "n \<le> 8 - p mod 8"
  shows "WriteBits (writer_at bs p) v n = Some (writer_at (put_bits bs p n v) (p + n), True)"
proof -
  define q where "q = p div 8"
  define c where "c = p mod 8"
  have p: "p = 8 * q + c" and c: "c < 8" by (simp_all add: q_def c_def)
  have nc: "n \<le> 8 - c" using n by (simp add: c_def)
  have q: "q < length bs"
  proof -
    have "8 * q < 8 * length bs" using le p n by simp
    then show ?thesis by simp
  qed
  let ?src = "HighestByte (push_bit (64 - n) v)"
  have src: "bit ?src i \<longleftrightarrow> i < 8 \<and> 8 - n \<le> i \<and> bit v (i - (8 - n))" for i
    using nc by (auto simp: HighestByte_bit bit_push_bit_word)
  have "\<not> bit ?src i" if "i < 8 - n" for i unfolding src using that by simp
  with WritePartialByte_bits [OF c nc, of ?src "bs ! q"] obtain b
    where b: "WritePartialByte ?src n (bs ! q) c = Some b"
      and bb: "\<And>j. j < 8 \<Longrightarrow> bit b (7 - j) =
        (if c \<le> j \<and> j < c + n then bit ?src (7 - (j - c)) else bit (bs ! q) (7 - j))"
    by blast
  have "bs[q := b] = put_bits bs p n v"
  proof (rule put_bits_unique [OF le])
    fix k
    show "bbit (bs[q := b]) k = (if p \<le> k \<and> k < p + n then bit v (n - Suc (k - p)) else bbit bs k)"
    proof (cases "k div 8 = q")
      case True
      define j where "j = k mod 8"
      then have k: "k = 8 * q + j" and j: "j < 8" using True mult_div_mod_eq [of 8 k] by simp_all
      have "bbit (bs[q := b]) k = bit b (7 - j)" using q True by (simp add: bbit_list_update j_def)
      also have "\<dots> = (if c \<le> j \<and> j < c + n then bit v (n - Suc (j - c)) else bbit bs k)"
      proof (cases "c \<le> j \<and> j < c + n")
        case True
        then have "7 - (j - c) - (8 - n) = n - Suc (j - c)" "8 - n \<le> 7 - (j - c)" "7 - (j - c) < 8"
          using nc by linarith+
        with True j show ?thesis by (simp only: bb src) simp
      next
        case False
        then show ?thesis using bb [OF j] bbit_byte [OF j q] by (auto simp: k)
      qed
      finally show ?thesis by (simp add: k p)
    next
      case False
      have "\<not> (p \<le> k \<and> k < p + n)"
      proof
        assume "p \<le> k \<and> k < p + n"
        then have "8 * q \<le> k" "k < 8 * (q + 1)" using p nc c by auto
        then have "k div 8 = q" by (simp add: div_nat_eqI)
        with False show False ..
      qed
      with False q show ?thesis by (auto simp: bbit_list_update)
    qed
  qed simp
  moreover have "min n (8 - c) = n" using nc by simp
  moreover have "\<not> WriterRemainingBitCount (writer_at bs p) < n"
    using le len by (simp add: WriterRemainingBitCount_at)
  moreover have "WriterConsumeBits (writer_at (put_bits bs p n v) p) n = (writer_at (put_bits bs p n v) (p + n), True)"
    using le len by (intro WriterConsumeBits_at) simp_all
  ultimately show ?thesis
    using b q nc n(1)
    by (simp add: WriteBits_def Let_def q_def [symmetric] c_def [symmetric] dcheck_def)
qed

lemma WriteBits_over_boundary:
  assumes le: "p + n \<le> 8 * length bs" and len: "length bs < 2 ^ 32" and n: "8 - p mod 8 < n" "n \<le> 64"
  shows "WriteBits (writer_at bs p) v n = Some (writer_at (put_bits bs p n v) (p + n), True)"
proof -
  define q where "q = p div 8"
  define c where "c = p mod 8"
  define f where "f = 8 - c"
  have p: "p = 8 * q + c" and c: "c < 8" by (simp_all add: q_def c_def)
  have f: "0 < f" "f < n" "f \<le> 8" "p + f = 8 * (q + 1)" "c + f = 8"
    using c n(1) [folded c_def] p by (simp_all add: f_def)
  have le': "8 * (q + 1) + (n - f) \<le> 8 * length bs" using le f by simp
  then have q: "q < length bs" by simp
  let ?val = "push_bit (64 - n) v"
  have top: "bit ?val (63 - j) = bit v (n - Suc j)" if "j < n" for j
    using that n(2) by (rule bit_val_top)
  have "f \<le> 8 - c" by (simp add: f_def)
  from WritePartialByte_bits [OF c this, of "HighestByte ?val" "bs ! q"] f(5) obtain b
    where b: "WritePartialByte (HighestByte ?val) f (bs ! q) c = Some b"
      and bb: "\<And>j. j < 8 \<Longrightarrow> bit b (7 - j) =
        (if c \<le> j then bit (HighestByte ?val) (7 - (j - c)) else bit (bs ! q) (7 - j))"
    by auto
  have "\<not> bit (push_bit f ?val) i" if "i < 64 - (n - f)" for i
    using that f n by (auto simp: bit_push_bit_word)
  moreover have "8 * (q + 1) + (n - f) \<le> 8 * length (bs[q := b])" "n - f \<le> 64"
    using le' n(2) by simp_all
  ultimately have "\<exists>bs'. WriteBits_rest (bs[q := b]) (q + 1) (push_bit f ?val) (n - f) = Some bs' \<and>
     length bs' = length (bs[q := b]) \<and>
     (\<forall>k. bbit bs' k = (if 8 * (q + 1) \<le> k \<and> k < 8 * (q + 1) + (n - f)
        then bit (push_bit f ?val) (63 - (k - 8 * (q + 1))) else bbit (bs[q := b]) k))"
    by (intro WriteBits_rest_at)
  then obtain bs'
    where bs': "WriteBits_rest (bs[q := b]) (q + 1) (push_bit f ?val) (n - f) = Some bs'"
      and len': "length bs' = length bs"
      and bits: "\<And>k. bbit bs' k = (if 8 * (q + 1) \<le> k \<and> k < 8 * (q + 1) + (n - f)
        then bit (push_bit f ?val) (63 - (k - 8 * (q + 1))) else bbit (bs[q := b]) k)"
    unfolding length_list_update by blast
  have "bs' = put_bits bs p n v"
  proof (rule put_bits_unique [OF le len'])
    fix k
    consider (rest) "8 * (q + 1) \<le> k" "k < p + n" | (first) "k div 8 = q" | (out) "k < 8 * q \<or> p + n \<le> k"
    proof -
      have "8 * q \<le> k \<Longrightarrow> k < 8 * (q + 1) \<Longrightarrow> k div 8 = q" by (simp add: div_nat_eqI)
      then show thesis using that linorder_not_le by blast
    qed
    then show "bbit bs' k = (if p \<le> k \<and> k < p + n then bit v (n - Suc (k - p)) else bbit bs k)"
    proof cases
      case rest
      define j where "j = k - 8 * (q + 1)"
      have k: "k = 8 * (q + 1) + j" "j < n - f" using rest f by (simp_all add: j_def)
      have "k - p = j + f" "p \<le> k" using k f(4) by simp_all
      then have "63 - j - f = 63 - (k - p)" "f \<le> 63 - j" "k - p < n" "p \<le> k"
        using k(2) n(2) by simp_all
      moreover have "bbit bs' k = bit (push_bit f ?val) (63 - j)"
      proof -
        have "8 * (q + 1) \<le> k \<and> k < 8 * (q + 1) + (n - f)" using k by simp
        then show ?thesis using bits [of k] by (simp only: simp_thms if_True j_def)
      qed
      moreover have "bit (push_bit f ?val) (63 - j) = (f \<le> 63 - j \<and> bit ?val (63 - j - f))"
        by (simp only: bit_push_bit_word) auto
      ultimately show ?thesis using rest top [of "k - p"] by simp
    next
      case first
      define j where "j = k mod 8"
      then have k: "k = 8 * q + j" and j: "j < 8" using first mult_div_mod_eq [of 8 k] by simp_all
      have "bbit bs' k = bit b (7 - j)"
      proof -
        have "\<not> 8 * (q + 1) \<le> k" using k j by simp
        then have "bbit bs' k = bbit (bs[q := b]) k" using bits [of k] by simp
        then show ?thesis using q first by (simp add: bbit_list_update j_def)
      qed
      also have "\<dots> = (if c \<le> j then bit v (n - Suc (j - c)) else bbit bs k)"
      proof (cases "c \<le> j")
        case True
        then have e: "56 + (7 - (j - c)) = 63 - (j - c)" "j - c < n" "7 - (j - c) < 8"
          using j f(2,5) by simp_all
        have "bit b (7 - j) = bit (HighestByte ?val) (7 - (j - c))" using bb [OF j] True by simp
        also have "\<dots> = bit ?val (63 - (j - c))"
          using e by (simp only: HighestByte_bit simp_thms)
        also have "\<dots> = bit v (n - Suc (j - c))" using e by (intro top)
        finally show ?thesis using True by simp
      next
        case False
        then show ?thesis using bb [OF j] bbit_byte [OF j q] by (simp add: k)
      qed
      finally show ?thesis using j f by (simp add: k p)
    next
      case out
      have pn: "p + n = 8 * (q + 1) + (n - f)" using f(2,4) by simp
      then have "k < 8 * q \<or> 8 * (q + 1) \<le> k" using out by auto
      then have "k div 8 \<noteq> q" by auto
      moreover have "bbit bs' k = bbit (bs[q := b]) k" using bits [of k] out pn by auto
      moreover have "\<not> (p \<le> k \<and> k < p + n)" using out p by auto
      ultimately show ?thesis using q by (auto simp: bbit_list_update)
    qed
  qed
  moreover have "min n (8 - c) = f" "\<not> n \<le> 8 - c" using f by (simp_all add: f_def)
  moreover have "\<not> WriterRemainingBitCount (writer_at bs p) < n"
    using le len by (simp add: WriterRemainingBitCount_at)
  moreover have "WriterConsumeBits (writer_at (put_bits bs p n v) p) n = (writer_at (put_bits bs p n v) (p + n), True)"
    using le len by (intro WriterConsumeBits_at) simp_all
  ultimately show ?thesis
    using b q bs' n(2) f(2)
    by (simp add: WriteBits_def Let_def q_def [symmetric] c_def [symmetric] dcheck_def)
qed

lemma WriteBits_at:
  assumes "p + n \<le> 8 * length bs" and "length bs < 2 ^ 32" and "0 < n" "n \<le> 64"
  shows "WriteBits (writer_at bs p) v n = Some (writer_at (put_bits bs p n v) (p + n), True)"
  using assms WriteBits_within_byte WriteBits_over_boundary by (cases "n \<le> 8 - p mod 8") simp_all

lemma WriteBits_short:
  assumes "8 * length bs < p + n" and "p \<le> 8 * length bs" and "length bs < 2 ^ 32"
  shows "WriteBits (writer_at bs p) v n = Some (writer_at bs p, False)"
  using assms by (simp add: WriteBits_def WriterRemainingBitCount_at less_diff_conv2)

end
