(* ===== verification/BitCodec.thy ===== *)
theory BitCodec
  imports BitReader BitWriter
begin

text \<open>
  How \<open>BitBufferWriter\<close> and \<open>BitBufferReader\<close> fit together: every \<open>Write...\<close> operation is undone
  by the \<open>Read...\<close> operation of the same name. The contract is the locale \<open>bit_codec\<close>: an encoder
  that changes only the bits it advances over, and a decoder that gets the value back from those
  bits. It is interpreted for the fixed-width, exponential Golomb, signed exponential Golomb,
  non-symmetric, LEB128 and string formats; the round trip of whole sequences of values is proved
  once, in the locale.
\<close>

section \<open>Reading what was written\<close>

lemma bits_value_cong:
  "(\<And>k. p \<le> k \<Longrightarrow> k < p + n \<Longrightarrow> bbit bs k = bbit bs' k) \<Longrightarrow> bits_value bs p n = bits_value bs' p n"
  by (induction n) simp_all

lemma bits_value_put_bits:
  assumes "p + n \<le> 8 * length bs" and "a + m \<le> n" and "n \<le> 64"
  shows "bits_value (put_bits bs p n v) (p + a) m = take_bit m (drop_bit (n - a - m) (unat v))"
proof (rule bit_eqI)
  fix i
  have "n - Suc (p + a + (m - Suc i) - p) = n - a - m + i" if "i < m"
    using that assms(2) by simp
  then show "bit (bits_value (put_bits bs p n v) (p + a) m) i =
      bit (take_bit m (drop_bit (n - a - m) (unat v))) i"
    using assms
    by (auto simp: bit_bits_value bbit_put_bits bit_take_bit_iff bit_drop_bit_eq bit_unsigned_iff)
qed

definition agree :: "u8 list \<Rightarrow> u8 list \<Rightarrow> nat \<Rightarrow> nat \<Rightarrow> bool" where
  "agree bs bs' p n \<longleftrightarrow> length bs' = length bs \<and> (\<forall>k. p \<le> k \<and> k < p + n \<longrightarrow> bbit bs' k = bbit bs k)"

definition only_changed :: "u8 list \<Rightarrow> u8 list \<Rightarrow> nat \<Rightarrow> nat \<Rightarrow> bool" where
  "only_changed bs bs' p n \<longleftrightarrow> length bs' = length bs \<and> (\<forall>k. \<not> (p \<le> k \<and> k < p + n) \<longrightarrow> bbit bs' k = bbit bs k)"

lemma agree_refl [simp]: "agree bs bs p n"
  by (simp add: agree_def)

lemma agree_sub: "agree bs bs' p n \<Longrightarrow> p \<le> q \<Longrightarrow> q + m \<le> p + n \<Longrightarrow> agree bs bs' q m"
  by (auto simp: agree_def)

lemma agree_bits_value: "agree bs bs' p n \<Longrightarrow> bits_value bs' p n = bits_value bs p n"
  by (intro bits_value_cong) (simp add: agree_def)

lemma agree_trans: "agree bs bs' p n \<Longrightarrow> agree bs' bs'' p n \<Longrightarrow> agree bs bs'' p n"
  by (simp add: agree_def)

lemma only_changed_agree:
  "only_changed bs bs' p n \<Longrightarrow> q + m \<le> p \<or> p + n \<le> q \<Longrightarrow> agree bs bs' q m"
  by (auto simp: only_changed_def agree_def)

lemma only_changed_put_bits: "p + n \<le> 8 * length bs \<Longrightarrow> only_changed bs (put_bits bs p n v) p n"
  by (auto simp: only_changed_def bbit_put_bits)

lemma only_changed_append:
  "only_changed bs bs' p m \<Longrightarrow> only_changed bs' bs'' (p + m) n \<Longrightarrow> only_changed bs bs'' p (m + n)"
  by (auto simp: only_changed_def)

lemma only_changed_mono: "only_changed bs bs' p n \<Longrightarrow> n \<le> m \<Longrightarrow> only_changed bs bs' p m"
  by (auto simp: only_changed_def)

lemma only_changed_refl [simp]: "only_changed bs bs p n"
  by (simp add: only_changed_def)


section \<open>The codec contract\<close>

type_synonym 'v encoder = "bit_writer \<Rightarrow> 'v \<Rightarrow> (bit_writer \<times> bool) option"
type_synonym 'v decoder = "bit_reader \<Rightarrow> (bit_reader \<times> 'v) option"

primrec write_seq :: "'v encoder \<Rightarrow> bit_writer \<Rightarrow> 'v list \<Rightarrow> (bit_writer \<times> bool) option" where
  "write_seq enc w [] = Some (w, True)"
| "write_seq enc w (v # vs) = do {
     (w, ok) \<leftarrow> enc w v;
     (w, oks) \<leftarrow> write_seq enc w vs;
     Some (w, ok \<and> oks)
   }"

primrec read_seq :: "'v decoder \<Rightarrow> bit_reader \<Rightarrow> nat \<Rightarrow> (bit_reader \<times> 'v list) option" where
  "read_seq dec r 0 = Some (r, [])"
| "read_seq dec r (Suc n) = do {
     (r, v) \<leftarrow> dec r;
     (r, vs) \<leftarrow> read_seq dec r n;
     Some (r, v # vs)
   }"

definition decodes :: "'v decoder \<Rightarrow> u8 list \<Rightarrow> nat \<Rightarrow> nat \<Rightarrow> 'v \<Rightarrow> bool" where
  "decodes dec bs p n v \<longleftrightarrow>
     (\<forall>bs' b. agree bs bs' p n \<longrightarrow> (\<exists>b'. dec (reader_at bs' p b) = Some (reader_at bs' (p + n) b', v)))"

lemma decodes_agree: "decodes dec bs p n v \<Longrightarrow> agree bs bs' p n \<Longrightarrow> decodes dec bs' p n v"
  by (meson agree_trans decodes_def)

lemma decodesE:
  assumes "decodes dec bs p n v"
  obtains b' where "dec (reader_at bs p b) = Some (reader_at bs (p + n) b', v)"
  using assms agree_refl [of bs p n] unfolding decodes_def by blast

locale bit_codec =
  fixes enc :: "'v encoder" and dec :: "'v decoder" and ok :: "'v \<Rightarrow> bool" and sz :: "'v \<Rightarrow> nat"
  assumes enc_at: "ok v \<Longrightarrow> p + sz v \<le> 8 * length bs \<Longrightarrow> length bs < 2 ^ 32 \<Longrightarrow>
      \<exists>bs'. enc (writer_at bs p) v = Some (writer_at bs' (p + sz v), True) \<and>
        only_changed bs bs' p (sz v) \<and> decodes dec bs' p (sz v) v"
    and enc_short: "ok v \<Longrightarrow> p \<le> 8 * length bs \<Longrightarrow> 8 * length bs < p + sz v \<Longrightarrow> length bs < 2 ^ 32 \<Longrightarrow>
      \<exists>bs' p'. enc (writer_at bs p) v = Some (writer_at bs' p', False) \<and>
        p \<le> p' \<and> p' \<le> 8 * length bs \<and> only_changed bs bs' p (8 * length bs - p)"
begin

lemma round_trip:
  assumes "ok v" and "p + sz v \<le> 8 * length bs" and "length bs < 2 ^ 32"
  obtains bs' b' where "enc (writer_at bs p) v = Some (writer_at bs' (p + sz v), True)"
    and "only_changed bs bs' p (sz v)"
    and "dec (reader_at bs' p b) = Some (reader_at bs' (p + sz v) b', v)"
proof -
  from enc_at [OF assms] obtain bs' where
    bs': "enc (writer_at bs p) v = Some (writer_at bs' (p + sz v), True)"
      "only_changed bs bs' p (sz v)" "decodes dec bs' p (sz v) v" by blast
  from bs'(3) obtain b' where "dec (reader_at bs' p b) = Some (reader_at bs' (p + sz v) b', v)"
    by (rule decodesE)
  with bs'(1,2) show thesis by (rule that)
qed

lemma write_seq_at:
  assumes "list_all ok vs" and "p + sum_list (map sz vs) \<le> 8 * length bs" and "length bs < 2 ^ 32"
  shows "\<exists>bs'. write_seq enc (writer_at bs p) vs = Some (writer_at bs' (p + sum_list (map sz vs)), True) \<and>
    only_changed bs bs' p (sum_list (map sz vs)) \<and>
    decodes (\<lambda>r. read_seq dec r (length vs)) bs' p (sum_list (map sz vs)) vs"
  using assms
proof (induction vs arbitrary: bs p)
  case Nil
  show ?case by (rule exI [of _ bs]) (auto simp: decodes_def)
next
  case (Cons v vs)
  let ?n = "sum_list (map sz vs)"
  from Cons.prems have "ok v" "p + sz v \<le> 8 * length bs" "length bs < 2 ^ 32" by simp_all
  from enc_at [OF this] obtain bs1 where bs1: "enc (writer_at bs p) v = Some (writer_at bs1 (p + sz v), True)"
    "only_changed bs bs1 p (sz v)" "decodes dec bs1 p (sz v) v" by blast
  then have len: "length bs1 = length bs" by (simp add: only_changed_def)
  from Cons.prems Cons.IH [of "p + sz v" bs1] len obtain bs' where
    bs': "write_seq enc (writer_at bs1 (p + sz v)) vs = Some (writer_at bs' (p + sz v + ?n), True)"
      "only_changed bs1 bs' (p + sz v) ?n"
      "decodes (\<lambda>r. read_seq dec r (length vs)) bs' (p + sz v) ?n vs"
    by (auto simp: add.assoc)
  have here: "decodes dec bs' p (sz v) v"
    using bs1(3) only_changed_agree [OF bs'(2)] by (auto intro: decodes_agree)
  have "decodes (\<lambda>r. read_seq dec r (length (v # vs))) bs' p (sz v + ?n) (v # vs)"
    unfolding decodes_def
  proof (intro allI impI)
    fix bs2 b assume ag: "agree bs' bs2 p (sz v + ?n)"
    have "decodes dec bs2 p (sz v) v"
      by (rule decodes_agree [OF here]) (rule agree_sub [OF ag], simp_all)
    then obtain b1 where 1: "dec (reader_at bs2 p b) = Some (reader_at bs2 (p + sz v) b1, v)"
      by (rule decodesE)
    have "decodes (\<lambda>r. read_seq dec r (length vs)) bs2 (p + sz v) ?n vs"
      by (rule decodes_agree [OF bs'(3)]) (rule agree_sub [OF ag], simp_all)
    then obtain b2 where "read_seq dec (reader_at bs2 (p + sz v) b1) (length vs) =
        Some (reader_at bs2 (p + sz v + ?n) b2, vs)" by (rule decodesE)
    with 1 show "\<exists>b'. read_seq dec (reader_at bs2 p b) (length (v # vs)) =
        Some (reader_at bs2 (p + (sz v + ?n)) b', v # vs)" by (auto simp: add.assoc)
  qed
  then show ?case
    using bs1 bs' by (auto simp: add.assoc intro: only_changed_append)
qed

lemma seq_round_trip:
  assumes "list_all ok vs" and "p + sum_list (map sz vs) \<le> 8 * length bs" and "length bs < 2 ^ 32"
  shows "\<exists>bs' b'. write_seq enc (writer_at bs p) vs = Some (writer_at bs' (p + sum_list (map sz vs)), True) \<and>
    only_changed bs bs' p (sum_list (map sz vs)) \<and>
    read_seq dec (reader_at bs' p b) (length vs) = Some (reader_at bs' (p + sum_list (map sz vs)) b', vs)"
proof -
  from write_seq_at [OF assms] obtain bs' where
    bs': "write_seq enc (writer_at bs p) vs = Some (writer_at bs' (p + sum_list (map sz vs)), True)"
      "only_changed bs bs' p (sum_list (map sz vs))"
      "decodes (\<lambda>r. read_seq dec r (length vs)) bs' p (sum_list (map sz vs)) vs" by blast
  from bs'(3) obtain b' where
    "read_seq dec (reader_at bs' p b) (length vs) = Some (reader_at bs' (p + sum_list (map sz vs)) b', vs)"
    by (rule decodesE)
  with bs'(1,2) show ?thesis by blast
qed

text \<open>
  A sequence that does not fit is reported, and what it did write stays behind the start. The
  writers go on after a failed write, so a later value may still be stored.
\<close>

lemma enc_any:
  assumes "ok v" and "p \<le> 8 * length bs" and "length bs < 2 ^ 32"
  obtains bs' p' where "enc (writer_at bs p) v = Some (writer_at bs' p', p + sz v \<le> 8 * length bs)"
    and "p \<le> p'" and "p' \<le> 8 * length bs" and "only_changed bs bs' p (8 * length bs - p)"
    and "p + sz v \<le> 8 * length bs \<Longrightarrow> p' = p + sz v"
proof (cases "p + sz v \<le> 8 * length bs")
  case True
  with enc_at [OF assms(1) True assms(3)] show thesis
    by (auto intro!: that elim: only_changed_mono)
next
  case False
  with enc_short [OF assms(1,2) _ assms(3)] show thesis
    by (auto intro!: that simp: not_le)
qed

lemma write_seq_any:
  assumes "list_all ok vs" and "p \<le> 8 * length bs" and "length bs < 2 ^ 32"
  shows "\<exists>bs' p' b. write_seq enc (writer_at bs p) vs = Some (writer_at bs' p', b) \<and>
    p \<le> p' \<and> p' \<le> 8 * length bs \<and> only_changed bs bs' p (8 * length bs - p) \<and>
    (b \<longleftrightarrow> p + sum_list (map sz vs) \<le> 8 * length bs)"
  using assms
proof (induction vs arbitrary: bs p)
  case Nil
  then show ?case by (intro exI [of _ bs] exI [of _ p]) auto
next
  case (Cons v vs)
  from Cons.prems have "ok v" "list_all ok vs" by simp_all
  from enc_any [OF \<open>ok v\<close> Cons.prems(2,3)] obtain bs1 p1 where 1:
    "enc (writer_at bs p) v = Some (writer_at bs1 p1, p + sz v \<le> 8 * length bs)"
    "p \<le> p1" "p1 \<le> 8 * length bs" "only_changed bs bs1 p (8 * length bs - p)"
    "p + sz v \<le> 8 * length bs \<Longrightarrow> p1 = p + sz v" by blast
  then have len: "length bs1 = length bs" by (simp add: only_changed_def)
  with Cons.IH [OF \<open>list_all ok vs\<close>, of p1 bs1] 1(3) Cons.prems(3) obtain bs' p' b where 2:
    "write_seq enc (writer_at bs1 p1) vs = Some (writer_at bs' p', b)" "p1 \<le> p'" "p' \<le> 8 * length bs"
    "only_changed bs1 bs' p1 (8 * length bs - p1)"
    "b \<longleftrightarrow> p1 + sum_list (map sz vs) \<le> 8 * length bs" by auto
  have "only_changed bs bs' p (8 * length bs - p)"
    using 1(2,3,4) 2(4) by (auto simp: only_changed_def)
  moreover have "p + sz v \<le> 8 * length bs \<and> b \<longleftrightarrow> p + sum_list (map sz (v # vs)) \<le> 8 * length bs"
    using 1(5) 2(5) by (auto simp: add.assoc)
  ultimately show ?case
    using 1(1,2) 2(1,2,3)
    by (intro exI [of _ bs'] exI [of _ p'] exI [of _ "p + sz v \<le> 8 * length bs \<and> b"]) auto
qed

end

text \<open>
  Most formats write one word. Their encoder is then \<^const>\<open>WriteBits\<close> of a code word, and only the
  decoding of that code word is left to show.
\<close>

locale word_codec =
  fixes enc :: "'v encoder" and dec :: "'v decoder" and ok :: "'v \<Rightarrow> bool"
    and code :: "'v \<Rightarrow> u64" and width :: "'v \<Rightarrow> nat"
  assumes enc_word: "ok v \<Longrightarrow> enc w v = (if width v = 0 then Some (w, True) else WriteBits w (code v) (width v))"
    and width_le: "ok v \<Longrightarrow> width v \<le> 64"
    and code_decodes: "ok v \<Longrightarrow> p + width v \<le> 8 * length bs \<Longrightarrow>
      decodes dec (put_bits bs p (width v) (code v)) p (width v) v"

sublocale word_codec \<subseteq> bit_codec enc dec ok width
proof
  fix v :: 'v and p :: nat and bs :: "u8 list"
  assume v: "ok v" and len: "length bs < 2 ^ 32"
  show "\<exists>bs'. enc (writer_at bs p) v = Some (writer_at bs' (p + width v), True) \<and>
     only_changed bs bs' p (width v) \<and> decodes dec bs' p (width v) v" if "p + width v \<le> 8 * length bs"
    using that len width_le [OF v] enc_word [OF v] code_decodes [OF v that]
    by (intro exI [of _ "put_bits bs p (width v) (code v)"])
      (auto simp: WriteBits_at only_changed_put_bits)
  show "\<exists>bs' p'. enc (writer_at bs p) v = Some (writer_at bs' p', False) \<and>
     p \<le> p' \<and> p' \<le> 8 * length bs \<and> only_changed bs bs' p (8 * length bs - p)"
    if "p \<le> 8 * length bs" "8 * length bs < p + width v"
    using that len enc_word [OF v]
    by (intro exI [of _ bs] exI [of _ p]) (auto simp: WriteBits_short)
qed


section \<open>Fixed width\<close>

lemma WriteBits_decodes:
  assumes le: "p + n \<le> 8 * length bs" and n: "n \<le> 64" and v: "unat v < 2 ^ n"
  shows "decodes (\<lambda>r. ReadBits r (int n)) (put_bits bs p n v) p n v"
  unfolding decodes_def
proof (intro allI impI)
  fix bs' b assume ag: "agree (put_bits bs p n v) bs' p n"
  have "bits_value bs' p n = unat v"
    using agree_bits_value [OF ag] bits_value_put_bits [OF le, of 0 n v] n v
    by (simp add: take_bit_nat_eq_self)
  moreover have "length bs' = length bs" using ag by (simp add: agree_def)
  ultimately show "\<exists>b'. ReadBits (reader_at bs' p b) (int n) = Some (reader_at bs' (p + n) b', v)"
    using le n by (auto simp: ReadBits_at)
qed

interpretation fixed_width: word_codec "\<lambda>w v. WriteBits w v n" "\<lambda>r. ReadBits r (int n)"
  "\<lambda>v. unat v < 2 ^ n \<and> 0 < n \<and> n \<le> 64" "\<lambda>v. v" "\<lambda>_. n" for n
  by unfold_locales (auto intro: WriteBits_decodes)

text \<open>\<open>WriteUInt8\<close>, \<open>WriteUInt16\<close>, \<open>WriteUInt32\<close> and \<open>Read<T>\<close>.\<close>

lemma Read_decodes:
  fixes v :: "'a::len word"
  assumes le: "p + LENGTH('a) \<le> 8 * length bs" and n: "LENGTH('a) \<le> 64"
  shows "decodes Read (put_bits bs p LENGTH('a) (ucast v)) p LENGTH('a) v"
  unfolding decodes_def
proof (intro allI impI)
  fix bs' b assume ag: "agree (put_bits bs p LENGTH('a) (ucast v)) bs' p LENGTH('a)"
  have u: "unat (ucast v :: u64) = unat v"
    using n by (intro unat_ucast_up) simp
  have "bits_value bs' p LENGTH('a) = unat v"
    using agree_bits_value [OF ag] bits_value_put_bits [OF le, of 0 "LENGTH('a)" "ucast v"] n
    by (simp add: u take_bit_nat_eq_self unat_lt2p)
  moreover have "length bs' = length bs" using ag by (simp add: agree_def)
  ultimately show "\<exists>b'. Read (reader_at bs' p b) = Some (reader_at bs' (p + LENGTH('a)) b', v)"
    using le n by (auto simp: Read_at)
qed

interpretation byte: word_codec WriteUInt8 Read "\<lambda>_. True" ucast "\<lambda>_. 8"
  using Read_decodes [where ?'a = 8] by unfold_locales (simp_all add: WriteUInt8_def)

interpretation uint16: word_codec WriteUInt16 Read "\<lambda>_. True" ucast "\<lambda>_. 16"
  using Read_decodes [where ?'a = 16] by unfold_locales (simp_all add: WriteUInt16_def)

interpretation uint32: word_codec WriteUInt32 Read "\<lambda>_. True" ucast "\<lambda>_. 32"
  using Read_decodes [where ?'a = 32] by unfold_locales (simp_all add: WriteUInt32_def)


section \<open>Strings\<close>

lemma WriteString_loop_seq:
  "WriteString_loop w cs s = map_option (\<lambda>(w, ok). (w, s \<and> ok)) (write_seq WriteUInt8 w cs)"
proof (induction cs arbitrary: w s)
  case (Cons c cs)
  show ?case
  proof (cases "WriteUInt8 w c")
    case (Some wb)
    then obtain w' b where "WriteUInt8 w c = Some (w', b)" by (cases wb) simp
    then show ?thesis by (cases "write_seq WriteUInt8 w' cs") (auto simp: Cons.IH)
  qed simp
qed simp

lemma WriteString_seq: "WriteString w cs = write_seq WriteUInt8 w cs"
  by (simp add: WriteString_def WriteString_loop_seq option.map_id)

lemma ReadString_loop_seq: "ReadString_loop r n = read_seq Read r n"
  by (induction n arbitrary: r) simp_all

interpretation str: bit_codec WriteString "\<lambda>r. ReadString r (int n)" "\<lambda>cs. length cs = n" "\<lambda>cs. 8 * length cs" for n
proof
  fix cs :: "u8 list" and p :: nat and bs :: "u8 list"
  assume n: "length cs = n" and len: "length bs < 2 ^ 32"
  have sum: "sum_list (map (\<lambda>_. 8) cs) = 8 * length cs" by (simp add: sum_list_triv)
  show "\<exists>bs'. WriteString (writer_at bs p) cs = Some (writer_at bs' (p + 8 * length cs), True) \<and>
      only_changed bs bs' p (8 * length cs) \<and> decodes (\<lambda>r. ReadString r (int n)) bs' p (8 * length cs) cs"
    if le: "p + 8 * length cs \<le> 8 * length bs"
  proof -
    from byte.write_seq_at [of cs p bs] le len obtain bs' where
      bs': "WriteString (writer_at bs p) cs = Some (writer_at bs' (p + 8 * length cs), True)"
        "only_changed bs bs' p (8 * length cs)"
        "decodes (\<lambda>r. read_seq Read r (length cs)) bs' p (8 * length cs) cs"
      by (auto simp: sum WriteString_seq list_all_iff)
    have "decodes (\<lambda>r. ReadString r (int n)) bs' p (8 * length cs) cs"
      unfolding decodes_def
    proof (intro allI impI)
      fix bs2 b assume ag: "agree bs' bs2 p (8 * length cs)"
      then have "length bs2 = length bs" using bs'(2) by (simp add: agree_def only_changed_def)
      moreover from bs'(3) ag have "decodes (\<lambda>r. read_seq Read r (length cs)) bs2 p (8 * length cs) cs"
        by (rule decodes_agree)
      then obtain b' where "read_seq Read (reader_at bs2 p b) (length cs) = Some (reader_at bs2 (p + 8 * length cs) b', cs)"
        by (rule decodesE)
      ultimately show "\<exists>b'. ReadString (reader_at bs2 p b) (int n) = Some (reader_at bs2 (p + 8 * length cs) b', cs)"
        using n le by (auto simp: ReadString_def ReadString_loop_seq Ok_def RemainingBitCount_def)
    qed
    with bs' show ?thesis by blast
  qed
  show "\<exists>bs' p'. WriteString (writer_at bs p) cs = Some (writer_at bs' p', False) \<and>
      p \<le> p' \<and> p' \<le> 8 * length bs \<and> only_changed bs bs' p (8 * length bs - p)"
    if "p \<le> 8 * length bs" "8 * length bs < p + 8 * length cs"
  proof -
    from byte.write_seq_any [of cs p bs] that len obtain bs' p' where
      "WriteString (writer_at bs p) cs = Some (writer_at bs' p', False)" "p \<le> p'" "p' \<le> 8 * length bs"
      "only_changed bs bs' p (8 * length bs - p)"
      by (auto simp: sum WriteString_seq list_all_iff)
    then show ?thesis by blast
  qed
qed


section \<open>Exponential Golomb\<close>

lemma count_zero_bits_at:
  assumes "z < left" and "p + z < 8 * length bs" and "left \<le> 32"
    and "\<And>k. k < z \<Longrightarrow> \<not> bbit bs (p + k)" and "bbit bs (p + z)"
  shows "count_zero_bits (reader_at bs p b) left = Some (reader_at bs (p + z + 1) False, Inr (32 - left + z))"
  using assms
proof (induction z arbitrary: p left b)
  case 0
  then show ?case by (cases left) (simp_all add: ReadBit_at)
next
  case (Suc z)
  from Suc.prems obtain l where left: "left = Suc l" "z < l" by (cases left) auto
  have "\<not> bbit bs p" using Suc.prems(4) [of 0] by simp
  moreover have "\<And>k. k < z \<Longrightarrow> \<not> bbit bs (p + 1 + k)" using Suc.prems(4) [of "Suc k" for k] by simp
  moreover have "bbit bs (p + 1 + z)" using Suc.prems(5) by simp
  ultimately show ?case
    using Suc.prems Suc.IH [of l "p + 1" False] left by (simp add: ReadBit_at Suc_diff_le)
qed

text \<open>The code word of \<open>v\<close> is \<open>v + 1\<close>, preceded by one zero less than it has bits.\<close>

definition golomb_code :: "u32 \<Rightarrow> u64" where
  "golomb_code v = ucast v + 1"

definition golomb_width :: "u32 \<Rightarrow> nat" where
  "golomb_width v = 2 * bit_width (golomb_code v) - 1"

lemma golomb_code_unat: "unat (golomb_code v) = unat v + 1"
proof -
  have "unat v + 1 < 2 ^ LENGTH(64)" using unat_lt2p [of v] by simp
  moreover have "golomb_code v = of_nat (unat v + 1)" by (simp add: golomb_code_def)
  ultimately show ?thesis by (simp only: unat_of_nat_eq)
qed

lemma golomb_code_bounds:
  "2 ^ (bit_width (golomb_code v) - 1) \<le> unat v + 1" "unat v + 1 < 2 ^ bit_width (golomb_code v)"
  "0 < bit_width (golomb_code v)"
proof -
  have "golomb_code v \<noteq> 0" using golomb_code_unat [of v] by (metis Suc_eq_plus1 Zero_not_Suc unsigned_0)
  then show "2 ^ (bit_width (golomb_code v) - 1) \<le> unat v + 1"
    "unat v + 1 < 2 ^ bit_width (golomb_code v)" "0 < bit_width (golomb_code v)"
    using bit_width_bounds [of "golomb_code v"] golomb_code_unat [of v] by simp_all
qed

lemma golomb_width_le: "v \<noteq> - 1 \<Longrightarrow> bit_width (golomb_code v) \<le> 32"
proof -
  assume "v \<noteq> - 1"
  moreover have "unat (- 1 :: u32) = 2 ^ 32 - 1"
    by (simp add: unsigned_minus_1_eq_mask mask_eq_exp_minus_1)
  ultimately have "unat v \<noteq> 2 ^ 32 - 1" by (metis word_unat_eq_iff)
  then have "unat v + 1 < 2 ^ 32" using unat_lt2p [of v] by simp
  then show ?thesis by (simp add: bit_width_le_iff golomb_code_unat)
qed

lemma bit_top:
  assumes "2 ^ z \<le> unat w" and "unat w < 2 ^ Suc z"
  shows "bit (w :: 'a::len word) z"
proof -
  have "unat w div 2 ^ z = 1" using assms by (intro div_nat_eqI) simp_all
  then have "bit (unat w) z" by (simp add: bit_iff_odd)
  then show ?thesis by (simp add: bit_unsigned_iff)
qed

lemma golomb_tail:
  fixes v :: u32
  assumes c: "unat c = unat v + 1" "2 ^ z \<le> unat c" "unat c < 2 ^ Suc z"
  defines "x \<equiv> of_nat (unat c - 2 ^ z) :: u64"
  shows "push_bit z 1 + ucast x - 1 = v"
proof -
  have "unat c - 2 ^ z \<le> unat v" using c by (simp add: le_diff_conv)
  then have lt: "unat c - 2 ^ z < 2 ^ 32" using unat_lt2p [of v] by simp
  then have m: "unat x = unat c - 2 ^ z" unfolding x_def by (intro unat_of_nat_eq) simp
  have "ucast x = (of_nat (unat c - 2 ^ z) :: u32)" using m by (metis of_nat_unat)
  then have "push_bit z 1 + ucast x = (of_nat (2 ^ z + (unat c - 2 ^ z)) :: u32)"
    by (simp add: push_bit_of_1 del: of_nat_diff)
  also have "\<dots> = of_nat (unat v) + 1" using c by simp
  finally show ?thesis by simp
qed

lemma golomb_decodes:
  assumes v: "v \<noteq> - 1" and le: "p + golomb_width v \<le> 8 * length bs"
  shows "decodes ReadExponentialGolomb (put_bits bs p (golomb_width v) (golomb_code v)) p (golomb_width v) v"
  unfolding decodes_def
proof (intro allI impI)
  define c where "c = golomb_code v"
  define z where "z = bit_width c - 1"
  have n: "golomb_width v = 2 * z + 1" and z: "z < 32" "bit_width c = Suc z"
    and c: "unat c = unat v + 1" "2 ^ z \<le> unat c" "unat c < 2 ^ Suc z"
    using golomb_code_bounds [of v] golomb_width_le [OF v] golomb_code_unat [of v]
    by (simp_all add: golomb_width_def c_def z_def)
  fix bs' b assume ag: "agree (put_bits bs p (golomb_width v) (golomb_code v)) bs' p (golomb_width v)"
  then have ag: "agree (put_bits bs p (2 * z + 1) c) bs' p (2 * z + 1)" by (simp add: n c_def)
  have len: "length bs' = length bs" using ag by (simp add: agree_def)
  have bits: "bbit bs' (p + k) = bit c (2 * z - k)" if "k \<le> 2 * z" for k
    using ag that le n by (simp add: agree_def bbit_put_bits del: put_bits.simps)
  have zeros: "\<not> bbit bs' (p + k)" if "k < z" for k
    using bits [of k] that c(3) unat_less_bit [of c "Suc z" "2 * z - k"] by simp
  have one: "bbit bs' (p + z)"
    using bits [of z] bit_top [OF c(2,3)] by simp
  have val: "bits_value bs' (p + z + 1) z = unat c - 2 ^ z"
  proof -
    have "bits_value bs' (p + z + 1) z = bits_value (put_bits bs p (2 * z + 1) c) (p + (z + 1)) z"
      using agree_bits_value [OF agree_sub [OF ag], of "p + (z + 1)" z] by (simp add: add.assoc)
    also have "\<dots> = take_bit z (unat c)"
      using bits_value_put_bits [of p "2 * z + 1" bs "z + 1" z c] le n z by simp
    also have "\<dots> = unat c - 2 ^ z"
      using c by (simp add: take_bit_eq_mod mod_if)
    finally show ?thesis .
  qed
  show "\<exists>b'. ReadExponentialGolomb (reader_at bs' p b) = Some (reader_at bs' (p + golomb_width v) b', v)"
  proof -
    define x where "x = (of_nat (unat c - 2 ^ z) :: u64)"
    have cz: "count_zero_bits (reader_at bs' p b) 32 = Some (reader_at bs' (p + z + 1) False, Inr z)"
      using count_zero_bits_at [of z 32 p bs' b] z le n len zeros one by simp
    have rd: "ReadBits (reader_at bs' (p + z + 1) False) (int z) = Some (reader_at bs' (p + z + 1 + z) False, x)"
      using ReadBits_at [of "p + z + 1" z bs' False] z le n len val by (simp add: x_def)
    note x = golomb_tail [OF c, folded x_def]
    have "ReadExponentialGolomb (reader_at bs' p b) = Some (reader_at bs' (p + z + 1 + z) False, v)"
      unfolding ReadExponentialGolomb_def cz Option.bind_lunit prod.case sum.case rd x ..
    moreover have "p + z + 1 + z = p + golomb_width v" using n by simp
    ultimately show ?thesis by (metis (full_types))
  qed
qed

interpretation golomb: word_codec WriteExponentialGolomb ReadExponentialGolomb "\<lambda>v. v \<noteq> - 1"
  golomb_code golomb_width
proof
  fix v :: u32 and w :: bit_writer
  assume v: "v \<noteq> - 1"
  show "WriteExponentialGolomb w v =
      (if golomb_width v = 0 then Some (w, True) else WriteBits w (golomb_code v) (golomb_width v))"
  proof -
    have "WriteExponentialGolomb w v = WriteBits w (golomb_code v) (golomb_width v)"
      using v by (simp only: WriteExponentialGolomb_def if_False Let_def golomb_width_def golomb_code_def mult.commute)
    moreover have "golomb_width v \<noteq> 0" using golomb_code_bounds(3) [of v] by (simp add: golomb_width_def)
    ultimately show ?thesis by (simp only: if_False)
  qed
  show "golomb_width v \<le> 64" using golomb_width_le [OF v] by (simp add: golomb_width_def)
qed (rule golomb_decodes)


section \<open>Signed exponential Golomb\<close>

definition signed_to_golomb :: "int \<Rightarrow> u32" where
  "signed_to_golomb v = (if 0 < v then of_int v * 2 - 1 else of_int (- v) * 2)"

definition golomb_to_signed :: "u32 \<Rightarrow> int" where
  "golomb_to_signed u = (if u AND 1 = 0 then - sint (u div 2) else sint ((u + 1) div 2))"

definition golomb_signed_range :: "int \<Rightarrow> bool" where
  "golomb_signed_range v \<longleftrightarrow> int32_min < v \<and> v \<le> int32_max"

lemma ReadSignedExponentialGolomb_eq:
  "ReadSignedExponentialGolomb r = do { (r, u) \<leftarrow> ReadExponentialGolomb r; Some (r, golomb_to_signed u) }"
  by (simp add: ReadSignedExponentialGolomb_def golomb_to_signed_def if_distrib cong: if_cong)

lemma WriteSignedExponentialGolomb_eq:
  "golomb_signed_range v \<Longrightarrow> WriteSignedExponentialGolomb w v = WriteExponentialGolomb w (signed_to_golomb v)"
  by (simp add: WriteSignedExponentialGolomb_def signed_to_golomb_def golomb_signed_range_def)

lemma unat_signed_to_golomb:
  assumes "golomb_signed_range v"
  shows "unat (signed_to_golomb v) = nat (if 0 < v then 2 * v - 1 else - 2 * v)"
proof -
  have "unat (of_int k :: u32) = nat k" if "0 \<le> k" "k < 2 ^ 32" for k
    using that by (simp add: unat_eq_nat_uint uint_word_of_int)
  moreover have "signed_to_golomb v = of_int (if 0 < v then 2 * v - 1 else - 2 * v)"
    by (simp add: signed_to_golomb_def)
  ultimately show ?thesis using assms by (auto simp: golomb_signed_range_def int_range_defs)
qed

lemma sint_half:
  fixes w :: u32
  assumes "unat w < 2 ^ 31"
  shows "sint w = int (unat w)"
proof -
  have lt: "uint w < 2 ^ 31" using assms by (metis of_nat_less_iff of_nat_numeral of_nat_power uint_nat)
  have "signed_take_bit 31 (uint w) = uint w"
    by (rule signed_take_bit_int_eq_self [OF order.trans [OF _ uint_nonnegative] lt]) simp
  then show ?thesis by (simp add: sint_uint)
qed

lemma golomb_to_signed_inverse:
  assumes "golomb_signed_range v"
  shows "golomb_to_signed (signed_to_golomb v) = v"
proof -
  let ?u = "signed_to_golomb v"
  note u = unat_signed_to_golomb [OF assms]
  have ev: "?u AND 1 = 0 \<longleftrightarrow> even (unat ?u)"
    by (simp add: and_one_eq even_iff_mod_2_eq_zero [symmetric] even_unat_iff)
  show ?thesis
  proof (cases "0 < v")
    case True
    with u ev have odd: "?u AND 1 \<noteq> 0" by (simp add: even_nat_iff)
    have "unat (?u + 1) = nat (2 * v)"
      using u True assms unat_word_ariths(1) [of ?u 1]
      by (simp add: golomb_signed_range_def int_range_defs nat_diff_distrib)
    then have "unat ((?u + 1) div 2) = nat v" by (simp add: unat_div)
    then show ?thesis using odd True sint_half [of "(?u + 1) div 2"] assms
      by (simp add: golomb_to_signed_def golomb_signed_range_def int_range_defs)
  next
    case False
    with u ev have even: "?u AND 1 = 0" by (simp add: even_nat_iff)
    have "unat (?u div 2) = nat (- v)" using u False by (simp add: unat_div)
    then show ?thesis using even False sint_half [of "?u div 2"] assms
      by (simp add: golomb_to_signed_def golomb_signed_range_def int_range_defs)
  qed
qed

text \<open>A decoder that maps the result of another one.\<close>

lemma decodes_map:
  assumes "decodes dec bs p n u" and "\<And>r. dec' r = do { (r, u) \<leftarrow> dec r; Some (r, f u) }"
  shows "decodes dec' bs p n (f u)"
  unfolding decodes_def
proof (intro allI impI)
  fix bs' b assume "agree bs bs' p n"
  with assms(1) have "decodes dec bs' p n u" by (rule decodes_agree)
  then obtain b' where "dec (reader_at bs' p b) = Some (reader_at bs' (p + n) b', u)" by (rule decodesE)
  then show "\<exists>b'. dec' (reader_at bs' p b) = Some (reader_at bs' (p + n) b', f u)"
    by (auto simp: assms(2))
qed

lemma signed_to_golomb_valid: "golomb_signed_range v \<Longrightarrow> signed_to_golomb v \<noteq> - 1"
proof
  assume v: "golomb_signed_range v" and "signed_to_golomb v = - 1"
  then have "unat (signed_to_golomb v) = 2 ^ 32 - 1"
    by (simp add: unsigned_minus_1_eq_mask mask_eq_exp_minus_1)
  with unat_signed_to_golomb [OF v] v show False
    by (simp add: golomb_signed_range_def int_range_defs split: if_splits)
qed

interpretation signed_golomb: word_codec WriteSignedExponentialGolomb ReadSignedExponentialGolomb
  golomb_signed_range "golomb_code \<circ> signed_to_golomb" "golomb_width \<circ> signed_to_golomb"
proof
  fix v :: int and w :: bit_writer and p :: nat and bs :: "u8 list"
  assume v: "golomb_signed_range v"
  note u = signed_to_golomb_valid [OF v]
  show "WriteSignedExponentialGolomb w v =
      (if (golomb_width \<circ> signed_to_golomb) v = 0 then Some (w, True)
       else WriteBits w ((golomb_code \<circ> signed_to_golomb) v) ((golomb_width \<circ> signed_to_golomb) v))"
    using golomb.enc_word [OF u] by (simp add: WriteSignedExponentialGolomb_eq [OF v])
  show "(golomb_width \<circ> signed_to_golomb) v \<le> 64" using golomb.width_le [OF u] by simp
  show "decodes ReadSignedExponentialGolomb (put_bits bs p ((golomb_width \<circ> signed_to_golomb) v)
      ((golomb_code \<circ> signed_to_golomb) v)) p ((golomb_width \<circ> signed_to_golomb) v) v"
    if "p + (golomb_width \<circ> signed_to_golomb) v \<le> 8 * length bs"
    using decodes_map [OF golomb_decodes [OF u, of p bs] ReadSignedExponentialGolomb_eq] that
    by (simp add: golomb_to_signed_inverse [OF v])
qed


section \<open>Non-symmetric values\<close>

text \<open>
  The code of a value below \<open>N\<close>: the first \<open>2 ^ w - N\<close> values take \<open>w - 1\<close> bits, the others
  \<open>w\<close>, where \<open>w\<close> is the width of \<open>N\<close>.
\<close>

definition short_codes :: "u32 \<Rightarrow> nat" where
  "short_codes N = 2 ^ bit_width N - unat N"

definition nonsym_ok :: "u32 \<Rightarrow> u32 \<Rightarrow> bool" where
  "nonsym_ok N v \<longleftrightarrow> v < N \<and> unat N < 2 ^ 31"

definition nonsym_code :: "u32 \<Rightarrow> u32 \<Rightarrow> u64" where
  "nonsym_code N v = of_nat (if unat v < short_codes N then unat v else unat v + short_codes N)"

definition nonsym_width :: "u32 \<Rightarrow> u32 \<Rightarrow> nat" where
  "nonsym_width N v = (if unat v < short_codes N then bit_width N - 1 else bit_width N)"

lemma nonsym_bounds:
  assumes "nonsym_ok N v"
  shows "2 ^ (bit_width N - 1) \<le> unat N" "unat N < 2 ^ bit_width N" "0 < bit_width N" "bit_width N \<le> 31"
    "unat v < unat N" "(2 :: nat) ^ bit_width N \<le> 2 ^ 31" "2 ^ bit_width N = 2 * (2 :: nat) ^ (bit_width N - 1)"
proof -
  have v: "unat v < unat N" and n: "unat N < 2 ^ 31"
    using assms by (simp_all add: nonsym_ok_def word_less_nat_alt)
  then have "N \<noteq> 0" by auto
  from bit_width_bounds [OF _ this] show b: "2 ^ (bit_width N - 1) \<le> unat N" "unat N < 2 ^ bit_width N"
    "0 < bit_width N" by simp_all
  show le: "bit_width N \<le> 31" using n by (simp add: bit_width_le_iff)
  show "unat v < unat N" by (rule v)
  show "(2 :: nat) ^ bit_width N \<le> 2 ^ 31" using le by (intro power_increasing) simp_all
  show "2 ^ bit_width N = 2 * (2 :: nat) ^ (bit_width N - 1)" using b(3) by (metis power_eq_if neq0_conv)
qed

lemma unat_short_codes:
  assumes "nonsym_ok N v"
  shows "unat (push_bit (bit_width N) 1 - N :: u32) = short_codes N"
proof -
  note b = nonsym_bounds [OF assms]
  have "push_bit (bit_width N) 1 - N = (of_nat (short_codes N) :: u32)"
    using b(2) by (simp add: short_codes_def push_bit_of_1)
  moreover have "short_codes N < 2 ^ LENGTH(32)" using b(6) by (simp add: short_codes_def)
  ultimately show ?thesis by (simp only: unat_of_nat_eq)
qed

lemma nonsym_code_unat:
  assumes "nonsym_ok N v"
  shows "unat (nonsym_code N v) = (if unat v < short_codes N then unat v else unat v + short_codes N)"
    "unat (nonsym_code N v) < 2 ^ nonsym_width N v"
proof -
  note b = nonsym_bounds [OF assms]
  have "unat v + short_codes N < 2 ^ bit_width N" "short_codes N \<le> 2 ^ (bit_width N - 1)"
    using b by (simp_all add: short_codes_def)
  moreover from this(1) have "unat v + short_codes N < 2 ^ LENGTH(64)" using b(6) by simp
  ultimately show "unat (nonsym_code N v) = (if unat v < short_codes N then unat v else unat v + short_codes N)"
    and "unat (nonsym_code N v) < 2 ^ nonsym_width N v"
    by (auto simp: nonsym_code_def nonsym_width_def unat_of_nat_eq)
qed

lemma nonsym_enc:
  assumes "nonsym_ok N v"
  shows "WriteNonSymmetric w v N =
    (if nonsym_width N v = 0 then Some (w, True) else WriteBits w (nonsym_code N v) (nonsym_width N v))"
proof -
  note b = nonsym_bounds [OF assms] and u = unat_short_codes [OF assms]
  define m where "m = (push_bit (bit_width N) 1 - N :: u32)"
  have m: "unat m = short_codes N" using u by (simp add: m_def)
  have lt: "v < m \<longleftrightarrow> unat v < short_codes N" by (simp add: word_less_nat_alt m)
  have code: "nonsym_code N v = (if v < m then ucast v else ucast (v + m))"
  proof (cases "v < m")
    case False
    have "unat v + unat m < 2 ^ LENGTH(32)" using b(2,5,6) by (simp add: m short_codes_def)
    then have "unat (v + m) = unat v + short_codes N"
      using m by (simp add: unat_word_ariths(1))
    then show ?thesis using False lt by (metis nonsym_code_def of_nat_unat)
  qed (simp add: nonsym_code_def lt [symmetric])
  have guards: "v < N" "N \<le> push_bit 31 1" "bit_width N < 32"
    using assms b(4) by (simp_all add: nonsym_ok_def word_le_nat_alt)
  show ?thesis
  proof (cases "N = 1")
    case True
    then have "unat v = 0" "unat N = 1" using b(5) by simp_all
    moreover have "bit_width N = 1" using True by (simp add: bit_width_correct compute_floorlog)
    ultimately have "nonsym_width N v = 0" by (simp add: nonsym_width_def short_codes_def)
    then show ?thesis using True guards by (simp add: WriteNonSymmetric_def)
  next
    case False
    have "nonsym_width N v \<noteq> 0"
    proof
      assume "nonsym_width N v = 0"
      then have "bit_width N = 1" using b(3) by (simp add: nonsym_width_def split: if_splits)
      then have "unat N = 1" using b(1,2) by simp
      with False show False by (simp add: word_unat_eq_iff)
    qed
    then show ?thesis
      using guards False code lt
      by (simp add: WriteNonSymmetric_def min_bits_values_def nonsym_width_def dcheck_def Let_def
          m_def [symmetric] del: push_bit_of_1)
  qed
qed

lemma nonsym_long_value:
  fixes v m :: u32
  assumes "k = unat v + unat m"
  shows "ucast (push_bit 1 (of_nat (k div 2)) + of_int (of_bool (odd k)) - ucast m :: u64) = v"
proof -
  have "push_bit 1 (of_nat (k div 2)) + of_int (of_bool (odd k)) = (of_nat (2 * (k div 2) + of_bool (odd k)) :: u64)"
    by simp
  also have "2 * (k div 2) + of_bool (odd k) = k" by (cases "odd k") simp_all
  also have "(of_nat k :: u64) = ucast v + ucast m" unfolding assms by simp
  finally have "push_bit 1 (of_nat (k div 2)) + of_int (of_bool (odd k)) - ucast m = (ucast v :: u64)"
    by (simp only: add_diff_cancel_right')
  then show ?thesis by (simp only:) simp
qed

lemma nonsym_decodes:
  assumes ok: "nonsym_ok N v" and le: "p + nonsym_width N v \<le> 8 * length bs"
  shows "decodes (\<lambda>r. ReadNonSymmetric r N) (put_bits bs p (nonsym_width N v) (nonsym_code N v)) p (nonsym_width N v) v"
  unfolding decodes_def
proof (intro allI impI)
  note b = nonsym_bounds [OF ok]
  define c where "c = nonsym_code N v"
  define n where "n = bit_width N"
  define m where "m = (push_bit n 1 - N :: u32)"
  have m: "unat m = short_codes N" using unat_short_codes [OF ok] by (simp add: m_def n_def)
  fix bs' b0 assume ag: "agree (put_bits bs p (nonsym_width N v) (nonsym_code N v)) bs' p (nonsym_width N v)"
  then have len: "length bs' = length bs" by (simp add: agree_def)
  have guards: "0 < N" "N \<le> push_bit 31 1" "n < 32" "0 < n"
    using ok b(3,4) by (auto simp: nonsym_ok_def word_le_nat_alt n_def intro: le_less_trans)
  have nm: "num_min_bits N n = Some m" using guards by (simp add: num_min_bits_def m_def)
  have rns: "ReadNonSymmetric r N = do {
      (r, val) \<leftarrow> ReadBits r (int n - 1);
      if val < ucast m then Some (r, ucast val)
      else do { (r, b) \<leftarrow> ReadBit r; Some (r, ucast (push_bit 1 val + of_int b - ucast m)) } }" for r
    using guards nm by (simp add: ReadNonSymmetric_def dcheck_def n_def [symmetric] del: push_bit_of_1)
  show "\<exists>b'. ReadNonSymmetric (reader_at bs' p b0) N = Some (reader_at bs' (p + nonsym_width N v) b', v)"
  proof (cases "unat v < short_codes N")
    case True
    then have n1: "nonsym_width N v = n - 1" by (simp add: nonsym_width_def n_def)
    have "bits_value bs' p (n - 1) = unat v"
      using agree_bits_value [OF ag] bits_value_put_bits [OF le, of 0 "nonsym_width N v" "nonsym_code N v"]
        nonsym_code_unat [OF ok] True guards by (simp add: n1 take_bit_nat_eq_self)
    then have rd: "ReadBits (reader_at bs' p b0) (int n - 1) = Some (reader_at bs' (p + (n - 1)) False, ucast v)"
      using ReadBits_at [of p "n - 1" bs' b0] le len guards by (simp add: n1 of_nat_diff)
    have "(ucast v :: u64) < ucast m" using True m by (simp add: word_less_nat_alt unat_ucast_up)
    then show ?thesis
      by (simp add: rns rd n1) blast
  next
    case False
    then have n1: "nonsym_width N v = n" by (simp add: nonsym_width_def n_def)
    have c: "unat c = unat v + unat m" "unat c < 2 ^ n"
      using nonsym_code_unat [OF ok] False m by (simp_all add: c_def n1)
    have "bits_value bs' p (n - 1) = take_bit (n - 1) (drop_bit 1 (unat c))"
      using agree_bits_value [OF agree_sub [OF ag], of p "n - 1"] guards
        bits_value_put_bits [OF le, of 0 "n - 1" c] by (simp add: n1 c_def)
    also have "\<dots> = unat c div 2"
      using c(2) guards by (simp add: drop_bit_Suc take_bit_nat_eq_self less_mult_imp_div_less power_eq_if)
    finally have rd: "ReadBits (reader_at bs' p b0) (int n - 1) =
        Some (reader_at bs' (p + (n - 1)) False, of_nat (unat c div 2))"
      using ReadBits_at [of p "n - 1" bs' b0] le len guards by (simp add: n1 of_nat_diff)
    have "bbit bs' (p + (n - 1)) = bit c 0"
      using ag le guards by (simp add: agree_def bbit_put_bits n1 c_def)
    then have rb: "ReadBit (reader_at bs' (p + (n - 1)) False) =
        Some (reader_at bs' (p + n) False, of_bool (odd (unat c)))"
      using ReadBit_at [of "p + (n - 1)" bs' False] le len guards n1
      by (simp add: bit_0 even_unat_iff)
    have "unat (of_nat (unat c div 2) :: u64) = unat c div 2"
      using unat_lt2p [of c] by (intro unat_of_nat_eq) simp
    then have "\<not> (of_nat (unat c div 2) :: u64) < ucast m"
      using False m c(1) by (simp add: word_less_nat_alt unat_ucast_up)
    then show ?thesis
      unfolding rns rd n1 using rb nonsym_long_value [OF c(1)] by auto
  qed
qed

interpretation nonsym: word_codec "\<lambda>w v. WriteNonSymmetric w v N" "\<lambda>r. ReadNonSymmetric r N" "nonsym_ok N"
  "nonsym_code N" "nonsym_width N" for N
proof
  fix v assume ok: "nonsym_ok N v"
  show "nonsym_width N v \<le> 64" using nonsym_bounds(4) [OF ok] by (auto simp: nonsym_width_def)
qed (simp_all add: nonsym_enc nonsym_decodes)


section \<open>LEB128\<close>

text \<open>The bytes of the encoding: seven bits each, low bits first, the top bit set on all but the last.\<close>

function leb128 :: "u64 \<Rightarrow> u8 list" where
  "leb128 v =
     (let rest = drop_bit 7 v; byte = (ucast (v AND 0x7f) :: u8)
      in if 0 < rest then (byte OR 0x80) # leb128 rest else [byte])"
  by pat_completeness auto

termination leb128
  by (relation "measure unat") (simp_all add: drop_bit_7_less)

declare leb128.simps [simp del]

lemma WriteLeb128_loop_bytes: "WriteLeb128_loop w v s = WriteString_loop w (leb128 v) s"
proof (induction v arbitrary: w s rule: leb128.induct)
  case (1 v)
  show ?case
  proof (cases "0 < drop_bit 7 v")
    case True
    then show ?thesis
      using 1 [OF refl refl True]
      by (subst WriteLeb128_loop.simps, subst leb128.simps) (simp add: Let_def)
  next
    case False
    then show ?thesis
      by (subst WriteLeb128_loop.simps, subst leb128.simps) (simp add: Let_def)
  qed
qed

lemma leb128_nonempty: "leb128 v \<noteq> []"
  by (subst leb128.simps) (simp add: Let_def)

lemma leb128_byte:
  fixes v :: u64
  defines "b \<equiv> ucast (v AND 0x7f) :: u8"
  shows "b AND 0x80 = 0" "b AND 0x7f = b" "(b OR 0x80) AND 0x7f = b" "(b OR 0x80) AND 0x80 \<noteq> 0"
    "ucast b = v AND 0x7f"
proof -
  have m: "(0x7f :: u8) = mask 7" "(0x7f :: u64) = mask 7" by (simp_all add: mask_eq_exp_minus_1)
  have "(0x80 :: u8) = push_bit 7 1" by simp
  then have h: "bit (0x80 :: u8) k \<longleftrightarrow> k = 7" for k
    by (simp only: bit_push_bit_word bit_1_iff) auto
  show "b AND 0x80 = 0" unfolding b_def m by (rule bit_word_eqI) (simp only: word_bit_simps h, simp)
  show "b AND 0x7f = b" unfolding b_def m by (rule bit_word_eqI) (auto simp: word_bit_simps)
  show "(b OR 0x80) AND 0x7f = b" unfolding b_def m by (rule bit_word_eqI) (simp only: word_bit_simps h, auto)
  show "ucast b = v AND 0x7f" unfolding b_def m by (rule bit_word_eqI) (auto simp: word_bit_simps)
  have "bit ((b OR 0x80) AND 0x80) 7" by (simp only: word_bit_simps h) simp
  then show "(b OR 0x80) AND 0x80 \<noteq> 0" by auto
qed

lemma leb128_split: "(v AND 0x7f) + push_bit 7 (drop_bit 7 v) = (v :: u64)"
proof -
  have "v AND 0x7f = take_bit 7 v" by (simp add: take_bit_eq_mask mask_eq_exp_minus_1 and.commute)
  then show ?thesis using bits_ident [of 7 v] by (simp add: add.commute)
qed

lemma ReadLeb128_loop_bytes:
  assumes "read_seq Read r (length (leb128 v)) = Some (r', leb128 v)" and "unat v * 2 ^ (7 * i) < 2 ^ 64"
    and "i < 10"
  shows "ReadLeb128_loop r acc i = Some (r', acc + push_bit (7 * i) v, i + length (leb128 v), last (leb128 v)) \<and>
    i + length (leb128 v) \<le> 10 \<and> (i + length (leb128 v) = 10 \<longrightarrow> last (leb128 v) \<le> 1)"
  using assms
proof (induction v arbitrary: r acc i rule: leb128.induct)
  case (1 v)
  let ?b = "ucast (v AND 0x7f) :: u8"
  show ?case
  proof (cases "0 < drop_bit 7 v")
    case True
    then have bytes: "leb128 v = (?b OR 0x80) # leb128 (drop_bit 7 v)"
      by (subst leb128.simps) (simp add: Let_def)
    with 1(2) obtain r1 where r1: "Read r = Some (r1, ?b OR 0x80)"
      "read_seq Read r1 (length (leb128 (drop_bit 7 v))) = Some (r', leb128 (drop_bit 7 v))"
      by (auto simp: Option.bind_eq_Some_conv)
    have d: "unat (drop_bit 7 v) = unat v div 128"
      unfolding unat_drop_bit_eq by (simp add: drop_bit_eq_div)
    have "0 < unat v div 128" using True by (simp add: unat_gt_0 word_gt_0 flip: d)
    then have "128 \<le> unat v" by simp
    then have "2 ^ (7 * i + 7) \<le> unat v * 2 ^ (7 * i)" by (simp add: power_add)
    then have "(2 :: nat) ^ (7 * i + 7) < 2 ^ 64" using 1(3) by linarith
    then have i: "i + 1 < 10" using power_less_imp_less_exp [of "2 :: nat" "7 * i + 7" 64] by linarith
    have "unat (drop_bit 7 v) * 2 ^ (7 * (i + 1)) \<le> unat v * 2 ^ (7 * i)"
      by (simp add: d power_add mult.assoc [symmetric]) 
    then have "unat (drop_bit 7 v) * 2 ^ (7 * (i + 1)) < 2 ^ 64" using 1(3) by linarith
    note IH = 1(1) [OF refl refl True r1(2) this i, of "acc + push_bit (7 * i) (v AND 0x7f)"]
    have "push_bit (7 * i) (v AND 0x7f) + push_bit (7 * (i + 1)) (drop_bit 7 v) =
        push_bit (7 * i) ((v AND 0x7f) + push_bit 7 (drop_bit 7 v))"
      by (simp only: push_bit_add push_bit_push_bit distrib_left mult_1_right)
    then have sum: "push_bit (7 * i) (v AND 0x7f) + push_bit (7 * (i + 1)) (drop_bit 7 v) = push_bit (7 * i) v"
      by (simp only: leb128_split)
    have "ReadLeb128_loop r acc i = ReadLeb128_loop r1 (acc + push_bit (7 * i) (v AND 0x7f)) (i + 1)"
      using i by (subst ReadLeb128_loop.simps) (simp add: r1(1) Let_def leb128_byte)
    then show ?thesis
      using IH leb128_nonempty [of "drop_bit 7 v"] unfolding bytes add.assoc sum by simp
  next
    case False
    then have bytes: "leb128 v = [?b]" and v: "v AND 0x7f = v"
      using leb128_split [of v] by (subst leb128.simps, simp add: Let_def, simp add: not_less)
    have "?b \<le> 1" if "i = 9"
    proof -
      have "unat v * 2 ^ 63 < 2 * 2 ^ 63" using 1(3) that by simp
      then have "unat v \<le> 1" by simp
      moreover have "unat ?b = unat v" using leb128_byte(5) [of v] unat_ucast_up [of ?b, where 'b = 64] v by simp
      ultimately show ?thesis by (simp add: word_le_nat_alt)
    qed
    moreover have "Read r = Some (r', ?b)"
      using 1(2) unfolding bytes by (auto simp: Option.bind_eq_Some_conv)
    ultimately show ?thesis
      using 1(4) leb128_byte [of v] v unfolding bytes
      by (subst ReadLeb128_loop.simps) (simp add: Let_def)
  qed
qed

lemma leb128_decodes:
  assumes dec: "decodes (\<lambda>r. read_seq Read r (length (leb128 v))) bs p n (leb128 v)"
    and le: "p + n \<le> 8 * length bs"
  shows "decodes ReadLeb128 bs p n v"
  unfolding decodes_def
proof (intro allI impI)
  fix bs' b assume ag: "agree bs bs' p n"
  from decodes_agree [OF dec ag] obtain b' where
    "read_seq Read (reader_at bs' p b) (length (leb128 v)) = Some (reader_at bs' (p + n) b', leb128 v)"
    by (rule decodesE)
  from ReadLeb128_loop_bytes [OF this, of 0 0] unat_lt2p [of v]
  have "ReadLeb128_loop (reader_at bs' p b) 0 0 =
      Some (reader_at bs' (p + n) b', v, length (leb128 v), last (leb128 v))"
    "length (leb128 v) = 10 \<longrightarrow> \<not> 1 < last (leb128 v)"
    by auto
  then show "\<exists>b'. ReadLeb128 (reader_at bs' p b) = Some (reader_at bs' (p + n) b', v)"
    using le ag by (auto simp: ReadLeb128_def Let_def Ok_def RemainingBitCount_def agree_def)
qed

lemma WriteLeb128_string: "WriteLeb128 w v = WriteString w (leb128 v)"
  by (simp add: WriteLeb128_def WriteString_def WriteLeb128_loop_bytes)

interpretation leb: bit_codec WriteLeb128 ReadLeb128 "\<lambda>_. True" "\<lambda>v. 8 * length (leb128 v)"
proof
  fix v :: u64 and p :: nat and bs :: "u8 list"
  assume len: "length bs < 2 ^ 32"
  have sum: "sum_list (map (\<lambda>_. 8) (leb128 v)) = 8 * length (leb128 v)" by (simp add: sum_list_triv)
  show "\<exists>bs'. WriteLeb128 (writer_at bs p) v = Some (writer_at bs' (p + 8 * length (leb128 v)), True) \<and>
      only_changed bs bs' p (8 * length (leb128 v)) \<and> decodes ReadLeb128 bs' p (8 * length (leb128 v)) v"
    if le: "p + 8 * length (leb128 v) \<le> 8 * length bs"
  proof -
    from byte.write_seq_at [of "leb128 v" p bs] le len obtain bs' where
      bs': "WriteLeb128 (writer_at bs p) v = Some (writer_at bs' (p + 8 * length (leb128 v)), True)"
        "only_changed bs bs' p (8 * length (leb128 v))"
        "decodes (\<lambda>r. read_seq Read r (length (leb128 v))) bs' p (8 * length (leb128 v)) (leb128 v)"
      by (auto simp: sum WriteLeb128_string WriteString_seq list_all_iff)
    moreover have "length bs' = length bs" using bs'(2) by (simp add: only_changed_def)
    ultimately show ?thesis using le leb128_decodes by metis
  qed
  show "\<exists>bs' p'. WriteLeb128 (writer_at bs p) v = Some (writer_at bs' p', False) \<and>
      p \<le> p' \<and> p' \<le> 8 * length bs \<and> only_changed bs bs' p (8 * length bs - p)"
    if "p \<le> 8 * length bs" "8 * length bs < p + 8 * length (leb128 v)"
    using str.enc_short [OF refl, of p bs "leb128 v"] that len by (simp add: WriteLeb128_string)
qed

lemma leb128_length: "length (leb128 v) = max 1 ((bit_width v + 6) div 7)"
proof (induction v rule: leb128.induct)
  case (1 v)
  have d: "unat (drop_bit 7 v) = drop_bit 7 (unat v)" by (rule unat_drop_bit_eq)
  have w: "bit_width x = floorlog 2 (unat x)" for x :: u64 by (simp add: bit_width_correct)
  show ?case
  proof (cases "0 < drop_bit 7 v")
    case True
    then have "drop_bit 7 (unat v) \<noteq> 0" by (simp add: unat_gt_0 word_gt_0 flip: d)
    then have "bit_width v = bit_width (drop_bit 7 v) + 7" "0 < bit_width (drop_bit 7 v)"
      using floorlog_drop_bit [of 7 "unat v"] floorlog_pos by (simp_all only: w d) auto
    moreover have "max 1 ((k + 7 + 6) div 7) = Suc (max 1 ((k + 6) div 7))" if "0 < k" for k :: nat
    proof -
      have "(k + 7 + 6) div 7 = Suc ((k + 6) div 7)" and "1 \<le> (k + 6) div 7" using that by linarith+
      then show ?thesis by (simp only: max_def) simp
    qed
    moreover have "length (leb128 v) = Suc (length (leb128 (drop_bit 7 v)))"
      using True by (subst leb128.simps) (simp add: Let_def)
    ultimately show ?thesis using 1 [OF refl refl True] by simp
  next
    case False
    then have "unat (drop_bit 7 v) = 0" by (simp add: not_less)
    then have "unat v < 2 ^ 7" by (simp only: d) (simp add: drop_bit_eq_div)
    then have "bit_width v \<le> 7" by (simp add: bit_width_le_iff)
    then have "(bit_width v + 6) div 7 \<le> 1" by linarith
    then show ?thesis using False by (subst leb128.simps) (simp add: Let_def max_def)
  qed
qed


section \<open>Round trips\<close>

text \<open>
  C5: exponential Golomb codes. Writing any values below \<open>2 ^ 32 - 1\<close> one after the other, from any bit
  position where they fit, succeeds, changes no bit outside the area written, and reading them
  back from there returns the same values and ends at the same position.
\<close>

theorem golomb_round_trip:
  assumes "list_all (\<lambda>v. v \<noteq> - 1) vs" and "p + sum_list (map (golomb_width) vs) \<le> 8 * length bs" and "length bs < 2 ^ 32"
  shows "\<exists>bs' b'. write_seq (WriteExponentialGolomb) (writer_at bs p) vs = Some (writer_at bs' (p + sum_list (map (golomb_width) vs)), True) \<and>
    only_changed bs bs' p (sum_list (map (golomb_width) vs)) \<and>
    read_seq (ReadExponentialGolomb) (reader_at bs' p b) (length vs) = Some (reader_at bs' (p + sum_list (map (golomb_width) vs)) b', vs)"
  using assms by (rule golomb.seq_round_trip)

theorem golomb_round_trip_witness:
  "\<exists>bs' b'. write_seq (WriteExponentialGolomb) (writer_at [0, 0] 3) [0, 5, 1] =
      Some (writer_at bs' (3 + sum_list (map (golomb_width) [0, 5, 1])), True) \<and>
    only_changed [0, 0] bs' 3 (sum_list (map (golomb_width) [0, 5, 1])) \<and>
    read_seq (ReadExponentialGolomb) (reader_at bs' 3 True) (length ([0, 5, 1] :: u32 list)) =
      Some (reader_at bs' (3 + sum_list (map (golomb_width) [0, 5, 1])) b', [0, 5, 1])"
  by (rule golomb_round_trip) (simp_all add: golomb_width_def golomb_code_def bit_width_correct compute_floorlog)

text \<open>
  The round trip of signed exponential Golomb codes, for every \<open>int32_t\<close> but the smallest.
\<close>

theorem signed_golomb_round_trip:
  assumes "list_all golomb_signed_range vs" and "p + sum_list (map (golomb_width \<circ> signed_to_golomb) vs) \<le> 8 * length bs" and "length bs < 2 ^ 32"
  shows "\<exists>bs' b'. write_seq (WriteSignedExponentialGolomb) (writer_at bs p) vs = Some (writer_at bs' (p + sum_list (map (golomb_width \<circ> signed_to_golomb) vs)), True) \<and>
    only_changed bs bs' p (sum_list (map (golomb_width \<circ> signed_to_golomb) vs)) \<and>
    read_seq (ReadSignedExponentialGolomb) (reader_at bs' p b) (length vs) = Some (reader_at bs' (p + sum_list (map (golomb_width \<circ> signed_to_golomb) vs)) b', vs)"
  using assms by (rule signed_golomb.seq_round_trip)

theorem signed_golomb_round_trip_witness:
  "\<exists>bs' b'. write_seq (WriteSignedExponentialGolomb) (writer_at [0, 0] 3) [0, 5, - 2] =
      Some (writer_at bs' (3 + sum_list (map (golomb_width \<circ> signed_to_golomb) [0, 5, - 2])), True) \<and>
    only_changed [0, 0] bs' 3 (sum_list (map (golomb_width \<circ> signed_to_golomb) [0, 5, - 2])) \<and>
    read_seq (ReadSignedExponentialGolomb) (reader_at bs' 3 True) (length ([0, 5, - 2] :: int list)) =
      Some (reader_at bs' (3 + sum_list (map (golomb_width \<circ> signed_to_golomb) [0, 5, - 2])) b', [0, 5, - 2])"
  by (rule signed_golomb_round_trip) (simp_all add: golomb_signed_range_def int_range_defs signed_to_golomb_def golomb_width_def golomb_code_def bit_width_correct compute_floorlog)

text \<open>
  The round trip of non-symmetric codes: values below \<open>num_values < 2 ^ 31\<close>.
\<close>

theorem nonsym_round_trip:
  assumes "list_all (nonsym_ok N) vs" and "p + sum_list (map (nonsym_width N) vs) \<le> 8 * length bs" and "length bs < 2 ^ 32"
  shows "\<exists>bs' b'. write_seq (\<lambda>w v. WriteNonSymmetric w v N) (writer_at bs p) vs = Some (writer_at bs' (p + sum_list (map (nonsym_width N) vs)), True) \<and>
    only_changed bs bs' p (sum_list (map (nonsym_width N) vs)) \<and>
    read_seq (\<lambda>r. ReadNonSymmetric r N) (reader_at bs' p b) (length vs) = Some (reader_at bs' (p + sum_list (map (nonsym_width N) vs)) b', vs)"
  using assms by (rule nonsym.seq_round_trip)

theorem nonsym_round_trip_witness:
  "\<exists>bs' b'. write_seq (\<lambda>w v. WriteNonSymmetric w v 5) (writer_at [0, 0] 3) [0, 4, 2] =
      Some (writer_at bs' (3 + sum_list (map (nonsym_width 5) [0, 4, 2])), True) \<and>
    only_changed [0, 0] bs' 3 (sum_list (map (nonsym_width 5) [0, 4, 2])) \<and>
    read_seq (\<lambda>r. ReadNonSymmetric r 5) (reader_at bs' 3 True) (length ([0, 4, 2] :: u32 list)) =
      Some (reader_at bs' (3 + sum_list (map (nonsym_width 5) [0, 4, 2])) b', [0, 4, 2])"
  by (rule nonsym_round_trip) (simp_all add: nonsym_ok_def nonsym_width_def short_codes_def bit_width_correct compute_floorlog)

text \<open>
  The round trip of LEB128, for every \<open>uint64_t\<close> and from any bit position.
\<close>

theorem leb128_round_trip:
  assumes "list_all (\<lambda>_. True) vs" and "p + sum_list (map (\<lambda>v. 8 * length (leb128 v)) vs) \<le> 8 * length bs" and "length bs < 2 ^ 32"
  shows "\<exists>bs' b'. write_seq (WriteLeb128) (writer_at bs p) vs = Some (writer_at bs' (p + sum_list (map (\<lambda>v. 8 * length (leb128 v)) vs)), True) \<and>
    only_changed bs bs' p (sum_list (map (\<lambda>v. 8 * length (leb128 v)) vs)) \<and>
    read_seq (ReadLeb128) (reader_at bs' p b) (length vs) = Some (reader_at bs' (p + sum_list (map (\<lambda>v. 8 * length (leb128 v)) vs)) b', vs)"
  using assms by (rule leb.seq_round_trip)

theorem leb128_round_trip_witness:
  "\<exists>bs' b'. write_seq (WriteLeb128) (writer_at [0, 0, 0, 0] 3) [300, 5] =
      Some (writer_at bs' (3 + sum_list (map (\<lambda>v. 8 * length (leb128 v)) [300, 5])), True) \<and>
    only_changed [0, 0, 0, 0] bs' 3 (sum_list (map (\<lambda>v. 8 * length (leb128 v)) [300, 5])) \<and>
    read_seq (ReadLeb128) (reader_at bs' 3 True) (length ([300, 5] :: u64 list)) =
      Some (reader_at bs' (3 + sum_list (map (\<lambda>v. 8 * length (leb128 v)) [300, 5])) b', [300, 5])"
proof (rule leb128_round_trip)
  have "length (leb128 300) = 2" "length (leb128 5) = 1"
    unfolding leb128_length by (simp_all add: bit_width_correct compute_floorlog)
  then show "3 + (\<Sum>v\<leftarrow>[300, 5]. 8 * length (leb128 v)) \<le> 8 * length [0, 0, 0, 0 :: u8]" by simp
qed simp_all

text \<open>
  Strings. \<open>WriteString\<close> then \<open>ReadString\<close> of the same length gives the bytes back, from any bit
  position; when the string does not fit, \<open>WriteString\<close> returns false.
\<close>

theorem string_round_trip:
  assumes "p \<le> 8 * length bs" and "length bs < 2 ^ 32"
  shows "if p + 8 * length cs \<le> 8 * length bs
    then \<exists>bs' b'. WriteString (writer_at bs p) cs = Some (writer_at bs' (p + 8 * length cs), True) \<and>
      only_changed bs bs' p (8 * length cs) \<and>
      ReadString (reader_at bs' p b) (int (length cs)) = Some (reader_at bs' (p + 8 * length cs) b', cs)
    else \<exists>w. WriteString (writer_at bs p) cs = Some (w, False)"
proof (cases "p + 8 * length cs \<le> 8 * length bs")
  case True
  with assms(2) show ?thesis using str.round_trip [OF refl, of p cs bs b] by (simp only: if_True) blast
next
  case False
  then have "8 * length bs < p + 8 * length cs" by simp
  from str.enc_short [OF refl assms(1) this assms(2)] False show ?thesis by (simp only: if_False) blast
qed

theorem string_round_trip_witness:
  "if 4 + 8 * length [72, 105 :: u8] \<le> 8 * length [0, 0, 0 :: u8]
    then \<exists>bs' b'. WriteString (writer_at [0, 0, 0] 4) [72, 105] = Some (writer_at bs' (4 + 8 * length [72, 105 :: u8]), True) \<and>
      only_changed [0, 0, 0] bs' 4 (8 * length [72, 105 :: u8]) \<and>
      ReadString (reader_at bs' 4 True) (int (length [72, 105 :: u8])) =
        Some (reader_at bs' (4 + 8 * length [72, 105 :: u8]) b', [72, 105])
    else \<exists>w. WriteString (writer_at [0, 0, 0] 4) [72, 105] = Some (w, False)"
  by (rule string_round_trip) simp_all

text \<open>
  \<open>SizeNonSymmetricBits\<close> is the number of bits that \<open>WriteNonSymmetric\<close> writes.
\<close>

theorem SizeNonSymmetricBits_exact:
  assumes "v < N" and "unat N < 2 ^ 31" and "p + bit_width N \<le> 8 * length bs" and "length bs < 2 ^ 32"
  shows "\<exists>n bs'. SizeNonSymmetricBits v N = Some n \<and>
    WriteNonSymmetric (writer_at bs p) v N = Some (writer_at bs' (p + n), True)"
proof -
  have ok: "nonsym_ok N v" using assms by (simp add: nonsym_ok_def)
  note b = nonsym_bounds [OF ok] and u = unat_short_codes [OF ok]
  have "N \<le> push_bit 31 1" using assms(2) by (simp add: word_le_nat_alt)
  moreover have "v < push_bit (bit_width N) 1 - N \<longleftrightarrow> unat v < short_codes N"
    using u by (simp add: word_less_nat_alt)
  ultimately have "SizeNonSymmetricBits v N = Some (nonsym_width N v)"
    using assms(1) b(4)
    by (simp add: SizeNonSymmetricBits_def min_bits_values_def nonsym_width_def dcheck_def del: push_bit_of_1)
  moreover have "p + nonsym_width N v \<le> 8 * length bs" using assms(3) by (auto simp: nonsym_width_def)
  ultimately show ?thesis using nonsym.enc_at [OF ok _ assms(4), of p] by blast
qed

theorem SizeNonSymmetricBits_exact_witness:
  "\<exists>n bs'. SizeNonSymmetricBits 4 5 = Some n \<and>
    WriteNonSymmetric (writer_at [0, 0] 6) 4 5 = Some (writer_at bs' (6 + n), True)"
  by (rule SizeNonSymmetricBits_exact) (simp_all add: bit_width_correct compute_floorlog)

end
