(* ===== verification/BitSafety.thy ===== *)
theory BitSafety
  imports BitCodec
begin

text \<open>
  Safety of whole reader and writer sessions: any sequence of operations of \<open>BitBufferReader\<close> and
  \<open>BitBufferWriter\<close>, on any buffer contents, stays inside the buffer, never trips one of the
  checks of the code, and keeps the class invariant. The contract is the locale \<open>safe_ops\<close> of the
  prelude; here it is interpreted for the two classes.
\<close>

section \<open>The reader\<close>

text \<open>Operations keep the buffer, and never make more bits available than there were.\<close>

definition reader_later :: "bit_reader \<Rightarrow> bit_reader \<Rightarrow> bool" where
  "reader_later r r' \<longleftrightarrow> bytes r' = bytes r \<and> remaining_bits r' \<le> remaining_bits r"

interpretation rd: safe_ops reader_inv reader_later
  by unfold_locales (auto simp: reader_later_def)

lemma reader_inv_at [simp]: "p \<le> 8 * length bs \<Longrightarrow> reader_inv (reader_at bs p v)"
  by (auto simp: reader_inv_def)

lemma reader_inv_Invalidate [simp]: "reader_inv (Invalidate r)"
  by (simp add: reader_inv_def Invalidate_def)

lemma reader_invE:
  assumes "reader_inv r"
  obtains (failed) "remaining_bits r = -1"
    | (at) bs p v where "r = reader_at bs p v" "p \<le> 8 * length bs"
  using assms by (auto simp: reader_inv_def)

lemma reader_inv_bits: "reader_inv r \<Longrightarrow> -1 \<le> remaining_bits r"
  by (auto elim!: reader_invE)

lemma Invalidate_later: "reader_inv r \<Longrightarrow> reader_later r (Invalidate (setLastReadIsVerified v r))"
  by (auto simp: reader_later_def Invalidate_def setLastReadIsVerified_def dest: reader_inv_bits)

lemma reader_at_later: "p \<le> q \<Longrightarrow> reader_later (reader_at bs p v) (reader_at bs q w)"
  by (simp add: reader_later_def)

lemma setLastReadIsVerified_inv: "reader_inv r \<Longrightarrow> reader_inv (setLastReadIsVerified v r)"
proof (erule reader_invE)
  assume "remaining_bits r = -1"
  then show ?thesis by (simp add: reader_inv_def setLastReadIsVerified_def)
qed simp

lemma ReadBits_safe: "n \<le> 64 \<Longrightarrow> rd.safe (\<lambda>v. unat v < 2 ^ n) (\<lambda>r. ReadBits r (int n))"
proof (rule rd.safeI)
  fix r assume n: "n \<le> 64" and "reader_inv r"
  show "\<exists>r' v. ReadBits r (int n) = Some (r', v) \<and> reader_inv r' \<and> reader_later r r' \<and> unat v < 2 ^ n"
  proof (cases "remaining_bits r < int n")
    case True
    then show ?thesis using n Invalidate_later [OF \<open>reader_inv r\<close>] by (auto simp: ReadBits_short)
  next
    case False
    with \<open>reader_inv r\<close> obtain bs p v where r: "r = reader_at bs p v" "p + n \<le> 8 * length bs"
      by (auto elim!: reader_invE)
    have "bits_value bs p n < 2 ^ n" by (rule bits_value_less)
    moreover from this have "unat (of_nat (bits_value bs p n) :: u64) = bits_value bs p n"
      using power_increasing [OF n, of "2 :: nat"] by (intro unat_of_nat_eq) simp
    ultimately show ?thesis using r n by (simp add: ReadBits_at reader_at_later)
  qed
qed

lemma ReadBit_safe: "rd.safe (\<lambda>b. b = 0 \<or> b = 1) ReadBit"
proof (rule rd.safeI)
  fix r assume "reader_inv r"
  show "\<exists>r' b. ReadBit r = Some (r', b) \<and> reader_inv r' \<and> reader_later r r' \<and> (b = 0 \<or> b = 1)"
  proof (cases "remaining_bits r \<le> 0")
    case True
    then show ?thesis using Invalidate_later [OF \<open>reader_inv r\<close>] by (auto simp: ReadBit_short)
  next
    case False
    with \<open>reader_inv r\<close> obtain bs p v where "r = reader_at bs p v" "p < 8 * length bs"
      by (auto elim!: reader_invE)
    then show ?thesis by (simp add: ReadBit_at reader_at_later)
  qed
qed

lemma ConsumeBits_safe: "rd.safe (\<lambda>_. True) (\<lambda>r. map_option (\<lambda>r. (r, ())) (ConsumeBits r (int n)))"
proof (rule rd.safeI)
  fix r assume "reader_inv r"
  show "\<exists>r' v. map_option (\<lambda>r. (r, ())) (ConsumeBits r (int n)) = Some (r', v) \<and> reader_inv r' \<and> reader_later r r' \<and> True"
  proof (cases "remaining_bits r < int n")
    case True
    then have "ConsumeBits r (int n) = Some (Invalidate (setLastReadIsVerified False r))"
      by (simp add: ConsumeBits_def Let_def setLastReadIsVerified_def)
    then show ?thesis using Invalidate_later [OF \<open>reader_inv r\<close>] by simp
  next
    case False
    with \<open>reader_inv r\<close> obtain bs p v where "r = reader_at bs p v" "p + n \<le> 8 * length bs"
      by (auto elim!: reader_invE)
    then show ?thesis by (simp add: ConsumeBits_at reader_at_later)
  qed
qed

lemma Ok_safe: "rd.safe (\<lambda>_. True) (\<lambda>r. Some (Ok r))"
  unfolding Ok_def RemainingBitCount_def Let_def prod.case
proof (rule rd.safe_map)
  fix r assume "reader_inv r"
  then show "reader_inv (setLastReadIsVerified True r) \<and> reader_later r (setLastReadIsVerified True r) \<and> True"
    using setLastReadIsVerified_inv [of r True] by (simp add: reader_later_def setLastReadIsVerified_def)
qed

lemma Invalidate_safe: "Q v \<Longrightarrow> rd.safe Q (\<lambda>r. Some (Invalidate r, v))"
  by (rule rd.safe_map) (auto simp: reader_later_def Invalidate_def dest: reader_inv_bits simp del: reader_inv_Invalidate
    intro: reader_inv_Invalidate [unfolded Invalidate_def])

lemma Read_safe: "LENGTH('a) \<le> 64 \<Longrightarrow> rd.safe (\<lambda>_. True) (Read :: bit_reader \<Rightarrow> (bit_reader \<times> 'a::len word) option)"
  unfolding Read_def by (rule rd.safe_bind [OF ReadBits_safe]) (auto intro: rd.safe_return)

lemma Read_u8_safe: "rd.safe (\<lambda>_. True) (Read :: bit_reader \<Rightarrow> (bit_reader \<times> u8) option)"
  by (rule Read_safe) simp

lemma ReadNonSymmetric_safe:
  assumes "0 < N" and "unat N < 2 ^ 31"
  shows "rd.safe (\<lambda>_. True) (\<lambda>r. ReadNonSymmetric r N)"
proof -
  have "0 < bit_width N" "bit_width N \<le> 31"
    using assms bit_width_bounds [of N] by (simp_all add: bit_width_le_iff word_gt_0)
  then have n: "int (bit_width N) - 1 = int (bit_width N - 1)" "bit_width N - 1 \<le> 64" "bit_width N < 32"
    by simp_all
  have "N \<le> push_bit 31 1" using assms(2) by (simp add: word_le_nat_alt)
  moreover obtain m where "num_min_bits N (bit_width N) = Some m" using n(3) by (simp add: num_min_bits_def)
  ultimately have "(\<lambda>r. ReadNonSymmetric r N) = (\<lambda>r. do {
      (r, val) \<leftarrow> ReadBits r (int (bit_width N - 1));
      if val < ucast m then Some (r, ucast val)
      else do { (r, b) \<leftarrow> ReadBit r; Some (r, ucast (push_bit 1 val + of_int b - ucast m)) } })"
    using assms(1) by (simp add: ReadNonSymmetric_def dcheck_def n(1) fun_eq_iff del: push_bit_of_1)
  moreover have "rd.safe (\<lambda>_. True) \<dots>"
    by (intro rd.safe_bind [OF ReadBits_safe [OF n(2)]] rd.safe_bind [OF ReadBit_safe] rd.safe_if rd.safe_return) simp_all
  ultimately show ?thesis by simp
qed

lemma count_zero_bits_safe:
  "0 < left \<Longrightarrow> left \<le> 32 \<Longrightarrow> rd.safe (\<lambda>z. \<forall>k. z = Inr k \<longrightarrow> k < 32) (\<lambda>r. count_zero_bits r left)"
proof (induction left)
  case (Suc left)
  have "rd.safe (\<lambda>z. \<forall>k. z = Inr k \<longrightarrow> k < 32) (\<lambda>r. if left = 0 then Some (Invalidate r, Inl ()) else count_zero_bits r left)"
    using Suc by (intro rd.safe_if Invalidate_safe) simp_all
  then show ?case
    unfolding count_zero_bits.simps
    by (intro rd.safe_bind [OF ReadBit_safe] rd.safe_if rd.safe_return) simp_all
qed simp

lemma ReadExponentialGolomb_safe: "rd.safe (\<lambda>_. True) ReadExponentialGolomb"
  unfolding ReadExponentialGolomb_def
proof (rule rd.safe_bind [OF count_zero_bits_safe])
  fix z :: "unit + nat" assume z: "\<forall>k. z = Inr k \<longrightarrow> k < 32"
  show "rd.safe (\<lambda>_. True) (\<lambda>r. case z of Inl _ \<Rightarrow> Some (r, 0 :: u32) | Inr k \<Rightarrow> do {
      (r, v) \<leftarrow> ReadBits r (int k);
      Some (r, push_bit k 1 + ucast v - 1) })"
  proof (cases z)
    case (Inr k)
    then have "k \<le> 64" using z by simp
    then show ?thesis
      unfolding Inr sum.case by (rule rd.safe_bind [OF ReadBits_safe]) (simp add: rd.safe_return)
  qed (simp add: rd.safe_return)
qed simp_all

lemma ReadSignedExponentialGolomb_safe: "rd.safe (\<lambda>_. True) ReadSignedExponentialGolomb"
  unfolding ReadSignedExponentialGolomb_eq [abs_def]
  by (rule rd.safe_bind [OF ReadExponentialGolomb_safe]) (simp add: rd.safe_return)

lemma ReadLeb128_loop_safe: "rd.safe (\<lambda>_. True) (\<lambda>r. ReadLeb128_loop r decoded i)"
proof (induction "10 - i" arbitrary: decoded i rule: less_induct)
  case less
  have "rd.safe (\<lambda>_. True) (\<lambda>r. if i + 1 < 10 \<and> byte AND 0x80 \<noteq> 0
      then ReadLeb128_loop r (decoded + push_bit (7 * i) (ucast (byte AND 0x7f))) (i + 1)
      else Some (r, decoded + push_bit (7 * i) (ucast (byte AND 0x7f)), i + 1, byte))" for byte :: u8
    by (rule rd.safe_if) (auto intro: less rd.safe_return)
  then show ?case
    by (subst ReadLeb128_loop.simps [abs_def]) (simp only: Let_def rd.safe_bind [OF Read_u8_safe])
qed

lemma Ok_then_safe: "rd.safe (\<lambda>_. True) (\<lambda>r. let (r, ok) = Ok r in Some (r, f ok))"
proof -
  have "rd.safe (\<lambda>_. True) (\<lambda>r. Some (Ok r) \<bind> (\<lambda>(r, ok). Some (r, f ok)))"
    by (rule rd.safe_bind [OF Ok_safe]) (simp add: rd.safe_return)
  then show ?thesis by (simp add: Let_def)
qed

lemma ReadLeb128_safe: "rd.safe (\<lambda>_. True) ReadLeb128"
proof -
  have "rd.safe (\<lambda>_. True) (\<lambda>r. let r = (if i = 10 \<and> 1 < byte then Invalidate r else r);
      (r, ok) = Ok r in Some (r, if ok then decoded else 0))" for decoded :: u64 and i :: nat and byte :: u8
  proof (cases "i = 10 \<and> 1 < byte")
    case True
    have "rd.safe (\<lambda>_. True) (\<lambda>r. Some (Invalidate r, ()) \<bind> (\<lambda>(r, _). let (r, ok) = Ok r in Some (r, if ok then decoded else 0)))"
      by (rule rd.safe_bind [OF Invalidate_safe Ok_then_safe]) simp
    then show ?thesis using True by simp
  next
    case False
    show ?thesis
      unfolding if_not_P [OF False] by (subst Let_def) (rule Ok_then_safe)
  qed
  then have "rd.safe (\<lambda>_. True) (\<lambda>r. do {
      (r, decoded, i, byte) \<leftarrow> ReadLeb128_loop r 0 0;
      let r = (if i = 10 \<and> 1 < byte then Invalidate r else r);
      let (r, ok) = Ok r;
      Some (r, if ok then decoded else 0) })"
    by (intro rd.safe_bind [OF ReadLeb128_loop_safe]) (simp add: split_beta)
  then show ?thesis by (simp add: ReadLeb128_def [abs_def])
qed

lemma ReadString_loop_safe: "rd.safe (\<lambda>_. True) (\<lambda>r. ReadString_loop r n)"
proof (induction n)
  case (Suc n)
  have "rd.safe (\<lambda>_. True) (\<lambda>r. do { (r, cs) \<leftarrow> ReadString_loop r n; Some (r, c # cs) })" for c
    by (rule rd.safe_bind [OF Suc]) (simp add: rd.safe_return)
  then show ?case
    unfolding ReadString_loop.simps by (rule rd.safe_bind [OF Read_u8_safe])
qed (simp add: rd.safe_return)

lemma ReadString_safe: "rd.safe (\<lambda>_. True) (\<lambda>r. ReadString r (int n))"
proof -
  have "rd.safe (\<lambda>_. True) (\<lambda>r. do {
      (r, res) \<leftarrow> ReadString_loop r n;
      let (r, ok) = Ok r;
      Some (r, if ok then res else []) })"
    by (rule rd.safe_bind [OF ReadString_loop_safe Ok_then_safe])
  then show ?thesis by (simp add: ReadString_def)
qed


section \<open>Reader sessions\<close>

datatype reader_op =
    Op_ReadBit | Op_ReadBits nat | Op_ConsumeBits nat | Op_Read_u8 | Op_Read_u16 | Op_Read_u32
  | Op_ReadNonSymmetric u32 | Op_ReadExponentialGolomb | Op_ReadSignedExponentialGolomb
  | Op_ReadLeb128 | Op_ReadString nat | Op_Ok | Op_Invalidate

definition discard :: "('s \<times> 'v) option \<Rightarrow> ('s \<times> unit) option" where
  "discard = map_option (\<lambda>(s, _). (s, ()))"

fun reader_step :: "reader_op \<Rightarrow> bit_reader \<Rightarrow> (bit_reader \<times> unit) option" where
  "reader_step Op_ReadBit = (\<lambda>r. discard (ReadBit r))"
| "reader_step (Op_ReadBits n) = (\<lambda>r. discard (ReadBits r (int n)))"
| "reader_step (Op_ConsumeBits n) = (\<lambda>r. map_option (\<lambda>r. (r, ())) (ConsumeBits r (int n)))"
| "reader_step Op_Read_u8 = (\<lambda>r. discard (Read r :: (bit_reader \<times> u8) option))"
| "reader_step Op_Read_u16 = (\<lambda>r. discard (Read r :: (bit_reader \<times> u16) option))"
| "reader_step Op_Read_u32 = (\<lambda>r. discard (Read r :: (bit_reader \<times> u32) option))"
| "reader_step (Op_ReadNonSymmetric N) = (\<lambda>r. discard (ReadNonSymmetric r N))"
| "reader_step Op_ReadExponentialGolomb = (\<lambda>r. discard (ReadExponentialGolomb r))"
| "reader_step Op_ReadSignedExponentialGolomb = (\<lambda>r. discard (ReadSignedExponentialGolomb r))"
| "reader_step Op_ReadLeb128 = (\<lambda>r. discard (ReadLeb128 r))"
| "reader_step (Op_ReadString n) = (\<lambda>r. discard (ReadString r (int n)))"
| "reader_step Op_Ok = (\<lambda>r. Some (fst (Ok r), ()))"
| "reader_step Op_Invalidate = (\<lambda>r. Some (Invalidate r, ()))"

text \<open>What the declarations ask of the arguments; \<open>num_values = 2 ^ 31\<close> is left out.\<close>

fun reader_op_ok :: "reader_op \<Rightarrow> bool" where
  "reader_op_ok (Op_ReadBits n) = (n \<le> 64)"
| "reader_op_ok (Op_ReadNonSymmetric N) = (0 < N \<and> unat N < 2 ^ 31)"
| "reader_op_ok _ = True"

lemma discard_safe: "rd.safe Q f \<Longrightarrow> rd.safe (\<lambda>_. True) (\<lambda>r. discard (f r))"
  by (fastforce simp: rd.safe_def discard_def)

lemmas reads_safe =
  discard_safe [OF ReadBit_safe] discard_safe [OF ReadBits_safe] discard_safe [OF Read_safe]
  discard_safe [OF ReadNonSymmetric_safe] discard_safe [OF ReadExponentialGolomb_safe]
  discard_safe [OF ReadSignedExponentialGolomb_safe] discard_safe [OF ReadLeb128_safe]
  discard_safe [OF ReadString_safe]

lemma reader_step_safe: "reader_op_ok op \<Longrightarrow> rd.safe (\<lambda>_. True) (reader_step op)"
proof (cases op)
  case Op_Ok
  have "rd.safe (\<lambda>_. True) (\<lambda>r. discard (Some (Ok r)))" by (rule discard_safe [OF Ok_safe])
  moreover have "reader_step Op_Ok = (\<lambda>r. discard (Some (Ok r)))"
    by (simp add: discard_def split_beta)
  ultimately show ?thesis by (simp add: Op_Ok)
qed (simp_all add: reads_safe ConsumeBits_safe Invalidate_safe)

lemma BitBufferReader_at:
  "8 * length bs \<le> 2147483647 \<Longrightarrow> BitBufferReader bs = reader_at bs 0 True"
  by (simp add: BitBufferReader_def reader_at_def in_int32_def int_range_defs mult.commute)

text \<open>
  C1: every session of a \<open>BitBufferReader\<close> on a buffer of fewer than \<open>2 ^ 28\<close> bytes, whose number of bits fits in an
  \<open>int\<close> (the constructor casts it unchecked, and wraps for larger buffers), whatever the bytes are and whatever operations are
  called in whatever order with arguments their declarations allow, runs to its end: no access
  outside the buffer, no failed check, no undefined shift. The buffer is unchanged, the class
  invariant holds at the end, the number of remaining bits never grows, and so a reader that has
  failed stays failed.
\<close>

theorem reader_session_safe:
  assumes "8 * length bs \<le> 2147483647" and "list_all reader_op_ok ops" and "list_all reader_op_ok ops'"
  shows "\<exists>r r'. session reader_step ops (BitBufferReader bs) = Some r \<and>
      session reader_step ops' r = Some r' \<and> reader_inv r \<and> reader_inv r' \<and>
      bytes r' = bs \<and> remaining_bits r' \<le> remaining_bits r \<and>
      (remaining_bits r = -1 \<longrightarrow> remaining_bits r' = -1)"
proof -
  have "reader_inv (reader_at bs 0 True)" by simp
  from rd.session_safe [where step = reader_step, OF assms(2) reader_step_safe this] obtain r
    where r: "session reader_step ops (reader_at bs 0 True) = Some r" "reader_inv r"
      "reader_later (reader_at bs 0 True) r" by auto
  from rd.session_safe [where step = reader_step, OF assms(3) reader_step_safe r(2)] obtain r'
    where r': "session reader_step ops' r = Some r'" "reader_inv r'" "reader_later r r'" by auto
  then show ?thesis
    using r BitBufferReader_at [OF assms(1)] reader_inv_bits [OF r'(2)] by (auto simp: reader_later_def)
qed

theorem reader_session_safe_witness:
  "\<exists>r r'. session reader_step [Op_ReadExponentialGolomb, Op_ReadBits 64] (BitBufferReader [0x12, 0x80]) = Some r \<and>
      session reader_step [Op_ReadLeb128, Op_ReadBit] r = Some r' \<and> reader_inv r \<and> reader_inv r' \<and>
      bytes r' = [0x12, 0x80] \<and> remaining_bits r' \<le> remaining_bits r \<and>
      (remaining_bits r = -1 \<longrightarrow> remaining_bits r' = -1)"
  by (rule reader_session_safe) simp_all


section \<open>The writer\<close>

definition same_size :: "bit_writer \<Rightarrow> bit_writer \<Rightarrow> bool" where
  "same_size w w' \<longleftrightarrow> length (writable_bytes w') = length (writable_bytes w)"

interpretation wr: safe_ops writer_inv same_size
  by unfold_locales (auto simp: same_size_def)

lemma writer_inv_at [simp]: "p \<le> 8 * length bs \<Longrightarrow> length bs < 2 ^ 32 \<Longrightarrow> writer_inv (writer_at bs p)"
  by (simp add: writer_inv_def)

lemma writer_invE:
  assumes "writer_inv w"
  obtains bs p where "w = writer_at bs p" "p \<le> 8 * length bs" "length bs < 2 ^ 32"
proof
  let ?p = "8 * byte_offset w + bit_offset w"
  show "w = writer_at (writable_bytes w) ?p"
    using assms by (simp add: writer_at_def writer_inv_def)
  show "?p \<le> 8 * length (writable_bytes w)" "length (writable_bytes w) < 2 ^ 32"
    using assms by (simp_all add: writer_inv_def)
qed

text \<open>Every encoder of a \<open>bit_codec\<close> is safe on the values it accepts.\<close>

context bit_codec
begin

lemma enc_safe: "ok v \<Longrightarrow> wr.safe (\<lambda>_. True) (\<lambda>w. enc w v)"
proof (rule wr.safeI)
  fix w assume "ok v" "writer_inv w"
  from \<open>writer_inv w\<close> obtain bs p where w: "w = writer_at bs p" "p \<le> 8 * length bs" "length bs < 2 ^ 32"
    by (rule writer_invE)
  from enc_any [OF \<open>ok v\<close> w(2,3)] obtain bs' p' where
    "enc w v = Some (writer_at bs' p', p + sz v \<le> 8 * length bs)" "p' \<le> 8 * length bs"
    "only_changed bs bs' p (8 * length bs - p)" unfolding w(1) by blast
  then show "\<exists>w' r. enc w v = Some (w', r) \<and> writer_inv w' \<and> same_size w w' \<and> True"
    using w by (auto simp: only_changed_def same_size_def)
qed

end

lemma WriterConsumeBits_safe: "wr.safe (\<lambda>_. True) (\<lambda>w. Some (WriterConsumeBits w n))"
proof (rule wr.safeI)
  fix w assume "writer_inv w"
  then obtain bs p where w: "w = writer_at bs p" "p \<le> 8 * length bs" "length bs < 2 ^ 32"
    by (rule writer_invE)
  show "\<exists>w' r. Some (WriterConsumeBits w n) = Some (w', r) \<and> writer_inv w' \<and> same_size w w' \<and> True"
  proof (cases "p + n \<le> 8 * length bs")
    case True
    then show ?thesis using w by (auto simp: WriterConsumeBits_at same_size_def)
  next
    case False
    then have "WriterConsumeBits w n = (w, False)"
      using w by (simp add: WriterConsumeBits_def WriterRemainingBitCount_at)
    then show ?thesis using \<open>writer_inv w\<close> by (auto simp: same_size_def)
  qed
qed

lemma Seek_safe: "wr.safe (\<lambda>_. True) (\<lambda>w. Some (Seek w byte bt))"
  unfolding wr.safe_def
  by (auto simp: Seek_def writer_inv_def same_size_def byte_count_def)

datatype writer_op =
    Op_ConsumeBytes nat | Op_WriterConsumeBits nat | Op_Seek nat nat | Op_WriteUInt8 u8 | Op_WriteUInt16 u16
  | Op_WriteUInt32 u32 | Op_WriteBits u64 nat | Op_WriteNonSymmetric u32 u32
  | Op_WriteExponentialGolomb u32 | Op_WriteSignedExponentialGolomb int | Op_WriteLeb128 u64
  | Op_WriteString "u8 list"

fun writer_step :: "writer_op \<Rightarrow> bit_writer \<Rightarrow> (bit_writer \<times> bool) option" where
  "writer_step (Op_ConsumeBytes n) = (\<lambda>w. Some (ConsumeBytes w n))"
| "writer_step (Op_WriterConsumeBits n) = (\<lambda>w. Some (WriterConsumeBits w n))"
| "writer_step (Op_Seek byte bt) = (\<lambda>w. Some (Seek w byte bt))"
| "writer_step (Op_WriteUInt8 v) = (\<lambda>w. WriteUInt8 w v)"
| "writer_step (Op_WriteUInt16 v) = (\<lambda>w. WriteUInt16 w v)"
| "writer_step (Op_WriteUInt32 v) = (\<lambda>w. WriteUInt32 w v)"
| "writer_step (Op_WriteBits v n) = (\<lambda>w. WriteBits w v n)"
| "writer_step (Op_WriteNonSymmetric v N) = (\<lambda>w. WriteNonSymmetric w v N)"
| "writer_step (Op_WriteExponentialGolomb v) = (\<lambda>w. WriteExponentialGolomb w v)"
| "writer_step (Op_WriteSignedExponentialGolomb v) = (\<lambda>w. WriteSignedExponentialGolomb w v)"
| "writer_step (Op_WriteLeb128 v) = (\<lambda>w. WriteLeb128 w v)"
| "writer_step (Op_WriteString cs) = (\<lambda>w. WriteString w cs)"

fun writer_op_ok :: "writer_op \<Rightarrow> bool" where
  "writer_op_ok (Op_WriteBits v n) = (0 < n \<and> n \<le> 64)"
| "writer_op_ok (Op_WriteNonSymmetric v N) = nonsym_ok N v"
| "writer_op_ok (Op_WriteSignedExponentialGolomb v) = in_int32 v"
| "writer_op_ok _ = True"

lemma WriteBits_safe: "0 < n \<Longrightarrow> n \<le> 64 \<Longrightarrow> wr.safe (\<lambda>_. True) (\<lambda>w. WriteBits w v n)"
proof (rule wr.safeI)
  fix w assume n: "0 < n" "n \<le> 64" and "writer_inv w"
  from \<open>writer_inv w\<close> obtain bs p where w: "w = writer_at bs p" "p \<le> 8 * length bs" "length bs < 2 ^ 32"
    by (rule writer_invE)
  show "\<exists>w' r. WriteBits w v n = Some (w', r) \<and> writer_inv w' \<and> same_size w w' \<and> True"
    using w n by (cases "p + n \<le> 8 * length bs") (auto simp: WriteBits_at WriteBits_short same_size_def)
qed

lemma WriteExponentialGolomb_safe: "wr.safe (\<lambda>_. True) (\<lambda>w. WriteExponentialGolomb w v)"
proof (cases "v = - 1")
  case True
  then show ?thesis by (simp add: WriteExponentialGolomb_def wr.safe_return)
qed (rule golomb.enc_safe)

lemma WriteSignedExponentialGolomb_safe:
  "in_int32 v \<Longrightarrow> wr.safe (\<lambda>_. True) (\<lambda>w. WriteSignedExponentialGolomb w v)"
proof (cases "v = int32_min")
  case True
  then show ?thesis by (simp add: WriteSignedExponentialGolomb_def int_range_defs wr.safe_return)
next
  case False
  assume "in_int32 v"
  with False have "golomb_signed_range v" by (simp add: in_int32_def golomb_signed_range_def)
  then show ?thesis by (rule signed_golomb.enc_safe)
qed

lemma writer_step_safe: "writer_op_ok op \<Longrightarrow> wr.safe (\<lambda>_. True) (writer_step op)"
  by (cases op)
    (simp_all add: ConsumeBytes_def WriterConsumeBits_safe Seek_safe WriteBits_safe byte.enc_safe uint16.enc_safe
      uint32.enc_safe nonsym.enc_safe WriteExponentialGolomb_safe WriteSignedExponentialGolomb_safe
      leb.enc_safe str.enc_safe)

lemma BitBufferWriter_at: "length bs < 2 ^ 32 \<Longrightarrow> BitBufferWriter bs = Some (writer_at bs 0)"
  by (simp add: BitBufferWriter_def writer_at_def dcheck_def)

text \<open>
  C2: every session of a \<open>BitBufferWriter\<close> (any sequence of its operations, successful or not, with
  arguments their declarations allow) runs to its end without an access outside the buffer or a
  failed check; the buffer keeps its size and the write position stays inside it.
\<close>

theorem writer_session_safe:
  assumes "length bs < 2 ^ 32" and "list_all writer_op_ok ops"
  shows "\<exists>w. BitBufferWriter bs \<bind> session writer_step ops = Some w \<and> writer_inv w \<and> byte_count w = length bs"
proof -
  have "writer_inv (writer_at bs 0)" using assms(1) by simp
  from wr.session_safe [where step = writer_step, OF assms(2) writer_step_safe this] show ?thesis
    using BitBufferWriter_at [OF assms(1)] by (auto simp: same_size_def byte_count_def)
qed

theorem writer_session_safe_witness:
  "\<exists>w. BitBufferWriter [0, 0] \<bind> session writer_step [Op_WriteExponentialGolomb 7, Op_Seek 1 9, Op_WriteLeb128 300] = Some w \<and>
     writer_inv w \<and> byte_count w = length [0, 0 :: u8]"
  by (rule writer_session_safe) simp_all


section \<open>What the operations do\<close>

text \<open>
  C3: \<open>ReadBits(n)\<close> on a reader that has consumed \<open>p\<close> bits returns the binary value of the next \<open>n\<close>
  bits and advances by exactly \<open>n\<close>; when fewer than \<open>n\<close> bits are left it returns 0 and the reader
  fails. The optimised byte-wise loop agrees with the bit-by-bit definition.
\<close>

theorem ReadBits_refines:
  assumes "n \<le> 64" and "p \<le> 8 * length bs"
  shows "ReadBits (reader_at bs p v) (int n) =
    (if p + n \<le> 8 * length bs then Some (reader_at bs (p + n) False, of_nat (bits_value bs p n))
     else Some (Invalidate (reader_at bs p False), 0))"
  using assms by (auto simp: ReadBits_at ReadBits_short)

theorem ReadBits_refines_witness:
  "ReadBits (reader_at [0xA5, 0xC3] 3 True) (int 7) =
    (if 3 + 7 \<le> 8 * length [0xA5, 0xC3 :: u8]
     then Some (reader_at [0xA5, 0xC3] (3 + 7) False, of_nat (bits_value [0xA5, 0xC3] 3 7))
     else Some (Invalidate (reader_at [0xA5, 0xC3] 3 False), 0))"
  by (rule ReadBits_refines) simp_all

text \<open>
  C4: \<open>WriteBits(val, n)\<close> at bit position \<open>p\<close> replaces exactly the \<open>n\<close> bits from \<open>p\<close> by the low \<open>n\<close>
  bits of \<open>val\<close>, most significant first, and advances by \<open>n\<close>; every other bit of the buffer keeps
  its value. When the bits do not fit it returns false and changes nothing.
\<close>

theorem WriteBits_refines:
  assumes "0 < n" and "n \<le> 64" and "p \<le> 8 * length bs" and "length bs < 2 ^ 32"
  shows "if p + n \<le> 8 * length bs
    then \<exists>bs'. WriteBits (writer_at bs p) v n = Some (writer_at bs' (p + n), True) \<and> length bs' = length bs \<and>
      (\<forall>k. bbit bs' k = (if p \<le> k \<and> k < p + n then bit v (n - Suc (k - p)) else bbit bs k))
    else WriteBits (writer_at bs p) v n = Some (writer_at bs p, False)"
  using assms by (auto simp: WriteBits_at WriteBits_short bbit_put_bits)

theorem WriteBits_refines_witness:
  "if 3 + 7 \<le> 8 * length [0xA5, 0xC3 :: u8]
    then \<exists>bs'. WriteBits (writer_at [0xA5, 0xC3] 3) 85 7 = Some (writer_at bs' (3 + 7), True) \<and>
      length bs' = length [0xA5, 0xC3 :: u8] \<and>
      (\<forall>k. bbit bs' k = (if 3 \<le> k \<and> k < 3 + 7 then bit (85 :: u64) (7 - Suc (k - 3)) else bbit [0xA5, 0xC3] k))
    else WriteBits (writer_at [0xA5, 0xC3] 3) 85 7 = Some (writer_at [0xA5, 0xC3] 3, False)"
  by (rule WriteBits_refines) simp_all

text \<open>
  \<open>ConsumeBytes(byte_count)\<close> computes \<open>byte_count * 8\<close> in \<open>size_t\<close>, which wraps: on any writer,
  consuming \<open>2 ^ 61\<close> bytes is reported as a success and does not move. Below \<open>2 ^ 61\<close> it does
  what the declaration says: it moves on by whole bytes when they are there, and returns false
  otherwise.
\<close>

theorem ConsumeBytes_spec:
  "ConsumeBytes (writer_at bs 0) (2 ^ 61) = (writer_at bs 0, True) \<and>
   (\<forall>n p. n < 2 ^ 61 \<and> p \<le> 8 * length bs \<and> length bs < 2 ^ 32 \<longrightarrow>
     ConsumeBytes (writer_at bs p) n =
       (if p + 8 * n \<le> 8 * length bs then (writer_at bs (p + 8 * n), True) else (writer_at bs p, False)))"
proof (intro conjI allI impI)
  have "mul64 (2 ^ 61) 8 = 0" by (simp add: mul64_def)
  then show "ConsumeBytes (writer_at bs 0) (2 ^ 61) = (writer_at bs 0, True)"
    by (simp add: ConsumeBytes_def WriterConsumeBits_def writer_at_def add64_def)
next
  fix n p :: nat assume a: "n < 2 ^ 61 \<and> p \<le> 8 * length bs \<and> length bs < 2 ^ 32"
  then have "mul64 n 8 = 8 * n" by (subst mul64_small) simp_all
  then show "ConsumeBytes (writer_at bs p) n =
      (if p + 8 * n \<le> 8 * length bs then (writer_at bs (p + 8 * n), True) else (writer_at bs p, False))"
    using a WriterConsumeBits_at [of p "8 * n" bs]
    by (auto simp: ConsumeBytes_def WriterConsumeBits_def WriterRemainingBitCount_at)
qed

theorem ConsumeBytes_spec_witness:
  "ConsumeBytes (writer_at [1, 2, 3] 4) 2 = (writer_at [1, 2, 3] 20, True)"
  using ConsumeBytes_spec [of "[1, 2, 3]"] by simp

text \<open>
  The size of the buffer is converted to \<open>int\<close> by \<open>checked_cast\<close>, which does not check. A
  reader on a buffer of up to \<open>2 ^ 31 - 1\<close> bits starts at its first bit; a reader on a buffer of
  \<open>2 ^ 29\<close> bytes (\<open>2 ^ 32\<close> bits) starts with no bits left, so that its first read fails.
\<close>

theorem BitBufferReader_size:
  "(8 * length bs \<le> 2147483647 \<longrightarrow> BitBufferReader bs = reader_at bs 0 True) \<and>
   (length bs = 2 ^ 29 \<longrightarrow> remaining_bits (BitBufferReader bs) = 0 \<and>
      ReadBit (BitBufferReader bs) = Some (Invalidate (setLastReadIsVerified False (BitBufferReader bs)), 0))"
proof (intro conjI impI)
  assume len: "length bs = 2 ^ 29"
  then show zero: "remaining_bits (BitBufferReader bs) = 0"
    by (simp add: BitBufferReader_def cast_int32_def)
  then show "ReadBit (BitBufferReader bs) = Some (Invalidate (setLastReadIsVerified False (BitBufferReader bs)), 0)"
    by (intro ReadBit_short) simp
qed (simp add: BitBufferReader_at)

theorem BitBufferReader_size_witness: "BitBufferReader [1, 2] = reader_at [1, 2] 0 True"
  using BitBufferReader_size [of "[1, 2]"] by simp

end
