(* ===== verification/Base64.thy ===== *)
theory Base64
  imports Octk_Prelude
begin

text \<open>
  \<open>Base64\<close> of \<open>src/libs/core/source/text/octk_base64.hpp/.cpp\<close>: the tables, the encoder, the
  tolerant decoder with its flags, and the character tests. Characters are bytes; the buffers are
  indexed as in the code, with guarded accesses. The reference encoding \<open>base64\<close> is by recursion
  on three bytes at a time.
\<close>

section \<open>Tables\<close>

definition kPad :: u8 where "kPad = 61"

definition pd :: u8 where "pd = 0xFD"
definition sp :: u8 where "sp = 0xFE"
definition il :: u8 where "il = 0xFF"

text \<open>The string literal, with the terminating NUL.\<close>

definition Base64Table :: "u8 list" where
  "Base64Table =
     map of_char ''ABCDEFGHIJKLMNOPQRSTUVWXYZabcdefghijklmnopqrstuvwxyz0123456789+/'' @ [0]"

definition DecodeTable :: "u8 list" where
  "DecodeTable =
    [il, il, il, il, il, il, il, il, il, sp,
     sp, sp, sp, sp, il, il, il, il, il, il,
     il, il, il, il, il, il, il, il, il, il,
     il, il, sp, il, il, il, il, il, il, il,
     il, il, il, 62, il, il, il, 63, 52, 53,
     54, 55, 56, 57, 58, 59, 60, 61, il, il,
     il, pd, il, il, il, 0, 1, 2, 3, 4,
     5, 6, 7, 8, 9, 10, 11, 12, 13, 14,
     15, 16, 17, 18, 19, 20, 21, 22, 23, 24,
     25, il, il, il, il, il, il, 26, 27, 28,
     29, 30, 31, 32, 33, 34, 35, 36, 37, 38,
     39, 40, 41, 42, 43, 44, 45, 46, 47, 48,
     49, 50, 51, il, il, il, il, il, il, il,
     il, il, il, il, il, il, il, il, il, il,
     il, il, il, il, il, il, il, il, il, il,
     il, il, il, il, il, il, il, il, il, il,
     il, il, il, il, il, il, il, il, il, il,
     il, il, il, il, il, il, il, il, il, il,
     il, il, il, il, il, il, il, il, il, il,
     il, il, il, il, il, il, il, il, il, il,
     il, il, il, il, il, il, il, il, il, il,
     il, il, il, il, il, il, il, il, il, il,
     il, il, il, il, il, il, il, il, il, il,
     il, il, il, il, il, il, il, il, il, il,
     il, il, il, il, il, il, il, il, il, il,
     il, il, il, il, il, il]"


section \<open>Character tests\<close>

definition IsBase64Char :: "u8 \<Rightarrow> bool" where
  "IsBase64Char ch \<longleftrightarrow> (65 \<le> ch \<and> ch \<le> 90) \<or> (97 \<le> ch \<and> ch \<le> 122) \<or> (48 \<le> ch \<and> ch \<le> 57) \<or> ch = 43 \<or> ch = 47"

primrec strchr_from :: "u8 list \<Rightarrow> u8 \<Rightarrow> nat \<Rightarrow> nat option" where
  "strchr_from [] ch i = None"
| "strchr_from (c # cs) ch i = (if c = ch then Some i else strchr_from cs ch (i + 1))"

text \<open>
  \<open>GetNextBase64Char\<close>: the outer option is an access past the table, the inner one the returned
  false. \<open>strchr\<close> also finds the terminating NUL.
\<close>

definition GetNextBase64Char :: "u8 \<Rightarrow> u8 option option" where
  "GetNextBase64Char ch =
     (case strchr_from Base64Table ch 0 of
        None \<Rightarrow> Some None
      | Some p \<Rightarrow> do { nxt \<leftarrow> deref Base64Table (p + 1); Some (Some (if nxt \<noteq> 0 then nxt else Base64Table ! 0)) })"

definition IsBase64Encoded :: "u8 list \<Rightarrow> bool" where
  "IsBase64Encoded str = list_all IsBase64Char str"


section \<open>Encoder\<close>

definition put_code :: "u8 list \<Rightarrow> nat \<Rightarrow> u8 \<Rightarrow> u8 list option" where
  "put_code result ix c = do { ch \<leftarrow> deref Base64Table (unat c); store result ix ch }"

text \<open>One round of the loop: up to three bytes from \<open>i\<close>, four characters from \<open>dest_ix\<close>.\<close>

definition encode_quantum :: "u8 list \<Rightarrow> nat \<Rightarrow> u8 list \<Rightarrow> nat \<Rightarrow> (nat \<times> u8 list) option" where
  "encode_quantum data i result dest_ix = do {
     b \<leftarrow> deref data i;
     result \<leftarrow> put_code result dest_ix (drop_bit 2 b AND 0x3f);
     let c = push_bit 4 b AND 0x3f;
     let i = i + 1;
     c \<leftarrow> (if i < length data then do { b \<leftarrow> deref data i; Some (c OR (drop_bit 4 b AND 0x0f)) } else Some c);
     result \<leftarrow> put_code result (dest_ix + 1) c;
     (i, result) \<leftarrow>
       (if i < length data then do {
          b \<leftarrow> deref data i;
          let c = push_bit 2 b AND 0x3f;
          let i = i + 1;
          c \<leftarrow> (if i < length data then do { b \<leftarrow> deref data i; Some (c OR (drop_bit 6 b AND 0x03)) } else Some c);
          result \<leftarrow> put_code result (dest_ix + 2) c;
          Some (i, result)
        }
        else do { result \<leftarrow> store result (dest_ix + 2) kPad; Some (i, result) });
     if i < length data then do {
       b \<leftarrow> deref data i;
       result \<leftarrow> put_code result (dest_ix + 3) (b AND 0x3f);
       Some (i + 1, result)
     }
     else do { result \<leftarrow> store result (dest_ix + 3) kPad; Some (i, result) }
   }"

lemma encode_quantum_advances: "encode_quantum data i result dest_ix = Some (j, result') \<Longrightarrow> i < j"
  by (auto simp: encode_quantum_def Let_def Option.bind_eq_Some_conv split: if_splits)

function EncodeFromArray_loop :: "u8 list \<Rightarrow> nat \<Rightarrow> u8 list \<Rightarrow> nat \<Rightarrow> u8 list option" where
  "EncodeFromArray_loop data i result dest_ix =
     (if i < length data
      then do { (i, result) \<leftarrow> encode_quantum data i result dest_ix;
                EncodeFromArray_loop data i result (dest_ix + 4) }
      else Some result)"
  by pat_completeness auto
termination
  by (relation "measure (\<lambda>(data, i, result, dest_ix). length data - i)")
    (auto dest: encode_quantum_advances)

definition EncodeFromArray :: "u8 list \<Rightarrow> u8 list option" where
  "EncodeFromArray data = EncodeFromArray_loop data 0 (replicate ((length data + 2) div 3 * 4) 0) 0"

definition Encode :: "u8 list \<Rightarrow> u8 list option" where
  "Encode data = EncodeFromArray data"

declare EncodeFromArray_loop.simps [simp del]


section \<open>Decoder\<close>

definition DO_PARSE_STRICT :: nat where "DO_PARSE_STRICT = 1"
definition DO_PARSE_WHITE :: nat where "DO_PARSE_WHITE = 2"
definition DO_PARSE_ANY :: nat where "DO_PARSE_ANY = 3"
definition DO_PARSE_MASK :: nat where "DO_PARSE_MASK = 3"
definition DO_PAD_YES :: nat where "DO_PAD_YES = 4"
definition DO_PAD_ANY :: nat where "DO_PAD_ANY = 8"
definition DO_PAD_NO :: nat where "DO_PAD_NO = 12"
definition DO_PAD_MASK :: nat where "DO_PAD_MASK = 12"
definition DO_TERM_BUFFER :: nat where "DO_TERM_BUFFER = 16"
definition DO_TERM_CHAR :: nat where "DO_TERM_CHAR = 32"
definition DO_TERM_ANY :: nat where "DO_TERM_ANY = 48"
definition DO_TERM_MASK :: nat where "DO_TERM_MASK = 48"
definition DO_STRICT :: nat where "DO_STRICT = DO_PARSE_STRICT OR DO_PAD_YES OR DO_TERM_BUFFER"
definition DO_LAX :: nat where "DO_LAX = DO_PARSE_ANY OR DO_PAD_ANY OR DO_TERM_CHAR"

lemmas decode_flag_defs = DO_PARSE_STRICT_def DO_PARSE_WHITE_def DO_PARSE_ANY_def DO_PARSE_MASK_def
  DO_PAD_YES_def DO_PAD_ANY_def DO_PAD_NO_def DO_PAD_MASK_def
  DO_TERM_BUFFER_def DO_TERM_CHAR_def DO_TERM_ANY_def DO_TERM_MASK_def

record quantum =
  qbuf :: "u8 list"
  byte_len :: nat
  pad_len :: nat
  pad_start :: nat

text \<open>
  The body of the \<open>for\<close> loop of \<open>GetNextQuantum\<close> for one table entry \<open>v\<close>: whether the loop goes on
  (\<open>break\<close> is \<^term>\<open>False\<close>), and the new state.
\<close>

definition quantum_char :: "nat \<Rightarrow> bool \<Rightarrow> u8 \<Rightarrow> nat \<Rightarrow> quantum \<Rightarrow> bool \<times> quantum" where
  "quantum_char parse_flags illegal_pads v dpos q =
     (if v = il \<or> illegal_pads \<and> v = pd then (parse_flags = DO_PARSE_ANY, q)
      else if v = sp then (parse_flags \<noteq> DO_PARSE_STRICT, q)
      else if v = pd then
        (if byte_len q < 2 then (parse_flags = DO_PARSE_ANY, q)
         else if 4 \<le> byte_len q + pad_len q then (parse_flags = DO_PARSE_ANY, q)
         else (True, q\<lparr>pad_len := pad_len q + 1,
                        pad_start := (if pad_len q + 1 = 1 then dpos else pad_start q)\<rparr>))
      else if 0 < pad_len q \<and> parse_flags \<noteq> DO_PARSE_ANY then (False, q)
      else (True, q\<lparr>pad_len := 0, byte_len := byte_len q + 1\<rparr>))"

function GetNextQuantum_loop :: "nat \<Rightarrow> bool \<Rightarrow> u8 list \<Rightarrow> nat \<Rightarrow> quantum \<Rightarrow> (nat \<times> quantum) option" where
  "GetNextQuantum_loop parse_flags illegal_pads data dpos q =
     (if byte_len q < 4 \<and> dpos < length data then do {
        ch \<leftarrow> deref data dpos;
        v \<leftarrow> deref DecodeTable (unat ch);
        qb \<leftarrow> store (qbuf q) (byte_len q) v;
        let (go_on, q) = quantum_char parse_flags illegal_pads v dpos (q\<lparr>qbuf := qb\<rparr>);
        if go_on then GetNextQuantum_loop parse_flags illegal_pads data (dpos + 1) q
        else Some (dpos, q)
      }
      else Some (dpos, q))"
  by pat_completeness auto
termination
  by (relation "measure (\<lambda>(parse_flags, illegal_pads, data, dpos, q). length data - dpos)") auto

declare GetNextQuantum_loop.simps [simp del]

text \<open>Result: the quantum length, the new position, the quantum, and whether it is padded.\<close>

definition GetNextQuantum ::
    "nat \<Rightarrow> bool \<Rightarrow> u8 list \<Rightarrow> nat \<Rightarrow> u8 list \<Rightarrow> (nat \<times> nat \<times> u8 list \<times> bool) option" where
  "GetNextQuantum parse_flags illegal_pads data dpos qb = do {
     (dpos, q) \<leftarrow> GetNextQuantum_loop parse_flags illegal_pads data dpos
        \<lparr>qbuf = qb, byte_len = 0, pad_len = 0, pad_start = 0\<rparr>;
     let qb = foldl (\<lambda>qb i. qb[i := 0]) (qbuf q) [byte_len q..<4];
     if 4 = byte_len q + pad_len q then Some (byte_len q, dpos, qb, True)
     else Some (byte_len q, (if pad_len q \<noteq> 0 then pad_start q else dpos), qb, False)
   }"

text \<open>The bytes that a quantum of length \<open>qlen\<close> gives, and the unused bits \<open>c\<close>.\<close>

definition quantum_bytes :: "nat \<Rightarrow> u8 list \<Rightarrow> u8 list \<times> u8" where
  "quantum_bytes qlen q =
     (let c0 = push_bit 2 (q ! 0) OR (drop_bit 4 (q ! 1) AND 0x3);
          c1 = (push_bit 4 (q ! 1) AND 0xf0) OR (drop_bit 2 (q ! 2) AND 0xf);
          c2 = (push_bit 6 (q ! 2) AND 0xc0) OR (q ! 3)
      in if 2 \<le> qlen
         then if 3 \<le> qlen
              then if 4 \<le> qlen then ([c0, c1, c2], 0) else ([c0, c1], c2)
              else ([c0], c1)
         else ([], c0))"

text \<open>
  The invariant of the quantum loop: the position moves at least as far as the data read, and the
  remembered pad lies behind the data.
\<close>

definition quantum_inv :: "nat \<Rightarrow> nat \<Rightarrow> quantum \<Rightarrow> bool" where
  "quantum_inv start dpos q \<longleftrightarrow> byte_len q \<le> 4 \<and> start + byte_len q \<le> dpos \<and>
     (0 < pad_len q \<longrightarrow> byte_len q < 4 \<and> start + byte_len q \<le> pad_start q \<and> pad_start q < dpos)"

lemma DecodeTable_length [simp]: "length DecodeTable = 256"
  by (simp add: DecodeTable_def)

lemma DecodeTable_deref [simp]: "deref DecodeTable (unat (ch :: u8)) = Some (DecodeTable ! unat ch)"
  using unat_lt2p [of ch] by simp

lemma quantum_char_inv:
  assumes "quantum_inv start dpos q" and "byte_len q < 4"
  shows "quantum_inv start (dpos + 1) (snd (quantum_char p b v dpos q))"
    and "\<not> fst (quantum_char p b v dpos q) \<Longrightarrow> snd (quantum_char p b v dpos q) = q"
  using assms by (auto simp: quantum_char_def quantum_inv_def)

lemma GetNextQuantum_loop_step:
  assumes "byte_len q < 4" "dpos < length data" "length (qbuf q) = 4"
  shows "GetNextQuantum_loop p b data dpos q =
    (let (go_on, q') = quantum_char p b (DecodeTable ! unat (data ! dpos)) dpos
        (q\<lparr>qbuf := (qbuf q)[byte_len q := DecodeTable ! unat (data ! dpos)]\<rparr>)
     in if go_on then GetNextQuantum_loop p b data (dpos + 1) q' else Some (dpos, q'))"
  using assms by (subst GetNextQuantum_loop.simps) simp

lemma quantum_char_qbuf [simp]: "qbuf (snd (quantum_char p b v dpos q)) = qbuf q"
  by (simp add: quantum_char_def)

lemma GetNextQuantum_loop_inv:
  assumes "GetNextQuantum_loop p b data dpos q = Some (dpos', q')"
    and "quantum_inv start dpos q" and "dpos \<le> length data"
  shows "quantum_inv start dpos' q' \<and> dpos \<le> dpos' \<and> dpos' \<le> length data"
  using assms
proof (induction "length data - dpos" arbitrary: dpos q rule: less_induct)
  case (less dpos q)
  show ?case
  proof (cases "byte_len q < 4 \<and> dpos < length data")
    case False
    then show ?thesis using less(2-) by (subst (asm) GetNextQuantum_loop.simps) auto
  next
    case True
    let ?v = "DecodeTable ! unat (data ! dpos)"
    let ?q = "q\<lparr>qbuf := (qbuf q)[byte_len q := ?v]\<rparr>"
    have later: "length data - (dpos + 1) < length data - dpos" using True by linarith
    obtain go q1 where g: "quantum_char p b ?v dpos ?q = (go, q1)" by (cases "quantum_char p b ?v dpos ?q")
    from less(2) have st: "byte_len q < length (qbuf q)"
      by (subst (asm) GetNextQuantum_loop.simps) (use True in \<open>auto simp: store_def split: if_splits\<close>)
    have res: "(if go then GetNextQuantum_loop p b data (dpos + 1) q1 else Some (dpos, q1)) = Some (dpos', q')"
      using less(2) True st g by (subst (asm) GetNextQuantum_loop.simps) simp
    have inv: "quantum_inv start dpos ?q" "byte_len ?q < 4" using less(3) True by (simp_all add: quantum_inv_def)
    have "quantum_inv start (dpos + 1) q1" "\<not> go \<Longrightarrow> q1 = ?q"
      using quantum_char_inv [OF inv, of p b ?v] g by simp_all
    then show ?thesis
      using res True less(1) [OF later, of q1] inv(1) by (cases go) auto
  qed
qed

lemma GetNextQuantum_loop_total:
  assumes "length (qbuf q) = 4"
  shows "\<exists>dpos' q'. GetNextQuantum_loop p b data dpos q = Some (dpos', q') \<and> length (qbuf q') = 4"
  using assms
proof (induction "length data - dpos" arbitrary: dpos q)
  case 0
  then show ?case by (subst GetNextQuantum_loop.simps) auto
next
  case (Suc n)
  show ?case
  proof (cases "byte_len q < 4")
    case False
    then show ?thesis using Suc by (subst GetNextQuantum_loop.simps) auto
  next
    case True
    let ?v = "DecodeTable ! unat (data ! dpos)"
    let ?q = "q\<lparr>qbuf := (qbuf q)[byte_len q := ?v]\<rparr>"
    obtain go q' where g: "quantum_char p b ?v dpos ?q = (go, q')" by (cases "quantum_char p b ?v dpos ?q")
    then have "length (qbuf q') = 4" using quantum_char_qbuf [of p b ?v dpos ?q] Suc(3) by simp
    then show ?thesis
      using Suc GetNextQuantum_loop_step [OF True _ Suc(3), of dpos data p b] g
      by (cases go) simp_all
  qed
qed

lemma length_zero_fill [simp]: "length (foldl (\<lambda>qb i. qb[i := 0]) qs is) = length qs"
  by (induction "is" arbitrary: qs) simp_all

lemma GetNextQuantum_bounds:
  assumes "GetNextQuantum p b data dpos qb = Some (qlen, dpos', qb', padded)" and "dpos \<le> length data"
  shows "qlen \<le> 4 \<and> dpos + qlen \<le> dpos' \<and> dpos' \<le> length data"
proof -
  let ?q = "\<lparr>qbuf = qb, byte_len = 0, pad_len = 0, pad_start = 0\<rparr>"
  from assms(1) obtain d q where l: "GetNextQuantum_loop p b data dpos ?q = Some (d, q)"
    and r: "qlen = byte_len q" "dpos' = (if byte_len q + pad_len q \<noteq> 4 \<and> pad_len q \<noteq> 0 then pad_start q else d)"
    by (auto simp: GetNextQuantum_def Let_def Option.bind_eq_Some_conv split: if_splits)
  have "quantum_inv dpos dpos ?q" by (simp add: quantum_inv_def)
  from GetNextQuantum_loop_inv [OF l this assms(2)] r show ?thesis
    by (auto simp: quantum_inv_def)
qed

lemma GetNextQuantum_total:
  assumes "length qb = 4"
  shows "\<exists>qlen dpos' qb' padded. GetNextQuantum p b data dpos qb = Some (qlen, dpos', qb', padded) \<and> length qb' = 4"
proof -
  obtain d q where "GetNextQuantum_loop p b data dpos \<lparr>qbuf = qb, byte_len = 0, pad_len = 0, pad_start = 0\<rparr> = Some (d, q)"
    "length (qbuf q) = 4"
    using GetNextQuantum_loop_total [of "\<lparr>qbuf = qb, byte_len = 0, pad_len = 0, pad_start = 0\<rparr>" p b data dpos] assms by auto
  then show ?thesis by (auto simp: GetNextQuantum_def Let_def)
qed


text \<open>The \<open>while\<close> loop of \<open>DecodeFromArrayTemplate\<close>: success, result, position.\<close>

function Decode_loop :: "nat \<Rightarrow> nat \<Rightarrow> nat \<Rightarrow> u8 list \<Rightarrow> nat \<Rightarrow> u8 list \<Rightarrow> u8 list \<Rightarrow> (bool \<times> u8 list \<times> nat) option" where
  "Decode_loop parse_flags pad_flags term_flags data dpos qb result =
     (if dpos < length data then do {
        (qlen, dpos', qb, padded) \<leftarrow> GetNextQuantum parse_flags (DO_PAD_NO = pad_flags) data dpos qb;
        let (bs, c) = quantum_bytes qlen qb;
        let result = result @ bs;
        if qlen < 4 then
          Some (\<not> (DO_TERM_ANY \<noteq> term_flags \<and> c \<noteq> 0) \<and> \<not> (DO_PAD_YES = pad_flags \<and> \<not> padded), result, dpos')
        else Decode_loop parse_flags pad_flags term_flags data dpos' qb result
      }
      else Some (True, result, dpos))"
  by pat_completeness auto
termination
  by (relation "measure (\<lambda>(parse_flags, pad_flags, term_flags, data, dpos, qb, result). length data - dpos)")
    (auto dest: GetNextQuantum_bounds)

declare Decode_loop.simps [simp del]

text \<open>\<open>DecodeFromArrayTemplate\<close>: success, the decoded bytes, \<open>*data_used\<close>; \<open>qb\<close> is the uninitialised buffer.\<close>

definition DecodeFromArrayTemplate :: "u8 list \<Rightarrow> nat \<Rightarrow> u8 list \<Rightarrow> (bool \<times> u8 list \<times> nat) option" where
  "DecodeFromArrayTemplate data flags qb = do {
     dcheck (flags \<le> (DO_PARSE_MASK OR DO_PAD_MASK OR DO_TERM_MASK));
     let parse_flags = flags AND DO_PARSE_MASK;
     let pad_flags = flags AND DO_PAD_MASK;
     let term_flags = flags AND DO_TERM_MASK;
     dcheck (0 \<noteq> parse_flags);
     dcheck (0 \<noteq> pad_flags);
     dcheck (0 \<noteq> term_flags);
     (success, result, dpos) \<leftarrow> Decode_loop parse_flags pad_flags term_flags data 0 qb [];
     Some (success \<and> \<not> (DO_TERM_BUFFER = term_flags \<and> dpos \<noteq> length data), result, dpos)
   }"

definition Decode :: "u8 list \<Rightarrow> nat \<Rightarrow> u8 list \<Rightarrow> u8 list option" where
  "Decode data flags qb = map_option (fst \<circ> snd) (DecodeFromArrayTemplate data flags qb)"


section \<open>The reference encoding\<close>

definition code64 :: "u8 \<Rightarrow> u8" where
  "code64 c = Base64Table ! unat c"

fun base64 :: "u8 list \<Rightarrow> u8 list" where
  "base64 [] = []"
| "base64 [a] = [code64 (drop_bit 2 a AND 0x3f), code64 (push_bit 4 a AND 0x3f), kPad, kPad]"
| "base64 [a, b] = [code64 (drop_bit 2 a AND 0x3f), code64 ((push_bit 4 a AND 0x3f) OR (drop_bit 4 b AND 0x0f)),
     code64 (push_bit 2 b AND 0x3f), kPad]"
| "base64 (a # b # c # rest) =
     [code64 (drop_bit 2 a AND 0x3f), code64 ((push_bit 4 a AND 0x3f) OR (drop_bit 4 b AND 0x0f)),
      code64 ((push_bit 2 b AND 0x3f) OR (drop_bit 6 c AND 0x03)), code64 (c AND 0x3f)] @ base64 rest"

lemma length_base64: "length (base64 data) = (length data + 2) div 3 * 4"
proof -
  have "(5 + n) div 3 = Suc (Suc (Suc n) div 3)" for n :: nat by linarith
  then show ?thesis by (induction data rule: base64.induct) simp_all
qed

lemma Base64Table_length [simp]: "length Base64Table = 65"
  by (simp add: Base64Table_def)

text \<open>The two tables are inverse to each other.\<close>

lemma tables_inverse_list: "list_all (\<lambda>c. DecodeTable ! unat (Base64Table ! c) = of_nat c) [0..<64]"
  by code_simp

lemma decode_code64: "unat c < 64 \<Longrightarrow> DecodeTable ! unat (code64 c) = c"
  using tables_inverse_list by (simp add: list_all_iff code64_def)

lemma decode_kPad: "DecodeTable ! unat kPad = pd"
  by (simp add: DecodeTable_def kPad_def)

lemma six_bits: "unat (w AND 0x3f :: u8) < 64" "unat ((w AND 0x3f) OR (v AND 0x0f) :: u8) < 64"
    "unat ((w AND 0x3f) OR (v AND 0x03) :: u8) < 64"
proof -
  have m: "(0x3f :: u8) = mask 6" "(0x0f :: u8) = mask 4" "(0x03 :: u8) = mask 2"
    by (simp_all add: mask_eq_exp_minus_1)
  have lt: "take_bit 6 x = x \<Longrightarrow> unat x < 64" for x :: u8
    using take_bit_nat_less_exp [of 6 "unat x"] by (simp flip: unsigned_take_bit_eq)
  show "unat (w AND 0x3f :: u8) < 64" "unat ((w AND 0x3f) OR (v AND 0x0f) :: u8) < 64"
    "unat ((w AND 0x3f) OR (v AND 0x03) :: u8) < 64"
    unfolding m by (rule lt, rule bit_word_eqI, auto simp: word_bit_simps)+
qed


section \<open>The encoder computes the reference encoding\<close>

lemma put_code_at: "unat c < 64 \<Longrightarrow> put_code (xs @ x # ys) (length xs) c = Some (xs @ code64 c # ys)"
  by (simp add: put_code_def code64_def)

lemma put_code_ge: "length xs \<le> k \<Longrightarrow> k < length xs + length ys \<Longrightarrow> unat c < 64 \<Longrightarrow>
    put_code (xs @ ys) k c = Some (xs @ ys[k - length xs := code64 c])"
  by (simp add: put_code_def code64_def list_update_append)

lemma encode_quantum_one:
  "encode_quantum (pre @ [a]) (length pre) (out @ [u, v, w, x]) (length out) =
     Some (length pre + 1, out @ base64 [a])"
  by (simp add: encode_quantum_def put_code_ge six_bits nth_append list_update_append)

lemma encode_quantum_two:
  "encode_quantum (pre @ [a, b]) (length pre) (out @ [u, v, w, x]) (length out) =
     Some (length pre + 2, out @ base64 [a, b])"
  by (simp add: encode_quantum_def put_code_ge six_bits nth_append list_update_append)

lemma encode_quantum_three:
  "encode_quantum (pre @ a # b # c # rest) (length pre) (out @ u # v # w # x # ys) (length out) =
     Some (length pre + 3, out @ base64 [a, b, c] @ ys)"
  by (simp add: encode_quantum_def put_code_ge six_bits nth_append list_update_append)

lemma length_four:
  assumes "length ys = 4 + n"
  obtains u v w x zs where "ys = u # v # w # x # zs" "length zs = n"
proof -
  have "length ys = Suc (Suc (Suc (Suc n)))" using assms by simp
  then show thesis using that by (auto simp: length_Suc_conv)
qed

lemma length_four_exact:
  assumes "length ys = 4"
  obtains u v w x where "ys = [u, v, w, x]"
  using length_four [of ys 0] assms by (metis add_0_right length_0_conv)

lemma EncodeFromArray_loop_correct:
  assumes "length ys = (length rest + 2) div 3 * 4"
  shows "EncodeFromArray_loop (pre @ rest) (length pre) (out @ ys) (length out) = Some (out @ base64 rest)"
  using assms
proof (induction rest arbitrary: pre out ys rule: base64.induct)
  case 1
  then show ?case by (subst EncodeFromArray_loop.simps) simp
next
  case (2 a)
  then have "length ys = 4" by simp
  then obtain u v w x where ys: "ys = [u, v, w, x]" by (rule length_four_exact)
  have "EncodeFromArray_loop (pre @ [a]) (length pre + 1) (out @ base64 [a]) (length out + 4) = Some (out @ base64 [a])"
    by (subst EncodeFromArray_loop.simps) simp
  with encode_quantum_one [of pre a out u v w x] show ?case
    unfolding ys by (subst EncodeFromArray_loop.simps) (simp del: base64.simps)
next
  case (3 a b)
  then have "length ys = 4" by simp
  then obtain u v w x where ys: "ys = [u, v, w, x]" by (rule length_four_exact)
  have "EncodeFromArray_loop (pre @ [a, b]) (length pre + 2) (out @ base64 [a, b]) (length out + 4) = Some (out @ base64 [a, b])"
    by (subst EncodeFromArray_loop.simps) simp
  with encode_quantum_two [of pre a b out u v w x] show ?case
    unfolding ys by (subst EncodeFromArray_loop.simps) (simp del: base64.simps)
next
  case (4 a b c rest)
  have "(length (a # b # c # rest) + 2) div 3 * 4 = 4 + (length rest + 2) div 3 * 4"
    using length_base64 [of "a # b # c # rest"] length_base64 [of rest] by simp
  with 4(2) obtain u v w x zs where ys: "ys = u # v # w # x # zs" and zs: "length zs = (length rest + 2) div 3 * 4"
    by (metis length_four)
  have "EncodeFromArray_loop (pre @ a # b # c # rest) (length pre + 3) (out @ base64 [a, b, c] @ zs) (length out + 4) =
      Some (out @ base64 (a # b # c # rest))"
    using 4(1) [OF zs, of "pre @ [a, b, c]" "out @ base64 [a, b, c]"] by (simp add: numeral_eq_Suc)
  with encode_quantum_three [of pre a b c rest out u v w x zs] show ?case
    unfolding ys by (subst EncodeFromArray_loop.simps) (simp del: base64.simps)
qed

lemma Encode_correct: "Encode data = Some (base64 data)"
  using EncodeFromArray_loop_correct [of "replicate ((length data + 2) div 3 * 4) 0" data "[]" "[]"]
  by (simp add: Encode_def EncodeFromArray_def)


section \<open>Decoding a quantum\<close>

lemma small_not_special: "unat v < 64 \<Longrightarrow> v \<noteq> il \<and> v \<noteq> sp \<and> v \<noteq> pd"
  by (auto simp: il_def sp_def pd_def)

lemma quantum_char_data: "unat v < 64 \<Longrightarrow>
    quantum_char p b v d \<lparr>qbuf = qb, byte_len = n, pad_len = 0, pad_start = ps\<rparr> =
      (True, \<lparr>qbuf = qb, byte_len = n + 1, pad_len = 0, pad_start = ps\<rparr>)"
  using small_not_special [of v] by (simp add: quantum_char_def)

lemma quantum_char_pad: "2 \<le> n \<Longrightarrow> n + m < 4 \<Longrightarrow>
    quantum_char p False pd d \<lparr>qbuf = qb, byte_len = n, pad_len = m, pad_start = ps\<rparr> =
      (True, \<lparr>qbuf = qb, byte_len = n, pad_len = m + 1, pad_start = (if m = 0 then d else ps)\<rparr>)"
  by (simp add: quantum_char_def il_def sp_def pd_def)

definition decoded :: "u8 list \<Rightarrow> nat \<Rightarrow> u8" where
  "decoded data k = DecodeTable ! unat (data ! k)"

lemma quantum_loop_data:
  assumes "n < 4" "d < length data" "length qb = 4" "unat (decoded data d) < 64"
  shows "GetNextQuantum_loop p b data d \<lparr>qbuf = qb, byte_len = n, pad_len = 0, pad_start = ps\<rparr> =
    GetNextQuantum_loop p b data (d + 1)
      \<lparr>qbuf = qb[n := decoded data d], byte_len = n + 1, pad_len = 0, pad_start = ps\<rparr>"
  using assms by (subst GetNextQuantum_loop_step) (simp_all add: quantum_char_data flip: decoded_def)

lemma quantum_loop_pad:
  assumes "2 \<le> n" "n + m < 4" "d < length data" "length qb = 4" "decoded data d = pd"
  shows "GetNextQuantum_loop p False data d \<lparr>qbuf = qb, byte_len = n, pad_len = m, pad_start = ps\<rparr> =
    GetNextQuantum_loop p False data (d + 1)
      \<lparr>qbuf = qb[n := pd], byte_len = n, pad_len = m + 1, pad_start = (if m = 0 then d else ps)\<rparr>"
  using assms by (subst GetNextQuantum_loop_step) (simp_all add: quantum_char_pad flip: decoded_def)

lemma quantum_loop_full: "4 \<le> byte_len q \<or> length data \<le> d \<Longrightarrow> GetNextQuantum_loop p b data d q = Some (d, q)"
  by (subst GetNextQuantum_loop.simps) auto

lemma GetNextQuantum_full:
  assumes "d + 4 \<le> length data" and "length qb = 4" and "unat (decoded data d) < 64"
    "unat (decoded data (d + 1)) < 64" "unat (decoded data (d + 2)) < 64" "unat (decoded data (d + 3)) < 64"
  shows "GetNextQuantum p b data d qb =
    Some (4, d + 4, [decoded data d, decoded data (d + 1), decoded data (d + 2), decoded data (d + 3)], True)"
proof -
  from assms(2) obtain u v w x where qb: "qb = [u, v, w, x]" by (rule length_four_exact)
  show ?thesis
    using assms(1,3-) unfolding GetNextQuantum_def qb
    by (simp add: quantum_loop_data quantum_loop_full numeral_eq_Suc)
qed

lemma GetNextQuantum_three:
  assumes "d + 4 = length data" and "length qb = 4" and "unat (decoded data d) < 64"
    "unat (decoded data (d + 1)) < 64" "unat (decoded data (d + 2)) < 64"
    and "decoded data (d + 3) = pd"
  shows "GetNextQuantum p False data d qb =
    Some (3, d + 4, [decoded data d, decoded data (d + 1), decoded data (d + 2), 0], True)"
proof -
  from assms(2) obtain u v w x where qb: "qb = [u, v, w, x]" by (rule length_four_exact)
  show ?thesis
    using assms(1,3-) unfolding GetNextQuantum_def qb
    by (simp add: quantum_loop_data quantum_loop_pad quantum_loop_full numeral_eq_Suc upt_rec)
qed

lemma GetNextQuantum_two:
  assumes "d + 4 = length data" and "length qb = 4" and "unat (decoded data d) < 64" "unat (decoded data (d + 1)) < 64"
    and "decoded data (d + 2) = pd" "decoded data (d + 3) = pd"
  shows "GetNextQuantum p False data d qb = Some (2, d + 4, [decoded data d, decoded data (d + 1), 0, 0], True)"
proof -
  from assms(2) obtain u v w x where qb: "qb = [u, v, w, x]" by (rule length_four_exact)
  show ?thesis
    using assms(1,3-) unfolding GetNextQuantum_def qb
    by (simp add: quantum_loop_data quantum_loop_pad quantum_loop_full numeral_eq_Suc upt_rec)
qed


section \<open>Round trip\<close>

text \<open>The bytes of an encoded quantum, put together again; no bit is left over.\<close>

lemma byte_masks: "(0x3f :: u8) = mask 6" "(0x0f :: u8) = mask 4" "(0x03 :: u8) = mask 2"
  "(0xf0 :: u8) = push_bit 4 (mask 4)" "(0xc0 :: u8) = push_bit 6 (mask 2)"
  by (simp_all add: mask_eq_exp_minus_1)

lemma u8_eqI:
  fixes x y :: u8
  assumes "bit x 0 = bit y 0" "bit x 1 = bit y 1" "bit x 2 = bit y 2" "bit x 3 = bit y 3"
    "bit x 4 = bit y 4" "bit x 5 = bit y 5" "bit x 6 = bit y 6" "bit x 7 = bit y 7"
  shows "x = y"
proof (rule bit_word_eqI)
  fix n :: nat assume "n < LENGTH(8)"
  then consider "n = 0" | "n = 1" | "n = 2" | "n = 3" | "n = 4" | "n = 5" | "n = 6" | "n = 7"
    by fastforce
  then show "bit x n = bit y n" using assms by cases simp_all
qed

lemma reassemble:
  fixes a b c :: u8
  shows "push_bit 2 (drop_bit 2 a AND 0x3f) OR (drop_bit 4 ((push_bit 4 a AND 0x3f) OR (drop_bit 4 b AND 0x0f)) AND 0x03) = a"
    "(push_bit 4 ((push_bit 4 a AND 0x3f) OR (drop_bit 4 b AND 0x0f)) AND 0xf0) OR
       (drop_bit 2 ((push_bit 2 b AND 0x3f) OR (drop_bit 6 c AND 0x03)) AND 0x0f) = b"
    "(push_bit 6 ((push_bit 2 b AND 0x3f) OR (drop_bit 6 c AND 0x03)) AND 0xc0) OR (c AND 0x3f) = c"
  unfolding byte_masks by (rule u8_eqI; unfold word_bit_simps; simp)+

lemma quantum_bytes_three:
  "quantum_bytes 4 [drop_bit 2 a AND 0x3f, (push_bit 4 a AND 0x3f) OR (drop_bit 4 b AND 0x0f),
     (push_bit 2 b AND 0x3f) OR (drop_bit 6 c AND 0x03), c AND 0x3f] = ([a, b, c], 0)"
  using reassemble by (simp add: quantum_bytes_def)

lemma quantum_bytes_two:
  "quantum_bytes 3 [drop_bit 2 a AND 0x3f, (push_bit 4 a AND 0x3f) OR (drop_bit 4 b AND 0x0f),
     push_bit 2 b AND 0x3f, 0] = ([a, b], 0)"
  using reassemble(1) [of a b] reassemble(2) [of a b 0] reassemble(3) [of b 0] by (simp add: quantum_bytes_def)

lemma quantum_bytes_one:
  "quantum_bytes 2 [drop_bit 2 a AND 0x3f, push_bit 4 a AND 0x3f, 0, 0] = ([a], 0)"
  using reassemble(1) [of a 0] reassemble(2) [of a 0 0] by (simp add: quantum_bytes_def)

lemma decoded_append [simp]:
  "decoded (pre @ xs) (length pre) = DecodeTable ! unat (xs ! 0)"
  "decoded (pre @ xs) (length pre + k) = DecodeTable ! unat (xs ! k)"
  "decoded (pre @ xs) (Suc (length pre)) = DecodeTable ! unat (xs ! 1)"
  "decoded (pre @ xs) (Suc (Suc (length pre))) = DecodeTable ! unat (xs ! 2)"
  by (simp_all add: decoded_def nth_append)

lemma Decode_loop_correct:
  assumes "length qb = 4" and "pad_flags = DO_PAD_NO \<Longrightarrow> 3 dvd length rest"
  shows "Decode_loop parse_flags pad_flags term_flags (pre @ base64 rest) (length pre) qb result =
    Some (True, result @ rest, length pre + length (base64 rest))"
  using assms
proof (induction rest arbitrary: pre qb result rule: base64.induct)
  case 1
  then show ?case by (subst Decode_loop.simps) simp
next
  case (2 a)
  then have "pad_flags \<noteq> DO_PAD_NO" by auto
  moreover have "GetNextQuantum parse_flags False (pre @ base64 [a]) (length pre) qb =
      Some (2, length pre + 4, [drop_bit 2 a AND 0x3f, push_bit 4 a AND 0x3f, 0, 0], True)"
    using 2(1) by (subst GetNextQuantum_two)
      (simp_all add: decoded_append decode_code64 decode_kPad six_bits)
  ultimately show ?case
    by (subst Decode_loop.simps) (simp add: quantum_bytes_one)
next
  case (3 a b)
  have "\<not> 3 dvd length [a, b]" by (simp flip: numeral_2_eq_2)
  with 3(2) have "pad_flags \<noteq> DO_PAD_NO" by blast
  moreover have "GetNextQuantum parse_flags False (pre @ base64 [a, b]) (length pre) qb =
      Some (3, length pre + 4, [drop_bit 2 a AND 0x3f, (push_bit 4 a AND 0x3f) OR (drop_bit 4 b AND 0x0f),
        push_bit 2 b AND 0x3f, 0], True)"
    using 3(1) by (subst GetNextQuantum_three)
      (simp_all add: decoded_append decode_code64 decode_kPad six_bits)
  ultimately show ?case
    by (subst Decode_loop.simps) (simp add: quantum_bytes_two)
next
  case (4 a b c rest)
  let ?q = "[drop_bit 2 a AND 0x3f, (push_bit 4 a AND 0x3f) OR (drop_bit 4 b AND 0x0f),
     (push_bit 2 b AND 0x3f) OR (drop_bit 6 c AND 0x03), c AND 0x3f]"
  have "GetNextQuantum parse_flags (DO_PAD_NO = pad_flags) (pre @ base64 (a # b # c # rest)) (length pre) qb =
      Some (4, length pre + 4, ?q, True)"
    using 4(2) by (subst GetNextQuantum_full)
      (simp_all add: decoded_append decode_code64 six_bits)
  moreover have "3 dvd length rest" if "pad_flags = DO_PAD_NO"
  proof -
    have "length (a # b # c # rest) = length rest + 3" by simp
    with 4(3) [OF that] show ?thesis by (metis dvd_add_left_iff dvd_refl)
  qed
  moreover have "length (pre @ base64 [a, b, c]) = length pre + 4" by simp
  note IH = 4(1) [of ?q "pre @ base64 [a, b, c]" "result @ [a, b, c]", unfolded this]
  ultimately show ?case
    using IH by (subst Decode_loop.simps) (simp add: quantum_bytes_three)
qed

lemma quantum_bytes_length:
  assumes "n \<le> 4"
  shows "length (fst (quantum_bytes n q)) = n - 1"
proof -
  from assms consider "n = 0" | "n = 1" | "n = 2" | "n = 3" | "n = 4" by fastforce
  then show ?thesis by cases (simp_all add: quantum_bytes_def Let_def)
qed

lemma Decode_loop_total:
  assumes "length qb = 4" and "dpos \<le> length data"
  shows "\<exists>ok res used. Decode_loop p pad t data dpos qb result = Some (ok, result @ res, used) \<and>
    used \<le> length data \<and> dpos \<le> used \<and> 4 * length res \<le> 3 * (used - dpos)"
  using assms
proof (induction "length data - dpos" arbitrary: dpos qb result rule: less_induct)
  case less
  show ?case
  proof (cases "dpos < length data")
    case False
    then show ?thesis using less(3) by (subst Decode_loop.simps) auto
  next
    case True
    obtain qlen d qb' padded where q: "GetNextQuantum p (DO_PAD_NO = pad) data dpos qb = Some (qlen, d, qb', padded)"
      "length qb' = 4" using GetNextQuantum_total [OF less(2)] by blast
    have b: "qlen \<le> 4" "dpos + qlen \<le> d" "d \<le> length data"
      using GetNextQuantum_bounds [OF q(1)] True by simp_all
    obtain bs c where bs: "quantum_bytes qlen qb' = (bs, c)" by (cases "quantum_bytes qlen qb'")
    then have len: "length bs = qlen - 1" using quantum_bytes_length [OF b(1), of qb'] by simp
    show ?thesis
    proof (cases "qlen < 4")
      case False
      then have "length data - d < length data - dpos" using b True by linarith
      from less(1) [OF this q(2) b(3), of "result @ bs"] obtain ok res used where
        r: "Decode_loop p pad t data d qb' (result @ bs) = Some (ok, (result @ bs) @ res, used)"
        "used \<le> length data" "d \<le> used" "4 * length res \<le> 3 * (used - d)" by blast
      have "4 * length (bs @ res) \<le> 3 * (used - dpos)" using len b r False by simp
      moreover have "Decode_loop p pad t data dpos qb result = Some (ok, result @ bs @ res, used)"
        using True q bs r False by (subst Decode_loop.simps) simp
      moreover have "dpos \<le> used" using r b by simp
      ultimately show ?thesis using r(2) by blast
    next
      case lt: True
      have "4 * length bs \<le> 3 * (d - dpos)" using len b lt by simp
      then show ?thesis using True q bs lt b by (subst Decode_loop.simps) auto
    qed
  qed
qed


section \<open>Strict decoding\<close>

text \<open>What the quantum loop has seen in strict mode: data characters, then pads, nothing else.\<close>

definition strict_inv :: "u8 list \<Rightarrow> nat \<Rightarrow> nat \<Rightarrow> quantum \<Rightarrow> bool" where
  "strict_inv data start dpos q \<longleftrightarrow> dpos = start + byte_len q + pad_len q \<and> byte_len q + pad_len q \<le> 4 \<and>
     length (qbuf q) = 4 \<and> (0 < pad_len q \<longrightarrow> 2 \<le> byte_len q) \<and>
     (\<forall>k<byte_len q. qbuf q ! k = decoded data (start + k) \<and> unat (decoded data (start + k)) < 64) \<and>
     (\<forall>k<pad_len q. decoded data (start + byte_len q + k) = pd)"

lemma table_values_list: "list_all (\<lambda>v. v = il \<or> v = sp \<or> v = pd \<or> unat v < 64) DecodeTable"
  by code_simp

lemma table_values: "decoded data k = il \<or> decoded data k = sp \<or> decoded data k = pd \<or> unat (decoded data k) < 64"
proof -
  have "decoded data k \<in> set DecodeTable"
    using unat_lt2p [of "data ! k"] by (auto simp: decoded_def intro: nth_mem)
  then show ?thesis using table_values_list by (auto simp: list_all_iff)
qed

lemma strict_char_inv:
  assumes "strict_inv data start dpos q" and "byte_len q < 4"
    and q1: "q1 = q\<lparr>qbuf := (qbuf q)[byte_len q := decoded data dpos]\<rparr>"
    and go: "quantum_char DO_PARSE_STRICT False (decoded data dpos) dpos q1 = (go, q2)"
  shows "strict_inv data start (if go then dpos + 1 else dpos) q2"
proof -
  have inv1: "strict_inv data start dpos q1"
    using assms(1,2) unfolding q1 strict_inv_def by auto
  consider (stop) "\<not> go" "q2 = q1" | (pad) "go" "decoded data dpos = pd" "2 \<le> byte_len q" "byte_len q + pad_len q < 4"
      "q2 = q1\<lparr>pad_len := pad_len q + 1, pad_start := (if pad_len q + 1 = 1 then dpos else pad_start q)\<rparr>"
    | (data) "go" "unat (decoded data dpos) < 64" "pad_len q = 0" "q2 = q1\<lparr>pad_len := 0, byte_len := byte_len q + 1\<rparr>"
    using go table_values [of data dpos] unfolding quantum_char_def q1
    by (auto simp: DO_PARSE_STRICT_def DO_PARSE_ANY_def split: if_splits)
  then show ?thesis
  proof cases
    case stop
    then show ?thesis using inv1 by simp
  next
    case pad
    then show ?thesis using inv1 assms(1) unfolding strict_inv_def q1 by (auto simp: less_Suc_eq)
  next
    case data
    then show ?thesis using inv1 assms(1,2) unfolding strict_inv_def q1 by (auto simp: less_Suc_eq)
  qed
qed

lemma strict_loop_inv:
  assumes "GetNextQuantum_loop DO_PARSE_STRICT False data dpos q = Some (dpos', q')"
    and "strict_inv data start dpos q"
  shows "strict_inv data start dpos' q'"
  using assms
proof (induction "length data - dpos" arbitrary: dpos q rule: less_induct)
  case (less dpos q)
  show ?case
  proof (cases "byte_len q < 4 \<and> dpos < length data")
    case False
    then show ?thesis using less(2,3) by (subst (asm) GetNextQuantum_loop.simps) auto
  next
    case True
    let ?q = "q\<lparr>qbuf := (qbuf q)[byte_len q := decoded data dpos]\<rparr>"
    obtain go q1 where g: "quantum_char DO_PARSE_STRICT False (decoded data dpos) dpos ?q = (go, q1)"
      by (cases "quantum_char DO_PARSE_STRICT False (decoded data dpos) dpos ?q")
    have "length (qbuf q) = 4" using less(3) by (simp add: strict_inv_def)
    then have res: "(if go then GetNextQuantum_loop DO_PARSE_STRICT False data (dpos + 1) q1 else Some (dpos, q1)) = Some (dpos', q')"
      using less(2) True GetNextQuantum_loop_step [of q dpos data DO_PARSE_STRICT False] g
      by (simp add: decoded_def)
    have inv: "strict_inv data start (if go then dpos + 1 else dpos) q1"
      by (rule strict_char_inv [OF less(3) _ refl g]) (use True in simp)
    have later: "length data - (dpos + 1) < length data - dpos" using True by linarith
    show ?thesis
      using res inv less(1) [OF later, of q1] by (cases go) auto
  qed
qed

lemma zero_fill_nth:
  "k < length qs \<Longrightarrow> foldl (\<lambda>qb i. qb[i := 0]) qs is ! k = (if k \<in> set is then 0 else qs ! k)"
  by (induction "is" arbitrary: qs) (auto simp: nth_list_update)

lemma GetNextQuantum_strict:
  assumes "GetNextQuantum DO_PARSE_STRICT False data d qb = Some (qlen, d', qb', padded)" and "length qb = 4"
  shows "qlen = 4 \<Longrightarrow> padded"
    and "padded \<Longrightarrow> d' = d + 4 \<and> 2 \<le> qlen \<and> qlen \<le> 4 \<and> length qb' = 4 \<and>
      (\<forall>k<qlen. qb' ! k = decoded data (d + k) \<and> unat (decoded data (d + k)) < 64) \<and>
      (\<forall>k. qlen \<le> k \<and> k < 4 \<longrightarrow> qb' ! k = 0 \<and> decoded data (d + k) = pd)"
proof -
  let ?q = "\<lparr>qbuf = qb, byte_len = 0, pad_len = 0, pad_start = 0\<rparr>"
  from assms(1) obtain d1 q where l: "GetNextQuantum_loop DO_PARSE_STRICT False data d ?q = Some (d1, q)"
    and r: "qlen = byte_len q" "padded \<longleftrightarrow> byte_len q + pad_len q = 4" "padded \<Longrightarrow> d' = d1"
      "qb' = foldl (\<lambda>qb i. qb[i := 0]) (qbuf q) [byte_len q..<4]"
    by (auto simp: GetNextQuantum_def Let_def Option.bind_eq_Some_conv split: if_splits)
  have "strict_inv data d d ?q" using assms(2) by (simp add: strict_inv_def)
  note inv = strict_loop_inv [OF l this]
  show "padded" if "qlen = 4" using that inv r by (simp add: strict_inv_def)
  assume padded
  then have sum: "byte_len q + pad_len q = 4" "d' = d1" using r by simp_all
  have pads: "decoded data (d + k) = pd" if "qlen \<le> k" "k < 4" for k
  proof -
    have "k - byte_len q < pad_len q" using that sum r(1) by linarith
    then have "decoded data (d + byte_len q + (k - byte_len q)) = pd" using inv by (auto simp: strict_inv_def)
    then show ?thesis using that r(1) by simp
  qed
  show "d' = d + 4 \<and> 2 \<le> qlen \<and> qlen \<le> 4 \<and> length qb' = 4 \<and>
      (\<forall>k<qlen. qb' ! k = decoded data (d + k) \<and> unat (decoded data (d + k)) < 64) \<and>
      (\<forall>k. qlen \<le> k \<and> k < 4 \<longrightarrow> qb' ! k = 0 \<and> decoded data (d + k) = pd)"
    using inv sum pads unfolding r(1,4) strict_inv_def by (auto simp: zero_fill_nth r(1))
qed

lemma code64_decoded_list:
  "list_all (\<lambda>k. (unat (DecodeTable ! k) < 64 \<longrightarrow> Base64Table ! unat (DecodeTable ! k) = of_nat k) \<and>
     (DecodeTable ! k = pd \<longrightarrow> k = 61)) [0..<256]"
  by code_simp

lemma code64_decoded: "unat (decoded data k) < 64 \<Longrightarrow> code64 (decoded data k) = data ! k"
  and decoded_pad: "decoded data k = pd \<Longrightarrow> data ! k = kPad"
proof -
  have "unat (data ! k) < 256" using unat_lt2p [of "data ! k"] by simp
  then have a: "unat (DecodeTable ! unat (data ! k)) < 64 \<longrightarrow> Base64Table ! unat (DecodeTable ! unat (data ! k)) = data ! k"
    and b: "DecodeTable ! unat (data ! k) = pd \<longrightarrow> unat (data ! k) = 61"
    using code64_decoded_list by (auto simp: list_all_iff)
  show "unat (decoded data k) < 64 \<Longrightarrow> code64 (decoded data k) = data ! k"
    using a by (simp add: decoded_def code64_def)
  show "decoded data k = pd \<Longrightarrow> data ! k = kPad"
    using b by (simp add: decoded_def kPad_def word_unat_eq_iff)
qed

text \<open>Encoding the bytes of a quantum gives its characters back, when no bit is left over.\<close>

lemma disassemble:
  fixes p q r t :: u8
  assumes "unat p < 64" "unat q < 64" "unat r < 64" "unat t < 64"
  defines "a \<equiv> push_bit 2 p OR (drop_bit 4 q AND 0x3)"
    and "b \<equiv> (push_bit 4 q AND 0xf0) OR (drop_bit 2 r AND 0xf)"
    and "c \<equiv> (push_bit 6 r AND 0xc0) OR t"
  shows "drop_bit 2 a AND 0x3f = p" "(push_bit 4 a AND 0x3f) OR (drop_bit 4 b AND 0x0f) = q"
    "(push_bit 2 b AND 0x3f) OR (drop_bit 6 c AND 0x03) = r" "c AND 0x3f = t"
proof -
  have hi: "\<not> bit x 6" "\<not> bit x 7" if "unat x < 64" for x :: u8
    using that unat_less_bit [of x 6] by simp_all
  note h = hi [OF assms(1)] hi [OF assms(2)] hi [OF assms(3)] hi [OF assms(4)]
  show "drop_bit 2 a AND 0x3f = p" "(push_bit 4 a AND 0x3f) OR (drop_bit 4 b AND 0x0f) = q"
    "(push_bit 2 b AND 0x3f) OR (drop_bit 6 c AND 0x03) = r" "c AND 0x3f = t"
    unfolding a_def b_def c_def byte_masks by (rule u8_eqI; unfold word_bit_simps; simp add: h)+
qed

lemma drop_four:
  assumes "d + 4 \<le> length xs"
  shows "drop d xs = xs ! d # xs ! (d + 1) # xs ! (d + 2) # xs ! (d + 3) # drop (d + 4) xs"
  using assms by (simp add: Cons_nth_drop_Suc numeral_eq_Suc)

lemma strict_quantum_encodes:
  assumes "GetNextQuantum DO_PARSE_STRICT False data d qb = Some (qlen, d', qb', padded)"
    and "length qb = 4" "padded" "quantum_bytes qlen qb' = (bs, 0)" "d + 4 \<le> length data"
  shows "base64 bs @ drop d' data = drop d data"
proof -
  note g = GetNextQuantum_strict(2) [OF assms(1-3)]
  then have d': "d' = d + 4" and len: "length qb' = 4" by simp_all
  obtain p q r t where qb': "qb' = [p, q, r, t]" using len by (rule length_four_exact)
  have code: "unat (qb' ! k) < 64 \<and> code64 (qb' ! k) = data ! (d + k)" if "k < qlen" for k
    using g that code64_decoded [of data "d + k"] by simp
  have pads: "qb' ! k = 0 \<and> kPad = data ! (d + k)" if "qlen \<le> k" "k < 4" for k
    using g that decoded_pad [of data "d + k"] by simp
  consider "qlen = 2" | "qlen = 3" | "qlen = 4" using g by fastforce
  then show ?thesis
  proof cases
    case 3
    have v: "unat p < 64" "unat q < 64" "unat r < 64" "unat t < 64"
      "code64 p = data ! d" "code64 q = data ! (d + 1)" "code64 r = data ! (d + 2)" "code64 t = data ! (d + 3)"
      using 3 code [of 0] code [of 1] code [of 2] code [of 3] by (simp_all add: qb')
    show ?thesis
      using assms(4) 3 disassemble [OF v(1-4)] v(5-) drop_four [OF assms(5)]
      by (auto simp: quantum_bytes_def qb' d')
  next
    case 2
    have v: "unat p < 64" "unat q < 64" "unat r < 64" "t = 0"
      "code64 p = data ! d" "code64 q = data ! (d + 1)" "code64 r = data ! (d + 2)" "kPad = data ! (d + 3)"
      using 2 code [of 0] code [of 1] code [of 2] pads [of 3] by (simp_all add: qb')
    show ?thesis
      using assms(4) 2 disassemble [OF v(1-3), of 0] v(4-) drop_four [OF assms(5)]
      by (auto simp: quantum_bytes_def qb' d')
  next
    case 1
    have v: "unat p < 64" "unat q < 64" "r = 0" "t = 0"
      "code64 p = data ! d" "code64 q = data ! (d + 1)" "kPad = data ! (d + 2)" "kPad = data ! (d + 3)"
      using 1 code [of 0] code [of 1] pads [of 2] pads [of 3] by (simp_all add: qb')
    show ?thesis
      using assms(4) 1 disassemble [OF v(1,2), of 0 0] v(3-) drop_four [OF assms(5)]
      by (auto simp: quantum_bytes_def qb' d')
  qed
qed

lemma strict_decode_canonical:
  assumes "Decode_loop DO_PARSE_STRICT DO_PAD_YES DO_TERM_BUFFER data d qb result = Some (True, result', length data)"
    and "length qb = 4" "d \<le> length data"
  shows "\<exists>res. result' = result @ res \<and> base64 res = drop d data"
  using assms
proof (induction "length data - d" arbitrary: d qb result rule: less_induct)
  case (less d qb result)
  show ?case
  proof (cases "d < length data")
    case False
    then show ?thesis using less(2,4) by (subst (asm) Decode_loop.simps) auto
  next
    case True
    have f: "(DO_PAD_NO = DO_PAD_YES) = False" "DO_TERM_ANY \<noteq> DO_TERM_BUFFER" by (simp_all add: decode_flag_defs)
    obtain qlen d' qb' padded where q: "GetNextQuantum DO_PARSE_STRICT False data d qb = Some (qlen, d', qb', padded)"
      "length qb' = 4" using GetNextQuantum_total [OF less(3)] by blast
    obtain bs c where bs: "quantum_bytes qlen qb' = (bs, c)" by (cases "quantum_bytes qlen qb'")
    have res: "(if qlen < 4 then Some (c = 0 \<and> padded, result @ bs, d')
        else Decode_loop DO_PARSE_STRICT DO_PAD_YES DO_TERM_BUFFER data d' qb' (result @ bs)) =
        Some (True, result', length data)"
      using less(2) True q bs f by (subst (asm) Decode_loop.simps) (simp add: Let_def split: if_splits)
    have b: "qlen \<le> 4" "d' \<le> length data" using GetNextQuantum_bounds [OF q(1)] True by simp_all
    have pad: "padded" and c: "c = 0"
      using res GetNextQuantum_strict(1) [OF q(1) less(3)] b(1) bs
      by (auto simp: quantum_bytes_def Let_def split: if_splits)
    have d': "d' = d + 4" using GetNextQuantum_strict(2) [OF q(1) less(3) pad] by simp
    then have enc: "base64 bs @ drop d' data = drop d data"
      using strict_quantum_encodes [OF q(1) less(3) pad] bs c b(2) by simp
    show ?thesis
    proof (cases "qlen < 4")
      case True
      then show ?thesis using res enc by auto
    next
      case False
      then have four: "qlen = 4" using b(1) by simp
      have later: "length data - d' < length data - d" using \<open>d < length data\<close> d' by linarith
      from less(1) [OF later _ q(2) b(2), of "result @ bs"] res False obtain res' where
        r: "result' = (result @ bs) @ res'" "base64 res' = drop d' data" by auto
      have "length bs = 3" using quantum_bytes_length [of 4 qb'] bs four by simp
      then have "base64 (bs @ res') = base64 bs @ base64 res'" by (auto simp: numeral_3_eq_3 length_Suc_conv)
      then show ?thesis using r enc by auto
    qed
  qed
qed

section \<open>The character tests on the whole alphabet\<close>

lemma strchr_from_nth: "distinct xs \<Longrightarrow> c < length xs \<Longrightarrow> strchr_from xs (xs ! c) i = Some (i + c)"
proof (induction xs arbitrary: c i)
  case (Cons x xs)
  then show ?case by (cases c) auto
qed simp

lemma Base64Table_distinct: "distinct Base64Table"
  by code_simp

lemma next_char:
  assumes "c < 64"
  shows "GetNextBase64Char (Base64Table ! c) = Some (Some (Base64Table ! ((c + 1) mod 64)))"
proof -
  have zero: "Base64Table ! 64 = 0" by code_simp
  have "Base64Table ! (c + 1) = 0 \<longleftrightarrow> c + 1 = 64"
    using assms nth_eq_iff_index_eq [OF Base64Table_distinct, of "c + 1" 64] zero by simp
  moreover have "strchr_from Base64Table (Base64Table ! c) 0 = Some c"
    using assms strchr_from_nth [OF Base64Table_distinct, of c 0] by simp
  ultimately show ?thesis
    using assms by (auto simp: GetNextBase64Char_def)
qed

lemma Base64Table_ranges: "Base64Table = map of_nat ([65..<91] @ [97..<123] @ [48..<58] @ [43, 47]) @ [0]"
  by code_simp

lemma u8_in_set_map: "list_all (\<lambda>n. n < 256) xs \<Longrightarrow> (ch :: u8) \<in> set (map of_nat xs) \<longleftrightarrow> unat ch \<in> set xs"
  by (auto simp: image_iff list_all_iff unat_of_nat_eq) (metis of_nat_unat ucast_id)

lemma IsBase64Char_iff: "IsBase64Char ch \<longleftrightarrow> ch \<in> set (take 64 Base64Table)"
proof -
  define xs where "xs = [65..<91] @ [97..<123] @ [48..<58] @ [43, 47]"
  have xs: "length xs = 64" "list_all (\<lambda>n. n < 256) xs" "set xs = {65..<91} \<union> ({97..<123} \<union> ({48..<58} \<union> {43, 47}))"
    unfolding xs_def by (auto simp only: list_all_append set_append set_upt list_all_iff length_append length_upt) auto
  have "take 64 Base64Table = map of_nat xs"
    using xs(1) by (simp only: Base64Table_ranges xs_def [symmetric] take_append length_map) simp
  then have "ch \<in> set (take 64 Base64Table) \<longleftrightarrow> unat ch \<in> {65..<91} \<union> ({97..<123} \<union> ({48..<58} \<union> {43, 47}))"
    using u8_in_set_map [OF xs(2), of ch] by (simp only: xs(3))
  then show ?thesis
    by (auto simp: IsBase64Char_def word_le_nat_alt word_unat_eq_iff)
qed

lemma strchr_from_None: "strchr_from xs ch i = None \<longleftrightarrow> ch \<notin> set xs"
  by (induction xs arbitrary: i) auto

lemma GetNextBase64Char_other: "ch \<noteq> 0 \<Longrightarrow> \<not> IsBase64Char ch \<Longrightarrow> GetNextBase64Char ch = Some None"
proof -
  assume "ch \<noteq> 0" "\<not> IsBase64Char ch"
  moreover have "Base64Table = take 64 Base64Table @ [0]" by code_simp
  ultimately have "ch \<notin> set Base64Table" by (metis IsBase64Char_iff Un_iff empty_iff insert_iff list.set(1,2) set_append)
  then show ?thesis by (simp add: GetNextBase64Char_def strchr_from_None [THEN iffD2])
qed


section \<open>Properties\<close>

text \<open>A complete set of decoding flags, as the checks of the code ask for.\<close>

definition valid_flags :: "nat \<Rightarrow> bool" where
  "valid_flags flags \<longleftrightarrow> flags \<le> (DO_PARSE_MASK OR DO_PAD_MASK OR DO_TERM_MASK) \<and>
     flags AND DO_PARSE_MASK \<noteq> 0 \<and> flags AND DO_PAD_MASK \<noteq> 0 \<and> flags AND DO_TERM_MASK \<noteq> 0"

lemma DecodeFromArrayTemplate_valid:
  "valid_flags flags \<Longrightarrow> DecodeFromArrayTemplate data flags qb =
     map_option (\<lambda>(ok, res, used). (ok \<and> \<not> (DO_TERM_BUFFER = flags AND DO_TERM_MASK \<and> used \<noteq> length data), res, used))
       (Decode_loop (flags AND DO_PARSE_MASK) (flags AND DO_PAD_MASK) (flags AND DO_TERM_MASK) data 0 qb [])"
  by (cases "Decode_loop (flags AND DO_PARSE_MASK) (flags AND DO_PAD_MASK) (flags AND DO_TERM_MASK) data 0 qb []")
    (auto simp: DecodeFromArrayTemplate_def valid_flags_def dcheck_def)

text \<open>
  C6: \<open>Decode\<close> undoes \<open>Encode\<close>. For every byte string and every complete set of flags, unless they
  forbid padding that the encoding has, decoding the encoded string succeeds, uses all of it and
  returns the original bytes, whatever the uninitialised quantum buffer holds.
\<close>

theorem base64_round_trip:
  assumes "valid_flags flags" and "length qb = 4"
    and "flags AND DO_PAD_MASK = DO_PAD_NO \<Longrightarrow> 3 dvd length data"
  shows "\<exists>enc. Encode data = Some enc \<and> DecodeFromArrayTemplate enc flags qb = Some (True, data, length enc)"
  using Decode_loop_correct [OF assms(2), of "flags AND DO_PAD_MASK" data "flags AND DO_PARSE_MASK"
      "flags AND DO_TERM_MASK" "[]" "[]"] assms(3)
  by (auto simp: Encode_correct DecodeFromArrayTemplate_valid [OF assms(1)])

theorem base64_round_trip_witness:
  "\<exists>enc. Encode [77, 97, 110, 33] = Some enc \<and>
     DecodeFromArrayTemplate enc DO_STRICT [1, 2, 3, 4] = Some (True, [77, 97, 110, 33], length enc)"
  by (rule base64_round_trip) (simp_all add: valid_flags_def DO_STRICT_def decode_flag_defs)

text \<open>
  C7: the decoder is total on arbitrary bytes. For every input and every complete set of flags it
  returns without an access outside the input, the tables or the quantum buffer; it never claims
  to have used more characters than there are, and produces at most three bytes for four
  characters used.
\<close>

theorem base64_decode_total:
  assumes "valid_flags flags" and "length qb = 4"
  shows "\<exists>ok res used. DecodeFromArrayTemplate data flags qb = Some (ok, res, used) \<and>
    used \<le> length data \<and> 4 * length res \<le> 3 * used"
  using Decode_loop_total [OF assms(2), of 0 data "flags AND DO_PARSE_MASK" "flags AND DO_PAD_MASK"
      "flags AND DO_TERM_MASK" "[]"]
  by (auto simp: DecodeFromArrayTemplate_valid [OF assms(1)])

theorem base64_decode_total_witness:
  "\<exists>ok res used. DecodeFromArrayTemplate [61, 65, 255, 66, 32] DO_LAX [0, 0, 0, 0] = Some (ok, res, used) \<and>
    used \<le> length [61, 65, 255, 66, 32 :: u8] \<and> 4 * length res \<le> 3 * used"
  by (rule base64_decode_total) (simp_all add: valid_flags_def DO_LAX_def decode_flag_defs)

text \<open>
  Strict decoding is canonical. An input that \<open>DecodeFromArray\<close> accepts with \<open>DO_STRICT\<close> is
  exactly the encoding of the bytes it returns, so no two inputs are accepted for the same bytes.
\<close>

theorem base64_strict_canonical:
  assumes "DecodeFromArrayTemplate data DO_STRICT qb = Some (True, res, used)" and "length qb = 4"
  shows "Encode res = Some data \<and> used = length data"
proof -
  have flags: "valid_flags DO_STRICT" "DO_STRICT AND DO_PARSE_MASK = DO_PARSE_STRICT"
    "DO_STRICT AND DO_PAD_MASK = DO_PAD_YES" "DO_STRICT AND DO_TERM_MASK = DO_TERM_BUFFER"
    by (simp_all add: valid_flags_def DO_STRICT_def decode_flag_defs)
  have "Decode_loop DO_PARSE_STRICT DO_PAD_YES DO_TERM_BUFFER data 0 qb [] = Some (True, res, length data) \<and>
      used = length data"
    using assms(1) by (auto simp: DecodeFromArrayTemplate_valid [OF flags(1)] flags(2-))
  then show ?thesis
    using strict_decode_canonical [of data 0 qb "[]" res] assms(2) by (auto simp: Encode_correct)
qed

theorem base64_strict_canonical_witness:
  "Encode [77, 97] = Some [84, 87, 69, 61] \<and> 4 = length [84, 87, 69, 61 :: u8]"
proof (rule base64_strict_canonical)
  show "DecodeFromArrayTemplate [84, 87, 69, 61] DO_STRICT [0, 0, 0, 0] = Some (True, [77, 97], 4)"
    by code_simp
qed simp

text \<open>
  \<open>GetNextBase64Char\<close> walks the alphabet in its order and wraps around: for each base64
  character it returns the next one, the first after the last, and for any other character but
  NUL it returns false. For NUL, \<open>strchr\<close> finds the terminator and the access that follows is
  outside the table.
\<close>

theorem GetNextBase64Char_spec:
  "(\<forall>c < 64. GetNextBase64Char (Base64Table ! c) = Some (Some (Base64Table ! ((c + 1) mod 64)))) \<and>
   (\<forall>ch. IsBase64Char ch \<longleftrightarrow> (\<exists>c < 64. Base64Table ! c = ch)) \<and>
   (\<forall>ch. ch \<noteq> 0 \<and> \<not> IsBase64Char ch \<longrightarrow> GetNextBase64Char ch = Some None) \<and>
   GetNextBase64Char 0 = None"
proof (intro conjI)
  show "\<forall>c < 64. GetNextBase64Char (Base64Table ! c) = Some (Some (Base64Table ! ((c + 1) mod 64)))"
    by (simp add: next_char)
  show "\<forall>ch. IsBase64Char ch \<longleftrightarrow> (\<exists>c < 64. Base64Table ! c = ch)"
    by (auto simp: IsBase64Char_iff in_set_conv_nth)
  show "\<forall>ch. ch \<noteq> 0 \<and> \<not> IsBase64Char ch \<longrightarrow> GetNextBase64Char ch = Some None"
    by (simp add: GetNextBase64Char_other)
  show "GetNextBase64Char 0 = None" by code_simp
qed

theorem GetNextBase64Char_spec_witness:
  "GetNextBase64Char (Base64Table ! 63) = Some (Some (Base64Table ! ((63 + 1) mod 64)))"
  using GetNextBase64Char_spec by simp

end
