(* ===== verification/Units.thy ===== *)
theory Units
  imports Octk_Prelude
begin

text \<open>
  The unit types of \<open>src/libs/core/source/units\<close>: \<open>UnitBase\<close>, \<open>RelativeUnit\<close>, \<open>TimeDelta\<close>,
  \<open>Timestamp\<close>, \<open>DataSize\<close>, \<open>DataRate\<close> and \<open>Frequency\<close>, and the rounding divisions of
  \<open>octk_divide_round.hpp\<close>, for integral arguments. A unit value is its \<open>int64_t\<close> (\<open>mValue\<close>); the
  flag \<open>one_sided\<close> is \<open>Unit_T::kOneSided\<close>. Signed overflow and division by zero, which are
  undefined, and failed checks are \<^term>\<open>None\<close>.

  The reference is arithmetic on the integers extended by two infinities (\<open>ext\<close>).
\<close>

section \<open>Checked 64-bit arithmetic\<close>

definition div64 :: "int \<Rightarrow> int \<Rightarrow> int option" where
  "div64 a b = (if b = 0 then None else int64 (a sdiv b))"


section \<open>Rounding divisions\<close>

definition DivideRoundUp :: "int \<Rightarrow> int \<Rightarrow> int option" where
  "DivideRoundUp dividend divisor = do {
     dcheck (0 \<le> dividend);
     dcheck (0 < divisor);
     let quotient = dividend sdiv divisor;
     let remainder = dividend smod divisor;
     int64 (quotient + (if 0 < remainder then 1 else 0))
   }"

definition DivideRoundToNearest :: "int \<Rightarrow> int \<Rightarrow> int option" where
  "DivideRoundToNearest dividend divisor = do {
     dcheck (0 < divisor);
     if dividend < 0 then do {
       let half_of_divisor = divisor sdiv 2;
       let quotient = dividend sdiv divisor;
       let remainder = dividend smod divisor;
       int64 (if half_of_divisor < - remainder then quotient - 1 else quotient)
     }
     else do {
       let half_of_divisor = (divisor - 1) sdiv 2;
       let quotient = dividend sdiv divisor;
       let remainder = dividend smod divisor;
       int64 (if half_of_divisor < remainder then quotient + 1 else quotient)
     }
   }"


section \<open>UnitBase\<close>

definition PlusInfinityVal :: int where "PlusInfinityVal = int64_max"
definition MinusInfinityVal :: int where "MinusInfinityVal = int64_min"

lemmas infinity_defs = PlusInfinityVal_def MinusInfinityVal_def int_range_defs

definition IsPlusInfinity :: "int \<Rightarrow> bool" where
  "IsPlusInfinity v \<longleftrightarrow> v = PlusInfinityVal"

definition IsMinusInfinity :: "int \<Rightarrow> bool" where
  "IsMinusInfinity v \<longleftrightarrow> v = MinusInfinityVal"

definition IsInfinite :: "int \<Rightarrow> bool" where
  "IsInfinite v \<longleftrightarrow> v = PlusInfinityVal \<or> v = MinusInfinityVal"

definition IsFinite :: "int \<Rightarrow> bool" where
  "IsFinite v \<longleftrightarrow> \<not> IsInfinite v"

definition IsZero :: "int \<Rightarrow> bool" where
  "IsZero v \<longleftrightarrow> v = 0"

definition FromValue :: "bool \<Rightarrow> int \<Rightarrow> int option" where
  "FromValue one_sided value = do {
     (if one_sided then dcheck (0 \<le> value) else Some ());
     dcheck (MinusInfinityVal < value);
     dcheck (value < PlusInfinityVal);
     Some (cast_int64 value)
   }"

definition FromFraction :: "bool \<Rightarrow> int \<Rightarrow> int \<Rightarrow> int option" where
  "FromFraction one_sided denominator value = do {
     (if one_sided then dcheck (0 \<le> value) else Some ());
     lo \<leftarrow> div64 MinusInfinityVal denominator;
     hi \<leftarrow> div64 PlusInfinityVal denominator;
     dcheck (lo < value);
     dcheck (value < hi);
     int64 (value * denominator)
   }"

definition ToValueOr :: "int \<Rightarrow> int \<Rightarrow> int" where
  "ToValueOr v fallbackValue = (if IsFinite v then v else fallbackValue)"

definition ToFraction :: "int \<Rightarrow> int \<Rightarrow> int option" where
  "ToFraction denominator v = do { dcheck (IsFinite v); DivideRoundToNearest v denominator }"

definition ToFractionOr :: "int \<Rightarrow> int \<Rightarrow> int \<Rightarrow> int option" where
  "ToFractionOr denominator v fallbackValue =
     (if IsFinite v then DivideRoundToNearest v denominator else Some fallbackValue)"

definition ToMultiple :: "int \<Rightarrow> int \<Rightarrow> int option" where
  "ToMultiple factor v = do {
     lo \<leftarrow> div64 int64_min factor;
     hi \<leftarrow> div64 int64_max factor;
     dcheck (lo \<le> v);
     dcheck (v \<le> hi);
     int64 (v * factor)
   }"


section \<open>RelativeUnit\<close>

definition Clamped :: "int \<Rightarrow> int \<Rightarrow> int \<Rightarrow> int" where
  "Clamped v min_value max_value = max min_value (min v max_value)"

definition unit_add :: "bool \<Rightarrow> int \<Rightarrow> int \<Rightarrow> int option" where
  "unit_add one_sided a b =
     (if IsPlusInfinity a \<or> IsPlusInfinity b then do {
        dcheck (\<not> IsMinusInfinity a); dcheck (\<not> IsMinusInfinity b); Some PlusInfinityVal }
      else if IsMinusInfinity a \<or> IsMinusInfinity b then do {
        dcheck (\<not> IsPlusInfinity a); dcheck (\<not> IsPlusInfinity b); Some MinusInfinityVal }
      else do { s \<leftarrow> int64 (a + b); FromValue one_sided s })"

definition unit_sub :: "bool \<Rightarrow> int \<Rightarrow> int \<Rightarrow> int option" where
  "unit_sub one_sided a b =
     (if IsPlusInfinity a \<or> IsMinusInfinity b then do {
        dcheck (\<not> IsMinusInfinity a); dcheck (\<not> IsPlusInfinity b); Some PlusInfinityVal }
      else if IsMinusInfinity a \<or> IsPlusInfinity b then do {
        dcheck (\<not> IsPlusInfinity a); dcheck (\<not> IsMinusInfinity b); Some MinusInfinityVal }
      else do { d \<leftarrow> int64 (a - b); FromValue one_sided d })"

definition unit_div :: "bool \<Rightarrow> int \<Rightarrow> int \<Rightarrow> int option" where
  "unit_div one_sided a scalar = do { q \<leftarrow> div64 a scalar; FromValue one_sided q }"

definition unit_mul :: "bool \<Rightarrow> int \<Rightarrow> int \<Rightarrow> int option" where
  "unit_mul one_sided a scalar = do { p \<leftarrow> int64 (a * scalar); FromValue one_sided p }"

text \<open>With a \<open>size_t\<close> scalar the product is computed and passed on as an unsigned 64-bit value.\<close>

definition unit_mul_size :: "bool \<Rightarrow> int \<Rightarrow> int \<Rightarrow> int option" where
  "unit_mul_size one_sided a scalar = FromValue one_sided ((a * scalar) mod 2 ^ 64)"

definition unit_neg :: "bool \<Rightarrow> int \<Rightarrow> int option" where
  "unit_neg one_sided a =
     (if IsPlusInfinity a then Some MinusInfinityVal
      else if IsMinusInfinity a then Some PlusInfinityVal
      else unit_mul one_sided a (-1))"

definition RoundTo :: "bool \<Rightarrow> int \<Rightarrow> int \<Rightarrow> int option" where
  "RoundTo one_sided v resolution = do {
     dcheck (IsFinite v);
     dcheck (IsFinite resolution);
     dcheck (0 < resolution);
     h \<leftarrow> div64 resolution 2;
     s \<leftarrow> int64 (v + h);
     q \<leftarrow> div64 s resolution;
     unit_mul one_sided q resolution
   }"

definition RoundUpTo :: "bool \<Rightarrow> int \<Rightarrow> int \<Rightarrow> int option" where
  "RoundUpTo one_sided v resolution = do {
     dcheck (IsFinite v);
     dcheck (IsFinite resolution);
     dcheck (0 < resolution);
     t \<leftarrow> int64 (v + resolution);
     s \<leftarrow> int64 (t - 1);
     q \<leftarrow> div64 s resolution;
     unit_mul one_sided q resolution
   }"

definition RoundDownTo :: "bool \<Rightarrow> int \<Rightarrow> int \<Rightarrow> int option" where
  "RoundDownTo one_sided v resolution = do {
     dcheck (IsFinite v);
     dcheck (IsFinite resolution);
     dcheck (0 < resolution);
     q \<leftarrow> div64 v resolution;
     unit_mul one_sided q resolution
   }"


section \<open>TimeDelta and Timestamp\<close>

text \<open>\<open>TimeDelta\<close> is two-sided, in microseconds; the arguments are \<open>int64_t\<close>.\<close>

definition TimeDelta_Micros :: "int \<Rightarrow> int option" where
  "TimeDelta_Micros value = FromValue False value"

definition TimeDelta_Millis :: "int \<Rightarrow> int option" where
  "TimeDelta_Millis value = FromFraction False 1000 value"

definition TimeDelta_Seconds :: "int \<Rightarrow> int option" where
  "TimeDelta_Seconds value = FromFraction False 1000000 value"

definition TimeDelta_Minutes :: "int \<Rightarrow> int option" where
  "TimeDelta_Minutes value = do { s \<leftarrow> int64 (value * 60); TimeDelta_Seconds s }"

definition TimeDelta_seconds :: "int \<Rightarrow> int option" where
  "TimeDelta_seconds v = ToFraction 1000000 v"

definition TimeDelta_ms :: "int \<Rightarrow> int option" where
  "TimeDelta_ms v = ToFraction 1000 v"

definition TimeDelta_ns :: "int \<Rightarrow> int option" where
  "TimeDelta_ns v = ToMultiple 1000 v"

definition TimeDelta_Abs :: "int \<Rightarrow> int option" where
  "TimeDelta_Abs v = (if v < 0 then do { n \<leftarrow> int64 (- v); TimeDelta_Micros n } else Some v)"

text \<open>\<open>Timestamp\<close> is one-sided, in microseconds.\<close>

definition Timestamp_Micros :: "int \<Rightarrow> int option" where
  "Timestamp_Micros value = FromValue True value"

definition Timestamp_Millis :: "int \<Rightarrow> int option" where
  "Timestamp_Millis value = FromFraction True 1000 value"

definition Timestamp_Seconds :: "int \<Rightarrow> int option" where
  "Timestamp_Seconds value = FromFraction True 1000000 value"

definition Timestamp_add :: "int \<Rightarrow> int \<Rightarrow> int option" where
  "Timestamp_add t delta =
     (if IsPlusInfinity t \<or> IsPlusInfinity delta then do {
        dcheck (\<not> IsMinusInfinity t); dcheck (\<not> IsMinusInfinity delta); Some PlusInfinityVal }
      else if IsMinusInfinity t \<or> IsMinusInfinity delta then do {
        dcheck (\<not> IsPlusInfinity t); dcheck (\<not> IsPlusInfinity delta); Some MinusInfinityVal }
      else do { s \<leftarrow> int64 (t + delta); Timestamp_Micros s })"

definition Timestamp_sub :: "int \<Rightarrow> int \<Rightarrow> int option" where
  "Timestamp_sub t delta =
     (if IsPlusInfinity t \<or> IsMinusInfinity delta then do {
        dcheck (\<not> IsMinusInfinity t); dcheck (\<not> IsPlusInfinity delta); Some PlusInfinityVal }
      else if IsMinusInfinity t \<or> IsPlusInfinity delta then do {
        dcheck (\<not> IsPlusInfinity t); dcheck (\<not> IsMinusInfinity delta); Some MinusInfinityVal }
      else do { d \<leftarrow> int64 (t - delta); Timestamp_Micros d })"

definition Timestamp_diff :: "int \<Rightarrow> int \<Rightarrow> int option" where
  "Timestamp_diff t other =
     (if IsPlusInfinity t \<or> IsMinusInfinity other then do {
        dcheck (\<not> IsMinusInfinity t); dcheck (\<not> IsPlusInfinity other); Some PlusInfinityVal }
      else if IsMinusInfinity t \<or> IsPlusInfinity other then do {
        dcheck (\<not> IsPlusInfinity t); dcheck (\<not> IsMinusInfinity other); Some MinusInfinityVal }
      else do { d \<leftarrow> int64 (t - other); TimeDelta_Micros d })"


section \<open>DataSize, DataRate and Frequency\<close>

definition DataSize_Bytes :: "int \<Rightarrow> int option" where
  "DataSize_Bytes value = FromValue True value"

definition BitsPerSec :: "int \<Rightarrow> int option" where
  "BitsPerSec value = FromValue True value"

definition BytesPerSec :: "int \<Rightarrow> int option" where
  "BytesPerSec value = FromFraction True 8 value"

definition KilobitsPerSec :: "int \<Rightarrow> int option" where
  "KilobitsPerSec value = FromFraction True 1000 value"

definition bytes_per_sec :: "int \<Rightarrow> int option" where
  "bytes_per_sec v = ToFraction 8 v"

definition kbps :: "int \<Rightarrow> int option" where
  "kbps v = ToFraction 1000 v"

definition MilliHertz :: "int \<Rightarrow> int option" where
  "MilliHertz value = FromValue True value"

definition Hertz :: "int \<Rightarrow> int option" where
  "Hertz value = FromFraction True 1000 value"

definition KiloHertz :: "int \<Rightarrow> int option" where
  "KiloHertz value = FromFraction True 1000000 value"

definition hertz :: "int \<Rightarrow> int option" where
  "hertz v = ToFraction 1000 v"

definition Microbits :: "int \<Rightarrow> int option" where
  "Microbits sz = do { dcheck (sz \<le> int64_max sdiv 8000000); int64 (sz * 8000000) }"

definition MillibytePerSec :: "int \<Rightarrow> int option" where
  "MillibytePerSec rate = do { dcheck (rate \<le> int64_max sdiv (1000 sdiv 8)); int64 (rate * (1000 sdiv 8)) }"

definition size_div_time :: "int \<Rightarrow> int \<Rightarrow> int option" where
  "size_div_time sz duration = do { m \<leftarrow> Microbits sz; q \<leftarrow> div64 m duration; BitsPerSec q }"

definition size_div_rate :: "int \<Rightarrow> int \<Rightarrow> int option" where
  "size_div_rate sz rate = do { m \<leftarrow> Microbits sz; q \<leftarrow> div64 m rate; TimeDelta_Micros q }"

definition rate_mul_time :: "int \<Rightarrow> int \<Rightarrow> int option" where
  "rate_mul_time rate duration = do {
     microbits \<leftarrow> int64 (rate * duration);
     s \<leftarrow> int64 (microbits + 4000000);
     q \<leftarrow> div64 s 8000000;
     DataSize_Bytes q
   }"

definition rate_div_freq :: "int \<Rightarrow> int \<Rightarrow> int option" where
  "rate_div_freq rate frequency = do { m \<leftarrow> MillibytePerSec rate; q \<leftarrow> div64 m frequency; DataSize_Bytes q }"

definition rate_div_size :: "int \<Rightarrow> int \<Rightarrow> int option" where
  "rate_div_size rate sz = do { m \<leftarrow> MillibytePerSec rate; q \<leftarrow> div64 m sz; MilliHertz q }"

definition size_mul_freq :: "int \<Rightarrow> int \<Rightarrow> int option" where
  "size_mul_freq sz frequency = do {
     (if IsZero frequency then Some ()
      else do { l \<leftarrow> div64 (int64_max sdiv 8) frequency; dcheck (sz \<le> l) });
     b \<leftarrow> int64 (sz * 8);
     m \<leftarrow> int64 (b * frequency);
     s \<leftarrow> int64 (m + 500);
     q \<leftarrow> div64 s 1000;
     BitsPerSec q
   }"

definition div_time :: "int \<Rightarrow> int \<Rightarrow> int option" where
  "div_time nominator interval = do {
     dcheck (nominator \<le> int64_max sdiv (1000 * 1000000));
     dcheck (IsFinite interval);
     dcheck (\<not> IsZero interval);
     n \<leftarrow> int64 (nominator * (1000 * 1000000));
     q \<leftarrow> div64 n interval;
     MilliHertz q
   }"

definition div_freq :: "int \<Rightarrow> int \<Rightarrow> int option" where
  "div_freq nominator frequency = do {
     dcheck (nominator \<le> int64_max sdiv (1000000 * 1000));
     dcheck (IsFinite frequency);
     dcheck (\<not> IsZero frequency);
     n \<leftarrow> int64 (nominator * (1000000 * 1000));
     q \<leftarrow> div64 n frequency;
     TimeDelta_Micros q
   }"


section \<open>Rounding divisions are exact\<close>

lemma sdiv_pos: "0 \<le> a \<Longrightarrow> 0 < b \<Longrightarrow> a sdiv b = a div (b :: int)"
  by (cases "a = 0") (simp_all add: signed_divide_int_def sgn_if)

lemma smod_pos: "0 \<le> a \<Longrightarrow> 0 < b \<Longrightarrow> a smod b = a mod (b :: int)"
  by (cases "a = 0") (simp_all add: signed_modulo_int_def sgn_if)

lemma sdiv_neg: "a < 0 \<Longrightarrow> 0 < b \<Longrightarrow> a sdiv b = - ((- a) div (b :: int))"
  by (simp add: signed_divide_int_def sgn_if)

lemma smod_neg: "a < 0 \<Longrightarrow> 0 < b \<Longrightarrow> a smod b = - ((- a) mod (b :: int))"
  by (simp add: signed_modulo_int_def sgn_if)

lemma div_split:
  fixes b d :: int
  assumes "0 \<le> b" "0 < d"
  obtains q r where "b = q * d + r" "b div d = q" "b mod d = r" "0 \<le> r" "r < d" "0 \<le> q" "q \<le> q * d"
proof
  show "b = b div d * d + b mod d" by simp
  show "0 \<le> b mod d" "b mod d < d" "0 \<le> b div d" using assms by (simp_all add: pos_imp_zdiv_nonneg_iff)
  then show "b div d \<le> b div d * d" using assms mult_left_mono [of 1 d "b div d"] by simp
qed simp_all

lemma div_bounds:
  fixes a b :: int
  assumes "0 < b"
  shows "b * (a div b) \<le> a" "a < b * (a div b + 1)"
proof -
  have "b * (a div b) + a mod b = a" "0 \<le> a mod b" "a mod b < b" using assms by simp_all
  then show "b * (a div b) \<le> a" "a < b * (a div b + 1)" unfolding distrib_left mult_1_right by linarith+
qed

text \<open>\<open>DivideRoundToNearest\<close> rounds to the nearest integer, and halves towards plus infinity.\<close>

lemma DivideRoundToNearest_eq:
  assumes "in_int64 a" "0 < d"
  shows "DivideRoundToNearest a d = Some ((2 * a + d) div (2 * d))"
proof (cases "a < 0")
  case False
  then have "0 \<le> a" by simp
  from div_split [OF this assms(2)] obtain q r where qr: "a = q * d + r" "a div d = q" "a mod d = r"
    "0 \<le> r" "r < d" "0 \<le> q" "q \<le> q * d" .
  have "(d - 1) sdiv 2 < r \<longleftrightarrow> d \<le> 2 * r" using assms(2) by (simp add: sdiv_pos) linarith
  moreover have "(2 * a + d) div (2 * d) = (if d \<le> 2 * r then q + 1 else q)"
  proof -
    have e: "2 * a + d = (2 * r + d) + q * (2 * d)" using qr(1) by (simp add: algebra_simps)
    have "(2 * a + d) div (2 * d) = q + (2 * r + d) div (2 * d)"
      unfolding e using assms(2) by (subst div_mult_self1) auto
    moreover have "(2 * r + d) div (2 * d) = (if d \<le> 2 * r then 1 else 0)"
      using qr(4,5) int_div_pos_eq [of "2 * r + d" "2 * d" 1 "2 * r - d"]
      by (auto simp: div_pos_pos_trivial)
    ultimately show ?thesis by auto
  qed
  moreover have "in_int64 (if d \<le> 2 * r then q + 1 else q)"
    using assms qr False by (auto simp: in_int64_def int_range_defs)
  ultimately show ?thesis
    using False assms(2) qr by (simp add: DivideRoundToNearest_def sdiv_pos smod_pos)
next
  case True
  then have "0 \<le> - a" by simp
  from div_split [OF this assms(2)] obtain q r where qr: "- a = q * d + r" "(- a) div d = q" "(- a) mod d = r"
    "0 \<le> r" "r < d" "0 \<le> q" "q \<le> q * d" .
  have "d sdiv 2 < r \<longleftrightarrow> d < 2 * r" using assms(2) by (simp add: sdiv_pos) linarith
  moreover have "(2 * a + d) div (2 * d) = (if d < 2 * r then - q - 1 else - q)"
  proof -
    have e: "2 * a + d = (d - 2 * r) + (- q) * (2 * d)" using qr(1) by (simp add: algebra_simps)
    have "(2 * a + d) div (2 * d) = - q + (d - 2 * r) div (2 * d)"
      unfolding e using assms(2) by (subst div_mult_self1) auto
    moreover have "(d - 2 * r) div (2 * d) = (if d < 2 * r then - 1 else 0)"
      using qr(4,5) int_div_pos_eq [of "d - 2 * r" "2 * d" "-1" "3 * d - 2 * r"]
      by (auto simp: div_pos_pos_trivial)
    ultimately show ?thesis by auto
  qed
  moreover have "in_int64 (if d < 2 * r then - q - 1 else - q)"
    using assms qr True by (auto simp: in_int64_def int_range_defs)
  ultimately show ?thesis
    using True assms(2) qr by (simp add: DivideRoundToNearest_def sdiv_neg smod_neg)
qed

lemma DivideRoundUp_eq:
  assumes "in_int64 a" "0 \<le> a" "0 < d"
  shows "DivideRoundUp a d = Some ((a + d - 1) div d)"
proof -
  from div_split [OF assms(2,3)] obtain q r where qr: "a = q * d + r" "a div d = q" "a mod d = r"
    "0 \<le> r" "r < d" "0 \<le> q" "q \<le> q * d" .
  have "(a + d - 1) div d = q + (r + d - 1) div d"
    using qr(1) assms(3) div_mult_self1 [of d "r + d - 1" q] by (simp add: algebra_simps)
  moreover have "(r + d - 1) div d = (if 0 < r then 1 else 0)"
    using qr(4,5) int_div_pos_eq [of "r + d - 1" d 1 "r - 1"] by (auto simp: div_pos_pos_trivial)
  moreover have "in_int64 (q + (if 0 < r then 1 else 0))"
    using assms qr by (auto simp: in_int64_def int_range_defs)
  ultimately show ?thesis
    using assms qr by (simp add: DivideRoundUp_def sdiv_pos smod_pos)
qed


section \<open>Extended integers\<close>

datatype ext = NegInf | Fin int | PosInf

definition ext_of :: "int \<Rightarrow> ext" where
  "ext_of v = (if v = PlusInfinityVal then PosInf else if v = MinusInfinityVal then NegInf else Fin v)"

fun ext_add :: "ext \<Rightarrow> ext \<Rightarrow> ext option" where
  "ext_add (Fin a) (Fin b) = Some (Fin (a + b))"
| "ext_add PosInf NegInf = None"
| "ext_add NegInf PosInf = None"
| "ext_add PosInf _ = Some PosInf"
| "ext_add _ PosInf = Some PosInf"
| "ext_add NegInf _ = Some NegInf"
| "ext_add _ NegInf = Some NegInf"

fun ext_neg :: "ext \<Rightarrow> ext" where
  "ext_neg NegInf = PosInf"
| "ext_neg (Fin a) = Fin (- a)"
| "ext_neg PosInf = NegInf"

text \<open>What a unit type can hold.\<close>

fun ext_to_unit :: "bool \<Rightarrow> ext \<Rightarrow> int option" where
  "ext_to_unit one_sided NegInf = Some MinusInfinityVal"
| "ext_to_unit one_sided PosInf = Some PlusInfinityVal"
| "ext_to_unit one_sided (Fin x) =
     (if MinusInfinityVal < x \<and> x < PlusInfinityVal \<and> (one_sided \<longrightarrow> 0 \<le> x) then Some x else None)"

lemma FromValue_int64: "int64 x \<bind> FromValue one_sided = ext_to_unit one_sided (Fin x)"
proof (cases "in_int64 x")
  case True
  then show ?thesis by (simp add: FromValue_def dcheck_def)
next
  case False
  then show ?thesis by (auto simp: int64_def in_int64_def infinity_defs)
qed

lemma infinities_differ [simp]: "PlusInfinityVal \<noteq> MinusInfinityVal" "MinusInfinityVal \<noteq> PlusInfinityVal"
  by (simp_all add: infinity_defs)

lemmas infinite_simps = IsPlusInfinity_def IsMinusInfinity_def IsInfinite_def IsFinite_def IsZero_def

lemma unit_add_refines:
  "unit_add one_sided a b = ext_add (ext_of a) (ext_of b) \<bind> ext_to_unit one_sided"
  by (auto simp: unit_add_def ext_of_def infinite_simps FromValue_int64)

lemma unit_sub_refines:
  "unit_sub one_sided a b = ext_add (ext_of a) (ext_neg (ext_of b)) \<bind> ext_to_unit one_sided"
  by (auto simp: unit_sub_def ext_of_def infinite_simps FromValue_int64)

lemma unit_neg_refines: "unit_neg one_sided a = ext_to_unit one_sided (ext_neg (ext_of a))"
  by (auto simp: unit_neg_def unit_mul_def ext_of_def infinite_simps FromValue_int64)

lemma Timestamp_ops:
  "Timestamp_add t d = unit_add True t d" "Timestamp_sub t d = unit_sub True t d"
  "Timestamp_diff t u = unit_sub False t u"
  by (simp_all add: Timestamp_add_def unit_add_def Timestamp_sub_def unit_sub_def Timestamp_diff_def
      Timestamp_Micros_def [abs_def] TimeDelta_Micros_def [abs_def])



section \<open>Conversions\<close>

lemma le_div_mult: "0 < d \<Longrightarrow> k * d \<le> n \<Longrightarrow> k \<le> n div (d :: int)"
  using zdiv_mono1 [of "k * d" n d] by simp

lemma FromFraction_in_range:
  assumes d: "0 < d" "in_int64 d" and "one_sided \<longrightarrow> 0 \<le> v" and v: "\<bar>v\<bar> * d < 2 ^ 63 - d"
  shows "FromFraction one_sided d v = Some (v * d)"
proof -
  let ?m = "(2 :: int) ^ 63"
  have vd: "\<bar>v * d\<bar> < ?m - d" using v d(1) by (simp add: abs_mult)
  have "(v + 1) * d \<le> ?m - 1" unfolding distrib_right using vd by auto
  moreover have "(1 - v) * d \<le> ?m" unfolding left_diff_distrib using vd by auto
  ultimately have le: "v + 1 \<le> (?m - 1) div d" "1 - v \<le> ?m div d" using d(1) by (simp_all add: le_div_mult)
  have lo: "div64 MinusInfinityVal d = Some (- (?m div d))"
  proof -
    have "MinusInfinityVal sdiv d = - (?m div d)" using d(1) by (simp add: sdiv_neg sdiv_pos infinity_defs)
    moreover have "?m div d \<le> ?m" "0 \<le> ?m div d"
      using zdiv_mono2 [of ?m 1 d] d(1) by (simp_all add: pos_imp_zdiv_nonneg_iff)
    ultimately show ?thesis using d(1) by (simp add: div64_def in_int64_def int_range_defs)
  qed
  have hi: "div64 PlusInfinityVal d = Some ((?m - 1) div d)"
  proof -
    have "PlusInfinityVal sdiv d = (?m - 1) div d" using d(1) by (simp add: sdiv_pos infinity_defs)
    moreover have "(?m - 1) div d \<le> ?m - 1" "0 \<le> (?m - 1) div d"
      using zdiv_mono2 [of "?m - 1" 1 d] d(1) by (simp_all add: pos_imp_zdiv_nonneg_iff)
    ultimately show ?thesis using d(1) by (simp add: div64_def in_int64_def int_range_defs)
  qed
  have "in_int64 (v * d)" using vd d(1) by (auto simp: in_int64_def int_range_defs)
  then show ?thesis
    unfolding FromFraction_def lo hi using le assms(3) by (simp add: dcheck_def)
qed

lemma ToFraction_multiple:
  assumes "0 < d" "in_int64 (v * d)" "IsFinite (v * d)"
  shows "ToFraction d (v * d) = Some v"
proof -
  have "(2 * (v * d) + d) div (2 * d) = v"
    using assms(1) int_div_pos_eq [of "2 * (v * d) + d" "2 * d" v d] by (simp add: algebra_simps)
  then show ?thesis using assms by (simp add: ToFraction_def DivideRoundToNearest_eq)
qed


section \<open>Properties\<close>

text \<open>
  C8: addition, subtraction and negation of relative units (\<open>TimeDelta\<close>, \<open>DataSize\<close>, \<open>DataRate\<close>, \<open>Frequency\<close>),
  addition of a time stamp and a duration, and the difference of time stamps are those of the integers
  extended with two infinities: the code returns exactly when the extended result exists (it is not
  an infinity minus itself) and the unit can hold it, and then returns that result.
\<close>

theorem unit_arithmetic_refines:
  "unit_add one_sided a b = ext_add (ext_of a) (ext_of b) \<bind> ext_to_unit one_sided \<and>
   unit_sub one_sided a b = ext_add (ext_of a) (ext_neg (ext_of b)) \<bind> ext_to_unit one_sided \<and>
   unit_neg one_sided a = ext_to_unit one_sided (ext_neg (ext_of a)) \<and>
   Timestamp_add t d = ext_add (ext_of t) (ext_of d) \<bind> ext_to_unit True \<and>
   Timestamp_sub t d = ext_add (ext_of t) (ext_neg (ext_of d)) \<bind> ext_to_unit True \<and>
   Timestamp_diff t u = ext_add (ext_of t) (ext_neg (ext_of u)) \<bind> ext_to_unit False"
  by (simp add: Timestamp_ops unit_add_refines unit_sub_refines unit_neg_refines)

text \<open>
  \<open>DivideRoundToNearest\<close> returns the integer nearest to the quotient, for either sign of the
  dividend, with halves rounded towards plus infinity, and never overflows; \<open>DivideRoundUp\<close> is the
  ceiling of the quotient.
\<close>

theorem divide_round_spec:
  assumes "in_int64 a" and "0 < d"
  shows "\<exists>q. DivideRoundToNearest a d = Some q \<and> - d < 2 * (a - q * d) + 1 \<and> 2 * (a - q * d) < d \<and>
    (0 \<le> a \<longrightarrow> (\<exists>u. DivideRoundUp a d = Some u \<and> a \<le> u * d \<and> (u - 1) * d < a))"
proof -
  let ?q = "(2 * a + d) div (2 * d)" and ?u = "(a + d - 1) div d"
  have "2 * d * ?q \<le> 2 * a + d" "2 * a + d < 2 * d * (?q + 1)"
    using assms(2) div_bounds [of "2 * d" "2 * a + d"] by simp_all
  moreover have "d * ?u \<le> a + d - 1" "a + d - 1 < d * (?u + 1)"
    using assms(2) div_bounds [of d "a + d - 1"] by simp_all
  ultimately show ?thesis
    using assms by (simp add: DivideRoundToNearest_eq DivideRoundUp_eq algebra_simps)
qed

theorem divide_round_spec_witness:
  "\<exists>q. DivideRoundToNearest (-7) 2 = Some q \<and> - 2 < 2 * (-7 - q * 2) + 1 \<and> 2 * (-7 - q * 2) < (2 :: int) \<and>
    (0 \<le> (-7 :: int) \<longrightarrow> (\<exists>u. DivideRoundUp (-7) 2 = Some u \<and> -7 \<le> u * 2 \<and> (u - 1) * 2 < -7))"
  by (rule divide_round_spec) (simp_all add: in_int64_def int_range_defs)

text \<open>
  A value given in a coarser unit (seconds, milliseconds, kilobits per second, hertz) is stored
  without overflow and is read back unchanged in that unit, as long as it is in the range of the
  type by one step of the coarser unit.
\<close>

theorem unit_fraction_round_trip:
  assumes "0 < d" and "in_int64 d" and "one_sided \<longrightarrow> 0 \<le> v" and "\<bar>v\<bar> * d < 2 ^ 63 - d"
  shows "\<exists>u. FromFraction one_sided d v = Some u \<and> IsFinite u \<and> ToFraction d u = Some v"
proof -
  have vd: "\<bar>v * d\<bar> < 2 ^ 63 - d" using assms(1,4) by (simp add: abs_mult)
  then have fin: "IsFinite (v * d)" "in_int64 (v * d)"
    using assms(1) by (auto simp: infinite_simps infinity_defs in_int64_def)
  then show ?thesis
    using FromFraction_in_range [OF assms] ToFraction_multiple [OF assms(1) fin(2,1)] by simp
qed

theorem unit_fraction_round_trip_witness:
  "\<exists>u. FromFraction False 1000 (-42) = Some u \<and> IsFinite u \<and> ToFraction 1000 u = Some (-42)"
  by (rule unit_fraction_round_trip) (simp_all add: in_int64_def int_range_defs)

text \<open>
  Rounding to a resolution. For non-negative finite values (with room for one more step)
  \<open>RoundDownTo\<close>, \<open>RoundUpTo\<close> and \<open>RoundTo\<close> return the multiple of the resolution below, above and
  nearest. The division truncates, so a negative value between \<open>-resolution\<close> and 0 is rounded
  \<open>down\<close> to 0.
\<close>

theorem unit_rounding_spec:
  assumes "0 \<le> v" and "0 < res" and "v + res < PlusInfinityVal"
  shows "\<exists>k l m. RoundDownTo one_sided v res = Some (k * res) \<and> k * res \<le> v \<and> v < (k + 1) * res \<and>
      RoundUpTo one_sided v res = Some (l * res) \<and> v \<le> l * res \<and> (l - 1) * res < v \<and>
      RoundTo one_sided v res = Some (m * res) \<and> 2 * \<bar>v - m * res\<bar> \<le> res \<and>
      (\<forall>w. - res < w \<and> w < 0 \<longrightarrow> RoundDownTo one_sided w res = Some 0)"
proof -
  let ?k = "v div res" and ?l = "(v + res - 1) div res" and ?m = "(v + res div 2) div res"
  have big: "v + res < 2 ^ 63 - 1" using assms(3) by (simp add: infinity_defs)
  have fin: "IsFinite v" "IsFinite res" using assms big by (auto simp: infinite_simps infinity_defs)
  have mul: "div64 x res = Some (x div res) \<and> unit_mul one_sided (x div res) res = Some (x div res * res)"
    if "0 \<le> x" "x < 2 ^ 63 - 1" for x
  proof -
    have q: "0 \<le> x div res" "x div res * res \<le> x" "x div res \<le> x div res * res"
      using that(1) assms(2) div_bounds(1) [of res x] mult_left_mono [of 1 res "x div res"]
      by (simp_all add: pos_imp_zdiv_nonneg_iff mult.commute)
    then have "in_int64 (x div res)" "in_int64 (x div res * res)"
      using that by (auto simp: in_int64_def int_range_defs)
    moreover have "FromValue one_sided (x div res * res) = Some (x div res * res)"
      using q that calculation(2) by (auto simp: FromValue_def dcheck_def infinity_defs)
    ultimately show ?thesis using that(1) assms(2) by (simp add: div64_def sdiv_pos unit_mul_def)
  qed
  have h: "res div 2 \<le> res" "0 \<le> res div 2" "2 * (res div 2) \<le> res" "res \<le> 2 * (res div 2) + 1"
    using assms(2) by auto
  then have h2: "div64 res 2 = Some (res div 2)"
    using assms big by (auto simp: div64_def sdiv_pos int64_def in_int64_def int_range_defs)
  have "RoundDownTo one_sided v res = Some (?k * res)"
    using mul [of v] assms big fin by (simp add: RoundDownTo_def dcheck_def)
  moreover have "RoundUpTo one_sided v res = Some (?l * res)"
    using mul [of "v + res - 1"] assms big fin
    by (simp add: RoundUpTo_def dcheck_def in_int64_def int_range_defs)
  moreover have "RoundTo one_sided v res = Some (?m * res)"
    using mul [of "v + res div 2"] assms big fin h h2
    by (simp add: RoundTo_def dcheck_def in_int64_def int_range_defs)
  moreover have "?k * res \<le> v" "v < (?k + 1) * res" "v \<le> ?l * res" "(?l - 1) * res < v"
    using div_bounds [OF assms(2), of v] div_bounds [OF assms(2), of "v + res - 1"]
    unfolding mult.commute [of res] distrib_right left_diff_distrib mult_1 by linarith+
  moreover have "2 * \<bar>v - ?m * res\<bar> \<le> res"
  proof -
    define n where "n = ?m * res"
    define g where "g = res div 2"
    have "n \<le> v + g" "v + g < n + res" "2 * g \<le> res" "res \<le> 2 * g + 1"
      using div_bounds [OF assms(2), of "v + res div 2"] h(3,4)
      by (simp_all add: n_def g_def mult.commute [of res] distrib_right)
    then show ?thesis unfolding n_def [symmetric] by (cases "v < n") simp_all
  qed
  moreover have "RoundDownTo one_sided w res = Some 0" if "- res < w" "w < 0" for w
  proof -
    have "w sdiv res = 0" using that by (simp add: sdiv_neg div_pos_pos_trivial)
    moreover have "IsFinite w" using that big assms(1) by (auto simp: infinite_simps infinity_defs)
    ultimately show ?thesis
      using assms(2) fin
      by (simp add: RoundDownTo_def div64_def unit_mul_def FromValue_def dcheck_def in_int64_def infinity_defs)
  qed
  ultimately show ?thesis by blast
qed

theorem unit_rounding_spec_witness:
  "\<exists>k l m. RoundDownTo False 17 5 = Some (k * 5) \<and> k * 5 \<le> (17 :: int) \<and> 17 < (k + 1) * 5 \<and>
      RoundUpTo False 17 5 = Some (l * 5) \<and> 17 \<le> l * 5 \<and> (l - 1) * 5 < 17 \<and>
      RoundTo False 17 5 = Some (m * 5) \<and> 2 * \<bar>17 - m * 5\<bar> \<le> 5 \<and>
      (\<forall>w. - 5 < w \<and> w < 0 \<longrightarrow> RoundDownTo False w 5 = Some 0)"
  by (rule unit_rounding_spec) (simp_all add: infinity_defs)

text \<open>
  A data size sent at the rate computed from it. Dividing a size by a duration of at most four
  seconds and multiplying the rate by the same duration gives the size back exactly, although the
  rate is truncated to whole bits per second.
\<close>

theorem size_rate_round_trip:
  assumes "0 \<le> sz" and "sz * 8000000 + 4000000 \<le> int64_max" and "0 < dur" and "dur \<le> 4000000"
  shows "\<exists>rate. size_div_time sz dur = Some rate \<and> 0 \<le> rate \<and> rate_mul_time rate dur = Some sz"
proof -
  define m where "m = sz * 8000000"
  define rate where "rate = m div dur"
  have m: "0 \<le> m" "m + 4000000 \<le> 2 ^ 63 - 1" using assms(1,2) by (simp_all add: m_def int_range_defs)
  have "sz \<le> int64_max sdiv 8000000" using assms(1,2) by (simp add: int_range_defs sdiv_pos)
  then have mb: "Microbits sz = Some m"
    using m by (simp add: Microbits_def dcheck_def m_def [symmetric] in_int64_def int_range_defs)
  have r: "rate * dur \<le> m" "m < rate * dur + dur" "0 \<le> rate" "rate \<le> rate * dur"
    using div_bounds [OF assms(3), of m] m(1) assms(3) mult_left_mono [of 1 dur rate]
    by (simp_all add: rate_def algebra_simps pos_imp_zdiv_nonneg_iff)
  have "BitsPerSec rate = Some rate"
    using r m by (simp add: BitsPerSec_def FromValue_def dcheck_def in_int64_def infinity_defs)
  moreover have "div64 m dur = Some rate"
    using r m assms(3) by (simp add: div64_def sdiv_pos rate_def [symmetric] in_int64_def int_range_defs)
  ultimately have rate: "size_div_time sz dur = Some rate" by (simp add: size_div_time_def mb)
  have q: "(rate * dur + 4000000) div 8000000 = sz"
    using r assms(4) by (intro int_div_pos_eq [where r = "rate * dur + 4000000 - m"]) (simp_all add: m_def)
  have "div64 (rate * dur + 4000000) 8000000 = Some sz"
    using r m q assms(1) by (simp add: div64_def sdiv_pos in_int64_def int_range_defs m_def)
  moreover have "DataSize_Bytes sz = Some sz"
    using assms(1) m by (simp add: DataSize_Bytes_def FromValue_def dcheck_def in_int64_def infinity_defs m_def)
  moreover have "in_int64 (rate * dur)" "in_int64 (rate * dur + 4000000)"
    using r m by (simp_all add: in_int64_def int_range_defs)
  ultimately have "rate_mul_time rate dur = Some sz" by (simp add: rate_mul_time_def)
  with rate r(3) show ?thesis by blast
qed

theorem size_rate_round_trip_witness:
  "\<exists>rate. size_div_time 1500 33333 = Some rate \<and> 0 \<le> rate \<and> rate_mul_time rate 33333 = Some 1500"
  by (rule size_rate_round_trip) (simp_all add: int_range_defs)

text \<open>
  \<open>TimeDelta::Abs\<close> is the absolute value, except for \<open>MinusInfinity\<close> (and the value next to it):
  negating the smallest \<open>int64_t\<close> overflows.
\<close>

theorem TimeDelta_Abs_spec:
  assumes "in_int64 v"
  shows "TimeDelta_Abs v = (if v \<le> MinusInfinityVal + 1 then None else Some \<bar>v\<bar>)"
  using assms
  by (auto simp: TimeDelta_Abs_def TimeDelta_Micros_def int64_def FromValue_def dcheck_def in_int64_def infinity_defs)

theorem TimeDelta_Abs_spec_witness:
  "TimeDelta_Abs (-5) = (if -5 \<le> MinusInfinityVal + 1 then None else Some \<bar>-5\<bar>)"
  by (rule TimeDelta_Abs_spec) (simp add: in_int64_def int_range_defs)

end
