(* ===== verification/Numeric.thy ===== *)
theory Numeric
  imports Octk_Prelude
begin

text \<open>
  \<open>utils::gcd\<close>, \<open>utils::gcd_iterative\<close>, \<open>utils::lcm\<close> and \<open>utils::unsigned_difference\<close> of
  \<open>src/libs/core/source/numerics/octk_numeric.hpp\<close> for \<open>int\<close>. Operations whose result an \<open>int\<close>
  cannot hold are undefined and are \<^term>\<open>None\<close>.
\<close>

section \<open>Checked 32-bit arithmetic\<close>

definition int32 :: "int \<Rightarrow> int option" where
  "int32 x = (if in_int32 x then Some x else None)"

definition div32 :: "int \<Rightarrow> int \<Rightarrow> int option" where
  "div32 a b = (if b = 0 then None else int32 (a sdiv b))"

definition mod32 :: "int \<Rightarrow> int \<Rightarrow> int option" where
  "mod32 a b = (if b = 0 \<or> a = int32_min \<and> b = -1 then None else Some (a smod b))"

definition abs32 :: "int \<Rightarrow> int option" where
  "abs32 a = int32 \<bar>a\<bar>"

lemma int32_Some [simp]: "in_int32 x \<Longrightarrow> int32 x = Some x"
  by (simp add: int32_def)

lemma int32_eq_Some_iff: "int32 x = Some y \<longleftrightarrow> in_int32 x \<and> y = x"
  by (auto simp: int32_def)

lemma div32_nonneg: "0 \<le> a \<Longrightarrow> 0 < b \<Longrightarrow> in_int32 a \<Longrightarrow> div32 a b = Some (a div b)"
  using div_le_self [of b a] by (simp add: div32_def sdiv_nonneg in_int32_def int_range_defs)


section \<open>Operations\<close>

lemma abs_smod_less: "b \<noteq> 0 \<Longrightarrow> \<bar>a smod b\<bar> < \<bar>b :: int\<bar>"
  by (cases "a = 0") (auto simp: signed_modulo_int_def abs_mult sgn_if)

function gcd_c :: "int \<Rightarrow> int \<Rightarrow> int option" where
  "gcd_c a b =
     (if b = 0 then Some a
      else do { r \<leftarrow> mod32 a b; g \<leftarrow> gcd_c b r; abs32 g })"
  by pat_completeness auto
termination
  by (relation "measure (\<lambda>(a, b). nat \<bar>b\<bar>)")
    (auto simp: mod32_def abs_smod_less split: if_splits)

declare gcd_c.simps [simp del]

function gcd_iterative_loop :: "int \<Rightarrow> int \<Rightarrow> int option" where
  "gcd_iterative_loop a b =
     (if b \<noteq> 0 then do { r \<leftarrow> mod32 a b; gcd_iterative_loop b r } else Some a)"
  by pat_completeness auto
termination
  by (relation "measure (\<lambda>(a, b). nat \<bar>b\<bar>)")
    (auto simp: mod32_def abs_smod_less split: if_splits)

declare gcd_iterative_loop.simps [simp del]

definition gcd_iterative :: "int \<Rightarrow> int \<Rightarrow> int option" where
  "gcd_iterative a b = do { g \<leftarrow> gcd_iterative_loop a b; abs32 g }"

definition lcm_c :: "int \<Rightarrow> int \<Rightarrow> int option" where
  "lcm_c m n =
     (if m = 0 \<or> n = 0 then Some 0
      else do {
        a \<leftarrow> abs32 m;
        b \<leftarrow> abs32 n;
        g \<leftarrow> gcd_c a b;
        q \<leftarrow> div32 a g;
        int32 (q * b)
      })"

text \<open>\<open>unsigned_difference\<close> of two \<open>int\<close>, computed modulo \<open>2 ^ 32\<close>.\<close>

definition unsigned_difference :: "int \<Rightarrow> int \<Rightarrow> u32 option" where
  "unsigned_difference x y = do { dcheck (y \<le> x); Some (of_int x - of_int y) }"


section \<open>The greatest common divisor\<close>

lemma gcd_smod: "gcd b (a smod b) = gcd a (b :: int)"
proof -
  have "a smod b = a - a sdiv b * b" by (metis minus_sdiv_mult_eq_smod)
  then have "gcd b (a smod b) = gcd b (a + (- (a sdiv b)) * b)" by simp
  also have "\<dots> = gcd b a" by (metis add.commute gcd_add_mult)
  finally show ?thesis by (simp add: gcd.commute)
qed

lemma smod_range: "in_int32 b \<Longrightarrow> b \<noteq> 0 \<Longrightarrow> int32_min < a smod b \<and> in_int32 (a smod b)"
  using abs_smod_less [of b a] by (auto simp: in_int32_def int_range_defs)

lemma gcd_c_correct:
  assumes "in_int32 a" "in_int32 b" "int32_min < a" "int32_min < b"
  shows "gcd_c a b = Some (if b = 0 then a else gcd a b)"
  using assms
proof (induction a b rule: gcd_c.induct)
  case (1 a b)
  show ?case
  proof (cases "b = 0")
    case True
    then show ?thesis by (simp add: gcd_c.simps)
  next
    case False
    then have m: "mod32 a b = Some (a smod b)" using 1(4) by (simp add: mod32_def)
    have r: "int32_min < a smod b" "in_int32 (a smod b)" using smod_range [OF 1(3) False] by simp_all
    have g: "\<bar>if a smod b = 0 then b else gcd b (a smod b)\<bar> = gcd a b"
      using gcd_smod [of b a] by auto
    have "gcd a b \<le> \<bar>b\<bar>" using False dvd_imp_le_int [of b "gcd a b"] by simp
    moreover have "0 \<le> gcd a b" by simp
    ultimately have "in_int32 (gcd a b)" using 1(3,5) unfolding in_int32_def int_range_defs by linarith
    then have "abs32 (if a smod b = 0 then b else gcd b (a smod b)) = Some (gcd a b)"
      unfolding abs32_def g by simp
    moreover have "gcd_c b (a smod b) = Some (if a smod b = 0 then b else gcd b (a smod b))"
      by (rule 1(1) [OF False m 1(3) r(2) 1(5) r(1)])
    ultimately show ?thesis using False m by (subst gcd_c.simps) simp
  qed
qed

lemma lcm_as_product: "\<bar>a\<bar> div gcd a b * \<bar>b\<bar> = lcm a (b :: int)"
proof (cases "gcd a b = 0")
  case False
  have "\<bar>a\<bar> div gcd a b * \<bar>b\<bar> = \<bar>a\<bar> * \<bar>b\<bar> div gcd a b"
    by (rule dvd_div_mult) simp
  moreover have "\<bar>a\<bar> * \<bar>b\<bar> = lcm a b * gcd a b"
    using prod_gcd_lcm_int [of a b] by (simp only: mult.commute)
  ultimately show ?thesis
    using False by (simp only: nonzero_mult_div_cancel_right simp_thms)
qed simp

lemma gcd_iterative_loop_correct:
  assumes "in_int32 a" "in_int32 b" "int32_min < a" "int32_min < b"
  shows "\<exists>g. gcd_iterative_loop a b = Some g \<and> \<bar>g\<bar> = gcd a b \<and> in_int32 g \<and> int32_min < g"
  using assms
proof (induction a b rule: gcd_iterative_loop.induct)
  case (1 a b)
  show ?case
  proof (cases "b = 0")
    case True
    then show ?thesis using 1(2,4) by (simp add: gcd_iterative_loop.simps)
  next
    case False
    then have m: "mod32 a b = Some (a smod b)" using 1(4) by (simp add: mod32_def)
    have r: "int32_min < a smod b" "in_int32 (a smod b)" using smod_range [OF 1(3) False] by simp_all
    from 1(1) [OF False m 1(3) r(2) 1(5) r(1)] show ?thesis
      using False m gcd_smod [of b a] by (subst gcd_iterative_loop.simps) simp
  qed
qed

lemma lcm_c_correct:
  assumes "in_int32 a" "in_int32 b" "int32_min < a" "int32_min < b"
  shows "lcm_c a b = int32 (lcm a b)"
proof (cases "a = 0 \<or> b = 0")
  case True
  then show ?thesis by (auto simp: lcm_c_def in_int32_def int_range_defs)
next
  case False
  have r: "in_int32 \<bar>a\<bar>" "in_int32 \<bar>b\<bar>" "int32_min < \<bar>a\<bar>" "int32_min < \<bar>b\<bar>"
    using assms by (auto simp: in_int32_def int_range_defs)
  have "gcd_c \<bar>a\<bar> \<bar>b\<bar> = Some (gcd a b)" using gcd_c_correct [OF r] False by simp
  moreover have "div32 \<bar>a\<bar> (gcd a b) = Some (\<bar>a\<bar> div gcd a b)"
    using False r(1) by (intro div32_nonneg) simp_all
  moreover have "abs32 a = Some \<bar>a\<bar>" "abs32 b = Some \<bar>b\<bar>" using r(1,2) by (simp_all only: abs32_def int32_Some)
  ultimately show ?thesis using False by (simp only: lcm_c_def if_False Option.bind_lunit lcm_as_product)
qed

text \<open>
  \<open>utils::gcd_iterative\<close> is the greatest common divisor of any two \<open>int\<close> other than the smallest
  one; \<open>utils::gcd\<close> is it too unless its second argument is 0, where it returns the first argument
  with its sign (\<open>std::gcd\<close>, which it is declared to be like, returns the absolute value);
  \<open>utils::lcm\<close> is the least common multiple if an \<open>int\<close> can hold it, and overflows if not.
\<close>

theorem gcd_lcm_spec:
  assumes "in_int32 a" "in_int32 b" "int32_min < a" "int32_min < b"
  shows "gcd_iterative a b = Some (gcd a b) \<and> gcd_c a b = Some (if b = 0 then a else gcd a b) \<and>
    lcm_c a b = (if in_int32 (lcm a b) then Some (lcm a b) else None)"
proof (intro conjI)
  obtain g where g: "gcd_iterative_loop a b = Some g" "\<bar>g\<bar> = gcd a b" "in_int32 g" "int32_min < g"
    using gcd_iterative_loop_correct [OF assms] by blast
  then have "in_int32 \<bar>g\<bar>" by (auto simp: in_int32_def int_range_defs)
  then show "gcd_iterative a b = Some (gcd a b)" using g by (simp add: gcd_iterative_def abs32_def)
  show "gcd_c a b = Some (if b = 0 then a else gcd a b)" by (rule gcd_c_correct [OF assms])
  show "lcm_c a b = (if in_int32 (lcm a b) then Some (lcm a b) else None)"
    using lcm_c_correct [OF assms] by (simp only: int32_def)
qed

theorem gcd_lcm_spec_witness:
  "gcd_iterative (-12) 18 = Some 6 \<and> gcd_c (-12) 18 = Some 6 \<and> lcm_c (-12) 18 = Some 36"
proof -
  have "gcd (-12) 18 = (6 :: int)" and "lcm (-12) 18 = (36 :: int)" by code_simp+
  then show ?thesis
    using gcd_lcm_spec [of "-12" 18] by (simp add: in_int32_def int_range_defs)
qed

end
