(* ===== verification/SafeNumerics.thy ===== *)
theory SafeNumerics
  imports Octk_Prelude
begin

text \<open>
  The mixed-type integer helpers of \<open>src/libs/core/source/numerics\<close>: \<open>octk_safe_compare.hpp\<close>
  (\<open>SafeEq\<close>, \<open>SafeLt\<close>, ...), \<open>octk_safe_conversions.hpp\<close> (\<open>RangeCheck\<close>, \<open>saturated_cast\<close>) and
  \<open>octk_safe_minmax.hpp\<close> (\<open>SafeMin\<close>, \<open>SafeMax\<close>, \<open>SafeClamp\<close>).

  The templates compute with types as much as with values. A type is therefore a value of \<open>ctype\<close>
  here, the template specialisations are functions on it, and a number is an \<open>int\<close> beside its
  type. The rules of the language that the templates exist to tame are written out: \<open>static_cast\<close>
  is reduction modulo the width, and a comparison converts both sides to their common type first.
  The model is that of a platform with 8-byte pointers; the floating-point specialisations are not
  modelled, and an enum argument is a value of its underlying type.
\<close>

section \<open>Integer types of the language\<close>

datatype ctype = Int8 | Int16 | Int32 | Int64 | UInt8 | UInt16 | UInt32 | UInt64

fun sizeof :: "ctype \<Rightarrow> nat" where
  "sizeof Int8 = 1" | "sizeof Int16 = 2" | "sizeof Int32 = 4" | "sizeof Int64 = 8"
| "sizeof UInt8 = 1" | "sizeof UInt16 = 2" | "sizeof UInt32 = 4" | "sizeof UInt64 = 8"

fun is_signed :: "ctype \<Rightarrow> bool" where
  "is_signed Int8 = True" | "is_signed Int16 = True" | "is_signed Int32 = True" | "is_signed Int64 = True"
| "is_signed _ = False"

definition lowest :: "ctype \<Rightarrow> int" where
  "lowest t = (if is_signed t then - (2 ^ (8 * sizeof t - 1)) else 0)"

definition highest :: "ctype \<Rightarrow> int" where
  "highest t = (if is_signed t then 2 ^ (8 * sizeof t - 1) - 1 else 2 ^ (8 * sizeof t) - 1)"

definition has_type :: "ctype \<Rightarrow> int \<Rightarrow> bool" where
  "has_type t v \<longleftrightarrow> lowest t \<le> v \<and> v \<le> highest t"

definition static_cast :: "ctype \<Rightarrow> int \<Rightarrow> int" where
  "static_cast t v = (v - lowest t) mod 2 ^ (8 * sizeof t) + lowest t"

definition promote :: "ctype \<Rightarrow> ctype" where
  "promote t = (if sizeof t < 4 then Int32 else t)"

definition make_unsigned :: "ctype \<Rightarrow> ctype" where
  "make_unsigned t =
     (if sizeof t = 1 then UInt8 else if sizeof t = 2 then UInt16 else if sizeof t = 4 then UInt32 else UInt64)"

text \<open>The usual arithmetic conversions.\<close>

definition arith_conv :: "ctype \<Rightarrow> ctype \<Rightarrow> ctype" where
  "arith_conv t1 t2 =
     (let p = promote t1; q = promote t2
      in if is_signed p = is_signed q then (if sizeof p < sizeof q then q else p)
         else let s = (if is_signed p then p else q); u = (if is_signed p then q else p)
              in if sizeof s \<le> sizeof u then u else s)"

lemmas type_defs = lowest_def highest_def has_type_def promote_def make_unsigned_def

lemma static_cast_exact: "has_type t v \<Longrightarrow> static_cast t v = v"
  by (cases t) (simp_all add: static_cast_def type_defs)

lemma has_type_static_cast [simp]: "has_type t (static_cast t v)"
proof -
  have "0 \<le> (v - lowest t) mod 2 ^ (8 * sizeof t)" "(v - lowest t) mod 2 ^ (8 * sizeof t) < 2 ^ (8 * sizeof t)"
    by simp_all
  moreover have "highest t = lowest t + 2 ^ (8 * sizeof t) - 1" by (cases t) (simp_all add: type_defs)
  ultimately show ?thesis unfolding has_type_def static_cast_def by linarith
qed

lemma has_type_promote: "has_type t v \<Longrightarrow> has_type (promote t) v"
  by (cases t) (simp_all add: type_defs)

lemma has_type_limits [simp]: "has_type t (lowest t)" "has_type t (highest t)"
  by (cases t; simp add: type_defs)+


section \<open>Comparison\<close>

datatype cmp_op = EqOp | NeOp | LtOp | LeOp | GtOp | GeOp

fun op_rel :: "cmp_op \<Rightarrow> int \<Rightarrow> int \<Rightarrow> bool" where
  "op_rel EqOp a b \<longleftrightarrow> a = b"
| "op_rel NeOp a b \<longleftrightarrow> a \<noteq> b"
| "op_rel LtOp a b \<longleftrightarrow> a < b"
| "op_rel LeOp a b \<longleftrightarrow> a \<le> b"
| "op_rel GtOp a b \<longleftrightarrow> b < a"
| "op_rel GeOp a b \<longleftrightarrow> b \<le> a"

text \<open>\<open>name##Op::Op(a, b)\<close>: the built-in comparison of a \<open>t1\<close> with a \<open>t2\<close>.\<close>

definition Op :: "cmp_op \<Rightarrow> ctype \<Rightarrow> int \<Rightarrow> ctype \<Rightarrow> int \<Rightarrow> bool" where
  "Op f t1 a t2 b = (let t = arith_conv t1 t2 in op_rel f (static_cast t a) (static_cast t b))"

definition LargerIntImpl :: "nat \<Rightarrow> ctype option" where
  "LargerIntImpl n = (if n = 1 then Some Int16 else if n = 2 then Some Int32 else if n = 4 then Some Int64 else None)"

definition LargerInt :: "ctype \<Rightarrow> ctype \<Rightarrow> ctype option" where
  "LargerInt t1 t2 = LargerIntImpl (if sizeof t1 < sizeof t2 \<or> sizeof t1 < 8 then sizeof t1 else 0)"

definition makeUnsigned :: "ctype \<Rightarrow> int \<Rightarrow> int" where
  "makeUnsigned t a = static_cast (make_unsigned t) a"

text \<open>The five overloads, in the order of the header. The literals of the last two are \<open>int\<close>s.\<close>

definition cmp :: "cmp_op \<Rightarrow> ctype \<Rightarrow> int \<Rightarrow> ctype \<Rightarrow> int \<Rightarrow> bool" where
  "cmp f t1 a t2 b =
     (if is_signed t1 = is_signed t2 then Op f t1 a t2 b
      else if is_signed t1 then
        (case LargerInt t2 t1 of
           Some l \<Rightarrow> Op f t1 a l (static_cast l b)
         | None \<Rightarrow> if a < 0 then Op f Int32 (-1) Int32 0
                   else Op f (make_unsigned t1) (makeUnsigned t1 a) t2 b)
      else
        (case LargerInt t1 t2 of
           Some l \<Rightarrow> Op f l (static_cast l a) t2 b
         | None \<Rightarrow> if b < 0 then Op f Int32 0 Int32 (-1)
                   else Op f t1 a (make_unsigned t2) (makeUnsigned t2 b)))"

text \<open>\<open>SafeEq\<close>, \<open>SafeNe\<close>, \<open>SafeLt\<close>, \<open>SafeLe\<close>, \<open>SafeGt\<close> and \<open>SafeGe\<close>; the unary plus promotes.\<close>

definition Safe :: "cmp_op \<Rightarrow> ctype \<Rightarrow> int \<Rightarrow> ctype \<Rightarrow> int \<Rightarrow> bool" where
  "Safe f t1 a t2 b = cmp f (promote t1) (static_cast (promote t1) a) (promote t2) (static_cast (promote t2) b)"

lemma Op_exact:
  "has_type (arith_conv t1 t2) a \<Longrightarrow> has_type (arith_conv t1 t2) b \<Longrightarrow> Op f t1 a t2 b = op_rel f a b"
  by (simp add: Op_def static_cast_exact)

lemma arith_conv_same_sign:
  assumes "is_signed t1 = is_signed t2" "has_type t1 a" "has_type t2 b"
  shows "has_type (arith_conv t1 t2) a \<and> has_type (arith_conv t1 t2) b"
  using assms by (cases t1; cases t2; simp add: arith_conv_def type_defs)

lemma LargerInt_holds: "LargerInt t u = Some l \<Longrightarrow> has_type t v \<Longrightarrow> has_type l v \<and> is_signed l"
  by (cases t) (auto simp: LargerInt_def LargerIntImpl_def type_defs split: if_splits)

lemma make_unsigned_holds:
  "has_type t v \<Longrightarrow> 0 \<le> v \<Longrightarrow> has_type (make_unsigned t) v \<and> \<not> is_signed (make_unsigned t)"
  by (cases t) (simp_all add: type_defs)

lemma op_rel_sign: "a < 0 \<Longrightarrow> 0 \<le> b \<Longrightarrow> op_rel f a b = op_rel f (-1) 0 \<and> op_rel f b a = op_rel f 0 (-1)"
  by (cases f) auto

lemma unsigned_nonneg: "has_type t v \<Longrightarrow> \<not> is_signed t \<Longrightarrow> 0 \<le> v"
  by (simp add: has_type_def lowest_def)

lemma Op_literals [simp]: "Op f Int32 (-1) Int32 0 = op_rel f (-1) 0" "Op f Int32 0 Int32 (-1) = op_rel f 0 (-1)"
  by (intro Op_exact; simp add: arith_conv_def type_defs)+

lemma cmp_exact:
  assumes "has_type t1 a" "has_type t2 b"
  shows "cmp f t1 a t2 b = op_rel f a b"
proof -
  note conv = Op_exact [OF conjunct1 conjunct2, OF arith_conv_same_sign arith_conv_same_sign]
  consider "is_signed t1 = is_signed t2" | "is_signed t1" "\<not> is_signed t2" | "\<not> is_signed t1" "is_signed t2"
    by blast
  then show ?thesis
  proof cases
    case 1
    then show ?thesis using assms by (simp add: cmp_def conv)
  next
    case 2
    then show ?thesis
      using assms LargerInt_holds [of t2 t1 _ b] make_unsigned_holds [of t1 a] op_rel_sign [of a b f]
        unsigned_nonneg [of t2 b]
      by (auto simp: cmp_def conv static_cast_exact makeUnsigned_def split: option.split)
  next
    case 3
    then show ?thesis
      using assms LargerInt_holds [of t1 t2 _ a] make_unsigned_holds [of t2 b] op_rel_sign [of b a f]
        unsigned_nonneg [of t1 a]
      by (auto simp: cmp_def conv static_cast_exact makeUnsigned_def split: option.split)
  qed
qed

lemma Safe_exact: "has_type t1 a \<Longrightarrow> has_type t2 b \<Longrightarrow> Safe f t1 a t2 b = op_rel f a b"
  by (simp add: Safe_def cmp_exact static_cast_exact has_type_promote)


section \<open>Conversion\<close>

datatype DstRange = OVERLAPS_RANGE | CONTAINS_RANGE

datatype RangeCheckResult = TYPE_VALID | TYPE_UNDERFLOW | TYPE_OVERFLOW | TYPE_INVALID

text \<open>\<open>BASE_NUMERIC_RANGE_CHECK_RESULT\<close>: the enumerators are 0, 1, 2 and 3, joined by \<open>|\<close>.\<close>

definition RANGE_CHECK_RESULT :: "bool \<Rightarrow> bool \<Rightarrow> RangeCheckResult" where
  "RANGE_CHECK_RESULT is_in_upper_bound is_in_lower_bound =
     (if is_in_upper_bound then (if is_in_lower_bound then TYPE_VALID else TYPE_UNDERFLOW)
      else (if is_in_lower_bound then TYPE_OVERFLOW else TYPE_INVALID))"

definition max_exponent :: "ctype \<Rightarrow> nat" where
  "max_exponent t = (if is_signed t then 8 * sizeof t - 1 else 8 * sizeof t)"

definition StaticRangeCheck :: "ctype \<Rightarrow> ctype \<Rightarrow> DstRange" where
  "StaticRangeCheck dst src =
     (if is_signed dst then
        (if is_signed src then (if max_exponent src \<le> max_exponent dst then CONTAINS_RANGE else OVERLAPS_RANGE)
         else (if max_exponent src \<le> max_exponent dst then CONTAINS_RANGE else OVERLAPS_RANGE))
      else
        (if is_signed src then OVERLAPS_RANGE
         else (if sizeof src \<le> sizeof dst then CONTAINS_RANGE else OVERLAPS_RANGE)))"

definition RangeCheck :: "ctype \<Rightarrow> ctype \<Rightarrow> int \<Rightarrow> RangeCheckResult" where
  "RangeCheck dst src v =
     (if StaticRangeCheck dst src = CONTAINS_RANGE then TYPE_VALID
      else if is_signed dst then
        (if is_signed src then
           RANGE_CHECK_RESULT (Op LeOp src v src (static_cast src (highest dst)))
             (Op GeOp src v src (static_cast src (lowest dst)))
         else if sizeof src < sizeof dst then TYPE_VALID
         else RANGE_CHECK_RESULT (Op LeOp src v src (static_cast src (highest dst))) True)
      else
        (if is_signed src then
           (if max_exponent src \<le> max_exponent dst
            then RANGE_CHECK_RESULT True (Op GeOp src v src (static_cast src 0))
            else RANGE_CHECK_RESULT (Op LeOp src v src (static_cast src (highest dst)))
              (Op GeOp src v src (static_cast src 0)))
         else RANGE_CHECK_RESULT (Op LeOp src v src (static_cast src (highest dst))) True))"

definition IsValueInRangeForNumericType :: "ctype \<Rightarrow> ctype \<Rightarrow> int \<Rightarrow> bool" where
  "IsValueInRangeForNumericType dst src v \<longleftrightarrow> RangeCheck dst src v = TYPE_VALID"

text \<open>The range checks of \<open>checked_cast\<close> and \<open>dchecked_cast\<close> are commented out in the source.\<close>

definition checked_cast :: "ctype \<Rightarrow> ctype \<Rightarrow> int \<Rightarrow> int" where
  "checked_cast dst src v = static_cast dst v"

definition dchecked_cast :: "ctype \<Rightarrow> ctype \<Rightarrow> int \<Rightarrow> int" where
  "dchecked_cast dst src v = static_cast dst v"

definition saturated_cast :: "ctype \<Rightarrow> ctype \<Rightarrow> int \<Rightarrow> int option" where
  "saturated_cast dst src v =
     (case RangeCheck dst src v of
        TYPE_VALID \<Rightarrow> Some (static_cast dst v)
      | TYPE_UNDERFLOW \<Rightarrow> Some (lowest dst)
      | TYPE_OVERFLOW \<Rightarrow> Some (highest dst)
      | TYPE_INVALID \<Rightarrow> None)"

lemma Op_same: "has_type t a \<Longrightarrow> has_type t b \<Longrightarrow> Op f t a t b = op_rel f a b"
  by (simp add: Op_exact arith_conv_same_sign [of t t a b])

lemma RangeCheck_exact:
  assumes v: "has_type src v"
  shows "RangeCheck dst src v =
    (if v < lowest dst then TYPE_UNDERFLOW else if highest dst < v then TYPE_OVERFLOW else TYPE_VALID)"
proof (cases "StaticRangeCheck dst src = CONTAINS_RANGE")
  case True
  then have "lowest dst \<le> lowest src \<and> highest src \<le> highest dst"
    by (cases dst; cases src; simp add: StaticRangeCheck_def max_exponent_def type_defs)
  then show ?thesis using True v by (simp add: RangeCheck_def has_type_def)
next
  case False
  have "has_type src (highest dst)" if "is_signed src = is_signed dst"
    using False that by (cases dst; cases src; simp add: StaticRangeCheck_def max_exponent_def type_defs)
  moreover have "has_type src (lowest dst)" if "is_signed src = is_signed dst"
    using False that by (cases dst; cases src; simp add: StaticRangeCheck_def max_exponent_def type_defs)
  moreover have "has_type src (highest dst) \<and> \<not> sizeof src < sizeof dst" if "is_signed dst" "\<not> is_signed src"
    using False that by (cases dst; cases src; simp add: StaticRangeCheck_def max_exponent_def type_defs)
  moreover have "has_type src 0 \<and> (if max_exponent src \<le> max_exponent dst then highest src \<le> highest dst else has_type src (highest dst))"
    if "is_signed src" "\<not> is_signed dst"
    using that by (cases dst; cases src; simp add: max_exponent_def type_defs)
  moreover have "lowest dst \<le> highest dst" using has_type_limits [of dst] by (simp add: has_type_def)
  moreover have "lowest t = 0" if "\<not> is_signed t" for t using that by (simp add: lowest_def)
  moreover have "lowest dst \<le> 0" by (simp add: lowest_def)
  ultimately show ?thesis
    using False v unsigned_nonneg [OF v]
    by (cases "is_signed src"; cases "is_signed dst")
      (auto simp: RangeCheck_def RANGE_CHECK_RESULT_def static_cast_exact Op_same has_type_limits split: if_splits
        dest: has_type_def [THEN iffD1] order_trans [of _ "highest src" "highest dst"])
qed


section \<open>Minimum, maximum and clamping\<close>

text \<open>A number with its type; \<open>None\<close> below is a program that a \<open>static_assert\<close> rejects.\<close>

type_synonym cval = "ctype \<times> int"

definition min_t :: "ctype \<Rightarrow> ctype \<Rightarrow> ctype" where
  "min_t t1 t2 =
     (if Safe LtOp t1 (lowest t1) t2 (lowest t2) then t1
      else if Safe GtOp t1 (lowest t1) t2 (lowest t2) then t2
      else if Safe LeOp t1 (highest t1) t2 (highest t2) then t1 else t2)"

definition max_t :: "ctype \<Rightarrow> ctype \<Rightarrow> ctype option" where
  "max_t t1 t2 =
     (if Safe NeOp t1 (highest t1) t2 (highest t2) \<or> Safe EqOp t1 (lowest t1) t2 (lowest t2)
      then Some (if Safe GeOp t1 (highest t1) t2 (highest t2) then t1 else t2)
      else None)"

text \<open>The template argument \<open>R\<close> is \<open>None\<close> for \<open>DefaultType\<close>.\<close>

definition TypeOr :: "ctype option \<Rightarrow> ctype \<Rightarrow> ctype option" where
  "TypeOr r b =
     (let t = (case r of None \<Rightarrow> b | Some a \<Rightarrow> a)
      in if Safe LeOp t (lowest t) b (lowest b) \<and> Safe GeOp t (highest t) b (highest b) then Some t else None)"

text \<open>\<open>MType\<close> is instantiated as a whole, so \<open>SafeMin\<close> depends on the assertion about \<open>max_t\<close> too.\<close>

definition SafeMin :: "ctype option \<Rightarrow> cval \<Rightarrow> cval \<Rightarrow> cval option" where
  "SafeMin r x y = do {
     max_t (fst x) (fst y);
     t \<leftarrow> TypeOr r (min_t (fst x) (fst y));
     Some (t, if Safe LtOp (fst x) (snd x) (fst y) (snd y) then static_cast t (snd x) else static_cast t (snd y))
   }"

definition SafeMax :: "ctype option \<Rightarrow> cval \<Rightarrow> cval \<Rightarrow> cval option" where
  "SafeMax r x y = do {
     m \<leftarrow> max_t (fst x) (fst y);
     t \<leftarrow> TypeOr r m;
     Some (t, if Safe GtOp (fst x) (snd x) (fst y) (snd y) then static_cast t (snd x) else static_cast t (snd y))
   }"

definition AcceptableType :: "ctype \<Rightarrow> ctype \<Rightarrow> ctype \<Rightarrow> cval \<Rightarrow> cval \<Rightarrow> ctype \<Rightarrow> bool" where
  "AcceptableType t l h r_min r_max a \<longleftrightarrow>
     (sizeof a \<le> sizeof l \<or> sizeof a \<le> sizeof h \<or> sizeof a \<le> sizeof t) \<and>
     Safe LeOp a (lowest a) (fst r_min) (snd r_min) \<and> Safe LeOp (fst r_max) (snd r_max) a (highest a)"

definition best_signed_type :: "(ctype \<Rightarrow> bool) \<Rightarrow> ctype" where
  "best_signed_type ok = (if ok Int8 then Int8 else if ok Int16 then Int16 else if ok Int32 then Int32 else Int64)"

definition best_unsigned_type :: "(ctype \<Rightarrow> bool) \<Rightarrow> ctype" where
  "best_unsigned_type ok = (if ok UInt8 then UInt8 else if ok UInt16 then UInt16 else if ok UInt32 then UInt32 else UInt64)"

definition ClampType :: "ctype \<Rightarrow> ctype \<Rightarrow> ctype \<Rightarrow> ctype option" where
  "ClampType t l h = do {
     lo \<leftarrow> SafeMin None (h, lowest h) (t, lowest t);
     r_min \<leftarrow> SafeMax None (l, lowest l) lo;
     hi \<leftarrow> SafeMax None (l, highest l) (t, highest t);
     r_max \<leftarrow> SafeMin None (h, highest h) hi;
     let ok = AcceptableType t l h r_min r_max;
     let s = best_signed_type ok;
     let u = best_unsigned_type ok;
     let r = (if is_signed t then (if ok s then s else u) else (if ok u then u else s));
     if ok r then Some r else None
   }"

text \<open>\<open>OCTK_DCHECK_LE(min, max)\<close> compares by \<open>SafeLe\<close>; the result is \<open>Inl ()\<close> when it fails.\<close>

definition SafeClamp :: "ctype option \<Rightarrow> cval \<Rightarrow> cval \<Rightarrow> cval \<Rightarrow> (unit + cval) option" where
  "SafeClamp r x mn mx = do {
     c \<leftarrow> ClampType (fst x) (fst mn) (fst mx);
     t \<leftarrow> TypeOr r c;
     Some (if \<not> Safe LeOp (fst mn) (snd mn) (fst mx) (snd mx) then Inl ()
           else Inr (t, if Safe LeOp (fst x) (snd x) (fst mn) (snd mn) then static_cast t (snd mn)
                        else if Safe GeOp (fst x) (snd x) (fst mx) (snd mx) then static_cast t (snd mx)
                        else static_cast t (snd x)))
   }"

text \<open>The two functions on values of their declared types.\<close>

lemma max_t_exact: "max_t t1 t2 = Some (if highest t2 \<le> highest t1 then t1 else t2)"
proof -
  have "highest t1 = highest t2 \<Longrightarrow> lowest t1 = lowest t2" by (cases t1; cases t2; simp add: type_defs)
  then show ?thesis by (auto simp: max_t_def Safe_exact)
qed

lemma min_t_exact:
  "min_t t1 t2 = (if lowest t1 < lowest t2 \<or> lowest t1 = lowest t2 \<and> highest t1 \<le> highest t2 then t1 else t2)"
  by (simp only: min_t_def Safe_exact has_type_limits op_rel.simps) auto

lemma TypeOr_None [simp]: "TypeOr None b = Some b"
  by (simp add: TypeOr_def Safe_exact)

lemma TypeOr_Some: "TypeOr (Some a) b = (if lowest a \<le> lowest b \<and> highest b \<le> highest a then Some a else None)"
  by (simp add: TypeOr_def Safe_exact)

text \<open>The smaller value fits the type with the smaller minimum, the larger one that with the larger maximum.\<close>

lemma has_type_min: "has_type t1 a \<Longrightarrow> has_type t2 b \<Longrightarrow> has_type (min_t t1 t2) (min a b)"
  by (cases t1; cases t2) (auto simp: min_t_exact type_defs)

lemma has_type_max:
  "has_type t1 a \<Longrightarrow> has_type t2 b \<Longrightarrow> has_type (if highest t2 \<le> highest t1 then t1 else t2) (max a b)"
  by (cases t1; cases t2) (auto simp: type_defs)

lemma SafeMin_exact:
  assumes "has_type t1 a" "has_type t2 b"
  shows "SafeMin None (t1, a) (t2, b) = Some (min_t t1 t2, min a b)"
  using assms has_type_min [OF assms]
  by (cases "a < b") (simp_all add: SafeMin_def max_t_exact Safe_exact static_cast_exact not_less)

lemma SafeMax_exact:
  assumes "has_type t1 a" "has_type t2 b"
  shows "SafeMax None (t1, a) (t2, b) = Some (if highest t2 \<le> highest t1 then t1 else t2, max a b)"
  using assms has_type_max [OF assms]
  by (auto simp: SafeMax_def max_t_exact Safe_exact static_cast_exact max_def)

text \<open>The range of the results of a clamp, and the types that the first two laws of the header admit.\<close>

definition clamp_min :: "ctype \<Rightarrow> ctype \<Rightarrow> ctype \<Rightarrow> int" where
  "clamp_min t l h = max (lowest l) (min (lowest h) (lowest t))"

definition clamp_max :: "ctype \<Rightarrow> ctype \<Rightarrow> ctype \<Rightarrow> int" where
  "clamp_max t l h = min (highest h) (max (highest l) (highest t))"

definition admissible :: "ctype \<Rightarrow> ctype \<Rightarrow> ctype \<Rightarrow> ctype \<Rightarrow> bool" where
  "admissible t l h a \<longleftrightarrow> sizeof a \<le> max (sizeof t) (max (sizeof l) (sizeof h)) \<and>
     lowest a \<le> clamp_min t l h \<and> clamp_max t l h \<le> highest a"

lemma ClampType_exact:
  "ClampType t l h =
    (let s = best_signed_type (admissible t l h); u = best_unsigned_type (admissible t l h);
         r = (if is_signed t then (if admissible t l h s then s else u) else (if admissible t l h u then u else s))
     in if admissible t l h r then Some r else None)"
proof -
  obtain m where m: "SafeMin None (h, lowest h) (t, lowest t) = Some (m, min (lowest h) (lowest t))"
    "has_type m (min (lowest h) (lowest t))"
    using SafeMin_exact has_type_min by simp
  obtain n where n: "SafeMax None (l, lowest l) (m, min (lowest h) (lowest t)) = Some (n, clamp_min t l h)"
    "has_type n (clamp_min t l h)"
    using SafeMax_exact has_type_max m by (simp add: clamp_min_def)
  obtain i where i: "SafeMax None (l, highest l) (t, highest t) = Some (i, max (highest l) (highest t))"
    "has_type i (max (highest l) (highest t))"
    using SafeMax_exact has_type_max by simp
  obtain j where j: "SafeMin None (h, highest h) (i, max (highest l) (highest t)) = Some (j, clamp_max t l h)"
    "has_type j (clamp_max t l h)"
    using SafeMin_exact has_type_min i by (simp add: clamp_max_def)
  have "AcceptableType t l h (n, clamp_min t l h) (j, clamp_max t l h) = admissible t l h"
    using n(2) j(2) by (auto simp: AcceptableType_def admissible_def Safe_exact fun_eq_iff)
  then show ?thesis by (simp add: ClampType_def m(1) n(1) i(1) j(1) Let_def)
qed

lemma admissible_exists: "admissible t l h t \<or> admissible t l h l \<or> admissible t l h h"
  by (cases t; cases l; cases h) (simp_all add: admissible_def clamp_min_def clamp_max_def type_defs)

lemma best_types:
  "ok a \<Longrightarrow> is_signed a \<Longrightarrow> ok (best_signed_type ok) \<and> sizeof (best_signed_type ok) \<le> sizeof a"
  "ok a \<Longrightarrow> \<not> is_signed a \<Longrightarrow> ok (best_unsigned_type ok) \<and> sizeof (best_unsigned_type ok) \<le> sizeof a"
  by (cases a; auto simp: best_signed_type_def best_unsigned_type_def)+

lemma best_types_signed [simp]: "is_signed (best_signed_type ok)" "\<not> is_signed (best_unsigned_type ok)"
  by (simp_all add: best_signed_type_def best_unsigned_type_def)

lemma ClampType_laws:
  "\<exists>r. ClampType t l h = Some r \<and> admissible t l h r \<and>
     (\<forall>a. admissible t l h a \<longrightarrow> is_signed a = is_signed t \<longrightarrow> is_signed r = is_signed t \<and> sizeof r \<le> sizeof a) \<and>
     (\<forall>a. admissible t l h a \<longrightarrow> is_signed a = is_signed r \<longrightarrow> sizeof r \<le> sizeof a)"
  (is "\<exists>r. _ \<and> ?ok r \<and> _")
proof -
  obtain a where a: "?ok a" using admissible_exists by blast
  let ?b = "\<lambda>s. if s then best_signed_type ?ok else best_unsigned_type ?ok"
  have best: "?ok b \<Longrightarrow> ?ok (?b (is_signed b)) \<and> sizeof (?b (is_signed b)) \<le> sizeof b" for b
    using best_types [of ?ok b] by simp
  let ?r = "if ?ok (?b (is_signed t)) then ?b (is_signed t) else ?b (\<not> is_signed t)"
  have r: "ClampType t l h = (if ?ok ?r then Some ?r else None)"
    by (simp add: ClampType_exact Let_def)
  have sg: "is_signed (?b s) = s" for s by simp
  show ?thesis
  proof (cases "?ok (?b (is_signed t))")
    case True
    show ?thesis
    proof (intro exI [of _ "?b (is_signed t)"] conjI allI impI)
      fix c assume "?ok c" "is_signed c = is_signed (?b (is_signed t))"
      then show "sizeof (?b (is_signed t)) \<le> sizeof c" using best [of c] by (simp only: sg)
    qed (use True r best sg in \<open>simp_all only: if_True\<close>, metis best)
  next
    case False
    then have none: "\<not> ?ok c" if "is_signed c = is_signed t" for c using best [of c] that by auto
    then have "is_signed a = (\<not> is_signed t)" using a by blast
    then have ok: "?ok (?b (\<not> is_signed t))" using best [of a] a by simp
    show ?thesis
    proof (intro exI [of _ "?b (\<not> is_signed t)"] conjI allI impI)
      fix c assume "?ok c" "is_signed c = is_signed (?b (\<not> is_signed t))"
      then show "sizeof (?b (\<not> is_signed t)) \<le> sizeof c" using best [of c] by (simp only: sg)
    qed (use False ok r none in auto)
  qed
qed


section \<open>Properties\<close>

text \<open>
  C9: the \<open>Safe\<close> comparisons decide the comparison of the two numbers, whatever the widths and
  the signedness of their types: no operand is changed by a conversion. The built-in operators do
  not have this property (the last conjunct: \<open>-1 < 1u\<close> is false).
\<close>

theorem safe_compare_exact:
  "(\<forall>f t1 a t2 b. has_type t1 a \<longrightarrow> has_type t2 b \<longrightarrow> Safe f t1 a t2 b = op_rel f a b) \<and>
   \<not> Op LtOp Int32 (-1) UInt32 1"
  by (simp add: Safe_exact Op_def arith_conv_def static_cast_def type_defs)

theorem safe_compare_exact_witness: "Safe LtOp Int64 (-1) UInt64 18446744073709551615 \<and> \<not> Safe EqOp UInt8 255 Int8 (-1)"
  using safe_compare_exact by (simp add: type_defs)

text \<open>
  \<open>saturated_cast\<close> returns the number of the destination type that is nearest to the value, and
  \<open>IsValueInRangeForNumericType\<close> holds exactly for the values the destination type can represent.
\<close>

theorem saturated_cast_spec:
  assumes "has_type src v"
  shows "saturated_cast dst src v = Some (max (lowest dst) (min v (highest dst))) \<and>
    (IsValueInRangeForNumericType dst src v \<longleftrightarrow> has_type dst v)"
proof -
  have "lowest dst \<le> highest dst" using has_type_limits [of dst] by (simp add: has_type_def)
  then show ?thesis
    using assms
    by (auto simp: saturated_cast_def IsValueInRangeForNumericType_def RangeCheck_exact static_cast_exact has_type_def)
qed

theorem saturated_cast_spec_witness:
  "saturated_cast UInt8 Int32 (-5) = Some 0 \<and> saturated_cast Int16 UInt64 70000 = Some 32767 \<and>
   saturated_cast Int32 Int64 (-12) = Some (-12)"
  using saturated_cast_spec [of Int32 "-5" UInt8] saturated_cast_spec [of UInt64 70000 Int16]
    saturated_cast_spec [of Int64 "-12" Int32]
  by (simp add: type_defs)

text \<open>
  \<open>SafeMin\<close> and \<open>SafeMax\<close> compile for any two integer types, return the smaller and the larger
  number without truncation or wrap-around, in the type of one of the arguments. A requested result
  type that compiles changes the type and not the number.
\<close>

theorem safe_minmax_spec:
  assumes "has_type t1 a" "has_type t2 b"
  shows "(\<exists>t \<in> {t1, t2}. SafeMin None (t1, a) (t2, b) = Some (t, min a b)) \<and>
    (\<exists>t \<in> {t1, t2}. SafeMax None (t1, a) (t2, b) = Some (t, max a b)) \<and>
    SafeMin (Some r) (t1, a) (t2, b) \<in> {None, Some (r, min a b)} \<and>
    SafeMax (Some r) (t1, a) (t2, b) \<in> {None, Some (r, max a b)}"
proof (intro conjI)
  show "\<exists>t \<in> {t1, t2}. SafeMin None (t1, a) (t2, b) = Some (t, min a b)"
    using SafeMin_exact [OF assms] by (auto simp: min_t_exact)
  show "\<exists>t \<in> {t1, t2}. SafeMax None (t1, a) (t2, b) = Some (t, max a b)"
    using SafeMax_exact [OF assms] by auto
  have "has_type r v" if "has_type u v" "TypeOr (Some r) u = Some w" for u v w
    using that by (auto simp: TypeOr_Some has_type_def split: if_splits)
  note wide = this [OF has_type_min [OF assms]] this [OF has_type_max [OF assms]]
  have opt: "TypeOr (Some r) u = None \<or> TypeOr (Some r) u = Some r" for u by (simp add: TypeOr_Some)
  show "SafeMin (Some r) (t1, a) (t2, b) \<in> {None, Some (r, min a b)}"
    using opt [of "min_t t1 t2"] wide(1) assms
    by (cases "a < b") (auto simp: SafeMin_def max_t_exact Safe_exact static_cast_exact not_less)
  show "SafeMax (Some r) (t1, a) (t2, b) \<in> {None, Some (r, max a b)}"
    using opt [of "if highest t2 \<le> highest t1 then t1 else t2"] wide(2) assms
    by (cases "b < a") (auto simp: SafeMax_def max_t_exact Safe_exact static_cast_exact not_less split del: if_split)
qed

theorem safe_minmax_spec_witness: "SafeMin None (Int8, -3) (UInt64, 7) = Some (Int8, -3)"
proof -
  have t: "has_type Int8 (-3)" "has_type UInt64 7" by (simp_all add: type_defs)
  have "\<not> SafeMin None (Int8, -3) (UInt64, 7) = Some (UInt64, -3)"
    by (simp add: SafeMin_exact t min_t_exact type_defs)
  then show ?thesis using safe_minmax_spec [OF t] by auto
qed

text \<open>
  The result type of \<open>SafeClamp\<close> obeys the laws of the header. For any three integer types there
  is one; it can represent every possible result and is no larger than the largest argument type
  (laws 1 and 2, \<open>admissible\<close>); it has the signedness of the first argument if an admissible type
  has it (law 3); it is the smallest admissible type of its signedness. The value is the point of
  the interval nearest to \<open>x\<close>, unchanged by the conversion to that type.
\<close>

theorem safe_clamp_spec:
  assumes "has_type t x" "has_type l a" "has_type h b" "a \<le> b"
  shows "\<exists>r. ClampType t l h = Some r \<and> admissible t l h r \<and>
     SafeClamp None (t, x) (l, a) (h, b) = Some (Inr (r, max a (min x b))) \<and> has_type r (max a (min x b)) \<and>
     (\<forall>c. admissible t l h c \<longrightarrow> is_signed c = is_signed t \<longrightarrow> is_signed r = is_signed t) \<and>
     (\<forall>c. admissible t l h c \<longrightarrow> is_signed c = is_signed r \<longrightarrow> sizeof r \<le> sizeof c)"
proof -
  obtain r where r: "ClampType t l h = Some r" "admissible t l h r"
    "\<forall>c. admissible t l h c \<longrightarrow> is_signed c = is_signed t \<longrightarrow> is_signed r = is_signed t"
    "\<forall>c. admissible t l h c \<longrightarrow> is_signed c = is_signed r \<longrightarrow> sizeof r \<le> sizeof c"
    using ClampType_laws [of t l h] by blast
  have m: "has_type r (max a (min x b))"
    using r(2) assms by (auto simp: has_type_def admissible_def clamp_min_def clamp_max_def)
  have "SafeClamp None (t, x) (l, a) (h, b) = Some (Inr (r, static_cast r (max a (min x b))))"
    using assms r(1) by (simp add: SafeClamp_def Safe_exact)
  then have "SafeClamp None (t, x) (l, a) (h, b) = Some (Inr (r, max a (min x b)))"
    by (simp only: static_cast_exact [OF m])
  then show ?thesis using r m by (intro exI [of _ r] conjI)
qed

theorem safe_clamp_spec_witness:
  "\<exists>r. ClampType Int32 UInt8 UInt16 = Some r \<and> SafeClamp None (Int32, -7) (UInt8, 3) (UInt16, 500) = Some (Inr (r, 3))"
  using safe_clamp_spec [of Int32 "-7" UInt8 3 UInt16 500] by (auto simp: type_defs)

end
