(* ===== verification/VideoTypes.thy ===== *)
theory VideoTypes
  imports Numeric
begin

text \<open>
  What the frames and the frame buffers share: \<open>VideoRotation\<close> of \<open>src/libs/media/source/video/octk_video_rotation.hpp\<close>, and the
  size of an I420 image in memory, from \<open>octk_i420_buffer.cpp\<close>.
\<close>

datatype VideoRotation = kAngle0 | kAngle90 | kAngle180 | kAngle270

definition I420DataSize :: "int \<Rightarrow> int \<Rightarrow> int \<Rightarrow> int \<Rightarrow> int option" where
  "I420DataSize h stride_y stride_u stride_v = do {
     y \<leftarrow> int32 (stride_y * h);
     uv \<leftarrow> int32 (stride_u + stride_v);
     h1 \<leftarrow> int32 (h + 1);
     uv \<leftarrow> int32 (uv * (h1 sdiv 2));
     int32 (y + uv)
   }"

end
