(* ===== verification/VideoFrame.thy ===== *)
theory VideoFrame
  imports VideoTypes
begin

text \<open>
  \<open>VideoFrame\<close>, its \<open>Builder\<close> and its \<open>UpdateRect\<close> of
  \<open>src/libs/media/source/video/octk_video_frame.hpp\<close> and \<open>.cpp\<close>.

  A frame buffer is its width, its height and its pixels, whose representation is a type parameter,
  as are those of the colour space and of the packet infos, which a frame only carries along. An
  \<open>int\<close> computation that overflows and a failed check are \<^term>\<open>None\<close>.
\<close>

section \<open>Update rectangles\<close>

text \<open>The fields, in the order of the declaration and of the constructor \<open>UpdateRect(w, h, x, y)\<close>.\<close>

record UpdateRect =
  width :: int
  height :: int
  offsetX :: int
  offsetY :: int

definition UpdateRect_new :: "int \<Rightarrow> int \<Rightarrow> int \<Rightarrow> int \<Rightarrow> UpdateRect" where
  "UpdateRect_new w h x y = \<lparr>width = w, height = h, offsetX = x, offsetY = y\<rparr>"

lemma UpdateRect_new_sel [simp]:
  "width (UpdateRect_new w h x y) = w" "height (UpdateRect_new w h x y) = h"
  "offsetX (UpdateRect_new w h x y) = x" "offsetY (UpdateRect_new w h x y) = y"
  by (simp_all add: UpdateRect_new_def)

lemma UpdateRect_new_inject [simp]:
  "UpdateRect_new w h x y = UpdateRect_new w' h' x' y' \<longleftrightarrow> w = w' \<and> h = h' \<and> x = x' \<and> y = y'"
  by (simp add: UpdateRect_new_def)

definition makeEmptyUpdate :: "UpdateRect \<Rightarrow> UpdateRect" where
  "makeEmptyUpdate r = r\<lparr>width := 0, height := 0, offsetX := 0, offsetY := 0\<rparr>"

definition isEmpty :: "UpdateRect \<Rightarrow> bool" where
  "isEmpty r \<longleftrightarrow> width r = 0 \<and> height r = 0"

definition unionRect :: "UpdateRect \<Rightarrow> UpdateRect \<Rightarrow> UpdateRect option" where
  "unionRect r other =
     (if isEmpty other then Some r
      else if isEmpty r then Some other
      else do {
        r1 \<leftarrow> int32 (offsetX r + width r);
        r2 \<leftarrow> int32 (offsetX other + width other);
        b1 \<leftarrow> int32 (offsetY r + height r);
        b2 \<leftarrow> int32 (offsetY other + height other);
        let right = max r1 r2;
        let bottom = max b1 b2;
        let x = min (offsetX r) (offsetX other);
        let y = min (offsetY r) (offsetY other);
        w \<leftarrow> int32 (right - x);
        h \<leftarrow> int32 (bottom - y);
        dcheck (0 < w);
        dcheck (0 < h);
        Some (r\<lparr>offsetX := x, offsetY := y, width := w, height := h\<rparr>)
      })"

definition intersectRect :: "UpdateRect \<Rightarrow> UpdateRect \<Rightarrow> UpdateRect option" where
  "intersectRect r other =
     (if isEmpty other \<or> isEmpty r then Some (makeEmptyUpdate r)
      else do {
        r1 \<leftarrow> int32 (offsetX r + width r);
        r2 \<leftarrow> int32 (offsetX other + width other);
        b1 \<leftarrow> int32 (offsetY r + height r);
        b2 \<leftarrow> int32 (offsetY other + height other);
        let right = min r1 r2;
        let bottom = min b1 b2;
        let x = max (offsetX r) (offsetX other);
        let y = max (offsetY r) (offsetY other);
        w \<leftarrow> int32 (right - x);
        h \<leftarrow> int32 (bottom - y);
        let r' = r\<lparr>offsetX := x, offsetY := y, width := w, height := h\<rparr>;
        Some (if w \<le> 0 \<or> h \<le> 0 then makeEmptyUpdate r' else r')
      })"

text \<open>
  One axis of \<open>scaleWithFrame\<close>; the code does the same computation on \<open>x\<close>, \<open>w\<close> and on \<open>y\<close>, \<open>h\<close>.
  The steps: the part before the crop is cut off; the lower corner is scaled and rounded down and
  the length scaled and rounded up; both are rounded to even numbers; a rescaled rectangle grows
  by two pixels on each side; it is cut to the frame.
\<close>

definition axis_clip :: "int \<Rightarrow> int \<Rightarrow> int \<Rightarrow> (int \<times> int) option" where
  "axis_clip off len crop = do {
     x \<leftarrow> int32 (off - crop);
     if x < 0 then do { w \<leftarrow> int32 (len + x); Some (0, w) } else Some (x, len)
   }"

definition axis_round :: "int \<times> int \<Rightarrow> (int \<times> int) option" where
  "axis_round = (\<lambda>(x, w). do {
     (x, w) \<leftarrow> (if x smod 2 \<noteq> 0 then do { x \<leftarrow> int32 (x - 1); w \<leftarrow> int32 (w + 1); Some (x, w) } else Some (x, w));
     w \<leftarrow> (if w smod 2 \<noteq> 0 then int32 (w + 1) else Some w);
     Some (x, w)
   })"

definition axis_expand :: "int \<times> int \<Rightarrow> (int \<times> int) option" where
  "axis_expand = (\<lambda>(x, w). do {
     (x, w) \<leftarrow> (if 0 < x then do { w \<leftarrow> int32 (w + 2); Some (x - 2, w) } else Some (x, w));
     w \<leftarrow> int32 (w + 2);
     Some (x, w)
   })"

definition axis_fit :: "int \<Rightarrow> int \<times> int \<Rightarrow> (int \<times> int) option" where
  "axis_fit scaled = (\<lambda>(x, w). do {
     e \<leftarrow> int32 (x + w);
     w \<leftarrow> (if scaled < e then int32 (scaled - x) else Some w);
     dcheck (0 \<le> w);
     Some (x, w)
   })"

definition scale_axis :: "int \<Rightarrow> int \<Rightarrow> int \<Rightarrow> int \<Rightarrow> int \<Rightarrow> bool \<Rightarrow> (int \<times> int) option" where
  "scale_axis off len crop crop_len scaled expand = do {
     (x, w) \<leftarrow> axis_clip off len crop;
     xs \<leftarrow> int32 (x * scaled);
     x \<leftarrow> div32 xs crop_len;
     ws \<leftarrow> int32 (w * scaled);
     ws \<leftarrow> int32 (ws + crop_len);
     w \<leftarrow> div32 (ws - 1) crop_len;
     xw \<leftarrow> axis_round (x, w);
     xw \<leftarrow> (if expand then axis_expand xw else Some xw);
     axis_fit scaled xw
   }"

text \<open>
  The rejection test compares \<open>offsetY\<close> with the crop \<^emph>\<open>width\<close>, and the result \<open>{x, y, w, h}\<close> goes
  to the constructor, whose arguments are width, height, x and y.
\<close>

definition scaleWithFrame ::
    "UpdateRect \<Rightarrow> int \<Rightarrow> int \<Rightarrow> int \<Rightarrow> int \<Rightarrow> int \<Rightarrow> int \<Rightarrow> int \<Rightarrow> int \<Rightarrow> UpdateRect option" where
  "scaleWithFrame r frame_width frame_height crop_x crop_y cropWidth cropHeight scaledWidth scaledHeight = do {
     dcheck (0 < frame_width);
     dcheck (0 < frame_height);
     dcheck (0 < cropWidth);
     dcheck (0 < cropHeight);
     crop_right \<leftarrow> int32 (cropWidth + crop_x);
     dcheck (crop_right \<le> frame_width);
     crop_bottom \<leftarrow> int32 (cropHeight + crop_y);
     dcheck (crop_bottom \<le> frame_height);
     dcheck (0 < scaledWidth);
     dcheck (0 < scaledHeight);
     right \<leftarrow> int32 (offsetX r + width r);
     outside \<leftarrow> (if right < crop_x then Some True
       else if crop_right < offsetX r then Some True
       else do {
         bottom \<leftarrow> int32 (offsetY r + height r);
         if bottom < crop_y then Some True
         else do { crop_limit \<leftarrow> int32 (crop_y + cropWidth); Some (crop_limit < offsetY r) }
       });
     if outside
     then Some (UpdateRect_new 0 0 0 0)
     else do {
       let expand = (scaledWidth \<noteq> cropWidth \<or> scaledHeight \<noteq> cropHeight);
       (x, w) \<leftarrow> scale_axis (offsetX r) (width r) crop_x cropWidth scaledWidth expand;
       (y, h) \<leftarrow> scale_axis (offsetY r) (height r) crop_y cropHeight scaledHeight expand;
       Some (if w = 0 \<or> h = 0 then UpdateRect_new 0 0 0 0 else UpdateRect_new x y w h)
     }
   }"


section \<open>Frames\<close>

record 'p buffer =
  buf_width :: int
  buf_height :: int
  pixels :: 'p

record RenderParameters =
  useLowLatencyRendering :: bool
  maxCompositionDelayInFrames :: "int option"

record ('p, 'c, 'i) video_frame =
  mId :: u16
  mVideoFrameBuffer :: "'p buffer option"
  mRtpTimestamp :: u32
  mNtpTimeMSecs :: int
  mTimestampUSecs :: int
  mPresentationTimestamp :: "int option"
  mReferenceTime :: "int option"
  mRotation :: VideoRotation
  mColorSpace :: "'c option"
  mRenderParameters :: RenderParameters
  mUpdateRect :: "UpdateRect option"
  mPacketInfos :: 'i
  mProcessingTime :: "(int \<times> int) option"

definition frame_width :: "('p, 'c, 'i) video_frame \<Rightarrow> int" where
  "frame_width f = (case mVideoFrameBuffer f of Some b \<Rightarrow> buf_width b | None \<Rightarrow> 0)"

definition frame_height :: "('p, 'c, 'i) video_frame \<Rightarrow> int" where
  "frame_height f = (case mVideoFrameBuffer f of Some b \<Rightarrow> buf_height b | None \<Rightarrow> 0)"

definition frame_size :: "('p, 'c, 'i) video_frame \<Rightarrow> u32 option" where
  "frame_size f = do { n \<leftarrow> int32 (frame_width f * frame_height f); Some (of_int n) }"

definition hasUpdateRect :: "('p, 'c, 'i) video_frame \<Rightarrow> bool" where
  "hasUpdateRect f \<longleftrightarrow> mUpdateRect f \<noteq> None"

definition updateRect :: "('p, 'c, 'i) video_frame \<Rightarrow> UpdateRect" where
  "updateRect f =
     (case mUpdateRect f of Some r \<Rightarrow> r | None \<Rightarrow> UpdateRect_new 0 0 (frame_width f) (frame_height f))"

text \<open>The four checks on an update rectangle, in the constructor and in \<open>setUpdateRect\<close>.\<close>

definition check_rect :: "UpdateRect \<Rightarrow> int \<Rightarrow> int \<Rightarrow> unit option" where
  "check_rect r fw fh = do {
     dcheck (0 \<le> offsetX r);
     dcheck (0 \<le> offsetY r);
     right \<leftarrow> int32 (offsetX r + width r);
     dcheck (right \<le> fw);
     bottom \<leftarrow> int32 (offsetY r + height r);
     dcheck (bottom \<le> fh)
   }"

definition setUpdateRect :: "('p, 'c, 'i) video_frame \<Rightarrow> UpdateRect \<Rightarrow> ('p, 'c, 'i) video_frame option" where
  "setUpdateRect f r = do { check_rect r (frame_width f) (frame_height f); Some (f\<lparr>mUpdateRect := Some r\<rparr>) }"

definition clearUpdateRect :: "('p, 'c, 'i) video_frame \<Rightarrow> ('p, 'c, 'i) video_frame" where
  "clearUpdateRect f = f\<lparr>mUpdateRect := None\<rparr>"

definition setVideoFrameBuffer :: "('p, 'c, 'i) video_frame \<Rightarrow> 'p buffer option \<Rightarrow> ('p, 'c, 'i) video_frame option" where
  "setVideoFrameBuffer f buf = do { dcheck (buf \<noteq> None); Some (f\<lparr>mVideoFrameBuffer := buf\<rparr>) }"

definition VideoFrame_new ::
    "u16 \<Rightarrow> 'p buffer option \<Rightarrow> int \<Rightarrow> int option \<Rightarrow> int option \<Rightarrow> u32 \<Rightarrow> int \<Rightarrow> VideoRotation \<Rightarrow> 'c option \<Rightarrow>
     RenderParameters \<Rightarrow> UpdateRect option \<Rightarrow> 'i \<Rightarrow> ('p, 'c, 'i) video_frame option" where
  "VideoFrame_new ident buf ts pts ref rtp ntp rot cs rp rect infos = do {
     let f = \<lparr>mId = ident, mVideoFrameBuffer = buf, mRtpTimestamp = rtp, mNtpTimeMSecs = ntp,
       mTimestampUSecs = ts, mPresentationTimestamp = pts, mReferenceTime = ref, mRotation = rot,
       mColorSpace = cs, mRenderParameters = rp, mUpdateRect = rect, mPacketInfos = infos,
       mProcessingTime = None\<rparr>;
     case rect of
       None \<Rightarrow> Some f
     | Some r \<Rightarrow> do { check_rect r (frame_width f) (frame_height f); Some f }
   }"

text \<open>
  The two other constructors do not initialise \<open>mId\<close>; the argument \<open>ident\<close> is whatever the memory
  holds. \<open>no_infos\<close> is a default constructed \<open>RtpPacketInfos\<close>.
\<close>

definition VideoFrame_basic :: "u16 \<Rightarrow> 'i \<Rightarrow> 'p buffer option \<Rightarrow> VideoRotation \<Rightarrow> int \<Rightarrow> ('p, 'c, 'i) video_frame" where
  "VideoFrame_basic ident no_infos buf rot ts =
     \<lparr>mId = ident, mVideoFrameBuffer = buf, mRtpTimestamp = 0, mNtpTimeMSecs = 0, mTimestampUSecs = ts,
      mPresentationTimestamp = None, mReferenceTime = None, mRotation = rot, mColorSpace = None,
      mRenderParameters = \<lparr>useLowLatencyRendering = False, maxCompositionDelayInFrames = None\<rparr>,
      mUpdateRect = None, mPacketInfos = no_infos, mProcessingTime = None\<rparr>"

definition VideoFrame_rtp ::
    "u16 \<Rightarrow> 'i \<Rightarrow> 'p buffer option \<Rightarrow> u32 \<Rightarrow> int \<Rightarrow> VideoRotation \<Rightarrow> ('p, 'c, 'i) video_frame option" where
  "VideoFrame_rtp ident no_infos buf rtp renderTimeMSecs rot = do {
     dcheck (in_int64 (renderTimeMSecs * 1000));
     let f = (VideoFrame_basic ident no_infos buf rot (renderTimeMSecs * 1000))\<lparr>mRtpTimestamp := rtp\<rparr>;
     dcheck (buf \<noteq> None);
     Some f
   }"

definition VideoFrame_copy :: "('p, 'c, 'i) video_frame \<Rightarrow> ('p, 'c, 'i) video_frame option" where
  "VideoFrame_copy other =
     VideoFrame_new (mId other) (mVideoFrameBuffer other) (mTimestampUSecs other)
       (mPresentationTimestamp other) (mReferenceTime other) (mRtpTimestamp other) (mNtpTimeMSecs other)
       (mRotation other) (mColorSpace other) (mRenderParameters other) (Some (updateRect other)) (mPacketInfos other)"

definition renderTimeMSecs :: "('p, 'c, 'i) video_frame \<Rightarrow> int" where
  "renderTimeMSecs f = mTimestampUSecs f sdiv 1000"


section \<open>Builder\<close>

text \<open>The builder has the fields of the frame but the last; the initial values are those of the class.\<close>

record ('p, 'c, 'i) builder =
  bId :: u16
  bVideoFrameBuffer :: "'p buffer option"
  bTimestampUSecs :: int
  bPresentationTimestamp :: "int option"
  bReferenceTime :: "int option"
  bRtpTimestamp :: u32
  bNtpTimeMSecs :: int
  bRotation :: VideoRotation
  bColorSpace :: "'c option"
  bRenderParameters :: RenderParameters
  bUpdateRect :: "UpdateRect option"
  bPacketInfos :: 'i

definition Builder :: "'i \<Rightarrow> ('p, 'c, 'i) builder" where
  "Builder no_infos = \<lparr>bId = 0, bVideoFrameBuffer = None, bTimestampUSecs = 0, bPresentationTimestamp = None,
     bReferenceTime = None, bRtpTimestamp = 0, bNtpTimeMSecs = 0, bRotation = kAngle0, bColorSpace = None,
     bRenderParameters = \<lparr>useLowLatencyRendering = False, maxCompositionDelayInFrames = None\<rparr>,
     bUpdateRect = None, bPacketInfos = no_infos\<rparr>"

definition builder_setVideoFrameBuffer :: "'p buffer option \<Rightarrow> ('p, 'c, 'i) builder \<Rightarrow> ('p, 'c, 'i) builder" where
  "builder_setVideoFrameBuffer buf b = b\<lparr>bVideoFrameBuffer := buf\<rparr>"

definition builder_setTimestampUSecs :: "int \<Rightarrow> ('p, 'c, 'i) builder \<Rightarrow> ('p, 'c, 'i) builder" where
  "builder_setTimestampUSecs ts b = b\<lparr>bTimestampUSecs := ts\<rparr>"

definition builder_setRotation :: "VideoRotation \<Rightarrow> ('p, 'c, 'i) builder \<Rightarrow> ('p, 'c, 'i) builder" where
  "builder_setRotation rot b = b\<lparr>bRotation := rot\<rparr>"

definition builder_setId :: "u16 \<Rightarrow> ('p, 'c, 'i) builder \<Rightarrow> ('p, 'c, 'i) builder" where
  "builder_setId ident b = b\<lparr>bId := ident\<rparr>"

definition builder_setUpdateRect :: "UpdateRect option \<Rightarrow> ('p, 'c, 'i) builder \<Rightarrow> ('p, 'c, 'i) builder" where
  "builder_setUpdateRect r b = b\<lparr>bUpdateRect := r\<rparr>"

definition builder_setTimestampMSecs :: "int \<Rightarrow> ('p, 'c, 'i) builder \<Rightarrow> ('p, 'c, 'i) builder option" where
  "builder_setTimestampMSecs ms b = (if in_int64 (ms * 1000) then Some (b\<lparr>bTimestampUSecs := ms * 1000\<rparr>) else None)"

definition builder_setRtpTimestamp :: "u32 \<Rightarrow> ('p, 'c, 'i) builder \<Rightarrow> ('p, 'c, 'i) builder" where
  "builder_setRtpTimestamp ts b = b\<lparr>bRtpTimestamp := ts\<rparr>"

definition builder_setNtpTimeMSecs :: "int \<Rightarrow> ('p, 'c, 'i) builder \<Rightarrow> ('p, 'c, 'i) builder" where
  "builder_setNtpTimeMSecs ms b = b\<lparr>bNtpTimeMSecs := ms\<rparr>"

definition builder_setColorSpace :: "'c option \<Rightarrow> ('p, 'c, 'i) builder \<Rightarrow> ('p, 'c, 'i) builder" where
  "builder_setColorSpace cs b = b\<lparr>bColorSpace := cs\<rparr>"

definition builder_setPacketInfos :: "'i \<Rightarrow> ('p, 'c, 'i) builder \<Rightarrow> ('p, 'c, 'i) builder" where
  "builder_setPacketInfos infos b = b\<lparr>bPacketInfos := infos\<rparr>"

definition builder_setPresentationTimestamp :: "int option \<Rightarrow> ('p, 'c, 'i) builder \<Rightarrow> ('p, 'c, 'i) builder" where
  "builder_setPresentationTimestamp ts b = b\<lparr>bPresentationTimestamp := ts\<rparr>"

definition builder_setReferenceTime :: "int option \<Rightarrow> ('p, 'c, 'i) builder \<Rightarrow> ('p, 'c, 'i) builder" where
  "builder_setReferenceTime ts b = b\<lparr>bReferenceTime := ts\<rparr>"

definition build :: "('p, 'c, 'i) builder \<Rightarrow> ('p, 'c, 'i) video_frame option" where
  "build b = do {
     dcheck (bVideoFrameBuffer b \<noteq> None);
     VideoFrame_new (bId b) (bVideoFrameBuffer b) (bTimestampUSecs b) (bPresentationTimestamp b) (bReferenceTime b)
       (bRtpTimestamp b) (bNtpTimeMSecs b) (bRotation b) (bColorSpace b) (bRenderParameters b) (bUpdateRect b)
       (bPacketInfos b)
   }"



section \<open>Rectangles as sets of pixels\<close>

definition covers :: "UpdateRect \<Rightarrow> (int \<times> int) set" where
  "covers r = {(x, y). offsetX r \<le> x \<and> x < offsetX r + width r \<and> offsetY r \<le> y \<and> y < offsetY r + height r}"

text \<open>A rectangle that a frame can have: empty, or with a positive area, in the range of \<open>int\<close>.\<close>

definition rect_ok :: "UpdateRect \<Rightarrow> bool" where
  "rect_ok r \<longleftrightarrow> 0 \<le> offsetX r \<and> 0 \<le> offsetY r \<and> (isEmpty r \<or> 0 < width r \<and> 0 < height r) \<and>
     offsetX r + width r \<le> int32_max \<and> offsetY r + height r \<le> int32_max"

lemmas rect_defs = rect_ok_def covers_def isEmpty_def makeEmptyUpdate_def in_int32_def int_range_defs

lemma rect_okI [intro?]:
  "0 \<le> offsetX r \<Longrightarrow> 0 \<le> offsetY r \<Longrightarrow> 0 < width r \<Longrightarrow> 0 < height r \<Longrightarrow>
   offsetX r + width r \<le> int32_max \<Longrightarrow> offsetY r + height r \<le> int32_max \<Longrightarrow> rect_ok r"
  by (simp add: rect_ok_def)

lemma covers_empty: "isEmpty r \<Longrightarrow> covers r = {}"
  by (auto simp: rect_defs)

lemma intersectRect_set:
  assumes "rect_ok a" "rect_ok b"
  shows "\<exists>r. intersectRect a b = Some r \<and> rect_ok r \<and> covers r = covers a \<inter> covers b"
proof (cases "isEmpty a \<or> isEmpty b")
  case True
  then show ?thesis
    using assms by (auto simp: intersectRect_def rect_defs)
next
  case False
  let ?w = "min (offsetX a + width a) (offsetX b + width b) - max (offsetX a) (offsetX b)"
  let ?h = "min (offsetY a + height a) (offsetY b + height b) - max (offsetY a) (offsetY b)"
  let ?r = "a\<lparr>offsetX := max (offsetX a) (offsetX b), offsetY := max (offsetY a) (offsetY b), width := ?w, height := ?h\<rparr>"
  have pos: "0 \<le> offsetX a" "0 \<le> offsetY a" "0 < width a" "0 < height a"
      "offsetX a + width a \<le> int32_max" "offsetY a + height a \<le> int32_max"
    and posb: "0 \<le> offsetX b" "0 \<le> offsetY b" "0 < width b" "0 < height b"
      "offsetX b + width b \<le> int32_max" "offsetY b + height b \<le> int32_max"
    using assms False by (simp_all add: rect_ok_def)
  have "in_int32 (offsetX a + width a)" "in_int32 (offsetX b + width b)" "in_int32 (offsetY a + height a)"
      "in_int32 (offsetY b + height b)" "in_int32 ?w" "in_int32 ?h"
    unfolding in_int32_def int_range_defs using pos posb unfolding int_range_defs by linarith+
  then have res: "intersectRect a b = Some (if ?w \<le> 0 \<or> ?h \<le> 0 then makeEmptyUpdate ?r else ?r)"
    using False by (simp add: intersectRect_def Let_def)
  have cov: "covers ?r = covers a \<inter> covers b" by (auto simp: covers_def)
  show ?thesis
  proof (cases "?w \<le> 0 \<or> ?h \<le> 0")
    case True
    have "covers (makeEmptyUpdate ?r) = {}" "rect_ok (makeEmptyUpdate ?r)"
      by (simp_all add: rect_defs)
    moreover have "covers ?r = {}" using True by (auto simp: covers_def)
    ultimately show ?thesis using res True cov by simp
  next
    case False
    then have "rect_ok ?r" by (intro rect_okI; simp) (use pos posb in linarith)+
    then show ?thesis using res False cov by simp
  qed
qed

lemma covers_corners:
  assumes "rect_ok a" "\<not> isEmpty a" "covers a \<subseteq> covers c"
  shows "offsetX c \<le> offsetX a \<and> offsetY c \<le> offsetY a \<and>
    offsetX a + width a \<le> offsetX c + width c \<and> offsetY a + height a \<le> offsetY c + height c"
proof -
  have "(offsetX a, offsetY a) \<in> covers a" "(offsetX a + width a - 1, offsetY a + height a - 1) \<in> covers a"
    using assms(1,2) by (auto simp: covers_def rect_ok_def)
  then have "(offsetX a, offsetY a) \<in> covers c" "(offsetX a + width a - 1, offsetY a + height a - 1) \<in> covers c"
    using assms(3) by blast+
  then show ?thesis by (simp add: covers_def)
qed

lemma unionRect_bounding:
  assumes "rect_ok a" "rect_ok b"
  shows "\<exists>r. unionRect a b = Some r \<and> rect_ok r \<and> covers a \<union> covers b \<subseteq> covers r \<and>
    (\<forall>c. covers a \<union> covers b \<subseteq> covers c \<longrightarrow> covers r \<subseteq> covers c)"
proof (cases "isEmpty a \<or> isEmpty b")
  case True
  then show ?thesis
    using assms covers_empty [of a] covers_empty [of b] by (auto simp: unionRect_def)
next
  case False
  let ?x = "min (offsetX a) (offsetX b)" and ?y = "min (offsetY a) (offsetY b)"
  let ?w = "max (offsetX a + width a) (offsetX b + width b) - ?x"
  let ?h = "max (offsetY a + height a) (offsetY b + height b) - ?y"
  let ?r = "a\<lparr>offsetX := ?x, offsetY := ?y, width := ?w, height := ?h\<rparr>"
  have pos: "0 \<le> offsetX a" "0 \<le> offsetY a" "0 < width a" "0 < height a"
      "offsetX a + width a \<le> int32_max" "offsetY a + height a \<le> int32_max"
    and posb: "0 \<le> offsetX b" "0 \<le> offsetY b" "0 < width b" "0 < height b"
      "offsetX b + width b \<le> int32_max" "offsetY b + height b \<le> int32_max"
    using assms False by (simp_all add: rect_ok_def)
  have "in_int32 (offsetX a + width a)" "in_int32 (offsetX b + width b)" "in_int32 (offsetY a + height a)"
      "in_int32 (offsetY b + height b)" "in_int32 ?w" "in_int32 ?h" "0 < ?w" "0 < ?h"
    unfolding in_int32_def int_range_defs using pos posb unfolding int_range_defs by linarith+
  then have "unionRect a b = Some ?r" using False by (simp add: unionRect_def Let_def)
  moreover have "rect_ok ?r" by (intro rect_okI; simp) (use pos posb in linarith)+
  moreover have "covers a \<union> covers b \<subseteq> covers ?r" by (auto simp: covers_def)
  moreover have "covers ?r \<subseteq> covers c" if "covers a \<union> covers b \<subseteq> covers c" for c
    using covers_corners [OF assms(1), of c] covers_corners [OF assms(2), of c] False that
    by (auto simp: covers_def)
  ultimately show ?thesis by blast
qed


section \<open>Scaling a rectangle\<close>

lemma smod_2_nonneg: "0 \<le> x \<Longrightarrow> x smod 2 = x mod (2 :: int)"
  by (simp add: smod_nonneg)

definition round_even :: "int \<Rightarrow> int \<Rightarrow> int \<times> int" where
  "round_even x w = (x - x mod 2, w + x mod 2 + (w + x mod 2) mod 2)"

definition grow :: "bool \<Rightarrow> int \<times> int \<Rightarrow> int \<times> int" where
  "grow expand = (\<lambda>(x, w). if expand then (if 0 < x then (x - 2, w + 4) else (x, w + 2)) else (x, w))"

lemma small_int32: "- 32767 \<le> a \<Longrightarrow> a \<le> 2000000000 \<Longrightarrow> in_int32 a"
  by (simp add: in_int32_def int_range_defs)

lemma axis_round_eq:
  assumes "0 \<le> x" "x \<le> 1100000000" "0 \<le> w" "w \<le> 1100000000"
  shows "axis_round (x, w) = Some (round_even x w)"
proof -
  have par: "a mod 2 = 0 \<or> a mod 2 = 1" for a :: int by auto
  show ?thesis
    using assms par [of x] par [of "w + x mod 2"] par [of w]
    by (auto simp: axis_round_def round_even_def smod_2_nonneg small_int32)
qed

lemma axis_expand_eq:
  "0 \<le> w \<Longrightarrow> w \<le> 1200000000 \<Longrightarrow> axis_expand (x, w) = Some (grow True (x, w))"
  by (auto simp: axis_expand_def grow_def small_int32)

lemma axis_fit_eq:
  "0 \<le> x \<Longrightarrow> x \<le> sl \<Longrightarrow> sl \<le> 32767 \<Longrightarrow> 0 \<le> w \<Longrightarrow> w \<le> 1300000000 \<Longrightarrow>
   axis_fit sl (x, w) = Some (x, min w (sl - x))"
  by (auto simp: axis_fit_def small_int32)

lemma round_even_bounds:
  assumes "0 \<le> x" "0 \<le> w" "round_even x w = (x', w')"
  shows "0 \<le> x'" "x' \<le> x" "0 \<le> w'" "w' \<le> w + 2" "x + w \<le> x' + w'" "even x'"
proof -
  have "0 \<le> a mod 2 \<and> a mod 2 \<le> 1" for a :: int by auto
  from this [of x] this [of "w + x mod 2"]
  show "0 \<le> x'" "x' \<le> x" "0 \<le> w'" "w' \<le> w + 2" "x + w \<le> x' + w'" "even x'"
    using assms by (auto simp: round_even_def) presburger+
qed

lemma grow_bounds:
  assumes "0 \<le> x" "even x" "0 \<le> w" "grow expand (x, w) = (x', w')"
  shows "0 \<le> x'" "x' \<le> x" "0 \<le> w'" "w' \<le> w + 4" "x + w + (if expand then 2 else 0) \<le> x' + w'"
proof -
  have "0 < x \<Longrightarrow> 2 \<le> x" using assms(2) by presburger
  then show "0 \<le> x'" "x' \<le> x" "0 \<le> w'" "w' \<le> w + 4" "x + w + (if expand then 2 else 0) \<le> x' + w'"
    using assms by (auto simp: grow_def split: if_splits)
qed

text \<open>
  On coordinates up to 32767 no computation overflows. The result lies in the scaled frame, and the
  interval covers the image of every pixel that is both updated and kept by the crop: the source
  interval from \<open>q\<close> to \<open>q + 1\<close> is scaled by \<open>sl / cl\<close>.
\<close>

lemma scale_axis_covers:
  assumes off: "0 \<le> off" "0 \<le> len" "off + len \<le> 32767" and crop: "0 \<le> crop" "0 < cl" "crop + cl \<le> 32767"
    and sl: "0 < sl" "sl \<le> 32767" and touch: "crop \<le> off + len" "off \<le> crop + cl"
    and ex: "expand \<or> sl = cl"
  shows "\<exists>x w. scale_axis off len crop cl sl expand = Some (x, w) \<and> 0 \<le> x \<and> 0 \<le> w \<and> x + w \<le> sl \<and>
    (\<forall>q. off \<le> q \<longrightarrow> q < off + len \<longrightarrow> crop \<le> q \<longrightarrow> q < crop + cl \<longrightarrow>
       x * cl \<le> (q - crop) * sl \<and> (q + 1 - crop) * sl \<le> (x + w) * cl)"
proof -
  define x1 where "x1 = max 0 (off - crop)"
  define w1 where "w1 = min len (off + len - crop)"
  define x2 where "x2 = x1 * sl div cl"
  define w2 where "w2 = (w1 * sl + cl - 1) div cl"
  have x1: "0 \<le> x1" "x1 \<le> cl" "x1 \<le> 32767" and w1: "0 \<le> w1" "w1 \<le> 32767"
    using off crop touch by (auto simp: x1_def w1_def)
  have xs: "0 \<le> x1 * sl" "x1 * sl \<le> 32767 * 32767" and ws: "0 \<le> w1 * sl" "w1 * sl \<le> 32767 * 32767"
    using x1 w1 sl mult_mono [of x1 32767 sl 32767] mult_mono [of w1 32767 sl 32767] by simp_all
  have "x1 * sl div cl \<le> cl * sl div cl" using x1 crop sl by (intro zdiv_mono1 mult_right_mono) auto
  then have x2: "0 \<le> x2" "x2 \<le> sl" using xs crop by (auto simp: x2_def pos_imp_zdiv_nonneg_iff)
  have w2: "0 \<le> w2" "w2 \<le> 32767 * 32767 + 32767"
    using ws crop div_le_self [of cl "w1 * sl + cl - 1"] by (auto simp: w2_def)
  obtain x3 w3 where r3: "round_even x2 w2 = (x3, w3)" by (cases "round_even x2 w2")
  note b3 = round_even_bounds [OF x2(1) w2(1) r3]
  obtain x4 w4 where r4: "grow expand (x3, w3) = (x4, w4)" by (cases "grow expand (x3, w3)")
  note b4 = grow_bounds [OF b3(1) b3(6) b3(3) r4]
  have "axis_clip off len crop = Some (x1, w1)"
    using off crop touch by (auto simp: axis_clip_def x1_def w1_def small_int32)
  moreover have "int32 (x1 * sl) = Some (x1 * sl)" "div32 (x1 * sl) cl = Some x2" "int32 (w1 * sl) = Some (w1 * sl)"
      "int32 (w1 * sl + cl) = Some (w1 * sl + cl)" "div32 (w1 * sl + cl - 1) cl = Some w2"
    using xs ws crop by (auto simp: x2_def w2_def intro!: int32_Some div32_nonneg small_int32)
  moreover have "axis_round (x2, w2) = Some (x3, w3)"
    using x2 w2 sl r3 by (subst axis_round_eq) auto
  moreover have "(if expand then axis_expand (x3, w3) else Some (x3, w3)) = Some (x4, w4)"
    using r4 b3 w2 by (cases expand) (simp_all add: axis_expand_eq, simp add: grow_def)
  moreover have "axis_fit sl (x4, w4) = Some (x4, min w4 (sl - x4))"
    using b3 b4 x2 w2 sl by (intro axis_fit_eq) auto
  ultimately have res: "scale_axis off len crop cl sl expand = Some (x4, min w4 (sl - x4))"
    by (simp add: scale_axis_def)
  have "x1 * sl = x2 * cl + x1 * sl mod cl" "w1 * sl + cl - 1 = w2 * cl + (w1 * sl + cl - 1) mod cl"
    by (simp_all add: x2_def w2_def)
  then have lower: "x2 * cl \<le> x1 * sl" "x1 * sl < (x2 + 1) * cl" and upper: "w1 * sl \<le> w2 * cl"
    using pos_mod_bound [OF crop(2), of "x1 * sl"] pos_mod_sign [OF crop(2), of "x1 * sl"]
      pos_mod_bound [OF crop(2), of "w1 * sl + cl - 1"]
    by (simp_all only: distrib_right mult_1)
  have all: "(x1 + w1) * sl \<le> (x4 + w4) * cl"
  proof (cases expand)
    case True
    then have "(x2 + 1 + w2) * cl \<le> (x4 + w4) * cl" using b3 b4 crop(2) by (intro mult_right_mono) auto
    then show ?thesis using lower upper by (simp add: distrib_right)
  next
    case False
    then have "sl = cl" using ex by simp
    have "(w1 * cl + cl - 1) div cl = w1 + (cl - 1) div cl"
      using crop(2) div_mult_self3 [of cl w1 "cl - 1"] by (simp add: add_diff_eq)
    then have "x2 = x1" "w2 = w1" using crop(2) \<open>sl = cl\<close> by (simp_all add: x2_def w2_def)
    then show ?thesis using b3 b4 \<open>sl = cl\<close> False crop(2) by (auto intro!: mult_right_mono)
  qed
  have "x4 * cl \<le> (q - crop) * sl \<and> (q + 1 - crop) * sl \<le> (x4 + min w4 (sl - x4)) * cl"
    if q: "off \<le> q" "q < off + len" "crop \<le> q" "q < crop + cl" for q
  proof
    have "x4 * cl \<le> x2 * cl" using b3 b4 crop(2) by (intro mult_right_mono) auto
    also note lower(1)
    also have "x1 * sl \<le> (q - crop) * sl" using q sl by (intro mult_right_mono) (auto simp: x1_def)
    finally show "x4 * cl \<le> (q - crop) * sl" .
    have "(q + 1 - crop) * sl \<le> (x1 + w1) * sl" "(q + 1 - crop) * sl \<le> cl * sl"
      using q sl by (auto intro!: mult_right_mono simp: x1_def w1_def)
    then show "(q + 1 - crop) * sl \<le> (x4 + min w4 (sl - x4)) * cl"
      using all by (simp add: min_def mult.commute)
  qed
  then show ?thesis
    using res b3 b4 x2 by (intro exI [of _ x4] exI [of _ "min w4 (sl - x4)"]) auto
qed


section \<open>Properties\<close>

text \<open>
  On update rectangles as sets of pixels, \<open>intersectRect\<close> is the intersection and \<open>unionRect\<close>
  the bounding box: the smallest rectangle that contains both. Neither fails or overflows, and the
  result is again a proper rectangle.
\<close>

theorem update_rect_set_spec:
  assumes "rect_ok a" "rect_ok b"
  shows "(\<exists>r. intersectRect a b = Some r \<and> rect_ok r \<and> covers r = covers a \<inter> covers b) \<and>
    (\<exists>r. unionRect a b = Some r \<and> rect_ok r \<and> covers a \<union> covers b \<subseteq> covers r \<and>
      (\<forall>c. covers a \<union> covers b \<subseteq> covers c \<longrightarrow> covers r \<subseteq> covers c))"
  using intersectRect_set [OF assms] unionRect_bounding [OF assms] by blast

theorem update_rect_set_spec_witness:
  "\<exists>r. intersectRect (UpdateRect_new 4 4 0 0) (UpdateRect_new 4 4 2 3) = Some r \<and>
     covers r = covers (UpdateRect_new 4 4 0 0) \<inter> covers (UpdateRect_new 4 4 2 3)"
proof -
  have "rect_ok (UpdateRect_new 4 4 0 0)" "rect_ok (UpdateRect_new 4 4 2 3)"
    by (simp_all add: rect_ok_def int_range_defs)
  from update_rect_set_spec [OF this] show ?thesis by blast
qed

lemma scaleWithFrame_eq:
  assumes rect: "0 \<le> offsetX r" "0 \<le> width r" "offsetX r + width r \<le> fw"
      "0 \<le> offsetY r" "0 \<le> height r" "offsetY r + height r \<le> fh"
    and crop: "0 \<le> cx" "0 < cw" "cx + cw \<le> fw" "0 \<le> cy" "0 < ch" "cy + ch \<le> fh"
    and bounds: "fw \<le> 32767" "fh \<le> 32767" "0 < sw" "0 < sh"
  shows "scaleWithFrame r fw fh cx cy cw ch sw sh =
    (if offsetX r + width r < cx \<or> cx + cw < offsetX r \<or> offsetY r + height r < cy \<or> cy + cw < offsetY r then Some (UpdateRect_new 0 0 0 0)
     else do {
       (x, w) \<leftarrow> scale_axis (offsetX r) (width r) cx cw sw (sw \<noteq> cw \<or> sh \<noteq> ch);
       (y, h) \<leftarrow> scale_axis (offsetY r) (height r) cy ch sh (sw \<noteq> cw \<or> sh \<noteq> ch);
       Some (if w = 0 \<or> h = 0 then UpdateRect_new 0 0 0 0 else UpdateRect_new x y w h)
     })"
proof -
  have range: "in_int32 (cw + cx)" "in_int32 (ch + cy)" "in_int32 (offsetX r + width r)" "in_int32 (offsetY r + height r)"
      "in_int32 (cy + cw)"
    using rect crop bounds by (auto intro!: small_int32)
  show ?thesis
    using rect crop bounds range by (simp add: scaleWithFrame_def Let_def add.commute)
qed

text \<open>The axis of an update that is beyond the crop, one that begins before it, and one that is all of it.\<close>

lemma beyond_crop:
  fixes sl cl :: int
  assumes "(sl + 4) * cl \<le> (off - crop) * sl" "0 < sl" "0 < cl"
  shows "crop < off"
proof -
  have "0 < (sl + 4) * cl" using assms(2,3) by simp
  then have "0 < (off - crop) * sl" using assms(1) by linarith
  then show ?thesis using assms(2) by (simp add: zero_less_mult_iff)
qed

lemma scale_axis_beyond:
  assumes off: "0 \<le> off" "0 \<le> len" "off + len \<le> 32767" and crop: "0 \<le> crop" "0 < cl" "crop + cl \<le> 32767"
    and sl: "0 < sl" "sl \<le> 32767" and far: "(sl + 4) * cl \<le> (off - crop) * sl"
  shows "scale_axis off len crop cl sl expand = None"
proof -
  define x1 where "x1 = off - crop"
  define x2 where "x2 = x1 * sl div cl"
  define w2 where "w2 = (len * sl + cl - 1) div cl"
  have x1: "0 < x1" "x1 \<le> 32767" using beyond_crop [OF far sl(1) crop(2)] off crop by (auto simp: x1_def)
  have xs: "0 \<le> x1 * sl" "x1 * sl \<le> 32767 * 32767" and ws: "0 \<le> len * sl" "len * sl \<le> 32767 * 32767"
    using x1 off sl mult_mono [of x1 32767 sl 32767] mult_mono [of len 32767 sl 32767] by simp_all
  have x2: "sl + 4 \<le> x2" "x2 \<le> 32767 * 32767"
    using zdiv_mono1 [of "(sl + 4) * cl" "x1 * sl" cl] far crop xs div_le_self [of cl "x1 * sl"] by (auto simp: x2_def x1_def)
  have w2: "0 \<le> w2" "w2 \<le> 32767 * 32767 + 32767"
    using ws crop div_le_self [of cl "len * sl + cl - 1"] by (auto simp: w2_def)
  obtain x3 w3 where r3: "round_even x2 w2 = (x3, w3)" by (cases "round_even x2 w2")
  have b3: "0 \<le> x3" "x3 \<le> x2" "0 \<le> w3" "w3 \<le> w2 + 2" "even x3" using round_even_bounds [OF _ w2(1) r3] x2 sl by simp_all
  have "x2 - 1 \<le> x3" using r3 pos_mod_bound [of 2 x2] by (auto simp: round_even_def)
  obtain x4 w4 where r4: "grow expand (x3, w3) = (x4, w4)" by (cases "grow expand (x3, w3)")
  have x4: "sl < x4" "x4 \<le> x2" "0 \<le> w4" "w4 \<le> w2 + 6"
    using r4 b3 x2(1) \<open>x2 - 1 \<le> x3\<close> grow_bounds [OF b3(1,5,3) r4] by (auto simp: grow_def split: if_splits)
  have "axis_clip off len crop = Some (x1, len)"
    using off crop x1 by (auto simp: axis_clip_def x1_def small_int32)
  moreover have "int32 (x1 * sl) = Some (x1 * sl)" "div32 (x1 * sl) cl = Some x2" "int32 (len * sl) = Some (len * sl)"
      "int32 (len * sl + cl) = Some (len * sl + cl)" "div32 (len * sl + cl - 1) cl = Some w2"
    using xs ws crop by (auto simp: x2_def w2_def intro!: int32_Some div32_nonneg small_int32)
  moreover have "axis_round (x2, w2) = Some (x3, w3)"
    using x2 w2 sl r3 by (subst axis_round_eq) auto
  moreover have "(if expand then axis_expand (x3, w3) else Some (x3, w3)) = Some (x4, w4)"
    using r4 b3 w2 by (cases expand) (simp_all add: axis_expand_eq, simp add: grow_def)
  moreover have "axis_fit sl (x4, w4) = None"
    using x4 x2 w2 sl by (auto simp: axis_fit_def int32_def in_int32_def int_range_defs)
  ultimately show ?thesis by (simp add: scale_axis_def)
qed

lemma scale_axis_zero:
  assumes "scale_axis off len crop cl sl expand = Some (x, w)" "off \<le> crop"
  shows "x = 0"
  using assms
  by (auto simp: scale_axis_def axis_clip_def axis_round_def axis_expand_def axis_fit_def div32_def
      Option.bind_eq_Some_conv int32_eq_Some_iff split: if_splits)

lemma scale_axis_whole:
  assumes "0 < len" "len \<le> 32767" "0 < sl" "sl \<le> 32767" "expand \<or> sl = len"
  shows "scale_axis 0 len 0 len sl expand = Some (0, sl)"
proof -
  obtain x w where xw: "scale_axis 0 len 0 len sl expand = Some (x, w)" "0 \<le> w" "x + w \<le> sl"
      "\<forall>q. 0 \<le> q \<longrightarrow> q < 0 + len \<longrightarrow> 0 \<le> q \<longrightarrow> q < 0 + len \<longrightarrow>
        x * len \<le> (q - 0) * sl \<and> (q + 1 - 0) * sl \<le> (x + w) * len"
    using scale_axis_covers [of 0 len 0 len sl expand] assms by auto
  have "x = 0" by (rule scale_axis_zero [OF xw(1)]) simp
  moreover have "len * sl \<le> w * len" using xw(4) assms(1) \<open>x = 0\<close> by (auto dest: spec [of _ "len - 1"])
  then have "sl \<le> w" using assms(1) by (simp add: mult.commute)
  ultimately show ?thesis using xw by simp
qed




text \<open>
  C13: updates that get lost. Whatever the sizes, when the update begins at or before the left or the upper edge of the crop, the
  rectangle that \<open>scaleWithFrame\<close> returns covers no pixel, because the scaled corner is taken for the size. In particular
  a frame of which everything was updated (and at most 32767 pixels wide and high), scaled to any such
  size, reports an empty update. And the copy of a frame that has no update rectangle, which stands for an unknown update,
  says that it has one and that nothing was updated.
\<close>

theorem update_rect_defects:
  "(scaleWithFrame r fw fh cx cy cw ch sw sh = Some r' \<and> (offsetX r \<le> cx \<or> offsetY r \<le> cy) \<longrightarrow> covers r' = {}) \<and>
   (\<forall>w h sw sh. 0 < w \<and> w \<le> 32767 \<and> 0 < h \<and> h \<le> 32767 \<and> 0 < sw \<and> sw \<le> 32767 \<and> 0 < sh \<and> sh \<le> 32767 \<longrightarrow>
     (\<exists>e. scaleWithFrame (UpdateRect_new w h 0 0) w h 0 0 w h sw sh = Some e \<and> isEmpty e)) \<and>
   (mUpdateRect f = None \<and> VideoFrame_copy f = Some g \<longrightarrow> hasUpdateRect g \<and> covers (updateRect g) = {})"
proof (intro conjI impI allI)
  assume a: "scaleWithFrame r fw fh cx cy cw ch sw sh = Some r' \<and> (offsetX r \<le> cx \<or> offsetY r \<le> cy)"
  then consider "r' = UpdateRect_new 0 0 0 0"
    | x y w h where "scale_axis (offsetX r) (width r) cx cw sw (sw \<noteq> cw \<or> sh \<noteq> ch) = Some (x, w)"
        "scale_axis (offsetY r) (height r) cy ch sh (sw \<noteq> cw \<or> sh \<noteq> ch) = Some (y, h)" "r' = UpdateRect_new x y w h"
    by (auto simp: scaleWithFrame_def Let_def Option.bind_eq_Some_conv split: if_splits)
  then show "covers r' = {}"
  proof cases
    case (2 x y w h)
    then have "x = 0 \<or> y = 0" using a scale_axis_zero by blast
    then show ?thesis using 2(3) by (auto simp: covers_def)
  qed (simp add: covers_def)
next
  fix w h sw sh :: int
  assume b: "0 < w \<and> w \<le> 32767 \<and> 0 < h \<and> h \<le> 32767 \<and> 0 < sw \<and> sw \<le> 32767 \<and> 0 < sh \<and> sh \<le> 32767"
  then have "scaleWithFrame (UpdateRect_new w h 0 0) w h 0 0 w h sw sh = Some (UpdateRect_new 0 0 sw sh)"
    by (subst scaleWithFrame_eq) (auto simp: scale_axis_whole)
  then show "\<exists>e. scaleWithFrame (UpdateRect_new w h 0 0) w h 0 0 w h sw sh = Some e \<and> isEmpty e" by (simp add: isEmpty_def)
next
  assume "mUpdateRect f = None \<and> VideoFrame_copy f = Some g"
  then show "hasUpdateRect g" "covers (updateRect g) = {}"
    by (auto simp: VideoFrame_copy_def VideoFrame_new_def Let_def Option.bind_eq_Some_conv hasUpdateRect_def updateRect_def covers_def)
qed

theorem update_rect_defects_witness:
  "\<exists>e. scaleWithFrame (UpdateRect_new 640 480 0 0) 640 480 0 0 640 480 320 240 = Some e \<and> isEmpty e \<and> covers e = {}"
proof -
  obtain e where e: "scaleWithFrame (UpdateRect_new 640 480 0 0) 640 480 0 0 640 480 320 240 = Some e" "isEmpty e"
    using update_rect_defects [THEN conjunct2, THEN conjunct1, rule_format, of 640 480 320 240] by auto
  moreover have "covers e = {}"
    using update_rect_defects [THEN conjunct1, of "UpdateRect_new 640 480 0 0" 640 480 0 0 640 480 320 240 e] e(1) by simp
  ultimately show ?thesis by blast
qed

end
