(* ===== verification/VideoBroadcaster.thy ===== *)
theory VideoBroadcaster
  imports VideoFrame
begin

text \<open>
  \<open>VideoSinkWants\<close> (\<open>octk_video_source_interface.hpp\<close>), \<open>VideoSourceBase\<close>
  (\<open>octk_video_source_base.cpp\<close>) and \<open>VideoBroadcaster\<close> (\<open>octk_video_broadcaster.cpp\<close>) of
  \<open>src/libs/media/source/video\<close>.

  A sink is a pointer, a natural number with 0 for \<open>nullptr\<close>. The calls that the broadcaster makes
  to its sinks are events, returned in their order beside the new state. Every method holds the
  mutex from its first statement to its last, so a method is one step. The pixels of a black
  buffer, which \<open>libyuv::I420Rect\<close> writes, are the parameter \<open>black\<close>; the value of a default
  constructed \<open>RtpPacketInfos\<close> is the parameter \<open>no_infos\<close>.
\<close>

section \<open>Wants of a sink\<close>

record FrameSize =
  fs_width :: int
  fs_height :: int

record VideoSinkWants =
  rotationApplied :: bool
  blackFrames :: bool
  maxPixelCount :: int
  targetPixelCount :: "int option"
  maxFramerateFps :: int
  resolutionAlignment :: int
  resolutions :: "FrameSize list"
  requestedResolution :: "FrameSize option"
  isActive :: bool
  anyActiveWithoutRequestedResolution :: "bool option"

definition VideoSinkWants_default :: VideoSinkWants where
  "VideoSinkWants_default = \<lparr>rotationApplied = False, blackFrames = False, maxPixelCount = int32_max,
     targetPixelCount = None, maxFramerateFps = int32_max, resolutionAlignment = 1, resolutions = [],
     requestedResolution = None, isActive = False, anyActiveWithoutRequestedResolution = None\<rparr>"


section \<open>VideoSourceBase\<close>

type_synonym sink = nat
type_synonym sink_pairs = "(sink \<times> VideoSinkWants) list"

definition FindSinkPair :: "sink_pairs \<Rightarrow> sink \<Rightarrow> (sink \<times> VideoSinkWants) option" where
  "FindSinkPair sinks s = find (\<lambda>p. fst p = s) sinks"

primrec set_wants :: "sink \<Rightarrow> VideoSinkWants \<Rightarrow> sink_pairs \<Rightarrow> sink_pairs" where
  "set_wants s w [] = []"
| "set_wants s w (p # ps) = (if fst p = s then (s, w) # ps else p # set_wants s w ps)"

definition base_addOrUpdateSink :: "sink \<Rightarrow> VideoSinkWants \<Rightarrow> sink_pairs \<Rightarrow> sink_pairs option" where
  "base_addOrUpdateSink s w sinks = do {
     dcheck (s \<noteq> 0);
     Some (if FindSinkPair sinks s = None then sinks @ [(s, w)] else set_wants s w sinks)
   }"

definition base_removeSink :: "sink \<Rightarrow> sink_pairs \<Rightarrow> sink_pairs option" where
  "base_removeSink s sinks = do {
     dcheck (s \<noteq> 0);
     dcheck (FindSinkPair sinks s \<noteq> None);
     Some (filter (\<lambda>p. fst p \<noteq> s) sinks)
   }"


section \<open>VideoBroadcaster\<close>

record ('p, 't) broadcaster =
  mSinks :: sink_pairs
  mCurrentWants :: VideoSinkWants
  mBlackFrameBuffer :: "'p buffer option"
  mPreviousFrameSentToAllSinks :: bool
  mLastConstraints :: "'t option"

datatype ('p, 'c, 'i, 't) event =
  OnFrame sink "('p, 'c, 'i) video_frame"
| OnDiscardedFrame sink
| OnConstraintsChanged sink 't

definition VideoBroadcaster_new :: "('p, 't) broadcaster" where
  "VideoBroadcaster_new = \<lparr>mSinks = [], mCurrentWants = VideoSinkWants_default, mBlackFrameBuffer = None,
     mPreviousFrameSentToAllSinks = True, mLastConstraints = None\<rparr>"

text \<open>\<open>*a < *b\<close> on an unset \<open>b\<close> counts as true.\<close>

definition less_or_unset :: "int \<Rightarrow> int option \<Rightarrow> bool" where
  "less_or_unset a b = (case b of None \<Rightarrow> True | Some v \<Rightarrow> a < v)"

text \<open>The body of the second loop of \<open>UpdateWants\<close>.\<close>

definition aggregate_sink :: "bool \<Rightarrow> VideoSinkWants \<Rightarrow> VideoSinkWants \<Rightarrow> VideoSinkWants option" where
  "aggregate_sink ignore_inactive w s =
     (if \<not> isActive s \<and> (requestedResolution s \<noteq> None \<or> ignore_inactive) then Some w
      else do {
        let w = (if rotationApplied s then w\<lparr>rotationApplied := True\<rparr> else w);
        let w = (if maxPixelCount s < maxPixelCount w then w\<lparr>maxPixelCount := maxPixelCount s\<rparr> else w);
        let w = (case targetPixelCount s of
                   None \<Rightarrow> w
                 | Some t \<Rightarrow> if less_or_unset t (targetPixelCount w) then w\<lparr>targetPixelCount := Some t\<rparr> else w);
        let w = (if maxFramerateFps s < maxFramerateFps w then w\<lparr>maxFramerateFps := maxFramerateFps s\<rparr> else w);
        a \<leftarrow> lcm_c (resolutionAlignment w) (resolutionAlignment s);
        let w = w\<lparr>resolutionAlignment := a\<rparr>;
        let w = (case requestedResolution s of
                   Some rs \<Rightarrow>
                     (case requestedResolution w of
                        None \<Rightarrow> w\<lparr>requestedResolution := Some rs\<rparr>
                      | Some rw \<Rightarrow> w\<lparr>requestedResolution := Some (rw\<lparr>
                          fs_width := max (fs_width rw) (fs_width rs),
                          fs_height := max (fs_height rw) (fs_height rs)\<rparr>)\<rparr>)
                 | None \<Rightarrow> if isActive s then w\<lparr>anyActiveWithoutRequestedResolution := Some True\<rparr> else w);
        Some (w\<lparr>isActive := isActive w \<or> isActive s\<rparr>)
      })"

primrec aggregate_all :: "bool \<Rightarrow> VideoSinkWants \<Rightarrow> sink_pairs \<Rightarrow> VideoSinkWants option" where
  "aggregate_all ignore_inactive w [] = Some w"
| "aggregate_all ignore_inactive w (p # ps) = do {
     w \<leftarrow> aggregate_sink ignore_inactive w (snd p);
     aggregate_all ignore_inactive w ps
   }"

definition ignore_inactive_encoders_old_api :: "sink_pairs \<Rightarrow> bool" where
  "ignore_inactive_encoders_old_api sinks \<longleftrightarrow>
     (\<exists>p \<in> set sinks. isActive (snd p) \<and> requestedResolution (snd p) \<noteq> None)"

definition clamp_target :: "VideoSinkWants \<Rightarrow> VideoSinkWants" where
  "clamp_target w =
     (case targetPixelCount w of
        Some t \<Rightarrow> if maxPixelCount w \<le> t then w\<lparr>targetPixelCount := Some (maxPixelCount w)\<rparr> else w
      | None \<Rightarrow> w)"

definition combined_wants :: "sink_pairs \<Rightarrow> VideoSinkWants option" where
  "combined_wants sinks = do {
     let w = VideoSinkWants_default\<lparr>rotationApplied := False, resolutionAlignment := 1,
       anyActiveWithoutRequestedResolution := Some False, isActive := False\<rparr>;
     w \<leftarrow> aggregate_all (ignore_inactive_encoders_old_api sinks) w sinks;
     Some (clamp_target w)
   }"

definition UpdateWants :: "('p, 't) broadcaster \<Rightarrow> ('p, 't) broadcaster option" where
  "UpdateWants b = do { w \<leftarrow> combined_wants (mSinks b); Some (b\<lparr>mCurrentWants := w\<rparr>) }"

definition addOrUpdateSink ::
    "sink \<Rightarrow> VideoSinkWants \<Rightarrow> ('p, 't) broadcaster \<Rightarrow>
     (('p, 't) broadcaster \<times> ('p, 'c, 'i, 't) event list) option" where
  "addOrUpdateSink s w b = do {
     dcheck (s \<noteq> 0);
     let (b, evs) =
       (if FindSinkPair (mSinks b) s = None
        then (b\<lparr>mPreviousFrameSentToAllSinks := False\<rparr>,
              case mLastConstraints b of Some c \<Rightarrow> [OnConstraintsChanged s c] | None \<Rightarrow> [])
        else (b, []));
     sinks \<leftarrow> base_addOrUpdateSink s w (mSinks b);
     b \<leftarrow> UpdateWants (b\<lparr>mSinks := sinks\<rparr>);
     Some (b, evs)
   }"

definition removeSink :: "sink \<Rightarrow> ('p, 't) broadcaster \<Rightarrow> ('p, 't) broadcaster option" where
  "removeSink s b = do {
     dcheck (s \<noteq> 0);
     sinks \<leftarrow> base_removeSink s (mSinks b);
     UpdateWants (b\<lparr>mSinks := sinks\<rparr>)
   }"

definition frameWanted :: "('p, 't) broadcaster \<Rightarrow> bool" where
  "frameWanted b \<longleftrightarrow> mSinks b \<noteq> []"

text \<open>\<open>I420Buffer::create\<close>: the size of the planes must fit in an \<open>int\<close>, and the dimensions are checked.\<close>

definition I420Buffer_create :: "int \<Rightarrow> int \<Rightarrow> 'p \<Rightarrow> 'p buffer option" where
  "I420Buffer_create w h px = do {
     w1 \<leftarrow> int32 (w + 1);
     I420DataSize h w (w1 sdiv 2) (w1 sdiv 2);
     dcheck (0 < w);
     dcheck (0 < h);
     Some \<lparr>buf_width = w, buf_height = h, pixels = px\<rparr>
   }"

definition GetBlackFrameBuffer ::
    "(int \<Rightarrow> int \<Rightarrow> 'p) \<Rightarrow> int \<Rightarrow> int \<Rightarrow> 'p buffer option \<Rightarrow> 'p buffer option" where
  "GetBlackFrameBuffer black w h cache =
     (case cache of
        Some buf \<Rightarrow> if buf_width buf \<noteq> w \<or> buf_height buf \<noteq> h then I420Buffer_create w h (black w h) else Some buf
      | None \<Rightarrow> I420Buffer_create w h (black w h))"

text \<open>
  The body of the loop of \<open>onFrame\<close> for one sink: the call to it, and the cached black buffer after.
\<close>

definition deliver ::
    "(int \<Rightarrow> int \<Rightarrow> 'p) \<Rightarrow> 'i \<Rightarrow> ('p, 'c, 'i) video_frame \<Rightarrow> bool \<Rightarrow> sink \<times> VideoSinkWants \<Rightarrow> 'p buffer option \<Rightarrow>
     (('p, 'c, 'i, 't) event \<times> 'p buffer option) option" where
  "deliver black no_infos f sent_to_all sinkPair cache =
     (if rotationApplied (snd sinkPair) \<and> mRotation f \<noteq> kAngle0
      then Some (OnDiscardedFrame (fst sinkPair), cache)
      else if blackFrames (snd sinkPair) then do {
        buf \<leftarrow> GetBlackFrameBuffer black (frame_width f) (frame_height f) cache;
        g \<leftarrow> build (builder_setId (mId f) (builder_setTimestampUSecs (mTimestampUSecs f)
               (builder_setRotation (mRotation f) (builder_setVideoFrameBuffer (Some buf) (Builder no_infos)))));
        Some (OnFrame (fst sinkPair) g, Some buf)
      }
      else if \<not> sent_to_all \<and> hasUpdateRect f then do {
        g \<leftarrow> VideoFrame_copy f;
        Some (OnFrame (fst sinkPair) (clearUpdateRect g), cache)
      }
      else Some (OnFrame (fst sinkPair) f, cache))"

fun deliver_all ::
    "(int \<Rightarrow> int \<Rightarrow> 'p) \<Rightarrow> 'i \<Rightarrow> ('p, 'c, 'i) video_frame \<Rightarrow> bool \<Rightarrow> sink_pairs \<Rightarrow> 'p buffer option \<Rightarrow>
     (('p, 'c, 'i, 't) event list \<times> 'p buffer option) option" where
  "deliver_all black no_infos f sent_to_all [] cache = Some ([], cache)"
| "deliver_all black no_infos f sent_to_all (p # ps) cache = do {
     (ev, cache) \<leftarrow> deliver black no_infos f sent_to_all p cache;
     (evs, cache) \<leftarrow> deliver_all black no_infos f sent_to_all ps cache;
     Some (ev # evs, cache)
   }"

fun is_discard :: "('p, 'c, 'i, 't) event \<Rightarrow> bool" where
  "is_discard (OnDiscardedFrame s) = True"
| "is_discard _ = False"

definition onFrame ::
    "(int \<Rightarrow> int \<Rightarrow> 'p) \<Rightarrow> 'i \<Rightarrow> ('p, 'c, 'i) video_frame \<Rightarrow> ('p, 't) broadcaster \<Rightarrow>
     (('p, 't) broadcaster \<times> ('p, 'c, 'i, 't) event list) option" where
  "onFrame black no_infos f b = do {
     (evs, cache) \<leftarrow> deliver_all black no_infos f (mPreviousFrameSentToAllSinks b) (mSinks b) (mBlackFrameBuffer b);
     let currentFrameWasDiscarded = (\<exists>e \<in> set evs. is_discard e);
     Some (b\<lparr>mBlackFrameBuffer := cache, mPreviousFrameSentToAllSinks := \<not> currentFrameWasDiscarded\<rparr>, evs)
   }"

definition onDiscardedFrame :: "('p, 't) broadcaster \<Rightarrow> ('p, 'c, 'i, 't) event list" where
  "onDiscardedFrame b = map (\<lambda>p. OnDiscardedFrame (fst p)) (mSinks b)"

definition processConstraints ::
    "'t \<Rightarrow> ('p, 't) broadcaster \<Rightarrow> ('p, 't) broadcaster \<times> ('p, 'c, 'i, 't) event list" where
  "processConstraints c b =
     (b\<lparr>mLastConstraints := Some c\<rparr>, map (\<lambda>p. OnConstraintsChanged (fst p) c) (mSinks b))"


section \<open>The registry of sinks\<close>

text \<open>
  What the broadcaster relies on in its base class: a finite map from sinks to their wants, in which
  adding a known sink updates it. The laws also hold of \<open>VideoSourceBaseGuarded\<close>, the same code
  under a check that the caller is on the right sequence.
\<close>

definition guarded_addOrUpdateSink :: "bool \<Rightarrow> sink \<Rightarrow> VideoSinkWants \<Rightarrow> sink_pairs \<Rightarrow> sink_pairs option" where
  "guarded_addOrUpdateSink on_sequence s w sinks = do {
     dcheck on_sequence;
     dcheck (s \<noteq> 0);
     dcheck on_sequence;
     Some (if FindSinkPair sinks s = None then sinks @ [(s, w)] else set_wants s w sinks)
   }"

definition guarded_removeSink :: "bool \<Rightarrow> sink \<Rightarrow> sink_pairs \<Rightarrow> sink_pairs option" where
  "guarded_removeSink on_sequence s sinks = do {
     dcheck on_sequence;
     dcheck (s \<noteq> 0);
     dcheck (FindSinkPair sinks s \<noteq> None);
     Some (filter (\<lambda>p. fst p \<noteq> s) sinks)
   }"

locale sink_registry =
  fixes lookup :: "'r \<Rightarrow> sink \<Rightarrow> VideoSinkWants option"
    and add :: "sink \<Rightarrow> VideoSinkWants \<Rightarrow> 'r \<Rightarrow> 'r option"
    and rem :: "sink \<Rightarrow> 'r \<Rightarrow> 'r option"
    and inv :: "'r \<Rightarrow> bool"
  assumes add_law: "inv r \<Longrightarrow> s \<noteq> 0 \<Longrightarrow> \<exists>r'. add s w r = Some r' \<and> inv r' \<and> lookup r' = (lookup r)(s \<mapsto> w)"
    and rem_law: "inv r \<Longrightarrow> s \<noteq> 0 \<Longrightarrow> lookup r s \<noteq> None \<Longrightarrow>
      \<exists>r'. rem s r = Some r' \<and> inv r' \<and> lookup r' = (lookup r)(s := None)"
    and null_law: "add 0 w r = None" "rem 0 r = None"
    and absent_law: "lookup r s = None \<Longrightarrow> rem s r = None"
begin

lemma add_invariant: "inv r \<Longrightarrow> add s w r = Some r' \<Longrightarrow> inv r' \<and> s \<noteq> 0 \<and> lookup r' = (lookup r)(s \<mapsto> w)"
  using add_law [of r s w] null_law(1) [of w r] by (cases "s = 0") auto

lemma rem_invariant: "inv r \<Longrightarrow> rem s r = Some r' \<Longrightarrow> inv r' \<and> s \<noteq> 0 \<and> lookup r' = (lookup r)(s := None)"
  using rem_law [of r s] null_law(2) [of r] absent_law [of r s] by (cases "s = 0"; cases "lookup r s") auto

lemma remove_added: "inv r \<Longrightarrow> add s w r = Some r' \<Longrightarrow> \<exists>r''. rem s r' = Some r'' \<and> lookup r'' = (lookup r)(s := None)"
  using add_invariant [of r s w r'] rem_law [of r' s] by auto

end

definition sinks_lookup :: "sink_pairs \<Rightarrow> sink \<Rightarrow> VideoSinkWants option" where
  "sinks_lookup sinks s = map_option snd (FindSinkPair sinks s)"

definition sinks_inv :: "sink_pairs \<Rightarrow> bool" where
  "sinks_inv sinks \<longleftrightarrow> distinct (map fst sinks) \<and> 0 \<notin> fst ` set sinks"

lemma sinks_lookup_map_of: "sinks_lookup sinks s = map_of sinks s"
  by (induction sinks) (auto simp: sinks_lookup_def FindSinkPair_def)

lemma FindSinkPair_None: "FindSinkPair sinks s = None \<longleftrightarrow> s \<notin> fst ` set sinks"
  by (induction sinks) (auto simp: FindSinkPair_def)

lemma set_wants_fst [simp]: "map fst (set_wants s w sinks) = map fst sinks"
  by (induction sinks) auto

lemma set_wants_lookup: "s \<in> fst ` set sinks \<Longrightarrow> map_of (set_wants s w sinks) = (map_of sinks)(s \<mapsto> w)"
proof (induction sinks)
  case (Cons p sinks)
  then show ?case
  proof (cases "fst p = s")
    case False
    then have "map_of (set_wants s w sinks) = (map_of sinks)(s \<mapsto> w)" using Cons by auto
    then show ?thesis using False by (auto simp: fun_eq_iff)
  qed (auto simp: fun_eq_iff)
qed simp

lemma map_of_append_new: "s \<notin> fst ` set sinks \<Longrightarrow> map_of (sinks @ [(s, w)]) = (map_of sinks)(s \<mapsto> w)"
  by (induction sinks) (auto simp: fun_eq_iff)

lemma map_of_filter_ne: "map_of (filter (\<lambda>p. fst p \<noteq> s) sinks) = (map_of sinks)(s := None)"
  by (induction sinks) (auto simp: fun_eq_iff)

lemma sinks_inv_add:
  "sinks_inv sinks \<Longrightarrow> s \<noteq> 0 \<Longrightarrow> s \<notin> fst ` set sinks \<Longrightarrow> sinks_inv (sinks @ [(s, w)])"
  by (auto simp: sinks_inv_def)

lemma sinks_inv_set: "sinks_inv sinks \<Longrightarrow> sinks_inv (set_wants s w sinks)"
  unfolding sinks_inv_def by (metis set_wants_fst set_map)

lemma sinks_inv_filter: "sinks_inv sinks \<Longrightarrow> sinks_inv (filter P sinks)"
  by (auto simp: sinks_inv_def distinct_map inj_on_def)

lemmas registry_facts = FindSinkPair_None sinks_lookup_map_of set_wants_lookup map_of_append_new map_of_filter_ne
  sinks_inv_add sinks_inv_set sinks_inv_filter map_of_eq_None_iff

interpretation base: sink_registry sinks_lookup base_addOrUpdateSink base_removeSink sinks_inv
  by unfold_locales (auto simp: base_addOrUpdateSink_def base_removeSink_def registry_facts fun_eq_iff simp del: map_of_append)

interpretation guarded: sink_registry sinks_lookup "guarded_addOrUpdateSink True" "guarded_removeSink True" sinks_inv
  by unfold_locales (auto simp: guarded_addOrUpdateSink_def guarded_removeSink_def registry_facts fun_eq_iff simp del: map_of_append)


section \<open>The combined wants\<close>

text \<open>The sinks that count: the active ones, and passive ones of the old kind unless they are ignored.\<close>

definition counted :: "bool \<Rightarrow> VideoSinkWants \<Rightarrow> bool" where
  "counted ignore_inactive w \<longleftrightarrow> isActive w \<or> requestedResolution w = None \<and> \<not> ignore_inactive"

definition counted_wants :: "sink_pairs \<Rightarrow> VideoSinkWants list" where
  "counted_wants sinks = filter (counted (ignore_inactive_encoders_old_api sinks)) (map snd sinks)"

definition join_target :: "int option \<Rightarrow> int option \<Rightarrow> int option" where
  "join_target s w = (case s of None \<Rightarrow> w | Some t \<Rightarrow> if less_or_unset t w then Some t else w)"

definition join_size :: "FrameSize option \<Rightarrow> FrameSize option \<Rightarrow> FrameSize option" where
  "join_size s w =
     (case s of
        None \<Rightarrow> w
      | Some rs \<Rightarrow> Some (case w of
          None \<Rightarrow> rs
        | Some rw \<Rightarrow> rw\<lparr>fs_width := max (fs_width rw) (fs_width rs), fs_height := max (fs_height rw) (fs_height rs)\<rparr>))"

text \<open>Each conditional update of the code as an update of its field.\<close>

lemma aggregate_updates:
  fixes w :: VideoSinkWants
  shows "(if b then w\<lparr>rotationApplied := True\<rparr> else w) = w\<lparr>rotationApplied := rotationApplied w \<or> b\<rparr>"
    "(if x < maxPixelCount w then w\<lparr>maxPixelCount := x\<rparr> else w) = w\<lparr>maxPixelCount := min x (maxPixelCount w)\<rparr>"
    "(case t of None \<Rightarrow> w | Some u \<Rightarrow> if less_or_unset u (targetPixelCount w) then w\<lparr>targetPixelCount := Some u\<rparr> else w) =
       w\<lparr>targetPixelCount := join_target t (targetPixelCount w)\<rparr>"
    "(if x < maxFramerateFps w then w\<lparr>maxFramerateFps := x\<rparr> else w) = w\<lparr>maxFramerateFps := min x (maxFramerateFps w)\<rparr>"
    "(case r of
        Some rs \<Rightarrow>
          (case requestedResolution w of
             None \<Rightarrow> w\<lparr>requestedResolution := Some rs\<rparr>
           | Some rw \<Rightarrow> w\<lparr>requestedResolution := Some (rw\<lparr>
               fs_width := max (fs_width rw) (fs_width rs), fs_height := max (fs_height rw) (fs_height rs)\<rparr>)\<rparr>)
      | None \<Rightarrow> if b then w\<lparr>anyActiveWithoutRequestedResolution := Some True\<rparr> else w) =
       w\<lparr>requestedResolution := join_size r (requestedResolution w),
         anyActiveWithoutRequestedResolution :=
           (if r = None \<and> b then Some True else anyActiveWithoutRequestedResolution w)\<rparr>"
  by (cases w; auto simp: join_target_def join_size_def split: option.split)+

definition join_wants :: "VideoSinkWants \<Rightarrow> VideoSinkWants \<Rightarrow> int \<Rightarrow> VideoSinkWants" where
  "join_wants w s a = w\<lparr>rotationApplied := rotationApplied w \<or> rotationApplied s,
     maxPixelCount := min (maxPixelCount s) (maxPixelCount w),
     targetPixelCount := join_target (targetPixelCount s) (targetPixelCount w),
     maxFramerateFps := min (maxFramerateFps s) (maxFramerateFps w),
     resolutionAlignment := a,
     requestedResolution := join_size (requestedResolution s) (requestedResolution w),
     anyActiveWithoutRequestedResolution :=
       (if requestedResolution s = None \<and> isActive s then Some True else anyActiveWithoutRequestedResolution w),
     isActive := isActive w \<or> isActive s\<rparr>"

lemma aggregate_sink_eq:
  "aggregate_sink ig w s =
     (if counted ig s then map_option (join_wants w s) (lcm_c (resolutionAlignment w) (resolutionAlignment s)) else Some w)"
  unfolding aggregate_sink_def aggregate_updates counted_def Let_def
  by (cases "lcm_c (resolutionAlignment w) (resolutionAlignment s)") (auto simp: join_wants_def)

lemma join_wants_sel [simp]:
  "rotationApplied (join_wants w s a) \<longleftrightarrow> rotationApplied w \<or> rotationApplied s"
  "maxPixelCount (join_wants w s a) = min (maxPixelCount s) (maxPixelCount w)"
  "targetPixelCount (join_wants w s a) = join_target (targetPixelCount s) (targetPixelCount w)"
  "maxFramerateFps (join_wants w s a) = min (maxFramerateFps s) (maxFramerateFps w)"
  "resolutionAlignment (join_wants w s a) = a"
  "requestedResolution (join_wants w s a) = join_size (requestedResolution s) (requestedResolution w)"
  "anyActiveWithoutRequestedResolution (join_wants w s a) =
     (if requestedResolution s = None \<and> isActive s then Some True else anyActiveWithoutRequestedResolution w)"
  "isActive (join_wants w s a) \<longleftrightarrow> isActive w \<or> isActive s"
  by (simp_all add: join_wants_def)

primrec join_all :: "VideoSinkWants \<Rightarrow> VideoSinkWants list \<Rightarrow> VideoSinkWants option" where
  "join_all w [] = Some w"
| "join_all w (s # ss) = do { a \<leftarrow> lcm_c (resolutionAlignment w) (resolutionAlignment s); join_all (join_wants w s a) ss }"

lemma aggregate_all_eq: "aggregate_all ig w sinks = join_all w (filter (counted ig) (map snd sinks))"
proof (induction sinks arbitrary: w)
  case (Cons p sinks)
  then show ?case
    by (cases "lcm_c (resolutionAlignment w) (resolutionAlignment (snd p))") (simp_all add: aggregate_sink_eq)
qed simp

lemma join_all_fields:
  assumes "join_all w ss = Some w'"
  shows "rotationApplied w' \<longleftrightarrow> rotationApplied w \<or> (\<exists>s \<in> set ss. rotationApplied s)"
    "maxPixelCount w' = fold min (map maxPixelCount ss) (maxPixelCount w)"
    "targetPixelCount w' = fold join_target (map targetPixelCount ss) (targetPixelCount w)"
    "maxFramerateFps w' = fold min (map maxFramerateFps ss) (maxFramerateFps w)"
    "requestedResolution w' = fold join_size (map requestedResolution ss) (requestedResolution w)"
    "isActive w' \<longleftrightarrow> isActive w \<or> (\<exists>s \<in> set ss. isActive s)"
    "anyActiveWithoutRequestedResolution w' =
       (if \<exists>s \<in> set ss. requestedResolution s = None \<and> isActive s then Some True else anyActiveWithoutRequestedResolution w)"
  using assms by (induction ss arbitrary: w) (fastforce simp: Option.bind_eq_Some_conv)+

lemma fold_lcm_dvd: "a dvd fold lcm xs (a :: int)"
  by (induction xs arbitrary: a) (auto intro: dvd_trans [OF dvd_lcm2])

lemma fold_lcm_pos: "0 < a \<Longrightarrow> \<forall>x \<in> set xs. 0 < x \<Longrightarrow> 0 < fold lcm xs (a :: int)"
  by (induction xs arbitrary: a) (auto simp: lcm_pos_int)

lemma join_all_Some:
  assumes "0 < resolutionAlignment w" "\<forall>s \<in> set ss. 0 < resolutionAlignment s \<and> resolutionAlignment s \<le> int32_max"
    and "fold lcm (map resolutionAlignment ss) (resolutionAlignment w) \<le> int32_max"
  shows "\<exists>w'. join_all w ss = Some w' \<and> resolutionAlignment w' = fold lcm (map resolutionAlignment ss) (resolutionAlignment w)"
  using assms
proof (induction ss arbitrary: w)
  case (Cons s ss)
  let ?a = "resolutionAlignment w" and ?b = "resolutionAlignment s"
  let ?r = "fold lcm (map resolutionAlignment (s # ss)) ?a"
  have pos: "0 < lcm ?b ?a" "0 < ?r" using Cons.prems by (auto intro!: lcm_pos_int fold_lcm_pos)
  have "lcm ?b ?a dvd ?r" using fold_lcm_dvd [of "lcm ?b ?a" "map resolutionAlignment ss"] by simp
  moreover from this have "?a dvd ?r" by (rule dvd_trans [OF dvd_lcm2])
  ultimately have "lcm ?b ?a \<le> ?r" "?a \<le> ?r" using pos(2) by (simp_all only: zdvd_imp_le)
  then have "lcm ?b ?a \<le> int32_max" "?a \<le> int32_max" using Cons.prems(3) by linarith+
  then have "lcm_c ?a ?b = Some (lcm ?b ?a)"
    using Cons.prems pos by (subst lcm_c_correct) (auto simp: in_int32_def int_range_defs lcm.commute)
  then show ?case using Cons.IH [of "join_wants w s (lcm ?b ?a)"] Cons.prems pos by simp
qed simp

lemma join_all_alignment:
  assumes "join_all w ss = Some w'" "0 < resolutionAlignment w" "resolutionAlignment w \<le> int32_max"
    and "\<forall>s \<in> set ss. 0 < resolutionAlignment s \<and> resolutionAlignment s \<le> int32_max"
  shows "resolutionAlignment w' = fold lcm (map resolutionAlignment ss) (resolutionAlignment w) \<and>
    0 < resolutionAlignment w' \<and> resolutionAlignment w' \<le> int32_max"
  using assms
proof (induction ss arbitrary: w)
  case (Cons s ss)
  then have "lcm_c (resolutionAlignment w) (resolutionAlignment s) = int32 (lcm (resolutionAlignment w) (resolutionAlignment s))"
    by (intro lcm_c_correct) (auto simp: in_int32_def int_range_defs)
  then have "join_all (join_wants w s (lcm (resolutionAlignment s) (resolutionAlignment w))) ss = Some w' \<and>
      lcm (resolutionAlignment s) (resolutionAlignment w) \<le> int32_max"
    using Cons.prems(1)
    by (auto simp: int32_def in_int32_def lcm.commute split: if_splits)
  then show ?case
    using Cons.IH [of "join_wants w s (lcm (resolutionAlignment s) (resolutionAlignment w))"] Cons.prems
    by (simp add: lcm_pos_int)
qed simp

text \<open>The folds as bounds of sets.\<close>

lemma fold_min_Min: "fold min xs (a :: int) = Min (insert a (set xs))"
  by (simp add: Min.set_eq_fold [symmetric])

definition opt_join :: "(int \<Rightarrow> int \<Rightarrow> int) \<Rightarrow> int option \<Rightarrow> int option \<Rightarrow> int option" where
  "opt_join f s w = (case s of None \<Rightarrow> w | Some u \<Rightarrow> Some (case w of None \<Rightarrow> u | Some v \<Rightarrow> f u v))"

lemma opt_join_simps [simp]:
  "opt_join f None w = w" "opt_join f (Some u) None = Some u" "opt_join f (Some u) (Some v) = Some (f u v)"
  by (simp_all add: opt_join_def)

definition given :: "int option list \<Rightarrow> int list" where
  "given xs = map the (filter (\<lambda>x. x \<noteq> None) xs)"

lemma given_simps [simp]: "given [] = []" "given (None # xs) = given xs" "given (Some x # xs) = x # given xs"
  by (simp_all add: given_def)

lemma set_given: "set (given xs) = {t. Some t \<in> set xs}"
  by (induction xs) (auto simp: given_def)

lemma fold_opt_join_Some: "fold (opt_join f) xs (Some v) = Some (fold f (given xs) v)"
proof (induction xs arbitrary: v)
  case (Cons x xs)
  then show ?case by (cases x) simp_all
qed simp

lemma fold_opt_join_None:
  "fold (opt_join f) xs None = (case given xs of [] \<Rightarrow> None | y # ys \<Rightarrow> Some (fold f ys y))"
proof (induction xs)
  case (Cons x xs)
  then show ?case
    using fold_opt_join_Some [of f xs] by (cases x) simp_all
qed simp

lemma join_target_opt_join: "join_target = opt_join min"
  by (auto simp: fun_eq_iff join_target_def opt_join_def less_or_unset_def min_def split: option.split)

lemma fold_join_size:
  "map_option fs_width (fold join_size xs acc) = fold (opt_join max) (map (map_option fs_width) xs) (map_option fs_width acc)"
  "map_option fs_height (fold join_size xs acc) = fold (opt_join max) (map (map_option fs_height) xs) (map_option fs_height acc)"
proof (induction xs arbitrary: acc)
  case (Cons x xs)
  have step: "map_option fs_width (join_size x acc) = opt_join max (map_option fs_width x) (map_option fs_width acc)"
    "map_option fs_height (join_size x acc) = opt_join max (map_option fs_height x) (map_option fs_height acc)" for acc
    by (auto simp: join_size_def opt_join_def split: option.split)
  case 1
  then show ?case using Cons.IH(1) [of "join_size x acc"] unfolding step by simp
  case 2
  then show ?case using Cons.IH(2) [of "join_size x acc"] unfolding step by simp
qed simp_all

text \<open>Least and greatest of the values given, if any is.\<close>

definition opt_Min :: "int option set \<Rightarrow> int option" where
  "opt_Min S = (if S \<subseteq> {None} then None else Some (Min {t. Some t \<in> S}))"

definition opt_Max :: "int option set \<Rightarrow> int option" where
  "opt_Max S = (if S \<subseteq> {None} then None else Some (Max {t. Some t \<in> S}))"

lemma fold_join_opt:
  "fold join_target xs None = opt_Min (set xs)" "fold (opt_join max) xs None = opt_Max (set xs)"
proof -
  have *: "given xs = [] \<longleftrightarrow> set xs \<subseteq> {None}" by (auto simp: given_def filter_empty_conv)
  show "fold join_target xs None = opt_Min (set xs)" "fold (opt_join max) xs None = opt_Max (set xs)"
    unfolding join_target_opt_join fold_opt_join_None opt_Min_def opt_Max_def * [symmetric] set_given [symmetric]
    by (cases "given xs"; simp add: Min.set_eq_fold [symmetric] Max.set_eq_fold [symmetric])+
qed

abbreviation initial_wants :: VideoSinkWants where
  "initial_wants \<equiv> VideoSinkWants_default\<lparr>rotationApplied := False, resolutionAlignment := 1,
     anyActiveWithoutRequestedResolution := Some False, isActive := False\<rparr>"

lemma combined_wants_eq:
  "combined_wants sinks = map_option clamp_target (join_all initial_wants (counted_wants sinks))"
  by (cases "join_all initial_wants (counted_wants sinks)")
    (simp_all add: combined_wants_def aggregate_all_eq counted_wants_def Let_def)

lemma clamp_target_sel [simp]:
  "targetPixelCount (clamp_target w) = map_option (min (maxPixelCount w)) (targetPixelCount w)"
  "rotationApplied (clamp_target w) = rotationApplied w" "maxPixelCount (clamp_target w) = maxPixelCount w"
  "maxFramerateFps (clamp_target w) = maxFramerateFps w" "resolutionAlignment (clamp_target w) = resolutionAlignment w"
  "requestedResolution (clamp_target w) = requestedResolution w" "isActive (clamp_target w) = isActive w"
  "anyActiveWithoutRequestedResolution (clamp_target w) = anyActiveWithoutRequestedResolution w"
  by (auto simp: clamp_target_def split: option.split)


section \<open>Delivery of frames\<close>

fun event_sink :: "('p, 'c, 'i, 't) event \<Rightarrow> sink" where
  "event_sink (OnFrame s g) = s"
| "event_sink (OnDiscardedFrame s) = s"
| "event_sink (OnConstraintsChanged s c) = s"

text \<open>A frame of a usable size whose update rectangle, if any, lies in it.\<close>

definition frame_ok :: "('p, 'c, 'i) video_frame \<Rightarrow> bool" where
  "frame_ok f \<longleftrightarrow> mVideoFrameBuffer f \<noteq> None \<and>
     0 < frame_width f \<and> frame_width f \<le> 16384 \<and> 0 < frame_height f \<and> frame_height f \<le> 16384 \<and>
     (\<forall>r. mUpdateRect f = Some r \<longrightarrow> 0 \<le> offsetX r \<and> 0 \<le> offsetY r \<and> 0 \<le> width r \<and> 0 \<le> height r \<and>
        offsetX r + width r \<le> frame_width f \<and> offsetY r + height r \<le> frame_height f)"

definition black_buffer :: "(int \<Rightarrow> int \<Rightarrow> 'p) \<Rightarrow> int \<Rightarrow> int \<Rightarrow> 'p buffer" where
  "black_buffer black w h = \<lparr>buf_width = w, buf_height = h, pixels = black w h\<rparr>"

definition cache_ok :: "(int \<Rightarrow> int \<Rightarrow> 'p) \<Rightarrow> 'p buffer option \<Rightarrow> bool" where
  "cache_ok black cache \<longleftrightarrow> (\<forall>buf. cache = Some buf \<longrightarrow> buf = black_buffer black (buf_width buf) (buf_height buf))"

text \<open>What one sink may be told about a frame.\<close>

fun delivered :: "(int \<Rightarrow> int \<Rightarrow> 'p) \<Rightarrow> ('p, 'c, 'i) video_frame \<Rightarrow> bool \<Rightarrow> sink \<times> VideoSinkWants \<Rightarrow>
    ('p, 'c, 'i, 't) event \<Rightarrow> bool" where
  "delivered black f sent_to_all (s, w) (OnFrame t g) \<longleftrightarrow> t = s \<and>
     (rotationApplied w \<longrightarrow> mRotation g = kAngle0) \<and>
     (blackFrames w \<longrightarrow> mVideoFrameBuffer g = Some (black_buffer black (frame_width f) (frame_height f))) \<and>
     (\<not> blackFrames w \<longrightarrow> mVideoFrameBuffer g = mVideoFrameBuffer f) \<and>
     mRotation g = mRotation f \<and> mId g = mId f \<and> mTimestampUSecs g = mTimestampUSecs f \<and>
     (hasUpdateRect g \<longrightarrow> sent_to_all \<and> mUpdateRect g = mUpdateRect f)"
| "delivered black f sent_to_all (s, w) (OnDiscardedFrame t) \<longleftrightarrow> t = s \<and> rotationApplied w \<and> mRotation f \<noteq> kAngle0"
| "delivered black f sent_to_all (s, w) (OnConstraintsChanged t c) \<longleftrightarrow> False"

lemma I420Buffer_create_Some:
  assumes "0 < w" "w \<le> 16384" "0 < h" "h \<le> 16384"
  shows "I420Buffer_create w h px = Some \<lparr>buf_width = w, buf_height = h, pixels = px\<rparr>"
proof -
  define c where "c = (w + 1) div 2"
  define d where "d = (h + 1) div 2"
  have c: "0 \<le> c" "c \<le> 8192" "(w + 1) sdiv 2 = c" and d: "0 \<le> d" "d \<le> 8192" "(h + 1) sdiv 2 = d"
    using assms by (auto simp: c_def d_def sdiv_nonneg)
  define m where "m = w * h"
  define n where "n = (c + c) * d"
  have "0 \<le> m" "m \<le> 16384 * 16384" "0 \<le> n" "n \<le> (8192 + 8192) * 8192"
    using assms c d mult_mono [of w 16384 h 16384] mult_mono [of "c + c" "8192 + 8192" d 8192]
    by (simp_all add: m_def n_def)
  then have "int32 (w * h) = Some m" "int32 ((c + c) * d) = Some n" "int32 (m + n) = Some (m + n)"
    unfolding m_def [symmetric] n_def [symmetric] by (simp_all add: in_int32_def int_range_defs)
  moreover have "int32 (w + 1) = Some (w + 1)" "int32 (h + 1) = Some (h + 1)" "int32 (c + c) = Some (c + c)"
    using assms c by (simp_all add: in_int32_def int_range_defs)
  ultimately have "I420DataSize h w c c = Some (m + n)" using d(3) by (simp only: I420DataSize_def Option.bind_lunit)
  then show ?thesis
    using assms c(3) \<open>int32 (w + 1) = _\<close> by (simp add: I420Buffer_create_def)
qed

lemma GetBlackFrameBuffer_Some:
  assumes "cache_ok black cache" "0 < w" "w \<le> 16384" "0 < h" "h \<le> 16384"
  shows "GetBlackFrameBuffer black w h cache = Some (black_buffer black w h)"
  using assms by (auto simp: GetBlackFrameBuffer_def I420Buffer_create_Some cache_ok_def black_buffer_def split: option.split)

lemma VideoFrame_copy_Some:
  assumes "frame_ok f" "hasUpdateRect f"
  shows "VideoFrame_copy f = Some (f\<lparr>mProcessingTime := None\<rparr>)"
proof -
  obtain r where r: "mUpdateRect f = Some r" using assms(2) by (auto simp: hasUpdateRect_def)
  then have "in_int32 (offsetX r + width r)" "in_int32 (offsetY r + height r)"
    using assms(1) by (auto simp: frame_ok_def in_int32_def int_range_defs)
  then show ?thesis
    using assms(1) r by (auto simp: VideoFrame_copy_def VideoFrame_new_def check_rect_def updateRect_def frame_ok_def
        frame_width_def frame_height_def Let_def)
qed

lemma deliver_spec:
  fixes f :: "('p, 'c, 'i) video_frame"
  assumes "frame_ok f" "cache_ok black cache"
  shows "\<exists>(ev :: ('p, 'c, 'i, 't) event) cache'. deliver black no_infos f sent_to_all p cache = Some (ev, cache') \<and>
    delivered black f sent_to_all p ev \<and> cache_ok black cache'"
proof (cases p)
  case (Pair s w)
  have b: "GetBlackFrameBuffer black (frame_width f) (frame_height f) cache =
      Some (black_buffer black (frame_width f) (frame_height f))"
    using assms by (intro GetBlackFrameBuffer_Some) (auto simp: frame_ok_def)
  show ?thesis
    using assms Pair b VideoFrame_copy_Some [OF assms(1)]
    by (auto simp: deliver_def build_def VideoFrame_new_def Let_def Builder_def builder_setId_def builder_setRotation_def
        builder_setTimestampUSecs_def builder_setVideoFrameBuffer_def hasUpdateRect_def clearUpdateRect_def
        cache_ok_def black_buffer_def)
qed

lemma deliver_all_spec:
  fixes f :: "('p, 'c, 'i) video_frame"
  assumes "frame_ok f" "cache_ok black cache"
  shows "\<exists>(evs :: ('p, 'c, 'i, 't) event list) cache'. deliver_all black no_infos f sent_to_all sinks cache = Some (evs, cache') \<and>
    list_all2 (delivered black f sent_to_all) sinks evs \<and> cache_ok black cache'"
  using assms(2)
proof (induction sinks arbitrary: cache)
  case (Cons p sinks)
  obtain ev :: "('p, 'c, 'i, 't) event" and cache' where ev: "deliver black no_infos f sent_to_all p cache = Some (ev, cache')"
      "delivered black f sent_to_all p ev" "cache_ok black cache'"
    using deliver_spec [OF assms(1) Cons.prems] by blast
  obtain evs :: "('p, 'c, 'i, 't) event list" and cache'' where evs: "deliver_all black no_infos f sent_to_all sinks cache' = Some (evs, cache'')"
      "list_all2 (delivered black f sent_to_all) sinks evs" "cache_ok black cache''"
    using Cons.IH [OF ev(3)] by blast
  then show ?case using ev by simp
qed simp

lemma delivered_sink: "delivered black f sent_to_all p e \<Longrightarrow> event_sink e = fst p"
  by (cases p; cases e) auto

lemma delivered_sinks: "list_all2 (delivered black f sent_to_all) sinks evs \<Longrightarrow> map event_sink evs = map fst sinks"
  by (induction rule: list_all2_induct) (simp_all add: delivered_sink)

lemma delivered_told:
  "list_all2 (delivered black f sent_to_all) sinks evs \<Longrightarrow> OnFrame s g \<in> set evs \<Longrightarrow>
   \<exists>w. (s, w) \<in> set sinks \<and> delivered black f sent_to_all (s, w) (OnFrame s g)"
proof (induction rule: list_all2_induct)
  case (Cons p ps e es)
  show ?case
  proof (cases "e = OnFrame s g")
    case True
    then obtain w where "p = (s, w)" using delivered_sink [OF Cons.hyps(1)] by (cases p) simp
    then show ?thesis using True Cons.hyps(1) by auto
  next
    case False
    then show ?thesis using Cons by auto
  qed
qed simp

lemma delivered_all:
  assumes "list_all2 (delivered black f sent_to_all) sinks evs" "\<not> (\<exists>e \<in> set evs. is_discard e)" "s \<in> fst ` set sinks"
  shows "\<exists>g. OnFrame s g \<in> set evs"
  using assms
proof (induction rule: list_all2_induct)
  case (Cons p ps e es)
  then show ?case by (cases p; cases e) auto
qed simp


section \<open>States of a broadcaster\<close>

text \<open>
  The states that calls of the public methods reach, with the events of the latest \<open>onFrame\<close>.
  \<open>onDiscardedFrame\<close>, \<open>frameWanted\<close> and \<open>wants\<close> do not change the state.
\<close>

inductive bc_reach ::
    "(int \<Rightarrow> int \<Rightarrow> 'p) \<Rightarrow> 'i \<Rightarrow> ('p, 't) broadcaster \<Rightarrow> ('p, 'c, 'i, 't) event list \<Rightarrow> bool"
  for black no_infos where
  create: "bc_reach black no_infos VideoBroadcaster_new []"
| add: "bc_reach black no_infos b evs \<Longrightarrow>
    addOrUpdateSink s w b = Some (b', cs :: ('p, 'c, 'i, 't) event list) \<Longrightarrow> bc_reach black no_infos b' evs"
| remove: "bc_reach black no_infos b evs \<Longrightarrow> removeSink s b = Some b' \<Longrightarrow> bc_reach black no_infos b' evs"
| constraints: "bc_reach black no_infos b evs \<Longrightarrow>
    processConstraints c b = (b', cs :: ('p, 'c, 'i, 't) event list) \<Longrightarrow> bc_reach black no_infos b' evs"
| frame: "bc_reach black no_infos b evs \<Longrightarrow> frame_ok f \<Longrightarrow>
    onFrame black no_infos f b = Some (b', evs') \<Longrightarrow> bc_reach black no_infos b' evs'"

definition bc_inv :: "(int \<Rightarrow> int \<Rightarrow> 'p) \<Rightarrow> ('p, 't) broadcaster \<Rightarrow> ('p, 'c, 'i, 't) event list \<Rightarrow> bool" where
  "bc_inv black b evs \<longleftrightarrow> sinks_inv (mSinks b) \<and> cache_ok black (mBlackFrameBuffer b) \<and>
     (mPreviousFrameSentToAllSinks b \<longrightarrow> (\<forall>s \<in> fst ` set (mSinks b). \<exists>g. OnFrame s g \<in> set evs)) \<and>
     (mSinks b \<noteq> [] \<longrightarrow> combined_wants (mSinks b) = Some (mCurrentWants b))"

lemma UpdateWants_fields:
  "UpdateWants b = Some b' \<Longrightarrow> combined_wants (mSinks b) = Some (mCurrentWants b') \<and> mSinks b' = mSinks b \<and>
    mBlackFrameBuffer b' = mBlackFrameBuffer b \<and> mPreviousFrameSentToAllSinks b' = mPreviousFrameSentToAllSinks b"
  by (auto simp: UpdateWants_def Option.bind_eq_Some_conv)

lemma base_sinks:
  "sinks_inv sinks \<Longrightarrow> base_addOrUpdateSink s w sinks = Some sinks' \<Longrightarrow> sinks_inv sinks' \<and>
     fst ` set sinks' = insert s (fst ` set sinks)"
  "sinks_inv sinks \<Longrightarrow> base_removeSink s sinks = Some sinks' \<Longrightarrow> sinks_inv sinks' \<and>
     fst ` set sinks' = fst ` set sinks - {s}"
proof -
  have dom: "fst ` set xs = dom (sinks_lookup xs)" for xs
    by (simp add: dom_map_of_conv_image_fst sinks_lookup_map_of [abs_def])
  show "sinks_inv sinks \<Longrightarrow> base_addOrUpdateSink s w sinks = Some sinks' \<Longrightarrow> sinks_inv sinks' \<and>
     fst ` set sinks' = insert s (fst ` set sinks)"
    unfolding dom using base.add_invariant [of sinks s w sinks'] by auto
  show "sinks_inv sinks \<Longrightarrow> base_removeSink s sinks = Some sinks' \<Longrightarrow> sinks_inv sinks' \<and>
     fst ` set sinks' = fst ` set sinks - {s}"
    unfolding dom using base.rem_invariant [of sinks s sinks'] by auto
qed

lemma addOrUpdateSink_inv:
  assumes "bc_inv black b evs" "addOrUpdateSink s w b = Some (b', cs)"
  shows "bc_inv black b' evs"
proof -
  obtain b1 sinks where step: "base_addOrUpdateSink s w (mSinks b) = Some sinks" "UpdateWants (b1\<lparr>mSinks := sinks\<rparr>) = Some b'"
      "b1 = (if FindSinkPair (mSinks b) s = None then b\<lparr>mPreviousFrameSentToAllSinks := False\<rparr> else b)"
    using assms(2) by (auto simp: addOrUpdateSink_def Option.bind_eq_Some_conv split: if_splits)
  have inv: "sinks_inv sinks" "fst ` set sinks = insert s (fst ` set (mSinks b))"
    using base_sinks(1) [OF _ step(1)] assms(1) by (auto simp: bc_inv_def)
  note upd = UpdateWants_fields [OF step(2)]
  show ?thesis
  proof (cases "FindSinkPair (mSinks b) s = None")
    case True
    then show ?thesis using upd step(3) inv assms(1) by (simp add: bc_inv_def)
  next
    case False
    then have "fst ` set sinks = fst ` set (mSinks b)" using inv(2) by (simp add: FindSinkPair_None insert_absorb)
    then show ?thesis using False upd step(3) inv assms(1) by (simp add: bc_inv_def)
  qed
qed

lemma removeSink_inv:
  assumes "bc_inv black b evs" "removeSink s b = Some b'"
  shows "bc_inv black b' evs"
proof -
  obtain sinks where step: "base_removeSink s (mSinks b) = Some sinks" "UpdateWants (b\<lparr>mSinks := sinks\<rparr>) = Some b'"
    using assms(2) by (auto simp: removeSink_def Option.bind_eq_Some_conv)
  show ?thesis
    using base_sinks(2) [OF _ step(1)] UpdateWants_fields [OF step(2)] assms(1) by (auto simp: bc_inv_def)
qed

lemma onFrame_spec:
  fixes f :: "('p, 'c, 'i) video_frame" and evs :: "('p, 'c, 'i, 't) event list"
  assumes "bc_inv black b evs" "frame_ok f"
  shows "\<exists>b' evs'. onFrame black no_infos f b = Some (b', evs') \<and> bc_inv black b' evs' \<and> mSinks b' = mSinks b \<and>
    list_all2 (delivered black f (mPreviousFrameSentToAllSinks b)) (mSinks b) evs'"
proof -
  have "\<exists>(evs' :: ('p, 'c, 'i, 't) event list) cache.
      deliver_all black no_infos f (mPreviousFrameSentToAllSinks b) (mSinks b) (mBlackFrameBuffer b) = Some (evs', cache) \<and>
      list_all2 (delivered black f (mPreviousFrameSentToAllSinks b)) (mSinks b) evs' \<and> cache_ok black cache"
    using assms(1) by (intro deliver_all_spec [OF assms(2)]) (simp add: bc_inv_def)
  then obtain evs' :: "('p, 'c, 'i, 't) event list" and cache where
    d: "deliver_all black no_infos f (mPreviousFrameSentToAllSinks b) (mSinks b) (mBlackFrameBuffer b) = Some (evs', cache)"
      "list_all2 (delivered black f (mPreviousFrameSentToAllSinks b)) (mSinks b) evs'" "cache_ok black cache"
    by blast
  let ?b = "b\<lparr>mBlackFrameBuffer := cache, mPreviousFrameSentToAllSinks := \<not> (\<exists>e \<in> set evs'. is_discard e)\<rparr>"
  have step: "onFrame black no_infos f b = Some (?b, evs')" by (simp add: onFrame_def d(1) Let_def)
  have "bc_inv black ?b evs'" using assms(1) d(3) delivered_all [OF d(2)] by (simp add: bc_inv_def)
  then show ?thesis using step d(2) by (intro exI [of _ ?b] exI [of _ evs']) simp
qed

lemma bc_reach_inv: "bc_reach black no_infos b evs \<Longrightarrow> bc_inv black b evs"
proof (induction rule: bc_reach.induct)
  case create
  show ?case by (simp add: bc_inv_def VideoBroadcaster_new_def sinks_inv_def cache_ok_def)
next
  case (add b evs s w b' cs)
  then show ?case using addOrUpdateSink_inv by blast
next
  case (remove b evs s b')
  then show ?case using removeSink_inv by blast
next
  case (constraints b evs c b' cs)
  then show ?case by (auto simp: processConstraints_def bc_inv_def)
next
  case (frame b evs f b' evs')
  then show ?case using onFrame_spec [OF frame.IH, of f no_infos] by auto
qed


section \<open>Properties\<close>

text \<open>
  C11: the wants that the broadcaster asks of its source combine those of the sinks that count
  (\<open>counted_wants\<close>): rotation if any sink wants it, the least of the pixel limits and of the frame
  rates, the least common multiple of the alignments, the least target if any is given, lowered to
  the pixel limit, the largest requested width and height. They exist whenever the common alignment
  fits an \<open>int\<close>.
\<close>

theorem combined_wants_spec:
  assumes "\<forall>s \<in> set (counted_wants sinks). 0 < resolutionAlignment s \<and> resolutionAlignment s \<le> int32_max"
    and "Lcm (resolutionAlignment ` set (counted_wants sinks)) \<le> int32_max"
  shows "\<exists>w. combined_wants sinks = Some w \<and>
    (rotationApplied w \<longleftrightarrow> (\<exists>s \<in> set (counted_wants sinks). rotationApplied s)) \<and>
    maxPixelCount w = Min (insert int32_max (maxPixelCount ` set (counted_wants sinks))) \<and>
    maxFramerateFps w = Min (insert int32_max (maxFramerateFps ` set (counted_wants sinks))) \<and>
    resolutionAlignment w = Lcm (resolutionAlignment ` set (counted_wants sinks)) \<and>
    targetPixelCount w = map_option (min (maxPixelCount w)) (opt_Min (targetPixelCount ` set (counted_wants sinks))) \<and>
    map_option fs_width (requestedResolution w) =
      opt_Max ((\<lambda>s. map_option fs_width (requestedResolution s)) ` set (counted_wants sinks)) \<and>
    map_option fs_height (requestedResolution w) =
      opt_Max ((\<lambda>s. map_option fs_height (requestedResolution s)) ` set (counted_wants sinks)) \<and>
    (isActive w \<longleftrightarrow> (\<exists>s \<in> set (counted_wants sinks). isActive s)) \<and>
    anyActiveWithoutRequestedResolution w =
      Some (\<exists>s \<in> set (counted_wants sinks). requestedResolution s = None \<and> isActive s)"
proof -
  let ?cs = "counted_wants sinks"
  have lcm: "fold lcm (map resolutionAlignment ?cs) 1 = Lcm (resolutionAlignment ` set ?cs)"
    by (simp add: Lcm_set_eq_fold [symmetric])
  obtain w where w: "join_all initial_wants ?cs = Some w" "resolutionAlignment w = Lcm (resolutionAlignment ` set ?cs)"
    using join_all_Some [of initial_wants ?cs] assms lcm by (auto simp: VideoSinkWants_default_def)
  show ?thesis
    unfolding combined_wants_eq w(1) option.map ex_simps(1) [symmetric]
    by (rule exI, rule conjI, rule refl)
      (simp add: join_all_fields [OF w(1)] w(2) VideoSinkWants_default_def fold_min_Min fold_join_opt
        fold_join_size image_image comp_def)
qed

theorem combined_wants_spec_witness:
  "\<exists>w. combined_wants [(7 :: nat, VideoSinkWants_default\<lparr>maxPixelCount := 100, resolutionAlignment := 4\<rparr>),
      (8, VideoSinkWants_default\<lparr>maxPixelCount := 50, resolutionAlignment := 6\<rparr>)] = Some w \<and>
     maxPixelCount w = 50 \<and> resolutionAlignment w = 12"
proof -
  let ?sinks = "[(7 :: nat, VideoSinkWants_default\<lparr>maxPixelCount := 100, resolutionAlignment := 4\<rparr>),
      (8, VideoSinkWants_default\<lparr>maxPixelCount := 50, resolutionAlignment := 6\<rparr>)]"
  have c: "counted_wants ?sinks = map snd ?sinks"
    by (simp add: counted_wants_def counted_def ignore_inactive_encoders_old_api_def VideoSinkWants_default_def)
  have "lcm 4 (6 :: int) = 12" by code_simp
  then show ?thesis
    using combined_wants_spec [of ?sinks] unfolding c by (auto simp: VideoSinkWants_default_def int_range_defs)
qed

text \<open>
  C10: delivery of frames, in every state that calls of the public methods can reach. \<open>onFrame\<close> returns
  and tells each sink exactly once, in the order of registration. A sink that wants rotation applied
  never gets a frame with a pending rotation; one that wants black frames gets only black frames; the
  others get the pixels of the frame. An update rectangle reaches a sink only when that same sink got
  the previous frame, since it describes the change from that frame. The wants are those of the
  present sinks.
\<close>

theorem broadcast_delivery:
  fixes f :: "('p, 'c, 'i) video_frame" and evs :: "('p, 'c, 'i, 't) event list"
  assumes "bc_reach black no_infos b evs" "frame_ok f"
  shows "\<exists>b' (evs' :: ('p, 'c, 'i, 't) event list). onFrame black no_infos f b = Some (b', evs') \<and>
    map event_sink evs' = map fst (mSinks b) \<and> distinct (map event_sink evs') \<and>
    (\<forall>s g. OnFrame s g \<in> set evs' \<longrightarrow>
      (hasUpdateRect g \<longrightarrow> mUpdateRect g = mUpdateRect f \<and> (\<exists>g0. OnFrame s g0 \<in> set evs)) \<and>
      (\<exists>w. (s, w) \<in> set (mSinks b) \<and> (rotationApplied w \<longrightarrow> mRotation g = kAngle0) \<and>
        mVideoFrameBuffer g =
          (if blackFrames w then Some (black_buffer black (frame_width f) (frame_height f)) else mVideoFrameBuffer f))) \<and>
    (mSinks b \<noteq> [] \<longrightarrow> combined_wants (mSinks b) = Some (mCurrentWants b))"
proof -
  note inv = bc_reach_inv [OF assms(1)]
  from onFrame_spec [OF inv assms(2), of no_infos] obtain b' and evs' :: "('p, 'c, 'i, 't) event list" where
    step: "onFrame black no_infos f b = Some (b', evs')"
      "list_all2 (delivered black f (mPreviousFrameSentToAllSinks b)) (mSinks b) evs'"
    by blast
  show ?thesis
  proof (rule exI [of _ b'], rule exI [of _ evs'], intro conjI allI impI)
    fix s g assume "OnFrame s g \<in> set evs'"
    from delivered_told [OF step(2) this] obtain w where
      w: "(s, w) \<in> set (mSinks b)" "delivered black f (mPreviousFrameSentToAllSinks b) (s, w) (OnFrame s g)"
      by blast
    then have s: "s \<in> fst ` set (mSinks b)" by force
    show "mUpdateRect g = mUpdateRect f" "\<exists>g0. OnFrame s g0 \<in> set evs" if "hasUpdateRect g"
      using w(2) s that inv by (auto simp: bc_inv_def)
    show "\<exists>w. (s, w) \<in> set (mSinks b) \<and> (rotationApplied w \<longrightarrow> mRotation g = kAngle0) \<and>
        mVideoFrameBuffer g =
          (if blackFrames w then Some (black_buffer black (frame_width f) (frame_height f)) else mVideoFrameBuffer f)"
      using w by (intro exI [of _ w]) auto
  qed (use step(1) inv delivered_sinks [OF step(2)] in \<open>simp_all add: bc_inv_def sinks_inv_def\<close>)
qed

definition frame_4x2 :: "(nat, unit, unit) video_frame" where
  "frame_4x2 = \<lparr>mId = 3, mVideoFrameBuffer = Some \<lparr>buf_width = 4, buf_height = 2, pixels = 9\<rparr>, mRtpTimestamp = 0,
     mNtpTimeMSecs = 0, mTimestampUSecs = 0, mPresentationTimestamp = None, mReferenceTime = None, mRotation = kAngle90,
     mColorSpace = None, mRenderParameters = \<lparr>useLowLatencyRendering = False, maxCompositionDelayInFrames = None\<rparr>,
     mUpdateRect = Some (UpdateRect_new 2 2 0 0), mPacketInfos = (), mProcessingTime = None\<rparr>"

theorem broadcast_delivery_witness:
  "\<exists>b b' (evs' :: (nat, unit, unit, unit) event list).
     addOrUpdateSink 1 VideoSinkWants_default VideoBroadcaster_new = Some (b, [] :: (nat, unit, unit, unit) event list) \<and>
     onFrame (\<lambda>w h. 0) () frame_4x2 b = Some (b', evs') \<and> map event_sink evs' = [1]"
proof -
  have "lcm_c 1 1 = Some 1" by (simp add: lcm_c_correct in_int32_def int_range_defs)
  then obtain b where b: "addOrUpdateSink 1 VideoSinkWants_default (VideoBroadcaster_new :: (nat, unit) broadcaster) =
      Some (b, [] :: (nat, unit, unit, unit) event list)" "mSinks b = [(1, VideoSinkWants_default)]"
    by (simp add: addOrUpdateSink_def VideoBroadcaster_new_def FindSinkPair_def base_addOrUpdateSink_def UpdateWants_def
        combined_wants_eq counted_wants_def counted_def ignore_inactive_encoders_old_api_def VideoSinkWants_default_def)
  have "bc_reach (\<lambda>w h. 0) () b ([] :: (nat, unit, unit, unit) event list)"
    by (rule bc_reach.add [OF bc_reach.create b(1)])
  moreover have "frame_ok frame_4x2"
    by (simp add: frame_ok_def frame_4x2_def frame_width_def frame_height_def)
  ultimately show ?thesis
    using broadcast_delivery [of "\<lambda>w h. 0" "()" b "[] :: (nat, unit, unit, unit) event list" frame_4x2] b
    by auto
qed

end
