(* ===== verification/Floating.thy ===== *)
theory Floating
  imports Octk_Prelude "HOL-Library.Log_Nat"
begin

text \<open>
  The floating-point arithmetic that the media classes use. A finite \<open>float\<close> or \<open>double\<close> is its
  rational value; an operation computes the exact result and rounds it to the nearest number with
  a 24 or 53 bit significand, ties to even. Exponents are unbounded: the values of the modelled code
  are far from the overflow and underflow thresholds. A conversion to an integer truncates, and is
  undefined (\<^term>\<open>None\<close>) when the integer type cannot hold the result.
\<close>

definition pow2 :: "int \<Rightarrow> rat" where
  "pow2 e = (if 0 \<le> e then 2 ^ nat e else inverse 2 ^ nat (- e))"

definition round_half_even :: "rat \<Rightarrow> int" where
  "round_half_even s =
     (let n = \<lfloor>s\<rfloor>; d = s - of_int n
      in if d < 1 / 2 then n else if 1 / 2 < d then n + 1 else if even n then n else n + 1)"

text \<open>The exponent of the last of \<open>p\<close> significant bits of a positive \<open>x\<close>.\<close>

definition last_bit :: "nat \<Rightarrow> rat \<Rightarrow> int" where
  "last_bit p x =
     (let (a, b) = quotient_of x;
          k = int (floorlog 2 (nat a)) - int (floorlog 2 (nat b));
          l = (if pow2 k \<le> x then k else k - 1)
      in l - (int p - 1))"

definition rnd :: "nat \<Rightarrow> rat \<Rightarrow> rat" where
  "rnd p x =
     (if x = 0 then 0
      else let e = last_bit p \<bar>x\<bar>; m = of_int (round_half_even (\<bar>x\<bar> / pow2 e)) * pow2 e
           in if x < 0 then - m else m)"

definition trunc :: "rat \<Rightarrow> int" where
  "trunc x = (if x < 0 then - \<lfloor>- x\<rfloor> else \<lfloor>x\<rfloor>)"

text \<open>\<open>std::round\<close>: to the nearest integer, halves away from zero.\<close>

definition round_away :: "rat \<Rightarrow> int" where
  "round_away x = (if x < 0 then - \<lfloor>- x + 1 / 2\<rfloor> else \<lfloor>x + 1 / 2\<rfloor>)"

lemma pow2_pos [simp]: "0 < pow2 e"
  by (simp add: pow2_def)

lemma pow2_neq_0 [simp]: "pow2 e \<noteq> 0" and pow2_nonneg [simp]: "0 \<le> pow2 e"
  using pow2_pos [of e] by (simp_all del: pow2_pos)

lemma pow2_powi: "pow2 e = 2 powi e"
  by (simp add: pow2_def power_int_def)

lemma pow2_add: "pow2 (a + b) = pow2 a * pow2 b"
  by (simp add: pow2_powi power_int_add)

lemma pow2_nat: "pow2 (int n) = 2 ^ n"
  by (simp add: pow2_def)

lemma round_half_even_bounds:
  assumes "0 \<le> s"
  shows "0 \<le> round_half_even s" "of_int (round_half_even s) \<le> 2 * s" "of_int (round_half_even s) \<le> s + 1 / 2"
    "s - 1 / 2 \<le> of_int (round_half_even s)"
proof -
  define n where "n = \<lfloor>s\<rfloor>"
  have n: "0 \<le> n" "of_int n \<le> s" "s < of_int n + 1" using assms by (auto simp: n_def) linarith
  have "n = 0 \<or> 1 \<le> n" using n(1) by linarith
  then have "s \<ge> 1 \<or> n = 0" using n(2) by (metis of_int_1_le_iff order_trans)
  then show "0 \<le> round_half_even s" "of_int (round_half_even s) \<le> 2 * s" "of_int (round_half_even s) \<le> s + 1 / 2"
    "s - 1 / 2 \<le> of_int (round_half_even s)"
    using n assms by (auto simp: round_half_even_def n_def [symmetric] Let_def)
qed

lemma scaled_nonneg: "0 \<le> x \<Longrightarrow> 0 \<le> x / pow2 e"
  by (simp add: divide_nonneg_pos)

lemma rnd_nonneg: "0 \<le> x \<Longrightarrow> 0 \<le> rnd p x"
  using round_half_even_bounds(1) [OF scaled_nonneg, of x "last_bit p x"]
  by (auto simp: rnd_def Let_def intro!: mult_nonneg_nonneg less_imp_le [OF pow2_pos])

lemma rnd_le_double:
  assumes "0 \<le> x"
  shows "rnd p x \<le> 2 * x"
proof -
  let ?e = "pow2 (last_bit p x)"
  have "of_int (round_half_even (x / ?e)) * ?e \<le> 2 * (x / ?e) * ?e"
    using round_half_even_bounds(2) [OF scaled_nonneg [OF assms]] by (intro mult_right_mono) simp_all
  then show ?thesis using assms by (simp add: rnd_def Let_def)
qed

text \<open>The significand of a positive number has its leading bit.\<close>

lemma last_bit_normal:
  assumes "0 < x"
  shows "pow2 (last_bit p x + (int p - 1)) \<le> x"
proof -
  obtain a b where q: "quotient_of x = (a, b)" by (cases "quotient_of x")
  have b: "0 < b" and x: "x = of_int a / of_int b"
    using quotient_of_denom_pos [OF q] quotient_of_div [OF q] by simp_all
  then have a: "0 < a" using assms(1) by (simp add: zero_less_divide_iff)
  define A B where "A = floorlog 2 (nat a)" and "B = floorlog 2 (nat b)"
  have "0 < nat a" "0 < nat b" "1 < (2 :: nat)" using a b by simp_all
  note floorlog_bounds [OF this(1,3)] floorlog_bounds [OF this(2,3)]
  then have "2 ^ (A - 1) \<le> nat a \<and> nat a < 2 ^ A" "nat b < 2 ^ B" unfolding A_def B_def by blast+
  moreover from this have A: "0 < A" using a by (cases A) auto
  ultimately have "2 ^ (A - 1) \<le> nat a" "nat b < 2 ^ B" by blast+
  then have "2 ^ (A - 1) \<le> a" "b \<le> 2 ^ B" using a b by (simp_all add: nat_less_iff le_nat_iff)
  then have "rat_of_int (2 ^ (A - 1)) \<le> of_int a" "of_int b \<le> rat_of_int (2 ^ B)" by (simp_all only: of_int_le_iff)
  moreover have "pow2 (int A - 1) = 2 ^ (A - 1)" using pow2_nat [of "A - 1"] A by (simp add: of_nat_diff)
  ultimately have ab: "pow2 (int A - 1) \<le> of_int a" "of_int b \<le> pow2 (int B)" by (simp_all add: pow2_nat)
  define k where "k = int A - int B"
  have "pow2 (k - 1) * of_int b \<le> pow2 (k - 1) * pow2 (int B)"
    using ab(2) by (intro mult_left_mono) simp_all
  also have "\<dots> = pow2 (int A - 1)" by (simp add: pow2_add [symmetric] k_def)
  also note ab(1)
  finally have low: "pow2 (k - 1) \<le> x" using b by (simp add: x pos_le_divide_eq)
  have "last_bit p x + (int p - 1) = (if pow2 k \<le> x then k else k - 1)"
    unfolding last_bit_def q Let_def prod.case A_def [symmetric] B_def [symmetric] k_def [symmetric] by simp
  then show ?thesis using low by (simp split: if_split)
qed

lemma rnd_ge_half:
  assumes "0 \<le> x" "0 < p"
  shows "x / 2 \<le> rnd p x"
proof (cases "x = 0")
  case False
  let ?e = "pow2 (last_bit p x)"
  have "pow2 (last_bit p x) * pow2 (int p - 1) \<le> x"
    using last_bit_normal [of x p] assms False by (simp add: pow2_add)
  moreover have "1 \<le> pow2 (int p - 1)" using assms(2) by (simp add: pow2_def)
  then have "?e * 1 \<le> ?e * pow2 (int p - 1)" by (intro mult_left_mono) simp_all
  ultimately have "?e \<le> x" by linarith
  define s where "s = x / ?e"
  have "1 \<le> s" using \<open>?e \<le> x\<close> by (simp add: s_def pos_le_divide_eq)
  then have "s / 2 \<le> of_int (round_half_even s)" using round_half_even_bounds(4) [of s] by simp
  then have "s / 2 * ?e \<le> of_int (round_half_even s) * ?e" by (intro mult_right_mono) simp_all
  then show ?thesis using assms(1) False by (simp add: rnd_def Let_def s_def)
qed (simp add: rnd_def)

text \<open>Rounding does not pass an integer of at most \<open>p\<close> bits.\<close>

lemma round_half_even_le_int: "s \<le> of_int k \<Longrightarrow> round_half_even s \<le> k"
proof -
  assume s: "s \<le> of_int k"
  show ?thesis
  proof (cases "s = of_int k")
    case True
    then show ?thesis by (simp add: round_half_even_def Let_def)
  next
    case False
    then have "\<lfloor>s\<rfloor> < k" using s by (simp add: floor_less_iff)
    then show ?thesis by (auto simp: round_half_even_def Let_def)
  qed
qed

lemma last_bit_small:
  assumes "0 < x" "x < pow2 (int p)"
  shows "last_bit p x \<le> 0"
proof (rule ccontr)
  define e where "e = last_bit p x"
  assume "\<not> last_bit p x \<le> 0"
  then have "1 \<le> pow2 (e - 1)" by (simp add: pow2_def e_def)
  then have "pow2 (int p) * 1 \<le> pow2 (int p) * pow2 (e - 1)" by (intro mult_left_mono) simp_all
  also have "\<dots> = pow2 (e + (int p - 1))" using pow2_add [of "int p" "e - 1"] by (simp add: algebra_simps)
  also have "\<dots> \<le> x" using last_bit_normal [OF assms(1), of p] by (simp add: e_def)
  finally show False using assms(2) by simp
qed

lemma int_over_pow2: "e \<le> 0 \<Longrightarrow> rat_of_int n = of_int (n * 2 ^ nat (- e)) * pow2 e"
proof -
  assume "e \<le> 0"
  then have "pow2 e * rat_of_int (2 ^ nat (- e)) = 1"
    by (cases "e = 0") (simp_all add: pow2_def power_mult_distrib [symmetric])
  moreover have "rat_of_int (n * 2 ^ nat (- e)) * pow2 e = of_int n * (pow2 e * rat_of_int (2 ^ nat (- e)))"
    by (simp only: of_int_mult ac_simps)
  ultimately show ?thesis by (simp only: mult_1_right)
qed

lemma rnd_le_int:
  assumes "0 \<le> x" "x \<le> of_int k" "k < 2 ^ p"
  shows "rnd p x \<le> of_int k"
proof (cases "x = 0")
  case False
  define e where "e = last_bit p x"
  have "rat_of_int k < rat_of_int (2 ^ p)" using assms(3) by (simp only: of_int_less_iff)
  also have "\<dots> = pow2 (int p)" by (simp add: pow2_nat)
  finally have "x < pow2 (int p)" using assms(2) by (rule le_less_trans [rotated])
  then have e: "e \<le> 0" using last_bit_small [of x p] assms(1) False by (simp add: e_def)
  note k = int_over_pow2 [OF e, of k]
  have "x / pow2 e \<le> of_int (k * 2 ^ nat (- e))" using assms(2) by (simp only: pos_divide_le_eq [OF pow2_pos] k)
  then have "round_half_even (x / pow2 e) \<le> k * 2 ^ nat (- e)" by (rule round_half_even_le_int)
  then have "rat_of_int (round_half_even (x / pow2 e)) \<le> of_int (k * 2 ^ nat (- e))" by (simp only: of_int_le_iff)
  then have "of_int (round_half_even (x / pow2 e)) * pow2 e \<le> of_int k"
    unfolding k by (intro mult_right_mono) simp_all
  then show ?thesis using assms(1) False by (simp add: rnd_def Let_def e_def)
qed (use assms in \<open>simp add: rnd_def\<close>)

text \<open>An integer with at most \<open>p\<close> bits is exact.\<close>

lemma rnd_of_int:
  assumes "0 \<le> n" "n < 2 ^ p"
  shows "rnd p (of_int n) = of_int n"
proof (cases "n = 0")
  case False
  define e where "e = last_bit p (of_int n)"
  have "rat_of_int n < rat_of_int (2 ^ p)" using assms(2) by (simp only: of_int_less_iff)
  then have "rat_of_int n < pow2 (int p)" by (simp add: pow2_nat)
  then have e: "e \<le> 0" using last_bit_small [of "of_int n" p] assms(1) False by (simp add: e_def)
  note n = int_over_pow2 [OF e, of n]
  have "rat_of_int n / pow2 e = of_int (n * 2 ^ nat (- e))" by (simp only: nonzero_divide_eq_eq [OF pow2_neq_0] n)
  moreover have "round_half_even (of_int m) = m" for m by (simp add: round_half_even_def Let_def)
  ultimately have "of_int (round_half_even (of_int n / pow2 e)) * pow2 e = (of_int n :: rat)" by (simp only: n [symmetric])
  then show ?thesis using assms False by (simp add: rnd_def Let_def e_def)
qed (simp add: rnd_def)

lemma trunc_bounds: "0 \<le> x \<Longrightarrow> 0 \<le> trunc x" "0 \<le> x \<Longrightarrow> x \<le> of_int n \<Longrightarrow> trunc x \<le> n"
  by (auto simp: trunc_def floor_le_iff)

lemma round_away_bounds: "0 \<le> x \<Longrightarrow> 0 \<le> round_away x" "0 \<le> x \<Longrightarrow> x \<le> of_int n \<Longrightarrow> round_away x \<le> n"
  by (auto simp: round_away_def floor_le_iff)

lemma trunc_of_int [simp]: "trunc (of_int n) = n"
  by (simp add: trunc_def flip: of_int_minus)

end
