(* ===== verification/Framerate.thy ===== *)
theory Framerate
  imports Floating
begin

text \<open>
  \<open>FramerateController\<close> of \<open>src/libs/media/source/video/octk_framerate_controller.cpp\<close>: which of the
  frames that arrive to drop so that a maximal frame rate is kept. The rate is a \<open>double\<close>, the
  timestamps are nanoseconds in an \<open>int64_t\<close>; an overflow is \<^term>\<open>None\<close>.
\<close>

section \<open>The controller\<close>

record framerate_controller =
  max_framerate :: rat
  next_frame_timestamp_ns :: "int option"

definition double_max :: rat where
  "double_max = (2 ^ 53 - 1) * 2 ^ 971"

definition kMinFramerate :: rat where
  "kMinFramerate = 1 / 2"

definition kNSecsPerSec :: int where
  "kNSecsPerSec = 1000000000"

definition FramerateController :: "rat \<Rightarrow> framerate_controller" where
  "FramerateController fps = \<lparr>max_framerate = fps, next_frame_timestamp_ns = None\<rparr>"

definition FramerateController_new :: framerate_controller where
  "FramerateController_new = FramerateController double_max"

definition SetMaxFramerate :: "rat \<Rightarrow> framerate_controller \<Rightarrow> framerate_controller" where
  "SetMaxFramerate fps c = c\<lparr>max_framerate := fps\<rparr>"

definition frame_interval_ns :: "framerate_controller \<Rightarrow> int option" where
  "frame_interval_ns c = int64 (trunc (rnd 53 (of_int kNSecsPerSec / max_framerate c)))"

definition ShouldDropFrame :: "int \<Rightarrow> framerate_controller \<Rightarrow> (framerate_controller \<times> bool) option" where
  "ShouldDropFrame ts c =
     (if max_framerate c < kMinFramerate then Some (c, True)
      else do {
        interval \<leftarrow> frame_interval_ns c;
        if interval \<le> 0 then Some (c, False)
        else do {
          step \<leftarrow>
            (case next_frame_timestamp_ns c of
               None \<Rightarrow> Some None
             | Some next \<Rightarrow> do {
                 until \<leftarrow> int64 (next - ts);
                 a \<leftarrow> int64 \<bar>until\<bar>;
                 d \<leftarrow> int64 (2 * interval);
                 if a < d
                 then if 0 < until then Some (Some (c, True))
                   else do { n \<leftarrow> int64 (next + interval); Some (Some (c\<lparr>next_frame_timestamp_ns := Some n\<rparr>, False)) }
                 else Some None
               });
          case step of
            Some r \<Rightarrow> Some r
          | None \<Rightarrow> do {
              n \<leftarrow> int64 (ts + interval sdiv 2);
              Some (c\<lparr>next_frame_timestamp_ns := Some n\<rparr>, False)
            }
        }
      })"

definition Reset :: "framerate_controller \<Rightarrow> framerate_controller" where
  "Reset c = c\<lparr>max_framerate := double_max, next_frame_timestamp_ns := None\<rparr>"

definition KeepFrame :: "int \<Rightarrow> framerate_controller \<Rightarrow> framerate_controller option" where
  "KeepFrame ts c = do {
     (c, drp) \<leftarrow> ShouldDropFrame ts c;
     if drp then
       if max_framerate c < kMinFramerate then Some c
       else do {
         interval \<leftarrow> frame_interval_ns c;
         case next_frame_timestamp_ns c of
           Some next \<Rightarrow> do { n \<leftarrow> int64 (next + interval); Some (c\<lparr>next_frame_timestamp_ns := Some n\<rparr>) }
         | None \<Rightarrow> Some c
       }
     else Some c
   }"

text \<open>The answers to a sequence of timestamps at a constant rate.\<close>

primrec throttle :: "int list \<Rightarrow> framerate_controller \<Rightarrow> (framerate_controller \<times> bool list) option" where
  "throttle [] c = Some (c, [])"
| "throttle (ts # tss) c = do {
     (c, drp) \<leftarrow> ShouldDropFrame ts c;
     (c, drps) \<leftarrow> throttle tss c;
     Some (c, drp # drps)
   }"

text \<open>The timestamps of the frames that are kept.\<close>

definition kept :: "int list \<Rightarrow> bool list \<Rightarrow> int list" where
  "kept tss drps = map fst (filter (\<lambda>(ts, drp). \<not> drp) (zip tss drps))"


section \<open>One frame\<close>

text \<open>A controller that limits the rate: the interval between frames is \<open>i\<close> nanoseconds.\<close>

definition limits :: "framerate_controller \<Rightarrow> int \<Rightarrow> bool" where
  "limits c i \<longleftrightarrow> kMinFramerate \<le> max_framerate c \<and> frame_interval_ns c = Some i \<and> 0 < i"

lemma interval_le: "limits c i \<Longrightarrow> i \<le> 4 * 10 ^ 9"
proof -
  assume l: "limits c i"
  let ?q = "of_int kNSecsPerSec / max_framerate c"
  have r: "1 / 2 \<le> max_framerate c" using l by (simp add: limits_def kMinFramerate_def)
  then have "of_int kNSecsPerSec / max_framerate c \<le> of_int kNSecsPerSec / (1 / 2)"
    by (intro divide_left_mono) (auto simp: kNSecsPerSec_def)
  then have q: "?q \<le> 2 * 10 ^ 9" "0 \<le> ?q" using r by (auto simp: kNSecsPerSec_def)
  then have "rnd 53 ?q \<le> of_int (4 * 10 ^ 9)" using rnd_le_double [of ?q 53] by simp
  then have "trunc (rnd 53 ?q) \<le> 4 * 10 ^ 9" using rnd_nonneg [OF q(2)] by (intro trunc_bounds) simp_all
  then show ?thesis using l by (auto simp: limits_def frame_interval_ns_def int64_eq_Some_iff)
qed

text \<open>Whatever the rate, the interval can be computed, and a frame is judged.\<close>

lemma frame_interval_total: "kMinFramerate \<le> max_framerate c \<Longrightarrow> \<exists>i. frame_interval_ns c = Some i"
proof -
  assume r: "kMinFramerate \<le> max_framerate c"
  let ?q = "of_int kNSecsPerSec / max_framerate c"
  have "?q \<le> of_int kNSecsPerSec / (1 / 2)"
    using r by (intro divide_left_mono) (auto simp: kNSecsPerSec_def kMinFramerate_def)
  then have q: "?q \<le> 2 * 10 ^ 9" "0 \<le> ?q" using r by (auto simp: kNSecsPerSec_def kMinFramerate_def)
  then have "rnd 53 ?q \<le> of_int (4 * 10 ^ 9)" using rnd_le_double [of ?q 53] by simp
  then have "0 \<le> trunc (rnd 53 ?q) \<and> trunc (rnd 53 ?q) \<le> 4 * 10 ^ 9" using rnd_nonneg [OF q(2)] trunc_bounds by blast
  then show ?thesis by (simp add: frame_interval_ns_def in_int64_def int_range_defs)
qed

text \<open>
  With timestamps below \<open>2 ^ 62\<close> in absolute value nothing overflows, and the answer is that of the
  mathematical controller.
\<close>

definition near :: "int \<Rightarrow> bool" where
  "near t \<longleftrightarrow> \<bar>t\<bar> \<le> 2 ^ 61"

lemma ShouldDropFrame_limits:
  assumes "limits c i" "near ts" "\<forall>n. next_frame_timestamp_ns c = Some n \<longrightarrow> \<bar>n\<bar> \<le> 2 ^ 61 + 2 ^ 33"
  shows "ShouldDropFrame ts c =
    Some (case next_frame_timestamp_ns c of
        Some n \<Rightarrow>
          if \<bar>n - ts\<bar> < 2 * i
          then if ts < n then (c, True) else (c\<lparr>next_frame_timestamp_ns := Some (n + i)\<rparr>, False)
          else (c\<lparr>next_frame_timestamp_ns := Some (ts + i div 2)\<rparr>, False)
      | None \<Rightarrow> (c\<lparr>next_frame_timestamp_ns := Some (ts + i div 2)\<rparr>, False))"
proof -
  have i: "0 < i" "i \<le> 4 * 10 ^ 9" "frame_interval_ns c = Some i" "\<not> max_framerate c < kMinFramerate"
    using assms(1) interval_le by (auto simp: limits_def)
  have half: "i sdiv 2 = i div 2" "0 \<le> i div 2" "i div 2 \<le> i" using i(1) by (simp_all add: sdiv_nonneg)
  have r: "in_int64 x" if "\<bar>x\<bar> \<le> 2 ^ 62 + 2 ^ 34" for x
    using that unfolding in_int64_def int_range_defs by (simp add: abs_le_iff)
  show ?thesis
  proof (cases "next_frame_timestamp_ns c")
    case None
    have "in_int64 (ts + i div 2)" using assms(2) half i by (intro r) (simp add: near_def)
    then show ?thesis using None i half by (simp add: ShouldDropFrame_def)
  next
    case (Some n)
    have n: "\<bar>n\<bar> \<le> 2 ^ 61 + 2 ^ 33" using assms(3) Some by simp
    have ran: "in_int64 (n - ts)" "in_int64 \<bar>n - ts\<bar>" "in_int64 (2 * i)" "in_int64 (n + i)" "in_int64 (ts + i div 2)"
      using n assms(2) i(1,2) half by (auto simp: near_def intro!: r)
    then show ?thesis using Some i half by (simp add: ShouldDropFrame_def)
  qed
qed

lemma ShouldDropFrame_total:
  assumes "near ts" "\<forall>n. next_frame_timestamp_ns c = Some n \<longrightarrow> \<bar>n\<bar> \<le> 2 ^ 61 + 2 ^ 33"
  shows "\<exists>c' drp. ShouldDropFrame ts c = Some (c', drp)"
proof (cases "max_framerate c < kMinFramerate")
  case True
  then show ?thesis by (auto simp: ShouldDropFrame_def)
next
  case False
  then obtain i where i: "frame_interval_ns c = Some i" using frame_interval_total [of c] by auto
  show ?thesis
  proof (cases "0 < i")
    case True
    then have "limits c i" using False i by (simp add: limits_def)
    from ShouldDropFrame_limits [OF this assms] show ?thesis
      by (cases "next_frame_timestamp_ns c") (auto split: if_splits)
  qed (use False i in \<open>auto simp: ShouldDropFrame_def\<close>)
qed


section \<open>A sequence of frames\<close>

lemma kept_simps [simp]:
  "kept [] drps = []"
  "kept (t # ts) (d # ds) = (if d then kept ts ds else t # kept ts ds)"
  by (simp_all add: kept_def)

lemma limits_update [simp]: "limits (c\<lparr>next_frame_timestamp_ns := n\<rparr>) i = limits c i"
  by (simp add: limits_def frame_interval_ns_def)

text \<open>
  The controller waits for time \<open>n\<close>; the last frame was kept at \<open>l\<close>, and the frames to come are kept
  no earlier than \<open>b\<close>, \<open>b + i\<close>, \<open>b + 2 i\<close> and so on.
\<close>

lemma throttle_run:
  assumes "limits c i" "next_frame_timestamp_ns c = Some n" "b \<le> n" "n \<le> l + i" "near l" "- (2 ^ 61) \<le> b"
    and "sorted (l # tss)" "\<forall>t \<in> set tss. near t"
  shows "\<exists>c' drps. throttle tss c = Some (c', drps) \<and> length drps = length tss \<and>
    (\<forall>j < length (kept tss drps). b + int j * i \<le> kept tss drps ! j) \<and>
    (\<forall>k < length tss. drps ! k \<longrightarrow> (\<exists>x \<in> insert l (set (kept (take k tss) (take k drps))). tss ! k < x + i))"
  using assms
proof (induction tss arbitrary: c n l b)
  case (Cons t tss)
  have i: "0 < i" "i \<le> 4 * 10 ^ 9" using Cons.prems(1) interval_le by (auto simp: limits_def)
  have t: "l \<le> t" "near t" using Cons.prems(7,8) by simp_all
  have n: "\<bar>n\<bar> \<le> 2 ^ 61 + 2 ^ 33" using Cons.prems(3-6) i by (simp add: near_def abs_le_iff)
  have step: "ShouldDropFrame t c = Some (
      if \<bar>n - t\<bar> < 2 * i
      then if t < n then (c, True) else (c\<lparr>next_frame_timestamp_ns := Some (n + i)\<rparr>, False)
      else (c\<lparr>next_frame_timestamp_ns := Some (t + i div 2)\<rparr>, False))"
    using ShouldDropFrame_limits [OF Cons.prems(1) t(2)] n Cons.prems(2) by simp
  show ?case
  proof (cases "t < n")
    case True
    then have "ShouldDropFrame t c = Some (c, True)" using step t Cons.prems(4) i by auto
    moreover obtain c' drps where "throttle tss c = Some (c', drps)" "length drps = length tss"
      "\<forall>j < length (kept tss drps). b + int j * i \<le> kept tss drps ! j"
      "\<forall>k < length tss. drps ! k \<longrightarrow> (\<exists>x \<in> insert l (set (kept (take k tss) (take k drps))). tss ! k < x + i)"
      using Cons.IH [OF Cons.prems(1-6)] Cons.prems(7,8) by auto
    ultimately show ?thesis
      using True Cons.prems(4) by (auto simp: nth_Cons' less_Suc_eq_0_disj)
  next
    case False
    define n' where "n' = (if t - n < 2 * i then n + i else t + i div 2)"
    have "ShouldDropFrame t c = Some (c\<lparr>next_frame_timestamp_ns := Some n'\<rparr>, False)"
      using step False by (auto simp: n'_def)
    moreover have "b + i \<le> n'" "n' \<le> t + i" using False Cons.prems(3) i by (auto simp: n'_def)
    then obtain c' drps where "throttle tss (c\<lparr>next_frame_timestamp_ns := Some n'\<rparr>) = Some (c', drps)"
      "length drps = length tss" "\<forall>j < length (kept tss drps). b + i + int j * i \<le> kept tss drps ! j"
      "\<forall>k < length tss. drps ! k \<longrightarrow> (\<exists>x \<in> insert t (set (kept (take k tss) (take k drps))). tss ! k < x + i)"
      using Cons.IH [of "c\<lparr>next_frame_timestamp_ns := Some n'\<rparr>" n' "b + i" t] Cons.prems(1,6,7,8) i t by auto
    ultimately show ?thesis
      using False Cons.prems(3) by (auto simp: nth_Cons' less_Suc_eq_0_disj algebra_simps)
  qed
qed simp

text \<open>
  C17: the frames that a rate limited controller keeps of a stream with non-decreasing timestamps. The
  first is kept; the \<open>j\<close>-th after it is kept no earlier than half an interval and \<open>j\<close> intervals
  after the first, so the rate is not exceeded in the long run, gaps in the stream included; and a
  frame is dropped only if it comes less than an interval after one that was kept.
\<close>

theorem framerate_throttle:
  assumes "limits c i" "next_frame_timestamp_ns c = None" "sorted (t0 # tss)" "\<forall>t \<in> set (t0 # tss). near t"
  shows "\<exists>c' drps. throttle (t0 # tss) c = Some (c', False # drps) \<and> length drps = length tss \<and>
    (\<forall>j < length (kept tss drps). t0 + i div 2 + int j * i \<le> kept tss drps ! j) \<and>
    (\<forall>k < length tss. drps ! k \<longrightarrow> (\<exists>x \<in> insert t0 (set (kept (take k tss) (take k drps))). tss ! k < x + i))"
proof -
  let ?c = "c\<lparr>next_frame_timestamp_ns := Some (t0 + i div 2)\<rparr>"
  have i: "0 < i" using assms(1) by (simp add: limits_def)
  have "ShouldDropFrame t0 c = Some (?c, False)"
    using ShouldDropFrame_limits [OF assms(1), of t0] assms(2,4) by simp
  moreover have "i div 2 \<le> i" "0 \<le> i div 2" using i by simp_all
  then have "\<exists>c' drps. throttle tss ?c = Some (c', drps) \<and> length drps = length tss \<and>
      (\<forall>j < length (kept tss drps). t0 + i div 2 + int j * i \<le> kept tss drps ! j) \<and>
      (\<forall>k < length tss. drps ! k \<longrightarrow> (\<exists>x \<in> insert t0 (set (kept (take k tss) (take k drps))). tss ! k < x + i))"
    using assms by (intro throttle_run [where n = "t0 + i div 2"]) (auto simp: near_def)
  ultimately show ?thesis by auto
qed

theorem framerate_throttle_witness:
  "\<exists>c' drps. throttle [0, 20000000, 40000000] \<lparr>max_framerate = 25, next_frame_timestamp_ns = None\<rparr> = Some (c', False # drps) \<and>
     length drps = 2"
proof -
  let ?c = "\<lparr>max_framerate = 25, next_frame_timestamp_ns = None\<rparr>"
  have "frame_interval_ns ?c = Some 40000000"
    using rnd_of_int [of 40000000 53] trunc_of_int [of 40000000]
    by (simp add: frame_interval_ns_def kNSecsPerSec_def in_int64_def int_range_defs)
  then have "limits ?c 40000000" by (simp add: limits_def kMinFramerate_def)
  from framerate_throttle [OF this, of 0 "[20000000, 40000000]"] show ?thesis by (auto simp: near_def)
qed

end
