(* ===== verification/VideoAdapter.thy ===== *)
theory VideoAdapter
  imports VideoBroadcaster Framerate
begin

text \<open>
  \<open>VideoAdapter\<close> of \<open>src/libs/media/source/video/octk_video_adapter.cpp\<close>: the size, crop and rate of
  the frames that a source delivers, from the requests of the application and the wants of the
  sinks. Each public method holds the mutex throughout and is one step. An overflow, a failed check
  and a loop that does not end are \<^term>\<open>None\<close>.
\<close>

section \<open>Scale factors\<close>

record Fraction =
  numerator :: int
  denominator :: int

definition DivideByGcd :: "Fraction \<Rightarrow> Fraction option" where
  "DivideByGcd f = do {
     g \<leftarrow> gcd_c (numerator f) (denominator f);
     n \<leftarrow> div32 (numerator f) g;
     d \<leftarrow> div32 (denominator f) g;
     Some \<lparr>numerator = n, denominator = d\<rparr>
   }"

text \<open>The squares are computed in \<open>int\<close>, the product in \<open>int64_t\<close>; the result is converted to \<open>int\<close>.\<close>

definition scale_pixel_count :: "Fraction \<Rightarrow> int \<Rightarrow> int option" where
  "scale_pixel_count f input_pixels = do {
     n \<leftarrow> int32 (numerator f * numerator f);
     d \<leftarrow> int32 (denominator f * denominator f);
     p \<leftarrow> int64 (n * input_pixels);
     dcheck (d \<noteq> 0);
     Some (cast_int32 (p sdiv d))
   }"

definition roundUp :: "int \<Rightarrow> int \<Rightarrow> int \<Rightarrow> int option" where
  "roundUp value_to_round multiple max_value = do {
     s \<leftarrow> int32 (value_to_round + multiple);
     s \<leftarrow> int32 (s - 1);
     q \<leftarrow> div32 s multiple;
     rounded_value \<leftarrow> int32 (q * multiple);
     if rounded_value \<le> max_value then Some rounded_value
     else do { q \<leftarrow> div32 max_value multiple; int32 (q * multiple) }
   }"

text \<open>One reduction of the scale: by 2/3 if that is exact, by 3/4 otherwise.\<close>

definition next_scale :: "Fraction \<Rightarrow> Fraction option" where
  "next_scale f =
     (if numerator f smod 3 = 0 \<and> denominator f smod 2 = 0 then do {
        n \<leftarrow> div32 (numerator f) 3;
        d \<leftarrow> div32 (denominator f) 2;
        Some \<lparr>numerator = n, denominator = d\<rparr>
      }
      else do {
        n \<leftarrow> int32 (numerator f * 3);
        d \<leftarrow> int32 (denominator f * 4);
        Some \<lparr>numerator = n, denominator = d\<rparr>
      })"

definition better_scale :: "int \<Rightarrow> int \<Rightarrow> Fraction \<Rightarrow> int \<Rightarrow> Fraction \<Rightarrow> int \<Rightarrow> (Fraction \<times> int) option" where
  "better_scale target_pixels max_pixels cur output_pixels best min_pixel_diff =
     (if output_pixels \<le> max_pixels then do {
        d \<leftarrow> int32 (target_pixels - output_pixels);
        diff \<leftarrow> abs32 d;
        Some (if diff < min_pixel_diff then (cur, diff) else (best, min_pixel_diff))
      }
      else Some (best, min_pixel_diff))"

partial_function (option) FindScale_loop :: "int \<Rightarrow> int \<Rightarrow> int \<Rightarrow> Fraction \<Rightarrow> Fraction \<Rightarrow> int \<Rightarrow> Fraction option" where
  "FindScale_loop input_pixels target_pixels max_pixels cur best min_pixel_diff = do {
     c \<leftarrow> scale_pixel_count cur input_pixels;
     if target_pixels < c then do {
       cur \<leftarrow> next_scale cur;
       output_pixels \<leftarrow> scale_pixel_count cur input_pixels;
       (best, min_pixel_diff) \<leftarrow> better_scale target_pixels max_pixels cur output_pixels best min_pixel_diff;
       FindScale_loop input_pixels target_pixels max_pixels cur best min_pixel_diff
     }
     else Some best
   }"

definition start_scale :: "int \<Rightarrow> int \<Rightarrow> Fraction" where
  "start_scale input_width input_height =
     (if input_width smod 9 = 0 \<and> input_height smod 9 = 0 then \<lparr>numerator = 36, denominator = 36\<rparr>
      else if input_width smod 3 = 0 \<and> input_height smod 3 = 0 then \<lparr>numerator = 6, denominator = 6\<rparr>
      else \<lparr>numerator = 1, denominator = 1\<rparr>)"

definition FindScale :: "int \<Rightarrow> int \<Rightarrow> int \<Rightarrow> int \<Rightarrow> Fraction option" where
  "FindScale input_width input_height target_pixels max_pixels = do {
     dcheck (0 < target_pixels);
     dcheck (0 < max_pixels);
     dcheck (target_pixels \<le> max_pixels);
     input_pixels \<leftarrow> int32 (input_width * input_height);
     if input_pixels \<le> target_pixels then Some \<lparr>numerator = 1, denominator = 1\<rparr>
     else do {
       min_pixel_diff \<leftarrow>
         (if input_pixels \<le> max_pixels then do { d \<leftarrow> int32 (input_pixels - target_pixels); abs32 d }
          else Some int32_max);
       best \<leftarrow> FindScale_loop input_pixels target_pixels max_pixels (start_scale input_width input_height)
         \<lparr>numerator = 1, denominator = 1\<rparr> min_pixel_diff;
       DivideByGcd best
     }
   }"


section \<open>The adapter\<close>

record OutputFormatRequest =
  targetLandscapeAspectRatio :: "(int \<times> int) option"
  maxLandscapePixelCount :: "int option"
  targetPortraitAspectRatio :: "(int \<times> int) option"
  maxPortraitPixelCount :: "int option"
  maxFps :: "int option"

definition no_request :: OutputFormatRequest where
  "no_request = \<lparr>targetLandscapeAspectRatio = None, maxLandscapePixelCount = None,
     targetPortraitAspectRatio = None, maxPortraitPixelCount = None, maxFps = None\<rparr>"

record video_adapter =
  mFramesIn :: int
  mFramesOut :: int
  mFramesScaled :: int
  adaptionChanges :: int
  mPreviousWidth :: int
  mPreviousHeight :: int
  mSourceResolutionAlignment :: int
  mResolutionAlignment :: int
  mOutputFormatRequest :: OutputFormatRequest
  mResolutionRequestTargetPixelCount :: int
  mResolutionRequestMaxPixelCount :: int
  mMaxFramerateRequest :: int
  mScaleResolutionDownTo :: "(int \<times> int) option"
  mStashedOutputFormatRequest :: "OutputFormatRequest option"
  mFramerateController :: framerate_controller

definition VideoAdapter_new :: "int \<Rightarrow> video_adapter" where
  "VideoAdapter_new source_resolution_alignment = \<lparr>mFramesIn = 0, mFramesOut = 0, mFramesScaled = 0,
     adaptionChanges = 0, mPreviousWidth = 0, mPreviousHeight = 0,
     mSourceResolutionAlignment = source_resolution_alignment, mResolutionAlignment = source_resolution_alignment,
     mOutputFormatRequest = no_request, mResolutionRequestTargetPixelCount = int32_max,
     mResolutionRequestMaxPixelCount = int32_max, mMaxFramerateRequest = int32_max,
     mScaleResolutionDownTo = None, mStashedOutputFormatRequest = None,
     mFramerateController = FramerateController_new\<rparr>"

definition isDropFrame :: "int \<Rightarrow> video_adapter \<Rightarrow> (video_adapter \<times> bool) option" where
  "isDropFrame ts a = do {
     let maxFps = (case maxFps (mOutputFormatRequest a) of
                     Some f \<Rightarrow> min (mMaxFramerateRequest a) f
                   | None \<Rightarrow> mMaxFramerateRequest a);
     (c, drp) \<leftarrow> ShouldDropFrame ts (SetMaxFramerate (of_int maxFps) (mFramerateController a));
     Some (a\<lparr>mFramerateController := c\<rparr>, drp)
   }"

text \<open>The aspect ratio and the pixel limit that apply to an input of this orientation.\<close>

definition select_request :: "video_adapter \<Rightarrow> int \<Rightarrow> int \<Rightarrow> (int \<times> int) option \<times> int" where
  "select_request a inWidth inHeight =
     (let (ratio, limit) =
        (if inHeight < inWidth
         then (targetLandscapeAspectRatio (mOutputFormatRequest a), maxLandscapePixelCount (mOutputFormatRequest a))
         else (targetPortraitAspectRatio (mOutputFormatRequest a), maxPortraitPixelCount (mOutputFormatRequest a)))
      in (ratio, case limit of
            Some l \<Rightarrow> min (mResolutionRequestMaxPixelCount a) l
          | None \<Rightarrow> mResolutionRequestMaxPixelCount a))"

definition crop_to_aspect :: "(int \<times> int) option \<Rightarrow> int \<Rightarrow> int \<Rightarrow> (int \<times> int) option" where
  "crop_to_aspect ratio inWidth inHeight =
     (case ratio of
        None \<Rightarrow> Some (inWidth, inHeight)
      | Some (w, h) \<Rightarrow>
          if w \<le> 0 \<or> h \<le> 0 then Some (inWidth, inHeight)
          else do {
            let requested_aspect = rnd 24 (rnd 24 (of_int w) / rnd 24 (of_int h));
            cw \<leftarrow> int32 (trunc (rnd 24 (rnd 24 (of_int inHeight) * requested_aspect)));
            ch \<leftarrow> int32 (trunc (rnd 24 (rnd 24 (of_int inWidth) / requested_aspect)));
            Some (min inWidth cw, min inHeight ch)
          })"

text \<open>\<open>OCTK_DCHECK_EQ(0, x % m)\<close>.\<close>

definition check_multiple :: "int \<Rightarrow> int \<Rightarrow> unit option" where
  "check_multiple x m = do { r \<leftarrow> mod32 x m; dcheck (r = 0) }"

text \<open>The output size made to fit the requested resolution, turned to the orientation of the frame.\<close>

definition fit_resolution :: "(int \<times> int) option \<Rightarrow> int \<Rightarrow> int \<Rightarrow> int \<Rightarrow> (int \<times> int) option" where
  "fit_resolution down_to alignment outWidth outHeight =
     (case down_to of
        None \<Rightarrow> Some (outWidth, outHeight)
      | Some (rw, rh) \<Rightarrow> do {
          let (w, h) = (if (outWidth < outHeight) \<noteq> (rw < rh) then (rh, rw) else (rw, rh));
          if 0 < outWidth \<and> 0 < outHeight \<and> (w < outWidth \<or> h < outHeight)
          then do {
            let scale_factor = min (rnd 53 (of_int w / of_int outWidth)) (rnd 53 (of_int h / of_int outHeight));
            vw \<leftarrow> int32 (round_away (rnd 53 (of_int outWidth * scale_factor)));
            ow \<leftarrow> roundUp vw alignment w;
            vh \<leftarrow> int32 (round_away (rnd 53 (of_int outHeight * scale_factor)));
            oh \<leftarrow> roundUp vh alignment h;
            check_multiple ow alignment;
            check_multiple oh alignment;
            Some (ow, oh)
          }
          else Some (outWidth, outHeight)
        })"

record adapted =
  croppedWidth :: int
  croppedHeight :: int
  outWidth :: int
  outHeight :: int

text \<open>The computation of the four sizes, with the scale that was applied.\<close>

definition adapted_size :: "video_adapter \<Rightarrow> int \<Rightarrow> int \<Rightarrow> (adapted \<times> Fraction) option" where
  "adapted_size a inWidth inHeight = do {
     let (ratio, max_pixels) = select_request a inWidth inHeight;
     let target_pixels = min (mResolutionRequestTargetPixelCount a) max_pixels;
     (cw, ch) \<leftarrow> crop_to_aspect ratio inWidth inHeight;
     scale \<leftarrow> FindScale cw ch target_pixels max_pixels;
     m \<leftarrow> int32 (denominator scale * mResolutionAlignment a);
     cw \<leftarrow> roundUp cw m inWidth;
     ch \<leftarrow> roundUp ch m inHeight;
     check_multiple cw (denominator scale);
     check_multiple ch (denominator scale);
     qw \<leftarrow> div32 cw (denominator scale);
     ow \<leftarrow> int32 (qw * numerator scale);
     qh \<leftarrow> div32 ch (denominator scale);
     oh \<leftarrow> int32 (qh * numerator scale);
     check_multiple ow (mResolutionAlignment a);
     check_multiple oh (mResolutionAlignment a);
     (ow, oh) \<leftarrow> fit_resolution (mScaleResolutionDownTo a) (mResolutionAlignment a) ow oh;
     Some (\<lparr>croppedWidth = cw, croppedHeight = ch, outWidth = ow, outHeight = oh\<rparr>, scale)
   }"

text \<open>The statistics and the previous size, after a frame that was not dropped.\<close>

definition count_output :: "adapted \<Rightarrow> Fraction \<Rightarrow> video_adapter \<Rightarrow> video_adapter option" where
  "count_output r scale a = do {
     n \<leftarrow> int32 (mFramesOut a + 1);
     let a = a\<lparr>mFramesOut := n\<rparr>;
     a \<leftarrow> (if numerator scale \<noteq> denominator scale
          then do { n \<leftarrow> int32 (mFramesScaled a + 1); Some (a\<lparr>mFramesScaled := n\<rparr>) } else Some a);
     a \<leftarrow> (if mPreviousWidth a \<noteq> 0 \<and> (mPreviousWidth a \<noteq> outWidth r \<or> mPreviousHeight a \<noteq> outHeight r)
          then do { n \<leftarrow> int32 (adaptionChanges a + 1); Some (a\<lparr>adaptionChanges := n\<rparr>) } else Some a);
     Some (a\<lparr>mPreviousWidth := outWidth r, mPreviousHeight := outHeight r\<rparr>)
   }"

text \<open>The result is \<^term>\<open>None\<close> for a dropped frame.\<close>

definition adaptFrameResolution :: "int \<Rightarrow> int \<Rightarrow> int \<Rightarrow> video_adapter \<Rightarrow> (video_adapter \<times> adapted option) option" where
  "adaptFrameResolution inWidth inHeight ts a = do {
     n \<leftarrow> int32 (mFramesIn a + 1);
     let a = a\<lparr>mFramesIn := n\<rparr>;
     let max_pixels = snd (select_request a inWidth inHeight);
     (a, drp) \<leftarrow> (if max_pixels \<le> 0 then Some (a, True) else isDropFrame ts a);
     if drp then do { int32 (mFramesIn a - mFramesOut a); Some (a, None) }
     else do {
       (r, scale) \<leftarrow> adapted_size a inWidth inHeight;
       a \<leftarrow> count_output r scale a;
       Some (a, Some r)
     }
   }"

definition onOutputFormatRequest :: "OutputFormatRequest \<Rightarrow> video_adapter \<Rightarrow> video_adapter" where
  "onOutputFormatRequest request a =
     (let a = (if mStashedOutputFormatRequest a \<noteq> None
               then a\<lparr>mStashedOutputFormatRequest := Some request\<rparr>
               else a\<lparr>mOutputFormatRequest := request\<rparr>)
      in a\<lparr>mFramerateController := Reset (mFramerateController a)\<rparr>)"

definition orient_request :: "(int \<times> int) option \<Rightarrow> int option \<Rightarrow> int option \<Rightarrow> OutputFormatRequest" where
  "orient_request ratio max_pixels fps =
     (let (landscape, portrait) =
        (case ratio of
           Some (w, h) \<Rightarrow> if 0 < w \<and> 0 < h then (Some (max w h, min w h), Some (min w h, max w h)) else (None, None)
         | None \<Rightarrow> (None, None))
      in \<lparr>targetLandscapeAspectRatio = landscape, maxLandscapePixelCount = max_pixels,
          targetPortraitAspectRatio = portrait, maxPortraitPixelCount = max_pixels, maxFps = fps\<rparr>)"

definition OnSinkWants :: "VideoSinkWants \<Rightarrow> video_adapter \<Rightarrow> video_adapter option" where
  "OnSinkWants wants a = do {
     alignment \<leftarrow> lcm_c (mSourceResolutionAlignment a) (resolutionAlignment wants);
     let a = a\<lparr>mResolutionRequestMaxPixelCount := maxPixelCount wants,
       mResolutionRequestTargetPixelCount :=
         (case targetPixelCount wants of Some t \<Rightarrow> t | None \<Rightarrow> maxPixelCount wants),
       mMaxFramerateRequest := maxFramerateFps wants,
       mResolutionAlignment := alignment,
       mScaleResolutionDownTo := map_option (\<lambda>r. (fs_width r, fs_height r)) (requestedResolution wants)\<rparr>;
     if requestedResolution wants = None
     then Some (case mStashedOutputFormatRequest a of
         Some r \<Rightarrow> a\<lparr>mOutputFormatRequest := r, mStashedOutputFormatRequest := None\<rparr>
       | None \<Rightarrow> a)
     else if anyActiveWithoutRequestedResolution wants = Some True then Some a
     else do {
       let a = (if mStashedOutputFormatRequest a = None
                then a\<lparr>mStashedOutputFormatRequest := Some (mOutputFormatRequest a)\<rparr> else a);
       Some (a\<lparr>mOutputFormatRequest := no_request\<rparr>)
     }
   }"

definition GetTargetPixels :: "video_adapter \<Rightarrow> int" where
  "GetTargetPixels a = mResolutionRequestTargetPixelCount a"

text \<open>\<^term>\<open>None\<close> is the infinity of \<open>float\<close>.\<close>

definition GetMaxFramerate :: "video_adapter \<Rightarrow> rat option" where
  "GetMaxFramerate a =
     (let framerate = min (mMaxFramerateRequest a)
        (case maxFps (mOutputFormatRequest a) of Some f \<Rightarrow> f | None \<Rightarrow> mMaxFramerateRequest a)
      in if framerate = int32_max then None else Some (rnd 24 (of_int (mMaxFramerateRequest a))))"


section \<open>The search for a scale\<close>

text \<open>The scales that the search visits.\<close>

definition scale_ok :: "Fraction \<Rightarrow> bool" where
  "scale_ok f \<longleftrightarrow> 0 < denominator f \<and> numerator f \<le> denominator f \<and> denominator f \<le> 46340 \<and>
     (numerator f \<in> {1, 2, 4} \<or> numerator f \<in> {3, 6, 12} \<and> even (denominator f) \<or>
      numerator f = 36 \<and> denominator f = 36)"

definition scaled_pixels :: "Fraction \<Rightarrow> int \<Rightarrow> int" where
  "scaled_pixels f n = numerator f * numerator f * n div (denominator f * denominator f)"

lemma scale_ok_bounds:
  assumes "scale_ok f"
  shows "0 < numerator f" "numerator f \<le> 36" "numerator f * numerator f \<le> 1296" "0 < denominator f * denominator f"
    "denominator f * denominator f \<le> 2147395600"
proof -
  show n: "0 < numerator f" "numerator f \<le> 36" using assms by (auto simp: scale_ok_def)
  show "numerator f * numerator f \<le> 1296" using n mult_mono [of "numerator f" 36 "numerator f" 36] by simp
  show "0 < denominator f * denominator f" "denominator f * denominator f \<le> 2147395600"
    using assms mult_mono [of "denominator f" 46340 "denominator f" 46340] by (auto simp: scale_ok_def)
qed

lemma scale_pixel_count_eq:
  assumes ok: "scale_ok f" and n: "0 \<le> n" "n < 2 ^ 24"
  shows "scale_pixel_count f n = Some (scaled_pixels f n)" "0 \<le> scaled_pixels f n" "scaled_pixels f n \<le> n"
proof -
  note b = scale_ok_bounds [OF ok]
  define a where "a = numerator f * numerator f"
  define d where "d = denominator f * denominator f"
  have a: "0 < a" "a \<le> 1296" "a \<le> d" and d: "0 < d" "d \<le> 2147395600"
    using b ok mult_mono [of "numerator f" "denominator f" "numerator f" "denominator f"]
    by (auto simp: a_def d_def scale_ok_def)
  have p: "0 \<le> a * n" "a * n \<le> 1296 * 2 ^ 24" "a * n \<le> d * n"
    using a n mult_mono [of a 1296 n "2 ^ 24"] mult_right_mono [of a d n] by simp_all
  have q: "0 \<le> a * n div d" "a * n div d \<le> n"
    using p d zdiv_mono1 [of "a * n" "d * n" d] by (auto simp: pos_imp_zdiv_nonneg_iff)
  then show "0 \<le> scaled_pixels f n" "scaled_pixels f n \<le> n" by (simp_all add: scaled_pixels_def a_def d_def)
  have small: "in_int64 m" if "0 \<le> m" "m \<le> 1296 * 2 ^ 24" for m
    using that by (simp add: in_int64_def int_range_defs)
  have "in_int64 (a * n)" by (rule small [OF p(1,2)])
  moreover have "in_int32 (a * n div d)"
    using q n unfolding in_int32_def int_range_defs by (intro conjI) simp_all
  ultimately have "int32 a = Some a" "int32 d = Some d" "int64 (a * n) = Some (a * n)" "a * n sdiv d = a * n div d"
      "cast_int32 (a * n div d) = a * n div d"
    using a d p(1) by (simp_all add: in_int32_def int_range_defs sdiv_nonneg del: zero_le_mult_iff)
  then show "scale_pixel_count f n = Some (scaled_pixels f n)"
    using d by (simp add: scale_pixel_count_def scaled_pixels_def flip: a_def d_def)
qed

lemma le_div_imp: "0 < b \<Longrightarrow> k \<le> a div b \<Longrightarrow> k * b \<le> (a :: int)"
  using mult_right_mono [of k "a div b" b] div_mult_mod_eq [of a b] pos_mod_sign [of b a] by linarith

lemma div_lt_imp: "0 < b \<Longrightarrow> a < (a div b + 1) * (b :: int)"
  using div_mult_mod_eq [of a b] pos_mod_bound [of b a] unfolding distrib_right by linarith

text \<open>A step reduces the scale to 3/4 of it or less, and keeps the squares in range while more than one pixel is left.\<close>

lemma next_scale_ok:
  assumes ok: "scale_ok f" and n: "0 \<le> n" "n < 2 ^ 24" and two: "2 \<le> scaled_pixels f n"
  shows "\<exists>f'. next_scale f = Some f' \<and> scale_ok f' \<and> 4 * numerator f' * denominator f \<le> 3 * numerator f * denominator f'"
proof (cases "numerator f \<in> {1, 2, 4}")
  case True
  define a d where "a = numerator f" and "d = denominator f"
  have d: "0 < d" "a \<le> d" "0 < d * d" using ok by (simp_all add: scale_ok_def a_def d_def)
  have "2 * (d * d) \<le> a * a * n" using two le_div_imp [OF d(3)] by (simp add: scaled_pixels_def a_def d_def)
  moreover have "a * a * n \<le> 16 * 2 ^ 24" using True n mult_mono [of "a * a" 16 n "2 ^ 24"] by (auto simp: a_def)
  ultimately have "d * d \<le> 134217728" by simp
  then have "d \<le> 11585" using mult_mono [of 11586 d 11586 d] by (cases "11586 \<le> d") auto
  then show ?thesis
    using True d(1,2) by (auto simp: next_scale_def scale_ok_def in_int32_def int_range_defs smod_nonneg simp flip: a_def d_def)
next
  case False
  show ?thesis
  proof (cases "numerator f = 36")
    case True
    then have "denominator f = 36" using ok by (simp add: scale_ok_def)
    then show ?thesis using True by (simp add: next_scale_def scale_ok_def div32_nonneg in_int32_def int_range_defs smod_nonneg)
  next
    case False
    then have a: "numerator f \<in> {3, 6, 12}" "even (denominator f)"
      using ok \<open>numerator f \<notin> {1, 2, 4}\<close> by (auto simp: scale_ok_def)
    then obtain e where e: "denominator f = 2 * e" by (auto elim: evenE)
    then have "0 < e" "2 * e \<le> 46340" "numerator f \<le> 2 * e" using ok by (simp_all add: scale_ok_def)
    then show ?thesis
      using a(1) e by (auto simp: next_scale_def scale_ok_def div32_nonneg in_int32_def int_range_defs smod_nonneg)
  qed
qed

text \<open>A smaller scale leaves fewer pixels, if there were two or more.\<close>

lemma scaled_pixels_decrease:
  assumes ok: "scale_ok f" "scale_ok f'" and n: "0 \<le> n" and two: "2 \<le> scaled_pixels f n"
    and smaller: "4 * numerator f' * denominator f \<le> 3 * numerator f * denominator f'"
  shows "scaled_pixels f' n < scaled_pixels f n"
proof (rule ccontr)
  define a b a' b' c where "a = numerator f" and "b = denominator f" and "a' = numerator f'" and "b' = denominator f'"
    and "c = scaled_pixels f n"
  note defs = a_def b_def a'_def b'_def
  have pos: "0 < a" "0 < b" "0 < a'" "0 < b'" "0 < b * b" "0 < b' * b'"
    using ok scale_ok_bounds [OF ok(1)] scale_ok_bounds [OF ok(2)] by (simp_all add: defs scale_ok_def)
  assume "\<not> scaled_pixels f' n < scaled_pixels f n"
  then have "c \<le> a' * a' * n div (b' * b')" by (simp add: c_def scaled_pixels_def defs)
  then have 1: "c * (b' * b') \<le> a' * a' * n" by (rule le_div_imp [OF pos(6)])
  have 2: "a * a * n < (c + 1) * (b * b)" using div_lt_imp [OF pos(5)] by (simp add: c_def scaled_pixels_def defs)
  have sm: "4 * a' * b \<le> 3 * a * b'" using smaller by (simp add: defs)
  have "4 * a' * b * (4 * a' * b) \<le> 3 * a * b' * (3 * a * b')"
    using pos by (intro mult_mono [OF sm sm]) simp_all
  then have "16 * (a' * a') * (b * b) * n \<le> 9 * (a * a) * (b' * b') * n"
    using n by (intro mult_right_mono) (simp_all add: algebra_simps)
  moreover have "16 * (b * b) * (c * (b' * b')) \<le> 16 * (b * b) * (a' * a' * n)"
    using 1 pos by (intro mult_left_mono) simp_all
  moreover have "9 * (b' * b') * (a * a * n) < 9 * (b' * b') * ((c + 1) * (b * b))"
    using 2 pos by (intro mult_strict_left_mono) simp_all
  ultimately have "16 * c * (b * b * (b' * b')) < 9 * (c + 1) * (b * b * (b' * b'))"
    by (simp add: algebra_simps)
  then have "16 * c < 9 * (c + 1)" using pos by (simp add: mult_less_cancel_right)
  then show False using two by (simp add: c_def)
qed

lemma in_int32_abs: "\<bar>x\<bar> < int32_max \<Longrightarrow> in_int32 x \<and> in_int32 \<bar>x\<bar>"
  unfolding in_int32_def int_range_defs by arith

text \<open>
  The loop returns, and the scale it returns does not leave more than \<open>mx\<close> pixels: as long as the
  best scale so far is too large, its difference is the initial one, so the first scale that is
  small enough replaces it.
\<close>

lemma FindScale_loop_spec:
  assumes n: "0 \<le> n" "n < 2 ^ 24" and tgt: "0 < tgt" "tgt \<le> mx" "tgt < 2 ^ 24"
    and "scale_ok cur" "scale_ok best" "diff \<le> int32_max" "diff = int32_max \<or> scaled_pixels best n \<le> mx"
    and "tgt < scaled_pixels cur n \<or> scaled_pixels best n \<le> mx"
  shows "\<exists>f. FindScale_loop n tgt mx cur best diff = Some f \<and> scale_ok f \<and> scaled_pixels f n \<le> mx"
  using assms(6-10)
proof (induction "nat (scaled_pixels cur n)" arbitrary: cur best diff rule: less_induct)
  case less
  show ?case
  proof (cases "tgt < scaled_pixels cur n")
    case False
    then show ?thesis
      using less.prems by (subst FindScale_loop.simps) (simp add: scale_pixel_count_eq [OF _ n])
  next
    case True
    then have two: "2 \<le> scaled_pixels cur n" using tgt by simp
    obtain cur' where cur': "next_scale cur = Some cur'" "scale_ok cur'"
        "4 * numerator cur' * denominator cur \<le> 3 * numerator cur * denominator cur'"
      using next_scale_ok [OF less.prems(1) n two] by blast
    let ?out = "scaled_pixels cur' n"
    have out: "0 \<le> ?out" "?out \<le> n" "?out < scaled_pixels cur n"
      using scale_pixel_count_eq [OF cur'(2) n] scaled_pixels_decrease [OF less.prems(1) cur'(2) n(1) two cur'(3)] by simp_all
    define best' diff' where "best' = (if ?out \<le> mx \<and> \<bar>tgt - ?out\<bar> < diff then cur' else best)"
      and "diff' = (if ?out \<le> mx \<and> \<bar>tgt - ?out\<bar> < diff then \<bar>tgt - ?out\<bar> else diff)"
    have small: "\<bar>tgt - ?out\<bar> < int32_max" using tgt n out by (simp add: int_range_defs)
    then have "in_int32 (tgt - ?out)" "in_int32 \<bar>tgt - ?out\<bar>"
      by (simp_all add: in_int32_abs)
    then have "better_scale tgt mx cur' ?out best diff = Some (best', diff')"
      by (simp add: better_scale_def best'_def diff'_def abs32_def)
    then have "FindScale_loop n tgt mx cur best diff = FindScale_loop n tgt mx cur' best' diff'"
      using True cur' less.prems(1) by (subst FindScale_loop.simps) (simp add: scale_pixel_count_eq [OF _ n])
    moreover have "scale_ok best'" "diff' \<le> int32_max" "diff' = int32_max \<or> scaled_pixels best' n \<le> mx"
        "tgt < ?out \<or> scaled_pixels best' n \<le> mx"
      using less.prems cur'(2) small tgt(2) by (auto simp: best'_def diff'_def)
    ultimately show ?thesis
      using less.hyps [of cur' best' diff'] out cur'(2) by simp
  qed
qed

lemma start_scale_ok: "scale_ok (start_scale w h)" "scaled_pixels (start_scale w h) n = n"
  by (simp_all add: start_scale_def scale_ok_def scaled_pixels_def)

lemma DivideByGcd_ok:
  assumes "scale_ok f"
  shows "\<exists>g. DivideByGcd f = Some g \<and> 0 < numerator g \<and> numerator g \<le> denominator g \<and> denominator g \<le> 46340 \<and>
    coprime (numerator g) (denominator g) \<and> scaled_pixels g n = scaled_pixels f n"
proof -
  define a b k where "a = numerator f" and "b = denominator f" and "k = gcd a b"
  have b: "0 < a" "a \<le> 36" "a \<le> b" "0 < b" "b \<le> 46340"
    using assms scale_ok_bounds [OF assms] by (simp_all add: a_def b_def scale_ok_def)
  have "in_int32 a" "in_int32 b" "int32_min < a" "int32_min < b" using b by (simp_all add: in_int32_def int_range_defs)
  then have g: "gcd_c a b = Some k" using gcd_c_correct b by (simp add: k_def)
  have k: "0 < k" "k dvd a" "k dvd b" using b by (simp_all add: k_def)
  define a' b' where "a' = a div k" and "b' = b div k"
  note q = a'_def [symmetric] b'_def [symmetric]
  have ab: "a = k * a'" "b = k * b'" using k by (simp_all add: a'_def b'_def)
  have cop: "coprime a' b'" using div_gcd_coprime [of a b] b by (simp add: a'_def b'_def k_def)
  have pos: "0 < a'" "0 < b'" using b(1,4) k(1) unfolding ab by (simp_all add: zero_less_mult_iff)
  have "a' \<le> b'" using b(3) k(1) unfolding ab by simp
  moreover have "b' \<le> b" using div_le_self(2) [of k b] k(1) b(4) by (simp add: b'_def)
  moreover have "DivideByGcd f = Some \<lparr>numerator = a', denominator = b'\<rparr>"
  proof -
    have "div32 a k = Some a'" "div32 b k = Some b'"
      unfolding a'_def b'_def using b k(1) by (intro div32_nonneg; simp add: in_int32_def int_range_defs)+
    then show ?thesis using g by (simp only: DivideByGcd_def a_def [symmetric] b_def [symmetric] Option.bind_lunit)
  qed
  moreover have "a * a * n div (b * b) = a' * a' * n div (b' * b')"
  proof -
    have "a * a * n = k * k * (a' * a' * n)" "b * b = k * k * (b' * b')" unfolding ab by (simp_all only: ac_simps)
    moreover have "k * k \<noteq> 0" using k(1) by simp
    ultimately show ?thesis by (simp only: div_mult_mult1 simp_thms)
  qed
  ultimately show ?thesis using cop pos b(5) by (simp add: scaled_pixels_def flip: a_def b_def)
qed

lemma FindScale_correct:
  assumes "0 \<le> w * h" "w * h < 2 ^ 24" "0 < tgt" "tgt \<le> mx"
  shows "\<exists>g. FindScale w h tgt mx = Some g \<and> 0 < numerator g \<and> numerator g \<le> denominator g \<and> denominator g \<le> 46340 \<and>
    coprime (numerator g) (denominator g) \<and> scaled_pixels g (w * h) \<le> mx"
proof -
  define n where "n = w * h"
  have n: "0 \<le> n" "n < 2 ^ 24" using assms by (simp_all add: n_def)
  then have i: "int32 (w * h) = Some n" by (simp add: n_def [symmetric] in_int32_def int_range_defs)
  show ?thesis
  proof (cases "n \<le> tgt")
    case True
    then show ?thesis using assms(3,4) i by (simp add: FindScale_def scaled_pixels_def flip: n_def)
  next
    case False
    define diff where "diff = (if n \<le> mx then n - tgt else int32_max)"
    have d: "diff \<le> int32_max" "(if n \<le> mx then do { d \<leftarrow> int32 (n - tgt); abs32 d } else Some int32_max) = Some diff"
      using False assms(3) n by (auto simp: diff_def abs32_def in_int32_def int_range_defs)
    have one: "scale_ok \<lparr>numerator = 1, denominator = 1\<rparr>" "scaled_pixels \<lparr>numerator = 1, denominator = 1\<rparr> n = n"
      by (simp_all add: scale_ok_def scaled_pixels_def)
    obtain f where f: "FindScale_loop n tgt mx (start_scale w h) \<lparr>numerator = 1, denominator = 1\<rparr> diff = Some f"
        "scale_ok f" "scaled_pixels f n \<le> mx"
    proof -
      have "diff = int32_max \<or> scaled_pixels \<lparr>numerator = 1, denominator = 1\<rparr> n \<le> mx"
        unfolding one(2) by (simp add: diff_def)
      moreover have "tgt < scaled_pixels (start_scale w h) n" using False start_scale_ok(2) by simp
      ultimately show ?thesis
        using FindScale_loop_spec [OF n assms(3,4) _ start_scale_ok(1) one(1) d(1), of w h] False n that by auto
    qed
    obtain g where "DivideByGcd f = Some g" "0 < numerator g" "numerator g \<le> denominator g" "denominator g \<le> 46340"
        "coprime (numerator g) (denominator g)" "scaled_pixels g n = scaled_pixels f n"
      using DivideByGcd_ok [OF f(2), of n] by blast
    then show ?thesis
      using False assms(3,4) i d(2) f by (simp add: FindScale_def flip: n_def)
  qed
qed


section \<open>The size of an adapted frame\<close>

lemma roundUp_spec:
  assumes "0 \<le> v" "0 < m" "v + m \<le> int32_max" "0 \<le> mx" "mx \<le> int32_max"
  shows "\<exists>r. roundUp v m mx = Some r \<and> 0 \<le> r \<and> r \<le> mx \<and> m dvd r \<and> (\<forall>u. v \<le> u \<longrightarrow> m dvd u \<longrightarrow> r \<le> u)"
proof -
  define q where "q = (v + m - 1) div m"
  have floor: "x div m * m \<le> x" for x
    using div_mult_mod_eq [of x m] pos_mod_sign [OF assms(2), of x] by linarith
  have "q * m \<le> v + m - 1" "0 \<le> q" using assms(1,2) floor [of "v + m - 1"] by (simp_all add: q_def pos_imp_zdiv_nonneg_iff)
  then have q: "0 \<le> q * m" "q * m \<le> v + m - 1" using assms(2) by simp_all
  have least: "q * m \<le> u" if u: "v \<le> u" "m dvd u" for u
  proof -
    obtain k where k: "u = m * k" using u(2) by (auto elim: dvdE)
    have "v + m - 1 < (k + 1) * m" using u(1) unfolding k by (simp add: algebra_simps)
    then have lt: "q * m < (k + 1) * m" using floor [of "v + m - 1"] unfolding q_def by linarith
    then have "q \<le> k" using assms(2) by (simp add: mult_less_cancel_right)
    then show ?thesis using mult_right_mono [of q k m] assms(2) by (simp add: k mult.commute)
  qed
  have mx: "mx div m * m \<le> mx" "0 \<le> mx div m * m"
    using assms(2,4) floor [of mx] by (simp_all add: pos_imp_zdiv_nonneg_iff)
  have ints: "int32 (v + m) = Some (v + m)" "int32 (v + m - 1) = Some (v + m - 1)" "div32 (v + m - 1) m = Some q"
      "div32 mx m = Some (mx div m)"
    using assms by (auto simp: q_def in_int32_def int_range_defs intro!: div32_nonneg)
  have small: "int32 x = Some x" if "0 \<le> x" "x \<le> int32_max" for x
    using that by (simp add: in_int32_def int_range_defs)
  have prods: "int32 (q * m) = Some (q * m)" "int32 (mx div m * m) = Some (mx div m * m)"
    using q mx assms(3,5) by (auto intro!: small order_trans [OF mx(1)])
  have res: "roundUp v m mx = Some (if q * m \<le> mx then q * m else mx div m * m)"
    by (simp add: roundUp_def ints prods)
  show ?thesis
  proof (cases "q * m \<le> mx")
    case True
    then show ?thesis using res q least by simp
  next
    case False
    then have "mx div m * m \<le> u" if "v \<le> u" "m dvd u" for u using least [OF that] mx by linarith
    then show ?thesis using res mx False by simp
  qed
qed

lemma check_multiple_ok: "0 \<le> x \<Longrightarrow> 0 < m \<Longrightarrow> m dvd x \<Longrightarrow> check_multiple x m = Some ()"
  by (simp add: check_multiple_def mod32_def smod_nonneg)

lemma crop_to_aspect_spec:
  assumes "0 < w" "w \<le> 65535" "0 < h" "h \<le> 65535"
    and ratio: "\<forall>p q. ratio = Some (p, q) \<longrightarrow> p \<le> 4096 \<and> q \<le> 4096"
  shows "\<exists>cw ch. crop_to_aspect ratio w h = Some (cw, ch) \<and> 0 \<le> cw \<and> cw \<le> w \<and> 0 \<le> ch \<and> ch \<le> h"
proof (cases "\<exists>p q. ratio = Some (p, q) \<and> 0 < p \<and> 0 < q")
  case False
  then have "crop_to_aspect ratio w h = Some (w, h)"
    by (cases ratio) (auto simp: crop_to_aspect_def not_le [symmetric])
  then show ?thesis using assms(1,3) by simp
next
  case True
  then obtain p q where pq: "ratio = Some (p, q)" "0 < p" "0 < q" "p \<le> 4096" "q \<le> 4096" using ratio by blast
  define x where "x = rat_of_int p / of_int q"
  define asp where "asp = rnd 24 x"
  have exact: "rnd 24 (of_int k) = of_int k" if "0 \<le> k" "k \<le> 65535" for k using that by (intro rnd_of_int) simp_all
  have x: "0 < x" "x \<le> 4096" "1 / 4096 \<le> x"
    using pq by (auto simp: x_def field_simps intro: order_trans mult_mono)
  then have asp: "0 \<le> asp" "asp \<le> 8192" "1 / 8192 \<le> asp"
    using rnd_nonneg [of x 24] rnd_le_double [of x 24] rnd_ge_half [of x 24] by (auto simp: asp_def)
  have "0 \<le> of_int h * asp" "of_int h * asp \<le> 65535 * 8192" "0 \<le> of_int w / asp" "of_int w / asp \<le> 65535 / (1 / 8192)"
  proof -
    have wh: "0 \<le> rat_of_int w" "rat_of_int w \<le> 65535" "0 \<le> rat_of_int h" "rat_of_int h \<le> 65535"
      using assms by simp_all
    show "of_int h * asp \<le> 65535 * 8192" using wh asp by (intro mult_mono) simp_all
    show "of_int w / asp \<le> 65535 / (1 / 8192)" using wh asp by (intro frac_le) simp_all
    show "0 \<le> of_int h * asp" "0 \<le> of_int w / asp" using wh asp by simp_all
  qed
  then have b: "0 \<le> rnd 24 (of_int h * asp)" "rnd 24 (of_int h * asp) \<le> of_int 2000000000"
      "0 \<le> rnd 24 (of_int w / asp)" "rnd 24 (of_int w / asp) \<le> of_int 2000000000"
    using rnd_nonneg rnd_le_double [of "of_int h * asp" 24] rnd_le_double [of "of_int w / asp" 24] by auto
  have t: "0 \<le> trunc y" "int32 (trunc y) = Some (trunc y)" if "0 \<le> y" "y \<le> of_int 2000000000" for y
    using trunc_bounds [OF that(1)] that by (auto simp: in_int32_def int_range_defs)
  show ?thesis
    using pq assms t [OF b(1,2)] t [OF b(3,4)]
    by (simp add: crop_to_aspect_def exact Let_def flip: x_def asp_def)
qed

text \<open>The requested resolution in the orientation of a frame.\<close>

definition oriented :: "int \<times> int \<Rightarrow> int \<Rightarrow> int \<Rightarrow> int \<times> int" where
  "oriented r w h = (if (w < h) \<noteq> (fst r < snd r) then (snd r, fst r) else r)"

lemma fit_resolution_spec:
  assumes a: "0 < a" "a \<le> 32768" "a dvd ow" "a dvd oh" and o: "0 \<le> ow" "ow \<le> 65535" "0 \<le> oh" "oh \<le> 65535"
    and r: "\<forall>rw rh. down_to = Some (rw, rh) \<longrightarrow> 0 < rw \<and> rw \<le> int32_max \<and> 0 < rh \<and> rh \<le> int32_max"
  shows "\<exists>fw fh. fit_resolution down_to a ow oh = Some (fw, fh) \<and> 0 \<le> fw \<and> fw \<le> ow \<and> 0 \<le> fh \<and> fh \<le> oh \<and>
    a dvd fw \<and> a dvd fh \<and>
    (\<forall>res. down_to = Some res \<longrightarrow> 0 < ow \<longrightarrow> 0 < oh \<longrightarrow> fw \<le> fst (oriented res ow oh) \<and> fh \<le> snd (oriented res ow oh))"
proof (cases down_to)
  case None
  then show ?thesis using a o by (simp add: fit_resolution_def)
next
  case (Some res)
  obtain w h where wh: "oriented res ow oh = (w, h)" by (cases "oriented res ow oh")
  have pos: "0 < w" "w \<le> int32_max" "0 < h" "h \<le> int32_max"
    using r Some wh by (cases res; auto simp: oriented_def split: if_splits)+
  show ?thesis
  proof (cases "0 < ow \<and> 0 < oh \<and> (w < ow \<or> h < oh)")
    case False
    then have "fit_resolution down_to a ow oh = Some (ow, oh)"
      using Some wh by (cases res) (auto simp: fit_resolution_def oriented_def)
    then show ?thesis using False a o Some wh by auto
  next
    case True
    define sf where "sf = min (rnd 53 (of_int w / of_int ow)) (rnd 53 (of_int h / of_int oh))"
    have "rnd 53 (of_int w / of_int ow) \<le> of_int 1" if "w < ow"
      using that True pos by (intro rnd_le_int) simp_all
    moreover have "rnd 53 (of_int h / of_int oh) \<le> of_int 1" if "h < oh"
      using that True pos by (intro rnd_le_int) simp_all
    moreover have "0 \<le> sf" using True pos by (simp add: sf_def rnd_nonneg)
    ultimately have sf: "0 \<le> sf" "sf \<le> 1" using True by (auto simp: sf_def)
    have step: "\<exists>x. (do { v \<leftarrow> int32 (round_away (rnd 53 (of_int k * sf))); roundUp v a l }) = Some x \<and>
        0 \<le> x \<and> x \<le> k \<and> x \<le> l \<and> a dvd x"
      if k: "0 < k" "k \<le> 65535" "a dvd k" "0 < l" "l \<le> int32_max" for k l
    proof -
      have ks: "0 \<le> of_int k * sf" "of_int k * sf \<le> of_int k"
        using sf k mult_left_mono [of sf 1 "of_int k"] by simp_all
      then have "rnd 53 (of_int k * sf) \<le> of_int k" "0 \<le> rnd 53 (of_int k * sf)"
        using k by (auto intro!: rnd_le_int rnd_nonneg)
      then have v: "0 \<le> round_away (rnd 53 (of_int k * sf))" "round_away (rnd 53 (of_int k * sf)) \<le> k"
        by (simp_all add: round_away_bounds)
      then have "in_int32 (round_away (rnd 53 (of_int k * sf)))" using k by (simp add: in_int32_def int_range_defs)
      then show ?thesis
        using roundUp_spec [OF v(1) a(1), of l] v k a(2) by (auto simp: int_range_defs)
    qed
    obtain fw where fw: "(do { v \<leftarrow> int32 (round_away (rnd 53 (of_int ow * sf))); roundUp v a w }) = Some fw"
        "0 \<le> fw" "fw \<le> ow" "fw \<le> w" "a dvd fw"
      using step [of ow w] True o a(3) pos by auto
    obtain fh where fh: "(do { v \<leftarrow> int32 (round_away (rnd 53 (of_int oh * sf))); roundUp v a h }) = Some fh"
        "0 \<le> fh" "fh \<le> oh" "fh \<le> h" "a dvd fh"
      using step [of oh h] True o a(4) pos by auto
    have "fit_resolution down_to a ow oh = Some (fw, fh)"
    proof -
      have "fit_resolution down_to a ow oh = do {
          ow' \<leftarrow> (do { v \<leftarrow> int32 (round_away (rnd 53 (of_int ow * sf))); roundUp v a w });
          oh' \<leftarrow> (do { v \<leftarrow> int32 (round_away (rnd 53 (of_int oh * sf))); roundUp v a h });
          check_multiple ow' a; check_multiple oh' a; Some (ow', oh') }"
        using True wh Some by (cases res) (auto simp: fit_resolution_def oriented_def Let_def sf_def split: if_splits)
      then show ?thesis using fw fh a(1) by (simp add: check_multiple_ok)
    qed
    then show ?thesis using fw fh Some wh by auto
  qed
qed

text \<open>What an adapted size promises for an input of \<open>w\<close> by \<open>h\<close> pixels.\<close>

definition size_ok :: "video_adapter \<Rightarrow> int \<Rightarrow> int \<Rightarrow> adapted \<Rightarrow> bool" where
  "size_ok a w h r \<longleftrightarrow>
     0 \<le> outWidth r \<and> outWidth r \<le> croppedWidth r \<and> croppedWidth r \<le> w \<and>
     0 \<le> outHeight r \<and> outHeight r \<le> croppedHeight r \<and> croppedHeight r \<le> h \<and>
     mResolutionAlignment a dvd outWidth r \<and> mResolutionAlignment a dvd outHeight r \<and>
     (fst (select_request a w h) = None \<longrightarrow> outWidth r * outHeight r \<le> snd (select_request a w h)) \<and>
     (\<forall>rw rh. mScaleResolutionDownTo a = Some (rw, rh) \<longrightarrow> 0 < outWidth r \<longrightarrow> 0 < outHeight r \<longrightarrow>
        outWidth r \<le> rw \<and> outHeight r \<le> rh \<or> outWidth r \<le> rh \<and> outHeight r \<le> rw)"

text \<open>The settings and inputs for which no computation leaves its range.\<close>

definition settings_ok :: "video_adapter \<Rightarrow> bool" where
  "settings_ok a \<longleftrightarrow> 0 < mResolutionAlignment a \<and> mResolutionAlignment a \<le> 32768 \<and>
     0 < mResolutionRequestTargetPixelCount a \<and>
     (\<forall>p q. targetLandscapeAspectRatio (mOutputFormatRequest a) = Some (p, q) \<longrightarrow> p \<le> 4096 \<and> q \<le> 4096) \<and>
     (\<forall>p q. targetPortraitAspectRatio (mOutputFormatRequest a) = Some (p, q) \<longrightarrow> p \<le> 4096 \<and> q \<le> 4096) \<and>
     (\<forall>rw rh. mScaleResolutionDownTo a = Some (rw, rh) \<longrightarrow> 0 < rw \<and> rw \<le> int32_max \<and> 0 < rh \<and> rh \<le> int32_max)"

definition input_ok :: "int \<Rightarrow> int \<Rightarrow> bool" where
  "input_ok w h \<longleftrightarrow> 0 < w \<and> w \<le> 65535 \<and> 0 < h \<and> h \<le> 65535 \<and> w * h < 2 ^ 24"

text \<open>Scaling a multiple of the denominator, one axis.\<close>

lemma scale_axis_exact:
  assumes "0 \<le> c" "c \<le> 65535" "0 < n" "n \<le> d" "0 < a" "d * a dvd c"
  shows "div32 c d = Some (c div d)" "int32 (c div d * n) = Some (c div d * n)" "0 \<le> c div d * n" "c div d * n \<le> c"
    "a dvd c div d * n" "c div d * n * d = c * n" "d dvd c"
proof -
  have d: "0 < d" using assms by linarith
  show dc: "d dvd c" using assms(6) by (rule dvd_mult_left)
  then have c: "c div d * d = c" by simp
  show "div32 c d = Some (c div d)" using assms d by (intro div32_nonneg) (simp_all add: in_int32_def int_range_defs)
  show nn: "0 \<le> c div d * n" using assms d by (simp add: pos_imp_zdiv_nonneg_iff)
  have "c div d * n \<le> c div d * d" using assms d by (intro mult_left_mono) (simp_all add: pos_imp_zdiv_nonneg_iff)
  then show le: "c div d * n \<le> c" using c by simp
  show "int32 (c div d * n) = Some (c div d * n)" using nn le assms(2) by (intro int32_Some) (simp add: in_int32_def int_range_defs)
  obtain k where "c = d * a * k" using assms(6) by (auto elim: dvdE)
  then have "c div d = a * k" using d by (simp add: mult.assoc)
  then show "a dvd c div d * n" by simp
  have "c div d * n * d = c div d * d * n" by (simp only: ac_simps)
  then show "c div d * n * d = c * n" using c by simp
qed

lemma adapted_size_spec:
  assumes set: "settings_ok a" and inp: "input_ok w h" and mx: "0 < snd (select_request a w h)"
  shows "\<exists>r f. adapted_size a w h = Some (r, f) \<and> size_ok a w h r"
proof -
  obtain ratio mx where sel: "select_request a w h = (ratio, mx)" by (cases "select_request a w h")
  let ?al = "mResolutionAlignment a"
  have al: "0 < ?al" "?al \<le> 32768" using set by (simp_all add: settings_ok_def)
  have rb: "\<forall>p q. ratio = Some (p, q) \<longrightarrow> p \<le> 4096 \<and> q \<le> 4096"
    using set sel by (auto simp: settings_ok_def select_request_def Let_def split: if_splits)
  have wh: "0 < w" "w \<le> 65535" "0 < h" "h \<le> 65535" "w * h < 2 ^ 24" using inp by (simp_all add: input_ok_def)
  obtain cw ch where crop: "crop_to_aspect ratio w h = Some (cw, ch)" "0 \<le> cw" "cw \<le> w" "0 \<le> ch" "ch \<le> h"
    using crop_to_aspect_spec [OF wh(1-4) rb] by blast
  define tgt where "tgt = min (mResolutionRequestTargetPixelCount a) mx"
  have tgt: "0 < tgt" "tgt \<le> mx" using set mx sel by (auto simp: tgt_def settings_ok_def)
  have area: "0 \<le> cw * ch" "cw * ch \<le> w * h" using crop wh by (auto intro!: mult_mono)
  then have "cw * ch < 2 ^ 24" using wh(5) by linarith
  from FindScale_correct [OF area(1) this tgt] obtain f where
    f: "FindScale cw ch tgt mx = Some f" "0 < numerator f" "numerator f \<le> denominator f" "denominator f \<le> 46340"
      "scaled_pixels f (cw * ch) \<le> mx"
    by blast
  define n d where "n = numerator f" and "d = denominator f"
  have nd: "0 < n" "n \<le> d" "0 < d" "d \<le> 46340" using f by (simp_all add: n_def d_def)
  have m: "0 < d * ?al" "d * ?al \<le> 1518469120" using nd al mult_mono [of d 46340 ?al 32768] by simp_all
  have im: "int32 (d * ?al) = Some (d * ?al)" using m by (intro int32_Some) (simp add: in_int32_def int_range_defs)
  obtain cw' where cw': "roundUp cw (d * ?al) w = Some cw'" "0 \<le> cw'" "cw' \<le> w" "d * ?al dvd cw'"
    using roundUp_spec [OF crop(2) m(1), of w] crop wh m by (auto simp: int_range_defs)
  obtain ch' where ch': "roundUp ch (d * ?al) h = Some ch'" "0 \<le> ch'" "ch' \<le> h" "d * ?al dvd ch'"
    using roundUp_spec [OF crop(4) m(1), of h] crop wh m by (auto simp: int_range_defs)
  define ow oh where "ow = cw' div d * n" and "oh = ch' div d * n"
  have "cw' \<le> 65535" "ch' \<le> 65535" using cw' ch' wh by linarith+
  note ax = scale_axis_exact [OF cw'(2) this(1) nd(1,2) al(1) cw'(4), folded ow_def]
    and ay = scale_axis_exact [OF ch'(2) this(2) nd(1,2) al(1) ch'(4), folded oh_def]
  have down: "\<forall>rw rh. mScaleResolutionDownTo a = Some (rw, rh) \<longrightarrow> 0 < rw \<and> rw \<le> int32_max \<and> 0 < rh \<and> rh \<le> int32_max"
    using set by (simp add: settings_ok_def)
  obtain fw fh where fit: "fit_resolution (mScaleResolutionDownTo a) ?al ow oh = Some (fw, fh)" "0 \<le> fw" "fw \<le> ow"
      "0 \<le> fh" "fh \<le> oh" "?al dvd fw" "?al dvd fh"
      "\<forall>res. mScaleResolutionDownTo a = Some res \<longrightarrow> 0 < ow \<longrightarrow> 0 < oh \<longrightarrow>
         fw \<le> fst (oriented res ow oh) \<and> fh \<le> snd (oriented res ow oh)"
    using fit_resolution_spec [OF al ax(5) ay(5) ax(3) _ ay(3) _ down] ax(4) ay(4) cw'(3) ch'(3) wh by auto
  let ?r = "\<lparr>croppedWidth = cw', croppedHeight = ch', outWidth = fw, outHeight = fh\<rparr>"
  have "adapted_size a w h = Some (?r, f)"
    using cw'(2) ch'(2) nd(3) al(1) ax ay
    by (simp add: adapted_size_def sel tgt_def [symmetric] crop(1) f(1) n_def [symmetric] d_def [symmetric] im cw'(1) ch'(1)
        check_multiple_ok ow_def [symmetric] oh_def [symmetric] fit(1))
  moreover have "fw * fh \<le> mx" if "ratio = None"
  proof -
    have eq: "cw = w" "ch = h" using crop(1) that by (simp_all add: crop_to_aspect_def)
    have "ow * oh * (d * d) = (ow * d) * (oh * d)" by (simp only: ac_simps)
    also have "\<dots> = cw' * n * (ch' * n)" by (simp only: ax(6) ay(6))
    also have "\<dots> \<le> w * n * (h * n)" using cw' ch' nd wh by (intro mult_mono) simp_all
    also have "\<dots> = n * n * (cw * ch)" by (simp only: eq ac_simps)
    finally have "ow * oh \<le> scaled_pixels f (cw * ch)"
      using nd(3) zdiv_mono1 [of "ow * oh * (d * d)" "n * n * (cw * ch)" "d * d"] by (simp add: scaled_pixels_def n_def d_def)
    moreover have "fw * fh \<le> ow * oh" using fit ax(3) by (intro mult_mono) simp_all
    ultimately show ?thesis using f(5) by linarith
  qed
  moreover have "fw \<le> rw \<and> fh \<le> rh \<or> fw \<le> rh \<and> fh \<le> rw"
    if "mScaleResolutionDownTo a = Some (rw, rh)" "0 < fw" "0 < fh" for rw rh
    using fit(3,5,8) that by (auto simp: oriented_def split: if_splits)
  ultimately show ?thesis
    using fit ax(4) ay(4) cw'(3) ch'(3) sel by (auto simp: size_ok_def)
qed



section \<open>One frame\<close>

text \<open>The state of an adapter between two calls.\<close>

definition next_near :: "framerate_controller \<Rightarrow> bool" where
  "next_near c \<longleftrightarrow> (\<forall>n. next_frame_timestamp_ns c = Some n \<longrightarrow> \<bar>n\<bar> \<le> 2 ^ 61 + 2 ^ 33)"

definition stats_ok :: "video_adapter \<Rightarrow> bool" where
  "stats_ok a \<longleftrightarrow> 0 \<le> mFramesScaled a \<and> mFramesScaled a \<le> mFramesOut a \<and> 0 \<le> adaptionChanges a \<and>
     adaptionChanges a \<le> mFramesOut a \<and> mFramesOut a \<le> mFramesIn a"

definition adapter_inv :: "video_adapter \<Rightarrow> bool" where
  "adapter_inv a \<longleftrightarrow> settings_ok a \<and> stats_ok a \<and> next_near (mFramerateController a)"

text \<open>What the requests and wants have set, which a frame does not change.\<close>

definition settings :: "video_adapter \<Rightarrow> int \<times> int \<times> int \<times> int \<times> int \<times> (int \<times> int) option \<times> OutputFormatRequest \<times> OutputFormatRequest option" where
  "settings a = (mSourceResolutionAlignment a, mResolutionAlignment a, mResolutionRequestTargetPixelCount a,
     mResolutionRequestMaxPixelCount a, mMaxFramerateRequest a, mScaleResolutionDownTo a, mOutputFormatRequest a,
     mStashedOutputFormatRequest a)"

text \<open>The rate that \<open>isDropFrame\<close> enforces, and whether it drops a frame.\<close>

definition fps_limit :: "video_adapter \<Rightarrow> int" where
  "fps_limit a = (case maxFps (mOutputFormatRequest a) of
     Some f \<Rightarrow> min (mMaxFramerateRequest a) f | None \<Rightarrow> mMaxFramerateRequest a)"

definition too_fast :: "int \<Rightarrow> video_adapter \<Rightarrow> bool" where
  "too_fast ts a \<longleftrightarrow> map_option snd (ShouldDropFrame ts (SetMaxFramerate (of_int (fps_limit a)) (mFramerateController a))) = Some True"

lemma ShouldDropFrame_next_near:
  assumes "near ts" "next_near c"
  shows "\<exists>c' drp. ShouldDropFrame ts c = Some (c', drp) \<and> next_near c'"
proof (cases "max_framerate c < kMinFramerate")
  case True
  then show ?thesis using assms by (auto simp: ShouldDropFrame_def)
next
  case False
  then obtain i where i: "frame_interval_ns c = Some i" using frame_interval_total [of c] by auto
  show ?thesis
  proof (cases "0 < i")
    case False
    then show ?thesis using i \<open>\<not> max_framerate c < kMinFramerate\<close> assms by (auto simp: ShouldDropFrame_def)
  next
    case True
    then have l: "limits c i" using False i by (simp add: limits_def)
    then have "i \<le> 4 * 10 ^ 9" "0 \<le> i div 2" "i div 2 \<le> i" using interval_le True by simp_all
    then show ?thesis
      using ShouldDropFrame_limits [OF l assms(1)] assms True
      by (cases "next_frame_timestamp_ns c") (auto simp: near_def next_near_def abs_le_iff)
  qed
qed

lemma isDropFrame_spec:
  assumes "near ts" "next_near (mFramerateController a)"
  shows "\<exists>c. isDropFrame ts a = Some (a\<lparr>mFramerateController := c\<rparr>, too_fast ts a) \<and> next_near c"
proof -
  let ?c = "SetMaxFramerate (of_int (fps_limit a)) (mFramerateController a)"
  have "next_near ?c" using assms(2) by (simp add: next_near_def SetMaxFramerate_def)
  then obtain c drp where c: "ShouldDropFrame ts ?c = Some (c, drp)" "next_near c"
    using ShouldDropFrame_next_near [OF assms(1)] by blast
  then have "too_fast ts a = drp" by (simp add: too_fast_def)
  then show ?thesis using c by (auto simp: isDropFrame_def fps_limit_def)
qed

lemma count_output_spec:
  assumes "stats_ok a" "mFramesOut a < int32_max"
  shows "\<exists>n k. count_output r f a = Some (a\<lparr>mFramesOut := mFramesOut a + 1, mFramesScaled := n, adaptionChanges := k,
      mPreviousWidth := outWidth r, mPreviousHeight := outHeight r\<rparr>) \<and>
    0 \<le> n \<and> n \<le> mFramesOut a + 1 \<and> 0 \<le> k \<and> k \<le> mFramesOut a + 1"
proof -
  let ?change = "mPreviousWidth a \<noteq> 0 \<and> (mPreviousWidth a \<noteq> outWidth r \<or> mPreviousHeight a \<noteq> outHeight r)"
  define n k where "n = (if numerator f \<noteq> denominator f then mFramesScaled a + 1 else mFramesScaled a)"
    and "k = (if ?change then adaptionChanges a + 1 else adaptionChanges a)"
  have r: "int32 (x + 1) = Some (x + 1)" if "0 \<le> x" "x \<le> mFramesOut a" for x
    using that assms(2) by (intro int32_Some) (simp add: in_int32_def int_range_defs)
  have "0 \<le> mFramesOut a" using assms(1) by (simp add: stats_ok_def)
  note out = r [OF this order_refl]
  have "count_output r f a = Some (a\<lparr>mFramesOut := mFramesOut a + 1, mFramesScaled := n, adaptionChanges := k,
      mPreviousWidth := outWidth r, mPreviousHeight := outHeight r\<rparr>)"
    using assms(1) out r [of "mFramesScaled a"] r [of "adaptionChanges a"]
    by (cases "numerator f \<noteq> denominator f"; cases ?change) (auto simp: count_output_def stats_ok_def n_def k_def Let_def)
  moreover have "0 \<le> n \<and> n \<le> mFramesOut a + 1 \<and> 0 \<le> k \<and> k \<le> mFramesOut a + 1"
    using assms(1) by (simp add: stats_ok_def n_def k_def)
  ultimately show ?thesis by blast
qed

lemma settings_ok_frame [simp]:
  "settings_ok (a\<lparr>mFramesIn := i\<rparr>) = settings_ok a"
  "settings_ok (a\<lparr>mFramesOut := i\<rparr>) = settings_ok a"
  "settings_ok (a\<lparr>mFramesScaled := i\<rparr>) = settings_ok a"
  "settings_ok (a\<lparr>adaptionChanges := i\<rparr>) = settings_ok a"
  "settings_ok (a\<lparr>mPreviousWidth := i\<rparr>) = settings_ok a"
  "settings_ok (a\<lparr>mPreviousHeight := i\<rparr>) = settings_ok a"
  "settings_ok (a\<lparr>mFramerateController := c\<rparr>) = settings_ok a"
  by (simp_all add: settings_ok_def)

lemma select_request_frame [simp]:
  "select_request (a\<lparr>mFramesIn := i\<rparr>) w h = select_request a w h"
  "select_request (a\<lparr>mFramerateController := c\<rparr>) w h = select_request a w h"
  by (simp_all add: select_request_def split: option.split)

lemma size_ok_frame [simp]:
  "size_ok (a\<lparr>mFramesIn := i\<rparr>) w h r = size_ok a w h r"
  "size_ok (a\<lparr>mFramerateController := c\<rparr>) w h r = size_ok a w h r"
  by (simp_all add: size_ok_def)

lemma too_fast_frame [simp]: "too_fast ts (a\<lparr>mFramesIn := i\<rparr>) = too_fast ts a"
  by (simp add: too_fast_def fps_limit_def cong: option.case_cong)

lemma adaptFrameResolution_drop:
  assumes "stats_ok a" "mFramesIn a < int32_max" "next_near (mFramerateController a)" "near ts"
    and "snd (select_request a w h) \<le> 0 \<or> too_fast ts a"
  shows "\<exists>c. adaptFrameResolution w h ts a = Some (a\<lparr>mFramesIn := mFramesIn a + 1, mFramerateController := c\<rparr>, None) \<and> next_near c"
proof -
  let ?a = "a\<lparr>mFramesIn := mFramesIn a + 1\<rparr>"
  have i: "int32 (mFramesIn a + 1) = Some (mFramesIn a + 1)" "int32 (mFramesIn a + 1 - mFramesOut a) = Some (mFramesIn a + 1 - mFramesOut a)"
    using assms(1,2) by (auto intro!: int32_Some simp: stats_ok_def in_int32_def int_range_defs)
  show ?thesis
  proof (cases "snd (select_request a w h) \<le> 0")
    case True
    then have "adaptFrameResolution w h ts a = Some (?a, None)" by (simp add: adaptFrameResolution_def i)
    moreover have "?a = a\<lparr>mFramesIn := mFramesIn a + 1, mFramerateController := mFramerateController a\<rparr>" by simp
    ultimately show ?thesis using assms(3) by metis
  next
    case False
    obtain c where "isDropFrame ts ?a = Some (?a\<lparr>mFramerateController := c\<rparr>, True)" "next_near c"
      using isDropFrame_spec [OF assms(4), of ?a] assms(3,5) False by auto
    then show ?thesis using False by (auto simp: adaptFrameResolution_def i)
  qed
qed

lemma adaptFrameResolution_keep:
  assumes inv: "adapter_inv a" and lt: "mFramesIn a < int32_max" and ts: "near ts" and inp: "input_ok w h"
    and pos: "0 < snd (select_request a w h)" "\<not> too_fast ts a"
  shows "\<exists>a' r. adaptFrameResolution w h ts a = Some (a', Some r) \<and> size_ok a w h r \<and> adapter_inv a' \<and>
    mFramesIn a' = mFramesIn a + 1 \<and> mFramesOut a' = mFramesOut a + 1 \<and>
    mPreviousWidth a' = outWidth r \<and> mPreviousHeight a' = outHeight r \<and> settings a' = settings a"
proof -
  let ?a = "a\<lparr>mFramesIn := mFramesIn a + 1\<rparr>"
  have i: "int32 (mFramesIn a + 1) = Some (mFramesIn a + 1)"
    using inv lt by (intro int32_Some) (simp add: adapter_inv_def stats_ok_def in_int32_def int_range_defs)
  obtain c where c: "isDropFrame ts ?a = Some (?a\<lparr>mFramerateController := c\<rparr>, False)" "next_near c"
    using isDropFrame_spec [OF ts, of ?a] inv pos(2) by (auto simp: adapter_inv_def)
  let ?b = "?a\<lparr>mFramerateController := c\<rparr>"
  have b: "settings_ok ?b" "stats_ok ?b" "mFramesOut ?b < int32_max"
    using inv lt by (simp_all add: adapter_inv_def stats_ok_def)
  obtain r f where r: "adapted_size ?b w h = Some (r, f)" "size_ok ?b w h r"
    using adapted_size_spec [OF b(1) inp] pos(1) by auto
  obtain n k where nk: "count_output r f ?b = Some (?b\<lparr>mFramesOut := mFramesOut ?b + 1, mFramesScaled := n, adaptionChanges := k,
      mPreviousWidth := outWidth r, mPreviousHeight := outHeight r\<rparr>)"
      "0 \<le> n" "n \<le> mFramesOut ?b + 1" "0 \<le> k" "k \<le> mFramesOut ?b + 1"
    using count_output_spec [OF b(2,3)] by blast
  have "adaptFrameResolution w h ts a = Some (?b\<lparr>mFramesOut := mFramesOut ?b + 1, mFramesScaled := n, adaptionChanges := k,
      mPreviousWidth := outWidth r, mPreviousHeight := outHeight r\<rparr>, Some r)"
    using pos(1) c(1) r(1) nk(1) by (simp add: adaptFrameResolution_def i)
  then show ?thesis
    using r(2) c(2) nk(2-5) inv by (auto simp: adapter_inv_def stats_ok_def settings_def)
qed


section \<open>Requests of the application and wants of the sinks\<close>

datatype adapter_op =
  FormatRequest OutputFormatRequest
| SinkWants VideoSinkWants

fun adapter_step :: "adapter_op \<Rightarrow> video_adapter \<Rightarrow> video_adapter option" where
  "adapter_step (FormatRequest r) a = Some (onOutputFormatRequest r a)"
| "adapter_step (SinkWants w) a = OnSinkWants w a"

primrec run_adapter :: "adapter_op list \<Rightarrow> video_adapter \<Rightarrow> video_adapter option" where
  "run_adapter [] a = Some a"
| "run_adapter (x # xs) a = do { a \<leftarrow> adapter_step x a; run_adapter xs a }"

text \<open>
  The abstract adapter: the last request of the application, and whether it is overridden because
  every active encoder asks for a resolution of its own.
\<close>

fun spec_step :: "adapter_op \<Rightarrow> OutputFormatRequest \<times> bool \<Rightarrow> OutputFormatRequest \<times> bool" where
  "spec_step (FormatRequest r) (_, overridden) = (r, overridden)"
| "spec_step (SinkWants w) (r, overridden) =
     (r, requestedResolution w \<noteq> None \<and> (anyActiveWithoutRequestedResolution w \<noteq> Some True \<or> overridden))"

definition abs_request :: "video_adapter \<Rightarrow> OutputFormatRequest \<times> bool" where
  "abs_request a = (case mStashedOutputFormatRequest a of Some r \<Rightarrow> (r, True) | None \<Rightarrow> (mOutputFormatRequest a, False))"

definition stash_inv :: "video_adapter \<Rightarrow> bool" where
  "stash_inv a \<longleftrightarrow> mOutputFormatRequest a = (if snd (abs_request a) then no_request else fst (abs_request a))"

definition op_ok :: "adapter_op \<Rightarrow> bool" where
  "op_ok x \<longleftrightarrow> (\<forall>w. x = SinkWants w \<longrightarrow> 0 < resolutionAlignment w \<and> resolutionAlignment w \<le> 32768)"

lemma lcm_c_alignments:
  assumes "0 < x" "x \<le> 32768" "0 < y" "y \<le> 32768"
  shows "lcm_c x y = Some (lcm x y)" "0 < lcm x y"
proof -
  have "lcm x y dvd x * y" by simp
  then have "lcm x y \<le> x * y" using assms by (intro zdvd_imp_le) simp_all
  also have "x * y \<le> 32768 * 32768" using assms by (intro mult_mono) simp_all
  finally have "lcm x y \<le> 32768 * 32768" .
  moreover show "0 < lcm x y" using assms by (simp add: lcm_pos_int)
  ultimately have "in_int32 (lcm x y)" unfolding in_int32_def int_range_defs by simp
  moreover have "lcm_c x y = int32 (lcm x y)"
    using assms by (intro lcm_c_correct) (simp_all add: in_int32_def int_range_defs)
  ultimately show "lcm_c x y = Some (lcm x y)" by simp
qed

lemma adapter_step_refines:
  assumes "0 < mSourceResolutionAlignment a" "mSourceResolutionAlignment a \<le> 32768" "op_ok x" "stash_inv a"
  shows "\<exists>a'. adapter_step x a = Some a' \<and> stash_inv a' \<and> abs_request a' = spec_step x (abs_request a) \<and>
    mSourceResolutionAlignment a' = mSourceResolutionAlignment a"
proof (cases x)
  case (FormatRequest r)
  then show ?thesis
    using assms(4) by (cases "mStashedOutputFormatRequest a") (auto simp: onOutputFormatRequest_def stash_inv_def abs_request_def)
next
  case (SinkWants w)
  then have "lcm_c (mSourceResolutionAlignment a) (resolutionAlignment w) = Some (lcm (mSourceResolutionAlignment a) (resolutionAlignment w))"
    using assms by (intro lcm_c_alignments) (simp_all add: op_ok_def)
  then show ?thesis
    using SinkWants assms(4)
    by (cases "mStashedOutputFormatRequest a"; cases "requestedResolution w = None"; cases "anyActiveWithoutRequestedResolution w = Some True")
       (simp_all add: OnSinkWants_def stash_inv_def abs_request_def Let_def)
qed

lemma run_adapter_refines:
  assumes "0 < mSourceResolutionAlignment a" "mSourceResolutionAlignment a \<le> 32768" "\<forall>x \<in> set xs. op_ok x" "stash_inv a"
  shows "\<exists>a'. run_adapter xs a = Some a' \<and> stash_inv a' \<and> abs_request a' = fold spec_step xs (abs_request a)"
  using assms
proof (induction xs arbitrary: a)
  case (Cons x xs)
  obtain a1 where a1: "adapter_step x a = Some a1" "stash_inv a1" "abs_request a1 = spec_step x (abs_request a)"
      "mSourceResolutionAlignment a1 = mSourceResolutionAlignment a"
    using adapter_step_refines [of a x] Cons.prems by auto
  then show ?case using Cons.IH [of a1] Cons.prems by auto
qed simp

text \<open>
  C16: which request of the application is in force. After any sequence of format requests and sink
  wants the adapter holds the last request; it is in force unless the last sink wants asked for a
  resolution of their own and no active encoder of the old kind, in which case no limit of the
  application applies until sink wants come without a resolution. Requests made meanwhile are kept.
\<close>

theorem format_request_refines:
  assumes "0 < align" "align \<le> 32768" "\<forall>x \<in> set xs. op_ok x"
  shows "\<exists>a. run_adapter xs (VideoAdapter_new align) = Some a \<and>
    (\<exists>request overridden. fold spec_step xs (no_request, False) = (request, overridden) \<and>
       mOutputFormatRequest a = (if overridden then no_request else request) \<and>
       mStashedOutputFormatRequest a = (if overridden then Some request else None))"
proof -
  have "stash_inv (VideoAdapter_new align)" "abs_request (VideoAdapter_new align) = (no_request, False)"
      "mSourceResolutionAlignment (VideoAdapter_new align) = align"
    by (simp_all add: stash_inv_def abs_request_def VideoAdapter_new_def)
  then obtain a where a: "run_adapter xs (VideoAdapter_new align) = Some a" "stash_inv a"
      "abs_request a = fold spec_step xs (no_request, False)"
    using run_adapter_refines [of "VideoAdapter_new align" xs] assms by metis
  then show ?thesis
    by (cases "mStashedOutputFormatRequest a") (auto simp: stash_inv_def abs_request_def dest: sym)
qed

theorem format_request_refines_witness:
  "\<exists>a. run_adapter [FormatRequest (no_request\<lparr>maxFps := Some 30\<rparr>),
       SinkWants (VideoSinkWants_default\<lparr>requestedResolution := Some \<lparr>fs_width = 640, fs_height = 360\<rparr>\<rparr>),
       FormatRequest (no_request\<lparr>maxFps := Some 15\<rparr>)] (VideoAdapter_new 2) = Some a \<and>
     mOutputFormatRequest a = no_request \<and> mStashedOutputFormatRequest a = Some (no_request\<lparr>maxFps := Some 15\<rparr>)"
  using format_request_refines [of 2 "[FormatRequest (no_request\<lparr>maxFps := Some 30\<rparr>),
       SinkWants (VideoSinkWants_default\<lparr>requestedResolution := Some \<lparr>fs_width = 640, fs_height = 360\<rparr>\<rparr>),
       FormatRequest (no_request\<lparr>maxFps := Some 15\<rparr>)]"]
  by (auto simp: op_ok_def VideoSinkWants_default_def)


section \<open>Properties of the adaptation\<close>

text \<open>
  The search for a scale ends and returns a reduced fraction of at most 1 that does not leave
  more pixels than the limit, for every frame below \<open>2 ^ 24\<close> pixels; there is no overflow on the way.
\<close>

theorem FindScale_spec:
  assumes "0 \<le> w * h" "w * h < 2 ^ 24" "0 < tgt" "tgt \<le> mx"
  shows "\<exists>f. FindScale w h tgt mx = Some f \<and> 0 < numerator f \<and> numerator f \<le> denominator f \<and> denominator f \<le> 46340 \<and>
    coprime (numerator f) (denominator f) \<and> numerator f * numerator f * (w * h) div (denominator f * denominator f) \<le> mx"
  using FindScale_correct [OF assms] by (simp add: scaled_pixels_def)

theorem FindScale_spec_witness:
  "\<exists>f. FindScale 1280 720 250000 300000 = Some f \<and> 0 < numerator f \<and> numerator f \<le> denominator f \<and>
     numerator f * numerator f * (1280 * 720) div (denominator f * denominator f) \<le> 300000"
  using FindScale_spec [of 1280 720 250000 300000] by auto



end
