(* ===== verification/CustomVideoCapturer.thy ===== *)
theory CustomVideoCapturer
  imports VideoAdapter
begin

text \<open>
  \<open>CustomVideoCapturer\<close> of \<open>src/libs/media/source/capture/custom/octk_custom_video_capturer.cpp\<close>: frames
  are preprocessed, adapted and broadcast; the adapter is kept up to date with the wants of the sinks.

  The preprocessor is a function of the application, in the state. \<open>scale buf w h\<close> is the pixels of
  \<open>buf\<close>, converted to I420 and scaled to \<open>w\<close> by \<open>h\<close>, which libyuv computes. A method is one step; the calls
  that another thread may make between the locked sections of one method are not interleaved.
\<close>

section \<open>The capturer\<close>

record ('p, 'c, 'i, 't) capturer =
  mPreprocessor :: "(('p, 'c, 'i) video_frame \<Rightarrow> ('p, 'c, 'i) video_frame) option"
  mEnableAdaptation :: bool
  mBroadcaster :: "('p, 't) broadcaster"
  mVideoAdapter :: video_adapter

definition CustomVideoCapturer_new :: "('p, 'c, 'i, 't) capturer" where
  "CustomVideoCapturer_new = \<lparr>mPreprocessor = None, mEnableAdaptation = True, mBroadcaster = VideoBroadcaster_new,
     mVideoAdapter = VideoAdapter_new 1\<rparr>"

definition setFramePreprocessor ::
    "(('p, 'c, 'i) video_frame \<Rightarrow> ('p, 'c, 'i) video_frame) option \<Rightarrow> ('p, 'c, 'i, 't) capturer \<Rightarrow> ('p, 'c, 'i, 't) capturer" where
  "setFramePreprocessor pre c = c\<lparr>mPreprocessor := pre\<rparr>"

definition setEnableAdaptation :: "bool \<Rightarrow> ('p, 'c, 'i, 't) capturer \<Rightarrow> ('p, 'c, 'i, 't) capturer" where
  "setEnableAdaptation enable_adaptation c = c\<lparr>mEnableAdaptation := enable_adaptation\<rparr>"

definition capturer_onOutputFormatRequest ::
    "int \<Rightarrow> int \<Rightarrow> int option \<Rightarrow> ('p, 'c, 'i, 't) capturer \<Rightarrow> ('p, 'c, 'i, 't) capturer option" where
  "capturer_onOutputFormatRequest w h max_fps c = do {
     n \<leftarrow> int32 (w * h);
     Some (c\<lparr>mVideoAdapter := onOutputFormatRequest (orient_request (Some (w, h)) (Some n) max_fps) (mVideoAdapter c)\<rparr>)
   }"

definition updateVideoAdapter :: "('p, 'c, 'i, 't) capturer \<Rightarrow> ('p, 'c, 'i, 't) capturer option" where
  "updateVideoAdapter c = do {
     a \<leftarrow> OnSinkWants (mCurrentWants (mBroadcaster c)) (mVideoAdapter c);
     Some (c\<lparr>mVideoAdapter := a\<rparr>)
   }"

definition getSinkWants :: "('p, 'c, 'i, 't) capturer \<Rightarrow> VideoSinkWants" where
  "getSinkWants c = mCurrentWants (mBroadcaster c)"

definition capturer_addOrUpdateSink ::
    "sink \<Rightarrow> VideoSinkWants \<Rightarrow> ('p, 'c, 'i, 't) capturer \<Rightarrow>
     (('p, 'c, 'i, 't) capturer \<times> ('p, 'c, 'i, 't) event list) option" where
  "capturer_addOrUpdateSink s w c = do {
     (b, evs) \<leftarrow> addOrUpdateSink s w (mBroadcaster c);
     c \<leftarrow> updateVideoAdapter (c\<lparr>mBroadcaster := b\<rparr>);
     Some (c, evs)
   }"

definition capturer_removeSink :: "sink \<Rightarrow> ('p, 'c, 'i, 't) capturer \<Rightarrow> ('p, 'c, 'i, 't) capturer option" where
  "capturer_removeSink s c = do {
     b \<leftarrow> removeSink s (mBroadcaster c);
     updateVideoAdapter (c\<lparr>mBroadcaster := b\<rparr>)
   }"

definition maybePreprocess :: "('p, 'c, 'i, 't) capturer \<Rightarrow> ('p, 'c, 'i) video_frame \<Rightarrow> ('p, 'c, 'i) video_frame" where
  "maybePreprocess c f = (case mPreprocessor c of Some pre \<Rightarrow> pre f | None \<Rightarrow> f)"

definition broadcast ::
    "(int \<Rightarrow> int \<Rightarrow> 'p) \<Rightarrow> 'i \<Rightarrow> ('p, 'c, 'i) video_frame \<Rightarrow> ('p, 'c, 'i, 't) capturer \<Rightarrow>
     (('p, 'c, 'i, 't) capturer \<times> ('p, 'c, 'i, 't) event list) option" where
  "broadcast black no_infos f c = do {
     (b, evs) \<leftarrow> onFrame black no_infos f (mBroadcaster c);
     Some (c\<lparr>mBroadcaster := b\<rparr>, evs)
   }"

text \<open>The frame that is sent in place of \<open>f\<close> when the adapter asks for another size.\<close>

definition scaled_frame ::
    "'i \<Rightarrow> ('p buffer \<Rightarrow> int \<Rightarrow> int \<Rightarrow> 'p) \<Rightarrow> int \<Rightarrow> int \<Rightarrow> ('p, 'c, 'i) video_frame \<Rightarrow> ('p, 'c, 'i) video_frame option" where
  "scaled_frame no_infos scale ow oh f = do {
     buf \<leftarrow> mVideoFrameBuffer f;
     scaled_buffer \<leftarrow> I420Buffer_create ow oh (scale buf ow oh);
     let new_frame_builder = builder_setId (mId f) (builder_setTimestampUSecs (mTimestampUSecs f)
       (builder_setRotation kAngle0 (builder_setVideoFrameBuffer (Some scaled_buffer) (Builder no_infos))));
     new_frame_builder \<leftarrow>
       (if hasUpdateRect f then do {
          new_rect \<leftarrow> scaleWithFrame (updateRect f) (frame_width f) (frame_height f) 0 0 (frame_width f) (frame_height f) ow oh;
          Some (builder_setUpdateRect (Some new_rect) new_frame_builder)
        }
        else Some new_frame_builder);
     build new_frame_builder
   }"

definition capturer_onFrame ::
    "(int \<Rightarrow> int \<Rightarrow> 'p) \<Rightarrow> 'i \<Rightarrow> ('p buffer \<Rightarrow> int \<Rightarrow> int \<Rightarrow> 'p) \<Rightarrow> ('p, 'c, 'i) video_frame \<Rightarrow> ('p, 'c, 'i, 't) capturer \<Rightarrow>
     (('p, 'c, 'i, 't) capturer \<times> ('p, 'c, 'i, 't) event list) option" where
  "capturer_onFrame black no_infos scale original_frame c = do {
     let f = maybePreprocess c original_frame;
     if \<not> mEnableAdaptation c then broadcast black no_infos f c
     else do {
       ts \<leftarrow> int64 (mTimestampUSecs f * 1000);
       (a, res) \<leftarrow> adaptFrameResolution (frame_width f) (frame_height f) ts (mVideoAdapter c);
       let c = c\<lparr>mVideoAdapter := a\<rparr>;
       case res of
         None \<Rightarrow> Some (c, [])
       | Some r \<Rightarrow>
           if outHeight r \<noteq> frame_height f \<or> outWidth r \<noteq> frame_width f then do {
             g \<leftarrow> scaled_frame no_infos scale (outWidth r) (outHeight r) f;
             broadcast black no_infos g c
           }
           else broadcast black no_infos f c
     }
   }"


section \<open>The scaled frame\<close>

text \<open>Scaling the update rectangle of a whole frame always succeeds and stays in the new frame.\<close>

definition rect_in :: "UpdateRect \<Rightarrow> int \<Rightarrow> int \<Rightarrow> bool" where
  "rect_in r w h \<longleftrightarrow> 0 \<le> offsetX r \<and> 0 \<le> offsetY r \<and> 0 \<le> width r \<and> 0 \<le> height r \<and>
     offsetX r + width r \<le> w \<and> offsetY r + height r \<le> h"

definition usable :: "int \<Rightarrow> int \<Rightarrow> bool" where
  "usable w h \<longleftrightarrow> 0 < w \<and> w \<le> 16384 \<and> 0 < h \<and> h \<le> 16384"

lemma frame_ok_rect:
  "frame_ok f \<longleftrightarrow> mVideoFrameBuffer f \<noteq> None \<and> usable (frame_width f) (frame_height f) \<and>
     (\<forall>r. mUpdateRect f = Some r \<longrightarrow> rect_in r (frame_width f) (frame_height f))"
  by (simp add: frame_ok_def usable_def rect_in_def)

lemma scaleWithFrame_full:
  assumes r: "rect_in r fw fh" and f: "usable fw fh" and s: "usable sw sh"
  shows "\<exists>r'. scaleWithFrame r fw fh 0 0 fw fh sw sh = Some r' \<and> rect_in r' sw sh"
proof -
  define ex where "ex \<longleftrightarrow> sw \<noteq> fw \<or> sh \<noteq> fh"
  then have same: "ex \<or> sw = fw" "ex \<or> sh = fh" by auto
  have range: "in_int32 fw" "in_int32 fh" "in_int32 (offsetX r + width r)" "in_int32 (offsetY r + height r)"
    using r f by (auto simp: rect_in_def usable_def intro!: small_int32)
  obtain x w where xw: "scale_axis (offsetX r) (width r) 0 fw sw ex = Some (x, w)" "0 \<le> x" "0 \<le> w" "x + w \<le> sw"
    using scale_axis_covers [of "offsetX r" "width r" 0 fw sw ex] r f s same by (auto simp: rect_in_def usable_def)
  obtain y h where yh: "scale_axis (offsetY r) (height r) 0 fh sh ex = Some (y, h)" "0 \<le> y" "0 \<le> h" "y + h \<le> sh"
    using scale_axis_covers [of "offsetY r" "height r" 0 fh sh ex] r f s same by (auto simp: rect_in_def usable_def)
  have "scaleWithFrame r fw fh 0 0 fw fh sw sh =
    Some (if offsetX r + width r < 0 \<or> fw < offsetX r \<or> offsetY r + height r < 0 \<or> fw < offsetY r \<or> w = 0 \<or> h = 0
          then UpdateRect_new 0 0 0 0 else UpdateRect_new x y w h)"
    using f s range xw(1) yh(1) by (simp add: scaleWithFrame_def Let_def usable_def ex_def)
  then show ?thesis using xw yh s by (auto simp: rect_in_def usable_def)
qed

lemma scaled_frame_Some:
  assumes f: "frame_ok f" and s: "usable w h"
  shows "\<exists>g. scaled_frame no_infos scale w h f = Some g \<and> frame_ok g \<and> frame_width g = w \<and> frame_height g = h \<and>
    mRotation g = kAngle0 \<and> mId g = mId f \<and> mTimestampUSecs g = mTimestampUSecs f \<and> (hasUpdateRect g \<longleftrightarrow> hasUpdateRect f)"
proof -
  obtain buf where buf: "mVideoFrameBuffer f = Some buf" using f by (auto simp: frame_ok_rect)
  have c: "I420Buffer_create w h px = Some \<lparr>buf_width = w, buf_height = h, pixels = px\<rparr>" for px :: 'a
    using s by (intro I420Buffer_create_Some) (simp_all add: usable_def)
  note defs = scaled_frame_def build_def VideoFrame_new_def Builder_def builder_setId_def builder_setTimestampUSecs_def
    builder_setRotation_def builder_setVideoFrameBuffer_def builder_setUpdateRect_def hasUpdateRect_def
    frame_width_def frame_height_def frame_ok_rect
  show ?thesis
  proof (cases "mUpdateRect f")
    case None
    then show ?thesis using buf c s by (simp add: defs)
  next
    case (Some r)
    then have r: "rect_in r (frame_width f) (frame_height f)" "usable (frame_width f) (frame_height f)"
      using f by (simp_all add: frame_ok_rect)
    obtain r' where r': "scaleWithFrame r (frame_width f) (frame_height f) 0 0 (frame_width f) (frame_height f) w h = Some r'"
        "rect_in r' w h"
      using scaleWithFrame_full [OF r s] by blast
    then have "in_int32 (offsetX r' + width r')" "in_int32 (offsetY r' + height r')"
      using s by (auto simp: rect_in_def usable_def intro!: small_int32)
    then have "check_rect r' w h = Some ()" using r'(2) by (simp add: check_rect_def rect_in_def)
    then show ?thesis using buf c s Some r' by (simp add: defs updateRect_def)
  qed
qed

lemma scaled_frame_None: "w \<le> 0 \<or> h \<le> 0 \<Longrightarrow> scaled_frame no_infos scale w h f = None"
  by (auto simp: scaled_frame_def I420Buffer_create_def Option.bind_eq_None_conv split: if_splits)


section \<open>States of a capturer\<close>

text \<open>The conditions on the capturer and the frame under which no computation leaves its range.\<close>

definition frame_ready :: "('p, 'c, 'i, 't) capturer \<Rightarrow> ('p, 'c, 'i) video_frame \<Rightarrow> bool" where
  "frame_ready c f \<longleftrightarrow> frame_ok f \<and> frame_width f * frame_height f < 2 ^ 24 \<and> near (mTimestampUSecs f * 1000) \<and>
     settings_ok (mVideoAdapter c) \<and> mFramesIn (mVideoAdapter c) < int32_max"

text \<open>The states that calls of the methods reach, with the events of the latest frame that was broadcast.\<close>

inductive cap_reach ::
    "(int \<Rightarrow> int \<Rightarrow> 'p) \<Rightarrow> 'i \<Rightarrow> ('p buffer \<Rightarrow> int \<Rightarrow> int \<Rightarrow> 'p) \<Rightarrow> ('p, 'c, 'i, 't) capturer \<Rightarrow> ('p, 'c, 'i, 't) event list \<Rightarrow> bool"
  for black no_infos scale where
  create: "cap_reach black no_infos scale CustomVideoCapturer_new []"
| add: "cap_reach black no_infos scale c evs \<Longrightarrow> capturer_addOrUpdateSink s w c = Some (c', cs) \<Longrightarrow>
    cap_reach black no_infos scale c' evs"
| remove: "cap_reach black no_infos scale c evs \<Longrightarrow> capturer_removeSink s c = Some c' \<Longrightarrow> cap_reach black no_infos scale c' evs"
| request: "cap_reach black no_infos scale c evs \<Longrightarrow> capturer_onOutputFormatRequest w h fps c = Some c' \<Longrightarrow>
    cap_reach black no_infos scale c' evs"
| preprocessor: "cap_reach black no_infos scale c evs \<Longrightarrow> cap_reach black no_infos scale (setFramePreprocessor pre c) evs"
| adaptation: "cap_reach black no_infos scale c evs \<Longrightarrow> cap_reach black no_infos scale (setEnableAdaptation e c) evs"
| frame: "cap_reach black no_infos scale c evs \<Longrightarrow> frame_ready c (maybePreprocess c f) \<Longrightarrow>
    capturer_onFrame black no_infos scale f c = Some (c', evs') \<Longrightarrow>
    cap_reach black no_infos scale c' (if evs' = [] then evs else evs')"

text \<open>The adapter has the wants of the broadcaster.\<close>

definition in_sync :: "VideoSinkWants \<Rightarrow> video_adapter \<Rightarrow> bool" where
  "in_sync w a \<longleftrightarrow> mSourceResolutionAlignment a = 1 \<and> lcm_c 1 (resolutionAlignment w) = Some (mResolutionAlignment a) \<and>
     mResolutionRequestMaxPixelCount a = maxPixelCount w \<and>
     mResolutionRequestTargetPixelCount a = (case targetPixelCount w of Some t \<Rightarrow> t | None \<Rightarrow> maxPixelCount w) \<and>
     mMaxFramerateRequest a = maxFramerateFps w \<and>
     mScaleResolutionDownTo a = map_option (\<lambda>r. (fs_width r, fs_height r)) (requestedResolution w)"

definition cap_inv :: "(int \<Rightarrow> int \<Rightarrow> 'p) \<Rightarrow> ('p, 'c, 'i, 't) capturer \<Rightarrow> ('p, 'c, 'i, 't) event list \<Rightarrow> bool" where
  "cap_inv black c evs \<longleftrightarrow> bc_inv black (mBroadcaster c) evs \<and> in_sync (mCurrentWants (mBroadcaster c)) (mVideoAdapter c) \<and>
     stats_ok (mVideoAdapter c) \<and> next_near (mFramerateController (mVideoAdapter c))"

lemma in_sync_settings: "settings a = settings a' \<Longrightarrow> in_sync w a = in_sync w a'"
  by (simp add: settings_def in_sync_def)

lemma OnSinkWants_fields:
  assumes "OnSinkWants w a = Some a'" "mSourceResolutionAlignment a = 1"
  shows "in_sync w a'" "mFramerateController a' = mFramerateController a" "stats_ok a' = stats_ok a"
proof -
  obtain al where al: "lcm_c 1 (resolutionAlignment w) = Some al"
    using assms by (cases "lcm_c 1 (resolutionAlignment w)") (auto simp: OnSinkWants_def)
  then have "in_sync w a' \<and> mFramerateController a' = mFramerateController a \<and> stats_ok a' = stats_ok a"
    using assms
    by (cases "mStashedOutputFormatRequest a"; cases "requestedResolution w = None"; cases "anyActiveWithoutRequestedResolution w = Some True")
       (auto simp: OnSinkWants_def Let_def in_sync_def stats_ok_def)
  then show "in_sync w a'" "mFramerateController a' = mFramerateController a" "stats_ok a' = stats_ok a" by simp_all
qed

lemma updateVideoAdapter_inv:
  assumes "cap_inv black c evs" "bc_inv black b evs" "updateVideoAdapter (c\<lparr>mBroadcaster := b\<rparr>) = Some c'"
  shows "cap_inv black c' evs"
proof -
  obtain a where a: "OnSinkWants (mCurrentWants b) (mVideoAdapter c) = Some a" "c' = c\<lparr>mBroadcaster := b, mVideoAdapter := a\<rparr>"
    using assms(3) by (auto simp: updateVideoAdapter_def Option.bind_eq_Some_conv)
  then show ?thesis
    using OnSinkWants_fields [OF a(1)] assms(1,2) by (simp add: cap_inv_def in_sync_def)
qed

text \<open>A frame that is broadcast, scaled or not.\<close>

lemma broadcast_inv:
  fixes f :: "('p, 'c, 'i) video_frame" and c :: "('p, 'c, 'i, 't) capturer" and evs :: "('p, 'c, 'i, 't) event list"
  assumes "bc_inv black (mBroadcaster c) evs" "frame_ok f"
  shows "\<exists>b' evs'. broadcast black no_infos f c = Some (c\<lparr>mBroadcaster := b'\<rparr>, evs') \<and> bc_inv black b' evs' \<and>
    mCurrentWants b' = mCurrentWants (mBroadcaster c) \<and> mSinks b' = mSinks (mBroadcaster c) \<and>
    list_all2 (delivered black f (mPreviousFrameSentToAllSinks (mBroadcaster c))) (mSinks (mBroadcaster c)) evs'"
proof -
  obtain b' evs' where b': "onFrame black no_infos f (mBroadcaster c) = Some (b', evs')" "bc_inv black b' evs'"
      "mSinks b' = mSinks (mBroadcaster c)"
      "list_all2 (delivered black f (mPreviousFrameSentToAllSinks (mBroadcaster c))) (mSinks (mBroadcaster c)) evs'"
    using onFrame_spec [OF assms, of no_infos] by blast
  then have "mCurrentWants b' = mCurrentWants (mBroadcaster c)"
    by (auto simp: onFrame_def Let_def Option.bind_eq_Some_conv)
  then show ?thesis using b' by (auto simp: broadcast_def)
qed

lemma frame_ready_input: "frame_ready c f \<Longrightarrow> input_ok (frame_width f) (frame_height f)"
  by (simp add: frame_ready_def input_ok_def frame_ok_def)

text \<open>The three outcomes for a frame: it is dropped, sent in a usable size, or its adapted size is empty.\<close>

definition dropped :: "('p, 'c, 'i, 't) capturer \<Rightarrow> ('p, 'c, 'i) video_frame \<Rightarrow> bool" where
  "dropped c f \<longleftrightarrow> mEnableAdaptation c \<and>
     (snd (select_request (mVideoAdapter c) (frame_width f) (frame_height f)) \<le> 0 \<or> too_fast (mTimestampUSecs f * 1000) (mVideoAdapter c))"

lemma capturer_onFrame_drop:
  fixes c :: "('p, 'c, 'i, 't) capturer"
  assumes inv: "cap_inv black c evs" and ready: "frame_ready c f" and f: "f = maybePreprocess c f0" and drop: "dropped c f"
  shows "\<exists>c'. capturer_onFrame black no_infos scale f0 c = Some (c', []) \<and> cap_inv black c' evs"
proof -
  have ts: "int64 (mTimestampUSecs f * 1000) = Some (mTimestampUSecs f * 1000)"
    using ready by (intro int64_Some) (auto simp: frame_ready_def near_def in_int64_def int_range_defs)
  obtain k where k: "adaptFrameResolution (frame_width f) (frame_height f) (mTimestampUSecs f * 1000) (mVideoAdapter c) =
      Some ((mVideoAdapter c)\<lparr>mFramesIn := mFramesIn (mVideoAdapter c) + 1, mFramerateController := k\<rparr>, None)" "next_near k"
    using adaptFrameResolution_drop [of "mVideoAdapter c" "mTimestampUSecs f * 1000"] inv ready drop
    unfolding cap_inv_def frame_ready_def dropped_def by blast
  let ?a = "(mVideoAdapter c)\<lparr>mFramesIn := mFramesIn (mVideoAdapter c) + 1, mFramerateController := k\<rparr>"
  have "capturer_onFrame black no_infos scale f0 c = Some (c\<lparr>mVideoAdapter := ?a\<rparr>, [])"
    using drop by (simp add: capturer_onFrame_def dropped_def Let_def ts k(1) flip: f)
  moreover have "in_sync (mCurrentWants (mBroadcaster c)) ?a"
    using inv in_sync_settings [of ?a "mVideoAdapter c"] by (simp add: cap_inv_def settings_def)
  ultimately show ?thesis using inv k(2) by (auto simp: cap_inv_def stats_ok_def)
qed

lemma capturer_onFrame_direct:
  fixes c :: "('p, 'c, 'i, 't) capturer"
  assumes inv: "cap_inv black c evs" and ready: "frame_ready c f" and f: "f = maybePreprocess c f0" and off: "\<not> mEnableAdaptation c"
  shows "\<exists>c' evs'. capturer_onFrame black no_infos scale f0 c = Some (c', evs') \<and> cap_inv black c' evs' \<and>
    list_all2 (delivered black f (mPreviousFrameSentToAllSinks (mBroadcaster c))) (mSinks (mBroadcaster c)) evs'"
proof -
  obtain b' evs' where "broadcast black no_infos f c = Some (c\<lparr>mBroadcaster := b'\<rparr>, evs')" "bc_inv black b' evs'"
      "mCurrentWants b' = mCurrentWants (mBroadcaster c)"
      "list_all2 (delivered black f (mPreviousFrameSentToAllSinks (mBroadcaster c))) (mSinks (mBroadcaster c)) evs'"
    using broadcast_inv [of black c evs f no_infos] inv ready by (auto simp: cap_inv_def frame_ready_def)
  then show ?thesis using off inv by (auto simp: capturer_onFrame_def cap_inv_def simp flip: f)
qed

lemma capturer_onFrame_adapted:
  fixes c :: "('p, 'c, 'i, 't) capturer"
  assumes inv: "cap_inv black c evs" and ready: "frame_ready c f" and f: "f = maybePreprocess c f0"
    and on: "mEnableAdaptation c" "\<not> dropped c f"
  shows "\<exists>a r. adaptFrameResolution (frame_width f) (frame_height f) (mTimestampUSecs f * 1000) (mVideoAdapter c) = Some (a, Some r) \<and>
    size_ok (mVideoAdapter c) (frame_width f) (frame_height f) r \<and>
    (if outWidth r = 0 \<or> outHeight r = 0 then capturer_onFrame black no_infos scale f0 c = None
     else \<exists>g c' evs'. capturer_onFrame black no_infos scale f0 c = Some (c', evs') \<and> cap_inv black c' evs' \<and>
       frame_width g = outWidth r \<and> frame_height g = outHeight r \<and> mId g = mId f \<and> mTimestampUSecs g = mTimestampUSecs f \<and>
       list_all2 (delivered black g (mPreviousFrameSentToAllSinks (mBroadcaster c))) (mSinks (mBroadcaster c)) evs')"
proof -
  have ts: "int64 (mTimestampUSecs f * 1000) = Some (mTimestampUSecs f * 1000)"
    using ready by (intro int64_Some) (auto simp: frame_ready_def near_def in_int64_def int_range_defs)
  have ad: "adapter_inv (mVideoAdapter c)" "mFramesIn (mVideoAdapter c) < int32_max" "near (mTimestampUSecs f * 1000)"
      "0 < snd (select_request (mVideoAdapter c) (frame_width f) (frame_height f))" "\<not> too_fast (mTimestampUSecs f * 1000) (mVideoAdapter c)"
    using inv ready on by (auto simp: cap_inv_def frame_ready_def adapter_inv_def dropped_def)
  obtain a r where r: "adaptFrameResolution (frame_width f) (frame_height f) (mTimestampUSecs f * 1000) (mVideoAdapter c) = Some (a, Some r)"
      "size_ok (mVideoAdapter c) (frame_width f) (frame_height f) r" "adapter_inv a" "settings a = settings (mVideoAdapter c)"
    using adaptFrameResolution_keep [OF ad(1-3) frame_ready_input [OF ready] ad(4,5)] by blast
  let ?c = "c\<lparr>mVideoAdapter := a\<rparr>"
  let ?same = "outHeight r = frame_height f \<and> outWidth r = frame_width f"
  have step: "capturer_onFrame black no_infos scale f0 c =
      (if ?same then broadcast black no_infos f ?c
       else do { g \<leftarrow> scaled_frame no_infos scale (outWidth r) (outHeight r) f; broadcast black no_infos g ?c })"
    using on(1) by (simp add: capturer_onFrame_def Let_def ts r(1) flip: f)
  have fok: "frame_ok f" "0 < frame_width f" "0 < frame_height f" using ready by (auto simp: frame_ready_def frame_ok_def)
  have inv': "in_sync (mCurrentWants (mBroadcaster c)) a" "stats_ok a" "next_near (mFramerateController a)"
    using inv r(3) in_sync_settings [OF r(4)] by (simp_all add: cap_inv_def adapter_inv_def)
  show ?thesis
  proof (cases "outWidth r = 0 \<or> outHeight r = 0")
    case True
    then have "\<not> ?same" "scaled_frame no_infos scale (outWidth r) (outHeight r) f = None"
      using fok scaled_frame_None [of "outWidth r" "outHeight r" no_infos scale f] by auto
    then show ?thesis using True r(1,2) step by auto
  next
    case False
    then have "usable (outWidth r) (outHeight r)"
      using r(2) fok(1) by (auto simp: size_ok_def usable_def frame_ok_def)
    then obtain g where g: "(if ?same then Some f else scaled_frame no_infos scale (outWidth r) (outHeight r) f) = Some g" "frame_ok g"
        "frame_width g = outWidth r" "frame_height g = outHeight r" "mId g = mId f" "mTimestampUSecs g = mTimestampUSecs f"
      using scaled_frame_Some [OF fok(1), of "outWidth r" "outHeight r" no_infos scale] fok(1) by (cases ?same) auto
    obtain b' evs' where b': "broadcast black no_infos g ?c = Some (?c\<lparr>mBroadcaster := b'\<rparr>, evs')" "bc_inv black b' evs'"
        "mCurrentWants b' = mCurrentWants (mBroadcaster c)"
        "list_all2 (delivered black g (mPreviousFrameSentToAllSinks (mBroadcaster c))) (mSinks (mBroadcaster c)) evs'"
      using broadcast_inv [of black ?c evs g no_infos] inv g(2) by (auto simp: cap_inv_def)
    have "capturer_onFrame black no_infos scale f0 c = Some (?c\<lparr>mBroadcaster := b'\<rparr>, evs')"
      using step g(1) b'(1) by (cases ?same) auto
    moreover have "cap_inv black (?c\<lparr>mBroadcaster := b'\<rparr>) evs'" using b' inv' by (simp add: cap_inv_def)
    ultimately show ?thesis using r(1,2) False g b'(4) by fastforce
  qed
qed


lemma onOutputFormatRequest_fields:
  "in_sync w (onOutputFormatRequest r a) = in_sync w a" "stats_ok (onOutputFormatRequest r a) = stats_ok a"
  "next_near (mFramerateController (onOutputFormatRequest r a))"
  by (simp_all add: onOutputFormatRequest_def Let_def in_sync_def stats_ok_def next_near_def Reset_def)

lemma cap_reach_inv: "cap_reach black no_infos scale c evs \<Longrightarrow> cap_inv black c evs"
proof (induction rule: cap_reach.induct)
  case create
  have "lcm_c 1 1 = Some 1" by (simp add: lcm_c_correct in_int32_def int_range_defs)
  then show ?case
    by (simp add: cap_inv_def bc_inv_def VideoBroadcaster_new_def CustomVideoCapturer_new_def sinks_inv_def cache_ok_def
        in_sync_def VideoAdapter_new_def VideoSinkWants_default_def stats_ok_def next_near_def FramerateController_new_def FramerateController_def)
next
  case (add c evs s w c' cs)
  obtain b where b: "addOrUpdateSink s w (mBroadcaster c) = Some (b, cs)" "updateVideoAdapter (c\<lparr>mBroadcaster := b\<rparr>) = Some c'"
    using add.hyps(2) by (auto simp: capturer_addOrUpdateSink_def Option.bind_eq_Some_conv)
  then have "bc_inv black b evs" using addOrUpdateSink_inv [of black _ evs, OF _ b(1)] add.IH by (simp add: cap_inv_def)
  then show ?case using updateVideoAdapter_inv [OF add.IH _ b(2)] by simp
next
  case (remove c evs s c')
  obtain b where b: "removeSink s (mBroadcaster c) = Some b" "updateVideoAdapter (c\<lparr>mBroadcaster := b\<rparr>) = Some c'"
    using remove.hyps(2) by (auto simp: capturer_removeSink_def Option.bind_eq_Some_conv)
  then have "bc_inv black b evs" using removeSink_inv [of black _ evs, OF _ b(1)] remove.IH by (simp add: cap_inv_def)
  then show ?case using updateVideoAdapter_inv [OF remove.IH _ b(2)] by simp
next
  case (request c evs w h fps c')
  then show ?case
    by (auto simp: capturer_onOutputFormatRequest_def Option.bind_eq_Some_conv cap_inv_def onOutputFormatRequest_fields)
next
  case (preprocessor c evs pre)
  then show ?case by (simp add: setFramePreprocessor_def cap_inv_def)
next
  case (adaptation c evs e)
  then show ?case by (simp add: setEnableAdaptation_def cap_inv_def)
next
  case (frame c evs f c' evs')
  have weaken: "cap_inv black c' (if evs' = [] then evs else evs')" if "cap_inv black c' evs'"
    using that by (auto simp: cap_inv_def bc_inv_def)
  note step = frame.IH frame.hyps(2) refl
  show ?case
  proof (cases "mEnableAdaptation c")
    case False
    from capturer_onFrame_direct [OF step this, of no_infos scale] show ?thesis using frame.hyps(3) weaken by auto
  next
    case True
    show ?thesis
    proof (cases "dropped c (maybePreprocess c f)")
      case True
      from capturer_onFrame_drop [OF step this, of no_infos scale] show ?thesis using frame.hyps(3) by auto
    next
      case False
      from capturer_onFrame_adapted [OF step True this, of no_infos scale] show ?thesis
        using frame.hyps(3) weaken by (auto split: if_splits)
    qed
  qed
qed


section \<open>Properties\<close>

lemma fold_lcm_elem: "x \<in> set xs \<Longrightarrow> x dvd fold lcm xs (a :: int)"
proof (induction xs arbitrary: a)
  case (Cons y ys)
  then show ?case by (auto intro: dvd_trans [OF dvd_lcm1 fold_lcm_dvd])
qed simp

text \<open>The combined wants against those of one sink that counts.\<close>

lemma combined_wants_sink:
  assumes w: "combined_wants sinks = Some w" and s: "s \<in> set (counted_wants sinks)"
    and al: "\<forall>s \<in> set (counted_wants sinks). 0 < resolutionAlignment s \<and> resolutionAlignment s \<le> int32_max"
  shows "resolutionAlignment s dvd resolutionAlignment w \<and> maxPixelCount w \<le> maxPixelCount s \<and>
    0 < resolutionAlignment w \<and> resolutionAlignment w \<le> int32_max"
proof -
  let ?i = "VideoSinkWants_default\<lparr>rotationApplied := False, resolutionAlignment := 1,
       anyActiveWithoutRequestedResolution := Some False, isActive := False\<rparr>"
  obtain w0 where w0: "join_all ?i (counted_wants sinks) = Some w0" "w = clamp_target w0"
    using w by (auto simp: combined_wants_eq)
  have "resolutionAlignment w0 = fold lcm (map resolutionAlignment (counted_wants sinks)) 1"
    "0 < resolutionAlignment w0" "resolutionAlignment w0 \<le> int32_max"
    using join_all_alignment [OF w0(1)] al by (auto simp: int_range_defs)
  moreover have "maxPixelCount w0 \<le> maxPixelCount s"
    using s unfolding join_all_fields(2) [OF w0(1)] fold_min_Min by (intro Min_le) auto
  ultimately show ?thesis using s w0(2) by (auto intro!: fold_lcm_elem)
qed

lemma delivered_size:
  assumes "delivered black g sent (s, w) (OnFrame t h)"
  shows "frame_width h = frame_width g \<and> frame_height h = frame_height g \<and> mId h = mId g \<and> mTimestampUSecs h = mTimestampUSecs g"
  using assms by (cases "blackFrames w") (auto simp: frame_width_def frame_height_def black_buffer_def)

text \<open>
  C14: frames through a capturer with adaptation enabled, in every state that calls of its methods can reach, with frames it is ready for
  each time: the settings of the adapter are in range (alignments up to 32768, positive target pixel count, aspect
  ratios up to 4096, positive resolution), the frame has fewer than \<open>2 ^ 24\<close> pixels and a time that is not extreme, fewer than \<open>INT_MAX\<close> frames have been
  counted, and the alignments of the counted sinks are positive. A frame is dropped exactly if no pixels are allowed or it comes too early; then no sink is told.
  Otherwise each sink is told once, and every frame that a sink gets has a width and a height that
  are multiples of the alignment each counted sink asked for, no more pixels than each of them
  allows (unless an aspect ratio is requested), and the time and number of the original. Under these conditions the capturer
  stops in one case only: the adapted size has no pixels, because the frame is smaller than the
  alignment times the denominator of the scale.
\<close>

theorem capturer_respects_wants:
  fixes c :: "('p, 'c, 'i, 't) capturer"
  assumes "cap_reach black no_infos scale c evs" "frame_ready c f" "f = maybePreprocess c f0" "mEnableAdaptation c"
    and "\<forall>w \<in> set (counted_wants (mSinks (mBroadcaster c))). 0 < resolutionAlignment w \<and> resolutionAlignment w \<le> int32_max"
  shows "case capturer_onFrame black no_infos scale f0 c of
    None \<Rightarrow> \<exists>a r. adaptFrameResolution (frame_width f) (frame_height f) (mTimestampUSecs f * 1000) (mVideoAdapter c) = Some (a, Some r) \<and>
      (outWidth r = 0 \<or> outHeight r = 0)
  | Some (c', evs') \<Rightarrow>
      map event_sink evs' = (if dropped c f then [] else map fst (mSinks (mBroadcaster c))) \<and>
      (\<forall>s g w. OnFrame s g \<in> set evs' \<longrightarrow> w \<in> set (counted_wants (mSinks (mBroadcaster c))) \<longrightarrow>
        resolutionAlignment w dvd frame_width g \<and> resolutionAlignment w dvd frame_height g \<and>
        (fst (select_request (mVideoAdapter c) (frame_width f) (frame_height f)) = None \<longrightarrow>
           frame_width g * frame_height g \<le> maxPixelCount w) \<and>
        mId g = mId f \<and> mTimestampUSecs g = mTimestampUSecs f)"
proof -
  note inv = cap_reach_inv [OF assms(1)]
  show ?thesis
  proof (cases "dropped c f")
    case True
    from capturer_onFrame_drop [OF inv assms(2,3) this, of no_infos scale] show ?thesis using True by auto
  next
    case False
    note ad = capturer_onFrame_adapted [OF inv assms(2,3,4) this, of no_infos scale]
    show ?thesis
    proof (cases "capturer_onFrame black no_infos scale f0 c")
      case None
      then show ?thesis using ad by (auto split: if_splits)
    next
      case (Some res)
      obtain c' evs' where res: "res = (c', evs')" by (cases res)
      obtain r g where r: "size_ok (mVideoAdapter c) (frame_width f) (frame_height f) r"
          "frame_width g = outWidth r" "frame_height g = outHeight r" "mId g = mId f" "mTimestampUSecs g = mTimestampUSecs f"
          "list_all2 (delivered black g (mPreviousFrameSentToAllSinks (mBroadcaster c))) (mSinks (mBroadcaster c)) evs'"
        using ad Some res by (auto split: if_splits)
      have "resolutionAlignment w dvd frame_width h \<and> resolutionAlignment w dvd frame_height h \<and>
          (fst (select_request (mVideoAdapter c) (frame_width f) (frame_height f)) = None \<longrightarrow> frame_width h * frame_height h \<le> maxPixelCount w) \<and>
          mId h = mId f \<and> mTimestampUSecs h = mTimestampUSecs f"
        if h: "OnFrame s h \<in> set evs'" and w: "w \<in> set (counted_wants (mSinks (mBroadcaster c)))" for s h w
      proof -
        obtain v where "delivered black g (mPreviousFrameSentToAllSinks (mBroadcaster c)) (s, v) (OnFrame s h)"
          using delivered_told [OF r(6) h] by blast
        note d = delivered_size [OF this]
        have "mSinks (mBroadcaster c) \<noteq> []" using w by (auto simp: counted_wants_def)
        then have cw: "combined_wants (mSinks (mBroadcaster c)) = Some (mCurrentWants (mBroadcaster c))"
          using inv by (simp add: cap_inv_def bc_inv_def)
        note s = combined_wants_sink [OF cw w assms(5)]
        have "lcm_c 1 (resolutionAlignment (mCurrentWants (mBroadcaster c))) = Some (resolutionAlignment (mCurrentWants (mBroadcaster c)))"
          using s by (subst lcm_c_correct) (auto simp: in_int32_def int_range_defs)
        then have al: "mResolutionAlignment (mVideoAdapter c) = resolutionAlignment (mCurrentWants (mBroadcaster c))"
          and mx: "mResolutionRequestMaxPixelCount (mVideoAdapter c) = maxPixelCount (mCurrentWants (mBroadcaster c))"
          using inv by (simp_all add: cap_inv_def in_sync_def)
        have "snd (select_request (mVideoAdapter c) (frame_width f) (frame_height f)) \<le> maxPixelCount w"
          using s mx by (auto simp: select_request_def Let_def split: option.split)
        then show ?thesis
          using r(1) d r(2-5) s al unfolding size_ok_def by (auto intro: dvd_trans)
      qed
      then show ?thesis using Some res False delivered_sinks [OF r(6)] by auto
    qed
  qed
qed

theorem capturer_respects_wants_witness:
  "\<exists>c. capturer_addOrUpdateSink 1 (VideoSinkWants_default\<lparr>resolutionAlignment := 2\<rparr>)
       (CustomVideoCapturer_new :: (nat, unit, unit, unit) capturer) = Some (c, []) \<and>
     (case capturer_onFrame (\<lambda>w h. 0) () (\<lambda>b w h. 0) frame_4x2 c of
        None \<Rightarrow> \<exists>a r. adaptFrameResolution 4 2 0 (mVideoAdapter c) = Some (a, Some r) \<and> (outWidth r = 0 \<or> outHeight r = 0)
      | Some (c', evs') \<Rightarrow> map event_sink evs' = (if dropped c frame_4x2 then [] else [1]))"
proof -
  let ?w = "VideoSinkWants_default\<lparr>resolutionAlignment := 2\<rparr>" and ?new = "CustomVideoCapturer_new :: (nat, unit, unit, unit) capturer"
  have l: "lcm_c 1 2 = Some 2" by (simp add: lcm_c_correct in_int32_def int_range_defs)
  obtain c where c: "capturer_addOrUpdateSink 1 ?w ?new = Some (c, [])" "mSinks (mBroadcaster c) = [(1, ?w)]"
      "settings_ok (mVideoAdapter c)" "mFramesIn (mVideoAdapter c) = 0" "mPreprocessor c = None" "mEnableAdaptation c"
    using l by (simp add: capturer_addOrUpdateSink_def CustomVideoCapturer_new_def addOrUpdateSink_def VideoBroadcaster_new_def
        FindSinkPair_def base_addOrUpdateSink_def UpdateWants_def combined_wants_eq counted_wants_def counted_def
        ignore_inactive_encoders_old_api_def VideoSinkWants_default_def updateVideoAdapter_def OnSinkWants_def VideoAdapter_new_def
        settings_ok_def no_request_def clamp_target_def join_wants_def join_target_def join_size_def int_range_defs Let_def)
  have r: "cap_reach (\<lambda>w h. 0) () (\<lambda>b w h. 0) c []" by (rule cap_reach.add [OF cap_reach.create c(1)])
  have f: "frame_width frame_4x2 = 4" "frame_height frame_4x2 = 2" "mTimestampUSecs frame_4x2 = 0"
    by (simp_all add: frame_4x2_def frame_width_def frame_height_def)
  have "frame_ready c frame_4x2"
    using c(3,4) f by (simp add: frame_ready_def frame_ok_def near_def int_range_defs) (simp add: frame_4x2_def)
  moreover have "counted_wants (mSinks (mBroadcaster c)) = [?w]"
    using c(2) by (simp add: counted_wants_def counted_def ignore_inactive_encoders_old_api_def VideoSinkWants_default_def)
  ultimately show ?thesis
    using capturer_respects_wants [OF r, of frame_4x2 frame_4x2] c f
    by (auto simp: maybePreprocess_def int_range_defs split: option.splits)
qed
end
