(* ===== verification/OrderedSet.thy ===== *)
theory OrderedSet
  imports Main "HOL-Library.Multiset"
begin

text \<open>
  \<open>std::set\<close> with a comparison object, as the queues of \<open>src/libs/core/source/thread\<close> use it: a sequence in
  the order of the comparison. \<open>insert\<close> leaves the set unchanged if it has an equivalent element.
\<close>

fun set_insert :: "('a \<Rightarrow> 'a \<Rightarrow> bool) \<Rightarrow> 'a \<Rightarrow> 'a list \<Rightarrow> 'a list" where
  "set_insert lt x [] = [x]"
| "set_insert lt x (y # ys) =
     (if lt x y then x # y # ys else if lt y x then y # set_insert lt x ys else y # ys)"

definition fresh :: "('a \<Rightarrow> 'a \<Rightarrow> bool) \<Rightarrow> 'a \<Rightarrow> 'a list \<Rightarrow> bool" where
  "fresh lt x xs \<longleftrightarrow> (\<forall>y \<in> set xs. lt x y \<or> lt y x)"

text \<open>What the class requires of a comparison object: a strict weak order.\<close>

locale set_compare =
  fixes lt :: "'a \<Rightarrow> 'a \<Rightarrow> bool"
  assumes irrefl: "\<not> lt x x"
    and trans: "lt x y \<Longrightarrow> lt y z \<Longrightarrow> lt x z"
    and weak: "\<not> lt x y \<Longrightarrow> \<not> lt y z \<Longrightarrow> \<not> lt x z"
begin

lemma mset_insert: "fresh lt x xs \<Longrightarrow> mset (set_insert lt x xs) = add_mset x (mset xs)"
  by (induction xs) (auto simp: fresh_def)

lemma set_set_insert: "set (set_insert lt x xs) \<subseteq> insert x (set xs)"
  by (induction xs) auto

lemma sorted_insert: "sorted_wrt lt xs \<Longrightarrow> sorted_wrt lt (set_insert lt x xs)"
proof (induction xs)
  case (Cons y ys)
  show ?case
  proof (cases "lt x y")
    case True
    then show ?thesis using Cons.prems trans by auto
  next
    case False
    then show ?thesis
      using Cons set_set_insert [of x ys] by auto
  qed
qed simp

lemma insert_last:
  "\<forall>y \<in> set xs. lt y x \<Longrightarrow> set_insert lt x xs = xs @ [x]"
proof (induction xs)
  case (Cons y ys)
  then have "\<not> lt x y" using trans [of x y x] irrefl [of x] by auto
  then show ?case using Cons by simp
qed simp

end

end
