(* ===== verification/TaskQueueThread.thy ===== *)
theory TaskQueueThread
  imports Units OrderedSet
begin

text \<open>
  \<open>TaskQueueThread\<close> of \<open>src/libs/core/source/thread/octk_task_queue_thread.cpp\<close>: tasks that are posted,
  at once or with a delay, and run one after the other by a thread of their own.

  A task is a pointer, a natural number with 0 for \<open>nullptr\<close>. The methods hold the mutex and are one
  step each. The clock is a parameter: \<open>now\<close> and \<open>tick\<close> are readings of \<open>DateTime::steadyTimeUSecs\<close>. The
  identifiers count modulo \<open>2 ^ 64\<close>.
\<close>

section \<open>The queue\<close>

type_synonym task = nat
type_synonym pending_task = "nat \<times> task"
type_synonym delayed_task = "int \<times> nat \<times> task"

definition pending_less :: "pending_task \<Rightarrow> pending_task \<Rightarrow> bool" where
  "pending_less a b \<longleftrightarrow> fst a < fst b"

definition delayed_less :: "delayed_task \<Rightarrow> delayed_task \<Rightarrow> bool" where
  "delayed_less a b \<longleftrightarrow> fst a < fst b \<or> fst a = fst b \<and> fst (snd a) < fst (snd b)"

record task_queue =
  mQuit :: bool
  mTaskIdCounter :: nat
  mPendingTasks :: "pending_task list"
  mDelayedTasks :: "delayed_task list"

definition task_queue_new :: task_queue where
  "task_queue_new = \<lparr>mQuit = False, mTaskIdCounter = 0, mPendingTasks = [], mDelayedTasks = []\<rparr>"

record NextTask =
  finalTask :: bool
  runTask :: task
  sleepTime :: int

definition postTask :: "task \<Rightarrow> task_queue \<Rightarrow> task_queue" where
  "postTask t q =
     (let c = add64 (mTaskIdCounter q) 1
      in q\<lparr>mTaskIdCounter := c, mPendingTasks := set_insert pending_less (c, t) (mPendingTasks q)\<rparr>)"

definition postDelayedTask :: "int \<Rightarrow> task \<Rightarrow> int \<Rightarrow> task_queue \<Rightarrow> task_queue option" where
  "postDelayedTask now t delay q = do {
     let c = add64 (mTaskIdCounter q) 1;
     timestamp \<leftarrow> int64 (now + delay);
     Some (q\<lparr>mTaskIdCounter := c, mDelayedTasks := set_insert delayed_less (timestamp, c, t) (mDelayedTasks q)\<rparr>)
   }"

definition cancelTask :: "task \<Rightarrow> task_queue \<Rightarrow> task_queue \<times> bool" where
  "cancelTask t q =
     (q\<lparr>mPendingTasks := filter (\<lambda>(_, u). u \<noteq> t) (mPendingTasks q),
        mDelayedTasks := filter (\<lambda>(_, _, u). u \<noteq> t) (mDelayedTasks q)\<rparr>,
      (\<exists>(_, u) \<in> set (mPendingTasks q). u = t) \<or> (\<exists>(_, _, u) \<in> set (mDelayedTasks q). u = t))"

text \<open>The end of \<open>popNextTask\<close>, and the case of a delayed task whose time has come.\<close>

definition pop_pending :: "int \<Rightarrow> task_queue \<Rightarrow> task_queue \<times> NextTask" where
  "pop_pending sleep q =
     (case mPendingTasks q of
        [] \<Rightarrow> (q, \<lparr>finalTask = False, runTask = 0, sleepTime = sleep\<rparr>)
      | (i, t) # ps \<Rightarrow> (q\<lparr>mPendingTasks := ps\<rparr>, \<lparr>finalTask = False, runTask = t, sleepTime = sleep\<rparr>))"

definition pop_due :: "nat \<Rightarrow> task \<Rightarrow> task_queue \<Rightarrow> task_queue \<times> NextTask" where
  "pop_due i t q =
     (case mPendingTasks q of
        (j, u) # ps \<Rightarrow>
          if j < i then (q\<lparr>mPendingTasks := ps\<rparr>, \<lparr>finalTask = False, runTask = u, sleepTime = PlusInfinityVal\<rparr>)
          else (q\<lparr>mDelayedTasks := tl (mDelayedTasks q)\<rparr>, \<lparr>finalTask = False, runTask = t, sleepTime = PlusInfinityVal\<rparr>)
      | [] \<Rightarrow> (q\<lparr>mDelayedTasks := tl (mDelayedTasks q)\<rparr>, \<lparr>finalTask = False, runTask = t, sleepTime = PlusInfinityVal\<rparr>))"

definition popNextTask :: "int \<Rightarrow> task_queue \<Rightarrow> (task_queue \<times> NextTask) option" where
  "popNextTask tick q =
     (if mQuit q then Some (q, \<lparr>finalTask = True, runTask = 0, sleepTime = PlusInfinityVal\<rparr>)
      else case mDelayedTasks q of
        [] \<Rightarrow> Some (pop_pending PlusInfinityVal q)
      | (timestamp, i, t) # ds \<Rightarrow>
          if timestamp \<le> tick then Some (pop_due i t q)
          else do {
            d \<leftarrow> int64 (timestamp - tick);
            ms \<leftarrow> DivideRoundUp d 1000;
            sleep \<leftarrow> TimeDelta_Millis ms;
            Some (pop_pending sleep q)
          })"


section \<open>The thread\<close>

text \<open>
  \<open>processTasks\<close>, with the places where the thread does not hold the mutex: before it reads the clock,
  between the clock and \<open>popNextTask\<close>, while it runs a task, between \<open>popNextTask\<close> and the wait, in the wait
  until a deadline, after the loop, and at the end.
\<close>

datatype worker =
  Top
| Popping int
| Running task
| Sleeping int
| Waiting int
| Quitting
| Finished

text \<open>
  The system: the queue, the thread and the clock, whether the condition variable has been notified since the
  thread began to wait, and a history of what was posted (its task and the time it is due) and started (its
  identifier and the reading of the clock), the identifiers removed, and how many tasks had been posted when
  \<open>popNextTask\<close> last found none and when the thread last began to wait.
\<close>

record task_system =
  tq :: task_queue
  pc :: worker
  clock_now :: int
  posted :: "(task \<times> int option) list"
  started :: "(nat \<times> int) list"
  gone :: "nat multiset"
  notified :: bool
  seen :: nat
  waited :: nat

definition system_new :: "int \<Rightarrow> task_system" where
  "system_new t0 = \<lparr>tq = task_queue_new, pc = Top, clock_now = t0, posted = [], started = [], gone = {#},
     notified = False, seen = 0, waited = 0\<rparr>"

text \<open>The identifier that \<open>popNextTask\<close> takes out of the queue.\<close>

definition ids :: "task_queue \<Rightarrow> nat multiset" where
  "ids q = mset (map fst (mPendingTasks q)) + mset (map (\<lambda>d. fst (snd d)) (mDelayedTasks q))"

definition in_time :: "int \<Rightarrow> bool" where
  "in_time t \<longleftrightarrow> \<bar>t\<bar> \<le> 2 ^ 61"

text \<open>\<open>notify_one\<close> and \<open>notify_all\<close> of the condition variable: they reach the thread only while it waits.\<close>

definition notify :: "task_system \<Rightarrow> task_system" where
  "notify s = (case pc s of Waiting deadline \<Rightarrow> s\<lparr>notified := True\<rparr> | _ \<Rightarrow> s)"

text \<open>
  The steps. The thread leaves the wait when it has been notified, when its deadline has passed, or, as C++
  allows, spuriously. Only the first of these is owed to the task that was posted.
\<close>

inductive reach :: "task_system \<Rightarrow> bool" where
  create: "in_time t0 \<Longrightarrow> reach (system_new t0)"
| clock: "reach s \<Longrightarrow> clock_now s \<le> t \<Longrightarrow> in_time t \<Longrightarrow> reach (s\<lparr>clock_now := t\<rparr>)"
| post: "reach s \<Longrightarrow> t \<noteq> 0 \<Longrightarrow> length (posted s) < 2 ^ 64 - 1 \<Longrightarrow>
    reach (notify (s\<lparr>tq := postTask t (tq s), posted := posted s @ [(t, None)]\<rparr>))"
| delayed: "reach s \<Longrightarrow> t \<noteq> 0 \<Longrightarrow> length (posted s) < 2 ^ 64 - 1 \<Longrightarrow> in_time (clock_now s + delay) \<Longrightarrow>
    postDelayedTask (clock_now s) t delay (tq s) = Some q \<Longrightarrow>
    reach (notify (s\<lparr>tq := q, posted := posted s @ [(t, Some (clock_now s + delay))]\<rparr>))"
| cancel: "reach s \<Longrightarrow> cancelTask t (tq s) = (q, r) \<Longrightarrow> reach (s\<lparr>tq := q, gone := gone s + (ids (tq s) - ids q)\<rparr>)"
| quit: "reach s \<Longrightarrow> reach (notify (s\<lparr>tq := (tq s)\<lparr>mQuit := True\<rparr>\<rparr>))"
| read_clock: "reach s \<Longrightarrow> pc s = Top \<Longrightarrow> reach (s\<lparr>pc := Popping (clock_now s)\<rparr>)"
| pop_final: "reach s \<Longrightarrow> pc s = Popping tick \<Longrightarrow> popNextTask tick (tq s) = Some (q, r) \<Longrightarrow> finalTask r \<Longrightarrow>
    reach (s\<lparr>tq := q, pc := Quitting\<rparr>)"
| pop_run: "reach s \<Longrightarrow> pc s = Popping tick \<Longrightarrow> popNextTask tick (tq s) = Some (q, r) \<Longrightarrow> \<not> finalTask r \<Longrightarrow> runTask r \<noteq> 0 \<Longrightarrow>
    ids (tq s) - ids q = {#i#} \<Longrightarrow>
    reach (s\<lparr>tq := q, pc := Running (runTask r), started := started s @ [(i, tick)]\<rparr>)"
| pop_none: "reach s \<Longrightarrow> pc s = Popping tick \<Longrightarrow> popNextTask tick (tq s) = Some (q, r) \<Longrightarrow> \<not> finalTask r \<Longrightarrow> runTask r = 0 \<Longrightarrow>
    reach (s\<lparr>tq := q, pc := Sleeping (sleepTime r), seen := length (posted s)\<rparr>)"
| run_done: "reach s \<Longrightarrow> pc s = Running t \<Longrightarrow> reach (s\<lparr>pc := Top\<rparr>)"
| wait: "reach s \<Longrightarrow> pc s = Sleeping us \<Longrightarrow> 
    reach (s\<lparr>pc := Waiting (clock_now s + min us 1000000), notified := False, waited := length (posted s)\<rparr>)"
| wake: "reach s \<Longrightarrow> pc s = Waiting deadline \<Longrightarrow> notified s \<or> deadline \<le> clock_now s \<Longrightarrow> reach (s\<lparr>pc := Top\<rparr>)"
| spurious: "reach s \<Longrightarrow> pc s = Waiting deadline \<Longrightarrow> reach (s\<lparr>pc := Top\<rparr>)"
| finish: "reach s \<Longrightarrow> pc s = Quitting \<Longrightarrow>
    reach (s\<lparr>tq := (tq s)\<lparr>mPendingTasks := []\<rparr>, gone := gone s + mset (map fst (mPendingTasks (tq s))), pc := Finished\<rparr>)"



section \<open>What the queue does\<close>

interpretation pending: set_compare pending_less
  by unfold_locales (auto simp: pending_less_def)

interpretation delayed: set_compare delayed_less
  by unfold_locales (auto simp: delayed_less_def)

text \<open>A queue as posting and popping leave it.\<close>

definition tq_ok :: "task_queue \<Rightarrow> bool" where
  "tq_ok q \<longleftrightarrow> sorted_wrt pending_less (mPendingTasks q) \<and> sorted_wrt delayed_less (mDelayedTasks q) \<and>
     distinct (map fst (mPendingTasks q) @ map (\<lambda>d. fst (snd d)) (mDelayedTasks q)) \<and>
     (\<forall>d \<in> set (mDelayedTasks q). in_time (fst d))"

text \<open>
  The next task at time \<open>tick\<close>, as identifier, task and due time: the delayed task that was due first, if
  any is due, unless a task that was posted before it is pending; otherwise the first of the
  pending tasks.
\<close>

definition next_task :: "int \<Rightarrow> task_queue \<Rightarrow> (nat \<times> task \<times> int option) option" where
  "next_task tick q =
     (case (filter (\<lambda>d. fst d \<le> tick) (mDelayedTasks q), mPendingTasks q) of
        ([], []) \<Rightarrow> None
      | ([], (j, u) # _) \<Rightarrow> Some (j, u, None)
      | ((ts, i, t) # _, []) \<Rightarrow> Some (i, t, Some ts)
      | ((ts, i, t) # _, (j, u) # _) \<Rightarrow> Some (if j < i then (j, u, None) else (i, t, Some ts)))"

definition remove_id :: "nat \<Rightarrow> task_queue \<Rightarrow> task_queue" where
  "remove_id i q = q\<lparr>mPendingTasks := filter (\<lambda>p. fst p \<noteq> i) (mPendingTasks q),
     mDelayedTasks := filter (\<lambda>d. fst (snd d) \<noteq> i) (mDelayedTasks q)\<rparr>"

lemma due_sorted:
  "sorted_wrt delayed_less (d # ds) \<Longrightarrow> filter (\<lambda>d. fst d \<le> tick) (d # ds) = [] \<longleftrightarrow> tick < fst d"
  by (auto simp: filter_empty_conv delayed_less_def)

lemma filter_id: "\<forall>x \<in> set xs. f x \<noteq> i \<Longrightarrow> filter (\<lambda>x. f x \<noteq> i) xs = xs"
  by simp

lemma remove_pending:
  assumes "tq_ok q" "mPendingTasks q = (j, u) # ps"
  shows "remove_id j q = q\<lparr>mPendingTasks := ps\<rparr>"
proof -
  have "filter (\<lambda>p. fst p \<noteq> j) ps = ps" "filter (\<lambda>d. fst (snd d) \<noteq> j) (mDelayedTasks q) = mDelayedTasks q"
    using assms by (auto simp: tq_ok_def intro!: filter_id; force)+
  then show ?thesis using assms(2) by (simp add: remove_id_def)
qed

lemma remove_delayed:
  assumes "tq_ok q" "mDelayedTasks q = (ts, i, t) # ds"
  shows "remove_id i q = q\<lparr>mDelayedTasks := ds\<rparr>"
proof -
  have "filter (\<lambda>p. fst p \<noteq> i) (mPendingTasks q) = mPendingTasks q" "filter (\<lambda>d. fst (snd d) \<noteq> i) ds = ds"
    using assms by (auto simp: tq_ok_def intro!: filter_id; force)+
  then show ?thesis using assms(2) by (simp add: remove_id_def)
qed

lemma sleep_time:
  assumes "in_time ts" "in_time tick" "tick < ts"
  shows "\<exists>sleep. (do { d \<leftarrow> int64 (ts - tick); ms \<leftarrow> DivideRoundUp d 1000; TimeDelta_Millis ms }) = Some sleep \<and>
    ts - tick \<le> sleep \<and> sleep < ts - tick + 1000"
proof -
  define d where "d = ts - tick"
  define r where "r = d mod 1000"
  define n where "n = d div 1000 + (if 0 < r then 1 else 0)"
  have d: "0 < d" "d \<le> 4611686018427387904" using assms by (auto simp: d_def in_time_def)
  have "d = d div 1000 * 1000 + r" "0 \<le> r" "r < 1000" by (simp_all add: r_def)
  then have n: "d \<le> n * 1000" "n * 1000 < d + 1000" by (auto simp: n_def)
  then have nb: "0 < n" "n < 4611686018427389" using d by linarith+
  have "in_int64 n" "in_int64 d" using nb d by (simp_all add: in_int64_def int_range_defs)
  then have "DivideRoundUp d 1000 = Some n" "int64 d = Some d"
    using d(1) by (simp_all add: DivideRoundUp_def n_def r_def sdiv_nonneg smod_nonneg)
  moreover have "TimeDelta_Millis n = Some (n * 1000)"
    using nb by (simp add: TimeDelta_Millis_def FromFraction_def div64_def infinity_defs in_int64_def signed_divide_int_def)
  ultimately show ?thesis using n by (simp add: d_def)
qed

lemma popNextTask_correct:
  assumes ok: "tq_ok q" and tick: "in_time tick"
  shows "\<exists>q' r. popNextTask tick q = Some (q', r) \<and> finalTask r = mQuit q \<and>
    (if mQuit q then q' = q
     else case next_task tick q of
       Some (i, t, due) \<Rightarrow> q' = remove_id i q \<and> runTask r = t
     | None \<Rightarrow> q' = q \<and> runTask r = 0 \<and>
         (case mDelayedTasks q of
            [] \<Rightarrow> sleepTime r = PlusInfinityVal
          | d # _ \<Rightarrow> fst d - tick \<le> sleepTime r \<and> sleepTime r < fst d - tick + 1000))"
proof (cases "mDelayedTasks q")
  case Nil
  then show ?thesis
    using remove_pending [OF ok]
    by (cases "mPendingTasks q") (auto simp: popNextTask_def pop_pending_def next_task_def)
next
  case (Cons d ds)
  obtain ts i t where d: "d = (ts, i, t)" by (cases d)
  have srt: "sorted_wrt delayed_less (d # ds)" and tin: "in_time ts" using ok Cons d by (simp_all add: tq_ok_def)
  show ?thesis
  proof (cases "ts \<le> tick")
    case True
    then show ?thesis
      using remove_pending [OF ok] remove_delayed [OF ok] Cons d
      by (cases "mPendingTasks q") (auto simp: popNextTask_def pop_due_def next_task_def)
  next
    case False
    then have none: "filter (\<lambda>d. fst d \<le> tick) (mDelayedTasks q) = []" using due_sorted [OF srt, of tick] d unfolding Cons by simp
    obtain sleep where sl: "(do { d \<leftarrow> int64 (ts - tick); ms \<leftarrow> DivideRoundUp d 1000; TimeDelta_Millis ms }) = Some sleep"
        "ts - tick \<le> sleep" "sleep < ts - tick + 1000"
      using sleep_time [OF tin tick] False by auto
    then have "popNextTask tick q = Some (if mQuit q then (q, \<lparr>finalTask = True, runTask = 0, sleepTime = PlusInfinityVal\<rparr>) else pop_pending sleep q)"
      using False Cons d by (auto simp: popNextTask_def Option.bind_eq_Some_conv)
    then show ?thesis
      using remove_pending [OF ok] none sl Cons d
      by (cases "mPendingTasks q") (auto simp: pop_pending_def next_task_def)
  qed
qed


section \<open>Histories\<close>

definition due_of :: "task_system \<Rightarrow> nat \<Rightarrow> int option" where
  "due_of s i = snd (posted s ! (i - 1))"

text \<open>The queue holds posted tasks with their identifiers, numbered from 1 in the order of posting.\<close>

definition tq_posted :: "task_queue \<Rightarrow> (task \<times> int option) list \<Rightarrow> bool" where
  "tq_posted q ps \<longleftrightarrow> mTaskIdCounter q = length ps \<and> length ps < 2 ^ 64 \<and> tq_ok q \<and>
     (\<forall>(i, t) \<in> set (mPendingTasks q). 0 < i \<and> i \<le> length ps \<and> ps ! (i - 1) = (t, None) \<and> t \<noteq> 0) \<and>
     (\<forall>(ts, i, t) \<in> set (mDelayedTasks q). 0 < i \<and> i \<le> length ps \<and> ps ! (i - 1) = (t, Some ts) \<and> t \<noteq> 0)"

definition history_ok :: "task_system \<Rightarrow> bool" where
  "history_ok s \<longleftrightarrow>
     mset (map fst (started s)) + ids (tq s) + gone s = mset [1..<Suc (length (posted s))] \<and>
     (\<forall>(i, tick) \<in> set (started s). \<forall>due. due_of s i = Some due \<longrightarrow> due \<le> tick) \<and>
     sorted_wrt (<) (filter (\<lambda>i. due_of s i = None) (map fst (started s))) \<and>
     (\<forall>i \<in> set (map fst (started s)). due_of s i = None \<longrightarrow> (\<forall>p \<in> set (mPendingTasks (tq s)). i < fst p))"

definition pc_ok :: "task_system \<Rightarrow> bool" where
  "pc_ok s \<longleftrightarrow> in_time (clock_now s) \<and>
     (case pc s of
        Popping tick \<Rightarrow> in_time tick
      | Waiting d \<Rightarrow> d \<le> clock_now s + 1000000
      | Running t \<Rightarrow> started s \<noteq> [] \<and> fst (posted s ! (fst (last (started s)) - 1)) = t
      | _ \<Rightarrow> True)"

definition sys_inv :: "task_system \<Rightarrow> bool" where
  "sys_inv s \<longleftrightarrow> tq_posted (tq s) (posted s) \<and> history_ok s \<and> pc_ok s"

lemma ids_filter:
  "ids (q\<lparr>mPendingTasks := filter P (mPendingTasks q), mDelayedTasks := filter Q (mDelayedTasks q)\<rparr>) \<subseteq># ids q"
  unfolding ids_def by (intro subset_mset.add_mono; simp add: mset_map image_mset_subseteq_mono mset_filter)

lemma ids_mset: "ids q = mset (map fst (mPendingTasks q) @ map (\<lambda>d. fst (snd d)) (mDelayedTasks q))"
  by (simp add: ids_def)

lemma distinct_ids: "distinct (map fst (mPendingTasks q) @ map (\<lambda>d. fst (snd d)) (mDelayedTasks q)) \<longleftrightarrow> (\<forall>i. count (ids q) i \<le> 1)"
  unfolding ids_mset distinct_count_atmost_1 by (auto simp: count_eq_zero_iff le_Suc_eq simp flip: count_greater_zero_iff)

lemma ids_remove_id:
  assumes "tq_ok q" "i \<in># ids q"
  shows "ids q = add_mset i (ids (remove_id i q))"
proof -
  have "ids (remove_id i q) = filter_mset (\<lambda>j. j \<noteq> i) (ids q)"
    by (simp add: ids_def remove_id_def filter_mset_image_mset mset_filter comp_def)
  moreover have "count (ids q) i = 1"
    using assms unfolding ids_mset by (auto simp: tq_ok_def distinct_count_atmost_1)
  ultimately show ?thesis by (intro multiset_eqI) auto
qed

lemma tq_posted_bound:
  assumes "tq_posted q ps" "i \<in># ids q"
  shows "0 < i \<and> i \<le> length ps"
  using assms by (auto simp: tq_posted_def ids_def)

text \<open>Removing tasks keeps a queue in order.\<close>

lemma tq_posted_filter:
  assumes "tq_posted q ps"
  shows "tq_posted (q\<lparr>mPendingTasks := filter P (mPendingTasks q), mDelayedTasks := filter Q (mDelayedTasks q)\<rparr>) ps"
  using assms
  by (auto simp: tq_posted_def tq_ok_def sorted_wrt_filter intro: distinct_map_filter dest: subsetD)

lemma tq_posted_post:
  assumes q: "tq_posted q ps" and t: "t \<noteq> 0" and l: "length ps < 2 ^ 64 - 1"
  shows "tq_posted (postTask t q) (ps @ [(t, None)])" "ids (postTask t q) = add_mset (Suc (length ps)) (ids q)"
    "mPendingTasks (postTask t q) = mPendingTasks q @ [(Suc (length ps), t)]"
proof -
  have c: "add64 (mTaskIdCounter q) 1 = Suc (length ps)" using q l by (simp add: tq_posted_def)
  have "set_insert pending_less (Suc (length ps), t) (mPendingTasks q) = mPendingTasks q @ [(Suc (length ps), t)]"
    using q by (intro pending.insert_last) (auto simp: pending_less_def tq_posted_def)
  then have e: "postTask t q = q\<lparr>mTaskIdCounter := Suc (length ps), mPendingTasks := mPendingTasks q @ [(Suc (length ps), t)]\<rparr>"
    using c by (simp add: postTask_def)
  show "mPendingTasks (postTask t q) = mPendingTasks q @ [(Suc (length ps), t)]"
    "ids (postTask t q) = add_mset (Suc (length ps)) (ids q)" by (simp_all add: e ids_def)
  show "tq_posted (postTask t q) (ps @ [(t, None)])"
    using q l t by (fastforce simp: e tq_posted_def tq_ok_def sorted_wrt_append pending_less_def nth_append)
qed

lemma tq_posted_delayed:
  assumes q: "tq_posted q ps" and t: "t \<noteq> 0" and l: "length ps < 2 ^ 64 - 1" and ts: "in_time (n + delay)"
    and p: "postDelayedTask n t delay q = Some q'"
  shows "tq_posted q' (ps @ [(t, Some (n + delay))])" "ids q' = add_mset (Suc (length ps)) (ids q)"
    "mPendingTasks q' = mPendingTasks q"
proof -
  let ?d = "(n + delay, Suc (length ps), t)"
  have c: "add64 (mTaskIdCounter q) 1 = Suc (length ps)" using q l by (simp add: tq_posted_def)
  have e: "q' = q\<lparr>mTaskIdCounter := Suc (length ps), mDelayedTasks := set_insert delayed_less ?d (mDelayedTasks q)\<rparr>"
    using p c by (auto simp: postDelayedTask_def Let_def Option.bind_eq_Some_conv int64_eq_Some_iff)
  have "fresh delayed_less ?d (mDelayedTasks q)"
    using q by (fastforce simp: fresh_def delayed_less_def tq_posted_def)
  then have m: "mset (set_insert delayed_less ?d (mDelayedTasks q)) = add_mset ?d (mset (mDelayedTasks q))"
    by (rule delayed.mset_insert)
  show "mPendingTasks q' = mPendingTasks q" by (simp add: e)
  show i: "ids q' = add_mset (Suc (length ps)) (ids q)" by (simp add: e ids_def m)
  have s: "set (set_insert delayed_less ?d (mDelayedTasks q)) = insert ?d (set (mDelayedTasks q))"
    using arg_cong [OF m, of set_mset] by simp
  have "Suc (length ps) \<notin># ids q" using tq_posted_bound [OF q] by fastforce
  then have "\<forall>i. count (ids q') i \<le> 1"
    using q distinct_ids [of q] unfolding i by (auto simp: tq_posted_def tq_ok_def count_eq_zero_iff)
  then have "distinct (map fst (mPendingTasks q') @ map (\<lambda>d. fst (snd d)) (mDelayedTasks q'))"
    using distinct_ids by blast
  then have "tq_ok q'"
    using q ts s by (auto simp: tq_posted_def tq_ok_def e delayed.sorted_insert)
  then show "tq_posted q' (ps @ [(t, Some (n + delay))])"
    using q l t s by (fastforce simp: e tq_posted_def nth_append)
qed


text \<open>What a step changes of a history.\<close>

lemma due_of_post [simp]: "0 < i \<Longrightarrow> i \<le> length (posted s) \<Longrightarrow> due_of (s\<lparr>tq := q, posted := posted s @ [x]\<rparr>) i = due_of s i"
  using less_Suc_eq_le [of "i - 1" "length (posted s)"] by (cases i) (simp_all add: due_of_def nth_append)

lemma started_bound:
  assumes "history_ok s" "i \<in> set (map fst (started s))"
  shows "0 < i \<and> i \<le> length (posted s)"
proof -
  have "mset (map fst (started s)) + ids (tq s) + gone s = mset [1..<Suc (length (posted s))]"
    using assms(1) unfolding history_ok_def by blast
  moreover have "i \<in># mset (map fst (started s)) + ids (tq s) + gone s" using assms(2) by simp
  ultimately have "i \<in> set [1..<Suc (length (posted s))]" by (metis set_mset_mset)
  then show ?thesis by auto
qed

lemma history_post:
  assumes h: "history_ok s" and q: "ids q = add_mset (Suc (length (posted s))) (ids (tq s))"
    and p: "\<forall>p \<in> set (mPendingTasks q). p \<in> set (mPendingTasks (tq s)) \<or> fst p = Suc (length (posted s))"
  shows "history_ok (s\<lparr>tq := q, posted := posted s @ [x]\<rparr>)" (is "history_ok ?s")
proof -
  have due: "due_of ?s i = due_of s i" if "i \<in> set (map fst (started s))" for i
    using started_bound [OF h that] by simp
  then have fl: "filter (\<lambda>i. due_of ?s i = None) (map fst (started s)) = filter (\<lambda>i. due_of s i = None) (map fst (started s))"
    by (intro filter_cong) auto
  have early: "\<forall>(i, tick) \<in> set (started s). \<forall>d. due_of ?s i = Some d \<longrightarrow> d \<le> tick"
    using h due unfolding history_ok_def by fastforce
  have "i < fst p" if "i \<in> set (map fst (started s))" "due_of ?s i = None" "p \<in> set (mPendingTasks q)" for i p
    using h p that due [OF that(1)] started_bound [OF h that(1)] unfolding history_ok_def by fastforce
  then show ?thesis
    using h early by (simp add: history_ok_def fl q)
qed

lemma history_remove:
  assumes h: "history_ok s" and q: "ids (tq s) = ids q + m" and p: "set (mPendingTasks q) \<subseteq> set (mPendingTasks (tq s))"
  shows "history_ok (s\<lparr>tq := q, gone := gone s + m\<rparr>)" "history_ok (s\<lparr>tq := q, gone := gone s + m, pc := c\<rparr>)"
proof -
  have e: "due_of (s\<lparr>tq := q, gone := g\<rparr>) = due_of s" "due_of (s\<lparr>tq := q, gone := g, pc := c\<rparr>) = due_of s" for g
    by (simp_all add: due_of_def fun_eq_iff)
  have "\<forall>i \<in> set (map fst (started s)). due_of s i = None \<longrightarrow> (\<forall>p \<in> set (mPendingTasks q). i < fst p)"
    using h p unfolding history_ok_def by blast
  moreover have "mset (map fst (started s)) + ids q + (gone s + m) = mset [1..<Suc (length (posted s))]"
    using h q unfolding history_ok_def by (metis add.assoc add.commute)
  ultimately show "history_ok (s\<lparr>tq := q, gone := gone s + m\<rparr>)" "history_ok (s\<lparr>tq := q, gone := gone s + m, pc := c\<rparr>)"
    using h unfolding history_ok_def e by simp_all
qed

lemma history_start:
  assumes h: "history_ok s" and ok: "tq_posted (tq s) (posted s)" and n: "next_task tick (tq s) = Some (i, t, due)"
  shows "i \<in># ids (tq s)" "posted s ! (i - 1) = (t, due)" "t \<noteq> 0"
    "history_ok (s\<lparr>tq := remove_id i (tq s), pc := c, started := started s @ [(i, tick)]\<rparr>)"
proof -
  let ?q = "tq s" and ?due = "filter (\<lambda>d. fst d \<le> tick) (mDelayedTasks (tq s))"
  have kind: "(\<exists>ps. mPendingTasks ?q = (i, t) # ps) \<and> due = None \<or> (\<exists>ts ds. ?due = (ts, i, t) # ds \<and> due = Some ts)"
    using n by (auto simp: next_task_def split: list.splits if_splits)
  then have mem: "(i, t) \<in> set (mPendingTasks ?q) \<and> due = None \<or> (\<exists>ts. (ts, i, t) \<in> set (mDelayedTasks ?q) \<and> ts \<le> tick \<and> due = Some ts)"
    by (metis (mono_tags, lifting) fst_conv list.set_intros(1) mem_Collect_eq set_filter)
  show i: "i \<in># ids ?q" using mem by (force simp: ids_def)
  show p: "posted s ! (i - 1) = (t, due)" "t \<noteq> 0" using mem ok by (auto simp: tq_posted_def)
  have okq: "tq_ok ?q" using ok by (simp add: tq_posted_def)
  have d: "due_of s i = due" using p(1) by (simp add: due_of_def)
  have new: "j < i" if "due = None" "j \<in> set (map fst (started s))" "due_of s j = None" for j
    using h that mem unfolding history_ok_def by fastforce
  have old: "i < fst p" if "due = None" "p \<in> set (mPendingTasks (remove_id i ?q))" for p
  proof -
    obtain ps where "mPendingTasks ?q = (i, t) # ps" using kind \<open>due = None\<close> by auto
    then show ?thesis using that okq remove_pending [OF okq] by (auto simp: tq_ok_def pending_less_def)
  qed
  have sub: "set (mPendingTasks (remove_id i ?q)) \<subseteq> set (mPendingTasks ?q)" by (auto simp: remove_id_def)
  let ?s = "s\<lparr>tq := remove_id i ?q, pc := c, started := started s @ [(i, tick)]\<rparr>"
  have eq: "due_of ?s = due_of s" by (simp add: due_of_def fun_eq_iff)
  have "mset (map fst (started ?s)) + ids (tq ?s) + gone ?s = mset [1..<Suc (length (posted ?s))]"
    using h ids_remove_id [OF okq i] by (simp add: history_ok_def)
  moreover have "\<forall>(j, tk) \<in> set (started ?s). \<forall>du. due_of ?s j = Some du \<longrightarrow> du \<le> tk"
    using h d mem unfolding eq by (auto simp: history_ok_def)
  moreover have "sorted_wrt (<) (filter (\<lambda>j. due_of ?s j = None) (map fst (started ?s)))"
    using h d new unfolding eq by (auto simp: history_ok_def sorted_wrt_append)
  moreover have "\<forall>j \<in> set (map fst (started ?s)). due_of ?s j = None \<longrightarrow> (\<forall>p \<in> set (mPendingTasks (tq ?s)). j < fst p)"
  proof (intro ballI impI)
    fix j p assume j: "j \<in> set (map fst (started ?s))" "due_of ?s j = None" "p \<in> set (mPendingTasks (tq ?s))"
    show "j < fst p"
    proof (cases "j \<in> set (map fst (started s))")
      case True
      moreover have "p \<in> set (mPendingTasks ?q)" using j(3) sub by auto
      ultimately show ?thesis using h j(2) unfolding eq history_ok_def by blast
    next
      case False
      then have "j = i" using j(1) by auto
      then show ?thesis using old [of p] j d unfolding eq by simp
    qed
  qed
  ultimately show "history_ok ?s" by (simp add: history_ok_def)
qed

lemma sys_inv_pop:
  assumes inv: "sys_inv s" and pc: "pc s = Popping tick" and p: "popNextTask tick (tq s) = Some (q, r)"
  shows "finalTask r \<Longrightarrow> q = tq s"
    "\<not> finalTask r \<Longrightarrow> runTask r = 0 \<Longrightarrow> q = tq s"
    "\<not> finalTask r \<Longrightarrow> runTask r \<noteq> 0 \<Longrightarrow> \<exists>i due. next_task tick (tq s) = Some (i, runTask r, due) \<and> q = remove_id i (tq s)"
proof -
  have ok: "tq_ok (tq s)" "in_time tick" using inv pc by (auto simp: sys_inv_def tq_posted_def pc_ok_def)
  note c = popNextTask_correct [OF ok] p
  have nz: "t \<noteq> 0" if "next_task tick (tq s) = Some (i, t, due)" for i t due
    using history_start(3) [OF _ _ that] inv by (simp add: sys_inv_def)
  show "finalTask r \<Longrightarrow> q = tq s" "\<not> finalTask r \<Longrightarrow> runTask r = 0 \<Longrightarrow> q = tq s"
    "\<not> finalTask r \<Longrightarrow> runTask r \<noteq> 0 \<Longrightarrow> \<exists>i due. next_task tick (tq s) = Some (i, runTask r, due) \<and> q = remove_id i (tq s)"
    using c nz by (auto split: option.splits)
qed


lemma history_pc [simp]: "history_ok (s\<lparr>pc := c\<rparr>) = history_ok s" "history_ok (s\<lparr>clock_now := t\<rparr>) = history_ok s"
  by (simp_all add: history_ok_def due_of_def)

lemma history_wait [simp]:
  "history_ok (s\<lparr>notified := b\<rparr>) = history_ok s" "history_ok (s\<lparr>seen := n\<rparr>) = history_ok s" "history_ok (s\<lparr>waited := n\<rparr>) = history_ok s"
  by (simp_all add: history_ok_def due_of_def)

lemma pc_ok_wait [simp]:
  "pc_ok (s\<lparr>notified := b\<rparr>) = pc_ok s" "pc_ok (s\<lparr>seen := n\<rparr>) = pc_ok s" "pc_ok (s\<lparr>waited := n\<rparr>) = pc_ok s"
  by (simp_all add: pc_ok_def cong: worker.case_cong)

lemma notify_keeps [simp]:
  "tq (notify s) = tq s" "pc (notify s) = pc s" "posted (notify s) = posted s" "seen (notify s) = seen s"
  "waited (notify s) = waited s" "clock_now (notify s) = clock_now s" "started (notify s) = started s" "gone (notify s) = gone s"
  "notified (notify s) \<longleftrightarrow> notified s \<or> (\<exists>d. pc s = Waiting d)"
  by (simp_all add: notify_def split: worker.splits)

lemma inv_notify [simp]: "history_ok (notify s) = history_ok s" "pc_ok (notify s) = pc_ok s"
  by (simp_all add: notify_def split: worker.splits)

lemma tq_posted_quit [simp]: "tq_posted (q\<lparr>mQuit := b\<rparr>) ps = tq_posted q ps"
  by (simp add: tq_posted_def tq_ok_def)

lemma pc_ok_post: "pc_ok s \<Longrightarrow> history_ok s \<Longrightarrow> pc_ok (s\<lparr>tq := q, posted := posted s @ [x]\<rparr>)"
proof (cases "pc s")
  case (Running t)
  assume p: "pc_ok s" "history_ok s"
  then have "started s \<noteq> []" using Running by (simp add: pc_ok_def)
  then have "0 < fst (last (started s)) \<and> fst (last (started s)) \<le> length (posted s)"
    using started_bound [OF p(2), of "fst (last (started s))"] by simp
  then show ?thesis using p(1) Running by (cases "fst (last (started s))") (simp_all add: pc_ok_def nth_append)
qed (simp_all add: pc_ok_def)

lemma reach_inv: "reach s \<Longrightarrow> sys_inv s"
proof (induction rule: reach.induct)
  case (create t0)
  then show ?case
    by (simp add: sys_inv_def system_new_def task_queue_new_def tq_posted_def tq_ok_def history_ok_def ids_def pc_ok_def)
next
  case (clock s t)
  then show ?case by (auto simp: sys_inv_def pc_ok_def split: worker.splits)
next
  case (post s t)
  then have q: "tq_posted (tq s) (posted s)" "history_ok s" "pc_ok s" by (simp_all add: sys_inv_def)
  note p = tq_posted_post [OF q(1) post.hyps(2,3)]
  have "history_ok (s\<lparr>tq := postTask t (tq s), posted := posted s @ [(t, None)]\<rparr>)"
    by (rule history_post [OF q(2) p(2)]) (auto simp: p(3))
  then show ?case using p(1) pc_ok_post [OF q(3,2)] by (simp add: sys_inv_def)
next
  case (delayed s t delay q')
  then have q: "tq_posted (tq s) (posted s)" "history_ok s" "pc_ok s" by (simp_all add: sys_inv_def)
  note p = tq_posted_delayed [OF q(1) delayed.hyps(2-5)]
  have "history_ok (s\<lparr>tq := q', posted := posted s @ [(t, Some (clock_now s + delay))]\<rparr>)"
    by (rule history_post [OF q(2) p(2)]) (simp add: p(3))
  then show ?case using p(1) pc_ok_post [OF q(3,2)] by (simp add: sys_inv_def)
next
  case (cancel s t q r)
  then have q: "tq_posted (tq s) (posted s)" "history_ok s" "pc_ok s" by (simp_all add: sys_inv_def)
  have e: "q = (tq s)\<lparr>mPendingTasks := filter (\<lambda>(_, u). u \<noteq> t) (mPendingTasks (tq s)),
      mDelayedTasks := filter (\<lambda>(_, _, u). u \<noteq> t) (mDelayedTasks (tq s))\<rparr>"
    using cancel.hyps(2) by (simp add: cancelTask_def)
  have "ids q \<subseteq># ids (tq s)" unfolding e by (rule ids_filter)
  then have "ids (tq s) = ids q + (ids (tq s) - ids q)" by simp
  then have "history_ok (s\<lparr>tq := q, gone := gone s + (ids (tq s) - ids q)\<rparr>)"
    by (rule history_remove(1) [OF q(2)]) (auto simp: e)
  moreover have "tq_posted q (posted s)" unfolding e by (rule tq_posted_filter [OF q(1)])
  ultimately show ?case using q(3) by (simp add: sys_inv_def pc_ok_def cong: worker.case_cong)
next
  case (quit s)
  then show ?case by (simp add: sys_inv_def history_ok_def ids_def due_of_def pc_ok_def cong: worker.case_cong)
next
  case (read_clock s)
  then show ?case by (simp add: sys_inv_def pc_ok_def)
next
  case (pop_final s tick q r)
  then show ?case using sys_inv_pop(1) [OF pop_final.IH pop_final.hyps(2,3)] by (simp add: sys_inv_def pc_ok_def)
next
  case (pop_run s tick q r i)
  obtain j due where j: "next_task tick (tq s) = Some (j, runTask r, due)" "q = remove_id j (tq s)"
    using sys_inv_pop(3) [OF pop_run.IH pop_run.hyps(2-5)] by blast
  have q: "tq_posted (tq s) (posted s)" "history_ok s" "pc_ok s" using pop_run.IH by (simp_all add: sys_inv_def)
  note st = history_start [OF q(2,1) j(1)]
  have "ids (tq s) = add_mset j (ids q)" using ids_remove_id [OF _ st(1)] q(1) j(2) by (simp add: tq_posted_def)
  then have "i = j" using pop_run.hyps(6) by simp
  moreover have "tq_posted (remove_id j (tq s)) (posted s)" unfolding remove_id_def by (rule tq_posted_filter [OF q(1)])
  ultimately show ?case using st(2,4) j(2) q(3) by (simp add: sys_inv_def pc_ok_def)
next
  case (pop_none s tick q r)
  then show ?case using sys_inv_pop(2) [OF pop_none.IH pop_none.hyps(2-5)] by (simp add: sys_inv_def pc_ok_def)
next
  case (run_done s t)
  then show ?case by (simp add: sys_inv_def pc_ok_def)
next
  case (wait s us)
  then show ?case by (simp add: sys_inv_def pc_ok_def)
next
  case (wake s deadline)
  then show ?case by (simp add: sys_inv_def pc_ok_def)
next
  case (spurious s deadline)
  then show ?case by (simp add: sys_inv_def pc_ok_def)
next
  case (finish s)
  then have q: "tq_posted (tq s) (posted s)" "history_ok s" "pc_ok s" by (simp_all add: sys_inv_def)
  let ?q = "(tq s)\<lparr>mPendingTasks := []\<rparr>"
  have "history_ok (s\<lparr>tq := ?q, gone := gone s + mset (map fst (mPendingTasks (tq s))), pc := Finished\<rparr>)"
    by (rule history_remove(2) [OF q(2)]) (simp_all add: ids_def ac_simps)
  moreover have "tq_posted ?q (posted s)" using q(1) by (auto simp: tq_posted_def tq_ok_def)
  ultimately show ?case using q(3) by (simp add: sys_inv_def pc_ok_def)
qed


text \<open>A thread that sleeps has seen the tasks posted before its last \<open>popNextTask\<close>; while it waits without a
  notification nothing is posted.\<close>

definition wait_ok :: "task_system \<Rightarrow> bool" where
  "wait_ok s \<longleftrightarrow>
     (case pc s of
        Sleeping us \<Rightarrow> (\<forall>p \<in> set (mPendingTasks (tq s)). seen s < fst p) \<and> seen s \<le> length (posted s)
      | Waiting d \<Rightarrow> (\<forall>p \<in> set (mPendingTasks (tq s)). seen s < fst p) \<and> seen s \<le> length (posted s) \<and>
          (notified s \<or> waited s = length (posted s))
      | _ \<Rightarrow> True)"

lemma wait_ok_step:
  assumes "wait_ok s" "set (mPendingTasks q) \<subseteq> set (mPendingTasks (tq s)) \<union> {(Suc (length (posted s)), t)}"
  shows "wait_ok (notify (s\<lparr>tq := q, posted := posted s @ ps\<rparr>))"
proof (cases "pc s")
  case (Sleeping us)
  then have "\<forall>p \<in> set (mPendingTasks q). seen s < fst p" using assms by (fastforce simp: wait_ok_def)
  then show ?thesis using Sleeping assms(1) by (simp add: wait_ok_def)
next
  case (Waiting d)
  then have "\<forall>p \<in> set (mPendingTasks q). seen s < fst p" using assms by (fastforce simp: wait_ok_def)
  then show ?thesis using Waiting assms(1) by (simp add: wait_ok_def)
qed (simp_all add: wait_ok_def)

lemma wait_ok_remove:
  assumes "wait_ok s" "set (mPendingTasks q) \<subseteq> set (mPendingTasks (tq s))"
  shows "wait_ok (s\<lparr>tq := q, gone := g\<rparr>)"
  using assms by (auto simp: wait_ok_def split: worker.splits)

lemma pop_none_empty:
  assumes inv: "sys_inv s" and pc: "pc s = Popping tick" and p: "popNextTask tick (tq s) = Some (q, r)"
    and r: "\<not> finalTask r" "runTask r = 0"
  shows "mPendingTasks q = []"
proof -
  have ok: "tq_ok (tq s)" "in_time tick" using inv pc by (auto simp: sys_inv_def tq_posted_def pc_ok_def)
  have "next_task tick (tq s) = None"
  proof (cases "next_task tick (tq s)")
    case (Some x)
    then obtain i t due where x: "next_task tick (tq s) = Some (i, t, due)" by (cases x) auto
    then have "t \<noteq> 0" using history_start(3) [OF _ _ x] inv by (simp add: sys_inv_def)
    then show ?thesis using popNextTask_correct [OF ok] p r x by auto
  qed
  then have "mPendingTasks (tq s) = []" by (auto simp: next_task_def split: list.splits if_splits)
  then show ?thesis using sys_inv_pop(2) [OF inv pc p r] by simp
qed

lemma reach_wait: "reach s \<Longrightarrow> wait_ok s"
proof (induction rule: reach.induct)
  case (create t0)
  then show ?case by (simp add: wait_ok_def system_new_def)
next
  case (clock s t)
  then show ?case by (simp add: wait_ok_def cong: worker.case_cong)
next
  case (post s t)
  have "tq_posted (tq s) (posted s)" using reach_inv [OF post.hyps(1)] by (simp add: sys_inv_def)
  then show ?case
    using tq_posted_post(3) [OF _ post.hyps(2,3)] by (intro wait_ok_step [OF post.IH, of _ t]) auto
next
  case (delayed s t delay q)
  have "tq_posted (tq s) (posted s)" using reach_inv [OF delayed.hyps(1)] by (simp add: sys_inv_def)
  then show ?case
    using tq_posted_delayed(3) [OF _ delayed.hyps(2-5)] by (intro wait_ok_step [OF delayed.IH, of _ t]) auto
next
  case (cancel s t q r)
  then show ?case by (intro wait_ok_remove) (auto simp: cancelTask_def)
next
  case (quit s)
  then show ?case using wait_ok_step [of s "(tq s)\<lparr>mQuit := True\<rparr>" 0 "[]"] by (simp add: subset_insertI)
next
  case (pop_none s tick q r)
  then show ?case
    using pop_none_empty [OF reach_inv [OF pop_none.hyps(1)] pop_none.hyps(2-5)] by (simp add: wait_ok_def)
next
  case (wait s us)
  then show ?case by (simp add: wait_ok_def)
qed (simp_all add: wait_ok_def)


section \<open>Properties\<close>

text \<open>
  The task that \<open>popNextTask\<close> returns. Of a well-formed queue it takes the delayed task that was due
  first, if its time has come, unless a task posted before it is pending; otherwise the first pending
  task. It takes nothing else. When there is no task it says how long to sleep: until the first
  delayed task is due, rounded up to a millisecond, or for ever.
\<close>

theorem popNextTask_spec:
  assumes "tq_ok q" "in_time tick"
  shows "\<exists>q' r. popNextTask tick q = Some (q', r) \<and> finalTask r = mQuit q \<and>
    (if mQuit q then q' = q
     else case next_task tick q of
       Some (i, t, due) \<Rightarrow> q' = remove_id i q \<and> runTask r = t
     | None \<Rightarrow> q' = q \<and> runTask r = 0 \<and>
         (case mDelayedTasks q of
            [] \<Rightarrow> sleepTime r = PlusInfinityVal
          | d # _ \<Rightarrow> fst d - tick \<le> sleepTime r \<and> sleepTime r < fst d - tick + 1000))"
  by (rule popNextTask_correct [OF assms])

theorem popNextTask_spec_witness:
  "\<exists>q' r. popNextTask 5000 \<lparr>mQuit = False, mTaskIdCounter = 3, mPendingTasks = [(2, 20)],
       mDelayedTasks = [(4000, 1, 10), (4500, 3, 30)]\<rparr> = Some (q', r) \<and> runTask r = 10 \<and> mDelayedTasks q' = [(4500, 3, 30)]"
  using popNextTask_spec [of "\<lparr>mQuit = False, mTaskIdCounter = 3, mPendingTasks = [(2, 20)],
       mDelayedTasks = [(4000, 1, 10), (4500, 3, 30)]\<rparr>" 5000]
  by (auto simp: tq_ok_def in_time_def pending_less_def delayed_less_def next_task_def remove_id_def)

text \<open>
  C18: the history of a queue and its thread, under every interleaving of posting, cancelling, quitting and
  the thread. Every post is in exactly one place: started, in the queue, or cancelled or dropped at the end;
  so a task runs at most once per post, and never after it was cancelled. A delayed task does not start
  before it is due. Tasks without a delay start in the order in which they were posted. The thread
  runs the task it started last. Its next step is always possible: a task is found or not, without overflow.
\<close>

theorem task_queue_history:
  assumes "reach s"
  shows "mset (map fst (started s)) + ids (tq s) + gone s = mset [1..<Suc (length (posted s))] \<and>
    (\<forall>(i, tick) \<in> set (started s). \<forall>due. snd (posted s ! (i - 1)) = Some due \<longrightarrow> due \<le> tick) \<and>
    sorted_wrt (<) (filter (\<lambda>i. snd (posted s ! (i - 1)) = None) (map fst (started s))) \<and>
    (\<forall>t. pc s = Running t \<longrightarrow> started s \<noteq> [] \<and> fst (posted s ! (fst (last (started s)) - 1)) = t) \<and>
    (\<forall>tick. pc s = Popping tick \<longrightarrow> (\<exists>q r. popNextTask tick (tq s) = Some (q, r) \<and>
       (finalTask r \<or> runTask r = 0 \<or> (\<exists>i. ids (tq s) - ids q = {#i#}))))"
proof -
  have inv: "tq_posted (tq s) (posted s)" "history_ok s" "pc_ok s" "sys_inv s"
    using reach_inv [OF assms] by (simp_all add: sys_inv_def)
  have "\<exists>q r. popNextTask tick (tq s) = Some (q, r) \<and> (finalTask r \<or> runTask r = 0 \<or> (\<exists>i. ids (tq s) - ids q = {#i#}))"
    if pc: "pc s = Popping tick" for tick
  proof -
    obtain q r where p: "popNextTask tick (tq s) = Some (q, r)"
      using popNextTask_correct [of "tq s" tick] inv pc by (auto simp: tq_posted_def pc_ok_def)
    have "\<exists>i. ids (tq s) - ids q = {#i#}" if r: "\<not> finalTask r" "runTask r \<noteq> 0"
    proof -
      obtain j due where j: "next_task tick (tq s) = Some (j, runTask r, due)" "q = remove_id j (tq s)"
        using sys_inv_pop(3) [OF inv(4) pc p r] by blast
      then show ?thesis
        using ids_remove_id [OF _ history_start(1) [OF inv(2,1) j(1)]] inv(1) by (simp add: tq_posted_def)
    qed
    then show ?thesis using p by (intro exI [of _ q] exI [of _ r]) auto
  qed
  then show ?thesis using inv(2,3) by (auto simp: history_ok_def due_of_def pc_ok_def)
qed

theorem task_queue_history_witness:
  "\<exists>s :: task_system. posted s = [(7, None)] \<and> started s = [] \<and> mset (map fst (started s)) + ids (tq s) + gone s = {#1#}"
proof -
  define s where "s = notify ((system_new 0)\<lparr>tq := postTask 7 (tq (system_new 0)), posted := posted (system_new 0) @ [(7, None)]\<rparr>)"
  have "reach s"
    unfolding s_def by (rule reach.post [OF reach.create]) (simp_all add: in_time_def system_new_def)
  from task_queue_history [OF this]
  have "mset (map fst (started s)) + ids (tq s) + gone s = mset [1..<Suc (length (posted s))]" by blast
  moreover have "posted s = [(7, None)]" "started s = []" by (simp_all add: s_def system_new_def)
  ultimately show ?thesis by (intro exI [of _ s]) simp
qed

text \<open>
  C19: what a notification does not reach. A task that is posted, or a quit that is requested, between
  \<open>popNextTask\<close> and the wait notifies nobody, in any state in which the thread has found nothing and does not
  wait yet: the thread then waits, not notified, with the task in the queue or with the quit pending, until the
  deadline it computed from what it saw before. These are the only tasks that can be overlooked:
  when a thread waits and was not notified since, every pending task was posted between its last \<open>popNextTask\<close> and the
  beginning of the wait, and the deadline is at most a second ahead, after which the thread looks again.
\<close>

theorem task_queue_lost_wakeup:
  assumes "reach s"
  shows "(\<forall>us t. pc s = Sleeping us \<and> t \<noteq> 0 \<and> length (posted s) < 2 ^ 64 - 1 \<longrightarrow>
      (\<exists>s'. reach s' \<and> posted s' = posted s @ [(t, None)] \<and> clock_now s' = clock_now s \<and>
         (length (posted s'), t) \<in> set (mPendingTasks (tq s')) \<and>
         pc s' = Waiting (clock_now s + min us 1000000) \<and> \<not> notified s')) \<and>
    (\<forall>us. pc s = Sleeping us \<longrightarrow>
      (\<exists>s'. reach s' \<and> mQuit (tq s') \<and> clock_now s' = clock_now s \<and>
         pc s' = Waiting (clock_now s + min us 1000000) \<and> \<not> notified s')) \<and>
    (\<forall>d. pc s = Waiting d \<and> \<not> notified s \<longrightarrow> d \<le> clock_now s + 1000000 \<and>
       (\<forall>(i, t) \<in> set (mPendingTasks (tq s)). seen s < i \<and> i \<le> waited s))"
proof (intro conjI allI impI)
  fix us and t :: task assume a: "pc s = Sleeping us \<and> t \<noteq> 0 \<and> length (posted s) < 2 ^ 64 - 1"
  let ?s = "notify (s\<lparr>tq := postTask t (tq s), posted := posted s @ [(t, None)]\<rparr>)"
  let ?w = "?s\<lparr>pc := Waiting (clock_now ?s + min us 1000000), notified := False, waited := length (posted ?s)\<rparr>"
  have "reach ?s" using assms a by (intro reach.post) simp_all
  then have "reach ?w" by (rule reach.wait) (simp add: a)
  moreover have "tq_posted (tq s) (posted s)" using reach_inv [OF assms] by (simp add: sys_inv_def)
  then have "mPendingTasks (postTask t (tq s)) = mPendingTasks (tq s) @ [(Suc (length (posted s)), t)]"
    using a by (intro tq_posted_post(3)) simp_all
  ultimately show "\<exists>s'. reach s' \<and> posted s' = posted s @ [(t, None)] \<and> clock_now s' = clock_now s \<and>
      (length (posted s'), t) \<in> set (mPendingTasks (tq s')) \<and> pc s' = Waiting (clock_now s + min us 1000000) \<and> \<not> notified s'"
    by (intro exI [of _ ?w]) simp
next
  fix us assume a: "pc s = Sleeping us"
  let ?s = "notify (s\<lparr>tq := (tq s)\<lparr>mQuit := True\<rparr>\<rparr>)"
  let ?w = "?s\<lparr>pc := Waiting (clock_now ?s + min us 1000000), notified := False, waited := length (posted ?s)\<rparr>"
  have "reach ?s" using assms by (rule reach.quit)
  then have "reach ?w" by (rule reach.wait) (simp add: a)
  then show "\<exists>s'. reach s' \<and> mQuit (tq s') \<and> clock_now s' = clock_now s \<and>
      pc s' = Waiting (clock_now s + min us 1000000) \<and> \<not> notified s'"
    by (intro exI [of _ ?w]) simp
next
  fix d assume a: "pc s = Waiting d \<and> \<not> notified s"
  have inv: "tq_posted (tq s) (posted s)" "pc_ok s" "wait_ok s"
    using reach_inv [OF assms] reach_wait [OF assms] by (simp_all add: sys_inv_def)
  then show "d \<le> clock_now s + 1000000" using a by (simp add: pc_ok_def)
  show "\<forall>(i, t) \<in> set (mPendingTasks (tq s)). seen s < i \<and> i \<le> waited s"
    using a inv by (auto simp: wait_ok_def tq_posted_def)
qed

text \<open>A thread that found an empty queue, and a task posted before it waits.\<close>

theorem task_queue_lost_wakeup_witness:
  "\<exists>s. reach s \<and> pc s = Waiting 1000000 \<and> \<not> notified s \<and> (1, 7) \<in> set (mPendingTasks (tq s))"
proof -
  define s1 where "s1 = (system_new 0)\<lparr>pc := Popping (clock_now (system_new 0))\<rparr>"
  define r where "r = \<lparr>finalTask = False, runTask = 0, sleepTime = PlusInfinityVal\<rparr>"
  define s2 where "s2 = s1\<lparr>tq := tq s1, pc := Sleeping (sleepTime r), seen := length (posted s1)\<rparr>"
  note defs = s1_def s2_def r_def system_new_def task_queue_new_def
  have "reach (system_new 0)" by (rule reach.create) (simp add: in_time_def)
  then have r1: "reach s1" unfolding s1_def by (rule reach.read_clock) (simp add: system_new_def)
  have "reach s2"
    unfolding s2_def by (rule reach.pop_none [OF r1, of 0]) (simp_all add: popNextTask_def pop_pending_def defs)
  from task_queue_lost_wakeup [OF this, THEN conjunct1, rule_format, of PlusInfinityVal 7]
  obtain s' where "reach s'" "posted s' = [(7, None)]" "(length (posted s'), 7) \<in> set (mPendingTasks (tq s'))"
    "pc s' = Waiting (min PlusInfinityVal 1000000)" "\<not> notified s'"
    by (auto simp: defs)
  then show ?thesis by (intro exI [of _ s']) (simp add: infinity_defs)
qed

end
