(* ===== verification/RepeatingTask.thy ===== *)
theory RepeatingTask
  imports TaskQueueThread
begin

text \<open>
  \<open>RepeatingTaskClosure\<close> and \<open>RepeatingTaskHandle\<close> of \<open>src/libs/core/source/thread/octk_repeating_task.cpp\<close>,
  and the \<open>SafetyFlag\<close> of \<open>octk_task_queue.cpp\<close> that stops them. The closure of the application is a
  parameter: what it returns and whether it stopped the task. \<open>now\<close> is a reading of the clock.
\<close>

section \<open>The repeating task\<close>

text \<open>\<open>mAlive\<close> is the flag that task and handle share; \<open>mHandle\<close> says that the handle still refers to it.\<close>

record repeating_task =
  mNextRunTime :: int
  mAlive :: bool
  mHandle :: bool

definition setNotAlive :: "repeating_task \<Rightarrow> repeating_task" where
  "setNotAlive c = c\<lparr>mAlive := False\<rparr>"

definition setAlive :: "repeating_task \<Rightarrow> repeating_task" where
  "setAlive c = c\<lparr>mAlive := True\<rparr>"

definition isAlive :: "repeating_task \<Rightarrow> bool" where
  "isAlive c = mAlive c"

definition RepeatingTaskClosure :: "int \<Rightarrow> int \<Rightarrow> repeating_task option" where
  "RepeatingTaskClosure now firstDelay = do {
     next \<leftarrow> Timestamp_add now firstDelay;
     Some \<lparr>mNextRunTime = next, mAlive = True, mHandle = True\<rparr>
   }"

text \<open>
  One run: \<open>delay\<close> is what the closure returned, \<open>stopped\<close> whether it called \<open>stop\<close>. The result is the delay with
  which the task posts itself again, if it does.
\<close>

definition run_closure :: "int \<Rightarrow> int \<Rightarrow> bool \<Rightarrow> repeating_task \<Rightarrow> (repeating_task \<times> int option) option" where
  "run_closure now delay stopped c =
     (if \<not> isAlive c then Some (c, None)
      else do {
        let c = (if stopped then setNotAlive c else c);
        dcheck (0 \<le> delay);
        if IsPlusInfinity delay \<or> \<not> isAlive c then Some (c, None)
        else do {
          lost_time \<leftarrow> Timestamp_diff now (mNextRunTime c);
          next \<leftarrow> Timestamp_add (mNextRunTime c) delay;
          delay \<leftarrow> unit_sub False delay lost_time;
          Some (c\<lparr>mNextRunTime := next\<rparr>, Some (max delay 0))
        }
      })"

definition RepeatingTaskHandle_start :: "int \<Rightarrow> task \<Rightarrow> task_queue \<Rightarrow> (task_queue \<times> repeating_task) option" where
  "RepeatingTaskHandle_start now t q = do {
     c \<leftarrow> RepeatingTaskClosure now 0;
     Some (postTask t q, c)
   }"

definition RepeatingTaskHandle_delayedStart :: "int \<Rightarrow> int \<Rightarrow> task \<Rightarrow> task_queue \<Rightarrow> (task_queue \<times> repeating_task) option" where
  "RepeatingTaskHandle_delayedStart now firstDelay t q = do {
     c \<leftarrow> RepeatingTaskClosure now firstDelay;
     q \<leftarrow> postDelayedTask now t firstDelay q;
     Some (q, c)
   }"

definition stop :: "repeating_task \<Rightarrow> repeating_task" where
  "stop c = (if mHandle c then (setNotAlive c)\<lparr>mHandle := False\<rparr> else c)"

definition isRunning :: "repeating_task \<Rightarrow> bool" where
  "isRunning c = mHandle c"

text \<open>A sequence of runs, each with its clock reading and the delay its closure returned.\<close>

fun run_all :: "(int \<times> int) list \<Rightarrow> repeating_task \<Rightarrow> (repeating_task \<times> int list) option" where
  "run_all [] c = Some (c, [])"
| "run_all ((now, delay) # rs) c = do {
     (c, d) \<leftarrow> run_closure now delay False c;
     d \<leftarrow> d;
     (c, ds) \<leftarrow> run_all rs c;
     Some (c, (now + d) # ds)
   }"


section \<open>Properties\<close>

definition small :: "int \<Rightarrow> bool" where
  "small t \<longleftrightarrow> 0 \<le> t \<and> t \<le> 2 ^ 60"

lemma run_closure_alive:
  assumes "isAlive c" "small now" "0 \<le> mNextRunTime c" "0 \<le> delay" "small (mNextRunTime c + delay)"
  shows "run_closure now delay False c =
    Some (c\<lparr>mNextRunTime := mNextRunTime c + delay\<rparr>, Some (max 0 (mNextRunTime c + delay - now)))"
proof -
  define n where "n = mNextRunTime c"
  have b: "0 \<le> now" "now \<le> 1152921504606846976" "0 \<le> n" "0 \<le> delay" "n + delay \<le> 1152921504606846976"
    using assms by (simp_all add: small_def n_def)
  have fin: "\<not> IsPlusInfinity x" "\<not> IsMinusInfinity x" if "\<bar>x\<bar> \<le> 4611686018427387904" for x
    using that by (auto simp: IsPlusInfinity_def IsMinusInfinity_def infinity_defs)
  have fv: "int64 x \<bind> FromValue os = Some x" if "\<bar>x\<bar> \<le> 4611686018427387904" "os \<longrightarrow> 0 \<le> x" for x os
  proof -
    have "in_int64 x" "MinusInfinityVal < x" "x < PlusInfinityVal"
      using that(1) by (auto simp: in_int64_def infinity_defs)
    then show ?thesis using that(2) by (simp add: FromValue_def)
  qed
  have "Timestamp_diff now n = Some (now - n)"
    using b fv [of "now - n" False] by (simp add: Timestamp_diff_def TimeDelta_Micros_def [abs_def] fin)
  moreover have "Timestamp_add n delay = Some (n + delay)"
    using b fv [of "n + delay" True] by (simp add: Timestamp_add_def Timestamp_Micros_def [abs_def] fin)
  moreover have "unit_sub False delay (now - n) = Some (delay - (now - n))"
    using b fv [of "delay - (now - n)" False] by (simp add: unit_sub_def fin)
  ultimately show ?thesis
    using assms(1,4) b fin [of delay] by (simp add: run_closure_def n_def algebra_simps max.commute)
qed

lemma run_all_times:
  assumes "isAlive c" "0 \<le> mNextRunTime c" "\<forall>(now, delay) \<in> set rs. small now \<and> 0 \<le> delay"
    and "small (mNextRunTime c + sum_list (map snd rs))"
  shows "\<exists>c' ds. run_all rs c = Some (c', ds) \<and> length ds = length rs \<and>
    mNextRunTime c' = mNextRunTime c + sum_list (map snd rs) \<and>
    (\<forall>k < length rs. ds ! k = max (fst (rs ! k)) (mNextRunTime c + sum_list (map snd (take (Suc k) rs))))"
  using assms
proof (induction rs arbitrary: c)
  case (Cons r rs)
  obtain now delay where r: "r = (now, delay)" by (cases r)
  have nn: "0 \<le> sum_list (map snd rs)" using Cons.prems(3) by (intro sum_list_nonneg) auto
  have b: "small now" "0 \<le> delay" "small (mNextRunTime c + delay)"
    using Cons.prems r nn by (auto simp: small_def)
  let ?c = "c\<lparr>mNextRunTime := mNextRunTime c + delay\<rparr>"
  have step: "run_closure now delay False c = Some (?c, Some (max 0 (mNextRunTime c + delay - now)))"
    by (rule run_closure_alive [OF Cons.prems(1) b(1) Cons.prems(2) b(2,3)])
  have pre: "isAlive ?c" "0 \<le> mNextRunTime ?c" "\<forall>(now, delay) \<in> set rs. small now \<and> 0 \<le> delay"
    "small (mNextRunTime ?c + sum_list (map snd rs))"
    using Cons.prems r b(2) by (simp_all add: isAlive_def add.assoc)
  obtain c' ds where ds: "run_all rs ?c = Some (c', ds)" "length ds = length rs"
      "mNextRunTime c' = mNextRunTime c + delay + sum_list (map snd rs)"
      "\<forall>k < length rs. ds ! k = max (fst (rs ! k)) (mNextRunTime c + delay + sum_list (map snd (take (Suc k) rs)))"
    using Cons.IH [OF pre] by auto
  have "((now + max 0 (mNextRunTime c + delay - now)) # ds) ! k =
      max (fst ((r # rs) ! k)) (mNextRunTime c + sum_list (map snd (take (Suc k) (r # rs))))" if "k < length (r # rs)" for k
    using that ds(4) r by (cases k) (auto simp: add.assoc)
  then show ?case using r step ds by (simp add: add.assoc)
qed simp

text \<open>
  A repeating task does not drift. Whenever its runs really happen and however long they take, the \<open>k\<close>-th
  run after the first asks to be run at the start time plus the sum of the delays so far, or at once if
  that time has passed; nothing overflows. After \<open>stop\<close> the closure is not called again and nothing is
  posted.
\<close>

theorem repeating_task_no_drift:
  assumes "RepeatingTaskClosure t0 firstDelay = Some c" "small t0" "0 \<le> firstDelay"
    and "\<forall>(now, delay) \<in> set rs. small now \<and> 0 \<le> delay" "small (t0 + firstDelay + sum_list (map snd rs))"
  shows "(\<exists>c' ds. run_all rs c = Some (c', ds) \<and> length ds = length rs \<and>
      (\<forall>k < length rs. ds ! k = max (fst (rs ! k)) (t0 + firstDelay + sum_list (map snd (take (Suc k) rs))))) \<and>
    run_closure now delay stopped (stop c) = Some (stop c, None)"
proof
  have nn: "0 \<le> sum_list (map snd rs)" using assms(4) by (intro sum_list_nonneg) auto
  have c: "mNextRunTime c = t0 + firstDelay" "isAlive c" "mHandle c"
  proof -
    have "\<not> IsPlusInfinity t0" "\<not> IsMinusInfinity t0" "\<not> IsPlusInfinity firstDelay" "\<not> IsMinusInfinity firstDelay"
      using assms(2,3,5) nn by (auto simp: IsPlusInfinity_def IsMinusInfinity_def infinity_defs small_def)
    moreover have "cast_int64 (t0 + firstDelay) = t0 + firstDelay"
      using assms(2,3,5) nn by (intro cast_int64_id) (auto simp: in_int64_def int_range_defs small_def)
    ultimately show "mNextRunTime c = t0 + firstDelay" "isAlive c" "mHandle c"
      using assms(1) by (auto simp: RepeatingTaskClosure_def Timestamp_add_def Timestamp_Micros_def FromValue_def isAlive_def
          Option.bind_eq_Some_conv int64_eq_Some_iff)
  qed
  then show "\<exists>c' ds. run_all rs c = Some (c', ds) \<and> length ds = length rs \<and>
      (\<forall>k < length rs. ds ! k = max (fst (rs ! k)) (t0 + firstDelay + sum_list (map snd (take (Suc k) rs))))"
    using run_all_times [of c rs] assms(2,3,4,5) by (auto simp: small_def)
  show "run_closure now delay stopped (stop c) = Some (stop c, None)"
    using c(3) by (simp add: run_closure_def stop_def setNotAlive_def isAlive_def)
qed

theorem repeating_task_no_drift_witness:
  "\<exists>c' ds. run_all [(130, 100), (290, 100)] \<lparr>mNextRunTime = 100, mAlive = True, mHandle = True\<rparr> = Some (c', ds) \<and> length ds = 2"
proof -
  have "RepeatingTaskClosure 100 0 = Some \<lparr>mNextRunTime = 100, mAlive = True, mHandle = True\<rparr>"
    by (simp add: RepeatingTaskClosure_def Timestamp_add_def Timestamp_Micros_def FromValue_def IsPlusInfinity_def IsMinusInfinity_def
        infinity_defs in_int64_def)
  from repeating_task_no_drift [OF this, of "[(130, 100), (290, 100)]" 0 0 False]
  have "\<exists>c' ds. run_all [(130, 100), (290, 100)] \<lparr>mNextRunTime = 100, mAlive = True, mHandle = True\<rparr> = Some (c', ds) \<and>
      length ds = length [(130, 100), (290, 100 :: int)]"
    unfolding small_def by auto
  then show ?thesis by (simp add: numeral_2_eq_2)
qed

end
