(* ===== verification/ThreadPool.thy ===== *)
theory ThreadPool
  imports Octk_Prelude OrderedSet
begin

text \<open>
  \<open>ThreadPool\<close> of \<open>src/libs/core/source/thread/octk_thread_pool.cpp\<close> and \<open>octk_thread_pool_p.hpp\<close>: tasks with
  priorities, run by threads that are started as needed, wait for work, and expire.

  A task is a pointer, a natural number with 0 for \<open>nullptr\<close>. A thread object is a number too, its position
  in the list of all thread objects ever created. The public methods hold the mutex of the pool and are
  one step each. A thread of the pool runs from one place where it does not hold the mutex to the next:
  from its start, from the end of a task, or from the end of a wait on its condition variable, which
  may end at any time, by a notification, a timeout or spuriously. The exit flag of a thread is
  read once in such a section. A failed assertion is \<^term>\<open>None\<close>. The counts of threads are unbounded integers.
  Exceptions thrown by a task are not modelled.
\<close>

section \<open>The queue of tasks\<close>

type_synonym task = nat
type_synonym thread = nat

text \<open>Priority, sequence number and task.\<close>

type_synonym pool_item = "int \<times> nat \<times> task"

definition item_less :: "pool_item \<Rightarrow> pool_item \<Rightarrow> bool" where
  "item_less a b \<longleftrightarrow> fst b < fst a \<or> fst a = fst b \<and> fst (snd a) < fst (snd b)"

text \<open>Where a thread is: about to enter its loop, running a task, waiting, or at the end.\<close>

datatype location = Entering | Busy task | Idle | Ended

record worker_thread =
  mTask :: task
  mExit :: bool
  loc :: location

record thread_pool =
  mTasks :: "pool_item list"
  mIdCounter :: nat
  mWaitingThreads :: "thread list"
  mExpiredThreads :: "thread list"
  mAllThreads :: "thread list"
  mTasksCompletedCount :: nat
  mTasksDispatchedCount :: nat
  mExpiryTimeout :: int
  mActiveThreadCount :: int
  mReservedThreadCount :: int
  mMaxThreadCount :: int
  workers :: "worker_thread list"

definition ThreadPool_new :: "int \<Rightarrow> thread_pool" where
  "ThreadPool_new idealThreadCount = \<lparr>mTasks = [], mIdCounter = 0, mWaitingThreads = [], mExpiredThreads = [],
     mAllThreads = [], mTasksCompletedCount = 0, mTasksDispatchedCount = 0, mExpiryTimeout = 30000,
     mActiveThreadCount = 0, mReservedThreadCount = 0, mMaxThreadCount = idealThreadCount, workers = []\<rparr>"

definition queue_push :: "task \<Rightarrow> int \<Rightarrow> thread_pool \<Rightarrow> thread_pool" where
  "queue_push t priority p =
     p\<lparr>mTasks := set_insert item_less (priority, mIdCounter p, t) (mTasks p), mIdCounter := add64 (mIdCounter p) 1\<rparr>"

definition queue_first :: "thread_pool \<Rightarrow> task" where
  "queue_first p = (case mTasks p of [] \<Rightarrow> 0 | i # _ \<Rightarrow> snd (snd i))"

definition queue_pop :: "thread_pool \<Rightarrow> thread_pool \<times> task" where
  "queue_pop p = (if queue_first p \<noteq> 0 then (p\<lparr>mTasks := tl (mTasks p)\<rparr>, queue_first p) else (p, 0))"

definition queue_cancel :: "task \<Rightarrow> thread_pool \<Rightarrow> thread_pool \<times> bool" where
  "queue_cancel t p =
     (p\<lparr>mTasks := filter (\<lambda>i. snd (snd i) \<noteq> t) (mTasks p)\<rparr>, \<exists>i \<in> set (mTasks p). snd (snd i) = t)"


section \<open>Starting threads\<close>

definition activeThreadCount :: "thread_pool \<Rightarrow> int" where
  "activeThreadCount p = int (length (mAllThreads p)) - int (length (mExpiredThreads p)) - int (length (mWaitingThreads p)) +
     mReservedThreadCount p"

definition isTooManyThreadsActive :: "thread_pool \<Rightarrow> bool" where
  "isTooManyThreadsActive p \<longleftrightarrow> mMaxThreadCount p < activeThreadCount p \<and> 1 < activeThreadCount p - mReservedThreadCount p"

definition isDone :: "thread_pool \<Rightarrow> bool" where
  "isDone p \<longleftrightarrow> mTasks p = [] \<and> mActiveThreadCount p = 0"

definition enqueueTask :: "task \<Rightarrow> int \<Rightarrow> thread_pool \<Rightarrow> thread_pool option" where
  "enqueueTask t priority p = do { dcheck (t \<noteq> 0); Some (queue_push t priority p) }"

text \<open>The object behind a thread pointer.\<close>

definition worker :: "thread_pool \<Rightarrow> thread \<Rightarrow> worker_thread option" where
  "worker p w = (if w < length (workers p) then Some (workers p ! w) else None)"

definition set_worker :: "thread \<Rightarrow> worker_thread \<Rightarrow> thread_pool \<Rightarrow> thread_pool" where
  "set_worker w u p = p\<lparr>workers := (workers p)[w := u]\<rparr>"

definition setTask :: "thread \<Rightarrow> task \<Rightarrow> thread_pool \<Rightarrow> thread_pool option" where
  "setTask w t p = do { u \<leftarrow> worker p w; dcheck (mTask u = 0); Some (set_worker w (u\<lparr>mTask := t\<rparr>) p) }"

definition thread_start :: "thread \<Rightarrow> thread_pool \<Rightarrow> thread_pool option" where
  "thread_start w p = do { u \<leftarrow> worker p w; dcheck (loc u = Ended); Some (set_worker w (u\<lparr>loc := Entering\<rparr>) p) }"

text \<open>A new thread object has no task and its exit flag is set.\<close>

definition startThread :: "task \<Rightarrow> thread_pool \<Rightarrow> thread_pool option" where
  "startThread t p = do {
     dcheck (t \<noteq> 0);
     let w = length (workers p);
     let p = p\<lparr>workers := workers p @ [\<lparr>mTask = 0, mExit = True, loc = Ended\<rparr>]\<rparr>;
     dcheck (w \<notin> set (mAllThreads p));
     let p = p\<lparr>mAllThreads := w # mAllThreads p, mActiveThreadCount := mActiveThreadCount p + 1\<rparr>;
     p \<leftarrow> setTask w t p;
     thread_start w p
   }"

definition tryStart :: "task \<Rightarrow> thread_pool \<Rightarrow> (thread_pool \<times> bool) option" where
  "tryStart t p = do {
     dcheck (t \<noteq> 0);
     if mAllThreads p = [] then do { p \<leftarrow> startThread t p; Some (p, True) }
     else if mMaxThreadCount p \<le> activeThreadCount p then Some (p, False)
     else case mWaitingThreads p of
       w # ws \<Rightarrow> do {
         p \<leftarrow> enqueueTask t 127 p;
         u \<leftarrow> worker p w;
         dcheck (mTask u = 0);
         Some (p\<lparr>mWaitingThreads := ws\<rparr>, True)
       }
     | [] \<Rightarrow> (case mExpiredThreads p of
         w # es \<Rightarrow> do {
           u \<leftarrow> worker p w;
           dcheck (mTask u = 0);
           p \<leftarrow> setTask w t (p\<lparr>mExpiredThreads := es, mActiveThreadCount := mActiveThreadCount p + 1\<rparr>);
           p \<leftarrow> thread_start w p;
           Some (p, True)
         }
       | [] \<Rightarrow> do { p \<leftarrow> startThread t p; Some (p, True) })
   }"

partial_function (option) tryToStartMoreThreads :: "thread_pool \<Rightarrow> thread_pool option" where
  "tryToStartMoreThreads p =
     (if mTasks p = [] then Some p
      else if queue_first p \<noteq> 0 then do {
        (p', started) \<leftarrow> tryStart (queue_first p) p;
        if started then tryToStartMoreThreads (fst (queue_pop p')) else Some p'
      }
      else tryToStartMoreThreads p)"


section \<open>The public methods\<close>

definition start :: "task \<Rightarrow> int \<Rightarrow> thread_pool \<Rightarrow> thread_pool option" where
  "start t priority p =
     (if t = 0 then Some p
      else do {
        (p, started) \<leftarrow> tryStart t p;
        if started then Some p
        else case mWaitingThreads p of
          w # ws \<Rightarrow> do { u \<leftarrow> worker p w; dcheck (mTask u = 0); setTask w t (p\<lparr>mWaitingThreads := ws\<rparr>) }
        | [] \<Rightarrow> enqueueTask t priority p
      })"

definition tryStartNow :: "task \<Rightarrow> thread_pool \<Rightarrow> (thread_pool \<times> bool) option" where
  "tryStartNow t p =
     (if t = 0 then Some (p, False)
      else if mAllThreads p \<noteq> [] \<and> mMaxThreadCount p \<le> activeThreadCount p then Some (p, False)
      else tryStart t p)"

definition setMaxThreadCount :: "int \<Rightarrow> thread_pool \<Rightarrow> thread_pool option" where
  "setMaxThreadCount n p =
     (if n \<noteq> mMaxThreadCount p then tryToStartMoreThreads (p\<lparr>mMaxThreadCount := n\<rparr>) else Some p)"

definition setExpiryTimeout :: "int \<Rightarrow> thread_pool \<Rightarrow> thread_pool" where
  "setExpiryTimeout msecs p = p\<lparr>mExpiryTimeout := msecs\<rparr>"

definition cancel :: "task \<Rightarrow> thread_pool \<Rightarrow> thread_pool \<times> bool" where
  "cancel t p = (if t = 0 then (p, False) else queue_cancel t p)"

definition clear :: "thread_pool \<Rightarrow> thread_pool" where
  "clear p = p\<lparr>mTasks := []\<rparr>"

definition reserveThread :: "thread_pool \<Rightarrow> thread_pool" where
  "reserveThread p = p\<lparr>mReservedThreadCount := mReservedThreadCount p + 1\<rparr>"

definition releaseThread :: "thread_pool \<Rightarrow> thread_pool option" where
  "releaseThread p = tryToStartMoreThreads (p\<lparr>mReservedThreadCount := mReservedThreadCount p - 1\<rparr>)"

text \<open>\<open>reset\<close> up to the unlocking of the mutex. The threads it then wakes, tells to exit and joins are those not in the pool any more.\<close>

definition reset :: "thread_pool \<Rightarrow> thread_pool" where
  "reset p = p\<lparr>mAllThreads := [], mExpiredThreads := [], mWaitingThreads := []\<rparr>"

definition exitWait :: "thread \<Rightarrow> thread_pool \<Rightarrow> thread_pool option" where
  "exitWait w p = do { u \<leftarrow> worker p w; Some (set_worker w (u\<lparr>mExit := True\<rparr>) p) }"


section \<open>The loop of a thread\<close>

definition registerThreadInactive :: "thread_pool \<Rightarrow> thread_pool option" where
  "registerThreadInactive p = do {
     dcheck (0 < mActiveThreadCount p);
     Some (p\<lparr>mActiveThreadCount := mActiveThreadCount p - 1\<rparr>)
   }"

definition run_end :: "thread \<Rightarrow> thread_pool \<Rightarrow> thread_pool option" where
  "run_end w p = do { u \<leftarrow> worker p w; Some (set_worker w (u\<lparr>loc := Ended\<rparr>) p) }"

definition run_expire :: "thread \<Rightarrow> thread_pool \<Rightarrow> thread_pool option" where
  "run_expire w p = do {
     p \<leftarrow> registerThreadInactive (p\<lparr>mExpiredThreads := mExpiredThreads p @ [w]\<rparr>);
     run_end w p
   }"

definition run_task :: "thread \<Rightarrow> task \<Rightarrow> thread_pool \<Rightarrow> thread_pool option" where
  "run_task w t p = do {
     u \<leftarrow> worker p w;
     Some (set_worker w (u\<lparr>loc := Busy t\<rparr>) (p\<lparr>mTasksDispatchedCount := add64 (mTasksDispatchedCount p) 1\<rparr>))
   }"

definition run_idle :: "thread \<Rightarrow> thread_pool \<Rightarrow> thread_pool option" where
  "run_idle w p = do {
     u \<leftarrow> worker p w;
     if isTooManyThreadsActive p \<or> mExit u then run_expire w p
     else do {
       dcheck (mTask u = 0);
       p \<leftarrow> registerThreadInactive (p\<lparr>mWaitingThreads := mWaitingThreads p @ [w]\<rparr>);
       Some (set_worker w (u\<lparr>loc := Idle\<rparr>) p)
     }
   }"

definition run_fetch :: "thread \<Rightarrow> thread_pool \<Rightarrow> thread_pool option" where
  "run_fetch w p = do {
     u \<leftarrow> worker p w;
     if isTooManyThreadsActive p then run_idle w p
     else do {
       let (p, t) = queue_pop p;
       if t = 0 \<or> mExit u then run_idle w p else run_task w t p
     }
   }"

definition run_loop :: "thread \<Rightarrow> thread_pool \<Rightarrow> thread_pool option" where
  "run_loop w p = do {
     u \<leftarrow> worker p w;
     if mExit u then run_end w p
     else do {
       let p = set_worker w (u\<lparr>mTask := 0\<rparr>) p;
       if mTask u \<noteq> 0 then run_task w (mTask u) p else run_fetch w p
     }
   }"

text \<open>The three ways into the loop: the start of the thread, the end of a task, the end of a wait.\<close>

definition run_enter :: "thread \<Rightarrow> thread_pool \<Rightarrow> thread_pool option" where
  "run_enter w p = do { u \<leftarrow> worker p w; run_loop w (set_worker w (u\<lparr>mExit := False\<rparr>) p) }"

definition run_done :: "thread \<Rightarrow> thread_pool \<Rightarrow> thread_pool option" where
  "run_done w p = run_fetch w (p\<lparr>mTasksCompletedCount := add64 (mTasksCompletedCount p) 1\<rparr>)"

definition run_wake :: "thread \<Rightarrow> thread_pool \<Rightarrow> thread_pool option" where
  "run_wake w p = do {
     let p' = p\<lparr>mActiveThreadCount := mActiveThreadCount p + 1, mWaitingThreads := remove1 w (mWaitingThreads p)\<rparr>;
     if w \<notin> set (mAllThreads p) then do { p \<leftarrow> registerThreadInactive p'; run_end w p }
     else if w \<in> set (mWaitingThreads p) then run_expire w p'
     else run_loop w p'
   }"


section \<open>Well-formed pools\<close>

interpretation item: set_compare item_less
  by unfold_locales (auto simp: item_less_def)

definition is_active :: "worker_thread \<Rightarrow> bool" where
  "is_active u \<longleftrightarrow> (case loc u of Entering \<Rightarrow> True | Busy _ \<Rightarrow> True | _ \<Rightarrow> False)"

text \<open>What holds of a thread that is or is not in the pool, expired, and waiting.\<close>

definition thread_ok :: "bool \<Rightarrow> bool \<Rightarrow> bool \<Rightarrow> worker_thread \<Rightarrow> bool" where
  "thread_ok pooled expired waiting u \<longleftrightarrow>
     (case loc u of
        Entering \<Rightarrow> pooled \<and> mTask u \<noteq> 0
      | Busy t \<Rightarrow> pooled \<and> mTask u = 0 \<and> t \<noteq> 0 \<and> \<not> mExit u
      | Idle \<Rightarrow> pooled \<longrightarrow> \<not> mExit u
      | Ended \<Rightarrow> pooled \<longrightarrow> expired) \<and>
     (waiting \<longrightarrow> loc u = Idle \<and> mTask u = 0 \<and> pooled) \<and>
     (expired \<longrightarrow> loc u = Ended \<and> mTask u = 0 \<and> pooled)"

definition threads_ok :: "thread_pool \<Rightarrow> bool" where
  "threads_ok p \<longleftrightarrow> distinct (mAllThreads p) \<and> distinct (mWaitingThreads p) \<and> distinct (mExpiredThreads p) \<and>
     set (mAllThreads p) \<union> set (mWaitingThreads p) \<union> set (mExpiredThreads p) \<subseteq> {..<length (workers p)} \<and>
     mActiveThreadCount p = sum_list (map (\<lambda>u. of_bool (is_active u)) (workers p)) \<and>
     (\<forall>w < length (workers p).
        thread_ok (w \<in> set (mAllThreads p)) (w \<in> set (mExpiredThreads p)) (w \<in> set (mWaitingThreads p)) (workers p ! w))"

definition queue_ok :: "thread_pool \<Rightarrow> bool" where
  "queue_ok p \<longleftrightarrow> sorted_wrt item_less (mTasks p) \<and> mIdCounter p < 2 ^ 64 \<and>
     (\<forall>(priority, i, t) \<in> set (mTasks p). priority \<le> 127 \<and> i < mIdCounter p \<and> t \<noteq> 0)"

definition pool_inv :: "thread_pool \<Rightarrow> bool" where
  "pool_inv p \<longleftrightarrow> queue_ok p \<and> threads_ok p"

text \<open>
  Where accepted tasks are: in the queue, handed to a thread or being run by it. A pool holds those in its queue
  and with its threads. Tasks with thread objects that \<open>reset\<close> has taken out of the pool are abandoned: the pool has lost them.
  The sum of all is what the proofs carry along.
\<close>

definition tasks_of :: "worker_thread \<Rightarrow> task multiset" where
  "tasks_of u = (if mTask u = 0 then {#} else {#mTask u#}) + (case loc u of Busy t \<Rightarrow> {#t#} | _ \<Rightarrow> {#})"

definition queued :: "thread_pool \<Rightarrow> task multiset" where
  "queued p = mset (map (\<lambda>i. snd (snd i)) (mTasks p))"

definition carried :: "thread_pool \<Rightarrow> task multiset" where
  "carried p = queued p + sum_list (map tasks_of (workers p))"

definition held :: "thread_pool \<Rightarrow> task multiset" where
  "held p = queued p + sum_list (map (\<lambda>w. tasks_of (workers p ! w)) (mAllThreads p))"

definition task_mset :: "task \<Rightarrow> task multiset" where
  "task_mset t = (if t = 0 then {#} else {#t#})"

definition abandoned :: "thread_pool \<Rightarrow> task multiset" where
  "abandoned p = sum_list (map (\<lambda>w. if w \<in> set (mAllThreads p) then {#} else task_mset (mTask (workers p ! w))) [0..<length (workers p)])"

lemma sum_list_update_cancel:
  fixes f :: "'a \<Rightarrow> 'b :: cancel_comm_monoid_add"
  shows "k < length xs \<Longrightarrow> sum_list (map f (xs[k := x])) + f (xs ! k) = sum_list (map f xs) + f x"
proof (induction xs arbitrary: k)
  case (Cons y ys)
  then show ?case by (cases k) (auto simp: ac_simps)
qed simp

lemma threads_ok_update:
  assumes ok: "threads_ok p" and w: "w < length (workers p)"
    and d: "distinct wt'" "distinct ex'" "set wt' - {w} = set (mWaitingThreads p) - {w}" "set ex' - {w} = set (mExpiredThreads p) - {w}"
    and t: "thread_ok (w \<in> set (mAllThreads p)) (w \<in> set ex') (w \<in> set wt') u'"
    and n: "n + of_bool (is_active (workers p ! w)) = mActiveThreadCount p + of_bool (is_active u')"
  shows "threads_ok (p\<lparr>workers := (workers p)[w := u'], mWaitingThreads := wt', mExpiredThreads := ex', mActiveThreadCount := n\<rparr>)"
proof -
  have mem: "v \<in> set wt' \<longleftrightarrow> v \<in> set (mWaitingThreads p)" "v \<in> set ex' \<longleftrightarrow> v \<in> set (mExpiredThreads p)" if "v \<noteq> w" for v
    using d(3,4) that by blast+
  have "thread_ok (v \<in> set (mAllThreads p)) (v \<in> set ex') (v \<in> set wt') ((workers p)[w := u'] ! v)"
    if "v < length (workers p)" for v
    using ok t that mem [of v] by (cases "v = w") (simp_all add: threads_ok_def)
  moreover have "set wt' \<union> set ex' \<subseteq> {..<length (workers p)}"
    using ok d(3,4) w by (auto simp: threads_ok_def)
  moreover have "n = sum_list (map (\<lambda>u. of_bool (is_active u)) ((workers p)[w := u']))"
    using ok n sum_list_update_cancel [OF w, of "\<lambda>u. of_bool (is_active u) :: int" u'] by (simp add: threads_ok_def)
  ultimately show ?thesis using ok d(1,2) by (simp add: threads_ok_def)
qed

lemma threads_ok_queue [simp]:
  "threads_ok (p\<lparr>mTasks := q\<rparr>) = threads_ok p" "threads_ok (p\<lparr>mIdCounter := c\<rparr>) = threads_ok p"
  "threads_ok (p\<lparr>mTasksDispatchedCount := n\<rparr>) = threads_ok p" "threads_ok (p\<lparr>mTasksCompletedCount := n\<rparr>) = threads_ok p"
  "threads_ok (p\<lparr>mMaxThreadCount := k\<rparr>) = threads_ok p" "threads_ok (p\<lparr>mReservedThreadCount := k\<rparr>) = threads_ok p"
  "threads_ok (p\<lparr>mExpiryTimeout := k\<rparr>) = threads_ok p"
  by (simp_all add: threads_ok_def)

lemma queue_ok_threads [simp]:
  "queue_ok (p\<lparr>workers := ws\<rparr>) = queue_ok p" "queue_ok (p\<lparr>mWaitingThreads := l\<rparr>) = queue_ok p"
  "queue_ok (p\<lparr>mExpiredThreads := l\<rparr>) = queue_ok p" "queue_ok (p\<lparr>mAllThreads := l\<rparr>) = queue_ok p"
  "queue_ok (p\<lparr>mActiveThreadCount := k\<rparr>) = queue_ok p" "queue_ok (p\<lparr>mTasksDispatchedCount := n\<rparr>) = queue_ok p"
  "queue_ok (p\<lparr>mTasksCompletedCount := n\<rparr>) = queue_ok p" "queue_ok (p\<lparr>mMaxThreadCount := k\<rparr>) = queue_ok p"
  "queue_ok (p\<lparr>mReservedThreadCount := k\<rparr>) = queue_ok p" "queue_ok (p\<lparr>mExpiryTimeout := k\<rparr>) = queue_ok p"
  by (simp_all add: queue_ok_def)

lemma queued_threads [simp]:
  "queued (p\<lparr>workers := ws\<rparr>) = queued p" "queued (p\<lparr>mWaitingThreads := l\<rparr>) = queued p"
  "queued (p\<lparr>mExpiredThreads := l\<rparr>) = queued p" "queued (p\<lparr>mAllThreads := l\<rparr>) = queued p"
  "queued (p\<lparr>mActiveThreadCount := k\<rparr>) = queued p" "queued (p\<lparr>mTasksDispatchedCount := n\<rparr>) = queued p"
  "queued (p\<lparr>mTasksCompletedCount := n\<rparr>) = queued p" "queued (p\<lparr>mIdCounter := n\<rparr>) = queued p"
  "queued (p\<lparr>mMaxThreadCount := k\<rparr>) = queued p"
  "queued (p\<lparr>mReservedThreadCount := k\<rparr>) = queued p" "queued (p\<lparr>mExpiryTimeout := k\<rparr>) = queued p"
  by (simp_all add: queued_def)

text \<open>Pushing and popping.\<close>

lemma queue_push_ok:
  assumes "queue_ok p" "t \<noteq> 0" "priority \<le> 127" "mIdCounter p < 2 ^ 64 - 1"
  shows "queue_ok (queue_push t priority p)" "queued (queue_push t priority p) = add_mset t (queued p)"
    "mset (mTasks (queue_push t priority p)) = add_mset (priority, mIdCounter p, t) (mset (mTasks p))"
proof -
  let ?i = "(priority, mIdCounter p, t)"
  have c: "add64 (mIdCounter p) 1 = Suc (mIdCounter p)" using assms(4) by simp
  have "fresh item_less ?i (mTasks p)" using assms(1) by (fastforce simp: fresh_def item_less_def queue_ok_def)
  then have m: "mset (set_insert item_less ?i (mTasks p)) = add_mset ?i (mset (mTasks p))" by (rule item.mset_insert)
  show "mset (mTasks (queue_push t priority p)) = add_mset ?i (mset (mTasks p))" using m by (simp add: queue_push_def)
  have s: "set (set_insert item_less ?i (mTasks p)) = insert ?i (set (mTasks p))" using arg_cong [OF m, of set_mset] by simp
  show "queued (queue_push t priority p) = add_mset t (queued p)" by (simp add: queued_def queue_push_def m)
  show "queue_ok (queue_push t priority p)"
    using assms s c by (auto simp: queue_ok_def queue_push_def item.sorted_insert)
qed

lemma queue_pop_ok:
  assumes "queue_ok p"
  shows "queue_ok (fst (queue_pop p))" "threads_ok (fst (queue_pop p)) = threads_ok p" "workers (fst (queue_pop p)) = workers p"
    "queued p = (if snd (queue_pop p) = 0 then {#} else {#snd (queue_pop p)#}) + queued (fst (queue_pop p))"
    "snd (queue_pop p) = 0 \<longleftrightarrow> mTasks p = []" "snd (queue_pop p) = 0 \<Longrightarrow> fst (queue_pop p) = p"
  using assms by (cases "mTasks p"; auto simp: queue_pop_def queue_first_def queue_ok_def queued_def)+

lemma carried_update:
  assumes "w < length (workers p)"
  shows "carried (p\<lparr>workers := (workers p)[w := u]\<rparr>) + tasks_of (workers p ! w) = carried p + tasks_of u"
  using sum_list_update_cancel [OF assms, of tasks_of u] by (simp add: carried_def ac_simps)

lemma carried_threads [simp]:
  "carried (p\<lparr>mWaitingThreads := l\<rparr>) = carried p" "carried (p\<lparr>mExpiredThreads := l\<rparr>) = carried p" "carried (p\<lparr>mAllThreads := l\<rparr>) = carried p"
  "carried (p\<lparr>mActiveThreadCount := k\<rparr>) = carried p" "carried (p\<lparr>mTasksDispatchedCount := n\<rparr>) = carried p"
  "carried (p\<lparr>mTasksCompletedCount := n\<rparr>) = carried p" "carried (p\<lparr>mMaxThreadCount := k\<rparr>) = carried p"
  "carried (p\<lparr>mReservedThreadCount := k\<rparr>) = carried p" "carried (p\<lparr>mExpiryTimeout := k\<rparr>) = carried p"
  by (simp_all add: carried_def)


section \<open>Starting threads keeps a pool well formed\<close>

lemma threads_okD:
  assumes "threads_ok p"
  shows "\<And>w. w \<in> set (mWaitingThreads p) \<Longrightarrow> w < length (workers p) \<and> w \<in> set (mAllThreads p) \<and>
      loc (workers p ! w) = Idle \<and> mTask (workers p ! w) = 0 \<and> \<not> mExit (workers p ! w)"
    "\<And>w. w \<in> set (mExpiredThreads p) \<Longrightarrow> w < length (workers p) \<and> w \<in> set (mAllThreads p) \<and>
      loc (workers p ! w) = Ended \<and> mTask (workers p ! w) = 0"
    "\<And>w. w < length (workers p) \<Longrightarrow>
      thread_ok (w \<in> set (mAllThreads p)) (w \<in> set (mExpiredThreads p)) (w \<in> set (mWaitingThreads p)) (workers p ! w)"
proof -
  show ok: "\<And>w. w < length (workers p) \<Longrightarrow>
      thread_ok (w \<in> set (mAllThreads p)) (w \<in> set (mExpiredThreads p)) (w \<in> set (mWaitingThreads p)) (workers p ! w)"
    using assms by (simp add: threads_ok_def)
  have sub: "set (mWaitingThreads p) \<union> set (mExpiredThreads p) \<subseteq> {..<length (workers p)}"
    using assms by (simp add: threads_ok_def)
  show "w < length (workers p) \<and> w \<in> set (mAllThreads p) \<and>
      loc (workers p ! w) = Idle \<and> mTask (workers p ! w) = 0 \<and> \<not> mExit (workers p ! w)" if w: "w \<in> set (mWaitingThreads p)" for w
  proof -
    have "w < length (workers p)" using sub w by auto
    with ok [OF this] w show ?thesis by (auto simp: thread_ok_def)
  qed
  show "w < length (workers p) \<and> w \<in> set (mAllThreads p) \<and>
      loc (workers p ! w) = Ended \<and> mTask (workers p ! w) = 0" if w: "w \<in> set (mExpiredThreads p)" for w
  proof -
    have "w < length (workers p)" using sub w by auto
    with ok [OF this] w show ?thesis by (auto simp: thread_ok_def)
  qed
qed

lemma startThread_ok:
  assumes ok: "pool_inv p" and t: "t \<noteq> 0"
  shows "\<exists>p'. startThread t p = Some p' \<and> pool_inv p' \<and> carried p' = add_mset t (carried p) \<and> mTasks p' = mTasks p \<and>
    mIdCounter p' = mIdCounter p \<and> mWaitingThreads p' = mWaitingThreads p"
proof -
  let ?n = "length (workers p)" and ?u = "\<lparr>mTask = t, mExit = True, loc = Entering\<rparr>"
  let ?p = "p\<lparr>workers := workers p @ [?u], mAllThreads := ?n # mAllThreads p, mActiveThreadCount := mActiveThreadCount p + 1\<rparr>"
  have th: "threads_ok p" using ok by (simp add: pool_inv_def)
  have out: "?n \<notin> set (mAllThreads p)" "?n \<notin> set (mWaitingThreads p)" "?n \<notin> set (mExpiredThreads p)"
    using th by (auto simp: threads_ok_def)
  have e: "startThread t p = Some ?p"
    using t out(1) by (simp add: startThread_def setTask_def thread_start_def worker_def set_worker_def Let_def list_update_append)
  have "thread_ok (w \<in> set (?n # mAllThreads p)) (w \<in> set (mExpiredThreads p)) (w \<in> set (mWaitingThreads p)) ((workers p @ [?u]) ! w)"
    if "w < Suc ?n" for w
    using threads_okD(3) [OF th, of w] that out t
    by (cases "w = ?n") (simp_all add: nth_append thread_ok_def)
  then have "threads_ok ?p"
    using th out by (auto simp: threads_ok_def is_active_def)
  moreover have "carried ?p = add_mset t (carried p)" using t by (simp add: carried_def tasks_of_def)
  ultimately show ?thesis using e ok by (simp add: pool_inv_def)
qed

text \<open>An expired thread is restarted.\<close>

lemma restart_ok:
  assumes ok: "pool_inv p" and t: "t \<noteq> 0" and e: "mExpiredThreads p = w # es"
  shows "\<exists>p'. (do {
      p \<leftarrow> setTask w t (p\<lparr>mExpiredThreads := es, mActiveThreadCount := mActiveThreadCount p + 1\<rparr>);
      thread_start w p }) = Some p' \<and> pool_inv p' \<and> carried p' = add_mset t (carried p) \<and> mTasks p' = mTasks p \<and>
    mIdCounter p' = mIdCounter p \<and> mWaitingThreads p' = mWaitingThreads p"
proof -
  have th: "threads_ok p" and q: "queue_ok p" using ok by (simp_all add: pool_inv_def)
  have w: "w < length (workers p)" "w \<in> set (mAllThreads p)" "loc (workers p ! w) = Ended" "mTask (workers p ! w) = 0"
    using threads_okD(2) [OF th, of w] e by auto
  have nw: "w \<notin> set (mWaitingThreads p)" using threads_okD(1) [OF th, of w] w(3) by auto
  define u where "u = (workers p ! w)\<lparr>mTask := t, loc := Entering\<rparr>"
  let ?p = "p\<lparr>workers := (workers p)[w := u], mWaitingThreads := mWaitingThreads p, mExpiredThreads := es,
    mActiveThreadCount := mActiveThreadCount p + 1\<rparr>"
  have "distinct (w # es)" using th e by (simp add: threads_ok_def)
  then have "threads_ok ?p"
    using th w nw e t by (intro threads_ok_update [OF th w(1)]) (auto simp: threads_ok_def thread_ok_def is_active_def u_def)
  moreover have "carried (p\<lparr>workers := (workers p)[w := u]\<rparr>) = add_mset t (carried p)"
    using carried_update [OF w(1), of u] w(3,4) t by (simp add: tasks_of_def u_def)
  then have "carried ?p = add_mset t (carried p)" by (simp add: carried_def)
  moreover have "(do {
      p \<leftarrow> setTask w t (p\<lparr>mExpiredThreads := es, mActiveThreadCount := mActiveThreadCount p + 1\<rparr>);
      thread_start w p }) = Some ?p"
    using w by (simp add: setTask_def thread_start_def worker_def set_worker_def u_def)
  ultimately show ?thesis using q by (simp add: pool_inv_def)
qed

text \<open>Taking a waiting thread off the list.\<close>

lemma unwait_ok:
  assumes "threads_ok p" "mWaitingThreads p = w # ws"
  shows "threads_ok (p\<lparr>mWaitingThreads := ws\<rparr>)"
proof -
  have w: "w < length (workers p)" "loc (workers p ! w) = Idle" "\<not> mExit (workers p ! w)" "w \<in> set (mAllThreads p)"
    using threads_okD(1) [OF assms(1), of w] assms(2) by auto
  have "w \<notin> set (mExpiredThreads p)" using threads_okD(2) [OF assms(1), of w] w(2) by auto
  moreover have "distinct (w # ws)" using assms by (simp add: threads_ok_def)
  ultimately have "threads_ok (p\<lparr>workers := (workers p)[w := workers p ! w], mWaitingThreads := ws,
      mExpiredThreads := mExpiredThreads p, mActiveThreadCount := mActiveThreadCount p\<rparr>)"
    using assms w by (intro threads_ok_update [OF assms(1) w(1)]) (auto simp: threads_ok_def thread_ok_def)
  then show ?thesis by simp
qed

definition room :: "thread_pool \<Rightarrow> bool" where
  "room p \<longleftrightarrow> mIdCounter p + length (mWaitingThreads p) + 1 < 2 ^ 64"

lemma tryStart_ok:
  assumes ok: "pool_inv p" and t: "t \<noteq> 0" and r: "room p"
  shows "\<exists>p' b. tryStart t p = Some (p', b) \<and> pool_inv p' \<and>
    (if b then carried p' = add_mset t (carried p) else p' = p) \<and>
    (b \<longrightarrow> mTasks p' = mTasks p \<and> mIdCounter p' = mIdCounter p \<and> mWaitingThreads p' = mWaitingThreads p \<or>
       mset (mTasks p') = add_mset (127, mIdCounter p, t) (mset (mTasks p)) \<and> mIdCounter p' = Suc (mIdCounter p) \<and>
       Suc (length (mWaitingThreads p')) = length (mWaitingThreads p))"
proof -
  have th: "threads_ok p" and q: "queue_ok p" using ok by (simp_all add: pool_inv_def)
  obtain s where s: "startThread t p = Some s" "pool_inv s" "carried s = add_mset t (carried p)" "mTasks s = mTasks p"
      "mIdCounter s = mIdCounter p" "mWaitingThreads s = mWaitingThreads p"
    using startThread_ok [OF ok t] by blast
  show ?thesis
  proof (cases "mAllThreads p = []")
    case True
    then have "tryStart t p = Some (s, True)" using s t by (simp add: tryStart_def)
    then show ?thesis using s by (intro exI [of _ s] exI [of _ True]) simp
  next
    case ne: False
    show ?thesis
    proof (cases "mMaxThreadCount p \<le> activeThreadCount p")
      case True
      then have "tryStart t p = Some (p, False)" using ne t by (simp add: tryStart_def)
      then show ?thesis using ok by (intro exI [of _ p] exI [of _ False]) simp
    next
      case False
      show ?thesis
      proof (cases "mWaitingThreads p")
        case (Cons w ws)
        let ?q = "queue_push t 127 p"
        have id: "mIdCounter p < 2 ^ 64 - 1" using r Cons by (simp add: room_def)
        note push = queue_push_ok [OF q t order_refl id]
        have w: "worker ?q w = Some (workers p ! w)" "mTask (workers p ! w) = 0"
          using threads_okD(1) [OF th, of w] Cons by (auto simp: worker_def queue_push_def)
        have "threads_ok (?q\<lparr>mWaitingThreads := ws\<rparr>)"
          using unwait_ok [OF th Cons] by (simp add: queue_push_def threads_ok_def)
        moreover have "carried (?q\<lparr>mWaitingThreads := ws\<rparr>) = add_mset t (carried p)"
          using push(2) by (simp add: carried_def) (simp add: queue_push_def)
        moreover have "mIdCounter ?q = Suc (mIdCounter p)" using id by (simp add: queue_push_def)
        moreover have "tryStart t p = Some (?q\<lparr>mWaitingThreads := ws\<rparr>, True)"
          using ne False t w Cons by (simp add: tryStart_def enqueueTask_def)
        ultimately show ?thesis
          using push(1,3) Cons by (intro exI [of _ "?q\<lparr>mWaitingThreads := ws\<rparr>"] exI [of _ True]) (simp add: pool_inv_def)
      next
        case Nil
        show ?thesis
        proof (cases "mExpiredThreads p")
          case Nil
          then have "tryStart t p = Some (s, True)" using ne False s t \<open>mWaitingThreads p = []\<close> by (simp add: tryStart_def)
          then show ?thesis using s by (intro exI [of _ s] exI [of _ True]) simp
        next
          case (Cons w es)
          have w: "worker p w = Some (workers p ! w)" "mTask (workers p ! w) = 0"
            using threads_okD(2) [OF th, of w] Cons by (auto simp: worker_def)
          obtain p' where p': "(do {
              p \<leftarrow> setTask w t (p\<lparr>mExpiredThreads := es, mActiveThreadCount := mActiveThreadCount p + 1\<rparr>);
              thread_start w p }) = Some p'" "pool_inv p'" "carried p' = add_mset t (carried p)" "mTasks p' = mTasks p"
              "mIdCounter p' = mIdCounter p" "mWaitingThreads p' = mWaitingThreads p"
            using restart_ok [OF ok t Cons] by blast
          then obtain p1 where "setTask w t (p\<lparr>mExpiredThreads := es, mActiveThreadCount := mActiveThreadCount p + 1\<rparr>) = Some p1"
              "thread_start w p1 = Some p'"
            by (auto simp: Option.bind_eq_Some_conv)
          then have "tryStart t p = Some (p', True)" using ne False t w Nil Cons by (simp add: tryStart_def)
          then show ?thesis using p' by (intro exI [of _ p'] exI [of _ True]) simp
        qed
      qed
    qed
  qed
qed


lemma room_pop: "room p \<Longrightarrow> room (fst (queue_pop p))"
  by (auto simp: room_def queue_pop_def)

text \<open>
  The loop that hands queued tasks to threads. Where a waiting thread is woken, \<open>tryStart\<close> queues the
  task a second time and the loop takes one of the two entries out; it is then handed on again
  while there are threads to wake, and is in the queue or with one thread at the end.
\<close>

lemma queue_front_twice:
  assumes q: "queue_ok p" and q': "queue_ok p'" and f: "mTasks p = (priority, i, t) # is"
    and m: "mset (mTasks p') = add_mset (127, mIdCounter p, t) (mset (mTasks p))"
  shows "snd (queue_pop p') = t"
proof -
  obtain c u j is' where p': "mTasks p' = (c, j, u) # is'"
    using m by (cases "mTasks p'") auto
  have "(priority, i, t) \<in> set (mTasks p')" "(127, mIdCounter p, t) \<in> set (mTasks p')"
    using arg_cong [OF m, of set_mset] f by auto
  moreover have "(c, j, u) = (127, mIdCounter p, t) \<or> (c, j, u) \<in> set (mTasks p)"
    using arg_cong [OF m, of set_mset] p' by (metis list.set_intros(1) set_mset_add_mset_insert set_mset_mset insert_iff)
  ultimately have "u = t"
    using q q' f p' by (fastforce simp: queue_ok_def item_less_def)
  then show ?thesis using q' p' by (auto simp: queue_pop_def queue_first_def queue_ok_def)
qed

lemma tryToStartMoreThreads_ok:
  assumes "pool_inv p" "room p"
  shows "\<exists>p'. tryToStartMoreThreads p = Some p' \<and> pool_inv p' \<and> carried p' = carried p"
  using assms
proof (induction "length (mTasks p) + length (mWaitingThreads p)" arbitrary: p rule: less_induct)
  case less
  have q: "queue_ok p" using less.prems(1) by (simp add: pool_inv_def)
  show ?case
  proof (cases "mTasks p")
    case Nil
    then show ?thesis using less.prems by (subst tryToStartMoreThreads.simps) simp
  next
    case (Cons item items)
    obtain priority i t where it: "item = (priority, i, t)" by (cases item)
    then have t: "t \<noteq> 0" "queue_first p = t" using q Cons by (auto simp: queue_ok_def queue_first_def)
    obtain p' b where p': "tryStart t p = Some (p', b)" "pool_inv p'" "if b then carried p' = add_mset t (carried p) else p' = p"
        "b \<longrightarrow> mTasks p' = mTasks p \<and> mIdCounter p' = mIdCounter p \<and> mWaitingThreads p' = mWaitingThreads p \<or>
           mset (mTasks p') = add_mset (127, mIdCounter p, t) (mset (mTasks p)) \<and> mIdCounter p' = Suc (mIdCounter p) \<and>
           Suc (length (mWaitingThreads p')) = length (mWaitingThreads p)"
      using tryStart_ok [OF less.prems(1) t(1) less.prems(2)] by blast
    show ?thesis
    proof (cases b)
      case False
      then show ?thesis using p' less.prems t Cons by (subst tryToStartMoreThreads.simps) simp
    next
      case True
      let ?r = "fst (queue_pop p')"
      have q': "queue_ok p'" using p'(2) by (simp add: pool_inv_def)
      note pop = queue_pop_ok [OF q']
      have fst: "snd (queue_pop p') = t"
      proof (cases "mTasks p' = mTasks p")
        case True
        then show ?thesis using t Cons it by (simp add: queue_pop_def queue_first_def)
      next
        case False
        then have "mset (mTasks p') = add_mset (127, mIdCounter p, t) (mset (mTasks p))" using p'(4) \<open>b\<close> by simp
        then show ?thesis using queue_front_twice [OF q q'] Cons it by simp
      qed
      have "length (mTasks ?r) < length (mTasks p')"
        using fst t(1) pop(5) by (auto simp: queue_pop_def split: if_splits)
      moreover have "mWaitingThreads ?r = mWaitingThreads p'" "mIdCounter ?r = mIdCounter p'" by (simp_all add: queue_pop_def)
      moreover have "length (mTasks p') = length (mTasks p) \<and> mIdCounter p' = mIdCounter p \<and> mWaitingThreads p' = mWaitingThreads p \<or>
          length (mTasks p') = Suc (length (mTasks p)) \<and> mIdCounter p' = Suc (mIdCounter p) \<and>
          Suc (length (mWaitingThreads p')) = length (mWaitingThreads p)"
        using p'(4) True by (metis size_add_mset size_mset)
      ultimately have meas: "length (mTasks ?r) + length (mWaitingThreads ?r) < length (mTasks p) + length (mWaitingThreads p)"
        and rm: "room ?r"
        using less.prems(2) unfolding room_def by auto
      have inv: "pool_inv ?r" using pop(1,2) p'(2) by (simp add: pool_inv_def)
      have "carried ?r = carried p"
        using pop(3,4) fst t(1) p'(3) True by (simp add: carried_def)
      then show ?thesis
        using less.hyps [OF meas inv rm] p'(1) True t Cons by (subst tryToStartMoreThreads.simps) simp
    qed
  qed
qed

lemma start_ok:
  assumes ok: "pool_inv p" and t: "t \<noteq> 0" and r: "room p" and pr: "priority \<le> 127"
  shows "\<exists>p'. start t priority p = Some p' \<and> pool_inv p' \<and> carried p' = add_mset t (carried p)"
proof -
  obtain p' b where p': "tryStart t p = Some (p', b)" "pool_inv p'" "if b then carried p' = add_mset t (carried p) else p' = p"
    using tryStart_ok [OF ok t r] by blast
  have th: "threads_ok p" and q: "queue_ok p" using ok by (simp_all add: pool_inv_def)
  show ?thesis
  proof (cases b)
    case True
    then show ?thesis using p' t by (simp add: start_def)
  next
    case False
    then have e: "p' = p" using p'(3) by simp
    show ?thesis
    proof (cases "mWaitingThreads p")
      case Nil
      have "mIdCounter p < 2 ^ 64 - 1" using r by (simp add: room_def)
      note push = queue_push_ok [OF q t pr this]
      have "threads_ok (queue_push t priority p)" using th by (simp add: queue_push_def)
      moreover have "carried (queue_push t priority p) = add_mset t (carried p)"
        using push(2) by (simp add: carried_def) (simp add: queue_push_def)
      ultimately show ?thesis
        using p'(1) e False t Nil push(1) by (simp add: start_def enqueueTask_def pool_inv_def)
    next
      case (Cons w ws)
      have w: "w < length (workers p)" "mTask (workers p ! w) = 0" "loc (workers p ! w) = Idle" "\<not> mExit (workers p ! w)"
          "w \<in> set (mAllThreads p)"
        using threads_okD(1) [OF th, of w] Cons by auto
      have nw: "w \<notin> set (mExpiredThreads p)" using threads_okD(2) [OF th, of w] w(3) by auto
      define u where "u = (workers p ! w)\<lparr>mTask := t\<rparr>"
      let ?p = "p\<lparr>workers := (workers p)[w := u], mWaitingThreads := ws, mExpiredThreads := mExpiredThreads p,
        mActiveThreadCount := mActiveThreadCount p\<rparr>"
      have "distinct (w # ws)" using th Cons by (simp add: threads_ok_def)
      then have "threads_ok ?p"
        using th w nw Cons by (intro threads_ok_update [OF th w(1)]) (auto simp: threads_ok_def thread_ok_def is_active_def u_def)
      moreover have "carried (p\<lparr>workers := (workers p)[w := u]\<rparr>) = add_mset t (carried p)"
        using carried_update [OF w(1), of u] w(2,3) t by (simp add: tasks_of_def u_def)
      then have "carried ?p = add_mset t (carried p)" by (simp add: carried_def)
      moreover have "start t priority p = Some ?p"
        using p'(1) e False t Cons w by (simp add: start_def setTask_def worker_def set_worker_def u_def)
      ultimately show ?thesis using q by (simp add: pool_inv_def)
    qed
  qed
qed


section \<open>The loop of a thread keeps a pool well formed\<close>

text \<open>
  A thread in the middle of its loop, with the mutex: it has no task in hand, is not told to exit, and the
  pool is well formed if the thread is taken to be busy.
\<close>

definition sect :: "thread \<Rightarrow> thread_pool \<Rightarrow> bool" where
  "sect w p \<longleftrightarrow> w < length (workers p) \<and> mTask (workers p ! w) = 0 \<and> \<not> mExit (workers p ! w) \<and> queue_ok p \<and>
     threads_ok (p\<lparr>workers := (workers p)[w := (workers p ! w)\<lparr>loc := Busy 1\<rparr>]\<rparr>)"

text \<open>The tasks that the pool holds beside those of one thread.\<close>

definition others :: "thread \<Rightarrow> thread_pool \<Rightarrow> task multiset" where
  "others w p = queued p + sum_list (map tasks_of ((workers p)[w := \<lparr>mTask = 0, mExit = False, loc = Ended\<rparr>]))"

lemma carried_others: "w < length (workers p) \<Longrightarrow> carried p = others w p + tasks_of (workers p ! w)"
  using sum_list_update_cancel [of w "workers p" tasks_of "\<lparr>mTask = 0, mExit = False, loc = Ended\<rparr>"]
  by (simp add: carried_def others_def tasks_of_def ac_simps)

lemma carried_set_others:
  "w < length (workers p) \<Longrightarrow> queued p' = queued p \<Longrightarrow> workers p' = (workers p)[w := u] \<Longrightarrow> carried p' = others w p + tasks_of u"
  using carried_others [of w p'] by (simp add: others_def)

lemma sect_facts:
  assumes "sect w p"
  shows "w \<in> set (mAllThreads p)" "w \<notin> set (mWaitingThreads p)" "w \<notin> set (mExpiredThreads p)" "0 < mActiveThreadCount p"
proof -
  let ?p = "p\<lparr>workers := (workers p)[w := (workers p ! w)\<lparr>loc := Busy 1\<rparr>]\<rparr>"
  have w: "w < length (workers p)" and ok: "threads_ok ?p" using assms by (simp_all add: sect_def)
  have "thread_ok (w \<in> set (mAllThreads p)) (w \<in> set (mExpiredThreads p)) (w \<in> set (mWaitingThreads p)) ((workers p ! w)\<lparr>loc := Busy 1\<rparr>)"
    using threads_okD(3) [OF ok, of w] w by simp
  then show "w \<in> set (mAllThreads p)" "w \<notin> set (mWaitingThreads p)" "w \<notin> set (mExpiredThreads p)"
    by (auto simp: thread_ok_def)
  have nonneg: "0 \<le> sum_list (map (\<lambda>u. of_bool (is_active u) :: int) us)" for us by (induction us) auto
  have act: "is_active ((workers p ! w)\<lparr>loc := Busy 1\<rparr>)" "\<not> is_active ((workers p ! w)\<lparr>loc := Ended\<rparr>)" by (simp_all add: is_active_def)
  have "mActiveThreadCount p = sum_list (map (\<lambda>u. of_bool (is_active u)) (workers ?p))" using ok by (simp add: threads_ok_def)
  moreover have "sum_list (map (\<lambda>u. of_bool (is_active u) :: int) ((workers ?p)[w := (workers p ! w)\<lparr>loc := Ended\<rparr>])) + 1 =
      sum_list (map (\<lambda>u. of_bool (is_active u)) (workers ?p))"
    using sum_list_update_cancel [of w "workers ?p" "\<lambda>u. of_bool (is_active u) :: int" "(workers p ! w)\<lparr>loc := Ended\<rparr>"] w act by simp
  ultimately show "0 < mActiveThreadCount p"
    using nonneg [of "(workers ?p)[w := (workers p ! w)\<lparr>loc := Ended\<rparr>]"] by linarith
qed

text \<open>How a thread may leave the section: with another location and lists that differ in this thread only.\<close>

lemma sect_leave:
  assumes s: "sect w p" and d: "distinct wt'" "distinct ex'" "set wt' - {w} = set (mWaitingThreads p)" "set ex' - {w} = set (mExpiredThreads p)"
    and u: "u = (workers p ! w)\<lparr>loc := l\<rparr>" "thread_ok True (w \<in> set ex') (w \<in> set wt') u"
    and n: "n + 1 = mActiveThreadCount p + of_bool (is_active u)"
  shows "threads_ok (p\<lparr>workers := (workers p)[w := u], mWaitingThreads := wt', mExpiredThreads := ex', mActiveThreadCount := n\<rparr>)"
proof -
  let ?p = "p\<lparr>workers := (workers p)[w := (workers p ! w)\<lparr>loc := Busy 1\<rparr>]\<rparr>"
  have w: "w < length (workers p)" and ok: "threads_ok ?p" using s by (simp_all add: sect_def)
  note f = sect_facts [OF s]
  have "threads_ok (?p\<lparr>workers := (workers ?p)[w := u], mWaitingThreads := wt', mExpiredThreads := ex', mActiveThreadCount := n\<rparr>)"
    using d u n f w by (intro threads_ok_update [OF ok]) (auto simp: is_active_def)
  then show ?thesis by simp
qed

lemma run_task_ok:
  assumes s: "sect w p" and t: "t \<noteq> 0"
  shows "\<exists>p'. run_task w t p = Some p' \<and> pool_inv p' \<and> carried p' = add_mset t (others w p)"
proof -
  let ?u = "(workers p ! w)\<lparr>loc := Busy t\<rparr>"
  let ?p = "p\<lparr>workers := (workers p)[w := ?u], mTasksDispatchedCount := add64 (mTasksDispatchedCount p) 1\<rparr>"
  have w: "w < length (workers p)" "mTask (workers p ! w) = 0" "\<not> mExit (workers p ! w)" "queue_ok p" using s by (simp_all add: sect_def)
  have e: "run_task w t p = Some ?p" using w by (simp add: run_task_def worker_def set_worker_def)
  have "threads_ok (p\<lparr>workers := (workers p)[w := ?u], mWaitingThreads := mWaitingThreads p, mExpiredThreads := mExpiredThreads p,
      mActiveThreadCount := mActiveThreadCount p\<rparr>)"
    using w t sect_facts [OF s] s by (intro sect_leave [OF s]) (auto simp: sect_def threads_ok_def thread_ok_def is_active_def)
  then have "threads_ok (p\<lparr>workers := (workers p)[w := ?u]\<rparr>)" by simp
  then have "pool_inv ?p" using w by (simp add: pool_inv_def)
  moreover have "carried ?p = others w p + tasks_of ?u" by (rule carried_set_others [OF w(1)]) simp_all
  ultimately show ?thesis using e w(2) by (simp add: tasks_of_def)
qed

lemma run_expire_ok:
  assumes s: "sect w p"
  shows "\<exists>p'. run_expire w p = Some p' \<and> pool_inv p' \<and> carried p' = others w p"
proof -
  let ?u = "(workers p ! w)\<lparr>loc := Ended\<rparr>"
  let ?p = "p\<lparr>workers := (workers p)[w := ?u], mWaitingThreads := mWaitingThreads p, mExpiredThreads := mExpiredThreads p @ [w],
      mActiveThreadCount := mActiveThreadCount p - 1\<rparr>"
  have w: "w < length (workers p)" "mTask (workers p ! w) = 0" "queue_ok p" using s by (simp_all add: sect_def)
  note f = sect_facts [OF s]
  have "threads_ok ?p"
    using w f s by (intro sect_leave [OF s]) (auto simp: sect_def threads_ok_def thread_ok_def is_active_def)
  then have "pool_inv ?p" using w by (simp add: pool_inv_def)
  moreover have "carried ?p = others w p + tasks_of ?u" by (rule carried_set_others [OF w(1)]) simp_all
  moreover have "run_expire w p = Some ?p"
    using w f(4) by (simp add: run_expire_def registerThreadInactive_def run_end_def worker_def set_worker_def)
  ultimately show ?thesis using w(2) by (simp add: tasks_of_def)
qed

lemma run_idle_ok:
  assumes s: "sect w p"
  shows "\<exists>p'. run_idle w p = Some p' \<and> pool_inv p' \<and> carried p' = others w p"
proof (cases "isTooManyThreadsActive p")
  case True
  then show ?thesis using run_expire_ok [OF s] s by (simp add: run_idle_def worker_def sect_def)
next
  case False
  let ?u = "(workers p ! w)\<lparr>loc := Idle\<rparr>"
  let ?p = "p\<lparr>workers := (workers p)[w := ?u], mWaitingThreads := mWaitingThreads p @ [w], mExpiredThreads := mExpiredThreads p,
      mActiveThreadCount := mActiveThreadCount p - 1\<rparr>"
  have w: "w < length (workers p)" "mTask (workers p ! w) = 0" "\<not> mExit (workers p ! w)" "queue_ok p" using s by (simp_all add: sect_def)
  note f = sect_facts [OF s]
  have "threads_ok ?p"
    using w f s by (intro sect_leave [OF s]) (auto simp: sect_def threads_ok_def thread_ok_def is_active_def)
  then have "pool_inv ?p" using w by (simp add: pool_inv_def)
  moreover have "carried ?p = others w p + tasks_of ?u" by (rule carried_set_others [OF w(1)]) simp_all
  moreover have "run_idle w p = Some ?p"
    using w f(4) False by (simp add: run_idle_def registerThreadInactive_def worker_def set_worker_def)
  ultimately show ?thesis using w(2) by (simp add: tasks_of_def)
qed

lemma run_fetch_ok:
  assumes s: "sect w p"
  shows "\<exists>p'. run_fetch w p = Some p' \<and> pool_inv p' \<and> carried p' = others w p"
proof -
  have w: "w < length (workers p)" "\<not> mExit (workers p ! w)" and q: "queue_ok p" using s by (simp_all add: sect_def)
  let ?q = "fst (queue_pop p)" and ?t = "snd (queue_pop p)"
  note pop = queue_pop_ok [OF q]
  have idle: "\<exists>p'. run_idle w p = Some p' \<and> pool_inv p' \<and> carried p' = others w p" by (rule run_idle_ok [OF s])
  have fetch: "run_fetch w p = (if isTooManyThreadsActive p then run_idle w p else if ?t = 0 then run_idle w ?q else run_task w ?t ?q)"
    using w by (simp add: run_fetch_def worker_def split_beta)
  show ?thesis
  proof (cases "isTooManyThreadsActive p \<or> ?t = 0")
    case True
    then have "run_fetch w p = run_idle w p" using fetch pop(6) by auto
    then show ?thesis using idle by simp
  next
    case False
    have "sect w ?q" using s pop(1) by (auto simp: sect_def queue_pop_def threads_ok_def)
    moreover have "add_mset ?t (others w ?q) = others w p" using pop(3,4) False by (simp add: others_def)
    ultimately show ?thesis using run_task_ok [of w ?q ?t] False fetch by simp
  qed
qed


lemma update_order:
  "p\<lparr>mActiveThreadCount := n, mWaitingThreads := l, workers := us\<rparr> = p\<lparr>workers := us, mWaitingThreads := l, mActiveThreadCount := n\<rparr>"
  by simp

text \<open>The ways into the section: a thread that is not at its end becomes active, and leaves the waiting list.\<close>

lemma sect_enter:
  assumes ok: "pool_inv p" and w: "w < length (workers p)" "w \<in> set (mAllThreads p)" "loc (workers p ! w) \<noteq> Ended"
    and u: "mTask u = 0" "\<not> mExit u"
    and n: "n + of_bool (is_active (workers p ! w)) = mActiveThreadCount p + 1"
  shows "sect w (p\<lparr>workers := (workers p)[w := u], mWaitingThreads := remove1 w (mWaitingThreads p), mActiveThreadCount := n\<rparr>)"
proof -
  have th: "threads_ok p" and q: "queue_ok p" using ok by (simp_all add: pool_inv_def)
  have nw: "w \<notin> set (mExpiredThreads p)" using threads_okD(2) [OF th, of w] w(3) by auto
  have d: "distinct (mWaitingThreads p)" "distinct (mExpiredThreads p)" using th by (simp_all add: threads_ok_def)
  have "threads_ok (p\<lparr>workers := (workers p)[w := u\<lparr>loc := Busy 1\<rparr>], mWaitingThreads := remove1 w (mWaitingThreads p),
      mExpiredThreads := mExpiredThreads p, mActiveThreadCount := n\<rparr>)"
    using w u n nw d by (intro threads_ok_update [OF th w(1)]) (auto simp: thread_ok_def is_active_def set_remove1_eq)
  then show ?thesis using w u q by (simp add: sect_def threads_ok_def)
qed

lemma run_loop_ok:
  assumes s: "sect w (p\<lparr>workers := (workers p)[w := (workers p ! w)\<lparr>mTask := 0\<rparr>]\<rparr>)"
    and w: "w < length (workers p)" "\<not> mExit (workers p ! w)" and t: "mTask (workers p ! w) = t"
  shows "\<exists>p'. run_loop w p = Some p' \<and> pool_inv p' \<and> carried p' = others w p + (if t = 0 then {#} else {#t#})"
proof -
  let ?q = "p\<lparr>workers := (workers p)[w := (workers p ! w)\<lparr>mTask := 0\<rparr>]\<rparr>"
  have o: "others w ?q = others w p" by (simp add: others_def)
  have l: "run_loop w p = (if t \<noteq> 0 then run_task w t ?q else run_fetch w ?q)"
    using w t by (simp add: run_loop_def worker_def set_worker_def)
  show ?thesis
    using run_task_ok [OF s, of t] run_fetch_ok [OF s] by (auto simp: l o)
qed

lemma remove1_id [simp]: "x \<notin> set xs \<Longrightarrow> remove1 x xs = xs"
  by (rule remove1_idem)

lemma run_enter_ok:
  assumes ok: "pool_inv p" and w: "w < length (workers p)" "loc (workers p ! w) = Entering"
  shows "\<exists>p'. run_enter w p = Some p' \<and> pool_inv p' \<and> carried p' = carried p"
proof -
  have th: "threads_ok p" using ok by (simp add: pool_inv_def)
  let ?u = "(workers p ! w)\<lparr>mExit := False\<rparr>"
  let ?p = "p\<lparr>workers := (workers p)[w := ?u]\<rparr>"
  have t: "w \<in> set (mAllThreads p)" "mTask (workers p ! w) \<noteq> 0" "w \<notin> set (mWaitingThreads p)"
    using threads_okD(3) [OF th w(1)] w(2) by (auto simp: thread_ok_def)
  have "sect w (p\<lparr>workers := (workers p)[w := ?u\<lparr>mTask := 0\<rparr>], mWaitingThreads := remove1 w (mWaitingThreads p),
      mActiveThreadCount := mActiveThreadCount p\<rparr>)"
    using w t by (intro sect_enter [OF ok]) (simp_all add: is_active_def)
  then have "sect w (?p\<lparr>workers := (workers ?p)[w := (workers ?p ! w)\<lparr>mTask := 0\<rparr>]\<rparr>)" using w t by simp
  from run_loop_ok [OF this] w
  have "\<exists>p'. run_loop w ?p = Some p' \<and> pool_inv p' \<and> carried p' = others w p + {#mTask (workers p ! w)#}"
    using t(2) by (simp add: others_def)
  moreover have "carried p = others w p + {#mTask (workers p ! w)#}" using carried_others [OF w(1)] w(2) t(2) by (simp add: tasks_of_def)
  moreover have "run_enter w p = run_loop w ?p" using w by (simp add: run_enter_def worker_def set_worker_def)
  ultimately show ?thesis by simp
qed

lemma run_done_ok:
  assumes ok: "pool_inv p" and w: "w < length (workers p)" "loc (workers p ! w) = Busy t"
  shows "\<exists>p'. run_done w p = Some p' \<and> pool_inv p' \<and> carried p = add_mset t (carried p')"
proof -
  have th: "threads_ok p" using ok by (simp add: pool_inv_def)
  let ?p = "p\<lparr>mTasksCompletedCount := add64 (mTasksCompletedCount p) 1\<rparr>"
  have t: "w \<in> set (mAllThreads p)" "mTask (workers p ! w) = 0" "\<not> mExit (workers p ! w)" "w \<notin> set (mWaitingThreads p)"
    using threads_okD(3) [OF th w(1)] w(2) by (auto simp: thread_ok_def)
  have "sect w (?p\<lparr>workers := (workers ?p)[w := workers ?p ! w], mWaitingThreads := remove1 w (mWaitingThreads ?p),
      mActiveThreadCount := mActiveThreadCount ?p\<rparr>)"
    using w t ok by (intro sect_enter) (simp_all add: is_active_def pool_inv_def)
  then have "sect w ?p" using w t by simp
  from run_fetch_ok [OF this] have "\<exists>p'. run_done w p = Some p' \<and> pool_inv p' \<and> carried p' = others w p"
    by (simp add: run_done_def others_def)
  moreover have "carried p = add_mset t (others w p)" using carried_others [OF w(1)] w(2) t(2) by (simp add: tasks_of_def)
  ultimately show ?thesis by auto
qed

lemma run_wake_ok:
  assumes ok: "pool_inv p" and w: "w < length (workers p)" "loc (workers p ! w) = Idle"
  shows "\<exists>p'. run_wake w p = Some p' \<and> pool_inv p' \<and> carried p' = carried p"
proof -
  have th: "threads_ok p" and q: "queue_ok p" using ok by (simp_all add: pool_inv_def)
  let ?u = "workers p ! w"
  let ?r = "p\<lparr>mActiveThreadCount := mActiveThreadCount p + 1, mWaitingThreads := remove1 w (mWaitingThreads p)\<rparr>"
  have nonneg: "0 \<le> mActiveThreadCount p" using th by (auto simp: threads_ok_def intro!: sum_list_nonneg)
  have h: "carried p = others w p + (if mTask ?u = 0 then {#} else {#mTask ?u#})"
    using carried_others [OF w(1)] w(2) by (simp add: tasks_of_def)
  show ?thesis
  proof (cases "w \<in> set (mAllThreads p)")
    case False
    have nw: "w \<notin> set (mWaitingThreads p)" "w \<notin> set (mExpiredThreads p)" using threads_okD(1,2) [OF th, of w] False by auto
    let ?p = "p\<lparr>workers := (workers p)[w := ?u\<lparr>loc := Ended\<rparr>], mWaitingThreads := mWaitingThreads p,
      mExpiredThreads := mExpiredThreads p, mActiveThreadCount := mActiveThreadCount p\<rparr>"
    have "threads_ok ?p"
      using w nw False th by (intro threads_ok_update [OF th w(1)]) (auto simp: threads_ok_def thread_ok_def is_active_def)
    moreover have "carried ?p = others w p + tasks_of (?u\<lparr>loc := Ended\<rparr>)" by (rule carried_set_others [OF w(1)]) simp_all
    moreover have "run_wake w p = Some ?p"
      using False nw w nonneg by (simp add: run_wake_def registerThreadInactive_def run_end_def worker_def set_worker_def)
    ultimately show ?thesis using q h by (simp add: pool_inv_def tasks_of_def)
  next
    case True
    have e: "\<not> mExit ?u" using threads_okD(3) [OF th w(1)] w(2) True by (simp add: thread_ok_def)
    have s: "sect w (?r\<lparr>workers := (workers p)[w := ?u\<lparr>mTask := 0\<rparr>]\<rparr>)"
      using sect_enter [OF ok w(1) True, of "?u\<lparr>mTask := 0\<rparr>" "mActiveThreadCount p + 1"] w e by (simp add: is_active_def update_order)
    show ?thesis
    proof (cases "w \<in> set (mWaitingThreads p)")
      case waiting: True
      then have t: "mTask ?u = 0" using threads_okD(1) [OF th, of w] by blast
      then have "?u\<lparr>mTask := 0\<rparr> = ?u" by simp
      then have "sect w ?r" using s by simp
      moreover have "run_wake w p = run_expire w ?r" using True waiting by (simp add: run_wake_def)
      ultimately show ?thesis using run_expire_ok [of w ?r] h t by (simp add: others_def)
    next
      case False
      then have "run_wake w p = run_loop w ?r" using True by (simp add: run_wake_def)
      moreover have "sect w (?r\<lparr>workers := (workers ?r)[w := (workers ?r ! w)\<lparr>mTask := 0\<rparr>]\<rparr>)" using s by simp
      from run_loop_ok [OF this, of "mTask ?u"] w e
      have "\<exists>p'. run_loop w ?r = Some p' \<and> pool_inv p' \<and> carried p' = carried p" unfolding h by (simp add: others_def)
      ultimately show ?thesis by simp
    qed
  qed
qed


section \<open>The pool as a system of steps\<close>

text \<open>
  The calls of users and the steps of threads. The system keeps, beside the pool, the tasks that were
  accepted, those whose run has ended, and those taken off the queue by \<open>cancel\<close> and \<open>clear\<close>.
\<close>

datatype pool_action =
  Start task int
| TryStartNow task
| Cancel task
| Clear
| Reserve
| Release
| SetMax int
| SetExpiry int
| Reset
| ExitWait thread
| Enter thread
| TaskDone thread
| Wake thread

record pool_system =
  pool :: thread_pool
  submitted :: "task multiset"
  completed :: "task multiset"
  dropped :: "task multiset"

fun pool_step :: "pool_action \<Rightarrow> pool_system \<Rightarrow> pool_system option" where
  "pool_step (Start t priority) s = do {
     p \<leftarrow> start t priority (pool s);
     Some (s\<lparr>pool := p, submitted := task_mset t + submitted s\<rparr>)
   }"
| "pool_step (TryStartNow t) s = do {
     (p, b) \<leftarrow> tryStartNow t (pool s);
     Some (s\<lparr>pool := p, submitted := (if b then {#t#} else {#}) + submitted s\<rparr>)
   }"
| "pool_step (Cancel t) s =
     Some (s\<lparr>pool := fst (cancel t (pool s)), dropped := filter_mset (\<lambda>x. x = t) (queued (pool s)) + dropped s\<rparr>)"
| "pool_step Clear s = Some (s\<lparr>pool := clear (pool s), dropped := queued (pool s) + dropped s\<rparr>)"
| "pool_step Reserve s = Some (s\<lparr>pool := reserveThread (pool s)\<rparr>)"
| "pool_step Release s = do { p \<leftarrow> releaseThread (pool s); Some (s\<lparr>pool := p\<rparr>) }"
| "pool_step (SetMax n) s = do { p \<leftarrow> setMaxThreadCount n (pool s); Some (s\<lparr>pool := p\<rparr>) }"
| "pool_step (SetExpiry n) s = Some (s\<lparr>pool := setExpiryTimeout n (pool s)\<rparr>)"
| "pool_step Reset s = Some (s\<lparr>pool := reset (pool s)\<rparr>)"
| "pool_step (ExitWait w) s = do { p \<leftarrow> exitWait w (pool s); Some (s\<lparr>pool := p\<rparr>) }"
| "pool_step (Enter w) s = do { p \<leftarrow> run_enter w (pool s); Some (s\<lparr>pool := p\<rparr>) }"
| "pool_step (TaskDone w) s = do {
     u \<leftarrow> worker (pool s) w;
     p \<leftarrow> run_done w (pool s);
     Some (s\<lparr>pool := p, completed := (case loc u of Busy t \<Rightarrow> {#t#} | _ \<Rightarrow> {#}) + completed s\<rparr>)
   }"
| "pool_step (Wake w) s = do { p \<leftarrow> run_wake w (pool s); Some (s\<lparr>pool := p\<rparr>) }"

text \<open>
  When a step can happen. Sequence numbers of queued tasks must not wrap around. \<open>reset\<close> is called
  by \<open>waitForDone\<close> when the pool is done; only threads that are not in the pool any more are told to exit.
\<close>

fun pool_enabled :: "pool_action \<Rightarrow> thread_pool \<Rightarrow> bool" where
  "pool_enabled (Start t priority) p \<longleftrightarrow> room p \<and> priority \<in> {-128..127}"
| "pool_enabled (TryStartNow t) p \<longleftrightarrow> room p"
| "pool_enabled Release p \<longleftrightarrow> room p"
| "pool_enabled (SetMax n) p \<longleftrightarrow> room p"
| "pool_enabled Reset p \<longleftrightarrow> isDone p"
| "pool_enabled (ExitWait w) p \<longleftrightarrow> w < length (workers p) \<and> w \<notin> set (mAllThreads p)"
| "pool_enabled (Enter w) p \<longleftrightarrow> w < length (workers p) \<and> loc (workers p ! w) = Entering"
| "pool_enabled (TaskDone w) p \<longleftrightarrow> w < length (workers p) \<and> (case loc (workers p ! w) of Busy _ \<Rightarrow> True | _ \<Rightarrow> False)"
| "pool_enabled (Wake w) p \<longleftrightarrow> w < length (workers p) \<and> loc (workers p ! w) = Idle"
| "pool_enabled _ p \<longleftrightarrow> True"

text \<open>The states that a pool comes to by the calls that its users make (and by any steps of its threads).\<close>

inductive pool_reach :: "(pool_action \<Rightarrow> bool) \<Rightarrow> int \<Rightarrow> pool_system \<Rightarrow> bool" for made n where
  create: "pool_reach made n \<lparr>pool = ThreadPool_new n, submitted = {#}, completed = {#}, dropped = {#}\<rparr>"
| step: "pool_reach made n s \<Longrightarrow> made a \<Longrightarrow> pool_enabled a (pool s) \<Longrightarrow> pool_step a s = Some s' \<Longrightarrow> pool_reach made n s'"

fun run_actions :: "pool_action list \<Rightarrow> pool_system \<Rightarrow> pool_system option" where
  "run_actions [] s = Some s"
| "run_actions (a # as) s = (if pool_enabled a (pool s) then do { s \<leftarrow> pool_step a s; run_actions as s } else None)"

lemma pool_reach_run: "pool_reach made n s \<Longrightarrow> \<forall>a \<in> set as. made a \<Longrightarrow> run_actions as s = Some s' \<Longrightarrow> pool_reach made n s'"
  by (induction as arbitrary: s) (auto split: if_splits simp: Option.bind_eq_Some_conv intro: pool_reach.step)

lemma pool_reach_new:
  assumes "run_actions as \<lparr>pool = ThreadPool_new n, submitted = {#}, completed = {#}, dropped = {#}\<rparr> = Some s"
  shows "pool_reach (\<lambda>a. True) n s"
  using pool_reach_run [OF pool_reach.create _ assms, of "\<lambda>a. True"] by simp

text \<open>No task is made up: what was accepted is completed, dropped, or still in the queue or with a thread object.\<close>

definition system_inv :: "pool_system \<Rightarrow> bool" where
  "system_inv s \<longleftrightarrow> pool_inv (pool s) \<and> submitted s = completed s + dropped s + carried (pool s)"

lemma pool_inv_simple [simp]:
  "pool_inv (p\<lparr>mMaxThreadCount := k\<rparr>) = pool_inv p" "pool_inv (p\<lparr>mReservedThreadCount := k\<rparr>) = pool_inv p"
  "pool_inv (p\<lparr>mExpiryTimeout := k\<rparr>) = pool_inv p"
  by (simp_all add: pool_inv_def)

lemma tryStartNow_ok:
  assumes "pool_inv p" "room p"
  shows "\<exists>p' b. tryStartNow t p = Some (p', b) \<and> pool_inv p' \<and> carried p' = (if b then {#t#} else {#}) + carried p"
proof (cases "t = 0 \<or> mAllThreads p \<noteq> [] \<and> mMaxThreadCount p \<le> activeThreadCount p")
  case True
  then have "tryStartNow t p = Some (p, False)" by (auto simp: tryStartNow_def)
  then show ?thesis using assms by (intro exI [of _ p] exI [of _ False]) simp
next
  case False
  then obtain p' b where "tryStart t p = Some (p', b)" "pool_inv p'" "if b then carried p' = add_mset t (carried p) else p' = p"
    using tryStart_ok [of p t] assms by auto
  moreover have "tryStartNow t p = tryStart t p" using False by (auto simp: tryStartNow_def)
  ultimately show ?thesis by (cases b) auto
qed

lemma mset_filter_partition: "mset (map f xs) = filter_mset (\<lambda>x. x = t) (mset (map f xs)) + mset (map f (filter (\<lambda>i. f i \<noteq> t) xs))"
  by (induction xs) auto

lemma cancel_ok:
  assumes "pool_inv p"
  shows "pool_inv (fst (cancel t p))" "carried p = filter_mset (\<lambda>x. x = t) (queued p) + carried (fst (cancel t p))"
proof -
  have q: "queue_ok p" using assms by (simp add: pool_inv_def)
  then have "queue_ok (p\<lparr>mTasks := filter (\<lambda>i. snd (snd i) \<noteq> t) (mTasks p)\<rparr>)"
    by (auto simp: queue_ok_def intro: sorted_wrt_filter)
  then show "pool_inv (fst (cancel t p))" using assms by (simp add: cancel_def queue_cancel_def pool_inv_def)
  have "filter_mset (\<lambda>x. x = 0) (queued p) = {#}" using q by (auto simp: queue_ok_def queued_def filter_mset_eq_conv)
  moreover have "queued p = filter_mset (\<lambda>x. x = t) (queued p) + queued (p\<lparr>mTasks := filter (\<lambda>i. snd (snd i) \<noteq> t) (mTasks p)\<rparr>)"
    using mset_filter_partition [of "\<lambda>i. snd (snd i)" "mTasks p" t] unfolding queued_def by simp
  ultimately show "carried p = filter_mset (\<lambda>x. x = t) (queued p) + carried (fst (cancel t p))"
    by (cases "t = 0") (simp_all add: cancel_def queue_cancel_def carried_def)
qed

lemma isDone_inactive:
  assumes "pool_inv p" "isDone p" "w < length (workers p)"
  shows "\<not> is_active (workers p ! w)"
proof -
  have "sum_list (map (\<lambda>u. of_bool (is_active u) :: int) (workers p)) = 0"
    using assms(1,2) by (simp add: pool_inv_def threads_ok_def isDone_def)
  then have "of_bool (is_active u) = (0 :: int)" if "u \<in> set (workers p)" for u
    using that by (subst (asm) sum_list_nonneg_eq_0_iff) auto
  then show ?thesis using assms(3) by (metis nth_mem of_bool_eq_0_iff)
qed

lemma reset_ok:
  assumes "pool_inv p" "isDone p"
  shows "pool_inv (reset p)" "carried (reset p) = carried p"
proof -
  have th: "threads_ok p" using assms(1) by (simp add: pool_inv_def)
  have "thread_ok False False False (workers p ! w)" if w: "w < length (workers p)" for w
    using isDone_inactive [OF assms w] threads_okD(3) [OF th w]
    by (auto simp: thread_ok_def is_active_def split: location.splits)
  then have "threads_ok (reset p)" using th by (simp add: threads_ok_def reset_def)
  then show "pool_inv (reset p)" using assms(1) by (simp add: pool_inv_def reset_def)
  show "carried (reset p) = carried p" by (simp add: reset_def)
qed

lemma exitWait_ok:
  assumes ok: "pool_inv p" and w: "w < length (workers p)" "w \<notin> set (mAllThreads p)"
  shows "\<exists>p'. exitWait w p = Some p' \<and> pool_inv p' \<and> carried p' = carried p"
proof -
  have th: "threads_ok p" using ok by (simp add: pool_inv_def)
  let ?u = "(workers p ! w)\<lparr>mExit := True\<rparr>"
  let ?p = "p\<lparr>workers := (workers p)[w := ?u]\<rparr>"
  have "threads_ok (p\<lparr>workers := (workers p)[w := ?u], mWaitingThreads := mWaitingThreads p, mExpiredThreads := mExpiredThreads p,
      mActiveThreadCount := mActiveThreadCount p\<rparr>)"
    using th w threads_okD(3) [OF th w(1)]
    by (intro threads_ok_update [OF th w(1)]) (auto simp: threads_ok_def thread_ok_def is_active_def split: location.splits)
  then have "pool_inv ?p" using ok by (simp add: pool_inv_def)
  moreover have "tasks_of ?u = tasks_of (workers p ! w)" by (cases "workers p ! w") (simp add: tasks_of_def)
  then have "carried ?p = carried p" using carried_update [OF w(1), of ?u] by simp
  ultimately show ?thesis using w by (simp add: exitWait_def worker_def set_worker_def)
qed

lemma pool_step_ok:
  assumes "system_inv s" "pool_enabled a (pool s)"
  shows "\<exists>s'. pool_step a s = Some s' \<and> system_inv s'"
proof -
  have ok: "pool_inv (pool s)" and eq: "submitted s = completed s + dropped s + carried (pool s)"
    using assms(1) by (simp_all add: system_inv_def)
  show ?thesis
  proof (cases a)
    case (Start t priority)
    have "\<exists>p'. start t priority (pool s) = Some p' \<and> pool_inv p' \<and> carried p' = task_mset t + carried (pool s)"
      using start_ok [OF ok, of t priority] assms(2) Start ok by (cases "t = 0") (simp_all add: start_def task_mset_def)
    then show ?thesis using Start eq by (auto simp: system_inv_def)
  next
    case (TryStartNow t)
    then show ?thesis using tryStartNow_ok [OF ok, of t] assms(2) eq by (auto simp: system_inv_def split_beta)
  next
    case (Cancel t)
    then show ?thesis using cancel_ok [OF ok, of t] eq by (simp add: system_inv_def)
  next
    case Clear
    have "pool_inv (clear (pool s))" using ok by (simp add: clear_def pool_inv_def queue_ok_def)
    then show ?thesis using Clear eq by (simp add: system_inv_def carried_def queued_def clear_def)
  next
    case Release
    then show ?thesis
      using tryToStartMoreThreads_ok [of "(pool s)\<lparr>mReservedThreadCount := mReservedThreadCount (pool s) - 1\<rparr>"] ok assms(2) eq
      by (auto simp: releaseThread_def room_def system_inv_def)
  next
    case (SetMax n)
    then show ?thesis
      using tryToStartMoreThreads_ok [of "(pool s)\<lparr>mMaxThreadCount := n\<rparr>"] ok assms(2) eq
      by (auto simp: setMaxThreadCount_def room_def system_inv_def)
  next
    case Reset
    then show ?thesis using reset_ok [OF ok] assms(2) eq by (simp add: system_inv_def)
  next
    case (ExitWait w)
    then show ?thesis using exitWait_ok [OF ok, of w] assms(2) eq by (auto simp: system_inv_def)
  next
    case (Enter w)
    then show ?thesis using run_enter_ok [OF ok, of w] assms(2) eq by (auto simp: system_inv_def)
  next
    case (TaskDone w)
    then obtain t where w: "w < length (workers (pool s))" "loc (workers (pool s) ! w) = Busy t"
      using assms(2) by (auto split: location.splits)
    then show ?thesis using run_done_ok [OF ok w] TaskDone eq by (auto simp: system_inv_def worker_def)
  next
    case (Wake w)
    then show ?thesis using run_wake_ok [OF ok, of w] assms(2) eq by (auto simp: system_inv_def)
  qed (use ok eq in \<open>simp_all add: system_inv_def reserveThread_def setExpiryTimeout_def\<close>)
qed

lemma pool_reach_inv: "pool_reach made n s \<Longrightarrow> system_inv s"
proof (induction rule: pool_reach.induct)
  case create
  show ?case
    by (simp add: system_inv_def pool_inv_def queue_ok_def threads_ok_def carried_def queued_def ThreadPool_new_def)
next
  case (step s a s')
  then show ?case using pool_step_ok [of s a] by auto
qed


text \<open>A step of a thread leaves the other threads as they are.\<close>

definition elsewhere :: "thread \<Rightarrow> thread_pool \<Rightarrow> thread_pool \<Rightarrow> bool" where
  "elsewhere w p p' \<longleftrightarrow> length (workers p') = length (workers p) \<and> mAllThreads p' = mAllThreads p \<and>
     (\<forall>v. v \<noteq> w \<longrightarrow> workers p' ! v = workers p ! v)"

lemma elsewhere_run:
  "run_task w t p = Some p' \<Longrightarrow> elsewhere w p p'"
  "run_end w p = Some p' \<Longrightarrow> elsewhere w p p'"
  "run_expire w p = Some p' \<Longrightarrow> elsewhere w p p'"
  by (auto simp: run_task_def run_end_def run_expire_def registerThreadInactive_def set_worker_def elsewhere_def Option.bind_eq_Some_conv)

lemma elsewhere_idle: "run_idle w p = Some p' \<Longrightarrow> elsewhere w p p'"
  by (auto simp: run_idle_def registerThreadInactive_def set_worker_def Option.bind_eq_Some_conv elsewhere_run split: if_splits)
    (simp_all add: elsewhere_def)

lemma elsewhere_workers: "workers q = (workers p)[w := u] \<Longrightarrow> mAllThreads q = mAllThreads p \<Longrightarrow> elsewhere w q p' \<Longrightarrow> elsewhere w p p'"
  by (simp add: elsewhere_def)

lemma elsewhere_same: "workers q = workers p \<Longrightarrow> mAllThreads q = mAllThreads p \<Longrightarrow> elsewhere w q p' \<Longrightarrow> elsewhere w p p'"
  by (simp add: elsewhere_def)

lemma elsewhere_fetch: "run_fetch w p = Some p' \<Longrightarrow> elsewhere w p p'"
proof -
  assume "run_fetch w p = Some p'"
  then have "run_idle w p = Some p' \<or> run_idle w (fst (queue_pop p)) = Some p' \<or> run_task w (snd (queue_pop p)) (fst (queue_pop p)) = Some p'"
    by (auto simp: run_fetch_def Option.bind_eq_Some_conv split_beta Let_def split: if_splits)
  moreover have "workers (fst (queue_pop p)) = workers p" "mAllThreads (fst (queue_pop p)) = mAllThreads p"
    by (simp_all add: queue_pop_def)
  ultimately show ?thesis using elsewhere_idle elsewhere_run(1) elsewhere_same by metis
qed

lemma elsewhere_loop: "run_loop w p = Some p' \<Longrightarrow> elsewhere w p p'"
proof -
  assume "run_loop w p = Some p'"
  then obtain u where "run_end w p = Some p' \<or> run_task w (mTask u) (set_worker w (u\<lparr>mTask := 0\<rparr>) p) = Some p' \<or>
      run_fetch w (set_worker w (u\<lparr>mTask := 0\<rparr>) p) = Some p'"
    by (auto simp: run_loop_def Option.bind_eq_Some_conv Let_def split: if_splits)
  moreover have "workers (set_worker w (u\<lparr>mTask := 0\<rparr>) p) = (workers p)[w := u\<lparr>mTask := 0\<rparr>]"
    "mAllThreads (set_worker w (u\<lparr>mTask := 0\<rparr>) p) = mAllThreads p" by (simp_all add: set_worker_def)
  ultimately show ?thesis using elsewhere_run(1,2) elsewhere_fetch elsewhere_workers by metis
qed

lemma elsewhere_steps:
  "run_enter w p = Some p' \<Longrightarrow> elsewhere w p p'"
  "run_done w p = Some p' \<Longrightarrow> elsewhere w p p'"
  "run_wake w p = Some p' \<Longrightarrow> elsewhere w p p'"
proof -
  show "elsewhere w p p'" if "run_enter w p = Some p'"
    using that elsewhere_loop by (fastforce simp: run_enter_def Option.bind_eq_Some_conv set_worker_def elsewhere_def)
  show "elsewhere w p p'" if "run_done w p = Some p'"
    using that elsewhere_fetch by (fastforce simp: run_done_def elsewhere_def)
  let ?r = "p\<lparr>mActiveThreadCount := mActiveThreadCount p + 1, mWaitingThreads := remove1 w (mWaitingThreads p)\<rparr>"
  assume "run_wake w p = Some p'"
  then have "run_expire w ?r = Some p' \<or> run_loop w ?r = Some p' \<or> (\<exists>q. workers q = workers p \<and> mAllThreads q = mAllThreads p \<and> run_end w q = Some p')"
    by (auto simp: run_wake_def registerThreadInactive_def Let_def Option.bind_eq_Some_conv split: if_splits)
  then show "elsewhere w p p'"
    using elsewhere_run(2,3) elsewhere_loop elsewhere_same [of ?r p] elsewhere_same [of _ p w p'] by auto
qed

lemma run_wake_slot:
  "run_wake w p = Some p' \<Longrightarrow> w \<notin> set (mAllThreads p) \<Longrightarrow> mTask (workers p' ! w) = mTask (workers p ! w)"
  by (auto simp: run_wake_def Let_def dcheck_def registerThreadInactive_def run_end_def worker_def set_worker_def Option.bind_eq_Some_conv
      split: if_splits)

text \<open>Thread objects outside the pool stay outside and keep their task; new ones are in the pool.\<close>

definition keeps :: "thread_pool \<Rightarrow> thread_pool \<Rightarrow> bool" where
  "keeps p p' \<longleftrightarrow> length (workers p) \<le> length (workers p') \<and>
     (\<forall>v < length (workers p). (v \<in> set (mAllThreads p') \<longleftrightarrow> v \<in> set (mAllThreads p)) \<and>
        (v \<notin> set (mAllThreads p) \<longrightarrow> mTask (workers p' ! v) = mTask (workers p ! v))) \<and>
     (\<forall>v < length (workers p'). length (workers p) \<le> v \<longrightarrow> v \<in> set (mAllThreads p'))"

lemma keeps_trans: "keeps p q \<Longrightarrow> keeps q r \<Longrightarrow> keeps p r"
  unfolding keeps_def by (smt (verit, ccfv_SIG) le_trans less_le_trans not_le)

lemma keeps_same: "workers p' = workers p \<Longrightarrow> mAllThreads p' = mAllThreads p \<Longrightarrow> keeps p p'"
  by (simp add: keeps_def)

lemma keeps_elsewhere:
  assumes "elsewhere w p p'" "w \<in> set (mAllThreads p) \<or> mTask (workers p' ! w) = mTask (workers p ! w)"
  shows "keeps p p'"
  using assms by (auto simp: keeps_def elsewhere_def)

lemma abandoned_keeps:
  assumes "keeps p p'"
  shows "abandoned p' = abandoned p"
proof -
  let ?f = "\<lambda>p w. if w \<in> set (mAllThreads p) then {#} else task_mset (mTask (workers p ! w))"
  let ?n = "length (workers p)" and ?m = "length (workers p')"
  have "[0..<?m] = [0..<?n] @ [?n..<?m]" using assms upt_add_eq_append [of 0 ?n "?m - ?n"] by (simp add: keeps_def)
  moreover have "map (?f p') [0..<?n] = map (?f p) [0..<?n]" using assms by (simp add: keeps_def)
  moreover have "map (?f p') [?n..<?m] = map (\<lambda>w. {#}) [?n..<?m]" using assms by (simp add: keeps_def)
  ultimately show ?thesis by (simp only: abandoned_def map_append sum_list_append) simp
qed

definition pooled :: "thread_pool \<Rightarrow> bool" where
  "pooled p \<longleftrightarrow> set (mWaitingThreads p) \<union> set (mExpiredThreads p) \<subseteq> set (mAllThreads p) \<and>
     set (mAllThreads p) \<subseteq> {..<length (workers p)}"

lemma keeps_setTask: "setTask w t p = Some p' \<Longrightarrow> w \<in> set (mAllThreads p) \<Longrightarrow> keeps p p'"
  by (rule keeps_elsewhere [of w]) (auto simp: setTask_def set_worker_def worker_def elsewhere_def Option.bind_eq_Some_conv)

lemma keeps_restart:
  assumes "do { p \<leftarrow> setTask w t p; thread_start w p } = Some p'" "w \<in> set (mAllThreads p)"
  shows "keeps p p'" "mAllThreads p' = mAllThreads p" "mWaitingThreads p' = mWaitingThreads p"
    "mExpiredThreads p' = mExpiredThreads p" "length (workers p') = length (workers p)"
proof -
  show "keeps p p'"
    using assms by (intro keeps_elsewhere [of w])
      (auto simp: setTask_def thread_start_def set_worker_def worker_def elsewhere_def Option.bind_eq_Some_conv)
  show "mAllThreads p' = mAllThreads p" "mWaitingThreads p' = mWaitingThreads p"
    "mExpiredThreads p' = mExpiredThreads p" "length (workers p') = length (workers p)"
    using assms(1) by (auto simp: setTask_def thread_start_def set_worker_def Option.bind_eq_Some_conv)
qed

lemma keeps_startThread:
  assumes "pooled p" "startThread t p = Some p'"
  shows "keeps p p' \<and> pooled p'"
proof -
  let ?w = "length (workers p)"
  let ?q = "p\<lparr>workers := workers p @ [\<lparr>mTask = 0, mExit = True, loc = Ended\<rparr>], mAllThreads := ?w # mAllThreads p,
    mActiveThreadCount := mActiveThreadCount p + 1\<rparr>"
  have "do { p \<leftarrow> setTask ?w t ?q; thread_start ?w p } = Some p'"
    using assms(2) by (auto simp: startThread_def Let_def dcheck_def split: if_splits)
  note k = keeps_restart [OF this]
  have "keeps p ?q" using assms(1) by (auto simp: keeps_def pooled_def nth_append)
  then show ?thesis using keeps_trans k assms(1) by (auto simp: pooled_def)
qed

lemma keeps_tryStart:
  assumes "pooled p" "tryStart t p = Some (p', b)"
  shows "keeps p p' \<and> pooled p'"
proof (cases "mAllThreads p = []")
  case True
  then show ?thesis using assms keeps_startThread [OF assms(1)] by (auto simp: tryStart_def dcheck_def Option.bind_eq_Some_conv split: if_splits)
next
  case all: False
  show ?thesis
  proof (cases "mMaxThreadCount p \<le> activeThreadCount p")
    case True
    then show ?thesis using assms all keeps_same by (auto simp: tryStart_def dcheck_def split: if_splits)
  next
    case act: False
    show ?thesis
    proof (cases "mWaitingThreads p")
      case (Cons w ws)
      then have "p' = (queue_push t 127 p)\<lparr>mWaitingThreads := ws\<rparr>"
        using assms(2) all act by (auto simp: tryStart_def enqueueTask_def dcheck_def Option.bind_eq_Some_conv split: if_splits)
      then show ?thesis using assms(1) Cons by (auto simp: pooled_def queue_push_def intro: keeps_same)
    next
      case wait: Nil
      show ?thesis
      proof (cases "mExpiredThreads p")
        case Nil
        then have "startThread t p = Some p'"
          using assms(2) all act wait by (auto simp: tryStart_def dcheck_def Option.bind_eq_Some_conv split: if_splits)
        then show ?thesis using keeps_startThread assms(1) by blast
      next
        case (Cons w es)
        let ?q = "p\<lparr>mExpiredThreads := es, mActiveThreadCount := mActiveThreadCount p + 1\<rparr>"
        have "do { p \<leftarrow> setTask w t ?q; thread_start w p } = Some p'"
          using assms(2) all act wait Cons by (auto simp: tryStart_def dcheck_def Option.bind_eq_Some_conv split: if_splits)
        note k = keeps_restart [OF this]
        have "keeps p ?q" by (rule keeps_same) simp_all
        then show ?thesis using keeps_trans k assms(1) Cons by (auto simp: pooled_def)
      qed
    qed
  qed
qed

lemma keeps_round:
  assumes IH: "\<And>q q'. f q = Some q' \<Longrightarrow> pooled q \<longrightarrow> keeps q q'"
    and t: "tryStart (queue_first p) p = Some (q, b)" and c: "(if b then f (fst (queue_pop q)) else Some q) = Some p'" and p: "pooled p"
  shows "keeps p p'"
proof (cases b)
  case True
  have q: "keeps p q" "pooled q" using keeps_tryStart [OF p t] by simp_all
  have "keeps q (fst (queue_pop q))" by (rule keeps_same) (simp_all add: queue_pop_def)
  moreover have "pooled (fst (queue_pop q))" using q(2) by (simp add: queue_pop_def pooled_def)
  then have "keeps (fst (queue_pop q)) p'" using IH c True by simp
  ultimately show ?thesis using q(1) keeps_trans by blast
next
  case False
  then show ?thesis using keeps_tryStart [OF p t] c by simp
qed

lemma keeps_tryToStartMoreThreads:
  assumes "tryToStartMoreThreads p = Some p'"
  shows "pooled p \<longrightarrow> keeps p p'"
proof (rule tryToStartMoreThreads.raw_induct [where P = "\<lambda>p p'. pooled p \<longrightarrow> keeps p p'", OF _ assms], rule impI)
  fix f p p'
  assume IH: "\<And>q q'. f q = Some q' \<Longrightarrow> pooled q \<longrightarrow> keeps q q'"
    and eq: "(if mTasks p = [] then Some p
      else if queue_first p \<noteq> 0 then do {
        (p', started) \<leftarrow> tryStart (queue_first p) p;
        if started then f (fst (queue_pop p')) else Some p'
      }
      else f p) = Some p'" and p: "pooled p"
  show "keeps p p'"
  proof (cases "mTasks p = [] \<or> queue_first p = 0")
    case True
    then show ?thesis using eq IH p keeps_same by (cases "mTasks p = []") simp_all
  next
    case False
    then have e: "do { (p', started) \<leftarrow> tryStart (queue_first p) p; if started then f (fst (queue_pop p')) else Some p' } = Some p'"
      using eq by simp
    then obtain q b where "tryStart (queue_first p) p = Some (q, b)" by (cases "tryStart (queue_first p) p") auto
    then show ?thesis using keeps_round [OF IH] e p by simp
  qed
qed

lemma pool_inv_pooled: "pool_inv p \<Longrightarrow> pooled p"
  unfolding pooled_def
proof
  assume "pool_inv p"
  then have th: "threads_ok p" by (simp add: pool_inv_def)
  show "set (mWaitingThreads p) \<union> set (mExpiredThreads p) \<subseteq> set (mAllThreads p)"
    using threads_okD(1,2) [OF th] by blast
  show "set (mAllThreads p) \<subseteq> {..<length (workers p)}" using th by (simp add: threads_ok_def)
qed

lemma keeps_start:
  assumes "pooled p" "start t priority p = Some p'"
  shows "keeps p p'"
proof -
  consider "p' = p" | b where "tryStart t p = Some (p', b)" | b q w ws where "tryStart t p = Some (q, b)" "mWaitingThreads q = w # ws"
      "setTask w t (q\<lparr>mWaitingThreads := ws\<rparr>) = Some p'"
    | b q where "tryStart t p = Some (q, b)" "p' = queue_push t priority q"
    using assms(2)
    by (auto simp: start_def enqueueTask_def dcheck_def Option.bind_eq_Some_conv split: if_splits list.splits)
  then show ?thesis
  proof cases
    case (3 b q w ws)
    have q: "keeps p q" "pooled q" using keeps_tryStart [OF assms(1) 3(1)] by simp_all
    have "keeps q (q\<lparr>mWaitingThreads := ws\<rparr>)" by (rule keeps_same) simp_all
    moreover have "keeps (q\<lparr>mWaitingThreads := ws\<rparr>) p'"
      using keeps_setTask [OF 3(3)] q(2) 3(2) by (simp add: pooled_def)
    ultimately show ?thesis using q(1) keeps_trans by blast
  next
    case (4 b q)
    then show ?thesis using keeps_tryStart [OF assms(1)] keeps_trans [of p q p'] by (simp add: queue_push_def keeps_same)
  qed (use keeps_tryStart [OF assms(1)] in \<open>auto intro: keeps_same\<close>)
qed

lemma active_pooled:
  assumes "pool_inv p" "w < length (workers p)" "is_active (workers p ! w)"
  shows "w \<in> set (mAllThreads p)"
  using threads_okD(3) [OF _ assms(2)] assms by (auto simp: pool_inv_def thread_ok_def is_active_def split: location.splits)

text \<open>Only \<open>reset\<close> abandons tasks.\<close>

lemma step_keeps:
  assumes ok: "pool_inv (pool s)" and e: "pool_enabled a (pool s)" and st: "pool_step a s = Some s'" and a: "a \<noteq> Reset"
  shows "keeps (pool s) (pool s')"
proof (cases a)
  case (Start t priority)
  then show ?thesis using st keeps_start [OF pool_inv_pooled [OF ok]] by (auto simp: Option.bind_eq_Some_conv)
next
  case (TryStartNow t)
  then obtain p b where "tryStartNow t (pool s) = Some (p, b)" "pool s' = p" using st by (auto simp: Option.bind_eq_Some_conv)
  then show ?thesis using keeps_tryStart [OF pool_inv_pooled [OF ok]]
    by (auto simp: tryStartNow_def keeps_same split: if_splits)
next
  case (Cancel t)
  then show ?thesis using st by (auto simp: cancel_def queue_cancel_def intro: keeps_same)
next
  case Release
  then show ?thesis
    using st keeps_tryToStartMoreThreads [of "(pool s)\<lparr>mReservedThreadCount := mReservedThreadCount (pool s) - 1\<rparr>"] pool_inv_pooled [OF ok]
    by (auto simp: releaseThread_def Option.bind_eq_Some_conv pooled_def keeps_def)
next
  case (SetMax n)
  then show ?thesis
    using st keeps_tryToStartMoreThreads [of "(pool s)\<lparr>mMaxThreadCount := n\<rparr>"] pool_inv_pooled [OF ok]
    by (auto simp: setMaxThreadCount_def Option.bind_eq_Some_conv pooled_def keeps_def split: if_splits)
next
  case (ExitWait w)
  then show ?thesis
    using st by (intro keeps_elsewhere [of w]) (auto simp: exitWait_def worker_def set_worker_def elsewhere_def Option.bind_eq_Some_conv split: if_splits)
next
  case (Enter w)
  then show ?thesis
    using st e active_pooled [OF ok, of w] elsewhere_steps(1) [of w "pool s"]
    by (intro keeps_elsewhere [of w]) (auto simp: Option.bind_eq_Some_conv is_active_def)
next
  case (TaskDone w)
  then obtain p' c where p': "run_done w (pool s) = Some p'" "s' = s\<lparr>pool := p', completed := c\<rparr>"
    using st by (auto simp: Option.bind_eq_Some_conv)
  have "w < length (workers (pool s))" "is_active (workers (pool s) ! w)"
    using TaskDone e by (auto simp: is_active_def split: location.splits)
  then show ?thesis
    using keeps_elsewhere [OF elsewhere_steps(2) [OF p'(1)]] active_pooled [OF ok, of w] p'(2) by simp
next
  case (Wake w)
  then obtain p' where p': "run_wake w (pool s) = Some p'" "s' = s\<lparr>pool := p'\<rparr>" using st by (auto simp: Option.bind_eq_Some_conv)
  show ?thesis using keeps_elsewhere [OF elsewhere_steps(3) [OF p'(1)]] run_wake_slot [OF p'(1)] p'(2) by auto
qed (use st a in \<open>auto simp: clear_def reserveThread_def setExpiryTimeout_def intro: keeps_same\<close>)

text \<open>What the pool holds and what it has abandoned.\<close>

lemma carried_split:
  assumes "pool_inv p"
  shows "carried p = held p + abandoned p"
proof -
  have th: "threads_ok p" using assms by (simp add: pool_inv_def)
  let ?n = "length (workers p)" and ?f = "\<lambda>w. tasks_of (workers p ! w)"
  have sub: "set (mAllThreads p) \<subseteq> set [0..<?n]" "distinct (mAllThreads p)" using th by (auto simp: threads_ok_def)
  have out: "?f w = task_mset (mTask (workers p ! w))" if "w < ?n" "w \<notin> set (mAllThreads p)" for w
    using threads_okD(3) [OF th that(1)] that(2) by (auto simp: thread_ok_def tasks_of_def task_mset_def split: location.splits)
  have "map tasks_of (workers p) = map ?f [0..<?n]" by (intro nth_equalityI) simp_all
  then have "sum_list (map tasks_of (workers p)) = (\<Sum>w \<in> {..<?n}. ?f w)"
    by (simp only: sum_list_distinct_conv_sum_set distinct_upt set_upt atLeast0LessThan)
  also have "\<dots> = (\<Sum>w \<in> {..<?n} - set (mAllThreads p). ?f w) + (\<Sum>w \<in> set (mAllThreads p). ?f w)"
    by (rule sum.subset_diff) (use sub in auto)
  also have "(\<Sum>w \<in> {..<?n} - set (mAllThreads p). ?f w) =
      (\<Sum>w \<in> {..<?n}. if w \<in> set (mAllThreads p) then {#} else task_mset (mTask (workers p ! w)))"
    by (rule sum.mono_neutral_cong_left) (auto simp: out)
  also have "\<dots> = abandoned p"
    unfolding abandoned_def by (simp only: sum_list_distinct_conv_sum_set distinct_upt set_upt atLeast0LessThan)
  also have "(\<Sum>w \<in> set (mAllThreads p). ?f w) = sum_list (map ?f (mAllThreads p))"
    using sub(2) by (simp only: sum_list_distinct_conv_sum_set)
  finally show ?thesis unfolding carried_def held_def by (simp only: ac_simps)
qed

lemma step_abandons:
  assumes ok: "pool_inv (pool s)" and e: "pool_enabled a (pool s)" and st: "pool_step a s = Some s'"
  shows "abandoned (pool s') = abandoned (pool s) + (if a = Reset then held (pool s) else {#})"
proof (cases "a = Reset")
  case True
  then have p: "pool s' = reset (pool s)" "isDone (pool s)" using st e by auto
  have "held (reset (pool s)) = {#}" using p(2) by (simp add: held_def reset_def isDone_def queued_def)
  then have "abandoned (pool s') = carried (pool s)"
    using carried_split [OF reset_ok(1) [OF ok p(2)]] reset_ok(2) [OF ok p(2)] p(1) by simp
  then show ?thesis using carried_split [OF ok] True by simp
next
  case False
  then show ?thesis using abandoned_keeps [OF step_keeps [OF ok e st]] by simp
qed

lemma never_abandoned: "pool_reach made n s \<Longrightarrow> \<not> made Reset \<Longrightarrow> abandoned (pool s) = {#}"
proof (induction rule: pool_reach.induct)
  case create
  show ?case by (simp add: abandoned_def ThreadPool_new_def)
next
  case (step s a s')
  then have "pool_inv (pool s)" "a \<noteq> Reset" using pool_reach_inv [OF step.hyps(1)] by (auto simp: system_inv_def)
  then show ?case using step_abandons step by simp
qed


section \<open>What the pool promises\<close>

text \<open>
  C20: whatever calls are made and however threads are scheduled, every step that can happen passes the
  assertions of the code, and every task that was accepted is in exactly one place: it is completed, was cancelled, is held by
  the pool (in its queue or with one of its threads), or is abandoned, with a thread object that is not in the pool any
  more. Only \<open>reset\<close> abandons tasks: it abandons exactly the tasks that the pool held, those handed to
  threads that had not woken yet; without it no task is ever abandoned, and no step brings an abandoned task back. In particular the
  loop of \<open>tryToStartMoreThreads\<close>, which queues a task a second time when it wakes a thread, ends and
  neither loses nor duplicates a task.
\<close>

theorem thread_pool_tasks:
  assumes "pool_reach made n s"
  shows "pool_inv (pool s) \<and> submitted s = completed s + dropped s + held (pool s) + abandoned (pool s) \<and>
    (\<forall>a. pool_enabled a (pool s) \<longrightarrow> (\<exists>s'. pool_step a s = Some s' \<and>
       abandoned (pool s') = abandoned (pool s) + (if a = Reset then held (pool s) else {#}))) \<and>
    (\<not> made Reset \<longrightarrow> abandoned (pool s) = {#})"
proof (intro conjI allI impI)
  have inv: "system_inv s" by (rule pool_reach_inv [OF assms])
  show ok: "pool_inv (pool s)" using inv by (simp add: system_inv_def)
  show "submitted s = completed s + dropped s + held (pool s) + abandoned (pool s)"
    using inv carried_split [OF ok] by (simp add: system_inv_def ac_simps)
  show "\<exists>s'. pool_step a s = Some s' \<and> abandoned (pool s') = abandoned (pool s) + (if a = Reset then held (pool s) else {#})"
    if "pool_enabled a (pool s)" for a
    using pool_step_ok [OF inv that] step_abandons [OF ok that] by blast
  show "abandoned (pool s) = {#}" if "\<not> made Reset" by (rule never_abandoned [OF assms that])
qed

theorem thread_pool_tasks_witness:
  "\<exists>s s'. pool_reach (\<lambda>a. a \<noteq> Reset) 2 s \<and> submitted s = {#8, 7#} \<and> submitted s = completed s + dropped s + held (pool s) \<and>
     pool_step (TaskDone 0) s = Some s'"
proof -
  let ?s = "\<lparr>pool = ThreadPool_new 2, submitted = {#}, completed = {#}, dropped = {#}\<rparr>"
  obtain s where s: "run_actions [Start 7 0, Enter 0, Start 8 0] ?s = Some s" "submitted s = {#8, 7#}" "pool_enabled (TaskDone 0) (pool s)"
    by (simp add: ThreadPool_new_def start_def tryStart_def startThread_def setTask_def thread_start_def worker_def
        set_worker_def room_def run_enter_def run_loop_def run_task_def activeThreadCount_def task_mset_def)
  have r: "pool_reach (\<lambda>a. a \<noteq> Reset) 2 s" by (rule pool_reach_run [OF pool_reach.create _ s(1)]) simp
  note t = thread_pool_tasks [OF r]
  have "abandoned (pool s) = {#}" "submitted s = completed s + dropped s + held (pool s) + abandoned (pool s)" using t by simp_all
  moreover obtain s' where "pool_step (TaskDone 0) s = Some s'" using t s(3) by blast
  ultimately show ?thesis using r s(2) by (intro exI [of _ s] exI [of _ s']) simp
qed

text \<open>
  When the pool says that it is done, no thread is about to run or running a task, the queue is empty,
  and every accepted task was completed or cancelled, except for tasks handed to a thread that
  has not yet woken or has been removed from the pool.
\<close>

theorem thread_pool_done:
  assumes "pool_reach made n s" "isDone (pool s)"
  shows "submitted s = completed s + dropped s + sum_list (map (\<lambda>u. task_mset (mTask u)) (workers (pool s))) \<and>
    (\<forall>w < length (workers (pool s)). loc (workers (pool s) ! w) \<in> {Idle, Ended} \<and>
      (mTask (workers (pool s) ! w) \<noteq> 0 \<longrightarrow> w \<notin> set (mWaitingThreads (pool s)) \<and> w \<notin> set (mExpiredThreads (pool s))))"
proof -
  have ok: "pool_inv (pool s)" and eq: "submitted s = completed s + dropped s + carried (pool s)"
    using pool_reach_inv [OF assms(1)] by (simp_all add: system_inv_def)
  have th: "threads_ok (pool s)" using ok by (simp add: pool_inv_def)
  have l: "loc (workers (pool s) ! w) \<in> {Idle, Ended}" if "w < length (workers (pool s))" for w
    using isDone_inactive [OF ok assms(2) that] by (simp add: is_active_def split: location.splits)
  then have "tasks_of u = task_mset (mTask u)" if "u \<in> set (workers (pool s))" for u
    using that by (fastforce simp: in_set_conv_nth tasks_of_def task_mset_def)
  then have "map tasks_of (workers (pool s)) = map (\<lambda>u. task_mset (mTask u)) (workers (pool s))" by (intro map_cong) simp_all
  note m = arg_cong [OF this, of sum_list]
  have "carried (pool s) = sum_list (map (\<lambda>u. task_mset (mTask u)) (workers (pool s)))"
    using assms(2) by (simp add: carried_def queued_def isDone_def m)
  then show ?thesis using eq l threads_okD(1,2) [OF th] by auto
qed

theorem thread_pool_done_witness:
  "\<exists>s. pool_reach (\<lambda>a. True) 2 s \<and> isDone (pool s) \<and> submitted s = {#7#} \<and>
     submitted s = completed s + dropped s + sum_list (map (\<lambda>u. task_mset (mTask u)) (workers (pool s)))"
proof -
  let ?s = "\<lparr>pool = ThreadPool_new 2, submitted = {#}, completed = {#}, dropped = {#}\<rparr>"
  obtain s where s: "run_actions [Start 7 0, Enter 0, TaskDone 0] ?s = Some s" "submitted s = {#7#}" "isDone (pool s)"
    by (simp add: ThreadPool_new_def start_def tryStart_def startThread_def setTask_def thread_start_def worker_def
        set_worker_def room_def run_enter_def run_loop_def run_task_def run_done_def run_fetch_def run_idle_def isTooManyThreadsActive_def
        activeThreadCount_def queue_pop_def queue_first_def registerThreadInactive_def isDone_def task_mset_def)
  then have "pool_reach (\<lambda>a. True) 2 s" by (intro pool_reach_new)
  with thread_pool_done [OF this] s show ?thesis by blast
qed

text \<open>A run in which a task is lost, in the steps of the system.\<close>

definition lost_run :: "pool_action list" where
  "lost_run = [Start 7 0, Enter 0, TaskDone 0, Reserve, Start 8 0, Reset, Wake 0, ExitWait 0]"

lemma lost_run_result:
  "run_actions lost_run \<lparr>pool = ThreadPool_new 1, submitted = {#}, completed = {#}, dropped = {#}\<rparr> =
     Some \<lparr>pool = \<lparr>mTasks = [], mIdCounter = 0, mWaitingThreads = [], mExpiredThreads = [],
       mAllThreads = [], mTasksCompletedCount = 1, mTasksDispatchedCount = 1, mExpiryTimeout = 30000,
       mActiveThreadCount = 0, mReservedThreadCount = 1, mMaxThreadCount = 1,
       workers = [\<lparr>mTask = 8, mExit = True, loc = Ended\<rparr>]\<rparr>, submitted = {#8, 7#}, completed = {#7#}, dropped = {#}\<rparr>"
  by (simp add: lost_run_def ThreadPool_new_def start_def tryStart_def startThread_def setTask_def thread_start_def worker_def
      set_worker_def room_def run_enter_def run_loop_def run_task_def run_done_def run_fetch_def run_idle_def isTooManyThreadsActive_def
      activeThreadCount_def queue_pop_def queue_first_def registerThreadInactive_def reserveThread_def isDone_def reset_def
      run_wake_def run_end_def exitWait_def task_mset_def)

text \<open>
  C22: that exception is real. With one thread at most, a first task is run and its thread waits; a thread is reserved
  and a second task started, which is handed to the waiting thread; \<open>waitForDone\<close> finds the pool done before
  the thread wakes, takes the thread out of the pool and makes it end. The pool is done and has no
  threads, and the second task was neither run nor cancelled.
\<close>

theorem thread_pool_lost_task:
  "\<exists>s. pool_reach (\<lambda>a. True) 1 s \<and> isDone (pool s) \<and> mAllThreads (pool s) = [] \<and>
     map loc (workers (pool s)) = [Ended] \<and> submitted s = {#7, 8#} \<and> completed s = {#7#} \<and> dropped s = {#}"
  using pool_reach_new [OF lost_run_result] by (intro exI conjI, assumption) (simp_all add: isDone_def)
end
