(* ===== verification/ThreadPoolProgress.thy ===== *)
theory ThreadPoolProgress
  imports ThreadPool
begin

text \<open>
  Progress of \<open>ThreadPool\<close> (\<open>src/libs/core/source/thread/octk_thread_pool.cpp\<close>): a queued task always has a thread
  that is going to look at the queue, and the steps of the threads that are not waiting finish all
  work, when no threads are reserved and at least one thread is allowed.
\<close>

section \<open>Threads that are neither waiting nor expired\<close>

definition pending :: "thread_pool \<Rightarrow> int" where
  "pending p = int (length (mAllThreads p)) - int (length (mExpiredThreads p)) - int (length (mWaitingThreads p))"

definition resting :: "worker_thread \<Rightarrow> int" where
  "resting u = (case loc u of Entering \<Rightarrow> 1 | Idle \<Rightarrow> 1 | _ \<Rightarrow> 0)"

text \<open>
  The steps that are left at most: three for a thread that is about to run or was woken, two for one that runs a task, one for
  one that waits, and one for a queued task. Then those left beside the ones of a thread in its section.
\<close>

definition work :: "thread_pool \<Rightarrow> int" where
  "work p = int (length (mTasks p)) + 2 * pending p + sum_list (map resting (workers p))"

definition work_beside :: "thread \<Rightarrow> thread_pool \<Rightarrow> int" where
  "work_beside w p = int (length (mTasks p)) + 2 * pending p + sum_list (map resting ((workers p)[w := \<lparr>mTask = 0, mExit = False, loc = Ended\<rparr>]))"

definition served :: "thread_pool \<Rightarrow> bool" where
  "served p \<longleftrightarrow> (mTasks p \<noteq> [] \<longrightarrow> 1 \<le> pending p)"

definition limits :: "thread_pool \<Rightarrow> int \<times> int" where
  "limits p = (mMaxThreadCount p, mReservedThreadCount p)"

lemma work_work_beside: "w < length (workers p) \<Longrightarrow> work p = work_beside w p + resting (workers p ! w)"
  using sum_list_update_cancel [of w "workers p" resting "\<lparr>mTask = 0, mExit = False, loc = Ended\<rparr>"]
  by (simp add: work_def work_beside_def resting_def)

lemma work_set_beside:
  assumes "w < length (workers p)" "workers p' = (workers p)[w := u]" "mTasks p' = mTasks p"
  shows "work p' = work_beside w p + resting u + 2 * (pending p' - pending p)"
  using work_work_beside [of w p'] assms by (simp add: work_beside_def algebra_simps)

lemma activeThreadCount_pending: "activeThreadCount p = pending p + mReservedThreadCount p"
  by (simp add: activeThreadCount_def pending_def)

lemma distinct_subset_length: "distinct xs \<Longrightarrow> set xs \<subseteq> set ys \<Longrightarrow> length xs \<le> length ys"
  by (metis List.finite_set card_length card_mono distinct_card order_trans)

lemma pending_threads:
  assumes ok: "pool_inv p"
  shows "0 \<le> pending p"
    "pending p = int (card {w \<in> set (mAllThreads p). w \<notin> set (mWaitingThreads p) \<and> w \<notin> set (mExpiredThreads p)})"
proof -
  have th: "threads_ok p" using ok by (simp add: pool_inv_def)
  let ?A = "set (mAllThreads p)" and ?W = "set (mWaitingThreads p)" and ?E = "set (mExpiredThreads p)"
  have d: "distinct (mAllThreads p)" "distinct (mWaitingThreads p)" "distinct (mExpiredThreads p)" using th by (simp_all add: threads_ok_def)
  have s: "?W \<union> ?E \<subseteq> ?A" "?W \<inter> ?E = {}" using threads_okD(1,2) [OF th] by auto (metis location.distinct)+
  have "{w \<in> ?A. w \<notin> ?W \<and> w \<notin> ?E} = ?A - (?W \<union> ?E)" by auto
  moreover have "card (?W \<union> ?E) = length (mWaitingThreads p) + length (mExpiredThreads p)"
    using d s by (simp add: card_Un_disjoint distinct_card)
  moreover have "card (?W \<union> ?E) \<le> card ?A" using s(1) by (intro card_mono) simp_all
  moreover have "card ?A = length (mAllThreads p)" using d by (simp add: distinct_card)
  ultimately show eq: "pending p = int (card {w \<in> ?A. w \<notin> ?W \<and> w \<notin> ?E})"
    using s by (simp add: card_Diff_subset pending_def)
  show "0 \<le> pending p" by (simp add: eq)
qed


section \<open>The steps of threads\<close>

lemma run_task_work:
  assumes "run_task w t p = Some p'" "w < length (workers p)"
  shows "work p' = work_beside w p" "pending p' = pending p" "mTasks p' = mTasks p" "limits p' = limits p" "mAllThreads p' = mAllThreads p"
proof -
  have p': "p' = p\<lparr>mTasksDispatchedCount := add64 (mTasksDispatchedCount p) 1, workers := (workers p)[w := (workers p ! w)\<lparr>loc := Busy t\<rparr>]\<rparr>"
    using assms by (auto simp: run_task_def worker_def set_worker_def)
  show p: "pending p' = pending p" "mTasks p' = mTasks p" "limits p' = limits p" "mAllThreads p' = mAllThreads p"
    by (simp_all add: p' pending_def limits_def)
  show "work p' = work_beside w p"
    using work_set_beside [OF assms(2), of p' "(workers p ! w)\<lparr>loc := Busy t\<rparr>"] p by (simp add: p' resting_def)
qed

lemma run_expire_work:
  assumes "run_expire w p = Some p'" "w < length (workers p)"
  shows "work p' = work_beside w p - 2" "pending p' = pending p - 1" "mTasks p' = mTasks p" "limits p' = limits p" "mAllThreads p' = mAllThreads p"
proof -
  have p': "p' = p\<lparr>mExpiredThreads := mExpiredThreads p @ [w], mActiveThreadCount := mActiveThreadCount p - 1,
      workers := (workers p)[w := (workers p ! w)\<lparr>loc := Ended\<rparr>]\<rparr>"
    using assms by (auto simp: dcheck_def run_expire_def registerThreadInactive_def run_end_def worker_def set_worker_def split: if_splits)
  show p: "pending p' = pending p - 1" "mTasks p' = mTasks p" "limits p' = limits p" "mAllThreads p' = mAllThreads p"
    by (simp_all add: p' pending_def limits_def)
  show "work p' = work_beside w p - 2"
    using work_set_beside [OF assms(2), of p' "(workers p ! w)\<lparr>loc := Ended\<rparr>"] p by (simp add: p' resting_def)
qed

lemma run_idle_work:
  assumes "run_idle w p = Some p'" "w < length (workers p)"
  shows "work p' < work_beside w p \<and> pending p' = pending p - 1 \<and> mTasks p' = mTasks p \<and> limits p' = limits p \<and> mAllThreads p' = mAllThreads p"
proof (cases "isTooManyThreadsActive p \<or> mExit (workers p ! w)")
  case True
  then show ?thesis using run_expire_work [of w p p'] assms by (simp add: run_idle_def worker_def)
next
  case False
  then have p': "p' = p\<lparr>mWaitingThreads := mWaitingThreads p @ [w], mActiveThreadCount := mActiveThreadCount p - 1,
      workers := (workers p)[w := (workers p ! w)\<lparr>loc := Idle\<rparr>]\<rparr>"
    using assms by (auto simp: dcheck_def run_idle_def registerThreadInactive_def worker_def set_worker_def split: if_splits)
  have p: "pending p' = pending p - 1" "mTasks p' = mTasks p" "limits p' = limits p" "mAllThreads p' = mAllThreads p"
    by (simp_all add: p' pending_def limits_def)
  then show ?thesis
    using work_set_beside [OF assms(2), of p' "(workers p ! w)\<lparr>loc := Idle\<rparr>"] by (simp add: p' resting_def)
qed

text \<open>A thread that looks at the queue takes a task, or there is none, or there are other threads that will look.\<close>

lemma run_fetch_work:
  assumes "run_fetch w p = Some p'" "w < length (workers p)" "queue_ok p" "\<not> mExit (workers p ! w)" "1 \<le> pending p"
  shows "work p' < work_beside w p \<and> served p' \<and> limits p' = limits p \<and> mAllThreads p' = mAllThreads p"
proof -
  let ?q = "fst (queue_pop p)" and ?t = "snd (queue_pop p)"
  note pop = queue_pop_ok [OF assms(3)]
  have fetch: "run_fetch w p = (if isTooManyThreadsActive p then run_idle w p else if ?t = 0 then run_idle w ?q else run_task w ?t ?q)"
    using assms(2-) by (simp add: run_fetch_def worker_def split_beta)
  show ?thesis
  proof (cases "isTooManyThreadsActive p")
    case True
    then have "1 < pending p" by (simp add: isTooManyThreadsActive_def activeThreadCount_pending)
    then show ?thesis using run_idle_work [of w p p'] assms fetch True by (auto simp: served_def)
  next
    case few: False
    show ?thesis
    proof (cases "?t = 0")
      case True
      then show ?thesis using run_idle_work [of w p p'] assms(1,2) fetch few pop(5,6) by (auto simp: served_def)
    next
      case False
      then obtain i "is" where "mTasks p = i # is" "?q = p\<lparr>mTasks := is\<rparr>" using pop(5) by (cases "mTasks p") (auto simp: queue_pop_def split: if_splits)
      then have "work_beside w ?q = work_beside w p - 1" "pending ?q = pending p" "limits ?q = limits p" "mAllThreads ?q = mAllThreads p"
        by (simp_all add: work_beside_def pending_def limits_def)
      then show ?thesis using run_task_work [of w ?t ?q p'] assms(1,2,5) fetch few False pop(3) by (auto simp: served_def)
    qed
  qed
qed

lemma run_loop_work:
  assumes "run_loop w p = Some p'" "w < length (workers p)" "queue_ok p" "\<not> mExit (workers p ! w)" "1 \<le> pending p"
  shows "work p' \<le> work_beside w p \<and> served p' \<and> limits p' = limits p \<and> mAllThreads p' = mAllThreads p"
proof -
  let ?q = "p\<lparr>workers := (workers p)[w := (workers p ! w)\<lparr>mTask := 0\<rparr>]\<rparr>"
  have l: "run_loop w p = (if mTask (workers p ! w) \<noteq> 0 then run_task w (mTask (workers p ! w)) ?q else run_fetch w ?q)"
    using assms(2-) by (simp add: run_loop_def worker_def set_worker_def)
  have q: "work_beside w ?q = work_beside w p" "pending ?q = pending p" "limits ?q = limits p" "mAllThreads ?q = mAllThreads p"
    by (simp_all add: work_beside_def pending_def limits_def)
  show ?thesis
  proof (cases "mTask (workers p ! w) = 0")
    case True
    then have "run_fetch w ?q = Some p'" using assms(1) l by simp
    from run_fetch_work [OF this] show ?thesis using assms q by simp
  next
    case False
    then have "run_task w (mTask (workers p ! w)) ?q = Some p'" using assms(1) l by simp
    from run_task_work [OF this] show ?thesis using assms q by (simp add: served_def)
  qed
qed

lemma pending_thread:
  assumes ok: "pool_inv p" and w: "w < length (workers p)" "w \<in> set (mAllThreads p)" "w \<notin> set (mWaitingThreads p)" "loc (workers p ! w) \<noteq> Ended"
  shows "1 \<le> pending p"
proof -
  have "w \<notin> set (mExpiredThreads p)" using threads_okD(2) [of p w] ok w(4) by (auto simp: pool_inv_def)
  then have "{w} \<subseteq> {w \<in> set (mAllThreads p). w \<notin> set (mWaitingThreads p) \<and> w \<notin> set (mExpiredThreads p)}" using w by auto
  then have "card {w} \<le> card {w \<in> set (mAllThreads p). w \<notin> set (mWaitingThreads p) \<and> w \<notin> set (mExpiredThreads p)}"
    by (intro card_mono) simp_all
  then show ?thesis using pending_threads(2) [OF ok] by simp
qed

lemma run_enter_work:
  assumes ok: "pool_inv p" and w: "w < length (workers p)" "loc (workers p ! w) = Entering" and e: "run_enter w p = Some p'"
  shows "work p' < work p \<and> served p' \<and> limits p' = limits p \<and> mAllThreads p' = mAllThreads p"
proof -
  let ?p = "p\<lparr>workers := (workers p)[w := (workers p ! w)\<lparr>mExit := False\<rparr>]\<rparr>"
  have t: "w \<in> set (mAllThreads p)" "w \<notin> set (mWaitingThreads p)"
    using threads_okD(3) [OF _ w(1)] ok w(2) by (auto simp: thread_ok_def pool_inv_def)
  have "run_loop w ?p = Some p'" using e w by (simp add: run_enter_def worker_def set_worker_def)
  moreover have "work_beside w ?p + 1 = work p" using work_work_beside [OF w(1)] w(2) by (simp add: work_beside_def pending_def resting_def)
  moreover have "pending ?p = pending p" "limits ?p = limits p" by (simp_all add: pending_def limits_def)
  ultimately show ?thesis
    using run_loop_work [of w ?p p'] pending_thread [OF ok w(1) t] w ok by (simp add: pool_inv_def)
qed

lemma run_done_work:
  assumes ok: "pool_inv p" and w: "w < length (workers p)" "loc (workers p ! w) = Busy t" and e: "run_done w p = Some p'"
  shows "work p' < work p \<and> served p' \<and> limits p' = limits p \<and> mAllThreads p' = mAllThreads p"
proof -
  let ?p = "p\<lparr>mTasksCompletedCount := add64 (mTasksCompletedCount p) 1\<rparr>"
  have t: "w \<in> set (mAllThreads p)" "w \<notin> set (mWaitingThreads p)" "\<not> mExit (workers p ! w)"
    using threads_okD(3) [OF _ w(1)] ok w(2) by (auto simp: thread_ok_def pool_inv_def)
  have "run_fetch w ?p = Some p'" using e by (simp add: run_done_def)
  moreover have "work_beside w ?p = work p" using work_work_beside [OF w(1)] w(2) by (simp add: work_beside_def pending_def resting_def)
  moreover have "pending ?p = pending p" "limits ?p = limits p" by (simp_all add: pending_def limits_def)
  ultimately show ?thesis
    using run_fetch_work [of w ?p p'] pending_thread [OF ok w(1) t(1,2)] t(3) w ok by (simp add: pool_inv_def)
qed

lemma run_wake_work:
  assumes ok: "pool_inv p" and w: "w < length (workers p)" "loc (workers p ! w) = Idle" and e: "run_wake w p = Some p'" and s: "served p"
  shows "work p' < work p \<and> served p' \<and> limits p' = limits p \<and>
    mAllThreads p' = mAllThreads p"
proof -
  have th: "threads_ok p" and q: "queue_ok p" using ok by (simp_all add: pool_inv_def)
  let ?r = "p\<lparr>mActiveThreadCount := mActiveThreadCount p + 1, mWaitingThreads := remove1 w (mWaitingThreads p)\<rparr>"
  show ?thesis
  proof (cases "w \<in> set (mAllThreads p)")
    case False
    then have "w \<notin> set (mWaitingThreads p)" using threads_okD(1) [OF th, of w] by auto
    then have p': "p' = p\<lparr>mActiveThreadCount := mActiveThreadCount p, mWaitingThreads := mWaitingThreads p,
        workers := (workers p)[w := (workers p ! w)\<lparr>loc := Ended\<rparr>]\<rparr>"
      using e w False by (auto simp: run_wake_def registerThreadInactive_def run_end_def worker_def set_worker_def dcheck_def split: if_splits)
    have "work p' = work_beside w p"
      using work_set_beside [OF w(1), of p' "(workers p ! w)\<lparr>loc := Ended\<rparr>"] by (simp add: p' resting_def pending_def)
    then show ?thesis using s work_work_beside [OF w(1)] w(2) by (simp add: p' served_def pending_def limits_def resting_def)
  next
    case True
    have x: "\<not> mExit (workers p ! w)" using threads_okD(3) [OF th w(1)] w(2) True by (simp add: thread_ok_def)
    show ?thesis
    proof (cases "w \<in> set (mWaitingThreads p)")
      case waiting: True
      then have "run_expire w ?r = Some p'" using e True by (simp add: run_wake_def)
      from run_expire_work [OF this] w(1) have p': "work p' = work_beside w ?r - 2" "pending p' = pending ?r - 1" "mTasks p' = mTasks p" "limits p' = limits ?r"
          "mAllThreads p' = mAllThreads p" by simp_all
      have "Suc (length (remove1 w (mWaitingThreads p))) = length (mWaitingThreads p)"
        using waiting length_pos_if_in_set [OF waiting] by (simp add: length_remove1)
      then have "pending ?r = pending p + 1" by (simp add: pending_def)
      moreover from this have "work_beside w ?r = work p + 1"
        using work_work_beside [OF w(1)] w(2) by (simp add: work_beside_def resting_def)
      ultimately show ?thesis using p' s by (simp add: served_def limits_def)
    next
      case False
      then have "run_loop w ?r = Some p'" using e True by (simp add: run_wake_def)
      moreover have "work_beside w ?r + 1 = work p" using work_work_beside [OF w(1)] w(2) False by (simp add: work_beside_def pending_def resting_def)
      moreover have "pending ?r = pending p" "limits ?r = limits p" using False by (simp_all add: pending_def limits_def)
      ultimately show ?thesis
        using run_loop_work [of w ?r p'] pending_thread [OF ok w(1) True False] w x q by simp
    qed
  qed
qed


section \<open>The public methods\<close>

text \<open>After an attempt to start a task there is a thread that is not waiting.\<close>

lemma setTask_pool: "setTask w t p = Some p' \<Longrightarrow> \<exists>us. p' = p\<lparr>workers := us\<rparr>"
  by (auto simp: setTask_def set_worker_def Option.bind_eq_Some_conv)

lemma thread_start_pool: "thread_start w p = Some p' \<Longrightarrow> \<exists>us. p' = p\<lparr>workers := us\<rparr>"
  by (auto simp: thread_start_def set_worker_def Option.bind_eq_Some_conv)

lemma startThread_pool:
  assumes "startThread t p = Some p'"
  shows "limits p' = limits p \<and> pending p' = pending p + 1"
  using assms
  by (auto simp: startThread_def Let_def Option.bind_eq_Some_conv limits_def pending_def dest!: setTask_pool thread_start_pool)

lemma tryStart_pool:
  assumes "tryStart t p = Some (p', b)"
  shows "limits p' = limits p \<and> (if b then pending p' = pending p + 1 else p' = p \<and> mMaxThreadCount p \<le> pending p + mReservedThreadCount p)"
proof (cases "mAllThreads p = [] \<or> \<not> mMaxThreadCount p \<le> activeThreadCount p \<and> mWaitingThreads p = [] \<and> mExpiredThreads p = []")
  case True
  then have "tryStart t p = do { dcheck (t \<noteq> 0); p \<leftarrow> startThread t p; Some (p, True) }" by (auto simp: tryStart_def)
  from assms [unfolded this] have "b \<and> startThread t p = Some p'" by (auto simp: Option.bind_eq_Some_conv)
  then show ?thesis using startThread_pool by auto
next
  case False
  then show ?thesis
    using assms
    by (auto simp: tryStart_def Option.bind_eq_Some_conv enqueueTask_def queue_push_def limits_def pending_def activeThreadCount_def
        split: if_splits list.splits dest!: setTask_pool thread_start_pool)
qed

lemma queue_pop_pool: "limits (fst (queue_pop p)) = limits p" "pending (fst (queue_pop p)) = pending p"
  by (auto simp: queue_pop_def limits_def pending_def)

lemma start_served:
  assumes "start t priority p = Some p'" "pool_inv p" "served p" "mReservedThreadCount p = 0" "1 \<le> mMaxThreadCount p"
  shows "served p' \<and> limits p' = limits p"
proof (cases "t = 0")
  case True
  then show ?thesis using assms by (simp add: start_def)
next
  case False
  then obtain q b where q: "tryStart t p = Some (q, b)" using assms(1) by (auto simp: start_def Option.bind_eq_Some_conv)
  note tryStart_pool [OF q] pending_threads(1) [OF assms(2)]
  then have l: "limits q = limits p" "1 \<le> pending q"
    using assms(4,5) by (auto split: if_splits)
  show ?thesis
  proof (cases b)
    case True
    then show ?thesis using assms(1) False q l by (simp add: start_def served_def)
  next
    case b: False
    then show ?thesis
      using assms(1) False q l
      by (cases "mWaitingThreads q")
        (auto simp: start_def enqueueTask_def queue_push_def Option.bind_eq_Some_conv served_def limits_def pending_def dest!: setTask_pool)
  qed
qed

lemma tryToStartMoreThreads_pool:
  assumes "tryToStartMoreThreads p = Some p'"
  shows "limits p' = limits p \<and> (mTasks p' = [] \<or> mMaxThreadCount p' \<le> pending p' + mReservedThreadCount p')"
proof (rule tryToStartMoreThreads.raw_induct [OF _ assms])
  fix f p p'
  assume ih: "\<And>p p'. f p = Some p' \<Longrightarrow>
      limits p' = limits p \<and> (mTasks p' = [] \<or> mMaxThreadCount p' \<le> pending p' + mReservedThreadCount p')"
    and eq: "(if mTasks p = [] then Some p
      else if queue_first p \<noteq> 0 then do {
        (p', started) \<leftarrow> tryStart (queue_first p) p;
        if started then f (fst (queue_pop p')) else Some p'
      }
      else f p) = Some p'"
  show "limits p' = limits p \<and> (mTasks p' = [] \<or> mMaxThreadCount p' \<le> pending p' + mReservedThreadCount p')"
  proof (cases "mTasks p = [] \<or> queue_first p = 0")
    case True
    then show ?thesis using ih eq by (auto split: if_splits)
  next
    case False
    then obtain q b where q: "tryStart (queue_first p) p = Some (q, b)" "(if b then f (fst (queue_pop q)) else Some q) = Some p'"
      using eq by (auto simp: Option.bind_eq_Some_conv)
    show ?thesis
    proof (cases b)
      case True
      then show ?thesis using ih [of "fst (queue_pop q)" p'] q tryStart_pool [OF q(1)] by (simp add: queue_pop_pool)
    next
      case False
      then show ?thesis using q tryStart_pool [OF q(1)] by simp
    qed
  qed
qed

lemma tryToStartMoreThreads_served:
  assumes "tryToStartMoreThreads p = Some p'" "limits p = (n, 0)" "1 \<le> n"
  shows "served p' \<and> limits p' = limits p"
  using tryToStartMoreThreads_pool [OF assms(1)] assms(2,3) by (auto simp: limits_def served_def)


section \<open>All work is done in the end\<close>

text \<open>Calls that do not reserve threads and allow one thread at least, and the steps of threads.\<close>

fun unreserved :: "pool_action \<Rightarrow> bool" where
  "unreserved Reserve \<longleftrightarrow> False"
| "unreserved Release \<longleftrightarrow> False"
| "unreserved (SetMax n) \<longleftrightarrow> 1 \<le> n"
| "unreserved _ \<longleftrightarrow> True"

fun is_thread_step :: "pool_action \<Rightarrow> bool" where
  "is_thread_step (Enter w) \<longleftrightarrow> True"
| "is_thread_step (TaskDone w) \<longleftrightarrow> True"
| "is_thread_step (Wake w) \<longleftrightarrow> True"
| "is_thread_step _ \<longleftrightarrow> False"

definition served_inv :: "thread_pool \<Rightarrow> bool" where
  "served_inv p \<longleftrightarrow> pool_inv p \<and> served p \<and> mReservedThreadCount p = 0 \<and> 1 \<le> mMaxThreadCount p"

lemma served_step:
  assumes "served_inv (pool s)" "unreserved a" "pool_enabled a (pool s)" "pool_step a s = Some s'"
  shows "served (pool s') \<and> mReservedThreadCount (pool s') = 0 \<and> 1 \<le> mMaxThreadCount (pool s')"
proof -
  have ok: "pool_inv (pool s)" "served (pool s)" "mReservedThreadCount (pool s) = 0" "1 \<le> mMaxThreadCount (pool s)"
    using assms(1) by (simp_all add: served_inv_def)
  have keep: "served p' \<and> limits p' = limits (pool s) \<Longrightarrow> served p' \<and> mReservedThreadCount p' = 0 \<and> 1 \<le> mMaxThreadCount p'" for p'
    using ok by (simp add: limits_def)
  show ?thesis
  proof (cases a)
    case (Start t priority)
    then obtain p' where "start t priority (pool s) = Some p'" "pool s' = p'" using assms(4) by (auto simp: Option.bind_eq_Some_conv)
    then show ?thesis using start_served [of t priority "pool s" p'] ok keep by simp
  next
    case (TryStartNow t)
    then obtain p' b where p': "tryStartNow t (pool s) = Some (p', b)" "pool s' = p'" using assms(4) by (auto simp: Option.bind_eq_Some_conv)
    have "p' = pool s \<or> tryStart t (pool s) = Some (p', b)" using p'(1) by (auto simp: tryStartNow_def split: if_splits)
    then show ?thesis
      using tryStart_pool [of t "pool s" p' b] ok pending_threads(1) [OF ok(1)] p'(2) by (cases b) (auto simp: limits_def served_def)
  next
    case (Cancel t)
    then show ?thesis using assms(4) ok by (auto simp: cancel_def queue_cancel_def served_def pending_def)
  next
    case Clear
    then show ?thesis using assms(4) ok by (auto simp: clear_def served_def pending_def)
  next
    case (SetMax n)
    then obtain p' where "setMaxThreadCount n (pool s) = Some p'" "pool s' = p'" using assms(4) by (auto simp: Option.bind_eq_Some_conv)
    then show ?thesis
      using tryToStartMoreThreads_served [of "(pool s)\<lparr>mMaxThreadCount := n\<rparr>" p' n] ok assms(2) SetMax
      by (auto simp: setMaxThreadCount_def limits_def split: if_splits)
  next
    case Reset
    then show ?thesis using assms(3,4) ok by (auto simp: reset_def served_def isDone_def)
  next
    case (ExitWait w)
    then show ?thesis using assms(4) ok by (auto simp: exitWait_def set_worker_def served_def pending_def Option.bind_eq_Some_conv)
  next
    case (Enter w)
    then show ?thesis using run_enter_work [OF ok(1), of w] assms(3,4) keep by (auto simp: Option.bind_eq_Some_conv)
  next
    case (TaskDone w)
    then show ?thesis
      using run_done_work [OF ok(1), of w] assms(3,4) keep by (auto simp: Option.bind_eq_Some_conv split: location.splits)
  next
    case (Wake w)
    then show ?thesis using run_wake_work [OF ok(1), of w] assms(3,4) ok(2) keep by (auto simp: Option.bind_eq_Some_conv)
  qed (use assms ok in \<open>auto simp: setExpiryTimeout_def served_def pending_def\<close>)
qed

lemma served_reach:
  assumes "pool_reach unreserved n s" "1 \<le> n"
  shows "served_inv (pool s) \<and> system_inv s"
proof -
  have "served (pool s) \<and> mReservedThreadCount (pool s) = 0 \<and> 1 \<le> mMaxThreadCount (pool s)"
    using assms(1)
  proof (induction rule: pool_reach.induct)
    case create
    show ?case using assms(2) by (simp add: served_def ThreadPool_new_def)
  next
    case (step s a s')
    then have "served_inv (pool s)" using pool_reach_inv [OF step(1)] by (simp add: served_inv_def system_inv_def)
    then show ?case using served_step step by blast
  qed
  then show ?thesis using pool_reach_inv [OF assms(1)] by (simp add: served_inv_def system_inv_def)
qed

lemma thread_step_work:
  assumes "served_inv (pool s)" "is_thread_step a" "pool_enabled a (pool s)" "pool_step a s = Some s'"
  shows "work (pool s') < work (pool s) \<and> abandoned (pool s') = abandoned (pool s) \<and> submitted s' = submitted s \<and> dropped s' = dropped s"
proof -
  have ok: "pool_inv (pool s)" "served (pool s)" using assms(1) by (simp_all add: served_inv_def)
  have in_pool: "w \<in> set (mAllThreads (pool s))" if "w < length (workers (pool s))" "is_active (workers (pool s) ! w)" for w
    using threads_okD(3) [OF _ that(1)] that(2) ok(1) by (auto simp: pool_inv_def thread_ok_def is_active_def split: location.splits)
  show ?thesis
  proof (cases a)
    case (Enter w)
    then have w: "w < length (workers (pool s))" "loc (workers (pool s) ! w) = Entering" using assms(3) by simp_all
    obtain p' where p': "run_enter w (pool s) = Some p'" "s' = s\<lparr>pool := p'\<rparr>"
      using assms(4) Enter by (auto simp: Option.bind_eq_Some_conv)
    show ?thesis
      using run_enter_work [OF ok(1) w p'(1)] abandoned_keeps [OF keeps_elsewhere [OF elsewhere_steps(1) [OF p'(1)]]] in_pool [OF w(1)] w p'
      by (simp add: is_active_def)
  next
    case (TaskDone w)
    then obtain t where w: "w < length (workers (pool s))" "loc (workers (pool s) ! w) = Busy t"
      using assms(3) by (auto split: location.splits)
    obtain p' c where p': "run_done w (pool s) = Some p'" "s' = s\<lparr>pool := p', completed := c\<rparr>"
      using assms(4) TaskDone by (auto simp: Option.bind_eq_Some_conv)
    show ?thesis
      using run_done_work [OF ok(1) w p'(1)] abandoned_keeps [OF keeps_elsewhere [OF elsewhere_steps(2) [OF p'(1)]]] in_pool [OF w(1)] w p'
      by (simp add: is_active_def)
  next
    case (Wake w)
    then have w: "w < length (workers (pool s))" "loc (workers (pool s) ! w) = Idle" using assms(3) by simp_all
    obtain p' where p': "run_wake w (pool s) = Some p'" "s' = s\<lparr>pool := p'\<rparr>"
      using assms(4) Wake by (auto simp: Option.bind_eq_Some_conv)
    show ?thesis
      using run_wake_work [OF ok(1) w p'(1) ok(2)] abandoned_keeps [OF keeps_elsewhere [OF elsewhere_steps(3) [OF p'(1)]]] run_wake_slot [OF p'(1)] p'(2)
      by auto
  qed (use assms(2) in simp_all)
qed

lemma served_actions:
  assumes "served_inv (pool s)" "system_inv s" "\<forall>a \<in> set as. is_thread_step a" "run_actions as s = Some s'"
  shows "served_inv (pool s') \<and> system_inv s' \<and> int (length as) + work (pool s') \<le> work (pool s) \<and>
    abandoned (pool s') = abandoned (pool s) \<and> submitted s' = submitted s \<and> dropped s' = dropped s"
  using assms
proof (induction as arbitrary: s)
  case (Cons a as)
  then obtain t where t: "pool_enabled a (pool s)" "pool_step a s = Some t" "run_actions as t = Some s'"
    by (auto simp: Option.bind_eq_Some_conv split: if_splits)
  have a: "is_thread_step a" "unreserved a" using Cons.prems(3) by (cases a; simp)+
  have inv: "system_inv t" using pool_step_ok [OF Cons.prems(2) t(1)] t(2) by auto
  moreover from this have "served_inv (pool t)"
    using served_step [OF Cons.prems(1) a(2) t(1,2)] by (simp add: served_inv_def system_inv_def)
  ultimately show ?case
    using Cons.IH [of t] Cons.prems(3) t(3) thread_step_work [OF Cons.prems(1) a(1) t(1,2)] by auto
qed simp

text \<open>Where no thread can take a step, all is done.\<close>

lemma drained:
  assumes s: "served_inv p" and z: "pending p = 0"
  shows "isDone p" "carried p = abandoned p"
proof -
  have ok: "pool_inv p" and q: "mTasks p = []" using s z by (auto simp: served_inv_def served_def)
  have th: "threads_ok p" using ok by (simp add: pool_inv_def)
  have "w \<in> set (mWaitingThreads p) \<union> set (mExpiredThreads p)" if "w \<in> set (mAllThreads p)" for w
    using pending_threads(2) [OF ok] z that by auto
  then have slot: "\<not> is_active (workers p ! w) \<and> tasks_of (workers p ! w) =
      (if w \<in> set (mAllThreads p) then {#} else task_mset (mTask (workers p ! w)))" if "w < length (workers p)" for w
    using threads_okD(3) [OF th that] by (force simp: thread_ok_def is_active_def tasks_of_def task_mset_def split: location.splits)
  then have "\<not> is_active u" if "u \<in> set (workers p)" for u using that by (metis in_set_conv_nth)
  then have m: "map (\<lambda>u. of_bool (is_active u) :: int) (workers p) = map (\<lambda>u. 0) (workers p)" by simp
  have "sum_list (map (\<lambda>u. of_bool (is_active u) :: int) (workers p)) = 0" unfolding m by simp
  moreover have "mActiveThreadCount p = sum_list (map (\<lambda>u. of_bool (is_active u)) (workers p))" using th by (simp add: threads_ok_def)
  ultimately have "mActiveThreadCount p = 0" by simp
  then show "isDone p" using q by (simp add: isDone_def)
  have "map tasks_of (workers p) = map (\<lambda>w. tasks_of (workers p ! w)) [0..<length (workers p)]"
    by (intro nth_equalityI) simp_all
  also have "\<dots> = map (\<lambda>w. if w \<in> set (mAllThreads p) then {#} else task_mset (mTask (workers p ! w))) [0..<length (workers p)]"
    using slot by (intro map_cong) auto
  finally show "carried p = abandoned p" using q by (simp add: carried_def abandoned_def queued_def)
qed


lemma thread_step_exists:
  assumes s: "system_inv s" and p: "0 < pending (pool s)"
  shows "\<exists>a s'. is_thread_step a \<and> pool_enabled a (pool s) \<and> pool_step a s = Some s'"
proof -
  have ok: "pool_inv (pool s)" using s by (simp add: system_inv_def)
  have th: "threads_ok (pool s)" using ok by (simp add: pool_inv_def)
  have "{w \<in> set (mAllThreads (pool s)). w \<notin> set (mWaitingThreads (pool s)) \<and> w \<notin> set (mExpiredThreads (pool s))} \<noteq> {}"
    using p pending_threads(2) [OF ok] by (intro notI) simp
  then obtain w where w: "w \<in> set (mAllThreads (pool s))" "w \<notin> set (mWaitingThreads (pool s))" "w \<notin> set (mExpiredThreads (pool s))"
    by auto
  have l: "w < length (workers (pool s))" using th w(1) by (auto simp: threads_ok_def)
  have "loc (workers (pool s) ! w) \<noteq> Ended" using threads_okD(3) [OF th l] w by (auto simp: thread_ok_def)
  then have "pool_enabled (Enter w) (pool s) \<or> pool_enabled (TaskDone w) (pool s) \<or> pool_enabled (Wake w) (pool s)"
    using l by (cases "loc (workers (pool s) ! w)") auto
  then show ?thesis using pool_step_ok [OF s] by (metis is_thread_step.simps(1-3))
qed

text \<open>
  C21: liveness. The users of a pool never reserve a thread and always allow one at least. Then from every state that the
  pool comes to, the steps of its threads alone, in whatever order, timeouts included, come to an end after a bounded number of
  steps. As long as the pool is not done some thread can take a step. When none can, the pool says that it is
  done, and every accepted task was completed, was cancelled, or had been abandoned before: it is in the
  hands of a thread that an earlier \<open>reset\<close>, by \<open>waitForDone\<close>, took out of the pool, and is not run any more. The steps
  of the threads abandon nothing.
\<close>

theorem thread_pool_drains:
  assumes "pool_reach unreserved n s" "1 \<le> n" "\<forall>a \<in> set as. is_thread_step a" "run_actions as s = Some s'"
  shows "int (length as) + work (pool s') \<le> work (pool s) \<and> 0 \<le> work (pool s') \<and>
    (isDone (pool s') \<and> submitted s = completed s' + dropped s + abandoned (pool s) \<or>
     (\<exists>a t. is_thread_step a \<and> pool_enabled a (pool s') \<and> pool_step a s' = Some t))"
proof -
  have r: "served_inv (pool s)" "system_inv s" using served_reach [OF assms(1,2)] by simp_all
  note s' = served_actions [OF r assms(3,4)]
  have ok: "pool_inv (pool s')" and sum: "submitted s' = completed s' + dropped s' + carried (pool s')"
    using s' by (simp_all add: system_inv_def)
  have "0 \<le> sum_list (map resting us)" for us by (induction us) (auto simp: resting_def split: location.splits)
  then have nonneg: "0 \<le> work (pool s')" using pending_threads(1) [OF ok] by (simp add: work_def)
  show ?thesis
  proof (cases "pending (pool s') = 0")
    case True
    then have "isDone (pool s')" "carried (pool s') = abandoned (pool s)" using drained [of "pool s'"] s' by simp_all
    then show ?thesis using s' sum nonneg by metis
  next
    case False
    then show ?thesis using thread_step_exists [of s'] s' pending_threads(1) [OF ok] nonneg by simp
  qed
qed

theorem thread_pool_drains_witness:
  "\<exists>s as s'. pool_reach unreserved 1 s \<and> submitted s = {#9, 8, 7#} \<and> run_actions as s = Some s' \<and> length as = 4 \<and>
     int (length as) + work (pool s') \<le> work (pool s) \<and> isDone (pool s') \<and> completed s' = submitted s"
proof -
  let ?n = "\<lparr>pool = ThreadPool_new 1, submitted = {#}, completed = {#}, dropped = {#}\<rparr>"
  let ?us = "[Start 7 0, Start 8 0, Start 9 5]" and ?as = "[Enter 0, TaskDone 0, TaskDone 0, TaskDone 0]"
  obtain s where s: "run_actions ?us ?n = Some s" "submitted s = {#9, 8, 7#}" and
    s': "\<exists>s'. run_actions ?as s = Some s' \<and> isDone (pool s') \<and> completed s' = {#9, 8, 7#}"
    by (simp add: ThreadPool_new_def start_def tryStart_def startThread_def setTask_def thread_start_def worker_def enqueueTask_def
        queue_push_def set_worker_def room_def run_enter_def run_loop_def run_task_def run_done_def run_fetch_def run_idle_def
        isTooManyThreadsActive_def activeThreadCount_def queue_pop_def queue_first_def registerThreadInactive_def isDone_def
        task_mset_def item_less_def)
  have r: "pool_reach unreserved 1 s" using pool_reach_run [OF pool_reach.create _ s(1)] by simp
  obtain s' where "run_actions ?as s = Some s'" "isDone (pool s')" "completed s' = {#9, 8, 7#}" using s' by blast
  with r s(2) thread_pool_drains [OF r, of ?as s'] show ?thesis by (intro exI [of _ s] exI [of _ ?as] exI [of _ s']) simp
qed
end
