(* ===== verification/Signals.thy ===== *)
theory Signals
  imports Octk_Prelude "HOL-Library.Multiset" "HOL-Library.Sublist"
begin

text \<open>
  Signals and slots, \<open>src/libs/core/source/kernel/octk_signals.hpp\<close>: the slots connected to a signal, in groups
  ordered by their ids, connections that block and disconnect a slot, and the emission of the signal.

  A slot object is a number, its position in the list of all slot objects made for the signal. The kinds of slots of
  the code differ in what they hold: a callable, perhaps an object, and whether the object is tracked by a
  weak pointer. Callables and objects are numbers; \<^term>\<open>None\<close> is the null pointer. An operation that holds the
  mutex of the signal is one step. What a callable does when it is called, the same thread or another, appears as
  further steps of the system; emissions may be nested and overlap. The list of slots is copied on write, as in \<open>Signal\<close>; the
  single-threaded \<open>SignalUnsafe\<close>, which walks through the list itself, is not modelled.
\<close>

section \<open>Slots and their groups\<close>

type_synonym slot = nat

record slot_state =
  mIndex :: nat
  mGroup :: int
  mBlocked :: bool
  mConnected :: bool
  func :: nat
  ptr :: "nat option"
  tracked :: bool

type_synonym group = "int \<times> slot list"

record signal =
  heap :: "slot_state list"
  m_slots :: "group list"
  m_block :: bool
  expired :: "nat set"

definition Signal_new :: signal where
  "Signal_new = \<lparr>heap = [], m_slots = [], m_block = False, expired = {}\<rparr>"

definition upd_slot :: "slot \<Rightarrow> (slot_state \<Rightarrow> slot_state) \<Rightarrow> signal \<Rightarrow> signal" where
  "upd_slot k f s = s\<lparr>heap := (heap s)[k := f (heap s ! k)]\<rparr>"

text \<open>The slots in the order of emission.\<close>

definition slots_of :: "group list \<Rightarrow> slot list" where
  "slots_of gs = concat (map snd gs)"

definition slot_count :: "signal \<Rightarrow> nat" where
  "slot_count s = sum_list (map (\<lambda>g. length (snd g)) (m_slots s))"

text \<open>\<open>connected\<close> of a slot, whose override for tracked slots looks at the object.\<close>

definition is_expired :: "signal \<Rightarrow> slot_state \<Rightarrow> bool" where
  "is_expired s u \<longleftrightarrow> tracked u \<and> (\<exists>p \<in> expired s. ptr u = Some p)"

definition connected :: "signal \<Rightarrow> slot \<Rightarrow> bool" where
  "connected s k \<longleftrightarrow> \<not> is_expired s (heap s ! k) \<and> mConnected (heap s ! k)"

definition get_object :: "signal \<Rightarrow> slot \<Rightarrow> nat option" where
  "get_object s k = (if is_expired s (heap s ! k) then None else ptr (heap s ! k))"


section \<open>Connecting\<close>

text \<open>The groups with the slot added, and the index it gets.\<close>

fun add_to_group :: "slot \<Rightarrow> int \<Rightarrow> group list \<Rightarrow> group list \<times> nat" where
  "add_to_group k gid [] = ([(gid, [k])], 0)"
| "add_to_group k gid ((g, ss) # gs) =
     (if g < gid then (let (gs', i) = add_to_group k gid gs in ((g, ss) # gs', i))
      else if g \<noteq> gid then ((gid, [k]) # (g, ss) # gs, 0)
      else ((g, ss @ [k]) # gs, length ss))"

definition add_slot :: "slot \<Rightarrow> signal \<Rightarrow> signal" where
  "add_slot k s = (let (gs, i) = add_to_group k (mGroup (heap s ! k)) (m_slots s) in
     upd_slot k (\<lambda>u. u\<lparr>mIndex := i\<rparr>) (s\<lparr>m_slots := gs\<rparr>))"

definition connect :: "nat \<Rightarrow> nat option \<Rightarrow> bool \<Rightarrow> int \<Rightarrow> signal \<Rightarrow> signal" where
  "connect c p t gid s = add_slot (length (heap s)) (s\<lparr>heap := heap s @
     [\<lparr>mIndex = 0, mGroup = gid, mBlocked = False, mConnected = True, func = c, ptr = p, tracked = t\<rparr>]\<rparr>)"


section \<open>Disconnecting\<close>

text \<open>Swap with the last slot, set its index, and drop the last entry.\<close>

definition erase_at :: "nat \<Rightarrow> slot list \<Rightarrow> slot_state list \<Rightarrow> slot list \<times> slot_state list" where
  "erase_at i ss h = (let ss' = ss[i := last ss, length ss - 1 := ss ! i]; k = ss' ! i in
     (butlast ss', h[k := (h ! k)\<lparr>mIndex := i\<rparr>]))"

lemma length_erase_at [simp]: "length (fst (erase_at i ss h)) = length ss - 1" "length (snd (erase_at i ss h)) = length h"
  by (simp_all add: erase_at_def Let_def)

text \<open>\<open>clean\<close>: find the group, and see that the slot is where its index says.\<close>

fun clean_groups :: "slot \<Rightarrow> nat \<Rightarrow> int \<Rightarrow> group list \<Rightarrow> slot_state list \<Rightarrow> group list \<times> slot_state list" where
  "clean_groups k idx gid [] h = ([], h)"
| "clean_groups k idx gid ((g, ss) # gs) h =
     (if g = gid then
        if idx < length ss \<and> ss ! idx = k then (let (ss', h') = erase_at idx ss h in ((g, ss') # gs, h'))
        else ((g, ss) # gs, h)
      else let (gs', h') = clean_groups k idx gid gs h in ((g, ss) # gs', h'))"

definition clean :: "slot \<Rightarrow> signal \<Rightarrow> signal" where
  "clean k s = (let (gs, h) = clean_groups k (mIndex (heap s ! k)) (mGroup (heap s ! k)) (m_slots s) (heap s) in
     s\<lparr>m_slots := gs, heap := h\<rparr>)"

function disconnect_loop ::
  "(slot \<Rightarrow> bool) \<Rightarrow> nat \<Rightarrow> slot list \<Rightarrow> slot_state list \<Rightarrow> nat \<Rightarrow> slot list \<times> slot_state list \<times> nat" where
  "disconnect_loop cond i ss h n =
     (if i < length ss then
        if cond (ss ! i) then disconnect_loop cond i (fst (erase_at i ss h)) (snd (erase_at i ss h)) (n + 1)
        else disconnect_loop cond (i + 1) ss h n
      else (ss, h, n))"
  by pat_completeness auto

termination
  by (relation "measure (\<lambda>(cond, i, ss, h, n). length ss - i)") auto

declare disconnect_loop.simps [simp del]

fun disconnect_groups :: "(slot \<Rightarrow> bool) \<Rightarrow> group list \<Rightarrow> slot_state list \<Rightarrow> group list \<times> slot_state list \<times> nat" where
  "disconnect_groups cond [] h = ([], h, 0)"
| "disconnect_groups cond ((g, ss) # gs) h =
     (let (ss', h', n) = disconnect_loop cond 0 ss h 0; (gs', h'', n') = disconnect_groups cond gs h' in
      ((g, ss') # gs', h'', n + n'))"

definition disconnect_if :: "(slot \<Rightarrow> bool) \<Rightarrow> signal \<Rightarrow> signal \<times> nat" where
  "disconnect_if cond s = (let (gs, h, n) = disconnect_groups cond (m_slots s) (heap s) in (s\<lparr>m_slots := gs, heap := h\<rparr>, n))"

definition disconnect_callable :: "nat \<Rightarrow> signal \<Rightarrow> signal \<times> nat" where
  "disconnect_callable c s = disconnect_if (\<lambda>k. func (heap s ! k) = c) s"

definition disconnect_object :: "nat option \<Rightarrow> signal \<Rightarrow> signal \<times> nat" where
  "disconnect_object p s = disconnect_if (\<lambda>k. get_object s k = p) s"

definition disconnect_callable_object :: "nat \<Rightarrow> nat option \<Rightarrow> signal \<Rightarrow> signal \<times> nat" where
  "disconnect_callable_object c p s = disconnect_if (\<lambda>k. get_object s k = p \<and> func (heap s ! k) = c) s"

fun clear_group :: "int \<Rightarrow> group list \<Rightarrow> group list \<times> nat" where
  "clear_group gid [] = ([], 0)"
| "clear_group gid ((g, ss) # gs) =
     (if g = gid then ((g, []) # gs, length ss) else let (gs', n) = clear_group gid gs in ((g, ss) # gs', n))"

definition disconnect_group :: "int \<Rightarrow> signal \<Rightarrow> signal \<times> nat" where
  "disconnect_group gid s = (let (gs, n) = clear_group gid (m_slots s) in (s\<lparr>m_slots := gs\<rparr>, n))"

definition disconnect_all :: "signal \<Rightarrow> signal" where
  "disconnect_all s = s\<lparr>m_slots := []\<rparr>"


section \<open>Well-formed signals\<close>

text \<open>The indices of slots are their positions, and the groups are ordered by their ids.\<close>

definition group_ok :: "slot_state list \<Rightarrow> group \<Rightarrow> bool" where
  "group_ok h g \<longleftrightarrow> (\<forall>i < length (snd g). snd g ! i < length h \<and> mIndex (h ! (snd g ! i)) = i \<and> mGroup (h ! (snd g ! i)) = fst g)"

definition groups_ok :: "slot_state list \<Rightarrow> group list \<Rightarrow> bool" where
  "groups_ok h gs \<longleftrightarrow> sorted_wrt (<) (map fst gs) \<and> (\<forall>g \<in> set gs. group_ok h g)"

definition signal_inv :: "signal \<Rightarrow> bool" where
  "signal_inv s \<longleftrightarrow> groups_ok (heap s) (m_slots s)"

text \<open>The abstract signal: which slots are in which group.\<close>

definition members :: "group list \<Rightarrow> (int \<times> slot) set" where
  "members gs = {(g, k). \<exists>ss. (g, ss) \<in> set gs \<and> k \<in> set ss}"

lemma members_Nil [simp]: "members [] = {}"
  by (simp add: members_def)

lemma members_Cons [simp]: "members ((g, ss) # gs) = {g} \<times> set ss \<union> members gs"
  by (auto simp: members_def)

lemma group_ok_distinct: "group_ok h g \<Longrightarrow> distinct (snd g)"
  by (metis distinct_conv_nth group_ok_def)

lemma members_group:
  assumes "groups_ok h gs" "(g, k) \<in> members gs"
  shows "k < length h \<and> mGroup (h ! k) = g"
proof -
  obtain ss where "(g, ss) \<in> set gs" "k \<in> set ss" using assms(2) by (auto simp: members_def)
  then show ?thesis using assms(1) unfolding groups_ok_def group_ok_def by (metis fst_conv in_set_conv_nth snd_conv)
qed

lemma groups_okD:
  assumes "groups_ok h ((g, ss) # gs)"
  shows "group_ok h (g, ss)" "groups_ok h gs" "\<forall>g' \<in> fst ` set gs. g < g'"
  using assms by (auto simp: groups_ok_def)

lemma group_disjoint:
  assumes "groups_ok h ((gid, ss) # gs)" "j \<in> set ss"
  shows "j \<notin> snd ` members gs"
proof
  note ok = groups_okD [OF assms(1)]
  assume "j \<in> snd ` members gs"
  then obtain g' where m: "(g', j) \<in> members gs" by auto
  moreover have "mGroup (h ! j) = gid" using ok(1) assms(2) by (auto simp: group_ok_def in_set_conv_nth)
  ultimately have "(gid, j) \<in> members gs" using members_group [OF ok(2) m] by simp
  then show False using ok(3) by (force simp: members_def)
qed

lemma slots_of_distinct:
  assumes "groups_ok h gs"
  shows "distinct (slots_of gs) \<and> sorted (map (\<lambda>k. mGroup (h ! k)) (slots_of gs)) \<and> set (slots_of gs) = snd ` members gs"
  using assms
proof (induction gs)
  case Nil
  then show ?case by (simp add: slots_of_def)
next
  case (Cons g gs)
  obtain gid ss where g: "g = (gid, ss)" by (cases g)
  note ok = groups_okD [OF Cons.prems [unfolded g]]
  have here: "mGroup (h ! k) = gid" if "k \<in> set ss" for k using ok(1) that by (auto simp: group_ok_def in_set_conv_nth)
  have there: "gid < mGroup (h ! k)" if "k \<in> set (slots_of gs)" for k
    using that Cons.IH [OF ok(2)] members_group [OF ok(2)] ok(3) by (fastforce simp: members_def)
  have split: "slots_of (g # gs) = ss @ slots_of gs" by (simp add: slots_of_def g)
  have "map (\<lambda>k. mGroup (h ! k)) ss = replicate (length ss) gid" using here by (simp add: map_replicate_const [symmetric])
  then have "sorted (map (\<lambda>k. mGroup (h ! k)) (slots_of (g # gs)))"
    using Cons.IH [OF ok(2)] here there by (auto simp: split sorted_append less_imp_le)
  moreover have "distinct (slots_of (g # gs))"
    using Cons.IH [OF ok(2)] group_ok_distinct [OF ok(1)] here there by (auto simp: split)
  moreover have "set (slots_of (g # gs)) = snd ` members (g # gs)" using Cons.IH [OF ok(2)] by (auto simp: split [unfolded g] g image_Un)
  ultimately show ?case by blast
qed

text \<open>Changes of other slots do not matter.\<close>

lemma group_ok_cong:
  assumes "group_ok h g" "length h \<le> length h'"
    "\<And>k. k \<in> set (snd g) \<Longrightarrow> mIndex (h' ! k) = mIndex (h ! k) \<and> mGroup (h' ! k) = mGroup (h ! k)"
  shows "group_ok h' g"
  using assms by (fastforce simp: group_ok_def)

lemma groups_ok_cong:
  assumes "groups_ok h gs" "length h \<le> length h'"
    "\<And>k. k \<in> snd ` members gs \<Longrightarrow> mIndex (h' ! k) = mIndex (h ! k) \<and> mGroup (h' ! k) = mGroup (h ! k)"
  shows "groups_ok h' gs"
proof -
  have "group_ok h' g" if "g \<in> set gs" for g
  proof (rule group_ok_cong [OF _ assms(2)])
    show "group_ok h g" using assms(1) that by (simp add: groups_ok_def)
    show "mIndex (h' ! k) = mIndex (h ! k) \<and> mGroup (h' ! k) = mGroup (h ! k)" if "k \<in> set (snd g)" for k
      using assms(3) [of k] \<open>g \<in> set gs\<close> that by (cases g) (force simp: members_def)
  qed
  then show ?thesis using assms(1) by (simp add: groups_ok_def)
qed


section \<open>Connecting and disconnecting\<close>

text \<open>What a heap keeps when only indices change.\<close>

definition same_slots :: "slot_state list \<Rightarrow> slot_state list \<Rightarrow> bool" where
  "same_slots h h' \<longleftrightarrow> length h' = length h \<and> (\<forall>k. (h' ! k)\<lparr>mIndex := 0\<rparr> = (h ! k)\<lparr>mIndex := 0\<rparr>)"

lemma same_slots_refl [simp]: "same_slots h h"
  by (simp add: same_slots_def)

lemma same_slots_trans: "same_slots h h' \<Longrightarrow> same_slots h' h'' \<Longrightarrow> same_slots h h''"
  by (simp add: same_slots_def)

lemma same_slots_fields:
  assumes "same_slots h h'"
  shows "length h' = length h" "mGroup (h' ! k) = mGroup (h ! k)" "mBlocked (h' ! k) = mBlocked (h ! k)"
    "mConnected (h' ! k) = mConnected (h ! k)" "func (h' ! k) = func (h ! k)" "ptr (h' ! k) = ptr (h ! k)" "tracked (h' ! k) = tracked (h ! k)"
proof -
  have e: "(h' ! k)\<lparr>mIndex := 0\<rparr> = (h ! k)\<lparr>mIndex := 0\<rparr>" using assms by (simp add: same_slots_def)
  show "length h' = length h" using assms by (simp add: same_slots_def)
  show "mGroup (h' ! k) = mGroup (h ! k)" "mBlocked (h' ! k) = mBlocked (h ! k)" "mConnected (h' ! k) = mConnected (h ! k)"
    "func (h' ! k) = func (h ! k)" "ptr (h' ! k) = ptr (h ! k)" "tracked (h' ! k) = tracked (h ! k)"
    using arg_cong [OF e, of mGroup] arg_cong [OF e, of mBlocked] arg_cong [OF e, of mConnected]
      arg_cong [OF e, of func] arg_cong [OF e, of ptr] arg_cong [OF e, of tracked] by simp_all
qed

lemma same_slots_index: "same_slots h (h[k := (h ! k)\<lparr>mIndex := i\<rparr>])"
proof -
  have "(h[k := (h ! k)\<lparr>mIndex := i\<rparr>] ! j)\<lparr>mIndex := 0\<rparr> = (h ! j)\<lparr>mIndex := 0\<rparr>" for j
    by (cases "j = k"; cases "k < length h") (simp_all add: list_update_beyond)
  then show ?thesis by (simp add: same_slots_def)
qed

text \<open>Erasing a slot keeps the others, each at its index.\<close>

lemma erase_at_ok:
  assumes ok: "group_ok h (g, ss)" and i: "i < length ss"
  shows "group_ok (snd (erase_at i ss h)) (g, fst (erase_at i ss h))"
    "mset ss = add_mset (ss ! i) (mset (fst (erase_at i ss h)))" "same_slots h (snd (erase_at i ss h))"
    "\<And>j. j < i \<Longrightarrow> fst (erase_at i ss h) ! j = ss ! j" "\<And>k. k \<notin> set ss \<Longrightarrow> snd (erase_at i ss h) ! k = h ! k"
proof -
  have d: "distinct ss" using group_ok_distinct [OF ok] by simp
  have ne: "ss \<noteq> []" using i by auto
  let ?n = "length ss - 1"
  have n: "last ss = ss ! ?n" "?n < length ss" using ne by (simp_all add: last_conv_nth)
  define ss' where "ss' = ss[i := last ss, ?n := ss ! i]"
  have nth: "ss' ! j = (if j = i then ss ! ?n else ss ! j)" if "j < ?n" for j
    using that i n by (auto simp: ss'_def nth_list_update)
  have at: "ss' ! i = last ss" using i n by (cases "i = ?n") (simp_all add: ss'_def nth_list_update)
  have e: "fst (erase_at i ss h) = butlast ss'" "snd (erase_at i ss h) = h[last ss := (h ! last ss)\<lparr>mIndex := i\<rparr>]"
    unfolding erase_at_def Let_def ss'_def [symmetric] by (simp_all add: at)
  have b: "butlast ss' ! j = (if j = i then ss ! ?n else ss ! j)" if "j < ?n" for j
    using that nth [OF that] by (simp add: nth_butlast ss'_def)
  have m: "mset ss' = mset ss" using mset_swap [of ?n ss i] n i unfolding ss'_def n(1) by blast
  have "ss' \<noteq> []" "last ss' = ss ! i" using ne n by (simp_all add: ss'_def last_conv_nth)
  then have "mset (butlast ss' @ [ss ! i]) = mset ss" using m by (metis append_butlast_last_id)
  then show "mset ss = add_mset (ss ! i) (mset (fst (erase_at i ss h)))" unfolding e by simp
  show "same_slots h (snd (erase_at i ss h))" unfolding e by (rule same_slots_index)
  show "fst (erase_at i ss h) ! j = ss ! j" if "j < i" for j using that i b [of j] unfolding e by simp
  show "snd (erase_at i ss h) ! k = h ! k" if "k \<notin> set ss" for k using that last_in_set [OF ne] unfolding e by (metis nth_list_update_neq)
  have "butlast ss' ! j < length h \<and> mIndex (h[last ss := (h ! last ss)\<lparr>mIndex := i\<rparr>] ! (butlast ss' ! j)) = j \<and>
      mGroup (h[last ss := (h ! last ss)\<lparr>mIndex := i\<rparr>] ! (butlast ss' ! j)) = g" if j: "j < ?n" for j
  proof (cases "j = i")
    case True
    then show ?thesis using b [OF j] ok n by (simp add: group_ok_def)
  next
    case False
    then have "ss ! j \<noteq> last ss" using d j n by (simp add: nth_eq_iff_index_eq)
    then show ?thesis using False b [OF j] ok j by (simp add: group_ok_def)
  qed
  then show "group_ok (snd (erase_at i ss h)) (g, fst (erase_at i ss h))"
    unfolding e by (simp add: group_ok_def ss'_def)
qed

text \<open>The loop of \<open>disconnect_if\<close> on one group.\<close>

lemma disconnect_loop_ok:
  assumes "group_ok h (g, ss)" "\<forall>j < i. j < length ss \<longrightarrow> \<not> cond (ss ! j)" "i \<le> length ss" "disconnect_loop cond i ss h n = (ss', h', n')"
  shows "group_ok h' (g, ss') \<and> set ss' = {k \<in> set ss. \<not> cond k} \<and> n' = n + length (filter cond ss) \<and> same_slots h h' \<and>
    (\<forall>k. k \<notin> set ss \<longrightarrow> h' ! k = h ! k)"
  using assms
proof (induction cond i ss h n rule: disconnect_loop.induct)
  case (1 cond i ss h n)
  show ?case
  proof (cases "i < length ss")
    case False
    then have "i = length ss" "ss' = ss" "h' = h" "n' = n" using "1.prems" by (simp_all add: disconnect_loop.simps)
    moreover have "\<not> cond k" if "k \<in> set ss" for k using "1.prems"(2) \<open>i = length ss\<close> that by (auto simp: in_set_conv_nth)
    ultimately show ?thesis using "1.prems"(1) by auto
  next
    case i: True
    show ?thesis
    proof (cases "cond (ss ! i)")
      case True
      let ?ss = "fst (erase_at i ss h)" and ?h = "snd (erase_at i ss h)"
      note e = erase_at_ok [OF "1.prems"(1) i]
      have "disconnect_loop cond i ?ss ?h (n + 1) = (ss', h', n')"
        using "1.prems"(4) i True by (simp add: disconnect_loop.simps [of cond i ss])
      moreover have "\<forall>j < i. j < length ?ss \<longrightarrow> \<not> cond (?ss ! j)" using "1.prems"(2) i e(4) by auto
      moreover have "i \<le> length ?ss" using i by simp
      ultimately have ih: "group_ok h' (g, ss') \<and> set ss' = {k \<in> set ?ss. \<not> cond k} \<and> n' = n + 1 + length (filter cond ?ss) \<and>
          same_slots ?h h' \<and> (\<forall>k. k \<notin> set ?ss \<longrightarrow> h' ! k = ?h ! k)"
        using "1.IH"(1) [OF i True e(1)] by blast
      have s: "set ss = insert (ss ! i) (set ?ss)" using arg_cong [OF e(2), of set_mset] by simp
      have "size (filter_mset cond (mset ss)) = Suc (size (filter_mset cond (mset ?ss)))" using e(2) True by simp
      then have "length (filter cond ss) = Suc (length (filter cond ?ss))" by (metis mset_filter size_mset)
      then show ?thesis using ih s True e(3,5) same_slots_trans by auto
    next
      case False
      have "disconnect_loop cond (i + 1) ss h n = (ss', h', n')"
        using "1.prems"(4) i False by (simp add: disconnect_loop.simps [of cond i ss])
      moreover have "\<forall>j < i + 1. j < length ss \<longrightarrow> \<not> cond (ss ! j)" using "1.prems"(2) False by (auto simp: less_Suc_eq)
      ultimately show ?thesis using "1.IH"(2) [OF i False "1.prems"(1)] i by simp
    qed
  qed
qed

lemma disconnect_groups_ok:
  assumes "groups_ok h gs" "disconnect_groups cond gs h = (gs', h', n)"
  shows "groups_ok h' gs' \<and> map fst gs' = map fst gs \<and> members gs' = {m \<in> members gs. \<not> cond (snd m)} \<and>
    n = length (filter cond (slots_of gs)) \<and> same_slots h h' \<and> (\<forall>k. k \<notin> snd ` members gs \<longrightarrow> h' ! k = h ! k)"
  using assms
proof (induction gs arbitrary: h gs' h' n)
  case Nil
  then show ?case by (simp add: slots_of_def)
next
  case (Cons g gs)
  obtain gid ss where g: "g = (gid, ss)" by (cases g)
  note ok = groups_okD [OF Cons.prems(1) [unfolded g]]
  obtain ss' h1 n1 where l: "disconnect_loop cond 0 ss h 0 = (ss', h1, n1)" by (metis prod_cases3)
  obtain gs1 h2 n2 where r: "disconnect_groups cond gs h1 = (gs1, h2, n2)" by (metis prod_cases3)
  have res: "gs' = (gid, ss') # gs1" "h' = h2" "n = n1 + n2" using Cons.prems(2) g l r by simp_all
  have one: "group_ok h1 (gid, ss') \<and> set ss' = {k \<in> set ss. \<not> cond k} \<and> n1 = length (filter cond ss) \<and> same_slots h h1 \<and>
      (\<forall>k. k \<notin> set ss \<longrightarrow> h1 ! k = h ! k)"
    using disconnect_loop_ok [OF ok(1) _ _ l] by simp
  note sep = group_disjoint [OF Cons.prems(1) [unfolded g]]
  have rest: "h1 ! k = h ! k" if "k \<in> snd ` members gs" for k using one sep that by blast
  have "groups_ok h1 gs"
    using one same_slots_fields(1) [of h h1] by (intro groups_ok_cong [OF ok(2)]) (simp_all add: rest)
  note two = Cons.IH [OF this r]
  have same: "h2 ! k = h1 ! k" if "k \<in> set ss'" for k using one two sep that by blast
  have "same_slots h1 h2" using two by blast
  then have "length h1 \<le> length h2" by (simp add: same_slots_fields(1))
  moreover have "group_ok h1 (gid, ss')" using one by blast
  ultimately have "group_ok h2 (gid, ss')" using same by (metis group_ok_cong snd_conv)
  then have "groups_ok h' gs'" using two ok(3) unfolding groups_ok_def res by auto
  moreover have "members gs' = {m \<in> members (g # gs). \<not> cond (snd m)}" using one two unfolding res g by auto
  moreover have "n = length (filter cond (slots_of (g # gs)))" using one two unfolding res g by (simp add: slots_of_def)
  moreover have "same_slots h h'" using one two same_slots_trans unfolding res by blast
  moreover have "\<forall>k. k \<notin> snd ` members (g # gs) \<longrightarrow> h' ! k = h ! k" using one two unfolding res g by (auto simp: image_Un)
  moreover have "map fst gs' = map fst (g # gs)" using two unfolding res g by simp
  ultimately show ?case by blast
qed

lemma slots_of_count: "slot_count s = length (slots_of (m_slots s))"
  by (simp add: slot_count_def slots_of_def length_concat comp_def)

lemma disconnect_if_ok:
  assumes "signal_inv s"
  shows "signal_inv (fst (disconnect_if cond s))"
    "members (m_slots (fst (disconnect_if cond s))) = {m \<in> members (m_slots s). \<not> cond (snd m)}"
    "snd (disconnect_if cond s) = card {m \<in> members (m_slots s). cond (snd m)}"
    "same_slots (heap s) (heap (fst (disconnect_if cond s)))"
    "m_block (fst (disconnect_if cond s)) = m_block s" "expired (fst (disconnect_if cond s)) = expired s"
proof -
  obtain gs h n where d: "disconnect_groups cond (m_slots s) (heap s) = (gs, h, n)" by (metis prod_cases3)
  note ok = disconnect_groups_ok [OF assms [unfolded signal_inv_def] d]
  have e: "disconnect_if cond s = (s\<lparr>m_slots := gs, heap := h\<rparr>, n)" by (simp add: disconnect_if_def d)
  show "signal_inv (fst (disconnect_if cond s))" "same_slots (heap s) (heap (fst (disconnect_if cond s)))"
    "members (m_slots (fst (disconnect_if cond s))) = {m \<in> members (m_slots s). \<not> cond (snd m)}"
    "m_block (fst (disconnect_if cond s)) = m_block s" "expired (fst (disconnect_if cond s)) = expired s"
    using ok by (simp_all add: e signal_inv_def)
  note sl = slots_of_distinct [OF assms [unfolded signal_inv_def]]
  have inj: "inj_on snd (members (m_slots s))"
    using members_group [OF assms [unfolded signal_inv_def]] by (intro inj_onI) (metis prod.collapse)
  have "n = card (set (filter cond (slots_of (m_slots s))))" using ok sl by (metis distinct_card distinct_filter)
  also have "set (filter cond (slots_of (m_slots s))) = snd ` {m \<in> members (m_slots s). cond (snd m)}" using sl by auto
  also have "card \<dots> = card {m \<in> members (m_slots s). cond (snd m)}"
    using inj by (intro card_image) (auto simp: inj_on_def)
  finally show "snd (disconnect_if cond s) = card {m \<in> members (m_slots s). cond (snd m)}" by (simp add: e)
qed

lemma clean_groups_ok:
  assumes "groups_ok h gs" "k < length h" "clean_groups k (mIndex (h ! k)) (mGroup (h ! k)) gs h = (gs', h')"
  shows "groups_ok h' gs' \<and> map fst gs' = map fst gs \<and> members gs' = {m \<in> members gs. snd m \<noteq> k} \<and> same_slots h h' \<and>
    (\<forall>j. j \<notin> snd ` members gs \<longrightarrow> h' ! j = h ! j)"
  using assms
proof (induction gs arbitrary: gs' h')
  case Nil
  then show ?case by simp
next
  case (Cons g gs)
  obtain gid ss where g: "g = (gid, ss)" by (cases g)
  note ok = groups_okD [OF Cons.prems(1) [unfolded g]]
  note sep = group_disjoint [OF Cons.prems(1) [unfolded g]]
  show ?case
  proof (cases "gid = mGroup (h ! k)")
    case True
    have out: "k \<notin> snd ` members gs" using True ok(3) members_group [OF ok(2)] by (force simp: members_def)
    show ?thesis
    proof (cases "mIndex (h ! k) < length ss \<and> ss ! mIndex (h ! k) = k")
      case False
      then have "k \<notin> set ss" using ok(1) by (auto simp: group_ok_def in_set_conv_nth)
      moreover have "gs' = g # gs" "h' = h" using Cons.prems(3) False True g by auto
      ultimately show ?thesis using Cons.prems(1) out g by (auto simp: image_iff)
    next
      case there: True
      let ?e = "erase_at (mIndex (h ! k)) ss h"
      note e = erase_at_ok [OF ok(1), of "mIndex (h ! k)"]
      have res: "gs' = (gid, fst ?e) # gs" "h' = snd ?e" using Cons.prems(3) there True g by (auto simp: split_beta)
      have ms: "mset ss = add_mset k (mset (fst ?e))" using e(2) there by simp
      have "distinct ss" using group_ok_distinct [OF ok(1)] by simp
      then have "set (fst ?e) = set ss - {k}"
        by (metis ms mset_eq_setD mset_remove1 add_mset_remove_trivial set_remove1_eq)
      moreover have same: "same_slots h h'" "\<And>j. j \<notin> set ss \<Longrightarrow> h' ! j = h ! j" using e(3,5) there res by simp_all
      have "h' ! j = h ! j" if "j \<in> snd ` members gs" for j using same(2) sep that by blast
      then have "groups_ok h' gs" by (intro groups_ok_cong [OF ok(2)]) (simp_all add: same_slots_fields(1) [OF same(1)])
      moreover have "group_ok h' (gid, fst ?e)" using e(1) there res by simp
      ultimately have "groups_ok h' gs'" "members gs' = {m \<in> members (g # gs). snd m \<noteq> k}"
        using ok(3) out unfolding res(1) g by (auto simp: groups_ok_def image_iff)
      moreover have "\<forall>j. j \<notin> snd ` members (g # gs) \<longrightarrow> h' ! j = h ! j" using same(2) unfolding g by (auto simp: image_Un)
      moreover have "map fst gs' = map fst (g # gs)" unfolding res(1) g by simp
      ultimately show ?thesis using same(1) by blast
    qed
  next
    case False
    obtain gs1 h1 where r: "clean_groups k (mIndex (h ! k)) (mGroup (h ! k)) gs h = (gs1, h1)" by (metis surj_pair)
    have res: "gs' = (gid, ss) # gs1" "h' = h1" using Cons.prems(3) r False g by auto
    note ih = Cons.IH [OF ok(2) Cons.prems(2) r]
    have same: "h1 ! j = h ! j" if "j \<in> set ss" for j using ih sep [OF that] by blast
    have "length h \<le> length h1" using ih same_slots_fields(1) [of h h1] by simp
    then have g1: "group_ok h1 (gid, ss)" using ok(1) same by (metis group_ok_cong snd_conv)
    then have "groups_ok h' gs'" using ih ok(3) unfolding groups_ok_def res by auto
    moreover have "k \<notin> set ss" using ok(1) False by (auto simp: group_ok_def in_set_conv_nth)
    then have "members gs' = {m \<in> members (g # gs). snd m \<noteq> k}" using ih unfolding res g by auto
    moreover have "\<forall>j. j \<notin> snd ` members (g # gs) \<longrightarrow> h' ! j = h ! j" using ih unfolding res g by (auto simp: image_Un)
    moreover have "same_slots h h'" "map fst gs' = map fst (g # gs)" using ih unfolding res g by simp_all
    ultimately show ?thesis by blast
  qed
qed

lemma clean_ok:
  assumes "signal_inv s" "k < length (heap s)"
  shows "signal_inv (clean k s)" "members (m_slots (clean k s)) = {m \<in> members (m_slots s). snd m \<noteq> k}"
    "same_slots (heap s) (heap (clean k s))" "m_block (clean k s) = m_block s" "expired (clean k s) = expired s"
proof -
  obtain gs h where c: "clean_groups k (mIndex (heap s ! k)) (mGroup (heap s ! k)) (m_slots s) (heap s) = (gs, h)" by (metis surj_pair)
  note ok = clean_groups_ok [OF assms(1) [unfolded signal_inv_def] assms(2) c]
  show "signal_inv (clean k s)" "members (m_slots (clean k s)) = {m \<in> members (m_slots s). snd m \<noteq> k}"
    "same_slots (heap s) (heap (clean k s))" "m_block (clean k s) = m_block s" "expired (clean k s) = expired s"
    using ok by (simp_all add: clean_def c signal_inv_def)
qed

lemma add_to_group_ok:
  assumes "add_to_group k gid gs = (gs', i)" "groups_ok h gs" "length h = k" "k < length h'"
    "\<And>j. j < k \<Longrightarrow> h' ! j = h ! j" "mGroup (h' ! k) = gid" "mIndex (h' ! k) = i"
  shows "groups_ok h' gs' \<and> set (map fst gs') = insert gid (set (map fst gs)) \<and> members gs' = insert (gid, k) (members gs) \<and>
    (\<forall>k'. filter (\<lambda>j. mGroup (h' ! j) = k') (slots_of gs') = filter (\<lambda>j. mGroup (h' ! j) = k') (slots_of gs) @ (if k' = gid then [k] else []))"
  using assms(1,2)
proof (induction gs arbitrary: gs')
  case Nil
  then show ?case using assms(4-) by (auto simp: groups_ok_def group_ok_def slots_of_def)
next
  case (Cons g gs)
  obtain g0 ss where g: "g = (g0, ss)" by (cases g)
  note ok = groups_okD [OF Cons.prems(2) [unfolded g]]
  have old: "j < k" if "j \<in> set ss" for j using ok(1) that assms(3) by (auto simp: group_ok_def in_set_conv_nth)
  have g': "group_ok h' (g0, ss)"
    using ok(1) assms(3-5) by (fastforce simp: group_ok_def)
  have mg: "mGroup (h' ! j) = g0" if "j \<in> set ss" for j using g' that by (auto simp: group_ok_def in_set_conv_nth)
  have old2: "j < k" if "j \<in> snd ` members gs" for j using members_group [OF ok(2)] that assms(3) by auto
  then have gs': "groups_ok h' gs" using assms(3-5) by (intro groups_ok_cong [OF ok(2)]) simp_all
  show ?case
  proof (cases "g0 < gid")
    case True
    obtain gs1 where r: "add_to_group k gid gs = (gs1, i)" "gs' = (g0, ss) # gs1"
      using Cons.prems(1) True g by (auto split: prod.splits)
    note ih = Cons.IH [OF r(1) ok(2)]
    have "groups_ok h' gs'" using ih g' True ok(3) unfolding groups_ok_def r(2) by simp
    then show ?thesis using ih by (auto simp: r(2) g slots_of_def)
  next
    case False
    note ge = this
    show ?thesis
    proof (cases "g0 = gid")
      case True
      then have res: "gs' = (g0, ss @ [k]) # gs" "i = length ss" using Cons.prems(1) g by simp_all
      have "group_ok h' (g0, ss @ [k])"
        using g' assms(4,6,7) res True by (auto simp: group_ok_def nth_append less_Suc_eq)
      then have "groups_ok h' gs'" using gs' ok(3) by (auto simp: groups_ok_def res)
      moreover have "filter (\<lambda>j. mGroup (h' ! j) = gid) (slots_of gs) = []"
        using slots_of_distinct [OF gs'] members_group [OF gs'] ok(3) True by (fastforce simp: filter_empty_conv members_def)
      ultimately show ?thesis using True assms(6) by (auto simp: res g slots_of_def)
    next
      case False
      then have res: "gs' = (gid, [k]) # g # gs" "i = 0" using Cons.prems(1) g ge by simp_all
      have lt: "\<forall>x \<in> set (map fst (g # gs)). gid < x" using ok(3) ge False by (auto simp: g)
      have "groups_ok h' (g # gs)" using gs' g' ok(3) by (auto simp: groups_ok_def g)
      moreover from this have "filter (\<lambda>j. mGroup (h' ! j) = gid) (slots_of (g # gs)) = []"
        using slots_of_distinct [of h' "g # gs"] members_group [of h' "g # gs"] lt by (fastforce simp: filter_empty_conv members_def)
      ultimately show ?thesis using lt assms(4,6,7) by (auto simp: res groups_ok_def group_ok_def slots_of_def g)
    qed
  qed
qed

lemma connect_ok:
  assumes "signal_inv s"
  shows "signal_inv (connect c p t gid s)" "members (m_slots (connect c p t gid s)) = insert (gid, length (heap s)) (members (m_slots s))"
    "\<exists>i. heap (connect c p t gid s) = heap s @
       [\<lparr>mIndex = i, mGroup = gid, mBlocked = False, mConnected = True, func = c, ptr = p, tracked = t\<rparr>]"
    "m_block (connect c p t gid s) = m_block s" "expired (connect c p t gid s) = expired s"
proof -
  let ?k = "length (heap s)"
  obtain gs i where a: "add_to_group ?k gid (m_slots s) = (gs, i)" by (metis surj_pair)
  let ?h = "heap s @ [\<lparr>mIndex = i, mGroup = gid, mBlocked = False, mConnected = True, func = c, ptr = p, tracked = t\<rparr>]"
  have e: "connect c p t gid s = s\<lparr>heap := ?h, m_slots := gs\<rparr>"
    by (simp add: connect_def add_slot_def a upd_slot_def Let_def)
  have "groups_ok ?h gs \<and> members gs = insert (gid, ?k) (members (m_slots s))"
    using add_to_group_ok [OF a assms [unfolded signal_inv_def] refl, of ?h] by (simp add: nth_append)
  then show "signal_inv (connect c p t gid s)" "members (m_slots (connect c p t gid s)) = insert (gid, ?k) (members (m_slots s))"
    "m_block (connect c p t gid s) = m_block s" "expired (connect c p t gid s) = expired s"
    by (simp_all add: e signal_inv_def)
  show "\<exists>i. heap (connect c p t gid s) = heap s @
       [\<lparr>mIndex = i, mGroup = gid, mBlocked = False, mConnected = True, func = c, ptr = p, tracked = t\<rparr>]"
    by (simp add: e)
qed

lemma clear_group_ok:
  assumes "groups_ok h gs" "clear_group gid gs = (gs', n)"
  shows "groups_ok h gs' \<and> map fst gs' = map fst gs \<and> members gs' = {m \<in> members gs. fst m \<noteq> gid} \<and> n = card {m \<in> members gs. fst m = gid}"
  using assms
proof (induction gs arbitrary: gs' n)
  case Nil
  then show ?case by simp
next
  case (Cons g gs)
  obtain g0 ss where g: "g = (g0, ss)" by (cases g)
  note ok = groups_okD [OF Cons.prems(1) [unfolded g]]
  show ?case
  proof (cases "g0 = gid")
    case True
    then have res: "gs' = (g0, []) # gs" "n = length ss" using Cons.prems(2) g by simp_all
    have rest: "fst m \<noteq> gid" if "m \<in> members gs" for m using that ok(3) True by (force simp: members_def)
    have "{m \<in> members (g # gs). fst m = gid} = {gid} \<times> set ss" using rest True by (auto simp: g)
    then have "card {m \<in> members (g # gs). fst m = gid} = length ss"
      using group_ok_distinct [OF ok(1)] by (simp add: card_cartesian_product_singleton distinct_card)
    then show ?thesis using Cons.prems(1) ok rest True by (auto simp: res g groups_ok_def group_ok_def)
  next
    case False
    obtain gs1 where r: "clear_group gid gs = (gs1, n)" "gs' = (g0, ss) # gs1"
      using Cons.prems(2) False g by (auto split: prod.splits)
    note ih = Cons.IH [OF ok(2) r(1)]
    have "{m \<in> members (g # gs). fst m = gid} = {m \<in> members gs. fst m = gid}" using False by (auto simp: g)
    then show ?thesis using ih ok False by (auto simp: r(2) g groups_ok_def)
  qed
qed

text \<open>Removing single fields.\<close>

lemma signal_inv_upd:
  assumes "signal_inv s" "\<And>u. mIndex (f u) = mIndex u \<and> mGroup (f u) = mGroup u"
  shows "signal_inv (upd_slot k f s)" "m_slots (upd_slot k f s) = m_slots s" "m_block (upd_slot k f s) = m_block s"
    "expired (upd_slot k f s) = expired s" "length (heap (upd_slot k f s)) = length (heap s)"
proof -
  have "mIndex ((heap s)[k := f (heap s ! k)] ! j) = mIndex (heap s ! j) \<and> mGroup ((heap s)[k := f (heap s ! k)] ! j) = mGroup (heap s ! j)" for j
    using assms(2) by (cases "j = k"; cases "k < length (heap s)") (simp_all add: list_update_beyond)
  then have "groups_ok ((heap s)[k := f (heap s ! k)]) (m_slots s)"
    by (intro groups_ok_cong [OF assms(1) [unfolded signal_inv_def]]) simp_all
  then show "signal_inv (upd_slot k f s)" by (simp add: signal_inv_def upd_slot_def)
qed (simp_all add: upd_slot_def)


section \<open>Emission\<close>

text \<open>
  A running emission holds the list of slots from the time it began (\<open>slots_reference\<close> copies the list, and a writer
  makes a new one), has a position in it, and a stage of the call of the slot there. It holds no lock, so other
  threads may act between the stages: before \<open>operator()\<close> reads the flag of the connection, before it reads the flag that
  blocks the slot, before \<open>callSlot\<close> locks the weak pointer of a tracked slot (or calls an untracked one),
  before the second look at the connection of a tracked slot, and before its call.
\<close>

datatype stage = Checking | CheckingBlock | Entering | Locked | Calling

record emission =
  slots :: "slot list"
  pos :: nat
  stage :: stage
  ended :: bool

definition emission_new :: "slot list \<Rightarrow> emission" where
  "emission_new ss = \<lparr>slots = ss, pos = 0, stage = Checking, ended = False\<rparr>"

definition next_slot :: "emission \<Rightarrow> emission" where
  "next_slot e = e\<lparr>pos := pos e + 1, stage := Checking\<rparr>"

text \<open>The system also has the slots whose flag was cleared by \<open>disconnect\<close> and which \<open>clean\<close> is still to remove,
  and the calls made so far, with the emission that made them.\<close>

record sig_system =
  sig :: signal
  emissions :: "emission list"
  cleaning :: "slot list"
  calls :: "(nat \<times> slot) list"

datatype sig_action =
  Connect nat "nat option" bool int
| Disconnect slot
| Clean slot
| BlockSlot slot bool
| BlockSignal bool
| DisconnectCallable nat
| DisconnectObject "nat option"
| DisconnectBoth nat "nat option"
| DisconnectGroup int
| DisconnectAll
| Expire nat
| Emit
| Visit nat
| EndEmission nat

definition signal_system_new :: sig_system where
  "signal_system_new = \<lparr>sig = Signal_new, emissions = [], cleaning = [], calls = []\<rparr>"

text \<open>A connection is a weak pointer to the slot; the slot lives in the list, in running emissions, and while it is cleaned.\<close>

definition alive :: "sig_system \<Rightarrow> slot \<Rightarrow> bool" where
  "alive s k \<longleftrightarrow> k \<in> set (slots_of (m_slots (sig s))) \<or> (\<exists>e \<in> set (emissions s). \<not> ended e \<and> k \<in> set (slots e)) \<or> k \<in> set (cleaning s)"

text \<open>\<open>SlotState::disconnect\<close>, up to the call of \<open>clean\<close>.\<close>

definition slot_disconnect :: "slot \<Rightarrow> sig_system \<Rightarrow> sig_system" where
  "slot_disconnect k s =
     (if mConnected (heap (sig s) ! k)
      then s\<lparr>sig := upd_slot k (\<lambda>u. u\<lparr>mConnected := False\<rparr>) (sig s), cleaning := k # cleaning s\<rparr> else s)"

definition set_emission :: "nat \<Rightarrow> emission \<Rightarrow> sig_system \<Rightarrow> sig_system" where
  "set_emission n e s = s\<lparr>emissions := (emissions s)[n := e]\<rparr>"

definition make_call :: "nat \<Rightarrow> slot \<Rightarrow> sig_system \<Rightarrow> sig_system" where
  "make_call n k s = s\<lparr>calls := calls s @ [(n, k)]\<rparr>"

text \<open>One stage of \<open>callSlot\<close> of the tracked and untracked kinds of slots, and of \<open>SlotBase::operator()\<close>, by emission \<open>n\<close>.\<close>

definition callSlot :: "nat \<Rightarrow> sig_system \<Rightarrow> sig_system" where
  "callSlot n s = (let e = emissions s ! n; k = slots e ! pos e; u = heap (sig s) ! k; s' = set_emission n (next_slot e) s in
     case stage e of
       Entering \<Rightarrow>
         if \<not> tracked u then make_call n k s'
         else if is_expired (sig s) u then slot_disconnect k s'
         else set_emission n (e\<lparr>stage := Locked\<rparr>) s
     | Locked \<Rightarrow> if mConnected u then set_emission n (e\<lparr>stage := Calling\<rparr>) s else s'
     | _ \<Rightarrow> make_call n k s')"

definition call_slot :: "nat \<Rightarrow> sig_system \<Rightarrow> sig_system" where
  "call_slot n s = (let e = emissions s ! n; u = heap (sig s) ! (slots e ! pos e); s' = set_emission n (next_slot e) s in
     case stage e of
       Checking \<Rightarrow> if mConnected u then set_emission n (e\<lparr>stage := CheckingBlock\<rparr>) s else s'
     | CheckingBlock \<Rightarrow> if \<not> mBlocked u then set_emission n (e\<lparr>stage := Entering\<rparr>) s else s'
     | _ \<Rightarrow> callSlot n s)"

text \<open>An emission that has locked the weak pointer of a slot keeps its object alive.\<close>

definition locks_object :: "nat \<Rightarrow> sig_system \<Rightarrow> bool" where
  "locks_object p s \<longleftrightarrow>
     (\<exists>e \<in> set (emissions s). (stage e = Locked \<or> stage e = Calling) \<and> ptr (heap (sig s) ! (slots e ! pos e)) = Some p)"

definition with_signal :: "sig_system \<Rightarrow> signal \<Rightarrow> sig_system" where
  "with_signal s g = s\<lparr>sig := g\<rparr>"

fun sig_step :: "sig_action \<Rightarrow> sig_system \<Rightarrow> sig_system option" where
  "sig_step (Connect c p t gid) s = Some (with_signal s (connect c p t gid (sig s)))"
| "sig_step (Disconnect k) s = (if alive s k then Some (slot_disconnect k s) else Some s)"
| "sig_step (Clean k) s =
     (if k \<in> set (cleaning s) then Some (s\<lparr>sig := clean k (sig s), cleaning := remove1 k (cleaning s)\<rparr>) else None)"
| "sig_step (BlockSlot k b) s =
     (if alive s k then Some (with_signal s (upd_slot k (\<lambda>u. u\<lparr>mBlocked := b\<rparr>) (sig s))) else Some s)"
| "sig_step (BlockSignal b) s = Some (with_signal s ((sig s)\<lparr>m_block := b\<rparr>))"
| "sig_step (DisconnectCallable c) s = Some (with_signal s (fst (disconnect_callable c (sig s))))"
| "sig_step (DisconnectObject p) s = Some (with_signal s (fst (disconnect_object p (sig s))))"
| "sig_step (DisconnectBoth c p) s = Some (with_signal s (fst (disconnect_callable_object c p (sig s))))"
| "sig_step (DisconnectGroup gid) s = Some (with_signal s (fst (disconnect_group gid (sig s))))"
| "sig_step DisconnectAll s = Some (with_signal s (disconnect_all (sig s)))"
| "sig_step (Expire p) s =
     (if locks_object p s then None else Some (with_signal s ((sig s)\<lparr>expired := insert p (expired (sig s))\<rparr>)))"
| "sig_step Emit s =
     (if m_block (sig s) then Some s
      else Some (s\<lparr>emissions := emissions s @ [emission_new (slots_of (m_slots (sig s)))]\<rparr>))"
| "sig_step (Visit n) s =
     (if n < length (emissions s) then
        let e = emissions s ! n in
        if pos e < length (slots e) \<and> \<not> ended e
        then Some (call_slot n s) else None
      else None)"
| "sig_step (EndEmission n) s =
     (if n < length (emissions s) then
        let e = emissions s ! n in
        if pos e = length (slots e) then Some (s\<lparr>emissions := (emissions s)[n := e\<lparr>ended := True\<rparr>]\<rparr>) else None
      else None)"

fun sig_run :: "sig_action list \<Rightarrow> sig_system \<Rightarrow> sig_system option" where
  "sig_run [] s = Some s"
| "sig_run (a # as) s = do { s \<leftarrow> sig_step a s; sig_run as s }"

inductive sig_reach :: "sig_system \<Rightarrow> bool" where
  create: "sig_reach signal_system_new"
| step: "sig_reach s \<Longrightarrow> sig_step a s = Some s' \<Longrightarrow> sig_reach s'"


section \<open>What holds in every state\<close>

definition calls_of :: "nat \<Rightarrow> sig_system \<Rightarrow> slot list" where
  "calls_of n s = map snd (filter (\<lambda>c. fst c = n) (calls s))"

definition emission_ok :: "slot_state list \<Rightarrow> emission \<Rightarrow> bool" where
  "emission_ok h e \<longleftrightarrow> distinct (slots e) \<and> (\<forall>k \<in> set (slots e). k < length h) \<and> sorted (map (\<lambda>k. mGroup (h ! k)) (slots e)) \<and>
     pos e \<le> length (slots e)"

definition system_ok :: "sig_system \<Rightarrow> bool" where
  "system_ok s \<longleftrightarrow> signal_inv (sig s) \<and> (\<forall>e \<in> set (emissions s). emission_ok (heap (sig s)) e) \<and>
     (\<forall>k \<in> set (cleaning s). k < length (heap (sig s)) \<and> \<not> mConnected (heap (sig s) ! k)) \<and>
     (\<forall>c \<in> set (calls s). fst c < length (emissions s)) \<and>
     (\<forall>n < length (emissions s). subseq (calls_of n s) (take (pos (emissions s ! n)) (slots (emissions s ! n))))"

text \<open>What happens to slots: none goes away, none changes its group or its kind, none is connected again.\<close>

definition heap_le :: "slot_state list \<Rightarrow> slot_state list \<Rightarrow> bool" where
  "heap_le h h' \<longleftrightarrow> length h \<le> length h' \<and>
     (\<forall>k < length h. mGroup (h' ! k) = mGroup (h ! k) \<and> tracked (h' ! k) = tracked (h ! k) \<and> (mConnected (h' ! k) \<longrightarrow> mConnected (h ! k)))"

lemma heap_le_refl [simp]: "heap_le h h"
  by (simp add: heap_le_def)

lemma heap_le_same: "same_slots h h' \<Longrightarrow> heap_le h h'"
  by (simp add: heap_le_def same_slots_fields)

lemma emission_ok_le: "emission_ok h e \<Longrightarrow> heap_le h h' \<Longrightarrow> emission_ok h' e"
proof -
  assume e: "emission_ok h e" and le: "heap_le h h'"
  then have m: "map (\<lambda>k. mGroup (h' ! k)) (slots e) = map (\<lambda>k. mGroup (h ! k)) (slots e)"
    by (auto simp: emission_ok_def heap_le_def)
  then show ?thesis using e le unfolding emission_ok_def heap_le_def m by auto
qed

text \<open>A step that changes the signal only.\<close>

lemma system_ok_signal:
  assumes "system_ok s" "signal_inv g" "heap_le (heap (sig s)) (heap g)"
  shows "system_ok (with_signal s g)"
  using assms emission_ok_le
  by (fastforce simp: system_ok_def with_signal_def heap_le_def calls_of_def)

lemma heap_le_upd: "(\<And>u. mGroup (f u) = mGroup u \<and> tracked (f u) = tracked u \<and> (mConnected (f u) \<longrightarrow> mConnected u)) \<Longrightarrow> heap_le (heap s) (heap (upd_slot k f s))"
  by (cases "k < length (heap s)") (simp_all add: heap_le_def upd_slot_def nth_list_update list_update_beyond)

lemma disconnect_if_le:
  assumes "signal_inv s"
  shows "signal_inv (fst (disconnect_if cond s)) \<and> heap_le (heap s) (heap (fst (disconnect_if cond s)))"
  using disconnect_if_ok(1,4) [OF assms] heap_le_same by blast

lemma subseq_calls_snoc:
  assumes "subseq xs (take n ys)" "n < length ys"
  shows "subseq (xs @ [ys ! n]) (take (Suc n) ys)" "subseq xs (take (Suc n) ys)"
  using assms by (auto simp: take_Suc_conv_app_nth subseq_append_iff intro: list_emb_append2)

lemma slot_disconnect_ok:
  assumes "system_ok s" "k < length (heap (sig s))"
  shows "system_ok (slot_disconnect k s)" "heap_le (heap (sig s)) (heap (sig (slot_disconnect k s)))"
    "emissions (slot_disconnect k s) = emissions s" "calls (slot_disconnect k s) = calls s"
proof -
  let ?g = "upd_slot k (\<lambda>u. u\<lparr>mConnected := False\<rparr>) (sig s)"
  have le: "heap_le (heap (sig s)) (heap ?g)" by (intro heap_le_upd) simp
  have "signal_inv ?g" using assms(1) by (intro signal_inv_upd) (simp_all add: system_ok_def)
  then have "system_ok (with_signal s ?g)" using le by (intro system_ok_signal [OF assms(1)])
  then show "system_ok (slot_disconnect k s)"
    using assms by (simp add: slot_disconnect_def system_ok_def with_signal_def calls_of_def upd_slot_def)
  show "heap_le (heap (sig s)) (heap (sig (slot_disconnect k s)))" using le by (simp add: slot_disconnect_def)
qed (simp_all add: slot_disconnect_def)

lemma alive_slot:
  assumes "system_ok s" "alive s k"
  shows "k < length (heap (sig s))"
proof -
  have "groups_ok (heap (sig s)) (m_slots (sig s))" using assms(1) by (simp add: system_ok_def signal_inv_def)
  note slots_of_distinct [OF this] members_group [OF this]
  then show ?thesis using assms by (auto simp: alive_def system_ok_def emission_ok_def)
qed

lemma emit_ok:
  assumes "system_ok s"
  shows "system_ok (s\<lparr>emissions := emissions s @ [emission_new (slots_of (m_slots (sig s)))]\<rparr>)"
proof -
  have ok: "groups_ok (heap (sig s)) (m_slots (sig s))" using assms by (simp add: system_ok_def signal_inv_def)
  note d = slots_of_distinct [OF ok]
  have "emission_ok (heap (sig s)) (emission_new (slots_of (m_slots (sig s))))"
    using d members_group [OF ok] by (auto simp: emission_ok_def emission_new_def)
  moreover have "calls_of (length (emissions s)) s = []" using assms by (auto simp: calls_of_def system_ok_def filter_empty_conv)
  ultimately show ?thesis
    using assms by (auto simp: system_ok_def calls_of_def nth_append less_Suc_eq)
qed

lemma slot_disconnect_fields [simp]:
  "emissions (slot_disconnect k s) = emissions s" "calls (slot_disconnect k s) = calls s"
  by (simp_all add: slot_disconnect_def)

text \<open>What one stage of a call can do: go to a later stage, leave the slot, disconnect it, or call it.\<close>

lemmas visit_defs = set_emission_def next_slot_def make_call_def slot_disconnect_def upd_slot_def emission_new_def

lemma visit_cases:
  assumes "sig_step (Visit n) s = Some s'"
  defines "e \<equiv> emissions s ! n"
  shows "n < length (emissions s) \<and> pos e < length (slots e) \<and> \<not> ended e"
    "(\<exists>st. s' = set_emission n (e\<lparr>stage := st\<rparr>) s) \<or> s' = set_emission n (next_slot e) s \<or>
     s' = slot_disconnect (slots e ! pos e) (set_emission n (next_slot e) s) \<or> s' = make_call n (slots e ! pos e) (set_emission n (next_slot e) s)"
    "s' = call_slot n s"
  using assms by (auto simp: Let_def call_slot_def callSlot_def split: if_splits stage.splits)

lemma set_emission_ok:
  assumes ok: "system_ok s" and n: "n < length (emissions s)" and e: "emission_ok (heap (sig s)) e"
    and sub: "subseq (calls_of n s) (take (pos e) (slots e))"
  shows "system_ok (set_emission n e s)"
proof -
  have "\<forall>x \<in> set ((emissions s)[n := e]). emission_ok (heap (sig s)) x"
    using ok e set_update_subset_insert [of "emissions s" n e] by (auto simp: system_ok_def)
  moreover have "subseq (calls_of m s) (take (pos ((emissions s)[n := e] ! m)) (slots ((emissions s)[n := e] ! m)))" if "m < length (emissions s)" for m
    using ok that sub by (cases "m = n") (simp_all add: system_ok_def)
  ultimately show ?thesis using ok by (simp add: system_ok_def calls_of_def set_emission_def)
qed

lemma make_call_ok:
  assumes ok: "system_ok s" and n: "n < length (emissions s)"
    and sub: "subseq (calls_of n s @ [k]) (take (pos (emissions s ! n)) (slots (emissions s ! n)))"
  shows "system_ok (make_call n k s)"
proof -
  have c: "calls_of m (make_call n k s) = calls_of m s @ (if m = n then [k] else [])" for m by (simp add: calls_of_def make_call_def)
  have "subseq (calls_of m (make_call n k s)) (take (pos (emissions s ! m)) (slots (emissions s ! m)))" if "m < length (emissions s)" for m
    using ok that sub unfolding c by (cases "m = n") (simp_all add: system_ok_def)
  then show ?thesis using ok n by (simp add: system_ok_def make_call_def)
qed

lemma visit_ok:
  assumes ok: "system_ok s" and st: "sig_step (Visit n) s = Some s'"
  shows "system_ok s' \<and> heap_le (heap (sig s)) (heap (sig s'))"
proof -
  let ?e = "emissions s ! n"
  let ?k = "slots ?e ! pos ?e" and ?s = "set_emission n (next_slot ?e) s"
  have n: "n < length (emissions s)" "pos ?e < length (slots ?e)" using visit_cases(1) [OF st] by simp_all
  have eo: "emission_ok (heap (sig s)) ?e" and sub: "subseq (calls_of n s) (take (pos ?e) (slots ?e))"
    using ok n(1) by (simp_all add: system_ok_def)
  note sn = subseq_calls_snoc [OF sub n(2)]
  have k: "?k < length (heap (sig ?s))" using eo n(2) by (simp add: emission_ok_def set_emission_def)
  have stay: "system_ok (set_emission n (?e\<lparr>stage := t\<rparr>) s)" for t
    using eo sub by (intro set_emission_ok [OF ok n(1)]) (simp_all add: emission_ok_def)
  have move: "system_ok ?s"
    using eo n(2) sn(2) by (intro set_emission_ok [OF ok n(1)]) (simp_all add: emission_ok_def next_slot_def)
  have call: "system_ok (make_call n ?k ?s)"
    using sn(1) n(1) by (intro make_call_ok [OF move]) (simp_all add: set_emission_def next_slot_def calls_of_def)
  have off: "system_ok (slot_disconnect ?k ?s)" "heap_le (heap (sig ?s)) (heap (sig (slot_disconnect ?k ?s)))"
    using slot_disconnect_ok(1,2) [OF move k] by simp_all
  show ?thesis using visit_cases(2) [OF st] stay move call off by (auto simp: set_emission_def make_call_def)
qed

lemma end_ok:
  assumes "system_ok s" "n < length (emissions s)"
  shows "system_ok (s\<lparr>emissions := (emissions s)[n := (emissions s ! n)\<lparr>ended := True\<rparr>]\<rparr>)"
proof -
  let ?e = "(emissions s ! n)\<lparr>ended := True\<rparr>"
  have "emission_ok (heap (sig s)) ?e" using assms by (auto simp: system_ok_def emission_ok_def)
  then have es: "\<forall>x \<in> set ((emissions s)[n := ?e]). emission_ok (heap (sig s)) x"
    using assms set_update_subset_insert [of "emissions s" n ?e] by (auto simp: system_ok_def)
  have "subseq (calls_of m s) (take (pos ((emissions s)[n := ?e] ! m)) (slots ((emissions s)[n := ?e] ! m)))"
    if "m < length (emissions s)" for m
    using assms that by (simp add: system_ok_def nth_list_update)
  then show ?thesis using assms es by (simp add: system_ok_def calls_of_def)
qed

lemma sig_step_ok:
  assumes ok: "system_ok s" and st: "sig_step a s = Some s'"
  shows "system_ok s' \<and> heap_le (heap (sig s)) (heap (sig s'))"
proof -
  have inv: "signal_inv (sig s)" using ok by (simp add: system_ok_def)
  have sig: "system_ok (with_signal s g) \<and> heap_le (heap (sig s)) (heap (sig (with_signal s g)))"
    if "signal_inv g \<and> heap_le (heap (sig s)) (heap g)" for g
    using system_ok_signal [OF ok] that by (simp add: with_signal_def)
  show ?thesis
  proof (cases a)
    case (Connect c p t gid)
    note c = connect_ok [OF inv, of c p t gid]
    have "heap_le (heap (sig s)) (heap (connect c p t gid (sig s)))" using c(3) by (auto simp: heap_le_def nth_append)
    then show ?thesis using sig c(1) st Connect by auto
  next
    case (Disconnect k)
    then show ?thesis using st ok slot_disconnect_ok(1,2) [OF ok alive_slot [OF ok]] by (auto split: if_splits)
  next
    case (Clean k)
    then have k: "k \<in> set (cleaning s)" "s' = s\<lparr>sig := clean k (sig s), cleaning := remove1 k (cleaning s)\<rparr>"
      using st by (auto split: if_splits)
    then have "k < length (heap (sig s))" using ok by (auto simp: system_ok_def)
    note c = clean_ok [OF inv this]
    have w: "system_ok (with_signal s (clean k (sig s)))" "heap_le (heap (sig s)) (heap (clean k (sig s)))"
      using sig c(1) heap_le_same [OF c(3)] by auto
    then show ?thesis using k(2) set_remove1_subset [of k "cleaning s"] by (auto simp: system_ok_def with_signal_def calls_of_def)
  next
    case (BlockSlot k b)
    have "signal_inv (upd_slot k (\<lambda>u. u\<lparr>mBlocked := b\<rparr>) (sig s)) \<and>
        heap_le (heap (sig s)) (heap (upd_slot k (\<lambda>u. u\<lparr>mBlocked := b\<rparr>) (sig s)))"
      using signal_inv_upd(1) [OF inv] heap_le_upd by simp
    then show ?thesis using sig st BlockSlot ok by (auto split: if_splits)
  next
    case (DisconnectGroup gid)
    obtain gs n where c: "clear_group gid (m_slots (sig s)) = (gs, n)" by (metis surj_pair)
    have "signal_inv (fst (disconnect_group gid (sig s)))"
      using clear_group_ok [OF inv [unfolded signal_inv_def] c] by (simp add: disconnect_group_def c signal_inv_def)
    moreover have "heap (fst (disconnect_group gid (sig s))) = heap (sig s)" by (simp add: disconnect_group_def c)
    ultimately show ?thesis using sig st DisconnectGroup by auto
  next
    case DisconnectAll
    have "signal_inv (disconnect_all (sig s))" by (simp add: signal_inv_def disconnect_all_def groups_ok_def)
    then show ?thesis using sig [of "disconnect_all (sig s)"] st DisconnectAll by (auto simp: disconnect_all_def)
  next
    case Emit
    then show ?thesis using st ok emit_ok [OF ok] by (auto split: if_splits)
  next
    case (Visit n)
    then show ?thesis using visit_ok [OF ok] st by simp
  next
    case (EndEmission n)
    then show ?thesis using st end_ok [OF ok, of n] by (auto simp: Let_def split: if_splits)
  next
    case (BlockSignal b)
    have "signal_inv ((sig s)\<lparr>m_block := b\<rparr>)" using inv by (simp add: signal_inv_def)
    then show ?thesis using sig [of "(sig s)\<lparr>m_block := b\<rparr>"] st BlockSignal by auto
  next
    case (Expire p)
    have "signal_inv ((sig s)\<lparr>expired := insert p (expired (sig s))\<rparr>)" using inv by (simp add: signal_inv_def)
    then show ?thesis using sig [of "(sig s)\<lparr>expired := insert p (expired (sig s))\<rparr>"] st Expire by (auto split: if_splits)
  qed (use st sig disconnect_if_le [OF inv] in \<open>auto simp: disconnect_callable_def disconnect_object_def disconnect_callable_object_def\<close>)
qed

lemma sig_reach_ok: "sig_reach s \<Longrightarrow> system_ok s"
proof (induction rule: sig_reach.induct)
  case create
  show ?case by (simp add: system_ok_def signal_system_new_def Signal_new_def signal_inv_def groups_ok_def)
next
  case (step s a s')
  then show ?case using sig_step_ok by blast
qed


section \<open>What a signal promises\<close>

text \<open>The steps of a signal never bring a slot back.\<close>

lemma slots_of_members: "signal_inv g \<Longrightarrow> set (slots_of (m_slots g)) = snd ` members (m_slots g)"
  using slots_of_distinct [of "heap g" "m_slots g"] by (simp add: signal_inv_def)

lemma members_subset: "M' = {m \<in> M. P m} \<Longrightarrow> M' \<subseteq> M \<union> N"
  by blast

lemma sig_step_members:
  assumes ok: "system_ok s" and st: "sig_step a s = Some s'"
  shows "members (m_slots (sig s')) \<subseteq> members (m_slots (sig s)) \<union> UNIV \<times> {length (heap (sig s))}"
proof -
  have inv: "signal_inv (sig s)" using ok by (simp add: system_ok_def)
  note less = members_subset [OF disconnect_if_ok(2) [OF inv]]
  have same: ?thesis if "m_slots (sig s') = m_slots (sig s)" using that by simp
  show ?thesis
  proof (cases a)
    case (Connect c p t gid)
    then have "sig s' = connect c p t gid (sig s)" using st by (auto simp: with_signal_def)
    then show ?thesis using connect_ok(2) [OF inv, of c p t gid] by auto
  next
    case (Disconnect k)
    then show ?thesis using st by (intro same) (auto simp: slot_disconnect_def upd_slot_def split: if_splits)
  next
    case (Clean k)
    then have "k < length (heap (sig s))" "sig s' = clean k (sig s)" using st ok by (auto simp: system_ok_def split: if_splits)
    then show ?thesis using members_subset [OF clean_ok(2) [OF inv, of k]] by simp
  next
    case (BlockSlot k b)
    then show ?thesis using st by (intro same) (auto simp: with_signal_def upd_slot_def split: if_splits)
  next
    case (DisconnectGroup gid)
    obtain gs n where c: "clear_group gid (m_slots (sig s)) = (gs, n)" by (metis surj_pair)
    have "members gs = {m \<in> members (m_slots (sig s)). fst m \<noteq> gid}" using clear_group_ok [OF inv [unfolded signal_inv_def] c] by blast
    moreover have "m_slots (sig s') = gs" using st DisconnectGroup c by (auto simp: disconnect_group_def with_signal_def)
    ultimately show ?thesis using members_subset by metis
  next
    case (Visit n)
    then show ?thesis using visit_cases(2,3) [of n s s'] st by (intro same) (auto simp: visit_defs)
  next
    case (DisconnectCallable c)
    then have "s' = with_signal s (fst (disconnect_if (\<lambda>k. func (heap (sig s) ! k) = c) (sig s)))"
      using st by (simp add: disconnect_callable_def)
    then show ?thesis using less by (simp add: with_signal_def)
  next
    case (DisconnectObject p)
    then have "s' = with_signal s (fst (disconnect_if (\<lambda>k. get_object (sig s) k = p) (sig s)))"
      using st by (simp add: disconnect_object_def)
    then show ?thesis using less by (simp add: with_signal_def)
  next
    case (DisconnectBoth c p)
    then have "s' = with_signal s (fst (disconnect_if (\<lambda>k. get_object (sig s) k = p \<and> func (heap (sig s) ! k) = c) (sig s)))"
      using st by (simp add: disconnect_callable_object_def)
    then show ?thesis using less by (simp add: with_signal_def)
  next
    case DisconnectAll
    then show ?thesis using st by (auto simp: with_signal_def disconnect_all_def)
  qed (use st in \<open>auto simp: with_signal_def Let_def split: if_splits intro!: same\<close>)
qed

text \<open>
  A slot that is disconnected: its flag is cleared, or it is off the signal and no running emission is to come to it. An emission
  is committed to the call of a slot when it has looked at the connection for the last time and is to call the slot.
\<close>

definition disconnected :: "slot \<Rightarrow> sig_system \<Rightarrow> bool" where
  "disconnected k s \<longleftrightarrow> k < length (heap (sig s)) \<and>
     (mConnected (heap (sig s) ! k) \<longrightarrow>
       k \<notin> set (slots_of (m_slots (sig s))) \<and> (\<forall>e \<in> set (emissions s). k \<notin> set (drop (pos e) (slots e))))"

definition committed :: "nat \<Rightarrow> slot \<Rightarrow> sig_system \<Rightarrow> bool" where
  "committed n k s \<longleftrightarrow> n < length (emissions s) \<and>
     (let e = emissions s ! n in pos e < length (slots e) \<and> slots e ! pos e = k \<and>
        (if tracked (heap (sig s) ! k) then stage e = Calling else stage e \<noteq> Checking))"

lemma set_drop_Suc: "i < length xs \<Longrightarrow> set (drop i xs) = insert (xs ! i) (set (drop (Suc i) xs))"
  by (metis Cons_nth_drop_Suc list.simps(15))

lemma visit_emissions:
  assumes "sig_step (Visit n) s = Some s'"
  shows "\<exists>t. emissions s' = (emissions s)[n := (emissions s ! n)\<lparr>stage := t\<rparr>] \<or> emissions s' = (emissions s)[n := next_slot (emissions s ! n)]"
  using visit_cases(2) [OF assms] by (auto simp: set_emission_def make_call_def)

lemma emissions_step:
  assumes "sig_step a s = Some s'" "e \<in> set (emissions s')"
  shows "set (drop (pos e) (slots e)) \<subseteq> set (slots_of (m_slots (sig s))) \<union> (\<Union>e \<in> set (emissions s). set (drop (pos e) (slots e)))"
proof (cases a)
  case (Visit n)
  let ?f = "emissions s ! n"
  have n: "n < length (emissions s)" "pos ?f < length (slots ?f)" using visit_cases(1) [of n s s'] assms(1) Visit by simp_all
  obtain t where "emissions s' = (emissions s)[n := ?f\<lparr>stage := t\<rparr>] \<or> emissions s' = (emissions s)[n := next_slot ?f]"
    using visit_emissions assms(1) Visit by blast
  then have "e = ?f\<lparr>stage := t\<rparr> \<or> e = next_slot ?f \<or> e \<in> set (emissions s)"
    using assms(2) set_update_subset_insert [of "emissions s" n "?f\<lparr>stage := t\<rparr>"] set_update_subset_insert [of "emissions s" n "next_slot ?f"]
    by auto
  then show ?thesis using set_drop_Suc [OF n(2)] nth_mem [OF n(1)] by (auto simp: next_slot_def)
next
  case (EndEmission n)
  let ?f = "emissions s ! n"
  have n: "n < length (emissions s)" "emissions s' = (emissions s)[n := ?f\<lparr>ended := True\<rparr>]"
    using assms(1) EndEmission by (auto simp: Let_def split: if_splits)
  then have "e = ?f\<lparr>ended := True\<rparr> \<or> e \<in> set (emissions s)"
    using assms(2) set_update_subset_insert [of "emissions s" n "?f\<lparr>ended := True\<rparr>"] by auto
  then show ?thesis using nth_mem [OF n(1)] by auto
qed (use assms in \<open>auto simp: with_signal_def slot_disconnect_def emission_new_def split: if_splits\<close>)

text \<open>The calls of a slot by an emission, with the one it is committed to.\<close>

definition due :: "nat \<Rightarrow> slot \<Rightarrow> sig_system \<Rightarrow> nat" where
  "due n k s = count_list (calls s) (n, k) + of_bool (committed n k s)"

lemma disconnected_step:
  assumes ok: "system_ok s" and k: "disconnected k s" and st: "sig_step a s = Some s'"
  shows "disconnected k s'"
proof -
  have ok': "system_ok s'" and le: "heap_le (heap (sig s)) (heap (sig s'))" using sig_step_ok [OF ok st] by simp_all
  have inv: "signal_inv (sig s)" "signal_inv (sig s')" using ok ok' by (simp_all add: system_ok_def)
  have k': "k < length (heap (sig s))" using k by (simp add: disconnected_def)
  then have len: "k < length (heap (sig s'))" and con: "mConnected (heap (sig s') ! k) \<Longrightarrow> mConnected (heap (sig s) ! k)"
    using le by (auto simp: heap_le_def)
  have "set (slots_of (m_slots (sig s'))) \<subseteq> insert (length (heap (sig s))) (set (slots_of (m_slots (sig s))))"
    using sig_step_members [OF ok st] unfolding slots_of_members [OF inv(1)] slots_of_members [OF inv(2)] by force
  then show ?thesis
    using k k' len con emissions_step [OF st] unfolding disconnected_def by (auto 4 4)
qed

lemma due_visit:
  assumes ok: "system_ok s" and k: "disconnected k s" and st: "sig_step (Visit m) s = Some s'"
  shows "due n k s' \<le> due n k s"
proof -
  let ?e = "emissions s ! m"
  let ?j = "slots ?e ! pos ?e"
  have m: "m < length (emissions s)" "pos ?e < length (slots ?e)" using visit_cases(1) [OF st] by simp_all
  have k': "k < length (heap (sig s))" using k by (simp add: disconnected_def)
  have tr: "tracked (heap (sig s') ! k) = tracked (heap (sig s) ! k)"
    using sig_step_ok [OF ok st] k' by (simp add: heap_le_def)
  have here: "?j = k \<longrightarrow> \<not> mConnected (heap (sig s) ! k)"
    using k nth_mem [OF m(1)] set_drop_Suc [OF m(2)] by (auto simp: disconnected_def)
  have calls: "calls s' = calls s \<or> calls s' = calls s @ [(m, ?j)]" using visit_cases(2) [OF st] by (auto simp: set_emission_def make_call_def)
  show ?thesis
  proof (cases "n = m \<and> ?j = k")
    case False
    have "committed n k s' \<longrightarrow> committed n k s"
    proof (cases "n = m")
      case True
      then have "?j \<noteq> k" using False by simp
      then show ?thesis using visit_cases(2) [OF st] True m by (auto simp: committed_def visit_defs split: if_splits)
    next
      case False
      then have "emissions s' ! n = emissions s ! n" "length (emissions s') = length (emissions s)"
        using visit_emissions [OF st] by auto
      then show ?thesis using tr by (simp add: committed_def)
    qed
    then show ?thesis using calls False by (auto simp: due_def)
  next
    case True
    then have off: "\<not> mConnected (heap (sig s) ! k)" using here by simp
    then show ?thesis
      using True m visit_cases(3) [OF st] tr
      by (cases "stage ?e") (auto simp: due_def committed_def call_slot_def callSlot_def visit_defs Let_def)
  qed
qed

lemma other_step:
  assumes st: "sig_step a s = Some s'" and a: "\<nexists>m. a = Visit m"
  shows "calls s' = calls s"
    "emissions s' = emissions s \<or> emissions s' = emissions s @ [emission_new (slots_of (m_slots (sig s)))] \<or>
     (\<exists>m. pos (emissions s ! m) = length (slots (emissions s ! m)) \<and> emissions s' = (emissions s)[m := (emissions s ! m)\<lparr>ended := True\<rparr>])"
proof -
  have "calls s' = calls s \<and> (emissions s' = emissions s \<or> emissions s' = emissions s @ [emission_new (slots_of (m_slots (sig s)))] \<or>
     (\<exists>m. pos (emissions s ! m) = length (slots (emissions s ! m)) \<and> emissions s' = (emissions s)[m := (emissions s ! m)\<lparr>ended := True\<rparr>]))"
  proof (cases a)
    case (EndEmission m)
    then have "pos (emissions s ! m) = length (slots (emissions s ! m))" "s' = s\<lparr>emissions := (emissions s)[m := (emissions s ! m)\<lparr>ended := True\<rparr>]\<rparr>"
      using st by (simp_all add: Let_def split: if_splits)
    then show ?thesis by auto
  qed (use st a in \<open>auto simp: with_signal_def split: if_splits\<close>)
  then show "calls s' = calls s"
    "emissions s' = emissions s \<or> emissions s' = emissions s @ [emission_new (slots_of (m_slots (sig s)))] \<or>
     (\<exists>m. pos (emissions s ! m) = length (slots (emissions s ! m)) \<and> emissions s' = (emissions s)[m := (emissions s ! m)\<lparr>ended := True\<rparr>])"
    by blast+
qed

lemma due_step:
  assumes ok: "system_ok s" and k: "disconnected k s" and st: "sig_step a s = Some s'"
  shows "due n k s' \<le> due n k s"
proof (cases "\<exists>m. a = Visit m")
  case True
  then show ?thesis using due_visit [OF ok k] st by blast
next
  case False
  have k': "k < length (heap (sig s))" using k by (simp add: disconnected_def)
  have tr: "tracked (heap (sig s') ! k) = tracked (heap (sig s) ! k)"
    using sig_step_ok [OF ok st] k' by (simp add: heap_le_def)
  consider "emissions s' = emissions s" | "emissions s' = emissions s @ [emission_new (slots_of (m_slots (sig s)))]"
    | m where "pos (emissions s ! m) = length (slots (emissions s ! m))" "emissions s' = (emissions s)[m := (emissions s ! m)\<lparr>ended := True\<rparr>]"
    using other_step(2) [OF st False] by blast
  then have "committed n k s' \<longrightarrow> committed n k s"
  proof cases
    case 1
    then show ?thesis using tr by (simp add: committed_def)
  next
    case 2
    then show ?thesis using tr by (auto simp: committed_def emission_new_def nth_append Let_def split: if_splits)
  next
    case (3 m)
    then show ?thesis using tr by (cases "n = m"; cases "m < length (emissions s)") (simp_all add: committed_def)
  qed
  then show ?thesis by (simp add: due_def other_step(1) [OF st False])
qed

lemma due_run:
  "system_ok s \<Longrightarrow> disconnected k s \<Longrightarrow> sig_run as s = Some s' \<Longrightarrow> due n k s' \<le> due n k s"
proof (induction as arbitrary: s)
  case (Cons a as)
  then obtain t where t: "sig_step a s = Some t" "sig_run as t = Some s'" by (auto simp: Option.bind_eq_Some_conv)
  then show ?case
    using Cons.IH [of t] sig_step_ok [OF Cons.prems(1) t(1)] disconnected_step [OF Cons.prems(1,2) t(1)] due_step [OF Cons.prems(1,2) t(1)]
    by (meson order_trans)
qed simp

lemma sig_reach_run: "sig_reach s \<Longrightarrow> sig_run as s = Some s' \<Longrightarrow> sig_reach s'"
  by (induction as arbitrary: s) (auto simp: Option.bind_eq_Some_conv intro: sig_reach.step)

text \<open>Three slots in three groups, of which one is blocked.\<close>

definition example_actions :: "sig_action list" where
  "example_actions = [Connect 7 None False 5, Connect 7 (Some 1) True 0, Connect 8 (Some 2) True (- 1), BlockSlot 0 True]"

definition example_system :: sig_system where
  "example_system = \<lparr>sig = \<lparr>heap =
     [\<lparr>mIndex = 0, mGroup = 5, mBlocked = True, mConnected = True, func = 7, ptr = None, tracked = False\<rparr>,
      \<lparr>mIndex = 0, mGroup = 0, mBlocked = False, mConnected = True, func = 7, ptr = Some 1, tracked = True\<rparr>,
      \<lparr>mIndex = 0, mGroup = - 1, mBlocked = False, mConnected = True, func = 8, ptr = Some 2, tracked = True\<rparr>],
     m_slots = [(- 1, [2]), (0, [1]), (5, [0])], m_block = False, expired = {}\<rparr>,
     emissions = [], cleaning = [], calls = []\<rparr>"

lemma example_reach: "sig_reach example_system"
proof -
  have "sig_run example_actions signal_system_new = Some example_system"
    by (simp add: example_actions_def example_system_def signal_system_new_def Signal_new_def with_signal_def connect_def add_slot_def
        upd_slot_def alive_def slots_of_def)
  then show ?thesis by (rule sig_reach_run [OF sig_reach.create])
qed

text \<open>
  C23: the operations on slots refine operations on a set of slots with their groups: connecting adds one, a disconnected
  connection removes its own slot, the other ways to disconnect remove exactly the slots that they name and
  return their number, and \<open>slot_count\<close> is the size of the set. This holds in every state that calls and
  emissions lead to, in whatever way they are interleaved; the swapping of slots within a group and the indices
  kept in them do not show.
\<close>

theorem signal_ops_refine:
  assumes "sig_reach s" "g = sig s" "M = members (m_slots g)"
  shows "members (m_slots (connect c p t gid g)) = insert (gid, length (heap g)) M \<and>
    members (m_slots (fst (disconnect_callable c g))) = {m \<in> M. func (heap g ! snd m) \<noteq> c} \<and>
    snd (disconnect_callable c g) = card {m \<in> M. func (heap g ! snd m) = c} \<and>
    members (m_slots (fst (disconnect_object p g))) = {m \<in> M. get_object g (snd m) \<noteq> p} \<and>
    snd (disconnect_object p g) = card {m \<in> M. get_object g (snd m) = p} \<and>
    members (m_slots (fst (disconnect_group gid g))) = {m \<in> M. fst m \<noteq> gid} \<and>
    snd (disconnect_group gid g) = card {m \<in> M. fst m = gid} \<and>
    members (m_slots (disconnect_all g)) = {} \<and> slot_count g = card M \<and>
    (k < length (heap g) \<and> mConnected (heap g ! k) \<and> k \<in> snd ` M \<longrightarrow>
      (\<exists>s'. sig_run [Disconnect k, Clean k] s = Some s' \<and> members (m_slots (sig s')) = {m \<in> M. snd m \<noteq> k}))"
proof -
  have ok: "system_ok s" and inv: "signal_inv g" using sig_reach_ok [OF assms(1)] assms(2) by (simp_all add: system_ok_def)
  note d = disconnect_if_ok(2,3) [OF inv]
  obtain gs n where c: "clear_group gid (m_slots g) = (gs, n)" by (metis surj_pair)
  have "set (slots_of (m_slots g)) = snd ` M" "distinct (slots_of (m_slots g))"
    using slots_of_distinct [OF inv [unfolded signal_inv_def]] assms(3) by simp_all
  moreover have "inj_on snd M"
    using members_group [OF inv [unfolded signal_inv_def]] unfolding assms(3) by (intro inj_onI) (metis prod.collapse)
  ultimately have "slot_count g = card M" by (metis card_image distinct_card slots_of_count)
  moreover have "\<exists>s'. sig_run [Disconnect k, Clean k] s = Some s' \<and> members (m_slots (sig s')) = {m \<in> M. snd m \<noteq> k}"
    if k: "k < length (heap g)" "mConnected (heap g ! k)" "k \<in> snd ` M"
  proof -
    let ?h = "upd_slot k (\<lambda>u. u\<lparr>mConnected := False\<rparr>) g"
    have "alive s k" using k(3) slots_of_members [OF inv] assms(2,3) by (simp add: alive_def)
    then have "sig_run [Disconnect k, Clean k] s = Some (s\<lparr>sig := clean k ?h, cleaning := remove1 k (k # cleaning s)\<rparr>)"
      using k(2) assms(2) by (simp add: slot_disconnect_def)
    moreover have h: "signal_inv ?h" "m_slots ?h = m_slots g" "k < length (heap ?h)"
      using signal_inv_upd [OF inv, of "\<lambda>u. u\<lparr>mConnected := False\<rparr>" k] k(1) by simp_all
    ultimately show ?thesis using clean_ok(2) [OF h(1,3)] assms(3) by simp
  qed
  ultimately show ?thesis
    using connect_ok(2) [OF inv, of c p t gid] d [of "\<lambda>k. func (heap g ! k) = c"] d [of "\<lambda>k. get_object g k = p"]
      clear_group_ok [OF inv [unfolded signal_inv_def] c] assms(3)
    by (simp add: disconnect_callable_def disconnect_object_def disconnect_group_def c disconnect_all_def)
qed

theorem signal_ops_refine_witness:
  "\<exists>s'. sig_reach example_system \<and> members (m_slots (sig example_system)) = {(- 1, 2), (0, 1), (5, 0)} \<and>
     members (m_slots (fst (disconnect_group 0 (sig example_system)))) = {(- 1, 2), (5, 0)} \<and>
     sig_run [Disconnect 1, Clean 1] example_system = Some s' \<and> members (m_slots (sig s')) = {(- 1, 2), (5, 0)}"
proof -
  have m: "members (m_slots (sig example_system)) = {(- 1, 2), (0, 1), (5, 0)}" by (auto simp: example_system_def)
  have k: "1 < length (heap (sig example_system))" "mConnected (heap (sig example_system) ! 1)" "1 \<in> snd ` members (m_slots (sig example_system))"
    by (simp_all add: example_system_def)
  note r = signal_ops_refine [OF example_reach refl refl, of c p t 0 1]
  have "members (m_slots (fst (disconnect_group 0 (sig example_system)))) = {q \<in> members (m_slots (sig example_system)). fst q \<noteq> 0}" using r by blast
  moreover have "\<exists>s'. sig_run [Disconnect 1, Clean 1] example_system = Some s' \<and>
      members (m_slots (sig s')) = {q \<in> members (m_slots (sig example_system)). snd q \<noteq> 1}" using r k by blast
  moreover have "{q \<in> members (m_slots (sig example_system)). fst q \<noteq> 0} = {(- 1, 2), (5, 0)}"
    "{q \<in> members (m_slots (sig example_system)). snd q \<noteq> 1} = {(- 1, 2), (5, 0)}" unfolding m by auto
  ultimately have "members (m_slots (fst (disconnect_group 0 (sig example_system)))) = {(- 1, 2), (5, 0)}"
    "\<exists>s'. sig_run [Disconnect 1, Clean 1] example_system = Some s' \<and> members (m_slots (sig s')) = {(- 1, 2), (5, 0)}" by simp_all
  then show ?thesis using example_reach m by blast
qed

text \<open>
  C25: each emission calls slots that were connected when it began, every one once at most, and in the ascending order of their
  groups, whatever the called slots and other threads do to the signal meanwhile. Slots connected
  during the emission are not called by it.
\<close>

theorem signal_emission_order:
  assumes "sig_reach s" "n < length (emissions s)"
  shows "subseq (calls_of n s) (slots (emissions s ! n)) \<and> distinct (calls_of n s) \<and>
    sorted (map (\<lambda>k. mGroup (heap (sig s) ! k)) (calls_of n s))"
proof -
  let ?e = "emissions s ! n"
  have e: "emission_ok (heap (sig s)) ?e" and c: "subseq (calls_of n s) (take (pos ?e) (slots ?e))"
    using sig_reach_ok [OF assms(1)] assms(2) by (auto simp: system_ok_def)
  then have sub: "subseq (calls_of n s) (slots ?e)" by (meson sublist_imp_subseq sublist_take subseq_order.order_trans)
  then obtain N where N: "calls_of n s = nths (slots ?e) N" using subseq_conv_nths by blast
  then have "distinct (calls_of n s)" using e by (simp add: emission_ok_def distinct_nthsI)
  moreover have "map (\<lambda>k. mGroup (heap (sig s) ! k)) (calls_of n s) = nths (map (\<lambda>k. mGroup (heap (sig s) ! k)) (slots ?e)) N"
    by (simp add: N nths_map)
  then have "sorted (map (\<lambda>k. mGroup (heap (sig s) ! k)) (calls_of n s))" using e by (simp add: emission_ok_def sorted_nths)
  ultimately show ?thesis using sub by simp
qed

theorem signal_emission_order_witness:
  "\<exists>s. sig_reach s \<and> calls s = [(0, 2), (0, 1)] \<and> sorted (map (\<lambda>k. mGroup (heap (sig s) ! k)) (calls_of 0 s))"
proof -
  obtain s where s: "sig_run (Emit # replicate 12 (Visit 0)) example_system = Some s" "length (emissions s) = 1" "calls s = [(0, 2), (0, 1)]"
    by (simp add: example_system_def slots_of_def call_slot_def callSlot_def is_expired_def visit_defs numeral_eq_Suc)
  have "sig_reach s" by (rule sig_reach_run [OF example_reach s(1)])
  with signal_emission_order [OF this, of 0] s show ?thesis by auto
qed

text \<open>
  C24: once a slot is disconnected, by its connection, or in another way when no running emission is to come to it, it is called again
  only by emissions that had looked at its connection before and were committed to the call, and
  by each of these once at most, whatever happens later and however it is interleaved. Emissions
  that look at the connection later, or begin later, never call it. The call that is left is real, since the emission holds no lock
  between its look and the call.
\<close>

theorem signal_silent:
  assumes "sig_reach s" "disconnected k s" "sig_run as s = Some s'"
  shows "count_list (calls s') (n, k) \<le> count_list (calls s) (n, k) + (if committed n k s then 1 else 0)"
  using due_run [OF sig_reach_ok [OF assms(1)] assms(2,3), of n] by (cases "committed n k s") (auto simp: due_def)

text \<open>The untracked slot 0 is disconnected when an emission has looked at it; it is called that once, and by no later emission.\<close>

theorem signal_silent_witness:
  "\<exists>s s'. sig_reach s \<and> disconnected 0 s \<and> sig_run ([Visit 0, Visit 0] @ Emit # replicate 11 (Visit 1)) s = Some s' \<and>
     calls s = [(0, 2), (0, 1)] \<and> calls s' = [(0, 2), (0, 1), (0, 0), (1, 2), (1, 1)] \<and>
     count_list (calls s') (1, 0) \<le> count_list (calls s) (1, 0) + (if committed 1 0 s then 1 else 0)"
proof -
  let ?as = "[BlockSlot 0 False, Emit] @ replicate 11 (Visit 0) @ [Disconnect 0]"
  note defs = example_system_def alive_def slots_of_def call_slot_def callSlot_def is_expired_def visit_defs with_signal_def numeral_eq_Suc
  obtain s where s: "sig_run ?as example_system = Some s" "disconnected 0 s" "calls s = [(0, 2), (0, 1)]"
      "\<exists>s'. sig_run ([Visit 0, Visit 0] @ Emit # replicate 11 (Visit 1)) s = Some s' \<and> calls s' = [(0, 2), (0, 1), (0, 0), (1, 2), (1, 1)]"
    by (simp add: defs disconnected_def)
  have r: "sig_reach s" by (rule sig_reach_run [OF example_reach s(1)])
  obtain s' where s': "sig_run ([Visit 0, Visit 0] @ Emit # replicate 11 (Visit 1)) s = Some s'"
      "calls s' = [(0, 2), (0, 1), (0, 0), (1, 2), (1, 1)]" using s(4) by blast
  show ?thesis using signal_silent [OF r s(2) s'(1), of 1] r s(2,3) s' by blast
qed

text \<open>An emission that nothing interferes with goes through the stages of a slot, and then through all slots.\<close>

lemma sig_run_append: "sig_run (as @ bs) s = do { t \<leftarrow> sig_run as s; sig_run bs t }"
  by (induction as arbitrary: s) (simp_all split: bind_splits)

definition to_call :: "sig_system \<Rightarrow> slot \<Rightarrow> bool" where
  "to_call s k \<longleftrightarrow> connected (sig s) k \<and> \<not> mBlocked (heap (sig s) ! k)"

lemma visit_slot:
  assumes n: "n < length (emissions s)" and e: "e = emissions s ! n" and p: "pos e < length (slots e)" "\<not> ended e" "stage e = Checking"
    and k: "k = slots e ! pos e" "k < length (heap (sig s))"
  shows "\<exists>m s'. sig_run (replicate m (Visit n)) s = Some s' \<and> emissions s' = (emissions s)[n := next_slot e] \<and>
    calls s' = calls s @ (if to_call s k then [(n, k)] else []) \<and> expired (sig s') = expired (sig s) \<and>
    length (heap (sig s')) = length (heap (sig s)) \<and> (\<forall>j. j \<noteq> k \<longrightarrow> heap (sig s') ! j = heap (sig s) ! j)"
proof -
  let ?u = "heap (sig s) ! k"
  let ?at = "\<lambda>t. set_emission n (e\<lparr>stage := t\<rparr>) s" and ?out = "set_emission n (next_slot e) s"
  note defs = call_slot_def callSlot_def set_emission_def Let_def
  have at: "sig_step (Visit n) (?at t) = Some (call_slot n (?at t))" for t
    using n p by (simp add: set_emission_def)
  have first: "sig_step (Visit n) s = Some (if mConnected ?u then ?at CheckingBlock else ?out)"
    using n p e k by (simp add: defs)
  have second: "sig_step (Visit n) (?at CheckingBlock) = Some (if \<not> mBlocked ?u then ?at Entering else ?out)"
    unfolding at using n k by (simp add: defs next_slot_def)
  have third: "sig_step (Visit n) (?at Entering) = Some (if \<not> tracked ?u then make_call n k ?out
      else if is_expired (sig s) ?u then slot_disconnect k ?out else ?at Locked)"
    unfolding at using n k by (simp add: defs next_slot_def)
  have fourth: "sig_step (Visit n) (?at Locked) = Some (if mConnected ?u then ?at Calling else ?out)"
    unfolding at using n k by (simp add: defs next_slot_def)
  have fifth: "sig_step (Visit n) (?at Calling) = Some (make_call n k ?out)"
    unfolding at using n k by (simp add: defs next_slot_def)
  have out: "\<not> mConnected ?u \<Longrightarrow> sig_run (replicate 1 (Visit n)) s = Some ?out"
      "mConnected ?u \<Longrightarrow> mBlocked ?u \<Longrightarrow> sig_run (replicate 2 (Visit n)) s = Some ?out"
      "mConnected ?u \<Longrightarrow> \<not> mBlocked ?u \<Longrightarrow> \<not> tracked ?u \<Longrightarrow> sig_run (replicate 3 (Visit n)) s = Some (make_call n k ?out)"
      "mConnected ?u \<Longrightarrow> \<not> mBlocked ?u \<Longrightarrow> is_expired (sig s) ?u \<Longrightarrow> sig_run (replicate 3 (Visit n)) s = Some (slot_disconnect k ?out)"
      "mConnected ?u \<Longrightarrow> \<not> mBlocked ?u \<Longrightarrow> tracked ?u \<Longrightarrow> \<not> is_expired (sig s) ?u \<Longrightarrow>
        sig_run (replicate 5 (Visit n)) s = Some (make_call n k ?out)"
    using first second third fourth fifth
    by (simp_all add: numeral_eq_Suc is_expired_def del: sig_step.simps)
  consider "\<not> mConnected ?u" | "mConnected ?u" "mBlocked ?u" | "mConnected ?u" "\<not> mBlocked ?u" "\<not> tracked ?u"
    | "mConnected ?u" "\<not> mBlocked ?u" "is_expired (sig s) ?u" | "mConnected ?u" "\<not> mBlocked ?u" "tracked ?u" "\<not> is_expired (sig s) ?u"
    by blast
  then show ?thesis
  proof cases
    case 1
    then show ?thesis using out(1) by (intro exI [of _ 1] exI [of _ ?out]) (simp add: visit_defs to_call_def connected_def)
  next
    case 2
    then show ?thesis using out(2) by (intro exI [of _ 2] exI [of _ ?out]) (simp add: visit_defs to_call_def connected_def)
  next
    case 3
    then show ?thesis using out(3)
      by (intro exI [of _ 3] exI [of _ "make_call n k ?out"]) (simp add: visit_defs to_call_def connected_def is_expired_def)
  next
    case 4
    then show ?thesis using out(4)
      by (intro exI [of _ 3] exI [of _ "slot_disconnect k ?out"]) (simp add: visit_defs to_call_def connected_def)
  next
    case 5
    then show ?thesis using out(5)
      by (intro exI [of _ 5] exI [of _ "make_call n k ?out"]) (simp add: visit_defs to_call_def connected_def)
  qed
qed

lemma visit_all:
  assumes "n < length (emissions s)" "slots (emissions s ! n) = ss" "pos (emissions s ! n) \<le> length ss" "\<not> ended (emissions s ! n)"
    "stage (emissions s ! n) = Checking" "distinct ss" "\<forall>k \<in> set ss. k < length (heap (sig s))"
  shows "\<exists>m s'. sig_run (replicate m (Visit n)) s = Some s' \<and> pos (emissions s' ! n) = length ss \<and>
    calls s' = calls s @ map (Pair n) (filter (to_call s) (drop (pos (emissions s ! n)) ss))"
  using assms
proof (induction "length ss - pos (emissions s ! n)" arbitrary: s)
  case 0
  then show ?case by (intro exI [of _ 0] exI [of _ s]) simp
next
  case (Suc d)
  let ?e = "emissions s ! n" and ?k = "ss ! pos (emissions s ! n)"
  have p: "pos ?e < length ss" using Suc.hyps(2) by simp
  then have k: "?k < length (heap (sig s))" using Suc.prems(7) by simp
  obtain m1 t where t: "sig_run (replicate m1 (Visit n)) s = Some t" "emissions t = (emissions s)[n := next_slot ?e]"
      "calls t = calls s @ (if to_call s ?k then [(n, ?k)] else [])" "expired (sig t) = expired (sig s)"
      "length (heap (sig t)) = length (heap (sig s))" "\<forall>j. j \<noteq> ?k \<longrightarrow> heap (sig t) ! j = heap (sig s) ! j"
    using visit_slot [OF Suc.prems(1) refl, of ?k] p k Suc.prems(2,4,5) by blast
  have en: "emissions t ! n = next_slot ?e" using Suc.prems(1) t(2) by simp
  have "\<exists>m s'. sig_run (replicate m (Visit n)) t = Some s' \<and> pos (emissions s' ! n) = length ss \<and>
      calls s' = calls t @ map (Pair n) (filter (to_call t) (drop (pos (emissions t ! n)) ss))"
    using Suc.prems p Suc.hyps(2) by (intro Suc.hyps(1)) (simp_all add: t(2,5) next_slot_def)
  then obtain m2 s' where s': "sig_run (replicate m2 (Visit n)) t = Some s'" "pos (emissions s' ! n) = length ss"
      "calls s' = calls t @ map (Pair n) (filter (to_call t) (drop (Suc (pos ?e)) ss))"
    by (auto simp: en next_slot_def)
  have "?k \<notin> set (drop (Suc (pos ?e)) ss)"
    using Suc.prems(6) p by (metis Cons_nth_drop_Suc distinct.simps(2) distinct_drop)
  then have "heap (sig t) ! j = heap (sig s) ! j" if "j \<in> set (drop (Suc (pos ?e)) ss)" for j using t(6) that by metis
  then have "filter (to_call t) (drop (Suc (pos ?e)) ss) = filter (to_call s) (drop (Suc (pos ?e)) ss)"
    by (intro filter_cong) (simp_all add: to_call_def connected_def is_expired_def t(4))
  moreover have "drop (pos ?e) ss = ?k # drop (Suc (pos ?e)) ss" using p by (simp add: Cons_nth_drop_Suc)
  ultimately have "calls s' = calls s @ map (Pair n) (filter (to_call s) (drop (pos ?e) ss))" using s'(3) t(3) by simp
  moreover have "sig_run (replicate (m1 + m2) (Visit n)) s = Some s'" using t(1) s'(1) by (simp add: replicate_add sig_run_append)
  ultimately show ?case using s'(2) by blast
qed

lemma emission_kept:
  assumes "sig_run (replicate m (Visit n)) s = Some t" "n < length (emissions s)" "slots (emissions s ! n) = ss"
  shows "n < length (emissions t) \<and> slots (emissions t ! n) = ss"
  using assms
proof (induction m arbitrary: s)
  case (Suc m)
  then obtain u where u: "sig_step (Visit n) s = Some u" "sig_run (replicate m (Visit n)) u = Some t"
    by (auto simp: Option.bind_eq_Some_conv simp del: sig_step.simps)
  have "n < length (emissions u) \<and> slots (emissions u ! n) = ss"
    using visit_emissions [OF u(1)] Suc.prems(2,3) by (auto simp: next_slot_def)
  then show ?case using Suc.IH u(2) by blast
qed simp

text \<open>
  An emission that nothing interferes with ends, and calls exactly the slots that are connected, not blocked, and whose tracked
  object lives, in the order of the groups.
\<close>

theorem signal_emit_calls:
  assumes "sig_reach s" "\<not> m_block (sig s)"
  shows "\<exists>m s'. sig_run (Emit # replicate m (Visit (length (emissions s))) @ [EndEmission (length (emissions s))]) s = Some s' \<and>
    calls_of (length (emissions s)) s' =
      filter (\<lambda>k. connected (sig s) k \<and> \<not> mBlocked (heap (sig s) ! k)) (slots_of (m_slots (sig s)))"
proof -
  let ?n = "length (emissions s)" and ?ss = "slots_of (m_slots (sig s))"
  let ?t = "s\<lparr>emissions := emissions s @ [emission_new ?ss]\<rparr>"
  have ok: "system_ok s" by (rule sig_reach_ok [OF assms(1)])
  then have inv: "groups_ok (heap (sig s)) (m_slots (sig s))" by (simp add: system_ok_def signal_inv_def)
  have "distinct ?ss" "\<forall>k \<in> set ?ss. k < length (heap (sig s))" using slots_of_distinct [OF inv] members_group [OF inv] by auto
  then obtain m t' where t': "sig_run (replicate m (Visit ?n)) ?t = Some t'" "pos (emissions t' ! ?n) = length ?ss"
      "calls t' = calls s @ map (Pair ?n) (filter (to_call ?t) ?ss)"
    using visit_all [of ?n ?t ?ss] by (auto simp: emission_new_def)
  have e: "?n < length (emissions t') \<and> slots (emissions t' ! ?n) = ?ss" by (rule emission_kept [OF t'(1)]) (simp_all add: emission_new_def)
  have "filter (\<lambda>c. fst c = ?n) (calls s) = []" using ok by (auto simp: system_ok_def filter_empty_conv)
  moreover have "to_call ?t = (\<lambda>k. connected (sig s) k \<and> \<not> mBlocked (heap (sig s) ! k))" by (simp add: to_call_def fun_eq_iff)
  ultimately have "calls_of ?n (t'\<lparr>emissions := (emissions t')[?n := (emissions t' ! ?n)\<lparr>ended := True\<rparr>]\<rparr>) =
      filter (\<lambda>k. connected (sig s) k \<and> \<not> mBlocked (heap (sig s) ! k)) ?ss"
    using t'(3) by (simp add: calls_of_def comp_def)
  moreover have "sig_run (Emit # replicate m (Visit ?n) @ [EndEmission ?n]) s =
      Some (t'\<lparr>emissions := (emissions t')[?n := (emissions t' ! ?n)\<lparr>ended := True\<rparr>]\<rparr>)"
    using assms(2) t'(1,2) e by (simp add: sig_run_append Let_def)
  ultimately show ?thesis by blast
qed

theorem signal_emit_calls_witness:
  "\<exists>m s'. sig_reach example_system \<and> sig_run (Emit # replicate m (Visit 0) @ [EndEmission 0]) example_system = Some s' \<and> calls_of 0 s' = [2, 1]"
proof -
  have "emissions example_system = []" "\<not> m_block (sig example_system)"
      "filter (\<lambda>k. connected (sig example_system) k \<and> \<not> mBlocked (heap (sig example_system) ! k)) (slots_of (m_slots (sig example_system))) = [2, 1]"
    by (simp_all add: example_system_def slots_of_def connected_def is_expired_def)
  with signal_emit_calls [OF example_reach] show ?thesis using example_reach by (metis list.size(3))
qed
end
