(* ===== verification/VideoBitrateAllocation.thy ===== *)
theory VideoBitrateAllocation
  imports Octk_Prelude
begin

text \<open>
  \<open>VideoBitrateAllocation\<close> of \<open>src/libs/media/source/video/octk_video_bitrate_allocation.hpp\<close> and \<open>.cpp\<close>: bitrates of spatial and
  temporal layers with their running sum. Rates are \<open>uint32_t\<close>, natural numbers below \<open>2 ^ 32\<close> with additions that wrap around.
  A failed \<open>OCTK_CHECK\<close> or \<open>OCTK_DCHECK\<close> is \<^term>\<open>None\<close>. The text of \<open>toString\<close> is built as in the code.
\<close>

section \<open>The class\<close>

definition kMaxSpatialLayers :: nat where "kMaxSpatialLayers = 5"
definition kMaxTemporalStreams :: nat where "kMaxTemporalStreams = 4"
definition kMaxBitrateBps :: nat where "kMaxBitrateBps = 2 ^ 32 - 1"

definition add32 :: "nat \<Rightarrow> nat \<Rightarrow> nat" where
  "add32 a b = (a + b) mod 2 ^ 32"

record bitrate_allocation =
  sum_bps :: nat
  bitrates :: "nat option list list"
  is_bw_limited :: bool

definition VideoBitrateAllocation_new :: bitrate_allocation where
  "VideoBitrateAllocation_new =
     \<lparr>sum_bps = 0, bitrates = replicate kMaxSpatialLayers (replicate kMaxTemporalStreams None), is_bw_limited = False\<rparr>"

definition value_or_0 :: "nat option \<Rightarrow> nat" where
  "value_or_0 r = (case r of None \<Rightarrow> 0 | Some x \<Rightarrow> x)"

definition SetBitrate :: "nat \<Rightarrow> nat \<Rightarrow> nat \<Rightarrow> bitrate_allocation \<Rightarrow> (bitrate_allocation \<times> bool) option" where
  "SetBitrate si ti bitrate_bps a = do {
     dcheck (si < kMaxSpatialLayers);
     dcheck (ti < kMaxTemporalStreams);
     let layer_bitrate = bitrates a ! si ! ti;
     new_sum \<leftarrow> (case layer_bitrate of
         None \<Rightarrow> Some (int (sum_bps a))
       | Some r \<Rightarrow> do { dcheck (r \<le> sum_bps a); int64 (int (sum_bps a) - int r) });
     new_sum \<leftarrow> int64 (new_sum + int bitrate_bps);
     if int kMaxBitrateBps < new_sum then Some (a, False)
     else Some (a\<lparr>bitrates := (bitrates a)[si := (bitrates a ! si)[ti := Some bitrate_bps]], sum_bps := nat (new_sum mod 2 ^ 32)\<rparr>, True)
   }"

definition HasBitrate :: "nat \<Rightarrow> nat \<Rightarrow> bitrate_allocation \<Rightarrow> bool option" where
  "HasBitrate si ti a = do {
     dcheck (si < kMaxSpatialLayers);
     dcheck (ti < kMaxTemporalStreams);
     Some (bitrates a ! si ! ti \<noteq> None)
   }"

definition GetBitrate :: "nat \<Rightarrow> nat \<Rightarrow> bitrate_allocation \<Rightarrow> nat option" where
  "GetBitrate si ti a = do {
     dcheck (si < kMaxSpatialLayers);
     dcheck (ti < kMaxTemporalStreams);
     Some (value_or_0 (bitrates a ! si ! ti))
   }"

definition IsSpatialLayerUsed :: "nat \<Rightarrow> bitrate_allocation \<Rightarrow> bool option" where
  "IsSpatialLayerUsed si a = do {
     dcheck (si < kMaxSpatialLayers);
     Some (list_ex (\<lambda>i. bitrates a ! si ! i \<noteq> None) [0..<kMaxTemporalStreams])
   }"

definition GetTemporalLayerSum :: "nat \<Rightarrow> nat \<Rightarrow> bitrate_allocation \<Rightarrow> nat option" where
  "GetTemporalLayerSum si ti a = do {
     dcheck (si < kMaxSpatialLayers);
     dcheck (ti < kMaxTemporalStreams);
     Some (fold (\<lambda>i s. add32 s (value_or_0 (bitrates a ! si ! i))) [0..<ti + 1] 0)
   }"

definition GetSpatialLayerSum :: "nat \<Rightarrow> bitrate_allocation \<Rightarrow> nat option" where
  "GetSpatialLayerSum si a = do { dcheck (si < kMaxSpatialLayers); GetTemporalLayerSum si (kMaxTemporalStreams - 1) a }"

text \<open>One more than the highest layer with a rate.\<close>

fun used_layers :: "nat option list \<Rightarrow> nat \<Rightarrow> nat" where
  "used_layers rates 0 = 0"
| "used_layers rates (Suc i) = (if rates ! i \<noteq> None then Suc i else used_layers rates i)"

definition GetTemporalLayerAllocation :: "nat \<Rightarrow> bitrate_allocation \<Rightarrow> nat list option" where
  "GetTemporalLayerAllocation si a = do {
     dcheck (si < kMaxSpatialLayers);
     Some (map (\<lambda>i. value_or_0 (bitrates a ! si ! i)) [0..<used_layers (bitrates a ! si) kMaxTemporalStreams])
   }"

fun copy_layer :: "nat \<Rightarrow> bitrate_allocation \<Rightarrow> nat list \<Rightarrow> bitrate_allocation \<Rightarrow> bitrate_allocation option" where
  "copy_layer si a [] l = Some l"
| "copy_layer si a (ti # tis) l = do {
     has \<leftarrow> HasBitrate si ti a;
     l \<leftarrow> (if has then do { r \<leftarrow> GetBitrate si ti a; (l, _) \<leftarrow> SetBitrate 0 ti r l; Some l } else Some l);
     copy_layer si a tis l
   }"

fun simulcast_layers :: "bitrate_allocation \<Rightarrow> nat list \<Rightarrow> bitrate_allocation option list option" where
  "simulcast_layers a [] = Some []"
| "simulcast_layers a (si # sis) = do {
     used \<leftarrow> IsSpatialLayerUsed si a;
     l \<leftarrow> (if used then map_option Some (copy_layer si a [0..<kMaxTemporalStreams] VideoBitrateAllocation_new) else Some None);
     ls \<leftarrow> simulcast_layers a sis;
     Some (l # ls)
   }"

definition GetSimulcastAllocations :: "bitrate_allocation \<Rightarrow> bitrate_allocation option list option" where
  "GetSimulcastAllocations a = simulcast_layers a [0..<kMaxSpatialLayers]"

definition get_sum_kbps :: "bitrate_allocation \<Rightarrow> nat" where
  "get_sum_kbps a = sum_bps a div 1000"

definition allocation_equal :: "bitrate_allocation \<Rightarrow> bitrate_allocation \<Rightarrow> bool" where
  "allocation_equal a b \<longleftrightarrow>
     list_all (\<lambda>si. list_all (\<lambda>ti. bitrates a ! si ! ti = bitrates b ! si ! ti) [0..<kMaxTemporalStreams]) [0..<kMaxSpatialLayers]"

definition set_bw_limited :: "bool \<Rightarrow> bitrate_allocation \<Rightarrow> bitrate_allocation" where
  "set_bw_limited limited a = a\<lparr>is_bw_limited := limited\<rparr>"

subsection \<open>As text\<close>

fun decimal :: "nat \<Rightarrow> string" where
  "decimal n = (if n < 10 then [char_of (48 + n)] else decimal (n div 10) @ [char_of (48 + n mod 10)])"

declare decimal.simps [simp del]

text \<open>The loops over temporal and spatial layers, with the number of layers left.\<close>

fun temporal_text :: "nat option list \<Rightarrow> nat \<Rightarrow> nat \<Rightarrow> nat \<Rightarrow> nat \<Rightarrow> string option" where
  "temporal_text rates layer_sum ti cumulator 0 = Some []"
| "temporal_text rates layer_sum ti cumulator (Suc n) = do {
     dcheck (cumulator \<le> layer_sum);
     if cumulator = layer_sum then Some []
     else do {
       let bitrate = value_or_0 (rates ! ti);
       rest \<leftarrow> temporal_text rates layer_sum (ti + 1) (add32 cumulator bitrate) n;
       Some ((if 0 < ti then '', '' else []) @ decimal bitrate @ rest)
     }
   }"

fun spatial_text :: "bitrate_allocation \<Rightarrow> nat \<Rightarrow> nat \<Rightarrow> nat \<Rightarrow> (string \<times> nat) option" where
  "spatial_text a si cumulator 0 = Some ([], cumulator)"
| "spatial_text a si cumulator (Suc n) = do {
     dcheck (cumulator \<le> sum_bps a);
     if cumulator = sum_bps a then Some ([], cumulator)
     else do {
       layer_sum \<leftarrow> GetSpatialLayerSum si a;
       layer \<leftarrow> temporal_text (bitrates a ! si) layer_sum 0 0 kMaxTemporalStreams;
       (rest, c) \<leftarrow> spatial_text a (si + 1) (add32 cumulator layer_sum) n;
       Some ((if layer_sum = sum_bps a \<and> si = 0 then '' ['' else (if 0 < si then '','' else []) @ [char_of (10 :: nat)] @ ''  ['') @ layer @ '']'' @ rest, c)
     }
   }"

definition toString :: "bitrate_allocation \<Rightarrow> string option" where
  "toString a =
     (if sum_bps a = 0 then Some ''VideoBitrateAllocation [ [] ]''
      else do {
        (layers, cumulator) \<leftarrow> spatial_text a 0 0 kMaxSpatialLayers;
        dcheck (cumulator = sum_bps a);
        Some (''VideoBitrateAllocation ['' @ layers @ '' ]'')
      })"


section \<open>The sum is the sum of the rates\<close>

definition layer_total :: "nat option list \<Rightarrow> nat" where
  "layer_total rates = sum_list (map value_or_0 rates)"

definition allocation_inv :: "bitrate_allocation \<Rightarrow> bool" where
  "allocation_inv a \<longleftrightarrow> length (bitrates a) = kMaxSpatialLayers \<and> (\<forall>rates \<in> set (bitrates a). length rates = kMaxTemporalStreams) \<and>
     sum_bps a = sum_list (map layer_total (bitrates a)) \<and> sum_bps a \<le> kMaxBitrateBps"

lemmas layer_defs = kMaxSpatialLayers_def kMaxTemporalStreams_def kMaxBitrateBps_def

lemma sum_list_update_nat:
  fixes f :: "'a \<Rightarrow> nat"
  shows "k < length xs \<Longrightarrow> sum_list (map f (xs[k := x])) + f (xs ! k) = sum_list (map f xs) + f x"
proof (induction xs arbitrary: k)
  case (Cons y ys)
  then show ?case by (cases k) auto
qed simp

lemma elem_le_total: "x \<in> set xs \<Longrightarrow> (f x :: nat) \<le> sum_list (map f xs)"
  by (induction xs) auto

lemma allocation_inv_new: "allocation_inv VideoBitrateAllocation_new"
  by (simp add: allocation_inv_def VideoBitrateAllocation_new_def layer_defs layer_total_def value_or_0_def sum_list_replicate)

lemma new_bitrates: "bitrates VideoBitrateAllocation_new = [replicate 4 None, replicate 4 None, replicate 4 None, replicate 4 None, replicate 4 None]"
  by (simp add: VideoBitrateAllocation_new_def layer_defs eval_nat_numeral)

lemma new_first_total: "sum_list (map layer_total ((bitrates VideoBitrateAllocation_new)[0 := rates])) = layer_total rates"
  by (simp add: new_bitrates layer_total_def value_or_0_def sum_list_replicate)

lemma layer_total_append_None: "layer_total (rates @ replicate n None) = layer_total rates"
  by (simp add: layer_total_def value_or_0_def sum_list_replicate)

lemma allocation_inv_layer:
  assumes "allocation_inv a" "si < kMaxSpatialLayers"
  shows "length (bitrates a ! si) = kMaxTemporalStreams" "layer_total (bitrates a ! si) \<le> sum_bps a"
  using assms elem_le_total [of "bitrates a ! si" "bitrates a" layer_total] by (auto simp: allocation_inv_def)

lemma SetBitrate_ok:
  assumes inv: "allocation_inv a" and i: "si < kMaxSpatialLayers" "ti < kMaxTemporalStreams" "b \<le> kMaxBitrateBps"
  shows "\<exists>a' ok. SetBitrate si ti b a = Some (a', ok) \<and> allocation_inv a' \<and>
    ok = (sum_bps a - value_or_0 (bitrates a ! si ! ti) + b \<le> kMaxBitrateBps) \<and>
    (if ok then bitrates a' = (bitrates a)[si := (bitrates a ! si)[ti := Some b]] \<and> sum_bps a' = sum_bps a - value_or_0 (bitrates a ! si ! ti) + b
     else a' = a)"
proof -
  let ?r = "value_or_0 (bitrates a ! si ! ti)"
  note l = allocation_inv_layer [OF inv i(1)]
  have "?r \<le> layer_total (bitrates a ! si)"
    using elem_le_total [of "bitrates a ! si ! ti" "bitrates a ! si" value_or_0] l(1) i(2) by (simp add: layer_total_def)
  then have r: "?r \<le> sum_bps a" using l(2) by simp
  have s: "sum_bps a \<le> kMaxBitrateBps" using inv by (simp add: allocation_inv_def)
  have e: "SetBitrate si ti b a = (if kMaxBitrateBps < sum_bps a - ?r + b then Some (a, False)
      else Some (a\<lparr>bitrates := (bitrates a)[si := (bitrates a ! si)[ti := Some b]], sum_bps := sum_bps a - ?r + b\<rparr>, True))"
    using i r s by (cases "bitrates a ! si ! ti")
      (auto simp: SetBitrate_def value_or_0_def int64_def in_int64_def int_range_defs layer_defs nat_mod_distrib of_nat_diff)
  show ?thesis
  proof (cases "kMaxBitrateBps < sum_bps a - ?r + b")
    case True
    then show ?thesis using e inv by (intro exI [of _ a] exI [of _ False]) simp
  next
    case False
    let ?row = "(bitrates a ! si)[ti := Some b]"
    have len: "length (bitrates a) = kMaxSpatialLayers" using inv by (simp add: allocation_inv_def)
    have "layer_total ?row + ?r = layer_total (bitrates a ! si) + b"
      using sum_list_update_nat [of ti "bitrates a ! si" value_or_0 "Some b"] l(1) i(2) by (simp add: layer_total_def value_or_0_def)
    moreover have "sum_list (map layer_total ((bitrates a)[si := ?row])) + layer_total (bitrates a ! si) = sum_bps a + layer_total ?row"
      using sum_list_update_nat [of si "bitrates a" layer_total ?row] len i(1) inv by (simp add: allocation_inv_def)
    ultimately have "sum_list (map layer_total ((bitrates a)[si := ?row])) = sum_bps a - ?r + b" using r by linarith
    moreover have "\<forall>rates \<in> set ((bitrates a)[si := ?row]). length rates = kMaxTemporalStreams"
      using inv l(1) set_update_subset_insert [of "bitrates a" si ?row] by (auto simp: allocation_inv_def)
    ultimately show ?thesis
      using e False len
      by (intro exI [of _ "a\<lparr>bitrates := (bitrates a)[si := ?row], sum_bps := sum_bps a - ?r + b\<rparr>"] exI [of _ True]) (simp add: allocation_inv_def)
  qed
qed

text \<open>The additions of \<open>uint32_t\<close> do not wrap around.\<close>

lemma fold_add32:
  assumes "n \<le> length rates" "layer_total rates \<le> kMaxBitrateBps"
  shows "fold (\<lambda>i s. add32 s (value_or_0 (rates ! i))) [0..<n] 0 = layer_total (take n rates) \<and> layer_total (take n rates) \<le> layer_total rates"
  using assms(1)
proof (induction n)
  case 0
  then show ?case by (simp add: layer_total_def)
next
  case (Suc n)
  have "layer_total rates = layer_total (take (Suc n) rates) + layer_total (drop (Suc n) rates)"
    unfolding layer_total_def by (metis append_take_drop_id map_append sum_list_append)
  moreover have "layer_total (take (Suc n) rates) = layer_total (take n rates) + value_or_0 (rates ! n)"
    using Suc.prems by (simp add: take_Suc_conv_app_nth layer_total_def)
  ultimately show ?case using Suc assms(2) by (simp add: add32_def layer_defs)
qed

lemma GetTemporalLayerSum_ok:
  assumes inv: "allocation_inv a" and i: "si < kMaxSpatialLayers" "ti < kMaxTemporalStreams"
  shows "GetTemporalLayerSum si ti a = Some (layer_total (take (ti + 1) (bitrates a ! si)))"
    "layer_total (take (ti + 1) (bitrates a ! si)) \<le> layer_total (bitrates a ! si)"
proof -
  note l = allocation_inv_layer [OF inv i(1)]
  have "layer_total (bitrates a ! si) \<le> kMaxBitrateBps" using l(2) inv by (simp add: allocation_inv_def)
  note f = fold_add32 [OF _ this, of "ti + 1"]
  show "GetTemporalLayerSum si ti a = Some (layer_total (take (ti + 1) (bitrates a ! si)))"
    "layer_total (take (ti + 1) (bitrates a ! si)) \<le> layer_total (bitrates a ! si)"
    using f l(1) i by (simp_all add: GetTemporalLayerSum_def)
qed

lemma GetSpatialLayerSum_ok:
  assumes inv: "allocation_inv a" and i: "si < kMaxSpatialLayers"
  shows "GetSpatialLayerSum si a = Some (layer_total (bitrates a ! si))"
  using GetTemporalLayerSum_ok(1) [OF inv i, of "kMaxTemporalStreams - 1"] allocation_inv_layer(1) [OF inv i] i
  by (simp add: GetSpatialLayerSum_def layer_defs)


section \<open>Simulcast allocations\<close>

text \<open>Copying the rates of a layer, as far as the loop has come.\<close>

lemma copy_layer_ok:
  assumes inv: "allocation_inv a" and si: "si < kMaxSpatialLayers" and rates: "rates = bitrates a ! si"
    and l: "allocation_inv l" "bitrates l = (bitrates VideoBitrateAllocation_new)[0 := take n rates @ replicate (kMaxTemporalStreams - n) None]"
    and n: "n \<le> kMaxTemporalStreams"
  shows "\<exists>l'. copy_layer si a [n..<kMaxTemporalStreams] l = Some l' \<and> allocation_inv l' \<and>
    bitrates l' = (bitrates VideoBitrateAllocation_new)[0 := rates]"
  using n l
proof (induction "kMaxTemporalStreams - n" arbitrary: n l)
  case 0
  then show ?case using allocation_inv_layer(1) [OF inv si] rates by simp
next
  case (Suc d)
  then have n: "n < kMaxTemporalStreams" by simp
  have len: "length rates = kMaxTemporalStreams" using allocation_inv_layer(1) [OF inv si] rates by simp
  have up: "[n..<kMaxTemporalStreams] = n # [Suc n..<kMaxTemporalStreams]" using n by (rule upt_conv_Cons)
  let ?new = "bitrates VideoBitrateAllocation_new"
  have new: "0 < length ?new" by (simp add: VideoBitrateAllocation_new_def layer_defs)
  have row: "bitrates l ! 0 = take n rates @ replicate (kMaxTemporalStreams - n) None" using Suc.prems(3) new by simp
  have at: "bitrates l ! 0 ! n = None" using row n len by (simp add: nth_append)
  have grow: "(take n rates @ replicate (kMaxTemporalStreams - n) None)[n := rates ! n] =
      take (Suc n) rates @ replicate (kMaxTemporalStreams - Suc n) None"
    using n len by (simp add: list_update_append take_Suc_conv_app_nth Suc_diff_Suc [symmetric] del: Suc_diff_Suc)
  show ?case
  proof (cases "rates ! n")
    case None
    have "take (Suc n) rates @ replicate (kMaxTemporalStreams - Suc n) None = take n rates @ replicate (kMaxTemporalStreams - n) None"
      using grow None row at by (metis list_update_id)
    then have "\<exists>l'. copy_layer si a [Suc n..<kMaxTemporalStreams] l = Some l' \<and> allocation_inv l' \<and> bitrates l' = ?new[0 := rates]"
      using Suc.hyps Suc.prems n by (intro Suc.hyps(1)) simp_all
    then show ?thesis using si n None rates by (simp add: up HasBitrate_def)
  next
    case (Some r)
    have "Some r \<in> set rates" using Some len n by (metis nth_mem)
    then have "r \<le> layer_total rates" using elem_le_total [of "Some r" rates value_or_0] by (simp add: layer_total_def value_or_0_def)
    then have r: "r \<le> kMaxBitrateBps"
      using allocation_inv_layer(2) [OF inv si] rates inv by (simp add: allocation_inv_def)
    have tot: "sum_bps l = layer_total (take n rates)"
      using Suc.prems(2,3) by (simp add: allocation_inv_def new_first_total layer_total_append_None)
    have "layer_total (take n rates) + r \<le> layer_total rates"
    proof -
      have "layer_total rates = layer_total (take (Suc n) rates) + layer_total (drop (Suc n) rates)"
        unfolding layer_total_def by (metis append_take_drop_id map_append sum_list_append)
      then show ?thesis using n len Some by (simp add: take_Suc_conv_app_nth layer_total_def value_or_0_def)
    qed
    then have fits: "sum_bps l + r \<le> kMaxBitrateBps"
      using tot allocation_inv_layer(2) [OF inv si] rates inv by (simp add: allocation_inv_def)
    have "\<exists>a' ok. SetBitrate 0 n r l = Some (a', ok) \<and> allocation_inv a' \<and>
        ok = (sum_bps l - value_or_0 (bitrates l ! 0 ! n) + r \<le> kMaxBitrateBps) \<and>
        (if ok then bitrates a' = (bitrates l)[0 := (bitrates l ! 0)[n := Some r]] \<and> sum_bps a' = sum_bps l - value_or_0 (bitrates l ! 0 ! n) + r
         else a' = l)"
      using SetBitrate_ok [OF Suc.prems(2) _ n r, of 0] by (simp add: layer_defs)
    then obtain l1 where l1: "SetBitrate 0 n r l = Some (l1, True)" "allocation_inv l1" "bitrates l1 = (bitrates l)[0 := (bitrates l ! 0)[n := Some r]]"
      using fits at by (auto simp: value_or_0_def)
    have "bitrates l1 = ?new[0 := take (Suc n) rates @ replicate (kMaxTemporalStreams - Suc n) None]"
      using l1(3) Suc.prems(3) row grow Some by simp
    then have "\<exists>l'. copy_layer si a [Suc n..<kMaxTemporalStreams] l1 = Some l' \<and> allocation_inv l' \<and> bitrates l' = ?new[0 := rates]"
      using Suc.hyps l1(2) n by (intro Suc.hyps(1)) simp_all
    then show ?thesis using si n Some rates l1(1) by (simp add: up HasBitrate_def GetBitrate_def value_or_0_def)
  qed
qed

definition simulcast_layer :: "nat option list \<Rightarrow> bitrate_allocation option \<Rightarrow> bool" where
  "simulcast_layer rates l \<longleftrightarrow> (if \<exists>r \<in> set rates. r \<noteq> None
     then \<exists>l'. l = Some l' \<and> allocation_inv l' \<and> bitrates l' = (bitrates VideoBitrateAllocation_new)[0 := rates] \<and> sum_bps l' = layer_total rates
     else l = None)"

lemma simulcast_layers_ok:
  assumes inv: "allocation_inv a" and s: "\<forall>si \<in> set sis. si < kMaxSpatialLayers"
  shows "\<exists>ls. simulcast_layers a sis = Some ls \<and> length ls = length sis \<and> (\<forall>i < length sis. simulcast_layer (bitrates a ! (sis ! i)) (ls ! i))"
  using s
proof (induction sis)
  case (Cons si sis)
  let ?rates = "bitrates a ! si"
  have si: "si < kMaxSpatialLayers" using Cons.prems by simp
  have len: "length ?rates = kMaxTemporalStreams" by (rule allocation_inv_layer(1) [OF inv si])
  define u where "u \<longleftrightarrow> (\<exists>r \<in> set ?rates. r \<noteq> None)"
  have used: "IsSpatialLayerUsed si a = Some u"
    using si len unfolding u_def by (auto simp: IsSpatialLayerUsed_def list_ex_iff in_set_conv_nth Bex_def)
  have "bitrates VideoBitrateAllocation_new = (bitrates VideoBitrateAllocation_new)[0 := take 0 ?rates @ replicate (kMaxTemporalStreams - 0) None]"
    by (simp add: new_bitrates layer_defs)
  then obtain l' where l': "copy_layer si a [0..<kMaxTemporalStreams] VideoBitrateAllocation_new = Some l'" "allocation_inv l'"
      "bitrates l' = (bitrates VideoBitrateAllocation_new)[0 := ?rates]"
    using copy_layer_ok [OF inv si refl allocation_inv_new, of 0] by auto
  have "sum_bps l' = layer_total ?rates"
    using l'(2,3) by (simp add: allocation_inv_def new_first_total)
  then have layer: "simulcast_layer ?rates (if u then Some l' else None)"
    using l' unfolding simulcast_layer_def u_def by simp
  obtain ls where "simulcast_layers a sis = Some ls" "length ls = length sis" "\<forall>i < length sis. simulcast_layer (bitrates a ! (sis ! i)) (ls ! i)"
    using Cons by auto
  then show ?case using used l'(1) layer by (cases u) (auto simp: nth_Cons split: nat.splits)
qed simp


section \<open>The checks of \<open>toString\<close>\<close>

lemma layer_total_Suc:
  "n < length rates \<Longrightarrow> layer_total (take (Suc n) rates) = layer_total (take n rates) + value_or_0 (rates ! n)"
  by (simp add: take_Suc_conv_app_nth layer_total_def)

lemma layer_total_take_le: "layer_total (take n rates) \<le> layer_total rates"
  unfolding layer_total_def by (metis append_take_drop_id le_add1 map_append sum_list_append)

lemma temporal_text_ok:
  assumes "layer_total rates \<le> kMaxBitrateBps" "ti + n \<le> length rates"
  shows "\<exists>t. temporal_text rates (layer_total rates) ti (layer_total (take ti rates)) n = Some t"
  using assms(2)
proof (induction n arbitrary: ti)
  case (Suc n)
  have "add32 (layer_total (take ti rates)) (value_or_0 (rates ! ti)) = layer_total (take (Suc ti) rates)"
    using layer_total_Suc [of ti rates] layer_total_take_le [of "Suc ti" rates] Suc.prems assms(1) by (simp add: add32_def layer_defs)
  moreover obtain t where "temporal_text rates (layer_total rates) (Suc ti) (layer_total (take (Suc ti) rates)) n = Some t"
    using Suc.IH [of "Suc ti"] Suc.prems by auto
  ultimately show ?case using layer_total_take_le [of ti rates] by simp
qed simp

lemma spatial_text_ok:
  assumes inv: "allocation_inv a" and n: "si + n = kMaxSpatialLayers"
  shows "\<exists>t. spatial_text a si (sum_list (map layer_total (take si (bitrates a)))) n = Some (t, sum_bps a)"
  using n
proof (induction n arbitrary: si)
  case 0
  then show ?case using inv by (simp add: allocation_inv_def)
next
  case (Suc n)
  let ?done = "\<lambda>i. sum_list (map layer_total (take i (bitrates a)))"
  have si: "si < kMaxSpatialLayers" "si < length (bitrates a)" using Suc.prems inv by (simp_all add: allocation_inv_def)
  have le: "?done i \<le> sum_bps a" for i
    using inv unfolding allocation_inv_def by (metis append_take_drop_id le_add1 map_append sum_list_append)
  have "?done (Suc si) = ?done si + layer_total (bitrates a ! si)" using si(2) by (simp add: take_Suc_conv_app_nth)
  then have step: "add32 (?done si) (layer_total (bitrates a ! si)) = ?done (Suc si)"
    using le [of "Suc si"] inv by (simp add: add32_def allocation_inv_def layer_defs)
  have "layer_total (bitrates a ! si) \<le> kMaxBitrateBps"
    using allocation_inv_layer(2) [OF inv si(1)] inv by (simp add: allocation_inv_def)
  then obtain t where t: "temporal_text (bitrates a ! si) (layer_total (bitrates a ! si)) 0 0 kMaxTemporalStreams = Some t"
    using temporal_text_ok [of "bitrates a ! si" 0 kMaxTemporalStreams] allocation_inv_layer(1) [OF inv si(1)] by (auto simp: layer_total_def)
  obtain t' where "spatial_text a (Suc si) (?done (Suc si)) n = Some (t', sum_bps a)" using Suc.IH [of "Suc si"] Suc.prems by auto
  then show ?case using le [of si] GetSpatialLayerSum_ok [OF inv si(1)] t step by auto
qed

lemma toString_ok:
  assumes "allocation_inv a"
  shows "\<exists>t. toString a = Some t"
  using spatial_text_ok [OF assms, of 0 kMaxSpatialLayers] by (auto simp: toString_def)


section \<open>Sessions\<close>

text \<open>Any calls of \<open>SetBitrate\<close> on a new allocation.\<close>

fun set_rates :: "(nat \<times> nat \<times> nat) list \<Rightarrow> bitrate_allocation \<Rightarrow> bitrate_allocation option" where
  "set_rates [] a = Some a"
| "set_rates ((si, ti, b) # rs) a = do { (a, _) \<leftarrow> SetBitrate si ti b a; set_rates rs a }"

definition rates_ok :: "(nat \<times> nat \<times> nat) list \<Rightarrow> bool" where
  "rates_ok rs \<longleftrightarrow> (\<forall>(si, ti, b) \<in> set rs. si < kMaxSpatialLayers \<and> ti < kMaxTemporalStreams \<and> b \<le> kMaxBitrateBps)"

lemma set_rates_ok: "rates_ok rs \<Longrightarrow> allocation_inv a \<Longrightarrow> \<exists>a'. set_rates rs a = Some a' \<and> allocation_inv a'"
proof (induction rs arbitrary: a)
  case (Cons r rs)
  obtain si ti b where r: "r = (si, ti, b)" by (cases r)
  then obtain a' ok where "SetBitrate si ti b a = Some (a', ok)" "allocation_inv a'"
    using SetBitrate_ok [OF Cons.prems(2), of si ti b] Cons.prems(1) by (auto simp: rates_ok_def)
  then show ?case using Cons.IH [of a'] Cons.prems(1) r by (auto simp: rates_ok_def)
qed simp

text \<open>
  C26: after any calls of \<open>SetBitrate\<close> with valid indices, accepted and refused ones, the sum of an allocation is the sum of all its rates
  and at most \<open>2 ^ 32 - 1\<close>; the sums over layers are exact, although they are computed with additions that wrap around; a
  further call is refused exactly if the new sum would be too big, and then changes nothing; and none of the checks in
  these methods and in \<open>toString\<close> fails.
\<close>

theorem bitrate_allocation_session:
  assumes "rates_ok rs" "si < kMaxSpatialLayers" "ti < kMaxTemporalStreams" "b \<le> kMaxBitrateBps"
  shows "\<exists>a a' ok. set_rates rs VideoBitrateAllocation_new = Some a \<and>
    sum_bps a = sum_list (map (\<lambda>rates. sum_list (map value_or_0 rates)) (bitrates a)) \<and> sum_bps a \<le> kMaxBitrateBps \<and>
    GetTemporalLayerSum si ti a = Some (sum_list (map value_or_0 (take (ti + 1) (bitrates a ! si)))) \<and>
    GetSpatialLayerSum si a = Some (sum_list (map value_or_0 (bitrates a ! si))) \<and>
    SetBitrate si ti b a = Some (a', ok) \<and> ok = (sum_bps a - value_or_0 (bitrates a ! si ! ti) + b \<le> kMaxBitrateBps) \<and>
    a' = (if ok then a\<lparr>bitrates := (bitrates a)[si := (bitrates a ! si)[ti := Some b]], sum_bps := sum_bps a - value_or_0 (bitrates a ! si ! ti) + b\<rparr> else a) \<and>
    (\<exists>t. toString a = Some t)"
proof -
  obtain a where a: "set_rates rs VideoBitrateAllocation_new = Some a" "allocation_inv a"
    using set_rates_ok [OF assms(1) allocation_inv_new] by blast
  obtain a' ok where s: "SetBitrate si ti b a = Some (a', ok)" "ok = (sum_bps a - value_or_0 (bitrates a ! si ! ti) + b \<le> kMaxBitrateBps)"
    "if ok then bitrates a' = (bitrates a)[si := (bitrates a ! si)[ti := Some b]] \<and> sum_bps a' = sum_bps a - value_or_0 (bitrates a ! si ! ti) + b
     else a' = a"
    using SetBitrate_ok [OF a(2) assms(2-4)] by blast
  have "is_bw_limited a' = is_bw_limited a" using s(1) by (auto simp: SetBitrate_def Option.bind_eq_Some_conv Let_def split: if_splits)
  then have "a' = (if ok then a\<lparr>bitrates := (bitrates a)[si := (bitrates a ! si)[ti := Some b]],
      sum_bps := sum_bps a - value_or_0 (bitrates a ! si ! ti) + b\<rparr> else a)"
    using s(3) by (cases ok) simp_all
  moreover have "sum_bps a = sum_list (map (\<lambda>rates. sum_list (map value_or_0 rates)) (bitrates a)) \<and> sum_bps a \<le> kMaxBitrateBps"
    using a(2) by (simp add: allocation_inv_def layer_total_def [abs_def])
  moreover note GetTemporalLayerSum_ok(1) [OF a(2) assms(2,3), unfolded layer_total_def]
    GetSpatialLayerSum_ok [OF a(2) assms(2), unfolded layer_total_def] toString_ok [OF a(2)]
  ultimately show ?thesis using a(1) s(1,2) by blast
qed

theorem bitrate_allocation_session_witness:
  "\<exists>a. set_rates [(0, 0, 3000000000), (1, 2, 2000000000), (1, 3, 5)] VideoBitrateAllocation_new = Some a \<and>
     sum_bps a = sum_list (map (\<lambda>rates. sum_list (map value_or_0 rates)) (bitrates a)) \<and> SetBitrate 0 0 0 a \<noteq> None"
proof -
  have "rates_ok [(0, 0, 3000000000), (1, 2, 2000000000), (1, 3, 5)]" "(0 :: nat) < kMaxSpatialLayers" "(0 :: nat) < kMaxTemporalStreams" "0 \<le> kMaxBitrateBps"
    by (simp_all add: rates_ok_def layer_defs)
  from bitrate_allocation_session [OF this] show ?thesis by auto
qed

text \<open>
  \<open>GetSimulcastAllocations\<close> returns an entry for each of the five spatial layers: nothing for a layer without rates, and otherwise an
  allocation with the rates of the layer, set or not, as its first layer, no other rates, and their sum.
\<close>

theorem simulcast_allocations_spec:
  assumes "rates_ok rs" "set_rates rs VideoBitrateAllocation_new = Some a"
  shows "\<exists>ls. GetSimulcastAllocations a = Some ls \<and> length ls = kMaxSpatialLayers \<and>
    (\<forall>si < kMaxSpatialLayers. if \<exists>r \<in> set (bitrates a ! si). r \<noteq> None
       then \<exists>l. ls ! si = Some l \<and> bitrates l = (bitrates VideoBitrateAllocation_new)[0 := bitrates a ! si] \<and>
         GetSpatialLayerSum si a = Some (sum_bps l)
       else ls ! si = None)"
proof -
  have inv: "allocation_inv a" using set_rates_ok [OF assms(1) allocation_inv_new] assms(2) by simp
  then obtain ls where ls: "GetSimulcastAllocations a = Some ls" "length ls = kMaxSpatialLayers"
      "\<forall>i < kMaxSpatialLayers. simulcast_layer (bitrates a ! i) (ls ! i)"
    using simulcast_layers_ok [OF inv, of "[0..<kMaxSpatialLayers]"] by (auto simp: GetSimulcastAllocations_def)
  show ?thesis
  proof (intro exI conjI allI impI)
    show "if \<exists>r \<in> set (bitrates a ! si). r \<noteq> None
       then \<exists>l. ls ! si = Some l \<and> bitrates l = (bitrates VideoBitrateAllocation_new)[0 := bitrates a ! si] \<and>
         GetSpatialLayerSum si a = Some (sum_bps l)
       else ls ! si = None" if "si < kMaxSpatialLayers" for si
      using ls(3) that GetSpatialLayerSum_ok [OF inv that] by (auto simp: simulcast_layer_def split: if_splits)
  qed (use ls in simp_all)
qed

theorem simulcast_allocations_spec_witness:
  "\<exists>a ls. set_rates [(1, 2, 7)] VideoBitrateAllocation_new = Some a \<and> GetSimulcastAllocations a = Some ls \<and> length ls = 5 \<and> ls ! 0 = None"
proof -
  have r: "rates_ok [(1, 2, 7)]" by (simp add: rates_ok_def layer_defs)
  obtain a where a: "set_rates [(1, 2, 7)] VideoBitrateAllocation_new = Some a" "bitrates a ! 0 = [None, None, None, None]"
  proof -
    have "bitrates VideoBitrateAllocation_new ! 1 ! 2 = None" "sum_bps VideoBitrateAllocation_new = 0"
      by (simp_all add: VideoBitrateAllocation_new_def layer_defs)
    then show ?thesis
      using that by (simp add: SetBitrate_def layer_defs int64_def in_int64_def int_range_defs)
        (simp add: new_bitrates eval_nat_numeral(2-))
  qed
  from simulcast_allocations_spec [OF r a(1)] obtain ls where
    "GetSimulcastAllocations a = Some ls" "length ls = kMaxSpatialLayers" "ls ! 0 = None"
    using a(2) by (auto simp: layer_defs)
  then show ?thesis using a(1) by (auto simp: layer_defs)
qed
end
