(* ===== verification/FrameBuffers.thy ===== *)
theory FrameBuffers
  imports VideoTypes
begin

text \<open>
  Frame buffers: \<open>I420Buffer\<close>, \<open>I422Buffer\<close>, \<open>I444Buffer\<close>, \<open>I010Buffer\<close>, \<open>I210Buffer\<close>, \<open>I410Buffer\<close> and \<open>NV12Buffer\<close>
  of \<open>src/libs/media/source/video\<close>, and \<open>cropAndScale\<close> of \<open>octk_video_frame_buffer.cpp\<close>. A buffer is its format, its size, the
  strides of its planes and the number of bytes that were allocated for it. Addresses are offsets in samples from the beginning
  of the memory of a buffer. All \<open>int\<close> arithmetic is checked.

  Pixels are moved by the functions of libyuv, which are not part of the program: a call is recorded with all its arguments,
  its result is a parameter \<open>libyuv\<close> of the operations, and an operation returns the new buffer with the calls it made.
\<close>

section \<open>Buffers\<close>

datatype format = kI420 | kI422 | kI444 | kI010 | kI210 | kI410 | kNV12

record pixel_buffer =
  bf_type :: format
  bf_width :: int
  bf_height :: int
  strideY :: int
  strideU :: int
  strideV :: int
  bf_size :: int

definition half_up :: "int \<Rightarrow> int option" where
  "half_up x = do { x \<leftarrow> int32 (x + 1); div32 x 2 }"

definition I422DataSize :: "int \<Rightarrow> int \<Rightarrow> int \<Rightarrow> int \<Rightarrow> int option" where
  "I422DataSize height stride_y stride_u stride_v = do {
     y \<leftarrow> int32 (stride_y * height);
     u \<leftarrow> int32 (stride_u * height);
     yu \<leftarrow> int32 (y + u);
     v \<leftarrow> int32 (stride_v * height);
     int32 (yu + v)
   }"

definition I444DataSize :: "int \<Rightarrow> int \<Rightarrow> int \<Rightarrow> int \<Rightarrow> int option" where
  "I444DataSize height stride_y stride_u stride_v = I422DataSize height stride_y stride_u stride_v"

definition kBytesPerPixel :: int where "kBytesPerPixel = 2"

definition I010DataSize :: "int \<Rightarrow> int \<Rightarrow> int \<Rightarrow> int \<Rightarrow> int option" where
  "I010DataSize height stride_y stride_u stride_v = do {
     s \<leftarrow> I420DataSize height stride_y stride_u stride_v;
     int32 (kBytesPerPixel * s)
   }"

definition I210DataSize :: "int \<Rightarrow> int \<Rightarrow> int \<Rightarrow> int \<Rightarrow> int option" where
  "I210DataSize height stride_y stride_u stride_v = do {
     s \<leftarrow> I422DataSize height stride_y stride_u stride_v;
     int32 (kBytesPerPixel * s)
   }"

definition I410DataSize :: "int \<Rightarrow> int \<Rightarrow> int \<Rightarrow> int \<Rightarrow> int option" where
  "I410DataSize height stride_y stride_u stride_v = do {
     s \<leftarrow> I444DataSize height stride_y stride_u stride_v;
     int32 (kBytesPerPixel * s)
   }"

definition NV12DataSize :: "int \<Rightarrow> int \<Rightarrow> int \<Rightarrow> int option" where
  "NV12DataSize height stride_y stride_uv = do {
     y \<leftarrow> int32 (stride_y * height);
     h \<leftarrow> half_up height;
     uv \<leftarrow> int32 (stride_uv * h);
     int32 (y + uv)
   }"

text \<open>The checks of the constructors, for halved and for full chroma width.\<close>

definition check_half :: "int \<Rightarrow> int \<Rightarrow> int \<Rightarrow> int \<Rightarrow> int \<Rightarrow> unit option" where
  "check_half width height stride_y stride_u stride_v = do {
     dcheck (0 < width);
     dcheck (0 < height);
     dcheck (width \<le> stride_y);
     w \<leftarrow> half_up width;
     dcheck (w \<le> stride_u);
     dcheck (w \<le> stride_v)
   }"

definition check_full :: "int \<Rightarrow> int \<Rightarrow> int \<Rightarrow> int \<Rightarrow> int \<Rightarrow> unit option" where
  "check_full width height stride_y stride_u stride_v = do {
     dcheck (0 < width);
     dcheck (0 < height);
     dcheck (width \<le> stride_y);
     dcheck (width \<le> stride_u);
     dcheck (width \<le> stride_v)
   }"

definition make_buffer :: "format \<Rightarrow> int \<Rightarrow> int \<Rightarrow> int \<Rightarrow> int \<Rightarrow> int \<Rightarrow> int \<Rightarrow> pixel_buffer" where
  "make_buffer f width height stride_y stride_u stride_v bytes =
     \<lparr>bf_type = f, bf_width = width, bf_height = height, strideY = stride_y, strideU = stride_u, strideV = stride_v, bf_size = bytes\<rparr>"

definition I420Buffer :: "int \<Rightarrow> int \<Rightarrow> int \<Rightarrow> int \<Rightarrow> int \<Rightarrow> pixel_buffer option" where
  "I420Buffer width height stride_y stride_u stride_v = do {
     bytes \<leftarrow> I420DataSize height stride_y stride_u stride_v;
     check_half width height stride_y stride_u stride_v;
     Some (make_buffer kI420 width height stride_y stride_u stride_v bytes)
   }"

definition I422Buffer :: "int \<Rightarrow> int \<Rightarrow> int \<Rightarrow> int \<Rightarrow> int \<Rightarrow> pixel_buffer option" where
  "I422Buffer width height stride_y stride_u stride_v = do {
     bytes \<leftarrow> I422DataSize height stride_y stride_u stride_v;
     check_half width height stride_y stride_u stride_v;
     Some (make_buffer kI422 width height stride_y stride_u stride_v bytes)
   }"

definition I444Buffer :: "int \<Rightarrow> int \<Rightarrow> int \<Rightarrow> int \<Rightarrow> int \<Rightarrow> pixel_buffer option" where
  "I444Buffer width height stride_y stride_u stride_v = do {
     bytes \<leftarrow> I444DataSize height stride_y stride_u stride_v;
     check_full width height stride_y stride_u stride_v;
     Some (make_buffer kI444 width height stride_y stride_u stride_v bytes)
   }"

definition I010Buffer :: "int \<Rightarrow> int \<Rightarrow> int \<Rightarrow> int \<Rightarrow> int \<Rightarrow> pixel_buffer option" where
  "I010Buffer width height stride_y stride_u stride_v = do {
     bytes \<leftarrow> I010DataSize height stride_y stride_u stride_v;
     check_half width height stride_y stride_u stride_v;
     Some (make_buffer kI010 width height stride_y stride_u stride_v bytes)
   }"

definition I210Buffer :: "int \<Rightarrow> int \<Rightarrow> int \<Rightarrow> int \<Rightarrow> int \<Rightarrow> pixel_buffer option" where
  "I210Buffer width height stride_y stride_u stride_v = do {
     bytes \<leftarrow> I210DataSize height stride_y stride_u stride_v;
     check_half width height stride_y stride_u stride_v;
     Some (make_buffer kI210 width height stride_y stride_u stride_v bytes)
   }"

definition I410Buffer :: "int \<Rightarrow> int \<Rightarrow> int \<Rightarrow> int \<Rightarrow> int \<Rightarrow> pixel_buffer option" where
  "I410Buffer width height stride_y stride_u stride_v = do {
     bytes \<leftarrow> I410DataSize height stride_y stride_u stride_v;
     check_full width height stride_y stride_u stride_v;
     Some (make_buffer kI410 width height stride_y stride_u stride_v bytes)
   }"

definition NV12Buffer :: "int \<Rightarrow> int \<Rightarrow> int \<Rightarrow> int \<Rightarrow> pixel_buffer option" where
  "NV12Buffer width height stride_y stride_uv = do {
     bytes \<leftarrow> NV12DataSize height stride_y stride_uv;
     dcheck (0 < width);
     dcheck (0 < height);
     dcheck (width \<le> stride_y);
     m \<leftarrow> mod32 width 2;
     w \<leftarrow> int32 (width + m);
     dcheck (w \<le> stride_uv);
     Some (make_buffer kNV12 width height stride_y stride_uv stride_uv bytes)
   }"

text \<open>Buffers with the default strides.\<close>

definition I420_create :: "int \<Rightarrow> int \<Rightarrow> pixel_buffer option" where
  "I420_create width height = do { w \<leftarrow> half_up width; I420Buffer width height width w w }"

definition I422_create :: "int \<Rightarrow> int \<Rightarrow> pixel_buffer option" where
  "I422_create width height = do { w \<leftarrow> half_up width; I422Buffer width height width w w }"

definition I444_create :: "int \<Rightarrow> int \<Rightarrow> pixel_buffer option" where
  "I444_create width height = I444Buffer width height width width width"

definition I010_create :: "int \<Rightarrow> int \<Rightarrow> pixel_buffer option" where
  "I010_create width height = do { w \<leftarrow> half_up width; I010Buffer width height width w w }"

definition I210_create :: "int \<Rightarrow> int \<Rightarrow> pixel_buffer option" where
  "I210_create width height = do { w \<leftarrow> half_up width; I210Buffer width height width w w }"

definition I410_create :: "int \<Rightarrow> int \<Rightarrow> pixel_buffer option" where
  "I410_create width height = I410Buffer width height width width width"

definition NV12_create :: "int \<Rightarrow> int \<Rightarrow> pixel_buffer option" where
  "NV12_create width height = do { m \<leftarrow> mod32 width 2; w \<leftarrow> int32 (width + m); NV12Buffer width height width w }"

text \<open>The number of bytes that \<open>InitializeData\<close> sets to zero; the 10-bit formats I010 and I210 do not have it.\<close>

definition I420_InitializeData :: "pixel_buffer \<Rightarrow> int option" where
  "I420_InitializeData b = I420DataSize (bf_height b) (strideY b) (strideU b) (strideV b)"

definition I422_InitializeData :: "pixel_buffer \<Rightarrow> int option" where
  "I422_InitializeData b = I422DataSize (bf_height b) (strideY b) (strideU b) (strideV b)"

definition I444_InitializeData :: "pixel_buffer \<Rightarrow> int option" where
  "I444_InitializeData b = I444DataSize (bf_height b) (strideY b) (strideU b) (strideV b)"

definition I410_InitializeData :: "pixel_buffer \<Rightarrow> int option" where
  "I410_InitializeData b = I410DataSize (bf_height b) (strideY b) (strideU b) (strideV b)"

definition NV12_InitializeData :: "pixel_buffer \<Rightarrow> int option" where
  "NV12_InitializeData b = NV12DataSize (bf_height b) (strideY b) (strideU b)"

text \<open>The planes: pointers to their first samples and strides. For NV12 the fields for U are those of the interleaved plane.\<close>

definition dataY :: "pixel_buffer \<Rightarrow> int option" where
  "dataY b = Some 0"

definition dataU :: "pixel_buffer \<Rightarrow> int option" where
  "dataU b = int32 (strideY b * bf_height b)"

definition dataV :: "pixel_buffer \<Rightarrow> int option" where
  "dataV b = do {
     y \<leftarrow> int32 (strideY b * bf_height b);
     h \<leftarrow> (if bf_type b \<in> {kI420, kI010} then half_up (bf_height b) else Some (bf_height b));
     u \<leftarrow> int32 (strideU b * h);
     Some (y + u)
   }"

definition UVOffset :: "pixel_buffer \<Rightarrow> int option" where
  "UVOffset b = int32 (strideY b * bf_height b)"

type_synonym plane = "int \<times> int"

definition pointers :: "pixel_buffer \<Rightarrow> plane list option" where
  "pointers b = (if bf_type b = kNV12
     then do { y \<leftarrow> dataY b; uv \<leftarrow> UVOffset b; Some [(y, strideY b), (uv, strideU b)] }
     else do { y \<leftarrow> dataY b; u \<leftarrow> dataU b; v \<leftarrow> dataV b; Some [(y, strideY b), (u, strideU b), (v, strideV b)] })"


section \<open>Copying, converting and rotating\<close>

datatype yuv_op = YuvCopy format | YuvConvert format format | YuvRotate format VideoRotation | YuvScale format int int | YuvRect int int

record yuv_call =
  yc_op :: yuv_op
  yc_from :: pixel_buffer
  yc_src :: "plane list"
  yc_src_size :: "int \<times> int"
  yc_to :: pixel_buffer
  yc_dst :: "plane list"

text \<open>A call whose result is ignored, and one whose result must be zero.\<close>

definition yuv :: "yuv_op \<Rightarrow> pixel_buffer \<Rightarrow> plane list \<Rightarrow> int \<times> int \<Rightarrow> pixel_buffer \<Rightarrow> yuv_call option" where
  "yuv op src ps src_size dst = do {
     qs \<leftarrow> pointers dst;
     Some \<lparr>yc_op = op, yc_from = src, yc_src = ps, yc_src_size = src_size, yc_to = dst, yc_dst = qs\<rparr>
   }"

definition yuv_checked :: "(yuv_call \<Rightarrow> int) \<Rightarrow> yuv_op \<Rightarrow> pixel_buffer \<Rightarrow> plane list \<Rightarrow> int \<times> int \<Rightarrow> pixel_buffer \<Rightarrow> yuv_call option" where
  "yuv_checked libyuv op src ps src_size dst = do {
     c \<leftarrow> yuv op src ps src_size dst;
     dcheck (libyuv c = 0);
     Some c
   }"

definition I420_Copy_planes :: "(yuv_call \<Rightarrow> int) \<Rightarrow> int \<Rightarrow> int \<Rightarrow> pixel_buffer \<Rightarrow> plane list \<Rightarrow> (pixel_buffer \<times> yuv_call list) option" where
  "I420_Copy_planes libyuv width height source ps = do {
     buffer \<leftarrow> I420_create width height;
     c \<leftarrow> yuv_checked libyuv (YuvCopy kI420) source ps (width, height) buffer;
     Some (buffer, [c])
   }"

definition I420_Copy :: "(yuv_call \<Rightarrow> int) \<Rightarrow> pixel_buffer \<Rightarrow> (pixel_buffer \<times> yuv_call list) option" where
  "I420_Copy libyuv source = do { ps \<leftarrow> pointers source; I420_Copy_planes libyuv (bf_width source) (bf_height source) source ps }"

definition I422_Copy_planes :: "(yuv_call \<Rightarrow> int) \<Rightarrow> int \<Rightarrow> int \<Rightarrow> pixel_buffer \<Rightarrow> plane list \<Rightarrow> (pixel_buffer \<times> yuv_call list) option" where
  "I422_Copy_planes libyuv width height source ps = do {
     buffer \<leftarrow> I422_create width height;
     c \<leftarrow> yuv_checked libyuv (YuvCopy kI422) source ps (width, height) buffer;
     Some (buffer, [c])
   }"

definition I422_Copy :: "(yuv_call \<Rightarrow> int) \<Rightarrow> pixel_buffer \<Rightarrow> (pixel_buffer \<times> yuv_call list) option" where
  "I422_Copy libyuv source = do { ps \<leftarrow> pointers source; I422_Copy_planes libyuv (bf_width source) (bf_height source) source ps }"

definition I422_from_I420 :: "(yuv_call \<Rightarrow> int) \<Rightarrow> pixel_buffer \<Rightarrow> (pixel_buffer \<times> yuv_call list) option" where
  "I422_from_I420 libyuv source = do {
     let width = bf_width source; let height = bf_height source;
     buffer \<leftarrow> I422_create width height;
     ps \<leftarrow> pointers source;
     c \<leftarrow> yuv_checked libyuv (YuvConvert kI420 kI422) source ps (width, height) buffer;
     Some (buffer, [c])
   }"

definition I444_Copy_planes :: "(yuv_call \<Rightarrow> int) \<Rightarrow> int \<Rightarrow> int \<Rightarrow> pixel_buffer \<Rightarrow> plane list \<Rightarrow> (pixel_buffer \<times> yuv_call list) option" where
  "I444_Copy_planes libyuv width height source ps = do {
     buffer \<leftarrow> I444_create width height;
     c \<leftarrow> yuv_checked libyuv (YuvCopy kI444) source ps (width, height) buffer;
     Some (buffer, [c])
   }"

definition I444_Copy :: "(yuv_call \<Rightarrow> int) \<Rightarrow> pixel_buffer \<Rightarrow> (pixel_buffer \<times> yuv_call list) option" where
  "I444_Copy libyuv source = do { ps \<leftarrow> pointers source; I444_Copy_planes libyuv (bf_width source) (bf_height source) source ps }"

definition I010_Copy :: "(yuv_call \<Rightarrow> int) \<Rightarrow> pixel_buffer \<Rightarrow> (pixel_buffer \<times> yuv_call list) option" where
  "I010_Copy libyuv source = do {
     let width = bf_width source; let height = bf_height source;
     buffer \<leftarrow> I010_create width height;
     ps \<leftarrow> pointers source;
     c \<leftarrow> yuv_checked libyuv (YuvCopy kI010) source ps (width, height) buffer;
     Some (buffer, [c])
   }"

definition I010_from_I420 :: "(yuv_call \<Rightarrow> int) \<Rightarrow> pixel_buffer \<Rightarrow> (pixel_buffer \<times> yuv_call list) option" where
  "I010_from_I420 libyuv source = do {
     let width = bf_width source; let height = bf_height source;
     buffer \<leftarrow> I010_create width height;
     ps \<leftarrow> pointers source;
     c \<leftarrow> yuv_checked libyuv (YuvConvert kI420 kI010) source ps (width, height) buffer;
     Some (buffer, [c])
   }"

definition I210_Copy :: "(yuv_call \<Rightarrow> int) \<Rightarrow> pixel_buffer \<Rightarrow> (pixel_buffer \<times> yuv_call list) option" where
  "I210_Copy libyuv source = do {
     let width = bf_width source; let height = bf_height source;
     buffer \<leftarrow> I210_create width height;
     ps \<leftarrow> pointers source;
     c \<leftarrow> yuv_checked libyuv (YuvCopy kI210) source ps (width, height) buffer;
     Some (buffer, [c])
   }"

definition I210_from_I420 :: "(yuv_call \<Rightarrow> int) \<Rightarrow> pixel_buffer \<Rightarrow> (pixel_buffer \<times> yuv_call list) option" where
  "I210_from_I420 libyuv source = do {
     let width = bf_width source; let height = bf_height source;
     (i422buffer, cs) \<leftarrow> I422_from_I420 libyuv source;
     buffer \<leftarrow> I210_create width height;
     ps \<leftarrow> pointers i422buffer;
     c \<leftarrow> yuv_checked libyuv (YuvConvert kI422 kI210) i422buffer ps (width, height) buffer;
     Some (buffer, cs @ [c])
   }"

definition I410_Copy_planes :: "(yuv_call \<Rightarrow> int) \<Rightarrow> int \<Rightarrow> int \<Rightarrow> pixel_buffer \<Rightarrow> plane list \<Rightarrow> (pixel_buffer \<times> yuv_call list) option" where
  "I410_Copy_planes libyuv width height source ps = do {
     buffer \<leftarrow> I410_create width height;
     c \<leftarrow> yuv_checked libyuv (YuvCopy kI410) source ps (width, height) buffer;
     Some (buffer, [c])
   }"

definition I410_Copy :: "(yuv_call \<Rightarrow> int) \<Rightarrow> pixel_buffer \<Rightarrow> (pixel_buffer \<times> yuv_call list) option" where
  "I410_Copy libyuv source = do { ps \<leftarrow> pointers source; I410_Copy_planes libyuv (bf_width source) (bf_height source) source ps }"

definition NV12_from_I420 :: "pixel_buffer \<Rightarrow> (pixel_buffer \<times> yuv_call list) option" where
  "NV12_from_I420 i420_buffer = do {
     buffer \<leftarrow> NV12_create (bf_width i420_buffer) (bf_height i420_buffer);
     ps \<leftarrow> pointers i420_buffer;
     let wh = (bf_width buffer, bf_height buffer);
     c \<leftarrow> yuv (YuvConvert kI420 kNV12) i420_buffer ps wh buffer;
     Some (buffer, [c])
   }"

text \<open>The size after a rotation.\<close>

definition rotated_size :: "VideoRotation \<Rightarrow> pixel_buffer \<Rightarrow> int \<times> int" where
  "rotated_size rot src = (if rot = kAngle90 \<or> rot = kAngle270 then (bf_height src, bf_width src) else (bf_width src, bf_height src))"

definition I420_Rotate :: "(yuv_call \<Rightarrow> int) \<Rightarrow> VideoRotation \<Rightarrow> pixel_buffer \<Rightarrow> (pixel_buffer \<times> yuv_call list) option" where
  "I420_Rotate libyuv rot src = do {
     let wh = rotated_size rot src;
     buffer \<leftarrow> I420_create (fst wh) (snd wh);
     ps \<leftarrow> pointers src;
     c \<leftarrow> yuv_checked libyuv (YuvRotate kI420 rot) src ps (bf_width src, bf_height src) buffer;
     Some (buffer, [c])
   }"

definition I422_Rotate :: "(yuv_call \<Rightarrow> int) \<Rightarrow> VideoRotation \<Rightarrow> pixel_buffer \<Rightarrow> (pixel_buffer \<times> yuv_call list) option" where
  "I422_Rotate libyuv rot src = do {
     let wh = rotated_size rot src;
     buffer \<leftarrow> I422_create (fst wh) (snd wh);
     ps \<leftarrow> pointers src;
     c \<leftarrow> yuv_checked libyuv (YuvRotate kI422 rot) src ps (bf_width src, bf_height src) buffer;
     Some (buffer, [c])
   }"

definition I444_Rotate :: "(yuv_call \<Rightarrow> int) \<Rightarrow> VideoRotation \<Rightarrow> pixel_buffer \<Rightarrow> (pixel_buffer \<times> yuv_call list) option" where
  "I444_Rotate libyuv rot src = do {
     let wh = rotated_size rot src;
     buffer \<leftarrow> I444_create (fst wh) (snd wh);
     ps \<leftarrow> pointers src;
     c \<leftarrow> yuv_checked libyuv (YuvRotate kI444 rot) src ps (bf_width src, bf_height src) buffer;
     Some (buffer, [c])
   }"

definition I010_Rotate :: "(yuv_call \<Rightarrow> int) \<Rightarrow> VideoRotation \<Rightarrow> pixel_buffer \<Rightarrow> (pixel_buffer \<times> yuv_call list) option" where
  "I010_Rotate libyuv rot src = (if rot = kAngle0 then I010_Copy libyuv src else do {
     let wh = rotated_size rot src;
     buffer \<leftarrow> I010_create (fst wh) (snd wh);
     ps \<leftarrow> pointers src;
     c \<leftarrow> yuv_checked libyuv (YuvRotate kI010 rot) src ps (bf_width src, bf_height src) buffer;
     Some (buffer, [c])
   })"

definition I210_Rotate :: "(yuv_call \<Rightarrow> int) \<Rightarrow> VideoRotation \<Rightarrow> pixel_buffer \<Rightarrow> (pixel_buffer \<times> yuv_call list) option" where
  "I210_Rotate libyuv rot src = do {
     let wh = rotated_size rot src;
     buffer \<leftarrow> I210_create (fst wh) (snd wh);
     ps \<leftarrow> pointers src;
     c \<leftarrow> yuv_checked libyuv (YuvRotate kI210 rot) src ps (bf_width src, bf_height src) buffer;
     Some (buffer, [c])
   }"

definition I410_Rotate :: "(yuv_call \<Rightarrow> int) \<Rightarrow> VideoRotation \<Rightarrow> pixel_buffer \<Rightarrow> (pixel_buffer \<times> yuv_call list) option" where
  "I410_Rotate libyuv rot src = do {
     let wh = rotated_size rot src;
     buffer \<leftarrow> I410_create (fst wh) (snd wh);
     ps \<leftarrow> pointers src;
     c \<leftarrow> yuv_checked libyuv (YuvRotate kI410 rot) src ps (bf_width src, bf_height src) buffer;
     Some (buffer, [c])
   }"

text \<open>\<open>toI420\<close>. The results of libyuv are ignored for I444, I210 and NV12.\<close>

definition I420_toI420 :: "(yuv_call \<Rightarrow> int) \<Rightarrow> pixel_buffer \<Rightarrow> (pixel_buffer \<times> yuv_call list) option" where
  "I420_toI420 libyuv b = I420_Copy libyuv b"

definition I422_toI420 :: "(yuv_call \<Rightarrow> int) \<Rightarrow> pixel_buffer \<Rightarrow> (pixel_buffer \<times> yuv_call list) option" where
  "I422_toI420 libyuv b = do {
     i420_buffer \<leftarrow> I420_create (bf_width b) (bf_height b);
     ps \<leftarrow> pointers b;
     c \<leftarrow> yuv_checked libyuv (YuvConvert kI422 kI420) b ps (bf_width b, bf_height b) i420_buffer;
     Some (i420_buffer, [c])
   }"

definition I444_toI420 :: "pixel_buffer \<Rightarrow> (pixel_buffer \<times> yuv_call list) option" where
  "I444_toI420 b = do {
     i420_buffer \<leftarrow> I420_create (bf_width b) (bf_height b);
     ps \<leftarrow> pointers b;
     c \<leftarrow> yuv (YuvConvert kI444 kI420) b ps (bf_width b, bf_height b) i420_buffer;
     Some (i420_buffer, [c])
   }"

definition I010_toI420 :: "(yuv_call \<Rightarrow> int) \<Rightarrow> pixel_buffer \<Rightarrow> (pixel_buffer \<times> yuv_call list) option" where
  "I010_toI420 libyuv b = do {
     i420_buffer \<leftarrow> I420_create (bf_width b) (bf_height b);
     ps \<leftarrow> pointers b;
     c \<leftarrow> yuv_checked libyuv (YuvConvert kI010 kI420) b ps (bf_width b, bf_height b) i420_buffer;
     Some (i420_buffer, [c])
   }"

definition I210_toI420 :: "pixel_buffer \<Rightarrow> (pixel_buffer \<times> yuv_call list) option" where
  "I210_toI420 b = do {
     i420_buffer \<leftarrow> I420_create (bf_width b) (bf_height b);
     ps \<leftarrow> pointers b;
     c \<leftarrow> yuv (YuvConvert kI210 kI420) b ps (bf_width b, bf_height b) i420_buffer;
     Some (i420_buffer, [c])
   }"

definition I410_toI420 :: "(yuv_call \<Rightarrow> int) \<Rightarrow> pixel_buffer \<Rightarrow> (pixel_buffer \<times> yuv_call list) option" where
  "I410_toI420 libyuv b = do {
     i420_buffer \<leftarrow> I420_create (bf_width b) (bf_height b);
     ps \<leftarrow> pointers b;
     c \<leftarrow> yuv_checked libyuv (YuvConvert kI410 kI420) b ps (bf_width b, bf_height b) i420_buffer;
     Some (i420_buffer, [c])
   }"

definition NV12_toI420 :: "pixel_buffer \<Rightarrow> (pixel_buffer \<times> yuv_call list) option" where
  "NV12_toI420 b = do {
     i420_buffer \<leftarrow> I420_create (bf_width b) (bf_height b);
     ps \<leftarrow> pointers b;
     c \<leftarrow> yuv (YuvConvert kNV12 kI420) b ps (bf_width b, bf_height b) i420_buffer;
     Some (i420_buffer, [c])
   }"

text \<open>\<open>SetBlack\<close> has no source.\<close>

definition SetBlack :: "(yuv_call \<Rightarrow> int) \<Rightarrow> pixel_buffer \<Rightarrow> yuv_call option" where
  "SetBlack libyuv b = yuv_checked libyuv (YuvRect (bf_width b) (bf_height b)) b [] (0, 0) b"


section \<open>Cropping and scaling\<close>

text \<open>The checks that all versions of \<open>cropAndScaleFrom\<close> begin with.\<close>

definition check_crop :: "pixel_buffer \<Rightarrow> int \<Rightarrow> int \<Rightarrow> int \<Rightarrow> int \<Rightarrow> unit option" where
  "check_crop src offsetX offsetY cropWidth cropHeight = do {
     dcheck (cropWidth \<le> bf_width src);
     dcheck (cropHeight \<le> bf_height src);
     right \<leftarrow> int32 (cropWidth + offsetX);
     dcheck (right \<le> bf_width src);
     bottom \<leftarrow> int32 (cropHeight + offsetY);
     dcheck (bottom \<le> bf_height src);
     dcheck (0 \<le> offsetX);
     dcheck (0 \<le> offsetY)
   }"

definition plane_at :: "int option \<Rightarrow> int \<Rightarrow> int \<Rightarrow> int \<Rightarrow> int option" where
  "plane_at base stride y x = do { p \<leftarrow> base; r \<leftarrow> int32 (stride * y); Some (p + r + x) }"

definition I420_cropAndScaleFrom :: "(yuv_call \<Rightarrow> int) \<Rightarrow> pixel_buffer \<Rightarrow> pixel_buffer \<Rightarrow> int \<Rightarrow> int \<Rightarrow> int \<Rightarrow> int \<Rightarrow> yuv_call option" where
  "I420_cropAndScaleFrom libyuv dst src offsetX offsetY cropWidth cropHeight = do {
     check_crop src offsetX offsetY cropWidth cropHeight;
     uv_offset_x \<leftarrow> div32 offsetX 2;
     uv_offset_y \<leftarrow> div32 offsetY 2;
     offsetX \<leftarrow> int32 (uv_offset_x * 2);
     offsetY \<leftarrow> int32 (uv_offset_y * 2);
     y \<leftarrow> plane_at (dataY src) (strideY src) offsetY offsetX;
     u \<leftarrow> plane_at (dataU src) (strideU src) uv_offset_y uv_offset_x;
     v \<leftarrow> plane_at (dataV src) (strideV src) uv_offset_y uv_offset_x;
     yuv_checked libyuv (YuvScale kI420 (bf_width dst) (bf_height dst)) src [(y, strideY src), (u, strideU src), (v, strideV src)] (cropWidth, cropHeight) dst
   }"

definition I422_cropAndScaleFrom :: "(yuv_call \<Rightarrow> int) \<Rightarrow> pixel_buffer \<Rightarrow> pixel_buffer \<Rightarrow> int \<Rightarrow> int \<Rightarrow> int \<Rightarrow> int \<Rightarrow> yuv_call option" where
  "I422_cropAndScaleFrom libyuv dst src offsetX offsetY cropWidth cropHeight = do {
     check_crop src offsetX offsetY cropWidth cropHeight;
     uv_offset_x \<leftarrow> div32 offsetX 2;
     offsetX \<leftarrow> int32 (uv_offset_x * 2);
     y \<leftarrow> plane_at (dataY src) (strideY src) offsetY offsetX;
     u \<leftarrow> plane_at (dataU src) (strideU src) offsetY uv_offset_x;
     v \<leftarrow> plane_at (dataV src) (strideV src) offsetY uv_offset_x;
     yuv_checked libyuv (YuvScale kI422 (bf_width dst) (bf_height dst)) src [(y, strideY src), (u, strideU src), (v, strideV src)] (cropWidth, cropHeight) dst
   }"

definition I444_cropAndScaleFrom :: "(yuv_call \<Rightarrow> int) \<Rightarrow> pixel_buffer \<Rightarrow> pixel_buffer \<Rightarrow> int \<Rightarrow> int \<Rightarrow> int \<Rightarrow> int \<Rightarrow> yuv_call option" where
  "I444_cropAndScaleFrom libyuv dst src offsetX offsetY cropWidth cropHeight = do {
     check_crop src offsetX offsetY cropWidth cropHeight;
     y \<leftarrow> plane_at (dataY src) (strideY src) offsetY offsetX;
     u \<leftarrow> plane_at (dataU src) (strideU src) offsetY offsetX;
     v \<leftarrow> plane_at (dataV src) (strideV src) offsetY offsetX;
     yuv_checked libyuv (YuvScale kI444 (bf_width dst) (bf_height dst)) src [(y, strideY src), (u, strideU src), (v, strideV src)] (cropWidth, cropHeight) dst
   }"

definition I010_cropAndScaleFrom :: "(yuv_call \<Rightarrow> int) \<Rightarrow> pixel_buffer \<Rightarrow> pixel_buffer \<Rightarrow> int \<Rightarrow> int \<Rightarrow> int \<Rightarrow> int \<Rightarrow> yuv_call option" where
  "I010_cropAndScaleFrom libyuv dst src offsetX offsetY cropWidth cropHeight = do {
     check_crop src offsetX offsetY cropWidth cropHeight;
     uv_offset_x \<leftarrow> div32 offsetX 2;
     uv_offset_y \<leftarrow> div32 offsetY 2;
     offsetX \<leftarrow> int32 (uv_offset_x * 2);
     offsetY \<leftarrow> int32 (uv_offset_y * 2);
     y \<leftarrow> plane_at (dataY src) (strideY src) offsetY offsetX;
     u \<leftarrow> plane_at (dataU src) (strideU src) uv_offset_y uv_offset_x;
     v \<leftarrow> plane_at (dataV src) (strideV src) uv_offset_y uv_offset_x;
     yuv_checked libyuv (YuvScale kI010 (bf_width dst) (bf_height dst)) src [(y, strideY src), (u, strideU src), (v, strideV src)] (cropWidth, cropHeight) dst
   }"

definition I210_cropAndScaleFrom :: "(yuv_call \<Rightarrow> int) \<Rightarrow> pixel_buffer \<Rightarrow> pixel_buffer \<Rightarrow> int \<Rightarrow> int \<Rightarrow> int \<Rightarrow> int \<Rightarrow> yuv_call option" where
  "I210_cropAndScaleFrom libyuv dst src offsetX offsetY cropWidth cropHeight = do {
     check_crop src offsetX offsetY cropWidth cropHeight;
     dcheck (0 \<le> cropWidth);
     dcheck (0 \<le> cropHeight);
     uv_offset_x \<leftarrow> div32 offsetX 2;
     offsetX \<leftarrow> int32 (uv_offset_x * 2);
     y \<leftarrow> plane_at (dataY src) (strideY src) offsetY offsetX;
     u \<leftarrow> plane_at (dataU src) (strideU src) offsetY uv_offset_x;
     v \<leftarrow> plane_at (dataV src) (strideV src) offsetY uv_offset_x;
     yuv_checked libyuv (YuvScale kI210 (bf_width dst) (bf_height dst)) src [(y, strideY src), (u, strideU src), (v, strideV src)] (cropWidth, cropHeight) dst
   }"

definition I410_cropAndScaleFrom :: "(yuv_call \<Rightarrow> int) \<Rightarrow> pixel_buffer \<Rightarrow> pixel_buffer \<Rightarrow> int \<Rightarrow> int \<Rightarrow> int \<Rightarrow> int \<Rightarrow> yuv_call option" where
  "I410_cropAndScaleFrom libyuv dst src offsetX offsetY cropWidth cropHeight = do {
     check_crop src offsetX offsetY cropWidth cropHeight;
     y \<leftarrow> plane_at (dataY src) (strideY src) offsetY offsetX;
     u \<leftarrow> plane_at (dataU src) (strideU src) offsetY offsetX;
     v \<leftarrow> plane_at (dataV src) (strideV src) offsetY offsetX;
     yuv_checked libyuv (YuvScale kI410 (bf_width dst) (bf_height dst)) src [(y, strideY src), (u, strideU src), (v, strideV src)] (cropWidth, cropHeight) dst
   }"

definition NV12_cropAndScaleFrom :: "(yuv_call \<Rightarrow> int) \<Rightarrow> pixel_buffer \<Rightarrow> pixel_buffer \<Rightarrow> int \<Rightarrow> int \<Rightarrow> int \<Rightarrow> int \<Rightarrow> yuv_call option" where
  "NV12_cropAndScaleFrom libyuv dst src offsetX offsetY cropWidth cropHeight = do {
     check_crop src offsetX offsetY cropWidth cropHeight;
     uv_offset_x \<leftarrow> div32 offsetX 2;
     uv_offset_y \<leftarrow> div32 offsetY 2;
     offsetX \<leftarrow> int32 (uv_offset_x * 2);
     offsetY \<leftarrow> int32 (uv_offset_y * 2);
     y \<leftarrow> plane_at (dataY src) (strideY src) offsetY offsetX;
     x \<leftarrow> int32 (uv_offset_x * 2);
     uv \<leftarrow> plane_at (UVOffset src) (strideU src) uv_offset_y x;
     yuv_checked libyuv (YuvScale kNV12 (bf_width dst) (bf_height dst)) src [(y, strideY src), (uv, strideU src)] (cropWidth, cropHeight) dst
   }"

text \<open>The version that crops the middle of the source to the shape of the destination, and \<open>scaleFrom\<close>.\<close>

definition I420_cropAndScaleCenter :: "(yuv_call \<Rightarrow> int) \<Rightarrow> pixel_buffer \<Rightarrow> pixel_buffer \<Rightarrow> yuv_call option" where
  "I420_cropAndScaleCenter libyuv dst src = do {
     let width = bf_width dst; let height = bf_height dst;
     cropWidth \<leftarrow> (if 0 < height then do { x \<leftarrow> int32 (width * bf_height src); x \<leftarrow> div32 x height; Some (min (bf_width src) x) }
       else Some (bf_width src));
     cropHeight \<leftarrow> (if 0 < width then do { x \<leftarrow> int32 (height * bf_width src); x \<leftarrow> div32 x width; Some (min (bf_height src) x) }
       else Some (bf_height src));
     dx \<leftarrow> int32 (bf_width src - cropWidth);
     x \<leftarrow> div32 dx 2;
     dy \<leftarrow> int32 (bf_height src - cropHeight);
     y \<leftarrow> div32 dy 2;
     I420_cropAndScaleFrom libyuv dst src x y cropWidth cropHeight
   }"

definition I420_scaleFrom :: "(yuv_call \<Rightarrow> int) \<Rightarrow> pixel_buffer \<Rightarrow> pixel_buffer \<Rightarrow> yuv_call option" where
  "I420_scaleFrom libyuv dst src = I420_cropAndScaleFrom libyuv dst src 0 0 (bf_width src) (bf_height src)"

definition I010_scaleFrom :: "(yuv_call \<Rightarrow> int) \<Rightarrow> pixel_buffer \<Rightarrow> pixel_buffer \<Rightarrow> yuv_call option" where
  "I010_scaleFrom libyuv dst src = I010_cropAndScaleFrom libyuv dst src 0 0 (bf_width src) (bf_height src)"

definition I210_scaleFrom :: "(yuv_call \<Rightarrow> int) \<Rightarrow> pixel_buffer \<Rightarrow> pixel_buffer \<Rightarrow> yuv_call option" where
  "I210_scaleFrom libyuv dst src = I210_cropAndScaleFrom libyuv dst src 0 0 (bf_width src) (bf_height src)"

definition I410_scaleFrom :: "(yuv_call \<Rightarrow> int) \<Rightarrow> pixel_buffer \<Rightarrow> pixel_buffer \<Rightarrow> yuv_call option" where
  "I410_scaleFrom libyuv dst src = I410_cropAndScaleFrom libyuv dst src 0 0 (bf_width src) (bf_height src)"

subsection \<open>The virtual methods\<close>

definition create_buffer :: "format \<Rightarrow> int \<Rightarrow> int \<Rightarrow> pixel_buffer option" where
  "create_buffer f = (case f of kI420 \<Rightarrow> I420_create | kI422 \<Rightarrow> I422_create | kI444 \<Rightarrow> I444_create | kI010 \<Rightarrow> I010_create
     | kI210 \<Rightarrow> I210_create | kI410 \<Rightarrow> I410_create | kNV12 \<Rightarrow> NV12_create)"

definition toI420 :: "(yuv_call \<Rightarrow> int) \<Rightarrow> pixel_buffer \<Rightarrow> (pixel_buffer \<times> yuv_call list) option" where
  "toI420 libyuv b = (case bf_type b of
     kI420 \<Rightarrow> I420_toI420 libyuv b | kI422 \<Rightarrow> I422_toI420 libyuv b | kI444 \<Rightarrow> I444_toI420 b | kI010 \<Rightarrow> I010_toI420 libyuv b
   | kI210 \<Rightarrow> I210_toI420 b | kI410 \<Rightarrow> I410_toI420 libyuv b | kNV12 \<Rightarrow> NV12_toI420 b)"

definition cropAndScaleFrom :: "(yuv_call \<Rightarrow> int) \<Rightarrow> pixel_buffer \<Rightarrow> pixel_buffer \<Rightarrow> int \<Rightarrow> int \<Rightarrow> int \<Rightarrow> int \<Rightarrow> yuv_call option" where
  "cropAndScaleFrom libyuv dst = (case bf_type dst of
     kI420 \<Rightarrow> I420_cropAndScaleFrom libyuv dst | kI422 \<Rightarrow> I422_cropAndScaleFrom libyuv dst | kI444 \<Rightarrow> I444_cropAndScaleFrom libyuv dst
   | kI010 \<Rightarrow> I010_cropAndScaleFrom libyuv dst | kI210 \<Rightarrow> I210_cropAndScaleFrom libyuv dst | kI410 \<Rightarrow> I410_cropAndScaleFrom libyuv dst
   | kNV12 \<Rightarrow> NV12_cropAndScaleFrom libyuv dst)"

text \<open>\<open>cropAndScale\<close>: I444, I422 and NV12 keep their format, other buffers are converted to I420 first.\<close>

definition base_cropAndScale :: "(yuv_call \<Rightarrow> int) \<Rightarrow> pixel_buffer \<Rightarrow> int \<Rightarrow> int \<Rightarrow> int \<Rightarrow> int \<Rightarrow> int \<Rightarrow> int \<Rightarrow> (pixel_buffer \<times> yuv_call list) option" where
  "base_cropAndScale libyuv b offsetX offsetY cropWidth cropHeight scaledWidth scaledHeight = do {
     result \<leftarrow> I420_create scaledWidth scaledHeight;
     (i420, cs) \<leftarrow> toI420 libyuv b;
     c \<leftarrow> I420_cropAndScaleFrom libyuv result i420 offsetX offsetY cropWidth cropHeight;
     Some (result, cs @ [c])
   }"

definition I444_cropAndScale :: "(yuv_call \<Rightarrow> int) \<Rightarrow> pixel_buffer \<Rightarrow> int \<Rightarrow> int \<Rightarrow> int \<Rightarrow> int \<Rightarrow> int \<Rightarrow> int \<Rightarrow> (pixel_buffer \<times> yuv_call list) option" where
  "I444_cropAndScale libyuv b offsetX offsetY cropWidth cropHeight scaledWidth scaledHeight = do {
     result \<leftarrow> I444_create scaledWidth scaledHeight;
     c \<leftarrow> I444_cropAndScaleFrom libyuv result b offsetX offsetY cropWidth cropHeight;
     Some (result, [c])
   }"

definition I422_cropAndScale :: "(yuv_call \<Rightarrow> int) \<Rightarrow> pixel_buffer \<Rightarrow> int \<Rightarrow> int \<Rightarrow> int \<Rightarrow> int \<Rightarrow> int \<Rightarrow> int \<Rightarrow> (pixel_buffer \<times> yuv_call list) option" where
  "I422_cropAndScale libyuv b offsetX offsetY cropWidth cropHeight scaledWidth scaledHeight = do {
     result \<leftarrow> I422_create scaledWidth scaledHeight;
     c \<leftarrow> I422_cropAndScaleFrom libyuv result b offsetX offsetY cropWidth cropHeight;
     Some (result, [c])
   }"

definition NV12_cropAndScale :: "(yuv_call \<Rightarrow> int) \<Rightarrow> pixel_buffer \<Rightarrow> int \<Rightarrow> int \<Rightarrow> int \<Rightarrow> int \<Rightarrow> int \<Rightarrow> int \<Rightarrow> (pixel_buffer \<times> yuv_call list) option" where
  "NV12_cropAndScale libyuv b offsetX offsetY cropWidth cropHeight scaledWidth scaledHeight = do {
     result \<leftarrow> NV12_create scaledWidth scaledHeight;
     c \<leftarrow> NV12_cropAndScaleFrom libyuv result b offsetX offsetY cropWidth cropHeight;
     Some (result, [c])
   }"

definition cropAndScale :: "(yuv_call \<Rightarrow> int) \<Rightarrow> pixel_buffer \<Rightarrow> int \<Rightarrow> int \<Rightarrow> int \<Rightarrow> int \<Rightarrow> int \<Rightarrow> int \<Rightarrow> (pixel_buffer \<times> yuv_call list) option" where
  "cropAndScale libyuv b = (case bf_type b of
     kI444 \<Rightarrow> I444_cropAndScale libyuv b | kI422 \<Rightarrow> I422_cropAndScale libyuv b | kNV12 \<Rightarrow> NV12_cropAndScale libyuv b
   | _ \<Rightarrow> base_cropAndScale libyuv b)"

definition scale :: "(yuv_call \<Rightarrow> int) \<Rightarrow> pixel_buffer \<Rightarrow> int \<Rightarrow> int \<Rightarrow> (pixel_buffer \<times> yuv_call list) option" where
  "scale libyuv b scaledWidth scaledHeight = cropAndScale libyuv b 0 0 (bf_width b) (bf_height b) scaledWidth scaledHeight"

end
