(* ===== verification/FrameBufferSafety.thy ===== *)
theory FrameBufferSafety
  imports FrameBuffers
begin

text \<open>
  Memory safety of the frame buffers of \<open>FrameBuffers\<close>: the layout of the planes in the allocated memory, and where the calls
  of libyuv read and write. What libyuv does is stated as the sets \<open>call_reads\<close> and \<open>call_writes\<close> of samples; that it accepts
  images of positive size is the hypothesis \<open>libyuv_accepts\<close>.
\<close>

section \<open>The layout of a buffer\<close>

text \<open>The columns and rows of the planes of an image, as libyuv reads and writes them: the colours of subsampled formats have
  half the columns or rows, rounded up. In NV12 each column of colour is two samples.\<close>

definition chroma_cols :: "format \<Rightarrow> int \<Rightarrow> int" where
  "chroma_cols f w = (case f of kI444 \<Rightarrow> w | kI410 \<Rightarrow> w | kNV12 \<Rightarrow> 2 * ((w + 1) div 2) | _ \<Rightarrow> (w + 1) div 2)"

definition chroma_rows :: "format \<Rightarrow> int \<Rightarrow> int" where
  "chroma_rows f h = (if f \<in> {kI420, kI010, kNV12} then (h + 1) div 2 else h)"

fun plane_sizes :: "format \<Rightarrow> int \<times> int \<Rightarrow> (int \<times> int) list" where
  "plane_sizes f (w, h) = (if f = kNV12 then [(w, h), (chroma_cols f w, chroma_rows f h)]
     else [(w, h), (chroma_cols f w, chroma_rows f h), (chroma_cols f w, chroma_rows f h)])"

fun samples :: "plane \<Rightarrow> int \<times> int \<Rightarrow> int set" where
  "samples (p, stride) (cols, rows) = {p + r * stride + c | r c. 0 \<le> r \<and> r < rows \<and> 0 \<le> c \<and> c < cols}"

definition sample_bytes :: "format \<Rightarrow> int" where
  "sample_bytes f = (if f \<in> {kI010, kI210, kI410} then kBytesPerPixel else 1)"

definition memory :: "pixel_buffer \<Rightarrow> int set list" where
  "memory b = (case pointers b of None \<Rightarrow> [] | Some ps \<Rightarrow> map2 samples ps (plane_sizes (bf_type b) (bf_width b, bf_height b)))"

definition construct :: "format \<Rightarrow> int \<Rightarrow> int \<Rightarrow> int \<Rightarrow> int \<Rightarrow> int \<Rightarrow> pixel_buffer option" where
  "construct f w h sy su sv = (case f of kI420 \<Rightarrow> I420Buffer w h sy su sv | kI422 \<Rightarrow> I422Buffer w h sy su sv | kI444 \<Rightarrow> I444Buffer w h sy su sv
     | kI010 \<Rightarrow> I010Buffer w h sy su sv | kI210 \<Rightarrow> I210Buffer w h sy su sv | kI410 \<Rightarrow> I410Buffer w h sy su sv | kNV12 \<Rightarrow> NV12Buffer w h sy su)"

lemmas buffer_constructors = I420Buffer_def I422Buffer_def I444Buffer_def I010Buffer_def I210Buffer_def I410Buffer_def NV12Buffer_def
lemmas data_sizes = I420DataSize_def I422DataSize_def I444DataSize_def I010DataSize_def I210DataSize_def I410DataSize_def NV12DataSize_def
lemmas chroma_defs = chroma_cols_def chroma_rows_def sample_bytes_def kBytesPerPixel_def
lemmas bind_Some = Option.bind_eq_Some_conv

definition total_samples :: "pixel_buffer \<Rightarrow> int" where
  "total_samples b = strideY b * bf_height b + strideU b * chroma_rows (bf_type b) (bf_height b) +
     (if bf_type b = kNV12 then 0 else strideV b * chroma_rows (bf_type b) (bf_height b))"

definition buffer_ok :: "pixel_buffer \<Rightarrow> bool" where
  "buffer_ok b \<longleftrightarrow> 0 < bf_width b \<and> 0 < bf_height b \<and> bf_width b < int32_max \<and> bf_height b < int32_max \<and> bf_width b \<le> strideY b \<and>
     chroma_cols (bf_type b) (bf_width b) \<le> strideU b \<and> chroma_cols (bf_type b) (bf_width b) \<le> strideV b \<and>
     bf_size b = sample_bytes (bf_type b) * total_samples b \<and> bf_size b \<le> int32_max"

lemma half_up_pos: "0 < x \<Longrightarrow> half_up x = (if x < int32_max then Some ((x + 1) div 2) else None)"
  by (auto simp: half_up_def int32_def in_int32_def int_range_defs div32_nonneg)

lemma even_up: "0 < x \<Longrightarrow> x + x smod 2 = 2 * ((x + 1) div (2 :: int))"
  by (simp add: smod_nonneg) presburger

lemma check_half_Some:
  "check_half w h sy su sv = Some u \<longleftrightarrow> 0 < w \<and> 0 < h \<and> w < int32_max \<and> w \<le> sy \<and> (w + 1) div 2 \<le> su \<and> (w + 1) div 2 \<le> sv"
  by (auto simp: check_half_def bind_Some dcheck_eq_Some_iff half_up_pos split: if_splits)

lemma check_full_Some: "check_full w h sy su sv = Some u \<longleftrightarrow> 0 < w \<and> 0 < h \<and> w \<le> sy \<and> w \<le> su \<and> w \<le> sv"
  by (auto simp: check_full_def bind_Some dcheck_eq_Some_iff)

text \<open>The numbers of samples, for nonnegative strides.\<close>

lemma half_samples:
  assumes "0 < h" "0 \<le> sy" "0 \<le> su" "0 \<le> sv"
  shows "I420DataSize h sy su sv = Some s \<longleftrightarrow> h < int32_max \<and> su + sv \<le> int32_max \<and> s = sy * h + su * ((h + 1) div 2) + sv * ((h + 1) div 2) \<and> s \<le> int32_max"
proof -
  define y u v where d: "y = sy * h" "u = su * ((h + 1) div 2)" "v = sv * ((h + 1) div 2)"
  have "0 \<le> y" "0 \<le> u" "0 \<le> v" using assms by (simp_all add: d)
  then show ?thesis
    using assms unfolding d [symmetric]
    by (auto simp: I420DataSize_def bind_Some int32_eq_Some_iff sdiv_nonneg in_int32_def int_range_defs distrib_right d [symmetric])
qed

lemma full_samples:
  assumes "0 < h" "0 \<le> sy" "0 \<le> su" "0 \<le> sv"
  shows "I422DataSize h sy su sv = Some s \<longleftrightarrow> s = sy * h + su * h + sv * h \<and> s \<le> int32_max"
proof -
  define y u v where d: "y = sy * h" "u = su * h" "v = sv * h"
  have "0 \<le> y" "0 \<le> u" "0 \<le> v" using assms by (simp_all add: d)
  then show ?thesis
    unfolding d [symmetric] by (auto simp: I422DataSize_def bind_Some int32_eq_Some_iff in_int32_def int_range_defs d [symmetric])
qed

lemma nv12_samples:
  assumes "0 < h" "0 \<le> sy" "0 \<le> su"
  shows "NV12DataSize h sy su = Some s \<longleftrightarrow> h < int32_max \<and> s = sy * h + su * ((h + 1) div 2) \<and> s \<le> int32_max"
proof -
  define y u where d: "y = sy * h" "u = su * ((h + 1) div 2)"
  have "0 \<le> y" "0 \<le> u" using assms by (simp_all add: d)
  then show ?thesis
    using assms unfolding d [symmetric]
    by (auto simp: NV12DataSize_def bind_Some int32_eq_Some_iff half_up_pos in_int32_def int_range_defs d [symmetric] split: if_splits)
qed

lemma doubled: "0 \<le> s \<Longrightarrow> int32 (2 * s) = Some t \<longleftrightarrow> t = 2 * s \<and> 2 * s \<le> int32_max"
  by (auto simp: int32_eq_Some_iff in_int32_def int_range_defs)

lemma samples_ge:
  assumes "0 < w" "w \<le> sy" "(0 :: int) < h" "0 < su" "0 < sv" "0 < rows"
  shows "w < sy * h + su * rows + sv * rows" "h < sy * h + su * rows + sv * rows" "0 \<le> sy * h + su * rows + sv * rows"
proof -
  have "w * 1 \<le> sy * h" using assms by (intro mult_mono) simp_all
  moreover have "1 * h \<le> sy * h" using assms by (intro mult_right_mono) simp_all
  moreover have "0 < su * rows" "0 < sv * rows" using assms by simp_all
  ultimately show "w < sy * h + su * rows + sv * rows" "h < sy * h + su * rows + sv * rows" "0 \<le> sy * h + su * rows + sv * rows"
    using assms by linarith+
qed

lemma half_pos: "0 < x \<Longrightarrow> 0 < (x + 1) div (2 :: int)"
  by simp

lemma construct_half:
  assumes "f \<in> {kI420, kI422, kI010, kI210}" "construct f w h sy su sv = Some b"
  shows "buffer_ok b" "bf_type b = f" "bf_width b = w" "bf_height b = h"
proof -
  have c: "0 < w" "0 < h" "w < int32_max" "w \<le> sy" "(w + 1) div 2 \<le> su" "(w + 1) div 2 \<le> sv"
    using assms by (auto simp: construct_def buffer_constructors bind_Some check_half_Some)
  then have s: "0 < sy" "0 < su" "0 < sv" using half_pos [of w] by linarith+
  have s': "0 \<le> sy" "0 \<le> su" "0 \<le> sv" using s by simp_all
  have r: "0 < chroma_rows f h" using c(2) half_pos [of h] by (auto simp: chroma_rows_def)
  define n where "n = sy * h + su * chroma_rows f h + sv * chroma_rows f h"
  note g = samples_ge [OF c(1,4,2) s(2,3) r, folded n_def]
  have size1: "I420DataSize h sy su sv = Some t \<longleftrightarrow> h < int32_max \<and> su + sv \<le> int32_max \<and> t = n \<and> n \<le> int32_max" if "f \<in> {kI420, kI010}" for t
    using half_samples [OF c(2) s'] that by (auto simp: n_def chroma_rows_def)
  have size2: "I422DataSize h sy su sv = Some t \<longleftrightarrow> t = n \<and> n \<le> int32_max" if "f \<in> {kI422, kI210}" for t
    using full_samples [OF c(2) s'] that by (auto simp: n_def chroma_rows_def)
  have b: "\<exists>bytes. b = make_buffer f w h sy su sv bytes \<and> bytes = sample_bytes f * n \<and> bytes \<le> int32_max \<and> h < int32_max"
    using assms g by (auto simp: construct_def buffer_constructors bind_Some I010DataSize_def I210DataSize_def size1 size2 doubled sample_bytes_def kBytesPerPixel_def)
  then show "bf_type b = f" "bf_width b = w" "bf_height b = h" by (auto simp: make_buffer_def)
  show "buffer_ok b"
    using c assms(1) b by (auto simp: buffer_ok_def total_samples_def chroma_cols_def make_buffer_def n_def)
qed

lemma construct_full:
  assumes "f \<in> {kI444, kI410}" "construct f w h sy su sv = Some b"
  shows "buffer_ok b" "bf_type b = f" "bf_width b = w" "bf_height b = h"
proof -
  have c: "0 < w" "0 < h" "w \<le> sy" "w \<le> su" "w \<le> sv"
    using assms by (auto simp: construct_def buffer_constructors bind_Some check_full_Some)
  then have s: "0 < su" "0 < sv" "0 \<le> sy" "0 \<le> su" "0 \<le> sv" by linarith+
  define n where "n = sy * h + su * h + sv * h"
  note g = samples_ge [OF c(1,3,2) s(1,2) c(2), folded n_def]
  have size: "I422DataSize h sy su sv = Some t \<longleftrightarrow> t = n \<and> n \<le> int32_max" for t
    using full_samples [OF c(2) s(3-5)] by (auto simp: n_def)
  have b: "\<exists>bytes. b = make_buffer f w h sy su sv bytes \<and> bytes = sample_bytes f * n \<and> bytes \<le> int32_max \<and> n \<le> int32_max"
    using assms g(3) by (auto simp: construct_def buffer_constructors bind_Some I444DataSize_def I410DataSize_def size doubled sample_bytes_def kBytesPerPixel_def)
  then show "bf_type b = f" "bf_width b = w" "bf_height b = h" by (auto simp: make_buffer_def)
  show "buffer_ok b"
    using c assms(1) b g by (auto simp: buffer_ok_def total_samples_def chroma_cols_def chroma_rows_def make_buffer_def n_def)
qed

lemma construct_nv12:
  assumes "construct kNV12 w h sy su sv = Some b"
  shows "buffer_ok b" "bf_type b = kNV12" "bf_width b = w" "bf_height b = h"
proof -
  have c: "0 < w" "0 < h" "w \<le> sy" "2 * ((w + 1) div 2) \<le> su" "w < int32_max"
    using assms by (auto simp: construct_def buffer_constructors bind_Some dcheck_eq_Some_iff int32_eq_Some_iff mod32_def in_int32_def int_range_defs smod_nonneg)
      presburger+
  then have s: "0 \<le> sy" "0 \<le> su" using half_pos [of w] by linarith+
  have "\<exists>bytes. b = make_buffer kNV12 w h sy su su bytes \<and> NV12DataSize h sy su = Some bytes"
    using assms by (auto simp: construct_def buffer_constructors bind_Some)
  then obtain bytes where b: "b = make_buffer kNV12 w h sy su su bytes" "h < int32_max" "bytes = sy * h + su * ((h + 1) div 2)" "bytes \<le> int32_max"
    using nv12_samples [OF c(2) s] by blast
  then show "bf_type b = kNV12" "bf_width b = w" "bf_height b = h" by (simp_all add: make_buffer_def)
  show "buffer_ok b"
    using c b by (simp add: buffer_ok_def total_samples_def chroma_defs make_buffer_def)
qed

lemma construct_ok:
  assumes "construct f w h sy su sv = Some b"
  shows "buffer_ok b" "bf_type b = f" "bf_width b = w" "bf_height b = h"
  using assms construct_half [of f w h sy su sv b] construct_full [of f w h sy su sv b] construct_nv12 [of w h sy su sv b] by (cases f; simp)+

subsection \<open>Planes\<close>

lemma chroma_pos: "0 < x \<Longrightarrow> 0 < chroma_cols f x" "0 < x \<Longrightarrow> 0 < chroma_rows f x"
  using half_pos [of x] by (auto simp: chroma_cols_def chroma_rows_def split: format.splits)

lemma plane_end:
  assumes "q \<in> samples (p, stride) (cols, rows)" "cols \<le> stride"
  shows "p \<le> q" "q < p + rows * stride"
proof -
  obtain r c where q: "q = p + r * stride + c" "0 \<le> r" "r < rows" "0 \<le> c" "c < cols" using assms(1) by auto
  then have "0 \<le> r * stride" using assms(2) by simp
  then show "p \<le> q" using q by linarith
  have "(r + 1) * stride \<le> rows * stride" using q assms(2) by (intro mult_right_mono) simp_all
  then show "q < p + rows * stride" using q assms(2) by (simp add: distrib_right)
qed

lemma buffer_ok_strides:
  assumes "buffer_ok b"
  shows "0 < strideY b" "0 < strideU b" "0 < strideV b" "0 < chroma_rows (bf_type b) (bf_height b)"
  using assms chroma_pos [of "bf_width b" "bf_type b"] chroma_pos(2) [of "bf_height b" "bf_type b"] by (auto simp: buffer_ok_def)

lemma total_le_size:
  assumes "buffer_ok b"
  shows "0 \<le> total_samples b" "total_samples b * sample_bytes (bf_type b) = bf_size b" "total_samples b \<le> int32_max"
proof -
  show 1: "0 \<le> total_samples b" using buffer_ok_strides [OF assms] assms by (simp add: total_samples_def buffer_ok_def)
  show 2: "total_samples b * sample_bytes (bf_type b) = bf_size b" using assms by (simp add: buffer_ok_def mult.commute)
  show "total_samples b \<le> int32_max" using 1 2 assms by (auto simp: buffer_ok_def sample_bytes_def kBytesPerPixel_def split: if_splits)
qed

lemma pointers_ok:
  assumes "buffer_ok b"
  defines "rows \<equiv> chroma_rows (bf_type b) (bf_height b)"
  shows "dataY b = Some 0" "dataU b = Some (strideY b * bf_height b)" "UVOffset b = Some (strideY b * bf_height b)"
    "bf_type b \<noteq> kNV12 \<Longrightarrow> dataV b = Some (strideY b * bf_height b + strideU b * rows)"
    "pointers b = Some (if bf_type b = kNV12 then [(0, strideY b), (strideY b * bf_height b, strideU b)]
       else [(0, strideY b), (strideY b * bf_height b, strideU b), (strideY b * bf_height b + strideU b * rows, strideV b)])"
proof -
  note s = buffer_ok_strides [OF assms(1)]
  have h: "0 < bf_height b" "bf_height b < int32_max" using assms(1) by (simp_all add: buffer_ok_def)
  have n: "0 \<le> strideY b * bf_height b" "0 \<le> strideU b * rows" "0 \<le> strideV b * rows" using s h by (simp_all add: rows_def)
  then have i: "in_int32 (strideY b * bf_height b)" "in_int32 (strideU b * rows)"
    using total_le_size(3) [OF assms(1)] unfolding total_samples_def rows_def in_int32_def by (auto simp: int_range_defs split: if_splits)
  show y: "dataY b = Some 0" by (simp add: dataY_def)
  show u: "dataU b = Some (strideY b * bf_height b)" "UVOffset b = Some (strideY b * bf_height b)" using i(1) by (simp_all add: dataU_def UVOffset_def)
  show v: "dataV b = Some (strideY b * bf_height b + strideU b * rows)" if "bf_type b \<noteq> kNV12"
    using i h that by (auto simp: dataV_def half_up_pos rows_def chroma_rows_def)
  show "pointers b = Some (if bf_type b = kNV12 then [(0, strideY b), (strideY b * bf_height b, strideU b)]
       else [(0, strideY b), (strideY b * bf_height b, strideU b), (strideY b * bf_height b + strideU b * rows, strideV b)])"
    using y u v by (simp add: pointers_def)
qed

text \<open>What a call of libyuv reads and writes.\<close>

fun op_src :: "yuv_op \<Rightarrow> format option" where
  "op_src (YuvCopy f) = Some f"
| "op_src (YuvConvert f g) = Some f"
| "op_src (YuvRotate f rot) = Some f"
| "op_src (YuvScale f w h) = Some f"
| "op_src (YuvRect w h) = None"

fun op_dst :: "yuv_op \<Rightarrow> format" where
  "op_dst (YuvCopy f) = f"
| "op_dst (YuvConvert f g) = g"
| "op_dst (YuvRotate f rot) = f"
| "op_dst (YuvScale f w h) = f"
| "op_dst (YuvRect w h) = kI420"

fun written_size :: "yuv_op \<Rightarrow> int \<times> int \<Rightarrow> int \<times> int" where
  "written_size (YuvRotate f rot) (w, h) = (if rot \<in> {kAngle90, kAngle270} then (h, w) else (w, h))"
| "written_size (YuvScale f w h) _ = (w, h)"
| "written_size (YuvRect w h) _ = (w, h)"
| "written_size _ wh = wh"

definition call_reads :: "yuv_call \<Rightarrow> int set list" where
  "call_reads c = (case op_src (yc_op c) of None \<Rightarrow> [] | Some f \<Rightarrow> map2 samples (yc_src c) (plane_sizes f (yc_src_size c)))"

definition call_writes :: "yuv_call \<Rightarrow> int set list" where
  "call_writes c = map2 samples (yc_dst c) (plane_sizes (op_dst (yc_op c)) (written_size (yc_op c) (yc_src_size c)))"

text \<open>Each plane is read inside the same plane of the source, and each plane of the destination is written as a whole and nothing else.\<close>

definition call_inside :: "yuv_call \<Rightarrow> bool" where
  "call_inside c \<longleftrightarrow> (op_src (yc_op c) \<noteq> None \<longrightarrow> op_src (yc_op c) = Some (bf_type (yc_from c)) \<and> list_all2 (\<subseteq>) (call_reads c) (memory (yc_from c))) \<and>
     op_dst (yc_op c) = bf_type (yc_to c) \<and> call_writes c = memory (yc_to c)"

text \<open>libyuv accepts images with a positive size of at most 32768 in each direction.\<close>

definition yuv_size :: "int \<times> int \<Rightarrow> bool" where
  "yuv_size wh \<longleftrightarrow> 0 < fst wh \<and> fst wh \<le> 32768 \<and> 0 < snd wh \<and> snd wh \<le> 32768"

definition libyuv_accepts :: "(yuv_call \<Rightarrow> int) \<Rightarrow> bool" where
  "libyuv_accepts libyuv \<longleftrightarrow> (\<forall>c. (op_src (yc_op c) \<noteq> None \<longrightarrow> yuv_size (yc_src_size c)) \<and> yuv_size (written_size (yc_op c) (yc_src_size c)) \<longrightarrow> libyuv c = 0)"

lemma int32_bound: "0 < a \<Longrightarrow> a \<le> 268435456 \<Longrightarrow> 0 < b \<Longrightarrow> b \<le> 268435456 \<Longrightarrow> int32 (2 * (a + b + b)) \<noteq> None"
  by (simp add: int32_def in_int32_def int_range_defs)

lemma create_Some:
  assumes "0 < w" "w \<le> 16384" "0 < h" "h \<le> 16384"
  shows "\<exists>b. create_buffer f w h = Some b \<and> buffer_ok b \<and> bf_type b = f \<and> bf_width b = w \<and> bf_height b = h"
proof -
  define c d where cd: "c = (w + 1) div 2" "d = (h + 1) div 2"
  have r: "0 < c" "c \<le> 8192" "0 < d" "d \<le> 8192" "2 * c = w + w mod 2" using assms unfolding cd by (simp, linarith, simp, linarith, presburger)
  have p: "w * h \<le> 268435456" "c * h \<le> 134217728" "c * d \<le> 67108864"
    using mult_mono [of w 16384 h 16384] mult_mono [of c 8192 h 16384] mult_mono [of c 8192 d 8192] assms r by simp_all
  have h1: "half_up w = Some c" "half_up h = Some d" using assms by (simp_all add: half_up_pos cd int_range_defs)
  have m: "mod32 w 2 = Some (w mod 2)" "int32 (w + w mod 2) = Some (2 * c)"
    using assms r(1,2) by (simp_all add: r(5) [symmetric] mod32_def int_range_defs smod_nonneg int32_def in_int32_def)
  have s1: "I420DataSize h w c c = Some (w * h + c * d + c * d)" "I422DataSize h w c c = Some (w * h + c * h + c * h)"
      "I422DataSize h w w w = Some (w * h + w * h + w * h)" "NV12DataSize h w (2 * c) = Some (w * h + 2 * c * d)"
    using assms r(1-4) p p(1) [unfolded mult.commute [of w]] half_samples [of h w c c] full_samples [of h w c c] full_samples [of h w w w] nv12_samples [of h w "2 * c"]
    by (simp_all add: cd(2) [symmetric] int_range_defs)
  have s2: "int32 (2 * (w * h + c * d + c * d)) \<noteq> None" "int32 (2 * (w * h + c * h + c * h)) \<noteq> None" "int32 (2 * (w * h + w * h + w * h)) \<noteq> None"
    by (rule int32_bound [OF mult_pos_pos [OF assms(1,3)] p(1) mult_pos_pos [OF r(1,3)] order_trans [OF p(3)]], simp,
        rule int32_bound [OF mult_pos_pos [OF assms(1,3)] p(1) mult_pos_pos [OF r(1) assms(3)] order_trans [OF p(2)]], simp,
        rule int32_bound [OF mult_pos_pos [OF assms(1,3)] p(1) mult_pos_pos [OF assms(1,3)] p(1)])
  define sc where "sc = (case f of kI444 \<Rightarrow> w | kI410 \<Rightarrow> w | kNV12 \<Rightarrow> 2 * c | _ \<Rightarrow> c)"
  have k: "check_half w h w c c = Some ()" "check_full w h w w w = Some ()"
    using assms by (simp_all add: check_half_Some check_full_Some cd int_range_defs)
  have e: "create_buffer f w h = construct f w h w sc sc"
    using h1 m by (cases f) (simp_all add: create_buffer_def construct_def sc_def I420_create_def I422_create_def I444_create_def I010_create_def
        I210_create_def I410_create_def NV12_create_def)
  have "construct f w h w sc sc \<noteq> None"
    using assms s1 s2 k m by (cases f) (auto simp: construct_def buffer_constructors sc_def I444DataSize_def I010DataSize_def I210DataSize_def I410DataSize_def kBytesPerPixel_def)
  then show ?thesis using construct_ok [of f w h w sc sc] unfolding e by auto
qed

lemma memory_eq:
  "buffer_ok b \<Longrightarrow> pointers b = Some (the (pointers b)) \<and> memory b = map2 samples (the (pointers b)) (plane_sizes (bf_type b) (bf_width b, bf_height b))"
  using pointers_ok(5) [of b] by (simp add: memory_def)

lemma yuv_eq:
  assumes "buffer_ok dst"
  shows "yuv op src ps wh dst = Some \<lparr>yc_op = op, yc_from = src, yc_src = ps, yc_src_size = wh, yc_to = dst, yc_dst = the (pointers dst)\<rparr>"
  using pointers_ok(5) [OF assms] by (simp add: yuv_def)

text \<open>A call with positive sizes is accepted, and one that reads parts of the planes and fills the destination is inside.\<close>

lemma yuv_checked_eq:
  assumes "libyuv_accepts libyuv" "buffer_ok dst" "op_src op \<noteq> None \<longrightarrow> yuv_size wh" "written_size op wh = (bf_width dst, bf_height dst)"
    "yuv_size (bf_width dst, bf_height dst)"
  shows "yuv_checked libyuv op src ps wh dst = yuv op src ps wh dst"
  using assms yuv_eq [OF assms(2)] by (auto simp: yuv_checked_def libyuv_accepts_def)

lemma yuv_inside:
  assumes "buffer_ok dst" "op_src op = Some (bf_type src)" "op_dst op = bf_type dst" "written_size op wh = (bf_width dst, bf_height dst)"
    "list_all2 (\<subseteq>) (map2 samples ps (plane_sizes (bf_type src) wh)) (memory src)"
  shows "\<exists>c. yuv op src ps wh dst = Some c \<and> call_inside c \<and> yc_to c = dst \<and> yc_op c = op \<and> yc_src_size c = wh"
  using assms yuv_eq [OF assms(1)] memory_eq [OF assms(1)] by (simp add: call_inside_def call_reads_def call_writes_def)

lemma whole_inside:
  assumes "buffer_ok dst" "buffer_ok src" "op_src op = Some (bf_type src)" "op_dst op = bf_type dst"
    "written_size op (bf_width src, bf_height src) = (bf_width dst, bf_height dst)" "pointers src = Some ps"
  shows "\<exists>c. yuv op src ps (bf_width src, bf_height src) dst = Some c \<and> call_inside c \<and> yc_to c = dst \<and> yc_op c = op \<and> yc_src_size c = (bf_width src, bf_height src)"
  using assms memory_eq [OF assms(2)] by (intro yuv_inside) (simp_all add: list_all2_refl)

subsection \<open>Cropping\<close>

lemma samples_sub:
  assumes "q = p + r * stride + c" "0 \<le> r" "0 \<le> c" "r + rows' \<le> rows" "c + cols' \<le> cols"
  shows "samples (q, stride) (cols', rows') \<subseteq> samples (p, stride) (cols, rows)"
proof
  fix x assume "x \<in> samples (q, stride) (cols', rows')"
  then obtain r' c' where "x = q + r' * stride + c'" "0 \<le> r'" "r' < rows'" "0 \<le> c'" "c' < cols'" by auto
  then have "x = p + (r + r') * stride + (c + c') \<and> 0 \<le> r + r' \<and> r + r' < rows \<and> 0 \<le> c + c' \<and> c + c' < cols"
    using assms by (simp add: algebra_simps)
  then show "x \<in> samples (p, stride) (cols, rows)" by (simp only: samples.simps mem_Collect_eq) blast
qed

definition crop_ok :: "pixel_buffer \<Rightarrow> int \<Rightarrow> int \<Rightarrow> int \<Rightarrow> int \<Rightarrow> bool" where
  "crop_ok src x y w h \<longleftrightarrow> 0 \<le> x \<and> 0 \<le> y \<and> 0 < w \<and> 0 < h \<and> w + x \<le> bf_width src \<and> h + y \<le> bf_height src"

lemma check_crop_ok: "buffer_ok src \<Longrightarrow> crop_ok src x y w h \<Longrightarrow> check_crop src x y w h = Some ()"
  by (simp add: check_crop_def crop_ok_def buffer_ok_def int32_def in_int32_def int_range_defs)

text \<open>The offset of a crop in the planes, rounded as the formats need.\<close>

definition luma_offset :: "format \<Rightarrow> int \<Rightarrow> int \<Rightarrow> int \<times> int" where
  "luma_offset f x y = (if f \<in> {kI444, kI410} then (x, y) else if f \<in> {kI422, kI210} then (2 * (x div 2), y) else (2 * (x div 2), 2 * (y div 2)))"

definition chroma_offset :: "format \<Rightarrow> int \<Rightarrow> int \<Rightarrow> int \<times> int" where
  "chroma_offset f x y = (if f \<in> {kI444, kI410} then (x, y) else if f \<in> {kI422, kI210} then (x div 2, y)
     else if f = kNV12 then (2 * (x div 2), y div 2) else (x div 2, y div 2))"

lemma half_sum: "w + x \<le> n \<Longrightarrow> x div 2 + (w + 1) div 2 \<le> (n + 1) div (2 :: int)"
  by presburger

lemma offset_bounds:
  assumes "crop_ok src x y w h" "f = bf_type src"
  shows "0 \<le> fst (luma_offset f x y)" "fst (luma_offset f x y) + w \<le> bf_width src" "0 \<le> snd (luma_offset f x y)" "snd (luma_offset f x y) + h \<le> bf_height src"
    "0 \<le> fst (chroma_offset f x y)" "fst (chroma_offset f x y) + chroma_cols f w \<le> chroma_cols f (bf_width src)"
    "0 \<le> snd (chroma_offset f x y)" "snd (chroma_offset f x y) + chroma_rows f h \<le> chroma_rows f (bf_height src)"
proof -
  have a: "0 \<le> x" "0 \<le> y" "w + x \<le> bf_width src" "h + y \<le> bf_height src" using assms(1) by (simp_all add: crop_ok_def)
  have "2 * (x div 2) \<le> x" "2 * (y div 2) \<le> y" "0 \<le> x div 2" "0 \<le> y div 2" using a by simp_all
  moreover have "x div 2 + (w + 1) div 2 \<le> (bf_width src + 1) div 2" "y div 2 + (h + 1) div 2 \<le> (bf_height src + 1) div 2" using a half_sum by blast+
  moreover have "2 * (x div 2) + 2 * ((w + 1) div 2) \<le> 2 * ((bf_width src + 1) div 2)" using half_sum [OF a(3)] by linarith
  ultimately show "0 \<le> fst (luma_offset f x y)" "fst (luma_offset f x y) + w \<le> bf_width src" "0 \<le> snd (luma_offset f x y)" "snd (luma_offset f x y) + h \<le> bf_height src"
    "0 \<le> fst (chroma_offset f x y)" "fst (chroma_offset f x y) + chroma_cols f w \<le> chroma_cols f (bf_width src)"
    "0 \<le> snd (chroma_offset f x y)" "snd (chroma_offset f x y) + chroma_rows f h \<le> chroma_rows f (bf_height src)"
    using a unfolding luma_offset_def chroma_offset_def chroma_cols_def chroma_rows_def
    by - (cases f; simp only: format.case insert_iff empty_iff format.distinct simp_thms if_True if_False fst_conv snd_conv; linarith)+
qed

definition crop_pointers :: "pixel_buffer \<Rightarrow> int \<Rightarrow> int \<Rightarrow> plane list" where
  "crop_pointers src x y = (let f = bf_type src; l = luma_offset f x y; c = chroma_offset f x y; u = strideY src * bf_height src in
     (strideY src * snd l + fst l, strideY src) # (u + strideU src * snd c + fst c, strideU src) #
     (if f = kNV12 then [] else [(u + strideU src * chroma_rows f (bf_height src) + strideV src * snd c + fst c, strideV src)]))"

lemma crop_pointers_inside:
  assumes b: "buffer_ok src" and c: "crop_ok src x y w h"
  shows "list_all2 (\<subseteq>) (map2 samples (crop_pointers src x y) (plane_sizes (bf_type src) (w, h))) (memory src)"
proof -
  let ?f = "bf_type src"
  note o = offset_bounds [OF c refl]
  have l: "samples (strideY src * snd (luma_offset ?f x y) + fst (luma_offset ?f x y), strideY src) (w, h) \<subseteq> samples (0, strideY src) (bf_width src, bf_height src)"
    by (rule samples_sub [of _ _ "snd (luma_offset ?f x y)" _ "fst (luma_offset ?f x y)"]) (use o in simp_all)
  have ch: "samples (p + stride * snd (chroma_offset ?f x y) + fst (chroma_offset ?f x y), stride) (chroma_cols ?f w, chroma_rows ?f h)
      \<subseteq> samples (p, stride) (chroma_cols ?f (bf_width src), chroma_rows ?f (bf_height src))" for p stride
    by (rule samples_sub [of _ _ "snd (chroma_offset ?f x y)" _ "fst (chroma_offset ?f x y)"]) (use o in simp_all)
  show ?thesis
    using l ch memory_eq [OF b] pointers_ok(5) [OF b] by (cases "?f = kNV12") (simp_all add: crop_pointers_def Let_def del: samples.simps)
qed

lemma stride_in_range:
  assumes b: "buffer_ok src"
  shows "0 \<le> y \<Longrightarrow> y \<le> bf_height src \<Longrightarrow> in_int32 (strideY src * y)"
    "0 \<le> y \<Longrightarrow> y \<le> chroma_rows (bf_type src) (bf_height src) \<Longrightarrow> in_int32 (strideU src * y)"
    "0 \<le> y \<Longrightarrow> y \<le> chroma_rows (bf_type src) (bf_height src) \<Longrightarrow> bf_type src \<noteq> kNV12 \<Longrightarrow> in_int32 (strideV src * y)"
proof -
  note s = buffer_ok_strides [OF b]
  let ?r = "chroma_rows (bf_type src) (bf_height src)"
  have n: "0 \<le> strideY src * bf_height src" "0 \<le> strideU src * ?r" "0 \<le> strideV src * ?r" using s b by (simp_all add: buffer_ok_def)
  have t: "strideY src * bf_height src \<le> int32_max" "strideU src * ?r \<le> int32_max" "bf_type src \<noteq> kNV12 \<Longrightarrow> strideV src * ?r \<le> int32_max"
    using n total_le_size(3) [OF b] unfolding total_samples_def by (auto split: if_splits)
  have m: "in_int32 (d * y)" if "0 \<le> y" "y \<le> k" "0 < d" "d * k \<le> int32_max" for d y k
    using that order_trans [OF mult_left_mono [of y k d] that(4)] order_trans [OF _ mult_nonneg_nonneg [of d y], of int32_min]
    by (simp add: in_int32_def int32_min_def)
  show "0 \<le> y \<Longrightarrow> y \<le> bf_height src \<Longrightarrow> in_int32 (strideY src * y)"
    "0 \<le> y \<Longrightarrow> y \<le> ?r \<Longrightarrow> in_int32 (strideU src * y)" "0 \<le> y \<Longrightarrow> y \<le> ?r \<Longrightarrow> bf_type src \<noteq> kNV12 \<Longrightarrow> in_int32 (strideV src * y)"
    using m s t by blast+
qed

lemma cropAndScaleFrom_eq:
  assumes b: "buffer_ok src" "bf_type dst = bf_type src" and c: "crop_ok src x y w h"
  shows "cropAndScaleFrom libyuv dst src x y w h =
    yuv_checked libyuv (YuvScale (bf_type src) (bf_width dst) (bf_height dst)) src (crop_pointers src x y) (w, h) dst"
proof -
  let ?f = "bf_type src"
  note o = offset_bounds [OF c refl]
  have xy: "0 \<le> x" "0 \<le> y" "x < int32_max" "y < int32_max" "0 < w" "0 < h"
    using c b(1) by (auto simp: crop_ok_def buffer_ok_def)
  moreover have "0 \<le> x div 2" "0 \<le> y div 2" "2 * (x div 2) \<le> x" "2 * (y div 2) \<le> y" using xy by simp_all
  ultimately have h: "div32 x 2 = Some (x div 2)" "div32 y 2 = Some (y div 2)" "int32 (x div 2 * 2) = Some (2 * (x div 2))" "int32 (y div 2 * 2) = Some (2 * (y div 2))"
    by (simp_all add: div32_nonneg in_int32_def int_range_defs int32_def mult.commute)
  have le: "chroma_rows ?f h > 0" using chroma_pos(2) [of h] xy(6) by simp
  have i: "in_int32 (strideY src * snd (luma_offset ?f x y))" "in_int32 (strideU src * snd (chroma_offset ?f x y))"
      "?f \<noteq> kNV12 \<Longrightarrow> in_int32 (strideV src * snd (chroma_offset ?f x y))"
    using stride_in_range [OF b(1)] o xy le by simp_all
  note p = pointers_ok(1-4) [OF b(1)] check_crop_ok [OF b(1) c]
  show ?thesis
    using h i p b(2) xy
    by (cases ?f) (simp_all add: cropAndScaleFrom_def I420_cropAndScaleFrom_def I422_cropAndScaleFrom_def I444_cropAndScaleFrom_def I010_cropAndScaleFrom_def
        I210_cropAndScaleFrom_def I410_cropAndScaleFrom_def NV12_cropAndScaleFrom_def plane_at_def crop_pointers_def Let_def luma_offset_def chroma_offset_def)
qed

lemma cropAndScaleFrom_ok:
  assumes "libyuv_accepts libyuv" "buffer_ok src" "buffer_ok dst" "bf_type dst = bf_type src" "crop_ok src x y w h"
    "bf_width src \<le> 16384" "bf_height src \<le> 16384" "bf_width dst \<le> 16384" "bf_height dst \<le> 16384"
  shows "\<exists>c. cropAndScaleFrom libyuv dst src x y w h = Some c \<and> call_inside c \<and> yc_to c = dst \<and> yc_op c = YuvScale (bf_type src) (bf_width dst) (bf_height dst) \<and> yc_src_size c = (w, h)"
proof -
  have sz: "yuv_size (w, h)" "yuv_size (bf_width dst, bf_height dst)"
    using assms(3,5-9) by (auto simp: yuv_size_def crop_ok_def buffer_ok_def)
  show ?thesis
    using yuv_inside [OF assms(3) _ _ _ crop_pointers_inside [OF assms(2,5)]] assms(4) sz yuv_checked_eq [OF assms(1,3)]
    unfolding cropAndScaleFrom_eq [OF assms(2,4,5)] by simp
qed


section \<open>Properties\<close>

lemma card_samples:
  assumes "cols \<le> stride" "0 \<le> cols" "0 \<le> rows"
  shows "card (samples (p, stride) (cols, rows)) = nat (cols * rows)"
proof -
  let ?at = "\<lambda>(r, c). p + r * stride + c"
  have "inj_on ?at ({0..<rows} \<times> {0..<cols})"
  proof (rule inj_onI, clarsimp)
    fix r c r' c' assume a: "r * stride + c = r' * stride + c'" "0 \<le> c" "c < cols" "0 \<le> c'" "c' < cols"
    have "(x * stride + d) div stride = x" if "0 \<le> d" "d < cols" for x d using that assms(1) by simp
    from this [of c r] this [of c' r'] have "r = r'" using a by simp
    then show "r = r' \<and> c = c'" using a(1) by simp
  qed
  moreover have "samples (p, stride) (cols, rows) = ?at ` ({0..<rows} \<times> {0..<cols})" by (auto simp: image_def) (metis atLeastLessThan_iff)+
  ultimately show ?thesis using assms by (simp add: card_image nat_mult_distrib)
qed

definition InitializeData :: "pixel_buffer \<Rightarrow> int option" where
  "InitializeData b = (case bf_type b of kI420 \<Rightarrow> I420_InitializeData b | kI422 \<Rightarrow> I422_InitializeData b | kI444 \<Rightarrow> I444_InitializeData b
     | kI410 \<Rightarrow> I410_InitializeData b | kNV12 \<Rightarrow> NV12_InitializeData b | _ \<Rightarrow> None)"

lemma InitializeData_construct:
  "construct f w h sy su sv = Some b \<Longrightarrow> f \<notin> {kI010, kI210} \<Longrightarrow> InitializeData b = Some (bf_size b)"
  by (cases f) (auto simp: construct_def buffer_constructors bind_Some make_buffer_def InitializeData_def I420_InitializeData_def
      I422_InitializeData_def I444_InitializeData_def I410_InitializeData_def NV12_InitializeData_def)

lemma memory_layout:
  assumes "buffer_ok b"
  defines "f \<equiv> bf_type b"
  defines "u \<equiv> strideY b * bf_height b" and "v \<equiv> strideY b * bf_height b + strideU b * chroma_rows f (bf_height b)"
  shows "length (memory b) = (if f = kNV12 then 2 else 3)" "memory b ! 0 \<subseteq> {0..<u}" "memory b ! 1 \<subseteq> {u..<v}" "f \<noteq> kNV12 \<Longrightarrow> memory b ! 2 \<subseteq> {v..<total_samples b}"
    "v \<le> total_samples b" "f = kNV12 \<Longrightarrow> v = total_samples b" "0 \<le> u" "u \<le> v"
proof -
  note m = memory_eq [OF assms(1)] pointers_ok(5) [OF assms(1)]
  have le: "bf_width b \<le> strideY b" "chroma_cols f (bf_width b) \<le> strideU b" "chroma_cols f (bf_width b) \<le> strideV b"
    using assms(1) by (simp_all add: buffer_ok_def f_def)
  note s = buffer_ok_strides [OF assms(1)]
  have h: "0 < bf_height b" using assms(1) by (simp add: buffer_ok_def)
  show "length (memory b) = (if f = kNV12 then 2 else 3)" using m by (simp add: f_def)
  have y: "memory b ! 0 = samples (0, strideY b) (bf_width b, bf_height b)" using m by simp
  have c1: "memory b ! 1 = samples (u, strideU b) (chroma_cols f (bf_width b), chroma_rows f (bf_height b))" using m by (simp add: f_def u_def)
  have c2: "memory b ! 2 = samples (v, strideV b) (chroma_cols f (bf_width b), chroma_rows f (bf_height b))" if "f \<noteq> kNV12"
    using m that by (simp add: f_def v_def)
  show "memory b ! 0 \<subseteq> {0..<u}" using plane_end [OF _ le(1)] unfolding y u_def by (force simp: mult.commute simp del: samples.simps)
  show "memory b ! 1 \<subseteq> {u..<v}" using plane_end [OF _ le(2)] unfolding c1 u_def v_def by (force simp: mult.commute simp del: samples.simps)
  show "memory b ! 2 \<subseteq> {v..<total_samples b}" if "f \<noteq> kNV12"
    using plane_end [OF _ le(3)] that unfolding c2 [OF that] v_def total_samples_def by (force simp: mult.commute f_def simp del: samples.simps)
  show "v \<le> total_samples b" "f = kNV12 \<Longrightarrow> v = total_samples b" using s by (auto simp: v_def total_samples_def f_def)
  show "0 \<le> u" "u \<le> v" using s h by (simp_all add: u_def v_def f_def)
qed

text \<open>
  C27: whenever one of the seven constructors returns, the planes of the new buffer do not overlap, lie inside the memory that was
  allocated, and have room for every sample of the image; \<open>InitializeData\<close> sets exactly the allocated bytes. Buffers of up to
  16384 by 16384 with the default strides can be created in every format.
\<close>

theorem frame_buffer_layout:
  assumes "construct f w h sy su sv = Some b"
  shows "length (memory b) = length (plane_sizes f (w, h)) \<and>
    (\<forall>i < length (memory b). memory b ! i \<subseteq> {q. 0 \<le> q \<and> (q + 1) * sample_bytes f \<le> bf_size b} \<and>
       card (memory b ! i) = nat (fst (plane_sizes f (w, h) ! i) * snd (plane_sizes f (w, h) ! i)) \<and>
       (\<forall>j < length (memory b). i \<noteq> j \<longrightarrow> memory b ! i \<inter> memory b ! j = {})) \<and>
    (f \<notin> {kI010, kI210} \<longrightarrow> InitializeData b = Some (bf_size b)) \<and>
    (w \<le> 16384 \<and> h \<le> 16384 \<longrightarrow> (\<exists>b'. create_buffer f w h = Some b' \<and> bf_type b' = f \<and> bf_width b' = w \<and> bf_height b' = h))"
proof -
  note c = construct_ok [OF assms]
  note l = memory_layout [OF c(1), unfolded c(2)]
  have wh: "0 < w" "0 < h" "w \<le> strideY b" "chroma_cols f w \<le> strideU b" "chroma_cols f w \<le> strideV b" using c by (auto simp: buffer_ok_def)
  have k: "0 < chroma_cols f w" "0 < chroma_rows f h" using chroma_pos wh by simp_all
  have sb: "0 < sample_bytes f" by (simp add: sample_bytes_def kBytesPerPixel_def)
  have in_mem: "{p..<total_samples b} \<subseteq> {q. 0 \<le> q \<and> (q + 1) * sample_bytes f \<le> bf_size b}" if "0 \<le> p" for p
  proof
    fix q assume q: "q \<in> {p..<total_samples b}"
    then have "(q + 1) * sample_bytes f \<le> total_samples b * sample_bytes f" using sb by (intro mult_right_mono) simp_all
    then show "q \<in> {q. 0 \<le> q \<and> (q + 1) * sample_bytes f \<le> bf_size b}" using q that total_le_size(2) [OF c(1)] c(2) by simp
  qed
  have three: "i = 0 \<or> i = 1 \<or> i = 2 \<and> f \<noteq> kNV12" if "i < length (memory b)" for i using that l(1) by (auto split: if_splits)
  have sub: "memory b ! i \<subseteq> {q. 0 \<le> q \<and> (q + 1) * sample_bytes f \<le> bf_size b}" if "i < length (memory b)" for i
  proof -
    have "memory b ! i \<subseteq> {0..<total_samples b}" using three [OF that] l by (elim disjE conjE) (force, force, force)
    then show ?thesis using in_mem [of 0] by blast
  qed
  have cards: "card (memory b ! i) = nat (fst (plane_sizes f (w, h) ! i) * snd (plane_sizes f (w, h) ! i))" if "i < length (memory b)" for i
    using three [OF that] memory_eq [OF c(1)] pointers_ok(5) [OF c(1)] c k wh
    by (auto simp: card_samples simp del: samples.simps)
  have disj: "memory b ! i \<inter> memory b ! j = {}" if "i < length (memory b)" "j < length (memory b)" "i \<noteq> j" for i j
    using three [OF that(1)] three [OF that(2)] that(3) l by (elim disjE conjE) (simp, force+)
  show ?thesis
    using l(1) sub cards disj InitializeData_construct [OF assms] create_Some [of w h f] wh by auto
qed

theorem frame_buffer_layout_witness:
  "\<exists>b. construct kI010 5 3 8 4 4 = Some b \<and> length (memory b) = 3 \<and> memory b ! 0 \<inter> memory b ! 2 = {} \<and> bf_size b = 80"
proof -
  have c: "construct kI010 5 3 8 4 4 = Some (make_buffer kI010 5 3 8 4 4 80)"
    by (simp add: construct_def I010Buffer_def I010DataSize_def I420DataSize_def check_half_def half_up_def div32_def sdiv_nonneg int32_def in_int32_def int_range_defs kBytesPerPixel_def)
  from frame_buffer_layout [OF c] show ?thesis using c by (auto simp: make_buffer_def)
qed

text \<open>All operations that read the pixels of a buffer \<open>b\<close>, on the classes that have them. The last four work on a given destination.\<close>

datatype buffer_op = OpCopy | OpToI420 | OpRotate VideoRotation | OpConvert format | OpCropAndScale int int int int int int | OpScale int int
  | OpCropFrom pixel_buffer int int int int | OpScaleFrom pixel_buffer | OpCenter pixel_buffer | OpSetBlack

fun run_op :: "(yuv_call \<Rightarrow> int) \<Rightarrow> buffer_op \<Rightarrow> pixel_buffer \<Rightarrow> (pixel_buffer \<times> yuv_call list) option" where
  "run_op libyuv OpCopy b = (case bf_type b of kI420 \<Rightarrow> I420_Copy libyuv b | kI422 \<Rightarrow> I422_Copy libyuv b | kI444 \<Rightarrow> I444_Copy libyuv b
     | kI010 \<Rightarrow> I010_Copy libyuv b | kI210 \<Rightarrow> I210_Copy libyuv b | kI410 \<Rightarrow> I410_Copy libyuv b | kNV12 \<Rightarrow> None)"
| "run_op libyuv OpToI420 b = toI420 libyuv b"
| "run_op libyuv (OpRotate r) b = (case bf_type b of kI420 \<Rightarrow> I420_Rotate libyuv r b | kI422 \<Rightarrow> I422_Rotate libyuv r b | kI444 \<Rightarrow> I444_Rotate libyuv r b
     | kI010 \<Rightarrow> I010_Rotate libyuv r b | kI210 \<Rightarrow> I210_Rotate libyuv r b | kI410 \<Rightarrow> I410_Rotate libyuv r b | kNV12 \<Rightarrow> None)"
| "run_op libyuv (OpConvert g) b = (case g of kI422 \<Rightarrow> I422_from_I420 libyuv b | kI010 \<Rightarrow> I010_from_I420 libyuv b
     | kI210 \<Rightarrow> I210_from_I420 libyuv b | kNV12 \<Rightarrow> NV12_from_I420 b | _ \<Rightarrow> None)"
| "run_op libyuv (OpCropAndScale x y cw ch w h) b = cropAndScale libyuv b x y cw ch w h"
| "run_op libyuv (OpScale w h) b = scale libyuv b w h"
| "run_op libyuv (OpCropFrom dst x y cw ch) b = map_option (\<lambda>c. (dst, [c])) (cropAndScaleFrom libyuv dst b x y cw ch)"
| "run_op libyuv (OpScaleFrom dst) b = map_option (\<lambda>c. (dst, [c])) (case bf_type dst of kI420 \<Rightarrow> I420_scaleFrom libyuv dst b
     | kI010 \<Rightarrow> I010_scaleFrom libyuv dst b | kI210 \<Rightarrow> I210_scaleFrom libyuv dst b | kI410 \<Rightarrow> I410_scaleFrom libyuv dst b | _ \<Rightarrow> None)"
| "run_op libyuv (OpCenter dst) b = map_option (\<lambda>c. (dst, [c])) (I420_cropAndScaleCenter libyuv dst b)"
| "run_op libyuv OpSetBlack b = map_option (\<lambda>c. (b, [c])) (SetBlack libyuv b)"

definition size_ok :: "int \<Rightarrow> int \<Rightarrow> bool" where
  "size_ok w h \<longleftrightarrow> 0 < w \<and> w \<le> 16384 \<and> 0 < h \<and> h \<le> 16384"

definition target_ok :: "pixel_buffer \<Rightarrow> pixel_buffer \<Rightarrow> bool" where
  "target_ok dst b \<longleftrightarrow> (\<exists>sy su sv. construct (bf_type b) (bf_width dst) (bf_height dst) sy su sv = Some dst) \<and> size_ok (bf_width dst) (bf_height dst)"

text \<open>The calls the classes offer, with crops inside the buffer and a middle part that is not empty.\<close>

fun op_ok :: "buffer_op \<Rightarrow> pixel_buffer \<Rightarrow> bool" where
  "op_ok OpCopy b \<longleftrightarrow> bf_type b \<noteq> kNV12"
| "op_ok OpToI420 b \<longleftrightarrow> True"
| "op_ok (OpRotate r) b \<longleftrightarrow> bf_type b \<noteq> kNV12"
| "op_ok (OpConvert g) b \<longleftrightarrow> bf_type b = kI420 \<and> g \<in> {kI422, kI010, kI210, kNV12}"
| "op_ok (OpCropAndScale x y cw ch w h) b \<longleftrightarrow> crop_ok b x y cw ch \<and> size_ok w h"
| "op_ok (OpScale w h) b \<longleftrightarrow> size_ok w h"
| "op_ok (OpCropFrom dst x y cw ch) b \<longleftrightarrow> target_ok dst b \<and> crop_ok b x y cw ch"
| "op_ok (OpScaleFrom dst) b \<longleftrightarrow> target_ok dst b \<and> bf_type b \<in> {kI420, kI010, kI210, kI410}"
| "op_ok (OpCenter dst) b \<longleftrightarrow> target_ok dst b \<and> bf_type b = kI420 \<and> bf_height dst \<le> bf_width dst * bf_height b \<and> bf_width dst \<le> bf_height dst * bf_width b"
| "op_ok OpSetBlack b \<longleftrightarrow> bf_type b = kI420"

fun result_format :: "buffer_op \<Rightarrow> format \<Rightarrow> format" where
  "result_format OpToI420 f = kI420"
| "result_format (OpConvert g) f = g"
| "result_format (OpCropAndScale x y cw ch w h) f = (if f \<in> {kI444, kI422, kNV12} then f else kI420)"
| "result_format (OpScale w h) f = (if f \<in> {kI444, kI422, kNV12} then f else kI420)"
| "result_format _ f = f"

fun result_size :: "buffer_op \<Rightarrow> int \<times> int \<Rightarrow> int \<times> int" where
  "result_size (OpRotate r) (w, h) = (if r \<in> {kAngle90, kAngle270} then (h, w) else (w, h))"
| "result_size (OpCropAndScale x y cw ch w h) _ = (w, h)"
| "result_size (OpScale w h) _ = (w, h)"
| "result_size (OpCropFrom dst x y cw ch) _ = (bf_width dst, bf_height dst)"
| "result_size (OpScaleFrom dst) _ = (bf_width dst, bf_height dst)"
| "result_size (OpCenter dst) _ = (bf_width dst, bf_height dst)"
| "result_size _ wh = wh"

text \<open>A result of the right format and size, whose memory is filled by the last of calls that all stay inside their buffers.\<close>

definition op_result :: "(pixel_buffer \<times> yuv_call list) option \<Rightarrow> format \<Rightarrow> int \<times> int \<Rightarrow> bool" where
  "op_result r f wh \<longleftrightarrow> (\<exists>b cs. r = Some (b, cs) \<and> buffer_ok b \<and> bf_type b = f \<and> (bf_width b, bf_height b) = wh \<and> cs \<noteq> [] \<and>
     (\<forall>c \<in> set cs. call_inside c) \<and> yc_to (last cs) = b)"

lemma op_resultI:
  assumes "\<exists>c. call = Some c \<and> call_inside c \<and> yc_to c = b" "buffer_ok b" "bf_type b = f" "bf_width b = w" "bf_height b = h"
  shows "op_result (Option.bind call (\<lambda>c. Some (b, [c]))) f (w, h)"
  using assms by (auto simp: op_result_def)

text \<open>Conversions of a whole buffer into a new one.\<close>

lemma convert_ok:
  assumes l: "libyuv_accepts libyuv" and b: "buffer_ok b" "bf_width b \<le> 16384" "bf_height b \<le> 16384"
    and op: "op_src op = Some (bf_type b)" "op_dst op = g" "written_size op (bf_width b, bf_height b) = (w, h)" and wh: "size_ok w h"
  shows "\<exists>b'. create_buffer g w h = Some b' \<and> buffer_ok b' \<and> bf_type b' = g \<and> bf_width b' = w \<and> bf_height b' = h \<and>
    (\<exists>c. yuv_checked libyuv op b (the (pointers b)) (bf_width b, bf_height b) b' = Some c \<and> call_inside c \<and> yc_to c = b') \<and>
    (\<exists>c. yuv op b (the (pointers b)) (bf_width b, bf_height b) b' = Some c \<and> call_inside c \<and> yc_to c = b')"
proof -
  obtain b' where b': "create_buffer g w h = Some b'" "buffer_ok b'" "bf_type b' = g" "bf_width b' = w" "bf_height b' = h"
    using create_Some [of w h g] wh by (auto simp: size_ok_def)
  have sz: "yuv_size (bf_width b, bf_height b)" "yuv_size (bf_width b', bf_height b')"
    using b wh b'(4,5) by (auto simp: yuv_size_def buffer_ok_def size_ok_def)
  have "\<exists>c. yuv op b (the (pointers b)) (bf_width b, bf_height b) b' = Some c \<and> call_inside c \<and> yc_to c = b'"
    using whole_inside [OF b'(2) b(1) op(1), of "the (pointers b)"] op b' memory_eq [OF b(1)] by auto
  moreover have "yuv_checked libyuv op b (the (pointers b)) (bf_width b, bf_height b) b' = yuv op b (the (pointers b)) (bf_width b, bf_height b) b'"
    using yuv_checked_eq [OF l b'(2), of op "(bf_width b, bf_height b)"] sz op(3) b'(4,5) by simp
  ultimately show ?thesis using b' by auto
qed

lemmas copy_defs = I420_Copy_def I420_Copy_planes_def I422_Copy_def I422_Copy_planes_def I444_Copy_def I444_Copy_planes_def
  I010_Copy_def I210_Copy_def I410_Copy_def I410_Copy_planes_def
lemmas rotate_defs = I420_Rotate_def I422_Rotate_def I444_Rotate_def I010_Rotate_def I210_Rotate_def I410_Rotate_def
lemmas toI420_defs = toI420_def I420_toI420_def I422_toI420_def I444_toI420_def I010_toI420_def I210_toI420_def I410_toI420_def NV12_toI420_def
lemmas convert_defs = I422_from_I420_def I010_from_I420_def NV12_from_I420_def

lemma create_I420: "create_buffer kI420 = I420_create"
  by (simp add: create_buffer_def)

lemma copy_ok:
  assumes l: "libyuv_accepts libyuv" and b: "buffer_ok b" "bf_width b \<le> 16384" "bf_height b \<le> 16384" and op: "op_ok OpCopy b"
  shows "op_result (run_op libyuv OpCopy b) (bf_type b) (bf_width b, bf_height b)"
proof -
  have "size_ok (bf_width b) (bf_height b)" using b by (simp add: size_ok_def buffer_ok_def)
  note c = convert_ok [OF l b, of "YuvCopy (bf_type b)", OF _ _ _ this, of "bf_type b"]
  obtain ps where p: "pointers b = Some ps" using memory_eq [OF b(1)] by blast
  show ?thesis using c op by (cases "bf_type b") (auto simp: copy_defs create_buffer_def op_result_def p)
qed

lemma toI420_ok:
  assumes l: "libyuv_accepts libyuv" and b: "buffer_ok b" "bf_width b \<le> 16384" "bf_height b \<le> 16384"
  shows "op_result (toI420 libyuv b) kI420 (bf_width b, bf_height b)"
proof -
  have "size_ok (bf_width b) (bf_height b)" using b by (simp add: size_ok_def buffer_ok_def)
  note c = convert_ok [OF l b _ _ _ this, of "YuvConvert (bf_type b) kI420" kI420] convert_ok [OF l b _ _ _ this, of "YuvCopy (bf_type b)" kI420]
  obtain ps where p: "pointers b = Some ps" using memory_eq [OF b(1)] by blast
  show ?thesis using c by (cases "bf_type b") (auto simp: copy_defs toI420_defs create_I420 op_result_def p)
qed

lemma rotate_ok:
  assumes l: "libyuv_accepts libyuv" and b: "buffer_ok b" "bf_width b \<le> 16384" "bf_height b \<le> 16384" and op: "op_ok (OpRotate r) b"
  shows "op_result (run_op libyuv (OpRotate r) b) (bf_type b) (result_size (OpRotate r) (bf_width b, bf_height b))"
proof -
  obtain w h where wh: "rotated_size r b = (w, h)" by fastforce
  then have s: "size_ok w h" using b by (auto simp: rotated_size_def size_ok_def buffer_ok_def split: if_splits)
  have e: "written_size (YuvRotate (bf_type b) r) (bf_width b, bf_height b) = (w, h)" "result_size (OpRotate r) (bf_width b, bf_height b) = (w, h)"
    using wh by (auto simp: rotated_size_def)
  have z: "r = kAngle0 \<Longrightarrow> (w, h) = (bf_width b, bf_height b)" using wh by (simp add: rotated_size_def)
  note c = convert_ok [OF l b _ _ e(1) s, of "bf_type b", simplified]
  obtain ps where p: "pointers b = Some ps" using memory_eq [OF b(1)] by blast
  show ?thesis
  proof (cases "bf_type b = kI010 \<and> r = kAngle0")
    case True
    then show ?thesis using copy_ok [OF l b] z unfolding e(2) by (simp add: I010_Rotate_def)
  next
    case False
    then show ?thesis
      unfolding e(2) using c op by (cases "bf_type b") (auto simp: rotate_defs wh create_buffer_def op_result_def p)
  qed
qed

lemma convert_I420_ok:
  assumes l: "libyuv_accepts libyuv" and b: "buffer_ok b" "bf_width b \<le> 16384" "bf_height b \<le> 16384" and op: "op_ok (OpConvert g) b"
  shows "op_result (run_op libyuv (OpConvert g) b) g (bf_width b, bf_height b)"
proof -
  have s: "size_ok (bf_width b) (bf_height b)" using b by (simp add: size_ok_def buffer_ok_def)
  have f: "bf_type b = kI420" using op by simp
  obtain ps where p: "pointers b = Some ps" using memory_eq [OF b(1)] by blast
  note c = convert_ok [OF l b _ _ _ s, of "YuvConvert kI420 g" g for g, simplified f op_src.simps op_dst.simps written_size.simps, simplified]
  show ?thesis
  proof (cases "g = kI210")
    case False
    then show ?thesis using c [of g] op by (cases g) (auto simp: convert_defs create_buffer_def op_result_def p)
  next
    case True
    obtain i cs where i: "I422_from_I420 libyuv b = Some (i, cs)" "buffer_ok i" "bf_type i = kI422" "bf_width i = bf_width b" "bf_height i = bf_height b"
        "\<forall>c \<in> set cs. call_inside c"
      using c [of kI422] by (auto simp: I422_from_I420_def create_buffer_def p)
    obtain ps' where q: "pointers i = Some ps'" using memory_eq [OF i(2)] by blast
    have "bf_width i \<le> 16384" "bf_height i \<le> 16384" using i b by simp_all
    note d = convert_ok [OF l i(2) this _ _ _ s, of "YuvConvert kI422 kI210" kI210]
    show ?thesis using d True i by (auto simp: I210_from_I420_def create_buffer_def op_result_def q)
  qed
qed

lemma crop_from_result:
  assumes l: "libyuv_accepts libyuv" and b: "buffer_ok b" "bf_width b \<le> 16384" "bf_height b \<le> 16384"
    and d: "buffer_ok dst" "bf_type dst = bf_type b" "bf_width dst = w" "bf_height dst = h" "size_ok w h" and c: "crop_ok b x y cw ch"
  shows "\<exists>c. cropAndScaleFrom libyuv dst b x y cw ch = Some c \<and> call_inside c \<and> yc_to c = dst"
  using cropAndScaleFrom_ok [OF l b(1) d(1,2) c b(2,3)] d(3-5) by (auto simp: size_ok_def)

lemma cropAndScale_ok:
  assumes l: "libyuv_accepts libyuv" and b: "buffer_ok b" "bf_width b \<le> 16384" "bf_height b \<le> 16384"
    and c: "crop_ok b x y cw ch" and s: "size_ok w h"
  shows "op_result (cropAndScale libyuv b x y cw ch w h) (if bf_type b \<in> {kI444, kI422, kNV12} then bf_type b else kI420) (w, h)"
proof -
  define g where "g = (if bf_type b \<in> {kI444, kI422, kNV12} then bf_type b else kI420)"
  obtain d where d: "create_buffer g w h = Some d" "buffer_ok d" "bf_type d = g" "bf_width d = w" "bf_height d = h"
    using create_Some [of w h g] s by (auto simp: size_ok_def)
  show ?thesis
  proof (cases "bf_type b \<in> {kI444, kI422, kNV12}")
    case True
    then have e: "bf_type d = bf_type b" using d(3) by (simp add: g_def)
    have "cropAndScale libyuv b x y cw ch w h =
        Option.bind (create_buffer g w h) (\<lambda>result. Option.bind (cropAndScaleFrom libyuv result b x y cw ch) (\<lambda>c. Some (result, [c])))"
      using True d e by (auto simp: cropAndScale_def I444_cropAndScale_def I422_cropAndScale_def NV12_cropAndScale_def g_def create_buffer_def cropAndScaleFrom_def)
    then show ?thesis
      using crop_from_result [OF l b d(2) e d(4,5) s c] d True by (auto simp: op_result_def g_def)
  next
    case False
    obtain i cs where i: "toI420 libyuv b = Some (i, cs)" "buffer_ok i" "bf_type i = kI420" "bf_width i = bf_width b" "bf_height i = bf_height b"
        "\<forall>c \<in> set cs. call_inside c"
      using toI420_ok [OF l b] by (auto simp: op_result_def)
    have g: "g = kI420" using False by (auto simp: g_def)
    have ci: "crop_ok i x y cw ch" "bf_type d = bf_type i" "bf_width i \<le> 16384" "bf_height i \<le> 16384" using c i d(3) g b by (simp_all add: crop_ok_def)
    have "cropAndScale libyuv b = base_cropAndScale libyuv b" using False by (cases "bf_type b") (simp_all add: cropAndScale_def)
    then have "cropAndScale libyuv b x y cw ch w h = Option.bind (cropAndScaleFrom libyuv d i x y cw ch) (\<lambda>c. Some (d, cs @ [c]))"
      using d i g by (simp add: base_cropAndScale_def create_I420 cropAndScaleFrom_def)
    then show ?thesis
      using crop_from_result [OF l i(2) ci(3,4) d(2) ci(2) d(4,5) s ci(1)] d False i(6) g by (auto simp: op_result_def)
  qed
qed

lemma center_crop:
  assumes b: "buffer_ok b" "bf_width b \<le> 16384" "bf_height b \<le> 16384" "bf_type b = kI420" "bf_type dst = kI420"
    and d: "size_ok (bf_width dst) (bf_height dst)" "bf_height dst \<le> bf_width dst * bf_height b" "bf_width dst \<le> bf_height dst * bf_width b"
  defines "cw \<equiv> min (bf_width b) (bf_width dst * bf_height b div bf_height dst)" and "ch \<equiv> min (bf_height b) (bf_height dst * bf_width b div bf_width dst)"
  shows "I420_cropAndScaleCenter libyuv dst b = cropAndScaleFrom libyuv dst b ((bf_width b - cw) div 2) ((bf_height b - ch) div 2) cw ch"
    "crop_ok b ((bf_width b - cw) div 2) ((bf_height b - ch) div 2) cw ch"
proof -
  have p: "0 < bf_width b" "0 < bf_height b" "0 < bf_width dst" "0 < bf_height dst" "bf_width dst \<le> 16384" "bf_height dst \<le> 16384"
    using b d(1) by (simp_all add: buffer_ok_def size_ok_def)
  have q: "1 \<le> bf_width dst * bf_height b div bf_height dst" "1 \<le> bf_height dst * bf_width b div bf_width dst"
    using d(2,3) p zdiv_mono1 [OF d(2) p(4)] zdiv_mono1 [OF d(3) p(3)] by simp_all
  then have c: "0 < cw" "cw \<le> bf_width b" "0 < ch" "ch \<le> bf_height b" using p by (simp_all add: cw_def ch_def)
  have half: "x div 2 \<le> x" if "0 \<le> x" for x :: int using that by presburger
  show "crop_ok b ((bf_width b - cw) div 2) ((bf_height b - ch) div 2) cw ch"
    using c half [of "bf_width b - cw"] half [of "bf_height b - ch"] by (simp add: crop_ok_def)
  have m: "in_int32 (bf_width dst * bf_height b)" "in_int32 (bf_height dst * bf_width b)"
    using mult_mono [of "bf_width dst" 16384 "bf_height b" 16384] mult_mono [of "bf_height dst" 16384 "bf_width b" 16384]
      mult_pos_pos [OF p(3,2)] mult_pos_pos [OF p(4,1)] p b by (simp_all add: in_int32_def int_range_defs order_trans [of "- _" 0])
  have dv: "div32 (bf_width dst * bf_height b) (bf_height dst) = Some (bf_width dst * bf_height b div bf_height dst)"
      "div32 (bf_height dst * bf_width b) (bf_width dst) = Some (bf_height dst * bf_width b div bf_width dst)"
    using m p by (simp_all add: div32_nonneg)
  have df: "in_int32 (bf_width b - cw)" "in_int32 (bf_height b - ch)" using c b by (simp_all add: in_int32_def int_range_defs)
  then have hf: "div32 (bf_width b - cw) 2 = Some ((bf_width b - cw) div 2)" "div32 (bf_height b - ch) 2 = Some ((bf_height b - ch) div 2)"
    using c by (simp_all add: div32_nonneg)
  show "I420_cropAndScaleCenter libyuv dst b = cropAndScaleFrom libyuv dst b ((bf_width b - cw) div 2) ((bf_height b - ch) div 2) cw ch"
    using p m dv df hf b(5) by (simp add: I420_cropAndScaleCenter_def cropAndScaleFrom_def flip: cw_def ch_def)
qed

lemma target_okD:
  assumes "target_ok dst b"
  shows "buffer_ok dst" "bf_type dst = bf_type b" "size_ok (bf_width dst) (bf_height dst)"
proof -
  obtain sy su sv where c: "construct (bf_type b) (bf_width dst) (bf_height dst) sy su sv = Some dst" and s: "size_ok (bf_width dst) (bf_height dst)"
    using assms by (auto simp: target_ok_def)
  show "buffer_ok dst" "bf_type dst = bf_type b" "size_ok (bf_width dst) (bf_height dst)"
    using construct_ok(1,2) [OF c] s by blast+
qed

lemma whole_crop_ok: "buffer_ok b \<Longrightarrow> crop_ok b 0 0 (bf_width b) (bf_height b)"
  by (simp add: crop_ok_def buffer_ok_def)

lemma run_op_ok:
  assumes l: "libyuv_accepts libyuv" and b: "buffer_ok b" "bf_width b \<le> 16384" "bf_height b \<le> 16384" and op: "op_ok op b"
  shows "op_result (run_op libyuv op b) (result_format op (bf_type b)) (result_size op (bf_width b, bf_height b))"
proof (cases op)
  case OpCopy
  then show ?thesis using copy_ok [OF l b] op by simp
next
  case OpToI420
  then show ?thesis using toI420_ok [OF l b] by simp
next
  case (OpRotate r)
  then show ?thesis using rotate_ok [OF l b] op by simp
next
  case (OpConvert g)
  then show ?thesis using convert_I420_ok [OF l b] op by simp
next
  case (OpCropAndScale x y cw ch w h)
  then show ?thesis using cropAndScale_ok [OF l b, of x y cw ch w h] op by simp
next
  case (OpScale w h)
  then show ?thesis using cropAndScale_ok [OF l b whole_crop_ok [OF b(1)], of w h] op by (simp add: scale_def)
next
  case (OpCropFrom dst x y cw ch)
  then have t: "target_ok dst b" "crop_ok b x y cw ch" using op by simp_all
  show ?thesis using crop_from_result [OF l b target_okD(1,2) [OF t(1)] refl refl target_okD(3) [OF t(1)] t(2)] target_okD [OF t(1)] OpCropFrom
    by (auto simp: op_result_def)
next
  case (OpScaleFrom dst)
  then have t: "target_ok dst b" "bf_type b \<in> {kI420, kI010, kI210, kI410}" using op by simp_all
  note c = crop_from_result [OF l b target_okD(1,2) [OF t(1)] refl refl target_okD(3) [OF t(1)] whole_crop_ok [OF b(1)]]
  then show ?thesis using t(2) target_okD [OF t(1)] OpScaleFrom
    by (auto simp: op_result_def cropAndScaleFrom_def I420_scaleFrom_def I010_scaleFrom_def I210_scaleFrom_def I410_scaleFrom_def)
next
  case (OpCenter dst)
  then have t: "target_ok dst b" "bf_type b = kI420" "bf_height dst \<le> bf_width dst * bf_height b" "bf_width dst \<le> bf_height dst * bf_width b"
    using op by simp_all
  have "bf_type dst = kI420" using target_okD [OF t(1)] t(2) by simp
  note c = center_crop [OF b t(2) this target_okD(3) [OF t(1)] t(3,4)]
  show ?thesis
    using crop_from_result [OF l b target_okD(1,2) [OF t(1)] refl refl target_okD(3) [OF t(1)] c(2)] target_okD [OF t(1)] OpCenter
    by (auto simp: op_result_def c(1))
next
  case OpSetBlack
  have "yuv_size (bf_width b, bf_height b)" using b by (simp add: yuv_size_def buffer_ok_def)
  then have "SetBlack libyuv b = yuv (YuvRect (bf_width b) (bf_height b)) b [] (0, 0) b"
    unfolding SetBlack_def by (intro yuv_checked_eq [OF l b(1)]) simp_all
  then show ?thesis using OpSetBlack op b(1) yuv_eq [OF b(1)] memory_eq [OF b(1)]
    by (auto simp: op_result_def call_inside_def call_writes_def)
qed

text \<open>
  C28: the operations that move pixels -- copies and rotations of the six planar formats, conversions, and crops and scalings of all seven formats --
  return, for buffers of up to 16384 by 16384 with any strides and crops of positive size inside the buffer, provided libyuv accepts images of
  positive size. The crop of the centre is included unless its shape is extreme (the destination more than \<open>src.height()\<close> times as high as wide,
  or more than \<open>src.width()\<close> times as wide as high), where the computed crop has no rows or columns. The
  result has the right format and size; each call of libyuv reads every plane of its source inside that plane, and writes each
  plane of its destination entirely and nothing else; and the last call fills the result.
\<close>

theorem frame_buffer_ops:
  assumes "libyuv_accepts libyuv" "construct f w h sy su sv = Some b" "w \<le> 16384" "h \<le> 16384" "op_ok op b"
  shows "\<exists>b' cs. run_op libyuv op b = Some (b', cs) \<and> bf_type b' = result_format op f \<and> (bf_width b', bf_height b') = result_size op (w, h) \<and>
    cs \<noteq> [] \<and> yc_to (last cs) = b' \<and>
    (\<forall>c \<in> set cs. (op_src (yc_op c) \<noteq> None \<longrightarrow> op_src (yc_op c) = Some (bf_type (yc_from c)) \<and> list_all2 (\<subseteq>) (call_reads c) (memory (yc_from c))) \<and>
       op_dst (yc_op c) = bf_type (yc_to c) \<and> call_writes c = memory (yc_to c))"
  using run_op_ok [OF assms(1) construct_ok(1) [OF assms(2)] _ _ assms(5)] construct_ok(2-4) [OF assms(2)] assms(3,4)
  by (auto simp: op_result_def call_inside_def)

theorem frame_buffer_ops_witness:
  "\<exists>b b' cs. construct kI210 5 3 8 4 4 = Some b \<and> run_op (\<lambda>c. 0) (OpCropAndScale 3 1 2 2 7 7) b = Some (b', cs) \<and> bf_type b' = kI420 \<and>
     bf_width b' = 7 \<and> yc_to (last cs) = b'"
proof -
  have c: "construct kI210 5 3 8 4 4 = Some (make_buffer kI210 5 3 8 4 4 96)"
    by (simp add: construct_def I210Buffer_def I210DataSize_def I422DataSize_def check_half_def half_up_def div32_def sdiv_nonneg int32_def in_int32_def int_range_defs kBytesPerPixel_def)
  have "op_ok (OpCropAndScale 3 1 2 2 7 7) (make_buffer kI210 5 3 8 4 4 96)" by (simp add: make_buffer_def crop_ok_def size_ok_def)
  from frame_buffer_ops [OF _ c _ _ this, of "\<lambda>c. 0"] show ?thesis using c by (auto simp: libyuv_accepts_def)
qed

end
