(* ===== verification/Simulation.thy ===== *)
theory Simulation
  imports Octk_Prelude
begin

text \<open>
  Refinement of whole sessions. An operation of the code is a function \<open>step\<close> that may fail; what it promises is a relation
  \<open>spec\<close> on abstract values, for calls that are admissible (\<open>ok\<close>) for the abstract value they find. The locale \<open>simulation\<close> is the contract that
  every admissible call returns, keeps an invariant and does what is promised; then so does every session of calls that are
  admissible whatever choices the specification leaves open.
\<close>

fun run :: "('o \<Rightarrow> 's \<Rightarrow> 's option) \<Rightarrow> 'o list \<Rightarrow> 's \<Rightarrow> 's option" where
  "run step [] s = Some s"
| "run step (x # xs) s = do { s' \<leftarrow> step x s; run step xs s' }"

fun spec_run :: "('o \<Rightarrow> 'a \<Rightarrow> 'a \<Rightarrow> bool) \<Rightarrow> 'o list \<Rightarrow> 'a \<Rightarrow> 'a \<Rightarrow> bool" where
  "spec_run spec [] a b \<longleftrightarrow> a = b"
| "spec_run spec (x # xs) a b \<longleftrightarrow> (\<exists>a'. spec x a a' \<and> spec_run spec xs a' b)"

fun admissible :: "('o \<Rightarrow> 'a \<Rightarrow> bool) \<Rightarrow> ('o \<Rightarrow> 'a \<Rightarrow> 'a \<Rightarrow> bool) \<Rightarrow> 'o list \<Rightarrow> 'a \<Rightarrow> bool" where
  "admissible ok spec [] a \<longleftrightarrow> True"
| "admissible ok spec (x # xs) a \<longleftrightarrow> ok x a \<and> (\<forall>a'. spec x a a' \<longrightarrow> admissible ok spec xs a')"

locale simulation =
  fixes inv :: "'s \<Rightarrow> bool" and abs :: "'s \<Rightarrow> 'a" and step :: "'o \<Rightarrow> 's \<Rightarrow> 's option"
    and ok :: "'o \<Rightarrow> 'a \<Rightarrow> bool" and spec :: "'o \<Rightarrow> 'a \<Rightarrow> 'a \<Rightarrow> bool"
  assumes sim: "inv s \<Longrightarrow> ok x (abs s) \<Longrightarrow> \<exists>s'. step x s = Some s' \<and> inv s' \<and> spec x (abs s) (abs s')"
begin

lemma session:
  "inv s \<Longrightarrow> admissible ok spec xs (abs s) \<Longrightarrow> \<exists>s'. run step xs s = Some s' \<and> inv s' \<and> spec_run spec xs (abs s) (abs s')"
proof (induction xs arbitrary: s)
  case (Cons x xs)
  then obtain s' where s': "step x s = Some s'" "inv s'" "spec x (abs s) (abs s')" using sim [of s x] by auto
  then have "admissible ok spec xs (abs s')" using Cons.prems(2) by simp
  then show ?case using Cons.IH [OF s'(2)] s' by auto
qed simp

end

end
