(* ===== verification/Buffers.thy ===== *)
theory Buffers
  imports Simulation
begin

text \<open>
  \<open>BufferT\<close> of \<open>src/libs/core/source/tools/octk_buffer.hpp\<close>. A block of memory is a list of cells; a cell that was never written is
  \<^term>\<open>None\<close>. A buffer has its size, its capacity and its block, which is \<^term>\<open>None\<close> for a null pointer. Sizes are \<open>size_t\<close>, natural numbers
  whose sum wraps around; \<open>new\<close> fails for \<open>2 ^ 63\<close> elements or more. The template argument \<open>ZeroOnFree\<close> is the parameter \<open>zof\<close>, and an
  operation returns the blocks it gives back to the allocator, with their contents at that time. Accesses outside a block and
  failed checks are \<^term>\<open>None\<close>.
\<close>

section \<open>The class\<close>

type_synonym 'a cells = "'a option list"

record 'a buffer_t =
  mSize :: nat
  mCapacity :: nat
  mData :: "'a cells option"

definition size_add :: "nat \<Rightarrow> nat \<Rightarrow> nat" where
  "size_add a b = (a + b) mod 2 ^ 64"

definition new_array :: "nat \<Rightarrow> 'a cells option" where
  "new_array n = (if n < 2 ^ 63 then Some (replicate n None) else None)"

definition mem_read :: "'a cells \<Rightarrow> nat \<Rightarrow> nat \<Rightarrow> 'a cells option" where
  "mem_read d at n = (if at + n \<le> length d then Some (take n (drop at d)) else None)"

definition mem_write :: "'a cells \<Rightarrow> nat \<Rightarrow> 'a cells \<Rightarrow> 'a cells option" where
  "mem_write d at xs = (if at + length xs \<le> length d then Some (take at d @ xs @ drop (at + length xs) d) else None)"

definition IsConsistent :: "'a buffer_t \<Rightarrow> bool" where
  "IsConsistent b \<longleftrightarrow> (mData b \<noteq> None \<or> mCapacity b = 0) \<and> mSize b \<le> mCapacity b"

definition BufferT_empty :: "'a buffer_t" where
  "BufferT_empty = \<lparr>mSize = 0, mCapacity = 0, mData = None\<rparr>"

definition BufferT_new :: "nat \<Rightarrow> nat \<Rightarrow> 'a buffer_t option" where
  "BufferT_new n capacity = do {
     let cap = max n capacity;
     d \<leftarrow> (if 0 < cap then map_option Some (new_array cap) else Some None);
     let b = \<lparr>mSize = n, mCapacity = cap, mData = d\<rparr>;
     dcheck (IsConsistent b);
     Some b
   }"

definition BufferT_data :: "'a cells \<Rightarrow> nat \<Rightarrow> 'a buffer_t option" where
  "BufferT_data data capacity = do {
     b \<leftarrow> BufferT_new (length data) capacity;
     if 0 < length data then do {
       d \<leftarrow> mData b;
       d \<leftarrow> mem_write d 0 data;
       Some (b\<lparr>mData := Some d\<rparr>)
     } else Some b
   }"

text \<open>In a checked build, a buffer that was moved from is made inconsistent.\<close>

definition OnMovedFrom :: "'a buffer_t \<Rightarrow> 'a buffer_t option" where
  "OnMovedFrom b = do { dcheck (mData b = None); Some (b\<lparr>mSize := 1, mCapacity := 0\<rparr>) }"

definition BufferT_move :: "'a buffer_t \<Rightarrow> ('a buffer_t \<times> 'a buffer_t) option" where
  "BufferT_move buf = do {
     dcheck (IsConsistent buf);
     let b = \<lparr>mSize = mSize buf, mCapacity = mCapacity buf, mData = mData buf\<rparr>;
     dcheck (IsConsistent b);
     buf \<leftarrow> OnMovedFrom (buf\<lparr>mData := None\<rparr>);
     Some (b, buf)
   }"

definition zero_cells :: "'a :: zero cells \<Rightarrow> nat \<Rightarrow> nat \<Rightarrow> 'a cells option" where
  "zero_cells d at n = mem_write d at (replicate n (Some 0))"

definition MaybeZeroCompleteBuffer :: "bool \<Rightarrow> 'a :: zero buffer_t \<Rightarrow> 'a buffer_t option" where
  "MaybeZeroCompleteBuffer zof b =
     (if zof \<and> 0 < mCapacity b then do { d \<leftarrow> mData b; d \<leftarrow> zero_cells d 0 (mCapacity b); Some (b\<lparr>mData := Some d\<rparr>) } else Some b)"

definition ZeroTrailingData :: "nat \<Rightarrow> 'a :: zero buffer_t \<Rightarrow> 'a buffer_t option" where
  "ZeroTrailingData n b = do {
     dcheck (IsConsistent b);
     dcheck (n \<le> mCapacity b - mSize b);
     d \<leftarrow> mData b;
     d \<leftarrow> zero_cells d (mSize b) n;
     Some (b\<lparr>mData := Some d\<rparr>)
   }"

definition block_list :: "'a buffer_t \<Rightarrow> 'a cells list" where
  "block_list b = (case mData b of None \<Rightarrow> [] | Some d \<Rightarrow> [d])"

definition BufferT_destroy :: "bool \<Rightarrow> 'a :: zero buffer_t \<Rightarrow> 'a cells list option" where
  "BufferT_destroy zof b = do { b \<leftarrow> MaybeZeroCompleteBuffer zof b; Some (block_list b) }"

definition EnsureCapacityWithHeadroom :: "bool \<Rightarrow> nat \<Rightarrow> bool \<Rightarrow> 'a :: zero buffer_t \<Rightarrow> ('a buffer_t \<times> 'a cells list) option" where
  "EnsureCapacityWithHeadroom zof capacity extra_headroom b = do {
     dcheck (IsConsistent b);
     if capacity \<le> mCapacity b then Some (b, [])
     else do {
       let new_capacity = (if extra_headroom then max capacity (size_add (mCapacity b) (mCapacity b div 2)) else capacity);
       new_data \<leftarrow> new_array new_capacity;
       new_data \<leftarrow> (case mData b of None \<Rightarrow> Some new_data
         | Some d \<Rightarrow> do { xs \<leftarrow> mem_read d 0 (mSize b); mem_write new_data 0 xs });
       b \<leftarrow> MaybeZeroCompleteBuffer zof b;
       let freed = block_list b;
       let b = b\<lparr>mData := Some new_data, mCapacity := new_capacity\<rparr>;
       dcheck (IsConsistent b);
       Some (b, freed)
     }
   }"

definition EnsureCapacity :: "bool \<Rightarrow> nat \<Rightarrow> 'a :: zero buffer_t \<Rightarrow> ('a buffer_t \<times> 'a cells list) option" where
  "EnsureCapacity zof capacity b = EnsureCapacityWithHeadroom zof capacity False b"

text \<open>The zeroing at the end of \<open>SetData\<close> and \<open>SetSize\<close>, when the buffer has become smaller.\<close>

definition zero_old :: "bool \<Rightarrow> nat \<Rightarrow> 'a :: zero buffer_t \<Rightarrow> 'a buffer_t option" where
  "zero_old zof old_size b = (if zof \<and> mSize b < old_size then ZeroTrailingData (old_size - mSize b) b else Some b)"

definition SetSize :: "bool \<Rightarrow> nat \<Rightarrow> 'a :: zero buffer_t \<Rightarrow> ('a buffer_t \<times> 'a cells list) option" where
  "SetSize zof n b = do {
     let old_size = mSize b;
     (b, freed) \<leftarrow> EnsureCapacityWithHeadroom zof n True b;
     b \<leftarrow> zero_old zof old_size (b\<lparr>mSize := n\<rparr>);
     Some (b, freed)
   }"

definition AppendData :: "bool \<Rightarrow> 'a cells \<Rightarrow> 'a :: zero buffer_t \<Rightarrow> ('a buffer_t \<times> 'a cells list) option" where
  "AppendData zof data b =
     (if data = [] then Some (b, [])
      else do {
        dcheck (IsConsistent b);
        let new_size = size_add (mSize b) (length data);
        (b, freed) \<leftarrow> EnsureCapacityWithHeadroom zof new_size True b;
        d \<leftarrow> mData b;
        d \<leftarrow> mem_write d (mSize b) data;
        let b = b\<lparr>mData := Some d, mSize := new_size\<rparr>;
        dcheck (IsConsistent b);
        Some (b, freed)
      })"

definition SetData :: "bool \<Rightarrow> 'a cells \<Rightarrow> 'a :: zero buffer_t \<Rightarrow> ('a buffer_t \<times> 'a cells list) option" where
  "SetData zof data b = do {
     dcheck (IsConsistent b);
     let old_size = mSize b;
     (b, freed) \<leftarrow> AppendData zof data (b\<lparr>mSize := 0\<rparr>);
     b \<leftarrow> zero_old zof old_size b;
     Some (b, freed)
   }"

text \<open>The versions that take a function, which fills a view of the memory and returns how many elements it wrote.\<close>

type_synonym 'a setter = "'a cells \<Rightarrow> 'a cells \<times> nat"

definition AppendData_with :: "bool \<Rightarrow> nat \<Rightarrow> 'a setter \<Rightarrow> 'a :: zero buffer_t \<Rightarrow> ('a buffer_t \<times> 'a cells list \<times> nat) option" where
  "AppendData_with zof max_elements setter b = do {
     dcheck (IsConsistent b);
     let old_size = mSize b;
     (b, freed) \<leftarrow> SetSize zof (size_add old_size max_elements) b;
     let d = (case mData b of None \<Rightarrow> [] | Some d \<Rightarrow> d);
     view \<leftarrow> mem_read d old_size max_elements;
     let (view, written) = setter view;
     dcheck (length view = max_elements);
     d \<leftarrow> mem_write d old_size view;
     dcheck (written \<le> max_elements);
     let b = b\<lparr>mData := map_option (\<lambda>_. d) (mData b), mSize := size_add old_size written\<rparr>;
     dcheck (IsConsistent b);
     Some (b, freed, written)
   }"

definition SetData_with :: "bool \<Rightarrow> nat \<Rightarrow> 'a setter \<Rightarrow> 'a :: zero buffer_t \<Rightarrow> ('a buffer_t \<times> 'a cells list \<times> nat) option" where
  "SetData_with zof max_elements setter b = do {
     dcheck (IsConsistent b);
     let old_size = mSize b;
     (b, freed, written) \<leftarrow> AppendData_with zof max_elements setter (b\<lparr>mSize := 0\<rparr>);
     b \<leftarrow> zero_old zof old_size b;
     Some (b, freed, written)
   }"

definition BufferT_Clear :: "bool \<Rightarrow> 'a :: zero buffer_t \<Rightarrow> 'a buffer_t option" where
  "BufferT_Clear zof b = do {
     b \<leftarrow> MaybeZeroCompleteBuffer zof b;
     let b = b\<lparr>mSize := 0\<rparr>;
     dcheck (IsConsistent b);
     Some b
   }"

definition BufferT_assign :: "bool \<Rightarrow> 'a :: zero buffer_t \<Rightarrow> 'a buffer_t \<Rightarrow> ('a buffer_t \<times> 'a buffer_t \<times> 'a cells list) option" where
  "BufferT_assign zof b buf = do {
     dcheck (IsConsistent buf);
     b \<leftarrow> MaybeZeroCompleteBuffer zof b;
     let freed = block_list b;
     let b = b\<lparr>mSize := mSize buf, mCapacity := mCapacity buf, mData := mData buf\<rparr>;
     buf \<leftarrow> OnMovedFrom (buf\<lparr>mData := None\<rparr>);
     Some (b, buf, freed)
   }"

definition BufferT_swap :: "'a buffer_t \<Rightarrow> 'a buffer_t \<Rightarrow> 'a buffer_t \<times> 'a buffer_t" where
  "BufferT_swap a b = (b, a)"

definition BufferT_at :: "'a buffer_t \<Rightarrow> nat \<Rightarrow> 'a option option" where
  "BufferT_at b i = do { dcheck (i < mSize b); dcheck (IsConsistent b); d \<leftarrow> mData b; deref d i }"

definition BufferT_eq :: "'a buffer_t \<Rightarrow> 'a buffer_t \<Rightarrow> bool option" where
  "BufferT_eq a b = do {
     dcheck (IsConsistent a);
     if mSize a \<noteq> mSize b then Some False
     else do {
       xs \<leftarrow> (case mData a of None \<Rightarrow> if mSize a = 0 then Some [] else None | Some d \<Rightarrow> mem_read d 0 (mSize a));
       ys \<leftarrow> (case mData b of None \<Rightarrow> if mSize b = 0 then Some [] else None | Some d \<Rightarrow> mem_read d 0 (mSize b));
       Some (xs = ys)
     }
   }"


section \<open>Invariant and contents\<close>

definition cells :: "'a buffer_t \<Rightarrow> 'a cells" where
  "cells b = (case mData b of None \<Rightarrow> [] | Some d \<Rightarrow> d)"

definition contents :: "'a buffer_t \<Rightarrow> 'a cells" where
  "contents b = take (mSize b) (cells b)"

definition buf_inv :: "'a buffer_t \<Rightarrow> bool" where
  "buf_inv b \<longleftrightarrow> length (cells b) = mCapacity b \<and> mSize b \<le> mCapacity b \<and> mCapacity b \<le> 3 * 2 ^ 61"

text \<open>Memory from an index on that holds no data.\<close>

definition blank :: "nat \<Rightarrow> 'a :: zero buffer_t \<Rightarrow> bool" where
  "blank k b \<longleftrightarrow> set (drop k (cells b)) \<subseteq> {None, Some 0}"

definition zeroed :: "'a :: zero cells list \<Rightarrow> bool" where
  "zeroed ds \<longleftrightarrow> (\<forall>d \<in> set ds. set d \<subseteq> {Some 0})"

lemma buf_inv_consistent: "buf_inv b \<Longrightarrow> IsConsistent b"
  by (auto simp: buf_inv_def IsConsistent_def cells_def split: option.splits)

lemma length_contents [simp]: "buf_inv b \<Longrightarrow> length (contents b) = mSize b"
  by (simp add: buf_inv_def contents_def)

lemma cells_simps [simp]:
  "cells \<lparr>mSize = n, mCapacity = c, mData = d\<rparr> = (case d of None \<Rightarrow> [] | Some xs \<Rightarrow> xs)"
  "cells (b\<lparr>mSize := n\<rparr>) = cells b" "cells (b\<lparr>mData := Some xs\<rparr>) = xs" "cells (b\<lparr>mCapacity := c\<rparr>) = cells b"
  by (simp_all add: cells_def)

lemma cells_pos: "buf_inv b \<Longrightarrow> 0 < mCapacity b \<Longrightarrow> mData b = Some (cells b)"
  by (auto simp: buf_inv_def cells_def split: option.splits)

lemma new_array_eq: "n \<le> 3 * 2 ^ 61 \<Longrightarrow> new_array n = Some (replicate n None)"
  by (simp add: new_array_def)

lemma size_add_eq: "a + b \<le> 2 ^ 63 \<Longrightarrow> size_add a b = a + b"
  by (simp add: size_add_def)

lemma mem_read_eq: "at + n \<le> length d \<Longrightarrow> mem_read d at n = Some (take n (drop at d))"
  by (simp add: mem_read_def)

lemma mem_write_eq: "at + length xs \<le> length d \<Longrightarrow> mem_write d at xs = Some (take at d @ xs @ drop (at + length xs) d)"
  by (simp add: mem_write_def)

lemma MaybeZero_ok:
  assumes "buf_inv b"
  shows "\<exists>b'. MaybeZeroCompleteBuffer zof b = Some b' \<and> mSize b' = mSize b \<and> mCapacity b' = mCapacity b \<and> length (cells b') = mCapacity b \<and>
    mData b' = (if zof \<and> 0 < mCapacity b then Some (replicate (mCapacity b) (Some 0)) else mData b)"
proof (cases "zof \<and> 0 < mCapacity b")
  case True
  then show ?thesis using assms cells_pos [OF assms]
    by (simp add: MaybeZeroCompleteBuffer_def zero_cells_def mem_write_eq buf_inv_def)
next
  case False
  then show ?thesis using assms by (auto simp: MaybeZeroCompleteBuffer_def buf_inv_def)
qed

lemma block_list_zeroed: "buf_inv b \<Longrightarrow> mData b' = (if 0 < mCapacity b then Some (replicate (mCapacity b) (Some 0)) else mData b) \<Longrightarrow> zeroed (block_list b')"
  by (auto simp: zeroed_def block_list_def buf_inv_def cells_def split: option.splits if_splits)

lemma Ensure_ok:
  assumes inv: "buf_inv b" and cap: "capacity \<le> max (2 ^ 62) (mCapacity b)"
  shows "\<exists>b' freed. EnsureCapacityWithHeadroom zof capacity headroom b = Some (b', freed) \<and> buf_inv b' \<and> mSize b' = mSize b \<and>
    contents b' = contents b \<and> capacity \<le> mCapacity b' \<and> mCapacity b \<le> mCapacity b' \<and> (zof \<longrightarrow> zeroed freed) \<and> (\<forall>k \<ge> mSize b. zof \<and> blank k b \<longrightarrow> blank k b') \<and>
    (mCapacity b' = mCapacity b \<or> \<not> headroom \<or> mCapacity b + mCapacity b div 2 \<le> mCapacity b') \<and> (capacity \<le> mCapacity b \<longrightarrow> b' = b)"
proof (cases "capacity \<le> mCapacity b")
  case True
  then show ?thesis using inv buf_inv_consistent [OF inv] by (simp add: EnsureCapacityWithHeadroom_def zeroed_def)
next
  case False
  define n where "n = (if headroom then max capacity (size_add (mCapacity b) (mCapacity b div 2)) else capacity)"
  have s: "mSize b \<le> mCapacity b" "length (cells b) = mCapacity b" using inv by (simp_all add: buf_inv_def)
  have a: "size_add (mCapacity b) (mCapacity b div 2) = mCapacity b + mCapacity b div 2" using False cap by (intro size_add_eq) simp
  have n: "capacity \<le> n" "n \<le> 3 * 2 ^ 61" "mCapacity b < n" "headroom \<Longrightarrow> mCapacity b + mCapacity b div 2 \<le> n"
    using False cap unfolding n_def a by auto
  obtain b1 where b1: "MaybeZeroCompleteBuffer zof b = Some b1" "mSize b1 = mSize b" "mCapacity b1 = mCapacity b"
      "mData b1 = (if zof \<and> 0 < mCapacity b then Some (replicate (mCapacity b) (Some 0)) else mData b)"
    using MaybeZero_ok [OF inv] by blast
  define new where "new = contents b @ replicate (n - mSize b) None"
  have new: "(case mData b of None \<Rightarrow> Some (replicate n None) | Some d \<Rightarrow> do { xs \<leftarrow> mem_read d 0 (mSize b); mem_write (replicate n None) 0 xs }) = Some new"
    using s n(3) by (auto simp: new_def contents_def cells_def mem_read_eq mem_write_eq split: option.splits)
  define b2 where "b2 = b1\<lparr>mData := Some new, mCapacity := n\<rparr>"
  have l: "length (contents b) = mSize b" using inv by simp
  have i2: "buf_inv b2" "mSize b2 = mSize b" "contents b2 = contents b" "cells b2 = new"
    using n s l by (simp_all add: b2_def buf_inv_def contents_def b1 new_def del: length_contents)
  have "EnsureCapacityWithHeadroom zof capacity headroom b = Some (b2, block_list b1)"
    using False buf_inv_consistent [OF inv] buf_inv_consistent [OF i2(1)] n(2) b1(1) new
    by (simp add: EnsureCapacityWithHeadroom_def new_array_eq flip: n_def b2_def)
  moreover have "zof \<longrightarrow> zeroed (block_list b1)" using block_list_zeroed [OF inv, of b1] b1(4) by simp
  moreover have "\<forall>k \<ge> mSize b. zof \<and> blank k b \<longrightarrow> blank k b2" using i2(4) l by (auto simp: blank_def new_def)
  ultimately show ?thesis using i2 n False by (auto simp: b2_def)
qed

lemma blank_drop: "blank k b \<Longrightarrow> k \<le> j \<Longrightarrow> blank j b"
  using set_drop_subset_set_drop [of k j "cells b"] by (auto simp: blank_def)

lemma zero_old_ok:
  assumes inv: "buf_inv b" and old: "old_size \<le> mCapacity b"
  shows "\<exists>b'. zero_old zof old_size b = Some b' \<and> buf_inv b' \<and> mSize b' = mSize b \<and> mCapacity b' = mCapacity b \<and> contents b' = contents b \<and>
    (\<forall>k. zof \<and> blank (max k (mSize b)) b \<and> k \<le> old_size \<longrightarrow> blank (mSize b) b') \<and> (\<not> zof \<longrightarrow> b' = b)"
proof (cases "zof \<and> mSize b < old_size")
  case True
  let ?new = "take (mSize b) (cells b) @ replicate (old_size - mSize b) (Some 0) @ drop old_size (cells b)"
  have s: "mSize b \<le> mCapacity b" "length (cells b) = mCapacity b" "mCapacity b \<le> 3 * 2 ^ 61" using inv by (simp_all add: buf_inv_def)
  have "old_size - mSize b \<le> mCapacity b - mSize b" using old by simp
  then have "zero_old zof old_size b = Some (b\<lparr>mData := Some ?new\<rparr>)"
    using True old s buf_inv_consistent [OF inv] cells_pos [OF inv] by (simp add: zero_old_def ZeroTrailingData_def zero_cells_def mem_write_eq)
  moreover have "buf_inv (b\<lparr>mData := Some ?new\<rparr>)" "contents (b\<lparr>mData := Some ?new\<rparr>) = contents b"
    using True s old by (simp_all add: buf_inv_def contents_def)
  moreover have "blank (mSize b) (b\<lparr>mData := Some ?new\<rparr>)" if "blank (max k (mSize b)) b" "k \<le> old_size" for k
    using blank_drop [OF that(1), of old_size] that(2) True s by (auto simp: blank_def)
  ultimately show ?thesis using True by auto
next
  case False
  then have "blank (mSize b) b" if "zof" "blank (max k (mSize b)) b" "k \<le> old_size" for k
    using blank_drop [OF that(2), of "mSize b"] that by simp
  then show ?thesis using False inv by (auto simp: zero_old_def)
qed

lemma SetSize_ok:
  assumes inv: "buf_inv b" and n: "n \<le> max (2 ^ 62) (mCapacity b)"
  shows "\<exists>b' freed. SetSize zof n b = Some (b', freed) \<and> buf_inv b' \<and> mSize b' = n \<and> take (mSize b) (contents b') = take n (contents b) \<and>
    mCapacity b \<le> mCapacity b' \<and> (zof \<longrightarrow> zeroed freed) \<and> (zof \<and> blank (mSize b) b \<longrightarrow> blank n b') \<and> (\<not> zof \<and> n \<le> mCapacity b \<longrightarrow> cells b' = cells b)"
proof -
  obtain b1 freed where b1: "EnsureCapacityWithHeadroom zof n True b = Some (b1, freed)" "buf_inv b1" "mSize b1 = mSize b" "contents b1 = contents b"
      "n \<le> mCapacity b1" "mCapacity b \<le> mCapacity b1" "zof \<longrightarrow> zeroed freed" "\<forall>k \<ge> mSize b. zof \<and> blank k b \<longrightarrow> blank k b1" "n \<le> mCapacity b \<longrightarrow> b1 = b"
    using Ensure_ok [OF inv n, of zof True] by blast
  let ?b2 = "b1\<lparr>mSize := n\<rparr>"
  have i2: "buf_inv ?b2" using b1(2,5) by (simp add: buf_inv_def)
  have "mSize b \<le> mCapacity ?b2" using inv b1(6) by (simp add: buf_inv_def)
  then obtain b3 where b3: "zero_old zof (mSize b) ?b2 = Some b3" "buf_inv b3" "mSize b3 = n" "mCapacity b3 = mCapacity b1" "contents b3 = contents ?b2"
      "\<forall>k. zof \<and> blank (max k n) ?b2 \<and> k \<le> mSize b \<longrightarrow> blank n b3" "\<not> zof \<longrightarrow> b3 = ?b2"
    using zero_old_ok [OF i2, of "mSize b" zof] by auto
  have "take (mSize b) (contents ?b2) = take n (contents b)"
    using b1(3,4) by (simp add: contents_def take_take min.commute) (metis min.idem take_take)
  moreover have "blank n b3" if "zof" "blank (mSize b) b"
  proof -
    have "blank (mSize b) b1" using b1(8) that by blast
    then have "blank (max (mSize b) n) ?b2" using blank_drop [of "mSize b" b1 "max (mSize b) n"] by (simp add: blank_def)
    then show ?thesis using b3(6) that(1) by blast
  qed
  ultimately show ?thesis using b1 b3 by (auto simp: SetSize_def Let_def)
qed

lemma AppendData_ok:
  assumes inv: "buf_inv b" and n: "mSize b + length data \<le> max (2 ^ 62) (mCapacity b)"
  shows "\<exists>b' freed. AppendData zof data b = Some (b', freed) \<and> buf_inv b' \<and> mSize b' = mSize b + length data \<and> contents b' = contents b @ data \<and>
    mCapacity b \<le> mCapacity b' \<and> (zof \<longrightarrow> zeroed freed) \<and> (\<forall>k. zof \<and> blank (max k (mSize b)) b \<longrightarrow> blank (max k (mSize b')) b')"
proof (cases "data = []")
  case True
  then show ?thesis using inv by (simp add: AppendData_def zeroed_def)
next
  case False
  let ?n = "mSize b + length data"
  have sa: "size_add (mSize b) (length data) = ?n" using n inv by (intro size_add_eq) (auto simp: buf_inv_def max_def split: if_splits)
  obtain b1 freed where b1: "EnsureCapacityWithHeadroom zof ?n True b = Some (b1, freed)" "buf_inv b1" "mSize b1 = mSize b" "contents b1 = contents b"
      "?n \<le> mCapacity b1" "mCapacity b \<le> mCapacity b1" "zof \<longrightarrow> zeroed freed" "\<forall>k \<ge> mSize b. zof \<and> blank k b \<longrightarrow> blank k b1"
    using Ensure_ok [OF inv n, of zof True] by blast
  let ?d = "take (mSize b) (cells b1) @ data @ drop ?n (cells b1)"
  let ?b2 = "b1\<lparr>mData := Some ?d, mSize := ?n\<rparr>"
  have s: "length (cells b1) = mCapacity b1" "mCapacity b1 \<le> 3 * 2 ^ 61" using b1(2) by (simp_all add: buf_inv_def)
  have i2: "buf_inv ?b2" "contents ?b2 = contents b @ data"
    using s b1(3-5) inv by (simp_all add: buf_inv_def contents_def)
  have "0 < mCapacity b1" using False b1(5) by (cases data) auto
  then have "mData b1 = Some (cells b1)" by (rule cells_pos [OF b1(2)])
  then have "AppendData zof data b = Some (?b2, freed)"
    using False buf_inv_consistent [OF inv] buf_inv_consistent [OF i2(1)] b1 s
    by (simp add: AppendData_def sa mem_write_eq Let_def)
  moreover have "blank (max k ?n) ?b2" if "zof" "blank (max k (mSize b)) b" for k
  proof -
    have "blank (max k (mSize b)) b1" using b1(8) that by simp
    then have "set (drop (max k ?n) (cells b1)) \<subseteq> {None, Some 0}" using blank_drop [of "max k (mSize b)" b1 "max k ?n"] by (simp add: blank_def)
    moreover have "drop (max k ?n) ?d = drop (max k ?n) (cells b1)" using s b1(5) by simp
    ultimately show ?thesis by (simp add: blank_def)
  qed
  ultimately show ?thesis using i2 b1(6,7) by auto
qed

lemma SetData_ok:
  assumes inv: "buf_inv b" and n: "length data \<le> 2 ^ 62"
  shows "\<exists>b' freed. SetData zof data b = Some (b', freed) \<and> buf_inv b' \<and> mSize b' = length data \<and> contents b' = data \<and>
    mCapacity b \<le> mCapacity b' \<and> (zof \<longrightarrow> zeroed freed) \<and> (zof \<and> blank (mSize b) b \<longrightarrow> blank (mSize b') b')"
proof -
  let ?b0 = "b\<lparr>mSize := 0\<rparr>"
  have i0: "buf_inv ?b0" using inv by (simp add: buf_inv_def)
  obtain b1 freed where b1: "AppendData zof data ?b0 = Some (b1, freed)" "buf_inv b1" "mSize b1 = length data" "contents b1 = data" "mCapacity b \<le> mCapacity b1"
      "zof \<longrightarrow> zeroed freed" "\<forall>k. zof \<and> blank k ?b0 \<longrightarrow> blank (max k (mSize b1)) b1"
    using AppendData_ok [OF i0, of data zof] order_trans [OF n max.cobounded1] by (auto simp: contents_def)
  have "mSize b \<le> mCapacity b1" using inv b1(5) by (simp add: buf_inv_def)
  then obtain b2 where b2: "zero_old zof (mSize b) b1 = Some b2" "buf_inv b2" "mSize b2 = mSize b1" "mCapacity b2 = mCapacity b1" "contents b2 = contents b1"
      "\<forall>k. zof \<and> blank (max k (mSize b1)) b1 \<and> k \<le> mSize b \<longrightarrow> blank (mSize b1) b2"
    using zero_old_ok [OF b1(2), of "mSize b" zof] by auto
  have "blank (mSize b2) b2" if "zof" "blank (mSize b) b"
  proof -
    have "blank (mSize b) ?b0" using that(2) by (simp add: blank_def)
    then have "blank (max (mSize b) (mSize b1)) b1" using b1(7) that(1) by blast
    then show ?thesis using b2(3,6) that(1) by auto
  qed
  then show ?thesis using b1 b2 buf_inv_consistent [OF inv] by (auto simp: SetData_def Let_def)
qed

text \<open>What the function given to \<open>AppendData\<close> must do: write no more than it was asked for, and leave the rest of the view alone.\<close>

definition setter_ok :: "nat \<Rightarrow> 'a setter \<Rightarrow> bool" where
  "setter_ok n setter \<longleftrightarrow> (\<forall>view. length view = n \<longrightarrow> length (fst (setter view)) = n \<and> snd (setter view) \<le> n \<and>
     drop (snd (setter view)) (fst (setter view)) = drop (snd (setter view)) view)"

lemma AppendData_with_ok:
  assumes inv: "buf_inv b" and n: "mSize b + n \<le> 2 ^ 62" and f: "setter_ok n setter"
  shows "\<exists>b' freed view. AppendData_with zof n setter b = Some (b', freed, snd (setter view)) \<and> length view = n \<and> buf_inv b' \<and>
    contents b' = contents b @ take (snd (setter view)) (fst (setter view)) \<and> mSize b' = mSize b + snd (setter view) \<and>
    mCapacity b \<le> mCapacity b' \<and> (zof \<longrightarrow> zeroed freed) \<and> (\<forall>k. zof \<and> blank (max k (mSize b)) b \<longrightarrow> blank (max k (mSize b')) b')"
proof -
  have sa: "size_add (mSize b) n = mSize b + n" using n by (intro size_add_eq) simp
  obtain b0 freed where b0: "EnsureCapacityWithHeadroom zof (mSize b + n) True b = Some (b0, freed)" "buf_inv b0" "mSize b0 = mSize b" "contents b0 = contents b"
      "mSize b + n \<le> mCapacity b0" "mCapacity b \<le> mCapacity b0" "zof \<longrightarrow> zeroed freed" "\<forall>k \<ge> mSize b. zof \<and> blank k b \<longrightarrow> blank k b0"
    using Ensure_ok [OF inv order_trans [OF n max.cobounded1], of zof True] by blast
  define b1 where "b1 = b0\<lparr>mSize := mSize b + n\<rparr>"
  have b1: "SetSize zof (mSize b + n) b = Some (b1, freed)" using b0(1) by (simp add: SetSize_def zero_old_def b1_def Let_def)
  have c1: "cells b1 = cells b0" "mData b1 = mData b0" "mCapacity b1 = mCapacity b0" "length (cells b0) = mCapacity b0" "mCapacity b0 \<le> 3 * 2 ^ 61"
    using b0(2) by (simp_all add: b1_def buf_inv_def)
  have case_cells: "(case mData b1 of None \<Rightarrow> [] | Some d \<Rightarrow> d) = cells b0" using c1(2) by (simp add: cells_def)
  define view where "view = take n (drop (mSize b) (cells b0))"
  define view' w where vw: "view' = fst (setter view)" "w = snd (setter view)"
  have v: "length view = n" using c1(4) b0(5) by (simp add: view_def)
  then have f': "length view' = n" "w \<le> n" "drop w view' = drop w view" using f by (simp_all add: setter_ok_def vw)
  define d where "d = take (mSize b) (cells b0) @ view' @ drop (mSize b + n) (cells b0)"
  have sw: "size_add (mSize b) w = mSize b + w" using n f'(2) by (intro size_add_eq) simp
  define b2 where "b2 = b1\<lparr>mData := map_option (\<lambda>_. d) (mData b1), mSize := mSize b + w\<rparr>"
  have len: "length d = mCapacity b0" using c1(4) b0(5) f'(1) by (simp add: d_def)
  have c2: "cells b2 = d" using c1 len b0(2) by (cases "mData b0") (auto simp: b2_def cells_def buf_inv_def)
  have i2: "buf_inv b2" "contents b2 = contents b @ take w view'"
    using len c2 b0(3-5) c1 f' inv by (simp_all add: buf_inv_def contents_def b2_def d_def)
  have "AppendData_with zof n setter b = Some (b2, freed, w)"
    using buf_inv_consistent [OF inv] buf_inv_consistent [OF i2(1)] b1 v f' b0(5) c1(4)
    by (simp add: AppendData_with_def sa sw case_cells mem_read_eq mem_write_eq Let_def split_beta flip: view_def vw d_def b2_def)
  moreover have ms: "mSize b2 = mSize b + w" by (simp add: b2_def)
  moreover have "blank (max k (mSize b2)) b2" if "zof" "blank (max k (mSize b)) b" for k
  proof -
    have "blank (max k (mSize b)) b0" using b0(8) that by simp
    then have "set (drop (max k (mSize b + w)) (cells b0)) \<subseteq> {None, Some 0}"
      using blank_drop [of "max k (mSize b)" b0 "max k (mSize b + w)"] by (simp add: blank_def)
    moreover have "drop (mSize b + w) d = drop (mSize b + w) (cells b0)"
    proof -
      have "drop (mSize b + w) d = drop w view' @ drop (mSize b + n) (cells b0)" using c1(4) b0(5) f'(1,2) by (simp add: d_def)
      also have "\<dots> = drop (mSize b + w) (cells b0)"
        using f'(2,3) append_take_drop_id [of "n - w" "drop (mSize b + w) (cells b0)"] by (simp add: view_def drop_take add.commute)
      finally show ?thesis .
    qed
    then have "drop (max k (mSize b + w)) d = drop (max k (mSize b + w)) (cells b0)"
      by (metis add_diff_inverse_nat drop_drop linorder_not_le max.absorb_iff1 max.cobounded2 le_add_diff_inverse2)
    ultimately show ?thesis by (simp add: blank_def c2 ms)
  qed
  moreover have "mCapacity b2 = mCapacity b0" by (simp add: b2_def c1)
  ultimately show ?thesis
    using i2 v b0(6,7) unfolding vw by (intro exI [of _ b2] exI [of _ freed] exI [of _ view] conjI) simp_all
qed

lemma SetData_with_ok:
  assumes inv: "buf_inv b" and n: "n \<le> 2 ^ 62" and f: "setter_ok n setter"
  shows "\<exists>b' freed view. SetData_with zof n setter b = Some (b', freed, snd (setter view)) \<and> length view = n \<and> buf_inv b' \<and>
    contents b' = take (snd (setter view)) (fst (setter view)) \<and> mCapacity b \<le> mCapacity b' \<and> (zof \<longrightarrow> zeroed freed) \<and> (zof \<and> blank (mSize b) b \<longrightarrow> blank (mSize b') b')"
proof -
  let ?b0 = "b\<lparr>mSize := 0\<rparr>"
  have i0: "buf_inv ?b0" using inv by (simp add: buf_inv_def)
  obtain b1 freed view where b1: "AppendData_with zof n setter ?b0 = Some (b1, freed, snd (setter view))" "length view = n" "buf_inv b1"
      "contents b1 = take (snd (setter view)) (fst (setter view))" "mCapacity b \<le> mCapacity b1"
      "zof \<longrightarrow> zeroed freed" "\<forall>k. zof \<and> blank k ?b0 \<longrightarrow> blank (max k (mSize b1)) b1"
    using AppendData_with_ok [OF i0 _ f, of zof] n by (auto simp: contents_def)
  have "mSize b \<le> mCapacity b1" using inv b1(5) by (simp add: buf_inv_def)
  then obtain b2 where b2: "zero_old zof (mSize b) b1 = Some b2" "buf_inv b2" "mSize b2 = mSize b1" "mCapacity b2 = mCapacity b1" "contents b2 = contents b1"
      "\<forall>k. zof \<and> blank (max k (mSize b1)) b1 \<and> k \<le> mSize b \<longrightarrow> blank (mSize b1) b2"
    using zero_old_ok [OF b1(3), of "mSize b" zof] by auto
  have "blank (mSize b2) b2" if "zof" "blank (mSize b) b"
  proof -
    have "blank (mSize b) ?b0" using that(2) by (simp add: blank_def)
    then have "blank (max (mSize b) (mSize b1)) b1" using b1(7) that(1) by blast
    then show ?thesis using b2(3,6) that(1) by auto
  qed
  moreover have "SetData_with zof n setter b = Some (b2, freed, snd (setter view))"
    using b1(1) b2(1) buf_inv_consistent [OF inv] by (simp add: SetData_with_def Let_def)
  ultimately show ?thesis using b1 b2 by auto
qed

lemma Clear_ok:
  assumes inv: "buf_inv b"
  shows "\<exists>b'. BufferT_Clear zof b = Some b' \<and> buf_inv b' \<and> contents b' = [] \<and> mSize b' = 0 \<and> mCapacity b' = mCapacity b \<and> (zof \<longrightarrow> blank 0 b')"
proof -
  obtain b1 where b1: "MaybeZeroCompleteBuffer zof b = Some b1" "mCapacity b1 = mCapacity b" "length (cells b1) = mCapacity b"
      "mData b1 = (if zof \<and> 0 < mCapacity b then Some (replicate (mCapacity b) (Some 0)) else mData b)"
    using MaybeZero_ok [OF inv, of zof] by blast
  have i: "buf_inv (b1\<lparr>mSize := 0\<rparr>)" using b1(2,3) inv by (simp add: buf_inv_def)
  have "zof \<longrightarrow> blank 0 (b1\<lparr>mSize := 0\<rparr>)" using b1(4) inv by (auto simp: blank_def cells_def buf_inv_def split: option.splits)
  then show ?thesis using b1 i buf_inv_consistent [OF i] by (auto simp: BufferT_Clear_def contents_def Let_def)
qed

lemma BufferT_new_ok:
  assumes "n \<le> 3 * 2 ^ 61" "c \<le> 3 * 2 ^ 61"
  shows "\<exists>b. BufferT_new n c = Some b \<and> buf_inv b \<and> mSize b = n \<and> mCapacity b = max n c \<and> blank k b \<and> cells b = replicate (max n c) None"
proof (cases "0 < max n c")
  case True
  then show ?thesis using assms by (auto simp: BufferT_new_def Let_def new_array_eq IsConsistent_def buf_inv_def blank_def)
next
  case False
  then show ?thesis by (simp add: BufferT_new_def Let_def IsConsistent_def buf_inv_def blank_def)
qed

lemma BufferT_data_ok:
  fixes data :: "'a :: zero cells"
  assumes "length data \<le> 3 * 2 ^ 61" "c \<le> 3 * 2 ^ 61"
  shows "\<exists>b. BufferT_data data c = Some b \<and> buf_inv b \<and> contents b = data \<and> mSize b = length data \<and> mCapacity b = max (length data) c \<and> blank (mSize b) b"
proof -
  obtain b :: "'a buffer_t" where b: "BufferT_new (length data) c = Some b" "buf_inv b" "mSize b = length data" "mCapacity b = max (length data) c" "blank (length data) b"
    using BufferT_new_ok [OF assms, of "length data"] by blast
  show ?thesis
  proof (cases "data = []")
    case True
    then show ?thesis using b by (intro exI [of _ b]) (simp add: BufferT_data_def contents_def)
  next
    case False
    then have "0 < mCapacity b" using b(4) by (simp add: less_max_iff_disj)
    then have m: "mData b = Some (cells b)" by (rule cells_pos [OF b(2)])
    let ?b' = "b\<lparr>mData := Some (data @ drop (length data) (cells b))\<rparr>"
    have l: "length (cells b) = max (length data) c" using b(2,4) by (simp add: buf_inv_def)
    have "BufferT_data data c = Some ?b'"
      using b(1,3) m l False by (simp add: BufferT_data_def mem_write_eq)
    moreover have "buf_inv ?b'" "contents ?b' = data" using b(2-4) l by (simp_all add: buf_inv_def contents_def)
    moreover have "blank (mSize b) ?b'" using b(3,5) by (simp add: blank_def)
    ultimately show ?thesis using b(3,4) by simp
  qed
qed


section \<open>Sessions\<close>

datatype 'a buf_op = Append "'a cells" | Replace "'a cells" | Resize nat | Reserve nat | Reset
  | AppendWith nat "'a setter" | ReplaceWith nat "'a setter"

text \<open>A buffer with all the blocks it has given back.\<close>

fun buf_step :: "bool \<Rightarrow> 'a :: zero buf_op \<Rightarrow> 'a buffer_t \<times> 'a cells list \<Rightarrow> ('a buffer_t \<times> 'a cells list) option" where
  "buf_step zof (Append data) (b, fs) = do { (b, f) \<leftarrow> AppendData zof data b; Some (b, f @ fs) }"
| "buf_step zof (Replace data) (b, fs) = do { (b, f) \<leftarrow> SetData zof data b; Some (b, f @ fs) }"
| "buf_step zof (Resize n) (b, fs) = do { (b, f) \<leftarrow> SetSize zof n b; Some (b, f @ fs) }"
| "buf_step zof (Reserve n) (b, fs) = do { (b, f) \<leftarrow> EnsureCapacity zof n b; Some (b, f @ fs) }"
| "buf_step zof Reset (b, fs) = do { b \<leftarrow> BufferT_Clear zof b; Some (b, fs) }"
| "buf_step zof (AppendWith n setter) (b, fs) = do { (b, f, _) \<leftarrow> AppendData_with zof n setter b; Some (b, f @ fs) }"
| "buf_step zof (ReplaceWith n setter) (b, fs) = do { (b, f, _) \<leftarrow> SetData_with zof n setter b; Some (b, f @ fs) }"

text \<open>The buffer as a list that can be extended, replaced, cut and emptied. New elements of a longer list are unspecified.\<close>

fun buf_spec :: "'a buf_op \<Rightarrow> 'a cells \<Rightarrow> 'a cells \<Rightarrow> bool" where
  "buf_spec (Append data) xs ys \<longleftrightarrow> ys = xs @ data"
| "buf_spec (Replace data) xs ys \<longleftrightarrow> ys = data"
| "buf_spec (Resize n) xs ys \<longleftrightarrow> length ys = n \<and> take (length xs) ys = take n xs"
| "buf_spec (Reserve n) xs ys \<longleftrightarrow> ys = xs"
| "buf_spec Reset xs ys \<longleftrightarrow> ys = []"
| "buf_spec (AppendWith n setter) xs ys \<longleftrightarrow> (\<exists>view. length view = n \<and> ys = xs @ take (snd (setter view)) (fst (setter view)))"
| "buf_spec (ReplaceWith n setter) xs ys \<longleftrightarrow> (\<exists>view. length view = n \<and> ys = take (snd (setter view)) (fst (setter view)))"

fun buf_op_ok :: "'a buf_op \<Rightarrow> 'a cells \<Rightarrow> bool" where
  "buf_op_ok (Append data) xs \<longleftrightarrow> length xs + length data \<le> 2 ^ 62"
| "buf_op_ok (Replace data) xs \<longleftrightarrow> length data \<le> 2 ^ 62"
| "buf_op_ok (Resize n) xs \<longleftrightarrow> n \<le> 2 ^ 62"
| "buf_op_ok (Reserve n) xs \<longleftrightarrow> n \<le> 2 ^ 62"
| "buf_op_ok Reset xs \<longleftrightarrow> True"
| "buf_op_ok (AppendWith n setter) xs \<longleftrightarrow> length xs + n \<le> 2 ^ 62 \<and> setter_ok n setter"
| "buf_op_ok (ReplaceWith n setter) xs \<longleftrightarrow> n \<le> 2 ^ 62 \<and> setter_ok n setter"

definition session_inv :: "bool \<Rightarrow> 'a :: zero buffer_t \<times> 'a cells list \<Rightarrow> bool" where
  "session_inv zof = (\<lambda>(b, fs). buf_inv b \<and> (zof \<longrightarrow> blank (mSize b) b \<and> zeroed fs))"

lemma zeroed_append [simp]: "zeroed (xs @ ys) \<longleftrightarrow> zeroed xs \<and> zeroed ys"
  by (auto simp: zeroed_def)

lemma buf_step_ok:
  assumes inv: "session_inv zof (b, fs)" and ok: "buf_op_ok x (contents b)"
  shows "\<exists>b' fs'. buf_step zof x (b, fs) = Some (b', fs') \<and> session_inv zof (b', fs') \<and> buf_spec x (contents b) (contents b')"
proof -
  have b: "buf_inv b" and z: "zof \<Longrightarrow> blank (mSize b) b" "zof \<Longrightarrow> zeroed fs" using inv by (auto simp: session_inv_def)
  note len = length_contents [OF b]
  show ?thesis
  proof (cases x)
    case (Append data)
    have "mSize b + length data \<le> max (2 ^ 62) (mCapacity b)" using ok Append len by (intro order_trans [OF _ max.cobounded1]) simp
    from AppendData_ok [OF b this, of zof] obtain b' f where r: "AppendData zof data b = Some (b', f)" "buf_inv b'" "contents b' = contents b @ data"
        "zof \<longrightarrow> zeroed f" "\<forall>k. zof \<and> blank (max k (mSize b)) b \<longrightarrow> blank (max k (mSize b')) b'" by blast
    have "zof \<longrightarrow> blank (mSize b') b'" using r(5) [rule_format, of 0] z(1) by simp
    then show ?thesis using r z Append by (simp add: session_inv_def)
  next
    case (Replace data)
    have "length data \<le> 2 ^ 62" using ok Replace by simp
    from SetData_ok [OF b this, of zof] obtain b' f where "SetData zof data b = Some (b', f)" "buf_inv b'" "contents b' = data"
        "zof \<longrightarrow> zeroed f" "zof \<and> blank (mSize b) b \<longrightarrow> blank (mSize b') b'" by blast
    then show ?thesis using z Replace by (simp add: session_inv_def)
  next
    case (Resize n)
    have "n \<le> max (2 ^ 62) (mCapacity b)" using ok Resize by (intro order_trans [OF _ max.cobounded1]) simp
    from SetSize_ok [OF b this, of zof] obtain b' f where "SetSize zof n b = Some (b', f)" "buf_inv b'" "mSize b' = n"
        "take (mSize b) (contents b') = take n (contents b)" "zof \<longrightarrow> zeroed f" "zof \<and> blank (mSize b) b \<longrightarrow> blank n b'" by blast
    then show ?thesis using z Resize len by (simp add: session_inv_def)
  next
    case (Reserve n)
    have "n \<le> max (2 ^ 62) (mCapacity b)" using ok Reserve by (intro order_trans [OF _ max.cobounded1]) simp
    from Ensure_ok [OF b this, of zof False] obtain b' f where "EnsureCapacityWithHeadroom zof n False b = Some (b', f)" "buf_inv b'" "mSize b' = mSize b"
        "contents b' = contents b" "zof \<longrightarrow> zeroed f" "\<forall>k \<ge> mSize b. zof \<and> blank k b \<longrightarrow> blank k b'" by blast
    then show ?thesis using z Reserve by (simp add: session_inv_def EnsureCapacity_def)
  next
    case Reset
    from Clear_ok [OF b, of zof] obtain b' where "BufferT_Clear zof b = Some b'" "buf_inv b'" "contents b' = []" "mSize b' = 0" "zof \<longrightarrow> blank 0 b'" by blast
    then show ?thesis using z Reset by (simp add: session_inv_def)
  next
    case (AppendWith n setter)
    have "mSize b + n \<le> 2 ^ 62" "setter_ok n setter" using ok AppendWith len by simp_all
    from AppendData_with_ok [OF b this, of zof] obtain b' f view where r: "AppendData_with zof n setter b = Some (b', f, snd (setter view))"
        "length view = n" "buf_inv b'" "contents b' = contents b @ take (snd (setter view)) (fst (setter view))"
        "zof \<longrightarrow> zeroed f" "\<forall>k. zof \<and> blank (max k (mSize b)) b \<longrightarrow> blank (max k (mSize b')) b'" by blast
    have "zof \<longrightarrow> blank (mSize b') b'" using r(6) [rule_format, of 0] z(1) by simp
    then show ?thesis using r(1-5) z AppendWith by (auto simp: session_inv_def intro!: exI [of _ view])
  next
    case (ReplaceWith n setter)
    then have "n \<le> 2 ^ 62" "setter_ok n setter" using ok by simp_all
    from SetData_with_ok [OF b this, of zof] obtain b' f view where r: "SetData_with zof n setter b = Some (b', f, snd (setter view))"
        "length view = n" "buf_inv b'" "contents b' = take (snd (setter view)) (fst (setter view))"
        "zof \<longrightarrow> zeroed f" "zof \<and> blank (mSize b) b \<longrightarrow> blank (mSize b') b'" by blast
    then show ?thesis using z ReplaceWith by (auto simp: session_inv_def intro!: exI [of _ view])
  qed
qed

interpretation bufs: simulation "session_inv zof" "\<lambda>(b, fs). contents b" "buf_step zof" buf_op_ok buf_spec
proof
  fix s :: "'a :: zero buffer_t \<times> 'a cells list" and x :: "'a buf_op"
  assume "session_inv zof s" "buf_op_ok x (case s of (b, fs) \<Rightarrow> contents b)"
  then show "\<exists>s'. buf_step zof x s = Some s' \<and> session_inv zof s' \<and> buf_spec x (case s of (b, fs) \<Rightarrow> contents b) (case s' of (b, fs) \<Rightarrow> contents b)"
    using buf_step_ok [of zof "fst s" "snd s" x] by (auto simp: split_beta)
qed

text \<open>
  C31: any session of calls on a new \<open>BufferT\<close> returns, with all accesses inside its memory and no check failing, as long as it asks
  for at most \<open>2 ^ 62\<close> elements at a time; the contents are those of a list under the same calls. If the buffer is one that
  zeroes memory, no block is given back, then or by the destructor, before it is overwritten with zeros, and the unused part of its memory holds no data.
\<close>

theorem buffer_session:
  fixes xs :: "'a :: zero buf_op list"
  assumes "n \<le> 2 ^ 62" "c \<le> 2 ^ 62" "admissible buf_op_ok buf_spec xs (replicate n None)"
  shows "\<exists>b0 b fs. BufferT_new n c = Some b0 \<and> run (buf_step zof) xs (b0, []) = Some (b, fs) \<and>
    spec_run buf_spec xs (replicate n None) (contents b) \<and> IsConsistent b \<and> length (contents b) = mSize b \<and>
    (zof \<longrightarrow> zeroed fs \<and> set (drop (mSize b) (cells b)) \<subseteq> {None, Some 0} \<and> (\<exists>ds. BufferT_destroy zof b = Some ds \<and> zeroed ds))"
proof -
  obtain b0 :: "'a buffer_t" where b0: "BufferT_new n c = Some b0" "buf_inv b0" "mSize b0 = n" "blank n b0" "cells b0 = replicate (max n c) None"
    using BufferT_new_ok [of n c n] assms(1,2) by auto
  have i: "session_inv zof (b0, [])" using b0 by (simp add: session_inv_def zeroed_def)
  have c0: "contents b0 = replicate n None" using b0 by (simp add: contents_def min_def)
  obtain b fs where r: "run (buf_step zof) xs (b0, []) = Some (b, fs)" "session_inv zof (b, fs)" "spec_run buf_spec xs (replicate n None) (contents b)"
    using bufs.session [OF i, of xs] assms(3) c0 by auto
  have inv: "buf_inv b" using r(2) by (simp add: session_inv_def)
  obtain b1 where b1: "MaybeZeroCompleteBuffer zof b = Some b1" "mData b1 = (if zof \<and> 0 < mCapacity b then Some (replicate (mCapacity b) (Some 0)) else mData b)"
    using MaybeZero_ok [OF inv, of zof] by blast
  have "zof \<Longrightarrow> zeroed (block_list b1)" using block_list_zeroed [OF inv, of b1] b1(2) by simp
  then have "zof \<longrightarrow> (\<exists>ds. BufferT_destroy zof b = Some ds \<and> zeroed ds)" using b1(1) by (cases zof) (simp_all add: BufferT_destroy_def)
  then show ?thesis
    using b0(1) r length_contents [OF inv] buf_inv_consistent [OF inv] by (auto simp: session_inv_def blank_def)
qed

theorem buffer_session_witness:
  "\<exists>b0 b fs. BufferT_new 1 2 = Some b0 \<and>
     run (buf_step True) [Append [Some (7 :: int), Some 8], AppendWith 2 (\<lambda>view. (Some 5 # tl view, 1)), Resize 2] (b0, []) = Some (b, fs) \<and>
     length (contents b) = 2 \<and> zeroed fs"
proof -
  have "setter_ok 2 (\<lambda>view. (Some (5 :: int) # tl view, 1))" by (auto simp: setter_ok_def drop_Suc)
  then have "admissible buf_op_ok buf_spec [Append [Some (7 :: int), Some 8], AppendWith 2 (\<lambda>view. (Some 5 # tl view, 1)), Resize 2] (replicate 1 None)"
    by simp
  from buffer_session [OF _ _ this, of 2 True] show ?thesis by auto
qed

end
