(* ===== verification/SharedBuffer.thy ===== *)
theory SharedBuffer
  imports Buffers
begin

text \<open>
  \<open>SharedBuffer\<close> of \<open>src/libs/core/source/tools/octk_shared_buffer.hpp\<close> and \<open>.cpp\<close>, with the reference counting of
  \<open>memory/octk_ref_count.hpp\<close>, \<open>octk_ref_counted_object.hpp\<close> and \<open>octk_shared_ref_ptr.hpp\<close>. Buffers that share their memory point to the same
  object of a store, which has a counter of its references and is deleted when the last one is released. The variables
  of type \<open>SharedBuffer\<close> of a program are a list. An access to a deleted object is \<^term>\<open>None\<close>.
\<close>

section \<open>Reference counting\<close>

type_synonym 'a object = "nat \<times> 'a buffer_t"
type_synonym 'a store = "'a object option list"

definition object :: "'a store \<Rightarrow> nat \<Rightarrow> 'a object option" where
  "object m p = (if p < length m then m ! p else None)"

definition new_object :: "'a buffer_t \<Rightarrow> 'a store \<Rightarrow> 'a store \<times> nat" where
  "new_object b m = (m @ [Some (0, b)], length m)"

definition addRef :: "nat \<Rightarrow> 'a store \<Rightarrow> 'a store option" where
  "addRef p m = do { (n, b) \<leftarrow> object m p; Some (m[p := Some (n + 1, b)]) }"

definition Release :: "nat \<Rightarrow> 'a store \<Rightarrow> 'a store option" where
  "Release p m = do { (n, b) \<leftarrow> object m p; Some (m[p := (if n - 1 = 0 then None else Some (n - 1, b))]) }"

definition HasOneRef :: "nat \<Rightarrow> 'a store \<Rightarrow> bool option" where
  "HasOneRef p m = do { (n, b) \<leftarrow> object m p; Some (n = 1) }"

text \<open>\<open>SharedRefPtr\<close>: copying, destroying and assigning a pointer, which adds the new reference first.\<close>

definition ptr_copy :: "nat option \<Rightarrow> 'a store \<Rightarrow> 'a store option" where
  "ptr_copy q m = (case q of None \<Rightarrow> Some m | Some p \<Rightarrow> addRef p m)"

definition ptr_destroy :: "nat option \<Rightarrow> 'a store \<Rightarrow> 'a store option" where
  "ptr_destroy q m = (case q of None \<Rightarrow> Some m | Some p \<Rightarrow> Release p m)"

definition ptr_assign :: "nat option \<Rightarrow> nat option \<Rightarrow> 'a store \<Rightarrow> 'a store option" where
  "ptr_assign old q m = do { m \<leftarrow> ptr_copy q m; ptr_destroy old m }"

text \<open>The buffer of an object, and a call of one of its methods.\<close>

definition buf_at :: "nat \<Rightarrow> 'a store \<Rightarrow> 'a buffer_t option" where
  "buf_at p m = do { (n, b) \<leftarrow> object m p; Some b }"

definition update_buf :: "('a buffer_t \<Rightarrow> ('a buffer_t \<times> 'b) option) \<Rightarrow> nat \<Rightarrow> 'a store \<Rightarrow> 'a store option" where
  "update_buf f p m = do { (n, b) \<leftarrow> object m p; (b, _) \<leftarrow> f b; Some (m[p := Some (n, b)]) }"


section \<open>The class\<close>

record shared_buffer =
  sb_buffer :: "nat option"
  sb_offset :: nat
  sb_size :: nat

type_synonym 'a sb_state = "'a store \<times> shared_buffer list"

definition null_buffer :: shared_buffer where
  "null_buffer = \<lparr>sb_buffer = None, sb_offset = 0, sb_size = 0\<rparr>"

definition sb_IsConsistent :: "'a store \<Rightarrow> shared_buffer \<Rightarrow> bool option" where
  "sb_IsConsistent m h = (case sb_buffer h of
      Some p \<Rightarrow> do { b \<leftarrow> buf_at p m; Some (0 < mCapacity b \<and> sb_offset h \<le> mSize b \<and> size_add (sb_offset h) (sb_size h) \<le> mSize b) }
    | None \<Rightarrow> Some (sb_size h = 0 \<and> sb_offset h = 0))"

definition consistent :: "'a store \<Rightarrow> shared_buffer \<Rightarrow> unit option" where
  "consistent m h = do { c \<leftarrow> sb_IsConsistent m h; dcheck c }"

definition sb_capacity :: "'a store \<Rightarrow> shared_buffer \<Rightarrow> nat option" where
  "sb_capacity m h = do {
     consistent m h;
     case sb_buffer h of Some p \<Rightarrow> do { b \<leftarrow> buf_at p m; Some (mCapacity b - sb_offset h) } | None \<Rightarrow> Some 0
   }"

text \<open>\<open>buffer_ = new RefCountedBuffer(...)\<close>.\<close>

definition assign_new :: "'a buffer_t option \<Rightarrow> 'a store \<Rightarrow> shared_buffer \<Rightarrow> ('a store \<times> shared_buffer) option" where
  "assign_new b m h = do {
     b \<leftarrow> b;
     let (m, p) = new_object b m;
     m \<leftarrow> ptr_assign (sb_buffer h) (Some p) m;
     Some (m, h\<lparr>sb_buffer := Some p\<rparr>)
   }"

definition sb_new :: "nat \<Rightarrow> nat \<Rightarrow> 'a store \<Rightarrow> ('a store \<times> shared_buffer) option" where
  "sb_new n capacity m = do {
     (m, h) \<leftarrow> (if 0 < n \<or> 0 < capacity then assign_new (BufferT_new n capacity) m null_buffer else Some (m, null_buffer));
     let h = h\<lparr>sb_offset := 0, sb_size := n\<rparr>;
     consistent m h;
     Some (m, h)
   }"

definition sb_data :: "'a cells \<Rightarrow> nat \<Rightarrow> 'a store \<Rightarrow> ('a store \<times> shared_buffer) option" where
  "sb_data data capacity m = do {
     (m, h) \<leftarrow> sb_new (length data) capacity m;
     case sb_buffer h of
       None \<Rightarrow> Some (m, h)
     | Some p \<Rightarrow> do {
         m \<leftarrow> update_buf (\<lambda>b. do { d \<leftarrow> mData b; d \<leftarrow> mem_write d 0 data; Some (b\<lparr>mData := Some d\<rparr>, ()) }) p m;
         Some (m, h\<lparr>sb_offset := 0, sb_size := length data\<rparr>)
       }
   }"

definition sb_copy :: "'a store \<Rightarrow> shared_buffer \<Rightarrow> ('a store \<times> shared_buffer) option" where
  "sb_copy m buf = do { m \<leftarrow> ptr_copy (sb_buffer buf) m; Some (m, buf) }"

definition sb_move :: "'a store \<Rightarrow> shared_buffer \<Rightarrow> (shared_buffer \<times> shared_buffer) option" where
  "sb_move m buf = do { consistent m buf; Some (buf, null_buffer) }"

definition sb_destroy :: "'a store \<Rightarrow> shared_buffer \<Rightarrow> 'a store option" where
  "sb_destroy m h = ptr_destroy (sb_buffer h) m"

definition UnshareAndEnsureCapacity :: "nat \<Rightarrow> 'a :: zero store \<Rightarrow> shared_buffer \<Rightarrow> ('a store \<times> shared_buffer) option" where
  "UnshareAndEnsureCapacity new_capacity m h = do {
     p \<leftarrow> sb_buffer h;
     one \<leftarrow> HasOneRef p m;
     fits \<leftarrow> (if one then do { cap \<leftarrow> sb_capacity m h; Some (new_capacity \<le> cap) } else Some False);
     if fits then Some (m, h)
     else do {
       b \<leftarrow> buf_at p m;
       xs \<leftarrow> (case mData b of None \<Rightarrow> None | Some d \<Rightarrow> mem_read d (sb_offset h) (sb_size h));
       (m, h) \<leftarrow> assign_new (BufferT_data xs new_capacity) m h;
       let h = h\<lparr>sb_offset := 0\<rparr>;
       consistent m h;
       Some (m, h)
     }
   }"

text \<open>\<open>MutableData\<close>, and a store through the pointer that it returns.\<close>

definition MutableData :: "'a :: zero store \<Rightarrow> shared_buffer \<Rightarrow> ('a store \<times> shared_buffer) option" where
  "MutableData m h = do {
     consistent m h;
     if sb_buffer h = None then Some (m, h)
     else do { cap \<leftarrow> sb_capacity m h; UnshareAndEnsureCapacity cap m h }
   }"

definition sb_write :: "nat \<Rightarrow> 'a option \<Rightarrow> 'a :: zero store \<Rightarrow> shared_buffer \<Rightarrow> ('a store \<times> shared_buffer) option" where
  "sb_write i v m h = do {
     (m, h) \<leftarrow> MutableData m h;
     p \<leftarrow> sb_buffer h;
     m \<leftarrow> update_buf (\<lambda>b. do { d \<leftarrow> mData b; d \<leftarrow> Octk_Prelude.store d (sb_offset h + i) v; Some (b\<lparr>mData := Some d\<rparr>, ()) }) p m;
     Some (m, h)
   }"

definition cdata :: "'a store \<Rightarrow> shared_buffer \<Rightarrow> 'a cells option" where
  "cdata m h = do {
     consistent m h;
     case sb_buffer h of
       None \<Rightarrow> Some []
     | Some p \<Rightarrow> do { b \<leftarrow> buf_at p m; d \<leftarrow> mData b; mem_read d (sb_offset h) (sb_size h) }
   }"

definition sb_at :: "'a store \<Rightarrow> shared_buffer \<Rightarrow> nat \<Rightarrow> 'a option option" where
  "sb_at m h i = do { consistent m h; dcheck (i < sb_size h); d \<leftarrow> cdata m h; deref d i }"

definition sb_equal :: "'a store \<Rightarrow> shared_buffer \<Rightarrow> shared_buffer \<Rightarrow> bool option" where
  "sb_equal m h buf = do {
     consistent m h;
     consistent m buf;
     if sb_size h \<noteq> sb_size buf then Some False
     else do { d \<leftarrow> cdata m h; e \<leftarrow> cdata m buf; Some (sb_buffer h = sb_buffer buf \<and> sb_offset h = sb_offset buf \<or> d = e) }
   }"

definition sb_assign :: "'a store \<Rightarrow> shared_buffer \<Rightarrow> shared_buffer \<Rightarrow> ('a store \<times> shared_buffer) option" where
  "sb_assign m h buf = do {
     consistent m h;
     consistent m buf;
     m \<leftarrow> ptr_assign (sb_buffer h) (sb_buffer buf) m;
     Some (m, h\<lparr>sb_buffer := sb_buffer buf, sb_offset := sb_offset buf, sb_size := sb_size buf\<rparr>)
   }"

text \<open>Moving assignment between two variables: the old reference is released by the temporary pointer.\<close>

definition sb_move_assign :: "'a store \<Rightarrow> shared_buffer \<Rightarrow> shared_buffer \<Rightarrow> ('a store \<times> shared_buffer \<times> shared_buffer) option" where
  "sb_move_assign m h buf = do {
     consistent m h;
     consistent m buf;
     m \<leftarrow> ptr_destroy (sb_buffer h) m;
     Some (m, h\<lparr>sb_buffer := sb_buffer buf, sb_offset := sb_offset buf, sb_size := sb_size buf\<rparr>, null_buffer)
   }"

definition sb_SetData :: "'a cells \<Rightarrow> 'a :: zero store \<Rightarrow> shared_buffer \<Rightarrow> ('a store \<times> shared_buffer) option" where
  "sb_SetData data m h = do {
     consistent m h;
     (m, h) \<leftarrow> (case sb_buffer h of
         None \<Rightarrow> if 0 < length data then assign_new (BufferT_data data (length data)) m h else Some (m, h)
       | Some p \<Rightarrow> do {
           one \<leftarrow> HasOneRef p m;
           if \<not> one then do { cap \<leftarrow> sb_capacity m h; assign_new (BufferT_data data cap) m h }
           else do { m \<leftarrow> update_buf (SetData False data) p m; Some (m, h) }
         });
     let h = h\<lparr>sb_offset := 0, sb_size := length data\<rparr>;
     consistent m h;
     Some (m, h)
   }"

definition sb_AppendData :: "'a cells \<Rightarrow> 'a :: zero store \<Rightarrow> shared_buffer \<Rightarrow> ('a store \<times> shared_buffer) option" where
  "sb_AppendData data m h = do {
     consistent m h;
     if sb_buffer h = None then do {
       (m, h) \<leftarrow> assign_new (BufferT_data data (length data)) m h;
       let h = h\<lparr>sb_offset := 0, sb_size := length data\<rparr>;
       consistent m h;
       Some (m, h)
     } else do {
       cap \<leftarrow> sb_capacity m h;
       (m, h) \<leftarrow> UnshareAndEnsureCapacity (max cap (size_add (sb_size h) (length data))) m h;
       p \<leftarrow> sb_buffer h;
       m \<leftarrow> update_buf (SetSize False (size_add (sb_offset h) (sb_size h))) p m;
       m \<leftarrow> update_buf (AppendData False data) p m;
       let h = h\<lparr>sb_size := size_add (sb_size h) (length data)\<rparr>;
       consistent m h;
       Some (m, h)
     }
   }"

definition sb_SetSize :: "nat \<Rightarrow> 'a :: zero store \<Rightarrow> shared_buffer \<Rightarrow> ('a store \<times> shared_buffer) option" where
  "sb_SetSize n m h = do {
     consistent m h;
     if sb_buffer h = None then do {
       (m, h) \<leftarrow> (if 0 < n then do {
           (m, h) \<leftarrow> assign_new (BufferT_new n n) m h;
           Some (m, h\<lparr>sb_offset := 0, sb_size := n\<rparr>)
         } else Some (m, h));
       consistent m h;
       Some (m, h)
     } else if n \<le> sb_size h then Some (m, h\<lparr>sb_size := n\<rparr>)
     else do {
       cap \<leftarrow> sb_capacity m h;
       (m, h) \<leftarrow> UnshareAndEnsureCapacity (max cap n) m h;
       p \<leftarrow> sb_buffer h;
       m \<leftarrow> update_buf (SetSize False (size_add n (sb_offset h))) p m;
       let h = h\<lparr>sb_size := n\<rparr>;
       consistent m h;
       Some (m, h)
     }
   }"

definition sb_EnsureCapacity :: "nat \<Rightarrow> 'a :: zero store \<Rightarrow> shared_buffer \<Rightarrow> ('a store \<times> shared_buffer) option" where
  "sb_EnsureCapacity new_capacity m h = do {
     consistent m h;
     if sb_buffer h = None then do {
       (m, h) \<leftarrow> (if 0 < new_capacity then do {
           (m, h) \<leftarrow> assign_new (BufferT_new 0 new_capacity) m h;
           Some (m, h\<lparr>sb_offset := 0, sb_size := 0\<rparr>)
         } else Some (m, h));
       consistent m h;
       Some (m, h)
     } else do {
       cap \<leftarrow> sb_capacity m h;
       if new_capacity \<le> cap then Some (m, h)
       else do {
         (m, h) \<leftarrow> UnshareAndEnsureCapacity new_capacity m h;
         consistent m h;
         Some (m, h)
       }
     }
   }"

definition sb_Clear :: "'a :: zero store \<Rightarrow> shared_buffer \<Rightarrow> ('a store \<times> shared_buffer) option" where
  "sb_Clear m h = (case sb_buffer h of
      None \<Rightarrow> Some (m, h)
    | Some p \<Rightarrow> do {
        one \<leftarrow> HasOneRef p m;
        (m, h) \<leftarrow> (if one then do { m \<leftarrow> update_buf (\<lambda>b. do { b \<leftarrow> BufferT_Clear False b; Some (b, ()) }) p m; Some (m, h) }
          else do { cap \<leftarrow> sb_capacity m h; assign_new (BufferT_new 0 cap) m h });
        let h = h\<lparr>sb_offset := 0, sb_size := 0\<rparr>;
        consistent m h;
        Some (m, h)
      })"

definition Slice :: "nat \<Rightarrow> nat \<Rightarrow> 'a store \<Rightarrow> shared_buffer \<Rightarrow> ('a store \<times> shared_buffer) option" where
  "Slice offset n m h = do {
     (m, slice) \<leftarrow> sb_copy m h;
     dcheck (offset \<le> sb_size h);
     dcheck (size_add n offset \<le> sb_size h);
     Some (m, slice\<lparr>sb_offset := size_add (sb_offset slice) offset, sb_size := n\<rparr>)
   }"

end
