(* ===== verification/SharedBufferLaws.thy ===== *)
theory SharedBufferLaws
  imports SharedBuffer "HOL-Library.Multiset"
begin

text \<open>
  The invariant of the store of shared buffers and of the variables that refer to it: counters are exact, and every variable shows a part of its object that exists.
  Every operation on a variable returns, keeps the invariant, has the effect of a list operation on what the variable shows, and changes nothing that another variable
  shows.
\<close>


section \<open>Counters and views\<close>

definition refs :: "nat \<Rightarrow> shared_buffer list \<Rightarrow> nat" where
  "refs p hs = length (filter (\<lambda>h. sb_buffer h = Some p) hs)"

text \<open>Every object counts its references exactly, and no pointer dangles.\<close>

definition counted :: "'a store \<Rightarrow> shared_buffer list \<Rightarrow> bool" where
  "counted m hs \<longleftrightarrow> (\<forall>p n b. object m p = Some (n, b) \<longrightarrow> n = refs p hs \<and> 0 < n \<and> buf_inv b \<and> 0 < mCapacity b) \<and>
     (\<forall>h \<in> set hs. \<forall>p. sb_buffer h = Some p \<longrightarrow> object m p \<noteq> None)"

definition view_ok :: "'a store \<Rightarrow> shared_buffer \<Rightarrow> bool" where
  "view_ok m h \<longleftrightarrow> (case sb_buffer h of
      None \<Rightarrow> h = null_buffer
    | Some p \<Rightarrow> \<exists>b. buf_at p m = Some b \<and> sb_offset h < mCapacity b \<and> sb_offset h + sb_size h \<le> mSize b)"

definition content :: "'a store \<Rightarrow> shared_buffer \<Rightarrow> 'a cells" where
  "content m h = (case sb_buffer h of
      None \<Rightarrow> []
    | Some p \<Rightarrow> (case buf_at p m of None \<Rightarrow> [] | Some b \<Rightarrow> take (sb_size h) (drop (sb_offset h) (cells b))))"

definition wf_state :: "'a store \<Rightarrow> shared_buffer list \<Rightarrow> bool" where
  "wf_state m hs \<longleftrightarrow> counted m hs \<and> (\<forall>h \<in> set hs. view_ok m h)"

text \<open>Other buffers see the same memory.\<close>

definition same_for :: "shared_buffer list \<Rightarrow> 'a store \<Rightarrow> 'a store \<Rightarrow> bool" where
  "same_for hs m m' \<longleftrightarrow> (\<forall>h \<in> set hs. \<forall>p. sb_buffer h = Some p \<longrightarrow> buf_at p m' = buf_at p m)"

lemma refs_Cons [simp]: "refs p (h # hs) = (if sb_buffer h = Some p then Suc (refs p hs) else refs p hs)"
  by (simp add: refs_def)

lemma refs_zero: "refs p hs = 0 \<longleftrightarrow> (\<forall>h \<in> set hs. sb_buffer h \<noteq> Some p)"
  by (auto simp: refs_def filter_empty_conv)

lemma refs_mset: "mset hs = mset hs' \<Longrightarrow> refs p hs = refs p hs'"
  unfolding refs_def by (metis mset_filter size_mset)

lemma counted_mset: "mset hs = mset hs' \<Longrightarrow> counted m hs \<Longrightarrow> counted m hs'"
  using refs_mset [of hs hs'] mset_eq_setD [of hs hs'] by (simp add: counted_def)

lemma wf_state_mset: "mset hs = mset hs' \<Longrightarrow> wf_state m hs \<Longrightarrow> wf_state m hs'"
  using counted_mset [of hs hs' m] mset_eq_setD [of hs hs'] by (simp add: wf_state_def)

lemma same_for_refl [simp]: "same_for hs m m"
  by (simp add: same_for_def)

lemma same_for_trans: "same_for hs m m' \<Longrightarrow> same_for hs m' m'' \<Longrightarrow> same_for hs m m''"
  by (simp add: same_for_def)

lemma same_for_view:
  assumes "same_for hs m m'" "h \<in> set hs"
  shows "view_ok m' h = view_ok m h" "content m' h = content m h"
  using assms by (auto simp: same_for_def view_ok_def content_def split: option.splits)

lemma buf_at_object: "buf_at p m = Some b \<longleftrightarrow> (\<exists>n. object m p = Some (n, b))"
  by (auto simp: buf_at_def bind_eq_Some_conv)

lemma object_update: "p < length m \<Longrightarrow> object (m[p := x]) q = (if q = p then x else object m q)"
  by (simp add: object_def)

lemma object_append: "object (m @ [x]) q = (if q = length m then x else object m q)"
  by (auto simp: object_def nth_append)

lemma object_bound: "object m p = Some x \<Longrightarrow> p < length m"
  by (auto simp: object_def split: if_splits)

lemma counted_buf:
  assumes "counted m hs" "buf_at p m = Some b"
  shows "buf_inv b" "0 < mCapacity b"
  using assms by (auto simp: counted_def buf_at_object)

lemma one_ref_alone:
  assumes "counted m (h # hs)" "sb_buffer h = Some p" "HasOneRef p m = Some True" "r \<in> set hs"
  shows "sb_buffer r \<noteq> Some p"
proof -
  obtain b where "object m p = Some (1, b)" using assms(3) by (auto simp: HasOneRef_def bind_eq_Some_conv)
  then have "refs p (h # hs) = 1" using assms(1) unfolding counted_def by metis
  then show ?thesis using assms(2,4) refs_zero [of p hs] by simp
qed

text \<open>Giving a pointer a new object, and changing an object that has one reference.\<close>

lemma assign_new_ok:
  assumes c: "counted m (h # hs)" and b: "buf_inv b" "0 < mCapacity b"
  shows "\<exists>m' p. assign_new (Some b) m h = Some (m', h\<lparr>sb_buffer := Some p\<rparr>) \<and> counted m' (h\<lparr>sb_buffer := Some p\<rparr> # hs) \<and>
    buf_at p m' = Some b \<and> HasOneRef p m' = Some True \<and> same_for hs m m'"
proof -
  define p where "p = length m"
  define m1 where "m1 = m @ [Some (1, b)]"
  have fresh: "object m p = None" by (simp add: p_def object_def)
  have c1: "n = refs q (h # hs) \<and> 0 < n \<and> buf_inv d \<and> 0 < mCapacity d" if "object m q = Some (n, d)" for q n d
    using c that unfolding counted_def by blast
  have c2: "object m q \<noteq> None" if "r \<in> set (h # hs)" "sb_buffer r = Some q" for r q using c that unfolding counted_def by blast
  have np: "r \<in> set (h # hs) \<Longrightarrow> sb_buffer r \<noteq> Some p" for r using c2 [of r p] fresh by auto
  then have r0: "refs p hs = 0" "sb_buffer h \<noteq> Some p" by (simp_all add: refs_zero)
  have o1: "object m1 q = (if q = p then Some (1, b) else object m q)" for q by (simp add: m1_def p_def object_append)
  have add: "addRef p (m @ [Some (0, b)]) = Some m1" by (simp add: addRef_def m1_def p_def object_append)
  show ?thesis
  proof (cases "sb_buffer h")
    case None
    then have "assign_new (Some b) m h = Some (m1, h\<lparr>sb_buffer := Some p\<rparr>)"
      using add by (simp add: assign_new_def new_object_def ptr_assign_def ptr_copy_def ptr_destroy_def Let_def flip: p_def)
    moreover have "counted m1 (h\<lparr>sb_buffer := Some p\<rparr> # hs)"
    proof -
      have "k = refs x (h\<lparr>sb_buffer := Some p\<rparr> # hs) \<and> 0 < k \<and> buf_inv d \<and> 0 < mCapacity d" if "object m1 x = Some (k, d)" for x k d
        using c1 [of x k d] that b r0 None by (cases "x = p") (simp_all add: o1)
      moreover have "object m1 x \<noteq> None" if "r \<in> set hs" "sb_buffer r = Some x" for r x
        using c2 [of r x] that by (simp add: o1)
      moreover have "object m1 p \<noteq> None" by (simp add: o1)
      ultimately show ?thesis unfolding counted_def by auto
    qed
    moreover have "same_for hs m m1" using np by (auto simp: same_for_def buf_at_def o1)
    ultimately show ?thesis by (auto simp: buf_at_def HasOneRef_def o1)
  next
    case (Some q)
    then have q: "q \<noteq> p" using r0 by simp
    obtain n c0 where n: "object m q = Some (n, c0)" using c2 [of h q] Some by auto
    have n': "n = Suc (refs q hs)" "buf_inv c0" "0 < mCapacity c0" using c1 [OF n] Some by simp_all
    define m2 where "m2 = m1[q := (if n - 1 = 0 then None else Some (n - 1, c0))]"
    have ql: "q < length m1" using object_bound [OF n] by (simp add: m1_def)
    have o2: "object m2 x = (if x = q then (if n - 1 = 0 then None else Some (n - 1, c0)) else object m1 x)" for x
      unfolding m2_def by (rule object_update [OF ql])
    have "Release q m1 = Some m2" using n q by (simp add: Release_def o1 m2_def)
    then have "assign_new (Some b) m h = Some (m2, h\<lparr>sb_buffer := Some p\<rparr>)"
      using add Some by (simp add: assign_new_def new_object_def ptr_assign_def ptr_copy_def ptr_destroy_def Let_def flip: p_def)
    moreover have "counted m2 (h\<lparr>sb_buffer := Some p\<rparr> # hs)"
    proof -
      have "k = refs x (h\<lparr>sb_buffer := Some p\<rparr> # hs) \<and> 0 < k \<and> buf_inv d \<and> 0 < mCapacity d" if o: "object m2 x = Some (k, d)" for x k d
      proof -
        consider "x = q" | "x = p" | "x \<noteq> q" "x \<noteq> p" by blast
        then show ?thesis
        proof cases
          case 1
          then show ?thesis using o n' q by (auto simp: o2 split: if_splits)
        next
          case 2
          then show ?thesis using o b r0 q by (simp add: o2 o1)
        next
          case 3
          then show ?thesis using o c1 [of x k d] Some by (simp add: o2 o1)
        qed
      qed
      moreover have "object m2 x \<noteq> None" if "r \<in> set hs" "sb_buffer r = Some x" for r x
        using c2 [of r x] that n'(1) refs_zero [of q hs] by (auto simp: o2 o1)
      moreover have "object m2 p \<noteq> None" using q by (simp add: o2 o1)
      ultimately show ?thesis unfolding counted_def by auto
    qed
    moreover have "same_for hs m m2"
      unfolding same_for_def
    proof (intro ballI allI impI)
      fix r x assume r: "r \<in> set hs" "sb_buffer r = Some x"
      then have "x \<noteq> p" using np [of r] by auto
      moreover have "x = q \<Longrightarrow> n - 1 \<noteq> 0" using r n'(1) refs_zero [of q hs] by auto
      ultimately show "buf_at x m2 = buf_at x m" using n by (auto simp: buf_at_def o2 o1)
    qed
    ultimately show ?thesis using q by (auto simp: buf_at_def HasOneRef_def o1 o2)
  qed
qed

lemma update_buf_ok:
  assumes c: "counted m (h # hs)" "sb_buffer h = Some p" "HasOneRef p m = Some True" "buf_at p m = Some b"
    and f: "f b = Some (b', x)" "buf_inv b'" "0 < mCapacity b'"
  shows "\<exists>m'. update_buf f p m = Some m' \<and> counted m' (h # hs) \<and> buf_at p m' = Some b' \<and> HasOneRef p m' = Some True \<and> same_for hs m m'"
proof -
  obtain n where n: "object m p = Some (n, b)" using c(4) by (auto simp: buf_at_object)
  define m' where "m' = m[p := Some (n, b')]"
  have o: "object m' q = (if q = p then Some (n, b') else object m q)" for q
    unfolding m'_def by (rule object_update [OF object_bound [OF n]])
  have "update_buf f p m = Some m'" using n f(1) by (simp add: update_buf_def m'_def)
  moreover have "counted m' (h # hs)" using c(1) n f(2,3) unfolding counted_def o by auto
  moreover have "same_for hs m m'" using one_ref_alone [OF c(1-3)] by (auto simp: same_for_def buf_at_def o)
  ultimately show ?thesis using n c(3) by (auto simp: buf_at_def HasOneRef_def o)
qed

lemma size_add_small: "a \<le> 3 * 2 ^ 61 \<Longrightarrow> b \<le> 2 ^ 62 \<Longrightarrow> size_add a b = a + b"
  by (simp add: size_add_def)

lemma consistent_ok:
  assumes c: "counted m hs" and v: "case sb_buffer h of None \<Rightarrow> sb_size h = 0 \<and> sb_offset h = 0
      | Some p \<Rightarrow> \<exists>b. buf_at p m = Some b \<and> sb_offset h + sb_size h \<le> mSize b"
  shows "consistent m h = Some ()"
proof (cases "sb_buffer h")
  case None
  then show ?thesis using v by (simp add: consistent_def sb_IsConsistent_def)
next
  case (Some p)
  then obtain b where b: "buf_at p m = Some b" "sb_offset h + sb_size h \<le> mSize b" using v by auto
  have "mSize b \<le> 3 * 2 ^ 61" using counted_buf(1) [OF c b(1)] by (simp add: buf_inv_def)
  then have "size_add (sb_offset h) (sb_size h) = sb_offset h + sb_size h" using b(2) by (simp add: size_add_def)
  then show ?thesis using Some b counted_buf(2) [OF c b(1)] by (simp add: consistent_def sb_IsConsistent_def)
qed

lemma view_consistent: "counted m hs \<Longrightarrow> view_ok m h \<Longrightarrow> consistent m h = Some ()"
  by (rule consistent_ok) (auto simp: view_ok_def null_buffer_def split: option.splits)

lemma capacity_ok:
  assumes "counted m hs" "view_ok m h" "sb_buffer h = Some p" "buf_at p m = Some b"
  shows "sb_capacity m h = Some (mCapacity b - sb_offset h)"
  using assms view_consistent [OF assms(1,2)] by (simp add: sb_capacity_def)

lemma viewE:
  assumes "counted m hs" "view_ok m h" "sb_buffer h = Some p"
  obtains n b where "object m p = Some (n, b)" "buf_at p m = Some b" "buf_inv b" "0 < mCapacity b" "sb_offset h < mCapacity b"
    "sb_offset h + sb_size h \<le> mSize b" "mData b = Some (cells b)" "length (cells b) = mCapacity b" "mSize b \<le> mCapacity b" "mCapacity b \<le> 3 * 2 ^ 61"
    "content m h = take (sb_size h) (drop (sb_offset h) (cells b))"
proof -
  obtain b where b: "buf_at p m = Some b" "sb_offset h < mCapacity b" "sb_offset h + sb_size h \<le> mSize b" using assms by (auto simp: view_ok_def)
  obtain n where n: "object m p = Some (n, b)" using b(1) by (auto simp: buf_at_object)
  note i = counted_buf [OF assms(1) b(1)]
  show ?thesis
    using that [OF n b(1) i b(2,3) cells_pos [OF i]] i(1) assms(3) b(1) by (simp add: buf_inv_def content_def)
qed

lemma length_content: "counted m hs \<Longrightarrow> view_ok m h \<Longrightarrow> length (content m h) = sb_size h"
proof (cases "sb_buffer h")
  case (Some p)
  assume "counted m hs" "view_ok m h"
  then show ?thesis by (rule viewE [OF _ _ Some]) simp
qed (auto simp: view_ok_def null_buffer_def content_def)

lemma HasOneRef_object: "object m p = Some (n, b) \<Longrightarrow> HasOneRef p m = Some (n = 1)"
  by (simp add: HasOneRef_def)

text \<open>After \<open>UnshareAndEnsureCapacity\<close> a buffer has its memory for itself.\<close>

lemma unshare_ok:
  assumes w: "wf_state m (h # hs)" and p: "sb_buffer h = Some p" and cap: "0 < c" "c \<le> 3 * 2 ^ 61"
  shows "\<exists>m' h' q b. UnshareAndEnsureCapacity c m h = Some (m', h') \<and> counted m' (h' # hs) \<and> same_for hs m m' \<and> view_ok m' h' \<and>
    sb_buffer h' = Some q \<and> HasOneRef q m' = Some True \<and> buf_at q m' = Some b \<and> sb_size h' = sb_size h \<and> content m' h' = content m h \<and>
    sb_offset h' + c \<le> mCapacity b"
proof -
  have c: "counted m (h # hs)" and v: "view_ok m h" using w by (simp_all add: wf_state_def)
  from viewE [OF c v p] obtain n b where b: "object m p = Some (n, b)" "buf_at p m = Some b" "sb_offset h < mCapacity b" "sb_offset h + sb_size h \<le> mSize b"
      "mData b = Some (cells b)" "length (cells b) = mCapacity b" "mSize b \<le> mCapacity b" "mCapacity b \<le> 3 * 2 ^ 61"
      "content m h = take (sb_size h) (drop (sb_offset h) (cells b))" by metis
  note k = capacity_ok [OF c v p b(2)] HasOneRef_object [OF b(1)]
  show ?thesis
  proof (cases "n = 1 \<and> c \<le> mCapacity b - sb_offset h")
    case True
    then have "UnshareAndEnsureCapacity c m h = Some (m, h)" using p k by (simp add: UnshareAndEnsureCapacity_def)
    then show ?thesis using c v p k b True by auto
  next
    case False
    let ?xs = "content m h"
    have rd: "mem_read (cells b) (sb_offset h) (sb_size h) = Some ?xs" using b by (simp add: mem_read_eq)
    have lx: "length ?xs = sb_size h" by (rule length_content [OF c v])
    have "length ?xs \<le> 3 * 2 ^ 61" using b lx by simp
    from BufferT_data_ok [OF this cap(2)] obtain nb where nb: "BufferT_data ?xs c = Some nb" "buf_inv nb" "contents nb = ?xs" "mSize nb = length ?xs"
        "mCapacity nb = max (length ?xs) c" by blast
    have "0 < mCapacity nb" using nb(5) cap(1) by (simp add: less_max_iff_disj)
    from assign_new_ok [OF c nb(2) this] obtain m' q where m': "assign_new (Some nb) m h = Some (m', h\<lparr>sb_buffer := Some q\<rparr>)"
        "counted m' (h\<lparr>sb_buffer := Some q\<rparr> # hs)" "buf_at q m' = Some nb" "HasOneRef q m' = Some True" "same_for hs m m'" by blast
    let ?h' = "h\<lparr>sb_buffer := Some q, sb_offset := 0\<rparr>"
    have c': "counted m' (?h' # hs)" using m'(2) by (simp add: counted_def)
    have v': "view_ok m' ?h'" using m'(3) nb(4,5) lx \<open>0 < mCapacity nb\<close> by (simp add: view_ok_def)
    have "content m' ?h' = ?xs" using m'(3) nb(3,4) lx by (simp add: content_def contents_def)
    moreover have "UnshareAndEnsureCapacity c m h = Some (m', ?h')"
      using p k b(1,2,5) False rd nb(1) m'(1) view_consistent [OF c' v'] by (auto simp: UnshareAndEnsureCapacity_def Let_def)
    moreover have "c \<le> mCapacity nb" using nb(5) by simp
    ultimately show ?thesis using c' v' m'(3-5) by auto
  qed
qed


section \<open>The operations\<close>

text \<open>An operation on one variable that returns, keeps everything well-formed, leaves the contents of the others as they are, and gives its variable
  contents with a property.\<close>

definition changes :: "'a store \<Rightarrow> shared_buffer list \<Rightarrow> ('a store \<times> shared_buffer) option \<Rightarrow> ('a cells \<Rightarrow> bool) \<Rightarrow> bool" where
  "changes m hs r P \<longleftrightarrow> (\<exists>m' h'. r = Some (m', h') \<and> wf_state m' (h' # hs) \<and> same_for hs m m' \<and> P (content m' h'))"

lemma changesI:
  assumes "r = Some (m', h')" "counted m' (h' # hs)" "view_ok m' h'" "same_for hs m m'" "P (content m' h')" "wf_state m (h # hs)"
  shows "changes m hs r P"
proof -
  have "\<forall>x \<in> set hs. view_ok m' x" using same_for_view(1) [OF assms(4)] assms(6) by (auto simp: wf_state_def)
  then show ?thesis using assms by (auto simp: changes_def wf_state_def)
qed

lemma changes_mono: "changes m hs r P \<Longrightarrow> (\<And>xs. P xs \<Longrightarrow> Q xs) \<Longrightarrow> changes m hs r Q"
  by (auto simp: changes_def)

lemma wfD:
  assumes "wf_state m (h # hs)"
  shows "counted m (h # hs)" "view_ok m h" "consistent m h = Some ()" "length (content m h) = sb_size h"
  using assms view_consistent [of m "h # hs" h] length_content [of m "h # hs" h] by (auto simp: wf_state_def)

lemma null_wf: "wf_state m (h # hs) \<Longrightarrow> sb_buffer h = None \<Longrightarrow> h = null_buffer \<and> content m h = []"
  by (simp add: wf_state_def view_ok_def content_def)

lemma counted_view_irrel:
  "sb_buffer h' = sb_buffer h \<Longrightarrow> counted m (h # hs) \<Longrightarrow> counted m (h' # hs)"
  by (simp add: counted_def)

text \<open>A new object for a variable that shows it from the beginning.\<close>

lemma assign_new_changes:
  assumes w: "wf_state m (h # hs)" and b: "buf_inv b" "0 < mCapacity b" "n \<le> mSize b"
  shows "\<exists>m' q. assign_new (Some b) m h = Some (m', h\<lparr>sb_buffer := Some q\<rparr>) \<and>
    consistent m' (h\<lparr>sb_buffer := Some q, sb_offset := 0, sb_size := n\<rparr>) = Some () \<and>
    changes m hs (Some (m', h\<lparr>sb_buffer := Some q, sb_offset := 0, sb_size := n\<rparr>)) (\<lambda>ys. ys = take n (contents b))"
proof -
  from assign_new_ok [OF wfD(1) [OF w] b(1,2)] obtain m' q where m': "assign_new (Some b) m h = Some (m', h\<lparr>sb_buffer := Some q\<rparr>)"
      "counted m' (h\<lparr>sb_buffer := Some q\<rparr> # hs)" "buf_at q m' = Some b" "same_for hs m m'" by blast
  let ?h' = "h\<lparr>sb_buffer := Some q, sb_offset := 0, sb_size := n\<rparr>"
  have c': "counted m' (?h' # hs)" using m'(2) by (simp add: counted_def)
  have v': "view_ok m' ?h'" using m'(3) b by (simp add: view_ok_def)
  have "content m' ?h' = take n (contents b)" using m'(3) b(3) by (simp add: content_def contents_def)
  then have "changes m hs (Some (m', ?h')) (\<lambda>ys. ys = take n (contents b))" using changesI [OF refl c' v' m'(4) _ w] by simp
  then show ?thesis using m'(1) view_consistent [OF c' v'] by blast
qed

lemma SetData_changes:
  assumes w: "wf_state m (h # hs)" and n: "length data \<le> 2 ^ 62"
  shows "changes m hs (sb_SetData data m h) (\<lambda>ys. ys = data)"
proof (cases "sb_buffer h")
  case None
  note nl = null_wf [OF w None]
  show ?thesis
  proof (cases "data = []")
    case True
    have "h\<lparr>sb_offset := 0, sb_size := 0\<rparr> = h" using nl by (simp add: null_buffer_def)
    then have "sb_SetData data m h = Some (m, h)" using True None wfD(3) [OF w] by (simp add: sb_SetData_def)
    then show ?thesis using True nl w by (auto simp: changes_def)
  next
    case False
    have "length data \<le> 3 * 2 ^ 61" using n by simp
    from BufferT_data_ok [OF this this] obtain b where b: "BufferT_data data (length data) = Some b" "buf_inv b" "contents b = data"
        "mSize b = length data" "mCapacity b = length data" by auto
    have "0 < mCapacity b" "length data \<le> mSize b" using b False by simp_all
    from assign_new_changes [OF w b(2) this] obtain m' q where m': "assign_new (Some b) m h = Some (m', h\<lparr>sb_buffer := Some q\<rparr>)"
      "consistent m' (h\<lparr>sb_buffer := Some q, sb_offset := 0, sb_size := (length data)\<rparr>) = Some ()"
      "changes m hs (Some (m', h\<lparr>sb_buffer := Some q, sb_offset := 0, sb_size := (length data)\<rparr>)) (\<lambda>ys. ys = take (length data) (contents b))" by blast
    have "sb_SetData data m h = Some (m', h\<lparr>sb_buffer := Some q, sb_offset := 0, sb_size := (length data)\<rparr>)"
      using m'(1,2) None False wfD(3) [OF w] b(1) by (simp add: sb_SetData_def Let_def)
    then show ?thesis using m'(3) b(3) by simp
  qed
next
  case (Some p)
  from viewE [OF wfD(1,2) [OF w] Some] obtain k b where b: "object m p = Some (k, b)" "buf_at p m = Some b" "buf_inv b" "0 < mCapacity b"
      "sb_offset h < mCapacity b" "mCapacity b \<le> 3 * 2 ^ 61" by metis
  note one = HasOneRef_object [OF b(1)] and cap = capacity_ok [OF wfD(1,2) [OF w] Some b(2)]
  show ?thesis
  proof (cases "k = 1")
    case True
    from SetData_ok [OF b(3) n, of False] obtain b' f where b': "SetData False data b = Some (b', f)" "buf_inv b'" "mSize b' = length data" "contents b' = data"
        "mCapacity b \<le> mCapacity b'" by blast
    have "0 < mCapacity b'" using b'(5) b(4) by simp
    from update_buf_ok [where f = "SetData False data", OF wfD(1) [OF w] Some _ b(2) b'(1,2) this] one True
    obtain m' where m': "update_buf (SetData False data) p m = Some m'" "counted m' (h # hs)" "buf_at p m' = Some b'" "same_for hs m m'" by auto
    let ?h' = "h\<lparr>sb_offset := 0, sb_size := length data\<rparr>"
    have c': "counted m' (?h' # hs)" using m'(2) by (simp add: counted_def)
    have v': "view_ok m' ?h'" using m'(3) b' Some \<open>0 < mCapacity b'\<close> by (simp add: view_ok_def)
    have "sb_SetData data m h = Some (m', ?h')"
      using Some one True m'(1) wfD(3) [OF w] view_consistent [OF c' v'] by (simp add: sb_SetData_def)
    moreover have "content m' ?h' = data" using m'(3) b'(3,4) Some by (simp add: content_def contents_def)
    ultimately show ?thesis by (rule changesI [OF _ c' v' m'(4) _ w])
  next
    case False
    have "length data \<le> 3 * 2 ^ 61" "mCapacity b - sb_offset h \<le> 3 * 2 ^ 61" using n b(6) by simp_all
    from BufferT_data_ok [OF this] obtain nb where nb: "BufferT_data data (mCapacity b - sb_offset h) = Some nb" "buf_inv nb" "contents nb = data"
        "mSize nb = length data" "mCapacity nb = max (length data) (mCapacity b - sb_offset h)" by blast
    have "0 < mCapacity nb" "length data \<le> mSize nb" using nb b(5) by (simp_all add: less_max_iff_disj)
    from assign_new_changes [OF w nb(2) this] obtain m' q where m': "assign_new (Some nb) m h = Some (m', h\<lparr>sb_buffer := Some q\<rparr>)"
      "consistent m' (h\<lparr>sb_buffer := Some q, sb_offset := 0, sb_size := (length data)\<rparr>) = Some ()"
      "changes m hs (Some (m', h\<lparr>sb_buffer := Some q, sb_offset := 0, sb_size := (length data)\<rparr>)) (\<lambda>ys. ys = take (length data) (contents nb))" by blast
    have "sb_SetData data m h = Some (m', h\<lparr>sb_buffer := Some q, sb_offset := 0, sb_size := (length data)\<rparr>)"
      using m'(1,2) Some one False cap wfD(3) [OF w] nb(1) by (simp add: sb_SetData_def Let_def)
    then show ?thesis using m'(3) nb(3) by simp
  qed
qed

lemma Clear_changes:
  assumes w: "wf_state m (h # hs)"
  shows "changes m hs (sb_Clear m h) (\<lambda>ys. ys = [])"
proof (cases "sb_buffer h")
  case None
  then show ?thesis using null_wf [OF w] w by (auto simp: sb_Clear_def changes_def)
next
  case (Some p)
  from viewE [OF wfD(1,2) [OF w] Some] obtain k b where b: "object m p = Some (k, b)" "buf_at p m = Some b" "buf_inv b" "0 < mCapacity b"
      "sb_offset h < mCapacity b" "mCapacity b \<le> 3 * 2 ^ 61" by metis
  note one = HasOneRef_object [OF b(1)] and cap = capacity_ok [OF wfD(1,2) [OF w] Some b(2)]
  let ?h' = "h\<lparr>sb_offset := 0, sb_size := 0\<rparr>"
  show ?thesis
  proof (cases "k = 1")
    case True
    from Clear_ok [OF b(3), of False] obtain b' where b': "BufferT_Clear False b = Some b'" "buf_inv b'" "mCapacity b' = mCapacity b" by blast
    let ?f = "\<lambda>b. do { b \<leftarrow> BufferT_Clear False b; Some (b, ()) }"
    have f: "?f b = Some (b', ())" "0 < mCapacity b'" using b' b(4) by simp_all
    from update_buf_ok [where f = ?f, OF wfD(1) [OF w] Some _ b(2) f(1) b'(2) f(2)] one True
    obtain m' where m': "update_buf ?f p m = Some m'" "counted m' (h # hs)" "buf_at p m' = Some b'" "same_for hs m m'" by auto
    have c': "counted m' (?h' # hs)" using m'(2) by (simp add: counted_def)
    have v': "view_ok m' ?h'" using m'(3) Some f(2) by (simp add: view_ok_def)
    have "sb_Clear m h = Some (m', ?h')" using Some one True m'(1) view_consistent [OF c' v'] by (simp add: sb_Clear_def)
    moreover have "content m' ?h' = []" using m'(3) Some by (simp add: content_def)
    ultimately show ?thesis by (rule changesI [OF _ c' v' m'(4) _ w])
  next
    case False
    have "mCapacity b - sb_offset h \<le> 3 * 2 ^ 61" using b(6) by simp
    from BufferT_new_ok [OF _ this, of 0 0] obtain nb :: "'a buffer_t" where nb: "BufferT_new 0 (mCapacity b - sb_offset h) = Some nb" "buf_inv nb"
        "mCapacity nb = mCapacity b - sb_offset h" by auto
    have "0 < mCapacity nb" "0 \<le> mSize nb" using nb b(5) by simp_all
    from assign_new_changes [OF w nb(2) this] obtain m' q where m': "assign_new (Some nb) m h = Some (m', h\<lparr>sb_buffer := Some q\<rparr>)"
      "consistent m' (h\<lparr>sb_buffer := Some q, sb_offset := 0, sb_size := 0\<rparr>) = Some ()"
      "changes m hs (Some (m', h\<lparr>sb_buffer := Some q, sb_offset := 0, sb_size := 0\<rparr>)) (\<lambda>ys. ys = take 0 (contents nb))" by blast
    have "sb_Clear m h = Some (m', h\<lparr>sb_buffer := Some q, sb_offset := 0, sb_size := 0\<rparr>)"
      using m'(1,2) Some one False cap nb(1) by (simp add: sb_Clear_def Let_def)
    then show ?thesis using m'(3) nb(3) by simp
  qed
qed

lemma content_end:
  assumes "sb_buffer h = Some p" "buf_at p m = Some b" "mSize b = sb_offset h + sb_size h"
  shows "content m h = drop (sb_offset h) (contents b)"
  using assms by (simp add: content_def contents_def take_drop add.commute)

lemma AppendData_changes:
  assumes w: "wf_state m (h # hs)" and n: "sb_size h + length data \<le> 2 ^ 62" and d: "data \<noteq> [] \<or> sb_buffer h \<noteq> None"
  shows "changes m hs (sb_AppendData data m h) (\<lambda>ys. ys = content m h @ data)"
proof (cases "sb_buffer h")
  case None
  note nl = null_wf [OF w None]
  have "length data \<le> 3 * 2 ^ 61" using n by simp
  from BufferT_data_ok [OF this this] obtain b where b: "BufferT_data data (length data) = Some b" "buf_inv b" "contents b = data"
      "mSize b = length data" "mCapacity b = length data" by auto
  have "0 < mCapacity b" "length data \<le> mSize b" using b d None by simp_all
    from assign_new_changes [OF w b(2) this] obtain m' q where m': "assign_new (Some b) m h = Some (m', h\<lparr>sb_buffer := Some q\<rparr>)"
      "consistent m' (h\<lparr>sb_buffer := Some q, sb_offset := 0, sb_size := (length data)\<rparr>) = Some ()"
      "changes m hs (Some (m', h\<lparr>sb_buffer := Some q, sb_offset := 0, sb_size := (length data)\<rparr>)) (\<lambda>ys. ys = take (length data) (contents b))" by blast
    have "sb_AppendData data m h = Some (m', h\<lparr>sb_buffer := Some q, sb_offset := 0, sb_size := (length data)\<rparr>)"
      using m'(1,2) None wfD(3) [OF w] b(1) by (simp add: sb_AppendData_def Let_def)
    then show ?thesis using m'(3) b(3) nl by (metis append_Nil order_refl take_all_iff)
next
  case (Some p)
  from viewE [OF wfD(1,2) [OF w] Some] obtain b0 where b0: "buf_at p m = Some b0" "sb_offset h < mCapacity b0" "mCapacity b0 \<le> 3 * 2 ^ 61" by metis
  note cap = capacity_ok [OF wfD(1,2) [OF w] Some b0(1)]
  have sz: "size_add (sb_size h) (length data) = sb_size h + length data" using n by (simp add: size_add_def)
  define c where "c = max (mCapacity b0 - sb_offset h) (sb_size h + length data)"
  have c: "0 < c" "c \<le> 3 * 2 ^ 61" using b0 n by (simp_all add: c_def less_max_iff_disj)
  from unshare_ok [OF w Some c] obtain m1 h1 q b1 where u: "UnshareAndEnsureCapacity c m h = Some (m1, h1)" "counted m1 (h1 # hs)" "same_for hs m m1" "view_ok m1 h1"
      "sb_buffer h1 = Some q" "HasOneRef q m1 = Some True" "buf_at q m1 = Some b1" "sb_size h1 = sb_size h" "content m1 h1 = content m h" "sb_offset h1 + c \<le> mCapacity b1"
    by blast
  from viewE [OF u(2,4,5)] u(7) have v1: "buf_inv b1" "0 < mCapacity b1" "sb_offset h1 + sb_size h \<le> mSize b1" "mSize b1 \<le> mCapacity b1" "mCapacity b1 \<le> 3 * 2 ^ 61"
      "content m1 h1 = take (sb_size h) (drop (sb_offset h1) (cells b1))"
    using u(8) by (metis option.inject)+
  have fits: "sb_offset h1 + sb_size h + length data \<le> mCapacity b1" using u(10) by (simp add: c_def)
  have so: "size_add (sb_offset h1) (sb_size h1) = sb_offset h1 + sb_size h" using v1(3-5) u(8) by (simp add: size_add_def)
  have "sb_offset h1 + sb_size h \<le> max (2 ^ 62) (mCapacity b1)" using fits by simp
  from SetSize_ok [OF v1(1) this, of False] obtain b2 f where b2: "SetSize False (sb_offset h1 + sb_size h) b1 = Some (b2, f)" "buf_inv b2"
      "mSize b2 = sb_offset h1 + sb_size h" "mCapacity b1 \<le> mCapacity b2" "cells b2 = cells b1" using fits by auto
  have p2: "0 < mCapacity b2" using v1(2) b2(4) by simp
  from update_buf_ok [where f = "SetSize False (sb_offset h1 + sb_size h)", OF u(2,5,6,7) b2(1,2) p2] obtain m2 where
    m2: "update_buf (SetSize False (sb_offset h1 + sb_size h)) q m1 = Some m2" "counted m2 (h1 # hs)" "buf_at q m2 = Some b2" "HasOneRef q m2 = Some True" "same_for hs m1 m2"
    by blast
  have "mSize b2 + length data \<le> max (2 ^ 62) (mCapacity b2)" using fits b2(3,4) by simp
  from AppendData_ok [OF b2(2) this, of False] obtain b3 f' where b3: "AppendData False data b2 = Some (b3, f')" "buf_inv b3" "mSize b3 = mSize b2 + length data"
      "contents b3 = contents b2 @ data" "mCapacity b2 \<le> mCapacity b3" by blast
  have p3: "0 < mCapacity b3" using p2 b3(5) by simp
  from update_buf_ok [where f = "AppendData False data", OF m2(2) u(5) m2(4,3) b3(1,2) p3] obtain m3 where
    m3: "update_buf (AppendData False data) q m2 = Some m3" "counted m3 (h1 # hs)" "buf_at q m3 = Some b3" "same_for hs m2 m3" by blast
  let ?h' = "h1\<lparr>sb_size := sb_size h + length data\<rparr>"
  have off: "sb_offset h1 < mCapacity b3" using u(10) c(1) b2(4) b3(5) by simp
  have c': "counted m3 (?h' # hs)" using m3(2) by (simp add: counted_def)
  have v': "view_ok m3 ?h'" using m3(3) u(5) b3(3) b2(3) off by (simp add: view_ok_def)
  have "content m3 ?h' = drop (sb_offset h1) (contents b3)"
    using content_end [of ?h' q m3 b3] u(5) m3(3) b3(3) b2(3) by simp
  also have "\<dots> = content m h @ data"
    using b3(4) v1(6) u(9) b2(3,5) length_contents [OF b2(2)] by (simp add: contents_def take_drop add.commute)
  finally have "content m3 ?h' = content m h @ data" .
  moreover have "sb_AppendData data m h = Some (m3, ?h')"
    using Some cap u m2(1) m3(1) so sz wfD(3) [OF w] view_consistent [OF c' v'] by (simp add: sb_AppendData_def Let_def flip: c_def)
  moreover have "same_for hs m m3" using u(3) m2(5) m3(4) same_for_trans by blast
  ultimately show ?thesis by (intro changesI [OF _ c' v' _ _ w]) simp_all
qed

lemma SetSize_changes:
  assumes w: "wf_state m (h # hs)" and n: "n \<le> 2 ^ 62"
  shows "changes m hs (sb_SetSize n m h) (\<lambda>ys. length ys = n \<and> take (sb_size h) ys = take n (content m h))"
proof -
  consider "sb_buffer h = None" "n = 0" | "sb_buffer h = None" "0 < n" | p where "sb_buffer h = Some p" "n \<le> sb_size h" | p where "sb_buffer h = Some p" "sb_size h < n"
    by (cases "sb_buffer h") force+
  then show ?thesis
  proof cases
    case 1
    then show ?thesis using null_wf [OF w] w wfD(3) [OF w] by (auto simp: sb_SetSize_def changes_def)
  next
    case 2
    note nl = null_wf [OF w 2(1)]
    from BufferT_new_ok [of n n n] obtain b :: "'a buffer_t" where b: "BufferT_new n n = Some b" "buf_inv b" "mSize b = n" "mCapacity b = n" using n by auto
    have "0 < mCapacity b" "n \<le> mSize b" using b 2 by simp_all
    from assign_new_changes [OF w b(2) this] obtain m' q where m': "assign_new (Some b) m h = Some (m', h\<lparr>sb_buffer := Some q\<rparr>)"
      "consistent m' (h\<lparr>sb_buffer := Some q, sb_offset := 0, sb_size := n\<rparr>) = Some ()"
      "changes m hs (Some (m', h\<lparr>sb_buffer := Some q, sb_offset := 0, sb_size := n\<rparr>)) (\<lambda>ys. ys = take n (contents b))" by blast
    have "sb_SetSize n m h = Some (m', h\<lparr>sb_buffer := Some q, sb_offset := 0, sb_size := n\<rparr>)"
      using 2 b(1) m'(1,2) wfD(3) [OF w] by (simp add: sb_SetSize_def)
    moreover have "length (take n (contents b)) = n" using b(2,3) by simp
    moreover have "sb_size h = 0" using nl by (simp add: null_buffer_def)
    ultimately show ?thesis using changes_mono [OF m'(3)] nl by auto
  next
    case (3 p)
    let ?h' = "h\<lparr>sb_size := n\<rparr>"
    from viewE [OF wfD(1,2) [OF w] 3(1)] obtain b where b: "buf_at p m = Some b" "sb_offset h < mCapacity b" "sb_offset h + sb_size h \<le> mSize b"
        "length (cells b) = mCapacity b" "mSize b \<le> mCapacity b" "content m h = take (sb_size h) (drop (sb_offset h) (cells b))" by metis
    have "counted m (?h' # hs)" using wfD(1) [OF w] by (simp add: counted_def)
    moreover have "view_ok m ?h'" using 3 b by (simp add: view_ok_def)
    moreover have "content m ?h' = take n (content m h)" using 3 b by (simp add: content_def min.absorb1)
    moreover have "sb_SetSize n m h = Some (m, ?h')" using 3 wfD(3) [OF w] by (simp add: sb_SetSize_def)
    moreover have "length (take n (content m h)) = n" using 3 wfD(4) [OF w] by simp
    ultimately show ?thesis using 3(2) by (intro changesI [OF _ _ _ same_for_refl _ w, of _ ?h']) (simp_all del: length_take)
  next
    case (4 p)
    from viewE [OF wfD(1,2) [OF w] 4(1)] obtain b0 where b0: "buf_at p m = Some b0" "sb_offset h < mCapacity b0" "mCapacity b0 \<le> 3 * 2 ^ 61" by metis
    note cap = capacity_ok [OF wfD(1,2) [OF w] 4(1) b0(1)]
    define c where "c = max (mCapacity b0 - sb_offset h) n"
    have c: "0 < c" "c \<le> 3 * 2 ^ 61" using b0 n by (simp_all add: c_def less_max_iff_disj)
    from unshare_ok [OF w 4(1) c] obtain m1 h1 q b1 where u: "UnshareAndEnsureCapacity c m h = Some (m1, h1)" "counted m1 (h1 # hs)" "same_for hs m m1" "view_ok m1 h1"
        "sb_buffer h1 = Some q" "HasOneRef q m1 = Some True" "buf_at q m1 = Some b1" "sb_size h1 = sb_size h" "content m1 h1 = content m h" "sb_offset h1 + c \<le> mCapacity b1"
      by blast
    from viewE [OF u(2,4,5)] u(7) have v1: "buf_inv b1" "0 < mCapacity b1" "sb_offset h1 + sb_size h \<le> mSize b1" "mCapacity b1 \<le> 3 * 2 ^ 61"
        "content m1 h1 = take (sb_size h) (drop (sb_offset h1) (cells b1))"
      using u(8) by (metis option.inject)+
    have fits: "n + sb_offset h1 \<le> mCapacity b1" using u(10) by (simp add: c_def)
    have so: "size_add n (sb_offset h1) = n + sb_offset h1" using fits v1(4) by (simp add: size_add_def)
    have "n + sb_offset h1 \<le> max (2 ^ 62) (mCapacity b1)" using fits by simp
    from SetSize_ok [OF v1(1) this, of False] obtain b2 f where b2: "SetSize False (n + sb_offset h1) b1 = Some (b2, f)" "buf_inv b2"
        "mSize b2 = n + sb_offset h1" "mCapacity b1 \<le> mCapacity b2" "cells b2 = cells b1" using fits by auto
    have p2: "0 < mCapacity b2" using v1(2) b2(4) by simp
    from update_buf_ok [where f = "SetSize False (n + sb_offset h1)", OF u(2,5,6,7) b2(1,2) p2] obtain m2 where
      m2: "update_buf (SetSize False (n + sb_offset h1)) q m1 = Some m2" "counted m2 (h1 # hs)" "buf_at q m2 = Some b2" "same_for hs m1 m2" by blast
    let ?h' = "h1\<lparr>sb_size := n\<rparr>"
    have c': "counted m2 (?h' # hs)" using m2(2) by (simp add: counted_def)
    have v': "view_ok m2 ?h'" using m2(3) u(5,10) b2(3,4) c(1) by (simp add: view_ok_def)
    have ct: "content m2 ?h' = take n (drop (sb_offset h1) (cells b1))" using m2(3) u(5) b2(5) by (simp add: content_def)
    have "length (content m2 ?h') = n" using length_content [OF c' v'] by simp
    moreover have "take (sb_size h) (content m2 ?h') = take n (content m h)" using ct v1(5) u(9) 4(2) by (simp add: take_take min.absorb1 min.absorb2)
    moreover have "sb_SetSize n m h = Some (m2, ?h')"
      using 4 cap u m2(1) so wfD(3) [OF w] view_consistent [OF c' v'] by (simp add: sb_SetSize_def Let_def flip: c_def)
    moreover have "same_for hs m m2" using u(3) m2(4) same_for_trans by blast
    ultimately show ?thesis by (intro changesI [OF _ c' v' _ _ w]) simp_all
  qed
qed

lemma EnsureCapacity_changes:
  assumes w: "wf_state m (h # hs)" and n: "n \<le> 2 ^ 62"
  shows "changes m hs (sb_EnsureCapacity n m h) (\<lambda>ys. ys = content m h)"
proof (cases "sb_buffer h")
  case None
  note nl = null_wf [OF w None]
  show ?thesis
  proof (cases "n = 0")
    case True
    then show ?thesis using None w wfD(3) [OF w] by (auto simp: sb_EnsureCapacity_def changes_def)
  next
    case False
    have "n \<le> 3 * 2 ^ 61" using n by simp
    from BufferT_new_ok [OF _ this, of 0 0] obtain b :: "'a buffer_t" where b: "BufferT_new 0 n = Some b" "buf_inv b" "mCapacity b = n" by auto
    have "0 < mCapacity b" "0 \<le> mSize b" using b False by simp_all
    from assign_new_changes [OF w b(2) this] obtain m' q where m': "assign_new (Some b) m h = Some (m', h\<lparr>sb_buffer := Some q\<rparr>)"
      "consistent m' (h\<lparr>sb_buffer := Some q, sb_offset := 0, sb_size := 0\<rparr>) = Some ()"
      "changes m hs (Some (m', h\<lparr>sb_buffer := Some q, sb_offset := 0, sb_size := 0\<rparr>)) (\<lambda>ys. ys = take 0 (contents b))" by blast
    have "sb_EnsureCapacity n m h = Some (m', h\<lparr>sb_buffer := Some q, sb_offset := 0, sb_size := 0\<rparr>)"
      using m'(1,2) None False wfD(3) [OF w] b(1) by (simp add: sb_EnsureCapacity_def)
    then show ?thesis using m'(3) conjunct2 [OF nl] by simp
  qed
next
  case (Some p)
  from viewE [OF wfD(1,2) [OF w] Some] obtain b0 where b0: "buf_at p m = Some b0" by metis
  note cap = capacity_ok [OF wfD(1,2) [OF w] Some b0]
  show ?thesis
  proof (cases "n \<le> mCapacity b0 - sb_offset h")
    case True
    then have "sb_EnsureCapacity n m h = Some (m, h)" using Some cap wfD(3) [OF w] by (simp add: sb_EnsureCapacity_def)
    then show ?thesis using w by (simp add: changes_def)
  next
    case False
    then have c: "0 < n" "n \<le> 3 * 2 ^ 61" using n by simp_all
    from unshare_ok [OF w Some c] obtain m1 h1 where u: "UnshareAndEnsureCapacity n m h = Some (m1, h1)" "counted m1 (h1 # hs)" "same_for hs m m1" "view_ok m1 h1"
        "content m1 h1 = content m h" by blast
    have "sb_EnsureCapacity n m h = Some (m1, h1)"
      using Some False cap u(1) wfD(3) [OF w] view_consistent [OF u(2,4)] by (simp add: sb_EnsureCapacity_def)
    from changesI [OF this u(2,4,3) _ w] show ?thesis using u(5) by simp
  qed
qed

lemma write_changes:
  assumes w: "wf_state m (h # hs)" and i: "i < sb_size h"
  shows "changes m hs (sb_write i v m h) (\<lambda>ys. ys = (content m h)[i := v])"
proof -
  obtain p where Some: "sb_buffer h = Some p" using i null_wf [OF w] by (cases "sb_buffer h") (auto simp: null_buffer_def)
  from viewE [OF wfD(1,2) [OF w] Some] obtain b0 where b0: "buf_at p m = Some b0" "sb_offset h < mCapacity b0" "mCapacity b0 \<le> 3 * 2 ^ 61" by metis
  note cap = capacity_ok [OF wfD(1,2) [OF w] Some b0(1)]
  have c: "0 < mCapacity b0 - sb_offset h" "mCapacity b0 - sb_offset h \<le> 3 * 2 ^ 61" using b0 by simp_all
  from unshare_ok [OF w Some c] obtain m1 h1 q b1 where u: "UnshareAndEnsureCapacity (mCapacity b0 - sb_offset h) m h = Some (m1, h1)" "counted m1 (h1 # hs)"
      "same_for hs m m1" "view_ok m1 h1" "sb_buffer h1 = Some q" "HasOneRef q m1 = Some True" "buf_at q m1 = Some b1" "sb_size h1 = sb_size h" "content m1 h1 = content m h"
    by blast
  from viewE [OF u(2,4,5)] u(7) have v1: "buf_inv b1" "0 < mCapacity b1" "sb_offset h1 < mCapacity b1" "sb_offset h1 + sb_size h \<le> mSize b1" "mSize b1 \<le> mCapacity b1"
      "mData b1 = Some (cells b1)" "length (cells b1) = mCapacity b1" "content m1 h1 = take (sb_size h) (drop (sb_offset h1) (cells b1))"
    using u(8) by (metis option.inject)+
  let ?f = "\<lambda>b. do { d \<leftarrow> mData b; d \<leftarrow> Octk_Prelude.store d (sb_offset h1 + i) v; Some (b\<lparr>mData := Some d\<rparr>, ()) }"
  let ?b' = "b1\<lparr>mData := Some ((cells b1)[sb_offset h1 + i := v])\<rparr>"
  have f: "?f b1 = Some (?b', ())" "buf_inv ?b'" "0 < mCapacity ?b'" using v1 i by (simp_all add: buf_inv_def)
  from update_buf_ok [where f = ?f, OF u(2,5,6,7) f] obtain m2 where
    m2: "update_buf ?f q m1 = Some m2" "counted m2 (h1 # hs)" "buf_at q m2 = Some ?b'" "same_for hs m1 m2" by blast
  have v2: "view_ok m2 h1" using m2(3) u(5,8) v1 by (simp add: view_ok_def)
  have md: "MutableData m h = Some (m1, h1)" using Some cap u(1) wfD(3) [OF w] by (simp add: MutableData_def)
  have "sb_write i v m h = Some (m2, h1)"
    unfolding sb_write_def md using u(5) m2(1) by simp
  moreover have "content m2 h1 = (content m h)[i := v]"
    using m2(3) u(5,8,9) v1(8) i by (simp add: content_def drop_update_swap take_update_swap)
  ultimately show ?thesis using same_for_trans [OF u(3) m2(4)] by (intro changesI [OF _ m2(2) v2 _ _ w]) simp_all
qed

text \<open>Copies, assignments and destruction. The new handle \<open>g\<close> points to what \<open>s\<close> points to.\<close>

lemma addRef_ok:
  assumes c: "counted m hs" and g: "s \<in> set hs" "sb_buffer g = sb_buffer s"
  shows "\<exists>m'. ptr_copy (sb_buffer s) m = Some m' \<and> counted m' (g # hs) \<and> same_for (g # hs) m m'"
proof (cases "sb_buffer s")
  case None
  then show ?thesis using c g by (auto simp: ptr_copy_def counted_def same_for_def)
next
  case (Some p)
  then obtain n b where n: "object m p = Some (n, b)" using c g by (fastforce simp: counted_def)
  define m' where "m' = m[p := Some (n + 1, b)]"
  have o: "object m' q = (if q = p then Some (n + 1, b) else object m q)" for q
    unfolding m'_def by (rule object_update [OF object_bound [OF n]])
  have "ptr_copy (sb_buffer s) m = Some m'" using Some n by (simp add: ptr_copy_def addRef_def m'_def)
  moreover have "counted m' (g # hs)" using c n g(2) Some unfolding counted_def o by auto
  moreover have "same_for (g # hs) m m'" using n by (auto simp: same_for_def buf_at_def o)
  ultimately show ?thesis by blast
qed

lemma Release_ok:
  assumes c: "counted m (h # hs)"
  shows "\<exists>m'. ptr_destroy (sb_buffer h) m = Some m' \<and> counted m' hs \<and> same_for hs m m'"
proof (cases "sb_buffer h")
  case None
  then show ?thesis using c by (auto simp: ptr_destroy_def counted_def same_for_def)
next
  case (Some p)
  then obtain n b where n: "object m p = Some (n, b)" using c by (fastforce simp: counted_def)
  have n': "n = Suc (refs p hs)" "buf_inv b" "0 < mCapacity b" using c n Some unfolding counted_def by fastforce+
  define m' where "m' = m[p := (if n - 1 = 0 then None else Some (n - 1, b))]"
  have o: "object m' q = (if q = p then (if n - 1 = 0 then None else Some (n - 1, b)) else object m q)" for q
    unfolding m'_def by (rule object_update [OF object_bound [OF n]])
  have "ptr_destroy (sb_buffer h) m = Some m'" using Some n by (simp add: ptr_destroy_def Release_def m'_def)
  moreover have "counted m' hs"
  proof -
    have "k = refs x hs \<and> 0 < k \<and> buf_inv d \<and> 0 < mCapacity d" if "object m' x = Some (k, d)" for x k d
    proof (cases "x = p")
      case True
      then show ?thesis using that n' by (auto simp: o split: if_splits)
    next
      case False
      then have "object m x = Some (k, d)" using that by (simp add: o)
      then have "k = refs x (h # hs) \<and> 0 < k \<and> buf_inv d \<and> 0 < mCapacity d" using c unfolding counted_def by blast
      then show ?thesis using False Some by simp
    qed
    moreover have "object m' x \<noteq> None" if "r \<in> set hs" "sb_buffer r = Some x" for r x
    proof (cases "x = p")
      case True
      then have "refs p hs \<noteq> 0" using that refs_zero [of p hs] by auto
      then show ?thesis using True n' by (simp add: o)
    next
      case False
      then show ?thesis using that c by (auto simp: o counted_def)
    qed
    ultimately show ?thesis unfolding counted_def by blast
  qed
  moreover have "same_for hs m m'"
    unfolding same_for_def
  proof (intro ballI allI impI)
    fix r x assume r: "r \<in> set hs" "sb_buffer r = Some x"
    have "x = p \<Longrightarrow> n - 1 \<noteq> 0" using r n'(1) refs_zero [of p hs] by auto
    then show "buf_at x m' = buf_at x m" using n by (auto simp: buf_at_def o)
  qed
  ultimately show ?thesis by blast
qed

end
