(* ===== verification/SharedBufferSafety.thy ===== *)
theory SharedBufferSafety
  imports SharedBufferLaws
begin

text \<open>
  Sessions of operations on the \<open>SharedBuffer\<close> variables of a program, their refinement of sessions on independent lists, and the two uses of the class that
  make its own checks fail.
\<close>



section \<open>Sessions\<close>

datatype 'a sb_op = NewSized nat nat | NewData "'a cells" nat | CopyOf nat | MoveOf nat | SliceOf nat nat nat | Destroy nat
  | Assign nat nat | MoveAssign nat nat | Swap nat nat | SetContents nat "'a cells" | AppendTo nat "'a cells" | ResizeTo nat nat | ReserveFor nat nat
  | ClearAll nat | WriteAt nat nat "'a option"

definition on_var :: "('a store \<Rightarrow> shared_buffer \<Rightarrow> ('a store \<times> shared_buffer) option) \<Rightarrow> nat \<Rightarrow> 'a sb_state \<Rightarrow> 'a sb_state option" where
  "on_var f i = (\<lambda>(m, hs). do { h \<leftarrow> deref hs i; (m, h) \<leftarrow> f m h; Some (m, hs[i := h]) })"

definition add_var :: "('a store \<Rightarrow> ('a store \<times> shared_buffer) option) \<Rightarrow> 'a sb_state \<Rightarrow> 'a sb_state option" where
  "add_var f = (\<lambda>(m, hs). do { (m, h) \<leftarrow> f m; Some (m, hs @ [h]) })"

fun sb_step :: "'a :: zero sb_op \<Rightarrow> 'a sb_state \<Rightarrow> 'a sb_state option" where
  "sb_step (NewSized n c) s = add_var (sb_new n c) s"
| "sb_step (NewData data c) s = add_var (sb_data data c) s"
| "sb_step (CopyOf j) (m, hs) = do { buf \<leftarrow> deref hs j; add_var (\<lambda>m. sb_copy m buf) (m, hs) }"
| "sb_step (MoveOf j) (m, hs) = do { buf \<leftarrow> deref hs j; (h, buf) \<leftarrow> sb_move m buf; Some (m, hs[j := buf] @ [h]) }"
| "sb_step (SliceOf j offset n) (m, hs) = do { buf \<leftarrow> deref hs j; add_var (\<lambda>m. Slice offset n m buf) (m, hs) }"
| "sb_step (Destroy i) s = on_var (\<lambda>m h. do { m \<leftarrow> sb_destroy m h; Some (m, null_buffer) }) i s"
| "sb_step (Assign i j) (m, hs) = do { buf \<leftarrow> deref hs j; if i = j then do { consistent m buf; Some (m, hs) } else on_var (\<lambda>m h. sb_assign m h buf) i (m, hs) }"
| "sb_step (MoveAssign i j) (m, hs) = do {
     h \<leftarrow> deref hs i; buf \<leftarrow> deref hs j;
     dcheck (i \<noteq> j);
     (m, h, buf) \<leftarrow> sb_move_assign m h buf;
     Some (m, hs[i := h, j := buf])
   }"
| "sb_step (Swap i j) (m, hs) = do { a \<leftarrow> deref hs i; b \<leftarrow> deref hs j; Some (m, hs[i := b, j := a]) }"
| "sb_step (SetContents i data) s = on_var (sb_SetData data) i s"
| "sb_step (AppendTo i data) s = on_var (sb_AppendData data) i s"
| "sb_step (ResizeTo i n) s = on_var (sb_SetSize n) i s"
| "sb_step (ReserveFor i n) s = on_var (sb_EnsureCapacity n) i s"
| "sb_step (ClearAll i) s = on_var sb_Clear i s"
| "sb_step (WriteAt i k v) s = on_var (sb_write k v) i s"

text \<open>The variables as independent lists.\<close>

fun sb_spec :: "'a sb_op \<Rightarrow> 'a cells list \<Rightarrow> 'a cells list \<Rightarrow> bool" where
  "sb_spec (NewSized n c) xs ys \<longleftrightarrow> (\<exists>z. length z = n \<and> ys = xs @ [z])"
| "sb_spec (NewData data c) xs ys \<longleftrightarrow> ys = xs @ [data]"
| "sb_spec (CopyOf j) xs ys \<longleftrightarrow> ys = xs @ [xs ! j]"
| "sb_spec (MoveOf j) xs ys \<longleftrightarrow> ys = xs[j := []] @ [xs ! j]"
| "sb_spec (SliceOf j offset n) xs ys \<longleftrightarrow> ys = xs @ [take n (drop offset (xs ! j))]"
| "sb_spec (Destroy i) xs ys \<longleftrightarrow> ys = xs[i := []]"
| "sb_spec (Assign i j) xs ys \<longleftrightarrow> ys = xs[i := xs ! j]"
| "sb_spec (MoveAssign i j) xs ys \<longleftrightarrow> ys = xs[i := xs ! j, j := []]"
| "sb_spec (Swap i j) xs ys \<longleftrightarrow> ys = xs[i := xs ! j, j := xs ! i]"
| "sb_spec (SetContents i data) xs ys \<longleftrightarrow> ys = xs[i := data]"
| "sb_spec (AppendTo i data) xs ys \<longleftrightarrow> ys = xs[i := xs ! i @ data]"
| "sb_spec (ResizeTo i n) xs ys \<longleftrightarrow> (\<exists>z. length z = n \<and> take (length (xs ! i)) z = take n (xs ! i) \<and> ys = xs[i := z])"
| "sb_spec (ReserveFor i n) xs ys \<longleftrightarrow> ys = xs"
| "sb_spec (ClearAll i) xs ys \<longleftrightarrow> ys = xs[i := []]"
| "sb_spec (WriteAt i k v) xs ys \<longleftrightarrow> ys = xs[i := (xs ! i)[k := v]]"

text \<open>No empty slice that does not begin at the start, and nothing appended without data: see \<open>shared_buffer_defects\<close> below.\<close>

fun sb_op_ok :: "'a sb_op \<Rightarrow> 'a cells list \<Rightarrow> bool" where
  "sb_op_ok (NewSized n c) xs \<longleftrightarrow> n \<le> 2 ^ 62 \<and> c \<le> 2 ^ 62"
| "sb_op_ok (NewData data c) xs \<longleftrightarrow> length data \<le> 2 ^ 62 \<and> c \<le> 2 ^ 62"
| "sb_op_ok (CopyOf j) xs \<longleftrightarrow> j < length xs"
| "sb_op_ok (MoveOf j) xs \<longleftrightarrow> j < length xs"
| "sb_op_ok (SliceOf j offset n) xs \<longleftrightarrow> j < length xs \<and> offset + n \<le> length (xs ! j) \<and> (0 < n \<or> offset = 0)"
| "sb_op_ok (Destroy i) xs \<longleftrightarrow> i < length xs"
| "sb_op_ok (Assign i j) xs \<longleftrightarrow> i < length xs \<and> j < length xs"
| "sb_op_ok (MoveAssign i j) xs \<longleftrightarrow> i < length xs \<and> j < length xs \<and> i \<noteq> j"
| "sb_op_ok (Swap i j) xs \<longleftrightarrow> i < length xs \<and> j < length xs"
| "sb_op_ok (SetContents i data) xs \<longleftrightarrow> i < length xs \<and> length data \<le> 2 ^ 62"
| "sb_op_ok (AppendTo i data) xs \<longleftrightarrow> i < length xs \<and> data \<noteq> [] \<and> length (xs ! i) + length data \<le> 2 ^ 62"
| "sb_op_ok (ResizeTo i n) xs \<longleftrightarrow> i < length xs \<and> n \<le> 2 ^ 62"
| "sb_op_ok (ReserveFor i n) xs \<longleftrightarrow> i < length xs \<and> n \<le> 2 ^ 62"
| "sb_op_ok (ClearAll i) xs \<longleftrightarrow> i < length xs"
| "sb_op_ok (WriteAt i k v) xs \<longleftrightarrow> i < length xs \<and> k < length (xs ! i)"

definition abs_state :: "'a sb_state \<Rightarrow> 'a cells list" where
  "abs_state = (\<lambda>(m, hs). map (content m) hs)"

definition sb_inv :: "'a sb_state \<Rightarrow> bool" where
  "sb_inv = (\<lambda>(m, hs). wf_state m hs)"

definition others :: "nat \<Rightarrow> 'a list \<Rightarrow> 'a list" where
  "others i xs = take i xs @ drop (Suc i) xs"

lemma mset_update_others: "i < length xs \<Longrightarrow> mset (xs[i := x]) = mset (x # others i xs)"
  by (simp add: others_def upd_conv_take_nth_drop)

lemma mset_others: "i < length xs \<Longrightarrow> mset (xs ! i # others i xs) = mset xs"
  using mset_update_others [of i xs "xs ! i"] by simp

lemma set_others: "j < length xs \<Longrightarrow> j \<noteq> i \<Longrightarrow> xs ! j \<in> set (others i xs)"
proof (cases "j < i")
  case True
  assume "j < length xs"
  then show ?thesis using True nth_mem [of j "take i xs"] by (simp add: others_def)
next
  case False
  assume "j < length xs" "j \<noteq> i"
  then show ?thesis using False nth_mem [of "j - Suc i" "drop (Suc i) xs"] by (simp add: others_def)
qed

text \<open>A call on one variable changes what that variable shows and nothing else.\<close>

lemma wf_focus: "wf_state m hs \<Longrightarrow> i < length hs \<Longrightarrow> wf_state m (hs ! i # others i hs)"
  by (rule wf_state_mset [OF mset_others [symmetric]])

lemma contents_others:
  assumes "same_for (others i hs) m m'" "i < length hs"
  shows "map (content m') (hs[i := h']) = (map (content m) hs)[i := content m' h']"
proof (rule nth_equalityI)
  fix j assume "j < length (map (content m') (hs[i := h']))"
  then have j: "j < length hs" by simp
  then show "map (content m') (hs[i := h']) ! j = (map (content m) hs)[i := content m' h'] ! j"
    using same_for_view(2) [OF assms(1) set_others [OF j]] by (cases "j = i") simp_all
qed simp

lemma on_var_sim:
  assumes w: "wf_state m hs" and i: "i < length hs" and f: "changes m (others i hs) (f m (hs ! i)) P"
  shows "\<exists>s'. on_var f i (m, hs) = Some s' \<and> sb_inv s' \<and> (\<exists>z. P z \<and> abs_state s' = (map (content m) hs)[i := z])"
proof -
  obtain m' h' where r: "f m (hs ! i) = Some (m', h')" "wf_state m' (h' # others i hs)" "same_for (others i hs) m m'" "P (content m' h')"
    using f unfolding changes_def by blast
  have "on_var f i (m, hs) = Some (m', hs[i := h'])" using r(1) i by (simp add: on_var_def deref_def)
  moreover have "sb_inv (m', hs[i := h'])"
    using wf_state_mset [OF mset_update_others [OF i, symmetric] r(2)] by (simp add: sb_inv_def)
  moreover have "abs_state (m', hs[i := h']) = (map (content m) hs)[i := content m' h']"
    using contents_others [OF r(3) i] by (simp add: abs_state_def)
  ultimately show ?thesis using r(4) by blast
qed

lemma add_var_sim:
  assumes w: "wf_state m hs" and f: "changes m hs (f m) P"
  shows "\<exists>s'. add_var f (m, hs) = Some s' \<and> sb_inv s' \<and> (\<exists>z. P z \<and> abs_state s' = map (content m) hs @ [z])"
proof -
  obtain m' h' where r: "f m = Some (m', h')" "wf_state m' (h' # hs)" "same_for hs m m'" "P (content m' h')"
    using f unfolding changes_def by blast
  have "add_var f (m, hs) = Some (m', hs @ [h'])" using r(1) by (simp add: add_var_def)
  moreover have "sb_inv (m', hs @ [h'])" using wf_state_mset [OF _ r(2), of "hs @ [h']"] by (simp add: sb_inv_def)
  moreover have "abs_state (m', hs @ [h']) = map (content m) hs @ [content m' h']"
    using same_for_view(2) [OF r(3)] by (simp add: abs_state_def)
  ultimately show ?thesis using r(4) by blast
qed

text \<open>Variables without an object do not matter for the counters.\<close>

lemma counted_null [simp]: "counted m (null_buffer # hs) = counted m hs"
  by (simp add: counted_def null_buffer_def)

lemma wf_null [simp]: "wf_state m (null_buffer # hs) = wf_state m hs"
  by (simp add: wf_state_def view_ok_def) (simp add: null_buffer_def)

lemma content_null [simp]: "content m null_buffer = []"
  by (simp add: content_def null_buffer_def)

lemma new_ok:
  fixes m :: "'a :: zero store"
  assumes w: "wf_state m hs" and n: "n \<le> 2 ^ 62" "c \<le> 2 ^ 62" "0 < n \<or> 0 < c"
  shows "\<exists>m' q b. sb_new n c m = Some (m', \<lparr>sb_buffer = Some q, sb_offset = 0, sb_size = n\<rparr>) \<and>
    counted m' (\<lparr>sb_buffer = Some q, sb_offset = 0, sb_size = n\<rparr> # hs) \<and> view_ok m' \<lparr>sb_buffer = Some q, sb_offset = 0, sb_size = n\<rparr> \<and>
    same_for hs m m' \<and> buf_at q m' = Some b \<and> HasOneRef q m' = Some True \<and> mSize b = n"
proof -
  from BufferT_new_ok [of n c n] n obtain b :: "'a buffer_t" where b: "BufferT_new n c = Some b" "buf_inv b" "mSize b = n" "mCapacity b = max n c"
    by auto
  have c0: "counted m (null_buffer # hs)" using w by (simp add: wf_state_def)
  have b0: "0 < mCapacity b" using b n by (auto simp: less_max_iff_disj)
  from assign_new_ok [OF c0 b(2) b0] obtain m' q where m': "assign_new (Some b) m null_buffer = Some (m', null_buffer\<lparr>sb_buffer := Some q\<rparr>)"
      "counted m' (null_buffer\<lparr>sb_buffer := Some q\<rparr> # hs)" "buf_at q m' = Some b" "HasOneRef q m' = Some True" "same_for hs m m'" by blast
  let ?h = "\<lparr>sb_buffer = Some q, sb_offset = 0, sb_size = n\<rparr>"
  have c': "counted m' (?h # hs)" by (rule counted_view_irrel [OF _ m'(2)]) simp
  have v': "view_ok m' ?h" using m'(3) b(3) b0 by (simp add: view_ok_def)
  have "sb_new n c m = Some (m', ?h)" using b(1) m'(1) n(3) view_consistent [OF c' v'] by (simp add: sb_new_def Let_def null_buffer_def)
  then show ?thesis using c' v' m'(3-5) b(3) by blast
qed

lemma new_nothing: "wf_state m hs \<Longrightarrow> sb_new 0 0 m = Some (m, null_buffer)"
proof -
  assume "wf_state m hs"
  then have "consistent m null_buffer = Some ()" using wfD(3) [of m null_buffer hs] by simp
  moreover have "null_buffer\<lparr>sb_offset := 0, sb_size := 0\<rparr> = null_buffer" by (simp add: null_buffer_def)
  ultimately show ?thesis by (simp add: sb_new_def Let_def)
qed

lemma new_changes:
  fixes m :: "'a :: zero store"
  assumes w: "wf_state m hs" and n: "n \<le> 2 ^ 62" "c \<le> 2 ^ 62"
  shows "changes m hs (sb_new n c m) (\<lambda>ys. length ys = n)"
proof (cases "0 < n \<or> 0 < c")
  case False
  then show ?thesis using w new_nothing [OF w] by (simp add: changes_def)
next
  case True
  from new_ok [OF w n this] obtain m' q where r: "sb_new n c m = Some (m', \<lparr>sb_buffer = Some q, sb_offset = 0, sb_size = n\<rparr>)"
      "counted m' (\<lparr>sb_buffer = Some q, sb_offset = 0, sb_size = n\<rparr> # hs)" "view_ok m' \<lparr>sb_buffer = Some q, sb_offset = 0, sb_size = n\<rparr>"
      "same_for hs m m'" by blast
  have "length (content m' \<lparr>sb_buffer = Some q, sb_offset = 0, sb_size = n\<rparr>) = n" using length_content [OF r(2,3)] by simp
  then show ?thesis using changesI [OF r, where h = null_buffer] w by simp
qed

lemma data_changes:
  fixes m :: "'a :: zero store"
  assumes w: "wf_state m hs" and n: "length data \<le> 2 ^ 62" "c \<le> 2 ^ 62"
  shows "changes m hs (sb_data data c m) (\<lambda>ys. ys = data)"
proof (cases "0 < length data \<or> 0 < c")
  case False
  then show ?thesis using w new_nothing [OF w] by (simp add: changes_def sb_data_def null_buffer_def [THEN arg_cong, of sb_buffer])
next
  case True
  let ?h = "\<lambda>q. \<lparr>sb_buffer = Some q, sb_offset = 0, sb_size = length data\<rparr>"
  from new_ok [OF w n True] obtain m1 q b where r: "sb_new (length data) c m = Some (m1, ?h q)" "counted m1 (?h q # hs)" "view_ok m1 (?h q)"
      "same_for hs m m1" "buf_at q m1 = Some b" "HasOneRef q m1 = Some True" "mSize b = length data" by blast
  note i = counted_buf [OF r(2,5)] and d = cells_pos [OF counted_buf [OF r(2,5)]]
  have le: "length data \<le> length (cells b)" using i(1) r(7) d by (simp add: buf_inv_def)
  define b' where "b' = b\<lparr>mData := Some (data @ drop (length data) (cells b))\<rparr>"
  let ?f = "\<lambda>b. do { d \<leftarrow> mData b; d \<leftarrow> mem_write d 0 data; Some (b\<lparr>mData := Some d\<rparr>, ()) }"
  have f: "?f b = Some (b', ())" using d le by (simp add: b'_def mem_write_eq)
  have b': "buf_inv b'" "0 < mCapacity b'" using i d le by (simp_all add: b'_def buf_inv_def)
  from update_buf_ok [where f = ?f, OF r(2) _ r(6,5) f b'] obtain m2 where m2: "update_buf ?f q m1 = Some m2" "counted m2 (?h q # hs)" "buf_at q m2 = Some b'" "same_for hs m1 m2"
    by auto
  have v: "view_ok m2 (?h q)" using m2(3) r(7) b'(2) by (simp add: view_ok_def b'_def)
  have "content m2 (?h q) = data" using m2(3) by (simp add: content_def b'_def cells_def)
  moreover have "sb_data data c m = Some (m2, ?h q)" using r(1) m2(1) by (simp add: sb_data_def)
  ultimately show ?thesis using changesI [OF _ m2(2) v same_for_trans [OF r(4) m2(4)], where h = null_buffer] w by simp
qed

lemma copy_changes:
  assumes w: "wf_state m hs" and s: "s \<in> set hs" and g: "sb_buffer g = sb_buffer s" "sb_buffer s \<noteq> None \<longrightarrow> view_ok m g" "sb_buffer s = None \<longrightarrow> g = null_buffer"
  shows "changes m hs (do { m \<leftarrow> ptr_copy (sb_buffer s) m; Some (m, g) }) (\<lambda>ys. ys = content m g)"
proof -
  from addRef_ok [OF _ s g(1)] w obtain m' where r: "ptr_copy (sb_buffer s) m = Some m'" "counted m' (g # hs)" "same_for (g # hs) m m'"
    by (auto simp: wf_state_def)
  have v: "view_ok m' g" using same_for_view(1) [OF r(3), of g] g(2,3) by (cases "sb_buffer s") (auto simp: view_ok_def null_buffer_def)
  have c: "content m' g = content m g" using same_for_view(2) [OF r(3), of g] by simp
  have "same_for hs m m'" using r(3) by (simp add: same_for_def)
  from changesI [OF _ r(2) v this, where h = null_buffer] show ?thesis using w r(1) c by simp
qed

lemma slice_changes:
  assumes w: "wf_state m hs" and s: "s \<in> set hs" and n: "offset + n \<le> sb_size s" "0 < n \<or> offset = 0"
  shows "changes m hs (Slice offset n m s) (\<lambda>ys. ys = take n (drop offset (content m s)))"
proof -
  let ?g = "s\<lparr>sb_offset := sb_offset s + offset, sb_size := n\<rparr>"
  have c: "counted m hs" and v: "view_ok m s" using w s by (auto simp: wf_state_def)
  show ?thesis
  proof (cases "sb_buffer s")
    case None
    then have s0: "s = null_buffer" using v by (simp add: view_ok_def)
    then have "offset = 0" "n = 0" using n by (simp_all add: null_buffer_def)
    then show ?thesis using s0 w by (simp add: Slice_def sb_copy_def ptr_copy_def null_buffer_def dcheck_def size_add_def changes_def)
      (simp add: null_buffer_def [symmetric])
  next
    case (Some p)
    from viewE [OF c v Some] obtain b where b: "buf_at p m = Some b" "sb_offset s < mCapacity b" "sb_offset s + sb_size s \<le> mSize b" "mSize b \<le> mCapacity b"
        "mCapacity b \<le> 3 * 2 ^ 61" "content m s = take (sb_size s) (drop (sb_offset s) (cells b))" by metis
    have e: "size_add n offset = offset + n" "size_add (sb_offset s) offset = sb_offset s + offset" using n b by (simp_all add: size_add_def)
    have vg: "view_ok m ?g" using Some b n by (auto simp: view_ok_def)
    have "content m ?g = take n (drop (sb_offset s + offset) (cells b))" using Some b(1) by (simp add: content_def)
    also have "\<dots> = take n (drop offset (content m s))" using b(6) n(1) by (simp add: drop_take add.commute min_def)
    finally have ct: "content m ?g = take n (drop offset (content m s))" .
    have "Slice offset n m s = do { m \<leftarrow> ptr_copy (sb_buffer s) m; Some (m, ?g) }" using n e by (simp add: Slice_def sb_copy_def dcheck_def)
    then show ?thesis using copy_changes [OF w s, of ?g] vg Some ct by simp
  qed
qed

lemma release_changes:
  assumes w: "wf_state m (h # hs)"
  shows "changes m hs (do { m \<leftarrow> sb_destroy m h; Some (m, null_buffer) }) (\<lambda>ys. ys = [])"
proof -
  from Release_ok [OF wfD(1) [OF w]] obtain m' where r: "ptr_destroy (sb_buffer h) m = Some m'" "counted m' hs" "same_for hs m m'" by blast
  have "changes m hs (Some (m', null_buffer)) (\<lambda>ys. ys = [])"
    by (rule changesI [OF refl _ _ r(3) _ w]) (use r(2) in \<open>simp_all add: view_ok_def\<close>, simp add: null_buffer_def)
  then show ?thesis using r(1) by (simp add: sb_destroy_def)
qed

text \<open>Assignment: the new reference is counted before the old one is given up.\<close>

lemma assign_changes:
  assumes w: "wf_state m (h # hs)" and s: "s \<in> set hs"
  shows "changes m hs (sb_assign m h s) (\<lambda>ys. ys = content m s)"
proof -
  have c: "counted m (h # hs)" and vs: "view_ok m s" using w s by (auto simp: wf_state_def)
  have cs: "consistent m s = Some ()" by (rule view_consistent [OF c vs])
  from addRef_ok [OF c _ refl, of s] s obtain m1 where m1: "ptr_copy (sb_buffer s) m = Some m1" "counted m1 (s # h # hs)" "same_for (s # h # hs) m m1" by auto
  have "counted m1 (h # s # hs)" by (rule counted_mset [OF _ m1(2)]) simp
  from Release_ok [OF this] obtain m2 where m2: "ptr_destroy (sb_buffer h) m1 = Some m2" "counted m2 (s # hs)" "same_for (s # hs) m1 m2" by blast
  have sf: "same_for (s # hs) m m2" using same_for_trans [OF _ m2(3), of m] m1(3) by (simp add: same_for_def)
  then have "view_ok m2 s" "content m2 s = content m s" "same_for hs m m2"
    using same_for_view [OF sf, of s] vs by (simp_all add: same_for_def)
  moreover have "sb_assign m h s = Some (m2, s)" using cs wfD(3) [OF w] m1(1) m2(1) by (simp add: sb_assign_def ptr_assign_def)
  ultimately show ?thesis using changesI [OF _ m2(2) _ _ _ w] by simp
qed

text \<open>Moving: the references are those of before in another order, with empty variables.\<close>

lemma mset_swap_vars:
  assumes "i < length xs" "j < length xs"
  shows "mset (xs[i := xs ! j, j := xs ! i]) = mset xs"
  using assms by (simp add: mset_swap)

lemma move_mset:
  assumes "i < length xs" "j < length xs" "i \<noteq> j"
  shows "mset (xs ! i # xs[i := xs ! j, j := x]) = mset (x # xs)"
proof -
  have "mset (xs ! i # xs[i := xs ! j, j := x]) = add_mset (xs ! i) (mset ((xs[i := xs ! j, j := xs ! i])[j := x]))" by simp
  also have "\<dots> = add_mset (xs ! i) (add_mset x (mset (xs[i := xs ! j, j := xs ! i]) - {# xs ! i #}))"
    using assms by (subst mset_update) simp_all
  also have "\<dots> = add_mset (xs ! i) (add_mset x (mset xs - {# xs ! i #}))" using assms mset_swap_vars [of i xs j] by simp
  also have "\<dots> = mset (x # xs)" using assms by simp
  finally show ?thesis .
qed

lemma copy_fields [simp]: "(h :: shared_buffer)\<lparr>sb_buffer := sb_buffer g, sb_offset := sb_offset g, sb_size := sb_size g\<rparr> = g"
  by simp

lemma move_assign_sim:
  assumes w: "wf_state m hs" and ij: "i < length hs" "j < length hs" "i \<noteq> j"
  shows "\<exists>s'. sb_step (MoveAssign i j) (m, hs) = Some s' \<and> sb_inv s' \<and> abs_state s' = (map (content m) hs)[i := content m (hs ! j), j := []]"
proof -
  let ?hs' = "hs[i := hs ! j, j := null_buffer]"
  have c: "counted m hs" and v: "\<And>x. x \<in> set hs \<Longrightarrow> view_ok m x" using w by (simp_all add: wf_state_def)
  have k: "consistent m (hs ! i) = Some ()" "consistent m (hs ! j) = Some ()" using view_consistent [OF c] v ij by simp_all
  have "counted m (null_buffer # hs)" using c by simp
  then have "counted m (hs ! i # ?hs')" by (rule counted_mset [rotated]) (use move_mset [OF ij, of null_buffer] in simp)
  from Release_ok [OF this] obtain m' where m': "ptr_destroy (sb_buffer (hs ! i)) m = Some m'" "counted m' ?hs'" "same_for ?hs' m m'" by blast
  have st: "sb_step (MoveAssign i j) (m, hs) = Some (m', ?hs')" using ij k m'(1) by (simp add: deref_def dcheck_def sb_move_assign_def)
  have "view_ok m x" if "x \<in> set ?hs'" for x
  proof -
    have "x \<in> set hs \<or> x = null_buffer" using that ij set_update_subset_insert by (metis insert_iff nth_mem set_update_subset_insert subsetD)
    then show ?thesis using v by (auto simp: view_ok_def null_buffer_def)
  qed
  then have inv: "sb_inv (m', ?hs')" using m'(2) same_for_view(1) [OF m'(3)] by (simp add: sb_inv_def wf_state_def)
  have "abs_state (m', ?hs') = map (content m) ?hs'" using same_for_view(2) [OF m'(3)] by (simp add: abs_state_def del: map_update)
  also have "\<dots> = (map (content m) hs)[i := content m (hs ! j), j := []]" by (simp add: map_update)
  finally show ?thesis using st inv by blast
qed

lemma move_sim:
  assumes w: "wf_state m hs" and j: "j < length hs"
  shows "\<exists>s'. sb_step (MoveOf j) (m, hs) = Some s' \<and> sb_inv s' \<and> abs_state s' = (map (content m) hs)[j := []] @ [content m (hs ! j)]"
proof -
  let ?hs' = "hs[j := null_buffer] @ [hs ! j]"
  have "mset (null_buffer # hs) = mset ?hs'" using j by (simp add: mset_update)
  then have "wf_state m ?hs'" using wf_state_mset [of "null_buffer # hs" ?hs' m] w by simp
  moreover have "consistent m (hs ! j) = Some ()" using w j view_consistent [of m hs] by (simp add: wf_state_def)
  ultimately show ?thesis using j by (simp add: sb_move_def deref_def sb_inv_def abs_state_def map_update)
qed

lemma swap_sim:
  assumes w: "wf_state m hs" and ij: "i < length hs" "j < length hs"
  shows "\<exists>s'. sb_step (Swap i j) (m, hs) = Some s' \<and> sb_inv s' \<and> abs_state s' = (map (content m) hs)[i := content m (hs ! j), j := content m (hs ! i)]"
  using ij wf_state_mset [OF mset_swap_vars [OF ij, symmetric] w] by (simp add: deref_def sb_inv_def abs_state_def map_update)

lemma assign_sim:
  assumes w: "wf_state m hs" and ij: "i < length hs" "j < length hs"
  shows "\<exists>s'. sb_step (Assign i j) (m, hs) = Some s' \<and> sb_inv s' \<and> abs_state s' = (map (content m) hs)[i := content m (hs ! j)]"
proof (cases "i = j")
  case True
  have "consistent m (hs ! j) = Some ()" using w ij view_consistent [of m hs] by (simp add: wf_state_def)
  then show ?thesis using True w ij list_update_id [of "map (content m) hs" j] by (simp add: deref_def sb_inv_def abs_state_def)
next
  case False
  have "changes m (others i hs) (sb_assign m (hs ! i) (hs ! j)) (\<lambda>ys. ys = content m (hs ! j))"
    using assign_changes [OF wf_focus [OF w ij(1)] set_others [OF ij(2)]] False by simp
  from on_var_sim [OF w ij(1), where f = "\<lambda>m h. sb_assign m h (hs ! j)", OF this] show ?thesis using False ij by (simp add: deref_def)
qed

lemma sb_step_ok:
  fixes m :: "'a :: zero store"
  assumes w: "wf_state m hs" and ok: "sb_op_ok x (map (content m) hs)"
  shows "\<exists>s'. sb_step x (m, hs) = Some s' \<and> sb_inv s' \<and> sb_spec x (map (content m) hs) (abs_state s')"
proof -
  have len: "length (content m (hs ! i)) = sb_size (hs ! i)" if "i < length hs" for i
    using w that length_content [of m hs] by (simp add: wf_state_def)
  note var = on_var_sim [OF w] and new = add_var_sim [OF w] and f = wf_focus [OF w]
  show ?thesis
  proof (cases x)
    case (NewSized n c)
    then show ?thesis using new [where f = "sb_new n c", OF new_changes [OF w]] ok by auto
  next
    case (NewData data c)
    then show ?thesis using new [where f = "sb_data data c", OF data_changes [OF w]] ok by auto
  next
    case (CopyOf j)
    then have j: "j < length hs" using ok by simp
    have v: "view_ok m (hs ! j)" using w j by (simp add: wf_state_def)
    then have "sb_buffer (hs ! j) = None \<longrightarrow> hs ! j = null_buffer" by (auto simp: view_ok_def)
    then have "changes m hs (sb_copy m (hs ! j)) (\<lambda>ys. ys = content m (hs ! j))"
      using copy_changes [OF w nth_mem [OF j] refl] v by (simp add: sb_copy_def)
    from new [where f = "\<lambda>m. sb_copy m (hs ! j)", OF this] show ?thesis using CopyOf j by (auto simp: deref_def)
  next
    case (MoveOf j)
    then show ?thesis using move_sim [OF w, of j] ok by auto
  next
    case (SliceOf j offset n)
    then have j: "j < length hs" "offset + n \<le> sb_size (hs ! j)" "0 < n \<or> offset = 0" using ok len [of j] by auto
    from new [where f = "\<lambda>m. Slice offset n m (hs ! j)", OF slice_changes [OF w nth_mem [OF j(1)] j(2,3)]]
    show ?thesis using SliceOf j(1) by (auto simp: deref_def)
  next
    case (Destroy i)
    then show ?thesis using var [where f = "\<lambda>m h. do { m \<leftarrow> sb_destroy m h; Some (m, null_buffer) }", OF _ release_changes [OF f], of i]  ok by auto
  next
    case (Assign i j)
    then show ?thesis using assign_sim [OF w, of i j] ok by auto
  next
    case (MoveAssign i j)
    then show ?thesis using move_assign_sim [OF w, of i j] ok by auto
  next
    case (Swap i j)
    then show ?thesis using swap_sim [OF w, of i j] ok by auto
  next
    case (SetContents i data)
    then show ?thesis using var [where f = "sb_SetData data", OF _ SetData_changes [OF f], of i]  ok by auto
  next
    case (AppendTo i data)
    then show ?thesis using var [where f = "sb_AppendData data", OF _ AppendData_changes [OF f], of i]  ok len [of i] by auto
  next
    case (ResizeTo i n)
    then show ?thesis using var [where f = "sb_SetSize n", OF _ SetSize_changes [OF f], of i]  ok len [of i] by auto
  next
    case (ReserveFor i n)
    then show ?thesis using var [where f = "sb_EnsureCapacity n", OF _ EnsureCapacity_changes [OF f], of i]  ok list_update_id [of "map (content m) hs" i] by auto
  next
    case (ClearAll i)
    then show ?thesis using var [where f = "sb_Clear", OF _ Clear_changes [OF f], of i]  ok by auto
  next
    case (WriteAt i k v)
    then show ?thesis using var [where f = "sb_write k v", OF _ write_changes [OF f], of i]  ok len [of i] by auto
  qed
qed

interpretation shbs: simulation sb_inv abs_state sb_step sb_op_ok sb_spec
proof
  fix s :: "'a :: zero sb_state" and x :: "'a sb_op"
  assume "sb_inv s" "sb_op_ok x (abs_state s)"
  then show "\<exists>s'. sb_step x s = Some s' \<and> sb_inv s' \<and> sb_spec x (abs_state s) (abs_state s')"
    using sb_step_ok [of "fst s" "snd s" x] by (cases s) (simp add: sb_inv_def abs_state_def)
qed

text \<open>What the getters show of a state of a session.\<close>

lemma cdata_content:
  assumes w: "wf_state m hs" and h: "h \<in> set hs"
  shows "cdata m h = Some (content m h)"
proof -
  have c: "counted m hs" and v: "view_ok m h" using w h by (simp_all add: wf_state_def)
  note k = view_consistent [OF c v]
  show ?thesis
  proof (cases "sb_buffer h")
    case None
    then show ?thesis using k by (simp add: cdata_def content_def)
  next
    case (Some p)
    from viewE [OF c v Some] obtain b where "buf_at p m = Some b" "sb_offset h + sb_size h \<le> mSize b" "mData b = Some (cells b)" "length (cells b) = mCapacity b"
        "mSize b \<le> mCapacity b" "content m h = take (sb_size h) (drop (sb_offset h) (cells b))" by metis
    then show ?thesis using Some k by (simp add: cdata_def mem_read_eq)
  qed
qed

lemma equal_content:
  assumes w: "wf_state m hs" and h: "h \<in> set hs" "g \<in> set hs"
  shows "sb_equal m h g = Some (content m h = content m g)"
proof -
  have c: "counted m hs" and v: "view_ok m h" "view_ok m g" using w h by (simp_all add: wf_state_def)
  note l = length_content [OF c v(1)] length_content [OF c v(2)] and d = cdata_content [OF w h(1)] cdata_content [OF w h(2)]
  note k = view_consistent [OF c v(1)] view_consistent [OF c v(2)]
  show ?thesis
  proof (cases "sb_size h = sb_size g")
    case True
    have "content m h = content m g" if "sb_buffer h = sb_buffer g" "sb_offset h = sb_offset g"
    proof -
      have "h = g" using that True by simp
      then show ?thesis by simp
    qed
    then show ?thesis using True k d by (auto simp: sb_equal_def)
  next
    case False
    then have "content m h \<noteq> content m g" using l by metis
    then show ?thesis using False k by (simp add: sb_equal_def)
  qed
qed

lemma count_exact:
  assumes "counted m hs"
  shows "(case object m p of None \<Rightarrow> refs p hs = 0 | Some (n, b) \<Rightarrow> n = refs p hs \<and> 0 < n)"
  using assms by (auto simp: counted_def refs_zero split: option.splits)

text \<open>
  C29: the variables of type \<open>SharedBuffer\<close> of a program behave like independent lists, although copies and slices share memory: in any session of
  constructions, copies, moves, slices, assignments, swaps and changes, in which slices lie inside their buffer and an empty slice is taken at offset 0 only, no empty data are appended, no
  variable is moved to itself, and sizes are at most \<open>2 ^ 62\<close>, no consistency check fails and no deleted object is used, the data and the comparisons of the
  variables are those of lists under the same operations, every object that exists is counted with exactly the variables that refer to it, and an object to which
  none refers has been deleted.
\<close>

theorem shared_buffer_refines:
  fixes xs :: "'a :: zero sb_op list"
  assumes "admissible sb_op_ok sb_spec xs []"
  shows "\<exists>m hs ys. run sb_step xs ([], []) = Some (m, hs) \<and> spec_run sb_spec xs [] ys \<and> map (cdata m) hs = map Some ys \<and>
    (\<forall>i < length hs. \<forall>j < length hs. sb_equal m (hs ! i) (hs ! j) = Some (ys ! i = ys ! j)) \<and>
    (\<forall>p. case object m p of None \<Rightarrow> refs p hs = 0 | Some (n, b) \<Rightarrow> n = refs p hs \<and> 0 < n)"
proof -
  have "sb_inv ([] :: 'a store, [])" "abs_state ([] :: 'a store, []) = []" by (simp_all add: sb_inv_def wf_state_def counted_def object_def abs_state_def)
  with shbs.session [of "([], [])" xs] assms obtain m hs where r: "run sb_step xs ([], []) = Some (m, hs)" "wf_state m hs" "spec_run sb_spec xs [] (map (content m) hs)"
    by (auto simp: sb_inv_def abs_state_def)
  then show ?thesis
    using cdata_content [OF r(2)] equal_content [OF r(2)] count_exact [of m hs] by (intro exI [of _ m] exI [of _ hs] exI [of _ "map (content m) hs"]) (simp add: wf_state_def)
qed

theorem shared_buffer_refines_witness:
  "\<exists>m hs ys. run sb_step [NewData [Some (1 :: int), Some 2, Some 3] 4, SliceOf 0 1 2, WriteAt 1 0 (Some 9), Assign 0 1, Destroy 1] ([], []) = Some (m, hs) \<and>
     map (cdata m) hs = map Some ys \<and> ys = [[Some 9, Some 3], []]"
proof -
  have "admissible sb_op_ok sb_spec [NewData [Some (1 :: int), Some 2, Some 3] 4, SliceOf 0 1 2, WriteAt 1 0 (Some 9), Assign 0 1, Destroy 1] []" by simp
  from shared_buffer_refines [OF this] show ?thesis by auto
qed

lemmas sb_eval = sb_new_def sb_data_def sb_copy_def Slice_def sb_Clear_def sb_SetData_def sb_AppendData_def MutableData_def UnshareAndEnsureCapacity_def
  assign_new_def ptr_assign_def ptr_copy_def ptr_destroy_def addRef_def Release_def HasOneRef_def new_object_def object_def buf_at_def update_buf_def
  consistent_def sb_IsConsistent_def sb_capacity_def null_buffer_def on_var_def add_var_def deref_def dcheck_def size_add_def
  BufferT_new_def BufferT_data_def new_array_def IsConsistent_def mem_read_def mem_write_def Let_def nth_append

text \<open>
  C30: the class itself makes two of its consistency checks fail: appending no data to a buffer that has no memory gives it an object without memory, and an empty
  slice at the end of a full buffer has no capacity of its own, so that clearing it, replacing its contents by nothing or asking it for writable
  memory makes such an object while the memory is shared. An empty slice elsewhere is not affected.
\<close>

theorem shared_buffer_defects:
  fixes data :: "'a :: zero cells"
  assumes "n < length data" "length data \<le> 2 ^ 62"
  shows "run sb_step [NewSized 0 0, AppendTo 0 ([] :: 'a cells)] ([], []) = None \<and>
    (\<exists>m h g. run sb_step [NewData data (length data), SliceOf 0 (length data) 0] ([], []) = Some (m, [h, g]) \<and>
       sb_Clear m g = None \<and> sb_SetData [] m g = None \<and> sb_AppendData [] m g = None \<and> MutableData m g = None) \<and>
    (\<exists>s. run sb_step [NewData data (length data), SliceOf 0 n 0, ClearAll 1] ([], []) = Some s)"
proof (intro conjI)
  have data: "data \<noteq> []" using assms(1) by auto
  show "run sb_step [NewSized 0 0, AppendTo 0 ([] :: 'a cells)] ([], []) = None" by (simp add: sb_eval)
  show "\<exists>m h g. run sb_step [NewData data (length data), SliceOf 0 (length data) 0] ([], []) = Some (m, [h, g]) \<and>
       sb_Clear m g = None \<and> sb_SetData [] m g = None \<and> sb_AppendData [] m g = None \<and> MutableData m g = None"
    using data assms(2) by (simp add: sb_eval)
  show "\<exists>s. run sb_step [NewData data (length data), SliceOf 0 n 0, ClearAll 1] ([], []) = Some s"
    using data assms by (simp add: sb_eval)
qed

theorem shared_buffer_defects_witness:
  "\<exists>m h g. run sb_step [NewData [Some (1 :: int), Some 2] 2, SliceOf 0 2 0] ([], []) = Some (m, [h, g]) \<and> sb_Clear m g = None"
proof -
  have l: "length [Some (1 :: int), Some 2] = 2" by simp
  have "1 < length [Some (1 :: int), Some 2]" "length [Some (1 :: int), Some 2] \<le> 2 ^ 62" by simp_all
  note d = shared_buffer_defects [OF this, unfolded l, THEN conjunct2, THEN conjunct1]
  then show ?thesis by blast
qed

end
