(* ===== verification/FramePool.thy ===== *)
theory FramePool
  imports FrameBufferSafety Simulation
begin

text \<open>
  \<open>VideoFrameBufferPool\<close> of \<open>src/libs/media/source/video/octk_video_frame_buffer_pool.cpp\<close>. The pool is a list of shared pointers to frame
  buffers; the buffers that exist are a list, a pointer is an index in it, and the pointers that the rest of the program holds are a list \<open>app\<close>. The use count of a buffer is the
  number of pointers to it. A buffer is kept with the number of its bytes that were set to zero when it was made. Failed checks are \<^term>\<open>None\<close>.
\<close>

section \<open>The class\<close>

record frame_pool =
  pool_buffers :: "nat list"
  zero_initialize :: bool
  max_number_of_buffers :: nat

record pool_world =
  pw_pool :: frame_pool
  pw_objects :: "(pixel_buffer \<times> int) list"
  pw_app :: "nat list"

definition VideoFrameBufferPool :: "bool \<Rightarrow> nat \<Rightarrow> frame_pool" where
  "VideoFrameBufferPool zero n = \<lparr>pool_buffers = [], zero_initialize = zero, max_number_of_buffers = n\<rparr>"

definition new_world :: "bool \<Rightarrow> nat \<Rightarrow> pool_world" where
  "new_world zero n = \<lparr>pw_pool = VideoFrameBufferPool zero n, pw_objects = [], pw_app = []\<rparr>"

definition use_count :: "nat list \<Rightarrow> nat list \<Rightarrow> nat \<Rightarrow> nat" where
  "use_count ps app p = count_list ps p + count_list app p"

text \<open>\<open>HasOneRef\<close> makes a pointer of the buffer's own class first, so that a buffer that only the list refers to has the count 2.\<close>

definition pool_HasOneRef :: "nat list \<Rightarrow> nat list \<Rightarrow> nat \<Rightarrow> bool" where
  "pool_HasOneRef ps app p \<longleftrightarrow> use_count (p # ps) app p = 2"

definition pool_Release :: "pool_world \<Rightarrow> pool_world" where
  "pool_Release w = w\<lparr>pw_pool := (pw_pool w)\<lparr>pool_buffers := []\<rparr>\<rparr>"

text \<open>The loop of \<open>Resize\<close> over the list: the pointers before the iterator, and those from it on.\<close>

fun purge :: "nat list \<Rightarrow> nat \<Rightarrow> nat list \<Rightarrow> nat list \<Rightarrow> nat list" where
  "purge app n kept [] = kept"
| "purge app n kept (p # ps) = (if n = 0 then kept @ p # ps
     else if pool_HasOneRef (kept @ p # ps) app p then purge app (n - 1) kept ps
     else purge app n (kept @ [p]) ps)"

definition pool_Resize :: "nat \<Rightarrow> pool_world \<Rightarrow> bool \<times> pool_world" where
  "pool_Resize n w = (let ps = pool_buffers (pw_pool w);
       used_buffers_count = length (filter (\<lambda>p. \<not> pool_HasOneRef ps (pw_app w) p) ps)
     in if n < used_buffers_count then (False, w)
     else let buffers_to_purge = (2 ^ 64 + length ps - n) mod 2 ^ 64
       in (True, w\<lparr>pw_pool := (pw_pool w)\<lparr>max_number_of_buffers := n, pool_buffers := purge (pw_app w) buffers_to_purge [] ps\<rparr>\<rparr>))"

definition matches :: "int \<Rightarrow> int \<Rightarrow> format \<Rightarrow> pixel_buffer \<Rightarrow> bool" where
  "matches width height type b \<longleftrightarrow> bf_width b = width \<and> bf_height b = height \<and> bf_type b = type"

definition GetExistingBuffer :: "int \<Rightarrow> int \<Rightarrow> format \<Rightarrow> pool_world \<Rightarrow> (nat option \<times> pool_world) option" where
  "GetExistingBuffer width height type w = (let ps = filter (\<lambda>p. matches width height type (fst (pw_objects w ! p))) (pool_buffers (pw_pool w));
       w = w\<lparr>pw_pool := (pw_pool w)\<lparr>pool_buffers := ps\<rparr>\<rparr>
     in case find (pool_HasOneRef ps (pw_app w)) ps of
          None \<Rightarrow> Some (None, w)
        | Some p \<Rightarrow> do { dcheck (bf_type (fst (pw_objects w ! p)) = type); Some (Some p, w) })"

text \<open>The common shape of the seven functions. What they return is a pointer of the application.\<close>

definition pool_create :: "format \<Rightarrow> (int \<Rightarrow> int \<Rightarrow> pixel_buffer option) \<Rightarrow> (pixel_buffer \<Rightarrow> int option) \<Rightarrow> int \<Rightarrow> int \<Rightarrow> pool_world \<Rightarrow> (nat option \<times> pool_world) option" where
  "pool_create type create init width height w = do {
     (existing_buffer, w) \<leftarrow> GetExistingBuffer width height type w;
     case existing_buffer of
       Some p \<Rightarrow> Some (Some p, w\<lparr>pw_app := pw_app w @ [p]\<rparr>)
     | None \<Rightarrow>
         if max_number_of_buffers (pw_pool w) \<le> length (pool_buffers (pw_pool w)) then Some (None, w)
         else do {
           buffer \<leftarrow> create width height;
           zeros \<leftarrow> (if zero_initialize (pw_pool w) then init buffer else Some 0);
           let p = length (pw_objects w);
           Some (Some p, w\<lparr>pw_pool := (pw_pool w)\<lparr>pool_buffers := pool_buffers (pw_pool w) @ [p]\<rparr>,
             pw_objects := pw_objects w @ [(buffer, zeros)], pw_app := pw_app w @ [p]\<rparr>)
         }
   }"

definition CreateI420Buffer :: "int \<Rightarrow> int \<Rightarrow> pool_world \<Rightarrow> (nat option \<times> pool_world) option" where
  "CreateI420Buffer = pool_create kI420 I420_create I420_InitializeData"

definition CreateI444Buffer :: "int \<Rightarrow> int \<Rightarrow> pool_world \<Rightarrow> (nat option \<times> pool_world) option" where
  "CreateI444Buffer = pool_create kI444 I444_create I444_InitializeData"

definition CreateI422Buffer :: "int \<Rightarrow> int \<Rightarrow> pool_world \<Rightarrow> (nat option \<times> pool_world) option" where
  "CreateI422Buffer = pool_create kI422 I422_create I422_InitializeData"

definition CreateNV12Buffer :: "int \<Rightarrow> int \<Rightarrow> pool_world \<Rightarrow> (nat option \<times> pool_world) option" where
  "CreateNV12Buffer = pool_create kNV12 NV12_create NV12_InitializeData"

text \<open>The functions for the 10-bit formats do not initialise new buffers.\<close>

definition CreateI010Buffer :: "int \<Rightarrow> int \<Rightarrow> pool_world \<Rightarrow> (nat option \<times> pool_world) option" where
  "CreateI010Buffer = pool_create kI010 I010_create (\<lambda>_. Some 0)"

definition CreateI210Buffer :: "int \<Rightarrow> int \<Rightarrow> pool_world \<Rightarrow> (nat option \<times> pool_world) option" where
  "CreateI210Buffer = pool_create kI210 I210_create (\<lambda>_. Some 0)"

definition CreateI410Buffer :: "int \<Rightarrow> int \<Rightarrow> pool_world \<Rightarrow> (nat option \<times> pool_world) option" where
  "CreateI410Buffer = pool_create kI410 I410_create (\<lambda>_. Some 0)"

definition pool_get :: "format \<Rightarrow> int \<Rightarrow> int \<Rightarrow> pool_world \<Rightarrow> (nat option \<times> pool_world) option" where
  "pool_get type = (case type of kI420 \<Rightarrow> CreateI420Buffer | kI422 \<Rightarrow> CreateI422Buffer | kI444 \<Rightarrow> CreateI444Buffer
     | kI010 \<Rightarrow> CreateI010Buffer | kI210 \<Rightarrow> CreateI210Buffer | kI410 \<Rightarrow> CreateI410Buffer | kNV12 \<Rightarrow> CreateNV12Buffer)"

text \<open>What the rest of the program does: it asks for buffers, copies pointers and gives them up (if it has that many), and changes the pool.\<close>

datatype pool_op = Get format int int | SetMax nat | ReleaseAll | CopyPointer nat | DropPointer nat

fun pool_step :: "pool_op \<Rightarrow> pool_world \<Rightarrow> pool_world option" where
  "pool_step (Get type width height) w = do { (_, w) \<leftarrow> pool_get type width height w; Some w }"
| "pool_step (SetMax n) w = Some (snd (pool_Resize n w))"
| "pool_step ReleaseAll w = Some (pool_Release w)"
| "pool_step (CopyPointer i) w = Some (w\<lparr>pw_app := pw_app w @ take 1 (drop i (pw_app w))\<rparr>)"
| "pool_step (DropPointer i) w = Some (w\<lparr>pw_app := take i (pw_app w) @ drop (Suc i) (pw_app w)\<rparr>)"


section \<open>The invariant\<close>

fun pool_op_ok :: "pool_op \<Rightarrow> bool" where
  "pool_op_ok (Get type width height) \<longleftrightarrow> size_ok width height"
| "pool_op_ok (SetMax n) \<longleftrightarrow> n < 2 ^ 64"
| "pool_op_ok _ \<longleftrightarrow> True"

definition pool_ok :: "frame_pool \<Rightarrow> nat \<Rightarrow> bool" where
  "pool_ok p k \<longleftrightarrow> distinct (pool_buffers p) \<and> set (pool_buffers p) \<subseteq> {..<k} \<and> length (pool_buffers p) \<le> max_number_of_buffers p \<and> max_number_of_buffers p < 2 ^ 64"

definition world_ok :: "bool \<Rightarrow> pool_world \<Rightarrow> bool" where
  "world_ok z w \<longleftrightarrow> pool_ok (pw_pool w) (length (pw_objects w)) \<and> set (pw_app w) \<subseteq> {..<length (pw_objects w)} \<and>
     zero_initialize (pw_pool w) = z \<and> (\<forall>b \<in> fst ` set (pw_objects w). buffer_ok b)"

lemma count_list_distinct: "distinct ps \<Longrightarrow> p \<in> set ps \<Longrightarrow> count_list ps p = 1"
  by (induction ps) (auto simp: count_list_0_iff)

lemma pool_HasOneRef_iff: "distinct ps \<Longrightarrow> p \<in> set ps \<Longrightarrow> pool_HasOneRef ps app p \<longleftrightarrow> p \<notin> set app"
  by (simp add: pool_HasOneRef_def use_count_def count_list_distinct count_list_0_iff)

lemma filter_other: "length (filter P xs) + length (filter (\<lambda>x. \<not> P x) xs) = length xs"
  by (induction xs) simp_all

text \<open>The loop of \<open>Resize\<close> keeps what is in use and removes as many of the others as it is told to.\<close>

lemma purge_spec:
  "distinct (kept @ ps) \<Longrightarrow> filter (\<lambda>p. p \<in> set app) (purge app n kept ps) = filter (\<lambda>p. p \<in> set app) (kept @ ps) \<and>
    length (purge app n kept ps) + min n (length (filter (\<lambda>p. p \<notin> set app) ps)) = length (kept @ ps) \<and>
    set (purge app n kept ps) \<subseteq> set (kept @ ps) \<and> distinct (purge app n kept ps)"
proof (induction app n kept ps rule: purge.induct)
  case (2 app n kept p ps)
  have one: "pool_HasOneRef (kept @ p # ps) app p \<longleftrightarrow> p \<notin> set app" by (rule pool_HasOneRef_iff) (use 2(3) in simp_all)
  consider "n = 0" | "0 < n" "p \<in> set app" | "0 < n" "p \<notin> set app" by blast
  then show ?case
  proof cases
    case 1
    then show ?thesis using 2(3) by simp
  next
    case 2
    then show ?thesis using "2.IH"(2) "2.prems" one by simp
  next
    case 3
    then show ?thesis using "2.IH"(1) "2.prems" one by (auto simp: min_def split: if_splits)
  qed
qed simp

lemma used_count: "distinct ps \<Longrightarrow> filter (\<lambda>p. \<not> pool_HasOneRef ps app p) ps = filter (\<lambda>p. p \<in> set app) ps"
  by (rule filter_cong) (simp_all add: pool_HasOneRef_iff)

lemma filter_all_length: "length (filter P xs) = length xs \<Longrightarrow> filter P xs = xs"
  by (metis length_filter_less less_irrefl filter_True)

lemma Resize_ok:
  assumes w: "world_ok z w" and n: "n < 2 ^ 64"
  defines "ps \<equiv> pool_buffers (pw_pool w)" and "used \<equiv> filter (\<lambda>p. p \<in> set (pw_app w)) (pool_buffers (pw_pool w))"
  shows "\<exists>qs. pool_Resize n w = (if n < length used then (False, w)
      else (True, w\<lparr>pw_pool := (pw_pool w)\<lparr>max_number_of_buffers := n, pool_buffers := qs\<rparr>\<rparr>)) \<and>
    (length used \<le> n \<longrightarrow> filter (\<lambda>p. p \<in> set (pw_app w)) qs = used \<and> set qs \<subseteq> set ps \<and> distinct qs \<and>
      (if n < length ps then length qs = n else if n = length ps then qs = ps else qs = used))"
proof -
  define k where "k = (2 ^ 64 + length ps - n) mod 2 ^ 64"
  define qs where "qs = purge (pw_app w) k [] ps"
  let ?free = "filter (\<lambda>p. p \<notin> set (pw_app w)) ps"
  have d: "distinct ps" "length ps < 2 ^ 64" using w by (simp_all add: world_ok_def pool_ok_def ps_def)
  have u: "filter (\<lambda>p. p \<in> set (pw_app w)) ps = used" by (simp add: used_def ps_def)
  have q: "filter (\<lambda>p. p \<in> set (pw_app w)) qs = used" "length qs + min k (length ?free) = length ps" "set qs \<subseteq> set ps" "distinct qs"
    using purge_spec [of "[]" ps "pw_app w" k] d(1) u by (simp_all add: qs_def)
  have f: "length used + length ?free = length ps" using filter_other [of "\<lambda>p. p \<in> set (pw_app w)" ps] u by simp
  have "length used = length (filter (\<lambda>p. \<not> pool_HasOneRef ps (pw_app w) p) ps)" using used_count [OF d(1)] u by simp
  then have r: "pool_Resize n w = (if n < length used then (False, w)
      else (True, w\<lparr>pw_pool := (pw_pool w)\<lparr>max_number_of_buffers := n, pool_buffers := qs\<rparr>\<rparr>))"
    by (simp add: pool_Resize_def Let_def k_def qs_def flip: ps_def)
  have "if n < length ps then length qs = n else if n = length ps then qs = ps else qs = used" if le: "length used \<le> n"
  proof -
    consider "n < length ps" | "n = length ps" | "length ps < n" by linarith
    then show ?thesis
    proof cases
      case 1
      then have "2 ^ 64 + length ps - n = (length ps - n) + 2 ^ 64" by simp
      then have "k = length ps - n" using d(2) unfolding k_def by (simp only: mod_add_self2) simp
      then show ?thesis using 1 le f q(2) by simp
    next
      case 2
      then have "k = 0" by (simp add: k_def)
      then show ?thesis using 2 by (cases ps) (simp_all add: qs_def)
    next
      case 3
      then have "k = 2 ^ 64 + length ps - n" using n by (simp add: k_def)
      then have "length qs = length used" using q(2) f n by simp
      then have "qs = used" using q(1) filter_all_length [of "\<lambda>p. p \<in> set (pw_app w)" qs] by simp
      then show ?thesis using 3 by simp
    qed
  qed
  then show ?thesis using r q by blast
qed

lemma find_free:
  assumes "distinct ps"
  shows "case find (pool_HasOneRef ps app) ps of None \<Rightarrow> set ps \<subseteq> set app | Some p \<Rightarrow> p \<in> set ps \<and> p \<notin> set app"
proof (cases "find (pool_HasOneRef ps app) ps")
  case None
  then have "set ps \<subseteq> set app" using pool_HasOneRef_iff [OF assms] by (auto simp: find_None_iff)
  then show ?thesis using None by simp
next
  case (Some p)
  then have "p \<in> set ps" "pool_HasOneRef ps app p" by (auto simp: find_Some_iff)
  then show ?thesis using pool_HasOneRef_iff [OF assms] Some by simp
qed

text \<open>The seven functions are one: new buffers are set to zero except in the 10-bit formats.\<close>

definition zeroed_bytes :: "format \<Rightarrow> bool \<Rightarrow> pixel_buffer \<Rightarrow> int" where
  "zeroed_bytes type z b = (if z \<and> type \<notin> {kI010, kI210, kI410} then bf_size b else 0)"

lemma create_construct: "create_buffer f w h = Some b \<Longrightarrow> \<exists>sy su sv. construct f w h sy su sv = Some b"
  by (cases f) (auto simp: create_buffer_def construct_def I420_create_def I422_create_def I444_create_def I010_create_def
    I210_create_def I410_create_def NV12_create_def bind_eq_Some_conv)

lemma pool_get_eq:
  "\<exists>init. pool_get type = pool_create type (create_buffer type) init \<and>
     (\<forall>w h b. create_buffer type w h = Some b \<longrightarrow> init b = Some (zeroed_bytes type True b))"
proof -
  define init where "init = (case type of kI420 \<Rightarrow> I420_InitializeData | kI422 \<Rightarrow> I422_InitializeData | kI444 \<Rightarrow> I444_InitializeData
     | kNV12 \<Rightarrow> NV12_InitializeData | _ \<Rightarrow> (\<lambda>_. Some 0))"
  have "init b = Some (zeroed_bytes type True b)" if c: "create_buffer type w h = Some b" for w h b
  proof -
    obtain sy su sv where k: "construct type w h sy su sv = Some b" using create_construct [OF c] by blast
    show ?thesis using InitializeData_construct [OF k] construct_ok(2) [OF k] by (cases type) (simp_all add: init_def zeroed_bytes_def InitializeData_def)
  qed
  moreover have "pool_get type = pool_create type (create_buffer type) init"
    by (cases type) (simp_all add: init_def pool_get_def create_buffer_def CreateI420Buffer_def CreateI422Buffer_def CreateI444Buffer_def
      CreateNV12Buffer_def CreateI010Buffer_def CreateI210Buffer_def CreateI410Buffer_def)
  ultimately show ?thesis by blast
qed

definition get_result :: "format \<Rightarrow> int \<Rightarrow> int \<Rightarrow> pool_world \<Rightarrow> nat option \<Rightarrow> pool_world \<Rightarrow> bool" where
  "get_result type width height w r w' \<longleftrightarrow>
     (let ps = filter (\<lambda>p. matches width height type (fst (pw_objects w ! p))) (pool_buffers (pw_pool w)) in
      case r of
        None \<Rightarrow> set ps \<subseteq> set (pw_app w) \<and> length ps = max_number_of_buffers (pw_pool w) \<and> pw_app w' = pw_app w \<and> pw_objects w' = pw_objects w
      | Some p \<Rightarrow> p \<notin> set (pw_app w) \<and> pw_app w' = pw_app w @ [p] \<and> p < length (pw_objects w') \<and> matches width height type (fst (pw_objects w' ! p)) \<and>
          (if set ps \<subseteq> set (pw_app w)
           then p = length (pw_objects w) \<and> (\<exists>b. pw_objects w' = pw_objects w @ [(b, zeroed_bytes type (zero_initialize (pw_pool w)) b)])
           else p \<in> set ps \<and> pw_objects w' = pw_objects w))"

lemma Get_ok:
  assumes w: "world_ok z w" and s: "size_ok width height"
  shows "\<exists>r w'. pool_get type width height w = Some (r, w') \<and> world_ok z w' \<and> get_result type width height w r w' \<and>
    max_number_of_buffers (pw_pool w') = max_number_of_buffers (pw_pool w)"
proof -
  obtain init where g: "pool_get type = pool_create type (create_buffer type) init"
    and i: "\<And>w h b. create_buffer type w h = Some b \<Longrightarrow> init b = Some (zeroed_bytes type True b)" using pool_get_eq [of type] by blast
  define ps where "ps = filter (\<lambda>p. matches width height type (fst (pw_objects w ! p))) (pool_buffers (pw_pool w))"
  define v where "v = w\<lparr>pw_pool := (pw_pool w)\<lparr>pool_buffers := ps\<rparr>\<rparr>"
  let ?k = "length (pw_objects w)"
  have p: "pool_ok (pw_pool w) ?k" "set (pw_app w) \<subseteq> {..<?k}" using w by (simp_all add: world_ok_def)
  have d: "distinct ps" "set ps \<subseteq> {..<?k}" "length ps \<le> max_number_of_buffers (pw_pool w)"
    using p(1) by (auto simp: pool_ok_def ps_def intro: order_trans [OF length_filter_le])
  have ok: "world_ok z v" using w d by (auto simp: world_ok_def pool_ok_def v_def)
  have m: "q \<in> set ps \<Longrightarrow> matches width height type (fst (pw_objects w ! q))" for q by (simp add: ps_def)
  show ?thesis
  proof (cases "find (pool_HasOneRef ps (pw_app w)) ps")
    case (Some q)
    then have q: "q \<in> set ps" "q \<notin> set (pw_app w)" using find_free [OF d(1), of "pw_app w"] by simp_all
    then have "bf_type (fst (pw_objects w ! q)) = type" using m [OF q(1)] by (simp add: matches_def)
    then have "GetExistingBuffer width height type w = Some (Some q, v)"
      using Some by (simp add: GetExistingBuffer_def Let_def v_def flip: ps_def)
    then have "pool_get type width height w = Some (Some q, v\<lparr>pw_app := pw_app w @ [q]\<rparr>)" by (simp add: g pool_create_def v_def)
    moreover have "world_ok z (v\<lparr>pw_app := pw_app w @ [q]\<rparr>)" using ok q d(2) p(2) by (auto simp: world_ok_def v_def)
    moreover have "get_result type width height w (Some q) (v\<lparr>pw_app := pw_app w @ [q]\<rparr>)"
      using q m [OF q(1)] d(2) by (auto simp: get_result_def Let_def v_def simp flip: ps_def)
    ultimately show ?thesis by (auto simp: v_def)
  next
    case None
    then have all: "set ps \<subseteq> set (pw_app w)" using find_free [OF d(1), of "pw_app w"] by simp
    have e: "GetExistingBuffer width height type w = Some (None, v)" using None by (simp add: GetExistingBuffer_def Let_def v_def flip: ps_def)
    show ?thesis
    proof (cases "max_number_of_buffers (pw_pool w) \<le> length ps")
      case True
      then have "pool_get type width height w = Some (None, v)" using e by (simp add: g pool_create_def v_def)
      moreover have "get_result type width height w None v" using all True d(3) by (simp add: get_result_def Let_def v_def flip: ps_def)
      ultimately show ?thesis using ok by (auto simp: v_def)
    next
      case False
      obtain b where b: "create_buffer type width height = Some b" "buffer_ok b" "bf_type b = type" "bf_width b = width" "bf_height b = height"
        using create_Some [of width height type] s by (auto simp: size_ok_def)
      have mb: "matches width height type b" using b by (simp add: matches_def)
      let ?zb = "zeroed_bytes type (zero_initialize (pw_pool w)) b"
      define u where "u = w\<lparr>pw_pool := (pw_pool w)\<lparr>pool_buffers := ps @ [?k]\<rparr>, pw_objects := pw_objects w @ [(b, ?zb)], pw_app := pw_app w @ [?k]\<rparr>"
      have "(if zero_initialize (pw_pool w) then init b else Some 0) = Some ?zb" using i [OF b(1)] by (simp add: zeroed_bytes_def)
      then have "pool_get type width height w = Some (Some ?k, u)" using e False b(1) by (simp add: g pool_create_def v_def u_def Let_def)
      moreover have "world_ok z u" using w d p(2) False b(2) by (auto simp: world_ok_def pool_ok_def u_def)
      moreover have "get_result type width height w (Some ?k) u"
        using all p(2) mb by (auto simp: get_result_def Let_def u_def simp flip: ps_def)
      ultimately show ?thesis by (auto simp: u_def)
    qed
  qed
qed


section \<open>Sessions\<close>

interpretation pools: simulation "world_ok z" "\<lambda>w. w" pool_step "\<lambda>x _. pool_op_ok x" "\<lambda>_ _ _. True"
proof
  fix w x assume w: "world_ok z w" and x: "pool_op_ok x"
  show "\<exists>w'. pool_step x w = Some w' \<and> world_ok z w' \<and> True"
  proof (cases x)
    case (Get type width height)
    then show ?thesis using Get_ok [OF w, of width height type] x by auto
  next
    case (SetMax n)
    then have n: "n < 2 ^ 64" using x by simp
    from Resize_ok [OF w n] show ?thesis using w n SetMax
      by (force simp: world_ok_def pool_ok_def split: if_splits)
  next
    case ReleaseAll
    then show ?thesis using w by (simp add: pool_Release_def world_ok_def pool_ok_def)
  next
    case (CopyPointer i)
    have "set (take 1 (drop i (pw_app w))) \<subseteq> set (pw_app w)" by (meson in_set_dropD in_set_takeD subsetI)
    then show ?thesis using w CopyPointer by (auto simp: world_ok_def)
  next
    case (DropPointer i)
    have "set (take i (pw_app w)) \<subseteq> set (pw_app w)" "set (drop (Suc i) (pw_app w)) \<subseteq> set (pw_app w)" by (simp_all add: set_take_subset set_drop_subset)
    then show ?thesis using w DropPointer by (auto simp: world_ok_def)
  qed
qed

lemma admissible_pool: "list_all pool_op_ok xs \<Longrightarrow> admissible (\<lambda>x _. pool_op_ok x) (\<lambda>_ _ _. True) xs w"
  by (induction xs arbitrary: w) simp_all

lemma pool_reach:
  assumes "n < 2 ^ 64" "list_all pool_op_ok xs"
  shows "\<exists>w. run pool_step xs (new_world z n) = Some w \<and> world_ok z w"
proof -
  have "world_ok z (new_world z n)" using assms(1) by (simp add: world_ok_def pool_ok_def new_world_def VideoFrameBufferPool_def)
  from pools.session [OF this admissible_pool [OF assms(2)]] show ?thesis by blast
qed

text \<open>
  C33: after any session with a frame buffer pool, a request for a buffer of up to 16384 by 16384 either returns a buffer of the requested format and size to which no
  other pointer outside the pool exists, or null. A new buffer is made only if all buffers of that format and size in the pool are in use, null is returned only if
  the pool already has its maximum of those, and all in use, and the pool never has more buffers than its maximum. In a pool that sets new buffers to zero all their
  bytes are zero, except in the 10-bit formats.
\<close>

theorem frame_pool_get:
  assumes "n < 2 ^ 64" "list_all pool_op_ok xs" "size_ok width height"
  shows "\<exists>w r w'. run pool_step xs (new_world z n) = Some w \<and> pool_get type width height w = Some (r, w') \<and>
    length (pool_buffers (pw_pool w')) \<le> max_number_of_buffers (pw_pool w) \<and>
    (let ps = filter (\<lambda>p. matches width height type (fst (pw_objects w ! p))) (pool_buffers (pw_pool w)) in
     case r of
       None \<Rightarrow> length ps = max_number_of_buffers (pw_pool w) \<and> set ps \<subseteq> set (pw_app w) \<and> pw_app w' = pw_app w
     | Some p \<Rightarrow> p \<notin> set (pw_app w) \<and> pw_app w' = pw_app w @ [p] \<and> matches width height type (fst (pw_objects w' ! p)) \<and>
         (if set ps \<subseteq> set (pw_app w)
          then p = length (pw_objects w) \<and> (\<exists>b. pw_objects w' = pw_objects w @ [(b, if z \<and> type \<notin> {kI010, kI210, kI410} then bf_size b else 0)])
          else p \<in> set ps))"
proof -
  obtain w where w: "run pool_step xs (new_world z n) = Some w" "world_ok z w" using pool_reach [OF assms(1,2)] by blast
  obtain r w' where r: "pool_get type width height w = Some (r, w')" "world_ok z w'" "get_result type width height w r w'"
      "max_number_of_buffers (pw_pool w') = max_number_of_buffers (pw_pool w)"
    using Get_ok [OF w(2) assms(3)] by blast
  have z: "zero_initialize (pw_pool w) = z" using w(2) by (simp add: world_ok_def)
  have "length (pool_buffers (pw_pool w')) \<le> max_number_of_buffers (pw_pool w)" using r(2,4) by (simp add: world_ok_def pool_ok_def)
  then show ?thesis using w(1) r(1,3) z
    by (intro exI [of _ w] exI [of _ r] exI [of _ w']) (auto simp: get_result_def Let_def zeroed_bytes_def split: option.splits if_splits)
qed

theorem frame_pool_get_witness:
  "\<exists>w r w'. run pool_step [Get kI420 16 8, Get kI420 16 8, DropPointer 0] (new_world True 2) = Some w \<and> pool_get kI420 16 8 w = Some (r, w') \<and>
     length (pool_buffers (pw_pool w')) \<le> max_number_of_buffers (pw_pool w)"
  using frame_pool_get [of 2 "[Get kI420 16 8, Get kI420 16 8, DropPointer 0]" 16 8 True kI420] by (auto simp: size_ok_def)

text \<open>
  \<open>Resize\<close> of a pool refuses a maximum that is smaller than the number of buffers in use. Otherwise it keeps all buffers in use, and if the pool has more buffers than
  the new maximum exactly that many remain. If the new maximum is larger than the number of buffers, the count of buffers to remove wraps around and all unused buffers are
  removed.
\<close>

theorem frame_pool_resize:
  assumes "n < 2 ^ 64" "list_all pool_op_ok xs" "k < 2 ^ 64"
  shows "\<exists>w ok w'. run pool_step xs (new_world z n) = Some w \<and> pool_Resize k w = (ok, w') \<and>
    (let ps = pool_buffers (pw_pool w); used = filter (\<lambda>p. p \<in> set (pw_app w)) ps; qs = pool_buffers (pw_pool w') in
     ok = (length used \<le> k) \<and>
     (if ok then max_number_of_buffers (pw_pool w') = k \<and> filter (\<lambda>p. p \<in> set (pw_app w)) qs = used \<and> set qs \<subseteq> set ps \<and> distinct qs \<and>
        (if k < length ps then length qs = k else if k = length ps then qs = ps else qs = used)
      else w' = w))"
proof -
  obtain w where w: "run pool_step xs (new_world z n) = Some w" "world_ok z w" using pool_reach [OF assms(1,2)] by blast
  define used where "used = filter (\<lambda>p. p \<in> set (pw_app w)) (pool_buffers (pw_pool w))"
  from Resize_ok [OF w(2) assms(3), folded used_def] obtain qs where r: "pool_Resize k w = (if k < length used then (False, w)
      else (True, w\<lparr>pw_pool := (pw_pool w)\<lparr>max_number_of_buffers := k, pool_buffers := qs\<rparr>\<rparr>))"
    "length used \<le> k \<longrightarrow> filter (\<lambda>p. p \<in> set (pw_app w)) qs = used \<and> set qs \<subseteq> set (pool_buffers (pw_pool w)) \<and> distinct qs \<and>
      (if k < length (pool_buffers (pw_pool w)) then length qs = k else if k = length (pool_buffers (pw_pool w)) then qs = pool_buffers (pw_pool w) else qs = used)"
    by blast
  show ?thesis
  proof (cases "k < length used")
    case True
    then have "pool_Resize k w = (False, w)" using r(1) by simp
    then show ?thesis using w(1) True by (simp add: Let_def used_def)
  next
    case False
    then have "pool_Resize k w = (True, w\<lparr>pw_pool := (pw_pool w)\<lparr>max_number_of_buffers := k, pool_buffers := qs\<rparr>\<rparr>)" using r(1) by simp
    then show ?thesis using w(1) False r(2) by (simp add: Let_def used_def)
  qed
qed

theorem frame_pool_resize_witness:
  "\<exists>w ok w'. run pool_step [Get kNV12 16 8, DropPointer 0] (new_world False 1) = Some w \<and> pool_Resize 2 w = (ok, w')"
  using frame_pool_resize [of 1 "[Get kNV12 16 8, DropPointer 0]" 2 False] by (auto simp: size_ok_def)

end
