(* ===== verification/StringEncode.thy ===== *)
theory StringEncode
  imports Octk_Prelude
begin

unbundle bit_operations_syntax

text \<open>
  \<open>src/libs/core/source/text/octk_string_encode.cpp\<close>: hexadecimal text with and without a delimiter, and splitting at a delimiter. Characters are
  bytes; buffers and strings are indexed as in the code, with accesses that fail outside. Sizes are \<open>size_t\<close>.
\<close>

section \<open>Hexadecimal text\<close>

definition HEX :: "u8 list" where
  "HEX = map of_char ''0123456789abcdef'' @ [0]"

definition hex_encode_char :: "u8 \<Rightarrow> u8 option" where
  "hex_encode_char val = do { dcheck (val < 16); if val < 16 then deref HEX (unat val) else Some 33 }"

definition hex_decode_char :: "u8 \<Rightarrow> u8 option" where
  "hex_decode_char ch =
     (if 48 \<le> ch \<and> ch \<le> 57 then Some (ch - 48)
      else if 65 \<le> ch \<and> ch \<le> 70 then Some (ch - 65 + 10)
      else if 97 \<le> ch \<and> ch \<le> 102 then Some (ch - 97 + 10)
      else None)"

definition hex_encode_output_length :: "nat \<Rightarrow> u8 \<Rightarrow> nat" where
  "hex_encode_output_length srclen delimiter = (if delimiter \<noteq> 0 \<and> 0 < srclen then (srclen * 3 - 1) mod 2 ^ 64 else (srclen * 2) mod 2 ^ 64)"

function hex_encode_loop :: "u8 list \<Rightarrow> u8 list \<Rightarrow> u8 \<Rightarrow> nat \<Rightarrow> nat \<Rightarrow> u8 list option" where
  "hex_encode_loop buffer source delimiter srcpos bufpos =
     (if srcpos < length source then do {
        ch \<leftarrow> deref source srcpos;
        c1 \<leftarrow> hex_encode_char (drop_bit 4 ch AND 0xF);
        buffer \<leftarrow> store buffer bufpos c1;
        c2 \<leftarrow> hex_encode_char (ch AND 0xF);
        buffer \<leftarrow> store buffer (bufpos + 1) c2;
        if delimiter \<noteq> 0 \<and> srcpos + 1 < length source then do {
          buffer \<leftarrow> store buffer (bufpos + 2) delimiter;
          hex_encode_loop buffer source delimiter (srcpos + 1) (bufpos + 3)
        } else hex_encode_loop buffer source delimiter (srcpos + 1) (bufpos + 2)
      } else Some buffer)"
  by pat_completeness auto
termination
  by (relation "measure (\<lambda>(buffer, source, delimiter, srcpos, bufpos). length source - srcpos)") auto

definition hex_encode_with_delimiter :: "u8 list \<Rightarrow> u8 \<Rightarrow> u8 list option" where
  "hex_encode_with_delimiter source delimiter =
     hex_encode_loop (replicate (hex_encode_output_length (length source) delimiter) 0) source delimiter 0 0"

definition hex_encode :: "u8 list \<Rightarrow> u8 list option" where
  "hex_encode str = hex_encode_with_delimiter str 0"

function hex_decode_loop :: "u8 list \<Rightarrow> u8 list \<Rightarrow> u8 \<Rightarrow> nat \<Rightarrow> nat \<Rightarrow> (u8 list \<times> nat) option" where
  "hex_decode_loop buffer source delimiter srcpos bufpos =
     (if srcpos < length source then
        if length source - srcpos < 2 then Some (buffer, 0)
        else do {
          ch1 \<leftarrow> deref source srcpos;
          ch2 \<leftarrow> deref source (srcpos + 1);
          case (hex_decode_char ch1, hex_decode_char ch2) of
            (Some h1, Some h2) \<Rightarrow> do {
              buffer \<leftarrow> store buffer bufpos (push_bit 4 h1 OR h2);
              if delimiter \<noteq> 0 \<and> 1 < length source - (srcpos + 2) then do {
                ch \<leftarrow> deref source (srcpos + 2);
                if ch \<noteq> delimiter then Some (buffer, 0) else hex_decode_loop buffer source delimiter (srcpos + 3) (bufpos + 1)
              } else hex_decode_loop buffer source delimiter (srcpos + 2) (bufpos + 1)
            }
          | _ \<Rightarrow> Some (buffer, 0)
        }
      else Some (buffer, bufpos))"
  by pat_completeness auto
termination
  by (relation "measure (\<lambda>(buffer, source, delimiter, srcpos, bufpos). length source - srcpos)") auto

definition hex_decode_with_delimiter :: "u8 list \<Rightarrow> u8 list \<Rightarrow> u8 \<Rightarrow> (u8 list \<times> nat) option" where
  "hex_decode_with_delimiter cbuffer source delimiter =
     (if cbuffer = [] then Some (cbuffer, 0)
      else let srclen = length source;
               needed = (if delimiter \<noteq> 0 then (srclen + 1) mod 2 ^ 64 div 3 else srclen div 2)
           in if length cbuffer < needed then Some (cbuffer, 0)
              else hex_decode_loop cbuffer source delimiter 0 0)"

definition hex_decode :: "u8 list \<Rightarrow> u8 list \<Rightarrow> (u8 list \<times> nat) option" where
  "hex_decode buffer source = hex_decode_with_delimiter buffer source 0"


section \<open>Fields\<close>

definition substr :: "u8 list \<Rightarrow> nat \<Rightarrow> nat \<Rightarrow> u8 list option" where
  "substr s pos n = (if pos \<le> length s then Some (take n (drop pos s)) else None)"

function tokenize_loop :: "u8 list \<Rightarrow> u8 \<Rightarrow> nat \<Rightarrow> nat \<Rightarrow> u8 list list \<Rightarrow> (nat \<times> u8 list list) option" where
  "tokenize_loop source delimiter i start fields =
     (if i < length source then do {
        ch \<leftarrow> deref source i;
        if ch = delimiter then
          if i \<noteq> start then do {
            field \<leftarrow> substr source start (i - start);
            tokenize_loop source delimiter (i + 1) (i + 1) (fields @ [field])
          } else tokenize_loop source delimiter (i + 1) (i + 1) fields
        else tokenize_loop source delimiter (i + 1) start fields
      } else Some (start, fields))"
  by pat_completeness auto
termination
  by (relation "measure (\<lambda>(source, delimiter, i, start, fields). length source - i)") auto

definition tokenize :: "u8 list \<Rightarrow> u8 \<Rightarrow> (nat \<times> u8 list list) option" where
  "tokenize source delimiter = do {
     (start, fields) \<leftarrow> tokenize_loop source delimiter 0 0 [];
     fields \<leftarrow> (if start \<noteq> length source then do { field \<leftarrow> substr source start (length source - start); Some (fields @ [field]) } else Some fields);
     Some (length fields, fields)
   }"

fun find_char :: "u8 list \<Rightarrow> u8 \<Rightarrow> nat option" where
  "find_char [] c = None"
| "find_char (x # xs) c = (if x = c then Some 0 else map_option Suc (find_char xs c))"

function skip_chars :: "u8 list \<Rightarrow> u8 \<Rightarrow> nat \<Rightarrow> nat" where
  "skip_chars source c pos = (if pos < length source \<and> source ! pos = c then skip_chars source c (pos + 1) else pos)"
  by pat_completeness auto
termination
  by (relation "measure (\<lambda>(source, c, pos). length source - pos)") auto

definition tokenize_first :: "u8 list \<Rightarrow> u8 \<Rightarrow> (u8 list \<times> u8 list) option option" where
  "tokenize_first source delimiter = (case find_char source delimiter of
      None \<Rightarrow> Some None
    | Some left_pos \<Rightarrow> do {
        let right_pos = skip_chars source delimiter (left_pos + 1);
        token \<leftarrow> substr source 0 left_pos;
        rest \<leftarrow> substr source right_pos (length source);
        Some (Some (token, rest))
      })"

definition FromString_bool :: "u8 list \<Rightarrow> bool option" where
  "FromString_bool s = (if s = map of_char ''false'' then Some False else if s = map of_char ''true'' then Some True else None)"

declare hex_encode_loop.simps [simp del] hex_decode_loop.simps [simp del] tokenize_loop.simps [simp del] skip_chars.simps [simp del]


section \<open>Reference\<close>

text \<open>A text of pairs of characters with the delimiter between them; a delimiter 0 is none.\<close>

fun hex_text :: "u8 \<Rightarrow> (u8 \<times> u8) list \<Rightarrow> u8 list" where
  "hex_text d [] = []"
| "hex_text d [(a, b)] = [a, b]"
| "hex_text d ((a, b) # p # ps) = a # b # (if d = 0 then [] else [d]) @ hex_text d (p # ps)"

definition is_pair :: "u8 \<times> u8 \<Rightarrow> bool" where
  "is_pair p \<longleftrightarrow> hex_decode_char (fst p) \<noteq> None \<and> hex_decode_char (snd p) \<noteq> None"

definition pair_value :: "u8 \<times> u8 \<Rightarrow> u8" where
  "pair_value p = push_bit 4 (the (hex_decode_char (fst p))) OR the (hex_decode_char (snd p))"

definition byte_pair :: "u8 \<Rightarrow> u8 \<times> u8" where
  "byte_pair x = (HEX ! unat (drop_bit 4 x AND 0xF), HEX ! unat (x AND 0xF))"

fun fields_at :: "u8 \<Rightarrow> u8 list \<Rightarrow> u8 list list" where
  "fields_at d [] = [[]]"
| "fields_at d (x # xs) = (if x = d then [] # fields_at d xs else (x # hd (fields_at d xs)) # tl (fields_at d xs))"

lemma length_hex_text: "length (hex_text d ps) = (if ps = [] then 0 else if d = 0 then 2 * length ps else 3 * length ps - 1)"
  by (induction d ps rule: hex_text.induct) auto

text \<open>The digits, by going through all 16 of them.\<close>

lemma digits_list: "list_all (\<lambda>n. hex_decode_char (HEX ! n) = Some (of_nat n)) [0..<16]"
  by code_simp

lemma digit_value: "n < 16 \<Longrightarrow> hex_decode_char (HEX ! n) = Some (of_nat n)"
  using digits_list by (simp add: list_all_iff)

lemma nibble_less: "unat (x AND 0xF :: u8) < 16"
proof -
  have m: "(0xF :: u8) = mask 4" by (simp add: mask_eq_exp_minus_1)
  have lt: "take_bit 4 x = x \<Longrightarrow> unat x < 16" for x :: u8
    using take_bit_nat_less_exp [of 4 "unat x"] by (simp flip: unsigned_take_bit_eq)
  show ?thesis unfolding m by (rule lt, rule bit_word_eqI) (auto simp: word_bit_simps)
qed

lemma nibbles: "push_bit 4 (drop_bit 4 x AND 0xF) OR (x AND 0xF) = (x :: u8)"
proof -
  have m: "(0xF :: u8) = mask 4" by (simp add: mask_eq_exp_minus_1)
  show ?thesis unfolding m by (rule bit_word_eqI) (auto simp: word_bit_simps)
qed

lemma hex_encode_char_ok: "hex_encode_char (x AND 0xF) = Some (HEX ! unat (x AND 0xF))"
proof -
  have "x AND 0xF < (16 :: u8)" "unat (x AND 0xF) < length HEX" using nibble_less [of x] by (simp_all add: word_less_nat_alt HEX_def)
  then show ?thesis by (simp add: hex_encode_char_def)
qed

lemma byte_pair_value: "is_pair (byte_pair x) \<and> pair_value (byte_pair x) = x"
  using digit_value [OF nibble_less [of x]] digit_value [OF nibble_less [of "drop_bit 4 x"]] nibbles [of x]
  by (simp add: is_pair_def pair_value_def byte_pair_def)

text \<open>Writing into the middle of a buffer.\<close>

lemma store_append: "store (xs @ y # ys) (length xs) v = Some (xs @ v # ys)"
  by (simp add: store_def)

lemma store_append_Suc: "store (xs @ a # y # ys) (Suc (length xs)) v = Some (xs @ a # v # ys)"
  using store_append [of "xs @ [a]" y ys v] by simp

lemma store_append_Suc2: "store (xs @ a # b # y # ys) (Suc (Suc (length xs))) v = Some (xs @ a # b # v # ys)"
  using store_append [of "xs @ [a, b]" y ys v] by simp

lemma encode_loop:
  "length zs = length (hex_text d (map byte_pair xs)) \<Longrightarrow>
   hex_encode_loop (out @ zs) (pre @ xs) d (length pre) (length out) = Some (out @ hex_text d (map byte_pair xs))"
proof (induction xs arbitrary: pre out zs)
  case Nil
  then show ?case by (simp add: hex_encode_loop.simps)
next
  case (Cons x xs)
  obtain a b where ab: "byte_pair x = (a, b)" by fastforce
  have c: "hex_encode_char (drop_bit 4 x AND 0xF) = Some a" "hex_encode_char (x AND 0xF) = Some b"
    using ab by (simp_all add: hex_encode_char_ok byte_pair_def)
  have p: "deref (pre @ x # xs) (length pre) = Some x" by simp
  show ?case
  proof (cases "d \<noteq> 0 \<and> xs \<noteq> []")
    case True
    then obtain y ys where xs: "xs = y # ys" by (cases xs) auto
    have l: "length zs = 3 + length (hex_text d (map byte_pair xs))" using Cons.prems ab True xs by simp
    then obtain z1 z2 z3 zs' where zs: "zs = z1 # z2 # z3 # zs'" "length zs' = length (hex_text d (map byte_pair xs))"
      by (auto simp: length_Suc_conv numeral_3_eq_3)
    have "hex_encode_loop (out @ zs) (pre @ x # xs) d (length pre) (length out) =
        hex_encode_loop ((out @ [a, b, d]) @ zs') ((pre @ [x]) @ xs) d (length (pre @ [x])) (length (out @ [a, b, d]))"
      using True zs c by (subst hex_encode_loop.simps) (simp add: store_append store_append_Suc store_append_Suc2 eval_nat_numeral)
    also have "\<dots> = Some ((out @ [a, b, d]) @ hex_text d (map byte_pair xs))" by (rule Cons.IH [OF zs(2)])
    finally show ?thesis using ab True xs by simp
  next
    case False
    then have h: "hex_text d (map byte_pair (x # xs)) = a # b # hex_text d (map byte_pair xs)" using ab by (cases xs) auto
    then obtain z1 z2 zs' where zs: "zs = z1 # z2 # zs'" "length zs' = length (hex_text d (map byte_pair xs))"
      using Cons.prems by (auto simp: length_Suc_conv)
    have "hex_encode_loop (out @ zs) (pre @ x # xs) d (length pre) (length out) =
        hex_encode_loop ((out @ [a, b]) @ zs') ((pre @ [x]) @ xs) d (length (pre @ [x])) (length (out @ [a, b]))"
      using False zs c by (subst hex_encode_loop.simps) (auto simp: store_append store_append_Suc eval_nat_numeral)
    also have "\<dots> = Some ((out @ [a, b]) @ hex_text d (map byte_pair xs))" by (rule Cons.IH [OF zs(2)])
    finally show ?thesis using h by simp
  qed
qed

lemma encode_ok:
  assumes "length xs < 2 ^ 61"
  shows "hex_encode_with_delimiter xs d = Some (hex_text d (map byte_pair xs))"
proof -
  have "hex_encode_output_length (length xs) d = length (hex_text d (map byte_pair xs))"
    using assms by (auto simp: hex_encode_output_length_def length_hex_text)
  then show ?thesis using encode_loop [of "replicate (hex_encode_output_length (length xs) d) 0" d xs "[]" "[]"]
    by (simp add: hex_encode_with_delimiter_def)
qed

text \<open>The decoder as a function of the text that is left.\<close>

fun parse_hex :: "u8 \<Rightarrow> u8 list \<Rightarrow> u8 list option" where
  "parse_hex d [] = Some []"
| "parse_hex d [x] = None"
| "parse_hex d (a # b # rest) = (if \<not> is_pair (a, b) then None
     else if d \<noteq> 0 \<and> 1 < length rest then if hd rest \<noteq> d then None else map_option (Cons (pair_value (a, b))) (parse_hex d (tl rest))
     else map_option (Cons (pair_value (a, b))) (parse_hex d rest))"

lemma hex_text_Cons: "hex_text d ((a, b) # ps) = a # b # (if d = 0 \<or> ps = [] then [] else [d]) @ hex_text d ps"
  by (cases ps) auto

lemma parse_hex_sound: "parse_hex d s = Some ys \<Longrightarrow> \<exists>ps. s = hex_text d ps \<and> list_all is_pair ps \<and> ys = map pair_value ps"
proof (induction d s arbitrary: ys rule: parse_hex.induct)
  case (1 d)
  then show ?case by (intro exI [of _ "[]"]) simp
next
  case (3 d a b rest)
  have p: "is_pair (a, b)" using "3.prems" by (auto split: if_splits)
  show ?case
  proof (cases "d \<noteq> 0 \<and> 1 < length rest")
    case True
    then obtain r1 r2 rs where r: "rest = r1 # r2 # rs" by (cases rest; cases "tl rest") auto
    obtain zs where zs: "hd rest = d" "parse_hex d (tl rest) = Some zs" "ys = pair_value (a, b) # zs" using "3.prems" True p by (auto split: if_splits)
    obtain ps where ps: "tl rest = hex_text d ps" "list_all is_pair ps" "zs = map pair_value ps" using "3.IH"(1) True p zs by auto
    have "ps \<noteq> []" using ps(1) r by auto
    then have "a # b # rest = hex_text d ((a, b) # ps)" using r zs(1) ps(1) True by (simp add: hex_text_Cons)
    then show ?thesis using p ps zs(3) by (intro exI [of _ "(a, b) # ps"]) simp
  next
    case False
    obtain zs where zs: "parse_hex d rest = Some zs" "ys = pair_value (a, b) # zs" using "3.prems" False p by auto
    obtain ps where ps: "rest = hex_text d ps" "list_all is_pair ps" "zs = map pair_value ps" using "3.IH"(2) False p zs by auto
    have "d = 0 \<or> ps = []" using ps(1) False length_hex_text [of d ps] by (cases ps) (auto split: if_splits)
    then have "a # b # rest = hex_text d ((a, b) # ps)" using ps(1) by (simp add: hex_text_Cons)
    then show ?thesis using p ps zs(2) by (intro exI [of _ "(a, b) # ps"]) simp
  qed
qed simp

lemma parse_hex_complete: "list_all is_pair ps \<Longrightarrow> parse_hex d (hex_text d ps) = Some (map pair_value ps)"
proof (induction ps)
  case (Cons p ps)
  obtain a b where ab: "p = (a, b)" by fastforce
  have "1 < length (hex_text d ps)" if "ps \<noteq> []" using that length_hex_text [of d ps] by (cases ps) auto
  then show ?case using Cons ab by (cases "ps = []"; cases "d = 0") (auto simp: hex_text_Cons)
qed simp

definition hex_needed :: "u8 \<Rightarrow> nat \<Rightarrow> nat" where
  "hex_needed d n = (if d \<noteq> 0 then (n + 1) div 3 else n div 2)"

lemma is_pair_iff: "is_pair (a, b) \<longleftrightarrow> (\<exists>h1 h2. hex_decode_char a = Some h1 \<and> hex_decode_char b = Some h2 \<and> pair_value (a, b) = push_bit 4 h1 OR h2)"
  by (auto simp: is_pair_def pair_value_def)

text \<open>All accesses of the loop are inside, and it computes \<open>parse_hex\<close>.\<close>

lemma decode_loop:
  "length out + hex_needed d (length s) \<le> length out + length zs \<Longrightarrow>
   \<exists>buf. hex_decode_loop (out @ zs) (pre @ s) d (length pre) (length out) =
     Some (case parse_hex d s of None \<Rightarrow> (buf, 0) | Some ys \<Rightarrow> (out @ ys @ drop (length ys) zs, length out + length ys)) \<and> length buf = length (out @ zs)"
proof (induction d s arbitrary: pre out zs rule: parse_hex.induct)
  case (1 d)
  then show ?case by (subst hex_decode_loop.simps) (auto intro: exI [of _ "out @ zs"])
next
  case (2 d x)
  then show ?case by (subst hex_decode_loop.simps) (auto intro: exI [of _ "out @ zs"])
next
  case (3 d a b rest)
  have ch: "deref (pre @ a # b # rest) (length pre) = Some a" "deref (pre @ a # b # rest) (length pre + 1) = Some b" by (simp_all add: nth_append)
  show ?case
  proof (cases "is_pair (a, b)")
    case False
    then show ?thesis using ch by (subst hex_decode_loop.simps) (auto simp: is_pair_def split: option.splits intro: exI [of _ "out @ zs"])
  next
    case True
    then obtain h1 h2 where h: "hex_decode_char a = Some h1" "hex_decode_char b = Some h2" "pair_value (a, b) = push_bit 4 h1 OR h2"
      by (auto simp: is_pair_iff)
    have "0 < length zs" using "3.prems" by (auto simp: hex_needed_def split: if_splits)
    then obtain z zs' where zs: "zs = z # zs'" by (cases zs) auto
    let ?out = "out @ [pair_value (a, b)]"
    show ?thesis
    proof (cases "d \<noteq> 0 \<and> 1 < length rest")
      case del: True
      then obtain r rs where r: "rest = r # rs" by (cases rest) auto
      have ch3: "deref (pre @ a # b # rest) (length pre + 2) = Some r" using r by (simp add: nth_append)
      show ?thesis
      proof (cases "r = d")
        case False
        then show ?thesis using True del r ch ch3 h zs
          by (subst hex_decode_loop.simps) (auto simp: store_append intro!: exI [of _ "?out @ zs'"])
      next
        case rd: True
        have step: "hex_decode_loop (out @ zs) (pre @ a # b # rest) d (length pre) (length out) =
            hex_decode_loop (?out @ zs') ((pre @ [a, b, r]) @ rs) d (length (pre @ [a, b, r])) (length ?out)"
          using del r rd ch ch3 h zs by (subst hex_decode_loop.simps) (simp add: store_append eval_nat_numeral)
        have "length ?out + hex_needed d (length rs) \<le> length ?out + length zs'"
          using "3.prems" del r zs by (simp add: hex_needed_def)
        then obtain buf where "hex_decode_loop (?out @ zs') ((pre @ [a, b, r]) @ rs) d (length (pre @ [a, b, r])) (length ?out) =
            Some (case parse_hex d rs of None \<Rightarrow> (buf, 0) | Some ys \<Rightarrow> (?out @ ys @ drop (length ys) zs', length ?out + length ys))" "length buf = length (?out @ zs')"
          using "3.IH"(1) [of ?out zs' "pre @ [a, b, r]"] True del r rd by auto
        then show ?thesis using step True del r rd zs by (intro exI [of _ buf]) (auto split: option.splits)
      qed
    next
      case del: False
      have step: "hex_decode_loop (out @ zs) (pre @ a # b # rest) d (length pre) (length out) =
          hex_decode_loop (?out @ zs') ((pre @ [a, b]) @ rest) d (length (pre @ [a, b])) (length ?out)"
        using del ch h zs by (subst hex_decode_loop.simps) (auto simp: store_append eval_nat_numeral)
      have "length ?out + hex_needed d (length rest) \<le> length ?out + length zs'"
        using "3.prems" del zs by (auto simp: hex_needed_def split: if_splits)
      then obtain buf where "hex_decode_loop (?out @ zs') ((pre @ [a, b]) @ rest) d (length (pre @ [a, b])) (length ?out) =
          Some (case parse_hex d rest of None \<Rightarrow> (buf, 0) | Some ys \<Rightarrow> (?out @ ys @ drop (length ys) zs', length ?out + length ys))" "length buf = length (?out @ zs')"
        using "3.IH"(2) [of ?out zs' "pre @ [a, b]"] True del by auto
      then show ?thesis using step True del zs by (intro exI [of _ buf]) (auto split: option.splits)
    qed
  qed
qed

lemma decode_ok:
  assumes "length source < 2 ^ 63"
  shows "\<exists>buf' n. hex_decode_with_delimiter buf source d = Some (buf', n) \<and> length buf' = length buf \<and>
    (if buf \<noteq> [] \<and> hex_needed d (length source) \<le> length buf
     then case parse_hex d source of None \<Rightarrow> n = 0 | Some ys \<Rightarrow> n = length ys \<and> buf' = ys @ drop (length ys) buf \<and> length ys \<le> length buf
     else n = 0 \<and> buf' = buf)"
proof (cases "buf \<noteq> [] \<and> hex_needed d (length source) \<le> length buf")
  case True
  then have e: "hex_decode_with_delimiter buf source d = hex_decode_loop buf source d 0 0"
    using assms by (cases "d = 0") (auto simp: hex_decode_with_delimiter_def hex_needed_def Let_def)
  obtain b where b: "hex_decode_loop buf source d 0 0 = Some (case parse_hex d source of None \<Rightarrow> (b, 0) | Some ys \<Rightarrow> (ys @ drop (length ys) buf, length ys))"
      "length b = length buf"
    using decode_loop [of "[]" d source buf "[]", unfolded append_Nil list.size(3) add_0] True by auto
  show ?thesis
  proof (cases "parse_hex d source")
    case None
    then show ?thesis using True e b by simp
  next
    case (Some ys)
    obtain ps where "source = hex_text d ps" "ys = map pair_value ps" using parse_hex_sound [OF Some] by blast
    then have "length ys \<le> hex_needed d (length source)" by (auto simp: hex_needed_def length_hex_text)
    then show ?thesis using True e b Some by auto
  qed
next
  case False
  then show ?thesis using assms by (auto simp: hex_decode_with_delimiter_def hex_needed_def Let_def)
qed

text \<open>
  C34: decoding hexadecimal text never reads outside the text or writes outside the buffer, whatever they hold. It returns a number other than 0 only if the whole
  text consists of that many pairs of digits with the delimiter between them, and then the buffer begins with their values and is otherwise unchanged; every such text
  for which the buffer has room is decoded.
\<close>

theorem hex_decode_spec:
  assumes "length source < 2 ^ 63"
  shows "\<exists>buf' n. hex_decode_with_delimiter buf source d = Some (buf', n) \<and> length buf' = length buf \<and>
    (0 < n \<longrightarrow> (\<exists>ps. source = hex_text d ps \<and> list_all is_pair ps \<and> n = length ps \<and> buf' = map pair_value ps @ drop n buf)) \<and>
    (\<forall>ps. source = hex_text d ps \<and> list_all is_pair ps \<and> length ps \<le> length buf \<longrightarrow> n = length ps)"
proof -
  from decode_ok [OF assms, of buf d] obtain buf' n where r: "hex_decode_with_delimiter buf source d = Some (buf', n)" "length buf' = length buf"
    "if buf \<noteq> [] \<and> hex_needed d (length source) \<le> length buf
     then case parse_hex d source of None \<Rightarrow> n = 0 | Some ys \<Rightarrow> n = length ys \<and> buf' = ys @ drop (length ys) buf \<and> length ys \<le> length buf
     else n = 0 \<and> buf' = buf" by blast
  have "\<exists>ps. source = hex_text d ps \<and> list_all is_pair ps \<and> n = length ps \<and> buf' = map pair_value ps @ drop n buf" if pos: "0 < n"
  proof -
    obtain ys where ys: "parse_hex d source = Some ys" "n = length ys" "buf' = ys @ drop n buf"
      using r(3) pos by (auto split: if_splits option.splits)
    from parse_hex_sound [OF ys(1)] show ?thesis using ys(2,3) by auto
  qed
  moreover have "n = length ps" if "source = hex_text d ps" "list_all is_pair ps" "length ps \<le> length buf" for ps
  proof -
    have "parse_hex d source = Some (map pair_value ps)" using parse_hex_complete that by simp
    moreover have "hex_needed d (length source) \<le> length buf" using that by (auto simp: hex_needed_def length_hex_text)
    ultimately show ?thesis using r(3) that(3) by (cases "buf = []") auto
  qed
  ultimately show ?thesis using r(1,2) by blast
qed

theorem hex_decode_spec_witness:
  "\<exists>buf' n. hex_decode_with_delimiter [0, 0, 0] [52, 65, 58, 102, 102] 58 = Some (buf', n) \<and> n = 2"
proof -
  let ?s = "[52, 65, 58, 102, 102] :: u8 list" and ?ps = "[(52, 65), (102, 102)] :: (u8 \<times> u8) list" and ?buf = "[0, 0, 0] :: u8 list"
  have h: "?s = hex_text 58 ?ps" "list_all is_pair ?ps" by (simp_all add: is_pair_def hex_decode_char_def)
  have "length ?s < 2 ^ 63" by simp
  from hex_decode_spec [OF this, of ?buf 58] obtain buf' n where r: "hex_decode_with_delimiter ?buf ?s 58 = Some (buf', n)"
      "\<forall>ps. ?s = hex_text 58 ps \<and> list_all is_pair ps \<and> length ps \<le> length ?buf \<longrightarrow> n = length ps" by blast
  have "n = length ?ps" by (rule r(2) [rule_format]) (intro conjI h, simp)
  then show ?thesis using r(1) by simp
qed

text \<open>Hexadecimal text of any bytes, with any delimiter or none, is decoded to those bytes if they fit into the buffer.\<close>

theorem hex_round_trip:
  assumes "length xs < 2 ^ 61" "length xs \<le> length buf"
  shows "\<exists>s. hex_encode_with_delimiter xs d = Some s \<and> length s = (if d \<noteq> 0 then 3 * length xs - 1 else 2 * length xs) \<and>
    hex_decode_with_delimiter buf s d = Some (xs @ drop (length xs) buf, length xs)"
proof -
  let ?ps = "map byte_pair xs"
  let ?s = "hex_text d ?ps"
  have v: "list_all is_pair ?ps" "map pair_value ?ps = xs" using byte_pair_value by (simp_all add: list_all_iff comp_def)
  have l: "length ?s = (if d \<noteq> 0 then 3 * length xs - 1 else 2 * length xs)" by (simp add: length_hex_text)
  then have "length ?s < 2 ^ 63" using assms(1) by auto
  from decode_ok [OF this, of buf d] parse_hex_complete [OF v(1), of d] v(2)
  have "hex_decode_with_delimiter buf ?s d = Some (xs @ drop (length xs) buf, length xs)"
    using assms(2) l by (cases "buf = []") (auto simp: hex_needed_def split: if_splits)
  then show ?thesis using encode_ok [OF assms(1), of d] l by blast
qed

theorem hex_round_trip_witness:
  "\<exists>s. hex_encode_with_delimiter [18, 255] 0 = Some s \<and> hex_decode_with_delimiter [7, 7, 7] s 0 = Some ([18, 255, 7], 2)"
  using hex_round_trip [of "[18, 255]" "[7, 7, 7]" 0] by auto


section \<open>Fields are those of the reference\<close>

lemma fields_at_no: "d \<notin> set cur \<Longrightarrow> fields_at d (cur @ rest) = (cur @ hd (fields_at d rest)) # tl (fields_at d rest)"
proof (induction cur)
  case Nil
  have "fields_at d rest \<noteq> []" by (cases rest) auto
  then show ?case by simp
qed auto

definition last_field :: "u8 list \<Rightarrow> nat \<times> u8 list list \<Rightarrow> u8 list list option" where
  "last_field source = (\<lambda>(start, fields). if start \<noteq> length source then do { field \<leftarrow> substr source start (length source - start); Some (fields @ [field]) } else Some fields)"

lemma tokenize_loop_ok:
  "d \<notin> set cur \<Longrightarrow> do { r \<leftarrow> tokenize_loop (pre @ cur @ rest) d (length pre + length cur) (length pre) fields; last_field (pre @ cur @ rest) r } =
     Some (fields @ filter (\<lambda>f. f \<noteq> []) (fields_at d (cur @ rest)))"
proof (induction rest arbitrary: pre cur fields)
  case Nil
  then show ?case using fields_at_no [OF Nil, of "[]"] by (subst tokenize_loop.simps) (auto simp: last_field_def substr_def)
next
  case (Cons x rest)
  have ch: "deref (pre @ cur @ x # rest) (length pre + length cur) = Some x" by (simp add: nth_append)
  show ?case
  proof (cases "x = d")
    case False
    then have "tokenize_loop (pre @ cur @ x # rest) d (length pre + length cur) (length pre) fields =
        tokenize_loop (pre @ (cur @ [x]) @ rest) d (length pre + length (cur @ [x])) (length pre) fields"
      using ch by (subst tokenize_loop.simps) simp
    then show ?thesis using Cons.IH [of "cur @ [x]" pre fields] Cons.prems False by simp
  next
    case True
    let ?fields = "if cur = [] then fields else fields @ [cur]"
    have "tokenize_loop (pre @ cur @ x # rest) d (length pre + length cur) (length pre) fields =
        tokenize_loop ((pre @ cur @ [x]) @ [] @ rest) d (length (pre @ cur @ [x]) + length []) (length (pre @ cur @ [x])) ?fields"
      using ch True by (subst tokenize_loop.simps) (simp add: substr_def)
    moreover have "fields_at d (cur @ x # rest) = cur # fields_at d rest" using fields_at_no [OF Cons.prems, of "x # rest"] True by simp
    ultimately show ?thesis using Cons.IH [of "[]" "pre @ cur @ [x]" ?fields] by simp
  qed
qed

lemma find_char_None: "find_char s c = None \<longleftrightarrow> c \<notin> set s"
  by (induction s) auto

lemma find_char_Some: "find_char s c = Some i \<Longrightarrow> i < length s \<and> s ! i = c \<and> take i s = takeWhile (\<lambda>x. x \<noteq> c) s"
  by (induction s arbitrary: i) (auto split: if_splits)

lemma skip_chars_ok: "pos \<le> length s \<Longrightarrow> skip_chars s c pos \<le> length s \<and> drop (skip_chars s c pos) s = dropWhile (\<lambda>x. x = c) (drop pos s)"
proof (induction s c pos rule: skip_chars.induct)
  case (1 s c pos)
  show ?case
  proof (cases "pos < length s \<and> s ! pos = c")
    case True
    then have "skip_chars s c pos = skip_chars s c (pos + 1)" by (subst skip_chars.simps) simp
    moreover have "dropWhile (\<lambda>x. x = c) (drop pos s) = dropWhile (\<lambda>x. x = c) (drop (pos + 1) s)"
      using True by (simp flip: Cons_nth_drop_Suc)
    ultimately show ?thesis using 1(1) [OF True] True by simp
  next
    case False
    then have "skip_chars s c pos = pos" by (subst skip_chars.simps) auto
    moreover have "dropWhile (\<lambda>x. x = c) (drop pos s) = drop pos s" using False 1(2) by (cases "drop pos s") (auto simp: nth_via_drop drop_eq_Nil)
    ultimately show ?thesis using 1(2) by simp
  qed
qed

text \<open>
  \<open>tokenize\<close> gives the non-empty fields between the delimiters, in their order; \<open>tokenize_first\<close> gives what is before the first delimiter and what follows the
  run of delimiters that begins there, and fails exactly if there is none. All positions are inside the text.
\<close>

theorem tokenize_spec:
  "tokenize source d = (let fs = filter (\<lambda>f. f \<noteq> []) (fields_at d source) in Some (length fs, fs)) \<and>
   tokenize_first source d = Some (if d \<in> set source
     then Some (takeWhile (\<lambda>x. x \<noteq> d) source, dropWhile (\<lambda>x. x = d) (dropWhile (\<lambda>x. x \<noteq> d) source)) else None)"
proof
  have "do { r \<leftarrow> tokenize_loop source d 0 0 []; last_field source r } = Some (filter (\<lambda>f. f \<noteq> []) (fields_at d source))"
    using tokenize_loop_ok [of d "[]" "[]" source "[]"] by simp
  then show "tokenize source d = (let fs = filter (\<lambda>f. f \<noteq> []) (fields_at d source) in Some (length fs, fs))"
    by (auto simp: tokenize_def last_field_def Let_def bind_eq_Some_conv split: if_splits)
  show "tokenize_first source d = Some (if d \<in> set source
     then Some (takeWhile (\<lambda>x. x \<noteq> d) source, dropWhile (\<lambda>x. x = d) (dropWhile (\<lambda>x. x \<noteq> d) source)) else None)"
  proof (cases "find_char source d")
    case None
    then show ?thesis using find_char_None [of source d] by (simp add: tokenize_first_def)
  next
    case (Some i)
    note f = find_char_Some [OF Some]
    have m: "d \<in> set source" using f by auto
    have "dropWhile (\<lambda>x. x \<noteq> d) source = drop i source"
      using f by (metis append_take_drop_id same_append_eq takeWhile_dropWhile_id)
    also have "dropWhile (\<lambda>x. x = d) \<dots> = dropWhile (\<lambda>x. x = d) (drop (i + 1) source)" using f by (simp flip: Cons_nth_drop_Suc)
    finally have e: "dropWhile (\<lambda>x. x = d) (dropWhile (\<lambda>x. x \<noteq> d) source) = drop (skip_chars source d (i + 1)) source"
      using skip_chars_ok [of "i + 1" source d] f by simp
    have "skip_chars source d (i + 1) \<le> length source" using skip_chars_ok [of "i + 1" source d] f by simp
    then show ?thesis unfolding e using Some f m by (simp add: tokenize_first_def substr_def)
  qed
qed

end
