(* ===== verification/Metrics.thy ===== *)
theory Metrics
  imports Numeric Simulation "HOL-Library.Multiset"
begin

text \<open>
  Histograms: \<open>src/libs/core/source/tools/octk_metrics.cpp\<close>. A histogram counts samples in a \<open>std::map\<close>, a list sorted by the sample. The histograms are
  objects of a heap, reached by pointers that callers keep, and a map gives the pointer of a name; the heap, the map and the flag that is set by the first use
  are the global state. Every function holds a lock while it works, so that calls are atomic. A \<open>StringView\<close> is its characters together with those that follow it
  in memory up to the next NUL. Failed checks, overflow of an \<open>int\<close> and the use of a deleted histogram are \<^term>\<open>None\<close>.
\<close>

section \<open>Histograms\<close>

record string_view =
  sv_text :: string
  sv_after :: string

definition c_str :: "string_view \<Rightarrow> string" where
  "c_str v = takeWhile (\<lambda>c. c \<noteq> CHR 0x00) (sv_text v @ sv_after v)"

type_synonym sample_map = "(int \<times> int) list"

record sample_info =
  info_name :: string
  info_min :: int
  info_max :: int
  bucket_count :: int
  samples :: sample_map

record histogram =
  hist_min :: int
  hist_max :: int
  info :: sample_info

definition kMaxSampleMapSize :: nat where "kMaxSampleMapSize = 300"

definition SampleInfo :: "string \<Rightarrow> int \<Rightarrow> int \<Rightarrow> int \<Rightarrow> sample_info" where
  "SampleInfo name mn mx buckets = \<lparr>info_name = name, info_min = mn, info_max = mx, bucket_count = buckets, samples = []\<rparr>"

definition RtcHistogram :: "string \<Rightarrow> int \<Rightarrow> int \<Rightarrow> int \<Rightarrow> histogram option" where
  "RtcHistogram name mn mx buckets = do {
     dcheck (0 < buckets);
     Some \<lparr>hist_min = mn, hist_max = mx, info = SampleInfo name mn mx buckets\<rparr>
   }"

text \<open>\<open>++samples[sample]\<close>.\<close>

fun increment :: "int \<Rightarrow> sample_map \<Rightarrow> sample_map option" where
  "increment k [] = Some [(k, 1)]"
| "increment k ((j, n) # ss) = (if k < j then Some ((k, 1) # (j, n) # ss)
     else if k = j then do { n \<leftarrow> int32 (n + 1); Some ((j, n) # ss) }
     else map_option (Cons (j, n)) (increment k ss))"

definition RtcHistogram_Add :: "int \<Rightarrow> histogram \<Rightarrow> histogram option" where
  "RtcHistogram_Add sample h = do {
     let sample = min sample (hist_max h);
     underflow \<leftarrow> int32 (hist_min h - 1);
     let sample = max sample underflow;
     if length (samples (info h)) = kMaxSampleMapSize \<and> map_of (samples (info h)) sample = None then Some h
     else do { ss \<leftarrow> increment sample (samples (info h)); Some (h\<lparr>info := (info h)\<lparr>samples := ss\<rparr>\<rparr>) }
   }"

definition RtcHistogram_GetAndReset :: "histogram \<Rightarrow> sample_info option \<times> histogram" where
  "RtcHistogram_GetAndReset h =
     (if samples (info h) = [] then (None, h)
      else let copy = SampleInfo (info_name (info h)) (info_min (info h)) (info_max (info h)) (bucket_count (info h))
           in (Some (copy\<lparr>samples := samples (info h)\<rparr>), h\<lparr>info := (info h)\<lparr>samples := samples copy\<rparr>\<rparr>))"

definition RtcHistogram_Reset :: "histogram \<Rightarrow> histogram" where
  "RtcHistogram_Reset h = h\<lparr>info := (info h)\<lparr>samples := []\<rparr>\<rparr>"

definition RtcHistogram_NumEvents :: "int \<Rightarrow> histogram \<Rightarrow> int" where
  "RtcHistogram_NumEvents sample h = (case map_of (samples (info h)) sample of None \<Rightarrow> 0 | Some n \<Rightarrow> n)"

fun add_counts :: "int \<Rightarrow> sample_map \<Rightarrow> int option" where
  "add_counts num_samples [] = Some num_samples"
| "add_counts num_samples ((k, n) # ss) = do { num_samples \<leftarrow> int32 (num_samples + n); add_counts num_samples ss }"

definition RtcHistogram_NumSamples :: "histogram \<Rightarrow> int option" where
  "RtcHistogram_NumSamples h = add_counts 0 (samples (info h))"

definition RtcHistogram_MinSample :: "histogram \<Rightarrow> int" where
  "RtcHistogram_MinSample h = (case samples (info h) of [] \<Rightarrow> -1 | (k, n) # ss \<Rightarrow> k)"


section \<open>The map of all histograms and the interface\<close>

record metrics =
  g_rtc_histogram_map :: "(string \<times> nat) list option"
  g_rtc_histogram_called :: bool
  histograms :: "histogram option list"

definition initial_metrics :: metrics where
  "initial_metrics = \<lparr>g_rtc_histogram_map = None, g_rtc_histogram_called = False, histograms = []\<rparr>"

definition hist_at :: "metrics \<Rightarrow> nat \<Rightarrow> histogram option" where
  "hist_at m p = do { h \<leftarrow> deref (histograms m) p; h }"

definition set_hist :: "nat \<Rightarrow> histogram option \<Rightarrow> metrics \<Rightarrow> metrics" where
  "set_hist p h m = m\<lparr>histograms := (histograms m)[p := h]\<rparr>"

text \<open>
  Making a histogram and \<open>map_.emplace(name, hist)\<close>: the map owns the histogram, and if it already has the name, nothing is inserted and the new histogram is deleted.
  The pointer is returned in any case.
\<close>

definition emplace_new :: "string_view \<Rightarrow> histogram option \<Rightarrow> (string \<times> nat) list \<Rightarrow> metrics \<Rightarrow> (metrics \<times> nat) option" where
  "emplace_new name new mp m = do {
     h \<leftarrow> new;
     let p = length (histograms m);
     Some (if map_of mp (sv_text name) = None
       then (m\<lparr>histograms := histograms m @ [Some h], g_rtc_histogram_map := Some (mp @ [(sv_text name, p)])\<rparr>, p)
       else (m\<lparr>histograms := histograms m @ [None]\<rparr>, p))
   }"

definition GetCountsHistogram :: "string_view \<Rightarrow> int \<Rightarrow> int \<Rightarrow> int \<Rightarrow> (string \<times> nat) list \<Rightarrow> metrics \<Rightarrow> (metrics \<times> nat) option" where
  "GetCountsHistogram name mn mx buckets mp m = (case map_of mp (c_str name) of
      Some p \<Rightarrow> Some (m, p)
    | None \<Rightarrow> emplace_new name (RtcHistogram (sv_text name) mn mx buckets) mp m)"

definition GetEnumerationHistogram :: "string_view \<Rightarrow> int \<Rightarrow> (string \<times> nat) list \<Rightarrow> metrics \<Rightarrow> (metrics \<times> nat) option" where
  "GetEnumerationHistogram name boundary mp m = (case map_of mp (c_str name) of
      Some p \<Rightarrow> Some (m, p)
    | None \<Rightarrow> do { n \<leftarrow> int32 (boundary + 1); emplace_new name (RtcHistogram (sv_text name) 1 boundary n) mp m })"

fun map_GetAndReset :: "(string \<times> nat) list \<Rightarrow> metrics \<Rightarrow> ((string \<times> sample_info) list \<times> metrics) option" where
  "map_GetAndReset [] m = Some ([], m)"
| "map_GetAndReset ((name, p) # mp) m = do {
     h \<leftarrow> hist_at m p;
     let (inf, h) = RtcHistogram_GetAndReset h;
     (infos, m) \<leftarrow> map_GetAndReset mp (set_hist p (Some h) m);
     Some (case inf of None \<Rightarrow> infos | Some i \<Rightarrow> (name, i) # infos, m)
   }"

fun map_Reset :: "(string \<times> nat) list \<Rightarrow> metrics \<Rightarrow> metrics option" where
  "map_Reset [] m = Some m"
| "map_Reset ((name, p) # mp) m = do { h \<leftarrow> hist_at m p; map_Reset mp (set_hist p (Some (RtcHistogram_Reset h)) m) }"

definition find_hist :: "string_view \<Rightarrow> (string \<times> nat) list \<Rightarrow> metrics \<Rightarrow> histogram option option" where
  "find_hist name mp m = (case map_of mp (c_str name) of None \<Rightarrow> Some None | Some p \<Rightarrow> map_option Some (hist_at m p))"

definition map_NumEvents :: "string_view \<Rightarrow> int \<Rightarrow> (string \<times> nat) list \<Rightarrow> metrics \<Rightarrow> int option" where
  "map_NumEvents name sample mp m = do { h \<leftarrow> find_hist name mp m; Some (case h of None \<Rightarrow> 0 | Some h \<Rightarrow> RtcHistogram_NumEvents sample h) }"

definition map_NumSamples :: "string_view \<Rightarrow> (string \<times> nat) list \<Rightarrow> metrics \<Rightarrow> int option" where
  "map_NumSamples name mp m = do { h \<leftarrow> find_hist name mp m; case h of None \<Rightarrow> Some 0 | Some h \<Rightarrow> RtcHistogram_NumSamples h }"

definition map_MinSample :: "string_view \<Rightarrow> (string \<times> nat) list \<Rightarrow> metrics \<Rightarrow> int option" where
  "map_MinSample name mp m = do { h \<leftarrow> find_hist name mp m; Some (case h of None \<Rightarrow> -1 | Some h \<Rightarrow> RtcHistogram_MinSample h) }"

definition map_Samples :: "string_view \<Rightarrow> (string \<times> nat) list \<Rightarrow> metrics \<Rightarrow> sample_map option" where
  "map_Samples name mp m = do { h \<leftarrow> find_hist name mp m; Some (case h of None \<Rightarrow> [] | Some h \<Rightarrow> samples (info h)) }"

definition CreateMap :: "metrics \<Rightarrow> metrics" where
  "CreateMap m = (if g_rtc_histogram_map m = None then m\<lparr>g_rtc_histogram_map := Some []\<rparr> else m)"

definition GetMap :: "metrics \<Rightarrow> metrics \<times> (string \<times> nat) list option" where
  "GetMap m = (m\<lparr>g_rtc_histogram_called := True\<rparr>, g_rtc_histogram_map m)"

text \<open>The functions that return a pointer return null when metrics are not enabled.\<close>

definition HistogramFactoryGetCountsLinear :: "string_view \<Rightarrow> int \<Rightarrow> int \<Rightarrow> int \<Rightarrow> metrics \<Rightarrow> (metrics \<times> nat option) option" where
  "HistogramFactoryGetCountsLinear name mn mx buckets m = (case GetMap m of
      (m, None) \<Rightarrow> Some (m, None)
    | (m, Some mp) \<Rightarrow> do { (m, p) \<leftarrow> GetCountsHistogram name mn mx buckets mp m; Some (m, Some p) })"

definition HistogramFactoryGetCounts :: "string_view \<Rightarrow> int \<Rightarrow> int \<Rightarrow> int \<Rightarrow> metrics \<Rightarrow> (metrics \<times> nat option) option" where
  "HistogramFactoryGetCounts name mn mx buckets m = HistogramFactoryGetCountsLinear name mn mx buckets m"

definition HistogramFactoryGetEnumeration :: "string_view \<Rightarrow> int \<Rightarrow> metrics \<Rightarrow> (metrics \<times> nat option) option" where
  "HistogramFactoryGetEnumeration name boundary m = (case GetMap m of
      (m, None) \<Rightarrow> Some (m, None)
    | (m, Some mp) \<Rightarrow> do { (m, p) \<leftarrow> GetEnumerationHistogram name boundary mp m; Some (m, Some p) })"

definition SparseHistogramFactoryGetEnumeration :: "string_view \<Rightarrow> int \<Rightarrow> metrics \<Rightarrow> (metrics \<times> nat option) option" where
  "SparseHistogramFactoryGetEnumeration name boundary m = HistogramFactoryGetEnumeration name boundary m"

definition HistogramAdd :: "nat \<Rightarrow> int \<Rightarrow> metrics \<Rightarrow> metrics option" where
  "HistogramAdd p sample m = do { h \<leftarrow> hist_at m p; h \<leftarrow> RtcHistogram_Add sample h; Some (set_hist p (Some h) m) }"

definition Enable :: "metrics \<Rightarrow> metrics option" where
  "Enable m = do {
     dcheck (g_rtc_histogram_map m = None);
     dcheck (\<not> g_rtc_histogram_called m);
     Some (CreateMap m)
   }"

definition GetAndReset :: "metrics \<Rightarrow> ((string \<times> sample_info) list \<times> metrics) option" where
  "GetAndReset m = (case GetMap m of (m, None) \<Rightarrow> Some ([], m) | (m, Some mp) \<Rightarrow> map_GetAndReset mp m)"

definition metrics_Reset :: "metrics \<Rightarrow> metrics option" where
  "metrics_Reset m = (case GetMap m of (m, None) \<Rightarrow> Some m | (m, Some mp) \<Rightarrow> map_Reset mp m)"

definition NumEvents :: "string_view \<Rightarrow> int \<Rightarrow> metrics \<Rightarrow> int option" where
  "NumEvents name sample m = (case GetMap m of (m, None) \<Rightarrow> Some 0 | (m, Some mp) \<Rightarrow> map_NumEvents name sample mp m)"

definition NumSamples :: "string_view \<Rightarrow> metrics \<Rightarrow> int option" where
  "NumSamples name m = (case GetMap m of (m, None) \<Rightarrow> Some 0 | (m, Some mp) \<Rightarrow> map_NumSamples name mp m)"

definition MinSample :: "string_view \<Rightarrow> metrics \<Rightarrow> int option" where
  "MinSample name m = (case GetMap m of (m, None) \<Rightarrow> Some (-1) | (m, Some mp) \<Rightarrow> map_MinSample name mp m)"

definition metrics_Samples :: "string_view \<Rightarrow> metrics \<Rightarrow> sample_map option" where
  "metrics_Samples name m = (case GetMap m of (m, None) \<Rightarrow> Some [] | (m, Some mp) \<Rightarrow> map_Samples name mp m)"


section \<open>Histograms as multisets\<close>

fun bag :: "sample_map \<Rightarrow> int multiset" where
  "bag [] = {#}"
| "bag ((k, n) # ss) = replicate_mset (nat n) k + bag ss"

definition counts_ok :: "sample_map \<Rightarrow> bool" where
  "counts_ok ss \<longleftrightarrow> sorted_wrt (<) (map fst ss) \<and> (\<forall>(k, n) \<in> set ss. 0 < n)"

lemma counts_ok_Cons: "counts_ok ((k, n) # ss) \<longleftrightarrow> 0 < n \<and> (\<forall>j \<in> fst ` set ss. k < j) \<and> counts_ok ss"
  by (auto simp: counts_ok_def)

lemma set_bag: "counts_ok ss \<Longrightarrow> set_mset (bag ss) = fst ` set ss"
  by (induction ss rule: bag.induct) (auto simp: counts_ok_Cons counts_ok_def [of "[]"])

lemma count_bag: "counts_ok ss \<Longrightarrow> int (count (bag ss) k) = (case map_of ss k of None \<Rightarrow> 0 | Some n \<Rightarrow> n)"
proof (induction ss rule: bag.induct)
  case (2 j n ss)
  then have ok: "counts_ok ss" "0 < n" "\<forall>i \<in> fst ` set ss. j < i" by (auto simp: counts_ok_Cons)
  have "map_of ss j = None" using ok(3) by (auto simp: map_of_eq_None_iff)
  then show ?case using 2(1) [OF ok(1)] ok(2) by auto
qed simp

lemma card_bag: "counts_ok ss \<Longrightarrow> card (set_mset (bag ss)) = length ss"
proof -
  assume ok: "counts_ok ss"
  then have "distinct (map fst ss)" by (auto simp: counts_ok_def strict_sorted_iff)
  then show ?thesis using set_bag [OF ok] distinct_card [of "map fst ss"] by simp
qed

lemma increment_ok:
  "counts_ok ss \<Longrightarrow> int (size (bag ss)) < int32_max \<Longrightarrow> \<exists>ss'. increment k ss = Some ss' \<and> counts_ok ss' \<and> bag ss' = add_mset k (bag ss)"
proof (induction k ss rule: increment.induct)
  case (1 k)
  then show ?case by (simp add: counts_ok_def)
next
  case (2 k j n ss)
  then have ok: "counts_ok ss" "0 < n" "\<forall>i \<in> fst ` set ss. j < i" and sz: "n + int (size (bag ss)) < int32_max" by (auto simp: counts_ok_Cons)
  consider "k < j" | "k = j" | "j < k" by linarith
  then show ?case
  proof cases
    case 1
    then show ?thesis using ok by (force simp: counts_ok_Cons)
  next
    case 2
    have "int32 (n + 1) = Some (n + 1)" using ok(2) sz by (simp add: int32_def in_int32_def int_range_defs)
    then show ?thesis using 2 ok by (simp add: counts_ok_Cons nat_add_distrib)
  next
    case 3
    then obtain ss' where s: "increment k ss = Some ss'" "counts_ok ss'" "bag ss' = add_mset k (bag ss)" using 2(1) ok sz by auto
    have "fst ` set ss' = insert k (fst ` set ss)" using set_bag [OF s(2)] set_bag [OF ok(1)] s(3) by simp
    then show ?thesis using 3 s ok by (simp add: counts_ok_Cons)
  qed
qed

lemma add_counts_ok: "counts_ok ss \<Longrightarrow> 0 \<le> c \<Longrightarrow> c + int (size (bag ss)) \<le> int32_max \<Longrightarrow> add_counts c ss = Some (c + int (size (bag ss)))"
proof (induction c ss rule: add_counts.induct)
  case (2 c k n ss)
  then have ok: "counts_ok ss" "0 < n" and sz: "c + n + int (size (bag ss)) \<le> int32_max" by (auto simp: counts_ok_Cons)
  have "int32 (c + n) = Some (c + n)" using ok(2) sz 2(3) by (simp add: int32_def in_int32_def int_range_defs)
  then show ?case using 2(1) ok sz 2(3) by simp
qed simp

lemma min_bag: "counts_ok ((k, n) # ss) \<Longrightarrow> Min (set_mset (bag ((k, n) # ss))) = k"
  using set_bag [of "(k, n) # ss"] by (intro Min_eqI) (auto simp: counts_ok_Cons)

text \<open>What a histogram promises: samples are clamped, and a new value is not recorded when there are 300 already.\<close>

definition record_sample :: "int \<Rightarrow> int multiset \<Rightarrow> int multiset" where
  "record_sample k B = (if k \<notin># B \<and> card (set_mset B) = 300 then B else add_mset k B)"

definition hist_ok :: "histogram \<Rightarrow> bool" where
  "hist_ok h \<longleftrightarrow> counts_ok (samples (info h)) \<and> int (size (bag (samples (info h)))) \<le> int32_max \<and> in_int32 (hist_min h) \<and> hist_min h \<noteq> int32_min"

definition hist_bag :: "histogram \<Rightarrow> int multiset" where
  "hist_bag h = bag (samples (info h))"

lemma Add_ok:
  assumes h: "hist_ok h" and sz: "int (size (hist_bag h)) < int32_max"
  shows "\<exists>ss. RtcHistogram_Add x h = Some (h\<lparr>info := (info h)\<lparr>samples := ss\<rparr>\<rparr>) \<and> hist_ok (h\<lparr>info := (info h)\<lparr>samples := ss\<rparr>\<rparr>) \<and>
    bag ss = record_sample (max (min x (hist_max h)) (hist_min h - 1)) (hist_bag h)"
proof -
  let ?ss = "samples (info h)" and ?k = "max (min x (hist_max h)) (hist_min h - 1)"
  have ok: "counts_ok ?ss" using h by (simp add: hist_ok_def)
  have m: "int32 (hist_min h - 1) = Some (hist_min h - 1)" using h by (simp add: hist_ok_def int32_def in_int32_def)
  have new: "map_of ?ss ?k = None \<longleftrightarrow> ?k \<notin># hist_bag h" using set_bag [OF ok] by (simp add: hist_bag_def map_of_eq_None_iff)
  have full: "length ?ss = kMaxSampleMapSize \<longleftrightarrow> card (set_mset (hist_bag h)) = 300" using card_bag [OF ok] by (simp add: hist_bag_def kMaxSampleMapSize_def)
  show ?thesis
  proof (cases "?k \<notin># hist_bag h \<and> card (set_mset (hist_bag h)) = 300")
    case True
    then have "RtcHistogram_Add x h = Some h" using m new full by (simp add: RtcHistogram_Add_def Let_def)
    then show ?thesis using True h by (intro exI [of _ ?ss]) (simp add: record_sample_def hist_bag_def)
  next
    case False
    obtain ss where ss: "increment ?k ?ss = Some ss" "counts_ok ss" "bag ss = add_mset ?k (bag ?ss)"
      using increment_ok [OF ok, of ?k] sz by (auto simp: hist_bag_def)
    have "RtcHistogram_Add x h = Some (h\<lparr>info := (info h)\<lparr>samples := ss\<rparr>\<rparr>)"
      using False m new full ss(1) by (auto simp: RtcHistogram_Add_def Let_def)
    then show ?thesis using False ss h sz by (intro exI [of _ ss]) (auto simp: record_sample_def hist_bag_def hist_ok_def)
  qed
qed


section \<open>Sessions\<close>

datatype met_op = GetCounts string_view int int int | GetEnum string_view int | AddTo nat int | TakeAll | ResetAll

text \<open>A program with the pointers it has got.\<close>

fun met_step :: "met_op \<Rightarrow> metrics \<times> nat list \<Rightarrow> (metrics \<times> nat list) option" where
  "met_step (GetCounts name mn mx buckets) (m, ps) = do { (m, p) \<leftarrow> HistogramFactoryGetCounts name mn mx buckets m; Some (m, ps @ (case p of None \<Rightarrow> [] | Some p \<Rightarrow> [p])) }"
| "met_step (GetEnum name boundary) (m, ps) = do { (m, p) \<leftarrow> HistogramFactoryGetEnumeration name boundary m; Some (m, ps @ (case p of None \<Rightarrow> [] | Some p \<Rightarrow> [p])) }"
| "met_step (AddTo i x) (m, ps) = do { p \<leftarrow> deref ps i; m \<leftarrow> HistogramAdd p x m; Some (m, ps) }"
| "met_step TakeAll (m, ps) = do { (_, m) \<leftarrow> GetAndReset m; Some (m, ps) }"
| "met_step ResetAll (m, ps) = do { m \<leftarrow> metrics_Reset m; Some (m, ps) }"

text \<open>Abstractly there is for each name its range and the multiset of its samples, and a pointer is a name.\<close>

type_synonym hist_spec = "string \<times> int \<times> int \<times> int multiset"

definition spec_find :: "string \<Rightarrow> int \<Rightarrow> int \<Rightarrow> hist_spec list \<Rightarrow> hist_spec list" where
  "spec_find n mn mx hs = (if n \<in> fst ` set hs then hs else hs @ [(n, mn, mx, {#})])"

fun met_spec :: "met_op \<Rightarrow> hist_spec list \<times> string list \<Rightarrow> hist_spec list \<times> string list \<Rightarrow> bool" where
  "met_spec (GetCounts name mn mx buckets) (hs, ns) a \<longleftrightarrow> a = (spec_find (sv_text name) mn mx hs, ns @ [sv_text name])"
| "met_spec (GetEnum name boundary) (hs, ns) a \<longleftrightarrow> a = (spec_find (sv_text name) 1 boundary hs, ns @ [sv_text name])"
| "met_spec (AddTo i x) (hs, ns) a \<longleftrightarrow>
     a = (map (\<lambda>(n, mn, mx, B). (n, mn, mx, if n = ns ! i then record_sample (max (min x mx) (mn - 1)) B else B)) hs, ns)"
| "met_spec TakeAll (hs, ns) a \<longleftrightarrow> a = (map (\<lambda>(n, mn, mx, B). (n, mn, mx, {#})) hs, ns)"
| "met_spec ResetAll (hs, ns) a \<longleftrightarrow> a = (map (\<lambda>(n, mn, mx, B). (n, mn, mx, {#})) hs, ns)"

definition terminated :: "string_view \<Rightarrow> bool" where
  "terminated v \<longleftrightarrow> c_str v = sv_text v"

fun met_op_ok :: "met_op \<Rightarrow> hist_spec list \<times> string list \<Rightarrow> bool" where
  "met_op_ok (GetCounts name mn mx buckets) a \<longleftrightarrow> terminated name \<and> in_int32 mn \<and> mn \<noteq> int32_min \<and> in_int32 mx \<and> 0 < buckets \<and> in_int32 buckets"
| "met_op_ok (GetEnum name boundary) a \<longleftrightarrow> terminated name \<and> 0 \<le> boundary \<and> boundary < int32_max"
| "met_op_ok (AddTo i x) (hs, ns) \<longleftrightarrow> i < length ns \<and> in_int32 x \<and> (\<forall>(n, mn, mx, B) \<in> set hs. int (size B) < int32_max)"
| "met_op_ok TakeAll a \<longleftrightarrow> True"
| "met_op_ok ResetAll a \<longleftrightarrow> True"

definition entry :: "metrics \<Rightarrow> string \<times> nat \<Rightarrow> hist_spec" where
  "entry m = (\<lambda>(n, p). case hist_at m p of None \<Rightarrow> (n, 0, 0, {#}) | Some h \<Rightarrow> (n, hist_min h, hist_max h, hist_bag h))"

definition abs_metrics :: "metrics \<times> nat list \<Rightarrow> hist_spec list \<times> string list" where
  "abs_metrics = (\<lambda>(m, ps). (case g_rtc_histogram_map m of None \<Rightarrow> [] | Some mp \<Rightarrow> map (entry m) mp, map (\<lambda>p. info_name (info (the (hist_at m p)))) ps))"

definition map_ok :: "(string \<times> nat) list \<Rightarrow> metrics \<Rightarrow> bool" where
  "map_ok mp m \<longleftrightarrow> distinct (map fst mp) \<and> distinct (map snd mp) \<and>
     (\<forall>(n, p) \<in> set mp. \<exists>h. hist_at m p = Some h \<and> hist_ok h \<and> info_name (info h) = n)"

definition met_inv :: "metrics \<times> nat list \<Rightarrow> bool" where
  "met_inv = (\<lambda>(m, ps). \<exists>mp. g_rtc_histogram_map m = Some mp \<and> map_ok mp m \<and> set ps \<subseteq> snd ` set mp)"

lemma hist_at_bound: "hist_at m p = Some h \<Longrightarrow> p < length (histograms m)"
  by (auto simp: hist_at_def deref_def split: if_splits)

lemma hist_at_set: "p < length (histograms m) \<Longrightarrow> hist_at (set_hist p h m) q = (if q = p then h else hist_at m q)"
  by (simp add: hist_at_def set_hist_def deref_def)

lemma hist_at_other [simp]: "hist_at (m\<lparr>g_rtc_histogram_map := x\<rparr>) p = hist_at m p" "hist_at (m\<lparr>g_rtc_histogram_called := c\<rparr>) p = hist_at m p"
  by (simp_all add: hist_at_def)

lemma hist_at_append: "hist_at (m\<lparr>histograms := histograms m @ [h]\<rparr>) p = (if p = length (histograms m) then h else hist_at m p)"
  by (auto simp: hist_at_def deref_def nth_append)

lemma map_set_hist [simp]: "g_rtc_histogram_map (set_hist p h m) = g_rtc_histogram_map m" "length (histograms (set_hist p h m)) = length (histograms m)"
  by (simp_all add: set_hist_def)

text \<open>Finding or making a histogram.\<close>

lemma find_or_make:
  assumes inv: "g_rtc_histogram_map m = Some mp" "map_ok mp m" "set ps \<subseteq> snd ` set mp" and v: "terminated v"
    and new: "new = Some \<lparr>hist_min = mn, hist_max = mx, info = SampleInfo (sv_text v) mn mx b\<rparr>" and mn: "in_int32 mn" "mn \<noteq> int32_min"
  shows "\<exists>m' p. (case map_of mp (c_str v) of Some p \<Rightarrow> Some (m, p) | None \<Rightarrow> emplace_new v new mp m) = Some (m', p) \<and>
    met_inv (m', ps @ [p]) \<and> abs_metrics (m', ps @ [p]) = (spec_find (sv_text v) mn mx (map (entry m) mp), snd (abs_metrics (m, ps)) @ [sv_text v])"
proof (cases "map_of mp (sv_text v)")
  case (Some p)
  then have mem: "(sv_text v, p) \<in> set mp" by (rule map_of_SomeD)
  then obtain h where h: "hist_at m p = Some h" "info_name (info h) = sv_text v" using inv(2) by (auto simp: map_ok_def)
  have "sv_text v \<in> fst ` set (map (entry m) mp)" using mem h(1) by (force simp: entry_def)
  moreover have "set (ps @ [p]) \<subseteq> snd ` set mp" using inv(3) mem by force
  ultimately show ?thesis using Some v inv(1,2) h by (auto simp: terminated_def met_inv_def abs_metrics_def spec_find_def)
next
  case None
  define p where "p = length (histograms m)"
  define h where "h = \<lparr>hist_min = mn, hist_max = mx, info = SampleInfo (sv_text v) mn mx b\<rparr>"
  define m' where "m' = m\<lparr>histograms := histograms m @ [Some h], g_rtc_histogram_map := Some (mp @ [(sv_text v, p)])\<rparr>"
  have e: "emplace_new v new mp m = Some (m', p)" using None new by (simp add: emplace_new_def m'_def p_def h_def Let_def)
  have o: "hist_at m' q = (if q = p then Some h else hist_at m q)" for q
    using hist_at_append [of m "Some h" q] by (simp add: m'_def p_def hist_at_def)
  have old: "q < p" if "(n, q) \<in> set mp" for n q using inv(2) that hist_at_bound by (fastforce simp: map_ok_def p_def)
  have hok: "hist_ok h" using mn by (simp add: h_def hist_ok_def SampleInfo_def counts_ok_def int_range_defs)
  have fresh: "sv_text v \<notin> fst ` set mp" using None by (simp add: map_of_eq_None_iff)
  have fresh': "p \<notin> snd ` set mp" using old less_irrefl by force
  have same: "(n, q) \<in> set mp \<Longrightarrow> hist_at m' q = hist_at m q" for n q using old [of n q] by (simp add: o)
  have ok: "map_ok (mp @ [(sv_text v, p)]) m'"
    unfolding map_ok_def
  proof (intro conjI ballI)
    show "distinct (map fst (mp @ [(sv_text v, p)]))" "distinct (map snd (mp @ [(sv_text v, p)]))"
      using inv(2) fresh fresh' by (auto simp: map_ok_def)
    fix x assume x: "x \<in> set (mp @ [(sv_text v, p)])"
    show "case x of (n, q) \<Rightarrow> \<exists>h. hist_at m' q = Some h \<and> hist_ok h \<and> info_name (info h) = n"
    proof (cases "x \<in> set mp")
      case True
      then show ?thesis using inv(2) same by (fastforce simp: map_ok_def)
    next
      case False
      then show ?thesis using x hok by (simp add: o) (simp add: h_def SampleInfo_def)
    qed
  qed
  have en: "map (entry m') mp = map (entry m) mp" using same by (auto simp: entry_def)
  have "fst (entry m x) = fst x" for x by (auto simp: entry_def split: prod.splits option.splits)
  then have nn: "fst ` set (map (entry m) mp) = fst ` set mp" by (simp add: image_image)
  have pn: "map (\<lambda>q. info_name (info (the (hist_at m' q)))) ps = map (\<lambda>q. info_name (info (the (hist_at m q)))) ps"
    using inv(3) old by (force simp: o)
  have g: "g_rtc_histogram_map m' = Some (mp @ [(sv_text v, p)])" by (simp add: m'_def)
  have new_entry: "entry m' (sv_text v, p) = (sv_text v, mn, mx, {#})" by (simp add: entry_def o) (simp add: h_def SampleInfo_def hist_bag_def)
  have new_name: "info_name (info (the (hist_at m' p))) = sv_text v" by (simp add: o) (simp add: h_def SampleInfo_def)
  have "met_inv (m', ps @ [p])" using ok inv(3) by (auto simp: met_inv_def m'_def)
  moreover have "abs_metrics (m', ps @ [p]) = (spec_find (sv_text v) mn mx (map (entry m) mp), snd (abs_metrics (m, ps)) @ [sv_text v])"
    using en nn pn fresh g new_entry new_name by (simp add: abs_metrics_def spec_find_def)
  ultimately show ?thesis using e None v by (simp add: terminated_def)
qed

text \<open>Emptying all histograms.\<close>

lemma GetAndReset_hist:
  "RtcHistogram_GetAndReset h = (if samples (info h) = [] then None else Some (info h), RtcHistogram_Reset h)"
  by (simp add: RtcHistogram_GetAndReset_def RtcHistogram_Reset_def SampleInfo_def Let_def)

lemma map_Reset_ok:
  "distinct (map snd mp) \<Longrightarrow> (\<And>n p. (n, p) \<in> set mp \<Longrightarrow> hist_at m p \<noteq> None) \<Longrightarrow>
   \<exists>m'. map_Reset mp m = Some m' \<and> g_rtc_histogram_map m' = g_rtc_histogram_map m \<and>
     (\<forall>q. hist_at m' q = (if q \<in> snd ` set mp then map_option RtcHistogram_Reset (hist_at m q) else hist_at m q))"
proof (induction mp m rule: map_Reset.induct)
  case (2 name p mp m)
  obtain h where h: "hist_at m p = Some h" using "2.prems"(2) by fastforce
  let ?m = "set_hist p (Some (RtcHistogram_Reset h)) m"
  note o = hist_at_set [OF hist_at_bound [OF h], of "Some (RtcHistogram_Reset h)"]
  have "\<And>n q. (n, q) \<in> set mp \<Longrightarrow> hist_at ?m q \<noteq> None" using "2.prems"(2) by (auto simp: o)
  then obtain m' where m': "map_Reset mp ?m = Some m'" "g_rtc_histogram_map m' = g_rtc_histogram_map m"
      "\<forall>q. hist_at m' q = (if q \<in> snd ` set mp then map_option RtcHistogram_Reset (hist_at ?m q) else hist_at ?m q)"
    using "2.IH" [OF h] "2.prems"(1) by auto
  have "p \<notin> snd ` set mp" using "2.prems"(1) by simp
  then have "\<forall>q. hist_at m' q = (if q \<in> snd ` set ((name, p) # mp) then map_option RtcHistogram_Reset (hist_at m q) else hist_at m q)"
    using m'(3) h by (simp add: o)
  then show ?case using m'(1,2) h by simp
qed simp

text \<open>The infos that \<open>GetAndReset\<close> returns.\<close>

definition infos_of :: "metrics \<Rightarrow> (string \<times> nat) list \<Rightarrow> (string \<times> sample_info) list" where
  "infos_of m mp = map (\<lambda>(n, p). (n, info (the (hist_at m p)))) (filter (\<lambda>(n, p). samples (info (the (hist_at m p))) \<noteq> []) mp)"

lemma map_GetAndReset_ok:
  "distinct (map snd mp) \<Longrightarrow> (\<And>n p. (n, p) \<in> set mp \<Longrightarrow> hist_at m p \<noteq> None) \<Longrightarrow>
   \<exists>m'. map_Reset mp m = Some m' \<and> map_GetAndReset mp m = Some (infos_of m mp, m')"
proof (induction mp m rule: map_GetAndReset.induct)
  case (2 name p mp m)
  obtain h where h: "hist_at m p = Some h" using "2.prems"(2) by fastforce
  let ?m = "set_hist p (Some (RtcHistogram_Reset h)) m"
  note o = hist_at_set [OF hist_at_bound [OF h], of "Some (RtcHistogram_Reset h)"]
  have "\<And>n q. (n, q) \<in> set mp \<Longrightarrow> hist_at ?m q \<noteq> None" using "2.prems"(2) by (auto simp: o)
  then obtain m' where m': "map_Reset mp ?m = Some m'" "map_GetAndReset mp ?m = Some (infos_of ?m mp, m')"
    using "2.IH" [OF h GetAndReset_hist [symmetric]] "2.prems"(1) by auto
  have "p \<notin> snd ` set mp" using "2.prems"(1) by simp
  then have "(n, q) \<in> set mp \<Longrightarrow> hist_at ?m q = hist_at m q" for n q by (force simp: o)
  then have "infos_of ?m mp = infos_of m mp" unfolding infos_of_def by (auto intro!: map_cong filter_cong)
  then show ?case using m' h by (auto simp: GetAndReset_hist infos_of_def)
qed (simp add: infos_of_def)

lemma reset_sim:
  assumes inv: "g_rtc_histogram_map m = Some mp" "map_ok mp m" "set ps \<subseteq> snd ` set mp"
  shows "\<exists>m'. map_Reset mp (m\<lparr>g_rtc_histogram_called := True\<rparr>) = Some m' \<and>
    map_GetAndReset mp (m\<lparr>g_rtc_histogram_called := True\<rparr>) = Some (infos_of m mp, m') \<and>
    met_inv (m', ps) \<and> abs_metrics (m', ps) = (map (\<lambda>(n, mn, mx, B). (n, mn, mx, {#})) (map (entry m) mp), snd (abs_metrics (m, ps)))"
proof -
  let ?m = "m\<lparr>g_rtc_histogram_called := True\<rparr>"
  have d: "distinct (map snd mp)" using inv(2) by (simp add: map_ok_def)
  have ex: "hist_at ?m p \<noteq> None" if "(n, p) \<in> set mp" for n p using inv(2) that by (fastforce simp: map_ok_def)
  from map_GetAndReset_ok [OF d, of ?m] ex obtain m' where m': "map_Reset mp ?m = Some m'" "map_GetAndReset mp ?m = Some (infos_of ?m mp, m')" by blast
  from map_Reset_ok [OF d, of ?m] ex m'(1) have g: "g_rtc_histogram_map m' = Some mp"
    and o: "\<And>q. hist_at m' q = (if q \<in> snd ` set mp then map_option RtcHistogram_Reset (hist_at m q) else hist_at m q)" using inv(1) by auto
  have r: "hist_ok (RtcHistogram_Reset h)" "hist_bag (RtcHistogram_Reset h) = {#}" "info_name (info (RtcHistogram_Reset h)) = info_name (info h)"
      "hist_min (RtcHistogram_Reset h) = hist_min h" "hist_max (RtcHistogram_Reset h) = hist_max h" if "hist_ok h" for h
    using that by (simp_all add: hist_ok_def RtcHistogram_Reset_def hist_bag_def counts_ok_def int_range_defs)
  have at: "\<exists>h. hist_at m p = Some h \<and> hist_ok h \<and> info_name (info h) = n \<and> hist_at m' p = Some (RtcHistogram_Reset h)" if "(n, p) \<in> set mp" for n p
    using inv(2) that by (force simp: map_ok_def o)
  have ok: "map_ok mp m'" using inv(2) at r by (fastforce simp: map_ok_def)
  have "entry m' x = (case entry m x of (n, mn, mx, B) \<Rightarrow> (n, mn, mx, {#}))" if "x \<in> set mp" for x
    using at [of "fst x" "snd x"] that r by (auto simp: entry_def split: prod.splits)
  then have en: "map (entry m') mp = map (\<lambda>(n, mn, mx, B). (n, mn, mx, {#})) (map (entry m) mp)" by simp
  have pn: "info_name (info (the (hist_at m' p))) = info_name (info (the (hist_at m p)))" if "p \<in> set ps" for p
    using inv(3) that at r(3) by (force simp: image_iff)
  have "infos_of ?m mp = infos_of m mp" by (simp add: infos_of_def)
  then show ?thesis using m' ok inv(3) en pn g by (auto simp: met_inv_def abs_metrics_def)
qed

lemma add_sim:
  assumes inv: "g_rtc_histogram_map m = Some mp" "map_ok mp m" "set ps \<subseteq> snd ` set mp"
    and i: "i < length ps" and sz: "\<forall>(n, mn, mx, B) \<in> set (map (entry m) mp). int (size B) < int32_max"
  shows "\<exists>m'. HistogramAdd (ps ! i) x m = Some m' \<and> met_inv (m', ps) \<and> abs_metrics (m', ps) =
    (map (\<lambda>(n, mn, mx, B). (n, mn, mx, if n = snd (abs_metrics (m, ps)) ! i then record_sample (max (min x mx) (mn - 1)) B else B)) (map (entry m) mp),
     snd (abs_metrics (m, ps)))"
proof -
  define p where "p = ps ! i"
  have "p \<in> snd ` set mp" using inv(3) i by (auto simp: p_def)
  then obtain n where np: "(n, p) \<in> set mp" by force
  then obtain h where h: "hist_at m p = Some h" "hist_ok h" "info_name (info h) = n" using inv(2) by (fastforce simp: map_ok_def)
  have "entry m (n, p) \<in> set (map (entry m) mp)" using np by simp
  then have "int (size (hist_bag h)) < int32_max" using sz h(1) by (force simp: entry_def)
  from Add_ok [OF h(2) this] obtain ss where s: "RtcHistogram_Add x h = Some (h\<lparr>info := (info h)\<lparr>samples := ss\<rparr>\<rparr>)"
      "hist_ok (h\<lparr>info := (info h)\<lparr>samples := ss\<rparr>\<rparr>)" "bag ss = record_sample (max (min x (hist_max h)) (hist_min h - 1)) (hist_bag h)" by blast
  let ?h = "h\<lparr>info := (info h)\<lparr>samples := ss\<rparr>\<rparr>"
  define m' where "m' = set_hist p (Some ?h) m"
  have o: "hist_at m' q = (if q = p then Some ?h else hist_at m q)" for q unfolding m'_def by (rule hist_at_set [OF hist_at_bound [OF h(1)]])
  have "HistogramAdd p x m = Some m'" using h(1) s(1) by (simp add: HistogramAdd_def m'_def)
  moreover have ok: "map_ok mp m'" using inv(2) s(2) h by (fastforce simp: map_ok_def o)
  moreover have nm: "snd (abs_metrics (m, ps)) ! i = n" using i h by (simp add: abs_metrics_def p_def)
  moreover have "snd (abs_metrics (m', ps)) = snd (abs_metrics (m, ps))" using h(1,3) by (auto simp: abs_metrics_def o)
  moreover have "entry m' y = (case entry m y of (k, mn, mx, B) \<Rightarrow> (k, mn, mx, if k = n then record_sample (max (min x mx) (mn - 1)) B else B))" if y: "y \<in> set mp" for y
  proof -
    obtain k q where kq: "y = (k, q)" by fastforce
    have eq: "k = n \<longleftrightarrow> q = p"
      using inj_onD [of fst "set mp" "(k, q)" "(n, p)"] inj_onD [of snd "set mp" "(k, q)" "(n, p)"] inv(2) np y kq by (auto simp: map_ok_def distinct_map)
    then show ?thesis using kq h(1) s(3) by (auto simp: entry_def o hist_bag_def split: option.splits)
  qed
  moreover have "g_rtc_histogram_map m' = Some mp" using inv(1) by (simp add: m'_def)
  ultimately show ?thesis using inv(1,3) by (auto simp: met_inv_def abs_metrics_def p_def)
qed

lemma entry_called: "entry (m\<lparr>g_rtc_histogram_called := c\<rparr>) = entry m"
  by (simp add: entry_def fun_eq_iff)

lemma abs_called: "abs_metrics (m\<lparr>g_rtc_histogram_called := c\<rparr>, ps) = abs_metrics (m, ps)"
  by (simp add: abs_metrics_def entry_called split: option.split)

lemma met_step_ok:
  assumes inv: "met_inv (m, ps)" and ok: "met_op_ok x (abs_metrics (m, ps))"
  shows "\<exists>s'. met_step x (m, ps) = Some s' \<and> met_inv s' \<and> met_spec x (abs_metrics (m, ps)) (abs_metrics s')"
proof -
  obtain mp where mp: "g_rtc_histogram_map m = Some mp" "map_ok mp m" "set ps \<subseteq> snd ` set mp" using inv by (auto simp: met_inv_def)
  have a: "abs_metrics (m, ps) = (map (entry m) mp, snd (abs_metrics (m, ps)))" using mp(1) by (simp add: abs_metrics_def)
  have len: "length (snd (abs_metrics (m, ps))) = length ps" by (simp add: abs_metrics_def)
  let ?m = "m\<lparr>g_rtc_histogram_called := True\<rparr>"
  have c: "g_rtc_histogram_map ?m = Some mp" "map_ok mp ?m" "map (entry ?m) mp = map (entry m) mp" "snd (abs_metrics (?m, ps)) = snd (abs_metrics (m, ps))"
    using mp(1,2) by (simp_all add: map_ok_def entry_called abs_called)
  note make = find_or_make [OF c(1,2) mp(3)]
  show ?thesis
  proof (cases x)
    case (GetCounts v mn mx b)
    then have o: "terminated v" "in_int32 mn" "mn \<noteq> int32_min" "0 < b" using ok a by simp_all
    have "RtcHistogram (sv_text v) mn mx b = Some \<lparr>hist_min = mn, hist_max = mx, info = SampleInfo (sv_text v) mn mx b\<rparr>"
      using o(4) by (simp add: RtcHistogram_def)
    from make [OF o(1) this o(2,3)] obtain m' p where "GetCountsHistogram v mn mx b mp ?m = Some (m', p)" "met_inv (m', ps @ [p])"
        "abs_metrics (m', ps @ [p]) = (spec_find (sv_text v) mn mx (map (entry m) mp), snd (abs_metrics (m, ps)) @ [sv_text v])"
      unfolding c(3,4) GetCountsHistogram_def by blast
    then show ?thesis using GetCounts mp(1) by (subst a) (simp add: HistogramFactoryGetCounts_def HistogramFactoryGetCountsLinear_def GetMap_def)
  next
    case (GetEnum v b)
    then have o: "terminated v" "0 \<le> b" "b < int32_max" using ok a by simp_all
    have n: "int32 (b + 1) = Some (b + 1)" "in_int32 1" "1 \<noteq> int32_min" using o by (simp_all add: int32_def in_int32_def int_range_defs)
    have "RtcHistogram (sv_text v) 1 b (b + 1) = Some \<lparr>hist_min = 1, hist_max = b, info = SampleInfo (sv_text v) 1 b (b + 1)\<rparr>"
      using o(2) by (simp add: RtcHistogram_def)
    from make [OF o(1) this n(2,3)] obtain m' p where "GetEnumerationHistogram v b mp ?m = Some (m', p)" "met_inv (m', ps @ [p])"
        "abs_metrics (m', ps @ [p]) = (spec_find (sv_text v) 1 b (map (entry m) mp), snd (abs_metrics (m, ps)) @ [sv_text v])"
      unfolding c(3,4) GetEnumerationHistogram_def n(1) Option.bind.bind_lunit by blast
    then show ?thesis using GetEnum mp(1) by (subst a) (simp add: HistogramFactoryGetEnumeration_def GetMap_def)
  next
    case (AddTo i y)
    then have "met_op_ok (AddTo i y) (map (entry m) mp, snd (abs_metrics (m, ps)))" using ok a by simp
    then have i: "i < length ps" "\<forall>(n, mn, mx, B) \<in> set (map (entry m) mp). int (size B) < int32_max" using len by simp_all
    from add_sim [OF mp i, of y] obtain m' where "HistogramAdd (ps ! i) y m = Some m'" "met_inv (m', ps)" "abs_metrics (m', ps) =
      (map (\<lambda>(n, mn, mx, B). (n, mn, mx, if n = snd (abs_metrics (m, ps)) ! i then record_sample (max (min y mx) (mn - 1)) B else B)) (map (entry m) mp),
       snd (abs_metrics (m, ps)))" by blast
    then show ?thesis using AddTo i(1) by (subst a) simp
  next
    case TakeAll
    from reset_sim [OF mp] TakeAll show ?thesis using mp(1) by (subst a) (auto simp: GetAndReset_def GetMap_def)
  next
    case ResetAll
    from reset_sim [OF mp] ResetAll show ?thesis using mp(1) by (subst a) (auto simp: metrics_Reset_def GetMap_def)
  qed
qed

interpretation mets: simulation met_inv abs_metrics met_step met_op_ok met_spec
proof
  fix s x assume "met_inv s" "met_op_ok x (abs_metrics s)"
  then show "\<exists>s'. met_step x s = Some s' \<and> met_inv s' \<and> met_spec x (abs_metrics s) (abs_metrics s')"
    using met_step_ok [of "fst s" "snd s" x] by (cases s) simp
qed

text \<open>What the getters return of a histogram of the session.\<close>

lemma getters:
  assumes inv: "g_rtc_histogram_map m = Some mp" "map_ok mp m" and v: "terminated v" and e: "(sv_text v, mn, mx, B) \<in> set (map (entry m) mp)"
  shows "NumEvents v k m = Some (int (count B k)) \<and> NumSamples v m = Some (int (size B)) \<and> MinSample v m = Some (if B = {#} then -1 else Min (set_mset B))"
proof -
  obtain p where p: "(sv_text v, p) \<in> set mp" "entry m (sv_text v, p) = (sv_text v, mn, mx, B)" using e by (auto simp: entry_def split: option.splits)
  obtain h where h: "hist_at m p = Some h" "hist_ok h" using inv(2) p(1) by (fastforce simp: map_ok_def)
  have B: "B = bag (samples (info h))" using p(2) h(1) by (simp add: entry_def hist_bag_def)
  have ok: "counts_ok (samples (info h))" "int (size B) \<le> int32_max" using h(2) by (simp_all add: hist_ok_def B)
  have "map_of mp (sv_text v) = Some p" using inv(2) p(1) by (simp add: map_ok_def)
  then have f: "find_hist v mp (m\<lparr>g_rtc_histogram_called := True\<rparr>) = Some (Some h)" using v h(1) by (simp add: find_hist_def terminated_def)
  have "NumEvents v k m = Some (int (count B k))"
    using f inv(1) count_bag [OF ok(1), of k] by (simp add: NumEvents_def GetMap_def map_NumEvents_def RtcHistogram_NumEvents_def B)
  moreover have "NumSamples v m = Some (int (size B))"
    using f inv(1) add_counts_ok [OF ok(1), of 0] ok(2) by (simp add: NumSamples_def GetMap_def map_NumSamples_def RtcHistogram_NumSamples_def B)
  moreover have "MinSample v m = Some (if B = {#} then -1 else Min (set_mset B))"
  proof (cases "samples (info h)")
    case Nil
    then show ?thesis using f inv(1) by (simp add: MinSample_def GetMap_def map_MinSample_def RtcHistogram_MinSample_def B)
  next
    case (Cons y ss)
    obtain j n where y: "y = (j, n)" by fastforce
    have "B \<noteq> {#}" "Min (set_mset B) = j" using min_bag [of j n ss] ok(1) Cons y by (auto simp: B counts_ok_Cons)
    then show ?thesis using f inv(1) Cons y by (simp add: MinSample_def GetMap_def map_MinSample_def RtcHistogram_MinSample_def)
  qed
  ultimately show ?thesis by blast
qed

lemma bag_empty: "counts_ok ss \<Longrightarrow> bag ss = {#} \<longleftrightarrow> ss = []"
  by (cases ss rule: bag.cases) (auto simp: counts_ok_Cons)

lemma infos_bags:
  assumes "map_ok mp m"
  shows "map (\<lambda>(n, i). (n, bag (samples i))) (infos_of m mp) = map (\<lambda>(n, mn, mx, B). (n, B)) (filter (\<lambda>(n, mn, mx, B). B \<noteq> {#}) (map (entry m) mp))"
proof -
  have at: "\<exists>h. hist_at m p = Some h \<and> entry m (n, p) = (n, hist_min h, hist_max h, bag (samples (info h))) \<and> (bag (samples (info h)) = {#} \<longleftrightarrow> samples (info h) = [])"
    if "(n, p) \<in> set mp" for n p
    using assms that bag_empty by (fastforce simp: map_ok_def hist_ok_def entry_def hist_bag_def)
  have "map (\<lambda>(n, i). (n, bag (samples i))) (infos_of m ys) = map (\<lambda>(n, mn, mx, B). (n, B)) (filter (\<lambda>(n, mn, mx, B). B \<noteq> {#}) (map (entry m) ys))"
    if "set ys \<subseteq> set mp" for ys
    using that
  proof (induction ys)
    case (Cons y ys)
    obtain n p where y: "y = (n, p)" by fastforce
    then show ?case using Cons at [of n p] by (auto simp: infos_of_def)
  qed (simp add: infos_of_def)
  then show ?thesis by blast
qed

text \<open>
  C32: once metrics are enabled, in any session of requests for histograms, additions through the pointers obtained, and resets, with names that end with a NUL, ranges and numbers of
  buckets that fit in an \<open>int\<close> (the least \<open>int\<close> is no minimum, the number of buckets is positive, a boundary is not negative) and fewer than \<open>2 ^ 31 - 1\<close> samples at a time, no deleted histogram is used and no check fails; equal names share one histogram, with the range given first; every sample is counted
  once, clamped to that range with one value below it, unless it is a value beyond the first 300; and the getters return exactly the counts, their sum and the
  smallest sample (-1 if there is none). \<open>GetAndReset\<close> returns exactly the histograms that have samples, with them.
\<close>

theorem metrics_session:
  assumes "admissible met_op_ok met_spec xs ([], [])"
  shows "\<exists>m0 m ps hs ns. Enable initial_metrics = Some m0 \<and> run met_step xs (m0, []) = Some (m, ps) \<and> spec_run met_spec xs ([], []) (hs, ns) \<and>
    length ps = length ns \<and> (\<forall>i < length ps. \<forall>j < length ps. ps ! i = ps ! j \<longleftrightarrow> ns ! i = ns ! j) \<and>
    (\<forall>v mn mx B k. terminated v \<and> (sv_text v, mn, mx, B) \<in> set hs \<longrightarrow>
       NumEvents v k m = Some (int (count B k)) \<and> NumSamples v m = Some (int (size B)) \<and> MinSample v m = Some (if B = {#} then -1 else Min (set_mset B))) \<and>
    (\<exists>infos m'. GetAndReset m = Some (infos, m') \<and>
       map (\<lambda>(n, i). (n, bag (samples i))) infos = map (\<lambda>(n, mn, mx, B). (n, B)) (filter (\<lambda>(n, mn, mx, B). B \<noteq> {#}) hs))"
proof -
  let ?m0 = "initial_metrics\<lparr>g_rtc_histogram_map := Some []\<rparr>"
  have e: "Enable initial_metrics = Some ?m0" by (simp add: Enable_def initial_metrics_def CreateMap_def)
  have i: "met_inv (?m0, [])" and a0: "abs_metrics (?m0, []) = ([], [])" by (simp_all add: met_inv_def map_ok_def abs_metrics_def)
  from mets.session [OF i, of xs, unfolded a0, OF assms] obtain m ps where r: "run met_step xs (?m0, []) = Some (m, ps)" "met_inv (m, ps)"
      "spec_run met_spec xs ([], []) (abs_metrics (m, ps))" by (metis surj_pair)
  obtain mp where mp: "g_rtc_histogram_map m = Some mp" "map_ok mp m" "set ps \<subseteq> snd ` set mp" using r(2) by (auto simp: met_inv_def)
  define ns where "ns = map (\<lambda>p. info_name (info (the (hist_at m p)))) ps"
  have a: "abs_metrics (m, ps) = (map (entry m) mp, ns)" using mp(1) by (simp add: abs_metrics_def ns_def)
  have name: "(ns ! i, ps ! i) \<in> set mp" if i: "i < length ps" for i
  proof -
    obtain n where n: "(n, ps ! i) \<in> set mp" using mp(3) nth_mem [OF i] by force
    then have "info_name (info (the (hist_at m (ps ! i)))) = n" using mp(2) by (fastforce simp: map_ok_def)
    then show ?thesis using n i by (simp add: ns_def)
  qed
  have "ps ! i = ps ! j \<longleftrightarrow> ns ! i = ns ! j" if "i < length ps" "j < length ps" for i j
  proof -
    have "inj_on fst (set mp)" "inj_on snd (set mp)" using mp(2) by (simp_all add: map_ok_def distinct_map)
    then have "fst (ns ! i, ps ! i) = fst (ns ! j, ps ! j) \<longleftrightarrow> snd (ns ! i, ps ! i) = snd (ns ! j, ps ! j)"
      using name [OF that(1)] name [OF that(2)] by (metis inj_onD)
    then show ?thesis by auto
  qed
  moreover have "\<forall>v mn mx B k. terminated v \<and> (sv_text v, mn, mx, B) \<in> set (map (entry m) mp) \<longrightarrow>
       NumEvents v k m = Some (int (count B k)) \<and> NumSamples v m = Some (int (size B)) \<and> MinSample v m = Some (if B = {#} then -1 else Min (set_mset B))"
    using getters [OF mp(1,2)] by blast
  moreover have "length ps = length ns" by (simp add: ns_def)
  moreover have "\<exists>infos m'. GetAndReset m = Some (infos, m') \<and>
       map (\<lambda>(n, i). (n, bag (samples i))) infos = map (\<lambda>(n, mn, mx, B). (n, B)) (filter (\<lambda>(n, mn, mx, B). B \<noteq> {#}) (map (entry m) mp))"
    using reset_sim [OF mp] infos_bags [OF mp(2)] mp(1) by (auto simp: GetAndReset_def GetMap_def)
  ultimately show ?thesis using e r(1,3) unfolding a
    by (intro exI [of _ ?m0] exI [of _ m] exI [of _ ps] exI [of _ "map (entry m) mp"] exI [of _ ns] conjI) blast+
qed

theorem metrics_session_witness:
  "\<exists>m0 m ps. Enable initial_metrics = Some m0 \<and>
     run met_step [GetCounts \<lparr>sv_text = ''a'', sv_after = []\<rparr> 1 100 50, GetEnum \<lparr>sv_text = ''a'', sv_after = []\<rparr> 7, AddTo 1 1000, AddTo 0 (-5)] (m0, []) = Some (m, ps) \<and>
     NumEvents \<lparr>sv_text = ''a'', sv_after = []\<rparr> 100 m = Some 1 \<and> MinSample \<lparr>sv_text = ''a'', sv_after = []\<rparr> m = Some 0"
proof -
  let ?v = "\<lparr>sv_text = ''a'', sv_after = []\<rparr> :: string_view"
  let ?xs = "[GetCounts ?v 1 100 50, GetEnum ?v 7, AddTo 1 1000, AddTo 0 (-5)]"
  have t: "terminated ?v" by (simp add: terminated_def c_str_def)
  have "admissible met_op_ok met_spec ?xs ([], [])" using t by (simp add: spec_find_def in_int32_def int_range_defs record_sample_def)
  from metrics_session [OF this] obtain m0 m ps hs ns where r: "Enable initial_metrics = Some m0" "run met_step ?xs (m0, []) = Some (m, ps)"
      "spec_run met_spec ?xs ([], []) (hs, ns)" and g: "\<forall>v mn mx B k. terminated v \<and> (sv_text v, mn, mx, B) \<in> set hs \<longrightarrow>
       NumEvents v k m = Some (int (count B k)) \<and> NumSamples v m = Some (int (size B)) \<and> MinSample v m = Some (if B = {#} then -1 else Min (set_mset B))" by blast
  have "hs = [(''a'', 1, 100, {# 0, 100 #})]" using r(3) by (simp add: spec_find_def record_sample_def)
  then show ?thesis using r(1,2) g [rule_format, of ?v 1 100 "{# 0, 100 #}" 100] t by auto
qed

text \<open>
  The map of histograms is searched with \<open>name.data()\<close> as a C string, but a histogram is stored under the view itself. For a view that is not followed by a NUL the second
  request with the same name does not find the first histogram, makes another, which the map does not accept and deletes, and returns the pointer to it: adding a sample through it
  uses a deleted object.
\<close>

theorem metrics_unterminated_name:
  assumes "CHR 0x00 \<notin> set (sv_text v)" "sv_after v \<noteq> []" "hd (sv_after v) \<noteq> CHR 0x00" "0 < b"
  shows "\<exists>m0 m1 p1 m2 p2. Enable initial_metrics = Some m0 \<and> HistogramFactoryGetCounts v mn mx b m0 = Some (m1, Some p1) \<and>
    HistogramFactoryGetCounts v mn mx b m1 = Some (m2, Some p2) \<and> hist_at m1 p1 \<noteq> None \<and> hist_at m2 p2 = None \<and>
    (\<forall>x. HistogramAdd p2 x m2 = None) \<and> (\<forall>k. NumEvents v k m2 = Some 0)"
proof -
  obtain c cs where c: "sv_after v = c # cs" "c \<noteq> CHR 0x00" using assms(2,3) by (cases "sv_after v") auto
  have "x \<noteq> CHR 0x00" if "x \<in> set (sv_text v)" for x using assms(1) that by metis
  from takeWhile_append2 [of "sv_text v" "\<lambda>c. c \<noteq> CHR 0x00", OF this]
  have "c_str v = sv_text v @ c # takeWhile (\<lambda>c. c \<noteq> CHR 0x00) cs" using c by (simp add: c_str_def)
  then have n: "c_str v \<noteq> sv_text v" by simp
  show ?thesis using assms(4) n
    by (simp add: Enable_def initial_metrics_def CreateMap_def HistogramFactoryGetCounts_def HistogramFactoryGetCountsLinear_def GetMap_def GetCountsHistogram_def
        emplace_new_def RtcHistogram_def hist_at_def HistogramAdd_def NumEvents_def map_NumEvents_def find_hist_def Let_def)
qed

theorem metrics_unterminated_name_witness:
  "\<exists>m0 m1 p1 m2 p2. Enable initial_metrics = Some m0 \<and> HistogramFactoryGetCounts \<lparr>sv_text = ''ab'', sv_after = ''c''\<rparr> 1 100 50 m0 = Some (m1, Some p1) \<and>
     HistogramFactoryGetCounts \<lparr>sv_text = ''ab'', sv_after = ''c''\<rparr> 1 100 50 m1 = Some (m2, Some p2) \<and> HistogramAdd p2 3 m2 = None"
  using metrics_unterminated_name [of "\<lparr>sv_text = ''ab'', sv_after = ''c''\<rparr>" 50 1 100] by auto

end
