(* ===== verification/FileGenerators.thy ===== *)
theory FileGenerators
  imports FrameBufferSafety VideoFrame Floating
begin

text \<open>
  \<open>YuvFileGenerator\<close>, \<open>NV12FileGenerator\<close> and \<open>ScrollingImageFrameGenerator\<close> of \<open>src/libs/media/source/capture/custom/octk_frame_generator.cpp\<close>, and
  \<open>ReadI420Buffer\<close> and \<open>ReadNV12Buffer\<close> of \<open>src/libs/media/source/video/octk_frame_utils.cpp\<close>. A file is its bytes and its position; a frame is its buffer and the
  bytes that were written into it, each block with its address. A failed check and the use of a null pointer are \<^term>\<open>None\<close>.
\<close>

section \<open>Reading frames\<close>

record FILE =
  bytes :: "u8 list"
  position :: nat

definition fread :: "nat \<Rightarrow> FILE \<Rightarrow> u8 list \<times> FILE" where
  "fread n f = (let xs = take n (drop (position f) (bytes f)) in (xs, f\<lparr>position := position f + length xs\<rparr>))"

definition rewind :: "FILE \<Rightarrow> FILE" where
  "rewind f = f\<lparr>position := 0\<rparr>"

type_synonym image = "pixel_buffer \<times> (int \<times> u8 list) list"

fun fread_planes :: "(int \<times> nat) list \<Rightarrow> FILE \<Rightarrow> (int \<times> u8 list) list option \<times> FILE" where
  "fread_planes [] f = (Some [], f)"
| "fread_planes ((p, n) # ps) f =
     (let (xs, f) = fread n f
      in if length xs < n then (None, f)
         else let (ys, f) = fread_planes ps f in (map_option ((#) (p, xs)) ys, f))"

definition ReadI420Buffer :: "int \<Rightarrow> int \<Rightarrow> FILE \<Rightarrow> (image option \<times> FILE) option" where
  "ReadI420Buffer wid hei f = do {
     half_width \<leftarrow> half_up wid;
     buffer \<leftarrow> I420Buffer wid hei wid half_width half_width;
     half_height \<leftarrow> half_up hei;
     let size_y = nat wid * nat hei;
     let size_uv = nat half_width * nat half_height;
     y \<leftarrow> dataY buffer; u \<leftarrow> dataU buffer; v \<leftarrow> dataV buffer;
     let (ps, f) = fread_planes [(y, size_y), (u, size_uv), (v, size_uv)] f;
     Some (map_option (\<lambda>ps. (buffer, ps)) ps, f)
   }"

definition ReadNV12Buffer :: "int \<Rightarrow> int \<Rightarrow> FILE \<Rightarrow> (image option \<times> FILE) option" where
  "ReadNV12Buffer wid hei f = do {
     buffer \<leftarrow> NV12_create wid hei;
     m \<leftarrow> mod32 wid 2;
     half_height \<leftarrow> half_up hei;
     let size_y = nat wid * nat hei;
     w \<leftarrow> int32 (wid + m);
     let size_uv = nat w * nat half_height;
     y \<leftarrow> dataY buffer; uv \<leftarrow> UVOffset buffer;
     let (ps, f) = fread_planes [(y, size_y), (uv, size_uv)] f;
     Some (map_option (\<lambda>ps. (buffer, ps)) ps, f)
   }"


section \<open>Generators that read files\<close>

type_synonym read = "int \<Rightarrow> int \<Rightarrow> FILE \<Rightarrow> (image option \<times> FILE) option"

record file_generator =
  file_index :: nat
  frame_index :: u64
  files :: "FILE list"
  fg_width :: int
  fg_height :: int
  frame_display_count :: int
  current_display_count :: int
  last_read_buffer :: "image option"

text \<open>\<open>videoTypeBufferSize\<close> for I420 and NV12; the constructors allocate a block of this size that is never used.\<close>

definition videoTypeBufferSize :: "int \<Rightarrow> int \<Rightarrow> int option" where
  "videoTypeBufferSize wid hei = do {
     dcheck (0 \<le> wid);
     dcheck (0 \<le> hei);
     w \<leftarrow> int32 (wid + 1);
     h \<leftarrow> int32 (hei + 1);
     let half_width = w div 2;
     let half_height = h div 2;
     y \<leftarrow> int32 (wid * hei);
     c \<leftarrow> int32 (half_width * half_height);
     c \<leftarrow> int32 (c * 2);
     int32 (y + c)
   }"

definition FileGenerator :: "FILE list \<Rightarrow> nat \<Rightarrow> nat \<Rightarrow> int \<Rightarrow> file_generator option" where
  "FileGenerator fs wid hei frame_repeat_count = do {
     let w = cast_int32 (int wid);
     let h = cast_int32 (int hei);
     frame_size \<leftarrow> videoTypeBufferSize w h;
     dcheck (0 < wid);
     dcheck (0 < hei);
     dcheck (0 < frame_repeat_count);
     Some \<lparr>file_index = 0, frame_index = - 1, files = fs, fg_width = w, fg_height = h, frame_display_count = frame_repeat_count,
           current_display_count = 0, last_read_buffer = None\<rparr>
   }"

definition readnextFrame :: "read \<Rightarrow> file_generator \<Rightarrow> (bool \<times> file_generator) option" where
  "readnextFrame read g = do {
     let prev_frame_index = frame_index g;
     let prev_file_index = file_index g;
     f \<leftarrow> deref (files g) (file_index g);
     (b, f) \<leftarrow> read (fg_width g) (fg_height g) f;
     let g = g\<lparr>files := (files g)[file_index g := f], last_read_buffer := b, frame_index := frame_index g + 1\<rparr>;
     g \<leftarrow> (if b = None then do {
             let g = g\<lparr>files := (files g)[file_index g := rewind f], frame_index := 0, file_index := (file_index g + 1) mod length (files g)\<rparr>;
             f \<leftarrow> deref (files g) (file_index g);
             (b, f) \<leftarrow> read (fg_width g) (fg_height g) f;
             dcheck (b \<noteq> None);
             Some (g\<lparr>files := (files g)[file_index g := f], last_read_buffer := b\<rparr>)
           } else Some g);
     Some (frame_index g \<noteq> prev_frame_index \<or> file_index g \<noteq> prev_file_index, g)
   }"

definition file_nextFrame :: "read \<Rightarrow> file_generator \<Rightarrow> ((image option \<times> UpdateRect) \<times> file_generator) option" where
  "file_nextFrame read g = do {
     let update_rect = UpdateRect_new 0 0 0 0;
     (update_rect, g) \<leftarrow>
       (if current_display_count g = 0 then do {
          (got_new_frame, g) \<leftarrow> readnextFrame read g;
          Some (if got_new_frame then UpdateRect_new 0 0 (fg_width g) (fg_height g) else update_rect, g)
        } else Some (update_rect, g));
     c \<leftarrow> int32 (current_display_count g + 1);
     let g = g\<lparr>current_display_count := (if frame_display_count g \<le> c then 0 else c)\<rparr>;
     Some ((last_read_buffer g, update_rect), g)
   }"

definition YuvFileGenerator_nextFrame :: "file_generator \<Rightarrow> ((image option \<times> UpdateRect) \<times> file_generator) option" where
  "YuvFileGenerator_nextFrame g = file_nextFrame ReadI420Buffer g"

definition NV12FileGenerator_nextFrame :: "file_generator \<Rightarrow> ((image option \<times> UpdateRect) \<times> file_generator) option" where
  "NV12FileGenerator_nextFrame g = file_nextFrame ReadNV12Buffer g"


section \<open>Scrolling over an image\<close>

type_synonym view = "pixel_buffer \<times> plane list"

record scrolling =
  sc_start_time :: int
  scroll_time :: int
  pause_time :: int
  num_frames :: nat
  target_width :: int
  target_height :: int
  current_frame_num :: nat
  prev_frame_not_scrolled :: bool
  current_source_frame :: "image option \<times> UpdateRect option"
  current_frame :: "view option \<times> UpdateRect option"
  file_gen :: file_generator

definition ScrollingImageFrameGenerator :: "int \<Rightarrow> FILE list \<Rightarrow> nat \<Rightarrow> nat \<Rightarrow> nat \<Rightarrow> nat \<Rightarrow> int \<Rightarrow> int \<Rightarrow> scrolling option" where
  "ScrollingImageFrameGenerator now fs source_width source_height tw th scroll_time_ms pause_time_ms = do {
     g \<leftarrow> FileGenerator fs source_width source_height 1;
     dcheck (0 < length fs);
     dcheck (th \<le> source_height);
     dcheck (tw \<le> source_width);
     dcheck (0 \<le> scroll_time_ms);
     dcheck (0 \<le> pause_time_ms);
     t \<leftarrow> int64 (scroll_time_ms + pause_time_ms);
     dcheck (0 < t);
     Some \<lparr>sc_start_time = now, scroll_time = scroll_time_ms, pause_time = pause_time_ms, num_frames = length fs,
           target_width = cast_int32 (int tw), target_height = cast_int32 (int th), current_frame_num = length fs - 1, prev_frame_not_scrolled = False,
           current_source_frame = (None, None), current_frame = (None, None), file_gen = g\<rparr>
   }"

text \<open>The loop of \<open>updateSourceFrame\<close>, which comes back to the frame after \<open>num_frames\<close> rounds at the latest.\<close>

fun source_loop :: "nat \<Rightarrow> nat \<Rightarrow> UpdateRect \<Rightarrow> scrolling \<Rightarrow> (UpdateRect \<times> scrolling) option" where
  "source_loop 0 frame_num acc_update s = None"
| "source_loop (Suc n) frame_num acc_update s =
     (if current_frame_num s = frame_num then Some (acc_update, s)
      else do {
        ((b, r), g) \<leftarrow> file_nextFrame ReadI420Buffer (file_gen s);
        acc_update \<leftarrow> unionRect acc_update r;
        source_loop n frame_num acc_update
          (s\<lparr>current_source_frame := (b, Some r), file_gen := g, current_frame_num := (current_frame_num s + 1) mod num_frames s\<rparr>)
      })"

definition updateSourceFrame :: "nat \<Rightarrow> scrolling \<Rightarrow> scrolling option" where
  "updateSourceFrame frame_num s = do {
     (acc_update, s) \<leftarrow> source_loop (num_frames s + 1) frame_num (UpdateRect_new 0 0 0 0) s;
     Some (s\<lparr>current_source_frame := (fst (current_source_frame s), Some acc_update)\<rparr>)
   }"

definition pixels_scrolled :: "int \<Rightarrow> rat \<Rightarrow> int option" where
  "pixels_scrolled margin scroll_factor = int32 (trunc (rnd 53 (rnd 53 (of_int margin * scroll_factor) + 1 / 2)))"

definition cropSourceToScrolledImage :: "(yuv_call \<Rightarrow> int) \<Rightarrow> rat \<Rightarrow> scrolling \<Rightarrow> scrolling option" where
  "cropSourceToScrolledImage libyuv scroll_factor s = do {
     (b, _) \<leftarrow> fst (current_source_frame s);
     scroll_margin_x \<leftarrow> int32 (bf_width b - target_width s);
     px \<leftarrow> pixels_scrolled scroll_margin_x scroll_factor;
     scroll_margin_y \<leftarrow> int32 (bf_height b - target_height s);
     py \<leftarrow> pixels_scrolled scroll_margin_y scroll_factor;
     (i420_buffer, _) \<leftarrow> toI420 libyuv b;
     row_y \<leftarrow> int32 (strideY i420_buffer * py);
     offset_y \<leftarrow> int32 (row_y + px);
     px2 \<leftarrow> div32 px 2;
     py2 \<leftarrow> div32 py 2;
     row_u \<leftarrow> int32 (strideU i420_buffer * py2);
     offset_u \<leftarrow> int32 (row_u + px2);
     row_v \<leftarrow> int32 (strideV i420_buffer * py2);
     offset_v \<leftarrow> int32 (row_v + px2);
     r \<leftarrow> snd (current_source_frame s);
     let rect = (if isEmpty r then UpdateRect_new 0 0 0 0 else UpdateRect_new 0 0 (target_width s) (target_height s));
     y \<leftarrow> dataY i420_buffer; u \<leftarrow> dataU i420_buffer; v \<leftarrow> dataV i420_buffer;
     Some (s\<lparr>current_frame := (Some (i420_buffer, [(y + offset_y, strideY i420_buffer), (u + offset_u, strideU i420_buffer), (v + offset_v, strideV i420_buffer)]), Some rect)\<rparr>)
   }"

definition scrolling_nextFrame :: "(yuv_call \<Rightarrow> int) \<Rightarrow> int \<Rightarrow> scrolling \<Rightarrow> ((view option \<times> UpdateRect option) \<times> scrolling) option" where
  "scrolling_nextFrame libyuv now s = do {
     kFrameDisplayTime \<leftarrow> int64 (scroll_time s + pause_time s);
     ms_since_start \<leftarrow> int64 (now - sc_start_time s);
     dcheck (kFrameDisplayTime \<noteq> 0);
     let frame_num = nat ((ms_since_start sdiv kFrameDisplayTime) mod 2 ^ 64) mod num_frames s;
     s \<leftarrow> updateSourceFrame frame_num s;
     let time_into_frame = ms_since_start smod kFrameDisplayTime;
     (scroll_factor, cur_frame_not_scrolled) \<leftarrow>
       (if time_into_frame < scroll_time s then do {
          dcheck (scroll_time s \<noteq> 0);
          Some (rnd 53 (rnd 53 (of_int time_into_frame) / rnd 53 (of_int (scroll_time s))), False)
        } else Some (1, True));
     s \<leftarrow> cropSourceToScrolledImage libyuv scroll_factor s;
     let same_scroll_position = (prev_frame_not_scrolled s \<and> cur_frame_not_scrolled);
     let s = (if same_scroll_position then s
              else s\<lparr>current_frame := (fst (current_frame s), Some (UpdateRect_new 0 0 (target_width s) (target_height s)))\<rparr>);
     let s = s\<lparr>prev_frame_not_scrolled := cur_frame_not_scrolled\<rparr>;
     Some (current_frame s, s)
   }"


section \<open>What the generators rely on\<close>

text \<open>A reader takes the bytes of one frame from the file if there are so many, and gives back nothing otherwise.\<close>

locale frame_reader =
  fixes read :: read
    and frame_bytes :: "int \<Rightarrow> int \<Rightarrow> nat"
    and img :: "int \<Rightarrow> int \<Rightarrow> u8 list \<Rightarrow> image"
  assumes frame_bytes_pos: "size_ok w h \<Longrightarrow> 0 < frame_bytes w h"
    and read_frame: "size_ok w h \<Longrightarrow> position f + frame_bytes w h \<le> length (bytes f) \<Longrightarrow>
      read w h f = Some (Some (img w h (take (frame_bytes w h) (drop (position f) (bytes f)))), f\<lparr>position := position f + frame_bytes w h\<rparr>)"
    and read_short: "size_ok w h \<Longrightarrow> position f \<le> length (bytes f) \<Longrightarrow> length (bytes f) < position f + frame_bytes w h \<Longrightarrow> \<exists>f'. read w h f = Some (None, f') \<and> bytes f' = bytes f"

text \<open>The frames of a file with \<open>s\<close> bytes each, and the number of frames in the first files.\<close>

definition chunks :: "nat \<Rightarrow> u8 list \<Rightarrow> u8 list list" where
  "chunks s xs = map (\<lambda>j. take s (drop (j * s) xs)) [0..<length xs div s]"

definition all_chunks :: "nat \<Rightarrow> u8 list list \<Rightarrow> u8 list list" where
  "all_chunks s xss = concat (map (chunks s) xss)"

definition before :: "nat \<Rightarrow> u8 list list \<Rightarrow> nat \<Rightarrow> nat" where
  "before s xss i = length (all_chunks s (take i xss))"

lemma length_chunks [simp]: "length (chunks s xs) = length xs div s"
  by (simp add: chunks_def)

lemma nth_chunks: "j < length xs div s \<Longrightarrow> chunks s xs ! j = take s (drop (j * s) xs)"
  by (simp add: chunks_def)

lemma all_chunks_split:
  "i < length xss \<Longrightarrow> all_chunks s xss = all_chunks s (take i xss) @ chunks s (xss ! i) @ all_chunks s (drop (Suc i) xss)"
  using id_take_nth_drop [of i xss] unfolding all_chunks_def by (metis append.assoc concat.simps(2) concat_append list.simps(9) map_append)

lemma nth_all_chunks:
  assumes "i < length xss" "j < length (xss ! i) div s"
  shows "before s xss i + j < length (all_chunks s xss)" "all_chunks s xss ! (before s xss i + j) = take s (drop (j * s) (xss ! i))"
  using all_chunks_split [OF assms(1), of s] assms(2) by (simp_all add: before_def nth_append nth_chunks)

lemma before_0 [simp]: "before s xss 0 = 0"
  by (simp add: before_def all_chunks_def)

lemma before_Suc: "i < length xss \<Longrightarrow> before s xss (Suc i) = before s xss i + length (xss ! i) div s"
  by (simp add: before_def all_chunks_def take_Suc_conv_app_nth)

lemma before_all: "before s xss (length xss) = length (all_chunks s xss)"
  by (simp add: before_def)

text \<open>The files of a generator: whole files that hold a frame at least.\<close>

definition files_ok :: "nat \<Rightarrow> FILE list \<Rightarrow> bool" where
  "files_ok s fs \<longleftrightarrow> fs \<noteq> [] \<and> list_all (\<lambda>f. position f = 0 \<and> s \<le> length (bytes f) \<and> length (bytes f) < 2 ^ 63) fs"

text \<open>The state of a generator after \<open>n\<close> frames were read: in file \<open>i\<close> after its frame \<open>j\<close>, with the other files at their beginning.\<close>

definition at_frame :: "nat \<Rightarrow> FILE list \<Rightarrow> nat \<Rightarrow> nat \<Rightarrow> nat \<Rightarrow> file_generator \<Rightarrow> bool" where
  "at_frame s fs n i j g \<longleftrightarrow>
     files g = fs[i := (fs ! i)\<lparr>position := j * s\<rparr>] \<and> file_index g = i \<and> i < length fs \<and>
     frame_index g = of_nat j - 1 \<and> j \<le> length (bytes (fs ! i)) div s \<and> (n = 0 \<longleftrightarrow> j = 0) \<and> (n = 0 \<longrightarrow> i = 0) \<and>
     (before s (map bytes fs) i + j) mod length (all_chunks s (map bytes fs)) = n mod length (all_chunks s (map bytes fs))"

lemma files_okD:
  assumes "files_ok s fs" "i < length fs" "0 < s"
  shows "position (fs ! i) = 0" "s \<le> length (bytes (fs ! i))" "length (bytes (fs ! i)) < 2 ^ 63" "1 \<le> length (bytes (fs ! i)) div s" "(fs ! i)\<lparr>position := 0\<rparr> = fs ! i"
  using assms by (auto simp: files_ok_def list_all_length div_greater_zero_iff Suc_le_eq)

text \<open>Frame \<open>j\<close> of file \<open>i\<close> is the one with number \<open>n\<close>, counted over all files and from the beginning again.\<close>

lemma frame_at:
  assumes "i < length fs" "j < length (bytes (fs ! i)) div s"
    "(before s (map bytes fs) i + j) mod length (all_chunks s (map bytes fs)) = n mod length (all_chunks s (map bytes fs))"
  shows "all_chunks s (map bytes fs) ! (n mod length (all_chunks s (map bytes fs))) = take s (drop (j * s) (bytes (fs ! i)))"
    "(before s (map bytes fs) i + Suc j) mod length (all_chunks s (map bytes fs)) = Suc n mod length (all_chunks s (map bytes fs))"
proof -
  have "before s (map bytes fs) i + j < length (all_chunks s (map bytes fs))"
      "all_chunks s (map bytes fs) ! (before s (map bytes fs) i + j) = take s (drop (j * s) (bytes (fs ! i)))"
    using nth_all_chunks [of i "map bytes fs" j s] assms by simp_all
  then show "all_chunks s (map bytes fs) ! (n mod length (all_chunks s (map bytes fs))) = take s (drop (j * s) (bytes (fs ! i)))"
    using assms(3) by simp
  show "(before s (map bytes fs) i + Suc j) mod length (all_chunks s (map bytes fs)) = Suc n mod length (all_chunks s (map bytes fs))"
    using assms(3) by (metis add_Suc_right mod_Suc_eq)
qed

text \<open>After the last frame of a file comes the first one of the next.\<close>

lemma next_file:
  assumes "i < length fs" "(before s (map bytes fs) i + length (bytes (fs ! i)) div s) mod length (all_chunks s (map bytes fs)) = m"
  shows "(before s (map bytes fs) (Suc i mod length fs) + 0) mod length (all_chunks s (map bytes fs)) = m"
proof (cases "Suc i = length fs")
  case True
  then show ?thesis using assms before_Suc [of i "map bytes fs" s] before_all [of s "map bytes fs"] by simp
next
  case False
  then show ?thesis using assms before_Suc [of i "map bytes fs" s] by simp
qed

lemma two_chunks:
  assumes "i < length fs" "j < length (bytes (fs ! i)) div s"
  shows "Suc j \<le> length (all_chunks s (map bytes fs))"
  using nth_all_chunks(1) [of i "map bytes fs" j s] assms by simp

lemma one_file: "length fs = 1 \<Longrightarrow> length (all_chunks s (map bytes fs)) = length (bytes (fs ! 0)) div s"
  by (cases fs) (auto simp: all_chunks_def)

lemma many_files:
  assumes "files_ok s fs" "0 < s" "1 < length fs"
  shows "1 < length (all_chunks s (map bytes fs))"
  using nth_all_chunks(1) [of 1 "map bytes fs" 0 s] before_Suc [of 0 "map bytes fs" s] files_okD(4) [OF assms(1) _ assms(2), of 0]
    files_okD(4) [OF assms(1) _ assms(2), of 1] assms(3) by (cases "fs = []") simp_all


text \<open>The results of some calls of \<open>nextFrame\<close>.\<close>

fun run_frames :: "read \<Rightarrow> nat \<Rightarrow> file_generator \<Rightarrow> ((image option \<times> UpdateRect) list \<times> file_generator) option" where
  "run_frames read 0 g = Some ([], g)"
| "run_frames read (Suc m) g = do { (rs, g) \<leftarrow> run_frames read m g; (r, g) \<leftarrow> file_nextFrame read g; Some (rs @ [r], g) }"

text \<open>Result \<open>k\<close> of a generator that shows each of the frames \<open>xs\<close> \<open>d\<close> times. The arguments of \<open>UpdateRect\<close> are width, height and offset, in this order.\<close>

definition shown :: "(int \<Rightarrow> int \<Rightarrow> u8 list \<Rightarrow> image) \<Rightarrow> int \<Rightarrow> int \<Rightarrow> u8 list list \<Rightarrow> nat \<Rightarrow> nat \<Rightarrow> image option \<times> UpdateRect" where
  "shown img w h xs d k = (Some (img w h (xs ! (k div d mod length xs))),
     if k mod d = 0 \<and> (k = 0 \<or> 1 < length xs) then UpdateRect_new 0 0 w h else UpdateRect_new 0 0 0 0)"

lemma size_bounds: "size_ok w h \<Longrightarrow> w * h \<le> 16384 * 16384 \<and> (w + 1) div 2 * ((h + 1) div 2) \<le> 8192 * 8192 \<and> 0 \<le> w * h \<and> 0 \<le> (w + 1) div 2 * ((h + 1) div 2)"
  using mult_mono [of w 16384 h 16384] mult_mono [of "(w + 1) div 2" 8192 "(h + 1) div 2" 8192] by (auto simp: size_ok_def)

lemma FileGenerator_new:
  assumes "size_ok w h" "0 < d"
  shows "FileGenerator fs (nat w) (nat h) d = Some \<lparr>file_index = 0, frame_index = - 1, files = fs, fg_width = w, fg_height = h, frame_display_count = d, current_display_count = 0, last_read_buffer = None\<rparr>"
proof -
  have "cast_int32 w = w" "cast_int32 h = h" using assms(1) by (simp_all add: size_ok_def in_int32_def int_range_defs)
  moreover have "\<exists>n. videoTypeBufferSize w h = Some n"
  proof -
    define y c where yc: "y = w * h" "c = (w + 1) div 2 * ((h + 1) div 2)"
    have "0 \<le> y" "y \<le> 16384 * 16384" "0 \<le> c" "c \<le> 8192 * 8192" using size_bounds [OF assms(1)] unfolding yc by simp_all
    then show ?thesis using assms(1) by (simp add: videoTypeBufferSize_def Let_def yc [symmetric] int32_def in_int32_def int_range_defs size_ok_def)
  qed
  ultimately show ?thesis using assms by (auto simp: FileGenerator_def size_ok_def)
qed

text \<open>The state of a generator after \<open>m\<close> calls.\<close>

definition after_calls :: "(int \<Rightarrow> int \<Rightarrow> u8 list \<Rightarrow> image) \<Rightarrow> nat \<Rightarrow> int \<Rightarrow> int \<Rightarrow> FILE list \<Rightarrow> nat \<Rightarrow> nat \<Rightarrow> file_generator \<Rightarrow> bool" where
  "after_calls img s w h fs d m g \<longleftrightarrow>
     (\<exists>i j. at_frame s fs (if m mod d = 0 then m div d else Suc (m div d)) i j g) \<and> fg_width g = w \<and> fg_height g = h \<and> frame_display_count g = int d \<and>
     current_display_count g = int (m mod d) \<and> (m mod d \<noteq> 0 \<longrightarrow> last_read_buffer g = fst (shown img w h (all_chunks s (map bytes fs)) d m))"

lemma count_calls:
  assumes "0 < d"
  shows "Suc m mod d = (if d \<le> m mod d + 1 then 0 else m mod d + 1)" "Suc m div d = (if d \<le> m mod d + 1 then Suc (m div d) else m div d)"
  using assms mod_less_divisor [OF assms, of m] by (auto simp: mod_Suc div_Suc)

context frame_reader
begin

lemma readnext_ok:
  assumes "size_ok w h" "fg_width g = w" "fg_height g = h" "files_ok (frame_bytes w h) fs" "at_frame (frame_bytes w h) fs n i j g"
  shows "\<exists>g' i' j'. readnextFrame read g = Some (n = 0 \<or> 1 < length (all_chunks (frame_bytes w h) (map bytes fs)), g') \<and> at_frame (frame_bytes w h) fs (Suc n) i' j' g' \<and>
    last_read_buffer g' = Some (img w h (all_chunks (frame_bytes w h) (map bytes fs) ! (n mod length (all_chunks (frame_bytes w h) (map bytes fs))))) \<and>
    fg_width g' = w \<and> fg_height g' = h \<and> frame_display_count g' = frame_display_count g \<and> current_display_count g' = current_display_count g"
proof -
  define s where "s = frame_bytes w h"
  define T where "T = length (all_chunks s (map bytes fs))"
  let ?f = "(fs ! i)\<lparr>position := j * s\<rparr>"
  have s: "0 < s" unfolding s_def by (rule frame_bytes_pos [OF assms(1)])
  have g: "files g = fs[i := ?f]" "file_index g = i" "i < length fs" "frame_index g = of_nat j - 1" "j \<le> length (bytes (fs ! i)) div s"
      "n = 0 \<longleftrightarrow> j = 0" "n = 0 \<longrightarrow> i = 0" "(before s (map bytes fs) i + j) mod T = n mod T"
    using assms(5) by (auto simp: at_frame_def s_def T_def)
  have f0: "deref (files g) i = Some ?f" using g(1,3) by simp
  note ok = files_okD [OF assms(4) [folded s_def] _ s]
  show ?thesis
  proof (cases "j < length (bytes (fs ! i)) div s")
    case True
    have "Suc j * s \<le> length (bytes (fs ! i)) div s * s" using True by (intro mult_le_mono1) simp
    then have "Suc j * s \<le> length (bytes (fs ! i))" using div_times_less_eq_dividend [of "length (bytes (fs ! i))" s] by linarith
    then have r: "read w h ?f = Some (Some (img w h (take s (drop (j * s) (bytes (fs ! i))))), ?f\<lparr>position := Suc j * s\<rparr>)"
      using read_frame [OF assms(1), of ?f] by (simp add: s_def [symmetric] add.commute)
    have new: "n = 0 \<or> 1 < T" using two_chunks [OF g(3) True] g(6) by (auto simp: T_def)
    have "readnextFrame read g = Some (True, g\<lparr>files := fs[i := (fs ! i)\<lparr>position := Suc j * s\<rparr>], last_read_buffer := Some (img w h (take s (drop (j * s) (bytes (fs ! i))))), frame_index := of_nat j\<rparr>)"
      unfolding readnextFrame_def Let_def g(2) f0 assms(2,3) using r g(1,4) by simp
    moreover have "at_frame s fs (Suc n) i (Suc j) (g\<lparr>files := fs[i := (fs ! i)\<lparr>position := Suc j * s\<rparr>], last_read_buffer := b, frame_index := of_nat j\<rparr>)" for b
      using g(2,3) True frame_at(2) [OF g(3) True g(8) [unfolded T_def]] by (simp add: at_frame_def)
    moreover note frame_at(1) [OF g(3) True g(8) [unfolded T_def]]
    ultimately show ?thesis unfolding s_def [symmetric] T_def [symmetric] using new assms(2,3) by fastforce
  next
    case False
    then have j: "j = length (bytes (fs ! i)) div s" using g(5) by simp
    have n0: "n \<noteq> 0" using ok(4) [OF g(3)] j g(6) by simp
    define i' where "i' = Suc i mod length fs"
    have i': "i' < length fs" unfolding i'_def using g(3) by (cases fs) simp_all
    have "length (bytes (fs ! i)) < j * s + s" unfolding j using dividend_less_div_times [OF s, of "length (bytes (fs ! i))"] by simp
    moreover have "j * s \<le> length (bytes (fs ! i))" unfolding j by simp
    ultimately obtain f' where r1: "read w h ?f = Some (None, f')" "bytes f' = bytes (fs ! i)" using read_short [OF assms(1), of ?f] by (auto simp: s_def)
    have rw: "rewind f' = fs ! i" using r1(2) ok(1) [OF g(3)] by (simp add: rewind_def)
    have r2: "read w h (fs ! i') = Some (Some (img w h (take s (drop (0 * s) (bytes (fs ! i'))))), (fs ! i')\<lparr>position := 1 * s\<rparr>)"
      using read_frame [OF assms(1), of "fs ! i'"] ok(1,2) [OF i'] by (simp add: s_def [symmetric])
    have w0: "of_nat (j - 1) = (0 :: u64) \<longleftrightarrow> j = 1"
    proof -
      have "j \<le> length (bytes (fs ! i))" unfolding j by simp
      then have "j - 1 < 2 ^ 64" using ok(3) [OF g(3)] by simp
      then have "2 ^ 64 dvd j - 1 \<longleftrightarrow> j = 1" using ok(4) [OF g(3)] nat_dvd_not_less [of "j - 1" "2 ^ 64"] unfolding j [symmetric] by auto
      then show ?thesis by (simp only: word_of_nat_eq_0_iff len_of_numeral_defs) simp
    qed
    have fi: "frame_index g = of_nat (j - 1)" using g(4) ok(4) [OF g(3)] j by (simp add: of_nat_diff)
    have new: "(0 \<noteq> (of_nat (j - 1) :: u64) \<or> i' \<noteq> i) = (n = 0 \<or> 1 < T)"
    proof (cases "length fs = 1")
      case True
      then show ?thesis using w0 one_file [OF True, of s] n0 j g(3) ok(4) [OF g(3)] by (auto simp: T_def i'_def)
    next
      case False
      then have "i' \<noteq> i" unfolding i'_def using g(3) by (cases "Suc i = length fs") auto
      then show ?thesis using many_files [OF assms(4) [folded s_def] s] False g(3) by (auto simp: T_def)
    qed
    let ?g = "g\<lparr>files := fs[i' := (fs ! i')\<lparr>position := 1 * s\<rparr>], last_read_buffer := Some (img w h (take s (drop (0 * s) (bytes (fs ! i'))))), frame_index := 0, file_index := i'\<rparr>"
    have "readnextFrame read g = Some (n = 0 \<or> 1 < T, ?g)"
      unfolding readnextFrame_def Let_def g(2) f0 assms(2,3) fi new [symmetric] using r1(1) r2 rw g(1,3) i' by (simp add: assms(2,3) g(2) i'_def [symmetric])
    moreover have m: "(before s (map bytes fs) i' + 0) mod T = n mod T" unfolding i'_def T_def by (rule next_file [OF g(3)]) (use g(8) j in \<open>simp add: T_def\<close>)
    moreover have j0: "0 < length (bytes (fs ! i')) div s" using ok(4) [OF i'] by simp
    have "at_frame s fs (Suc n) i' (Suc 0) ?g"
      using frame_at(2) [OF i' j0 m [unfolded T_def]] i' ok(4) [OF i'] by (simp add: at_frame_def)
    moreover note frame_at(1) [OF i' j0 m [unfolded T_def]]
    ultimately show ?thesis unfolding s_def [symmetric] T_def [symmetric] using assms(2,3) by fastforce
  qed
qed

lemma nextFrame_ok:
  assumes "size_ok w h" "files_ok (frame_bytes w h) fs" "0 < d" "d < 2 ^ 31" "after_calls img (frame_bytes w h) w h fs d m g"
  shows "\<exists>g'. file_nextFrame read g = Some (shown img w h (all_chunks (frame_bytes w h) (map bytes fs)) d m, g') \<and> after_calls img (frame_bytes w h) w h fs d (Suc m) g'"
proof -
  define xs where "xs = all_chunks (frame_bytes w h) (map bytes fs)"
  obtain i j where g: "at_frame (frame_bytes w h) fs (if m mod d = 0 then m div d else Suc (m div d)) i j g" "fg_width g = w" "fg_height g = h" "frame_display_count g = int d"
      "current_display_count g = int (m mod d)" "m mod d \<noteq> 0 \<longrightarrow> last_read_buffer g = fst (shown img w h xs d m)"
    using assms(5) by (auto simp: after_calls_def xs_def)
  have c: "int32 (int (m mod d) + 1) = Some (int (m mod d + 1))" "int d \<le> int (m mod d + 1) \<longleftrightarrow> d \<le> m mod d + 1"
    using assms(4) mod_less_divisor [OF assms(3), of m] of_nat_le_iff [of d "m mod d + 1", where ?'a = int] by (simp_all add: int32_def in_int32_def int_range_defs)
  have d: "m div d = Suc m div d" if "\<not> d \<le> m mod d + 1" using that count_calls(2) [OF assms(3), of m] by simp
  show ?thesis
  proof (cases "m mod d = 0")
    case True
    obtain g' i' j' where r: "readnextFrame read g = Some (m div d = 0 \<or> 1 < length xs, g')" "at_frame (frame_bytes w h) fs (Suc (m div d)) i' j' g'"
        "last_read_buffer g' = Some (img w h (xs ! (m div d mod length xs)))" "fg_width g' = w" "fg_height g' = h" "frame_display_count g' = int d" "current_display_count g' = 0"
      using readnext_ok [OF assms(1) g(2,3) assms(2), of "m div d" i j] g(1,4,5) True unfolding xs_def by auto
    have z: "m div d = 0 \<longleftrightarrow> m = 0" using True assms(3) by (auto simp: dvd_eq_mod_eq_0 [symmetric])
    let ?g = "g'\<lparr>current_display_count := (if d \<le> m mod d + 1 then 0 else int (m mod d + 1))\<rparr>"
    have "file_nextFrame read g = Some (shown img w h xs d m, ?g)"
      using r(1,3-7) c g(5) True z by (simp add: file_nextFrame_def Let_def shown_def)
    moreover have "after_calls img (frame_bytes w h) w h fs d (Suc m) ?g"
      using r(2-7) count_calls [OF assms(3), of m] True by (auto simp: after_calls_def at_frame_def shown_def xs_def [symmetric])
    ultimately show ?thesis unfolding xs_def by blast
  next
    case False
    let ?g = "g\<lparr>current_display_count := (if d \<le> m mod d + 1 then 0 else int (m mod d + 1))\<rparr>"
    have "file_nextFrame read g = Some (shown img w h xs d m, ?g)"
      using c g(4-6) False by (simp add: file_nextFrame_def Let_def shown_def)
    moreover have "after_calls img (frame_bytes w h) w h fs d (Suc m) ?g"
      using g count_calls [OF assms(3), of m] False by (auto simp: after_calls_def at_frame_def shown_def xs_def [symmetric])
    ultimately show ?thesis unfolding xs_def by blast
  qed
qed

lemma frames_cycle:
  assumes "size_ok w h" "files_ok (frame_bytes w h) fs" "0 < d" "d < 2 ^ 31"
  shows "\<exists>g g'. FileGenerator fs (nat w) (nat h) (int d) = Some g \<and>
    run_frames read m g = Some (map (shown img w h (all_chunks (frame_bytes w h) (map bytes fs)) d) [0..<m], g') \<and> after_calls img (frame_bytes w h) w h fs d m g'"
proof -
  let ?g = "\<lparr>file_index = 0, frame_index = - 1, files = fs, fg_width = w, fg_height = h, frame_display_count = int d, current_display_count = 0, last_read_buffer = None\<rparr>"
  have "0 < length fs" using assms(2) by (simp add: files_ok_def)
  then have "after_calls img (frame_bytes w h) w h fs d 0 ?g"
    using files_okD(5) [OF assms(2) _ frame_bytes_pos [OF assms(1)], of 0] by (auto simp: after_calls_def at_frame_def)
  then have "\<exists>g'. run_frames read m ?g = Some (map (shown img w h (all_chunks (frame_bytes w h) (map bytes fs)) d) [0..<m], g') \<and> after_calls img (frame_bytes w h) w h fs d m g'"
  proof (induction m)
    case (Suc m)
    then obtain g' where g': "run_frames read m ?g = Some (map (shown img w h (all_chunks (frame_bytes w h) (map bytes fs)) d) [0..<m], g')" "after_calls img (frame_bytes w h) w h fs d m g'" by blast
    then show ?case using nextFrame_ok [OF assms g'(2)] by auto
  qed simp
  then show ?thesis using FileGenerator_new [OF assms(1), of "int d" fs] assms(3) by simp
qed

end


section \<open>The two formats\<close>

fun blocks :: "(int \<times> nat) list \<Rightarrow> u8 list \<Rightarrow> (int \<times> u8 list) list" where
  "blocks [] xs = []"
| "blocks ((p, n) # ps) xs = (p, take n xs) # blocks ps (drop n xs)"

lemma fread_planes_ok:
  "position f + sum_list (map snd ps) \<le> length (bytes f) \<Longrightarrow>
   fread_planes ps f = (Some (blocks ps (drop (position f) (bytes f))), f\<lparr>position := position f + sum_list (map snd ps)\<rparr>)"
proof (induction ps arbitrary: f)
  case (Cons q ps)
  obtain p n where q: "q = (p, n)" by fastforce
  have "fread n f = (take n (drop (position f) (bytes f)), f\<lparr>position := position f + n\<rparr>)" using Cons.prems q by (simp add: fread_def)
  then show ?case using Cons.IH [of "f\<lparr>position := position f + n\<rparr>"] Cons.prems q by (simp add: add.commute add.left_commute)
qed simp

lemma fread_bytes: "bytes (snd (fread n f)) = bytes f" "position (snd (fread n f)) = min (position f + n) (max (position f) (length (bytes f)))" "length (fst (fread n f)) = min n (length (bytes f) - position f)"
  by (auto simp: fread_def Let_def)

lemma fread_planes_short:
  "length (bytes f) < position f + sum_list (map snd ps) \<Longrightarrow> position f \<le> length (bytes f) \<Longrightarrow> \<exists>f'. fread_planes ps f = (None, f') \<and> bytes f' = bytes f"
proof (induction ps arbitrary: f)
  case (Cons q ps)
  obtain p n where q: "q = (p, n)" by fastforce
  obtain xs f' where f': "fread n f = (xs, f')" by fastforce
  then have "bytes f' = bytes f" "length xs = min n (length (bytes f) - position f)" "position f' = min (position f + n) (length (bytes f))"
    using fread_bytes [of n f] Cons.prems(2) by simp_all
  then show ?case using Cons.IH [of f'] Cons.prems q f' by (auto simp: Let_def split: prod.split)
qed simp

lemma blocks_take: "sum_list (map snd ps) \<le> n \<Longrightarrow> blocks ps (take n xs) = blocks ps xs"
  by (induction ps xs arbitrary: n rule: blocks.induct) (simp_all add: drop_take min_def)

text \<open>The layout of the planes, and the number of bytes of a frame in a file.\<close>

definition i420_planes :: "int \<Rightarrow> int \<Rightarrow> (int \<times> nat) list" where
  "i420_planes w h = (let y = nat w * nat h; c = nat ((w + 1) div 2) * nat ((h + 1) div 2) in [(0, y), (int y, c), (int (y + c), c)])"

definition nv12_planes :: "int \<Rightarrow> int \<Rightarrow> (int \<times> nat) list" where
  "nv12_planes w h = (let y = nat w * nat h in [(0, y), (int y, nat (2 * ((w + 1) div 2)) * nat ((h + 1) div 2))])"

definition image_length :: "(int \<Rightarrow> int \<Rightarrow> (int \<times> nat) list) \<Rightarrow> int \<Rightarrow> int \<Rightarrow> nat" where
  "image_length planes w h = sum_list (map snd (planes w h))"

definition frame_image :: "format \<Rightarrow> (int \<Rightarrow> int \<Rightarrow> (int \<times> nat) list) \<Rightarrow> int \<Rightarrow> int \<Rightarrow> u8 list \<Rightarrow> image" where
  "frame_image f planes w h xs = (the (create_buffer f w h), blocks (planes w h) xs)"

lemma I420_read:
  assumes "size_ok w h"
  shows "ReadI420Buffer w h f = (let (ps, f) = fread_planes (i420_planes w h) f in Some (map_option (\<lambda>ps. (the (create_buffer kI420 w h), ps)) ps, f))"
proof -
  have s: "0 < w" "w \<le> 16384" "0 < h" "h \<le> 16384" using assms by (simp_all add: size_ok_def)
  obtain b where b: "create_buffer kI420 w h = Some b" "buffer_ok b" "bf_type b = kI420" "bf_width b = w" "bf_height b = h" using create_Some [OF s] by blast
  have u: "half_up w = Some ((w + 1) div 2)" "half_up h = Some ((h + 1) div 2)" using s by (simp_all add: half_up_pos int_range_defs)
  then have I: "I420Buffer w h w ((w + 1) div 2) ((w + 1) div 2) = Some b" using b(1) by (simp add: create_buffer_def I420_create_def)
  then have "strideY b = w" "strideU b = (w + 1) div 2" by (auto simp: I420Buffer_def bind_Some make_buffer_def)
  moreover have "int32 (w * h) = Some (w * h)" "int32 ((w + 1) div 2 * ((h + 1) div 2)) = Some ((w + 1) div 2 * ((h + 1) div 2))"
    using size_bounds [OF assms] by (simp_all add: int32_def in_int32_def int_range_defs)
  ultimately have p: "dataY b = Some 0" "dataU b = Some (w * h)" "dataV b = Some (w * h + (w + 1) div 2 * ((h + 1) div 2))"
    using b(3,5) u(2) by (simp_all add: dataY_def dataU_def dataV_def)
  have "int (nat w * nat h) = w * h" "int (nat ((w + 1) div 2) * nat ((h + 1) div 2)) = (w + 1) div 2 * ((h + 1) div 2)" using s by simp_all
  then show ?thesis using u I p b(1) by (simp add: ReadI420Buffer_def i420_planes_def Let_def)
qed

lemma NV12_read:
  assumes "size_ok w h"
  shows "ReadNV12Buffer w h f = (let (ps, f) = fread_planes (nv12_planes w h) f in Some (map_option (\<lambda>ps. (the (create_buffer kNV12 w h), ps)) ps, f))"
proof -
  have s: "0 < w" "w \<le> 16384" "0 < h" "h \<le> 16384" using assms by (simp_all add: size_ok_def)
  obtain b where b: "create_buffer kNV12 w h = Some b" "buffer_ok b" "bf_type b = kNV12" "bf_width b = w" "bf_height b = h" using create_Some [OF s] by blast
  have u: "half_up h = Some ((h + 1) div 2)" using s by (simp add: half_up_pos int_range_defs)
  have "0 \<le> (w + 1) div 2" "(w + 1) div 2 \<le> 8192" using s by simp_all
  then have m: "mod32 w 2 = Some (w smod 2)" "int32 (w + w smod 2) = Some (2 * ((w + 1) div 2))" using s by (simp_all add: even_up mod32_def int32_def in_int32_def int_range_defs)
  have c: "NV12_create w h = Some b" using b(1) by (simp add: create_buffer_def)
  then have "strideY b = w" by (auto simp: NV12_create_def NV12Buffer_def bind_Some make_buffer_def)
  moreover have "int32 (w * h) = Some (w * h)" using size_bounds [OF assms] by (simp add: int32_def in_int32_def int_range_defs)
  ultimately have p: "dataY b = Some 0" "UVOffset b = Some (w * h)" using b(5) by (simp_all add: dataY_def UVOffset_def)
  have "int (nat w * nat h) = w * h" using s by simp
  then show ?thesis using u m c p b(1) by (simp add: ReadNV12Buffer_def nv12_planes_def Let_def)
qed

text \<open>Both formats read in the same way.\<close>

lemma reader_ok:
  assumes "\<And>w h f. size_ok w h \<Longrightarrow> read w h f = (let (ps, f) = fread_planes (planes w h) f in Some (map_option (\<lambda>ps. (the (create_buffer fmt w h), ps)) ps, f))"
    "\<And>w h. size_ok w h \<Longrightarrow> 0 < image_length planes w h"
  shows "frame_reader read (image_length planes) (frame_image fmt planes)"
proof
  fix w h and f :: FILE
  assume s: "size_ok w h"
  show "0 < image_length planes w h" by (rule assms(2) [OF s])
  show "read w h f = Some (Some (frame_image fmt planes w h (take (image_length planes w h) (drop (position f) (bytes f)))), f\<lparr>position := position f + image_length planes w h\<rparr>)"
    if "position f + image_length planes w h \<le> length (bytes f)"
    using fread_planes_ok [of f "planes w h"] that assms(1) [OF s, of f] by (simp add: frame_image_def image_length_def blocks_take)
  show "\<exists>f'. read w h f = Some (None, f') \<and> bytes f' = bytes f" if "position f \<le> length (bytes f)" "length (bytes f) < position f + image_length planes w h"
    using fread_planes_short [of f "planes w h"] that assms(1) [OF s, of f] by (auto simp: image_length_def)
qed

interpretation yuv_reader: frame_reader ReadI420Buffer "image_length i420_planes" "frame_image kI420 i420_planes"
  by (rule reader_ok [OF I420_read]) (simp_all add: image_length_def i420_planes_def size_ok_def Let_def)

interpretation nv12_reader: frame_reader ReadNV12Buffer "image_length nv12_planes" "frame_image kNV12 nv12_planes"
  by (rule reader_ok [OF NV12_read]) (simp_all add: image_length_def nv12_planes_def size_ok_def Let_def)

text \<open>The bytes of a frame fill the memory of its buffer from the beginning to the end.\<close>

lemma i420_fills: "size_ok w h \<Longrightarrow> int (image_length i420_planes w h) = bf_size (the (create_buffer kI420 w h))"
  using create_Some [of w h kI420] by (auto simp: size_ok_def image_length_def i420_planes_def Let_def buffer_ok_def total_samples_def chroma_defs
    create_buffer_def I420_create_def I420Buffer_def bind_Some make_buffer_def half_up_pos int_range_defs)

lemma nv12_fills: "size_ok w h \<Longrightarrow> int (image_length nv12_planes w h) = bf_size (the (create_buffer kNV12 w h))"
  using create_Some [of w h kNV12] by (auto simp: size_ok_def image_length_def nv12_planes_def Let_def buffer_ok_def total_samples_def chroma_defs
    create_buffer_def NV12_create_def NV12Buffer_def bind_Some make_buffer_def even_up mod32_def int32_def int_range_defs)

text \<open>
  C35: a generator for files that each hold a whole frame at least shows the frames of all files in their order, each as often as asked, and starts again after the last one, for
  ever: no check fails and all files are read from their beginning in every round. Every frame fills the memory of its buffer exactly. The rectangle of a call that reads a new
  frame has width 0 and height 0 (and the frame's size as its offset), so that every update is empty.
\<close>

theorem file_generator_cycle:
  assumes "size_ok w h" "files_ok (image_length i420_planes w h) fs" "0 < d" "d < 2 ^ 31"
  shows "\<exists>g g'. FileGenerator fs (nat w) (nat h) (int d) = Some g \<and>
    run_frames ReadI420Buffer m g = Some (map (shown (frame_image kI420 i420_planes) w h (all_chunks (image_length i420_planes w h) (map bytes fs)) d) [0..<m], g') \<and>
    int (image_length i420_planes w h) = bf_size (the (create_buffer kI420 w h)) \<and>
    isEmpty (snd (shown (frame_image kI420 i420_planes) w h (all_chunks (image_length i420_planes w h) (map bytes fs)) d k))"
proof -
  have "isEmpty (snd (shown (frame_image kI420 i420_planes) w h xs d k))" for xs by (simp add: shown_def isEmpty_def)
  then show ?thesis using yuv_reader.frames_cycle [OF assms, of m] i420_fills [OF assms(1)] by blast
qed

theorem file_generator_cycle_witness:
  "\<exists>g g'. FileGenerator [\<lparr>bytes = [0, 1, 2, 3, 4, 5, 6], position = 0\<rparr>, \<lparr>bytes = [7, 8, 9], position = 0\<rparr>] 1 1 2 = Some g \<and>
     run_frames ReadI420Buffer 3 g = Some (map (shown (frame_image kI420 i420_planes) 1 1 [[0, 1, 2], [3, 4, 5], [7, 8, 9]] 2) [0..<3], g')"
proof -
  let ?fs = "[\<lparr>bytes = [0, 1, 2, 3, 4, 5, 6], position = 0\<rparr>, \<lparr>bytes = [7, 8, 9], position = 0\<rparr>]"
  have s: "image_length i420_planes 1 1 = 3" by (simp add: image_length_def i420_planes_def)
  have c: "all_chunks 3 (map bytes ?fs) = [[0, 1, 2], [3, 4, 5], [7, 8, 9]]" by code_simp
  show ?thesis using file_generator_cycle [of 1 1 ?fs 2 3 0] unfolding s c by (simp add: size_ok_def files_ok_def) blast
qed

lemma nv12_generator_cycle:
  assumes "size_ok w h" "files_ok (image_length nv12_planes w h) fs" "0 < d" "d < 2 ^ 31"
  shows "\<exists>g g'. FileGenerator fs (nat w) (nat h) (int d) = Some g \<and>
    run_frames ReadNV12Buffer m g = Some (map (shown (frame_image kNV12 nv12_planes) w h (all_chunks (image_length nv12_planes w h) (map bytes fs)) d) [0..<m], g')"
  using nv12_reader.frames_cycle [OF assms] by blast


section \<open>The part of the image that is shown\<close>

lemma last_bit_le:
  assumes "0 < x" "x < pow2 (int p + c)"
  shows "last_bit p x \<le> c"
proof (rule ccontr)
  define e where "e = last_bit p x"
  assume "\<not> last_bit p x \<le> c"
  then have "1 \<le> pow2 (e - 1 - c)" by (simp add: pow2_def e_def)
  then have "pow2 (int p + c) * 1 \<le> pow2 (int p + c) * pow2 (e - 1 - c)" by (intro mult_left_mono) simp_all
  also have "\<dots> = pow2 (e + (int p - 1))" using pow2_add [of "int p + c" "e - 1 - c"] by (simp add: algebra_simps)
  also have "\<dots> \<le> x" using last_bit_normal [OF assms(1), of p] by (simp add: e_def)
  finally show False using assms(2) by simp
qed

text \<open>Rounding does not cross a representable number in the middle between two integers.\<close>

lemma rnd_le_half:
  assumes "0 \<le> x" "x \<le> of_int k + 1 / 2" "2 * k + 1 < 2 ^ p"
  shows "rnd p x \<le> of_int k + 1 / 2"
proof (cases "x = 0")
  case False
  define e where "e = last_bit p x"
  have "rat_of_int (2 * k + 1) < rat_of_int (2 ^ p)" using assms(3) by (simp only: of_int_less_iff)
  also have "\<dots> = 2 * pow2 (int p + - 1)" unfolding pow2_add by (simp add: pow2_nat) (simp add: pow2_def)
  finally have "x < pow2 (int p + - 1)" using assms(2) by simp
  then have e: "e + 1 \<le> 0" using last_bit_le [of x p "- 1"] assms(1) False by (simp add: e_def)
  define n where "n = (2 * k + 1) * 2 ^ nat (- (e + 1))"
  have "of_int (2 * k + 1) = of_int n * pow2 (e + 1)" unfolding n_def by (rule int_over_pow2 [OF e])
  moreover have "pow2 (e + 1) = 2 * pow2 e" unfolding pow2_add by (simp add: pow2_def)
  ultimately have k: "of_int k + 1 / 2 = of_int n * pow2 e" by simp
  have "x / pow2 e \<le> of_int n" using assms(2) by (simp only: pos_divide_le_eq [OF pow2_pos] k)
  then have "round_half_even (x / pow2 e) \<le> n" by (rule round_half_even_le_int)
  then have "rat_of_int (round_half_even (x / pow2 e)) \<le> of_int n" by (simp only: of_int_le_iff)
  then have "of_int (round_half_even (x / pow2 e)) * pow2 e \<le> of_int k + 1 / 2" unfolding k by (intro mult_right_mono) simp_all
  then show ?thesis using assms(1) False by (simp add: rnd_def Let_def e_def)
qed (use assms in \<open>simp add: rnd_def\<close>)

lemma pixels_scrolled_ok:
  assumes "0 \<le> m" "m \<le> 16384" "0 \<le> a" "a \<le> 1"
  shows "\<exists>p. pixels_scrolled m a = Some p \<and> 0 \<le> p \<and> p \<le> m"
proof -
  have "rat_of_int m * a \<le> of_int m * 1" using assms by (intro mult_left_mono) simp_all
  then have r: "0 \<le> rnd 53 (of_int m * a)" "rnd 53 (of_int m * a) \<le> of_int m"
    using assms rnd_le_int [of "of_int m * a" m 53] by (simp_all add: rnd_nonneg)
  define y where "y = rnd 53 (rnd 53 (of_int m * a) + 1 / 2)"
  have y: "0 \<le> y" "y \<le> of_int m + 1 / 2"
    using r rnd_le_half [of "rnd 53 (of_int m * a) + 1 / 2" m 53] rnd_nonneg [of "rnd 53 (of_int m * a) + 1 / 2" 53] assms by (simp_all add: y_def)
  then have "0 \<le> trunc y" "trunc y \<le> m" by (simp_all add: trunc_def floor_le_iff)
  then show ?thesis using assms(2) by (simp add: pixels_scrolled_def y_def [symmetric] int32_def in_int32_def int_range_defs)
qed

text \<open>A view of the requested size inside a frame, with an empty update.\<close>

definition view_ok :: "int \<Rightarrow> int \<Rightarrow> view option \<times> UpdateRect option \<Rightarrow> bool" where
  "view_ok tw th r \<longleftrightarrow> (case r of (Some (b, ps), Some rect) \<Rightarrow>
     buffer_ok b \<and> bf_type b = kI420 \<and> list_all2 (\<subseteq>) (map2 samples ps (plane_sizes kI420 (tw, th))) (memory b) \<and> isEmpty rect | _ \<Rightarrow> False)"

lemma view_inside:
  assumes "buffer_ok b" "bf_type b = kI420" "crop_ok b x y w h"
  shows "list_all2 (\<subseteq>) (map2 samples [(strideY b * y + x, strideY b), (strideY b * bf_height b + (strideU b * (y div 2) + x div 2), strideU b),
      (strideY b * bf_height b + strideU b * ((bf_height b + 1) div 2) + (strideV b * (y div 2) + x div 2), strideV b)] (plane_sizes kI420 (w, h))) (memory b)"
proof -
  have c: "0 \<le> x" "0 \<le> y" "w + x \<le> bf_width b" "h + y \<le> bf_height b" using assms(3) by (simp_all add: crop_ok_def)
  have "samples (strideY b * y + x, strideY b) (w, h) \<subseteq> samples (0, strideY b) (bf_width b, bf_height b)"
    by (rule samples_sub [of _ _ y _ x]) (use c in simp_all)
  moreover have "samples (p + (stride * (y div 2) + x div 2), stride) (chroma_cols kI420 w, chroma_rows kI420 h)
      \<subseteq> samples (p, stride) (chroma_cols kI420 (bf_width b), chroma_rows kI420 (bf_height b))" for p stride
    by (rule samples_sub [of _ _ "y div 2" _ "x div 2"]) (use c half_sum in \<open>simp_all add: chroma_defs\<close>)
  ultimately show ?thesis using memory_eq [OF assms(1)] pointers_ok(5) [OF assms(1)] assms(2)
    by (simp add: chroma_rows_def del: samples.simps)
qed

lemma row_offset:
  assumes "in_int32 (d * k)" "0 < d" "0 \<le> y" "y + 1 \<le> k" "0 \<le> c" "c \<le> d"
  shows "int32 (d * y) = Some (d * y)" "int32 (d * y + c) = Some (d * y + c)"
proof -
  have "d * y + c \<le> d * (y + 1)" using assms by (simp add: distrib_left)
  also have "\<dots> \<le> d * k" using assms by (intro mult_left_mono) simp_all
  finally have "d * y + c \<le> int32_max" using assms(1) by (simp add: in_int32_def)
  moreover have "0 \<le> d * y" using assms by simp
  ultimately show "int32 (d * y) = Some (d * y)" "int32 (d * y + c) = Some (d * y + c)" using assms(5) by (simp_all add: int32_def in_int32_def int_range_defs)
qed

lemma crop_scrolled:
  assumes l: "libyuv_accepts libyuv" and b: "fst (current_source_frame s) = Some (b, bs)" "buffer_ok b" "bf_width b \<le> 16384" "bf_height b \<le> 16384"
    and t: "0 < target_width s" "target_width s \<le> bf_width b" "0 < target_height s" "target_height s \<le> bf_height b"
    and a: "0 \<le> a" "a \<le> 1" and r: "snd (current_source_frame s) = Some r" "isEmpty r"
  shows "\<exists>f. cropSourceToScrolledImage libyuv a s = Some (s\<lparr>current_frame := f\<rparr>) \<and> view_ok (target_width s) (target_height s) f"
proof -
  obtain px where px: "pixels_scrolled (bf_width b - target_width s) a = Some px" "0 \<le> px" "px \<le> bf_width b - target_width s"
    using pixels_scrolled_ok [of "bf_width b - target_width s" a] b t a by auto
  obtain py where py: "pixels_scrolled (bf_height b - target_height s) a = Some py" "0 \<le> py" "py \<le> bf_height b - target_height s"
    using pixels_scrolled_ok [of "bf_height b - target_height s" a] b t a by auto
  have m: "int32 (bf_width b - target_width s) = Some (bf_width b - target_width s)" "int32 (bf_height b - target_height s) = Some (bf_height b - target_height s)"
    using b t by (simp_all add: int32_def in_int32_def int_range_defs)
  obtain i cs where i: "toI420 libyuv b = Some (i, cs)" "buffer_ok i" "bf_type i = kI420" "bf_width i = bf_width b" "bf_height i = bf_height b"
    using toI420_ok [OF l b(2-4)] by (auto simp: op_result_def)
  note k = stride_in_range [OF i(2)] and st = buffer_ok_strides [OF i(2)]
  have w: "bf_width i \<le> strideY i" "(bf_width i + 1) div 2 \<le> strideU i" "(bf_width i + 1) div 2 \<le> strideV i" "0 < bf_height i"
    using i(2,3) by (simp_all add: buffer_ok_def chroma_cols_def)
  have h: "0 \<le> py div 2" "py div 2 + 1 \<le> (bf_height i + 1) div 2" "0 \<le> px div 2" "px div 2 \<le> strideU i" "px div 2 \<le> strideV i" "0 \<le> (bf_height i + 1) div 2"
    using px py t i(4,5) w by linarith+
  have d: "div32 px 2 = Some (px div 2)" "div32 py 2 = Some (py div 2)" using px py b t by (simp_all add: div32_nonneg in_int32_def int_range_defs)
  have y: "int32 (strideY i * py) = Some (strideY i * py)" "int32 (strideY i * py + px) = Some (strideY i * py + px)"
    by (rule row_offset [OF k(1) [of "bf_height i"]]; use st px py t i w in simp)+
  have u: "int32 (strideU i * (py div 2)) = Some (strideU i * (py div 2))" "int32 (strideU i * (py div 2) + px div 2) = Some (strideU i * (py div 2) + px div 2)"
    by (rule row_offset [OF k(2) [of "(bf_height i + 1) div 2"]]; use st(2,3) h i(3) in \<open>simp add: chroma_rows_def\<close>)+
  have v: "int32 (strideV i * (py div 2)) = Some (strideV i * (py div 2))" "int32 (strideV i * (py div 2) + px div 2) = Some (strideV i * (py div 2) + px div 2)"
    by (rule row_offset [OF k(3) [of "(bf_height i + 1) div 2"]]; use st(2,3) h i(3) in \<open>simp add: chroma_rows_def\<close>)+
  note p = pointers_ok(1,2,4) [OF i(2)]
  have c: "crop_ok i px py (target_width s) (target_height s)" using px py t i(4,5) by (simp add: crop_ok_def)
  define ps where "ps = [(strideY i * py + px, strideY i), (strideY i * bf_height i + (strideU i * (py div 2) + px div 2), strideU i),
      (strideY i * bf_height i + strideU i * ((bf_height i + 1) div 2) + (strideV i * (py div 2) + px div 2), strideV i)]"
  have "view_ok (target_width s) (target_height s) (Some (i, ps), Some (UpdateRect_new 0 0 0 0))"
    using view_inside [OF i(2,3) c] i(2,3) unfolding ps_def [symmetric] by (simp add: view_ok_def isEmpty_def del: samples.simps plane_sizes.simps)
  moreover have "cropSourceToScrolledImage libyuv a s = Some (s\<lparr>current_frame := (Some (i, ps), Some (UpdateRect_new 0 0 0 0))\<rparr>)"
    using m px(1) py(1) i(1,3) d y u v p r b(1) by (simp add: cropSourceToScrolledImage_def chroma_rows_def Let_def ps_def)
  ultimately show ?thesis by blast
qed

text \<open>The state of the generator after its file generator was called \<open>c\<close> times.\<close>

definition scroll_state :: "FILE list \<Rightarrow> int \<Rightarrow> int \<Rightarrow> nat \<Rightarrow> scrolling \<Rightarrow> bool" where
  "scroll_state fs w h c s \<longleftrightarrow> after_calls (frame_image kI420 i420_planes) (image_length i420_planes w h) w h fs 1 c (file_gen s) \<and> num_frames s = length fs \<and>
     current_frame_num s = (length fs - 1 + c) mod length fs \<and> (0 < c \<longrightarrow> (\<exists>bs. fst (current_source_frame s) = Some (the (create_buffer kI420 w h), bs)))"

definition rounds :: "nat \<Rightarrow> nat \<Rightarrow> nat \<Rightarrow> nat" where
  "rounds n a b = (if a \<le> b then b - a else b + n - a)"

lemma rounds_step: "a < n \<Longrightarrow> b < n \<Longrightarrow> a \<noteq> b \<Longrightarrow> Suc (rounds n (Suc a mod n) b) = rounds n a b"
  by (auto simp: rounds_def mod_Suc)

lemma source_loop_ok:
  assumes "size_ok w h" "files_ok (image_length i420_planes w h) fs" "frame_num < length fs"
  shows "scroll_state fs w h c s \<Longrightarrow> rounds (length fs) (current_frame_num s) frame_num < k \<Longrightarrow>
    \<exists>c' s'. source_loop k frame_num (UpdateRect_new 0 0 0 0) s = Some (UpdateRect_new 0 0 0 0, s') \<and> scroll_state fs w h c' s' \<and> c \<le> c' \<and>
      (current_frame_num s \<noteq> frame_num \<longrightarrow> c < c') \<and> scroll_time s' = scroll_time s \<and> pause_time s' = pause_time s \<and> sc_start_time s' = sc_start_time s \<and>
      target_width s' = target_width s \<and> target_height s' = target_height s"
proof (induction k arbitrary: c s)
  case (Suc k)
  let ?i = "frame_image kI420 i420_planes" and ?n = "image_length i420_planes w h"
  show ?case
  proof (cases "current_frame_num s = frame_num")
    case True
    then show ?thesis using Suc.prems(1) by auto
  next
    case False
    have s: "after_calls ?i ?n w h fs 1 c (file_gen s)" "num_frames s = length fs" "current_frame_num s = (length fs - 1 + c) mod length fs"
      using Suc.prems(1) by (simp_all add: scroll_state_def)
    obtain g' where g': "file_nextFrame ReadI420Buffer (file_gen s) = Some (shown ?i w h (all_chunks ?n (map bytes fs)) 1 c, g')" "after_calls ?i ?n w h fs 1 (Suc c) g'"
      using yuv_reader.nextFrame_ok [OF assms(1,2) _ _ s(1)] by auto
    define x where "x = shown ?i w h (all_chunks ?n (map bytes fs)) 1 c"
    have x: "isEmpty (snd x)" "\<exists>bs. fst x = Some (the (create_buffer kI420 w h), bs)" by (simp_all add: x_def shown_def isEmpty_def frame_image_def)
    define s' where "s' = s\<lparr>current_source_frame := (fst x, Some (snd x)), file_gen := g', current_frame_num := (current_frame_num s + 1) mod num_frames s\<rparr>"
    have "scroll_state fs w h (Suc c) s'" using g'(2) s x(2) by (simp add: scroll_state_def s'_def mod_Suc_eq)
    moreover have "rounds (length fs) (current_frame_num s') frame_num < k"
    proof -
      have "0 < length fs" using assms(3) by linarith
      then have "current_frame_num s < length fs" unfolding s(3) by (rule mod_less_divisor)
      then show ?thesis using rounds_step [of "current_frame_num s" "length fs" frame_num] False assms(3) Suc.prems(2) s(2) by (simp add: s'_def)
    qed
    ultimately obtain c' s'' where r: "source_loop k frame_num (UpdateRect_new 0 0 0 0) s' = Some (UpdateRect_new 0 0 0 0, s'')" "scroll_state fs w h c' s''" "Suc c \<le> c'"
        "scroll_time s'' = scroll_time s'" "pause_time s'' = pause_time s'" "sc_start_time s'' = sc_start_time s'" "target_width s'' = target_width s'" "target_height s'' = target_height s'"
      using Suc.IH by blast
    have "source_loop (Suc k) frame_num (UpdateRect_new 0 0 0 0) s = source_loop k frame_num (UpdateRect_new 0 0 0 0) s'"
    proof -
      have "file_nextFrame ReadI420Buffer (file_gen s) = Some ((fst x, snd x), g')" using g'(1) by (simp only: x_def prod.collapse)
      then show ?thesis using x(1) False by (cases x) (simp add: s'_def unionRect_def)
    qed
    then show ?thesis using r by (auto simp: s'_def)
  qed
qed simp

text \<open>One call of \<open>nextFrame\<close>, if the generator has a frame or is to show one it does not have.\<close>

definition frame_number :: "nat \<Rightarrow> int \<Rightarrow> int \<Rightarrow> nat" where
  "frame_number n period t = nat (t div period) mod n"

lemma scroll_factor_ok:
  assumes "0 \<le> t" "t < k" "k < 2 ^ 53"
  shows "0 \<le> rnd 53 (rnd 53 (of_int t) / rnd 53 (of_int k))" "rnd 53 (rnd 53 (of_int t) / rnd 53 (of_int k)) \<le> 1"
proof -
  have e: "rnd 53 (of_int t) = of_int t" "rnd 53 (of_int k) = of_int k" using assms by (intro rnd_of_int; simp)+
  have "rat_of_int t / of_int k \<le> of_int 1" using assms by (simp add: divide_le_eq)
  then show "0 \<le> rnd 53 (rnd 53 (of_int t) / rnd 53 (of_int k))" "rnd 53 (rnd 53 (of_int t) / rnd 53 (of_int k)) \<le> 1"
    using rnd_le_int [of "rat_of_int t / of_int k" 1 53] assms unfolding e by (simp_all add: rnd_nonneg)
qed

lemma scrolling_nextFrame_ok:
  assumes l: "libyuv_accepts libyuv" and f: "size_ok w h" "files_ok (image_length i420_planes w h) fs" and s: "scroll_state fs w h c s"
    and tg: "0 < target_width s" "target_width s \<le> w" "0 < target_height s" "target_height s \<le> h"
    and p: "0 \<le> scroll_time s" "0 \<le> pause_time s" "0 < scroll_time s + pause_time s" "scroll_time s + pause_time s < 2 ^ 53"
    and n: "0 \<le> now - sc_start_time s" "now - sc_start_time s < 2 ^ 62"
    and nz: "0 < c \<or> frame_number (length fs) (scroll_time s + pause_time s) (now - sc_start_time s) \<noteq> length fs - 1"
  shows "\<exists>r c' s'. scrolling_nextFrame libyuv now s = Some (r, s') \<and> view_ok (target_width s) (target_height s) r \<and> scroll_state fs w h c' s' \<and> 0 < c' \<and>
    scroll_time s' = scroll_time s \<and> pause_time s' = pause_time s \<and> sc_start_time s' = sc_start_time s \<and> target_width s' = target_width s \<and> target_height s' = target_height s"
proof -
  define q where "q = scroll_time s + pause_time s"
  define t where "t = now - sc_start_time s"
  have q: "0 < q" "q < 2 ^ 53" and t: "0 \<le> t" "t < 2 ^ 62" using p n by (simp_all add: q_def t_def)
  have N: "0 < length fs" using f(2) by (simp add: files_ok_def)
  have d: "0 \<le> t div q" "t div q < 2 ^ 62" using q t div_le_self [of q t] by (simp_all add: pos_imp_zdiv_nonneg_iff)
  then have e: "(t sdiv q) mod 18446744073709551616 = t div q" "t smod q = t mod q" using q t by (simp_all add: sdiv_nonneg smod_nonneg)
  define fn where "fn = frame_number (length fs) q t"
  have fn: "fn < length fs" "nat (t div q) mod length fs = fn" using N by (simp_all add: fn_def frame_number_def)
  have cur: "current_frame_num s < length fs" "num_frames s = length fs" "c = 0 \<Longrightarrow> current_frame_num s = length fs - 1" using s N by (simp_all add: scroll_state_def)
  have rn: "rounds (length fs) (current_frame_num s) fn < num_frames s + 1" using cur(1,2) fn(1) by (auto simp: rounds_def)
  obtain c' s1 where s1: "source_loop (num_frames s + 1) fn (UpdateRect_new 0 0 0 0) s = Some (UpdateRect_new 0 0 0 0, s1)" "scroll_state fs w h c' s1" "c \<le> c'"
      "current_frame_num s \<noteq> fn \<longrightarrow> c < c'" "scroll_time s1 = scroll_time s" "pause_time s1 = pause_time s" "sc_start_time s1 = sc_start_time s"
      "target_width s1 = target_width s" "target_height s1 = target_height s"
    using source_loop_ok [OF f fn(1) s rn] by blast
  have c': "0 < c'" using nz cur(3) s1(3,4) by (cases "c = 0") (auto simp: fn_def q_def t_def)
  obtain b bs where src: "fst (current_source_frame s1) = Some (b, bs)" "create_buffer kI420 w h = Some b" "buffer_ok b" "bf_width b = w" "bf_height b = h"
  proof -
    obtain b where b: "create_buffer kI420 w h = Some b" "buffer_ok b" "bf_width b = w" "bf_height b = h" using create_Some [of w h kI420] f(1) by (auto simp: size_ok_def)
    moreover obtain bs where "fst (current_source_frame s1) = Some (the (create_buffer kI420 w h), bs)" using s1(2) c' by (auto simp: scroll_state_def)
    ultimately show ?thesis using that by simp
  qed
  define s2 where "s2 = s1\<lparr>current_source_frame := (fst (current_source_frame s1), Some (UpdateRect_new 0 0 0 0))\<rparr>"
  have u: "updateSourceFrame fn s = Some s2" using s1(1) by (simp add: updateSourceFrame_def s2_def)
  define a where "a = (if t mod q < scroll_time s then (rnd 53 (rnd 53 (of_int (t mod q)) / rnd 53 (of_int (scroll_time s))), False) else (1, True))"
  have a: "0 \<le> fst a" "fst a \<le> 1" using scroll_factor_ok [of "t mod q" "scroll_time s"] p q by (auto simp: a_def q_def)
  obtain fr where fr: "cropSourceToScrolledImage libyuv (fst a) s2 = Some (s2\<lparr>current_frame := fr\<rparr>)" "view_ok (target_width s) (target_height s) fr"
    using crop_scrolled [OF l _ src(3), of s2 bs "fst a" "UpdateRect_new 0 0 0 0"] src tg f(1) a s1(8,9) by (auto simp: s2_def size_ok_def isEmpty_def)
  obtain v rect where v: "fr = (Some v, Some rect)" using fr(2) by (auto simp: view_ok_def split: prod.splits option.splits)
  define fr' where "fr' = (if prev_frame_not_scrolled s2 \<and> snd a then fr else (Some v, Some (UpdateRect_new 0 0 (target_width s) (target_height s))))"
  have ok: "view_ok (target_width s) (target_height s) fr'" using fr(2) v by (auto simp: fr'_def view_ok_def isEmpty_def split: prod.splits)
  define s3 where "s3 = s2\<lparr>current_frame := fr', prev_frame_not_scrolled := snd a\<rparr>"
  have i: "int64 (scroll_time s + pause_time s) = Some q" "int64 (now - sc_start_time s) = Some t"
    using q t by (simp_all add: q_def [symmetric] t_def [symmetric] int64_def in_int64_def int_range_defs)
  have q0: "q \<noteq> 0" "scroll_time s2 = scroll_time s" "target_width s2 = target_width s" "target_height s2 = target_height s"
    using q(1) s1(5,8,9) by (simp_all add: s2_def)
  have z: "scroll_time s \<noteq> 0" if "t mod q < scroll_time s" using that pos_mod_sign [OF q(1), of t] by linarith
  have "scrolling_nextFrame libyuv now s = Some (fr', s3)"
  proof (cases "t mod q < scroll_time s")
    case True
    then show ?thesis unfolding scrolling_nextFrame_def i Let_def using q0 fr(1) u z
      by (simp add: e cur(2) fn(2) a_def s3_def fr'_def v)
  next
    case False
    then show ?thesis unfolding scrolling_nextFrame_def i Let_def using q0 fr(1) u
      by (simp add: e cur(2) fn(2) a_def s3_def fr'_def v)
  qed
  moreover have "scroll_state fs w h c' s3" using s1(2) src by (auto simp: scroll_state_def s3_def s2_def)
  ultimately show ?thesis using ok c' s1 by (auto simp: s3_def s2_def)
qed

fun scroll_run :: "(yuv_call \<Rightarrow> int) \<Rightarrow> int list \<Rightarrow> scrolling \<Rightarrow> ((view option \<times> UpdateRect option) list \<times> scrolling) option" where
  "scroll_run libyuv [] s = Some ([], s)"
| "scroll_run libyuv (t # ts) s = do { (r, s) \<leftarrow> scrolling_nextFrame libyuv t s; (rs, s) \<leftarrow> scroll_run libyuv ts s; Some (r # rs, s) }"

lemma scroll_run_ok:
  assumes l: "libyuv_accepts libyuv" and f: "size_ok w h" "files_ok (image_length i420_planes w h) fs" and s: "scroll_state fs w h c s"
    and tg: "0 < target_width s" "target_width s \<le> w" "0 < target_height s" "target_height s \<le> h"
    and p: "0 \<le> scroll_time s" "0 \<le> pause_time s" "0 < scroll_time s + pause_time s" "scroll_time s + pause_time s < 2 ^ 53"
    and n: "list_all (\<lambda>t. sc_start_time s \<le> t \<and> t < sc_start_time s + 2 ^ 62) ts"
    and nz: "0 < c \<or> ts = [] \<or> frame_number (length fs) (scroll_time s + pause_time s) (hd ts - sc_start_time s) \<noteq> length fs - 1"
  shows "\<exists>rs s'. scroll_run libyuv ts s = Some (rs, s') \<and> length rs = length ts \<and> list_all (view_ok (target_width s) (target_height s)) rs"
  using s tg p n nz
proof (induction ts arbitrary: c s)
  case (Cons t ts)
  obtain r c' s' where r: "scrolling_nextFrame libyuv t s = Some (r, s')" "view_ok (target_width s) (target_height s) r" "scroll_state fs w h c' s'" "0 < c'"
      "scroll_time s' = scroll_time s" "pause_time s' = pause_time s" "sc_start_time s' = sc_start_time s" "target_width s' = target_width s" "target_height s' = target_height s"
    using scrolling_nextFrame_ok [OF l f Cons.prems(1-9), of t] Cons.prems(10,11) by auto
  obtain rs s'' where "scroll_run libyuv ts s' = Some (rs, s'')" "length rs = length ts" "list_all (view_ok (target_width s) (target_height s)) rs"
    using Cons.IH [OF r(3)] Cons.prems(2-10) r(4-9) by auto
  then show ?case using r by auto
qed simp

lemma ScrollingImageFrameGenerator_new:
  assumes "size_ok w h" "size_ok tw th" "tw \<le> w" "th \<le> h" "fs \<noteq> []" "0 \<le> scroll" "0 \<le> pause" "0 < scroll + pause" "scroll + pause < 2 ^ 53"
  shows "\<exists>g. FileGenerator fs (nat w) (nat h) 1 = Some g \<and> ScrollingImageFrameGenerator now fs (nat w) (nat h) (nat tw) (nat th) scroll pause =
    Some \<lparr>sc_start_time = now, scroll_time = scroll, pause_time = pause, num_frames = length fs, target_width = tw, target_height = th, current_frame_num = length fs - 1,
      prev_frame_not_scrolled = False, current_source_frame = (None, None), current_frame = (None, None), file_gen = g\<rparr>"
proof -
  have "int64 (scroll + pause) = Some (scroll + pause)" "cast_int32 tw = tw" "cast_int32 th = th"
    using assms by (simp_all add: int64_def in_int64_def in_int32_def int_range_defs size_ok_def)
  moreover have "nat th \<le> nat h" "nat tw \<le> nat w" "int (nat tw) = tw" "int (nat th) = th" using assms by (simp_all add: size_ok_def)
  ultimately show ?thesis using FileGenerator_new [OF assms(1), of 1 fs] assms(5-8) by (simp add: ScrollingImageFrameGenerator_def)
qed

text \<open>
  A generator that scrolls over the frames of files that each hold a frame at least shows, at any times after its start, a view of the requested size that lies inside the copy of
  the source frame, however the position is rounded; no check fails and no computation overflows. This needs that the first call is not made in the period of the last file.
\<close>

theorem scrolling_session:
  assumes "libyuv_accepts libyuv" "size_ok w h" "size_ok tw th" "tw \<le> w" "th \<le> h" "files_ok (image_length i420_planes w h) fs"
    "0 \<le> scroll" "0 \<le> pause" "0 < scroll + pause" "scroll + pause < 2 ^ 53" "list_all (\<lambda>t. t0 \<le> t \<and> t < t0 + 2 ^ 62) ts"
    "ts = [] \<or> frame_number (length fs) (scroll + pause) (hd ts - t0) \<noteq> length fs - 1"
  shows "\<exists>s rs s'. ScrollingImageFrameGenerator t0 fs (nat w) (nat h) (nat tw) (nat th) scroll pause = Some s \<and> scroll_run libyuv ts s = Some (rs, s') \<and>
    length rs = length ts \<and> list_all (view_ok tw th) rs"
proof -
  have N: "fs \<noteq> []" using assms(6) by (simp add: files_ok_def)
  obtain g where g: "FileGenerator fs (nat w) (nat h) 1 = Some g" "ScrollingImageFrameGenerator t0 fs (nat w) (nat h) (nat tw) (nat th) scroll pause =
    Some \<lparr>sc_start_time = t0, scroll_time = scroll, pause_time = pause, num_frames = length fs, target_width = tw, target_height = th, current_frame_num = length fs - 1,
      prev_frame_not_scrolled = False, current_source_frame = (None, None), current_frame = (None, None), file_gen = g\<rparr>" (is "_ = Some ?s")
    using ScrollingImageFrameGenerator_new [OF assms(2-5) N assms(7-10), of t0] by blast
  have "after_calls (frame_image kI420 i420_planes) (image_length i420_planes w h) w h fs 1 0 g"
    using yuv_reader.frames_cycle [OF assms(2,6), of 1 0] g(1) by auto
  then have "scroll_state fs w h 0 ?s" using N by (simp add: scroll_state_def)
  from scroll_run_ok [OF assms(1,2,6) this, of ts] g(2) assms(3-5,7-12) show ?thesis by (auto simp: size_ok_def)
qed

theorem scrolling_session_witness:
  "\<exists>s rs s'. ScrollingImageFrameGenerator 5 [\<lparr>bytes = replicate 24 1, position = 0\<rparr>, \<lparr>bytes = replicate 24 2, position = 0\<rparr>] 4 4 2 2 10 0 = Some s \<and>
     scroll_run (\<lambda>_. 0) [8, 13, 20] s = Some (rs, s') \<and> length rs = 3"
  using scrolling_session [of "\<lambda>_. 0" 4 4 2 2 "[\<lparr>bytes = replicate 24 1, position = 0\<rparr>, \<lparr>bytes = replicate 24 2, position = 0\<rparr>]" 10 0 5 "[8, 13, 20]"]
  by (auto simp: libyuv_accepts_def size_ok_def files_ok_def image_length_def i420_planes_def Let_def frame_number_def)

text \<open>
  C36: with a single file the frame to show is always the one the generator believes to have, although it never read one: the first call of \<open>nextFrame\<close>, at whatever time, uses a null
  pointer. With more files this happens if the first call is made in the period of the last one.
\<close>

theorem scrolling_null_frame:
  assumes "ScrollingImageFrameGenerator t0 fs w h tw th scroll pause = Some s" "t0 \<le> now" "now < t0 + 2 ^ 62"
    "length fs = 1 \<or> frame_number (length fs) (scroll + pause) (now - t0) = length fs - 1"
  shows "scrolling_nextFrame libyuv now s = None"
proof -
  obtain g q where s: "int64 (scroll + pause) = Some q" "0 < q" "fs \<noteq> []"
      "s = \<lparr>sc_start_time = t0, scroll_time = scroll, pause_time = pause, num_frames = length fs, target_width = cast_int32 (int tw), target_height = cast_int32 (int th),
        current_frame_num = length fs - 1, prev_frame_not_scrolled = False, current_source_frame = (None, None), current_frame = (None, None), file_gen = g\<rparr>"
    using assms(1) by (auto simp: ScrollingImageFrameGenerator_def bind_Some dcheck_eq_Some_iff)
  have q: "q = scroll + pause" using s(1) by (simp add: int64_eq_Some_iff)
  have i: "int64 (now - t0) = Some (now - t0)" using assms(2,3) by (simp add: int64_def in_int64_def int_range_defs)
  have "0 \<le> (now - t0) div q" "(now - t0) div q \<le> now - t0" using div_le_self [OF s(2), of "now - t0"] assms(2) by simp_all
  then have e: "((now - t0) sdiv q) mod 18446744073709551616 = (now - t0) div q" using s(2) assms(2,3) by (simp add: sdiv_nonneg)
  have "nat ((now - t0) div q) mod length fs = length fs - 1" using assms(4) q by (auto simp: frame_number_def)
  then have "updateSourceFrame (nat ((now - t0) div q) mod length fs) s = Some (s\<lparr>current_source_frame := (None, Some (UpdateRect_new 0 0 0 0))\<rparr>)"
    by (simp add: updateSourceFrame_def s(4))
  moreover have "cropSourceToScrolledImage libyuv a (s\<lparr>current_source_frame := (None, Some (UpdateRect_new 0 0 0 0))\<rparr>) = None" for a
    by (simp add: cropSourceToScrolledImage_def)
  ultimately show ?thesis using s(1,2) i e by (simp add: scrolling_nextFrame_def s(4) Let_def split_def)
qed

theorem scrolling_null_frame_witness:
  "\<exists>s. ScrollingImageFrameGenerator 5 [\<lparr>bytes = replicate 24 1, position = 0\<rparr>] 4 4 2 2 10 0 = Some s \<and> scrolling_nextFrame (\<lambda>_. 0) 8 s = None"
  using ScrollingImageFrameGenerator_new [of 4 4 2 2 "[\<lparr>bytes = replicate 24 1, position = 0\<rparr>]" 10 0 5]
    scrolling_null_frame [of 5 "[\<lparr>bytes = replicate 24 1, position = 0\<rparr>]" 4 4 2 2 10 0 _ 8 "\<lambda>_. 0"] by (auto simp: size_ok_def)

end
