(* ===== verification/RandomNumbers.thy ===== *)
theory RandomNumbers
  imports Octk_Prelude
begin

unbundle bit_operations_syntax

text \<open>
  \<open>src/libs/core/source/tools/octk_random.hpp\<close> and \<open>.cpp\<close>: the xorshift generator \<open>Random\<close> on 64-bit words, and the functions that make random strings and
  numbers from a \<open>RandomGenerator\<close>. A generator is a state with a function that fills a block of memory; a byte of a block that was never written is
  \<^term>\<open>None\<close>, and reading one is undefined, like a failed check (\<^term>\<open>None\<close>).
\<close>

section \<open>The pseudo-random generator\<close>

definition Random_new :: "u64 \<Rightarrow> u64 option" where
  "Random_new seed = do { dcheck (seed \<noteq> 0); Some seed }"

definition NextOutput :: "u64 \<Rightarrow> (u64 \<times> u64) option" where
  "NextOutput state = do {
     let state = state XOR drop_bit 12 state;
     let state = state XOR push_bit 25 state;
     let state = state XOR drop_bit 27 state;
     dcheck (state \<noteq> 0);
     Some (state * 2685821657736338717, state)
   }"

definition Rand :: "u32 \<Rightarrow> u64 \<Rightarrow> (u32 \<times> u64) option" where
  "Rand t state = do {
     (x, state) \<leftarrow> NextOutput state;
     let x = (ucast x :: u32);
     let result = (ucast x :: u64) * (ucast t + 1);
     let result = drop_bit 32 result;
     Some (ucast result, state)
   }"

definition Rand_unsigned :: "u32 \<Rightarrow> u32 \<Rightarrow> u64 \<Rightarrow> (u32 \<times> u64) option" where
  "Rand_unsigned low high state = do { dcheck (low \<le> high); (r, state) \<leftarrow> Rand (high - low) state; Some (r + low, state) }"

text \<open>The difference and the sum are computed in 64 bits and converted.\<close>

definition Rand_signed :: "int \<Rightarrow> int \<Rightarrow> u64 \<Rightarrow> (int \<times> u64) option" where
  "Rand_signed low high state = do {
     dcheck (low \<le> high);
     d \<leftarrow> int64 (high - low);
     (r, state) \<leftarrow> Rand (word_of_int d) state;
     v \<leftarrow> int64 (uint r + low);
     Some (cast_int32 v, state)
   }"

definition Rand_bool :: "u64 \<Rightarrow> (bool \<times> u64) option" where
  "Rand_bool state = do { (r, state) \<leftarrow> Rand_signed 0 1 state; Some (r = 1, state) }"


section \<open>Random strings and ids\<close>

type_synonym memory = "u8 option list"

text \<open>\<open>RandomGenerator::Generate\<close>: the block of memory it is given, afterwards, and whether it succeeded.\<close>

type_synonym 'g generate = "'g \<Rightarrow> memory \<Rightarrow> memory \<times> bool \<times> 'g"

text \<open>The default generator: the loop that would fill the memory is commented out, and the length is returned as an \<open>int\<close>.\<close>

definition secure_generate :: "unit generate" where
  "secure_generate g buf = (buf, 0 < cast_int32 (int (length buf)), g)"

definition GetRandom :: "int \<Rightarrow> int \<times> int" where
  "GetRandom seed = (let seed = cast_int32 (seed * 214013 + 2531011) in ((seed div 2 ^ 16) mod 2 ^ 15, seed))"

fun test_fill :: "memory \<Rightarrow> int \<Rightarrow> memory \<times> int" where
  "test_fill [] seed = ([], seed)"
| "test_fill (x # xs) seed = (let (r, seed) = GetRandom seed; (ys, seed) = test_fill xs seed in (Some (word_of_int r) # ys, seed))"

definition test_generate :: "int generate" where
  "test_generate seed buf = (let (buf, seed) = test_fill buf seed in (buf, True, seed))"

definition kBase64 :: "u8 list" where
  "kBase64 = map of_char ''ABCDEFGHIJKLMNOPQRSTUVWXYZabcdefghijklmnopqrstuvwxyz0123456789+/''"

definition kHex :: "u8 list" where
  "kHex = map of_char ''0123456789abcdef''"

definition kUuidDigit17 :: "u8 list" where
  "kUuidDigit17 = map of_char ''89ab''"

text \<open>The byte at an index, which must have been written, and a character of a table for it.\<close>

definition byte_at :: "memory \<Rightarrow> nat \<Rightarrow> u8 option" where
  "byte_at bytes i = do { b \<leftarrow> deref bytes i; b }"

definition pick :: "u8 list \<Rightarrow> nat \<Rightarrow> memory \<Rightarrow> nat \<Rightarrow> u8 option" where
  "pick table table_size bytes i = do { b \<leftarrow> byte_at bytes i; deref table (unat b mod table_size) }"

fun pick_all :: "u8 list \<Rightarrow> nat \<Rightarrow> memory \<Rightarrow> nat list \<Rightarrow> u8 list option" where
  "pick_all table table_size bytes [] = Some []"
| "pick_all table table_size bytes (i # is) = do { c \<leftarrow> pick table table_size bytes i; cs \<leftarrow> pick_all table table_size bytes is; Some (c # cs) }"

definition CreateRandomString_table :: "'g generate \<Rightarrow> 'g \<Rightarrow> nat \<Rightarrow> u8 list \<Rightarrow> nat \<Rightarrow> (bool \<times> u8 list \<times> 'g) option" where
  "CreateRandomString_table generate g len table table_size =
     (if 256 mod table_size \<noteq> 0 then Some (False, [], g)
      else let (bytes, ok, g) = generate g (replicate len None)
           in if \<not> ok then Some (False, [], g)
              else do { str \<leftarrow> pick_all table table_size bytes [0..<len]; Some (True, str, g) })"

definition CreateRandomString_base64 :: "'g generate \<Rightarrow> 'g \<Rightarrow> nat \<Rightarrow> (bool \<times> u8 list \<times> 'g) option" where
  "CreateRandomString_base64 generate g len = CreateRandomString_table generate g len kBase64 64"

definition CreateRandomString :: "'g generate \<Rightarrow> 'g \<Rightarrow> nat \<Rightarrow> (u8 list \<times> 'g) option" where
  "CreateRandomString generate g len = do { (ok, str, g) \<leftarrow> CreateRandomString_base64 generate g len; dcheck ok; Some (str, g) }"

text \<open>A remainder by the size of an empty table is undefined; tables are shorter than \<open>2\<^sup>3\<^sup>1\<close>.\<close>

definition CreateRandomString_view :: "'g generate \<Rightarrow> 'g \<Rightarrow> nat \<Rightarrow> u8 list \<Rightarrow> (bool \<times> u8 list \<times> 'g) option" where
  "CreateRandomString_view generate g len table = (if table = [] then None else CreateRandomString_table generate g len table (length table))"

text \<open>\<open>resize\<close> sets new characters to NUL; the reference \<open>at(0)\<close> of an empty string throws.\<close>

definition CreateRandomData :: "'g generate \<Rightarrow> 'g \<Rightarrow> nat \<Rightarrow> (bool \<times> memory \<times> 'g) option" where
  "CreateRandomData generate g len = (if len = 0 then None else let (buf, ok, g) = generate g (replicate len (Some 0)) in Some (ok, buf, g))"

definition CreateRandomUuid :: "'g generate \<Rightarrow> 'g \<Rightarrow> (u8 list \<times> 'g) option" where
  "CreateRandomUuid generate g = (let (bytes, ok, g) = generate g (replicate 31 None) in do {
     dcheck ok;
     a \<leftarrow> pick_all kHex 16 bytes [0..<8];
     b \<leftarrow> pick_all kHex 16 bytes [8..<12];
     c \<leftarrow> pick_all kHex 16 bytes [12..<15];
     y \<leftarrow> pick kUuidDigit17 4 bytes 15;
     d \<leftarrow> pick_all kHex 16 bytes [16..<19];
     e \<leftarrow> pick_all kHex 16 bytes [19..<31];
     Some (a @ [45] @ b @ [45] @ [52] @ c @ [45] @ [y] @ d @ [45] @ e, g)
   })"

definition CreateRandomId :: "'g generate \<Rightarrow> 'g \<Rightarrow> (u32 \<times> 'g) option" where
  "CreateRandomId generate g = (let (bytes, ok, g) = generate g (replicate 4 None) in do {
     dcheck ok;
     b0 \<leftarrow> byte_at bytes 0; b1 \<leftarrow> byte_at bytes 1; b2 \<leftarrow> byte_at bytes 2; b3 \<leftarrow> byte_at bytes 3;
     Some (ucast b0 OR push_bit 8 (ucast b1) OR push_bit 16 (ucast b2) OR push_bit 24 (ucast b3), g)
   })"

text \<open>C++ leaves the order of the two calls open; the left one comes first here.\<close>

definition CreateRandomId64 :: "'g generate \<Rightarrow> 'g \<Rightarrow> (u64 \<times> 'g) option" where
  "CreateRandomId64 generate g = do {
     (a, g) \<leftarrow> CreateRandomId generate g;
     (b, g) \<leftarrow> CreateRandomId generate g;
     Some (push_bit 32 (ucast a) OR ucast b, g)
   }"

text \<open>
  The loop, which ends when an id is not 0, for a number of tries: \<^term>\<open>None\<close> is undefined behaviour in one of them, \<open>Inl\<close> that all of them gave 0 and the
  loop goes on from the state given, \<open>Inr\<close> that it has ended.
\<close>

fun CreateRandomNonZeroId :: "nat \<Rightarrow> 'g generate \<Rightarrow> 'g \<Rightarrow> ('g + u32 \<times> 'g) option" where
  "CreateRandomNonZeroId 0 generate g = Some (Inl g)"
| "CreateRandomNonZeroId (Suc n) generate g = do {
     (v, g) \<leftarrow> CreateRandomId generate g;
     if v = 0 then CreateRandomNonZeroId n generate g else Some (Inr (v, g))
   }"


section \<open>The generator never gets stuck, and its numbers are in range\<close>

lemma xor_drop_bit_zero:
  fixes x :: "'a :: len word"
  assumes "x XOR drop_bit k x = 0" "0 < k"
  shows "x = 0"
proof -
  have step: "bit x n = bit x (k + n)" for n
    using arg_cong [OF assms(1), of "\<lambda>w. bit w n"] by (simp add: word_bit_simps bit_xor_iff)
  have "\<not> bit x n" for n
  proof (induction "LENGTH('a) - n" arbitrary: n rule: less_induct)
    case less
    show ?case
    proof (cases "n < LENGTH('a)")
      case True
      then have "LENGTH('a) - (k + n) < LENGTH('a) - n" using assms(2) by linarith
      then show ?thesis using less [of "k + n"] step [of n] by blast
    qed simp
  qed
  then show ?thesis by (intro bit_word_eqI) simp
qed

lemma xor_push_bit_zero:
  fixes x :: "'a :: len word"
  assumes "x XOR push_bit k x = 0" "0 < k"
  shows "x = 0"
proof -
  have step: "bit x n = (k \<le> n \<and> bit x (n - k))" if "n < LENGTH('a)" for n
    using arg_cong [OF assms(1), of "\<lambda>w. bit w n"] that by (auto simp: word_bit_simps bit_xor_iff)
  have "n < LENGTH('a) \<Longrightarrow> \<not> bit x n" for n
  proof (induction n rule: less_induct)
    case (less n)
    then show ?case using step [of n] assms(2) less(1) [of "n - k"] by auto
  qed
  then show ?thesis by (intro bit_word_eqI) simp
qed

lemma NextOutput_ok:
  assumes "state \<noteq> 0"
  shows "\<exists>x state'. NextOutput state = Some (x, state') \<and> state' \<noteq> 0"
proof -
  define s1 where "s1 = state XOR drop_bit 12 state"
  define s2 where "s2 = s1 XOR push_bit 25 s1"
  define s3 where "s3 = s2 XOR drop_bit 27 s2"
  have "s1 \<noteq> 0" using xor_drop_bit_zero [of state 12] assms unfolding s1_def by auto
  then have "s2 \<noteq> 0" using xor_push_bit_zero [of s1 25] unfolding s2_def by auto
  then have "s3 \<noteq> 0" using xor_drop_bit_zero [of s2 27] unfolding s3_def by auto
  moreover have "NextOutput state = do { dcheck (s3 \<noteq> 0); Some (s3 * 2685821657736338717, s3) }"
    unfolding NextOutput_def Let_def s1_def s2_def s3_def ..
  ultimately show ?thesis by simp
qed

lemma Rand_ok:
  assumes "state \<noteq> 0"
  shows "\<exists>r state'. Rand t state = Some (r, state') \<and> state' \<noteq> 0 \<and> r \<le> t"
proof -
  obtain x state' where n: "NextOutput state = Some (x, state')" "state' \<noteq> 0" using NextOutput_ok [OF assms] by blast
  let ?x = "ucast x :: u32"
  let ?p = "(ucast ?x :: u64) * (ucast t + 1)"
  have b: "unat ?x < 2 ^ 32" "unat t < 2 ^ 32" using unat_lt2p [of ?x] unat_lt2p [of t] by simp_all
  have u: "unat (ucast ?x :: u64) = unat ?x" "unat (ucast t :: u64) = unat t" by (simp_all add: unat_ucast_up)
  have t1: "unat (ucast t + 1 :: u64) = unat t + 1" using b u by (simp add: unat_word_ariths)
  have "unat ?x * (unat t + 1) < 2 ^ 32 * (unat t + 1)" using b(1) by (intro mult_strict_right_mono) simp_all
  moreover have "2 ^ 32 * (unat t + 1) \<le> 2 ^ 64" using b(2) by simp
  ultimately have lt: "unat ?x * (unat t + 1) < 2 ^ 32 * (unat t + 1)" "unat ?x * (unat t + 1) < 2 ^ 64" by linarith+
  then have "unat ?p = unat ?x * (unat t + 1)" using u t1 by (simp add: unat_word_ariths)
  then have "unat (drop_bit 32 ?p) = unat ?x * (unat t + 1) div 2 ^ 32" using drop_bit_eq_div [of 32 "unat ?p"] by (simp only: unat_drop_bit_eq)
  then have d: "unat (drop_bit 32 ?p) \<le> unat t" using lt(1) by (simp add: less_mult_imp_div_less mult.commute)
  then have "unat (ucast (drop_bit 32 ?p) :: u32) = unat (drop_bit 32 ?p)" using b(2) by (simp add: unsigned_ucast_eq take_bit_nat_eq_self)
  then have "(ucast (drop_bit 32 ?p) :: u32) \<le> t" using d by (simp add: word_le_nat_alt)
  moreover have "Rand t state = Some (ucast (drop_bit 32 ?p), state')" using n(1) by (simp add: Rand_def Let_def)
  ultimately show ?thesis using n(2) by blast
qed

lemma Rand_signed_ok:
  assumes "state \<noteq> 0" "low \<le> high" "in_int32 low" "in_int32 high"
  shows "\<exists>r state'. Rand_signed low high state = Some (r, state') \<and> state' \<noteq> 0 \<and> low \<le> r \<and> r \<le> high"
proof -
  define d where "d = high - low"
  have d: "0 \<le> d" "d < 2 ^ 32" using assms by (simp_all add: d_def in_int32_def int_range_defs)
  obtain r state' where r: "Rand (word_of_int d) state = Some (r, state')" "state' \<noteq> 0" "r \<le> word_of_int d" using Rand_ok [OF assms(1)] by blast
  have "uint r \<le> uint (word_of_int d :: u32)" using r(3) by (simp add: word_le_def)
  also have "\<dots> = d" using d by (simp add: uint_word_of_int)
  finally have u: "0 \<le> uint r" "uint r \<le> d" by simp_all
  have i: "int64 (high - low) = Some d" "int64 (uint r + low) = Some (uint r + low)" "in_int32 (uint r + low)"
    using u d assms by (auto simp: d_def int64_def in_int64_def in_int32_def int_range_defs simp del: uint_ge_0 unsigned_greater_eq)
  then have "Rand_signed low high state = Some (uint r + low, state')"
    using assms(2) r(1) d by (simp add: Rand_signed_def int_range_defs)
  then show ?thesis using r(2) u by (auto simp: d_def)
qed

lemma Rand_unsigned_ok:
  assumes "state \<noteq> 0" "low \<le> high"
  shows "\<exists>r state'. Rand_unsigned low high state = Some (r, state') \<and> state' \<noteq> 0 \<and> low \<le> r \<and> r \<le> high"
proof -
  obtain r state' where r: "Rand (high - low) state = Some (r, state')" "state' \<noteq> 0" "r \<le> high - low" using Rand_ok [OF assms(1)] by blast
  have "unat r \<le> unat high - unat low" using r(3) assms(2) by (simp add: word_le_nat_alt unat_sub)
  then have "unat (r + low) = unat r + unat low" using assms(2) unat_lt2p [of high] by (simp add: word_le_nat_alt unat_word_ariths)
  then have "low \<le> r + low" "r + low \<le> high" using \<open>unat r \<le> unat high - unat low\<close> assms(2) by (simp_all add: word_le_nat_alt)
  then show ?thesis using r assms(2) by (simp add: Rand_unsigned_def)
qed

lemma Rand_bool_ok: "state \<noteq> 0 \<Longrightarrow> \<exists>b state'. Rand_bool state = Some (b, state') \<and> state' \<noteq> 0"
  using Rand_signed_ok [of state 0 1] by (auto simp: Rand_bool_def in_int32_def int_range_defs)

text \<open>Any number of draws, each with its bounds.\<close>

fun draws :: "(int \<times> int) list \<Rightarrow> u64 \<Rightarrow> (int list \<times> u64) option" where
  "draws [] state = Some ([], state)"
| "draws ((low, high) # bs) state = do { (r, state) \<leftarrow> Rand_signed low high state; (rs, state) \<leftarrow> draws bs state; Some (r # rs, state) }"

text \<open>
  C39: a \<open>Random\<close> with a seed other than 0 never reaches the state 0, so that its check never fails, and every number it gives for an interval lies in the interval,
  for intervals of 32-bit integers of any size.
\<close>

theorem random_in_range:
  assumes "seed \<noteq> 0" "list_all (\<lambda>(low, high). low \<le> high \<and> in_int32 low \<and> in_int32 high) bs"
  shows "\<exists>state rs state'. Random_new seed = Some state \<and> draws bs state = Some (rs, state') \<and> state' \<noteq> 0 \<and> list_all2 (\<lambda>(low, high) r. low \<le> r \<and> r \<le> high) bs rs"
proof -
  have "\<exists>rs state'. draws bs state = Some (rs, state') \<and> state' \<noteq> 0 \<and> list_all2 (\<lambda>(low, high) r. low \<le> r \<and> r \<le> high) bs rs" if "state \<noteq> 0" for state
    using that assms(2)
  proof (induction bs arbitrary: state)
    case (Cons b bs)
    obtain low high where b: "b = (low, high)" by fastforce
    then have ok: "low \<le> high" "in_int32 low" "in_int32 high" "list_all (\<lambda>(low, high). low \<le> high \<and> in_int32 low \<and> in_int32 high) bs" using Cons.prems by simp_all
    obtain r s where r: "Rand_signed low high state = Some (r, s)" "s \<noteq> 0" "low \<le> r" "r \<le> high" using Rand_signed_ok [OF Cons.prems(1) ok(1-3)] by blast
    obtain rs s' where "draws bs s = Some (rs, s')" "s' \<noteq> 0" "list_all2 (\<lambda>(low, high) r. low \<le> r \<and> r \<le> high) bs rs" using Cons.IH [OF r(2) ok(4)] by blast
    then show ?case using r b by simp
  qed simp
  then show ?thesis using assms(1) by (simp add: Random_new_def)
qed

theorem random_in_range_witness:
  "\<exists>state rs state'. Random_new 1234 = Some state \<and> draws [(0, 3), (- 2147483648, 2147483647)] state = Some (rs, state') \<and> length rs = 2"
  using random_in_range [of 1234 "[(0, 3), (- 2147483648, 2147483647)]"] by (auto simp: in_int32_def int_range_defs dest: list_all2_lengthD)


section \<open>Random strings of a generator that fills its memory\<close>

text \<open>What the functions rely on of \<open>RandomGenerator::Generate\<close>: it succeeds and writes every byte of the memory it is given.\<close>

locale random_generator =
  fixes generate :: "'g generate"
  assumes length_generate [simp]: "length (fst (generate g buf)) = length buf"
    and generate_fills: "None \<notin> set (fst (generate g buf))"
    and generate_ok [simp]: "fst (snd (generate g buf))"
begin

lemma byte_at_generate: "i < n \<Longrightarrow> \<exists>b. byte_at (fst (generate g (replicate n x))) i = Some b"
  using generate_fills [of g "replicate n x"] by (auto simp: byte_at_def deref_def in_set_conv_nth)

lemma pick_generate:
  assumes "i < n" "0 < k" "k \<le> length table"
  shows "\<exists>c. pick table k (fst (generate g (replicate n x))) i = Some c \<and> c \<in> set table"
proof -
  obtain b where b: "byte_at (fst (generate g (replicate n x))) i = Some b" using byte_at_generate [OF assms(1)] by blast
  have "unat b mod k < length table" using assms(2,3) mod_less_divisor [of k "unat b"] by linarith
  then show ?thesis using b by (simp add: pick_def deref_def)
qed

lemma pick_all_generate:
  assumes "list_all (\<lambda>i. i < n) is" "0 < k" "k \<le> length table"
  shows "\<exists>cs. pick_all table k (fst (generate g (replicate n x))) is = Some cs \<and> length cs = length is \<and> set cs \<subseteq> set table"
  using assms(1)
proof (induction "is")
  case (Cons i js)
  obtain c where "pick table k (fst (generate g (replicate n x))) i = Some c" "c \<in> set table" using pick_generate [of i n k table g x] Cons.prems assms(2,3) by auto
  then show ?case using Cons by auto
qed simp

lemma CreateRandomString_table_ok:
  assumes "256 mod length table = 0" "table \<noteq> []"
  shows "\<exists>str. CreateRandomString_table generate g n table (length table) = Some (True, str, snd (snd (generate g (replicate n None)))) \<and> length str = n \<and> set str \<subseteq> set table"
proof -
  obtain cs where "pick_all table (length table) (fst (generate g (replicate n None))) [0..<n] = Some cs" "length cs = n" "set cs \<subseteq> set table"
    using pick_all_generate [of n "[0..<n]" "length table" table g None] assms(2) by (auto simp: list_all_iff)
  then show ?thesis using assms(1) by (simp add: CreateRandomString_table_def split_def Let_def)
qed

end


lemma test_fill_ok: "length (fst (test_fill buf seed)) = length buf \<and> None \<notin> set (fst (test_fill buf seed))"
  by (induction buf arbitrary: seed) (simp_all add: split_def Let_def)

interpretation test_rng: random_generator test_generate
  by unfold_locales (use test_fill_ok in \<open>auto simp: test_generate_def split_def Let_def\<close>)

text \<open>The form of a version 4 UUID: a hexadecimal digit for every x, one of 8, 9, a and b for y, and the other characters as they are.\<close>

definition uuid_char :: "char \<Rightarrow> u8 \<Rightarrow> bool" where
  "uuid_char p c \<longleftrightarrow> (if p = CHR ''x'' then c \<in> set kHex else if p = CHR ''y'' then c \<in> set kUuidDigit17 else c = of_char p)"

context random_generator
begin

lemma list_all2_x: "set cs \<subseteq> set kHex \<Longrightarrow> length cs = n \<Longrightarrow> list_all2 uuid_char (replicate n (CHR ''x'')) cs"
  by (auto simp: list_all2_conv_all_nth uuid_char_def)

lemma uuid_ok:
  "\<exists>str. CreateRandomUuid generate g = Some (str, snd (snd (generate g (replicate 31 None)))) \<and> list_all2 uuid_char ''xxxxxxxx-xxxx-4xxx-yxxx-xxxxxxxxxxxx'' str"
proof -
  let ?m = "fst (generate g (replicate 31 None))"
  have hex: "\<exists>cs. pick_all kHex 16 ?m is = Some cs \<and> length cs = length is \<and> set cs \<subseteq> set kHex" if "list_all (\<lambda>i. i < 31) is" for "is"
    using pick_all_generate [OF that, of 16 kHex g None] by (simp add: kHex_def)
  obtain a where a: "pick_all kHex 16 ?m [0..<8] = Some a" "length a = 8" "set a \<subseteq> set kHex" using hex [of "[0..<8]"] by (auto simp: list_all_iff)
  obtain b where b: "pick_all kHex 16 ?m [8..<12] = Some b" "length b = 4" "set b \<subseteq> set kHex" using hex [of "[8..<12]"] by (auto simp: list_all_iff)
  obtain c where c: "pick_all kHex 16 ?m [12..<15] = Some c" "length c = 3" "set c \<subseteq> set kHex" using hex [of "[12..<15]"] by (auto simp: list_all_iff)
  obtain y where y: "pick kUuidDigit17 4 ?m 15 = Some y" "y \<in> set kUuidDigit17" using pick_generate [of 15 31 4 kUuidDigit17 g None] by (auto simp: kUuidDigit17_def)
  obtain d where d: "pick_all kHex 16 ?m [16..<19] = Some d" "length d = 3" "set d \<subseteq> set kHex" using hex [of "[16..<19]"] by (auto simp: list_all_iff)
  obtain e where e: "pick_all kHex 16 ?m [19..<31] = Some e" "length e = 12" "set e \<subseteq> set kHex" using hex [of "[19..<31]"] by (auto simp: list_all_iff)
  let ?x = "\<lambda>n. replicate n (CHR ''x'')"
  have "list_all2 uuid_char (?x 8 @ ''-'' @ ?x 4 @ ''-'' @ ''4'' @ ?x 3 @ ''-'' @ ''y'' @ ?x 3 @ ''-'' @ ?x 12) (a @ [45] @ b @ [45] @ [52] @ c @ [45] @ [y] @ d @ [45] @ e)"
    by (intro list_all2_appendI list_all2_x a b c d e) (simp_all add: uuid_char_def y(2))
  moreover have "?x 8 @ ''-'' @ ?x 4 @ ''-'' @ ''4'' @ ?x 3 @ ''-'' @ ''y'' @ ?x 3 @ ''-'' @ ?x 12 = ''xxxxxxxx-xxxx-4xxx-yxxx-xxxxxxxxxxxx''" by code_simp
  moreover have "CreateRandomUuid generate g = Some (a @ [45] @ b @ [45] @ [52] @ c @ [45] @ [y] @ d @ [45] @ e, snd (snd (generate g (replicate 31 None))))"
    using a(1) b(1) c(1) y(1) d(1) e(1) by (simp add: CreateRandomUuid_def split_def Let_def del: upt_rec_numeral)
  ultimately show ?thesis by metis
qed

lemma id_ok: "\<exists>v. CreateRandomId generate g = Some (v, snd (snd (generate g (replicate 4 None))))"
  using byte_at_generate [of 0 4 g None] byte_at_generate [of 1 4 g None] byte_at_generate [of 2 4 g None] byte_at_generate [of 3 4 g None]
  by (auto simp: CreateRandomId_def split_def Let_def)

end

text \<open>In test mode the strings have the right form for every state of the generator, and nothing fails.\<close>

lemma test_strings:
  "(\<exists>str g'. CreateRandomUuid test_generate g = Some (str, g') \<and> list_all2 uuid_char ''xxxxxxxx-xxxx-4xxx-yxxx-xxxxxxxxxxxx'' str) \<and>
   (\<exists>str g'. CreateRandomString test_generate g n = Some (str, g') \<and> length str = n \<and> set str \<subseteq> set kBase64) \<and>
   (\<exists>v g'. CreateRandomId test_generate g = Some (v, g'))"
proof (intro conjI)
  have k: "length kBase64 = 64" "kBase64 \<noteq> []" by (simp_all add: kBase64_def)
  show "\<exists>str g'. CreateRandomString test_generate g n = Some (str, g') \<and> length str = n \<and> set str \<subseteq> set kBase64"
    using test_rng.CreateRandomString_table_ok [of kBase64 g n] k by (auto simp: CreateRandomString_def CreateRandomString_base64_def)
qed (use test_rng.uuid_ok [of g] test_rng.id_ok [of g] in \<open>fastforce+\<close>)


section \<open>Strings and ids from the bytes of any generator\<close>

text \<open>A template in which every x and y takes the next byte.\<close>

fun fill_template :: "string \<Rightarrow> u8 list \<Rightarrow> u8 list" where
  "fill_template [] bs = []"
| "fill_template (c # cs) bs =
     (if c = CHR ''x'' then kHex ! (unat (hd bs) mod 16) # fill_template cs (tl bs)
      else if c = CHR ''y'' then kUuidDigit17 ! (unat (hd bs) mod 4) # fill_template cs (tl bs)
      else of_char c # fill_template cs bs)"

lemma fill_template_x:
  assumes "n \<le> b - a"
  shows "fill_template (replicate n (CHR ''x'') @ cs) (map f [a..<b]) = map (\<lambda>i. kHex ! (unat (f i) mod 16)) [a..<a + n] @ fill_template cs (map f [a + n..<b])"
  using assms
proof (induction n arbitrary: a)
  case (Suc n)
  then have "a < b" "n \<le> b - Suc a" by simp_all
  moreover have "[a..<a + Suc n] = a # [Suc a..<Suc a + n]" by (simp add: upt_conv_Cons del: upt_Suc)
  ultimately show ?case using Suc.IH [of "Suc a"] by (simp add: upt_conv_Cons del: upt_Suc)
qed simp

lemma pick_eq:
  assumes "i < length mem" "0 < k" "k \<le> length table"
  shows "pick table k mem i = map_option (\<lambda>b. table ! (unat b mod k)) (mem ! i)"
proof -
  have "unat b mod k < length table" for b :: u8 using assms(2,3) mod_less_divisor [of k "unat b"] by linarith
  then show ?thesis using assms(1) by (cases "mem ! i") (simp_all add: pick_def byte_at_def deref_def)
qed

lemma pick_all_eq:
  assumes "0 < k" "k \<le> length table"
  shows "\<forall>i \<in> set is. i < length mem \<Longrightarrow> pick_all table k mem is =
    (if \<forall>i \<in> set is. mem ! i \<noteq> None then Some (map (\<lambda>i. table ! (unat (the (mem ! i)) mod k)) is) else None)"
proof (induction "is")
  case (Cons i js)
  then show ?case using pick_eq [of i mem, OF _ assms] by (cases "mem ! i") auto
qed simp

lemma written_upt: "None \<notin> set mem \<longleftrightarrow> (\<forall>i \<in> {0..<length mem}. mem ! i \<noteq> None)"
  by (auto simp: in_set_conv_nth)

lemma CreateRandomString_eq:
  assumes "generate g (replicate n None) = (mem, ok, g')" "length mem = n"
  shows "CreateRandomString generate g n =
    (if ok \<and> None \<notin> set mem then Some (map (\<lambda>b. kBase64 ! (unat (the b) mod 64)) mem, g') else None)"
proof -
  have k: "length kBase64 = 64" by (simp add: kBase64_def)
  have "pick_all kBase64 64 mem [0..<n] = (if None \<notin> set mem then Some (map (\<lambda>i. kBase64 ! (unat (the (mem ! i)) mod 64)) [0..<n]) else None)"
    using pick_all_eq [of 64 kBase64 "[0..<n]" mem] assms(2) k by (simp add: written_upt)
  moreover have "map (\<lambda>i. kBase64 ! (unat (the (mem ! i)) mod 64)) [0..<n] = map (\<lambda>b. kBase64 ! (unat (the b) mod 64)) mem"
    using assms(2) by (intro nth_equalityI) simp_all
  ultimately show ?thesis
    using assms(1) by (cases ok) (simp_all add: CreateRandomString_def CreateRandomString_base64_def CreateRandomString_table_def)
qed

lemma CreateRandomUuid_eq:
  assumes "generate g (replicate 31 None) = (mem, ok, g')" "length mem = 31"
  shows "CreateRandomUuid generate g =
    (if ok \<and> None \<notin> set mem then Some (fill_template ''xxxxxxxx-xxxx-4xxx-yxxx-xxxxxxxxxxxx'' (map the mem), g') else None)"
proof -
  let ?h = "\<lambda>i. kHex ! (unat (the (mem ! i)) mod 16)" and ?w = "\<lambda>I. \<forall>i \<in> I. mem ! i \<noteq> None"
  have k: "length kHex = 16" "length kUuidDigit17 = 4" by (simp_all add: kHex_def kUuidDigit17_def)
  have hex: "pick_all kHex 16 mem [a..<b] = (if ?w {a..<b} then Some (map ?h [a..<b]) else None)" if "b \<le> 31" for a b
    using pick_all_eq [of 16 kHex "[a..<b]" mem] assms(2) k(1) that by simp
  have y: "pick kUuidDigit17 4 mem 15 = map_option (\<lambda>b. kUuidDigit17 ! (unat b mod 4)) (mem ! 15)"
    using pick_eq [of 15 mem 4 kUuidDigit17] assms(2) k(2) by simp
  let ?str = "map ?h [0..<8] @ [45] @ map ?h [8..<12] @ [45] @ [52] @ map ?h [12..<15] @ [45] @
      [kUuidDigit17 ! (unat (the (mem ! 15)) mod 4)] @ map ?h [16..<19] @ [45] @ map ?h [19..<31]"
  let ?x = "\<lambda>n. replicate n (CHR ''x'')"
  have template: "''xxxxxxxx-xxxx-4xxx-yxxx-xxxxxxxxxxxx'' = ?x 8 @ ''-'' @ ?x 4 @ ''-4'' @ ?x 3 @ ''-'' @ ''y'' @ ?x 3 @ ''-'' @ ?x 12 @ []" by code_simp
  have "map the mem = map (\<lambda>i. the (mem ! i)) [0..<31]" using assms(2) by (intro nth_equalityI) simp_all
  then have t: "fill_template ''xxxxxxxx-xxxx-4xxx-yxxx-xxxxxxxxxxxx'' (map the mem) = ?str"
    unfolding template using upt_conv_Cons [of 15 31] fill_template_x [of _ _ _ "[]"] by (simp add: fill_template_x del: upt_rec_numeral)
  have split: "{0..<length mem} = {0..<8} \<union> {8..<12} \<union> {12..<15} \<union> {15} \<union> {16..<19} \<union> {19..<31}" using assms(2) by auto
  have w: "None \<notin> set mem \<longleftrightarrow> ?w {0..<8} \<and> ?w {8..<12} \<and> ?w {12..<15} \<and> mem ! 15 \<noteq> None \<and> ?w {16..<19} \<and> ?w {19..<31}"
    unfolding written_upt split by blast
  define A B C D E where "A \<longleftrightarrow> ?w {0..<8}" "B \<longleftrightarrow> ?w {8..<12}" "C \<longleftrightarrow> ?w {12..<15}" "D \<longleftrightarrow> ?w {16..<19}" "E \<longleftrightarrow> ?w {19..<31}"
  note parts = this
  have h: "pick_all kHex 16 mem [0..<8] = (if A then Some (map ?h [0..<8]) else None)" "pick_all kHex 16 mem [8..<12] = (if B then Some (map ?h [8..<12]) else None)"
      "pick_all kHex 16 mem [12..<15] = (if C then Some (map ?h [12..<15]) else None)" "pick_all kHex 16 mem [16..<19] = (if D then Some (map ?h [16..<19]) else None)"
      "pick_all kHex 16 mem [19..<31] = (if E then Some (map ?h [19..<31]) else None)"
    unfolding parts by (rule hex, simp)+
  have "CreateRandomUuid generate g = (if ok \<and> A \<and> B \<and> C \<and> mem ! 15 \<noteq> None \<and> D \<and> E then Some (?str, g') else None)"
    unfolding CreateRandomUuid_def assms(1) Let_def prod.case h y by (cases ok; cases A; cases B; cases C; cases "mem ! 15"; cases D; cases E) simp_all
  then show ?thesis unfolding w t parts .
qed

lemma bytes_of_or:
  fixes b0 b1 b2 b3 :: u8
  defines "v \<equiv> ucast b0 OR push_bit 8 (ucast b1) OR push_bit 16 (ucast b2) OR push_bit 24 (ucast b3) :: u32"
  shows "ucast v = b0" "ucast (drop_bit 8 v) = b1" "ucast (drop_bit 16 v) = b2" "ucast (drop_bit 24 v) = b3"
  unfolding v_def by (rule bit_word_eqI, auto simp: bit_simps)+

lemma CreateRandomId_eq:
  assumes "generate g (replicate 4 None) = (mem, ok, g')" "length mem = 4"
  shows "if ok \<and> None \<notin> set mem then
      \<exists>v. CreateRandomId generate g = Some (v, g') \<and> (\<forall>i < 4. mem ! i = Some (ucast (drop_bit (8 * i) v)))
    else CreateRandomId generate g = None"
proof -
  obtain m0 m1 m2 m3 where m: "mem = [m0, m1, m2, m3]" using assms(2) by (auto simp: length_Suc_conv numeral_eq_Suc)
  show ?thesis
  proof (cases "ok \<and> None \<notin> set mem")
    case True
    then obtain b0 b1 b2 b3 where b: "m0 = Some b0" "m1 = Some b1" "m2 = Some b2" "m3 = Some b3" unfolding m by (cases m0; cases m1; cases m2; cases m3) auto
    let ?v = "ucast b0 OR push_bit 8 (ucast b1) OR push_bit 16 (ucast b2) OR push_bit 24 (ucast b3) :: u32"
    have "CreateRandomId generate g = Some (?v, g')" using assms(1) True by (simp add: CreateRandomId_def m b byte_at_def deref_def)
    moreover have "\<forall>i < 4. mem ! i = Some (ucast (drop_bit (8 * i) ?v))"
      using bytes_of_or [of b0 b1 b2 b3] by (simp add: m b numeral_eq_Suc All_less_Suc)
    ultimately show ?thesis using True by auto
  next
    case False
    then show ?thesis using assms(1) unfolding m
      by (cases ok; cases m0; cases m1; cases m2; cases m3) (simp_all add: CreateRandomId_def byte_at_def deref_def)
  qed
qed

text \<open>The loop for ids other than 0.\<close>

lemma nonzero_id: "CreateRandomNonZeroId k generate g = Some (Inr (v, g')) \<Longrightarrow> v \<noteq> 0"
  by (induction k generate g rule: CreateRandomNonZeroId.induct) (auto split: if_splits simp: Option.bind_eq_Some_conv)

lemma nonzero_id_more: "CreateRandomNonZeroId k generate g = Some (Inr r) \<Longrightarrow> CreateRandomNonZeroId (k + n) generate g = Some (Inr r)"
  by (induction k generate g rule: CreateRandomNonZeroId.induct) (auto split: if_splits simp: Option.bind_eq_Some_conv)

lemma nonzero_id_returns: "\<exists>r. CreateRandomNonZeroId 1 test_generate 7 = Some (Inr r)"
proof -
  have "(case CreateRandomNonZeroId 1 test_generate 7 of Some (Inr _) \<Rightarrow> True | _ \<Rightarrow> False)" by code_simp
  then show ?thesis by (auto split: option.splits sum.splits)
qed

text \<open>
  C40: strings and ids, for whatever the generator leaves in the memory it is given. When it succeeds and has written every byte, \<open>CreateRandomString\<close> gives for each byte the character of the
  base64 alphabet at its remainder by 64, \<open>CreateRandomUuid\<close> fills the template of a version 4 UUID with the digits of its 31 bytes in order, and \<open>CreateRandomId\<close> gives the
  number with the four bytes in little-endian order. When it fails or has left a byte unwritten, and only then, they have no result: the check fails or
  memory is read that nobody wrote. The default generator, which writes nothing, is of the second kind for every length.
\<close>

theorem random_strings:
  assumes "generate g (replicate n None) = (mem, ok, g')" "length mem = n"
  shows "CreateRandomString generate g n =
      (if ok \<and> None \<notin> set mem then Some (map (\<lambda>b. kBase64 ! (unat (the b) mod 64)) mem, g') else None) \<and>
    (n = 31 \<longrightarrow> CreateRandomUuid generate g =
      (if ok \<and> None \<notin> set mem then Some (fill_template ''xxxxxxxx-xxxx-4xxx-yxxx-xxxxxxxxxxxx'' (map the mem), g') else None)) \<and>
    (n = 4 \<longrightarrow> (if ok \<and> None \<notin> set mem then
        \<exists>v. CreateRandomId generate g = Some (v, g') \<and> (\<forall>i < 4. mem ! i = Some (ucast (drop_bit (8 * i) v)))
      else CreateRandomId generate g = None)) \<and>
    (\<not> fst (snd (secure_generate () (replicate n None))) \<or> None \<in> set (fst (secure_generate () (replicate n None))))"
proof (intro conjI impI)
  have z: "cast_int32 0 = 0" by (simp add: cast_int32_id in_int32_def int_range_defs)
  show "\<not> fst (snd (secure_generate () (replicate n None))) \<or> None \<in> set (fst (secure_generate () (replicate n None)))"
    by (cases n) (simp_all add: secure_generate_def z)
qed (use CreateRandomString_eq [of generate] CreateRandomUuid_eq [of generate] CreateRandomId_eq [of generate] assms in simp_all)

theorem random_strings_witness:
  "\<exists>mem g'. test_generate 7 (replicate 31 None) = (mem, True, g') \<and> None \<notin> set mem \<and>
     CreateRandomUuid test_generate 7 = Some (fill_template ''xxxxxxxx-xxxx-4xxx-yxxx-xxxxxxxxxxxx'' (map the mem), g') \<and>
     CreateRandomString secure_generate () 31 = None"
proof -
  obtain mem ok g' where g: "test_generate 7 (replicate 31 None) = (mem, ok, g')" by (metis prod_cases3)
  have m: "length mem = 31" "None \<notin> set mem" "ok"
    using test_rng.length_generate [of 7 "replicate 31 None"] test_rng.generate_fills [of 7 "replicate 31 None"] test_rng.generate_ok [of 7 "replicate 31 None"] g by simp_all
  obtain mem' ok' g'' where s: "secure_generate () (replicate 31 None) = (mem', ok', g'')" by (metis prod_cases3)
  have "mem' = replicate 31 None" using s by (auto simp: secure_generate_def)
  then have m': "length mem' = 31" by simp
  have "CreateRandomString secure_generate () 31 = None" using random_strings [of secure_generate "()" 31 mem' ok' g''] s m' by auto
  then show ?thesis using random_strings [of test_generate 7 31 mem ok g'] g m by (intro exI [of _ mem] exI [of _ g']) simp
qed


section \<open>The default generator\<close>

text \<open>
  With the default generator, whose loop is commented out, the string, the UUID and the ids have no result; \<open>CreateRandomData\<close> succeeds with a block of zeros.
\<close>

theorem random_default_unset:
  "CreateRandomString secure_generate () n = None \<and> CreateRandomUuid secure_generate () = None \<and> CreateRandomId secure_generate () = None \<and>
   CreateRandomId64 secure_generate () = None \<and> CreateRandomNonZeroId (Suc k) secure_generate () = None \<and>
   CreateRandomData secure_generate () 16 = Some (True, replicate 16 (Some 0), ())"
proof -
  have i: "CreateRandomId secure_generate () = None" by (simp add: CreateRandomId_def secure_generate_def byte_at_def deref_def)
  have b: "pick_all kBase64 64 (replicate n None) [0..<n] = None" if "0 < n"
    using that by (simp add: upt_conv_Cons pick_def byte_at_def deref_def)
  have "\<not> 0 < cast_int32 0" by (simp add: cast_int32_id in_int32_def int_range_defs)
  then have "CreateRandomString secure_generate () n = None"
    using b by (cases "n = 0") (auto simp: CreateRandomString_def CreateRandomString_base64_def CreateRandomString_table_def secure_generate_def Let_def)
  moreover have "CreateRandomUuid secure_generate () = None"
    by (simp add: CreateRandomUuid_def secure_generate_def upt_conv_Cons pick_def byte_at_def deref_def del: upt_rec_numeral)
  moreover have "CreateRandomData secure_generate () 16 = Some (True, replicate 16 (Some 0), ())"
    by (simp add: CreateRandomData_def secure_generate_def cast_int32_id in_int32_def int_range_defs)
  ultimately show ?thesis using i by (simp add: CreateRandomId64_def)
qed

end
