(* ===== verification/SquareGenerators.thy ===== *)
theory SquareGenerators
  imports FrameBufferSafety RandomNumbers
begin

text \<open>
  \<open>SquareGenerator\<close> and \<open>SlideGenerator\<close> of \<open>src/libs/media/source/capture/custom/octk_frame_generator.cpp\<close>, and the time of day that is drawn into the frames. A frame is drawn by
  calls of \<open>memset\<close>, which are recorded with address, value and length, and by copies of glyphs with libyuv, which are recorded with the planes and the size of the
  image that is copied. Addresses are offsets in the memory of a buffer.
\<close>

section \<open>Filling squares\<close>

type_synonym fill = "int \<times> int \<times> int"

text \<open>The rows of a square, and every second one of them.\<close>

fun rows_from :: "int \<Rightarrow> nat \<Rightarrow> int list" where
  "rows_from y 0 = []"
| "rows_from y (Suc n) = y # rows_from (y + 1) n"

fun rows_by_two :: "int \<Rightarrow> nat \<Rightarrow> int list" where
  "rows_by_two y 0 = []"
| "rows_by_two y (Suc n) = y # rows_by_two (y + 2) (n - 1)"

fun fill_rows :: "int \<Rightarrow> int \<Rightarrow> int \<Rightarrow> int \<Rightarrow> int \<Rightarrow> int list \<Rightarrow> fill list option" where
  "fill_rows p stride x v len [] = Some []"
| "fill_rows p stride x v len (y # ys) = do {
     r \<leftarrow> int32 (y * stride);
     fs \<leftarrow> fill_rows p stride x v len ys;
     Some ((p + x + r, v, len) # fs)
   }"

text \<open>The luma rows of a square, and its chroma rows, for the planes U and V alternately in the code.\<close>

definition fill_luma :: "pixel_buffer \<Rightarrow> int \<Rightarrow> int \<Rightarrow> int \<Rightarrow> int \<Rightarrow> fill list option" where
  "fill_luma b x y len v = do { p \<leftarrow> dataY b; fill_rows p (strideY b) x v len (rows_from y (nat len)) }"

definition fill_chroma :: "pixel_buffer \<Rightarrow> int \<Rightarrow> int \<Rightarrow> int \<Rightarrow> int \<Rightarrow> int \<Rightarrow> fill list option" where
  "fill_chroma b x y len vu vv = do {
     u \<leftarrow> dataU b;
     v \<leftarrow> dataV b;
     let rows = map (\<lambda>y. y sdiv 2) (rows_by_two y (nat len));
     us \<leftarrow> fill_rows u (strideU b) (x sdiv 2) vu (len sdiv 2) rows;
     vs \<leftarrow> fill_rows v (strideV b) (x sdiv 2) vv (len sdiv 2) rows;
     Some (concat (map2 (\<lambda>a b. [a, b]) us vs))
   }"


section \<open>The time of day\<close>

record glyph_copy =
  gc_src :: "plane list"
  gc_dst :: "plane list"
  gc_size :: "int \<times> int"

definition kBitmapWidth :: int where "kBitmapWidth = 6"
definition kBitmapHeight :: int where "kBitmapHeight = 10"

text \<open>The macros: planes of an image of the given size at an offset, for even sizes without padding.\<close>

definition I420_Y_OFFSET_PTR :: "int \<Rightarrow> int \<Rightarrow> int \<Rightarrow> int \<Rightarrow> int" where
  "I420_Y_OFFSET_PTR width height x y = width * y + x"

definition I420_U_PTR :: "int \<Rightarrow> int \<Rightarrow> int" where
  "I420_U_PTR width height = width * height"

definition I420_V_PTR :: "int \<Rightarrow> int \<Rightarrow> int" where
  "I420_V_PTR width height = width * height + (width div 2) * (height div 2)"

definition I420_UV_STRIDE :: "int \<Rightarrow> int" where
  "I420_UV_STRIDE width = width div 2"

definition I420_U_OFFSET_PTR :: "int \<Rightarrow> int \<Rightarrow> int \<Rightarrow> int \<Rightarrow> int" where
  "I420_U_OFFSET_PTR width height x y = I420_U_PTR width height + I420_UV_STRIDE width * (y sdiv 2) + x sdiv 2"

definition I420_V_OFFSET_PTR :: "int \<Rightarrow> int \<Rightarrow> int \<Rightarrow> int \<Rightarrow> int" where
  "I420_V_OFFSET_PTR width height x y = I420_V_PTR width height + I420_UV_STRIDE width * (y sdiv 2) + x sdiv 2"

definition offset_planes :: "int \<Rightarrow> int \<Rightarrow> int \<Rightarrow> int \<Rightarrow> plane list" where
  "offset_planes width height x y =
     [(I420_Y_OFFSET_PTR width height x y, width), (I420_U_OFFSET_PTR width height x y, I420_UV_STRIDE width), (I420_V_OFFSET_PTR width height x y, I420_UV_STRIDE width)]"

text \<open>A glyph of 90 bytes is copied into a buffer, which must be large enough, scaled into a second buffer and copied from there. The scale is a \<open>float\<close> in the code; the products with the only scale in use, 4, are exact.\<close>

definition drawI420DigitNumber :: "int \<Rightarrow> int \<Rightarrow> int \<Rightarrow> int \<Rightarrow> int \<Rightarrow> int \<Rightarrow> int \<Rightarrow> glyph_copy option" where
  "drawI420DigitNumber src_width src_height zoom dst_width dst_height dst_x dst_y = do {
     i420Buffer \<leftarrow> I420_create src_width src_height;
     dcheck (src_width * src_height * 3 div 2 \<le> bf_size i420Buffer);
     scaledI420Buffer \<leftarrow> I420_create (src_width * zoom) (src_height * zoom);
     let width = bf_width scaledI420Buffer;
     let height = bf_height scaledI420Buffer;
     let fixWidth = min width dst_width;
     let fixHeight = min height dst_height;
     Some \<lparr>gc_src = offset_planes width height 0 0, gc_dst = offset_planes dst_width dst_height dst_x dst_y, gc_size = (fixWidth, fixHeight)\<rparr>
   }"

text \<open>Year, month, day, hour, minute, second and milliseconds with their separators are 23 glyphs, one beside the other.\<close>

fun draw_glyphs :: "nat \<Rightarrow> int \<Rightarrow> int \<Rightarrow> int \<Rightarrow> int \<Rightarrow> int \<Rightarrow> int \<Rightarrow> glyph_copy list option" where
  "draw_glyphs 0 index dst_width dst_height dst_x dst_y zoom = Some []"
| "draw_glyphs (Suc n) index dst_width dst_height dst_x dst_y zoom = do {
     c \<leftarrow> drawI420DigitNumber kBitmapWidth kBitmapHeight zoom dst_width dst_height (dst_x + kBitmapWidth * zoom * index) dst_y;
     cs \<leftarrow> draw_glyphs n (index + 1) dst_width dst_height dst_x dst_y zoom;
     Some (c # cs)
   }"

definition drawI420LocalTime :: "int \<Rightarrow> int \<Rightarrow> int \<Rightarrow> int \<Rightarrow> int \<Rightarrow> glyph_copy list option" where
  "drawI420LocalTime dst_width dst_height dst_x dst_y zoom = draw_glyphs 23 0 dst_width dst_height dst_x dst_y zoom"


text \<open>Whether a copy of a glyph writes inside a memory of the given size: the first and the last byte of each plane.\<close>

definition glyph_inside :: "int \<Rightarrow> glyph_copy \<Rightarrow> bool" where
  "glyph_inside n c \<longleftrightarrow> (case gc_size c of (w, h) \<Rightarrow>
     list_all (\<lambda>((p, stride), (cols, rows)). 0 \<le> p \<and> p + (rows - 1) * stride + cols \<le> n)
       (zip (gc_dst c) [(w, h), ((w + 1) div 2, (h + 1) div 2), ((w + 1) div 2, (h + 1) div 2)]))"


section \<open>The square generator\<close>

record square =
  sq_random :: u64
  sq_x :: int
  sq_y :: int
  sq_length :: int
  yuv_y :: int
  yuv_u :: int
  yuv_v :: int
  yuv_a :: int

definition Square :: "int \<Rightarrow> int \<Rightarrow> int \<Rightarrow> square option" where
  "Square width height seed = do {
     g \<leftarrow> Random_new (word_of_int seed);
     (x, g) \<leftarrow> Rand_signed 0 width g;
     (y, g) \<leftarrow> Rand_signed 0 height g;
     (len, g) \<leftarrow> Rand_signed 1 (if 4 < width then width div 4 else 1) g;
     (vy, g) \<leftarrow> Rand_signed 0 255 g;
     (vu, g) \<leftarrow> Rand_signed 0 255 g;
     (vv, g) \<leftarrow> Rand_signed 0 255 g;
     (va, g) \<leftarrow> Rand_signed 0 255 g;
     Some \<lparr>sq_random = g, sq_x = x, sq_y = y, sq_length = len, yuv_y = vy, yuv_u = vu, yuv_v = vv, yuv_a = va\<rparr>
   }"

text \<open>What is drawn into a frame: fills of the image, fills of the alpha plane, and glyphs.\<close>

record drawing =
  dr_fills :: "fill list"
  dr_alpha :: "fill list"
  dr_glyphs :: "glyph_copy list"

text \<open>\<open>draw\<close>; the alpha plane is that of a second buffer, for frames of type I420A. The others get the time of day; a glyph
  that would be copied outside the memory of the frame is undefined behaviour, \<^term>\<open>None\<close>.\<close>

definition draw :: "pixel_buffer \<Rightarrow> pixel_buffer option \<Rightarrow> square \<Rightarrow> (drawing \<times> square) option" where
  "draw buffer alpha s = do {
     let length_cap = min (bf_height buffer) (bf_width buffer) sdiv 4;
     let len = min (sq_length s) length_cap;
     (dx, g) \<leftarrow> Rand_signed 0 4 (sq_random s);
     x \<leftarrow> int32 (sq_x s + dx);
     mx \<leftarrow> int32 (bf_width buffer - len);
     x \<leftarrow> mod32 x mx;
     (dy, g) \<leftarrow> Rand_signed 0 4 g;
     y \<leftarrow> int32 (sq_y s + dy);
     my \<leftarrow> int32 (bf_height buffer - len);
     y \<leftarrow> mod32 y my;
     let s = s\<lparr>sq_random := g, sq_x := x, sq_y := y\<rparr>;
     luma \<leftarrow> fill_luma buffer x y len (yuv_y s);
     chroma \<leftarrow> fill_chroma buffer x y len (yuv_u s) (yuv_v s);
     (case alpha of
        None \<Rightarrow> do {
          cs \<leftarrow> drawI420LocalTime (bf_width buffer) (bf_height buffer) 10 100 4;
          dcheck (list_all (glyph_inside (bf_size buffer)) cs);
          Some (\<lparr>dr_fills = luma @ chroma, dr_alpha = [], dr_glyphs = cs\<rparr>, s)
        }
      | Some a \<Rightarrow> do {
          as \<leftarrow> fill_luma a x y len (yuv_a s);
          Some (\<lparr>dr_fills = luma @ chroma, dr_alpha = as, dr_glyphs = []\<rparr>, s)
        })
   }"

datatype OutputType = OutI420 | OutI420A | OutI010 | OutNV12

record square_generator =
  sg_type :: OutputType
  sg_width :: int
  sg_height :: int
  squares :: "square list"

definition changeResolution :: "nat \<Rightarrow> nat \<Rightarrow> square_generator \<Rightarrow> square_generator option" where
  "changeResolution width height g = do {
     let g = g\<lparr>sg_width := cast_int32 (int width), sg_height := cast_int32 (int height)\<rparr>;
     dcheck (0 < sg_width g);
     dcheck (0 < sg_height g);
     Some g
   }"

fun make_squares :: "int \<Rightarrow> int \<Rightarrow> nat \<Rightarrow> square list option" where
  "make_squares width height 0 = Some []"
| "make_squares width height (Suc n) = do { ss \<leftarrow> make_squares width height n; s \<leftarrow> Square width height (int n + 1); Some (ss @ [s]) }"

text \<open>The size is an \<open>int\<close> that is passed on as \<open>size_t\<close>.\<close>

definition SquareGenerator :: "int \<Rightarrow> int \<Rightarrow> OutputType \<Rightarrow> int \<Rightarrow> square_generator option" where
  "SquareGenerator width height type num_squares = do {
     g \<leftarrow> changeResolution (nat (width mod 2 ^ 64)) (nat (height mod 2 ^ 64)) \<lparr>sg_type = type, sg_width = 0, sg_height = 0, squares = []\<rparr>;
     ss \<leftarrow> make_squares width height (nat num_squares);
     Some (g\<lparr>squares := ss\<rparr>)
   }"

definition grey_planes :: "pixel_buffer \<Rightarrow> fill list option" where
  "grey_planes b = do {
     y \<leftarrow> dataY b; u \<leftarrow> dataU b; v \<leftarrow> dataV b;
     ny \<leftarrow> int32 (bf_height b * strideY b);
     ch \<leftarrow> half_up (bf_height b);
     nu \<leftarrow> int32 (ch * strideU b);
     nv \<leftarrow> int32 (ch * strideV b);
     Some [(y, 127, ny), (u, 127, nu), (v, 127, nv)]
   }"

definition createI420Buffer :: "int \<Rightarrow> int \<Rightarrow> (pixel_buffer \<times> fill list) option" where
  "createI420Buffer width height = do { buffer \<leftarrow> I420_create width height; fs \<leftarrow> grey_planes buffer; Some (buffer, fs) }"

fun draw_squares :: "pixel_buffer \<Rightarrow> pixel_buffer option \<Rightarrow> square list \<Rightarrow> (drawing list \<times> square list) option" where
  "draw_squares b a [] = Some ([], [])"
| "draw_squares b a (s # ss) = do { (d, s) \<leftarrow> draw b a s; (ds, ss) \<leftarrow> draw_squares b a ss; Some (d # ds, s # ss) }"

text \<open>The frame, the buffers that were drawn into (the second for the alpha plane), what was drawn, and the calls of libyuv of the final conversion.\<close>

record square_frame =
  sf_buffer :: pixel_buffer
  sf_image :: pixel_buffer
  sf_alpha :: "pixel_buffer option"
  sf_grey :: "fill list"
  sf_alpha_grey :: "fill list"
  sf_drawings :: "drawing list"
  sf_calls :: "yuv_call list"

definition square_nextFrame :: "(yuv_call \<Rightarrow> int) \<Rightarrow> square_generator \<Rightarrow> (square_frame \<times> square_generator) option" where
  "square_nextFrame libyuv g = do {
     (b, grey) \<leftarrow> createI420Buffer (sg_width g) (sg_height g);
     (a, agrey) \<leftarrow> (if sg_type g = OutI420A then do { (a, fs) \<leftarrow> createI420Buffer (sg_width g) (sg_height g); Some (Some a, fs) } else Some (None, []));
     (ds, ss) \<leftarrow> draw_squares b a (squares g);
     (r, cs) \<leftarrow>
       (if sg_type g = OutI010 then do { (i, cs) \<leftarrow> toI420 libyuv b; (r, cs') \<leftarrow> I010_from_I420 libyuv i; Some (r, cs @ cs') }
        else if sg_type g = OutNV12 then do { (i, cs) \<leftarrow> toI420 libyuv b; (r, cs') \<leftarrow> NV12_from_I420 i; Some (r, cs @ cs') }
        else Some (b, []));
     Some (\<lparr>sf_buffer = r, sf_image = b, sf_alpha = a, sf_grey = grey, sf_alpha_grey = agrey, sf_drawings = ds, sf_calls = cs\<rparr>, g\<lparr>squares := ss\<rparr>)
   }"


section \<open>The slide generator\<close>

record slide_generator =
  sl_width :: int
  sl_height :: int
  sl_display_count :: int
  sl_current_count :: int
  sl_random :: u64
  sl_buffer :: "(pixel_buffer \<times> fill list) option"

definition SlideGenerator :: "int \<Rightarrow> int \<Rightarrow> int \<Rightarrow> slide_generator option" where
  "SlideGenerator width height frame_repeat_count = do {
     g \<leftarrow> Random_new 1234;
     dcheck (0 < width);
     dcheck (0 < height);
     dcheck (0 < frame_repeat_count);
     Some \<lparr>sl_width = width, sl_height = height, sl_display_count = frame_repeat_count, sl_current_count = 0, sl_random = g, sl_buffer = None\<rparr>
   }"

fun slide_squares :: "nat \<Rightarrow> int \<Rightarrow> int \<Rightarrow> int \<Rightarrow> int \<Rightarrow> pixel_buffer \<Rightarrow> u64 \<Rightarrow> (fill list \<times> u64) option" where
  "slide_squares 0 i num width height buffer g = Some ([], g)"
| "slide_squares (Suc n) i num width height buffer g = do {
     (len, g) \<leftarrow> Rand_signed 1 (if 4 < width then width div 4 else 1) g;
     m \<leftarrow> int32 (len * (num - i));
     let len = m sdiv num;
     (x, g) \<leftarrow> Rand_signed 0 (width - len) g;
     (y, g) \<leftarrow> Rand_signed 0 (height - len) g;
     (vy, g) \<leftarrow> Rand_signed 0 255 g;
     (vu, g) \<leftarrow> Rand_signed 0 255 g;
     (vv, g) \<leftarrow> Rand_signed 0 255 g;
     luma \<leftarrow> fill_luma buffer x y len vy;
     chroma \<leftarrow> fill_chroma buffer x y len vu vv;
     (fs, g) \<leftarrow> slide_squares n (i + 1) num width height buffer g;
     Some (luma @ chroma @ fs, g)
   }"

definition generateNewFrame :: "slide_generator \<Rightarrow> slide_generator option" where
  "generateNewFrame s = do {
     (k, g) \<leftarrow> Rand_signed 0 3 (sl_random s);
     let kSquareNum = 2 ^ nat (4 + k * 2);
     buffer \<leftarrow> I420_create (sl_width s) (sl_height s);
     grey \<leftarrow> grey_planes buffer;
     (fs, g) \<leftarrow> slide_squares (nat kSquareNum) 0 kSquareNum (sl_width s) (sl_height s) buffer g;
     Some (s\<lparr>sl_random := g, sl_buffer := Some (buffer, grey @ fs)\<rparr>)
   }"

definition slide_nextFrame :: "slide_generator \<Rightarrow> ((pixel_buffer \<times> fill list) option \<times> slide_generator) option" where
  "slide_nextFrame s = do {
     s \<leftarrow> (if sl_current_count s = 0 then generateNewFrame s else Some s);
     c \<leftarrow> int32 (sl_current_count s + 1);
     let s = s\<lparr>sl_current_count := (if sl_display_count s \<le> c then 0 else c)\<rparr>;
     Some (sl_buffer s, s)
   }"


section \<open>Squares stay inside the planes\<close>

text \<open>A fill lies in a plane of the buffer.\<close>

definition fill_ok :: "pixel_buffer \<Rightarrow> fill \<Rightarrow> bool" where
  "fill_ok b f \<longleftrightarrow> (case f of (p, v, n) \<Rightarrow> list_ex (\<lambda>A. {p ..< p + n} \<subseteq> A) (memory b))"

lemma set_rows_from: "set (rows_from y n) = {y ..< y + int n}"
  by (induction y n rule: rows_from.induct) auto

lemma set_rows_by_two: "set (rows_by_two y n) \<subseteq> {y ..< y + int n}"
  by (induction y n rule: rows_by_two.induct) (auto split: nat_diff_split)

lemma row_in_plane:
  assumes "0 \<le> x" "x + len \<le> cols" "0 \<le> y" "y < rows"
  shows "{p + x + y * stride ..< p + x + y * stride + len} \<subseteq> samples (p, stride) (cols, rows)"
proof
  fix q assume "q \<in> {p + x + y * stride ..< p + x + y * stride + len}"
  then have "q = p + y * stride + (q - p - y * stride) \<and> 0 \<le> y \<and> y < rows \<and> 0 \<le> q - p - y * stride \<and> q - p - y * stride < cols" using assms by auto
  then show "q \<in> samples (p, stride) (cols, rows)" by (simp only: samples.simps mem_Collect_eq) blast
qed

lemma fill_rows_ok:
  assumes "\<And>y. 0 \<le> y \<Longrightarrow> y < rows \<Longrightarrow> in_int32 (stride * y)" "0 \<le> x" "x + len \<le> cols"
  shows "set ys \<subseteq> {0 ..< rows} \<Longrightarrow> \<exists>fs. fill_rows p stride x v len ys = Some fs \<and> (\<forall>(q, _, n) \<in> set fs. {q ..< q + n} \<subseteq> samples (p, stride) (cols, rows))"
proof (induction ys)
  case (Cons y ys)
  then obtain fs where fs: "fill_rows p stride x v len ys = Some fs" "\<forall>(q, _, n) \<in> set fs. {q ..< q + n} \<subseteq> samples (p, stride) (cols, rows)" by auto
  have "int32 (y * stride) = Some (y * stride)" using assms(1) [of y] Cons.prems by (simp add: mult.commute)
  then show ?case using fs row_in_plane [of x len cols y rows p stride] assms(2,3) Cons.prems by (simp del: samples.simps)
qed simp

lemma memory_I420:
  assumes "buffer_ok b" "bf_type b = kI420"
  shows "memory b = [samples (0, strideY b) (bf_width b, bf_height b),
    samples (strideY b * bf_height b, strideU b) ((bf_width b + 1) div 2, (bf_height b + 1) div 2),
    samples (strideY b * bf_height b + strideU b * ((bf_height b + 1) div 2), strideV b) ((bf_width b + 1) div 2, (bf_height b + 1) div 2)]"
  using memory_eq [OF assms(1)] pointers_ok(5) [OF assms(1)] assms(2) by (simp add: chroma_defs del: samples.simps)

lemma fill_okI: "A \<in> set (memory b) \<Longrightarrow> {p ..< p + n} \<subseteq> A \<Longrightarrow> fill_ok b (p, v, n)"
  by (auto simp: fill_ok_def list_ex_iff)

lemma fills_okI: "A \<in> set (memory b) \<Longrightarrow> \<forall>(q, _, n) \<in> set fs. {q ..< q + n} \<subseteq> A \<Longrightarrow> list_all (fill_ok b) fs"
  by (auto simp: list_all_iff intro: fill_okI)

lemma fill_luma_ok:
  assumes "buffer_ok b" "bf_type b = kI420" "0 \<le> x" "x + len \<le> bf_width b" "0 \<le> y" "y + len \<le> bf_height b"
  shows "\<exists>fs. fill_luma b x y len v = Some fs \<and> list_all (fill_ok b) fs"
proof -
  have ys: "set (rows_from y (nat len)) \<subseteq> {0 ..< bf_height b}" using assms(5,6) by (auto simp: set_rows_from)
  have st: "in_int32 (strideY b * y)" if "0 \<le> y" "y < bf_height b" for y using stride_in_range(1) [OF assms(1)] that by simp
  obtain fs where fs: "fill_rows 0 (strideY b) x v len (rows_from y (nat len)) = Some fs" "\<forall>(q, _, n) \<in> set fs. {q ..< q + n} \<subseteq> samples (0, strideY b) (bf_width b, bf_height b)"
    using fill_rows_ok [OF st assms(3,4) ys] by blast
  have "list_all (fill_ok b) fs" by (rule fills_okI [OF _ fs(2)]) (simp add: memory_I420 [OF assms(1,2)] del: samples.simps)
  then show ?thesis using fs(1) pointers_ok(1) [OF assms(1)] by (simp add: fill_luma_def)
qed

lemma map2_pairs: "set (concat (map2 (\<lambda>a b. [a, b]) us vs)) \<subseteq> set us \<union> set vs"
  by (auto dest: set_zip_leftD set_zip_rightD)

lemma fill_chroma_ok:
  assumes "buffer_ok b" "bf_type b = kI420" "0 \<le> x" "x + len \<le> bf_width b" "0 \<le> y" "y + len \<le> bf_height b" "0 \<le> len"
  shows "\<exists>fs. fill_chroma b x y len vu vv = Some fs \<and> list_all (fill_ok b) fs"
proof -
  let ?rows = "(bf_height b + 1) div 2" and ?cols = "(bf_width b + 1) div 2" and ?ys = "map (\<lambda>y. y sdiv 2) (rows_by_two y (nat len))"
  let ?u = "strideY b * bf_height b" and ?v = "strideY b * bf_height b + strideU b * ((bf_height b + 1) div 2)"
  have "r sdiv 2 \<in> {0 ..< ?rows}" if "r \<in> set (rows_by_two y (nat len))" for r
  proof -
    have "0 \<le> r" "r < bf_height b" using subsetD [OF set_rows_by_two that] assms(5-7) by auto
    then show ?thesis by (simp add: sdiv_nonneg)
  qed
  then have ys: "set ?ys \<subseteq> {0 ..< ?rows}" by auto
  have x: "0 \<le> x sdiv 2" "x sdiv 2 + len sdiv 2 \<le> ?cols" using assms(3,4,7) by (simp_all add: sdiv_nonneg)
  have st: "in_int32 (strideU b * y)" "in_int32 (strideV b * y)" if "0 \<le> y" "y < ?rows" for y
    using stride_in_range(2,3) [OF assms(1)] assms(2) that by (simp_all add: chroma_rows_def)
  obtain us where us: "fill_rows ?u (strideU b) (x sdiv 2) vu (len sdiv 2) ?ys = Some us" "\<forall>(q, _, n) \<in> set us. {q ..< q + n} \<subseteq> samples (?u, strideU b) (?cols, ?rows)"
    using fill_rows_ok [OF st(1) x ys] by blast
  obtain vs where vs: "fill_rows ?v (strideV b) (x sdiv 2) vv (len sdiv 2) ?ys = Some vs" "\<forall>(q, _, n) \<in> set vs. {q ..< q + n} \<subseteq> samples (?v, strideV b) (?cols, ?rows)"
    using fill_rows_ok [OF st(2) x ys] by blast
  have "list_all (fill_ok b) us" "list_all (fill_ok b) vs"
    by (rule fills_okI [OF _ us(2)] fills_okI [OF _ vs(2)], simp add: memory_I420 [OF assms(1,2)] del: samples.simps)+
  then have "list_all (fill_ok b) (concat (map2 (\<lambda>a b. [a, b]) us vs))" using map2_pairs [of us vs] unfolding list_all_iff by blast
  then show ?thesis using us(1) vs(1) pointers_ok(2,4) [OF assms(1)] assms(2) by (simp add: fill_chroma_def chroma_rows_def Let_def)
qed

text \<open>The memory of a new I420 buffer has no gaps, so that the planes can be filled at once.\<close>

lemma samples_block: "0 < cols \<Longrightarrow> 0 \<le> rows \<Longrightarrow> {p ..< p + rows * cols} \<subseteq> samples (p, cols) (cols, rows)"
proof
  fix q assume c: "0 < cols" "0 \<le> rows" and q: "q \<in> {p ..< p + rows * cols}"
  define d where "d = q - p"
  have "0 \<le> d" "d < rows * cols" using q by (auto simp: d_def)
  moreover have "d div cols < rows"
  proof (rule ccontr)
    assume "\<not> d div cols < rows"
    then have "rows * cols \<le> d div cols * cols" using c by (intro mult_right_mono) simp_all
    then show False using \<open>d < rows * cols\<close> pos_mod_sign [OF c(1), of d] div_mult_mod_eq [of d cols] by linarith
  qed
  ultimately have "q = p + (d div cols) * cols + d mod cols" "0 \<le> d div cols" "d div cols < rows" "0 \<le> d mod cols" "d mod cols < cols"
    using c by (simp_all add: d_def pos_imp_zdiv_nonneg_iff)
  then show "q \<in> samples (p, cols) (cols, rows)" by (simp only: samples.simps mem_Collect_eq) blast
qed

lemma grey_ok:
  assumes "size_ok w h"
  shows "\<exists>b fs. createI420Buffer w h = Some (b, fs) \<and> create_buffer kI420 w h = Some b \<and> buffer_ok b \<and> bf_type b = kI420 \<and> bf_width b = w \<and> bf_height b = h \<and>
    grey_planes b = Some fs \<and> list_all (fill_ok b) fs \<and> bf_size b = w * h + 2 * ((w + 1) div 2 * ((h + 1) div 2))"
proof -
  have s: "0 < w" "w \<le> 16384" "0 < h" "h \<le> 16384" using assms by (simp_all add: size_ok_def)
  obtain b where b: "create_buffer kI420 w h = Some b" "buffer_ok b" "bf_type b = kI420" "bf_width b = w" "bf_height b = h" using create_Some [OF s] by blast
  have u: "half_up w = Some ((w + 1) div 2)" "half_up h = Some ((h + 1) div 2)" using s by (simp_all add: half_up_pos int_range_defs)
  have c: "I420_create w h = Some b" using b(1) by (simp add: create_buffer_def)
  then have st: "strideY b = w" "strideU b = (w + 1) div 2" "strideV b = (w + 1) div 2" using u by (auto simp: I420_create_def I420Buffer_def bind_Some make_buffer_def)
  have i: "int32 (h * w) = Some (h * w)" "int32 ((h + 1) div 2 * ((w + 1) div 2)) = Some ((h + 1) div 2 * ((w + 1) div 2))"
    using stride_in_range(1,2) [OF b(2)] b(3,5) st s by (simp_all add: chroma_rows_def mult.commute)
  note p = pointers_ok(1,2,4) [OF b(2), unfolded st b(3,5)]
  have f: "grey_planes b = Some [(0, 127, h * w), (w * h, 127, (h + 1) div 2 * ((w + 1) div 2)), (w * h + (w + 1) div 2 * ((h + 1) div 2), 127, (h + 1) div 2 * ((w + 1) div 2))]"
    using p i u(2) st b(5) by (simp add: grey_planes_def chroma_rows_def)
  have "0 < (w + 1) div 2" "0 \<le> (h + 1) div 2" using s by simp_all
  then have k: "{p ..< p + (h + 1) div 2 * ((w + 1) div 2)} \<subseteq> samples (p, (w + 1) div 2) ((w + 1) div 2, (h + 1) div 2)" for p by (rule samples_block)
  have l: "{0 ..< 0 + h * w} \<subseteq> samples (0, w) (w, h)" by (rule samples_block) (use s in simp_all)
  have "list_all (fill_ok b) [(0, 127, h * w), (w * h, 127, (h + 1) div 2 * ((w + 1) div 2)), (w * h + (w + 1) div 2 * ((h + 1) div 2), 127, (h + 1) div 2 * ((w + 1) div 2))]"
    unfolding list.pred_inject by (intro conjI TrueI fill_okI [OF _ l] fill_okI [OF _ k]) (simp_all add: memory_I420 [OF b(2,3)] st b(4,5) del: samples.simps)
  moreover have "bf_size b = w * h + 2 * ((w + 1) div 2 * ((h + 1) div 2))"
    using b(2-5) st by (simp add: buffer_ok_def total_samples_def chroma_defs)
  ultimately show ?thesis using c f b by (auto simp: createI420Buffer_def)
qed


section \<open>The square generator\<close>

definition square_ok :: "square \<Rightarrow> bool" where
  "square_ok s \<longleftrightarrow> sq_random s \<noteq> 0 \<and> 0 \<le> sq_x s \<and> sq_x s \<le> 16384 \<and> 0 \<le> sq_y s \<and> sq_y s \<le> 16384 \<and> 1 \<le> sq_length s"

definition glyph :: "int \<Rightarrow> int \<Rightarrow> int \<Rightarrow> int \<Rightarrow> int \<Rightarrow> glyph_copy" where
  "glyph w h x y i = \<lparr>gc_src = offset_planes 24 40 0 0, gc_dst = offset_planes w h (x + 24 * i) y, gc_size = (min 24 w, min 40 h)\<rparr>"

lemma glyphs_eq: "draw_glyphs n i w h x y 4 = Some (map (\<lambda>j. glyph w h x y (i + int j)) [0..<n])"
proof (induction n arbitrary: i)
  case (Suc n)
  have "I420_create 6 10 = Some (make_buffer kI420 6 10 6 3 3 90)" "I420_create 24 40 = Some (make_buffer kI420 24 40 24 12 12 1440)" by code_simp+
  then have "drawI420DigitNumber 6 10 4 w h (x + 24 * i) y = Some (glyph w h x y i)"
    by (simp add: drawI420DigitNumber_def make_buffer_def glyph_def)
  then have "draw_glyphs (Suc n) i w h x y 4 = Some (glyph w h x y i # map (\<lambda>j. glyph w h x y (i + 1 + int j)) [0..<n])"
    using Suc.IH [of "i + 1"] by (simp add: kBitmapWidth_def kBitmapHeight_def)
  also have "\<dots> = Some (map (\<lambda>j. glyph w h x y (i + int j)) [0..<Suc n])" by (simp add: upt_conv_Cons map_Suc_upt [symmetric] add.assoc comp_def del: upt_Suc)
  finally show ?case .
qed simp

text \<open>Where libyuv writes when it copies an image of a size to planes.\<close>

definition glyph_writes :: "glyph_copy \<Rightarrow> int set list" where
  "glyph_writes c = map2 samples (gc_dst c) (plane_sizes kI420 (gc_size c))"

lemma samples_bounds:
  assumes "q \<in> samples (p, stride) (cols, rows)" "0 \<le> stride"
  shows "p \<le> q" "q \<le> p + (rows - 1) * stride + (cols - 1)"
proof -
  obtain r c where q: "q = p + r * stride + c" "0 \<le> r" "r < rows" "0 \<le> c" "c < cols" using assms(1) by auto
  then have "0 \<le> r * stride" "r * stride \<le> (rows - 1) * stride" using assms(2) by (auto intro: mult_right_mono)
  then show "p \<le> q" "q \<le> p + (rows - 1) * stride + (cols - 1)" using q by linarith+
qed

lemma samples_corner: "0 < rows \<Longrightarrow> 0 < cols \<Longrightarrow> p + (rows - 1) * stride + (cols - 1) \<in> samples (p, stride) (cols, rows)"
  by (simp only: samples.simps mem_Collect_eq) (intro exI [of _ "rows - 1"] exI [of _ "cols - 1"], simp)

lemma samples_inside: "0 \<le> p \<Longrightarrow> 0 \<le> stride \<Longrightarrow> p + (rows - 1) * stride + cols \<le> n \<Longrightarrow> samples (p, stride) (cols, rows) \<subseteq> {0 ..< n}"
  using samples_bounds [of _ p stride cols rows] by fastforce

text \<open>
  The frames that have room for the time: the last of the 23 glyphs, which is cut to the size of the frame, ends before the memory
  does, in the luma plane and in the last chroma plane.
\<close>

definition overlay_fits :: "int \<Rightarrow> int \<Rightarrow> bool" where
  "overlay_fits w h \<longleftrightarrow> (let n = w * h + 2 * ((w + 1) div 2 * ((h + 1) div 2)) in
     100 * w + 538 + (min 40 h - 1) * w + min 24 w \<le> n \<and>
     w * h + w div 2 * (h div 2) + 50 * (w div 2) + 269 + ((min 40 h + 1) div 2 - 1) * (w div 2) + (min 24 w + 1) div 2 \<le> n)"

lemma glyph_inside_eq:
  assumes "0 < w" "0 < h"
  shows "glyph_inside n (glyph w h 10 100 (int j)) \<longleftrightarrow>
    w * 100 + (10 + 24 * int j) + (min 40 h - 1) * w + min 24 w \<le> n \<and>
    w * h + w div 2 * 50 + (5 + 12 * int j) + ((min 40 h + 1) div 2 - 1) * (w div 2) + (min 24 w + 1) div 2 \<le> n \<and>
    w * h + w div 2 * (h div 2) + w div 2 * 50 + (5 + 12 * int j) + ((min 40 h + 1) div 2 - 1) * (w div 2) + (min 24 w + 1) div 2 \<le> n"
proof -
  have s: "(10 + 24 * int j) sdiv 2 = 5 + 12 * int j" "100 sdiv 2 = (50 :: int)" by (simp_all add: sdiv_nonneg)
  have d: "offset_planes w h (10 + 24 * int j) 100 = [(w * 100 + (10 + 24 * int j), w), (w * h + w div 2 * 50 + (5 + 12 * int j), w div 2),
      (w * h + w div 2 * (h div 2) + w div 2 * 50 + (5 + 12 * int j), w div 2)]"
    unfolding offset_planes_def I420_Y_OFFSET_PTR_def I420_U_OFFSET_PTR_def I420_V_OFFSET_PTR_def I420_U_PTR_def I420_V_PTR_def I420_UV_STRIDE_def s by simp
  have p: "0 \<le> w * h" "0 \<le> w div 2" "0 \<le> w div 2 * (h div 2)" using assms by (simp_all add: pos_imp_zdiv_nonneg_iff)
  then have q: "0 \<le> w * 100 + (10 + 24 * int j)" "0 \<le> w * h + w div 2 * 50 + (5 + 12 * int j)"
      "0 \<le> w * h + w div 2 * (h div 2) + w div 2 * 50 + (5 + 12 * int j)"
    using assms by simp_all
  show ?thesis
    unfolding glyph_inside_def glyph_def by (simp only: glyph_copy.select_convs d prod.case zip_Cons_Cons zip_Nil list.pred_inject q simp_thms)
qed

lemma overlay_inside:
  assumes "0 < w" "0 < h" "n = w * h + 2 * ((w + 1) div 2 * ((h + 1) div 2))"
  shows "list_all (glyph_inside n) (map (\<lambda>j. glyph w h 10 100 (int j)) [0..<23]) \<longleftrightarrow> overlay_fits w h"
proof -
  note eq = glyph_inside_eq [OF assms(1,2), of n]
  have p: "0 \<le> w div 2 * (h div 2)" using assms by (simp add: pos_imp_zdiv_nonneg_iff)
  have "(\<forall>j < 23. glyph_inside n (glyph w h 10 100 (int j))) \<longleftrightarrow> glyph_inside n (glyph w h 10 100 (int 22))"
  proof
    assume "glyph_inside n (glyph w h 10 100 (int 22))"
    then show "\<forall>j < 23. glyph_inside n (glyph w h 10 100 (int j))" unfolding eq by auto
  qed (drule spec [of _ 22], simp)
  also have "\<dots> \<longleftrightarrow> overlay_fits w h" unfolding eq overlay_fits_def Let_def assms(3) [symmetric] using p by auto
  finally show ?thesis by (simp add: list_all_length del: upt_rec_numeral)
qed

lemma glyph_writes_inside:
  assumes "0 < w" "0 < h" "glyph_inside n (glyph w h 10 100 (int j))"
  shows "list_all (\<lambda>A. A \<subseteq> {0 ..< n}) (glyph_writes (glyph w h 10 100 (int j)))"
proof -
  have "0 \<le> w div 2" using assms(1) by (simp add: pos_imp_zdiv_nonneg_iff)
  then show ?thesis
    using assms unfolding glyph_inside_def glyph_writes_def glyph_def offset_planes_def I420_UV_STRIDE_def
    by (simp add: chroma_defs samples_inside del: samples.simps)
qed

lemma draw_ok:
  assumes b: "buffer_ok b" "bf_type b = kI420" "bf_width b = w" "bf_height b = h" "size_ok w h" and s: "square_ok s"
    and a: "alpha = None \<and> overlay_fits w h \<or> (\<exists>a. alpha = Some a \<and> buffer_ok a \<and> bf_type a = kI420 \<and> bf_width a = w \<and> bf_height a = h)"
    and n: "bf_size b = w * h + 2 * ((w + 1) div 2 * ((h + 1) div 2))"
  shows "\<exists>d s'. draw b alpha s = Some (d, s') \<and> square_ok s' \<and> list_all (fill_ok b) (dr_fills d) \<and>
    (case alpha of None \<Rightarrow> dr_alpha d = [] | Some a \<Rightarrow> list_all (fill_ok a) (dr_alpha d)) \<and>
    list_all (\<lambda>c. list_all (\<lambda>A. A \<subseteq> {0 ..< bf_size b}) (glyph_writes c)) (dr_glyphs d)"
proof -
  have z: "0 < w" "w \<le> 16384" "0 < h" "h \<le> 16384" using b(5) by (simp_all add: size_ok_def)
  define len where "len = min (sq_length s) (min h w sdiv 4)"
  have len: "0 \<le> len" "len < w" "len < h" using z s by (auto simp: len_def sdiv_nonneg square_ok_def)
  have r: "in_int32 0" "in_int32 4" by (simp_all add: in_int32_def int_range_defs)
  obtain dx g where dx: "Rand_signed 0 4 (sq_random s) = Some (dx, g)" "g \<noteq> 0" "0 \<le> dx" "dx \<le> 4" using Rand_signed_ok [OF _ _ r, of "sq_random s"] s by (auto simp: square_ok_def)
  obtain dy g' where dy: "Rand_signed 0 4 g = Some (dy, g')" "g' \<noteq> 0" "0 \<le> dy" "dy \<le> 4" using Rand_signed_ok [OF dx(2) _ r] by auto
  have i: "int32 (sq_x s + dx) = Some (sq_x s + dx)" "int32 (sq_y s + dy) = Some (sq_y s + dy)" "int32 (w - len) = Some (w - len)" "int32 (h - len) = Some (h - len)"
    using s dx dy len z by (simp_all add: square_ok_def int32_def in_int32_def int_range_defs)
  define x y where xy: "x = (sq_x s + dx) mod (w - len)" "y = (sq_y s + dy) mod (h - len)"
  have m: "mod32 (sq_x s + dx) (w - len) = Some x" "mod32 (sq_y s + dy) (h - len) = Some y"
    using s dx dy len by (auto simp: mod32_def smod_nonneg xy square_ok_def int_range_defs)
  have x: "0 \<le> x" "x + len \<le> w" "x < w" and y: "0 \<le> y" "y + len \<le> h" "y < h"
  proof -
    have "x < w - len" "y < h - len" using len by (simp_all add: xy)
    moreover show "0 \<le> x" "0 \<le> y" using len by (simp_all add: xy)
    ultimately show "x + len \<le> w" "x < w" "y + len \<le> h" "y < h" using len by linarith+
  qed
  obtain lu where lu: "fill_luma b x y len (yuv_y s) = Some lu" "list_all (fill_ok b) lu" using fill_luma_ok [OF b(1,2), of x len y] x y b by blast
  obtain ch where ch: "fill_chroma b x y len (yuv_u s) (yuv_v s) = Some ch" "list_all (fill_ok b) ch" using fill_chroma_ok [OF b(1,2), of x len y] x y b len by blast
  let ?s = "s\<lparr>sq_random := g', sq_x := x, sq_y := y\<rparr>"
  have "square_ok ?s" using s dy(2) x y z by (simp add: square_ok_def)
  moreover have "draw b alpha s = (case alpha of
        None \<Rightarrow> do { cs \<leftarrow> drawI420LocalTime w h 10 100 4; dcheck (list_all (glyph_inside (bf_size b)) cs); Some (\<lparr>dr_fills = lu @ ch, dr_alpha = [], dr_glyphs = cs\<rparr>, ?s) }
      | Some a \<Rightarrow> do { as \<leftarrow> fill_luma a x y len (yuv_a s); Some (\<lparr>dr_fills = lu @ ch, dr_alpha = as, dr_glyphs = []\<rparr>, ?s) })"
    unfolding draw_def Let_def b(3,4) len_def [symmetric] using dx(1) dy(1) i m lu(1) ch(1) by (cases alpha) simp_all
  moreover define cs where "cs = map (\<lambda>j. glyph w h 10 100 (int j)) [0..<23]"
  then have "drawI420LocalTime w h 10 100 4 = Some cs" by (simp add: drawI420LocalTime_def glyphs_eq)
  moreover have "list_all (glyph_inside (bf_size b)) cs" if "alpha = None"
    using overlay_inside [OF z(1,3) n] a that by (simp add: cs_def)
  moreover have "list_all (\<lambda>c. list_all (\<lambda>A. A \<subseteq> {0 ..< bf_size b}) (glyph_writes c)) cs" if "list_all (glyph_inside (bf_size b)) cs"
    using that glyph_writes_inside [OF z(1,3)] unfolding cs_def list.pred_map by (simp add: list_all_length comp_def del: upt_rec_numeral)
  moreover have "\<exists>as. fill_luma a x y len (yuv_a s) = Some as \<and> list_all (fill_ok a) as" if "alpha = Some a" for a
    using fill_luma_ok [of a x len y] x y a that by auto
  ultimately show ?thesis using lu(2) ch(2) by (cases alpha) auto
qed

text \<open>What is drawn into a frame with the image \<open>b\<close> and perhaps an alpha plane stays inside: every square inside
  the planes, and every glyph of the time inside the memory of the image.\<close>

definition drawing_ok :: "pixel_buffer \<Rightarrow> pixel_buffer option \<Rightarrow> drawing \<Rightarrow> bool" where
  "drawing_ok b alpha d \<longleftrightarrow> list_all (fill_ok b) (dr_fills d) \<and> (case alpha of None \<Rightarrow> dr_alpha d = [] | Some a \<Rightarrow> list_all (fill_ok a) (dr_alpha d)) \<and>
     list_all (\<lambda>c. list_all (\<lambda>A. A \<subseteq> {0 ..< bf_size b}) (glyph_writes c)) (dr_glyphs d)"

lemma draw_squares_ok:
  assumes b: "buffer_ok b" "bf_type b = kI420" "bf_width b = w" "bf_height b = h" "size_ok w h"
    and n: "bf_size b = w * h + 2 * ((w + 1) div 2 * ((h + 1) div 2))"
    and a: "alpha = None \<and> overlay_fits w h \<or> (\<exists>a. alpha = Some a \<and> buffer_ok a \<and> bf_type a = kI420 \<and> bf_width a = w \<and> bf_height a = h)"
  shows "list_all square_ok ss \<Longrightarrow> \<exists>ds ss'. draw_squares b alpha ss = Some (ds, ss') \<and> list_all square_ok ss' \<and> list_all (drawing_ok b alpha) ds \<and> length ds = length ss \<and> length ss' = length ss"
proof (induction ss)
  case (Cons s ss)
  obtain d s' where "draw b alpha s = Some (d, s')" "square_ok s'" "drawing_ok b alpha d" using draw_ok [OF b _ a n, of s] Cons.prems by (auto simp: drawing_ok_def)
  then show ?case using Cons by auto
qed simp

lemma Square_ok:
  assumes "size_ok w h" "0 < seed" "seed < 2 ^ 31"
  shows "\<exists>s. Square w h seed = Some s \<and> square_ok s"
proof -
  have z: "0 < w" "w \<le> 16384" "0 < h" "h \<le> 16384" using assms(1) by (simp_all add: size_ok_def)
  have "(word_of_int seed :: u64) \<noteq> 0" using assms(2,3) by (simp add: word_of_int_eq_0_iff zdvd_not_zless)
  then have n: "Random_new (word_of_int seed) = Some (word_of_int seed)" "(word_of_int seed :: u64) \<noteq> 0" by (simp_all add: Random_new_def)
  have i: "in_int32 0" "in_int32 1" "in_int32 255" "in_int32 w" "in_int32 h" "in_int32 (if 4 < w then w div 4 else 1)" "1 \<le> (if 4 < w then w div 4 else 1)"
    using z by (auto simp: in_int32_def int_range_defs)
  obtain x g1 where 1: "Rand_signed 0 w (word_of_int seed) = Some (x, g1)" "g1 \<noteq> 0" "0 \<le> x" "x \<le> w" using Rand_signed_ok [OF n(2) _ i(1,4)] z by auto
  obtain y g2 where 2: "Rand_signed 0 h g1 = Some (y, g2)" "g2 \<noteq> 0" "0 \<le> y" "y \<le> h" using Rand_signed_ok [OF 1(2) _ i(1,5)] z by auto
  obtain l g3 where 3: "Rand_signed 1 (if 4 < w then w div 4 else 1) g2 = Some (l, g3)" "g3 \<noteq> 0" "1 \<le> l" using Rand_signed_ok [OF 2(2) i(7,2,6)] by blast
  have c: "\<exists>v g'. Rand_signed 0 255 g = Some (v, g') \<and> g' \<noteq> 0" if "g \<noteq> 0" for g using Rand_signed_ok [OF that _ i(1,3)] by auto
  obtain vy g4 where 4: "Rand_signed 0 255 g3 = Some (vy, g4)" "g4 \<noteq> 0" using c [OF 3(2)] by blast
  obtain vu g5 where 5: "Rand_signed 0 255 g4 = Some (vu, g5)" "g5 \<noteq> 0" using c [OF 4(2)] by blast
  obtain vv g6 where 6: "Rand_signed 0 255 g5 = Some (vv, g6)" "g6 \<noteq> 0" using c [OF 5(2)] by blast
  obtain va g7 where 7: "Rand_signed 0 255 g6 = Some (va, g7)" "g7 \<noteq> 0" using c [OF 6(2)] by blast
  show ?thesis using n(1) 1 2 3 4(1) 5(1) 6(1) 7 z by (simp add: Square_def square_ok_def)
qed

lemma make_squares_ok: "size_ok w h \<Longrightarrow> n < 2 ^ 31 - 1 \<Longrightarrow> \<exists>ss. make_squares w h n = Some ss \<and> list_all square_ok ss \<and> length ss = n"
proof (induction n)
  case (Suc n)
  then obtain ss where "make_squares w h n = Some ss" "list_all square_ok ss" "length ss = n" by auto
  moreover obtain s where "Square w h (int n + 1) = Some s" "square_ok s" using Square_ok [of w h "int n + 1"] Suc.prems by auto
  ultimately show ?case by simp
qed simp

definition generator_ok :: "square_generator \<Rightarrow> bool" where
  "generator_ok g \<longleftrightarrow> size_ok (sg_width g) (sg_height g) \<and> (sg_type g = OutI420A \<or> overlay_fits (sg_width g) (sg_height g)) \<and> list_all square_ok (squares g)"

definition out_format :: "OutputType \<Rightarrow> format" where
  "out_format t = (case t of OutI010 \<Rightarrow> kI010 | OutNV12 \<Rightarrow> kNV12 | _ \<Rightarrow> kI420)"

text \<open>A frame of the format and size of the generator, drawn without leaving its planes and its memory, one drawing per square.\<close>

definition square_frame_ok :: "square_generator \<Rightarrow> square_frame \<Rightarrow> bool" where
  "square_frame_ok g f \<longleftrightarrow> buffer_ok (sf_buffer f) \<and> bf_type (sf_buffer f) = out_format (sg_type g) \<and> bf_width (sf_buffer f) = sg_width g \<and> bf_height (sf_buffer f) = sg_height g \<and>
     list_all (fill_ok (sf_image f)) (sf_grey f) \<and> (\<forall>a. sf_alpha f = Some a \<longrightarrow> list_all (fill_ok a) (sf_alpha_grey f)) \<and> (sf_alpha f \<noteq> None \<longleftrightarrow> sg_type g = OutI420A) \<and>
     list_all (drawing_ok (sf_image f) (sf_alpha f)) (sf_drawings f) \<and> length (sf_drawings f) = length (squares g) \<and> list_all call_inside (sf_calls f)"

lemma square_nextFrame_ok:
  assumes l: "libyuv_accepts libyuv" and g: "generator_ok g"
  shows "\<exists>f ss. square_nextFrame libyuv g = Some (f, g\<lparr>squares := ss\<rparr>) \<and> square_frame_ok g f \<and> generator_ok (g\<lparr>squares := ss\<rparr>) \<and> length ss = length (squares g)"
proof -
  have z: "size_ok (sg_width g) (sg_height g)" "list_all square_ok (squares g)" "sg_type g = OutI420A \<or> overlay_fits (sg_width g) (sg_height g)"
    using g by (simp_all add: generator_ok_def)
  obtain b fs where b: "createI420Buffer (sg_width g) (sg_height g) = Some (b, fs)" "buffer_ok b" "bf_type b = kI420" "bf_width b = sg_width g" "bf_height b = sg_height g" "list_all (fill_ok b) fs"
    and n: "bf_size b = sg_width g * sg_height g + 2 * ((sg_width g + 1) div 2 * ((sg_height g + 1) div 2))"
    using grey_ok [OF z(1)] by blast
  define a where "a = (if sg_type g = OutI420A then Some b else None)"
  have a: "a = None \<and> overlay_fits (sg_width g) (sg_height g) \<or> (\<exists>a'. a = Some a' \<and> buffer_ok a' \<and> bf_type a' = kI420 \<and> bf_width a' = sg_width g \<and> bf_height a' = sg_height g)" using b z(3) by (auto simp: a_def)
  obtain ds ss where d: "draw_squares b a (squares g) = Some (ds, ss)" "list_all square_ok ss" "list_all (drawing_ok b a) ds" "length ds = length (squares g)" "length ss = length (squares g)"
    using draw_squares_ok [OF b(2-5) z(1) n a z(2)] by blast
  have w: "bf_width b \<le> 16384" "bf_height b \<le> 16384" using z(1) b by (simp_all add: size_ok_def)
  obtain i cs where i: "toI420 libyuv b = Some (i, cs)" "buffer_ok i" "bf_type i = kI420" "bf_width i = sg_width g" "bf_height i = sg_height g" "list_all call_inside cs"
    using toI420_ok [OF l b(2) w] b by (auto simp: op_result_def list_all_iff)
  have wi: "bf_width i \<le> 16384" "bf_height i \<le> 16384" using z(1) i by (simp_all add: size_ok_def)
  obtain r10 c10 where r10: "I010_from_I420 libyuv i = Some (r10, c10)" "buffer_ok r10" "bf_type r10 = kI010" "bf_width r10 = sg_width g" "bf_height r10 = sg_height g" "list_all call_inside c10"
    using convert_I420_ok [OF l i(2) wi, of kI010] i by (auto simp: op_result_def list_all_iff)
  obtain r12 c12 where r12: "NV12_from_I420 i = Some (r12, c12)" "buffer_ok r12" "bf_type r12 = kNV12" "bf_width r12 = sg_width g" "bf_height r12 = sg_height g" "list_all call_inside c12"
    using convert_I420_ok [OF l i(2) wi, of kNV12] i by (auto simp: op_result_def list_all_iff)
  note d1 = d(1) [unfolded a_def]
  have ok: "generator_ok (g\<lparr>squares := ss\<rparr>)" using z d(2) by (simp add: generator_ok_def)
  show ?thesis
    using b d1 d(2-5) i r10 r12 ok unfolding square_nextFrame_def
    by (cases "sg_type g") (simp_all add: square_frame_ok_def out_format_def a_def, blast+)
qed

text \<open>Frames and changes of the resolution, in any order.\<close>

fun square_run :: "(yuv_call \<Rightarrow> int) \<Rightarrow> (int \<times> int) option list \<Rightarrow> square_generator \<Rightarrow> ((square_generator \<times> square_frame) list \<times> square_generator) option" where
  "square_run libyuv [] g = Some ([], g)"
| "square_run libyuv (None # cs) g = do { (f, g') \<leftarrow> square_nextFrame libyuv g; (fs, g'') \<leftarrow> square_run libyuv cs g'; Some ((g, f) # fs, g'') }"
| "square_run libyuv (Some (w, h) # cs) g = do { g \<leftarrow> changeResolution (nat w) (nat h) g; square_run libyuv cs g }"

lemma changeResolution_ok: "size_ok w h \<Longrightarrow> changeResolution (nat w) (nat h) g = Some (g\<lparr>sg_width := w, sg_height := h\<rparr>)"
  by (simp add: changeResolution_def size_ok_def in_int32_def int_range_defs)

text \<open>The sizes for which frames of a type can be drawn: all for frames with an alpha plane, which do not show the time.\<close>

definition drawable :: "OutputType \<Rightarrow> int \<Rightarrow> int \<Rightarrow> bool" where
  "drawable type w h \<longleftrightarrow> size_ok w h \<and> (type = OutI420A \<or> overlay_fits w h)"

lemma square_run_ok:
  assumes "libyuv_accepts libyuv"
  shows "generator_ok g \<Longrightarrow> sg_type g = type \<Longrightarrow> list_all (\<lambda>c. case c of None \<Rightarrow> True | Some (w, h) \<Rightarrow> drawable type w h) cs \<Longrightarrow>
    \<exists>fs g'. square_run libyuv cs g = Some (fs, g') \<and> list_all (\<lambda>(g, f). square_frame_ok g f) fs \<and> length fs = count_list cs None"
proof (induction cs arbitrary: g)
  case (Cons c cs)
  show ?case
  proof (cases c)
    case None
    obtain f ss where f: "square_nextFrame libyuv g = Some (f, g\<lparr>squares := ss\<rparr>)" "square_frame_ok g f" "generator_ok (g\<lparr>squares := ss\<rparr>)"
      using square_nextFrame_ok [OF assms Cons.prems(1)] by blast
    then show ?thesis using Cons.IH [OF f(3)] Cons.prems(2,3) None by auto
  next
    case (Some wh)
    then obtain w h where c: "c = Some (w, h)" "size_ok w h" "drawable type w h" using Cons.prems(3) by (cases wh) (auto simp: drawable_def)
    then have "generator_ok (g\<lparr>sg_width := w, sg_height := h\<rparr>)" using Cons.prems(1,2) by (simp add: generator_ok_def drawable_def)
    then show ?thesis using Cons.IH [of "g\<lparr>sg_width := w, sg_height := h\<rparr>"] changeResolution_ok [OF c(2), of g] Cons.prems(2,3) c by auto
  qed
qed simp

text \<open>Where the time does not fit, drawing a square is undefined.\<close>

lemma bind_nowhere [simp]: "Option.bind y (\<lambda>x. None) = None"
  by (cases y) simp_all

lemma draw_outside:
  assumes "bf_width b = w" "bf_height b = h" "0 < w" "0 < h" "bf_size b = w * h + 2 * ((w + 1) div 2 * ((h + 1) div 2))" "\<not> overlay_fits w h"
  shows "draw b None s = None"
proof -
  have "drawI420LocalTime w h 10 100 4 = Some (map (\<lambda>j. glyph w h 10 100 (int j)) [0..<23])" by (simp add: drawI420LocalTime_def glyphs_eq)
  moreover have "\<not> list_all (glyph_inside (bf_size b)) (map (\<lambda>j. glyph w h 10 100 (int j)) [0..<23])" using overlay_inside [OF assms(3-5)] assms(6) by simp
  ultimately show ?thesis unfolding draw_def assms(1,2) by (simp add: Let_def split_def dcheck_def)
qed

lemma square_nextFrame_outside:
  assumes "size_ok (sg_width g) (sg_height g)" "sg_type g \<noteq> OutI420A" "\<not> overlay_fits (sg_width g) (sg_height g)" "squares g \<noteq> []"
  shows "square_nextFrame libyuv g = None"
proof -
  obtain b fs where b: "createI420Buffer (sg_width g) (sg_height g) = Some (b, fs)" "bf_width b = sg_width g" "bf_height b = sg_height g"
      "bf_size b = sg_width g * sg_height g + 2 * ((sg_width g + 1) div 2 * ((sg_height g + 1) div 2))"
    using grey_ok [OF assms(1)] by blast
  have "draw b None s = None" for s using assms(1,3) by (intro draw_outside [OF b(2,3) _ _ b(4)]) (simp_all add: size_ok_def)
  then have "draw_squares b None (squares g) = None" using assms(4) by (cases "squares g") simp_all
  then show ?thesis using b(1) assms(2) by (simp add: square_nextFrame_def)
qed

text \<open>
  C37: square generators of sizes up to 16384. With sizes that have room for the time of day, or with an alpha plane, a generator draws any number of
  frames with any changes of the resolution in between: no check fails, no modulus is 0, every square stays inside the planes of the image and of the alpha plane,
  every glyph of the time stays inside the memory of the image, and the frame has the format and size asked for. For any other size
  the first frame of a generator with a square at least is undefined: a glyph is copied outside the memory of the image.
\<close>

theorem square_session:
  assumes "libyuv_accepts libyuv" "size_ok w h" "0 \<le> n" "n < 2 ^ 31 - 1"
  shows "\<exists>g. SquareGenerator w h type n = Some g \<and> length (squares g) = nat n \<and>
    (drawable type w h \<and> list_all (\<lambda>c. case c of None \<Rightarrow> True | Some (w, h) \<Rightarrow> drawable type w h) cs \<longrightarrow>
      (\<exists>fs g'. square_run libyuv cs g = Some (fs, g') \<and> list_all (\<lambda>(g, f). square_frame_ok g f) fs \<and> length fs = count_list cs None)) \<and>
    (\<not> drawable type w h \<and> 0 < n \<longrightarrow> square_nextFrame libyuv g = None)"
proof -
  obtain ss where ss: "make_squares w h (nat n) = Some ss" "list_all square_ok ss" "length ss = nat n" using make_squares_ok [OF assms(2), of "nat n"] assms(3,4) by (auto simp: nat_less_iff)
  have "w mod 2 ^ 64 = w" "h mod 2 ^ 64 = h" using assms(2) by (simp_all add: size_ok_def)
  let ?g = "\<lparr>sg_type = type, sg_width = w, sg_height = h, squares = ss\<rparr>"
  have g: "SquareGenerator w h type n = Some ?g"
    using ss(1) changeResolution_ok [OF assms(2)] \<open>w mod 2 ^ 64 = w\<close> \<open>h mod 2 ^ 64 = h\<close> by (simp add: SquareGenerator_def)
  have "\<exists>fs g'. square_run libyuv cs ?g = Some (fs, g') \<and> list_all (\<lambda>(g, f). square_frame_ok g f) fs \<and> length fs = count_list cs None"
    if d: "drawable type w h" "list_all (\<lambda>c. case c of None \<Rightarrow> True | Some (w, h) \<Rightarrow> drawable type w h) cs"
    using square_run_ok [OF assms(1), of ?g type cs] ss(2) d by (auto simp: generator_ok_def drawable_def)
  moreover have "square_nextFrame libyuv ?g = None" if "\<not> drawable type w h" "0 < n"
    using square_nextFrame_outside [of ?g libyuv] assms(2) that ss(3) by (cases ss) (auto simp: drawable_def)
  ultimately show ?thesis using g ss(3) by (intro exI [of _ ?g]) simp
qed

theorem square_session_witness:
  "(\<exists>g fs g'. SquareGenerator 640 480 OutNV12 10 = Some g \<and> square_run (\<lambda>_. 0) [None, Some (641, 361), None] g = Some (fs, g') \<and> length fs = 2) \<and>
   (\<exists>g. SquareGenerator 176 144 OutI420 1 = Some g \<and> square_nextFrame (\<lambda>_. 0) g = None)"
proof
  show "\<exists>g fs g'. SquareGenerator 640 480 OutNV12 10 = Some g \<and> square_run (\<lambda>_. 0) [None, Some (641, 361), None] g = Some (fs, g') \<and> length fs = 2"
    using square_session [of "\<lambda>_. 0" 640 480 10 OutNV12 "[None, Some (641, 361), None]"] by (auto simp: libyuv_accepts_def size_ok_def drawable_def overlay_fits_def)
  show "\<exists>g. SquareGenerator 176 144 OutI420 1 = Some g \<and> square_nextFrame (\<lambda>_. 0) g = None"
    using square_session [of "\<lambda>_. 0" 176 144 1 OutI420 "[]"] by (auto simp: libyuv_accepts_def size_ok_def drawable_def overlay_fits_def)
qed


section \<open>The slide generator\<close>

lemma slide_squares_ok:
  assumes b: "buffer_ok b" "bf_type b = kI420" "bf_width b = w" "bf_height b = h" "size_ok w h" "w div 4 \<le> h" and num: "0 < num" "num \<le> 1024"
  shows "g \<noteq> 0 \<Longrightarrow> 0 \<le> i \<Longrightarrow> i + int n \<le> num \<Longrightarrow> \<exists>fs g'. slide_squares n i num w h b g = Some (fs, g') \<and> g' \<noteq> 0 \<and> list_all (fill_ok b) fs"
proof (induction n arbitrary: i g)
  case (Suc n)
  have z: "0 < w" "w \<le> 16384" "0 < h" "h \<le> 16384" using b(5) by (simp_all add: size_ok_def)
  define m where "m = (if 4 < w then w div 4 else 1)"
  have m: "1 \<le> m" "m \<le> w" "m \<le> h" "m \<le> 4096" using z b(6) by (auto simp: m_def)
  have j: "in_int32 0" "in_int32 1" "in_int32 255" "in_int32 m" using m by (simp_all add: in_int32_def int_range_defs)
  obtain l0 g1 where 1: "Rand_signed 1 m g = Some (l0, g1)" "g1 \<noteq> 0" "1 \<le> l0" "l0 \<le> m" using Rand_signed_ok [OF Suc.prems(1) m(1) j(2,4)] by blast
  have i: "0 < num - i" "num - i \<le> num" using Suc.prems by simp_all
  have p: "0 \<le> l0 * (num - i)" "l0 * (num - i) \<le> 4096 * 1024" "l0 * (num - i) \<le> l0 * num"
    using 1 i num m mult_mono [of l0 4096 "num - i" 1024] by (simp_all add: mult_left_mono)
  define len where "len = l0 * (num - i) sdiv num"
  have e: "int32 (l0 * (num - i)) = Some (l0 * (num - i))" using p by (simp add: int32_def in_int32_def int_range_defs)
  have len: "0 \<le> len" "len \<le> m"
  proof -
    have "len = l0 * (num - i) div num" using p(1) num(1) by (simp add: len_def sdiv_nonneg)
    moreover have "l0 * (num - i) div num \<le> l0 * num div num" using p(3) num(1) by (rule zdiv_mono1)
    ultimately show "0 \<le> len" "len \<le> m" using 1(4) num(1) p(1) by (simp_all add: pos_imp_zdiv_nonneg_iff)
  qed
  have k: "in_int32 (w - len)" "in_int32 (h - len)" "0 \<le> w - len" "0 \<le> h - len" using len m z by (simp_all add: in_int32_def int_range_defs)
  obtain x g2 where 2: "Rand_signed 0 (w - len) g1 = Some (x, g2)" "g2 \<noteq> 0" "0 \<le> x" "x \<le> w - len" using Rand_signed_ok [OF 1(2) k(3) j(1) k(1)] by blast
  obtain y g3 where 3: "Rand_signed 0 (h - len) g2 = Some (y, g3)" "g3 \<noteq> 0" "0 \<le> y" "y \<le> h - len" using Rand_signed_ok [OF 2(2) k(4) j(1) k(2)] by blast
  have c: "\<exists>v g'. Rand_signed 0 255 g = Some (v, g') \<and> g' \<noteq> 0" if "g \<noteq> 0" for g using Rand_signed_ok [OF that _ j(1,3)] by auto
  obtain vy g4 where 4: "Rand_signed 0 255 g3 = Some (vy, g4)" "g4 \<noteq> 0" using c [OF 3(2)] by blast
  obtain vu g5 where 5: "Rand_signed 0 255 g4 = Some (vu, g5)" "g5 \<noteq> 0" using c [OF 4(2)] by blast
  obtain vv g6 where 6: "Rand_signed 0 255 g5 = Some (vv, g6)" "g6 \<noteq> 0" using c [OF 5(2)] by blast
  obtain lu where lu: "fill_luma b x y len vy = Some lu" "list_all (fill_ok b) lu" using fill_luma_ok [OF b(1,2), of x len y] 2 3 b by auto
  obtain ch where ch: "fill_chroma b x y len vu vv = Some ch" "list_all (fill_ok b) ch" using fill_chroma_ok [OF b(1,2), of x len y] 2 3 b len by auto
  obtain fs g' where "slide_squares n (i + 1) num w h b g6 = Some (fs, g')" "g' \<noteq> 0" "list_all (fill_ok b) fs" using Suc.IH [OF 6(2), of "i + 1"] Suc.prems by auto
  then show ?case using 1(1) 2(1) 3(1) 4(1) 5(1) 6(1) lu ch e by (auto simp: m_def len_def Let_def)
qed simp

text \<open>A slide is the buffer with everything that was filled in it.\<close>

definition slide_ok :: "int \<Rightarrow> int \<Rightarrow> (pixel_buffer \<times> fill list) option \<Rightarrow> bool" where
  "slide_ok w h r \<longleftrightarrow> (case r of None \<Rightarrow> False | Some (b, fs) \<Rightarrow> buffer_ok b \<and> bf_type b = kI420 \<and> bf_width b = w \<and> bf_height b = h \<and> list_all (fill_ok b) fs)"

definition slide_state :: "int \<Rightarrow> int \<Rightarrow> slide_generator \<Rightarrow> bool" where
  "slide_state w h s \<longleftrightarrow> sl_width s = w \<and> sl_height s = h \<and> sl_random s \<noteq> 0 \<and> 0 \<le> sl_current_count s \<and> sl_current_count s < sl_display_count s \<and> sl_display_count s < 2 ^ 31 \<and>
     (sl_current_count s = 0 \<or> slide_ok w h (sl_buffer s))"

lemma generateNewFrame_ok:
  assumes "size_ok w h" "w div 4 \<le> h" "slide_state w h s"
  shows "\<exists>g r. generateNewFrame s = Some (s\<lparr>sl_random := g, sl_buffer := r\<rparr>) \<and> g \<noteq> 0 \<and> slide_ok w h r"
proof -
  have s: "sl_width s = w" "sl_height s = h" "sl_random s \<noteq> 0" using assms(3) by (simp_all add: slide_state_def)
  obtain k g where k: "Rand_signed 0 3 (sl_random s) = Some (k, g)" "g \<noteq> 0" "0 \<le> k" "k \<le> 3" using Rand_signed_ok [OF s(3), of 0 3] by (auto simp: in_int32_def int_range_defs)
  obtain b fs where b: "createI420Buffer w h = Some (b, fs)" "create_buffer kI420 w h = Some b" "buffer_ok b" "bf_type b = kI420" "bf_width b = w" "bf_height b = h"
      "grey_planes b = Some fs" "list_all (fill_ok b) fs"
    using grey_ok [OF assms(1)] by blast
  have c: "I420_create w h = Some b" using b(2) by (simp add: create_buffer_def)
  define num :: int where "num = 2 ^ nat (4 + k * 2)"
  have "num \<le> 2 ^ 10" unfolding num_def using k by (intro power_increasing) simp_all
  then have num: "0 < num" "num \<le> 1024" by (simp_all add: num_def)
  obtain fs' g' where f: "slide_squares (nat num) 0 num w h b g = Some (fs', g')" "g' \<noteq> 0" "list_all (fill_ok b) fs'"
    using slide_squares_ok [OF b(3-6) assms(1,2) num k(2), of 0 "nat num"] num by auto
  then have "generateNewFrame s = Some (s\<lparr>sl_random := g', sl_buffer := Some (b, fs @ fs')\<rparr>)"
    using k(1) c b(7) s(1,2) by (simp add: generateNewFrame_def Let_def num_def [symmetric])
  moreover have "slide_ok w h (Some (b, fs @ fs'))" using b f(3) by (simp add: slide_ok_def)
  ultimately show ?thesis using f(2) by blast
qed

lemma slide_nextFrame_ok:
  assumes "size_ok w h" "w div 4 \<le> h" "slide_state w h s"
  shows "\<exists>r s'. slide_nextFrame s = Some (r, s') \<and> slide_ok w h r \<and> slide_state w h s'"
proof -
  obtain g r where g: "(if sl_current_count s = 0 then generateNewFrame s else Some s) = Some (s\<lparr>sl_random := g, sl_buffer := r\<rparr>)" "g \<noteq> 0" "slide_ok w h r"
  proof (cases "sl_current_count s = 0")
    case True
    then show ?thesis using generateNewFrame_ok [OF assms] that by auto
  next
    case False
    then show ?thesis using that [where g = "sl_random s" and r = "sl_buffer s"] assms(3) by (simp add: slide_state_def)
  qed
  have s: "0 \<le> sl_current_count s" "sl_current_count s < sl_display_count s" "sl_display_count s < 2 ^ 31" "sl_width s = w" "sl_height s = h"
    using assms(3) by (simp_all add: slide_state_def)
  then have "int32 (sl_current_count s + 1) = Some (sl_current_count s + 1)" by (simp add: int32_def in_int32_def int_range_defs)
  then show ?thesis unfolding slide_nextFrame_def g(1) using g(2,3) s by (simp add: Let_def slide_state_def)
qed

fun slide_run :: "nat \<Rightarrow> slide_generator \<Rightarrow> ((pixel_buffer \<times> fill list) option list \<times> slide_generator) option" where
  "slide_run 0 s = Some ([], s)"
| "slide_run (Suc n) s = do { (r, s) \<leftarrow> slide_nextFrame s; (rs, s) \<leftarrow> slide_run n s; Some (r # rs, s) }"

lemma slide_session:
  assumes "size_ok w h" "w div 4 \<le> h" "0 < k" "k < 2 ^ 31"
  shows "\<exists>s rs s'. SlideGenerator w h k = Some s \<and> slide_run n s = Some (rs, s') \<and> length rs = n \<and> list_all (slide_ok w h) rs"
proof -
  have "\<exists>rs s'. slide_run n s = Some (rs, s') \<and> length rs = n \<and> list_all (slide_ok w h) rs" if "slide_state w h s" for s
    using that
  proof (induction n arbitrary: s)
    case (Suc n)
    obtain r s' where "slide_nextFrame s = Some (r, s')" "slide_ok w h r" "slide_state w h s'" using slide_nextFrame_ok [OF assms(1,2) Suc.prems] by blast
    then show ?case using Suc.IH [of s'] by auto
  qed simp
  then show ?thesis using assms by (auto simp: SlideGenerator_def Random_new_def slide_state_def size_ok_def)
qed


section \<open>The time in small frames\<close>

lemma glyph_writes_even:
  assumes "12 \<le> W" "20 \<le> H"
  shows "glyph_writes (glyph (2 * W) (2 * H) 10 100 (int j)) =
    [samples (200 * W + 10 + 24 * int j, 2 * W) (24, 40), samples (4 * (W * H) + 50 * W + 5 + 12 * int j, W) (12, 20), samples (5 * (W * H) + 50 * W + 5 + 12 * int j, W) (12, 20)]"
proof -
  have "(10 + 24 * int j) sdiv 2 = 5 + 12 * int j" by (simp add: sdiv_nonneg)
  moreover have "100 sdiv 2 = (50 :: int)" by (simp add: sdiv_nonneg)
  ultimately show ?thesis
    using assms by (simp add: glyph_writes_def glyph_def offset_planes_def I420_Y_OFFSET_PTR_def I420_U_OFFSET_PTR_def I420_V_OFFSET_PTR_def I420_U_PTR_def I420_V_PTR_def
      I420_UV_STRIDE_def chroma_defs algebra_simps del: samples.simps)
qed

text \<open>
  C38: the time that \<open>draw\<close> writes into I420 frames, 23 glyphs of 24 x 40 pixels from the point (10, 100) on whatever the size of the frame, stays inside the memory of a frame of even width 2W
  from 24 and even height 2H from 40 on exactly if 69 W + 280 < W H. So in all of these that are lower than 140 rows, and in frames of 176 x 144 pixels, it writes behind the end of the memory.
\<close>

theorem time_overlay_memory:
  assumes "12 \<le> W" "2 * W \<le> 16384" "20 \<le> H" "2 * H \<le> 16384"
  shows "\<exists>b cs. I420_create (2 * W) (2 * H) = Some b \<and> drawI420LocalTime (bf_width b) (bf_height b) 10 100 4 = Some cs \<and>
    (list_all (\<lambda>c. list_all (\<lambda>A. A \<subseteq> {0 ..< bf_size b}) (glyph_writes c)) cs \<longleftrightarrow> 69 * W + 280 < W * H)"
proof -
  obtain b where b: "create_buffer kI420 (2 * W) (2 * H) = Some b" "buffer_ok b" "bf_type b = kI420" "bf_width b = 2 * W" "bf_height b = 2 * H"
    using create_Some [of "2 * W" "2 * H" kI420] assms by auto
  have c: "I420_create (2 * W) (2 * H) = Some b" using b(1) by (simp add: create_buffer_def)
  have u: "half_up (2 * W) = Some W" using assms by (simp add: half_up_pos int_range_defs)
  then have "strideY b = 2 * W" "strideU b = W" "strideV b = W" using c by (auto simp: I420_create_def I420Buffer_def bind_Some make_buffer_def)
  then have size: "bf_size b = 6 * (W * H)" using b by (simp add: buffer_ok_def total_samples_def chroma_defs)
  have cs: "drawI420LocalTime (bf_width b) (bf_height b) 10 100 4 = Some (map (\<lambda>j. glyph (2 * W) (2 * H) 10 100 (int j)) [0..<23])"
    by (simp add: drawI420LocalTime_def glyphs_eq b(4,5))
  note w = glyph_writes_even [OF assms(1,3)]
  have "(\<forall>j < 23. list_all (\<lambda>A. A \<subseteq> {0 ..< 6 * (W * H)}) (glyph_writes (glyph (2 * W) (2 * H) 10 100 (int j)))) \<longleftrightarrow> 69 * W + 280 < W * H" (is "?l \<longleftrightarrow> ?r")
  proof
    assume ?l
    then have s: "samples (269 + (5 * (W * H) + 50 * W), W) (12, 20) \<subseteq> {0 ..< 6 * (W * H)}" unfolding w by (drule_tac spec [of _ 22]) (simp del: samples.simps)
    have "269 + (5 * (W * H) + 50 * W) + (20 - 1) * W + (12 - 1) \<in> {0 ..< 6 * (W * H)}" by (rule subsetD [OF s samples_corner]) simp_all
    then show ?r by (simp add: mult.commute)
  next
    assume r: ?r
    have "0 \<le> W" "0 \<le> W * H" using assms by simp_all
    then show ?l unfolding w list.pred_inject using r assms by (intro allI impI conjI TrueI samples_inside) (auto simp: mult.commute [of H W])
  qed
  then have "list_all (\<lambda>c. list_all (\<lambda>A. A \<subseteq> {0 ..< bf_size b}) (glyph_writes c)) (map (\<lambda>j. glyph (2 * W) (2 * H) 10 100 (int j)) [0..<23]) \<longleftrightarrow> 69 * W + 280 < W * H"
    unfolding size by (simp add: list_all_length del: upt_rec_numeral)
  then show ?thesis using c cs by blast
qed

theorem time_overlay_memory_witness:
  "\<exists>b cs. I420_create 176 144 = Some b \<and> drawI420LocalTime (bf_width b) (bf_height b) 10 100 4 = Some cs \<and>
     \<not> list_all (\<lambda>c. list_all (\<lambda>A. A \<subseteq> {0 ..< bf_size b}) (glyph_writes c)) cs"
  using time_overlay_memory [of 88 72] by auto


text \<open>
  The slide generator asks for a random row for a square that may be higher than the frame: the first slide of 400 x 12 pixels fails the check of \<open>Random::Rand\<close>.
  Frames at least a quarter as high as wide never do.
\<close>

theorem slide_too_wide: "\<exists>s. SlideGenerator 400 12 1 = Some s \<and> slide_nextFrame s = None"
proof -
  define s where "s = \<lparr>sl_width = 400, sl_height = 12, sl_display_count = 1, sl_current_count = 0, sl_random = 1234, sl_buffer = None\<rparr>"
  have n: "SlideGenerator 400 12 1 = Some s" by (simp add: SlideGenerator_def Random_new_def s_def)
  have r: "Rand_signed 0 3 1234 = Some (0, 41406170598)" "Rand_signed 1 100 41406170598 = Some (13, 1389699684410119595)" by code_simp+
  obtain x where x: "Rand_signed 0 387 1389699684410119595 = Some x" using Rand_signed_ok [of 1389699684410119595 0 387] by (auto simp: in_int32_def int_range_defs)
  have neg: "Rand_signed 0 (- 1) g = None" for g by (simp add: Rand_signed_def)
  have "slide_squares (Suc 15) 0 16 400 12 b 41406170598 = None" for b
    unfolding slide_squares.simps using r(2) x by (cases x) (simp add: int32_def in_int32_def int_range_defs sdiv_nonneg neg)
  moreover have "(16 :: nat) = Suc 15" by simp
  ultimately have sq: "slide_squares 16 0 16 400 12 b 41406170598 = None" for b by metis
  have "Option.bind y (\<lambda>x. None) = None" for y :: "'x option" by (cases y) simp_all
  then have "generateNewFrame s = None" using r(1) sq by (simp add: generateNewFrame_def s_def)
  then show ?thesis using n by (simp add: slide_nextFrame_def s_def)
qed

end
