(* ===== verification/Spec2Isabelle.thy ===== *)
theory Spec2Isabelle
  imports BitSafety Base64 Units Numeric SafeNumerics CustomVideoCapturer RepeatingTask ThreadPoolProgress Signals VideoBitrateAllocation FrameBufferSafety SharedBufferSafety FramePool StringEncode Metrics FileGenerators SquareGenerators
begin

text \<open>
  Verification of OpenCTK, a C++ toolkit of a core library (\<open>src/libs/core\<close>), a media library
  (\<open>src/libs/media\<close>), a network library and an ImGui binding.

  \<^bold>\<open>The program.\<close> The core library holds what the others build on: bit arithmetic and integer helpers
  (\<open>source/numerics\<close>), text and binary encodings (\<open>source/text\<close>), units of time, size and rate
  (\<open>source/units\<close>), buffers, metrics and random numbers (\<open>source/tools\<close>), reference counts (\<open>source/memory\<close>), task queues and thread
  pools (\<open>source/thread\<close>), signals and slots (\<open>source/kernel\<close>), beside logging and time. The media library moves video frames from
  sources to sinks: a generator or a camera makes frames in buffers of several pixel formats, a capturer hands a frame to a \<open>VideoAdapter\<close>, which drops, crops or scales it to
  meet the wants of the sinks and the requests of the application, and to a \<open>VideoBroadcaster\<close>, which
  delivers it to every registered sink and combines the wants of the sinks for the source.

  \<^bold>\<open>The theories\<close>, in the order of their imports, and the sources they model:
  \<^item> \<open>Octk_Prelude\<close>: the integer types, checked arithmetic, guarded memory access, the locale
    \<open>safe_ops\<close> of operations that preserve an invariant, and shared lemmas.
  \<^item> \<open>Bits\<close>: \<open>numerics/octk_bits.hpp\<close>.
  \<^item> \<open>BitReader\<close>, \<open>BitWriter\<close>: the classes \<open>BitBufferReader\<close> and \<open>BitBufferWriter\<close> of
    \<open>text/octk_bit_buffer.hpp\<close> and \<open>.cpp\<close>, each refined to a bit position in a sequence of bits.
  \<^item> \<open>BitCodec\<close>: the two together. The locale \<open>bit_codec\<close> is the contract of an encoding; the formats of
    the buffer classes are interpretations of it, and sequences of values are read back as written.
  \<^item> \<open>BitSafety\<close>: whole sessions of a reader or writer stay inside the buffer, by \<open>safe_ops\<close>.
  \<^item> \<open>Base64\<close>: \<open>text/octk_base64.hpp\<close> and \<open>.cpp\<close>, with a reference encoding by recursion.
  \<^item> \<open>Units\<close>: \<open>units/octk_unit_base.hpp\<close> and the five unit types, \<open>numerics/octk_divide_round.hpp\<close>; refined
    to the integers with two infinities.
  \<^item> \<open>Numeric\<close>: \<open>numerics/octk_numeric.hpp\<close>, and checked \<open>int\<close> arithmetic.
  \<^item> \<open>SafeNumerics\<close>: \<open>numerics/octk_safe_compare.hpp\<close>, \<open>octk_safe_conversions.hpp\<close>, \<open>octk_safe_minmax.hpp\<close>,
    with the types of the language as values.
  \<^item> \<open>VideoTypes\<close>: rotations, and the sizes of the memory of frames that several theories need.
  \<^item> \<open>VideoFrame\<close>: \<open>video/octk_video_frame.hpp\<close> and \<open>.cpp\<close>: frames, builder, update rectangles.
  \<^item> \<open>VideoBroadcaster\<close>: \<open>octk_video_source_base.cpp\<close>, \<open>octk_video_broadcaster.cpp\<close>. The locale
    \<open>sink_registry\<close> is what the broadcaster relies on in its base class; it is interpreted for both
    base classes. The reachable states are the inductive predicate \<open>bc_reach\<close>.
  \<^item> \<open>Floating\<close>: rounding of rational results to the significand of \<open>float\<close> and \<open>double\<close>.
  \<^item> \<open>Framerate\<close>: \<open>octk_framerate_controller.cpp\<close>.
  \<^item> \<open>VideoAdapter\<close>: \<open>octk_video_adapter.cpp\<close>.
  \<^item> \<open>CustomVideoCapturer\<close>: \<open>capture/custom/octk_custom_video_capturer.cpp\<close>, the composition of the
    adapter and the broadcaster, with its reachable states \<open>cap_reach\<close>.
  \<^item> \<open>OrderedSet\<close>: \<open>std::set\<close> with a comparison object, as a sorted list; the locale \<open>set_compare\<close> is what a
    comparison must satisfy, interpreted for the comparisons of the task queue and of the thread pool.
  \<^item> \<open>TaskQueueThread\<close>: \<open>thread/octk_task_queue_thread.cpp\<close>, with the interleavings of callers and the thread of
    the queue as the inductive predicate \<open>reach\<close>; a call notifies the thread only while it waits, and the thread leaves the wait when it is notified, at its
    deadline, or spuriously.
  \<^item> \<open>RepeatingTask\<close>: \<open>thread/octk_repeating_task.cpp\<close> and the safety flag of \<open>octk_task_queue.cpp\<close>.
  \<^item> \<open>ThreadPool\<close>, \<open>ThreadPoolProgress\<close>: \<open>thread/octk_thread_pool.cpp\<close> and \<open>octk_thread_pool_p.hpp\<close>. The calls
    and the steps of threads are \<open>pool_step\<close>, the states they lead to \<open>pool_reach\<close>. A task is held in the queue or with a thread of the pool, or abandoned
    with a thread that \<open>reset\<close> took out of the pool; the second theory counts the steps that are left.
  \<^item> \<open>Signals\<close>: \<open>kernel/octk_signals.hpp\<close>. Operations on the groups of slots are refined to operations on a set; calls,
    disconnections and emissions are the steps \<open>sig_step\<close>, the states they lead to \<open>sig_reach\<close>. An emission goes through the stages of the call of a
    slot, each look at a flag, the lock of a weak pointer and the call being a step of its own.
  \<^item> \<open>VideoBitrateAllocation\<close>: \<open>video/octk_video_bitrate_allocation.cpp\<close>.
  \<^item> \<open>FrameBuffers\<close>, \<open>FrameBufferSafety\<close>: the buffer classes of the seven formats I420, I422, I444, I010, I210, I410 and NV12 in
    \<open>video/octk_*_buffer.cpp\<close>. A buffer is its format, size, strides and memory; the calls of libyuv are recorded with their planes, and the second
    theory shows where they read and write.
  \<^item> \<open>Simulation\<close>: the locale \<open>simulation\<close> of a session of operations that simulates an abstract one, interpreted for buffers, shared buffers, the frame pool and metrics.
  \<^item> \<open>Buffers\<close>: \<open>tools/octk_buffer.hpp\<close>, the buffer that grows, with zeroing of released memory.
  \<^item> \<open>SharedBuffer\<close>, \<open>SharedBufferLaws\<close>, \<open>SharedBufferSafety\<close>: \<open>tools/octk_shared_buffer.cpp\<close> on top of the reference counts of \<open>source/memory\<close>, with
    a store of counted objects; copies and slices share memory, and are refined to independent lists.
  \<^item> \<open>FramePool\<close>: \<open>video/octk_video_frame_buffer_pool.cpp\<close>, with the pointers the application holds.
  \<^item> \<open>StringEncode\<close>: \<open>text/octk_string_encode.cpp\<close>.
  \<^item> \<open>Metrics\<close>: \<open>tools/octk_metrics.cpp\<close>, refined to a multiset of samples for each name.
  \<^item> \<open>RandomNumbers\<close>: \<open>tools/octk_random.cpp\<close>. The locale \<open>random_generator\<close> is what strings and ids rely on; the test generator satisfies it, the default
    generator, which leaves the memory unwritten, does not.
  \<^item> \<open>FileGenerators\<close>, \<open>SquareGenerators\<close>: \<open>capture/custom/octk_frame_generator.cpp\<close>. The locale \<open>frame_reader\<close> is the contract of reading a frame from a file,
    interpreted for I420 and NV12; squares are drawn by recorded fills of the planes, and the time of day by recorded copies of glyphs, which must stay in the memory of the frame.

  \<^bold>\<open>How the code is modelled.\<close> An object is a record of its members, a method a function from the old
  state to the new state and the result. The value \<^term>\<open>None\<close> of an \<open>option\<close> result stands for what
  the code must not do: signed overflow, division by zero, an access outside an array, a failed
  \<open>OCTK_DCHECK\<close>, a loop that does not end. A theorem that an operation returns \<^term>\<open>Some\<close> value is
  therefore a theorem that none of this happens. Failures the code itself reports (a reader in the
  failure state, a \<open>bool\<close> result) are ordinary values. Methods that hold a mutex from beginning to end are
  one step. Calls to sinks are events, returned in their order.

  \<^bold>\<open>What is proved.\<close> For the buffers: memory safety of every session, equality of the byte-wise
  routines with bit-by-bit references, and round trips of all formats. For Base64: round trip,
  totality, and canonical form of what the strict decoder accepts. For units and numerics: agreement
  with exact arithmetic wherever the result exists, and the cases where it does not. For video: the
  geometry of update rectangles, with the case in which \<open>scaleWithFrame\<close> compares with the wrong side of the crop, the delivery contract of the broadcaster in every reachable state, the
  combination of wants, the long-run rate of the controller, termination and bounds of the search for
  a scale, the size contract of the adapter, the refinement of its stashed request, and for the
  capturer that every delivered frame respects what every counted sink asked for. For threads: the
  history of a task queue under every interleaving (each post is started once at most, delayed tasks not before
  their time, plain tasks in order), which posts a waiting thread may overlook and for how long, the schedule of a repeating task, and for the pool that no assertion
  fails, no task is run twice, only \<open>reset\<close> loses tasks and which, what \<open>isDone\<close> means, and that all other work is done in the end. For
  signals: which slots an emission calls, in which order, and that a disconnected slot is called again only by emissions that had looked at its connection before. For frame buffers: the
  planes are disjoint and fill the memory, and no copy, conversion, rotation, crop or scaling leaves them; the pool never hands out a buffer in use. For
  buffers and shared buffers: sessions behave like lists and release no memory with old contents. For metrics: all samples are counted. For hexadecimal text:
  decoding stays in bounds and inverts encoding. For random numbers and frame generators: numbers in range, strings and ids as the bytes of the generator determine them, drawings inside the
  planes for sizes that have room for the time, and the order of the frames of files. Where the code does not do what it means to, a theorem shows the failing case: update rectangles, lost wake-ups of a task queue, tasks lost by
  \<open>waitForDone\<close>, empty shared buffers, the default random generator, the scrolling generator before its first frame, and the time drawn into small frames.

  \<^bold>\<open>Bounds.\<close> Statements about \<open>int\<close> computations need inputs for which the code does not overflow:
  readers of fewer than \<open>2 ^ 28\<close> bytes (the number of bits is cast to \<open>int\<close> unchecked), coordinates up to 32767 in \<open>scaleWithFrame\<close>, frames up to 16384 by 16384 in delivery (the buffer size is
  an \<open>int\<close>), inputs of the adapter below \<open>2 ^ 24\<close> pixels and up to 65535 on a side, aspect ratios up to
  4096 and alignments up to 32768, timestamps up to \<open>2 ^ 61\<close> nanoseconds either way; in the task queue
  times up to \<open>2 ^ 61\<close> microseconds and fewer than \<open>2 ^ 64\<close> posts, in the pool fewer than \<open>2 ^ 64\<close> queued tasks. Frame buffers and generated
  frames have up to 16384 by 16384 pixels, buffers up to \<open>2 ^ 62\<close> elements, hexadecimal text fewer than \<open>2 ^ 63\<close> characters, a histogram fewer than
  \<open>2 ^ 31 - 1\<close> samples of a value, files fewer than \<open>2 ^ 63\<close> bytes, and the periods of a scrolling image fewer than \<open>2 ^ 53\<close> milliseconds. The loop of \<open>updateSourceFrame\<close> has
  fuel for one round of the files, which is proved to be enough; that of \<open>CreateRandomNonZeroId\<close>, which need not end, is run for a number
  of tries, and a loop that still runs is a result of its own. The loops of
  \<open>FindScale\<close> and of \<open>tryToStartMoreThreads\<close>, which may not end in general, are \<open>partial_function\<close>s; they
  are proved to return.

  \<^bold>\<open>Not modelled.\<close> What libyuv does to pixels (its calls are recorded, that it accepts images of positive size is a named hypothesis), the glyphs
  of the frame generator, platform threads, timed waits, exceptions, logging, formatting and conversion of strings, time beyond what is listed, the camera and
  portal sources, the WebRTC backend and codecs, HTTP and TLS, ImGui: these parts are calls of libraries and of the system. The event loop is
  unfinished in the repository. Allocation always succeeds. Floating-point exponents are unbounded, and the
  floating-point versions of the numeric templates and the random distributions are left out. In the video classes, calls that other threads make between
  two locked sections of one method are not interleaved.
\<close>

end
